(* ===== verification/DAPS_Prelude.thy ===== *)
theory DAPS_Prelude
  imports Main "HOL-Library.Word"
begin

text \<open>
  Shared vocabulary of the development: the machine integer types of the C++ code, byte
  vectors and their little-endian reading, the sum type used for code that throws, the
  collections of facts the component theories feed to the simplifier, and the interface
  of a self-delimiting byte encoding.

  The memory layout is that of the supported targets (little endian): a \<open>memcpy\<close>
  between an integer and a byte array is the function \<open>le_val\<close> or \<open>le_bytes\<close>.
\<close>

unbundle bit_operations_syntax

section \<open>Machine types\<close>

type_synonym byte = "8 word"
type_synonym u16 = "16 word"
type_synonym u32 = "32 word"
type_synonym u64 = "64 word"
type_synonym bytes = "byte list"

text \<open>Facts about sizes and values of limb vectors, used by the arithmetic proofs.\<close>
named_theorems limb_simps

text \<open>Facts that rewrite reading after writing of encoders and decoders.\<close>
named_theorems codec_simps

section \<open>Words of different widths\<close>

lemma unat_u32_less [simp]: "unat (w :: u32) < 4294967296"
  using unsigned_less [of w] by simp

lemma unat_u32_le: "unat (w :: u32) \<le> 4294967295"
  using unat_u32_less [of w] by linarith

lemma unat_byte_less [simp]: "unat (w :: byte) < 256"
  using unsigned_less [of w] by simp

lemma unat_byte_le: "unat (w :: byte) \<le> 255"
  using unat_byte_less [of w] by linarith

lemma unat_u16_less [simp]: "unat (w :: u16) < 65536"
  using unsigned_less [of w] by simp

lemma unat_u16_le: "unat (w :: u16) \<le> 65535"
  using unat_u16_less [of w] by linarith

lemma unat_u64_less [simp]: "unat (w :: u64) < 18446744073709551616"
  using unsigned_less [of w] by simp

lemma unat_ucast_up:
  assumes "LENGTH('a) \<le> LENGTH('b)"
  shows "unat (ucast (w :: 'a::len word) :: 'b::len word) = unat w"
proof -
  have "unat w < 2 ^ LENGTH('b)"
    using unsigned_less [of w] assms by (meson less_le_trans one_le_numeral power_increasing)
  then show ?thesis
    by (simp add: unsigned_ucast_eq take_bit_nat_eq_self_iff)
qed

lemma ucast_up_down:
  assumes "LENGTH('a) \<le> LENGTH('b)"
  shows "ucast (ucast (w :: 'a::len word) :: 'b::len word) = w"
proof -
  have "unat (ucast (ucast w :: 'b word) :: 'a word) = take_bit LENGTH('a) (unat (ucast w :: 'b word))"
    by (rule unsigned_ucast_eq)
  then have "unat (ucast (ucast w :: 'b word) :: 'a word) = unat w"
    using unsigned_less [of w, where 'a = nat] by (simp only: unat_ucast_up [OF assms] take_bit_nat_eq_self)
  then show ?thesis by (simp add: word_unat_eq_iff)
qed

lemma unat_ucast_32_64 [simp]: "unat (ucast (w :: u32) :: u64) = unat w"
  by (rule unat_ucast_up) simp

lemma unat_ucast_8_32 [simp]: "unat (ucast (w :: byte) :: u32) = unat w"
  by (rule unat_ucast_up) simp

lemma unat_ucast_8_64 [simp]: "unat (ucast (w :: byte) :: u64) = unat w"
  by (rule unat_ucast_up) simp

lemma unat_push_bit:
  assumes "unat (w :: 'a::len word) * 2 ^ n < 2 ^ LENGTH('a)"
  shows "unat (push_bit n w) = unat w * 2 ^ n"
proof -
  have "unat (push_bit n w) = take_bit LENGTH('a) (push_bit n (unat w))"
    by (simp only: unsigned_push_bit_eq)
  with assms show ?thesis
    by (simp add: push_bit_eq_mult take_bit_eq_mod)
qed

lemma unat_drop_bit_div: "unat (drop_bit n (w :: 'a::len word)) = unat w div 2 ^ n"
proof -
  have "unat (drop_bit n w) = drop_bit n (unat w)" by (simp only: unat_drop_bit_eq)
  then show ?thesis by (simp only: drop_bit_eq_div)
qed

lemma unat_and_mask: "unat (w AND mask n :: 'a::len word) = unat w mod 2 ^ n"
proof -
  have "unat (w AND mask n) = take_bit n (unat w)"
    by (simp only: unsigned_take_bit_eq flip: take_bit_eq_mask)
  then show ?thesis by (simp only: take_bit_eq_mod)
qed

lemma bit_word_odd: "bit (w :: 'a::len word) n \<longleftrightarrow> odd (unat w div 2 ^ n)"
proof -
  have "bit w n \<longleftrightarrow> bit (unat w) n" by (simp add: bit_unsigned_iff)
  then show ?thesis by (simp only: bit_iff_odd [of "unat w" n])
qed

text \<open>A 64-bit value is its low 32 bits plus \<open>2^32\<close> times the bits above.\<close>

definition lo32 :: "u64 \<Rightarrow> u32" where
  "lo32 n = ucast (n AND 0xffffffff)"

definition hi32 :: "u64 \<Rightarrow> u64" where
  "hi32 n = drop_bit 32 n"

lemma unat_lo32: "unat (lo32 n) = unat n mod 2 ^ 32"
proof -
  have "(0xffffffff :: u64) = mask 32"
    by (simp add: mask_eq_exp_minus_1)
  then have "lo32 n = ucast (take_bit 32 n)"
    by (simp add: lo32_def take_bit_eq_mask)
  then have "unat (lo32 n) = take_bit 32 (unat (take_bit 32 n))"
    by (simp add: unsigned_ucast_eq)
  also have "\<dots> = take_bit 32 (unat n)"
    by (simp only: unsigned_take_bit_eq take_bit_take_bit min.idem)
  finally show ?thesis
    by (simp only: take_bit_eq_mod)
qed

lemma unat_hi32: "unat (hi32 n) = unat n div 2 ^ 32"
proof -
  have "unat (hi32 n) = drop_bit 32 (unat n)"
    by (simp only: hi32_def unat_drop_bit_eq)
  then show ?thesis
    by (simp only: drop_bit_eq_div)
qed

lemma lo32_hi32: "unat (lo32 n) + 2 ^ 32 * unat (hi32 n) = unat n"
  by (simp add: unat_lo32 unat_hi32)

lemma unat_hi32_less: "unat (hi32 n) < 2 ^ 32"
proof -
  have "unat n < 2 ^ 32 * 2 ^ 32"
    using unsigned_less [of n] by simp
  then show ?thesis
    by (simp only: unat_hi32 less_mult_imp_div_less)
qed

lemma unat_ucast_64_32: "unat (ucast (n :: u64) :: u32) = unat n mod 2 ^ 32"
  by (simp only: unsigned_ucast_eq take_bit_eq_mod) simp

section \<open>Arithmetic in a positional system\<close>

text \<open>One step of a carry chain: the low digit stays, the rest joins the next digits.\<close>

lemma mod_step:
  "(x :: nat) mod N + N * ((x div N + y) mod M) = (x + N * y) mod (N * M)"
proof (cases "N = 0")
  case False
  then have "(x + N * y) div N = x div N + y" and "(x + N * y) mod N = x mod N"
    by simp_all
  then show ?thesis
    by (simp add: mod_mult2_eq)
qed simp

lemma mod_step_low: "(t :: nat) < N \<Longrightarrow> t + N * (y mod M) = (t + N * y) mod (N * M)"
  using mod_step [of t N y M] by simp

lemma digit_eq_iff:
  assumes "(a :: nat) < N" and "b < N"
  shows "a + N * x = b + N * y \<longleftrightarrow> a = b \<and> x = y"
proof
  assume eq: "a + N * x = b + N * y"
  then have "(a + N * x) mod N = (b + N * y) mod N" and "(a + N * x) div N = (b + N * y) div N"
    by simp_all
  with assms show "a = b \<and> x = y" by simp
qed simp

lemma bit_split_nat:
  assumes "(a :: nat) < 2 ^ k"
  shows "bit (a + 2 ^ k * b) n = (if n < k then bit a n else bit b (n - k))"
proof -
  have "take_bit k (a + 2 ^ k * b) = a" and "drop_bit k (a + 2 ^ k * b) = b"
    using assms by (simp_all add: take_bit_eq_mod drop_bit_eq_div)
  then have "n < k \<Longrightarrow> bit (a + 2 ^ k * b) n = bit a n"
    and "\<not> n < k \<Longrightarrow> bit (a + 2 ^ k * b) n = bit b (n - k)"
    by (metis bit_take_bit_iff, metis bit_drop_bit_eq comp_apply le_add_diff_inverse not_less)
  then show ?thesis by simp
qed

section \<open>Disjoint bit patterns as sums\<close>

lemma or_add_high:
  assumes "(x :: nat) < 2 ^ k"
  shows "x OR (2 ^ k * n) = x + 2 ^ k * n"
proof (rule bit_eqI)
  fix i
  have "take_bit k x = x"
    using assms by (simp add: take_bit_eq_mod)
  then have "bit x i \<Longrightarrow> i < k"
    by (metis bit_take_bit_iff)
  moreover have "bit (2 ^ k * n) i = (if i < k then False else bit n (i - k))"
    using bit_split_nat [of 0 k n i] by simp
  ultimately show "bit (x OR (2 ^ k * n)) i = bit (x + 2 ^ k * n) i"
    using assms by (auto simp: bit_or_iff bit_split_nat)
qed

lemma or_add_bit: "\<not> bit (x :: nat) k \<Longrightarrow> x OR 2 ^ k = x + 2 ^ k"
  by (intro disjunctive_add_eq_or [symmetric] bit_eqI) (auto simp: bit_and_iff bit_exp_iff)

section \<open>Little-endian byte strings\<close>

primrec le_val :: "bytes \<Rightarrow> nat" where
  "le_val [] = 0"
| "le_val (b # bs) = unat b + 256 * le_val bs"

primrec le_bytes :: "nat \<Rightarrow> nat \<Rightarrow> bytes" where
  "le_bytes 0 n = []"
| "le_bytes (Suc k) n = of_nat n # le_bytes k (n div 256)"

lemma length_le_bytes [simp]: "length (le_bytes k n) = k"
  by (induction k arbitrary: n) simp_all

lemma le_val_append: "le_val (xs @ ys) = le_val xs + 256 ^ length xs * le_val ys"
  by (induction xs) (simp_all add: algebra_simps)

lemma le_val_less: "le_val bs < 256 ^ length bs"
proof (induction bs)
  case (Cons b bs)
  have "unat b + 256 * le_val bs < 256 + 256 * le_val bs" by simp
  also have "\<dots> \<le> 256 * 256 ^ length bs" using Cons by simp
  finally show ?case by simp
qed simp

lemma le_val_le_bytes [codec_simps]: "le_val (le_bytes k n) = n mod 256 ^ k"
proof (induction k arbitrary: n)
  case (Suc k)
  have "unat (of_nat n :: byte) = n mod 256" by (simp add: unat_of_nat)
  then show ?case using Suc mod_mult2_eq [of n 256 "256 ^ k"] by simp
qed simp

lemma le_bytes_le_val [codec_simps]: "le_bytes (length bs) (le_val bs) = bs"
proof (induction bs)
  case (Cons b bs)
  have "(unat b + 256 * le_val bs) div 256 = le_val bs" by simp
  moreover have "(of_nat (unat b + 256 * le_val bs) :: byte) = b"
  proof (rule word_unat_eq_iff [THEN iffD2])
    have "unat (of_nat (unat b + 256 * le_val bs) :: byte) = (unat b + 256 * le_val bs) mod 2 ^ 8"
      by (simp only: unat_of_nat) simp
    then show "unat (of_nat (unat b + 256 * le_val bs) :: byte) = unat b"
      by simp
  qed
  ultimately show ?case using Cons by simp
qed simp

lemma le_val_inj: "length xs = length ys \<Longrightarrow> le_val xs = le_val ys \<Longrightarrow> xs = ys"
  by (metis le_bytes_le_val)

lemma le_bytes_split: "n < 256 ^ length bs \<Longrightarrow> le_bytes (length bs) n = bs \<longleftrightarrow> n = le_val bs"
  by (metis le_bytes_le_val le_val_le_bytes mod_less)

end
