(* ===== verification/Base_Uint.thy ===== *)
theory Base_Uint
  imports DAPS_Prelude
begin

text \<open>
  \<open>uint256.h\<close> and \<open>uint256.cpp\<close>: the template \<open>base_uint<BITS>\<close>, an unsigned
  integer stored as \<open>WIDTH = BITS / 32\<close> limbs of 32 bits, least significant first.
  The limb array \<open>pn\<close> is a list of words; its length is \<open>WIDTH\<close>. The loops of the
  class are recursions over the limbs, with the 64-bit intermediate \<open>n\<close> and the carry
  of the code; an operation that updates \<open>*this\<close> returns the new limbs. Division by
  zero, the one operation that throws, returns a sum.

  The abstraction \<open>val\<close> reads the limbs as a natural number. Every operation is
  shown to be the operation on naturals modulo \<open>2 ^ BITS\<close>.
\<close>

section \<open>The limb vector and its value\<close>

type_synonym limbs = "u32 list"

datatype uint_error = DivisionByZero | WrongSize

primrec val :: "limbs \<Rightarrow> nat" where
  "val [] = 0"
| "val (p # ps) = unat p + 2 ^ 32 * val ps"

definition zero_limbs :: "nat \<Rightarrow> limbs" where
  "zero_limbs W = replicate W 0"

fun of_u64 :: "nat \<Rightarrow> u64 \<Rightarrow> limbs" where
  "of_u64 W b = ucast b # ucast (drop_bit 32 b) # replicate (W - 2) 0"

definition IsNull :: "limbs \<Rightarrow> bool" where
  "IsNull pn \<longleftrightarrow> list_all (\<lambda>p. p = 0) pn"

section \<open>Bitwise operators, negation, increment\<close>

definition op_not :: "limbs \<Rightarrow> limbs" where
  "op_not pn = map NOT pn"

primrec op_inc :: "limbs \<Rightarrow> limbs" where
  "op_inc [] = []"
| "op_inc (p # ps) = (let p' = p + 1 in if p' = 0 then p' # op_inc ps else p' # ps)"

primrec op_dec :: "limbs \<Rightarrow> limbs" where
  "op_dec [] = []"
| "op_dec (p # ps) = (let p' = p - 1 in if p' = - 1 then p' # op_dec ps else p' # ps)"

definition op_neg :: "limbs \<Rightarrow> limbs" where
  "op_neg pn = op_inc (op_not pn)"

definition op_xor :: "limbs \<Rightarrow> limbs \<Rightarrow> limbs" where
  "op_xor a b = map2 (XOR) a b"

definition op_and :: "limbs \<Rightarrow> limbs \<Rightarrow> limbs" where
  "op_and a b = map2 (AND) a b"

definition op_or :: "limbs \<Rightarrow> limbs \<Rightarrow> limbs" where
  "op_or a b = map2 (OR) a b"

section \<open>Addition, subtraction, multiplication\<close>

fun add_loop :: "u64 \<Rightarrow> limbs \<Rightarrow> limbs \<Rightarrow> limbs" where
  "add_loop carry (p # ps) (q # qs) =
     (let n = carry + ucast p + ucast q in lo32 n # add_loop (hi32 n) ps qs)"
| "add_loop carry _ _ = []"

definition op_add :: "limbs \<Rightarrow> limbs \<Rightarrow> limbs" where
  "op_add a b = add_loop 0 a b"

definition op_sub :: "limbs \<Rightarrow> limbs \<Rightarrow> limbs" where
  "op_sub a b = op_add a (op_neg b)"

fun mul32_loop :: "u64 \<Rightarrow> u32 \<Rightarrow> limbs \<Rightarrow> limbs" where
  "mul32_loop carry b32 [] = []"
| "mul32_loop carry b32 (p # ps) =
     (let n = carry + ucast b32 * ucast p in lo32 n # mul32_loop (hi32 n) b32 ps)"

definition op_mul32 :: "limbs \<Rightarrow> u32 \<Rightarrow> limbs" where
  "op_mul32 a b32 = mul32_loop 0 b32 a"

text \<open>
  The inner loop of \<open>operator*=\<close>: for \<open>i\<close> with \<open>i + j < WIDTH\<close>, add
  \<open>a.pn[j] * b.pn[i]\<close> and the carry into \<open>pn[i + j]\<close>.
\<close>

fun mac_row :: "u64 \<Rightarrow> u32 \<Rightarrow> limbs \<Rightarrow> limbs \<Rightarrow> limbs" where
  "mac_row carry x (p # ps) (q # qs) =
     (let n = carry + ucast p + ucast x * ucast q in lo32 n # mac_row (hi32 n) x ps qs)"
| "mac_row carry x _ _ = []"

definition op_mul :: "limbs \<Rightarrow> limbs \<Rightarrow> limbs" where
  "op_mul a b = foldl (\<lambda>pn j. take j pn @ mac_row 0 (a ! j) (drop j pn) b)
     (zero_limbs (length a)) [0..<length a]"

section \<open>Shifts\<close>

text \<open>One iteration of the loops of \<open>operator<<=\<close> and \<open>operator>>=\<close>.\<close>

definition shl_step :: "limbs \<Rightarrow> nat \<Rightarrow> nat \<Rightarrow> limbs \<Rightarrow> nat \<Rightarrow> limbs" where
  "shl_step a k s pn i =
     (let W = length a;
          pn = (if i + k + 1 < W \<and> s \<noteq> 0
                then pn[i + k + 1 := pn ! (i + k + 1) OR drop_bit (32 - s) (a ! i)] else pn)
      in if i + k < W then pn[i + k := pn ! (i + k) OR push_bit s (a ! i)] else pn)"

definition op_shl :: "limbs \<Rightarrow> nat \<Rightarrow> limbs" where
  "op_shl a shift =
     foldl (shl_step a (shift div 32) (shift mod 32)) (zero_limbs (length a)) [0..<length a]"

definition shr_step :: "limbs \<Rightarrow> nat \<Rightarrow> nat \<Rightarrow> limbs \<Rightarrow> nat \<Rightarrow> limbs" where
  "shr_step a k s pn i =
     (let pn = (if k + 1 \<le> i \<and> s \<noteq> 0
                then pn[i - k - 1 := pn ! (i - k - 1) OR push_bit (32 - s) (a ! i)] else pn)
      in if k \<le> i then pn[i - k := pn ! (i - k) OR drop_bit s (a ! i)] else pn)"

definition op_shr :: "limbs \<Rightarrow> nat \<Rightarrow> limbs" where
  "op_shr a shift =
     foldl (shr_step a (shift div 32) (shift mod 32)) (zero_limbs (length a)) [0..<length a]"

section \<open>Comparison and bit length\<close>

primrec compare_loop :: "limbs \<Rightarrow> limbs \<Rightarrow> nat \<Rightarrow> int" where
  "compare_loop a b 0 = 0"
| "compare_loop a b (Suc i) =
     (if a ! i < b ! i then - 1 else if a ! i > b ! i then 1 else compare_loop a b i)"

definition CompareTo :: "limbs \<Rightarrow> limbs \<Rightarrow> int" where
  "CompareTo a b = compare_loop a b (length a)"

definition op_less :: "limbs \<Rightarrow> limbs \<Rightarrow> bool" where
  "op_less a b \<longleftrightarrow> CompareTo a b < 0"

definition op_le :: "limbs \<Rightarrow> limbs \<Rightarrow> bool" where
  "op_le a b \<longleftrightarrow> CompareTo a b \<le> 0"

definition EqualTo :: "limbs \<Rightarrow> u64 \<Rightarrow> bool" where
  "EqualTo pn b \<longleftrightarrow>
     list_all (\<lambda>p. p = 0) (drop 2 pn) \<and> ucast (pn ! 1) = drop_bit 32 b
     \<and> ucast (pn ! 0) = b AND 0xffffffff"

text \<open>The two nested loops of \<open>bits()\<close>, both from the top down.\<close>

primrec top_bit_loop :: "u32 \<Rightarrow> nat \<Rightarrow> nat" where
  "top_bit_loop p 0 = 0"
| "top_bit_loop p (Suc b) =
     (if p AND push_bit (Suc b) 1 \<noteq> 0 then Suc b else top_bit_loop p b)"

primrec bits_loop :: "limbs \<Rightarrow> nat \<Rightarrow> nat" where
  "bits_loop pn 0 = 0"
| "bits_loop pn (Suc pos) =
     (if pn ! pos \<noteq> 0 then 32 * pos + top_bit_loop (pn ! pos) 31 + 1 else bits_loop pn pos)"

definition bits_of :: "limbs \<Rightarrow> nat" where
  "bits_of pn = bits_loop pn (length pn)"

section \<open>Division\<close>

text \<open>
  The loop of \<open>operator/=\<close>: \<open>shift\<close> counts down to 0 inclusive, so the recursion
  is on \<open>shift + 1\<close>. The state is the remainder \<open>num\<close>, the shifted divisor
  \<open>div\<close> and the quotient \<open>pn\<close>.
\<close>

primrec div_loop :: "nat \<Rightarrow> limbs \<Rightarrow> limbs \<Rightarrow> limbs \<Rightarrow> limbs" where
  "div_loop 0 num dv pn = pn"
| "div_loop (Suc shift) num dv pn =
     (if op_le dv num
      then div_loop shift (op_sub num dv) (op_shr dv 1)
             (pn[shift div 32 := pn ! (shift div 32) OR push_bit (shift mod 32) 1])
      else div_loop shift num (op_shr dv 1) pn)"

definition op_div :: "limbs \<Rightarrow> limbs \<Rightarrow> uint_error + limbs" where
  "op_div a b =
     (let num_bits = bits_of a; div_bits = bits_of b
      in if div_bits = 0 then Inl DivisionByZero
         else if div_bits > num_bits then Inr (zero_limbs (length a))
         else let shift = num_bits - div_bits
              in Inr (div_loop (Suc shift) a (op_shl b shift) (zero_limbs (length a))))"

definition Get64 :: "limbs \<Rightarrow> u64" where
  "Get64 pn = ucast (pn ! 0) OR push_bit 32 (ucast (pn ! 1))"

section \<open>Facts about the value\<close>

lemma val_append: "val (xs @ ys) = val xs + 2 ^ (32 * length xs) * val ys"
  by (induction xs) (simp_all add: algebra_simps power_add)

lemma val_less: "val pn < 2 ^ (32 * length pn)"
proof (induction pn)
  case (Cons p ps)
  have "unat p + 2 ^ 32 * val ps < 2 ^ 32 + 2 ^ 32 * val ps"
    using unsigned_less [of p] by simp
  also have "\<dots> = 2 ^ 32 * (val ps + 1)" by simp
  also have "\<dots> \<le> 2 ^ 32 * 2 ^ (32 * length ps)"
    using Cons.IH by (intro mult_le_mono2) simp
  also have "\<dots> = 2 ^ (32 * length (p # ps))"
    by (simp add: power_add)
  finally show ?case by simp
qed simp

lemma val_mod [simp]: "val pn mod 2 ^ (32 * length pn) = val pn"
  by (simp add: val_less)

lemma val_inj: "length a = length b \<Longrightarrow> val a = val b \<longleftrightarrow> a = b"
proof (induction a b rule: list_induct2)
  case (Cons p ps q qs)
  have "unat p + 2 ^ 32 * val ps = unat q + 2 ^ 32 * val qs \<longleftrightarrow> unat p = unat q \<and> val ps = val qs"
    by (rule digit_eq_iff) simp_all
  with Cons.IH show ?case
    by (simp add: word_unat_eq_iff)
qed simp

lemma val_replicate_0 [simp]: "val (replicate n 0) = 0"
  by (induction n) simp_all

lemma val_zero_limbs [simp]: "val (zero_limbs W) = 0"
  by (simp add: zero_limbs_def)

lemma length_zero_limbs [simp]: "length (zero_limbs W) = W"
  by (simp add: zero_limbs_def)

lemma val_of_u64: "val (of_u64 W b) = unat b"
proof -
  have "unat (ucast (drop_bit 32 b) :: u32) = unat (hi32 b)"
    using unat_hi32_less [of b] by (simp add: unat_ucast_64_32 hi32_def)
  then show ?thesis
    using lo32_hi32 [of b] by (simp add: unat_ucast_64_32 unat_lo32)
qed

lemma val_eq_0_iff: "val pn = 0 \<longleftrightarrow> IsNull pn"
  by (induction pn) (auto simp: IsNull_def unat_eq_0)

lemma bit_val: "bit (val pn) n \<longleftrightarrow> n div 32 < length pn \<and> bit (pn ! (n div 32)) (n mod 32)"
proof (induction pn arbitrary: n)
  case (Cons p ps)
  have "unat p < 2 ^ 32"
    using unsigned_less [of p] by simp
  then have *: "bit (val (p # ps)) n = (if n < 32 then bit (unat p) n else bit (val ps) (n - 32))"
    by (simp only: val.simps bit_split_nat)
  show ?case
  proof (cases "n < 32")
    case True
    then show ?thesis unfolding * by (simp add: bit_unsigned_iff)
  next
    case False
    then have "n div 32 = Suc ((n - 32) div 32)" and "n mod 32 = (n - 32) mod 32"
      by (simp_all add: le_div_geq le_mod_geq)
    with False show ?thesis unfolding * by (simp add: Cons.IH)
  qed
qed simp

section \<open>Negation, increment, addition and subtraction\<close>

lemma length_op_not [simp]: "length (op_not a) = length a"
  by (simp add: op_not_def)

lemma length_op_inc [simp]: "length (op_inc a) = length a"
  by (induction a) (simp_all add: Let_def)

lemma length_op_dec [simp]: "length (op_dec a) = length a"
  by (induction a) (simp_all add: Let_def)

lemma length_op_neg [simp]: "length (op_neg a) = length a"
  by (simp add: op_neg_def)

lemma unat_NOT_32: "unat (NOT (p :: u32)) + unat p = 2 ^ 32 - 1"
proof -
  have "NOT p = - 1 - p" by (simp add: not_eq_complement)
  then have "unat (NOT p) = unat (- 1 :: u32) - unat p"
    by (simp add: unat_sub word_order.extremum)
  moreover have "unat p \<le> unat (- 1 :: u32)"
    by (simp add: unsigned_minus_1_eq_mask mask_eq_exp_minus_1)
      (use unat_u32_less [of p] in linarith)
  ultimately show ?thesis
    by (simp add: unsigned_minus_1_eq_mask mask_eq_exp_minus_1)
qed

lemma val_op_not: "val (op_not a) + val a = 2 ^ (32 * length a) - 1"
proof (induction a)
  case (Cons p ps)
  have "val (op_not (p # ps)) + val (p # ps)
      = (unat (NOT p) + unat p) + 2 ^ 32 * (val (op_not ps) + val ps)"
    by (simp add: op_not_def algebra_simps)
  also have "\<dots> = (2 ^ 32 - 1) + 2 ^ 32 * (2 ^ (32 * length ps) - 1)"
    by (simp only: unat_NOT_32 Cons.IH)
  also have "\<dots> = 2 ^ (32 * length (p # ps)) - 1"
    by (simp add: power_add algebra_simps)
  finally show ?case .
qed (simp add: op_not_def)

lemma val_op_inc: "val (op_inc a) = (val a + 1) mod 2 ^ (32 * length a)"
proof (induction a)
  case (Cons p ps)
  show ?case
  proof (cases "p + 1 = 0")
    case True
    then have "unat p = 2 ^ 32 - 1"
      by (simp add: unsigned_minus_1_eq_mask mask_eq_exp_minus_1 flip: eq_neg_iff_add_eq_0)
    then show ?thesis
      using True Cons.IH mod_step_low [of 0 "2 ^ 32" "val ps + 1" "2 ^ (32 * length ps)"]
      by (simp add: Let_def power_add)
  next
    case False
    then have "unat (p + 1) = unat p + 1"
      by (metis Suc_eq_plus1 add.commute unatSuc)
    then show ?thesis
      using False val_less [of "(p + 1) # ps"] by (simp add: Let_def)
  qed
qed simp


lemma val_op_neg: "val (op_neg a) = (2 ^ (32 * length a) - val a) mod 2 ^ (32 * length a)"
proof -
  have "val (op_not a) + 1 = 2 ^ (32 * length a) - val a"
    using val_op_not [of a] val_less [of a] by linarith
  then show ?thesis
    by (simp add: op_neg_def val_op_inc)
qed

lemma op_inc_op_dec: "op_inc (op_dec a) = a"
  by (induction a) (auto simp: Let_def)

lemma val_op_dec: "(val (op_dec a) + 1) mod 2 ^ (32 * length a) = val a"
  using val_op_inc [of "op_dec a"] by (simp add: op_inc_op_dec)

lemma unat_add3:
  fixes carry :: u64 and p q :: u32
  assumes "unat carry < 2 ^ 32"
  shows "unat (carry + ucast p + ucast q) = unat carry + unat p + unat q"
proof -
  have "unat carry + unat p + unat q < 2 ^ 64"
    using assms unat_u32_le [of p] unat_u32_le [of q] by simp
  then show ?thesis
    by (simp add: unat_word_ariths mod_simps)
qed

lemma length_add_loop [simp]: "length a = length b \<Longrightarrow> length (add_loop c a b) = length a"
  by (induction c a b rule: add_loop.induct) (simp_all add: Let_def)

lemma val_add_loop:
  "length ps = length qs \<Longrightarrow> unat c \<le> 1 \<Longrightarrow>
   val (add_loop c ps qs) = (unat c + val ps + val qs) mod 2 ^ (32 * length ps)"
proof (induction c ps qs rule: add_loop.induct)
  case (1 carry p ps q qs)
  define n where "n = carry + ucast p + (ucast q :: u64)"
  have n: "unat n = unat carry + unat p + unat q"
    by (simp only: n_def) (rule unat_add3, use "1.prems" in simp)
  moreover have "unat n < 2 ^ 32 * 2"
    using n "1.prems" unat_u32_le [of p] unat_u32_le [of q] by simp
  ultimately have "unat (hi32 n) \<le> 1"
    by (simp add: unat_hi32)
  then have "val (add_loop (hi32 n) ps qs) = (unat n div 2 ^ 32 + (val ps + val qs)) mod 2 ^ (32 * length ps)"
    using "1.IH" [OF n_def] "1.prems" by (simp add: unat_hi32 add.assoc)
  then have "val (add_loop carry (p # ps) (q # qs))
      = unat n mod 2 ^ 32 + 2 ^ 32 * ((unat n div 2 ^ 32 + (val ps + val qs)) mod 2 ^ (32 * length ps))"
    by (simp add: Let_def unat_lo32 flip: n_def)
  also have "\<dots> = (unat n + 2 ^ 32 * (val ps + val qs)) mod (2 ^ 32 * 2 ^ (32 * length ps))"
    by (rule mod_step)
  finally show ?case
    by (simp add: n power_add algebra_simps)
qed auto

lemma length_op_add [simp]: "length a = length b \<Longrightarrow> length (op_add a b) = length a"
  by (simp add: op_add_def)

lemma length_op_sub [simp]: "length a = length b \<Longrightarrow> length (op_sub a b) = length a"
  by (simp add: op_sub_def)

lemma val_op_add: "length a = length b \<Longrightarrow> val (op_add a b) = (val a + val b) mod 2 ^ (32 * length a)"
  by (simp add: op_add_def val_add_loop)

lemma val_op_sub:
  "length a = length b \<Longrightarrow> val (op_sub a b) = (val a + (2 ^ (32 * length a) - val b)) mod 2 ^ (32 * length a)"
  by (simp add: op_sub_def val_op_add val_op_neg mod_add_right_eq)

lemma val_op_sub_le:
  assumes "length a = length b" and "val b \<le> val a"
  shows "val (op_sub a b) = val a - val b"
proof -
  have "val a + (2 ^ (32 * length a) - val b) = (val a - val b) + 2 ^ (32 * length a)"
    using assms val_less [of b] by simp
  moreover have "val a - val b < 2 ^ (32 * length a)"
    using val_less [of a] by linarith
  ultimately have "(val a + (2 ^ (32 * length a) - val b)) mod 2 ^ (32 * length a) = val a - val b"
    by (simp only: mod_add_self2 mod_less)
  with assms show ?thesis
    by (simp only: val_op_sub)
qed

section \<open>Multiplication\<close>

lemma length_mul32_loop [simp]: "length (mul32_loop c b a) = length a"
  by (induction c b a rule: mul32_loop.induct) (simp_all add: Let_def)

lemma limb_product_bound:
  "unat (x :: u32) * unat (q :: u32) + unat (p :: u32) + (2 ^ 32 - 1) < 2 ^ 64"
proof -
  have "unat x * unat q \<le> (2 ^ 32 - 1) * (2 ^ 32 - 1)"
    by (intro mult_le_mono) (simp_all add: unat_u32_le)
  then show ?thesis
    using unat_u32_le [of p] by simp
qed

lemma unat_mac:
  fixes carry :: u64 and p x q :: u32
  assumes "unat carry < 2 ^ 32"
  shows "unat (carry + ucast p + ucast x * ucast q) = unat carry + unat p + unat x * unat q"
proof -
  have b: "unat carry + unat p + unat x * unat q < 2 ^ 64"
    using limb_product_bound [of x q p] assms by linarith
  have "unat (ucast x * ucast q :: u64) = unat x * unat q"
    using b by (simp add: unat_word_ariths)
  with b show ?thesis
    by (simp add: unat_word_ariths mod_simps)
qed

lemma val_mul32_loop:
  "unat c < 2 ^ 32 \<Longrightarrow> val (mul32_loop c x a) = (unat c + unat x * val a) mod 2 ^ (32 * length a)"
proof (induction c x a rule: mul32_loop.induct)
  case (2 carry b32 p ps)
  define n where "n = carry + ucast b32 * (ucast p :: u64)"
  have n: "unat n = unat carry + unat b32 * unat p"
    using unat_mac [of carry 0 b32 p] "2.prems" by (simp add: n_def)
  have "val (mul32_loop (hi32 n) b32 ps) = (unat n div 2 ^ 32 + unat b32 * val ps) mod 2 ^ (32 * length ps)"
    using "2.IH" [OF n_def] unat_hi32_less [of n] by (simp add: unat_hi32)
  then have "val (mul32_loop carry b32 (p # ps))
      = unat n mod 2 ^ 32 + 2 ^ 32 * ((unat n div 2 ^ 32 + unat b32 * val ps) mod 2 ^ (32 * length ps))"
    by (simp add: Let_def unat_lo32 flip: n_def)
  also have "\<dots> = (unat n + 2 ^ 32 * (unat b32 * val ps)) mod (2 ^ 32 * 2 ^ (32 * length ps))"
    by (rule mod_step)
  finally show ?case
    by (simp add: n power_add algebra_simps)
qed simp

lemma length_mac_row [simp]: "length ps \<le> length qs \<Longrightarrow> length (mac_row c x ps qs) = length ps"
  by (induction c x ps qs rule: mac_row.induct) (auto simp add: Let_def)

lemma val_mac_row:
  "unat c < 2 ^ 32 \<Longrightarrow> length ps \<le> length qs \<Longrightarrow>
   val (mac_row c x ps qs) = (unat c + val ps + unat x * val qs) mod 2 ^ (32 * length ps)"
proof (induction c x ps qs rule: mac_row.induct)
  case (1 carry x p ps q qs)
  define n where "n = carry + ucast p + ucast x * (ucast q :: u64)"
  have n: "unat n = unat carry + unat p + unat x * unat q"
    unfolding n_def by (rule unat_mac) (rule "1.prems"(1))
  have "val (mac_row (hi32 n) x ps qs)
      = (unat n div 2 ^ 32 + (val ps + unat x * val qs)) mod 2 ^ (32 * length ps)"
    using "1.IH" [OF n_def] "1.prems" unat_hi32_less [of n] by (simp add: unat_hi32 add.assoc)
  then have "val (mac_row carry x (p # ps) (q # qs)) = unat n mod 2 ^ 32
      + 2 ^ 32 * ((unat n div 2 ^ 32 + (val ps + unat x * val qs)) mod 2 ^ (32 * length ps))"
    by (simp add: Let_def unat_lo32 flip: n_def)
  also have "\<dots> = (unat n + 2 ^ 32 * (val ps + unat x * val qs)) mod (2 ^ 32 * 2 ^ (32 * length ps))"
    by (rule mod_step)
  finally show ?case
    by (simp add: n power_add algebra_simps)
qed auto

lemma length_op_mul32 [simp]: "length (op_mul32 a b) = length a"
  by (simp add: op_mul32_def)

lemma val_op_mul32: "val (op_mul32 a b) = (val a * unat b) mod 2 ^ (32 * length a)"
  by (simp add: op_mul32_def val_mul32_loop mult.commute)

lemma op_mul_rows:
  assumes "length a = length b" and "m \<le> length a"
  defines "pn \<equiv> foldl (\<lambda>pn j. take j pn @ mac_row 0 (a ! j) (drop j pn) b)
     (zero_limbs (length a)) [0..<m]"
  shows "length pn = length a \<and> val pn = (val (take m a) * val b) mod 2 ^ (32 * length a)"
  using assms(2) unfolding pn_def
proof (induction m)
  case (Suc m)
  define W where "W = length a"
  define acc where "acc = foldl (\<lambda>pn j. take j pn @ mac_row 0 (a ! j) (drop j pn) b)
     (zero_limbs W) [0..<m]"
  have len: "length acc = W" and vacc: "val acc = (val (take m a) * val b) mod 2 ^ (32 * W)"
    and m: "m < W" using Suc by (simp_all add: acc_def W_def)
  define row where "row = mac_row 0 (a ! m) (drop m acc) b"
  have row: "val row = (val (drop m acc) + unat (a ! m) * val b) mod 2 ^ (32 * (W - m))"
    using assms(1) m len by (simp add: row_def val_mac_row W_def)
  have split: "val acc = val (take m acc) + 2 ^ (32 * m) * val (drop m acc)"
    using val_append [of "take m acc" "drop m acc"] m len by simp
  have "val (take m acc @ row) = val (take m acc) + 2 ^ (32 * m) * val row"
    using m len by (simp add: val_append)
  also have "\<dots> = (val (take m acc) + 2 ^ (32 * m) * (val (drop m acc) + unat (a ! m) * val b))
      mod (2 ^ (32 * m) * 2 ^ (32 * (W - m)))"
    unfolding row using val_less [of "take m acc"] m len by (intro mod_step_low) simp
  also have "2 ^ (32 * m) * 2 ^ (32 * (W - m)) = (2 :: nat) ^ (32 * W)"
    using m by (simp flip: power_add add: algebra_simps)
  also have "val (take m acc) + 2 ^ (32 * m) * (val (drop m acc) + unat (a ! m) * val b)
      = val acc + 2 ^ (32 * m) * unat (a ! m) * val b"
    by (simp add: split algebra_simps)
  also have "\<dots> mod 2 ^ (32 * W) = (val (take m a) * val b + 2 ^ (32 * m) * unat (a ! m) * val b) mod 2 ^ (32 * W)"
    unfolding vacc by (simp add: mod_simps)
  also have "val (take m a) * val b + 2 ^ (32 * m) * unat (a ! m) * val b = val (take (Suc m) a) * val b"
    using m by (simp add: W_def take_Suc_conv_app_nth val_append algebra_simps)
  finally show ?case
    using m len assms(1) by (simp add: row_def acc_def W_def)
qed simp

lemma length_op_mul [simp]: "length a = length b \<Longrightarrow> length (op_mul a b) = length a"
  using op_mul_rows [of a b "length a"] by (simp add: op_mul_def)

lemma val_op_mul: "length a = length b \<Longrightarrow> val (op_mul a b) = (val a * val b) mod 2 ^ (32 * length a)"
  using op_mul_rows [of a b "length a"] by (simp add: op_mul_def)

section \<open>Shifts\<close>

lemma length_shl_step [simp]: "length (shl_step a k s pn i) = length pn"
  by (simp add: shl_step_def Let_def)

lemma nth_shl_step:
  "length pn = length a \<Longrightarrow> t < length a \<Longrightarrow>
   shl_step a k s pn i ! t
   = (if t = i + k then pn ! t OR push_bit s (a ! i)
      else if t = i + k + 1 \<and> s \<noteq> 0 then pn ! t OR drop_bit (32 - s) (a ! i) else pn ! t)"
  by (simp add: shl_step_def Let_def nth_list_update)

text \<open>The limb at \<open>t\<close> once the loop has run for all \<open>i < m\<close>.\<close>

definition shl_limb :: "limbs \<Rightarrow> nat \<Rightarrow> nat \<Rightarrow> nat \<Rightarrow> nat \<Rightarrow> u32" where
  "shl_limb a k s m t =
     (if k \<le> t \<and> t - k < m then push_bit s (a ! (t - k)) else 0)
     OR (if s \<noteq> 0 \<and> k + 1 \<le> t \<and> t - k - 1 < m then drop_bit (32 - s) (a ! (t - k - 1)) else 0)"

lemma shl_limb_Suc:
  "shl_limb a k s (Suc m) t
   = (if t = m + k then shl_limb a k s m t OR push_bit s (a ! m)
      else if t = m + k + 1 \<and> s \<noteq> 0 then shl_limb a k s m t OR drop_bit (32 - s) (a ! m)
      else shl_limb a k s m t)"
proof -
  consider "t = m + k" | "t = m + k + 1" | "t \<noteq> m + k" "t \<noteq> m + k + 1" by blast
  then show ?thesis
  proof cases
    case 1
    then show ?thesis by (cases m) (simp_all add: shl_limb_def or.commute)
  next
    case 2
    then show ?thesis by (simp add: shl_limb_def)
  next
    case 3
    then have "(k \<le> t \<and> t - k < Suc m) = (k \<le> t \<and> t - k < m)"
      and "(k + 1 \<le> t \<and> t - k - 1 < Suc m) = (k + 1 \<le> t \<and> t - k - 1 < m)" by linarith+
    with 3 show ?thesis by (simp only: shl_limb_def) simp
  qed
qed

lemma shl_loop:
  "length (foldl (shl_step a k s) (zero_limbs (length a)) [0..<m]) = length a
   \<and> (\<forall>t < length a. foldl (shl_step a k s) (zero_limbs (length a)) [0..<m] ! t = shl_limb a k s m t)"
proof (induction m)
  case 0
  show ?case by (simp add: zero_limbs_def shl_limb_def)
next
  case (Suc m)
  then show ?case by (simp add: nth_shl_step shl_limb_Suc)
qed

lemma length_shr_step [simp]: "length (shr_step a k s pn i) = length pn"
  by (simp add: shr_step_def Let_def)

lemma nth_shr_step:
  "length pn = length a \<Longrightarrow> t < length a \<Longrightarrow>
   shr_step a k s pn i ! t
   = (if i = t + k then pn ! t OR drop_bit s (a ! i)
      else if i = t + k + 1 \<and> s \<noteq> 0 then pn ! t OR push_bit (32 - s) (a ! i) else pn ! t)"
  by (auto simp add: shr_step_def Let_def nth_list_update)

definition shr_limb :: "limbs \<Rightarrow> nat \<Rightarrow> nat \<Rightarrow> nat \<Rightarrow> nat \<Rightarrow> u32" where
  "shr_limb a k s m t =
     (if t + k < m then drop_bit s (a ! (t + k)) else 0)
     OR (if s \<noteq> 0 \<and> t + k + 1 < m then push_bit (32 - s) (a ! (t + k + 1)) else 0)"

lemma shr_limb_Suc:
  "shr_limb a k s (Suc m) t
   = (if m = t + k then shr_limb a k s m t OR drop_bit s (a ! m)
      else if m = t + k + 1 \<and> s \<noteq> 0 then shr_limb a k s m t OR push_bit (32 - s) (a ! m)
      else shr_limb a k s m t)"
  by (simp add: shr_limb_def less_Suc_eq)

lemma shr_loop:
  "length (foldl (shr_step a k s) (zero_limbs (length a)) [0..<m]) = length a
   \<and> (\<forall>t < length a. foldl (shr_step a k s) (zero_limbs (length a)) [0..<m] ! t = shr_limb a k s m t)"
proof (induction m)
  case 0
  show ?case by (simp add: zero_limbs_def shr_limb_def)
next
  case (Suc m)
  define pn where "pn = foldl (shr_step a k s) (zero_limbs (length a)) [0..<m]"
  from Suc have "length pn = length a" and "\<forall>t < length a. pn ! t = shr_limb a k s m t"
    by (simp_all add: pn_def)
  then show ?case by (simp add: nth_shr_step shr_limb_Suc flip: pn_def)
qed

lemma op_shl_nth:
  "length (op_shl a n) = length a"
  "t < length a \<Longrightarrow> op_shl a n ! t = shl_limb a (n div 32) (n mod 32) (length a) t"
  using shl_loop [of a "n div 32" "n mod 32" "length a"] by (simp_all add: op_shl_def)

lemma op_shr_nth:
  "length (op_shr a n) = length a"
  "t < length a \<Longrightarrow> op_shr a n ! t = shr_limb a (n div 32) (n mod 32) (length a) t"
  using shr_loop [of a "n div 32" "n mod 32" "length a"] by (simp_all add: op_shr_def)

lemmas length_op_shl [simp] = op_shl_nth(1)
lemmas length_op_shr [simp] = op_shr_nth(1)


text \<open>Bit \<open>n\<close> of the shifted value.\<close>

lemma bit_val_at: "b < 32 \<Longrightarrow> bit (val a) (32 * t + b) \<longleftrightarrow> t < length a \<and> bit (a ! t) b"
  by (simp add: bit_val)

lemma bit_val_shl: "bit (val (op_shl a s)) n \<longleftrightarrow> n < 32 * length a \<and> s \<le> n \<and> bit (val a) (n - s)"
proof (cases "n < 32 * length a")
  case True
  define t b k r where "t = n div 32" and "b = n mod 32" and "k = s div 32" and "r = s mod 32"
  have n: "n = 32 * t + b" "b < 32" "s = 32 * k + r" "r < 32"
    by (simp_all add: t_def b_def k_def r_def)
  have t: "t < length a" using True n by simp
  have "bit (val (op_shl a s)) n = bit (shl_limb a k r (length a) t) b"
    using t by (simp add: bit_val op_shl_nth k_def r_def flip: t_def b_def)
  also have "\<dots> = (k \<le> t \<and> r \<le> b \<and> bit (a ! (t - k)) (b - r)
      \<or> r \<noteq> 0 \<and> k + 1 \<le> t \<and> b < r \<and> bit (a ! (t - k - 1)) (32 + b - r))"
    using t n by (auto simp: shl_limb_def bit_or_iff bit_push_bit_iff bit_drop_bit_eq bit_imp_le_length
        algebra_simps dest: bit_imp_le_length)
  also have "\<dots> = (s \<le> n \<and> bit (val a) (n - s))"
  proof (cases "r \<le> b")
    case True
    then have "s \<le> n \<longleftrightarrow> k \<le> t" and "k \<le> t \<Longrightarrow> n - s = 32 * (t - k) + (b - r)"
      using n by auto
    moreover have "bit (val a) (32 * (t - k) + (b - r)) \<longleftrightarrow> t - k < length a \<and> bit (a ! (t - k)) (b - r)"
      using n by (intro bit_val_at) simp
    ultimately show ?thesis
      using True t by auto
  next
    case False
    then have "s \<le> n \<longleftrightarrow> k + 1 \<le> t" and "k + 1 \<le> t \<Longrightarrow> n - s = 32 * (t - k - 1) + (32 + b - r)"
      using n by auto
    moreover have "bit (val a) (32 * (t - k - 1) + (32 + b - r))
        \<longleftrightarrow> t - k - 1 < length a \<and> bit (a ! (t - k - 1)) (32 + b - r)"
      using False by (intro bit_val_at) simp
    ultimately show ?thesis
      using False n t by auto
  qed
  finally show ?thesis using True by simp
next
  case False
  then show ?thesis by (auto simp: bit_val)
qed

lemma bit_val_shr: "bit (val (op_shr a s)) n \<longleftrightarrow> bit (val a) (n + s)"
proof (cases "n < 32 * length a")
  case True
  define t b k r where "t = n div 32" and "b = n mod 32" and "k = s div 32" and "r = s mod 32"
  have n: "n = 32 * t + b" "b < 32" "s = 32 * k + r" "r < 32"
    by (simp_all add: t_def b_def k_def r_def)
  have t: "t < length a" using True n by simp
  have "bit (val (op_shr a s)) n = bit (shr_limb a k r (length a) t) b"
    using t by (simp add: bit_val op_shr_nth k_def r_def flip: t_def b_def)
  also have "\<dots> = (t + k < length a \<and> b + r < 32 \<and> bit (a ! (t + k)) (b + r)
      \<or> r \<noteq> 0 \<and> t + k + 1 < length a \<and> 32 \<le> b + r \<and> bit (a ! (t + k + 1)) (b + r - 32))"
    using t n by (auto simp: shr_limb_def bit_or_iff bit_push_bit_iff bit_drop_bit_eq
        algebra_simps dest: bit_imp_le_length)
  also have "\<dots> = bit (val a) (n + s)"
  proof (cases "b + r < 32")
    case True
    then have "n + s = 32 * (t + k) + (b + r)" using n by simp
    then have "bit (val a) (n + s) = (t + k < length a \<and> bit (a ! (t + k)) (b + r))"
      using True by (simp only: bit_val_at)
    with True show ?thesis by simp
  next
    case False
    then have "n + s = 32 * (t + k + 1) + (b + r - 32)" "b + r - 32 < 32" using n by simp_all
    then have "bit (val a) (n + s) = (t + k + 1 < length a \<and> bit (a ! (t + k + 1)) (b + r - 32))"
      by (simp only: bit_val_at)
    with False n show ?thesis by auto
  qed
  finally show ?thesis .
next
  case False
  then have "\<not> (n + s) div 32 < length a" and "\<not> n div 32 < length a" by simp_all
  then have "\<not> bit (val a) (n + s)" and "\<not> bit (val (op_shr a s)) n"
    by (simp_all only: bit_val length_op_shr) simp_all
  then show ?thesis by simp
qed

lemma val_op_shl: "val (op_shl a s) = (val a * 2 ^ s) mod 2 ^ (32 * length a)"
proof -
  have "val (op_shl a s) = take_bit (32 * length a) (push_bit s (val a))"
    by (rule bit_eqI) (auto simp: bit_val_shl bit_take_bit_iff bit_push_bit_iff)
  then show ?thesis
    by (simp add: take_bit_eq_mod push_bit_eq_mult)
qed

lemma val_op_shr: "val (op_shr a s) = val a div 2 ^ s"
proof -
  have "val (op_shr a s) = drop_bit s (val a)"
    by (rule bit_eqI) (simp add: bit_val_shr bit_drop_bit_eq add.commute)
  then show ?thesis
    by (simp add: drop_bit_eq_div)
qed


section \<open>Comparison and bit length\<close>

lemma compare_loop_val:
  "m \<le> length a \<Longrightarrow> m \<le> length b \<Longrightarrow>
   compare_loop a b m = (if val (take m a) < val (take m b) then - 1
     else if val (take m a) > val (take m b) then 1 else 0)"
proof (induction m)
  case (Suc m)
  have v: "val (take (Suc m) x) = val (take m x) + 2 ^ (32 * m) * unat (x ! m)"
    if "m < length x" for x :: limbs
    using that by (simp add: take_Suc_conv_app_nth val_append)
  have less: "val (take m x) < 2 ^ (32 * m)" if "m < length x" for x :: limbs
    using val_less [of "take m x"] that by simp
  have lt: "val (take (Suc m) x) < val (take (Suc m) y)"
    if "x ! m < y ! m" "m < length x" "m < length y" for x y :: limbs
  proof -
    have "val (take m x) + 2 ^ (32 * m) * unat (x ! m) < 2 ^ (32 * m) * (unat (x ! m) + 1)"
      using less that by simp
    also have "\<dots> \<le> 2 ^ (32 * m) * unat (y ! m)"
      using that by (intro mult_le_mono2) (simp add: word_less_nat_alt)
    finally show ?thesis using v that by simp
  qed
  consider "a ! m < b ! m" | "b ! m < a ! m" | "a ! m = b ! m" by (rule linorder_cases)
  then show ?case
  proof cases
    case 1
    then show ?thesis using lt Suc.prems by simp
  next
    case 2
    then have "val (take (Suc m) b) < val (take (Suc m) a)" using lt Suc.prems by simp
    with 2 show ?thesis by simp
  next
    case 3
    then show ?thesis using Suc v by simp
  qed
qed simp

lemma CompareTo_val:
  "length a = length b \<Longrightarrow>
   CompareTo a b = (if val a < val b then - 1 else if val a > val b then 1 else 0)"
  by (simp add: CompareTo_def compare_loop_val)

lemma op_less_val: "length a = length b \<Longrightarrow> op_less a b \<longleftrightarrow> val a < val b"
  by (simp add: op_less_def CompareTo_val)

lemma op_le_val: "length a = length b \<Longrightarrow> op_le a b \<longleftrightarrow> val a \<le> val b"
  by (simp add: op_le_def CompareTo_val)

lemma EqualTo_val:
  assumes "2 \<le> length pn"
  shows "EqualTo pn b \<longleftrightarrow> val pn = unat b"
proof -
  obtain p0 p1 ps where pn: "pn = p0 # p1 # ps"
    using assms by (metis One_nat_def Suc_1 Suc_le_length_iff)
  have hi: "(ucast p1 = drop_bit 32 b) \<longleftrightarrow> unat p1 = unat (hi32 b)"
    by (simp add: hi32_def word_unat_eq_iff)
  have lo: "(ucast p0 = b AND 0xffffffff) \<longleftrightarrow> unat p0 = unat (lo32 b)"
  proof -
    have "unat (b AND 0xffffffff) = unat (lo32 b)"
    proof -
      have "b AND 0xffffffff = take_bit 32 b"
        by (simp add: take_bit_eq_mask mask_eq_exp_minus_1)
      then have "unat (b AND 0xffffffff) = take_bit 32 (unat b)"
        by (simp only: unsigned_take_bit_eq)
      then show ?thesis by (simp only: unat_lo32 take_bit_eq_mod)
    qed
    then show ?thesis by (simp add: word_unat_eq_iff)
  qed
  have "val pn = unat b \<longleftrightarrow>
      unat p0 + 2 ^ 32 * (unat p1 + 2 ^ 32 * val ps) = unat (lo32 b) + 2 ^ 32 * (unat (hi32 b) + 2 ^ 32 * 0)"
    using lo32_hi32 [of b] by (simp add: pn)
  also have "\<dots> \<longleftrightarrow> unat p0 = unat (lo32 b) \<and> unat p1 + 2 ^ 32 * val ps = unat (hi32 b) + 2 ^ 32 * 0"
    by (rule digit_eq_iff) simp_all
  also have "\<dots> \<longleftrightarrow> unat p0 = unat (lo32 b) \<and> unat p1 = unat (hi32 b) \<and> val ps = 0"
    using digit_eq_iff [of "unat p1" "2 ^ 32" "unat (hi32 b)" "val ps" 0] unat_hi32_less [of b] by simp
  finally show ?thesis
    by (auto simp: EqualTo_def pn hi lo val_eq_0_iff IsNull_def)
qed

lemma top_bit_loop_spec:
  "unat p < 2 ^ (b + 1) \<Longrightarrow> b < 32 \<Longrightarrow> p \<noteq> 0 \<Longrightarrow>
   2 ^ top_bit_loop p b \<le> unat p \<and> unat p < 2 ^ (top_bit_loop p b + 1)"
proof (induction b)
  case 0
  then show ?case by (simp add: unat_gt_0 Suc_le_eq)
next
  case (Suc b)
  have "p AND push_bit (Suc b) 1 \<noteq> 0 \<longleftrightarrow> bit p (Suc b)"
    by (simp only: bit_iff_and_push_bit_not_eq_0)
  moreover have "bit p (Suc b) \<Longrightarrow> 2 ^ Suc b \<le> unat p"
  proof (rule ccontr)
    assume "bit p (Suc b)" and "\<not> 2 ^ Suc b \<le> unat p"
    then have "bit (unat p) (Suc b)" and "unat p div 2 ^ Suc b = 0"
      by (simp_all only: bit_unsigned_iff bit_imp_le_length div_eq_0_iff not_le) simp_all
    then show False by (simp only: bit_iff_odd even_zero not_True_eq_False)
  qed
  moreover have "\<not> bit p (Suc b) \<Longrightarrow> unat p < 2 ^ (b + 1)"
  proof -
    assume "\<not> bit p (Suc b)"
    then have "\<not> bit (unat p) (Suc b)" by (simp only: bit_unsigned_iff) simp
    then have "even (unat p div 2 ^ Suc b)" by (simp only: bit_iff_odd) simp
    moreover have "unat p div 2 ^ Suc b < 2"
      using Suc.prems(1) by (simp add: less_mult_imp_div_less)
    ultimately have "unat p div 2 ^ Suc b = 0" by (auto simp: less_2_cases_iff)
    then show ?thesis by (simp add: div_eq_0_iff)
  qed
  ultimately show ?case using Suc by auto
qed


lemma bits_loop_spec:
  "m \<le> length pn \<Longrightarrow>
   val (take m pn) < 2 ^ bits_loop pn m
   \<and> (0 < bits_loop pn m \<longrightarrow> 2 ^ (bits_loop pn m - 1) \<le> val (take m pn))"
proof (induction m)
  case (Suc m)
  let ?p = "pn ! m"
  have v: "val (take (Suc m) pn) = val (take m pn) + 2 ^ (32 * m) * unat ?p"
    using Suc.prems by (simp add: take_Suc_conv_app_nth val_append)
  show ?case
  proof (cases "?p = 0")
    case True
    with Suc v show ?thesis by simp
  next
    case False
    define t where "t = top_bit_loop ?p 31"
    have t: "2 ^ t \<le> unat ?p" "unat ?p + 1 \<le> 2 ^ (t + 1)"
      using top_bit_loop_spec [of ?p 31] False by (simp_all add: t_def)
    have less: "val (take m pn) < 2 ^ (32 * m)"
      using val_less [of "take m pn"] Suc.prems by simp
    have "val (take (Suc m) pn) < 2 ^ (32 * m) * (unat ?p + 1)"
      using v less by simp
    also have "\<dots> \<le> 2 ^ (32 * m) * 2 ^ (t + 1)"
      using t(2) by (rule mult_le_mono2)
    finally have up: "val (take (Suc m) pn) < 2 ^ (32 * m + t + 1)"
      by (simp add: power_add)
    have "2 ^ (32 * m + t) \<le> 2 ^ (32 * m) * unat ?p"
      using t(1) by (simp add: power_add)
    then have "2 ^ (32 * m + t) \<le> val (take (Suc m) pn)"
      using v by linarith
    with up False show ?thesis by (simp add: t_def)
  qed
qed simp

lemma val_less_bits: "val pn < 2 ^ bits_of pn"
  using bits_loop_spec [of "length pn" pn] by (simp add: bits_of_def)

lemma bits_le_val: "0 < bits_of pn \<Longrightarrow> 2 ^ (bits_of pn - 1) \<le> val pn"
  using bits_loop_spec [of "length pn" pn] by (simp add: bits_of_def)

lemma bits_of_eq_0: "bits_of pn = 0 \<longleftrightarrow> val pn = 0"
  using val_less_bits [of pn] bits_le_val [of pn] by (cases "bits_of pn") auto

lemma bits_of_le: "bits_of pn \<le> 32 * length pn"
proof (cases "bits_of pn")
  case (Suc n)
  then have "(2 :: nat) ^ n \<le> val pn" using bits_le_val [of pn] by simp
  also have "\<dots> < 2 ^ (32 * length pn)" by (rule val_less)
  finally have "n < 32 * length pn" by simp
  then show ?thesis using Suc by simp
qed simp

section \<open>Division\<close>

lemma val_set_bit:
  assumes "s < 32 * length pn" and "2 ^ (s + 1) dvd val pn"
  shows "val (pn[s div 32 := pn ! (s div 32) OR push_bit (s mod 32) 1]) = val pn + 2 ^ s"
proof -
  let ?t = "s div 32" and ?b = "s mod 32"
  have t: "?t < length pn" using assms(1) by simp
  have nb: "\<not> bit (val pn) s"
    using assms(2) by (auto simp: bit_iff_odd power_Suc dvd_def)
  then have nb': "\<not> bit (pn ! ?t) ?b"
    using t by (simp add: bit_val)
  have "val (pn[?t := pn ! ?t OR push_bit ?b 1]) = val pn OR 2 ^ s"
  proof (rule bit_eqI)
    fix n
    have "n = s \<longleftrightarrow> n div 32 = ?t \<and> n mod 32 = ?b"
      by (metis mult_div_mod_eq)
    then show "bit (val (pn[?t := pn ! ?t OR push_bit ?b 1])) n \<longleftrightarrow> bit (val pn OR 2 ^ s) n"
      using t by (auto simp: bit_val bit_or_iff bit_exp_iff bit_push_bit_iff nth_list_update bit_1_iff)
  qed
  also have "\<dots> = val pn + 2 ^ s"
    using nb by (intro disjunctive_add_eq_or [symmetric] bit_eqI) (auto simp: bit_and_iff bit_exp_iff)
  finally show ?thesis .
qed

lemma length_div_loop [simp]: "length (div_loop n num dv pn) = length pn"
  by (induction n arbitrary: num dv pn) simp_all

text \<open>
  At entry of the iteration for \<open>s\<close> the divisor is \<open>d * 2 ^ s\<close>, the remainder is below
  \<open>d * 2 ^ (s + 1)\<close> and the bits of the quotient from \<open>s + 1\<close> on are final.
\<close>

lemma div_loop_val:
  assumes "0 < d"
  shows "length num = W \<Longrightarrow> length dv = W \<Longrightarrow> length pn = W \<Longrightarrow> n \<le> 32 * W \<Longrightarrow>
    (0 < n \<Longrightarrow> val dv = d * 2 ^ (n - 1)) \<Longrightarrow> val num < d * 2 ^ n \<Longrightarrow> 2 ^ n dvd val pn \<Longrightarrow>
    val (div_loop n num dv pn) = val pn + val num div d"
proof (induction n arbitrary: num dv pn)
  case 0
  then show ?case by simp
next
  case (Suc s)
  have dv: "val dv = d * 2 ^ s" using Suc.prems by simp
  have shr: "0 < s \<Longrightarrow> val (op_shr dv 1) = d * 2 ^ (s - 1)"
    using dv by (cases s) (simp_all add: val_op_shr)
  show ?case
  proof (cases "op_le dv num")
    case True
    then have le: "d * 2 ^ s \<le> val num" using dv Suc.prems by (simp add: op_le_val)
    define pn' where "pn' = pn[s div 32 := pn ! (s div 32) OR push_bit (s mod 32) 1]"
    have pn': "val pn' = val pn + 2 ^ s"
      unfolding pn'_def using Suc.prems by (intro val_set_bit) simp_all
    have num': "val (op_sub num dv) = val num - d * 2 ^ s"
      using Suc.prems le dv by (simp add: val_op_sub_le)
    have "2 ^ s dvd val pn'"
      unfolding pn' using Suc.prems by (metis dvd_add dvd_refl dvd_trans le_imp_power_dvd le_add2 plus_1_eq_Suc)
    moreover have "val num - d * 2 ^ s < d * 2 ^ s"
      using Suc.prems le by simp
    ultimately have "val (div_loop s (op_sub num dv) (op_shr dv 1) pn')
        = val pn' + (val num - d * 2 ^ s) div d"
      using Suc.prems num' shr by (subst Suc.IH) (simp_all add: pn'_def)
    also have "val num div d = (d * 2 ^ s + (val num - d * 2 ^ s)) div d"
      using le by simp
    then have "val num div d = 2 ^ s + (val num - d * 2 ^ s) div d"
      using assms by simp
    ultimately show ?thesis
      using True pn' by (simp add: pn'_def)
  next
    case False
    then have "val num < d * 2 ^ s" using dv Suc.prems by (simp add: op_le_val)
    moreover have "2 ^ s dvd val pn"
      using Suc.prems by (meson dvd_trans le_imp_power_dvd lessI less_imp_le)
    ultimately show ?thesis
      using False Suc.prems shr by (simp add: Suc.IH)
  qed
qed

lemma op_div_val:
  assumes "length a = length b"
  shows "op_div a b = Inl DivisionByZero \<and> val b = 0
    \<or> (\<exists>q. op_div a b = Inr q \<and> 0 < val b \<and> length q = length a \<and> val q = val a div val b)"
proof (cases "bits_of b = 0")
  case True
  then show ?thesis by (simp add: op_div_def bits_of_eq_0)
next
  case nz: False
  then have pos: "0 < val b" by (simp add: bits_of_eq_0)
  let ?W = "length a" and ?nb = "bits_of a" and ?db = "bits_of b"
  show ?thesis
  proof (cases "?nb < ?db")
    case True
    have "val a < 2 ^ ?nb" by (rule val_less_bits)
    also have "\<dots> \<le> 2 ^ (?db - 1)" using True by simp
    also have "\<dots> \<le> val b" using nz by (intro bits_le_val) simp
    finally show ?thesis using True nz pos by (simp add: op_div_def)
  next
    case False
    define s where "s = ?nb - ?db"
    have sb: "Suc s \<le> 32 * ?W"
      using False nz bits_of_le [of a] by (simp add: s_def)
    have "val b * 2 ^ s < 2 ^ ?db * 2 ^ s" using val_less_bits [of b] by simp
    also have "\<dots> = 2 ^ ?nb" using False by (simp add: s_def flip: power_add)
    also have "\<dots> \<le> 2 ^ (32 * ?W)" using bits_of_le [of a] by simp
    finally have dv: "val (op_shl b s) = val b * 2 ^ s"
      using assms by (simp add: val_op_shl)
    have "val a < 2 ^ ?nb" by (rule val_less_bits)
    also have "2 ^ ?nb = 2 ^ (?db - 1) * (2 :: nat) ^ Suc s"
    proof -
      have "?nb = (?db - 1) + Suc s" using False nz by (simp add: s_def)
      then show ?thesis by (simp only: power_add)
    qed
    also have "\<dots> \<le> val b * 2 ^ Suc s" using nz by (intro mult_le_mono1 bits_le_val) simp
    finally have "val (div_loop (Suc s) a (op_shl b s) (zero_limbs ?W)) = 0 + val a div val b"
      using assms sb dv pos by (subst div_loop_val [of "val b" _ ?W]) (simp_all del: div_loop.simps)
    then show ?thesis
      using False nz pos by (simp add: op_div_def s_def Let_def del: div_loop.simps)
  qed
qed

section \<open>Wrap-around arithmetic: what the operators compute\<close>

text \<open>
  C18: \<open>base_uint::operator/=\<close>, the bit-by-bit long division, throws exactly when the divisor is
  zero, and otherwise returns the truncated quotient of the two numbers.
\<close>

theorem uint_div_correct:
  assumes "length a = length b"
  shows "op_div a b = Inl DivisionByZero \<and> val b = 0
    \<or> (\<exists>q. op_div a b = Inr q \<and> 0 < val b \<and> length q = length a \<and> val q = val a div val b)"
  using assms by (rule op_div_val)

theorem uint_div_correct_witness:
  "op_div [100, 3, 0, 0, 0] [7, 0, 0, 0, 0] = Inl DivisionByZero \<and> val [7, 0, 0, 0, 0] = 0
    \<or> (\<exists>q. op_div [100, 3, 0, 0, 0] [7, 0, 0, 0, 0] = Inr q \<and> 0 < val [7, 0, 0, 0, 0]
         \<and> length q = 5 \<and> val q = val [100, 3, 0, 0, 0] div val [7, 0, 0, 0, 0])"
  using uint_div_correct [of "[100, 3, 0, 0, 0]" "[7, 0, 0, 0, 0]"]
  by (simp del: val.simps add: eval_nat_numeral)

text \<open>
  \<open>base_uint::operator*=\<close>, both the schoolbook product with 64-bit intermediates and the
  product with a 32-bit factor, is multiplication modulo \<open>2 ^ BITS\<close>: no carry is lost.
\<close>

lemma uint_mul_correct:
  assumes "length a = length b"
  shows "val (op_mul a b) = (val a * val b) mod 2 ^ (32 * length a)
    \<and> val (op_mul32 a x) = (val a * unat x) mod 2 ^ (32 * length a)"
  using assms by (simp add: val_op_mul val_op_mul32)

text \<open>
  addition, subtraction, negation, increment and decrement of \<open>base_uint\<close> are the
  operations of the ring of integers modulo \<open>2 ^ BITS\<close>; subtraction is exact when it does not
  borrow.
\<close>

lemma uint_add_sub_correct:
  assumes "length a = length b"
  shows "val (op_add a b) = (val a + val b) mod 2 ^ (32 * length a)
    \<and> val (op_sub a b) = (val a + (2 ^ (32 * length a) - val b)) mod 2 ^ (32 * length a)
    \<and> (val b \<le> val a \<longrightarrow> val (op_sub a b) = val a - val b)
    \<and> val (op_neg a) = (2 ^ (32 * length a) - val a) mod 2 ^ (32 * length a)
    \<and> op_inc (op_dec a) = a"
proof -
  have "val b \<le> val a \<longrightarrow> val (op_sub a b) = val a - val b"
    using assms by (intro impI val_op_sub_le)
  then show ?thesis
    using assms by (simp add: val_op_add val_op_sub val_op_neg op_inc_op_dec)
qed

text \<open>
  the limb-wise shift loops \<open>operator<<=\<close> and \<open>operator>>=\<close> multiply by
  \<open>2 ^ shift\<close> modulo \<open>2 ^ BITS\<close> and divide by \<open>2 ^ shift\<close>, for every shift.
\<close>

lemma uint_shift_correct:
  "val (op_shl a s) = (val a * 2 ^ s) mod 2 ^ (32 * length a) \<and> val (op_shr a s) = val a div 2 ^ s"
  by (simp add: val_op_shl val_op_shr)

text \<open>
  \<open>CompareTo\<close> orders values numerically, \<open>EqualTo\<close> compares with a 64-bit
  value, and \<open>bits()\<close> is the position of the highest set bit plus one.
\<close>

lemma uint_compare_correct:
  assumes "length a = length b" and "2 \<le> length a"
  shows "CompareTo a b = sgn (int (val a) - int (val b)) \<and> (EqualTo a w \<longleftrightarrow> val a = unat w)
    \<and> val a < 2 ^ bits_of a \<and> (0 < bits_of a \<longrightarrow> 2 ^ (bits_of a - 1) \<le> val a)"
proof -
  have "CompareTo a b = sgn (int (val a) - int (val b))"
    using assms by (simp add: CompareTo_val)
  with assms bits_le_val [of a] show ?thesis
    by (simp add: EqualTo_val val_less_bits)
qed

end
