(* ===== verification/Uint_Interface.thy ===== *)
theory Uint_Interface
  imports Base_Uint
begin

text \<open>
  The contract of a fixed-width unsigned integer type, as the proof-of-work code uses it, and
  its three providers: the template instances \<open>uint160\<close>, \<open>uint256\<close> and \<open>uint512\<close>
  of \<open>base_uint\<close>. What the code computes with the operators is proved once from the
  contract: the scaling of a target, and the expected number of hashes of a target.
\<close>

section \<open>The contract\<close>

locale fixed_uint =
  fixes num :: "'a \<Rightarrow> nat"
    and wf :: "'a \<Rightarrow> bool"
    and width :: nat
    and add :: "'a \<Rightarrow> 'a \<Rightarrow> 'a"
    and mul :: "'a \<Rightarrow> 'a \<Rightarrow> 'a"
    and compl :: "'a \<Rightarrow> 'a"
    and divide :: "'a \<Rightarrow> 'a \<Rightarrow> uint_error + 'a"
    and leq :: "'a \<Rightarrow> 'a \<Rightarrow> bool"
  assumes num_less: "wf a \<Longrightarrow> num a < 2 ^ width"
    and num_inj: "wf a \<Longrightarrow> wf b \<Longrightarrow> num a = num b \<Longrightarrow> a = b"
    and wf_add: "wf a \<Longrightarrow> wf b \<Longrightarrow> wf (add a b)"
    and num_add: "wf a \<Longrightarrow> wf b \<Longrightarrow> num (add a b) = (num a + num b) mod 2 ^ width"
    and wf_mul: "wf a \<Longrightarrow> wf b \<Longrightarrow> wf (mul a b)"
    and num_mul: "wf a \<Longrightarrow> wf b \<Longrightarrow> num (mul a b) = (num a * num b) mod 2 ^ width"
    and wf_compl: "wf a \<Longrightarrow> wf (compl a)"
    and num_compl: "wf a \<Longrightarrow> num (compl a) = 2 ^ width - 1 - num a"
    and divide_zero: "wf a \<Longrightarrow> wf b \<Longrightarrow> num b = 0 \<Longrightarrow> divide a b = Inl DivisionByZero"
    and divide_ok: "wf a \<Longrightarrow> wf b \<Longrightarrow> 0 < num b \<Longrightarrow>
        \<exists>q. divide a b = Inr q \<and> wf q \<and> num q = num a div num b"
    and leq_num: "wf a \<Longrightarrow> wf b \<Longrightarrow> leq a b \<longleftrightarrow> num a \<le> num b"
begin

lemma add_exact: "wf a \<Longrightarrow> wf b \<Longrightarrow> num a + num b < 2 ^ width \<Longrightarrow> num (add a b) = num a + num b"
  by (simp add: num_add)

text \<open>Scaling \<open>a\<close> by \<open>x / y\<close> is exact up to the truncation of the division.\<close>

lemma rescale:
  assumes "wf a" "wf x" "wf y" "0 < num y" "num a * num x < 2 ^ width"
  shows "\<exists>q. divide (mul a x) y = Inr q \<and> wf q \<and> num q = num a * num x div num y"
  using assms divide_ok [of "mul a x" y] by (simp add: wf_mul num_mul)

text \<open>
  \<open>2 ^ width / (t + 1)\<close> does not fit the type's own arithmetic;
  \<open>~t / (t + 1) + 1\<close> computes it.
\<close>

lemma expected_hashes:
  assumes t: "wf t" "0 < num t" "num t + 1 < 2 ^ width" and one: "wf one" "num one = 1"
  shows "\<exists>q. divide (compl t) (add t one) = Inr q \<and> wf q \<and> wf (add q one)
    \<and> num (add q one) = 2 ^ width div (num t + 1)"
proof -
  let ?M = "2 ^ width :: nat" and ?d = "num t + 1"
  have d: "num (add t one) = ?d" "wf (add t one)"
    using t one by (simp_all add: add_exact wf_add)
  obtain q where q: "divide (compl t) (add t one) = Inr q" "wf q" "num q = (?M - 1 - num t) div ?d"
    using divide_ok [of "compl t" "add t one"] d t by (auto simp: wf_compl num_compl)
  have "?M div ?d = (?M - ?d + ?d) div ?d" using t by simp
  also have "\<dots> = (?M - ?d) div ?d + 1" by (rule div_add_self2) simp
  finally have e: "?M div ?d = num q + 1" using q by simp
  have "?M div ?d < ?M" using t by (intro div_less_dividend) simp_all
  then have "num (add q one) = num q + 1"
    using e one q by (intro add_exact [of q one, unfolded one]) simp_all
  then show ?thesis using q e one by (auto intro: wf_add)
qed

end

section \<open>The template instances\<close>

lemma base_uint_fixed:
  "fixed_uint val (\<lambda>a. length a = W) (32 * W) op_add op_mul op_not op_div op_le"
proof
  fix a b :: limbs
  assume a: "length a = W" and b: "length b = W"
  show "val a < 2 ^ (32 * W)" using val_less [of a] a by simp
  show "val a = val b \<Longrightarrow> a = b" using val_inj [of a b] a b by simp
  show "length (op_add a b) = W" "length (op_mul a b) = W" "length (op_not a) = W"
    using a b by simp_all
  show "val (op_add a b) = (val a + val b) mod 2 ^ (32 * W)"
    and "val (op_mul a b) = (val a * val b) mod 2 ^ (32 * W)"
    using a b by (simp_all add: val_op_add val_op_mul)
  show "val (op_not a) = 2 ^ (32 * W) - 1 - val a"
    using val_op_not [of a] a by simp
  show "val b = 0 \<Longrightarrow> op_div a b = Inl DivisionByZero"
    and "0 < val b \<Longrightarrow> \<exists>q. op_div a b = Inr q \<and> length q = W \<and> val q = val a div val b"
    using op_div_val [of a b] a b by auto
  show "op_le a b \<longleftrightarrow> val a \<le> val b"
    using a b by (simp add: op_le_val)
qed

interpretation u160: fixed_uint val "\<lambda>a. length a = 5" 160 op_add op_mul op_not op_div op_le
  using base_uint_fixed [of 5] by simp

interpretation u256: fixed_uint val "\<lambda>a. length a = 8" 256 op_add op_mul op_not op_div op_le
  using base_uint_fixed [of 8] by simp

interpretation u512: fixed_uint val "\<lambda>a. length a = 16" 512 op_add op_mul op_not op_div op_le
  using base_uint_fixed [of 16] by simp

end
