(* ===== verification/Compact_Bits.thy ===== *)
theory Compact_Bits
  imports Uint_Interface
begin

text \<open>
  The compact encoding of difficulty targets: \<open>uint256::SetCompact\<close> and
  \<open>uint256::GetCompact\<close> of \<open>uint256.cpp\<close>. \<open>SetCompact\<close> returns the new value of
  \<open>*this\<close> with the two flags written through its pointer arguments.
\<close>

section \<open>Decoding and encoding\<close>

definition set_uint256 :: "u64 \<Rightarrow> limbs" where
  "set_uint256 b = of_u64 8 b"

definition SetCompact :: "u32 \<Rightarrow> limbs \<times> bool \<times> bool" where
  "SetCompact nCompact =
     (let nSize = unat (drop_bit 24 nCompact);
          nWord0 = nCompact AND 0x007fffff;
          nWord = (if nSize \<le> 3 then drop_bit (8 * (3 - nSize)) nWord0 else nWord0);
          this = (if nSize \<le> 3 then set_uint256 (ucast nWord)
                  else op_shl (set_uint256 (ucast nWord)) (8 * (nSize - 3)));
          fNegative = (nWord \<noteq> 0 \<and> nCompact AND 0x00800000 \<noteq> 0);
          fOverflow = (nWord \<noteq> 0 \<and> (nSize > 34 \<or> nWord > 0xff \<and> nSize > 33
                                     \<or> nWord > 0xffff \<and> nSize > 32))
      in (this, fNegative, fOverflow))"

definition GetCompact :: "limbs \<Rightarrow> bool \<Rightarrow> u32" where
  "GetCompact this fNegative =
     (let nSize = (bits_of this + 7) div 8;
          nCompact = (if nSize \<le> 3 then ucast (push_bit (8 * (3 - nSize)) (Get64 this))
                      else ucast (Get64 (op_shr this (8 * (nSize - 3))))) :: u32;
          (nCompact, nSize) = (if nCompact AND 0x00800000 \<noteq> 0
                               then (drop_bit 8 nCompact, nSize + 1) else (nCompact, nSize));
          nCompact = nCompact OR push_bit 24 (of_nat nSize)
      in nCompact OR (if fNegative \<and> nCompact AND 0x007fffff \<noteq> 0 then 0x00800000 else 0))"


text \<open>The number a compact value stands for, before it is cut to 256 bits.\<close>

definition compact_number :: "nat \<Rightarrow> nat \<Rightarrow> nat" where
  "compact_number s m = (if s \<le> 3 then m div 256 ^ (3 - s) else m * 256 ^ (s - 3))"

definition compact_value :: "nat \<Rightarrow> nat" where
  "compact_value c = compact_number (c div 2 ^ 24) (c mod 2 ^ 23)"

lemma pow_256: "(256 :: nat) ^ n = 2 ^ (8 * n)"
  by (simp add: power_mult)

lemma compact_size: "unat (drop_bit 24 c :: u32) = unat c div 2 ^ 24"
  by (rule unat_drop_bit_div)

lemma compact_word: "unat (c AND 0x007fffff :: u32) = unat c mod 2 ^ 23"
  using unat_and_mask [of c 23] by (simp add: mask_eq_exp_minus_1)

lemma compact_sign: "(c :: u32) AND 0x00800000 \<noteq> 0 \<longleftrightarrow> bit c 23"
  using bit_iff_and_push_bit_not_eq_0 [of c 23] by (simp add: push_bit_eq_mult)

lemma val_set_uint256 [simp]: "val (set_uint256 b) = unat b"
  by (simp only: set_uint256_def val_of_u64)

lemma length_set_uint256 [simp]: "length (set_uint256 b) = 8"
  by (simp add: set_uint256_def)

lemma compact_overflow:
  fixes m s :: nat
  assumes "m < 2 ^ 23"
  shows "(m \<noteq> 0 \<and> (s > 34 \<or> m > 255 \<and> s > 33 \<or> m > 65535 \<and> s > 32)) \<longleftrightarrow> 2 ^ 256 \<le> m * 256 ^ (s - 3)"
proof -
  have "m = 0 \<or> (0 < m \<and> s > 34) \<or> s = 34 \<or> s = 33 \<or> s \<le> 32" by arith
  then consider "m = 0" | "0 < m \<and> s > 34" | "s = 34" | "s = 33" | "s \<le> 32" by blast
  then show ?thesis
  proof cases
    case 2
    have "(2 :: nat) ^ 256 \<le> 256 ^ (s - 3)"
      unfolding pow_256 by (intro power_increasing) (use 2 in simp_all, linarith)
    then have "(2 :: nat) ^ 256 \<le> m * 256 ^ (s - 3)" using 2
      by (metis One_nat_def Suc_leI le_trans mult.left_neutral mult_le_mono1)
    then show ?thesis using 2 by simp
  next
    case 5
    have "(256 :: nat) ^ (s - 3) \<le> 256 ^ 29" using 5 by (intro power_increasing) simp_all
    then have "m * 256 ^ (s - 3) < 2 ^ 23 * 256 ^ 29"
      using assms by (intro mult_less_le_imp_less) simp_all
    also have "\<dots> < 2 ^ 256" by simp
    finally show ?thesis using 5 by simp
  qed (simp_all, linarith+)
qed

lemma SetCompact_val:
  "\<exists>t neg ovf. SetCompact c = (t, neg, ovf) \<and> length t = 8
     \<and> val t = compact_value (unat c) mod 2 ^ 256
     \<and> (ovf \<longleftrightarrow> 2 ^ 256 \<le> compact_value (unat c))
     \<and> (neg \<longleftrightarrow> compact_value (unat c) \<noteq> 0 \<and> bit c 23)"
proof -
  define s m where "s = unat c div 2 ^ 24" and "m = unat c mod 2 ^ 23"
  have m: "m < 2 ^ 23" by (simp add: m_def)
  have cv: "compact_value (unat c) = compact_number s m" by (simp only: compact_value_def s_def m_def)
  have word: "unat (c AND 0x007fffff) = m" by (simp only: compact_word m_def)
  show ?thesis
  proof (cases "s \<le> 3")
    case True
    define w where "w = drop_bit (8 * (3 - s)) (c AND 0x007fffff)"
    have w: "unat w = compact_value (unat c)" unfolding w_def
      using True by (simp only: unat_drop_bit_div word pow_256 cv compact_number_def if_True)
    have small: "compact_value (unat c) < 2 ^ 256"
    proof -
      have "compact_value (unat c) \<le> m"
        using True by (simp add: cv compact_number_def)
      then show ?thesis using m by simp
    qed
    have nz: "w \<noteq> 0 \<longleftrightarrow> compact_value (unat c) \<noteq> 0" by (simp only: w flip: unat_eq_0)
    show ?thesis
      using True small by (simp only: SetCompact_def Let_def compact_size compact_sign if_True
        flip: s_def w_def) (auto simp: w nz)
  next
    case False
    then have v: "compact_value (unat c) = m * 256 ^ (s - 3)"
      by (simp add: cv compact_number_def)
    have nz: "c AND 0x007fffff \<noteq> 0 \<longleftrightarrow> m \<noteq> 0" by (simp add: unat_eq_0 [symmetric] word)
    have gt: "c AND 0x007fffff > 0xff \<longleftrightarrow> m > 255" "c AND 0x007fffff > 0xffff \<longleftrightarrow> m > 65535"
      by (simp_all add: word_less_nat_alt word)
    show ?thesis
      using False compact_overflow [OF m, of s]
      by (simp only: SetCompact_def Let_def compact_size compact_sign nz gt v if_False
        flip: s_def) (simp add: val_op_shl word pow_256)
  qed
qed


section \<open>Encoding\<close>

lemma unat_Get64: "2 \<le> length a \<Longrightarrow> unat (Get64 a) = val a mod 2 ^ 64"
proof -
  assume "2 \<le> length a"
  then obtain p0 p1 ps where a: "a = p0 # p1 # ps"
    by (metis One_nat_def Suc_1 Suc_le_length_iff)
  have "unat (push_bit 32 (ucast p1 :: u64)) = 2 ^ 32 * unat p1"
    using unat_push_bit [of "ucast p1 :: u64" 32] unat_u32_le [of p1] by simp
  then have "unat (Get64 a) = unat p0 OR (2 ^ 32 * unat p1)"
    by (simp add: Get64_def a unsigned_or_eq)
  also have "\<dots> = unat p0 + 2 ^ 32 * unat p1"
    by (rule or_add_high) simp
  also have "\<dots> = val a mod 2 ^ 64"
  proof -
    have "val a = unat p0 + 2 ^ 32 * unat p1 + 2 ^ 64 * val ps" by (simp add: a)
    moreover have "unat p0 + 2 ^ 32 * unat p1 < 2 ^ 64"
      using unat_u32_le [of p0] unat_u32_le [of p1] by simp
    ultimately show ?thesis by simp
  qed
  finally show ?thesis .
qed

text \<open>The size in bytes of a value, and the bounds it gives.\<close>

definition byte_size :: "nat \<Rightarrow> nat" where
  "byte_size bits = (bits + 7) div 8"

lemma byte_size_upper: "val a < 256 ^ byte_size (bits_of a)"
proof -
  have "val a < 2 ^ bits_of a" by (rule val_less_bits)
  also have "\<dots> \<le> 2 ^ (8 * byte_size (bits_of a))"
    by (intro power_increasing) (simp_all add: byte_size_def)
  finally show ?thesis by (simp add: pow_256)
qed

lemma byte_size_lower:
  assumes "0 < val a"
  shows "0 < byte_size (bits_of a) \<and> 256 ^ (byte_size (bits_of a) - 1) \<le> val a"
proof -
  have b: "0 < bits_of a" using assms bits_of_eq_0 [of a] by simp
  have "8 * (byte_size (bits_of a) - 1) \<le> bits_of a - 1" by (simp add: byte_size_def)
  then have "(2 :: nat) ^ (8 * (byte_size (bits_of a) - 1)) \<le> 2 ^ (bits_of a - 1)"
    by (intro power_increasing) simp_all
  also have "\<dots> \<le> val a" using b by (rule bits_le_val)
  finally show ?thesis using b by (simp add: pow_256 byte_size_def)
qed

text \<open>The three-byte prefix that \<open>GetCompact\<close> keeps.\<close>

definition prefix3 :: "nat \<Rightarrow> nat \<Rightarrow> nat" where
  "prefix3 n v = (if n \<le> 3 then v * 256 ^ (3 - n) else v div 256 ^ (n - 3))"

lemma prefix3_bounds:
  assumes "v < 256 ^ n"
  shows "prefix3 n v < 2 ^ 24"
proof (cases "n \<le> 3")
  case True
  have "v * 256 ^ (3 - n) < 256 ^ n * 256 ^ (3 - n)" using assms by simp
  also have "\<dots> = (256 :: nat) ^ 3" using True by (simp flip: power_add)
  finally show ?thesis using True by (simp add: prefix3_def)
next
  case False
  then have "n = 3 + (n - 3)" by simp
  then have "(256 :: nat) ^ n = 256 ^ 3 * 256 ^ (n - 3)" by (metis power_add)
  then have "v < 256 ^ 3 * 256 ^ (n - 3)" using assms by simp
  then show ?thesis using False by (simp add: prefix3_def less_mult_imp_div_less)
qed

lemma prefix3_lower:
  assumes "0 < n" "256 ^ (n - 1) \<le> v"
  shows "2 ^ 16 \<le> prefix3 n v"
proof (cases "n \<le> 3")
  case True
  have "(256 :: nat) ^ 2 = 256 ^ (n - 1) * 256 ^ (3 - n)" using True assms(1) by (simp flip: power_add)
  also have "\<dots> \<le> v * 256 ^ (3 - n)" using assms(2) by simp
  finally show ?thesis using True by (simp add: prefix3_def)
next
  case False
  then have "n - 1 = 2 + (n - 3)" by simp
  then have "(256 :: nat) ^ 2 * 256 ^ (n - 3) = 256 ^ (n - 1)" by (metis power_add)
  then have "256 ^ 2 * 256 ^ (n - 3) \<le> v" using assms(2) by simp
  then show ?thesis using False by (simp add: prefix3_def less_eq_div_iff_mult_less_eq)
qed

lemma prefix3_word:
  assumes "length a = 8"
  defines "n \<equiv> byte_size (bits_of a)"
  shows "unat ((if n \<le> 3 then ucast (push_bit (8 * (3 - n)) (Get64 a))
                else ucast (Get64 (op_shr a (8 * (n - 3))))) :: u32) = prefix3 n (val a)"
proof -
  have lt: "prefix3 n (val a) < 2 ^ 24"
    unfolding n_def by (rule prefix3_bounds) (rule byte_size_upper)
  show ?thesis
  proof (cases "n \<le> 3")
    case True
    have "val a * 256 ^ (3 - n) < 2 ^ 24" using lt True by (simp add: prefix3_def)
    moreover have "val a \<le> val a * 256 ^ (3 - n)" by simp
    ultimately have "val a < 2 ^ 24" by linarith
    then have "unat (Get64 a) = val a" using assms(1) by (simp add: unat_Get64)
    with \<open>val a * 256 ^ (3 - n) < 2 ^ 24\<close>
    have "unat (push_bit (8 * (3 - n)) (Get64 a)) = val a * 256 ^ (3 - n)"
      using unat_push_bit [of "Get64 a" "8 * (3 - n)"] by (simp add: pow_256)
    then show ?thesis using True lt by (simp add: unat_ucast_64_32 prefix3_def)
  next
    case False
    then have "unat (Get64 (op_shr a (8 * (n - 3)))) = prefix3 n (val a)"
      using assms(1) lt by (simp add: unat_Get64 val_op_shr prefix3_def pow_256)
    then show ?thesis using False lt by (simp add: unat_ucast_64_32)
  qed
qed


text \<open>The mantissa and the exponent byte that are stored, after the sign bit is kept free.\<close>

definition norm_mantissa :: "nat \<Rightarrow> nat" where
  "norm_mantissa p = (if 2 ^ 23 \<le> p then p div 256 else p)"

definition norm_size :: "nat \<Rightarrow> nat \<Rightarrow> nat" where
  "norm_size n p = (if 2 ^ 23 \<le> p then n + 1 else n)"

lemma bit23_iff:
  assumes "unat (c :: u32) < 2 ^ 24"
  shows "bit c 23 \<longleftrightarrow> 2 ^ 23 \<le> unat c"
proof -
  have "bit c 23 \<longleftrightarrow> bit (unat c) 23" by (simp add: bit_unsigned_iff)
  then have "bit c 23 \<longleftrightarrow> odd (unat c div 2 ^ 23)" by (simp only: bit_iff_odd)
  moreover have "unat c div 2 ^ 23 < 2"
    using assms by (simp add: less_mult_imp_div_less)
  then have "odd (unat c div 2 ^ 23) \<longleftrightarrow> 0 < unat c div 2 ^ 23"
    by (auto simp: less_2_cases_iff)
  ultimately show ?thesis by (simp add: div_greater_zero_iff)
qed

lemma unat_with_size:
  assumes "unat (c :: u32) < 2 ^ 24" and "n < 256"
  shows "unat (c OR push_bit 24 (of_nat n)) = unat c + 2 ^ 24 * n"
proof -
  have n: "unat (of_nat n :: u32) = n" using assms(2) by (simp add: unat_of_nat)
  then have "unat (push_bit 24 (of_nat n) :: u32) = 2 ^ 24 * n"
    using unat_push_bit [of "of_nat n :: u32" 24] assms(2) by simp
  then have "unat (c OR push_bit 24 (of_nat n)) = unat c OR (2 ^ 24 * n)"
    by (simp only: unsigned_or_eq)
  then show ?thesis using or_add_high [OF assms(1), of n] by simp
qed

lemma GetCompact_unat:
  assumes "length a = 8"
  defines "n \<equiv> byte_size (bits_of a)"
  defines "p \<equiv> prefix3 n (val a)"
  shows "unat (GetCompact a f) = norm_mantissa p + 2 ^ 23 * (if f \<and> norm_mantissa p \<noteq> 0 then 1 else 0)
      + 2 ^ 24 * norm_size n p
    \<and> norm_mantissa p < 2 ^ 23 \<and> norm_size n p < 256"
proof -
  define c0 :: u32 where "c0 = (if n \<le> 3 then ucast (push_bit (8 * (3 - n)) (Get64 a))
                else ucast (Get64 (op_shr a (8 * (n - 3)))))"
  have c0: "unat c0 = p"
    unfolding c0_def p_def n_def by (rule prefix3_word) (rule assms(1))
  have p: "p < 2 ^ 24" unfolding p_def n_def by (rule prefix3_bounds) (rule byte_size_upper)
  define c1 where "c1 = (if bit c0 23 then drop_bit 8 c0 else c0)"
  have b: "bit c0 23 \<longleftrightarrow> 2 ^ 23 \<le> p" using bit23_iff [of c0] p c0 by simp
  have c1: "unat c1 = norm_mantissa p"
    using unat_drop_bit_div [of 8 c0] c0 by (simp add: c1_def b norm_mantissa_def)
  have m: "norm_mantissa p < 2 ^ 23" using p by (auto simp: norm_mantissa_def)
  have ns: "norm_size n p = (if bit c0 23 then n + 1 else n)" by (simp add: norm_size_def b)
  have n: "norm_size n p < 256"
  proof -
    have "bits_of a + 7 < 8 * 33" using bits_of_le [of a] assms(1) by simp
    then have "n < 33" by (simp only: n_def byte_size_def less_mult_imp_div_less mult.commute)
    then show ?thesis by (simp add: norm_size_def)
  qed
  define c2 where "c2 = c1 OR push_bit 24 (of_nat (norm_size n p))"
  have c2: "unat c2 = norm_mantissa p + 2 ^ 24 * norm_size n p"
    unfolding c2_def using unat_with_size [of c1 "norm_size n p"] c1 m n by simp
  have word: "c2 AND 0x007fffff \<noteq> 0 \<longleftrightarrow> norm_mantissa p \<noteq> 0"
  proof -
    have "unat c2 mod 2 ^ 23 = norm_mantissa p"
      using m by (simp add: c2 mod_mult2_eq mod_add_eq [symmetric] mod_mult_eq [symmetric])
    then have "unat (c2 AND 0x007fffff) = norm_mantissa p" by (simp only: compact_word)
    then show ?thesis by (simp flip: unat_eq_0)
  qed
  have "GetCompact a f = c2 OR (if f \<and> norm_mantissa p \<noteq> 0 then 0x00800000 else 0)"
  proof -
    have "GetCompact a f = c2 OR (if f \<and> c2 AND 0x007fffff \<noteq> 0 then 0x00800000 else 0)"
      unfolding GetCompact_def Let_def
      by (simp only: compact_sign byte_size_def [symmetric] n_def [symmetric] c0_def [symmetric] c2_def c1_def ns)
        simp
    then show ?thesis by (simp only: word)
  qed
  moreover have "unat (c2 OR 0x00800000) = unat c2 + 2 ^ 23"
  proof -
    have "\<not> bit (norm_mantissa p) 23"
      using m by (simp add: bit_iff_odd)
    then have "\<not> bit (unat c2) 23"
      using m bit_split_nat [of "norm_mantissa p" 24 "norm_size n p" 23] by (simp add: c2)
    then have "unat c2 OR 2 ^ 23 = unat c2 + 2 ^ 23" by (rule or_add_bit)
    then show ?thesis by (simp add: unsigned_or_eq)
  qed
  ultimately show ?thesis using m n by (simp add: c2)
qed

lemma compact_canonical:
  assumes v: "v < 256 ^ n" "0 < v \<Longrightarrow> 0 < n \<and> 256 ^ (n - 1) \<le> v"
  defines "p \<equiv> prefix3 n v"
  shows "\<exists>k. compact_number (norm_size n p) (norm_mantissa p) = v div 256 ^ k * 256 ^ k
      \<and> (k = 0 \<or> 2 ^ 15 \<le> v div 256 ^ k)"
proof (cases "n \<le> 3")
  case True
  then have p: "p = v * 256 ^ (3 - n)" by (simp add: p_def prefix3_def)
  show ?thesis
  proof (cases "2 ^ 23 \<le> p")
    case False
    then show ?thesis using True p
      by (intro exI [of _ 0]) (simp add: compact_number_def norm_size_def norm_mantissa_def)
  next
    case big: True
    consider "n = 3" | "n = 2" | "n = 1" | "n = 0" using True by linarith
    then show ?thesis
    proof cases
      case 1
      then show ?thesis using big p
        by (intro exI [of _ 1]) (simp add: compact_number_def norm_size_def norm_mantissa_def)
    qed (use big p v in \<open>auto intro!: exI [of _ 0]
        simp: compact_number_def norm_size_def norm_mantissa_def\<close>)
  qed
next
  case False
  then have p: "p = v div 256 ^ (n - 3)" by (simp add: p_def prefix3_def)
  show ?thesis
  proof (cases "2 ^ 23 \<le> p")
    case small: False
    have "v > 0 \<Longrightarrow> 2 ^ 16 \<le> p" using prefix3_lower v(2) by (simp add: p_def)
    moreover have "n - 3 \<noteq> 0" using False by simp
    ultimately show ?thesis
      using False small p v by (cases "v = 0")
        (auto intro!: exI [of _ "n - 3"] simp: compact_number_def norm_size_def norm_mantissa_def)
  next
    case True
    have "v div 256 ^ (n + 1 - 3) = p div 256"
    proof -
      have "n + 1 - 3 = (n - 3) + 1" using False by simp
      then show ?thesis by (simp add: p div_mult2_eq [symmetric] mult.commute)
    qed
    then show ?thesis using False True
      by (intro exI [of _ "n + 1 - 3"]) (simp add: compact_number_def norm_size_def norm_mantissa_def)
  qed
qed

text \<open>The fields of a compact word, read back from its number.\<close>

lemma compact_fields:
  fixes m e s :: nat
  assumes u: "unat (c :: u32) = m + 2 ^ 23 * e + 2 ^ 24 * s" and m: "m < 2 ^ 23" and e: "e < 2"
  shows "unat c div 2 ^ 24 = s" and "unat c mod 2 ^ 23 = m" and "bit c 23 \<longleftrightarrow> e = 1"
proof -
  have low: "m + 2 ^ 23 * e < 2 ^ 24" using m e by simp
  show "unat c div 2 ^ 24 = s" using low by (simp add: u)
  have eq: "unat c = m + 2 ^ 23 * (e + 2 * s)" by (simp add: u)
  have "(m + 2 ^ 23 * x) mod 2 ^ 23 = m" for x using m by simp
  then show "unat c mod 2 ^ 23 = m" by (simp only: eq)
  have "bit c 23 \<longleftrightarrow> bit (unat c) 23" by (simp add: bit_unsigned_iff)
  also have "\<dots> \<longleftrightarrow> bit (e + 2 * s) 0"
    using bit_split_nat [OF m, of "e + 2 * s" 23] by (simp only: eq) simp
  also have "\<dots> \<longleftrightarrow> e = 1" using e by (auto simp: bit_0 less_2_cases_iff)
  finally show "bit c 23 \<longleftrightarrow> e = 1" .
qed

lemma compact_round_trip:
  assumes "length a = 8"
  shows "\<exists>t k. SetCompact (GetCompact a f) = (t, f \<and> val a \<noteq> 0, False) \<and> length t = 8
     \<and> val t = val a div 256 ^ k * 256 ^ k \<and> (k = 0 \<or> 2 ^ 15 \<le> val a div 256 ^ k)"
proof -
  define n p where "n = byte_size (bits_of a)" and "p = prefix3 n (val a)"
  define m s e where "m = norm_mantissa p" and "s = norm_size n p"
    and "e = (if f \<and> norm_mantissa p \<noteq> 0 then 1 else 0 :: nat)"
  define c where "c = GetCompact a f"
  have u: "unat c = m + 2 ^ 23 * e + 2 ^ 24 * s" "m < 2 ^ 23" "e < 2"
    using GetCompact_unat [OF assms, of f] unfolding c_def p_def n_def m_def s_def e_def by simp_all
  have cv: "compact_value (unat c) = compact_number s m"
    using compact_fields [OF u] by (simp only: compact_value_def)
  have sign: "bit c 23 \<longleftrightarrow> f \<and> m \<noteq> 0"
    using compact_fields(3) [OF u] by (simp add: e_def m_def)
  obtain k where k: "compact_number s m = val a div 256 ^ k * 256 ^ k" "k = 0 \<or> 2 ^ 15 \<le> val a div 256 ^ k"
    using compact_canonical [of "val a" n] byte_size_upper [of a] byte_size_lower [of a]
    by (auto simp: p_def n_def m_def s_def)
  have le: "compact_number s m \<le> val a" using k(1) by (simp add: div_times_less_eq_dividend)
  have lt: "val a < 2 ^ 256" using val_less [of a] assms by simp
  have nz: "compact_number s m \<noteq> 0 \<longleftrightarrow> val a \<noteq> 0"
  proof (cases "k = 0")
    case False
    then have "val a div 256 ^ k \<noteq> 0" using False k(2) by (intro notI) simp
    moreover from this have "val a \<noteq> 0" by (metis div_0)
    ultimately show ?thesis by (simp add: k(1))
  qed (simp add: k(1))
  have mz: "m \<noteq> 0" if "val a \<noteq> 0"
    using that nz by (cases "m = 0") (simp_all add: compact_number_def split: if_splits)
  from SetCompact_val [of c] obtain t neg ovf where t: "SetCompact c = (t, neg, ovf)" "length t = 8"
      "val t = compact_value (unat c) mod 2 ^ 256" "ovf \<longleftrightarrow> 2 ^ 256 \<le> compact_value (unat c)"
      "neg \<longleftrightarrow> compact_value (unat c) \<noteq> 0 \<and> bit c 23" by blast
  have "\<not> ovf" using t(4) le lt by (simp only: cv)
  moreover have "neg \<longleftrightarrow> f \<and> val a \<noteq> 0" using t(5) nz mz sign by (auto simp only: cv)
  moreover have "val t = val a div 256 ^ k * 256 ^ k" proof -
    have "compact_number s m mod 2 ^ 256 = compact_number s m"
      using le lt by (intro mod_less) linarith
    then show ?thesis using t(3) by (simp only: cv k(1))
  qed
  ultimately show ?thesis using t(1,2) k(2) by (auto simp: c_def)
qed

section \<open>Properties\<close>

text \<open>
  \<open>SetCompact\<close> decodes a compact word to the number
  \<open>mantissa * 256 ^ (exponent - 3)\<close> (the mantissa shifted right when the exponent is below 3),
  reduced to 256 bits; it raises the overflow flag exactly when that number does not fit 256
  bits, and the negative flag exactly when the number is not zero and the sign bit is set.
\<close>

lemma SetCompact_correct:
  "\<exists>t neg ovf. SetCompact c = (t, neg, ovf) \<and> length t = 8
     \<and> val t = compact_value (unat c) mod 2 ^ 256
     \<and> (ovf \<longleftrightarrow> 2 ^ 256 \<le> compact_value (unat c))
     \<and> (neg \<longleftrightarrow> compact_value (unat c) \<noteq> 0 \<and> bit c 23)"
  by (rule SetCompact_val)

text \<open>
  encoding a 256-bit number with \<open>GetCompact\<close> and decoding it again never overflows, keeps
  the sign of a non-zero number, and returns the number with its lowest \<open>k\<close> bytes cleared, where
  nothing is lost (\<open>k = 0\<close>) or at least 16 significant bits are kept.
\<close>

lemma GetCompact_round_trip:
  assumes "length a = 8"
  shows "\<exists>t k. SetCompact (GetCompact a f) = (t, f \<and> val a \<noteq> 0, False) \<and> length t = 8
     \<and> val t = val a div 256 ^ k * 256 ^ k \<and> (k = 0 \<or> 2 ^ 15 \<le> val a div 256 ^ k)"
  using assms by (rule compact_round_trip)

end
