(* ===== verification/Script_Num.thy ===== *)
theory Script_Num
  imports DAPS_Prelude
begin

text \<open>
  \<open>CScriptNum\<close> of \<open>script/script.h\<close>: the numbers of the script language. A script number
  holds an \<open>int64_t\<close>; the model holds the integer itself. The constructor from a byte vector
  throws on more than four bytes and, on demand, on an encoding that is not minimal; a
  constructor that throws returns the left of a sum.
\<close>

section \<open>Decoding and encoding\<close>

datatype scriptnum_error = ScriptNumOverflow | ScriptNumNonMinimal

definition nMaxNumSize :: nat where
  "nMaxNumSize = 4"

fun set_vch_loop :: "nat \<Rightarrow> u64 \<Rightarrow> bytes \<Rightarrow> u64" where
  "set_vch_loop i result [] = result"
| "set_vch_loop i result (b # bs) = set_vch_loop (i + 1) (result OR push_bit (8 * i) (ucast b)) bs"

definition set_vch :: "bytes \<Rightarrow> int" where
  "set_vch vch =
     (if vch = [] then 0
      else let result = set_vch_loop 0 0 vch in
        if last vch AND 0x80 \<noteq> 0
        then - sint (result AND NOT (push_bit (8 * (length vch - 1)) 0x80))
        else sint result)"

definition CScriptNum :: "bytes \<Rightarrow> bool \<Rightarrow> scriptnum_error + int" where
  "CScriptNum vch fRequireMinimal =
     (if length vch > nMaxNumSize then Inl ScriptNumOverflow
      else if fRequireMinimal \<and> length vch > 0 \<and> last vch AND 0x7f = 0
              \<and> (length vch \<le> 1 \<or> vch ! (length vch - 2) AND 0x80 = 0)
      then Inl ScriptNumNonMinimal
      else Inr (set_vch vch))"

definition getint :: "int \<Rightarrow> int" where
  "getint m_value = (if m_value > 2147483647 then 2147483647
                     else if m_value < - 2147483648 then - 2147483648 else m_value)"

function serialize_loop :: "u64 \<Rightarrow> bytes" where
  "serialize_loop absvalue =
     (if absvalue = 0 then []
      else ucast (absvalue AND 0xff) # serialize_loop (drop_bit 8 absvalue))"
  by pat_completeness auto
termination
proof (relation "measure unat")
  fix w :: u64
  assume "w \<noteq> 0"
  then have "0 < unat w" by (simp add: unat_gt_0)
  then have "unat w div 2 ^ 8 < unat w" by (intro div_less_dividend) simp_all
  then show "(drop_bit 8 w, w) \<in> measure unat"
    by (simp only: in_measure unat_drop_bit_div)
qed simp

declare serialize_loop.simps [simp del]

definition serialize :: "int \<Rightarrow> bytes" where
  "serialize value =
     (if value = 0 then []
      else let neg = value < 0;
               absvalue = (if neg then of_int (- value) else of_int value);
               result = serialize_loop absvalue
           in if last result AND 0x80 \<noteq> 0 then result @ [if neg then 0x80 else 0]
              else if neg then butlast result @ [last result OR 0x80]
              else result)"

section \<open>Sign and magnitude\<close>

text \<open>The number a byte vector stands for: the top bit of the last byte is the sign.\<close>

definition sm_mag :: "bytes \<Rightarrow> nat" where
  "sm_mag vch = (if vch = [] then 0
                 else le_val (butlast vch) + 256 ^ (length vch - 1) * (unat (last vch) mod 128))"

definition sm_neg :: "bytes \<Rightarrow> bool" where
  "sm_neg vch \<longleftrightarrow> vch \<noteq> [] \<and> 128 \<le> unat (last vch)"

definition sm_value :: "bytes \<Rightarrow> int" where
  "sm_value vch = (if sm_neg vch then - int (sm_mag vch) else int (sm_mag vch))"

definition sm_minimal :: "bytes \<Rightarrow> bool" where
  "sm_minimal vch \<longleftrightarrow> vch = [] \<or> unat (last vch) mod 128 \<noteq> 0
     \<or> (length vch > 1 \<and> 128 \<le> unat (vch ! (length vch - 2)))"

lemma byte_and_7f: "(b :: byte) AND 0x7f = 0 \<longleftrightarrow> unat b mod 128 = 0"
proof -
  have "unat (b AND mask 7) = unat b mod 2 ^ 7" by (rule unat_and_mask)
  moreover have "(mask 7 :: byte) = 0x7f" by (simp add: mask_eq_exp_minus_1)
  ultimately show ?thesis by (simp flip: unat_eq_0)
qed

lemma byte_and_80: "(b :: byte) AND 0x80 \<noteq> 0 \<longleftrightarrow> 128 \<le> unat b"
proof -
  have "b AND 0x80 \<noteq> 0 \<longleftrightarrow> bit b 7"
    using bit_iff_and_push_bit_not_eq_0 [of b 7] by (simp add: push_bit_eq_mult)
  also have "\<dots> \<longleftrightarrow> odd (unat b div 2 ^ 7)" by (rule bit_word_odd)
  also have "\<dots> \<longleftrightarrow> 128 \<le> unat b"
  proof -
    have "unat b div 2 ^ 7 < 2" by (rule less_mult_imp_div_less) simp
    then show ?thesis by (auto simp: less_2_cases_iff)
  qed
  finally show ?thesis .
qed

lemma byte_high: "128 \<le> unat (t :: byte) \<Longrightarrow> unat t mod 128 + 128 = unat t"
proof -
  assume t: "128 \<le> unat t"
  have "unat t - 128 < 128" using t unat_byte_le [of t] by linarith
  then have "(unat t - 128) mod 128 = unat t - 128" by (rule mod_less)
  with t show ?thesis by (simp add: le_mod_geq)
qed

lemma set_vch_loop_val:
  assumes "unat r < 256 ^ i" and "i + length bs \<le> 8"
  shows "unat (set_vch_loop i r bs) = unat r + 256 ^ i * le_val bs"
  using assms
proof (induction bs arbitrary: i r)
  case (Cons b bs)
  have p: "(256 :: nat) ^ i = 2 ^ (8 * i)" by (simp add: power_mult)
  have "i \<le> 7" using Cons.prems by simp
  then have "(256 :: nat) ^ i \<le> 256 ^ 7" by (intro power_increasing) simp_all
  then have "unat b * 256 ^ i \<le> 255 * 256 ^ 7" using unat_byte_le [of b] by (intro mult_le_mono)
  then have small: "unat b * 2 ^ (8 * i) < 2 ^ 64" by (simp add: p)
  have "unat (push_bit (8 * i) (ucast b :: u64)) = 2 ^ (8 * i) * unat b"
    using unat_push_bit [of "ucast b :: u64" "8 * i"] small by (simp add: mult.commute)
  then have r: "unat (r OR push_bit (8 * i) (ucast b)) = unat r + 256 ^ i * unat b"
    using or_add_high [of "unat r" "8 * i" "unat b"] Cons.prems(1) by (simp add: unsigned_or_eq p)
  have "unat r + 256 ^ i * unat b < 256 ^ i + 256 ^ i * unat b" using Cons.prems(1) by simp
  also have "\<dots> = 256 ^ i * (unat b + 1)" by simp
  also have "\<dots> \<le> 256 ^ i * 256" using unat_byte_le [of b] by (intro mult_left_mono) simp_all
  finally have "unat (r OR push_bit (8 * i) (ucast b)) < 256 ^ (i + 1)"
    by (simp only: r) (simp add: mult.commute)
  then show ?case using Cons.IH [of "r OR push_bit (8 * i) (ucast b)" "i + 1"] Cons.prems(2) r
    by (simp add: algebra_simps)
qed simp

lemma sint_u64_small: "unat (w :: u64) = m \<Longrightarrow> m < 2 ^ 63 \<Longrightarrow> sint w = int m"
proof -
  assume m: "unat w = m" "m < 2 ^ 63"
  then have "unat w < 2 ^ 63" by simp
  then have "int (unat w) < int (2 ^ 63)" by (simp only: of_nat_less_iff)
  then have u: "uint w < 2 ^ 63" by simp
  have "- (2 ^ 63) \<le> uint w" by (rule order_trans [OF _ uint_ge_0]) simp
  with u have "signed_take_bit 63 (uint w) = uint w"
    by (intro signed_take_bit_int_eq_self)
  then show ?thesis by (simp add: sint_uint uint_nat m(1))
qed

lemma unat_clear_bit:
  assumes "bit (w :: 'a::len word) k"
  shows "unat (w AND NOT (push_bit k 1)) + 2 ^ k = unat w"
proof -
  let ?y = "w AND NOT (push_bit k 1)"
  have k: "k < LENGTH('a)" using assms by (rule bit_imp_le_length)
  then have one: "unat (push_bit k (1 :: 'a word)) = 2 ^ k"
    using unat_push_bit [of "1 :: 'a word" k] by simp
  have "w = ?y OR push_bit k 1"
    using assms by (intro bit_eqI) (auto simp: bit_simps)
  then have "unat w = unat ?y OR 2 ^ k" by (metis one unsigned_or_eq)
  moreover have "\<not> bit (unat ?y) k" by (simp add: bit_unsigned_iff bit_simps)
  ultimately show ?thesis by (simp add: or_add_bit)
qed

lemma sm_mag_less:
  assumes "vch \<noteq> []"
  shows "sm_mag vch < 128 * 256 ^ (length vch - 1)"
proof -
  have "sm_mag vch < 256 ^ (length vch - 1) + 256 ^ (length vch - 1) * (unat (last vch) mod 128)"
    using le_val_less [of "butlast vch"] assms by (simp add: sm_mag_def)
  also have "\<dots> = 256 ^ (length vch - 1) * (unat (last vch) mod 128 + 1)" by simp
  also have "\<dots> \<le> 256 ^ (length vch - 1) * 128"
  proof (rule mult_left_mono)
    have "unat (last vch) mod 128 < 128" by simp
    then show "unat (last vch) mod 128 + 1 \<le> 128" by linarith
  qed simp
  finally show ?thesis by simp
qed

lemma set_vch_sm:
  assumes "length vch \<le> 8"
  shows "set_vch vch = sm_value vch"
proof (cases vch rule: rev_cases)
  case Nil
  then show ?thesis by (simp add: set_vch_def sm_value_def sm_neg_def sm_mag_def)
next
  case (snoc bs t)
  define r where "r = set_vch_loop 0 0 vch"
  have r: "unat r = le_val bs + 256 ^ length bs * unat t"
    using set_vch_loop_val [of 0 0 vch] assms by (simp add: r_def snoc le_val_append)
  define k where "k = 8 * length bs + 7"
  have p: "(256 :: nat) ^ length bs = 2 ^ (8 * length bs)" by (simp add: power_mult)
  have "sm_mag vch < 128 * 256 ^ length bs" using sm_mag_less [of vch] by (simp add: snoc)
  also have "\<dots> \<le> 128 * 256 ^ 7"
    using assms by (intro mult_left_mono power_increasing) (simp_all add: snoc)
  finally have small: "sm_mag vch < 2 ^ 63" by simp
  show ?thesis
  proof (cases "128 \<le> unat t")
    case True
    have "push_bit (8 * length bs) 0x80 = (push_bit k 1 :: u64)"
      by (simp add: k_def push_bit_add [symmetric] push_bit_eq_mult power_add mult.commute)
    moreover have "bit r k"
    proof -
      have "bit r k \<longleftrightarrow> bit (unat r) k" by (simp add: bit_unsigned_iff)
      also have "\<dots> \<longleftrightarrow> bit (le_val bs + 2 ^ (8 * length bs) * unat t) k" by (simp only: r p)
      also have "\<dots> \<longleftrightarrow> bit (unat t) 7"
        using le_val_less [of bs] bit_split_nat [of "le_val bs" "8 * length bs" "unat t" k]
        by (simp add: p k_def)
      also have "\<dots> \<longleftrightarrow> bit t 7" by (simp add: bit_unsigned_iff)
      also have "\<dots>" using True bit_iff_and_push_bit_not_eq_0 [of t 7] byte_and_80 [of t]
        by (simp add: push_bit_eq_mult)
      finally show ?thesis by simp
    qed
    ultimately have "unat (r AND NOT (push_bit (8 * length bs) 0x80)) + 2 ^ k = unat r"
      by (simp only: unat_clear_bit)
    moreover have "unat t mod 128 + 128 = unat t" using True by (rule byte_high)
    then have "unat r = sm_mag vch + 2 ^ k"
      unfolding r k_def by (simp add: sm_mag_def snoc p power_add flip: distrib_left)
    ultimately have "unat (r AND NOT (push_bit (8 * length bs) 0x80)) = sm_mag vch" by linarith
    then have "sint (r AND NOT (push_bit (8 * length bs) 0x80)) = int (sm_mag vch)"
      by (rule sint_u64_small) (rule small)
    then show ?thesis using True by (simp add: set_vch_def sm_value_def sm_neg_def snoc byte_and_80 flip: r_def [unfolded snoc])
  next
    case False
    then have "unat r = sm_mag vch" by (simp add: r sm_mag_def snoc)
    then have "sint r = int (sm_mag vch)" by (rule sint_u64_small) (rule small)
    then show ?thesis using False by (simp add: set_vch_def sm_value_def sm_neg_def snoc byte_and_80 flip: r_def [unfolded snoc])
  qed
qed

section \<open>Encoding is minimal and inverts decoding\<close>

lemma serialize_loop_zero [simp]: "serialize_loop 0 = []"
  by (simp add: serialize_loop.simps)

lemma serialize_loop_step:
  "w \<noteq> 0 \<Longrightarrow> serialize_loop w = ucast (w AND 0xff) # serialize_loop (drop_bit 8 w)"
  by (simp add: serialize_loop.simps [of w])

lemma unat_low_byte: "unat (ucast ((w :: u64) AND 0xff) :: byte) = unat w mod 256"
proof -
  have "unat (w AND mask 8) = unat w mod 2 ^ 8" by (rule unat_and_mask)
  moreover have "(mask 8 :: u64) = 0xff" by (simp add: mask_eq_exp_minus_1)
  ultimately have "unat (w AND 0xff) = unat w mod 256" by simp
  moreover have "unat (ucast (w AND 0xff) :: byte) = unat (w AND 0xff) mod 2 ^ 8"
    by (simp only: unsigned_ucast_eq take_bit_eq_mod) simp
  ultimately show ?thesis by simp
qed

lemma serialize_loop_val: "le_val (serialize_loop w) = unat w"
proof (induction w rule: serialize_loop.induct)
  case (1 w)
  show ?case
  proof (cases "w = 0")
    case False
    have "le_val (serialize_loop w) = unat w mod 256 + 256 * unat (drop_bit 8 w)"
      by (simp only: serialize_loop_step [OF False] le_val.simps unat_low_byte 1 [OF False])
    then show ?thesis by (simp only: unat_drop_bit_div) simp
  qed simp
qed

lemma serialize_loop_last:
  "w \<noteq> 0 \<Longrightarrow> serialize_loop w \<noteq> [] \<and> last (serialize_loop w) \<noteq> 0"
proof (induction w rule: serialize_loop.induct)
  case (1 w)
  show ?case
  proof (cases "drop_bit 8 w = 0")
    case True
    then have "unat w div 2 ^ 8 = 0" by (metis unat_0 unat_drop_bit_div)
    then have "unat w mod 256 = unat w" by (simp add: div_eq_0_iff)
    then have "unat (ucast (w AND 0xff) :: byte) \<noteq> 0"
      using 1(2) by (simp add: unat_low_byte unat_eq_0)
    then have "ucast (w AND 0xff) \<noteq> (0 :: byte)" by (metis unat_0)
    then show ?thesis using serialize_loop_step [OF 1(2)] True by simp
  next
    case False
    then show ?thesis using 1 by (simp add: serialize_loop_step)
  qed
qed

lemma serialize_cases:
  assumes "v \<noteq> 0" "\<bar>v\<bar> < 2 ^ 63"
  obtains bs t where "t \<noteq> 0" "le_val (bs @ [t]) = nat \<bar>v\<bar>"
    "serialize v = (if 128 \<le> unat t then bs @ [t, if v < 0 then 0x80 else 0]
                    else if v < 0 then bs @ [t OR 0x80] else bs @ [t])"
proof -
  define w :: u64 where "w = of_int \<bar>v\<bar>"
  have "uint w = \<bar>v\<bar>"
    using assms(2) by (simp add: w_def uint_word_of_int)
  then have w: "unat w = nat \<bar>v\<bar>" by (simp add: unat_eq_nat_uint)
  then have "w \<noteq> 0" using assms(1) by (auto simp: unat_eq_0 [symmetric])
  obtain bs t where r: "serialize_loop w = bs @ [t]" "t \<noteq> 0"
    using serialize_loop_last [OF \<open>w \<noteq> 0\<close>] by (metis append_butlast_last_id)
  have "le_val (bs @ [t]) = nat \<bar>v\<bar>" using serialize_loop_val [of w] by (simp only: r w)
  moreover have w_eq: "(if v < 0 then of_int (- v) else of_int v) = w" by (simp add: w_def)
  have "serialize v = (if 128 \<le> unat t then bs @ [t, if v < 0 then 0x80 else 0]
                    else if v < 0 then bs @ [t OR 0x80] else bs @ [t])"
    using assms(1) by (simp only: serialize_def Let_def w_eq r byte_and_80) simp
  ultimately show ?thesis using that r(2) by blast
qed

lemma serialize_sm:
  assumes "\<bar>v\<bar> < 2 ^ 63"
  shows "sm_value (serialize v) = v \<and> sm_minimal (serialize v)"
proof (cases "v = 0")
  case True
  then show ?thesis by (simp add: serialize_def sm_value_def sm_neg_def sm_mag_def sm_minimal_def)
next
  case False
  obtain bs t where *: "t \<noteq> 0" "le_val (bs @ [t]) = nat \<bar>v\<bar>"
    "serialize v = (if 128 \<le> unat t then bs @ [t, if v < 0 then 0x80 else 0]
                    else if v < 0 then bs @ [t OR 0x80] else bs @ [t])"
    using serialize_cases [OF False assms] by blast
  have t: "0 < unat t" using *(1) by (simp add: unat_gt_0)
  have "sm_mag (serialize v) = nat \<bar>v\<bar> \<and> (sm_neg (serialize v) \<longleftrightarrow> v < 0) \<and> sm_minimal (serialize v)"
  proof (cases "128 \<le> unat t")
    case True
    then show ?thesis using *
      by (auto simp: sm_neg_def sm_mag_def sm_minimal_def butlast_append nth_append)
  next
    case small: False
    have "\<not> bit (unat t) 7" using small by (simp add: bit_iff_odd)
    then have "unat t OR 2 ^ 7 = unat t + 2 ^ 7" by (rule or_add_bit)
    then have "unat (t OR 0x80) = unat t + 128" by (simp add: unsigned_or_eq)
    then show ?thesis using * small t
      by (auto simp: sm_neg_def sm_mag_def sm_minimal_def le_val_append)
  qed
  then show ?thesis by (auto simp: sm_value_def)
qed

lemma sm_mag_bounds:
  assumes "sm_minimal vch" "vch \<noteq> []"
  shows "0 < sm_mag vch \<and> (1 < length vch \<longrightarrow> 128 * 256 ^ (length vch - 2) \<le> sm_mag vch)"
proof -
  obtain bs t where v: "vch = bs @ [t]" using assms(2) by (metis append_butlast_last_id)
  show ?thesis
  proof (cases "unat t mod 128 = 0")
    case False
    then have "(256 :: nat) ^ length bs * 1 \<le> 256 ^ length bs * (unat t mod 128)"
      by (intro mult_le_mono) simp_all
    moreover have "sm_mag vch = le_val bs + 256 ^ length bs * (unat t mod 128)"
      by (simp add: v sm_mag_def)
    ultimately have "(256 :: nat) ^ length bs \<le> sm_mag vch" by linarith
    moreover have "1 < length vch \<longrightarrow> 128 * (256 :: nat) ^ (length vch - 2) \<le> 256 ^ length bs"
      by (cases bs) (simp_all add: v)
    moreover have "0 < (256 :: nat) ^ length bs" by simp
    ultimately show ?thesis by linarith
  next
    case True
    then obtain cs u where bs: "bs = cs @ [u]" and u: "128 \<le> unat u"
      using assms(1) by (cases bs rule: rev_cases) (auto simp: v sm_minimal_def nth_append)
    have "256 ^ length cs * 128 \<le> 256 ^ length cs * unat u" using u by (intro mult_left_mono) simp_all
    moreover have "sm_mag vch = le_val cs + 256 ^ length cs * unat u"
      using True by (simp add: v bs sm_mag_def le_val_append butlast_append)
    ultimately have "128 * 256 ^ length cs \<le> sm_mag vch" by linarith
    moreover from this have "0 < sm_mag vch" by (rule less_le_trans [rotated]) simp
    ultimately show ?thesis by (simp add: v bs)
  qed
qed

text \<open>A minimal vector is determined by its number.\<close>

lemma sm_mag_value: "sm_mag vch = nat \<bar>sm_value vch\<bar>"
  by (simp add: sm_value_def)

lemma sm_neg_value: "0 < sm_mag vch \<Longrightarrow> sm_neg vch \<longleftrightarrow> sm_value vch < 0"
  by (simp add: sm_value_def)

lemma sm_minimal_length:
  assumes "sm_minimal xs" "sm_minimal ys" "sm_mag xs = sm_mag ys"
  shows "length xs \<le> length ys"
proof (rule ccontr)
  assume "\<not> length xs \<le> length ys"
  then have l: "length ys < length xs" and xs: "xs \<noteq> []" by auto
  show False
  proof (cases "ys = []")
    case True
    then show False using sm_mag_bounds [OF assms(1) xs] assms(3) by (simp add: sm_mag_def)
  next
    case False
    then have "0 < length ys" by simp
    then have "1 < length xs" and "length ys - 1 \<le> length xs - 2" using l by linarith+
    then have "128 * 256 ^ (length xs - 2) \<le> sm_mag xs"
      and "128 * (256 :: nat) ^ (length ys - 1) \<le> 128 * 256 ^ (length xs - 2)"
      using sm_mag_bounds [OF assms(1) xs] by (simp_all add: power_increasing)
    then show False using sm_mag_less [OF False] assms(3) by linarith
  qed
qed

lemma sm_minimal_inj:
  assumes "sm_minimal xs" "sm_minimal ys" "sm_value xs = sm_value ys"
  shows "xs = ys"
proof (cases "xs = [] \<or> ys = []")
  case True
  have "zs = []" if "sm_minimal zs" "sm_value zs = 0" for zs
    using that sm_mag_bounds [of zs] by (auto simp: sm_value_def split: if_splits)
  moreover have "sm_value [] = 0" by (simp add: sm_value_def sm_mag_def)
  ultimately show ?thesis using True assms by metis
next
  case False
  then have pos: "0 < sm_mag xs" "0 < sm_mag ys" using assms sm_mag_bounds by blast+
  then have mag: "sm_mag xs = sm_mag ys" and neg: "sm_neg xs = sm_neg ys"
    using assms(3) pos by (simp_all add: sm_mag_value sm_neg_value)
  have len: "length xs = length ys" using sm_minimal_length assms mag by (metis le_antisym)
  obtain bs t cs u where xs: "xs = bs @ [t]" and ys: "ys = cs @ [u]"
    using False by (metis append_butlast_last_id)
  have "le_val bs + 256 ^ length bs * (unat t mod 128) = le_val cs + 256 ^ length bs * (unat u mod 128)"
    using mag len by (simp add: xs ys sm_mag_def)
  then have "le_val bs = le_val cs" and m: "unat t mod 128 = unat u mod 128"
    using digit_eq_iff [of "le_val bs" "256 ^ length bs" "le_val cs"] le_val_less [of bs] le_val_less [of cs] len
    by (simp_all add: xs ys)
  then have "bs = cs" using len by (intro le_val_inj) (simp_all add: xs ys)
  moreover have "unat t = unat u"
  proof (cases "128 \<le> unat t")
    case True
    then have "128 \<le> unat u" using neg by (simp add: xs ys sm_neg_def)
    then show ?thesis using byte_high [OF True] byte_high [of u] m by linarith
  next
    case False
    then have "\<not> 128 \<le> unat u" using neg by (simp add: xs ys sm_neg_def)
    then have "unat t mod 128 = unat t" "unat u mod 128 = unat u" using False by (simp_all only: not_le mod_less)
    then show ?thesis using m by linarith
  qed
  ultimately show ?thesis by (simp add: xs ys word_unat_eq_iff)
qed

section \<open>What the constructor accepts\<close>

lemma CScriptNum_eq:
  "CScriptNum vch m = (if 4 < length vch then Inl ScriptNumOverflow
     else if m \<and> \<not> sm_minimal vch then Inl ScriptNumNonMinimal else Inr (sm_value vch))"
  using byte_and_80 [of "vch ! (length vch - 2)"]
  by (auto simp: CScriptNum_def nMaxNumSize_def set_vch_sm sm_minimal_def byte_and_7f)

lemma sm_mag_four: "length vch \<le> 4 \<Longrightarrow> sm_mag vch < 2 ^ 31"
proof (cases "vch = []")
  case False
  assume "length vch \<le> 4"
  then have "(256 :: nat) ^ (length vch - 1) \<le> 256 ^ 3" by (intro power_increasing) simp_all
  then show ?thesis using sm_mag_less [OF False] by simp
qed (simp add: sm_mag_def)

lemma CScriptNum_bound: "CScriptNum vch m = Inr v \<Longrightarrow> \<bar>v\<bar> < 2 ^ 31"
  using sm_mag_four [of vch] by (auto simp: CScriptNum_eq sm_value_def split: if_splits)

lemma serialize_length:
  assumes "\<bar>v\<bar> < 2 ^ 63"
  shows "length (serialize v) \<le> 4 \<longleftrightarrow> \<bar>v\<bar> < 2 ^ 31"
proof
  let ?s = "serialize v"
  note sm = serialize_sm [OF assms]
  have mag: "sm_mag ?s = nat \<bar>v\<bar>" using sm by (auto simp: sm_value_def split: if_splits)
  show "length ?s \<le> 4 \<Longrightarrow> \<bar>v\<bar> < 2 ^ 31" using sm_mag_four [of ?s] by (simp add: mag)
  assume v: "\<bar>v\<bar> < 2 ^ 31"
  show "length ?s \<le> 4"
  proof (rule ccontr)
    assume l: "\<not> length ?s \<le> 4"
    then have "(256 :: nat) ^ 3 \<le> 256 ^ (length ?s - 2)" by (intro power_increasing) simp_all
    moreover have "128 * 256 ^ (length ?s - 2) \<le> sm_mag ?s" using sm_mag_bounds [of ?s] sm l by (cases "?s = []") auto
    ultimately have "2 ^ 31 \<le> sm_mag ?s" by simp
    then show False using v by (simp add: mag)
  qed
qed

lemma CScriptNum_serialize: "\<bar>v\<bar> < 2 ^ 31 \<Longrightarrow> CScriptNum (serialize v) m = Inr v"
  using serialize_sm [of v] serialize_length [of v] by (simp add: CScriptNum_eq)

lemma CScriptNum_minimal_iff:
  "CScriptNum vch True = Inr v \<longleftrightarrow> vch = serialize v \<and> \<bar>v\<bar> < 2 ^ 31"
proof
  assume v: "CScriptNum vch True = Inr v"
  then have b: "\<bar>v\<bar> < 2 ^ 31" by (rule CScriptNum_bound)
  moreover have "vch = serialize v"
    using v b serialize_sm [of v] by (intro sm_minimal_inj) (auto simp: CScriptNum_eq split: if_splits)
  ultimately show "vch = serialize v \<and> \<bar>v\<bar> < 2 ^ 31" by simp
qed (simp add: CScriptNum_serialize)

section \<open>Properties\<close>

text \<open>
  C19: under the minimal-encoding rule, a byte vector is accepted with value \<open>v\<close> exactly when it
  is the vector \<open>serialize\<close> produces for \<open>v\<close> and \<open>v\<close> fits the four-byte range; so accepted
  encodings are unique, and every number of the range has one.
\<close>

theorem scriptnum_canonical:
  "CScriptNum vch True = Inr v \<longleftrightarrow> vch = serialize v \<and> - (2 ^ 31) < v \<and> v < 2 ^ 31"
  using CScriptNum_minimal_iff [of vch v] by (auto simp: abs_less_iff)

text \<open>
  without the minimal-encoding rule the constructor fails exactly on more than four bytes, and
  re-encoding an accepted number gives the minimal vector with the same value, never longer than
  four bytes.
\<close>

lemma scriptnum_normalise:
  "(case CScriptNum vch False of Inl e \<Rightarrow> e = ScriptNumOverflow \<and> 4 < length vch
    | Inr v \<Rightarrow> length vch \<le> 4 \<and> length (serialize v) \<le> 4 \<and> CScriptNum (serialize v) True = Inr v)"
  using CScriptNum_bound [of vch False] CScriptNum_serialize serialize_length
  by (auto simp: CScriptNum_eq [of vch] split: sum.splits if_splits)

end
