(* ===== verification/Codec.thy ===== *)
theory Codec
  imports DAPS_Prelude
begin

text \<open>
  The contract of the byte encodings of the program: an encoder writes a value, a decoder reads
  one value off the front of a byte string and returns the rest. Encodings that are laid one
  after the other can be read back, so neither a script nor a serialised object is ambiguous.
\<close>

text \<open>Reading \<open>n\<close> values one after the other.\<close>

primrec read_n :: "(bytes \<Rightarrow> ('a \<times> bytes) option) \<Rightarrow> nat \<Rightarrow> bytes \<Rightarrow> ('a list \<times> bytes) option" where
  "read_n dec 0 bs = Some ([], bs)"
| "read_n dec (Suc n) bs =
     (case dec bs of None \<Rightarrow> None
      | Some (x, bs) \<Rightarrow> (case read_n dec n bs of None \<Rightarrow> None | Some (xs, bs) \<Rightarrow> Some (x # xs, bs)))"

locale prefix_codec =
  fixes enc :: "'a \<Rightarrow> bytes"
    and dec :: "bytes \<Rightarrow> ('a \<times> bytes) option"
    and ok :: "'a \<Rightarrow> bool"
  assumes dec_enc: "ok x \<Longrightarrow> dec (enc x @ rest) = Some (x, rest)"
    and enc_nonempty: "ok x \<Longrightarrow> enc x \<noteq> []"
begin

lemma enc_front:
  assumes "ok x" "ok y" "enc x @ r = enc y @ s"
  shows "x = y" and "r = s"
proof -
  have "Some (x, r) = Some (y, s)" using assms dec_enc by metis
  then show "x = y" and "r = s" by simp_all
qed

lemma enc_inj: "ok x \<Longrightarrow> ok y \<Longrightarrow> enc x = enc y \<Longrightarrow> x = y"
  using enc_front [of x y "[]" "[]"] by simp

lemma enc_take_iff:
  "ok x \<Longrightarrow> ok y \<Longrightarrow> take (length (enc x)) (enc y @ r) = enc x \<longleftrightarrow> x = y"
  using enc_front [of x y "drop (length (enc x)) (enc y @ r)" r] by (metis append_eq_conv_conj append_take_drop_id)

lemma enc_list_inj:
  assumes "list_all ok xs" "list_all ok ys" "concat (map enc xs) = concat (map enc ys)"
  shows "xs = ys"
  using assms
proof (induction xs arbitrary: ys)
  case Nil
  then show ?case by (cases ys) (auto dest: enc_nonempty)
next
  case (Cons x xs)
  then obtain y ys' where ys: "ys = y # ys'" by (cases ys) (auto dest: enc_nonempty)
  have o: "ok x" "ok y" and e: "enc x @ concat (map enc xs) = enc y @ concat (map enc ys')"
    using Cons.prems ys by simp_all
  have "x = y" "concat (map enc xs) = concat (map enc ys')"
    using enc_front [OF o e] by simp_all
  then show ?case using Cons ys by simp
qed

lemma dec_enc_empty: "ok x \<Longrightarrow> dec (enc x) = Some (x, [])"
  using dec_enc [of x "[]"] by simp

lemma read_n_enc:
  "list_all ok xs \<Longrightarrow> read_n dec (length xs) (concat (map enc xs) @ rest) = Some (xs, rest)"
proof (induction xs)
  case (Cons x xs)
  then have "dec (concat (map enc (x # xs)) @ rest) = Some (x, concat (map enc xs) @ rest)"
    using dec_enc [of x "concat (map enc xs) @ rest"] by simp
  then show ?case using Cons by simp
qed simp

end

section \<open>Fixed-width integers\<close>

definition dec_le :: "nat \<Rightarrow> bytes \<Rightarrow> (nat \<times> bytes) option" where
  "dec_le k bs = (if length bs < k then None else Some (le_val (take k bs), drop k bs))"

lemma dec_le_bytes [codec_simps]:
  "n < 256 ^ k \<Longrightarrow> dec_le k (le_bytes k n @ rest) = Some (n, rest)"
  by (simp add: dec_le_def le_val_le_bytes)

interpretation le4: prefix_codec "le_bytes 4" "dec_le 4" "\<lambda>n. n < 256 ^ 4"
proof
  show "n < 256 ^ 4 \<Longrightarrow> dec_le 4 (le_bytes 4 n @ rest) = Some (n, rest)" for n rest
    by (rule dec_le_bytes)
  show "le_bytes 4 n \<noteq> []" for n by (simp flip: length_0_conv)
qed

end
