(* ===== verification/Script_Code.thy ===== *)
theory Script_Code
  imports Opcodes Script_Num Codec
begin

text \<open>
  \<open>CScript\<close> of \<open>script/script.h\<close> and \<open>script/script.cpp\<close>: a script is a byte vector, an
  iterator into it is the suffix of bytes that remain. \<open>GetOp2\<close> reads one operation and
  returns its success, the opcode, the pushed data and the iterator; when it fails, the iterator
  has still moved past the bytes the code has consumed. The functions over whole scripts are
  loops over \<open>GetOp2\<close>, which moves the iterator.

  Lengths of vectors are natural numbers: a script has fewer than \<open>2^32\<close> bytes.
\<close>

type_synonym script = bytes

section \<open>Reading one operation\<close>

definition read_size :: "opcodetype \<Rightarrow> bytes \<Rightarrow> (nat \<times> bytes) option" where
  "read_size opcode pc =
     (if opcode < OP_PUSHDATA1 then Some (unat opcode, pc)
      else if opcode = OP_PUSHDATA1 then
        (if length pc < 1 then None else Some (unat (hd pc), tl pc))
      else if opcode = OP_PUSHDATA2 then
        (if length pc < 2 then None else Some (le_val (take 2 pc), drop 2 pc))
      else
        (if length pc < 4 then None else Some (le_val (take 4 pc), drop 4 pc)))"

fun GetOp2 :: "bytes \<Rightarrow> bool \<times> opcodetype \<times> bytes \<times> bytes" where
  "GetOp2 [] = (False, OP_INVALIDOPCODE, [], [])"
| "GetOp2 (opcode # pc) =
     (if opcode \<le> OP_PUSHDATA4 then
        (case read_size opcode pc of
           None \<Rightarrow> (False, OP_INVALIDOPCODE, [], pc)
         | Some (nSize, pc) \<Rightarrow>
             if length pc < nSize then (False, OP_INVALIDOPCODE, [], pc)
             else (True, opcode, take nSize pc, drop nSize pc))
      else (True, opcode, [], pc))"

lemma drop_is_suffix: "\<exists>xs. pc = xs @ drop n pc"
  by (metis append_take_drop_id)

lemma tl_is_suffix: "\<exists>xs. pc = xs @ tl pc"
  using drop_is_suffix [of pc 1] by (simp add: drop_Suc)

lemma read_size_suffix: "read_size opcode pc = Some (n, pc') \<Longrightarrow> \<exists>xs. pc = xs @ pc'"
  by (auto simp: read_size_def drop_is_suffix tl_is_suffix split: if_splits)

lemma GetOp2_suffix:
  assumes "GetOp2 pc = (ok, opcode, vch, pc')" "pc \<noteq> []"
  shows "\<exists>x xs. pc = x # xs @ pc'"
proof (cases pc)
  case (Cons x ys)
  then show ?thesis using assms
    by (auto split: if_splits option.splits dest!: read_size_suffix)
      (metis append_assoc append_take_drop_id)+
qed (use assms in simp)

lemma GetOp2_shorter [termination_simp]:
  "(ok, opcode, vch, pc') = GetOp2 pc \<Longrightarrow> pc \<noteq> [] \<Longrightarrow> length pc' < length pc"
  using GetOp2_suffix [of pc ok opcode vch pc'] by auto

lemma GetOp2_ok_nonempty: "GetOp2 pc = (True, opcode, vch, pc') \<Longrightarrow> pc \<noteq> []"
  by auto

section \<open>Building scripts\<close>

definition push_data :: "bytes \<Rightarrow> bytes" where
  "push_data b =
     (if length b < unat OP_PUSHDATA1 then [of_nat (length b)]
      else if length b \<le> 0xff then [OP_PUSHDATA1, of_nat (length b)]
      else if length b \<le> 0xffff then OP_PUSHDATA2 # le_bytes 2 (length b)
      else OP_PUSHDATA4 # le_bytes 4 (length b)) @ b"

definition push_int64 :: "int \<Rightarrow> bytes" where
  "push_int64 n =
     (if n = - 1 \<or> (n \<ge> 1 \<and> n \<le> 16) then [of_int (n + (uint OP_1 - 1))]
      else if n = 0 then [OP_0]
      else push_data (serialize n))"

definition DecodeOP_N :: "opcodetype \<Rightarrow> int" where
  "DecodeOP_N opcode = (if opcode = OP_0 then 0 else uint opcode - (uint OP_1 - 1))"

definition EncodeOP_N :: "nat \<Rightarrow> opcodetype" where
  "EncodeOP_N n = (if n = 0 then OP_0 else OP_1 + of_nat n - 1)"

section \<open>Removing and counting operations\<close>

function skip_matches :: "bytes \<Rightarrow> bytes \<Rightarrow> bytes \<times> nat" where
  "skip_matches b pc =
     (if b \<noteq> [] \<and> length pc \<ge> length b \<and> take (length b) pc = b
      then (let (pc', n) = skip_matches b (drop (length b) pc) in (pc', n + 1))
      else (pc, 0))"
  by pat_completeness auto
termination
  by (relation "measure (\<lambda>(b, pc). length pc)") (auto intro!: diff_less intro: less_le_trans)

declare skip_matches.simps [simp del]

lemma skip_matches_suffix: "skip_matches b pc = (pc', n) \<Longrightarrow> \<exists>xs. pc = xs @ pc'"
proof (induction b pc arbitrary: pc' n rule: skip_matches.induct)
  case (1 b pc)
  show ?case
  proof (cases "b \<noteq> [] \<and> length pc \<ge> length b \<and> take (length b) pc = b")
    case True
    obtain pc2 k where s: "skip_matches b (drop (length b) pc) = (pc2, k)" by fastforce
    then have "pc2 = pc'" using 1(2) True by (simp add: skip_matches.simps [of b pc])
    then show ?thesis using 1(1) [OF True] s by (metis append_assoc append_take_drop_id)
  next
    case False
    then have "skip_matches b pc = (pc, 0)" by (subst skip_matches.simps) auto
    then show ?thesis using 1(2) by simp
  qed
qed

lemma skip_matches_shorter [termination_simp]:
  "(pc', n) = skip_matches b pc \<Longrightarrow> length pc' \<le> length pc"
  using skip_matches_suffix [of b pc pc' n] by auto

function find_delete_loop :: "bytes \<Rightarrow> bytes \<Rightarrow> bytes \<Rightarrow> bytes \<Rightarrow> nat \<Rightarrow> bytes \<times> bytes \<times> nat" where
  "find_delete_loop b result chunk pc nFound =
     (let result = result @ chunk;
          (pc2, n) = skip_matches b pc;
          (ok, opcode, vch, pc') = GetOp2 pc2
      in if ok then find_delete_loop b result (take (length pc2 - length pc') pc2) pc' (nFound + n)
         else (result, pc2, nFound + n))"
  by pat_completeness auto
termination
proof (relation "measure (\<lambda>(b, result, chunk, pc, nFound). length pc)")
  fix b result chunk pc :: bytes and nFound and x y pc2 n z ok y' opcode z' vch pc'
  assume "x = skip_matches b pc" "(pc2, n) = x" "z = GetOp2 pc2" "(ok, y') = z"
    "(opcode, z') = y'" "(vch, pc') = z'" "ok"
  then have s: "(pc2, n) = skip_matches b pc" and g: "(True, opcode, vch, pc') = GetOp2 pc2" by auto
  then have "length pc' < length pc2" "length pc2 \<le> length pc"
    using GetOp2_shorter GetOp2_ok_nonempty skip_matches_shorter by metis+
  then show "((b, y, take (length pc2 - length pc') pc2, pc', nFound + n), b, result, chunk, pc, nFound)
      \<in> measure (\<lambda>(b, result, chunk, pc, nFound). length pc)" by simp
qed simp

declare find_delete_loop.simps [simp del]

definition FindAndDelete :: "script \<Rightarrow> bytes \<Rightarrow> script \<times> nat" where
  "FindAndDelete this b =
     (if b = [] then (this, 0)
      else let (result, pc2, nFound) = find_delete_loop b [] [] this 0
           in (if nFound > 0 then result @ pc2 else this, nFound))"

function Find :: "opcodetype \<Rightarrow> bytes \<Rightarrow> nat" where
  "Find op pc =
     (if pc = [] then 0
      else case GetOp2 pc of (ok, opcode, vch, pc') \<Rightarrow>
        if ok then (if opcode = op then 1 else 0) + Find op pc' else 0)"
  by pat_completeness auto
termination
  by (relation "measure (\<lambda>(op, pc). length pc)") (auto intro: GetOp2_shorter)

declare Find.simps [simp del]

section \<open>Signature operations\<close>

function sigop_loop :: "bool \<Rightarrow> bytes \<Rightarrow> opcodetype \<Rightarrow> nat \<Rightarrow> nat" where
  "sigop_loop fAccurate pc lastOpcode n =
     (if pc = [] then n
      else case GetOp2 pc of (ok, opcode, vch, pc') \<Rightarrow>
        if \<not> ok then n
        else sigop_loop fAccurate pc' opcode
          (if opcode = OP_CHECKSIG \<or> opcode = OP_CHECKSIGVERIFY then n + 1
           else if opcode = OP_CHECKMULTISIG \<or> opcode = OP_CHECKMULTISIGVERIFY
           then (if fAccurate \<and> lastOpcode \<ge> OP_1 \<and> lastOpcode \<le> OP_16
                 then n + nat (DecodeOP_N lastOpcode) else n + 20)
           else n))"
  by pat_completeness auto
termination
  by (relation "measure (\<lambda>(a, pc, l, n). length pc)") (auto intro: GetOp2_shorter)

declare sigop_loop.simps [simp del]

definition GetSigOpCount :: "script \<Rightarrow> bool \<Rightarrow> nat" where
  "GetSigOpCount this fAccurate = sigop_loop fAccurate this OP_INVALIDOPCODE 0"

definition IsPayToScriptHash :: "script \<Rightarrow> bool" where
  "IsPayToScriptHash this \<longleftrightarrow> length this = 23 \<and> this ! 0 = OP_HASH160 \<and> this ! 1 = 0x14
     \<and> this ! 22 = OP_EQUAL"

function last_push_loop :: "bytes \<Rightarrow> bytes \<Rightarrow> bytes option" where
  "last_push_loop pc data =
     (if pc = [] then Some data
      else case GetOp2 pc of (ok, opcode, data', pc') \<Rightarrow>
        if \<not> ok then None else if opcode > OP_16 then None else last_push_loop pc' data')"
  by pat_completeness auto
termination
  by (relation "measure (\<lambda>(pc, data). length pc)") (auto intro: GetOp2_shorter)

declare last_push_loop.simps [simp del]

definition GetSigOpCount_p2sh :: "script \<Rightarrow> script \<Rightarrow> nat" where
  "GetSigOpCount_p2sh this scriptSig =
     (if \<not> IsPayToScriptHash this then GetSigOpCount this True
      else case last_push_loop scriptSig [] of
             None \<Rightarrow> 0
           | Some data \<Rightarrow> GetSigOpCount data True)"

section \<open>Classifying scripts\<close>

function normal_payment_loop :: "bytes \<Rightarrow> nat \<Rightarrow> bool" where
  "normal_payment_loop pc i =
     (if pc = [] then True
      else case GetOp2 pc of (ok, opcode, vch, pc') \<Rightarrow>
        if i = 0 \<and> opcode \<noteq> OP_DUP then False
        else if i = 1 \<and> opcode \<noteq> OP_HASH160 then False
        else if i = 3 \<and> opcode \<noteq> OP_EQUALVERIFY then False
        else if i = 4 \<and> opcode \<noteq> OP_CHECKSIG then False
        else if i = 5 then False
        else normal_payment_loop pc' (i + 1))"
  by pat_completeness auto
termination
  by (relation "measure (\<lambda>(pc, i). length pc)") (auto intro: GetOp2_shorter)

declare normal_payment_loop.simps [simp del]

definition IsNormalPaymentScript :: "script \<Rightarrow> bool" where
  "IsNormalPaymentScript this \<longleftrightarrow> length this = 25 \<and> normal_payment_loop this 0"

function IsPushOnly :: "bytes \<Rightarrow> bool" where
  "IsPushOnly pc =
     (if pc = [] then True
      else case GetOp2 pc of (ok, opcode, vch, pc') \<Rightarrow>
        if \<not> ok then False else if opcode > OP_16 then False else IsPushOnly pc')"
  by pat_completeness auto
termination
  by (relation "measure length") (auto intro: GetOp2_shorter)

declare IsPushOnly.simps [simp del]

definition IsUnspendable :: "script \<Rightarrow> bool" where
  "IsUnspendable this \<longleftrightarrow> length this > 0 \<and> hd this = OP_RETURN"

section \<open>Printing\<close>

definition hexmap :: string where
  "hexmap = ''0123456789abcdef''"

definition HexStr :: "bytes \<Rightarrow> string" where
  "HexStr vch = concat (map (\<lambda>v. [hexmap ! unat (drop_bit 4 v), hexmap ! unat (v AND 15)]) vch)"

fun dec_nat :: "nat \<Rightarrow> string" where
  "dec_nat n = (if n < 10 then [hexmap ! n] else dec_nat (n div 10) @ [hexmap ! (n mod 10)])"

definition dec_int :: "int \<Rightarrow> string" where
  "dec_int n = (if n < 0 then CHR ''-'' # dec_nat (nat (- n)) else dec_nat (nat n))"

definition ValueString :: "bytes \<Rightarrow> string" where
  "ValueString vch = (if length vch \<le> 4 then dec_int (getint (set_vch vch)) else HexStr vch)"

function to_string_loop :: "bytes \<Rightarrow> string \<Rightarrow> string" where
  "to_string_loop pc str =
     (if pc = [] then str
      else let str = (if str \<noteq> [] then str @ '' '' else str) in
        case GetOp2 pc of (ok, opcode, vch, pc') \<Rightarrow>
          if \<not> ok then str @ ''[error]''
          else to_string_loop pc'
            (if opcode \<le> OP_PUSHDATA4 then str @ ValueString vch else str @ GetOpName opcode))"
  by pat_completeness auto
termination
  by (relation "measure (\<lambda>(pc, str). length pc)") (auto intro: GetOp2_shorter)

declare to_string_loop.simps [simp del]

definition script_ToString :: "script \<Rightarrow> string" where
  "script_ToString this = to_string_loop this []"


section \<open>Pushes are a prefix code\<close>

definition read_push :: "bytes \<Rightarrow> (bytes \<times> bytes) option" where
  "read_push pc = (case GetOp2 pc of (ok, opcode, vch, pc') \<Rightarrow>
     if ok \<and> opcode \<le> OP_PUSHDATA4 then Some (vch, pc') else None)"

lemma unat_of_nat_byte: "n < 256 \<Longrightarrow> unat (of_nat n :: byte) = n"
  by (simp add: unat_of_nat)

lemma of_nat_byte_less: "n < 256 \<Longrightarrow> (of_nat n :: byte) < w \<longleftrightarrow> n < unat w"
  by (simp add: word_less_nat_alt unat_of_nat)

lemma of_nat_byte_le: "n < 256 \<Longrightarrow> (of_nat n :: byte) \<le> w \<longleftrightarrow> n \<le> unat w"
  by (simp add: word_le_nat_alt unat_of_nat)

lemma push_op_below: "opcode \<le> OP_PUSHDATA4 \<Longrightarrow> \<not> opcode > OP_16"
  using order.strict_trans1 [of OP_16 opcode OP_PUSHDATA4] by fastforce

lemma GetOp2_push_data:
  assumes "length b < 2 ^ 32"
  shows "\<exists>opcode. opcode \<le> OP_PUSHDATA4 \<and> GetOp2 (push_data b @ rest) = (True, opcode, b, rest)"
proof -
  consider (direct) "length b < 76" | (one) "76 \<le> length b" "length b < 256"
    | (two) "256 \<le> length b" "length b < 65536" | (four) "65536 \<le> length b" by linarith
  then show ?thesis
  proof cases
    case direct
    then show ?thesis
      by (intro exI [of _ "of_nat (length b)"])
        (simp add: push_data_def read_size_def of_nat_byte_less of_nat_byte_le unat_of_nat_byte)
  next
    case one
    then show ?thesis
      by (intro exI [of _ OP_PUSHDATA1]) (simp add: push_data_def read_size_def unat_of_nat_byte)
  next
    case two
    then have "le_val (le_bytes 2 (length b)) = length b" by (simp add: le_val_le_bytes)
    then show ?thesis using two
      by (intro exI [of _ OP_PUSHDATA2]) (simp add: push_data_def read_size_def)
  next
    case four
    then have "le_val (le_bytes 4 (length b)) = length b" using assms by (simp add: le_val_le_bytes)
    then show ?thesis using four
      by (intro exI [of _ OP_PUSHDATA4]) (simp add: push_data_def read_size_def)
  qed
qed

lemma read_push_data: "length b < 2 ^ 32 \<Longrightarrow> read_push (push_data b @ rest) = Some (b, rest)"
  using GetOp2_push_data [of b rest] by (auto simp: read_push_def)

lemma push_data_nonempty: "push_data b \<noteq> []"
  by (simp add: push_data_def)

interpretation push: prefix_codec push_data read_push "\<lambda>b. length b < 2 ^ 32"
  by unfold_locales (simp_all add: read_push_data push_data_nonempty)

section \<open>Removing a pattern operation by operation\<close>

text \<open>What \<open>FindAndDelete\<close> computes, without its accumulators and its unchanged-script case.\<close>

function remove_ops :: "bytes \<Rightarrow> bytes \<Rightarrow> bytes \<times> nat" where
  "remove_ops b pc =
     (let (pc2, n) = skip_matches b pc;
          (ok, opcode, vch, pc') = GetOp2 pc2
      in if ok then (let (r, m) = remove_ops b pc' in (take (length pc2 - length pc') pc2 @ r, n + m))
         else (pc2, n))"
  by pat_completeness auto
termination
proof (relation "measure (\<lambda>(b, pc). length pc)")
  fix b pc :: bytes and x pc2 n y ok y' opcode y'' vch pc'
  assume "x = skip_matches b pc" "(pc2, n) = x" "y = GetOp2 pc2" "(ok, y') = y"
    "(opcode, y'') = y'" "(vch, pc') = y''" "ok"
  then have s: "(pc2, n) = skip_matches b pc" and g: "(True, opcode, vch, pc') = GetOp2 pc2" by auto
  then have "length pc' < length pc2" "length pc2 \<le> length pc"
    using GetOp2_shorter GetOp2_ok_nonempty skip_matches_shorter by metis+
  then show "((b, pc'), b, pc) \<in> measure (\<lambda>(b, pc). length pc)" by simp
qed simp

declare remove_ops.simps [simp del]

lemma find_delete_loop_eq:
  "find_delete_loop b result chunk pc k = (r, pc2, m) \<Longrightarrow>
     r @ pc2 = result @ chunk @ fst (remove_ops b pc) \<and> m = k + snd (remove_ops b pc)"
proof (induction b result chunk pc k arbitrary: r pc2 m rule: find_delete_loop.induct)
  case (1 b result chunk pc k)
  obtain p n where s: "skip_matches b pc = (p, n)" by fastforce
  obtain ok opcode vch p' where g: "GetOp2 p = (ok, opcode, vch, p')" by (metis prod_cases4)
  show ?case
  proof (cases ok)
    case True
    have "find_delete_loop b (result @ chunk) (take (length p - length p') p) p' (k + n) = (r, pc2, m)"
      using "1.prems" True by (subst (asm) find_delete_loop.simps) (simp add: s g)
    then have "r @ pc2 = (result @ chunk) @ take (length p - length p') p @ fst (remove_ops b p')
        \<and> m = (k + n) + snd (remove_ops b p')"
      by (rule "1.IH" [OF refl refl s [symmetric] refl g [symmetric] refl refl True])
    then show ?thesis using True
      by (subst (1 2) remove_ops.simps) (simp add: s g split: prod.split)
  next
    case False
    have "r = result @ chunk" "pc2 = p" "m = k + n"
      using "1.prems" False by (subst (asm) find_delete_loop.simps, simp add: s g)+
    then show ?thesis using False
      by (subst (1 2) remove_ops.simps) (simp add: s g)
  qed
qed

lemma GetOp2_split: "GetOp2 pc = (ok, opcode, vch, pc') \<Longrightarrow> take (length pc - length pc') pc @ pc' = pc"
  using GetOp2_suffix [of pc ok opcode vch pc'] by (cases "pc = []") auto

lemma skip_matches_zero: "skip_matches b pc = (pc', 0) \<Longrightarrow> pc' = pc"
  by (subst (asm) skip_matches.simps) (auto split: if_splits prod.splits)

lemma remove_ops_zero: "snd (remove_ops b pc) = 0 \<Longrightarrow> fst (remove_ops b pc) = pc"
proof (induction b pc rule: remove_ops.induct)
  case (1 b pc)
  obtain p n where s: "skip_matches b pc = (p, n)" by fastforce
  obtain ok opcode vch p' where g: "GetOp2 p = (ok, opcode, vch, p')" by (metis prod_cases4)
  have r: "remove_ops b pc = (if ok then (take (length p - length p') p @ fst (remove_ops b p'),
      n + snd (remove_ops b p')) else (p, n))"
    by (subst remove_ops.simps) (simp add: s g split: prod.split)
  then have n: "n = 0" using "1.prems" by (auto split: if_splits)
  then have p: "p = pc" using s skip_matches_zero by simp
  show ?case
  proof (cases ok)
    case True
    then have "fst (remove_ops b p') = p'"
      using "1.prems" r by (intro "1.IH" [OF refl s [symmetric] refl g [symmetric] refl refl]) simp_all
    then show ?thesis using r True p GetOp2_split [OF g] by simp
  next
    case False
    then show ?thesis using r p by simp
  qed
qed

lemma FindAndDelete_eq: "b \<noteq> [] \<Longrightarrow> FindAndDelete this b = remove_ops b this"
proof -
  assume b: "b \<noteq> []"
  obtain r pc2 m where f: "find_delete_loop b [] [] this 0 = (r, pc2, m)" by (metis prod_cases3)
  from find_delete_loop_eq [OF this] have "r @ pc2 = fst (remove_ops b this)" "m = snd (remove_ops b this)"
    by simp_all
  then have "FindAndDelete this b = (fst (remove_ops b this), snd (remove_ops b this))"
    using b remove_ops_zero [of b this] by (cases "snd (remove_ops b this) = 0") (simp_all add: FindAndDelete_def f prod_eq_iff)
  then show ?thesis by simp
qed

lemma skip_matches_hit: "b \<noteq> [] \<Longrightarrow> skip_matches b (b @ r) = (fst (skip_matches b r), snd (skip_matches b r) + 1)"
  by (subst skip_matches.simps) (simp add: split: prod.split)

lemma skip_matches_miss: "take (length b) pc \<noteq> b \<Longrightarrow> skip_matches b pc = (pc, 0)"
  by (subst skip_matches.simps) simp

lemma remove_ops_hit: "b \<noteq> [] \<Longrightarrow> remove_ops b (b @ r) = (fst (remove_ops b r), snd (remove_ops b r) + 1)"
  by (subst (1 2 3) remove_ops.simps) (auto simp: skip_matches_hit split: prod.split)

lemma remove_ops_pushes:
  assumes "list_all (\<lambda>x. length x < 2 ^ 32) xs" "length x < 2 ^ 32"
  shows "remove_ops (push_data x) (concat (map push_data xs)) =
    (concat (map push_data (filter (\<lambda>y. y \<noteq> x) xs)), length (filter (\<lambda>y. y = x) xs))"
  using assms(1)
proof (induction xs)
  case Nil
  then show ?case
    by (subst remove_ops.simps) (simp add: skip_matches_miss push_data_nonempty [symmetric])
next
  case (Cons y ys)
  show ?case
  proof (cases "y = x")
    case True
    then show ?thesis using Cons by (simp add: remove_ops_hit push_data_nonempty)
  next
    case False
    let ?pc = "push_data y @ concat (map push_data ys)"
    have "take (length (push_data x)) ?pc \<noteq> push_data x"
      using push.enc_take_iff [of x y "concat (map push_data ys)"] Cons.prems assms(2) False by simp
    then have s: "skip_matches (push_data x) ?pc = (?pc, 0)" by (rule skip_matches_miss)
    obtain opcode where g: "GetOp2 ?pc = (True, opcode, y, concat (map push_data ys))"
      using GetOp2_push_data [of y] Cons.prems by auto
    have "remove_ops (push_data x) ?pc = (push_data y @ fst (remove_ops (push_data x) (concat (map push_data ys))),
        snd (remove_ops (push_data x) (concat (map push_data ys))))"
      by (subst remove_ops.simps) (simp add: s g split: prod.split)
    then show ?thesis using Cons False by simp
  qed
qed

section \<open>Counting signature operations\<close>

lemma sigop_loop_bound: "sigop_loop a pc l n \<le> n + 20 * length pc"
proof (induction a pc l n rule: sigop_loop.induct)
  case (1 a pc l n)
  obtain ok opcode vch pc' where g: "GetOp2 pc = (ok, opcode, vch, pc')" by (metis prod_cases4)
  have d: "nat (DecodeOP_N l) \<le> 16" if "l \<ge> OP_1" "l \<le> OP_16"
  proof -
    have "uint l \<le> 96" using that(2) by (simp add: word_le_def)
    then show ?thesis by (simp add: DecodeOP_N_def nat_le_iff)
  qed
  define n' where "n' = (if opcode = OP_CHECKSIG \<or> opcode = OP_CHECKSIGVERIFY then n + 1
           else if opcode = OP_CHECKMULTISIG \<or> opcode = OP_CHECKMULTISIGVERIFY
           then (if a \<and> l \<ge> OP_1 \<and> l \<le> OP_16 then n + nat (DecodeOP_N l) else n + 20)
           else n)"
  have n': "n' \<le> n + 20" using d unfolding n'_def by fastforce
  show ?case
  proof (cases "pc = [] \<or> \<not> ok")
    case True
    then show ?thesis by (subst sigop_loop.simps) (auto simp: g)
  next
    case False
    then have "sigop_loop a pc l n = sigop_loop a pc' opcode n'"
      by (subst sigop_loop.simps) (simp add: g n'_def)
    also have "\<dots> \<le> n' + 20 * length pc'"
      using "1.IH" [OF _ g [symmetric] refl refl] False unfolding n'_def by simp
    also have "\<dots> \<le> n + 20 + 20 * length pc'" using n' by simp
    also have "\<dots> \<le> n + 20 * length pc"
      using GetOp2_shorter [OF g [symmetric]] False by simp
    finally show ?thesis .
  qed
qed

lemma sigop_loop_push_only: "IsPushOnly pc \<Longrightarrow> sigop_loop a pc l n = n"
proof (induction a pc l n rule: sigop_loop.induct)
  case (1 a pc l n)
  obtain ok opcode vch pc' where g: "GetOp2 pc = (ok, opcode, vch, pc')" by (metis prod_cases4)
  show ?case
  proof (cases "pc = []")
    case True
    then show ?thesis by (subst sigop_loop.simps) simp
  next
    case False
    then have p: "ok" "\<not> opcode > OP_16" "IsPushOnly pc'"
      using 1(2) by (subst (asm) IsPushOnly.simps, auto simp: g split: if_splits)+
    then have o: "opcode \<noteq> OP_CHECKSIG" "opcode \<noteq> OP_CHECKSIGVERIFY" "opcode \<noteq> OP_CHECKMULTISIG"
        "opcode \<noteq> OP_CHECKMULTISIGVERIFY"
      by auto
    then have "sigop_loop a pc l n = sigop_loop a pc' opcode n"
      using False p by (subst sigop_loop.simps) (simp add: g)
    also have "\<dots> = n"
      using "1.IH" [OF False g [symmetric] refl refl] p o by simp
    finally show ?thesis .
  qed
qed

lemma IsPushOnly_pushes:
  "list_all (\<lambda>x. length x < 2 ^ 32) xs \<Longrightarrow> IsPushOnly (concat (map push_data xs))"
proof (induction xs)
  case Nil
  then show ?case by (simp add: IsPushOnly.simps)
next
  case (Cons x xs)
  then obtain opcode where "opcode \<le> OP_PUSHDATA4"
      "GetOp2 (push_data x @ concat (map push_data xs)) = (True, opcode, x, concat (map push_data xs))"
    using GetOp2_push_data [of x] by auto
  moreover from calculation(1) have "\<not> opcode > OP_16" by (rule push_op_below)
  ultimately show ?case using Cons
    by (subst IsPushOnly.simps) (simp add: push_data_nonempty)
qed

lemma last_push_pushes:
  assumes "list_all (\<lambda>x. length x < 2 ^ 32) xs" "length redeem < 2 ^ 32"
  shows "last_push_loop (concat (map push_data (xs @ [redeem]))) d = Some redeem"
  using assms
proof (induction xs arbitrary: d)
  case Nil
  obtain opcode where o: "opcode \<le> OP_PUSHDATA4" "GetOp2 (push_data redeem) = (True, opcode, redeem, [])"
    using GetOp2_push_data [of redeem "[]"] Nil by auto
  moreover from o(1) have "\<not> opcode > OP_16" by (rule push_op_below)
  ultimately show ?case
    by (subst last_push_loop.simps) (simp add: push_data_nonempty last_push_loop.simps [of "[]"])
next
  case (Cons x xs)
  obtain opcode where o: "opcode \<le> OP_PUSHDATA4"
      "GetOp2 (push_data x @ concat (map push_data (xs @ [redeem])))
        = (True, opcode, x, concat (map push_data (xs @ [redeem])))"
    using GetOp2_push_data [of x] Cons.prems by auto
  moreover from o(1) have "\<not> opcode > OP_16" by (rule push_op_below)
  ultimately show ?case using Cons
    by (subst last_push_loop.simps) (simp add: push_data_nonempty)
qed

lemma P2SH_iff:
  "IsPayToScriptHash s \<longleftrightarrow> (\<exists>h. length h = 20 \<and> s = OP_HASH160 # push_data h @ [OP_EQUAL])"
proof
  assume s: "IsPayToScriptHash s"
  then have l: "length s = 23" by (simp add: IsPayToScriptHash_def)
  then obtain a s1 where s1: "s = a # s1" by (cases s) auto
  then obtain b s2 where s2: "s1 = b # s2" using l by (cases s1) auto
  then obtain h e where h: "s2 = h @ [e]" using l s1 by (cases s2 rule: rev_cases) auto
  have "length h = 20" using l s1 s2 h by simp
  then show "\<exists>h. length h = 20 \<and> s = OP_HASH160 # push_data h @ [OP_EQUAL]"
    using s by (intro exI [of _ h]) (simp add: s1 s2 h IsPayToScriptHash_def push_data_def nth_append)
qed (auto simp: IsPayToScriptHash_def push_data_def nth_append)

section \<open>Properties\<close>

text \<open>
  reading back what \<open>operator<<\<close> appended: after any pushed byte vector, whatever its length
  form, \<open>GetOp2\<close> succeeds with a push opcode, the pushed bytes, and the iterator at the bytes that
  follow; a script of pushes is push-only, and no two lists of byte vectors give the same script.
\<close>

lemma push_round_trip:
  assumes "list_all (\<lambda>x. length x < 2 ^ 32) (b # bs)" "list_all (\<lambda>x. length x < 2 ^ 32) cs"
  shows "(\<exists>opcode. opcode \<le> OP_PUSHDATA4 \<and> GetOp2 (push_data b @ rest) = (True, opcode, b, rest))
    \<and> IsPushOnly (concat (map push_data (b # bs)))
    \<and> (concat (map push_data (b # bs)) = concat (map push_data cs) \<longleftrightarrow> b # bs = cs)"
  using GetOp2_push_data [of b rest] IsPushOnly_pushes [OF assms(1)] push.enc_list_inj [OF assms] assms(1)
  by auto

text \<open>
  \<open>FindAndDelete\<close> of a pushed byte vector, on a script that is a sequence of pushes, removes
  exactly the pushes of that vector, keeps all others in order, and returns how many it removed; it
  is the operation-by-operation removal on every script.
\<close>

lemma FindAndDelete_correct:
  assumes "list_all (\<lambda>x. length x < 2 ^ 32) (x # xs)" "b \<noteq> []"
  shows "FindAndDelete (concat (map push_data xs)) (push_data x) =
      (concat (map push_data (filter (\<lambda>y. y \<noteq> x) xs)), length (filter (\<lambda>y. y = x) xs))
    \<and> FindAndDelete script b = remove_ops b script"
  using assms by (simp add: FindAndDelete_eq push_data_nonempty remove_ops_pushes)

text \<open>
  C20: the count of signature operations never exceeds twenty per byte of the script, is zero on a
  push-only script, and on a pay-to-script-hash output, whose bytes are exactly
  \<open>OP_HASH160\<close>, a push of twenty bytes and \<open>OP_EQUAL\<close>, it is the accurate count of the last
  vector the spending script pushes, when that script is a list of pushes.
\<close>

theorem sigop_count_correct:
  assumes "IsPushOnly q" "list_all (\<lambda>x. length x < 2 ^ 32) (redeem # xs)" "length h = 20"
  shows "GetSigOpCount s accurate \<le> 20 * length s
    \<and> GetSigOpCount q accurate = 0
    \<and> GetSigOpCount_p2sh (OP_HASH160 # push_data h @ [OP_EQUAL]) (concat (map push_data (xs @ [redeem])))
        = GetSigOpCount redeem True"
proof -
  have p2sh: "IsPayToScriptHash (OP_HASH160 # push_data h @ [OP_EQUAL])"
    using assms(3) P2SH_iff by blast
  show ?thesis
    using sigop_loop_bound [of accurate s OP_INVALIDOPCODE 0] sigop_loop_push_only [OF assms(1)]
      last_push_pushes [of xs redeem "[]"] assms(2) p2sh
    by (simp add: GetSigOpCount_def GetSigOpCount_p2sh_def)
qed

theorem sigop_count_correct_witness:
  "GetSigOpCount [OP_CHECKSIG] True \<le> 20 * length [OP_CHECKSIG]
    \<and> GetSigOpCount [OP_0] True = 0
    \<and> GetSigOpCount_p2sh (OP_HASH160 # push_data (replicate 20 0) @ [OP_EQUAL])
          (concat (map push_data ([[5]] @ [[OP_CHECKSIG]])))
        = GetSigOpCount [OP_CHECKSIG] True"
proof -
  have "IsPushOnly [OP_0]" by (simp add: IsPushOnly.simps read_size_def)
  then show ?thesis by (rule sigop_count_correct) simp_all
qed

end
