(* ===== verification/Script_Sig_Enc.thy ===== *)
theory Script_Sig_Enc
  imports Opcodes Script_Num
begin

text \<open>
  The checks on byte strings that the script interpreter makes before it verifies a signature:
  \<open>script_error.h\<close>, the flags of \<open>interpreter.h\<close>, the encoding checks of \<open>interpreter.cpp\<close>
  and the big-endian comparison of \<open>eccryptoverify.cpp\<close>. A check that sets \<open>*serror\<close> and
  returns false returns \<open>Some\<close> of the error here, and \<open>None\<close> where the code returns true.
\<close>

section \<open>Errors and flags\<close>

datatype ScriptError =
    SCRIPT_ERR_OK | SCRIPT_ERR_UNKNOWN_ERROR | SCRIPT_ERR_EVAL_FALSE | SCRIPT_ERR_OP_RETURN
  | SCRIPT_ERR_SCRIPT_SIZE | SCRIPT_ERR_PUSH_SIZE | SCRIPT_ERR_OP_COUNT | SCRIPT_ERR_STACK_SIZE
  | SCRIPT_ERR_SIG_COUNT | SCRIPT_ERR_PUBKEY_COUNT
  | SCRIPT_ERR_VERIFY | SCRIPT_ERR_EQUALVERIFY | SCRIPT_ERR_CHECKMULTISIGVERIFY
  | SCRIPT_ERR_CHECKSIGVERIFY | SCRIPT_ERR_NUMEQUALVERIFY
  | SCRIPT_ERR_BAD_OPCODE | SCRIPT_ERR_DISABLED_OPCODE | SCRIPT_ERR_INVALID_STACK_OPERATION
  | SCRIPT_ERR_INVALID_ALTSTACK_OPERATION | SCRIPT_ERR_UNBALANCED_CONDITIONAL
  | SCRIPT_ERR_SIG_HASHTYPE | SCRIPT_ERR_SIG_DER | SCRIPT_ERR_MINIMALDATA | SCRIPT_ERR_SIG_PUSHONLY
  | SCRIPT_ERR_SIG_HIGH_S | SCRIPT_ERR_SIG_NULLDUMMY | SCRIPT_ERR_PUBKEYTYPE
  | SCRIPT_ERR_DISCOURAGE_UPGRADABLE_NOPS | SCRIPT_ERR_ERROR_COUNT

abbreviation (input) SIGHASH_ALL :: "'a::len word" where "SIGHASH_ALL \<equiv> 1"
abbreviation (input) SIGHASH_NONE :: "'a::len word" where "SIGHASH_NONE \<equiv> 2"
abbreviation (input) SIGHASH_SINGLE :: "'a::len word" where "SIGHASH_SINGLE \<equiv> 3"
abbreviation (input) SIGHASH_ANYONECANPAY :: "'a::len word" where "SIGHASH_ANYONECANPAY \<equiv> 0x80"

abbreviation (input) SCRIPT_VERIFY_P2SH :: u32 where "SCRIPT_VERIFY_P2SH \<equiv> 0x01"
abbreviation (input) SCRIPT_VERIFY_STRICTENC :: u32 where "SCRIPT_VERIFY_STRICTENC \<equiv> 0x02"
abbreviation (input) SCRIPT_VERIFY_DERSIG :: u32 where "SCRIPT_VERIFY_DERSIG \<equiv> 0x04"
abbreviation (input) SCRIPT_VERIFY_LOW_S :: u32 where "SCRIPT_VERIFY_LOW_S \<equiv> 0x08"
abbreviation (input) SCRIPT_VERIFY_NULLDUMMY :: u32 where "SCRIPT_VERIFY_NULLDUMMY \<equiv> 0x10"
abbreviation (input) SCRIPT_VERIFY_SIGPUSHONLY :: u32 where "SCRIPT_VERIFY_SIGPUSHONLY \<equiv> 0x20"
abbreviation (input) SCRIPT_VERIFY_MINIMALDATA :: u32 where "SCRIPT_VERIFY_MINIMALDATA \<equiv> 0x40"
abbreviation (input) SCRIPT_VERIFY_DISCOURAGE_UPGRADABLE_NOPS :: u32 where
  "SCRIPT_VERIFY_DISCOURAGE_UPGRADABLE_NOPS \<equiv> 0x80"

definition has_flag :: "u32 \<Rightarrow> u32 \<Rightarrow> bool" where
  "has_flag flags f \<longleftrightarrow> flags AND f \<noteq> 0"

section \<open>Truth of a stack element\<close>

fun cast_loop :: "bytes \<Rightarrow> bool" where
  "cast_loop [] = False"
| "cast_loop (v # vs) = (if v \<noteq> 0 then (if vs = [] \<and> v = 0x80 then False else True) else cast_loop vs)"

definition CastToBool :: "bytes \<Rightarrow> bool" where
  "CastToBool vch = (if cast_loop vch then True else if length vch = 0 then True else False)"

section \<open>Public keys and signatures\<close>

definition IsCompressedOrUncompressedPubKey :: "bytes \<Rightarrow> bool" where
  "IsCompressedOrUncompressedPubKey vchPubKey =
     (if length vchPubKey < 33 then False
      else if vchPubKey ! 0 = 0x04 then length vchPubKey = 65
      else if vchPubKey ! 0 = 0x02 \<or> vchPubKey ! 0 = 0x03 then length vchPubKey = 33
      else False)"

definition IsValidSignatureEncoding :: "bytes \<Rightarrow> bool" where
  "IsValidSignatureEncoding sig =
     (if length sig < 9 then False
      else if length sig > 73 then False
      else if sig ! 0 \<noteq> 0x30 then False
      else if unat (sig ! 1) \<noteq> length sig - 3 then False
      else let lenR = unat (sig ! 3) in
        if 5 + lenR \<ge> length sig then False
        else let lenS = unat (sig ! (5 + lenR)) in
          if lenR + lenS + 7 \<noteq> length sig then False
          else if sig ! 2 \<noteq> 0x02 then False
          else if lenR = 0 then False
          else if sig ! 4 AND 0x80 \<noteq> 0 then False
          else if lenR > 1 \<and> sig ! 4 = 0 \<and> \<not> sig ! 5 AND 0x80 \<noteq> 0 then False
          else if sig ! (lenR + 4) \<noteq> 0x02 then False
          else if lenS = 0 then False
          else if sig ! (lenR + 6) AND 0x80 \<noteq> 0 then False
          else if lenS > 1 \<and> sig ! (lenR + 6) = 0 \<and> \<not> sig ! (lenR + 7) AND 0x80 \<noteq> 0 then False
          else True)"

fun compare_equal_length :: "bytes \<Rightarrow> bytes \<Rightarrow> int" where
  "compare_equal_length (x # xs) (y # ys) =
     (if x > y then 1 else if y > x then - 1 else compare_equal_length xs ys)"
| "compare_equal_length _ _ = 0"

fun CompareBigEndian :: "bytes \<Rightarrow> bytes \<Rightarrow> int" where
  "CompareBigEndian c1 c2 =
     (if length c1 > length c2 then (if hd c1 \<noteq> 0 then 1 else CompareBigEndian (tl c1) c2)
      else if length c2 > length c1 then (if hd c2 \<noteq> 0 then - 1 else CompareBigEndian c1 (tl c2))
      else compare_equal_length c1 c2)"

declare CompareBigEndian.simps [simp del]

definition vchMaxModOrder :: bytes where
  "vchMaxModOrder =
    [0xFF, 0xFF, 0xFF, 0xFF, 0xFF, 0xFF, 0xFF, 0xFF,
     0xFF, 0xFF, 0xFF, 0xFF, 0xFF, 0xFF, 0xFF, 0xFE,
     0xBA, 0xAE, 0xDC, 0xE6, 0xAF, 0x48, 0xA0, 0x3B,
     0xBF, 0xD2, 0x5E, 0x8C, 0xD0, 0x36, 0x41, 0x40]"

definition vchMaxModHalfOrder :: bytes where
  "vchMaxModHalfOrder =
    [0x7F, 0xFF, 0xFF, 0xFF, 0xFF, 0xFF, 0xFF, 0xFF,
     0xFF, 0xFF, 0xFF, 0xFF, 0xFF, 0xFF, 0xFF, 0xFF,
     0x5D, 0x57, 0x6E, 0x73, 0x57, 0xA4, 0x50, 0x1D,
     0xDF, 0xE9, 0x2F, 0x46, 0x68, 0x1B, 0x20, 0xA0]"

definition CheckSignatureElement :: "bytes \<Rightarrow> bool \<Rightarrow> bool" where
  "CheckSignatureElement vch half \<longleftrightarrow> CompareBigEndian vch [] > 0
     \<and> CompareBigEndian vch (if half then vchMaxModHalfOrder else vchMaxModOrder) \<le> 0"

definition IsLowDERSignature :: "bytes \<Rightarrow> ScriptError option" where
  "IsLowDERSignature vchSig =
     (if \<not> IsValidSignatureEncoding vchSig then Some SCRIPT_ERR_SIG_DER
      else let nLenR = unat (vchSig ! 3); nLenS = unat (vchSig ! (5 + nLenR));
               S = take nLenS (drop (6 + nLenR) vchSig)
           in if \<not> CheckSignatureElement S True then Some SCRIPT_ERR_SIG_HIGH_S else None)"

definition IsDefinedHashtypeSignature :: "bytes \<Rightarrow> bool" where
  "IsDefinedHashtypeSignature vchSig =
     (if length vchSig = 0 then False
      else let nHashType = vchSig ! (length vchSig - 1) AND NOT SIGHASH_ANYONECANPAY in
        if nHashType < SIGHASH_ALL \<or> nHashType > SIGHASH_SINGLE then False else True)"

definition CheckSignatureEncoding :: "bytes \<Rightarrow> u32 \<Rightarrow> ScriptError option" where
  "CheckSignatureEncoding vchSig flags =
     (if length vchSig = 0 then None
      else if has_flag flags (SCRIPT_VERIFY_DERSIG OR SCRIPT_VERIFY_LOW_S OR SCRIPT_VERIFY_STRICTENC)
              \<and> \<not> IsValidSignatureEncoding vchSig then Some SCRIPT_ERR_SIG_DER
      else if has_flag flags SCRIPT_VERIFY_LOW_S \<and> IsLowDERSignature vchSig \<noteq> None
           then IsLowDERSignature vchSig
      else if has_flag flags SCRIPT_VERIFY_STRICTENC \<and> \<not> IsDefinedHashtypeSignature vchSig
           then Some SCRIPT_ERR_SIG_HASHTYPE
      else None)"

definition CheckPubKeyEncoding :: "bytes \<Rightarrow> u32 \<Rightarrow> ScriptError option" where
  "CheckPubKeyEncoding vchSig flags =
     (if has_flag flags SCRIPT_VERIFY_STRICTENC \<and> \<not> IsCompressedOrUncompressedPubKey vchSig
      then Some SCRIPT_ERR_PUBKEYTYPE else None)"

definition CheckMinimalPush :: "bytes \<Rightarrow> opcodetype \<Rightarrow> bool" where
  "CheckMinimalPush data opcode =
     (if length data = 0 then opcode = OP_0
      else if length data = 1 \<and> data ! 0 \<ge> 1 \<and> data ! 0 \<le> 16 then opcode = OP_1 + (data ! 0 - 1)
      else if length data = 1 \<and> data ! 0 = 0x81 then opcode = OP_1NEGATE
      else if length data \<le> 75 then unat opcode = length data
      else if length data \<le> 255 then opcode = OP_PUSHDATA1
      else if length data \<le> 65535 then opcode = OP_PUSHDATA2
      else True)"

section \<open>Strict DER\<close>

text \<open>A minimally encoded positive integer, and the layout of a signature with its hash type.\<close>

definition der_int :: "bytes \<Rightarrow> bool" where
  "der_int X \<longleftrightarrow> X \<noteq> [] \<and> unat (hd X) < 128 \<and> (length X > 1 \<and> hd X = 0 \<longrightarrow> 128 \<le> unat (X ! 1))"

definition der_sig :: "bytes \<Rightarrow> bytes \<Rightarrow> byte \<Rightarrow> bytes" where
  "der_sig R S h = [0x30, of_nat (length R + length S + 4), 0x02, of_nat (length R)] @ R
     @ [0x02, of_nat (length S)] @ S @ [h]"

lemma if_not_then: "(if c then False else P) \<longleftrightarrow> \<not> c \<and> P"
  by simp

lemma IsValid_parts:
  assumes "length R = unat d" "length S = unat f"
  shows "IsValidSignatureEncoding ([a, b, c, d] @ R @ [e, f] @ S @ [h]) \<longleftrightarrow>
    length R + length S \<le> 66 \<and> a = 0x30 \<and> unat b = length R + length S + 4 \<and> c = 0x02 \<and> e = 0x02
      \<and> der_int R \<and> der_int S"
proof -
  let ?sig = "[a, b, c, d] @ R @ [e, f] @ S @ [h]"
  have nth: "?sig ! 0 = a" "?sig ! 1 = b" "?sig ! 2 = c" "?sig ! 3 = d"
      "?sig ! (5 + length R) = f" "?sig ! (length R + 4) = e"
    by (simp_all add: nth_append)
  have r: "?sig ! 4 = hd R" "1 < length R \<Longrightarrow> ?sig ! 5 = R ! 1" if "R \<noteq> []"
    using that by (simp_all add: nth_append hd_conv_nth)
  have s: "?sig ! (length R + 6) = hd S" "1 < length S \<Longrightarrow> ?sig ! (length R + 7) = S ! 1" if "S \<noteq> []"
    using that by (simp_all add: nth_append hd_conv_nth)
  have len: "length ?sig = length R + length S + 7" by simp
  show ?thesis
  proof (cases "R = [] \<or> S = []")
    case True
    then have "\<not> IsValidSignatureEncoding ?sig"
      unfolding IsValidSignatureEncoding_def Let_def nth len
      using assms by (auto simp: Let_def)
    then show ?thesis using True by (auto simp: der_int_def)
  next
    case False
    then have g4: "?sig ! 4 = hd R" and g6: "?sig ! (length R + 6) = hd S"
      and g5: "(1 < length R \<and> hd R = 0 \<and> \<not> 128 \<le> unat (?sig ! 5))
        \<longleftrightarrow> (1 < length R \<and> hd R = 0 \<and> unat (R ! 1) < 128)"
      and g7: "(1 < length S \<and> hd S = 0 \<and> \<not> 128 \<le> unat (?sig ! (length R + 7)))
        \<longleftrightarrow> (1 < length S \<and> hd S = 0 \<and> unat (S ! 1) < 128)"
      using r s by auto
    have "0 < length R" "0 < length S" using False by simp_all
    then have "2 \<le> length R + length S" by linarith
    then have "R \<noteq> [] \<and> S \<noteq> [] \<and> length R \<noteq> 0 \<and> length S \<noteq> 0 \<and> \<not> length R + length S < 2" using False by simp
    then show ?thesis
      unfolding IsValidSignatureEncoding_def Let_def nth len assms(1) [symmetric] assms(2) [symmetric]
        g4 g6 g5 g7 der_int_def if_not_then byte_and_80
      by auto
  qed
qed

lemma IsValid_decompose:
  assumes "IsValidSignatureEncoding sig"
  obtains a b c d R e f S h where "sig = [a, b, c, d] @ R @ [e, f] @ S @ [h]"
    "length R = unat d" "length S = unat f"
proof -
  have "9 \<le> length sig" using assms by (simp add: IsValidSignatureEncoding_def split: if_splits)
  then obtain a b c d rest where sig: "sig = a # b # c # d # rest"
    by (cases sig; cases "tl sig"; cases "tl (tl sig)"; cases "tl (tl (tl sig))") auto
  define R where "R = take (unat d) rest"
  have lR: "unat d + 1 < length rest"
    using assms by (simp add: IsValidSignatureEncoding_def sig Let_def split: if_splits)
  then obtain e f rest3 where r3: "drop (unat d) rest = e # f # rest3"
    by (cases "drop (unat d) rest"; cases "tl (drop (unat d) rest)") (auto dest: arg_cong [of _ _ length])
  have rest: "rest = R @ e # f # rest3" and R: "length R = unat d"
    using lR by (simp_all add: R_def flip: r3)
  have f: "rest ! Suc (unat d) = f" by (simp add: rest nth_append R)
  have "unat d + unat f + 7 = length sig"
    using assms by (simp add: IsValidSignatureEncoding_def Let_def sig split: if_splits) (simp add: sig f)
  then have l3: "length rest3 = unat f + 1" by (simp add: sig rest R)
  then obtain S h where S: "rest3 = S @ [h]" by (cases rest3 rule: rev_cases) auto
  show ?thesis
    by (rule that [of a b c d R e f S h]) (use l3 in \<open>simp_all add: sig rest S R\<close>)
qed

lemma IsValid_iff:
  "IsValidSignatureEncoding sig \<longleftrightarrow>
    (\<exists>R S h. sig = der_sig R S h \<and> der_int R \<and> der_int S \<and> length R + length S \<le> 66)"
proof
  assume v: "IsValidSignatureEncoding sig"
  then obtain a b c d R e f S h where sig: "sig = [a, b, c, d] @ R @ [e, f] @ S @ [h]"
    and l: "length R = unat d" "length S = unat f" by (rule IsValid_decompose)
  have p: "length R + length S \<le> 66" "a = 0x30" "unat b = length R + length S + 4" "c = 0x02" "e = 0x02"
      "der_int R" "der_int S"
    using v unfolding sig IsValid_parts [OF l] by simp_all
  have "b = of_nat (length R + length S + 4)" by (simp only: flip: p(3)) simp
  moreover have "d = of_nat (length R)" "f = of_nat (length S)" using l by simp_all
  ultimately show "\<exists>R S h. sig = der_sig R S h \<and> der_int R \<and> der_int S \<and> length R + length S \<le> 66"
    using p sig by (intro exI [of _ R] exI [of _ S] exI [of _ h]) (simp add: der_sig_def)
next
  assume "\<exists>R S h. sig = der_sig R S h \<and> der_int R \<and> der_int S \<and> length R + length S \<le> 66"
  then obtain R S h where sig: "sig = der_sig R S h" "der_int R" "der_int S" "length R + length S \<le> 66"
    by blast
  have n: "unat (of_nat n :: byte) = n" if "n \<le> 70" for n using that by (simp add: unat_of_nat)
  have u: "length R = unat (of_nat (length R) :: byte)" "length S = unat (of_nat (length S) :: byte)"
      "unat (of_nat (length R + length S + 4) :: byte) = length R + length S + 4"
    using sig(4) n [of "length R"] n [of "length S"] n [of "length R + length S + 4"] by simp_all
  show "IsValidSignatureEncoding sig"
    unfolding sig(1) der_sig_def IsValid_parts [OF u(1,2)] using u(3) sig(2-4) by simp
qed

section \<open>Big-endian comparison\<close>

definition be_val :: "bytes \<Rightarrow> nat" where
  "be_val bs = le_val (rev bs)"

lemma be_val_Nil [simp]: "be_val [] = 0"
  by (simp add: be_val_def)

lemma be_val_Cons: "be_val (x # xs) = unat x * 256 ^ length xs + be_val xs"
  by (simp add: be_val_def le_val_append)

lemma be_val_less: "be_val bs < 256 ^ length bs"
  using le_val_less [of "rev bs"] by (simp add: be_val_def)

lemma be_val_pos_longer:
  assumes "length c2 < length c1" "hd c1 \<noteq> 0"
  shows "be_val c2 < be_val c1"
proof -
  obtain x xs where c1: "c1 = x # xs" using assms(1) by (cases c1) auto
  have "0 < unat x" using assms(2) by (simp add: c1 unat_gt_0)
  have "be_val c2 < 256 ^ length c2" by (rule be_val_less)
  also have "\<dots> \<le> 256 ^ length xs" using assms(1) by (intro power_increasing) (simp_all add: c1)
  also have "\<dots> \<le> unat x * 256 ^ length xs" using \<open>0 < unat x\<close> by simp
  finally show ?thesis by (simp add: c1 be_val_Cons)
qed

lemma compare_equal_length_val:
  "length xs = length ys \<Longrightarrow> compare_equal_length xs ys = sgn (int (be_val xs) - int (be_val ys))"
proof (induction xs ys rule: compare_equal_length.induct)
  case (1 x xs y ys)
  have less: "be_val (u # us) < be_val (v # vs)" if "u < v" "length us = length vs" for u v us vs
  proof -
    have "be_val (u # us) < unat u * 256 ^ length us + 256 ^ length us"
      using be_val_less [of us] by (simp add: be_val_Cons)
    also have "\<dots> = (unat u + 1) * 256 ^ length us" by simp
    also have "\<dots> \<le> unat v * 256 ^ length vs"
      using that by (intro mult_le_mono) (simp_all add: word_less_nat_alt)
    finally show ?thesis by (simp add: be_val_Cons)
  qed
  consider "x > y" | "y > x" | "x = y" by (metis linorder_neqE)
  then show ?case
  proof cases
    case 1
    then show ?thesis using less [of y x ys xs] "1.prems" by simp
  next
    case 2
    then show ?thesis using less [of x y xs ys] "1.prems" by simp
  next
    case 3
    then show ?thesis using 1 by (simp add: be_val_Cons)
  qed
qed simp_all

lemma be_val_tl_zero: "c \<noteq> [] \<Longrightarrow> hd c = 0 \<Longrightarrow> be_val (tl c) = be_val c"
  by (cases c) (simp_all add: be_val_Cons)

lemma CompareBigEndian_val: "CompareBigEndian c1 c2 = sgn (int (be_val c1) - int (be_val c2))"
proof (induction c1 c2 rule: CompareBigEndian.induct)
  case (1 c1 c2)
  consider (gt) "length c1 > length c2" | (lt) "length c2 > length c1" | (eq) "length c1 = length c2"
    by linarith
  then show ?case
  proof cases
    case gt
    then have "c1 \<noteq> []" by auto
    then show ?thesis using gt 1 be_val_pos_longer [OF gt] be_val_tl_zero [of c1]
      by (subst CompareBigEndian.simps) auto
  next
    case lt
    then have "c2 \<noteq> []" by auto
    then show ?thesis using lt 1 be_val_pos_longer [OF lt] be_val_tl_zero [of c2]
      by (subst CompareBigEndian.simps) auto
  next
    case eq
    then show ?thesis by (subst CompareBigEndian.simps) (simp add: compare_equal_length_val)
  qed
qed

text \<open>The order of the group generated by the base point of secp256k1.\<close>

definition secp256k1_n :: nat where
  "secp256k1_n = 0xFFFFFFFFFFFFFFFFFFFFFFFFFFFFFFFEBAAEDCE6AF48A03BBFD25E8CD0364141"

lemma max_mod_orders:
  "be_val vchMaxModOrder = secp256k1_n - 1" "be_val vchMaxModHalfOrder = (secp256k1_n - 1) div 2"
  by (simp_all add: vchMaxModOrder_def vchMaxModHalfOrder_def be_val_def secp256k1_n_def)

lemma CheckSignatureElement_val:
  "CheckSignatureElement v half \<longleftrightarrow> 0 < be_val v
     \<and> be_val v \<le> (if half then (secp256k1_n - 1) div 2 else secp256k1_n - 1)"
  by (cases half) (auto simp: CheckSignatureElement_def CompareBigEndian_val max_mod_orders sgn_if)

lemma IsLowDER_der_sig:
  assumes "der_int R" "der_int S" "length R + length S \<le> 66"
  shows "IsLowDERSignature (der_sig R S h) =
    (if 0 < be_val S \<and> be_val S \<le> (secp256k1_n - 1) div 2 then None else Some SCRIPT_ERR_SIG_HIGH_S)"
proof -
  have v: "IsValidSignatureEncoding (der_sig R S h)" using assms IsValid_iff by blast
  have n: "unat (of_nat (length R) :: byte) = length R" "unat (of_nat (length S) :: byte) = length S"
    using assms(3) by (simp_all add: unat_of_nat)
  have 3: "unat (der_sig R S h ! 3) = length R" by (simp add: der_sig_def n)
  have 5: "unat (der_sig R S h ! (5 + length R)) = length S" by (simp add: der_sig_def nth_append n)
  define P where "P = [0x30, of_nat (length R + length S + 4), 0x02, of_nat (length R)] @ R
     @ [0x02, of_nat (length S)]"
  have "der_sig R S h = P @ S @ [h]" "length P = 6 + length R" by (simp_all add: der_sig_def P_def)
  then have "take (length S) (drop (6 + length R) (der_sig R S h)) = S" by simp
  then show ?thesis
    by (simp only: IsLowDERSignature_def v 3 5 Let_def CheckSignatureElement_val) simp
qed

section \<open>Truth and numbers\<close>

lemma cast_loop_mag: "cast_loop vch \<longleftrightarrow> sm_mag vch \<noteq> 0"
proof (induction vch rule: cast_loop.induct)
  case 1
  then show ?case by (simp add: sm_mag_def)
next
  case (2 v vs)
  show ?case
  proof (cases "vs = []")
    case True
    have "v \<noteq> 0 \<and> v \<noteq> 0x80 \<longleftrightarrow> unat v mod 128 \<noteq> 0"
    proof -
      have "unat v mod 128 = 0 \<longleftrightarrow> unat v = 0 \<or> unat v = 128"
        using byte_high [of v] by (cases "128 \<le> unat v") auto
      moreover have "unat v = 128 \<longleftrightarrow> v = 0x80" by (auto simp: word_unat_eq_iff)
      ultimately show ?thesis by (simp add: unat_eq_0)
    qed
    then show ?thesis using True by (auto simp: sm_mag_def)
  next
    case False
    then have m: "sm_mag (v # vs) = unat v + 256 * sm_mag vs"
      by (cases vs rule: rev_cases) (simp_all add: sm_mag_def butlast_append)
    show ?thesis
    proof (cases "v = 0")
      case True
      then show ?thesis using 2 m False by simp
    next
      case v: False
      then show ?thesis using m False by (simp add: unat_eq_0)
    qed
  qed
qed

lemma CastToBool_value: "CastToBool vch \<longleftrightarrow> vch = [] \<or> sm_value vch \<noteq> 0"
  by (auto simp: CastToBool_def cast_loop_mag sm_value_def)

section \<open>Properties\<close>

text \<open>
  C21: \<open>IsValidSignatureEncoding\<close> accepts exactly the strict DER layout: a compound of two
  minimally encoded positive integers \<open>R\<close> and \<open>S\<close> of at most 66 bytes together, followed by one
  hash-type byte; and \<open>IsLowDERSignature\<close> accepts such a signature exactly when \<open>S\<close>, read as a
  big-endian number, lies between one and half of the group order.
\<close>

theorem strict_der_correct:
  "(IsValidSignatureEncoding sig \<longleftrightarrow>
      (\<exists>R S h. sig = der_sig R S h \<and> der_int R \<and> der_int S \<and> length R + length S \<le> 66))
   \<and> (IsLowDERSignature sig = None \<longleftrightarrow>
      (\<exists>R S h. sig = der_sig R S h \<and> der_int R \<and> der_int S \<and> length R + length S \<le> 66
         \<and> 0 < be_val S \<and> be_val S \<le> (secp256k1_n - 1) div 2))"
  (is "_ \<and> (?low \<longleftrightarrow> ?spec)")
proof
  show "?low \<longleftrightarrow> ?spec"
  proof
    assume low: ?low
    then have "IsValidSignatureEncoding sig" by (simp add: IsLowDERSignature_def split: if_splits)
    then obtain R S h where *: "sig = der_sig R S h" "der_int R" "der_int S" "length R + length S \<le> 66"
      using IsValid_iff by blast
    then have "0 < be_val S \<and> be_val S \<le> (secp256k1_n - 1) div 2"
      using low IsLowDER_der_sig [OF *(2-4), of h] by (simp split: if_splits)
    then show ?spec using * by blast
  next
    assume ?spec
    then show ?low using IsLowDER_der_sig by auto
  qed
qed (rule IsValid_iff)

text \<open>
  the truth value of a stack element is that of the number it encodes, negative zero being
  false, except that the empty vector, the canonical encoding of zero and the value the
  interpreter pushes for a failed comparison or signature check, counts as true.
\<close>

lemma CastToBool_correct:
  "CastToBool vch = (case vch of [] \<Rightarrow> True | _ \<Rightarrow> sm_value vch \<noteq> 0) \<and> serialize 0 = [] \<and> CastToBool (serialize 0)"
  by (simp add: CastToBool_value serialize_def split: list.split)

end
