(* ===== verification/Script_Eval.thy ===== *)
theory Script_Eval
  imports Script_Code Script_Sig_Enc "HOL-Library.Sublist"
begin

text \<open>
  \<open>EvalScript\<close> of \<open>script/interpreter.cpp\<close>, the stack machine of the script language, with the
  whole instruction set, and \<open>VerifyScript\<close>. Each case of the instruction switch, or group of
  cases that share a body, is a definition that takes the machine state to an error or to the
  next state; an exception caught by the handler of the loop is \<open>SCRIPT_ERR_UNKNOWN_ERROR\<close>.

  The two stacks are lists with the top first, so \<open>stacktop(-i)\<close> is the element of index
  \<open>i - 1\<close>; \<open>vfExec\<close> has its back first. The iterator \<open>pbegincodehash\<close> is the suffix of the
  script it points to. The signature checker and the hash functions are fields of the
  environment.
\<close>

section \<open>The machine\<close>

record eval_env =
  flags :: u32
  checkSig :: "bytes \<Rightarrow> bytes \<Rightarrow> script \<Rightarrow> bool"
  hRIPEMD160 :: "bytes \<Rightarrow> bytes"
  hSHA1 :: "bytes \<Rightarrow> bytes"
  hSHA256 :: "bytes \<Rightarrow> bytes"
  hHASH160 :: "bytes \<Rightarrow> bytes"
  hHASH256 :: "bytes \<Rightarrow> bytes"

record eval_state =
  stack :: "bytes list"
  altstack :: "bytes list"
  vfExec :: "bool list"
  nOpCount :: nat
  codehash :: script

type_synonym eval_result = "ScriptError + eval_state"

definition MAX_SCRIPT_ELEMENT_SIZE :: nat where
  "MAX_SCRIPT_ELEMENT_SIZE = 520"

definition vchFalse :: bytes where
  "vchFalse = []"

definition vchTrue :: bytes where
  "vchTrue = [1]"

definition vchBool :: "bool \<Rightarrow> bytes" where
  "vchBool b = (if b then vchTrue else vchFalse)"

definition fRequireMinimal :: "eval_env \<Rightarrow> bool" where
  "fRequireMinimal env = has_flag (flags env) SCRIPT_VERIFY_MINIMALDATA"

definition stacktop :: "bytes list \<Rightarrow> nat \<Rightarrow> bytes" where
  "stacktop st i = st ! (i - 1)"

definition script_num :: "eval_env \<Rightarrow> bytes \<Rightarrow> ScriptError + int" where
  "script_num env vch = (case CScriptNum vch (fRequireMinimal env) of
     Inl _ \<Rightarrow> Inl SCRIPT_ERR_UNKNOWN_ERROR | Inr n \<Rightarrow> Inr n)"

section \<open>Pushes and control\<close>

definition op_push_number :: "opcodetype \<Rightarrow> eval_state \<Rightarrow> eval_result" where
  "op_push_number opcode s = Inr (s\<lparr>stack := serialize (uint opcode - (uint OP_1 - 1)) # stack s\<rparr>)"

definition op_nop_n :: "eval_env \<Rightarrow> eval_state \<Rightarrow> eval_result" where
  "op_nop_n env s = (if has_flag (flags env) SCRIPT_VERIFY_DISCOURAGE_UPGRADABLE_NOPS
     then Inl SCRIPT_ERR_DISCOURAGE_UPGRADABLE_NOPS else Inr s)"

definition op_if :: "bool \<Rightarrow> opcodetype \<Rightarrow> eval_state \<Rightarrow> eval_result" where
  "op_if fExec opcode s =
     (if fExec then
        (case stack s of
           [] \<Rightarrow> Inl SCRIPT_ERR_UNBALANCED_CONDITIONAL
         | vch # st \<Rightarrow>
             (let fValue = CastToBool vch; fValue = (if opcode = OP_NOTIF then \<not> fValue else fValue)
              in Inr (s\<lparr>stack := st, vfExec := fValue # vfExec s\<rparr>)))
      else Inr (s\<lparr>vfExec := False # vfExec s\<rparr>))"

definition op_else :: "eval_state \<Rightarrow> eval_result" where
  "op_else s = (case vfExec s of
     [] \<Rightarrow> Inl SCRIPT_ERR_UNBALANCED_CONDITIONAL
   | v # vs \<Rightarrow> Inr (s\<lparr>vfExec := (\<not> v) # vs\<rparr>))"

definition op_endif :: "eval_state \<Rightarrow> eval_result" where
  "op_endif s = (case vfExec s of
     [] \<Rightarrow> Inl SCRIPT_ERR_UNBALANCED_CONDITIONAL
   | v # vs \<Rightarrow> Inr (s\<lparr>vfExec := vs\<rparr>))"

definition op_verify :: "eval_state \<Rightarrow> eval_result" where
  "op_verify s = (case stack s of
     [] \<Rightarrow> Inl SCRIPT_ERR_INVALID_STACK_OPERATION
   | vch # st \<Rightarrow> if CastToBool vch then Inr (s\<lparr>stack := st\<rparr>) else Inl SCRIPT_ERR_VERIFY)"

section \<open>Stack operations\<close>

definition op_toaltstack :: "eval_state \<Rightarrow> eval_result" where
  "op_toaltstack s = (case stack s of
     vch # st \<Rightarrow> Inr (s\<lparr>altstack := vch # altstack s, stack := st\<rparr>)
   | _ \<Rightarrow> Inl SCRIPT_ERR_INVALID_STACK_OPERATION)"

definition op_fromaltstack :: "eval_state \<Rightarrow> eval_result" where
  "op_fromaltstack s = (case altstack s of
     vch # ast \<Rightarrow> Inr (s\<lparr>stack := vch # stack s, altstack := ast\<rparr>)
   | _ \<Rightarrow> Inl SCRIPT_ERR_INVALID_ALTSTACK_OPERATION)"

definition with_stack :: "eval_state \<Rightarrow> bytes list option \<Rightarrow> eval_result" where
  "with_stack s r = (case r of Some st \<Rightarrow> Inr (s\<lparr>stack := st\<rparr>)
     | None \<Rightarrow> Inl SCRIPT_ERR_INVALID_STACK_OPERATION)"

definition op_2drop :: "eval_state \<Rightarrow> eval_result" where
  "op_2drop s = with_stack s (case stack s of x2 # x1 # st \<Rightarrow> Some st | _ \<Rightarrow> None)"

definition op_2dup :: "eval_state \<Rightarrow> eval_result" where
  "op_2dup s = with_stack s (case stack s of
     x2 # x1 # st \<Rightarrow> Some (x2 # x1 # x2 # x1 # st) | _ \<Rightarrow> None)"

definition op_3dup :: "eval_state \<Rightarrow> eval_result" where
  "op_3dup s = with_stack s (case stack s of
     x3 # x2 # x1 # st \<Rightarrow> Some (x3 # x2 # x1 # x3 # x2 # x1 # st) | _ \<Rightarrow> None)"

definition op_2over :: "eval_state \<Rightarrow> eval_result" where
  "op_2over s = with_stack s (case stack s of
     x4 # x3 # x2 # x1 # st \<Rightarrow> Some (x2 # x1 # x4 # x3 # x2 # x1 # st) | _ \<Rightarrow> None)"

definition op_2rot :: "eval_state \<Rightarrow> eval_result" where
  "op_2rot s = with_stack s (case stack s of
     x6 # x5 # x4 # x3 # x2 # x1 # st \<Rightarrow> Some (x2 # x1 # x6 # x5 # x4 # x3 # st) | _ \<Rightarrow> None)"

definition op_2swap :: "eval_state \<Rightarrow> eval_result" where
  "op_2swap s = with_stack s (case stack s of
     x4 # x3 # x2 # x1 # st \<Rightarrow> Some (x2 # x1 # x4 # x3 # st) | _ \<Rightarrow> None)"

definition op_ifdup :: "eval_state \<Rightarrow> eval_result" where
  "op_ifdup s = with_stack s (case stack s of
     x # st \<Rightarrow> Some (if CastToBool x then x # x # st else x # st) | _ \<Rightarrow> None)"

definition op_depth :: "eval_state \<Rightarrow> eval_result" where
  "op_depth s = Inr (s\<lparr>stack := serialize (int (length (stack s))) # stack s\<rparr>)"

definition op_drop :: "eval_state \<Rightarrow> eval_result" where
  "op_drop s = with_stack s (case stack s of x # st \<Rightarrow> Some st | _ \<Rightarrow> None)"

definition op_dup :: "eval_state \<Rightarrow> eval_result" where
  "op_dup s = with_stack s (case stack s of x # st \<Rightarrow> Some (x # x # st) | _ \<Rightarrow> None)"

definition op_nip :: "eval_state \<Rightarrow> eval_result" where
  "op_nip s = with_stack s (case stack s of x2 # x1 # st \<Rightarrow> Some (x2 # st) | _ \<Rightarrow> None)"

definition op_over :: "eval_state \<Rightarrow> eval_result" where
  "op_over s = with_stack s (case stack s of x2 # x1 # st \<Rightarrow> Some (x1 # x2 # x1 # st) | _ \<Rightarrow> None)"

definition op_pick_roll :: "eval_env \<Rightarrow> opcodetype \<Rightarrow> eval_state \<Rightarrow> eval_result" where
  "op_pick_roll env opcode s = (case stack s of
     x # y # st' \<Rightarrow>
       (case script_num env x of
          Inl e \<Rightarrow> Inl e
        | Inr bn \<Rightarrow>
            (let n = getint bn; st = y # st' in
             if n < 0 \<or> n \<ge> int (length st) then Inl SCRIPT_ERR_INVALID_STACK_OPERATION
             else let n = nat n; vch = st ! n;
                      st = (if opcode = OP_ROLL then take n st @ drop (n + 1) st else st)
                  in Inr (s\<lparr>stack := vch # st\<rparr>)))
   | _ \<Rightarrow> Inl SCRIPT_ERR_INVALID_STACK_OPERATION)"

definition op_rot :: "eval_state \<Rightarrow> eval_result" where
  "op_rot s = with_stack s (case stack s of x3 # x2 # x1 # st \<Rightarrow> Some (x1 # x3 # x2 # st) | _ \<Rightarrow> None)"

definition op_swap :: "eval_state \<Rightarrow> eval_result" where
  "op_swap s = with_stack s (case stack s of x2 # x1 # st \<Rightarrow> Some (x1 # x2 # st) | _ \<Rightarrow> None)"

definition op_tuck :: "eval_state \<Rightarrow> eval_result" where
  "op_tuck s = with_stack s (case stack s of x2 # x1 # st \<Rightarrow> Some (x2 # x1 # x2 # st) | _ \<Rightarrow> None)"

definition op_size :: "eval_state \<Rightarrow> eval_result" where
  "op_size s = with_stack s (case stack s of
     x # st \<Rightarrow> Some (serialize (int (length x)) # x # st) | _ \<Rightarrow> None)"

section \<open>Comparison and arithmetic\<close>

definition op_equal :: "opcodetype \<Rightarrow> eval_state \<Rightarrow> eval_result" where
  "op_equal opcode s = (case stack s of
     vch2 # vch1 # st \<Rightarrow>
       (let fEqual = (vch1 = vch2) in
        if opcode = OP_EQUALVERIFY
        then (if fEqual then Inr (s\<lparr>stack := st\<rparr>) else Inl SCRIPT_ERR_EQUALVERIFY)
        else Inr (s\<lparr>stack := vchBool fEqual # st\<rparr>))
   | _ \<Rightarrow> Inl SCRIPT_ERR_INVALID_STACK_OPERATION)"

definition unary_num :: "opcodetype \<Rightarrow> int \<Rightarrow> int" where
  "unary_num opcode bn =
     (if opcode = OP_1ADD then bn + 1
      else if opcode = OP_1SUB then bn - 1
      else if opcode = OP_NEGATE then - bn
      else if opcode = OP_ABS then (if bn < 0 then - bn else bn)
      else if opcode = OP_NOT then (if bn = 0 then 1 else 0)
      else (if bn \<noteq> 0 then 1 else 0))"

definition op_unary :: "eval_env \<Rightarrow> opcodetype \<Rightarrow> eval_state \<Rightarrow> eval_result" where
  "op_unary env opcode s = (case stack s of
     x # st \<Rightarrow> (case script_num env x of
                  Inl e \<Rightarrow> Inl e
                | Inr bn \<Rightarrow> Inr (s\<lparr>stack := serialize (unary_num opcode bn) # st\<rparr>))
   | _ \<Rightarrow> Inl SCRIPT_ERR_INVALID_STACK_OPERATION)"

definition binary_num :: "opcodetype \<Rightarrow> int \<Rightarrow> int \<Rightarrow> int" where
  "binary_num opcode bn1 bn2 =
     (if opcode = OP_ADD then bn1 + bn2
      else if opcode = OP_SUB then bn1 - bn2
      else if opcode = OP_BOOLAND then of_bool (bn1 \<noteq> 0 \<and> bn2 \<noteq> 0)
      else if opcode = OP_BOOLOR then of_bool (bn1 \<noteq> 0 \<or> bn2 \<noteq> 0)
      else if opcode = OP_NUMEQUAL then of_bool (bn1 = bn2)
      else if opcode = OP_NUMEQUALVERIFY then of_bool (bn1 = bn2)
      else if opcode = OP_NUMNOTEQUAL then of_bool (bn1 \<noteq> bn2)
      else if opcode = OP_LESSTHAN then of_bool (bn1 < bn2)
      else if opcode = OP_GREATERTHAN then of_bool (bn1 > bn2)
      else if opcode = OP_LESSTHANOREQUAL then of_bool (bn1 \<le> bn2)
      else if opcode = OP_GREATERTHANOREQUAL then of_bool (bn1 \<ge> bn2)
      else if opcode = OP_MIN then (if bn1 < bn2 then bn1 else bn2)
      else (if bn1 > bn2 then bn1 else bn2))"

definition op_binary :: "eval_env \<Rightarrow> opcodetype \<Rightarrow> eval_state \<Rightarrow> eval_result" where
  "op_binary env opcode s = (case stack s of
     x2 # x1 # st \<Rightarrow>
       (case script_num env x1 of Inl e \<Rightarrow> Inl e | Inr bn1 \<Rightarrow>
         (case script_num env x2 of Inl e \<Rightarrow> Inl e | Inr bn2 \<Rightarrow>
           (let vch = serialize (binary_num opcode bn1 bn2) in
            if opcode = OP_NUMEQUALVERIFY
            then (if CastToBool vch then Inr (s\<lparr>stack := st\<rparr>) else Inl SCRIPT_ERR_NUMEQUALVERIFY)
            else Inr (s\<lparr>stack := vch # st\<rparr>))))
   | _ \<Rightarrow> Inl SCRIPT_ERR_INVALID_STACK_OPERATION)"

definition op_within :: "eval_env \<Rightarrow> eval_state \<Rightarrow> eval_result" where
  "op_within env s = (case stack s of
     x3 # x2 # x1 # st \<Rightarrow>
       (case script_num env x1 of Inl e \<Rightarrow> Inl e | Inr bn1 \<Rightarrow>
         (case script_num env x2 of Inl e \<Rightarrow> Inl e | Inr bn2 \<Rightarrow>
           (case script_num env x3 of Inl e \<Rightarrow> Inl e | Inr bn3 \<Rightarrow>
             (let fValue = (bn2 \<le> bn1 \<and> bn1 < bn3) in
              Inr (s\<lparr>stack := vchBool fValue # st\<rparr>)))))
   | _ \<Rightarrow> Inl SCRIPT_ERR_INVALID_STACK_OPERATION)"

section \<open>Hashes and signatures\<close>

definition op_hash :: "eval_env \<Rightarrow> opcodetype \<Rightarrow> eval_state \<Rightarrow> eval_result" where
  "op_hash env opcode s = with_stack s (case stack s of
     vch # st \<Rightarrow>
       Some ((if opcode = OP_RIPEMD160 then hRIPEMD160 env vch
              else if opcode = OP_SHA1 then hSHA1 env vch
              else if opcode = OP_SHA256 then hSHA256 env vch
              else if opcode = OP_HASH160 then hHASH160 env vch
              else hHASH256 env vch) # st)
   | _ \<Rightarrow> None)"

definition op_codeseparator :: "bytes \<Rightarrow> eval_state \<Rightarrow> eval_result" where
  "op_codeseparator pc s = Inr (s\<lparr>codehash := pc\<rparr>)"

definition check_encodings :: "eval_env \<Rightarrow> bytes \<Rightarrow> bytes \<Rightarrow> ScriptError option" where
  "check_encodings env vchSig vchPubKey = (case CheckSignatureEncoding vchSig (flags env) of
     Some e \<Rightarrow> Some e | None \<Rightarrow> CheckPubKeyEncoding vchPubKey (flags env))"

definition op_checksig :: "eval_env \<Rightarrow> opcodetype \<Rightarrow> eval_state \<Rightarrow> eval_result" where
  "op_checksig env opcode s = (case stack s of
     vchPubKey # vchSig # st \<Rightarrow>
       (let scriptCode = fst (FindAndDelete (codehash s) (push_data vchSig)) in
        case check_encodings env vchSig vchPubKey of
          Some e \<Rightarrow> Inl e
        | None \<Rightarrow>
            (let fSuccess = checkSig env vchSig vchPubKey scriptCode in
             if opcode = OP_CHECKSIGVERIFY
             then (if fSuccess then Inr (s\<lparr>stack := st\<rparr>) else Inl SCRIPT_ERR_CHECKSIGVERIFY)
             else Inr (s\<lparr>stack := vchBool fSuccess # st\<rparr>)))
   | _ \<Rightarrow> Inl SCRIPT_ERR_INVALID_STACK_OPERATION)"

fun multisig_loop :: "eval_env \<Rightarrow> bytes list \<Rightarrow> script \<Rightarrow> nat \<Rightarrow> nat \<Rightarrow> nat \<Rightarrow> nat \<Rightarrow> ScriptError + bool" where
  "multisig_loop env st scriptCode isig nSigsCount ikey nKeysCount =
     (if nSigsCount = 0 then Inr True
      else let vchSig = stacktop st isig; vchPubKey = stacktop st ikey in
        case check_encodings env vchSig vchPubKey of
          Some e \<Rightarrow> Inl e
        | None \<Rightarrow>
            (let fOk = checkSig env vchSig vchPubKey scriptCode;
                 isig = (if fOk then isig + 1 else isig);
                 nSigsCount = (if fOk then nSigsCount - 1 else nSigsCount)
             in if int nSigsCount > int nKeysCount - 1 then Inr False
                else multisig_loop env st scriptCode isig nSigsCount (ikey + 1) (nKeysCount - 1)))"

declare multisig_loop.simps [simp del]

definition drop_signatures :: "script \<Rightarrow> bytes list \<Rightarrow> nat \<Rightarrow> nat \<Rightarrow> script" where
  "drop_signatures scriptCode st isig nSigsCount =
     foldl (\<lambda>code k. fst (FindAndDelete code (push_data (stacktop st (isig + k))))) scriptCode [0..<nSigsCount]"

definition op_checkmultisig :: "eval_env \<Rightarrow> opcodetype \<Rightarrow> eval_state \<Rightarrow> eval_result" where
  "op_checkmultisig env opcode s =
     (let st = stack s in
      if length st < 1 then Inl SCRIPT_ERR_INVALID_STACK_OPERATION
      else case script_num env (stacktop st 1) of Inl e \<Rightarrow> Inl e | Inr bn \<Rightarrow>
       (let nKeysCount = getint bn in
        if nKeysCount < 0 \<or> nKeysCount > 20 then Inl SCRIPT_ERR_PUBKEY_COUNT
        else let nKeysCount = nat nKeysCount; nOp = nOpCount s + nKeysCount in
        if nOp > 201 then Inl SCRIPT_ERR_OP_COUNT
        else let ikey = 2; i = ikey + nKeysCount in
        if length st < i then Inl SCRIPT_ERR_INVALID_STACK_OPERATION
        else case script_num env (stacktop st i) of Inl e \<Rightarrow> Inl e | Inr bn \<Rightarrow>
         (let nSigsCount = getint bn in
          if nSigsCount < 0 \<or> nSigsCount > int nKeysCount then Inl SCRIPT_ERR_SIG_COUNT
          else let nSigsCount = nat nSigsCount; isig = i + 1; i = isig + nSigsCount in
          if length st < i then Inl SCRIPT_ERR_INVALID_STACK_OPERATION
          else let scriptCode = drop_signatures (codehash s) st isig nSigsCount in
          case multisig_loop env st scriptCode isig nSigsCount ikey nKeysCount of
            Inl e \<Rightarrow> Inl e
          | Inr fSuccess \<Rightarrow>
             (let st = drop (i - 1) st in
              if length st < 1 then Inl SCRIPT_ERR_INVALID_STACK_OPERATION
              else if has_flag (flags env) SCRIPT_VERIFY_NULLDUMMY \<and> length (stacktop st 1) \<noteq> 0
              then Inl SCRIPT_ERR_SIG_NULLDUMMY
              else let st = tl st in
                if opcode = OP_CHECKMULTISIGVERIFY
                then (if fSuccess then Inr (s\<lparr>stack := st, nOpCount := nOp\<rparr>)
                      else Inl SCRIPT_ERR_CHECKMULTISIGVERIFY)
                else Inr (s\<lparr>stack := vchBool fSuccess # st, nOpCount := nOp\<rparr>)))))"

section \<open>Dispatch and the instruction loop\<close>

definition eval_control :: "eval_env \<Rightarrow> bool \<Rightarrow> opcodetype \<Rightarrow> eval_state \<Rightarrow> eval_result option" where
  "eval_control env fExec opcode s =
     (if opcode = OP_1NEGATE \<or> OP_1 \<le> opcode \<and> opcode \<le> OP_16 then Some (op_push_number opcode s)
      else if opcode = OP_NOP then Some (Inr s)
      else if OP_NOP1 \<le> opcode \<and> opcode \<le> OP_NOP10 then Some (op_nop_n env s)
      else if opcode = OP_IF \<or> opcode = OP_NOTIF then Some (op_if fExec opcode s)
      else if opcode = OP_ELSE then Some (op_else s)
      else if opcode = OP_ENDIF then Some (op_endif s)
      else if opcode = OP_VERIFY then Some (op_verify s)
      else if opcode = OP_RETURN then Some (Inl SCRIPT_ERR_OP_RETURN)
      else None)"

definition eval_stackop :: "eval_env \<Rightarrow> opcodetype \<Rightarrow> eval_state \<Rightarrow> eval_result option" where
  "eval_stackop env opcode s =
     (if opcode = OP_TOALTSTACK then Some (op_toaltstack s)
      else if opcode = OP_FROMALTSTACK then Some (op_fromaltstack s)
      else if opcode = OP_2DROP then Some (op_2drop s)
      else if opcode = OP_2DUP then Some (op_2dup s)
      else if opcode = OP_3DUP then Some (op_3dup s)
      else if opcode = OP_2OVER then Some (op_2over s)
      else if opcode = OP_2ROT then Some (op_2rot s)
      else if opcode = OP_2SWAP then Some (op_2swap s)
      else if opcode = OP_IFDUP then Some (op_ifdup s)
      else if opcode = OP_DEPTH then Some (op_depth s)
      else if opcode = OP_DROP then Some (op_drop s)
      else if opcode = OP_DUP then Some (op_dup s)
      else if opcode = OP_NIP then Some (op_nip s)
      else if opcode = OP_OVER then Some (op_over s)
      else if opcode = OP_PICK \<or> opcode = OP_ROLL then Some (op_pick_roll env opcode s)
      else if opcode = OP_ROT then Some (op_rot s)
      else if opcode = OP_SWAP then Some (op_swap s)
      else if opcode = OP_TUCK then Some (op_tuck s)
      else if opcode = OP_SIZE then Some (op_size s)
      else None)"

definition eval_arith :: "eval_env \<Rightarrow> opcodetype \<Rightarrow> eval_state \<Rightarrow> eval_result option" where
  "eval_arith env opcode s =
     (if opcode = OP_EQUAL \<or> opcode = OP_EQUALVERIFY then Some (op_equal opcode s)
      else if opcode \<in> {OP_1ADD, OP_1SUB, OP_NEGATE, OP_ABS, OP_NOT, OP_0NOTEQUAL}
      then Some (op_unary env opcode s)
      else if opcode \<in> {OP_ADD, OP_SUB, OP_BOOLAND, OP_BOOLOR, OP_NUMEQUAL, OP_NUMEQUALVERIFY,
          OP_NUMNOTEQUAL, OP_LESSTHAN, OP_GREATERTHAN, OP_LESSTHANOREQUAL, OP_GREATERTHANOREQUAL,
          OP_MIN, OP_MAX}
      then Some (op_binary env opcode s)
      else if opcode = OP_WITHIN then Some (op_within env s)
      else None)"

definition eval_crypto :: "eval_env \<Rightarrow> bytes \<Rightarrow> opcodetype \<Rightarrow> eval_state \<Rightarrow> eval_result option" where
  "eval_crypto env pc opcode s =
     (if opcode \<in> {OP_RIPEMD160, OP_SHA1, OP_SHA256, OP_HASH160, OP_HASH256}
      then Some (op_hash env opcode s)
      else if opcode = OP_CODESEPARATOR then Some (op_codeseparator pc s)
      else if opcode = OP_CHECKSIG \<or> opcode = OP_CHECKSIGVERIFY then Some (op_checksig env opcode s)
      else if opcode = OP_CHECKMULTISIG \<or> opcode = OP_CHECKMULTISIGVERIFY
      then Some (op_checkmultisig env opcode s)
      else None)"

definition eval_switch :: "eval_env \<Rightarrow> bytes \<Rightarrow> bool \<Rightarrow> opcodetype \<Rightarrow> eval_state \<Rightarrow> eval_result" where
  "eval_switch env pc fExec opcode s =
     (case eval_control env fExec opcode s of Some r \<Rightarrow> r | None \<Rightarrow>
      (case eval_stackop env opcode s of Some r \<Rightarrow> r | None \<Rightarrow>
       (case eval_arith env opcode s of Some r \<Rightarrow> r | None \<Rightarrow>
        (case eval_crypto env pc opcode s of Some r \<Rightarrow> r | None \<Rightarrow> Inl SCRIPT_ERR_BAD_OPCODE))))"

definition disabled_opcodes :: "opcodetype set" where
  "disabled_opcodes = {OP_CAT, OP_SUBSTR, OP_LEFT, OP_RIGHT, OP_INVERT, OP_AND, OP_OR, OP_XOR,
     OP_2MUL, OP_2DIV, OP_MUL, OP_DIV, OP_MOD, OP_LSHIFT, OP_RSHIFT}"

definition eval_instr :: "eval_env \<Rightarrow> bytes \<Rightarrow> opcodetype \<Rightarrow> bytes \<Rightarrow> eval_state \<Rightarrow> eval_result" where
  "eval_instr env pc opcode vchPushValue s =
     (let fExec = (\<not> list_ex (\<lambda>v. \<not> v) (vfExec s)) in
      if length vchPushValue > MAX_SCRIPT_ELEMENT_SIZE then Inl SCRIPT_ERR_PUSH_SIZE
      else let s = (if opcode > OP_16 then s\<lparr>nOpCount := nOpCount s + 1\<rparr> else s) in
      if opcode > OP_16 \<and> nOpCount s > 201 then Inl SCRIPT_ERR_OP_COUNT
      else if opcode \<in> disabled_opcodes then Inl SCRIPT_ERR_DISABLED_OPCODE
      else case
        (if fExec \<and> opcode \<le> OP_PUSHDATA4 then
           (if fRequireMinimal env \<and> \<not> CheckMinimalPush vchPushValue opcode
            then Inl SCRIPT_ERR_MINIMALDATA
            else Inr (s\<lparr>stack := vchPushValue # stack s\<rparr>))
         else if fExec \<or> (OP_IF \<le> opcode \<and> opcode \<le> OP_ENDIF) then eval_switch env pc fExec opcode s
         else Inr s) of
        Inl e \<Rightarrow> Inl e
      | Inr s \<Rightarrow> if length (stack s) + length (altstack s) > 1000 then Inl SCRIPT_ERR_STACK_SIZE
                 else Inr s)"

function eval_loop :: "eval_env \<Rightarrow> bytes \<Rightarrow> eval_state \<Rightarrow> eval_result" where
  "eval_loop env pc s =
     (if pc = [] then Inr s
      else case GetOp2 pc of (ok, opcode, vchPushValue, pc') \<Rightarrow>
        if \<not> ok then Inl SCRIPT_ERR_BAD_OPCODE
        else case eval_instr env pc' opcode vchPushValue s of
          Inl e \<Rightarrow> Inl e
        | Inr s \<Rightarrow> eval_loop env pc' s)"
  by pat_completeness auto
termination
  by (relation "measure (\<lambda>(env, pc, s). length pc)") (auto intro: GetOp2_shorter)

declare eval_loop.simps [simp del]

definition EvalScript :: "eval_env \<Rightarrow> bytes list \<Rightarrow> script \<Rightarrow> ScriptError + bytes list" where
  "EvalScript env st script =
     (if length script > 10000 then Inl SCRIPT_ERR_SCRIPT_SIZE
      else case eval_loop env script
          \<lparr>stack = st, altstack = [], vfExec = [], nOpCount = 0, codehash = script\<rparr> of
        Inl e \<Rightarrow> Inl e
      | Inr s \<Rightarrow> if vfExec s \<noteq> [] then Inl SCRIPT_ERR_UNBALANCED_CONDITIONAL else Inr (stack s))"

definition VerifyScript :: "eval_env \<Rightarrow> script \<Rightarrow> script \<Rightarrow> ScriptError" where
  "VerifyScript env scriptSig scriptPubKey =
     (if has_flag (flags env) SCRIPT_VERIFY_SIGPUSHONLY \<and> \<not> IsPushOnly scriptSig
      then SCRIPT_ERR_SIG_PUSHONLY
      else case EvalScript env [] scriptSig of Inl e \<Rightarrow> e | Inr st \<Rightarrow>
        (let stackCopy = (if has_flag (flags env) SCRIPT_VERIFY_P2SH then st else []) in
         case EvalScript env st scriptPubKey of Inl e \<Rightarrow> e | Inr st \<Rightarrow>
          (if st = [] then SCRIPT_ERR_EVAL_FALSE
           else if \<not> CastToBool (hd st) then SCRIPT_ERR_EVAL_FALSE
           else if has_flag (flags env) SCRIPT_VERIFY_P2SH \<and> IsPayToScriptHash scriptPubKey
           then (if \<not> IsPushOnly scriptSig then SCRIPT_ERR_SIG_PUSHONLY
                 else case stackCopy of
                   [] \<Rightarrow> SCRIPT_ERR_UNKNOWN_ERROR
                 | pubKeySerialized # stackCopy \<Rightarrow>
                   (case EvalScript env stackCopy pubKeySerialized of Inl e \<Rightarrow> e | Inr st \<Rightarrow>
                     (if st = [] then SCRIPT_ERR_EVAL_FALSE
                      else if \<not> CastToBool (hd st) then SCRIPT_ERR_EVAL_FALSE
                      else SCRIPT_ERR_OK)))
           else SCRIPT_ERR_OK)))"

section \<open>Multi-signature checks\<close>

definition stack_slice :: "bytes list \<Rightarrow> nat \<Rightarrow> nat \<Rightarrow> bytes list" where
  "stack_slice st i n = map (\<lambda>k. stacktop st (i + k)) [0..<n]"

lemma stack_slice_0 [simp]: "stack_slice st i 0 = []"
  by (simp add: stack_slice_def)

lemma stack_slice_Suc: "stack_slice st i (Suc n) = stacktop st i # stack_slice st (i + 1) n"
  by (simp add: stack_slice_def upt_rec [of 0] map_Suc_upt [symmetric] del: upt_Suc)

lemma length_stack_slice [simp]: "length (stack_slice st i n) = n"
  by (simp add: stack_slice_def)

lemma stack_slice_append:
  assumes "length xs = i - 1" "1 \<le> i"
  shows "stack_slice (xs @ ys @ zs) i (length ys) = ys"
proof (rule nth_equalityI)
  fix k
  assume "k < length (stack_slice (xs @ ys @ zs) i (length ys))"
  moreover have "i + k - 1 = length xs + k" using assms by simp
  ultimately show "stack_slice (xs @ ys @ zs) i (length ys) ! k = ys ! k"
    by (simp add: stack_slice_def stacktop_def nth_append del: One_nat_def)
qed simp

lemma multisig_loop_emb:
  assumes "nS \<le> nK"
    and "\<And>sig key. sig \<in> set (stack_slice st isig nS) \<Longrightarrow> key \<in> set (stack_slice st ikey nK) \<Longrightarrow>
      check_encodings env sig key = None"
  shows "multisig_loop env st code isig nS ikey nK =
    Inr (list_emb (\<lambda>sig key. checkSig env sig key code) (stack_slice st isig nS) (stack_slice st ikey nK))"
  using assms
proof (induction nK arbitrary: isig nS ikey)
  case 0
  then show ?case by (simp add: multisig_loop.simps)
next
  case (Suc nK)
  show ?case
  proof (cases nS)
    case 0
    then show ?thesis by (simp add: multisig_loop.simps)
  next
    case (Suc n)
    let ?sig = "stacktop st isig" and ?key = "stacktop st ikey"
    let ?P = "\<lambda>sig key. checkSig env sig key code"
    have enc: "check_encodings env ?sig ?key = None"
      using Suc.prems(2) [of ?sig ?key] by (simp add: Suc stack_slice_Suc)
    have n: "n \<le> nK" using Suc.prems(1) Suc by simp
    show ?thesis
    proof (cases "?P ?sig ?key")
      case True
      have "multisig_loop env st code isig nS ikey (Suc nK) = multisig_loop env st code (isig + 1) n (ikey + 1) nK"
        using True enc n by (subst multisig_loop.simps) (simp add: Suc)
      also have "\<dots> = Inr (list_emb ?P (stack_slice st (isig + 1) n) (stack_slice st (ikey + 1) nK))"
        using Suc.prems(2) n by (intro Suc.IH) (auto simp: Suc stack_slice_Suc)
      finally show ?thesis using True by (simp add: Suc stack_slice_Suc list_emb_code)
    next
      case False
      show ?thesis
      proof (cases "Suc n \<le> nK")
        case True
        have "multisig_loop env st code isig nS ikey (Suc nK) = multisig_loop env st code isig nS (ikey + 1) nK"
          using True False enc by (subst multisig_loop.simps) (simp add: Suc)
        also have "\<dots> = Inr (list_emb ?P (stack_slice st isig nS) (stack_slice st (ikey + 1) nK))"
          using Suc.prems(2) True by (intro Suc.IH) (auto simp: Suc stack_slice_Suc)
        finally show ?thesis using False by (simp add: Suc stack_slice_Suc list_emb_code)
      next
        case short: False
        have "multisig_loop env st code isig nS ikey (Suc nK) = Inr False"
          using short False enc by (subst multisig_loop.simps) (simp add: Suc)
        moreover have "\<not> list_emb ?P (stack_slice st isig nS) (stack_slice st (ikey + 1) nK)"
          using short list_emb_length by (fastforce simp: Suc)
        ultimately show ?thesis using False by (simp add: Suc stack_slice_Suc list_emb_code)
      qed
    qed
  qed
qed

lemma script_num_serialize: "\<bar>v\<bar> < 2 ^ 31 \<Longrightarrow> script_num env (serialize v) = Inr v"
  by (simp add: script_num_def CScriptNum_serialize)

lemma getint_small: "\<bar>v\<bar> < 2 ^ 31 \<Longrightarrow> getint v = v"
  by (auto simp: getint_def)

lemma op_checkmultisig_emb:
  assumes st: "stack s = serialize (int (length keys)) # keys @ serialize (int (length sigs)) # sigs @ dummy # rest"
    and n: "length sigs \<le> length keys" "length keys \<le> 20" "nOpCount s + length keys \<le> 201"
    and enc: "\<And>sig key. sig \<in> set sigs \<Longrightarrow> key \<in> set keys \<Longrightarrow> check_encodings env sig key = None"
    and dummy: "has_flag (flags env) SCRIPT_VERIFY_NULLDUMMY \<Longrightarrow> dummy = []"
  defines "code \<equiv> drop_signatures (codehash s) (stack s) (length keys + 3) (length sigs)"
  shows "op_checkmultisig env OP_CHECKMULTISIG s =
    Inr (s\<lparr>stack := vchBool (list_emb (\<lambda>sig key. checkSig env sig key code) sigs keys) # rest,
           nOpCount := nOpCount s + length keys\<rparr>)"
proof -
  let ?k = "int (length keys)" and ?m = "int (length sigs)"
  have num: "script_num env (serialize ?k) = Inr ?k" "script_num env (serialize ?m) = Inr ?m"
      "getint ?k = ?k" "getint ?m = ?m"
    using n by (auto intro: script_num_serialize getint_small)
  have top: "stacktop (stack s) 1 = serialize ?k" "stacktop (stack s) (2 + length keys) = serialize ?m"
    by (simp_all add: st stacktop_def nth_append)
  have keys: "stack_slice (stack s) 2 (length keys) = keys"
    using stack_slice_append [of "[serialize ?k]" 2 keys] by (simp add: st)
  have sigs: "stack_slice (stack s) (length keys + 3) (length sigs) = sigs"
    using stack_slice_append [of "serialize ?k # keys @ [serialize ?m]" "length keys + 3" sigs "dummy # rest"]
    by (simp add: st)
  have loop: "multisig_loop env (stack s) code (length keys + 3) (length sigs) 2 (length keys) =
      Inr (list_emb (\<lambda>sig key. checkSig env sig key code) sigs keys)"
    using multisig_loop_emb [of "length sigs" "length keys" "stack s" "length keys + 3" 2 env code] n(1) enc
    by (simp add: keys sigs)
  have rest: "drop (2 + length keys + length sigs) (stack s) = dummy # rest"
    by (simp add: st)
  have len: "length (stack s) = 3 + length keys + length sigs + length rest" by (simp add: st)
  have i: "2 + length keys + 1 = length keys + 3" "length keys + 3 + length sigs - 1 = 2 + length keys + length sigs"
    by simp_all
  have ge: "\<not> length (stack s) < 1" "\<not> length (stack s) < 2 + length keys"
      "\<not> length (stack s) < length keys + 3 + length sigs" "\<not> nOpCount s + length keys > 201"
    using n(3) by (simp_all add: len)
  have range: "\<not> (?k < 0 \<or> ?k > 20)" "\<not> (?m < 0 \<or> ?m > ?k)" using n by auto
  show ?thesis
    unfolding op_checkmultisig_def Let_def
    by (simp only: top num sum.case nat_int range ge if_False i loop rest flip: code_def)
      (use dummy in \<open>auto simp: stacktop_def\<close>)
qed

end
