(* ===== verification/Script_Limits.thy ===== *)
theory Script_Limits
  imports Script_Eval
begin

text \<open>
  Facts about every run of the script machine of \<open>Script_Eval\<close>: the size limits that all
  instructions keep, the shape a script must have to run without error, the effect of scripts
  made of pushes, and what \<open>VerifyScript\<close> accepts for the standard output forms.
\<close>

section \<open>Limits kept by every instruction\<close>

text \<open>No element of either stack is longer than what a script may push.\<close>

definition elems_ok :: "eval_state \<Rightarrow> bool" where
  "elems_ok s \<longleftrightarrow> (\<forall>v \<in> set (stack s) \<union> set (altstack s). length v \<le> 520)"

definition hash_sizes :: "eval_env \<Rightarrow> bool" where
  "hash_sizes env \<longleftrightarrow> (\<forall>v. length (hRIPEMD160 env v) = 20 \<and> length (hSHA1 env v) = 20
     \<and> length (hSHA256 env v) = 32 \<and> length (hHASH160 env v) = 20 \<and> length (hHASH256 env v) = 32)"

definition machine_ok :: "eval_state \<Rightarrow> bool" where
  "machine_ok s \<longleftrightarrow> elems_ok s \<and> length (stack s) + length (altstack s) \<le> 1000 \<and> nOpCount s \<le> 201"

lemma serialize_length_8: "\<bar>v\<bar> < 2 ^ 62 \<Longrightarrow> length (serialize v) \<le> 8"
proof (rule ccontr)
  assume v: "\<bar>v\<bar> < 2 ^ 62" and l: "\<not> length (serialize v) \<le> 8"
  have sm: "sm_value (serialize v) = v" "sm_minimal (serialize v)"
    using serialize_sm [of v] v by simp_all
  have "(256 :: nat) ^ 7 \<le> 256 ^ (length (serialize v) - 2)" using l by (intro power_increasing) simp_all
  moreover have "128 * 256 ^ (length (serialize v) - 2) \<le> sm_mag (serialize v)"
    using sm_mag_bounds [OF sm(2)] l by (cases "serialize v = []") auto
  ultimately have "2 ^ 62 \<le> sm_mag (serialize v)" by simp
  then show False using v by (simp add: sm_mag_value sm(1))
qed

lemma serialize_520: "\<bar>v\<bar> < 2 ^ 62 \<Longrightarrow> length (serialize v) \<le> 520"
  using serialize_length_8 [of v] by simp

lemma script_num_bound: "script_num env x = Inr n \<Longrightarrow> \<bar>n\<bar> < 2 ^ 31"
  by (auto simp: script_num_def dest: CScriptNum_bound split: sum.splits)

lemma unary_bound: "\<bar>n\<bar> < 2 ^ 31 \<Longrightarrow> \<bar>unary_num opcode n\<bar> < 2 ^ 32"
  by (auto simp: unary_num_def)

lemma binary_bound: "\<bar>m\<bar> < 2 ^ 31 \<Longrightarrow> \<bar>n\<bar> < 2 ^ 31 \<Longrightarrow> \<bar>binary_num opcode m n\<bar> < 2 ^ 32"
  by (auto simp: binary_num_def)

lemma vchBool_520: "length (vchBool b) \<le> 520"
  by (simp add: vchBool_def vchTrue_def vchFalse_def)

lemma with_stack_elems:
  "with_stack s r = Inr s' \<Longrightarrow> elems_ok s \<Longrightarrow> (\<And>st. r = Some st \<Longrightarrow> \<forall>v \<in> set st. length v \<le> 520) \<Longrightarrow> elems_ok s'"
  by (auto simp: with_stack_def elems_ok_def split: option.splits)

lemma control_elems:
  "eval_control env fExec opcode s = Some (Inr s') \<Longrightarrow> elems_ok s \<Longrightarrow> elems_ok s'"
proof -
  have "uint opcode < 2 ^ LENGTH(8)" by (rule unsigned_less)
  then have "uint opcode < 256" by simp
  then have "\<bar>uint opcode - 80\<bar> < 256" using uint_ge_0 [of opcode] unfolding abs_less_iff by linarith
  then have "\<bar>uint opcode - 80\<bar> < 2 ^ 62" by (rule less_trans) simp
  then have p: "length (serialize (uint opcode - 80)) \<le> 520" by (rule serialize_520)
  show "eval_control env fExec opcode s = Some (Inr s') \<Longrightarrow> elems_ok s \<Longrightarrow> elems_ok s'"
    using p by (auto simp: eval_control_def op_push_number_def op_nop_n_def op_if_def op_else_def
        op_endif_def op_verify_def elems_ok_def split: if_splits list.splits)
qed

lemma pick_roll_elems:
  assumes "op_pick_roll env opcode s = Inr s'" "elems_ok s"
  shows "elems_ok s'"
proof -
  obtain x y st n where st: "stack s = x # y # st" and n: "0 \<le> n" "n < int (length (y # st))"
    and s': "s' = s\<lparr>stack := (y # st) ! nat n #
      (if opcode = OP_ROLL then take (nat n) (y # st) @ drop (nat n + 1) (y # st) else y # st)\<rparr>"
    using assms(1) by (fastforce simp: op_pick_roll_def Let_def split: list.splits sum.splits if_splits)
  have "(y # st) ! nat n \<in> set (y # st)" using n by (intro nth_mem) (simp add: nat_less_iff)
  moreover have "set (take (nat n) (y # st)) \<subseteq> set (y # st)" by (rule set_take_subset)
  moreover have "set (drop (nat n + 1) (y # st)) \<subseteq> set (y # st)" by (rule set_drop_subset)
  ultimately show ?thesis using assms(2) unfolding s' elems_ok_def st by auto
qed

lemma altstack_elems:
  "op_toaltstack s = Inr s' \<Longrightarrow> elems_ok s \<Longrightarrow> elems_ok s'"
  "op_fromaltstack s = Inr s' \<Longrightarrow> elems_ok s \<Longrightarrow> elems_ok s'"
  by (auto simp: op_toaltstack_def op_fromaltstack_def elems_ok_def split: list.splits)

text \<open>The instructions that only rearrange the stack.\<close>

lemma rearrange_elems:
  "op_2drop s = Inr s' \<Longrightarrow> elems_ok s \<Longrightarrow> elems_ok s'"
  "op_2dup s = Inr s' \<Longrightarrow> elems_ok s \<Longrightarrow> elems_ok s'"
  "op_3dup s = Inr s' \<Longrightarrow> elems_ok s \<Longrightarrow> elems_ok s'"
  "op_2over s = Inr s' \<Longrightarrow> elems_ok s \<Longrightarrow> elems_ok s'"
  "op_2rot s = Inr s' \<Longrightarrow> elems_ok s \<Longrightarrow> elems_ok s'"
  "op_2swap s = Inr s' \<Longrightarrow> elems_ok s \<Longrightarrow> elems_ok s'"
  "op_ifdup s = Inr s' \<Longrightarrow> elems_ok s \<Longrightarrow> elems_ok s'"
  "op_drop s = Inr s' \<Longrightarrow> elems_ok s \<Longrightarrow> elems_ok s'"
  "op_dup s = Inr s' \<Longrightarrow> elems_ok s \<Longrightarrow> elems_ok s'"
  "op_nip s = Inr s' \<Longrightarrow> elems_ok s \<Longrightarrow> elems_ok s'"
  "op_over s = Inr s' \<Longrightarrow> elems_ok s \<Longrightarrow> elems_ok s'"
  "op_rot s = Inr s' \<Longrightarrow> elems_ok s \<Longrightarrow> elems_ok s'"
  "op_swap s = Inr s' \<Longrightarrow> elems_ok s \<Longrightarrow> elems_ok s'"
  "op_tuck s = Inr s' \<Longrightarrow> elems_ok s \<Longrightarrow> elems_ok s'"
  unfolding op_2drop_def op_2dup_def op_3dup_def op_2over_def op_2rot_def op_2swap_def op_ifdup_def op_drop_def op_dup_def op_nip_def op_over_def op_rot_def op_swap_def op_tuck_def
  by (auto simp: with_stack_def elems_ok_def split: list.splits if_splits)

lemma stackop_elems:
  assumes "eval_stackop env opcode s = Some (Inr s')" "elems_ok s" "length (stack s) \<le> 1000"
  shows "elems_ok s'"
proof -
  have depth: "elems_ok s'" if "op_depth s = Inr s'"
  proof -
    have "length (serialize (int (length (stack s)))) \<le> 520"
      using assms(3) by (intro serialize_520) simp
    then show ?thesis using that assms(2) by (auto simp: op_depth_def elems_ok_def)
  qed
  have size: "elems_ok s'" if "op_size s = Inr s'"
  proof -
    have "length (serialize (int (length x))) \<le> 520" if "x \<in> set (stack s)" for x
      using assms(2) that by (intro serialize_520) (force simp: elems_ok_def)
    then show ?thesis using that assms(2)
      by (auto simp: op_size_def with_stack_def elems_ok_def split: list.splits option.splits)
  qed
  show ?thesis
    using assms(1,2) unfolding eval_stackop_def
    by (auto split: if_splits dest: depth size pick_roll_elems rearrange_elems altstack_elems)
qed

lemma arith_elems:
  assumes "eval_arith env opcode s = Some (Inr s')" "elems_ok s"
  shows "elems_ok s'"
proof -
  have u: "length (serialize (unary_num opcode n)) \<le> 520" if "script_num env x = Inr n" for x n
    by (rule serialize_520) (use unary_bound [OF script_num_bound [OF that], of opcode] in simp)
  have b: "length (serialize (binary_num opcode m n)) \<le> 520"
    if "script_num env x = Inr m" "script_num env y = Inr n" for x y m n
    by (rule serialize_520)
      (use binary_bound [OF script_num_bound [OF that(1)] script_num_bound [OF that(2)], of opcode] in simp)
  have eq: "elems_ok s'" if "op_equal opcode s = Inr s'"
    using that assms(2) by (auto simp: op_equal_def elems_ok_def vchBool_520 Let_def split: list.splits if_splits)
  have un: "elems_ok s'" if "op_unary env opcode s = Inr s'"
    using that assms(2) u by (auto simp: op_unary_def elems_ok_def split: list.splits sum.splits)
  have bin: "elems_ok s'" if "op_binary env opcode s = Inr s'"
    using that assms(2) b
    by (auto simp: op_binary_def elems_ok_def Let_def split: list.splits sum.splits if_splits)
  have within: "elems_ok s'" if "op_within env s = Inr s'"
    using that assms(2)
    by (auto simp: op_within_def elems_ok_def vchBool_520 Let_def split: list.splits sum.splits)
  show ?thesis using assms(1) eq un bin within by (simp add: eval_arith_def split: if_splits)
qed

lemma tl_drop_subset: "v \<in> set (tl (drop n xs)) \<Longrightarrow> v \<in> set xs"
  by (metis drop_Suc in_set_dropD tl_drop)

lemma checkmultisig_result:
  assumes "op_checkmultisig env opcode s = Inr s'"
  shows "nOpCount s' \<le> 201 \<and> altstack s' = altstack s \<and>
    (\<forall>v \<in> set (stack s'). v \<in> set (stack s) \<or> length v \<le> 520)"
  using assms unfolding op_checkmultisig_def Let_def
  by (auto split: sum.splits if_splits simp: vchBool_520 dest: tl_drop_subset)

lemma crypto_elems:
  assumes "eval_crypto env pc opcode s = Some (Inr s')" "elems_ok s" "hash_sizes env"
  shows "elems_ok s'"
proof -
  have h: "elems_ok s'" if "op_hash env opcode s = Inr s'"
    using that assms(2,3)
    by (auto simp: op_hash_def with_stack_def hash_sizes_def elems_ok_def split: list.splits option.splits)
  have c: "elems_ok s'" if "op_checksig env opcode s = Inr s'"
    using that assms(2)
    by (auto simp: op_checksig_def elems_ok_def vchBool_520 Let_def split: list.splits option.splits if_splits)
  have m: "elems_ok s'" if "op_checkmultisig env opcode s = Inr s'"
    using checkmultisig_result [OF that] assms(2) unfolding elems_ok_def by auto
  show ?thesis using assms(1,2) h c m
    by (auto simp: eval_crypto_def op_codeseparator_def elems_ok_def split: if_splits)
qed

lemma switch_elems:
  assumes "eval_switch env pc fExec opcode s = Inr s'" "elems_ok s" "hash_sizes env" "length (stack s) \<le> 1000"
  shows "elems_ok s'"
  using assms control_elems stackop_elems arith_elems crypto_elems
  unfolding eval_switch_def by (fastforce split: option.splits)

text \<open>What the instructions leave alone: the operation count and the conditional stack.\<close>

definition same_frame :: "eval_state \<Rightarrow> eval_state \<Rightarrow> bool" where
  "same_frame s s' \<longleftrightarrow> nOpCount s' = nOpCount s \<and> vfExec s' = vfExec s"

lemma with_stack_frame: "with_stack s r = Inr s' \<Longrightarrow> same_frame s s'"
  by (auto simp: with_stack_def same_frame_def split: option.splits)

lemma stackop_frame:
  assumes "eval_stackop env opcode s = Some (Inr s')"
  shows "same_frame s s'"
proof -
  have p: "op_pick_roll env x s = Inr s' \<Longrightarrow> same_frame s s'" for x
    by (auto simp: op_pick_roll_def same_frame_def Let_def split: list.splits sum.splits if_splits)
  have a: "op_toaltstack s = Inr s' \<Longrightarrow> same_frame s s'" "op_fromaltstack s = Inr s' \<Longrightarrow> same_frame s s'"
    by (auto simp: op_toaltstack_def op_fromaltstack_def same_frame_def split: list.splits)
  have d: "op_depth s = Inr s' \<Longrightarrow> same_frame s s'"
    by (auto simp: op_depth_def same_frame_def)
  show ?thesis
    using assms
    unfolding eval_stackop_def op_2drop_def op_2dup_def op_3dup_def
      op_2over_def op_2rot_def op_2swap_def op_ifdup_def op_drop_def op_dup_def op_nip_def
      op_over_def op_rot_def op_swap_def op_tuck_def op_size_def
    by (auto split: if_splits dest: p a d with_stack_frame)
qed

lemma arith_frame: "eval_arith env opcode s = Some (Inr s') \<Longrightarrow> same_frame s s'"
  by (auto simp: eval_arith_def op_equal_def op_unary_def op_binary_def op_within_def same_frame_def Let_def
      split: list.splits sum.splits if_splits)

lemma checkmultisig_frame:
  "op_checkmultisig env opcode s = Inr s' \<Longrightarrow> nOpCount s \<le> nOpCount s' \<and> vfExec s' = vfExec s"
  unfolding op_checkmultisig_def Let_def by (auto split: sum.splits if_splits)

lemma crypto_frame:
  assumes "eval_crypto env pc opcode s = Some (Inr s')"
  shows "nOpCount s \<le> nOpCount s' \<and> (nOpCount s \<le> 201 \<longrightarrow> nOpCount s' \<le> 201) \<and> vfExec s' = vfExec s"
proof -
  have "op_checksig env opcode s = Inr s' \<Longrightarrow> same_frame s s'"
    by (auto simp: op_checksig_def same_frame_def Let_def split: list.splits option.splits if_splits)
  moreover have "op_hash env opcode s = Inr s' \<Longrightarrow> same_frame s s'"
    unfolding op_hash_def by (rule with_stack_frame)
  ultimately show ?thesis
    using assms checkmultisig_result [of env opcode s s'] checkmultisig_frame [of env opcode s s']
    by (auto simp: eval_crypto_def op_codeseparator_def same_frame_def split: if_splits)
qed

text \<open>The nesting depth of conditionals after an opcode, none if the opcode has no partner.\<close>

definition nesting :: "opcodetype \<Rightarrow> nat \<Rightarrow> nat option" where
  "nesting opcode n =
     (if opcode = OP_IF \<or> opcode = OP_NOTIF then Some (n + 1)
      else if opcode = OP_ELSE then (if n = 0 then None else Some n)
      else if opcode = OP_ENDIF then (if n = 0 then None else Some (n - 1))
      else Some n)"

lemma control_frame:
  assumes "eval_control env fExec opcode s = Some (Inr s')"
  shows "nOpCount s' = nOpCount s \<and> nesting opcode (length (vfExec s)) = Some (length (vfExec s'))"
  using assms by (auto simp: eval_control_def op_push_number_def op_nop_n_def op_if_def op_else_def
      op_endif_def op_verify_def nesting_def Let_def split: if_splits list.splits)

lemma nesting_other:
  "eval_control env fExec opcode s = None \<Longrightarrow> nesting opcode n = Some n"
  by (auto simp: eval_control_def nesting_def split: if_splits)

lemma switch_frame:
  assumes "eval_switch env pc fExec opcode s = Inr s'"
  shows "nOpCount s \<le> nOpCount s' \<and> (nOpCount s \<le> 201 \<longrightarrow> nOpCount s' \<le> 201)
    \<and> nesting opcode (length (vfExec s)) = Some (length (vfExec s'))"
proof (cases "eval_control env fExec opcode s")
  case None
  have "nOpCount s \<le> nOpCount s' \<and> (nOpCount s \<le> 201 \<longrightarrow> nOpCount s' \<le> 201) \<and> vfExec s' = vfExec s"
    using assms None stackop_frame [of env opcode s s'] arith_frame [of env opcode s s']
      crypto_frame [of env pc opcode s s']
    by (auto simp: eval_switch_def same_frame_def split: option.splits)
  then show ?thesis using nesting_other [OF None] by simp
next
  case (Some r)
  then show ?thesis using assms control_frame [of env fExec opcode s s'] by (simp add: eval_switch_def)
qed

text \<open>One instruction: what it has checked, and the state it ran on.\<close>

lemma eval_instr_cases:
  assumes "eval_instr env pc opcode vch s = Inr s'"
  obtains s1 where "s1 = (if opcode > OP_16 then s\<lparr>nOpCount := nOpCount s + 1\<rparr> else s)"
    "length vch \<le> 520" "opcode > OP_16 \<longrightarrow> nOpCount s1 \<le> 201" "opcode \<notin> disabled_opcodes"
    "length (stack s') + length (altstack s') \<le> 1000"
    "s' = s1\<lparr>stack := vch # stack s1\<rparr> \<and> opcode \<le> OP_PUSHDATA4
     \<or> s' = s1 \<and> \<not> (OP_IF \<le> opcode \<and> opcode \<le> OP_ENDIF)
     \<or> (\<exists>x. eval_switch env pc x opcode s1 = Inr s')"
  using assms unfolding eval_instr_def Let_def
  by (auto simp: MAX_SCRIPT_ELEMENT_SIZE_def not_le not_less split: if_splits sum.splits)

lemma eval_instr_machine_ok:
  assumes "eval_instr env pc opcode vch s = Inr s'" "machine_ok s" "hash_sizes env"
  shows "machine_ok s'"
proof -
  obtain s1 where s1: "s1 = (if opcode > OP_16 then s\<lparr>nOpCount := nOpCount s + 1\<rparr> else s)"
    and push: "length vch \<le> 520" and count: "opcode > OP_16 \<longrightarrow> nOpCount s1 \<le> 201"
    and "opcode \<notin> disabled_opcodes"
    and size: "length (stack s') + length (altstack s') \<le> 1000"
    and s': "s' = s1\<lparr>stack := vch # stack s1\<rparr> \<and> opcode \<le> OP_PUSHDATA4
     \<or> s' = s1 \<and> \<not> (OP_IF \<le> opcode \<and> opcode \<le> OP_ENDIF)
     \<or> (\<exists>x. eval_switch env pc x opcode s1 = Inr s')"
    by (rule eval_instr_cases [OF assms(1)])
  have e: "elems_ok s1" "length (stack s1) \<le> 1000" and n: "nOpCount s1 \<le> 201"
    using assms(2) count by (auto simp: s1 machine_ok_def elems_ok_def)
  have "elems_ok s' \<and> nOpCount s' \<le> 201"
    using s' switch_elems [of env pc _ opcode s1 s'] switch_frame [of env pc _ opcode s1 s'] e n push assms(3)
    by (elim disjE exE) (auto simp: elems_ok_def)
  then show ?thesis using size by (simp add: machine_ok_def)
qed

lemma eval_loop_Nil [simp]: "eval_loop env [] s = Inr s"
  by (simp add: eval_loop.simps)

lemma eval_loop_machine_ok:
  "eval_loop env pc s = Inr s' \<Longrightarrow> machine_ok s \<Longrightarrow> hash_sizes env \<Longrightarrow> machine_ok s'"
proof (induction env pc s rule: eval_loop.induct)
  case (1 env pc s)
  obtain ok opcode vch pc' where g: "GetOp2 pc = (ok, opcode, vch, pc')" by (metis prod_cases4)
  show ?case
  proof (cases "pc = []")
    case True
    then show ?thesis using "1.prems" by simp
  next
    case False
    then obtain s2 where ok: ok and i: "eval_instr env pc' opcode vch s = Inr s2"
      and l: "eval_loop env pc' s2 = Inr s'"
      using "1.prems"(1) by (subst (asm) eval_loop.simps) (auto simp: g split: if_splits sum.splits)
    have "machine_ok s2" using eval_instr_machine_ok [OF i] "1.prems" by simp
    then show ?thesis using "1.IH" [OF False g [symmetric] refl refl _ i l] ok "1.prems" by simp
  qed
qed

lemma EvalScript_machine_ok:
  assumes "EvalScript env st script = Inr st'" "hash_sizes env"
    "\<forall>v \<in> set st. length v \<le> 520" "length st \<le> 1000"
  shows "length st' \<le> 1000 \<and> (\<forall>v \<in> set st'. length v \<le> 520)"
proof -
  let ?s = "\<lparr>stack = st, altstack = [], vfExec = [], nOpCount = 0, codehash = script\<rparr>"
  obtain s' where l: "eval_loop env script ?s = Inr s'" and st': "st' = stack s'"
    using assms(1) by (auto simp: EvalScript_def split: if_splits sum.splits)
  have "machine_ok ?s" using assms(3,4) by (simp add: machine_ok_def elems_ok_def)
  then have "machine_ok s'" using eval_loop_machine_ok [OF l] assms(2) by simp
  then show ?thesis by (simp add: machine_ok_def elems_ok_def st')
qed

section \<open>What a script that runs must look like\<close>

function parse_script :: "bytes \<Rightarrow> (opcodetype \<times> bytes) list option" where
  "parse_script pc =
     (if pc = [] then Some []
      else case GetOp2 pc of (ok, opcode, vch, pc') \<Rightarrow>
        if ok then (case parse_script pc' of None \<Rightarrow> None | Some ops \<Rightarrow> Some ((opcode, vch) # ops))
        else None)"
  by pat_completeness auto
termination
  by (relation "measure length") (auto intro: GetOp2_shorter)

declare parse_script.simps [simp del]

lemma parse_script_Nil [simp]: "parse_script [] = Some []"
  by (simp add: parse_script.simps)

primrec nesting_list :: "(opcodetype \<times> bytes) list \<Rightarrow> nat \<Rightarrow> nat option" where
  "nesting_list [] n = Some n"
| "nesting_list (op # ops) n = (case nesting (fst op) n of None \<Rightarrow> None | Some n \<Rightarrow> nesting_list ops n)"

lemma eval_loop_shape:
  assumes "eval_loop env pc s = Inr s'" "nOpCount s \<le> 201"
  shows "\<exists>ops. parse_script pc = Some ops
    \<and> (\<forall>(opcode, vch) \<in> set ops. opcode \<notin> disabled_opcodes \<and> length vch \<le> 520)
    \<and> nOpCount s + length (filter (\<lambda>op. fst op > OP_16) ops) \<le> 201
    \<and> nesting_list ops (length (vfExec s)) = Some (length (vfExec s'))"
  using assms
proof (induction env pc s rule: eval_loop.induct)
  case (1 env pc s)
  obtain ok opcode vch pc' where g: "GetOp2 pc = (ok, opcode, vch, pc')" by (metis prod_cases4)
  show ?case
  proof (cases "pc = []")
    case True
    then show ?thesis using "1.prems" by simp
  next
    case False
    then obtain s2 where ok: ok and i: "eval_instr env pc' opcode vch s = Inr s2"
      and l: "eval_loop env pc' s2 = Inr s'"
      using "1.prems"(1) by (subst (asm) eval_loop.simps) (auto simp: g split: if_splits sum.splits)
    obtain s1 where s1: "s1 = (if opcode > OP_16 then s\<lparr>nOpCount := nOpCount s + 1\<rparr> else s)"
      and vch: "length vch \<le> 520" and count: "opcode > OP_16 \<longrightarrow> nOpCount s1 \<le> 201"
      and dis: "opcode \<notin> disabled_opcodes"
      and "length (stack s2) + length (altstack s2) \<le> 1000"
      and s2: "s2 = s1\<lparr>stack := vch # stack s1\<rparr> \<and> opcode \<le> OP_PUSHDATA4
       \<or> s2 = s1 \<and> \<not> (OP_IF \<le> opcode \<and> opcode \<le> OP_ENDIF)
       \<or> (\<exists>x. eval_switch env pc' x opcode s1 = Inr s2)"
      by (rule eval_instr_cases [OF i])
    have n1: "nOpCount s1 \<le> 201" using count "1.prems"(2) by (auto simp: s1)
    have v1: "vfExec s1 = vfExec s" by (simp add: s1)
    have push: "nesting opcode n = Some n" if "\<not> (OP_IF \<le> opcode \<and> opcode \<le> OP_ENDIF)" for n
      using that by (auto simp: nesting_def)
    have low: "\<not> (OP_IF \<le> opcode \<and> opcode \<le> OP_ENDIF)" if "opcode \<le> OP_PUSHDATA4"
      using that by (auto dest: order_trans [of OP_IF opcode OP_PUSHDATA4])
    have step: "nOpCount s1 \<le> nOpCount s2" "nOpCount s2 \<le> 201"
      "nesting opcode (length (vfExec s)) = Some (length (vfExec s2))"
      using s2 switch_frame [of env pc' _ opcode s1 s2] n1 v1 push low by auto
    obtain ops where ops: "parse_script pc' = Some ops"
      "\<forall>(opcode, vch) \<in> set ops. opcode \<notin> disabled_opcodes \<and> length vch \<le> 520"
      "nOpCount s2 + length (filter (\<lambda>op. fst op > OP_16) ops) \<le> 201"
      "nesting_list ops (length (vfExec s2)) = Some (length (vfExec s'))"
      using "1.IH" [OF False g [symmetric] refl refl _ i l step(2)] ok by auto
    have "parse_script pc = Some ((opcode, vch) # ops)"
      using False ok ops(1) by (subst parse_script.simps) (simp add: g)
    moreover have "nOpCount s + length (filter (\<lambda>op. fst op > OP_16) ((opcode, vch) # ops)) \<le> 201"
      using ops(3) step(1) by (auto simp: s1 split: if_splits)
    ultimately show ?thesis using ops(2,4) step(3) vch dis
      by (intro exI [of _ "(opcode, vch) # ops"]) simp
  qed
qed

lemma EvalScript_shape:
  assumes "EvalScript env st script = Inr st'"
  shows "length script \<le> 10000 \<and> (\<exists>ops. parse_script script = Some ops
    \<and> (\<forall>(opcode, vch) \<in> set ops. opcode \<notin> disabled_opcodes \<and> length vch \<le> 520)
    \<and> length (filter (\<lambda>op. fst op > OP_16) ops) \<le> 201
    \<and> nesting_list ops 0 = Some 0)"
proof -
  let ?s = "\<lparr>stack = st, altstack = [], vfExec = [], nOpCount = 0, codehash = script\<rparr>"
  obtain s' where l: "eval_loop env script ?s = Inr s'" "vfExec s' = []" and len: "length script \<le> 10000"
    using assms by (auto simp: EvalScript_def split: if_splits sum.splits)
  then show ?thesis using eval_loop_shape [OF l(1)] by simp
qed

section \<open>Scripts of pushes\<close>

definition push_opcode :: "bytes \<Rightarrow> opcodetype" where
  "push_opcode b = (if length b < 76 then of_nat (length b) else if length b \<le> 255 then OP_PUSHDATA1
     else if length b \<le> 65535 then OP_PUSHDATA2 else OP_PUSHDATA4)"

lemma GetOp2_opcode: "GetOp2 (x # xs) = (True, opcode, vch, pc') \<Longrightarrow> opcode = x"
  by (auto split: if_splits option.splits)

lemma GetOp2_push:
  assumes "length b \<le> 520"
  shows "GetOp2 (push_data b @ rest) = (True, push_opcode b, b, rest)" "push_opcode b \<le> OP_PUSHDATA4"
proof -
  obtain opcode where g: "GetOp2 (push_data b @ rest) = (True, opcode, b, rest)" "opcode \<le> OP_PUSHDATA4"
    using GetOp2_push_data [of b rest] assms by auto
  obtain x xs where p: "push_data b = x # xs" using push_data_nonempty by (metis neq_Nil_conv)
  then have "opcode = hd (push_data b)" using g(1) GetOp2_opcode [of x "xs @ rest" opcode] by simp
  also have "\<dots> = push_opcode b" by (simp add: push_data_def push_opcode_def)
  finally show "GetOp2 (push_data b @ rest) = (True, push_opcode b, b, rest)" "push_opcode b \<le> OP_PUSHDATA4"
    using g by simp_all
qed

lemma push_minimal: "1 < length b \<Longrightarrow> CheckMinimalPush b (push_opcode b)"
  by (auto simp: CheckMinimalPush_def push_opcode_def unat_of_nat)

text \<open>A push that no flag of the environment rejects.\<close>

definition pushable :: "eval_env \<Rightarrow> bytes \<Rightarrow> bool" where
  "pushable env b \<longleftrightarrow> length b \<le> 520 \<and> (fRequireMinimal env \<longrightarrow> 1 < length b)"

lemma disabled_above: "opcode \<le> OP_16 \<Longrightarrow> opcode \<notin> disabled_opcodes"
  by (auto simp: disabled_opcodes_def)

lemma eval_loop_push:
  assumes "pushable env b" "vfExec s = []" "length (stack s) + length (altstack s) < 1000"
  shows "eval_loop env (push_data b @ rest) s = eval_loop env rest (s\<lparr>stack := b # stack s\<rparr>)"
proof -
  have g: "GetOp2 (push_data b @ rest) = (True, push_opcode b, b, rest)" "push_opcode b \<le> OP_PUSHDATA4"
    using GetOp2_push assms(1) by (auto simp: pushable_def)
  have low: "\<not> push_opcode b > OP_16" using g(2) by (rule push_op_below)
  then have "push_opcode b \<notin> disabled_opcodes" by (intro disabled_above) simp
  then have "eval_instr env rest (push_opcode b) b s = Inr (s\<lparr>stack := b # stack s\<rparr>)"
    using low g(2) assms push_minimal [of b]
    by (auto simp: eval_instr_def pushable_def MAX_SCRIPT_ELEMENT_SIZE_def)
  then show ?thesis
    by (subst eval_loop.simps) (simp add: g push_data_nonempty)
qed

lemma eval_loop_pushes:
  assumes "list_all (pushable env) xs" "vfExec s = []" "length xs + length (stack s) + length (altstack s) \<le> 1000"
  shows "eval_loop env (concat (map push_data xs) @ rest) s = eval_loop env rest (s\<lparr>stack := rev xs @ stack s\<rparr>)"
  using assms
proof (induction xs arbitrary: s)
  case (Cons x xs)
  have "eval_loop env (concat (map push_data (x # xs)) @ rest) s
      = eval_loop env (concat (map push_data xs) @ rest) (s\<lparr>stack := x # stack s\<rparr>)"
    using Cons.prems eval_loop_push [of env x s "concat (map push_data xs) @ rest"] by simp
  also have "\<dots> = eval_loop env rest (s\<lparr>stack := rev xs @ x # stack s\<rparr>)"
    using Cons.prems Cons.IH [of "s\<lparr>stack := x # stack s\<rparr>"] by simp
  finally show ?case by simp
qed simp

lemma EvalScript_pushes:
  assumes "list_all (pushable env) xs" "length xs + length st \<le> 1000" "length (concat (map push_data xs)) \<le> 10000"
  shows "EvalScript env st (concat (map push_data xs)) = Inr (rev xs @ st)"
  using eval_loop_pushes [of env xs "\<lparr>stack = st, altstack = [], vfExec = [], nOpCount = 0,
      codehash = concat (map push_data xs)\<rparr>" "[]"] assms
  by (simp add: EvalScript_def)

section \<open>One opcode at a time\<close>

lemma eval_loop_op:
  assumes "opcode > OP_PUSHDATA4"
  shows "eval_loop env (opcode # pc) s =
    (case eval_instr env pc opcode [] s of Inl e \<Rightarrow> Inl e | Inr s \<Rightarrow> eval_loop env pc s)"
  using assms by (subst eval_loop.simps) auto

lemma eval_instr_op:
  assumes "opcode > OP_16" "opcode \<notin> disabled_opcodes" "vfExec s = []" "nOpCount s < 201"
  shows "eval_instr env pc opcode [] s =
    (case eval_switch env pc True opcode (s\<lparr>nOpCount := nOpCount s + 1\<rparr>) of
       Inl e \<Rightarrow> Inl e
     | Inr s \<Rightarrow> if length (stack s) + length (altstack s) > 1000 then Inl SCRIPT_ERR_STACK_SIZE else Inr s)"
proof -
  have "\<not> opcode \<le> OP_PUSHDATA4"
    using assms(1) push_op_below by blast
  then show ?thesis using assms by (simp add: eval_instr_def MAX_SCRIPT_ELEMENT_SIZE_def Let_def)
qed

lemma switch_hash160:
  "eval_switch env pc True OP_HASH160 s = op_hash env OP_HASH160 s"
  by (simp add: eval_switch_def eval_control_def eval_stackop_def eval_arith_def eval_crypto_def)

lemma switch_equal: "eval_switch env pc True OP_EQUAL s = op_equal OP_EQUAL s"
  by (simp add: eval_switch_def eval_control_def eval_stackop_def eval_arith_def)

lemma switch_checksig:
  "opcode = OP_CHECKSIG \<or> opcode = OP_CHECKSIGVERIFY \<Longrightarrow> eval_switch env pc True opcode s = op_checksig env opcode s"
  by (auto simp: eval_switch_def eval_control_def eval_stackop_def eval_arith_def eval_crypto_def)

lemma checksig_not_disabled: "OP_CHECKSIG \<notin> disabled_opcodes" "OP_HASH160 \<notin> disabled_opcodes"
    "OP_EQUAL \<notin> disabled_opcodes" "OP_CHECKSIGVERIFY \<notin> disabled_opcodes"
  by (simp_all add: disabled_opcodes_def)

text \<open>\<open>[pubkey] OP_CHECKSIG\<close> on a signature.\<close>

lemma EvalScript_checksig:
  assumes "pushable env pk" "check_encodings env sig pk = None" "length st < 999"
  shows "EvalScript env (sig # st) (push_data pk @ [OP_CHECKSIG]) =
    Inr (vchBool (checkSig env sig pk (fst (FindAndDelete (push_data pk @ [OP_CHECKSIG]) (push_data sig)))) # st)"
proof -
  let ?script = "push_data pk @ [OP_CHECKSIG]"
  let ?s = "\<lparr>stack = sig # st, altstack = [], vfExec = [], nOpCount = 0, codehash = ?script\<rparr>"
  have "length (push_data pk) \<le> 520 + 5" using assms(1) by (simp add: pushable_def push_data_def)
  moreover have "eval_loop env ?script ?s = eval_loop env [OP_CHECKSIG] (?s\<lparr>stack := pk # sig # st\<rparr>)"
    using assms(1,3) eval_loop_push [of env pk ?s "[OP_CHECKSIG]"] by simp
  moreover have "op_checksig env OP_CHECKSIG (?s\<lparr>stack := pk # sig # st, nOpCount := 1\<rparr>) = Inr (?s\<lparr>stack :=
      vchBool (checkSig env sig pk (fst (FindAndDelete ?script (push_data sig)))) # st, nOpCount := 1\<rparr>)"
    using assms(2) by (simp add: op_checksig_def)
  ultimately show ?thesis
    using assms(3) by (simp add: EvalScript_def eval_loop_op eval_instr_op checksig_not_disabled switch_checksig)
qed

lemma pay_to_pubkey_verifies:
  assumes "pushable env sig" "pushable env pk" "check_encodings env sig pk = None"
  shows "VerifyScript env (push_data sig) (push_data pk @ [OP_CHECKSIG]) = SCRIPT_ERR_OK"
proof -
  have l: "length sig \<le> 520" "length pk \<le> 520" using assms by (simp_all add: pushable_def)
  have po: "IsPushOnly (push_data sig)" using IsPushOnly_pushes [of "[sig]"] l by simp
  have "length (push_data sig) \<le> 520 + 5" using l by (simp add: push_data_def)
  then have e1: "EvalScript env [] (push_data sig) = Inr [sig]"
    using EvalScript_pushes [of env "[sig]" "[]"] assms by simp
  have "\<not> IsPayToScriptHash (push_data pk @ [OP_CHECKSIG])"
  proof
    assume "IsPayToScriptHash (push_data pk @ [OP_CHECKSIG])"
    then obtain h where "push_data pk @ [OP_CHECKSIG] = OP_HASH160 # push_data h @ [OP_EQUAL]"
      using P2SH_iff by blast
    then have "last (push_data pk @ [OP_CHECKSIG]) = last (OP_HASH160 # push_data h @ [OP_EQUAL])" by simp
    then show False by simp
  qed
  moreover have "CastToBool (vchBool b)" for b
    by (cases b) (simp_all add: vchBool_def vchTrue_def vchFalse_def CastToBool_def)
  ultimately show ?thesis
    using EvalScript_checksig [OF assms(2,3), of "[]"] po e1 by (simp add: VerifyScript_def)
qed

text \<open>\<open>OP_HASH160 [hash] OP_EQUAL\<close> on a pushed redeem script.\<close>

lemma EvalScript_p2sh:
  assumes "length h = 20" "length st < 999"
  shows "EvalScript env (redeem # st) (OP_HASH160 # push_data h @ [OP_EQUAL]) =
    Inr (vchBool (hHASH160 env redeem = h) # st)"
    and "EvalScript env [] (OP_HASH160 # push_data h @ [OP_EQUAL]) = Inl SCRIPT_ERR_INVALID_STACK_OPERATION"
proof -
  let ?script = "OP_HASH160 # push_data h @ [OP_EQUAL]"
  let ?s = "\<lambda>st. \<lparr>stack = st, altstack = [], vfExec = [], nOpCount = 0, codehash = ?script\<rparr>"
  have h: "pushable env h" using assms(1) by (simp add: pushable_def)
  have len: "length (push_data h) = 21" using assms(1) by (simp add: push_data_def)
  have "eval_loop env ?script (?s (redeem # st)) =
      eval_loop env (push_data h @ [OP_EQUAL]) (?s (hHASH160 env redeem # st)\<lparr>nOpCount := 1\<rparr>)"
    using assms(2)
    by (simp add: eval_loop_op eval_instr_op checksig_not_disabled switch_hash160 op_hash_def with_stack_def)
  also have "\<dots> = eval_loop env [OP_EQUAL] (?s (h # hHASH160 env redeem # st)\<lparr>nOpCount := 1\<rparr>)"
    using eval_loop_push [OF h, of "?s (hHASH160 env redeem # st)\<lparr>nOpCount := 1\<rparr>"] assms(2) by simp
  also have "\<dots> = Inr (?s (vchBool (hHASH160 env redeem = h) # st)\<lparr>nOpCount := 2\<rparr>)"
    using assms(2)
    by (simp add: eval_loop_op eval_instr_op checksig_not_disabled switch_equal op_equal_def)
  finally show "EvalScript env (redeem # st) ?script = Inr (vchBool (hHASH160 env redeem = h) # st)"
    using len by (simp add: EvalScript_def)
  show "EvalScript env [] ?script = Inl SCRIPT_ERR_INVALID_STACK_OPERATION"
    using len by (simp add: EvalScript_def eval_loop_op eval_instr_op checksig_not_disabled switch_hash160
        op_hash_def with_stack_def)
qed

text \<open>The result of a spend through a pay-to-script-hash output.\<close>

definition run_redeem :: "eval_env \<Rightarrow> bytes list \<Rightarrow> script \<Rightarrow> ScriptError" where
  "run_redeem env st redeem = (case EvalScript env st redeem of
     Inl e \<Rightarrow> e
   | Inr [] \<Rightarrow> SCRIPT_ERR_EVAL_FALSE
   | Inr (v # _) \<Rightarrow> if CastToBool v then SCRIPT_ERR_OK else SCRIPT_ERR_EVAL_FALSE)"

lemma pay_to_script_hash_result:
  assumes "has_flag (flags env) SCRIPT_VERIFY_P2SH" "length h = 20"
    and "list_all (pushable env) (redeem # xs)" "length xs < 900"
    and "length (concat (map push_data (xs @ [redeem]))) \<le> 10000"
  shows "VerifyScript env (concat (map push_data (xs @ [redeem]))) (OP_HASH160 # push_data h @ [OP_EQUAL])
    = run_redeem env (rev xs) redeem"
proof -
  let ?sig = "concat (map push_data (xs @ [redeem]))"
  have "list_all (\<lambda>x. length x < 2 ^ 32) (xs @ [redeem])"
    using assms(3) by (auto simp: list_all_iff pushable_def)
  then have po: "IsPushOnly ?sig" by (rule IsPushOnly_pushes)
  have e1: "EvalScript env [] ?sig = Inr (redeem # rev xs)"
    using EvalScript_pushes [of env "xs @ [redeem]" "[]"] assms(3-5) by simp
  have p: "IsPayToScriptHash (OP_HASH160 # push_data h @ [OP_EQUAL])" using assms(2) P2SH_iff by blast
  have c: "CastToBool (vchBool b)" for b
    by (cases b) (simp_all add: vchBool_def vchTrue_def vchFalse_def CastToBool_def)
  show ?thesis
    using assms(1,4) EvalScript_p2sh(1) [OF assms(2), of "rev xs" env redeem] po e1 p c
    by (auto simp: VerifyScript_def run_redeem_def split: sum.splits list.splits)
qed

text \<open>The assertion of \<open>VerifyScript\<close> on the copied stack cannot fire.\<close>

lemma p2sh_stack_not_empty:
  assumes "IsPayToScriptHash scriptPubKey" "EvalScript env st scriptPubKey = Inr st'"
  shows "st \<noteq> []"
  using assms EvalScript_p2sh(2) [of _ "[]" env] P2SH_iff [of scriptPubKey] by fastforce

section \<open>Properties\<close>

text \<open>An environment for concrete runs: no signature is ever valid.\<close>

definition reject_env :: eval_env where
  "reject_env = \<lparr>flags = SCRIPT_VERIFY_P2SH, checkSig = (\<lambda>_ _ _. False),
     hRIPEMD160 = (\<lambda>_. replicate 20 1), hSHA1 = (\<lambda>_. replicate 20 2), hSHA256 = (\<lambda>_. replicate 32 3),
     hHASH160 = (\<lambda>_. replicate 20 4), hHASH256 = (\<lambda>_. replicate 32 5)\<rparr>"

text \<open>
  C22: a script that \<open>EvalScript\<close> runs without error has at most 10000 bytes, parses to its end,
  holds no disabled opcode, not even in a branch that is not taken, pushes no vector over 520
  bytes, has at most 201 opcodes above \<open>OP_16\<close> and balanced conditionals; and the stack it
  leaves has at most 1000 elements of at most 520 bytes when the one it started from had, the
  hash functions returning their 20 or 32 bytes.
\<close>

theorem eval_script_limits:
  assumes "EvalScript env st script = Inr st'" "hash_sizes env"
    "\<forall>v \<in> set st. length v \<le> 520" "length st \<le> 1000"
  shows "length script \<le> 10000
    \<and> (\<exists>ops. parse_script script = Some ops
         \<and> (\<forall>(opcode, vch) \<in> set ops. opcode \<notin> disabled_opcodes \<and> length vch \<le> 520)
         \<and> length (filter (\<lambda>op. fst op > OP_16) ops) \<le> 201
         \<and> nesting_list ops 0 = Some 0)
    \<and> length st' \<le> 1000 \<and> (\<forall>v \<in> set st'. length v \<le> 520)"
  using EvalScript_shape [OF assms(1)] EvalScript_machine_ok [OF assms] by simp

theorem eval_script_limits_witness:
  "EvalScript reject_env [] (push_data [7]) = Inr [[7]]
    \<and> (\<exists>ops. parse_script (push_data [7]) = Some ops
         \<and> (\<forall>(opcode, vch) \<in> set ops. opcode \<notin> disabled_opcodes \<and> length vch \<le> 520)
         \<and> length (filter (\<lambda>op. fst op > OP_16) ops) \<le> 201
         \<and> nesting_list ops 0 = Some 0)"
proof -
  have "pushable reject_env [7]"
    by (simp add: pushable_def fRequireMinimal_def has_flag_def reject_env_def)
  then have "EvalScript reject_env [] (push_data [7]) = Inr [[7]]"
    using EvalScript_pushes [of reject_env "[[7]]" "[]"] by (simp add: push_data_def)
  moreover have "hash_sizes reject_env" by (simp add: hash_sizes_def reject_env_def)
  ultimately show ?thesis
    using eval_script_limits [of reject_env "[]" "push_data [7]" "[[7]]"] by simp
qed

text \<open>
  C23: on a well-formed stack (number of keys, keys, number of signatures, signatures, dummy)
  \<open>OP_CHECKMULTISIG\<close> consumes its arguments, adds the number of keys to the operation count, and
  pushes whether the signatures can be matched, each to a key that accepts it, with an
  order-preserving choice of keys; its greedy scan misses no such choice.
\<close>

theorem checkmultisig_correct:
  assumes "stack s = serialize (int (length keys)) # keys @ serialize (int (length sigs)) # sigs @ dummy # rest"
    and "length sigs \<le> length keys" "length keys \<le> 20" "nOpCount s + length keys \<le> 201"
    and "\<forall>sig \<in> set sigs. \<forall>key \<in> set keys. check_encodings env sig key = None"
    and "has_flag (flags env) SCRIPT_VERIFY_NULLDUMMY \<longrightarrow> dummy = []"
  shows "op_checkmultisig env OP_CHECKMULTISIG s =
    Inr (s\<lparr>stack := vchBool (list_emb (\<lambda>sig key. checkSig env sig key
             (drop_signatures (codehash s) (stack s) (length keys + 3) (length sigs))) sigs keys) # rest,
           nOpCount := nOpCount s + length keys\<rparr>)"
  by (rule op_checkmultisig_emb [OF assms(1-4)]) (use assms(5,6) in blast)+

theorem checkmultisig_correct_witness:
  "op_checkmultisig reject_env OP_CHECKMULTISIG
     \<lparr>stack = serialize 2 # [[1], [2]] @ serialize 1 # [[3]] @ [] # [[9]], altstack = [], vfExec = [],
      nOpCount = 1, codehash = [OP_CHECKMULTISIG]\<rparr>
   = Inr \<lparr>stack = vchBool False # [[9]], altstack = [], vfExec = [], nOpCount = 3, codehash = [OP_CHECKMULTISIG]\<rparr>"
proof -
  have "check_encodings reject_env sig key = None" for sig key
    by (simp add: check_encodings_def CheckSignatureEncoding_def CheckPubKeyEncoding_def has_flag_def reject_env_def)
  then show ?thesis
    using checkmultisig_correct [of "\<lparr>stack = serialize 2 # [[1], [2]] @ serialize 1 # [[3]] @ [] # [[9]],
        altstack = [], vfExec = [], nOpCount = 1, codehash = [OP_CHECKMULTISIG]\<rparr>" "[[1], [2]]" "[[3]]" "[]" "[[9]]" reject_env]
    by (simp add: list_emb_code reject_env_def)
qed

text \<open>
  C24: an output \<open>[pubkey] OP_CHECKSIG\<close> is spent by any push of a well-encoded signature, whatever
  the signature checker answers: the failed check leaves the empty vector on the stack, which the
  last test of \<open>VerifyScript\<close> takes for true.
\<close>

theorem pay_to_pubkey_unchecked:
  assumes "pushable env sig" "pushable env pk" "check_encodings env sig pk = None"
  shows "VerifyScript env (push_data sig) (push_data pk @ [OP_CHECKSIG]) = SCRIPT_ERR_OK"
  using assms by (rule pay_to_pubkey_verifies)

theorem pay_to_pubkey_unchecked_witness:
  "VerifyScript reject_env (push_data [1, 2]) (push_data (2 # replicate 32 7) @ [OP_CHECKSIG]) = SCRIPT_ERR_OK
    \<and> \<not> checkSig reject_env [1, 2] (2 # replicate 32 7) [OP_CHECKSIG]"
proof
  have "pushable reject_env [1, 2]" "pushable reject_env (2 # replicate 32 7)"
    "check_encodings reject_env [1, 2] (2 # replicate 32 7) = None"
    by (simp_all add: pushable_def fRequireMinimal_def has_flag_def reject_env_def check_encodings_def
        CheckSignatureEncoding_def CheckPubKeyEncoding_def)
  then show "VerifyScript reject_env (push_data [1, 2]) (push_data (2 # replicate 32 7) @ [OP_CHECKSIG])
      = SCRIPT_ERR_OK"
    by (rule pay_to_pubkey_unchecked)
qed (simp add: reject_env_def)

text \<open>
  C25: with the pay-to-script-hash flag, a spend by pushes through \<open>OP_HASH160 [hash] OP_EQUAL\<close>
  gives exactly the result of running the last pushed vector as a script on the stack of the
  other pushes, and the copied stack is never empty; the comparison with the hash in the output
  has no influence, since its negative result counts as true.
\<close>

theorem pay_to_script_hash_correct:
  assumes "has_flag (flags env) SCRIPT_VERIFY_P2SH" "length h = 20"
    and "list_all (pushable env) (redeem # xs)" "length xs < 900"
    and "length (concat (map push_data (xs @ [redeem]))) \<le> 10000"
  shows "VerifyScript env (concat (map push_data (xs @ [redeem]))) (OP_HASH160 # push_data h @ [OP_EQUAL])
      = run_redeem env (rev xs) redeem
    \<and> EvalScript env [] (OP_HASH160 # push_data h @ [OP_EQUAL]) = Inl SCRIPT_ERR_INVALID_STACK_OPERATION"
  using pay_to_script_hash_result [OF assms] EvalScript_p2sh(2) [OF assms(2), of "[]" env] by simp

theorem pay_to_script_hash_correct_witness:
  "VerifyScript reject_env (concat (map push_data [[OP_1]])) (OP_HASH160 # push_data (replicate 20 0) @ [OP_EQUAL])
      = run_redeem reject_env [] [OP_1]
    \<and> hHASH160 reject_env [OP_1] \<noteq> replicate 20 0"
proof -
  have "has_flag (flags reject_env) SCRIPT_VERIFY_P2SH" "list_all (pushable reject_env) [[OP_1]]"
    "length (concat (map push_data ([] @ [[OP_1]]))) \<le> 10000"
    by (simp_all add: has_flag_def reject_env_def pushable_def fRequireMinimal_def push_data_def)
  then show ?thesis
    using pay_to_script_hash_correct [of reject_env "replicate 20 0" "[OP_1]" "[]"]
    by (simp add: reject_env_def)
qed

end
