(* ===== verification/Serialize.thy ===== *)
theory Serialize
  imports Codec Base_Uint "HOL-Library.Monad_Syntax"
begin

text \<open>
  The serialisation of \<open>serialize.h\<close>: fixed-width integers, compact sizes, variable-length
  integers, vectors, strings and pairs, and the serialisation of \<open>uint256.h\<close>. A stream is the list of its
  bytes; a writer returns the bytes it appends, a reader returns the value and the unread
  bytes, or \<open>None\<close> where the code throws \<open>std::ios_base::failure\<close> (the end of the data, a size that is not
  canonical or above \<open>MAX_SIZE\<close>). Every pair of writer and reader is an instance of \<open>prefix_codec\<close>.
\<close>

section \<open>Integers\<close>

text \<open>\<open>WRITEDATA\<close> and \<open>READDATA\<close> of a \<open>k\<close>-byte integer: unsigned as a word, signed as an \<open>int\<close>.\<close>

definition write_word :: "nat \<Rightarrow> 'a::len word \<Rightarrow> bytes" where
  "write_word k w = le_bytes k (unat w)"

definition read_word :: "nat \<Rightarrow> bytes \<Rightarrow> ('a::len word \<times> bytes) option" where
  "read_word k bs = do { (m, bs) \<leftarrow> dec_le k bs; Some (of_nat m, bs) }"

definition write_int :: "nat \<Rightarrow> int \<Rightarrow> bytes" where
  "write_int k i = le_bytes k (nat (i mod 256 ^ k))"

definition read_int :: "nat \<Rightarrow> bytes \<Rightarrow> (int \<times> bytes) option" where
  "read_int k bs = do { (m, bs) \<leftarrow> dec_le k bs; Some (signed_take_bit (8 * k - 1) (int m), bs) }"

definition int_fits :: "nat \<Rightarrow> int \<Rightarrow> bool" where
  "int_fits k i \<longleftrightarrow> - (2 ^ (8 * k - 1)) \<le> i \<and> i < 2 ^ (8 * k - 1)"

lemma pow256: "(256 :: 'a::semiring_1) ^ k = 2 ^ (8 * k)"
  by (simp add: power_mult)

lemma read_word_write [codec_simps]:
  assumes "LENGTH('a) \<le> 8 * k"
  shows "read_word k (write_word k (w :: 'a::len word) @ rest) = Some (w, rest)"
proof -
  have "unat w < 256 ^ k"
    using unsigned_less [of w] assms unfolding pow256
    by (meson less_le_trans one_le_numeral power_increasing)
  then show ?thesis by (simp add: read_word_def write_word_def dec_le_bytes)
qed

lemma read_int_write [codec_simps]:
  assumes "int_fits k i" "0 < k"
  shows "read_int k (write_int k i @ rest) = Some (i, rest)"
proof -
  have "nat (i mod 256 ^ k) < 256 ^ k" by (simp add: nat_less_iff)
  moreover have "signed_take_bit (8 * k - 1) (i mod 256 ^ k) = i"
  proof -
    have e: "8 * k = Suc (8 * k - 1)" using assms(2) by simp
    have "i mod 256 ^ k = take_bit (Suc (8 * k - 1)) i" using e by (simp add: take_bit_eq_mod pow256)
    then have "signed_take_bit (8 * k - 1) (i mod 256 ^ k) = signed_take_bit (8 * k - 1) i"
      by (simp add: signed_take_bit_take_bit)
    also have "\<dots> = i" using assms(1) by (simp add: int_fits_def signed_take_bit_int_eq_self)
    finally show ?thesis .
  qed
  ultimately show ?thesis by (simp add: read_int_def write_int_def dec_le_bytes)
qed

lemma length_write_word [simp]: "length (write_word k w) = k"
  by (simp add: write_word_def)

lemma length_write_int [simp]: "length (write_int k i) = k"
  by (simp add: write_int_def)

lemma write_word_nonempty: "0 < k \<Longrightarrow> write_word k w \<noteq> []"
  by (metis length_write_word less_irrefl list.size(3))

interpretation word4: prefix_codec "write_word 4 :: u32 \<Rightarrow> bytes" "read_word 4" "\<lambda>_. True"
  by standard (simp_all add: codec_simps write_word_nonempty)

section \<open>Compact sizes\<close>

definition MAX_SIZE :: nat where
  "MAX_SIZE = 0x02000000"

definition GetSizeOfCompactSize :: "u64 \<Rightarrow> nat" where
  "GetSizeOfCompactSize nSize =
     (if nSize < 253 then 1 else if nSize \<le> 0xFFFF then 3 else if nSize \<le> 0xFFFFFFFF then 5 else 9)"

definition WriteCompactSize :: "u64 \<Rightarrow> bytes" where
  "WriteCompactSize nSize =
     (if nSize < 253 then write_word 1 (ucast nSize :: byte)
      else if nSize \<le> 0xFFFF then write_word 1 (253 :: byte) @ write_word 2 (ucast nSize :: u16)
      else if nSize \<le> 0xFFFFFFFF then write_word 1 (254 :: byte) @ write_word 4 (ucast nSize :: u32)
      else write_word 1 (255 :: byte) @ write_word 8 nSize)"

definition ReadCompactSize :: "bytes \<Rightarrow> (u64 \<times> bytes) option" where
  "ReadCompactSize bs = do {
     (chSize :: byte, bs) \<leftarrow> read_word 1 bs;
     (nSizeRet, bs) \<leftarrow>
       (if chSize < 253 then Some (ucast chSize, bs)
        else if chSize = 253 then do {
          (xSize :: u16, bs) \<leftarrow> read_word 2 bs;
          let nSizeRet = ucast xSize;
          if nSizeRet < 253 then None else Some (nSizeRet, bs) }
        else if chSize = 254 then do {
          (xSize :: u32, bs) \<leftarrow> read_word 4 bs;
          let nSizeRet = ucast xSize;
          if nSizeRet < 0x10000 then None else Some (nSizeRet, bs) }
        else do {
          (xSize :: u64, bs) \<leftarrow> read_word 8 bs;
          let nSizeRet = xSize;
          if nSizeRet < 0x100000000 then None else Some (nSizeRet, bs) });
     if nSizeRet > of_nat MAX_SIZE then None else Some (nSizeRet, bs) }"


lemma small_word_cases:
  assumes "(n :: u64) < 253"
  shows "ucast (ucast n :: byte) = n" "unat (ucast n :: byte) = unat n" "(ucast n :: byte) < 253"
proof -
  have n: "unat n < 253" using assms by (simp add: word_less_nat_alt)
  show u: "unat (ucast n :: byte) = unat n" using n by (simp add: unsigned_ucast_eq take_bit_eq_mod)
  then show "ucast (ucast n :: byte) = n" by (simp add: word_unat_eq_iff)
  show "(ucast n :: byte) < 253" using n u by (simp add: word_less_nat_alt)
qed

lemma ucast_16_64:
  assumes "(n :: u64) \<le> 0xFFFF"
  shows "ucast (ucast n :: u16) = n"
proof -
  have "unat n < 2 ^ 16" using assms by (simp add: word_le_nat_alt)
  then have "unat (ucast (ucast n :: u16) :: u64) = unat n"
    using unat_ucast_up [of "ucast n :: u16", where 'b = 64] by (simp add: unsigned_ucast_eq take_bit_eq_mod)
  then show ?thesis by (simp add: word_unat_eq_iff)
qed

lemma ucast_32_64:
  assumes "(n :: u64) \<le> 0xFFFFFFFF"
  shows "ucast (ucast n :: u32) = n"
proof -
  have "unat n < 2 ^ 32" using assms by (simp add: word_le_nat_alt)
  then have "unat (ucast (ucast n :: u32) :: u64) = unat n"
    using unat_ucast_32_64 [of "ucast n :: u32"] by (simp add: unat_ucast_64_32)
  then show ?thesis by (simp add: word_unat_eq_iff)
qed

lemma ReadCompactSize_write:
  assumes "n \<le> of_nat MAX_SIZE"
  shows "ReadCompactSize (WriteCompactSize n @ rest) = Some (n, rest)"
proof -
  have m: "\<not> of_nat MAX_SIZE < n" using assms by simp
  consider "n < 253" | "\<not> n < 253" "n \<le> 0xFFFF" | "\<not> n < 253" "\<not> n \<le> 0xFFFF"
    by blast
  then show ?thesis
  proof cases
    case 1
    then show ?thesis
      using m small_word_cases [OF 1] by (simp add: ReadCompactSize_def WriteCompactSize_def codec_simps)
  next
    case 2
    then show ?thesis
      using m ucast_16_64 [OF 2(2)] by (simp add: ReadCompactSize_def WriteCompactSize_def codec_simps)
  next
    case 3
    have "n \<le> 0xFFFFFFFF" using assms by (simp add: MAX_SIZE_def word_le_nat_alt)
    moreover have "\<not> n < 0x10000" using 3(2) by (simp add: word_le_nat_alt word_less_nat_alt)
    ultimately show ?thesis
      using m 3 ucast_32_64 [of n] by (simp add: ReadCompactSize_def WriteCompactSize_def codec_simps)
  qed
qed

lemma WriteCompactSize_nonempty [simp]: "WriteCompactSize m \<noteq> []"
  by (simp add: WriteCompactSize_def write_word_nonempty)

interpretation compact: prefix_codec WriteCompactSize ReadCompactSize "\<lambda>n. n \<le> of_nat MAX_SIZE"
proof
  show "n \<le> of_nat MAX_SIZE \<Longrightarrow> ReadCompactSize (WriteCompactSize n @ rest) = Some (n, rest)" for n rest
    by (rule ReadCompactSize_write)
  show "WriteCompactSize n \<noteq> []" for n by simp
qed

lemma length_WriteCompactSize: "length (WriteCompactSize n) = GetSizeOfCompactSize n"
  by (simp add: WriteCompactSize_def GetSizeOfCompactSize_def)

lemma read_word_SomeD:
  assumes "read_word k bs = Some (w :: 'a::len word, rest)" "8 * k \<le> LENGTH('a)"
  shows "bs = write_word k w @ rest"
proof -
  from assms have l: "k \<le> length bs" and w: "w = of_nat (le_val (take k bs))" and r: "rest = drop k bs"
    by (auto simp: read_word_def dec_le_def split: if_splits)
  have "le_val (take k bs) < 256 ^ k" using le_val_less [of "take k bs"] l by simp
  also have "(256 :: nat) ^ k \<le> 2 ^ LENGTH('a)" using assms(2) by (simp add: pow256)
  finally have "unat w = le_val (take k bs)" by (simp add: w unsigned_of_nat take_bit_nat_eq_self)
  then have "write_word k w = take k bs"
    using le_bytes_le_val [of "take k bs"] l by (simp add: write_word_def)
  then show ?thesis by (simp add: r)
qed

text \<open>The reader accepts exactly what the writer produces: one encoding for each size.\<close>

lemma ReadCompactSize_SomeD:
  assumes "ReadCompactSize bs = Some (n, rest)"
  shows "n \<le> of_nat MAX_SIZE \<and> bs = WriteCompactSize n @ rest"
proof -
  obtain c :: byte and bs1 where c: "read_word 1 bs = Some (c, bs1)"
    using assms by (auto simp: ReadCompactSize_def bind_eq_Some_conv)
  note b = read_word_SomeD [OF c, simplified]
  have le: "n \<le> of_nat MAX_SIZE"
    using assms by (auto simp: ReadCompactSize_def bind_eq_Some_conv split: if_splits)
  consider "c < 253" | "\<not> c < 253" "c = 253" | "\<not> c < 253" "c = 254" | "\<not> c < 253" "c \<noteq> 253" "c \<noteq> 254"
    by blast
  then have "bs = WriteCompactSize n @ rest"
  proof cases
    case 1
    then have "n = ucast c" "rest = bs1"
      using assms c by (auto simp: ReadCompactSize_def split: if_splits)
    moreover have "(ucast c :: u64) < 253" using 1 by (simp add: word_less_nat_alt)
    moreover have "(ucast (ucast c :: u64) :: byte) = c" by (simp add: ucast_up_down)
    ultimately show ?thesis using b by (simp add: WriteCompactSize_def)
  next
    case 2
    then obtain x :: u16 where x: "read_word 2 bs1 = Some (x, rest)" "n = ucast x" "\<not> n < 253"
      using assms c by (auto simp: ReadCompactSize_def bind_eq_Some_conv Let_def split: if_splits)
    have "n \<le> 0xFFFF"
      using unat_ucast_up [of x, where 'b = 64] unat_u16_le [of x] x(2) by (simp add: word_le_nat_alt)
    moreover have "(ucast n :: u16) = x" using x(2) by (simp add: ucast_up_down)
    ultimately show ?thesis
      using b read_word_SomeD [OF x(1), simplified] 2 x(3) by (simp add: WriteCompactSize_def)
  next
    case 3
    then obtain x :: u32 where x: "read_word 4 bs1 = Some (x, rest)" "n = ucast x" "\<not> n < 0x10000"
      using assms c by (auto simp: ReadCompactSize_def bind_eq_Some_conv Let_def split: if_splits)
    have "n \<le> 0xFFFFFFFF" "\<not> n \<le> 0xFFFF" "\<not> n < 253"
      using unat_u32_le [of x] x(2,3) by (simp_all add: word_le_nat_alt word_less_nat_alt)
    moreover have "(ucast n :: u32) = x" using x(2) by (simp add: ucast_up_down)
    ultimately show ?thesis
      using b read_word_SomeD [OF x(1), simplified] 3 by (simp add: WriteCompactSize_def)
  next
    case 4
    then have "\<not> n < 0x100000000"
      using assms c by (auto simp: ReadCompactSize_def bind_eq_Some_conv Let_def split: if_splits)
    with le show ?thesis by (simp add: MAX_SIZE_def word_le_nat_alt word_less_nat_alt)
  qed
  with le show ?thesis by simp
qed


section \<open>Variable-length integers\<close>

lemma word_gt_7F:
  assumes "\<not> (n :: 'a::len word) \<le> 0x7F"
  shows "127 < unat n" "7 < LENGTH('a)"
proof -
  have "(0x7F :: 'a word) = mask 7" by (simp add: mask_eq_exp_minus_1)
  then have m: "unat (0x7F :: 'a word) = mask (min LENGTH('a) 7)" by (metis uint_mask_eq mask_nat_def nat_mask_eq unat_eq_nat_uint)
  have n: "unat (0x7F :: 'a word) < unat n" using assms by (simp add: word_le_nat_alt)
  show L: "7 < LENGTH('a)"
  proof (rule ccontr)
    assume "\<not> 7 < LENGTH('a)"
    then have "unat (0x7F :: 'a word) = 2 ^ LENGTH('a) - 1" using m by (simp add: mask_eq_exp_minus_1 min_def)
    then show False using n unsigned_less [of n, where 'a = nat] by linarith
  qed
  then have "unat (0x7F :: 'a word) = 127" using m by (simp add: mask_eq_exp_minus_1 min_def)
  then show "127 < unat n" using n by simp
qed

lemma unat_varint_next:
  assumes "\<not> (n :: 'a::len word) \<le> 0x7F"
  shows "unat (drop_bit 7 n - 1) = unat n div 128 - 1"
proof -
  have d: "unat (drop_bit 7 n) = unat n div 128" by (simp add: unat_drop_bit_div)
  moreover have "drop_bit 7 n \<noteq> 0"
  proof
    assume "drop_bit 7 n = 0"
    then have "unat n div 128 = 0" using d by simp
    then show False using word_gt_7F(1) [OF assms] by simp
  qed
  ultimately show ?thesis by (simp add: unat_minus_one)
qed

function GetSizeOfVarInt :: "'a::len word \<Rightarrow> nat" where
  "GetSizeOfVarInt n = (if n \<le> 0x7F then 1 else 1 + GetSizeOfVarInt (drop_bit 7 n - 1))"
  by pat_completeness auto
termination
  by (relation "measure unat") (auto simp: unat_varint_next dest: word_gt_7F(1))

declare GetSizeOfVarInt.simps [simp del]

text \<open>\<open>tmp\<close> is filled from the last digit to the first; \<open>first\<close> is \<open>len = 0\<close>.\<close>

function varint_loop :: "bool \<Rightarrow> 'a::len word \<Rightarrow> bytes" where
  "varint_loop first n =
     (let d = (ucast (n AND 0x7F) :: byte) OR (if first then 0 else 0x80)
      in if n \<le> 0x7F then [d] else d # varint_loop False (drop_bit 7 n - 1))"
  by pat_completeness auto
termination
  by (relation "measure (unat \<circ> snd)") (auto simp: unat_varint_next dest: word_gt_7F(1))

declare varint_loop.simps [simp del]

definition WriteVarInt :: "'a::len word \<Rightarrow> bytes" where
  "WriteVarInt n = rev (varint_loop True n)"

fun read_varint_loop :: "'a::len word \<Rightarrow> bytes \<Rightarrow> ('a word \<times> bytes) option" where
  "read_varint_loop n [] = None"
| "read_varint_loop n (chData # bs) =
     (let n = push_bit 7 n OR ucast (chData AND 0x7F)
      in if chData AND 0x80 \<noteq> 0 then read_varint_loop (n + 1) bs else Some (n, bs))"

definition ReadVarInt :: "bytes \<Rightarrow> ('a::len word \<times> bytes) option" where
  "ReadVarInt bs = read_varint_loop 0 bs"

lemma length_varint_loop: "length (varint_loop first n) = GetSizeOfVarInt n"
proof (induction first n rule: varint_loop.induct)
  case (1 first n)
  show ?case
  proof (cases "n \<le> 0x7F")
    case True
    then show ?thesis by (subst varint_loop.simps, subst GetSizeOfVarInt.simps) (simp add: Let_def)
  next
    case False
    then show ?thesis using 1 [OF refl False]
      by (subst varint_loop.simps, subst GetSizeOfVarInt.simps) (simp add: Let_def)
  qed
qed

lemma mask_7F: "(0x7F :: 'a::len word) = mask 7" by (simp add: mask_eq_exp_minus_1)
lemma bit_x80: "(0x80 :: byte) = push_bit 7 1" by simp
lemma digit_bits:
  fixes n :: "'a::len word"
  shows "(ucast (n AND 0x7F) :: byte) AND 0x7F = ucast (n AND 0x7F)"
    and "((ucast (n AND 0x7F) :: byte) OR 0x80) AND 0x7F = ucast (n AND 0x7F)"
    and "(ucast (n AND 0x7F) :: byte) AND 0x80 = 0"
    and "((ucast (n AND 0x7F) :: byte) OR 0x80) AND 0x80 \<noteq> 0"
    and "7 < LENGTH('a) \<Longrightarrow> ucast (ucast (n AND 0x7F) :: byte) = n AND 0x7F"
    and "push_bit 7 (drop_bit 7 n) OR (n AND 0x7F) = n"
proof -
  have e: "n AND 0x7F = take_bit 7 n" by (simp only: mask_7F take_bit_eq_mask)
  have a: "x AND 0x7F = take_bit 7 x" for x :: byte by (simp only: mask_7F take_bit_eq_mask)
  show "(ucast (n AND 0x7F) :: byte) AND 0x7F = ucast (n AND 0x7F)"
    unfolding e a by (rule bit_word_eqI) (auto simp: bit_take_bit_iff bit_ucast_iff)
  show "((ucast (n AND 0x7F) :: byte) OR 0x80) AND 0x7F = ucast (n AND 0x7F)"
    unfolding e a bit_x80 by (rule bit_word_eqI) (auto simp: bit_take_bit_iff bit_ucast_iff bit_or_iff bit_push_bit_iff simp del: push_bit_of_1)
  show "(ucast (n AND 0x7F) :: byte) AND 0x80 = 0"
    unfolding e a bit_x80 by (rule bit_word_eqI) (auto simp: bit_take_bit_iff bit_ucast_iff bit_and_iff bit_push_bit_iff bit_1_iff simp del: push_bit_of_1)
  have "bit (((ucast (n AND 0x7F) :: byte) OR 0x80) AND 0x80) 7"
    unfolding bit_x80 by (simp add: bit_and_iff bit_or_iff bit_push_bit_iff del: push_bit_of_1)
  then show "((ucast (n AND 0x7F) :: byte) OR 0x80) AND 0x80 \<noteq> 0" by auto
  show "7 < LENGTH('a) \<Longrightarrow> ucast (ucast (n AND 0x7F) :: byte) = n AND 0x7F"
    unfolding e by (rule bit_word_eqI) (auto simp: bit_take_bit_iff bit_ucast_iff)
  show "push_bit 7 (drop_bit 7 n) OR (n AND 0x7F) = n"
    unfolding e by (rule bit_word_eqI) (auto simp: bit_take_bit_iff bit_or_iff bit_push_bit_iff bit_drop_bit_eq)
qed
lemma low_bits_7F:
  assumes "(n :: 'a::len word) \<le> 0x7F" "7 < LENGTH('a)"
  shows "n AND 0x7F = n"
proof -
  have "unat (0x7F :: 'a word) = 127"
  proof -
    have "(127 :: nat) < 2 ^ 8" by simp
    also have "(2 :: nat) ^ 8 \<le> 2 ^ LENGTH('a)" using assms(2) by (intro power_increasing) simp_all
    finally show ?thesis by (simp add: take_bit_nat_eq_self)
  qed
  then have "unat n < 2 ^ 7" using assms(1) by (simp add: word_le_nat_alt)
  then have "unat (take_bit 7 n) = unat n" by (simp add: unsigned_take_bit_eq take_bit_nat_eq_self)
  then show ?thesis by (simp add: mask_7F word_unat_eq_iff flip: take_bit_eq_mask)
qed

lemma varint_loop_digit:
  assumes "\<not> n \<le> 0x7F"
  shows "varint_loop first n = ((ucast (n AND 0x7F) :: byte) OR (if first then 0 else 0x80)) # varint_loop False (drop_bit 7 n - 1)"
  using assms by (subst varint_loop.simps) (simp add: Let_def)

lemma varint_loop_last:
  assumes "n \<le> 0x7F"
  shows "varint_loop first n = [(ucast (n AND 0x7F) :: byte) OR (if first then 0 else 0x80)]"
  using assms by (subst varint_loop.simps) (simp add: Let_def)

lemma read_varint_digits:
  "7 < LENGTH('a) \<Longrightarrow>
    read_varint_loop 0 (rev (varint_loop False (n :: 'a::len word)) @ rest) = read_varint_loop (n + 1) rest"
proof (induction "False" n arbitrary: rest rule: varint_loop.induct)
  case (1 n)
  show ?case
  proof (cases "n \<le> 0x7F")
    case True
    then show ?thesis using 1(2) low_bits_7F [OF True] digit_bits [of n]
      by (simp add: varint_loop_last Let_def)
  next
    case False
    then show ?thesis using 1(1) [OF refl False 1(2)] 1(2) digit_bits [of n]
      by (simp add: varint_loop_digit Let_def)
  qed
qed

lemma ReadVarInt_write:
  assumes "7 < LENGTH('a)"
  shows "ReadVarInt (WriteVarInt (n :: 'a::len word) @ rest) = Some (n, rest)"
proof (cases "n \<le> 0x7F")
  case True
  then show ?thesis using assms low_bits_7F [OF True] digit_bits [of n]
    by (simp add: ReadVarInt_def WriteVarInt_def varint_loop_last Let_def)
next
  case False
  then show ?thesis using assms digit_bits [of n]
    by (simp add: ReadVarInt_def WriteVarInt_def varint_loop_digit read_varint_digits Let_def)
qed

interpretation varint32: prefix_codec "WriteVarInt :: u32 \<Rightarrow> bytes" ReadVarInt "\<lambda>_. True"
  by standard (simp_all add: ReadVarInt_write, subst WriteVarInt_def, subst varint_loop.simps, simp add: Let_def)

text \<open>\<open>VARINT\<close> of an \<open>int\<close>: a negative number counts as one byte; a number is read modulo \<open>2^32\<close>.\<close>

definition write_varint_int :: "int \<Rightarrow> bytes" where
  "write_varint_int i = (if i \<le> 0x7F then [of_int (i AND 0x7F)] else WriteVarInt (of_int i :: u32))"

definition read_varint_int :: "bytes \<Rightarrow> (int \<times> bytes) option" where
  "read_varint_int bs = do { (w :: u32, bs) \<leftarrow> ReadVarInt bs; Some (sint w, bs) }"

lemma write_varint_nonneg:
  assumes "0 \<le> i" "i < 2 ^ 31"
  shows "write_varint_int i = WriteVarInt (of_int i :: u32)"
proof (cases "i \<le> 0x7F")
  case True
  have u: "uint (of_int i :: u32) = i" using assms by (simp add: unsigned_of_int take_bit_int_eq_self)
  then have le: "(of_int i :: u32) \<le> 0x7F" using True by (simp add: word_le_def)
  have "(of_int i :: u32) AND 0x7F = of_int i" by (rule low_bits_7F [OF le]) simp
  moreover have "i AND 0x7F = i"
    using True assms(1) take_bit_eq_mask [of 7 i] by (simp add: mask_eq_exp_minus_1 take_bit_int_eq_self)
  moreover have "(ucast (of_int i :: u32) :: byte) = of_int i"
  proof (rule word_uint_eqI)
    have "uint (ucast (of_int i :: u32) :: byte) = take_bit 8 (uint (of_int i :: u32))" by (simp only: unsigned_ucast_eq) simp
    then show "uint (ucast (of_int i :: u32) :: byte) = uint (of_int i :: byte)" using u by (simp only: uint_word_of_int_eq) simp
  qed
  ultimately show ?thesis
    using True le by (simp add: write_varint_int_def WriteVarInt_def varint_loop_last)
qed (simp add: write_varint_int_def)

lemma read_varint_int_write [codec_simps]:
  assumes "0 \<le> i" "i < 2 ^ 31"
  shows "read_varint_int (write_varint_int i @ rest) = Some (i, rest)"
proof -
  have "sint (of_int i :: u32) = i"
    using assms by (simp add: signed_of_int signed_take_bit_int_eq_self)
  then show ?thesis
    using assms by (simp add: read_varint_int_def write_varint_nonneg ReadVarInt_write)
qed

lemma ReadVarInt_u32 [codec_simps]: "ReadVarInt (WriteVarInt (w :: u32) @ rest) = Some (w, rest)"
  by (rule ReadVarInt_write) simp


section \<open>Vectors, strings, pairs\<close>

text \<open>\<open>is.read\<close> of \<open>k\<close> bytes.\<close>

definition read_raw :: "nat \<Rightarrow> bytes \<Rightarrow> (bytes \<times> bytes) option" where
  "read_raw k bs = (if length bs < k then None else Some (take k bs, drop k bs))"

definition write_bytes :: "bytes \<Rightarrow> bytes" where
  "write_bytes v = WriteCompactSize (of_nat (length v)) @ v"

text \<open>A byte vector is read in blocks of at most five million bytes.\<close>

function read_blocks :: "nat \<Rightarrow> bytes \<Rightarrow> (bytes \<times> bytes) option" where
  "read_blocks nSize bs =
     (if nSize = 0 then Some ([], bs)
      else let blk = min nSize (1 + 4999999) in do {
        (v, bs) \<leftarrow> read_raw blk bs;
        (w, bs) \<leftarrow> read_blocks (nSize - blk) bs;
        Some (v @ w, bs) })"
  by pat_completeness auto
termination
  by (relation "measure fst") auto

declare read_blocks.simps [simp del]

definition read_bytes :: "bytes \<Rightarrow> (bytes \<times> bytes) option" where
  "read_bytes bs = do { (nSize, bs) \<leftarrow> ReadCompactSize bs; read_blocks (unat nSize) bs }"

definition write_vector :: "('a \<Rightarrow> bytes) \<Rightarrow> 'a list \<Rightarrow> bytes" where
  "write_vector enc v = WriteCompactSize (of_nat (length v)) @ concat (map enc v)"

definition read_vector :: "(bytes \<Rightarrow> ('a \<times> bytes) option) \<Rightarrow> bytes \<Rightarrow> ('a list \<times> bytes) option" where
  "read_vector dec bs = do { (nSize, bs) \<leftarrow> ReadCompactSize bs; read_n dec (unat nSize) bs }"

definition bytes_size :: "bytes \<Rightarrow> nat" where
  "bytes_size v = GetSizeOfCompactSize (of_nat (length v)) + length v"

definition vector_size :: "('a \<Rightarrow> nat) \<Rightarrow> 'a list \<Rightarrow> nat" where
  "vector_size size_of v = GetSizeOfCompactSize (of_nat (length v)) + sum_list (map size_of v)"

definition write_limited_string :: "bytes \<Rightarrow> bytes" where
  "write_limited_string str = WriteCompactSize (of_nat (length str)) @ str"

definition read_string :: "bytes \<Rightarrow> (bytes \<times> bytes) option" where
  "read_string bs = do { (nSize, bs) \<leftarrow> ReadCompactSize bs; read_raw (unat nSize) bs }"

definition read_limited_string :: "nat \<Rightarrow> bytes \<Rightarrow> (bytes \<times> bytes) option" where
  "read_limited_string Limit bs = do {
     (nSize, bs) \<leftarrow> ReadCompactSize bs;
     if unat nSize > Limit then None else read_raw (unat nSize) bs }"

definition write_pair :: "('a \<Rightarrow> bytes) \<Rightarrow> ('b \<Rightarrow> bytes) \<Rightarrow> 'a \<times> 'b \<Rightarrow> bytes" where
  "write_pair enc1 enc2 item = enc1 (fst item) @ enc2 (snd item)"

definition read_pair ::
  "(bytes \<Rightarrow> ('a \<times> bytes) option) \<Rightarrow> (bytes \<Rightarrow> ('b \<times> bytes) option) \<Rightarrow> bytes \<Rightarrow> (('a \<times> 'b) \<times> bytes) option" where
  "read_pair dec1 dec2 bs = do { (x, bs) \<leftarrow> dec1 bs; (y, bs) \<leftarrow> dec2 bs; Some ((x, y), bs) }"

lemma read_blocks_raw: "read_blocks nSize bs = read_raw nSize bs"
proof (induction nSize bs rule: read_blocks.induct)
  case (1 nSize bs)
  show ?case
  proof (cases "nSize = 0")
    case True
    then show ?thesis by (simp add: read_blocks.simps read_raw_def)
  next
    case False
    let ?blk = "min nSize 5000000"
    show ?thesis
    proof (cases "length bs < ?blk")
      case True
      then show ?thesis using False by (subst read_blocks.simps) (simp add: read_raw_def)
    next
      case b: False
      then have "read_blocks (nSize - ?blk) (drop ?blk bs) = read_raw (nSize - ?blk) (drop ?blk bs)"
        using 1 [OF False, of ?blk "(take ?blk bs, drop ?blk bs)"] by (simp add: read_raw_def)
      moreover have "take ?blk bs @ take (nSize - ?blk) (drop ?blk bs) = take nSize bs"
        using take_add [of ?blk "nSize - ?blk" bs] by simp
      moreover have "drop (nSize - ?blk) (drop ?blk bs) = drop nSize bs" by simp
      moreover have "length (drop ?blk bs) < nSize - ?blk \<longleftrightarrow> length bs < nSize" using b by auto
      moreover have "read_raw ?blk bs = Some (take ?blk bs, drop ?blk bs)" using b by (simp add: read_raw_def)
      ultimately show ?thesis using False
        by (subst read_blocks.simps) (simp add: Let_def read_raw_def [of nSize] read_raw_def [of "nSize - ?blk"] del: drop_drop)
    qed
  qed
qed

lemma size_fits [simp]: "k \<le> MAX_SIZE \<Longrightarrow> unat (of_nat k :: u64) = k"
  by (simp add: MAX_SIZE_def unsigned_of_nat take_bit_nat_eq_self)

lemma ReadCompactSize_of_nat [codec_simps]:
  assumes "k \<le> MAX_SIZE"
  shows "ReadCompactSize (WriteCompactSize (of_nat k) @ rest) = Some (of_nat k, rest)"
  using assms size_fits [OF assms] by (intro ReadCompactSize_write) (simp add: word_le_nat_alt)

lemma read_bytes_write [codec_simps]:
  "length v \<le> MAX_SIZE \<Longrightarrow> read_bytes (write_bytes v @ rest) = Some (v, rest)"
  by (simp add: read_bytes_def write_bytes_def codec_simps read_blocks_raw read_raw_def)

lemma write_bytes_nonempty [simp]: "write_bytes v \<noteq> []"
  by (simp add: write_bytes_def)

interpretation var_bytes: prefix_codec write_bytes read_bytes "\<lambda>v. length v \<le> MAX_SIZE"
  by standard (simp_all add: codec_simps write_bytes_nonempty)

lemma length_write_bytes: "length (write_bytes v) = bytes_size v"
  by (simp add: write_bytes_def bytes_size_def length_WriteCompactSize)

lemma length_write_vector:
  "(\<And>x. x \<in> set v \<Longrightarrow> length (enc x) = size_of x) \<Longrightarrow> length (write_vector enc v) = vector_size size_of v"
  by (simp add: write_vector_def vector_size_def length_WriteCompactSize length_concat comp_def cong: map_cong)

context prefix_codec
begin

lemma read_write_vector:
  assumes "length v \<le> MAX_SIZE" "list_all ok v"
  shows "read_vector dec (write_vector enc v @ rest) = Some (v, rest)"
  using assms by (simp add: read_vector_def write_vector_def codec_simps read_n_enc)

lemma vector_codec: "prefix_codec (write_vector enc) (read_vector dec) (\<lambda>v. length v \<le> MAX_SIZE \<and> list_all ok v)"
proof
  show "length v \<le> MAX_SIZE \<and> list_all ok v \<Longrightarrow> read_vector dec (write_vector enc v @ rest) = Some (v, rest)" for v rest
    by (simp add: read_write_vector)
  show "length v \<le> MAX_SIZE \<and> list_all ok v \<Longrightarrow> write_vector enc v \<noteq> []" for v
    by (simp add: write_vector_def)
qed

lemma pair_codec:
  assumes "prefix_codec enc2 dec2 ok2"
  shows "prefix_codec (write_pair enc enc2) (read_pair dec dec2) (\<lambda>p. ok (fst p) \<and> ok2 (snd p))"
proof -
  have d: "ok2 y \<Longrightarrow> dec2 (enc2 y @ rest) = Some (y, rest)" for y rest
    using assms by (rule prefix_codec.dec_enc)
  show ?thesis
    by standard (auto simp: write_pair_def read_pair_def dec_enc d enc_nonempty)
qed

end

section \<open>Big integers\<close>

definition write_limbs :: "limbs \<Rightarrow> bytes" where
  "write_limbs pn = concat (map (write_word 4) pn)"

definition read_limbs :: "nat \<Rightarrow> bytes \<Rightarrow> (limbs \<times> bytes) option" where
  "read_limbs width bs = read_n (read_word 4) width bs"

lemma read_limbs_write [codec_simps]:
  "length pn = width \<Longrightarrow> read_limbs width (write_limbs pn @ rest) = Some (pn, rest)"
  using word4.read_n_enc [of pn rest] by (auto simp: read_limbs_def write_limbs_def list_all_iff)

lemma length_write_limbs [simp]: "length (write_limbs pn) = 4 * length pn"
  by (induction pn) (simp_all add: write_limbs_def)

interpretation limbs8: prefix_codec write_limbs "read_limbs 8" "\<lambda>pn. length pn = 8"
  by standard (simp_all add: codec_simps flip: length_0_conv)

interpretation limbs8s: prefix_codec "write_vector write_limbs" "read_vector (read_limbs 8)"
  "\<lambda>v. length v \<le> MAX_SIZE \<and> list_all (\<lambda>pn. length pn = 8) v"
  by (rule limbs8.vector_codec)

section \<open>Properties\<close>

text \<open>
  a compact size is read back as the number that was written, and the reader accepts nothing
  but the canonical encodings of the sizes up to \<open>MAX_SIZE\<close>: a size has one encoding.
\<close>

lemma compact_size_canonical:
  "ReadCompactSize bs = Some (m, rest) \<longleftrightarrow> m \<le> of_nat MAX_SIZE \<and> bs = WriteCompactSize m @ rest"
  using ReadCompactSize_SomeD ReadCompactSize_write by auto

text \<open>
  a variable-length integer of any unsigned type of at least eight bits is read back as the number
  that was written and takes the announced size, and the encodings of different numbers differ, whatever
  follows them.
\<close>

lemma varint_round_trip:
  assumes "7 < LENGTH('a)"
  shows "ReadVarInt (WriteVarInt (m :: 'a::len word) @ rest) = Some (m, rest)
    \<and> length (WriteVarInt m) = GetSizeOfVarInt m
    \<and> (WriteVarInt m @ rest = WriteVarInt m' @ rest' \<longleftrightarrow> m = m' \<and> rest = rest')"
proof -
  have "WriteVarInt m @ rest = WriteVarInt m' @ rest' \<Longrightarrow> Some (m, rest) = Some (m', rest')"
    using ReadVarInt_write [OF assms] by metis
  then show ?thesis
    using ReadVarInt_write [OF assms] by (auto simp: WriteVarInt_def length_varint_loop)
qed

end
