(* ===== verification/Pub_Key.thy ===== *)
theory Pub_Key
  imports Serialize
begin

text \<open>
  \<open>CPubKey\<close> of \<open>pubkey.h\<close>: the length announced by the first byte, setting and comparing keys,
  and their serialisation. A key image is a \<open>CPubKey\<close> too. Operations of secp256k1 are not modelled.
\<close>

section \<open>Public keys\<close>

text \<open>The array \<open>vch\<close> of a \<open>CPubKey\<close>, cut to its used length; an invalid key starts with \<open>0xFF\<close>.\<close>

type_synonym CPubKey = bytes

definition GetLen :: "byte \<Rightarrow> nat" where
  "GetLen chHeader = (if chHeader = 2 \<or> chHeader = 3 then 33
     else if chHeader = 4 \<or> chHeader = 6 \<or> chHeader = 7 then 65 else 0)"

definition InvalidPubKey :: CPubKey where
  "InvalidPubKey = [0xFF]"

definition PubKeySet :: "bytes \<Rightarrow> CPubKey" where
  "PubKeySet b = (let len = (if b = [] then 0 else GetLen (hd b)) in
     if len \<noteq> 0 \<and> len = length b then b else InvalidPubKey)"

definition PubKeySize :: "CPubKey \<Rightarrow> nat" where
  "PubKeySize pk = GetLen (hd pk)"

definition PubKeyIsValid :: "CPubKey \<Rightarrow> bool" where
  "PubKeyIsValid pk \<longleftrightarrow> PubKeySize pk > 0"

text \<open>\<open>ToByteVector\<close> of a key: the bytes from \<open>begin()\<close> to \<open>end()\<close>.\<close>

definition KeyBytes :: "CPubKey \<Rightarrow> bytes" where
  "KeyBytes pk = take (PubKeySize pk) pk"

text \<open>A key of the length its first byte announces.\<close>

definition valid_key :: "CPubKey \<Rightarrow> bool" where
  "valid_key pk \<longleftrightarrow> pk \<noteq> [] \<and> GetLen (hd pk) = length pk"

lemma valid_key_facts:
  assumes "valid_key pk"
  shows "33 \<le> length pk" "length pk \<le> 65" "PubKeySet pk = pk" "PubKeyIsValid pk" "KeyBytes pk = pk"
  using assms
  by (auto simp: KeyBytes_def valid_key_def GetLen_def PubKeySet_def PubKeyIsValid_def PubKeySize_def split: if_splits)

section \<open>Comparison\<close>

definition PubKeyEq :: "CPubKey \<Rightarrow> CPubKey \<Rightarrow> bool" where
  "PubKeyEq a b \<longleftrightarrow> hd a = hd b \<and> take (PubKeySize a) a = take (PubKeySize a) b"

definition PubKeyIsCompressed :: "CPubKey \<Rightarrow> bool" where
  "PubKeyIsCompressed pk \<longleftrightarrow> PubKeySize pk = 33"

section \<open>Serialisation\<close>

definition pubkey_size :: "CPubKey \<Rightarrow> nat" where
  "pubkey_size pk = PubKeySize pk + 1"

definition write_CPubKey :: "CPubKey \<Rightarrow> bytes" where
  "write_CPubKey pk = (let len = PubKeySize pk in WriteCompactSize (of_nat len) @ take len pk)"

text \<open>
  Reading into a new key, whose array starts as \<open>InvalidPubKey\<close>: a length of at most 65 overwrites that
  many bytes of the array whatever the first of them announces, a longer one is skipped.
\<close>

definition read_CPubKey :: "bytes \<Rightarrow> (CPubKey \<times> bytes) option" where
  "read_CPubKey bs = do {
     (len, bs) \<leftarrow> ReadCompactSize bs;
     (vch, bs) \<leftarrow> read_raw (unat len) bs;
     Some (if len \<le> 65 then vch @ drop (length vch) InvalidPubKey else InvalidPubKey, bs) }"

text \<open>A key that the code can have made from bytes: valid, or the invalid key.\<close>

definition made_key :: "CPubKey \<Rightarrow> bool" where
  "made_key pk \<longleftrightarrow> valid_key pk \<or> pk = InvalidPubKey"

lemma PubKeySet_made: "made_key (PubKeySet b)"
  by (simp add: made_key_def valid_key_def PubKeySet_def Let_def)

lemma read_CPubKey_write [codec_simps]:
  assumes "made_key pk"
  shows "read_CPubKey (write_CPubKey pk @ rest) = Some (pk, rest)"
  using assms unfolding made_key_def
proof
  assume v: "valid_key pk"
  then have "PubKeySize pk = length pk" "length pk \<le> MAX_SIZE" "length pk \<le> 65"  "drop (length pk) InvalidPubKey = []"
    using valid_key_facts [OF v] by (auto simp: valid_key_def PubKeySize_def MAX_SIZE_def InvalidPubKey_def)
  then show ?thesis
    using size_fits [of "length pk"]
    by (simp add: read_CPubKey_def write_CPubKey_def codec_simps read_raw_def word_le_nat_alt)
next
  assume "pk = InvalidPubKey"
  then show ?thesis
    using ReadCompactSize_of_nat [of 0 rest]
    by (simp add: read_CPubKey_def write_CPubKey_def codec_simps read_raw_def InvalidPubKey_def PubKeySize_def GetLen_def MAX_SIZE_def)
qed

lemma write_CPubKey_nonempty: "write_CPubKey pk \<noteq> []"
  by (simp add: write_CPubKey_def Let_def)

interpretation pub_key: prefix_codec write_CPubKey read_CPubKey made_key
  by standard (simp_all add: codec_simps write_CPubKey_nonempty)

text \<open>
  The length on the wire is not compared with the length the first byte announces: the byte \<open>2\<close> alone is
  read as a key of 33 bytes, of which 32 were never written.
\<close>

lemma short_key_accepted: "read_CPubKey [1, 2] = Some ([2], []) \<and> PubKeySize [2] = 33"
  by (simp add: read_CPubKey_def ReadCompactSize_def read_word_def dec_le_def read_raw_def PubKeySize_def GetLen_def
      InvalidPubKey_def MAX_SIZE_def)

end
