(* ===== verification/Script_Standard.thy ===== *)
theory Script_Standard
  imports Script_Code Pub_Key
begin

text \<open>
  \<open>script/standard.h\<close> and \<open>script/standard.cpp\<close>: recognising the standard output forms
  (\<open>Solver\<close>), the destinations they pay to, and the scripts that pay to a destination. A \<open>uint160\<close> is its 20 bytes. The hash of a public key and the
  data-carrier settings of the node are arguments.
\<close>

section \<open>Templates\<close>

datatype txnouttype = TX_NONSTANDARD | TX_PUBKEY | TX_PUBKEYHASH | TX_SCRIPTHASH | TX_MULTISIG | TX_NULL_DATA

fun GetTxnOutputType :: "txnouttype \<Rightarrow> string" where
  "GetTxnOutputType TX_NONSTANDARD = ''nonstandard''"
| "GetTxnOutputType TX_PUBKEY = ''pubkey''"
| "GetTxnOutputType TX_PUBKEYHASH = ''pubkeyhash''"
| "GetTxnOutputType TX_SCRIPTHASH = ''scripthash''"
| "GetTxnOutputType TX_MULTISIG = ''multisig''"
| "GetTxnOutputType TX_NULL_DATA = ''nulldata''"

definition mTemplates :: "(txnouttype \<times> script) list" where
  "mTemplates =
    [(TX_PUBKEY, [OP_PUBKEY, OP_CHECKSIG]),
     (TX_PUBKEYHASH, [OP_DUP, OP_HASH160, OP_PUBKEYHASH, OP_EQUALVERIFY, OP_CHECKSIG]),
     (TX_MULTISIG, [OP_SMALLINTEGER, OP_PUBKEYS, OP_SMALLINTEGER, OP_CHECKMULTISIG])]"

function pubkeys_loop :: "opcodetype \<Rightarrow> bytes \<Rightarrow> bytes \<Rightarrow> bytes list \<Rightarrow> opcodetype \<times> bytes \<times> bytes \<times> bytes list" where
  "pubkeys_loop opcode1 vch1 pc1 sols =
     (if 33 \<le> length vch1 \<and> length vch1 \<le> 65
      then case GetOp2 pc1 of (ok, opcode, vch, pc) \<Rightarrow>
        if \<not> ok then (opcode, vch, pc, sols @ [vch1]) else pubkeys_loop opcode vch pc (sols @ [vch1])
      else (opcode1, vch1, pc1, sols))"
  by pat_completeness auto
termination
  by (relation "measure (\<lambda>(o1, v1, pc, s). length pc)") (auto intro: GetOp2_shorter GetOp2_ok_nonempty)

declare pubkeys_loop.simps [simp del]

definition match_op :: "opcodetype \<Rightarrow> bytes \<Rightarrow> opcodetype \<Rightarrow> bytes \<Rightarrow> bytes list \<Rightarrow> bytes list option" where
  "match_op opcode1 vch1 opcode2 vch2 sols =
     (if opcode2 = OP_PUBKEY then
        (if length vch1 < 33 \<or> length vch1 > 65 then None else Some (sols @ [vch1]))
      else if opcode2 = OP_PUBKEYHASH then
        (if length vch1 \<noteq> 20 then None else Some (sols @ [vch1]))
      else if opcode2 = OP_SMALLINTEGER then
        (if opcode1 = OP_0 \<or> opcode1 \<ge> OP_1 \<and> opcode1 \<le> OP_16
         then Some (sols @ [[of_int (DecodeOP_N opcode1)]]) else None)
      else if opcode1 \<noteq> opcode2 \<or> vch1 \<noteq> vch2 then None
      else Some sols)"

text \<open>One template: \<open>None\<close> when the comparison breaks off, the solutions when it reaches both ends.\<close>

lemma GetOp2_ok_shorter: "(True, opcode, vch, pc') = GetOp2 pc \<Longrightarrow> length pc' < length pc"
  using GetOp2_shorter [of True opcode vch pc' pc] by (cases pc) auto

function match_loop :: "bytes \<Rightarrow> bytes \<Rightarrow> bytes list \<Rightarrow> bytes list option" where
  "match_loop pc1 pc2 sols =
     (if pc1 = [] \<and> pc2 = [] then Some sols
      else case GetOp2 pc1 of (ok1, opcode1, vch1, pc1') \<Rightarrow>
        if \<not> ok1 then None
        else case GetOp2 pc2 of (ok2, opcode2, vch2, pc2') \<Rightarrow>
          if \<not> ok2 then None
          else if opcode2 = OP_PUBKEYS then
            (case pubkeys_loop opcode1 vch1 pc1' sols of (opcode1, vch1, pc1'', sols) \<Rightarrow>
              case GetOp2 pc2' of (ok2, opcode2, vch2, pc2'') \<Rightarrow>
                if \<not> ok2 then None
                else case match_op opcode1 vch1 opcode2 vch2 sols of
                  None \<Rightarrow> None | Some sols \<Rightarrow> match_loop pc1'' pc2'' sols)
          else case match_op opcode1 vch1 opcode2 vch2 sols of
            None \<Rightarrow> None | Some sols \<Rightarrow> match_loop pc1' pc2' sols)"
  by pat_completeness auto
termination
  by (relation "measure (\<lambda>(pc1, pc2, sols). length pc2)") (auto dest!: GetOp2_ok_shorter)

declare match_loop.simps [simp del]

fun scan_templates :: "script \<Rightarrow> (txnouttype \<times> script) list \<Rightarrow> bool \<times> txnouttype \<times> bytes list" where
  "scan_templates script1 [] = (False, TX_NONSTANDARD, [])"
| "scan_templates script1 ((t, script2) # ts) =
     (case match_loop script1 script2 [] of
        None \<Rightarrow> scan_templates script1 ts
      | Some sols \<Rightarrow>
          if t = TX_MULTISIG then
            (let m = hd (hd sols); n = hd (last sols) in
             if m < 1 \<or> n < 1 \<or> m > n \<or> length sols - 2 \<noteq> unat n then (False, t, sols) else (True, t, sols))
          else (True, t, sols))"

definition Solver :: "script \<Rightarrow> bool \<times> txnouttype \<times> bytes list" where
  "Solver scriptPubKey =
     (if IsPayToScriptHash scriptPubKey then (True, TX_SCRIPTHASH, [take 20 (drop 2 scriptPubKey)])
      else if length scriptPubKey \<ge> 1 \<and> scriptPubKey ! 0 = OP_RETURN \<and> IsPushOnly (drop 1 scriptPubKey)
      then (True, TX_NULL_DATA, [])
      else scan_templates scriptPubKey mTemplates)"

definition ScriptSigArgsExpected :: "txnouttype \<Rightarrow> bytes list \<Rightarrow> int" where
  "ScriptSigArgsExpected t vSolutions = (case t of
     TX_NONSTANDARD \<Rightarrow> 1 | TX_NULL_DATA \<Rightarrow> 1 | TX_PUBKEY \<Rightarrow> 1
   | TX_PUBKEYHASH \<Rightarrow> 2
   | TX_MULTISIG \<Rightarrow> if length vSolutions < 1 \<or> length (vSolutions ! 0) < 1 then - 1
                    else uint (vSolutions ! 0 ! 0) + 1
   | TX_SCRIPTHASH \<Rightarrow> 1)"

definition IsStandard :: "bool \<Rightarrow> nat \<Rightarrow> script \<Rightarrow> bool \<times> txnouttype" where
  "IsStandard datacarrier nMaxDatacarrierBytes scriptPubKey =
     (case Solver scriptPubKey of (ok, whichType, vSolutions) \<Rightarrow>
        if \<not> ok then (False, whichType)
        else if whichType = TX_MULTISIG then
          (let m = hd (hd vSolutions); n = hd (last vSolutions) in
           if n < 1 \<or> n > 3 then (False, whichType)
           else if m < 1 \<or> m > n then (False, whichType)
           else (True, whichType))
        else if whichType = TX_NULL_DATA \<and> (\<not> datacarrier \<or> length scriptPubKey > nMaxDatacarrierBytes)
        then (False, whichType)
        else (whichType \<noteq> TX_NONSTANDARD, whichType))"

section \<open>Destinations\<close>

datatype CTxDestination = CNoDestination | CKeyID bytes | CScriptID bytes

definition ExtractPubKey :: "script \<Rightarrow> CPubKey option" where
  "ExtractPubKey scriptPubKey = (case Solver scriptPubKey of (ok, whichType, vSolutions) \<Rightarrow>
     if \<not> ok then None
     else if whichType = TX_PUBKEY then Some (PubKeySet (PubKeySet (vSolutions ! 0))) else None)"

definition ExtractDestination :: "(bytes \<Rightarrow> bytes) \<Rightarrow> script \<Rightarrow> CTxDestination option" where
  "ExtractDestination Hash160 scriptPubKey = (case Solver scriptPubKey of (ok, whichType, vSolutions) \<Rightarrow>
     if \<not> ok then None
     else if whichType = TX_PUBKEY then
       (let pubKey = PubKeySet (vSolutions ! 0) in
        if \<not> PubKeyIsValid pubKey then None else Some (CKeyID (Hash160 (KeyBytes pubKey))))
     else if whichType = TX_PUBKEYHASH then Some (CKeyID (vSolutions ! 0))
     else if whichType = TX_SCRIPTHASH then Some (CScriptID (vSolutions ! 0))
     else None)"

text \<open>
  The result, \<open>typeRet\<close>, \<open>addressRet\<close> and \<open>nRequiredRet\<close>; the last keeps the value of the caller
  where the code does not assign it.
\<close>

definition ExtractDestinations ::
  "(bytes \<Rightarrow> bytes) \<Rightarrow> script \<Rightarrow> nat \<Rightarrow> bool \<times> txnouttype \<times> CTxDestination list \<times> nat" where
  "ExtractDestinations Hash160 scriptPubKey nRequiredRet = (case Solver scriptPubKey of (ok, typeRet, vSolutions) \<Rightarrow>
     if \<not> ok then (False, typeRet, [], nRequiredRet)
     else if typeRet = TX_NULL_DATA then (False, typeRet, [], nRequiredRet)
     else if typeRet = TX_MULTISIG then
       (let nRequiredRet = unat (hd (hd vSolutions));
            keys = filter PubKeyIsValid (map PubKeySet (butlast (tl vSolutions)));
            addressRet = map (\<lambda>pubKey. CKeyID (Hash160 (KeyBytes pubKey))) keys
        in (addressRet \<noteq> [], typeRet, addressRet, nRequiredRet))
     else case ExtractDestination Hash160 scriptPubKey of
       None \<Rightarrow> (False, typeRet, [], 1) | Some address \<Rightarrow> (True, typeRet, [address], 1))"

definition GetScriptForDestination :: "CTxDestination \<Rightarrow> script" where
  "GetScriptForDestination dest = (case dest of
     CNoDestination \<Rightarrow> []
   | CKeyID keyID \<Rightarrow> [OP_DUP, OP_HASH160] @ push_data keyID @ [OP_EQUALVERIFY, OP_CHECKSIG]
   | CScriptID scriptID \<Rightarrow> OP_HASH160 # push_data scriptID @ [OP_EQUAL])"

definition GetScriptForPubKey :: "CPubKey \<Rightarrow> script" where
  "GetScriptForPubKey pubkey = push_data (KeyBytes pubkey) @ [OP_CHECKSIG]"

definition GetScriptForMultisig :: "nat \<Rightarrow> CPubKey list \<Rightarrow> script" where
  "GetScriptForMultisig nRequired keys =
     EncodeOP_N nRequired # concat (map (\<lambda>key. push_data (KeyBytes key)) keys) @ [EncodeOP_N (length keys), OP_CHECKMULTISIG]"

section \<open>Recognising what was built\<close>

lemma GetOp2_op: "opcode > OP_PUSHDATA4 \<Longrightarrow> GetOp2 (opcode # pc) = (True, opcode, [], pc)"
  by auto

lemma match_loop_end [simp]: "match_loop [] [] sols = Some sols"
  by (simp add: match_loop.simps)

lemma match_loop_step:
  assumes "GetOp2 pc1 = (True, o1, v1, p1)" "GetOp2 pc2 = (True, o2, v2, p2)" "o2 \<noteq> OP_PUBKEYS"
  shows "match_loop pc1 pc2 sols = (case match_op o1 v1 o2 v2 sols of None \<Rightarrow> None | Some s \<Rightarrow> match_loop p1 p2 s)"
  using assms GetOp2_ok_nonempty [OF assms(1)] by (subst match_loop.simps) simp

text \<open>An opcode of the script against an opcode of the template.\<close>

lemma match_loop_op:
  assumes "o1 > OP_PUSHDATA4" "o2 > OP_PUSHDATA4" "o2 \<noteq> OP_PUBKEYS"
  shows "match_loop (o1 # p1) (o2 # p2) sols = (case match_op o1 [] o2 [] sols of None \<Rightarrow> None | Some s \<Rightarrow> match_loop p1 p2 s)"
  using assms by (intro match_loop_step GetOp2_op)

text \<open>A pushed vector against an opcode of the template.\<close>

lemma match_loop_push:
  assumes "length b < 2 ^ 32" "o2 = OP_PUBKEY \<or> o2 = OP_PUBKEYHASH"
  shows "match_loop (push_data b @ p1) (o2 # p2) sols =
    (case match_op 0 b o2 [] sols of None \<Rightarrow> None | Some s \<Rightarrow> match_loop p1 p2 s)"
proof -
  obtain o1 where g: "GetOp2 (push_data b @ p1) = (True, o1, b, p1)" using GetOp2_push_data assms(1) by blast
  have "match_op o1 b o2 [] sols = match_op 0 b o2 [] sols" using assms(2) by (auto simp: match_op_def)
  then show ?thesis using match_loop_step [OF g, of "o2 # p2"] assms(2) by auto
qed

lemma solver_P2SH:
  "length h = 20 \<Longrightarrow> Solver (GetScriptForDestination (CScriptID h)) = (True, TX_SCRIPTHASH, [h])"
proof -
  assume h: "length h = 20"
  then have "IsPayToScriptHash (OP_HASH160 # push_data h @ [OP_EQUAL])" using P2SH_iff by blast
  moreover have "take 20 (drop 2 (OP_HASH160 # push_data h @ [OP_EQUAL])) = h"
    using h by (simp add: push_data_def)
  ultimately show ?thesis by (simp add: Solver_def GetScriptForDestination_def)
qed

lemma not_P2SH_last: "s \<noteq> [] \<Longrightarrow> last s \<noteq> OP_EQUAL \<Longrightarrow> \<not> IsPayToScriptHash s"
  by (auto simp: P2SH_iff)

lemma solver_scan:
  assumes "s \<noteq> []" "last s \<noteq> OP_EQUAL" "hd s \<noteq> OP_RETURN"
  shows "Solver s = scan_templates s mTemplates"
  using assms not_P2SH_last [of s] by (simp add: Solver_def hd_conv_nth)

lemma solver_P2PKH:
  assumes "length h = 20"
  shows "Solver (GetScriptForDestination (CKeyID h)) = (True, TX_PUBKEYHASH, [h])"
proof -
  let ?s = "[OP_DUP, OP_HASH160] @ push_data h @ [OP_EQUALVERIFY, OP_CHECKSIG]"
  have 1: "match_loop ?s [OP_PUBKEY, OP_CHECKSIG] [] = None"
    by (simp add: match_loop_op match_op_def)
  have 2: "match_loop ?s [OP_DUP, OP_HASH160, OP_PUBKEYHASH, OP_EQUALVERIFY, OP_CHECKSIG] [] = Some [h]"
    using assms by (simp add: match_loop_op match_loop_push match_op_def)
  have "Solver ?s = scan_templates ?s mTemplates" by (rule solver_scan) simp_all
  then show ?thesis
    unfolding GetScriptForDestination_def mTemplates_def using 1 2 by simp
qed

lemma push_data_hd:
  assumes "b \<noteq> []" "length b \<le> 75"
  shows "push_data b = of_nat (length b) # b"
  using assms by (simp add: push_data_def)

lemma push_head_not_return:
  assumes "33 \<le> length b" "length b \<le> 65"
  shows "hd (push_data b @ r) \<noteq> OP_RETURN"
proof -
  have "unat (of_nat (length b) :: byte) \<noteq> unat OP_RETURN"
    using assms by (simp add: unat_of_nat)
  moreover have "b \<noteq> []" using assms by auto
  ultimately show ?thesis using assms push_data_hd [of b] by auto
qed

lemma solver_P2PK:
  assumes "33 \<le> length pk" "length pk \<le> 65"
  shows "Solver (push_data pk @ [OP_CHECKSIG]) = (True, TX_PUBKEY, [pk])"
proof -
  let ?s = "push_data pk @ [OP_CHECKSIG]"
  have "match_loop ?s [OP_PUBKEY, OP_CHECKSIG] [] = Some [pk]"
    using assms by (simp add: match_loop_op match_loop_push match_op_def)
  moreover have "Solver ?s = scan_templates ?s mTemplates"
    by (rule solver_scan) (use push_head_not_return [OF assms] in simp_all)
  ultimately show ?thesis by (simp add: mTemplates_def)
qed

lemma pubkeys_loop_keys:
  assumes "list_all (\<lambda>k. 33 \<le> length k \<and> length k \<le> 65) (k # keys)" "o2 > OP_PUSHDATA4"
  shows "pubkeys_loop o1 k (concat (map push_data keys) @ o2 # rest) sols = (o2, [], rest, sols @ k # keys)"
  using assms
proof (induction keys arbitrary: o1 k sols)
  case Nil
  have "pubkeys_loop o2 [] rest (sols @ [k]) = (o2, [], rest, sols @ [k])"
    by (subst pubkeys_loop.simps) simp
  then show ?case using Nil by (subst pubkeys_loop.simps) (simp add: GetOp2_op del: GetOp2.simps)
next
  case (Cons x xs)
  obtain o' where g: "GetOp2 (push_data x @ concat (map push_data xs) @ o2 # rest)
      = (True, o', x, concat (map push_data xs) @ o2 # rest)"
    using GetOp2_push_data [of x] Cons.prems by auto
  have "pubkeys_loop o' x (concat (map push_data xs) @ o2 # rest) (sols @ [k]) = (o2, [], rest, (sols @ [k]) @ x # xs)"
    using Cons.prems by (intro Cons.IH) simp_all
  then show ?case using Cons.prems g by (subst pubkeys_loop.simps) simp
qed

lemma EncodeOP_N_small:
  assumes "1 \<le> n" "n \<le> 16"
  shows "unat (EncodeOP_N n) = 0x50 + n"
proof -
  have "EncodeOP_N n = of_nat (0x50 + n)" using assms by (simp add: EncodeOP_N_def)
  then show ?thesis using assms by (simp only: unat_of_nat) simp
qed

lemma EncodeOP_N_match:
  assumes "1 \<le> n" "n \<le> 16"
  shows "match_op (EncodeOP_N n) [] OP_SMALLINTEGER [] sols = Some (sols @ [[of_nat n]])"
    and "EncodeOP_N n > OP_PUSHDATA4" "EncodeOP_N n \<noteq> OP_RETURN" "EncodeOP_N n \<noteq> OP_DUP"
proof -
  note u = EncodeOP_N_small [OF assms]
  have "uint (EncodeOP_N n) = int (0x50 + n)" using u by (simp add: uint_nat)
  then have "DecodeOP_N (EncodeOP_N n) = int n" using assms by (auto simp: DecodeOP_N_def)
  moreover have "EncodeOP_N n \<ge> OP_1" "EncodeOP_N n \<le> OP_16" using assms u by (simp_all add: word_le_nat_alt)
  ultimately show "match_op (EncodeOP_N n) [] OP_SMALLINTEGER [] sols = Some (sols @ [[of_nat n]])"
    by (simp add: match_op_def)
  show "EncodeOP_N n > OP_PUSHDATA4" using u by (simp add: word_less_nat_alt)
  show "EncodeOP_N n \<noteq> OP_RETURN" "EncodeOP_N n \<noteq> OP_DUP" using u assms by (auto simp: word_unat_eq_iff)
qed

lemma solver_multisig:
  assumes "list_all (\<lambda>k. 33 \<le> length k \<and> length k \<le> 65) keys" "1 \<le> m" "m \<le> length keys" "length keys \<le> 16"
  shows "Solver (EncodeOP_N m # concat (map push_data keys) @ [EncodeOP_N (length keys), OP_CHECKMULTISIG]) = (True, TX_MULTISIG, [of_nat m] # keys @ [[of_nat (length keys)]])"
proof -
  let ?n = "length keys"
  have m: "1 \<le> m" "m \<le> 16" and n: "1 \<le> ?n" "?n \<le> 16" using assms by simp_all
  obtain k ks where keys: "keys = k # ks" using n by (cases keys) auto
  have nek: "keys \<noteq> []" by (simp add: keys)
  let ?tail = "concat (map push_data keys) @ [EncodeOP_N ?n, OP_CHECKMULTISIG]"
  let ?s = "EncodeOP_N m # ?tail"
  have 1: "match_loop ?s [OP_PUBKEY, OP_CHECKSIG] [] = None"
    using EncodeOP_N_match(2) [OF m] by (simp add: match_loop_op match_op_def)
  have 2: "match_loop ?s [OP_DUP, OP_HASH160, OP_PUBKEYHASH, OP_EQUALVERIFY, OP_CHECKSIG] [] = None"
    using EncodeOP_N_match(2,4) [OF m] by (simp add: match_loop_op match_op_def)
  obtain o1 where g: "GetOp2 ?tail = (True, o1, k, concat (map push_data ks) @ [EncodeOP_N ?n, OP_CHECKMULTISIG])"
    using GetOp2_push_data [of k] assms(1) by (auto simp: keys)
  have loop: "pubkeys_loop o1 k (concat (map push_data ks) @ [EncodeOP_N ?n, OP_CHECKMULTISIG]) [[of_nat m]]
      = (EncodeOP_N ?n, [], [OP_CHECKMULTISIG], [of_nat m] # keys)"
    using pubkeys_loop_keys [of k ks "EncodeOP_N ?n" o1 "[OP_CHECKMULTISIG]" "[[of_nat m]]"] assms(1) EncodeOP_N_match(2) [OF n]
    by (simp add: keys)
  have cms: "match_op OP_CHECKMULTISIG [] OP_CHECKMULTISIG [] sols = Some sols" for sols by (simp add: match_op_def)
  have ne: "?tail \<noteq> []" by simp
  have "match_loop ?tail [OP_PUBKEYS, OP_SMALLINTEGER, OP_CHECKMULTISIG] [[of_nat m]] =
      Some ([of_nat m] # keys @ [[of_nat ?n]])"
    by (subst match_loop.simps) (simp only: ne simp_thms if_False g prod.case GetOp2_op
        , simp add: GetOp2_op loop EncodeOP_N_match(1) [OF n] match_loop_op cms)
  then have 3: "match_loop ?s [OP_SMALLINTEGER, OP_PUBKEYS, OP_SMALLINTEGER, OP_CHECKMULTISIG] [] =
      Some ([of_nat m] # keys @ [[of_nat ?n]])"
    using EncodeOP_N_match(1,2) [OF m] by (subst match_loop_op) (simp_all del: map_is_Nil_conv)
  have u: "unat (of_nat m :: byte) = m" "unat (of_nat ?n :: byte) = ?n" using m n by (simp_all add: unat_of_nat)
  have c: "\<not> (of_nat m :: byte) < 1" "\<not> (of_nat ?n :: byte) < 1" "\<not> (of_nat m :: byte) > of_nat ?n"
    using m n assms(3) u nek by (simp_all add: word_less_nat_alt)
  have "Solver ?s = scan_templates ?s mTemplates"
    by (rule solver_scan) (use EncodeOP_N_match(3) [OF m] in simp_all)
  then show ?thesis
    unfolding mTemplates_def scan_templates.simps 1 2 3 using c u nek by (simp add: Let_def)
qed

section \<open>What a recognised script holds\<close>

lemma match_loop_template:
  assumes "match_loop pc1 (o2 # t2) sols = Some r" "OP_PUSHDATA4 < o2" "o2 \<noteq> OP_PUBKEYS"
  shows "\<exists>o1 v1 p1 s. GetOp2 pc1 = (True, o1, v1, p1) \<and> match_op o1 v1 o2 [] sols = Some s \<and> match_loop p1 t2 s = Some r"
proof -
  obtain ok o1 v1 p1 where g: "GetOp2 pc1 = (ok, o1, v1, p1)" by (cases "GetOp2 pc1")
  have g2: "GetOp2 (o2 # t2) = (True, o2, [], t2)" using assms(2) by (rule GetOp2_op)
  show ?thesis
    using assms(1,3) g
    by (subst (asm) match_loop.simps) (auto simp: g2 split: if_splits option.splits simp del: GetOp2.simps)
qed

lemma match_loop_template_end: "match_loop pc1 [] sols = Some r \<Longrightarrow> r = sols"
  by (subst (asm) match_loop.simps) (auto split: if_splits prod.splits)

lemma scan_templates_ok:
  assumes "Solver s = (True, t, sols)"
  shows "t = TX_SCRIPTHASH \<or> t = TX_NULL_DATA \<or> (\<exists>tpl. (t, tpl) \<in> set mTemplates \<and> match_loop s tpl [] = Some sols)"
  using assms
  by (auto simp: Solver_def mTemplates_def Let_def split: if_splits option.splits)

lemma Solver_pubkeyhash_length:
  assumes "Solver s = (True, TX_PUBKEYHASH, sols)"
  shows "length (sols ! 0) = 20"
proof -
  have "match_loop s [OP_DUP, OP_HASH160, OP_PUBKEYHASH, OP_EQUALVERIFY, OP_CHECKSIG] [] = Some sols"
    using scan_templates_ok [OF assms] by (simp add: mTemplates_def)
  then show ?thesis
    by (auto simp: match_op_def split: if_splits dest!: match_loop_template match_loop_template_end)
qed

lemma Solver_pubkey_length:
  assumes "Solver s = (True, TX_PUBKEY, sols)"
  shows "33 \<le> length (sols ! 0)" "length (sols ! 0) \<le> 65"
proof -
  have "match_loop s [OP_PUBKEY, OP_CHECKSIG] [] = Some sols"
    using scan_templates_ok [OF assms] by (simp add: mTemplates_def)
  then show "33 \<le> length (sols ! 0)" "length (sols ! 0) \<le> 65"
    by (auto simp: match_op_def not_less split: if_splits dest!: match_loop_template match_loop_template_end)
qed

lemma PubKeySet_valid: "PubKeyIsValid (PubKeySet v) \<longleftrightarrow> valid_key v"
  by (auto simp: PubKeyIsValid_def PubKeySize_def PubKeySet_def valid_key_def InvalidPubKey_def GetLen_def Let_def)

section \<open>Properties\<close>

text \<open>
  the scripts that the node builds for a destination are recognised as what they were built
  for: a key hash, a script hash, a public key with its hash, and a multi-signature output of at
  most sixteen valid keys with its required number and all its keys in order.
\<close>

lemma destination_round_trip:
  assumes "length h = 20" "valid_key pk" "list_all valid_key keys" "1 \<le> m" "m \<le> length keys" "length keys \<le> 16"
  shows "ExtractDestination H (GetScriptForDestination (CKeyID h)) = Some (CKeyID h)
    \<and> ExtractDestination H (GetScriptForDestination (CScriptID h)) = Some (CScriptID h)
    \<and> ExtractPubKey (GetScriptForPubKey pk) = Some pk
    \<and> ExtractDestination H (GetScriptForPubKey pk) = Some (CKeyID (H pk))
    \<and> ExtractDestinations H (GetScriptForMultisig m keys) r =
        (True, TX_MULTISIG, map (\<lambda>k. CKeyID (H k)) keys, m)"
proof -
  have k: "list_all (\<lambda>k. 33 \<le> length k \<and> length k \<le> 65) keys"
    using assms(3) valid_key_facts by (auto simp: list_all_iff)
  have "keys \<noteq> []" using assms by auto
  moreover have "filter PubKeyIsValid (map PubKeySet keys) = keys"
    using assms(3) valid_key_facts by (induction keys) auto
  moreover have "unat (of_nat m :: byte) = m" using assms by (simp add: unat_of_nat)
  moreover have kb: "map (\<lambda>k. push_data (KeyBytes k)) keys = map push_data keys"
    "map (\<lambda>k. CKeyID (H (KeyBytes k))) keys = map (\<lambda>k. CKeyID (H k)) keys"
    using assms(3) valid_key_facts(5) by (auto simp: list_all_iff)
  ultimately have "ExtractDestinations H (GetScriptForMultisig m keys) r =
      (True, TX_MULTISIG, map (\<lambda>k. CKeyID (H k)) keys, m)"
    using solver_multisig [OF k assms(4-6)]
    by (simp add: ExtractDestinations_def GetScriptForMultisig_def Let_def cong: map_cong)
  then show ?thesis
    using solver_P2PKH [OF assms(1)] solver_P2SH [OF assms(1)] valid_key_facts [OF assms(2)] solver_P2PK [of pk]
    by (simp add: ExtractDestination_def ExtractPubKey_def GetScriptForPubKey_def)
qed

end
