(* ===== verification/Transaction.thy ===== *)
theory Transaction
  imports Pub_Key
begin

text \<open>
  \<open>primitives/transaction.h\<close>, \<open>primitives/transaction.cpp\<close> and \<open>amount.h\<close>: amounts and fee rates,
  outpoints, inputs, outputs and transactions with their serialisation. An \<open>int32_t\<close> or \<open>int64_t\<close>
  field is an \<open>int\<close>, an unsigned one a word. The in-memory private keys of the wallet (\<open>txPrivM\<close>,
  \<open>inMemoryRawBind\<close>) and the cached hash of a transaction are left out: \<open>GetHash\<close> recomputes
  the latter. \<open>CMutableTransaction\<close> has the same fields and the same serialisation.
\<close>

type_synonym uint256 = limbs

definition uint256_0 :: uint256 where
  "uint256_0 = zero_limbs 8"

section \<open>Amounts\<close>

type_synonym CAmount = int

definition COIN :: CAmount where
  "COIN = 100000000"

text \<open>The value an \<open>int64_t\<close> keeps of a result, in two's complement.\<close>

definition wrap64 :: "int \<Rightarrow> CAmount" where
  "wrap64 i = signed_take_bit 63 i"

lemma wrap64_fits: "- (2 ^ 63) \<le> i \<Longrightarrow> i < 2 ^ 63 \<Longrightarrow> wrap64 i = i"
  by (simp add: wrap64_def signed_take_bit_int_eq_self)

text \<open>A \<open>CFeeRate\<close> is its \<open>nSatoshisPerK\<close>; products with a \<open>size_t\<close> are those of \<open>uint64_t\<close>.\<close>

type_synonym CFeeRate = CAmount

definition FeeRate :: "CAmount \<Rightarrow> u64 \<Rightarrow> CFeeRate" where
  "FeeRate nFeePaid nSize =
     (if nSize > 0 then wrap64 (uint ((of_int (wrap64 (nFeePaid * 1000)) :: u64) div nSize)) else 0)"

definition GetFee :: "CFeeRate \<Rightarrow> u64 \<Rightarrow> CAmount" where
  "GetFee nSatoshisPerK nSize =
     (let nFee = wrap64 (uint ((of_int nSatoshisPerK * nSize :: u64) div 1000))
      in if nFee = 0 \<and> nSatoshisPerK > 0 then nSatoshisPerK else nFee)"

definition GetFeePerK :: "CFeeRate \<Rightarrow> CAmount" where
  "GetFeePerK rate = GetFee rate 1000"

section \<open>Outpoints\<close>

record COutPoint =
  op_txid :: uint256
  op_n :: u32

definition NullOutPoint :: COutPoint where
  "NullOutPoint = \<lparr>op_txid = uint256_0, op_n = -1\<rparr>"

definition OutPointIsNull :: "COutPoint \<Rightarrow> bool" where
  "OutPointIsNull p \<longleftrightarrow> IsNull (op_txid p) \<and> op_n p = -1"

lemma NullOutPoint_IsNull [simp]: "OutPointIsNull NullOutPoint"
  by (simp add: OutPointIsNull_def NullOutPoint_def uint256_0_def IsNull_def zero_limbs_def list_all_iff)

definition OutPointLess :: "COutPoint \<Rightarrow> COutPoint \<Rightarrow> bool" where
  "OutPointLess a b \<longleftrightarrow> op_less (op_txid a) (op_txid b) \<or> op_txid a = op_txid b \<and> op_n a < op_n b"

definition write_COutPoint :: "COutPoint \<Rightarrow> bytes" where
  "write_COutPoint p = write_limbs (op_txid p) @ write_word 4 (op_n p)"

definition read_COutPoint :: "bytes \<Rightarrow> (COutPoint \<times> bytes) option" where
  "read_COutPoint bs = do {
     (h, bs) \<leftarrow> read_limbs 8 bs;
     (k, bs) \<leftarrow> read_word 4 bs;
     Some (\<lparr>op_txid = h, op_n = k\<rparr>, bs) }"

definition outpoint_ok :: "COutPoint \<Rightarrow> bool" where
  "outpoint_ok p \<longleftrightarrow> length (op_txid p) = 8"

lemma read_COutPoint_write [codec_simps]:
  "outpoint_ok p \<Longrightarrow> read_COutPoint (write_COutPoint p @ rest) = Some (p, rest)"
  by (simp add: read_COutPoint_def write_COutPoint_def outpoint_ok_def codec_simps)

lemma write_COutPoint_nonempty [simp]: "write_COutPoint p \<noteq> []"
  by (simp add: write_COutPoint_def write_word_nonempty)

interpretation outpoint: prefix_codec write_COutPoint read_COutPoint outpoint_ok
  by standard (simp_all add: codec_simps)

section \<open>Inputs\<close>

record CTxIn =
  prevout :: COutPoint
  scriptSig :: bytes
  nSequence :: u32
  prevPubKey :: bytes
  sig_s :: bytes
  sig_R :: bytes
  encryptionKey :: bytes
  keyImage :: CPubKey
  decoys :: "COutPoint list"
  inMasternodeStealthAddress :: bytes

definition NewTxIn :: "COutPoint \<Rightarrow> bytes \<Rightarrow> u32 \<Rightarrow> CTxIn" where
  "NewTxIn prevoutIn scriptSigIn nSequenceIn =
     \<lparr>prevout = prevoutIn, scriptSig = scriptSigIn, nSequence = nSequenceIn, prevPubKey = [], sig_s = [], sig_R = [],
      encryptionKey = [], keyImage = InvalidPubKey, decoys = [], inMasternodeStealthAddress = []\<rparr>"

definition TxInIsFinal :: "CTxIn \<Rightarrow> bool" where
  "TxInIsFinal txin \<longleftrightarrow> nSequence txin = 0xffffffff"

definition TxInEq :: "CTxIn \<Rightarrow> CTxIn \<Rightarrow> bool" where
  "TxInEq a b \<longleftrightarrow> prevout a = prevout b \<and> scriptSig a = scriptSig b \<and> nSequence a = nSequence b
     \<and> encryptionKey a = encryptionKey b \<and> PubKeyEq (keyImage a) (keyImage b) \<and> decoys a = decoys b"

definition write_CTxIn :: "CTxIn \<Rightarrow> bytes" where
  "write_CTxIn txin =
     write_COutPoint (prevout txin) @ write_bytes (scriptSig txin) @ write_word 4 (nSequence txin)
     @ write_bytes (encryptionKey txin) @ write_CPubKey (keyImage txin) @ write_vector write_COutPoint (decoys txin)
     @ write_bytes (inMasternodeStealthAddress txin) @ write_bytes (sig_s txin) @ write_bytes (sig_R txin)"

definition read_CTxIn :: "bytes \<Rightarrow> (CTxIn \<times> bytes) option" where
  "read_CTxIn bs = do {
     (prevout, bs) \<leftarrow> read_COutPoint bs;
     (scriptSig, bs) \<leftarrow> read_bytes bs;
     (nSequence, bs) \<leftarrow> read_word 4 bs;
     (encryptionKey, bs) \<leftarrow> read_bytes bs;
     (keyImage, bs) \<leftarrow> read_CPubKey bs;
     (decoys, bs) \<leftarrow> read_vector read_COutPoint bs;
     (masternodeStealthAddress, bs) \<leftarrow> read_bytes bs;
     (s, bs) \<leftarrow> read_bytes bs;
     (R, bs) \<leftarrow> read_bytes bs;
     Some (\<lparr>prevout = prevout, scriptSig = scriptSig, nSequence = nSequence, prevPubKey = [], sig_s = s, sig_R = R,
            encryptionKey = encryptionKey, keyImage = keyImage, decoys = decoys,
            inMasternodeStealthAddress = masternodeStealthAddress\<rparr>, bs) }"

text \<open>
  An input that the reader can return: byte strings and lists within \<open>MAX_SIZE\<close>, a well-made key
  image, and an empty \<open>prevPubKey\<close>, which is not serialised.
\<close>

definition txin_ok :: "CTxIn \<Rightarrow> bool" where
  "txin_ok txin \<longleftrightarrow> outpoint_ok (prevout txin) \<and> length (scriptSig txin) \<le> MAX_SIZE \<and> prevPubKey txin = []
     \<and> length (encryptionKey txin) \<le> MAX_SIZE \<and> made_key (keyImage txin)
     \<and> length (decoys txin) \<le> MAX_SIZE \<and> list_all outpoint_ok (decoys txin)
     \<and> length (inMasternodeStealthAddress txin) \<le> MAX_SIZE \<and> length (sig_s txin) \<le> MAX_SIZE
     \<and> length (sig_R txin) \<le> MAX_SIZE"

lemma read_CTxIn_write [codec_simps]:
  "txin_ok txin \<Longrightarrow> read_CTxIn (write_CTxIn txin @ rest) = Some (txin, rest)"
  by (simp add: read_CTxIn_def write_CTxIn_def txin_ok_def codec_simps outpoint.read_write_vector)

lemma write_CTxIn_nonempty [simp]: "write_CTxIn txin \<noteq> []"
  by (simp add: write_CTxIn_def)

interpretation txin: prefix_codec write_CTxIn read_CTxIn txin_ok
  by standard (simp_all add: codec_simps)

text \<open>\<open>CTxInShortDigest\<close>: the part of an input that a signature covers.\<close>

definition write_CTxInShortDigest :: "CTxIn \<Rightarrow> bytes" where
  "write_CTxInShortDigest txin =
     write_COutPoint (prevout txin) @ write_bytes (scriptSig txin) @ write_word 4 (nSequence txin)
     @ write_bytes (encryptionKey txin) @ write_CPubKey (keyImage txin)
     @ write_bytes (inMasternodeStealthAddress txin)"

section \<open>Outputs\<close>

record MaskValue =
  mv_sharedSec :: CPubKey
  mv_amount :: uint256
  mv_mask :: uint256
  mv_hashOfKey :: uint256

record CTxOut =
  nValue :: CAmount
  scriptPubKey :: bytes
  nRounds :: int
  txPriv :: bytes
  txPub :: bytes
  maskValue :: MaskValue
  masternodeStealthAddress :: bytes
  commitment :: bytes

definition NullMaskValue :: MaskValue where
  "NullMaskValue = \<lparr>mv_sharedSec = InvalidPubKey, mv_amount = uint256_0, mv_mask = uint256_0, mv_hashOfKey = uint256_0\<rparr>"

text \<open>\<open>SetNull\<close> and \<open>SetEmpty\<close> leave the fields they do not name as they are.\<close>

definition TxOutSetNull :: "CTxOut \<Rightarrow> CTxOut" where
  "TxOutSetNull out = out\<lparr>nValue := -1, scriptPubKey := [], nRounds := -10\<rparr>"

definition TxOutIsNull :: "CTxOut \<Rightarrow> bool" where
  "TxOutIsNull out \<longleftrightarrow> nValue out = -1"

definition TxOutSetEmpty :: "CTxOut \<Rightarrow> CTxOut" where
  "TxOutSetEmpty out = out\<lparr>nValue := 0, scriptPubKey := []\<rparr>"

definition TxOutIsEmpty :: "CTxOut \<Rightarrow> bool" where
  "TxOutIsEmpty out \<longleftrightarrow> nValue out = 0 \<and> scriptPubKey out = []"

definition NewTxOut :: "CAmount \<Rightarrow> bytes \<Rightarrow> CTxOut" where
  "NewTxOut nValueIn scriptPubKeyIn =
     \<lparr>nValue = nValueIn, scriptPubKey = scriptPubKeyIn, nRounds = -10, txPriv = [], txPub = [],
      maskValue = NullMaskValue, masternodeStealthAddress = [], commitment = []\<rparr>"

definition NullTxOut :: CTxOut where
  "NullTxOut = NewTxOut (-1) []"

definition TxOutEq :: "CTxOut \<Rightarrow> CTxOut \<Rightarrow> bool" where
  "TxOutEq a b \<longleftrightarrow> nValue a = nValue b \<and> scriptPubKey a = scriptPubKey b \<and> nRounds a = nRounds b"

definition write_CTxOut :: "CTxOut \<Rightarrow> bytes" where
  "write_CTxOut out =
     write_int 8 (nValue out) @ write_bytes (scriptPubKey out) @ write_bytes (txPriv out) @ write_bytes (txPub out)
     @ write_limbs (mv_amount (maskValue out)) @ write_limbs (mv_mask (maskValue out))
     @ write_limbs (mv_hashOfKey (maskValue out))
     @ write_bytes (masternodeStealthAddress out) @ write_bytes (commitment out)"

definition read_CTxOut :: "bytes \<Rightarrow> (CTxOut \<times> bytes) option" where
  "read_CTxOut bs = do {
     (nValue, bs) \<leftarrow> read_int 8 bs;
     (scriptPubKey, bs) \<leftarrow> read_bytes bs;
     (txPriv, bs) \<leftarrow> read_bytes bs;
     (txPub, bs) \<leftarrow> read_bytes bs;
     (amount, bs) \<leftarrow> read_limbs 8 bs;
     (msk, bs) \<leftarrow> read_limbs 8 bs;
     (hashOfKey, bs) \<leftarrow> read_limbs 8 bs;
     (masternodeStealthAddress, bs) \<leftarrow> read_bytes bs;
     (commitment, bs) \<leftarrow> read_bytes bs;
     Some (\<lparr>nValue = nValue, scriptPubKey = scriptPubKey, nRounds = -10, txPriv = txPriv, txPub = txPub,
            maskValue = \<lparr>mv_sharedSec = InvalidPubKey, mv_amount = amount, mv_mask = msk, mv_hashOfKey = hashOfKey\<rparr>,
            masternodeStealthAddress = masternodeStealthAddress, commitment = commitment\<rparr>, bs) }"

definition txout_ok :: "CTxOut \<Rightarrow> bool" where
  "txout_ok out \<longleftrightarrow> int_fits 8 (nValue out) \<and> length (scriptPubKey out) \<le> MAX_SIZE \<and> nRounds out = -10
     \<and> length (txPriv out) \<le> MAX_SIZE \<and> length (txPub out) \<le> MAX_SIZE
     \<and> mv_sharedSec (maskValue out) = InvalidPubKey \<and> length (mv_amount (maskValue out)) = 8
     \<and> length (mv_mask (maskValue out)) = 8 \<and> length (mv_hashOfKey (maskValue out)) = 8
     \<and> length (masternodeStealthAddress out) \<le> MAX_SIZE \<and> length (commitment out) \<le> MAX_SIZE"

lemma read_CTxOut_write [codec_simps]:
  "txout_ok out \<Longrightarrow> read_CTxOut (write_CTxOut out @ rest) = Some (out, rest)"
  by (cases out) (simp add: read_CTxOut_def write_CTxOut_def txout_ok_def codec_simps)

lemma write_CTxOut_nonempty [simp]: "write_CTxOut out \<noteq> []"
  by (simp add: write_CTxOut_def)

interpretation txout: prefix_codec write_CTxOut read_CTxOut txout_ok
  by standard (simp_all add: codec_simps)

definition IsDust :: "CFeeRate \<Rightarrow> CTxOut \<Rightarrow> bool" where
  "IsDust minRelayTxFee out \<longleftrightarrow>
     (let nSize = of_nat (length (write_CTxOut out)) + 148
      in nValue out < wrap64 (3 * GetFee minRelayTxFee nSize))"

section \<open>Transactions\<close>

abbreviation (input) TX_TYPE_FULL :: u32 where "TX_TYPE_FULL \<equiv> 0"
abbreviation (input) TX_TYPE_REVEAL_AMOUNT :: u32 where "TX_TYPE_REVEAL_AMOUNT \<equiv> 1"
abbreviation (input) TX_TYPE_REVEAL_SENDER :: u32 where "TX_TYPE_REVEAL_SENDER \<equiv> 2"
abbreviation (input) TX_TYPE_REVEAL_BOTH :: u32 where "TX_TYPE_REVEAL_BOTH \<equiv> 3"

record CTransaction =
  txVersion :: int
  vin :: "CTxIn list"
  vout :: "CTxOut list"
  nLockTime :: u32
  hasPaymentID :: byte
  paymentID :: u64
  txType :: u32
  bulletproofs :: bytes
  nTxFee :: CAmount
  tx_c :: uint256
  tx_S :: "uint256 list list"
  ntxFeeKeyImage :: CPubKey

definition NullTransaction :: CTransaction where
  "NullTransaction = \<lparr>txVersion = 1, vin = [], vout = [], nLockTime = 0, hasPaymentID = 0, paymentID = 0,
     txType = TX_TYPE_FULL, bulletproofs = [], nTxFee = 0, tx_c = uint256_0, tx_S = [], ntxFeeKeyImage = InvalidPubKey\<rparr>"

definition write_CTransaction :: "CTransaction \<Rightarrow> bytes" where
  "write_CTransaction tx =
     write_int 4 (txVersion tx) @ write_vector write_CTxIn (vin tx) @ write_vector write_CTxOut (vout tx)
     @ write_word 4 (nLockTime tx) @ write_word 1 (hasPaymentID tx)
     @ (if hasPaymentID tx \<noteq> 0 then write_word 8 (paymentID tx) else [])
     @ write_word 4 (txType tx) @ write_bytes (bulletproofs tx) @ write_int 8 (nTxFee tx)
     @ write_limbs (tx_c tx) @ write_vector (write_vector write_limbs) (tx_S tx) @ write_CPubKey (ntxFeeKeyImage tx)"

definition read_CTransaction :: "bytes \<Rightarrow> (CTransaction \<times> bytes) option" where
  "read_CTransaction bs = do {
     (nVersion, bs) \<leftarrow> read_int 4 bs;
     (vin, bs) \<leftarrow> read_vector read_CTxIn bs;
     (vout, bs) \<leftarrow> read_vector read_CTxOut bs;
     (nLockTime, bs) \<leftarrow> read_word 4 bs;
     (hasPaymentID :: byte, bs) \<leftarrow> read_word 1 bs;
     (paymentID, bs) \<leftarrow> (if hasPaymentID \<noteq> 0 then read_word 8 bs else Some (0, bs));
     (txType, bs) \<leftarrow> read_word 4 bs;
     (bulletproofs, bs) \<leftarrow> read_bytes bs;
     (nTxFee, bs) \<leftarrow> read_int 8 bs;
     (c, bs) \<leftarrow> read_limbs 8 bs;
     (S, bs) \<leftarrow> read_vector (read_vector (read_limbs 8)) bs;
     (ntxFeeKeyImage, bs) \<leftarrow> read_CPubKey bs;
     Some (\<lparr>txVersion = nVersion, vin = vin, vout = vout, nLockTime = nLockTime, hasPaymentID = hasPaymentID,
            paymentID = paymentID, txType = txType, bulletproofs = bulletproofs, nTxFee = nTxFee, tx_c = c, tx_S = S,
            ntxFeeKeyImage = ntxFeeKeyImage\<rparr>, bs) }"

definition limbs_row_ok :: "uint256 list \<Rightarrow> bool" where
  "limbs_row_ok v \<longleftrightarrow> length v \<le> MAX_SIZE \<and> list_all (\<lambda>pn. length pn = 8) v"

interpretation limbs_rows: prefix_codec "write_vector write_limbs" "read_vector (read_limbs 8)" limbs_row_ok
  using limbs8.vector_codec by (simp add: limbs_row_ok_def [abs_def])

definition tx_ok :: "CTransaction \<Rightarrow> bool" where
  "tx_ok tx \<longleftrightarrow> int_fits 4 (txVersion tx) \<and> length (vin tx) \<le> MAX_SIZE \<and> list_all txin_ok (vin tx)
     \<and> length (vout tx) \<le> MAX_SIZE \<and> list_all txout_ok (vout tx) \<and> (hasPaymentID tx = 0 \<longrightarrow> paymentID tx = 0)
     \<and> length (bulletproofs tx) \<le> MAX_SIZE \<and> int_fits 8 (nTxFee tx) \<and> length (tx_c tx) = 8
     \<and> length (tx_S tx) \<le> MAX_SIZE \<and> list_all limbs_row_ok (tx_S tx) \<and> made_key (ntxFeeKeyImage tx)"

lemma read_CTransaction_write [codec_simps]:
  assumes "tx_ok tx"
  shows "read_CTransaction (write_CTransaction tx @ rest) = Some (tx, rest)"
proof (cases "hasPaymentID tx = 0")
  case True
  with assms show ?thesis
    by (cases tx) (simp add: read_CTransaction_def write_CTransaction_def tx_ok_def codec_simps
        txin.read_write_vector txout.read_write_vector limbs_rows.read_write_vector)
next
  case False
  with assms show ?thesis
    by (cases tx) (simp add: read_CTransaction_def write_CTransaction_def tx_ok_def codec_simps
        txin.read_write_vector txout.read_write_vector limbs_rows.read_write_vector)
qed

lemma write_CTransaction_nonempty [simp]: "write_CTransaction tx \<noteq> []"
  by (simp add: write_CTransaction_def write_vector_def)

interpretation transaction: prefix_codec write_CTransaction read_CTransaction tx_ok
  by standard (simp_all add: codec_simps)

definition TxIsNull :: "CTransaction \<Rightarrow> bool" where
  "TxIsNull tx \<longleftrightarrow> vin tx = [] \<and> vout tx = []"

definition IsCoinBase :: "CTransaction \<Rightarrow> bool" where
  "IsCoinBase tx \<longleftrightarrow> length (vin tx) = 1 \<and> OutPointIsNull (prevout (vin tx ! 0))"

definition IsCoinAudit :: "CTransaction \<Rightarrow> bool" where
  "IsCoinAudit tx \<longleftrightarrow> length (vin tx) = 1 \<and> OutPointIsNull (prevout (vin tx ! 0))"

definition IsCoinStake :: "CTransaction \<Rightarrow> bool" where
  "IsCoinStake tx \<longleftrightarrow> length (vin tx) > 0
     \<and> (\<not> OutPointIsNull (prevout (vin tx ! 0)) \<and> decoys (vin tx ! 0) = [])
     \<and> length (vout tx) \<ge> 2 \<and> TxOutIsEmpty (vout tx ! 0)"

text \<open>The comparison with \<open>vout.size() - 1\<close> is that of 64-bit unsigned integers.\<close>

definition IsMasternodeReward :: "CTransaction \<Rightarrow> COutPoint \<Rightarrow> bool" where
  "IsMasternodeReward tx p =
     (if \<not> IsCoinStake tx then False
      else (ucast (op_n p) :: u64) = of_nat (length (vout tx)) - 1
        \<and> scriptPubKey (vout tx ! 1) \<noteq> scriptPubKey (vout tx ! unat (op_n p)))"

text \<open>
  The sum of the outputs. The code tests for an overflow after the addition of signed integers, which C++ leaves undefined; the model adds
  with wrap-around, as the test expects.
\<close>

datatype value_error = ValueLessThanZero | ValueWraps

fun value_out_loop :: "bool \<Rightarrow> CAmount \<Rightarrow> CTxOut list \<Rightarrow> value_error + CAmount" where
  "value_out_loop counts nValueOut [] = Inr nValueOut"
| "value_out_loop counts nValueOut (out # outs) =
     (if nValue out < 0 then Inl ValueLessThanZero
      else if wrap64 (nValueOut + nValue out) < nValueOut then Inl ValueWraps
      else value_out_loop counts (if counts then wrap64 (nValueOut + nValue out) else nValueOut) outs)"

definition GetValueOut :: "CTransaction \<Rightarrow> value_error + CAmount" where
  "GetValueOut tx = value_out_loop (IsCoinBase tx \<or> IsCoinStake tx \<or> IsCoinAudit tx) 0 (vout tx)"

definition UsesUTXO :: "CTransaction \<Rightarrow> COutPoint \<Rightarrow> bool" where
  "UsesUTXO tx p \<longleftrightarrow> list_ex (\<lambda>i. prevout i = p) (vin tx)"

definition GetHash :: "(bytes \<Rightarrow> uint256) \<Rightarrow> CTransaction \<Rightarrow> uint256" where
  "GetHash Hash tx = Hash (write_CTransaction tx)"

definition GetOutPoints :: "(bytes \<Rightarrow> uint256) \<Rightarrow> CTransaction \<Rightarrow> COutPoint list" where
  "GetOutPoints Hash tx =
     map (\<lambda>i. \<lparr>op_txid = GetHash Hash tx, op_n = of_nat i\<rparr>) [0..<length (vout tx)]"

definition modified_size_step :: "CTxIn \<Rightarrow> nat \<Rightarrow> nat" where
  "modified_size_step txin nTxSize =
     (let offset = 41 + min 110 (length (scriptSig txin)) in if nTxSize > offset then nTxSize - offset else nTxSize)"

definition CalculateModifiedSize :: "CTransaction \<Rightarrow> nat \<Rightarrow> nat" where
  "CalculateModifiedSize tx nTxSize =
     fold modified_size_step (vin tx) (if nTxSize = 0 then length (write_CTransaction tx) else nTxSize)"

text \<open>\<open>CTransactionSignature\<close>: the fields of a transaction that a ring signature covers, the output values as zero.\<close>

definition write_CTransactionSignature :: "CTransaction \<Rightarrow> bytes" where
  "write_CTransactionSignature tx =
     write_int 4 (txVersion tx) @ write_vector write_CTxIn (vin tx)
     @ write_vector write_CTxOut (map (\<lambda>out. out\<lparr>nValue := 0\<rparr>) (vout tx))
     @ write_word 4 (nLockTime tx) @ write_word 1 (hasPaymentID tx)
     @ (if hasPaymentID tx \<noteq> 0 then write_word 8 (paymentID tx) else [])
     @ write_word 4 (txType tx) @ write_int 8 (nTxFee tx)"

section \<open>Properties\<close>

text \<open>The sum of the outputs as a number.\<close>

definition total_value :: "CTxOut list \<Rightarrow> int" where
  "total_value outs = sum_list (map nValue outs)"

lemma value_out_loop_counts:
  assumes "0 \<le> acc" "acc < 2 ^ 63" "list_all (\<lambda>out. int_fits 8 (nValue out)) outs"
  shows "value_out_loop True acc outs = Inr v \<longleftrightarrow>
    list_all (\<lambda>out. 0 \<le> nValue out) outs \<and> acc + total_value outs < 2 ^ 63 \<and> v = acc + total_value outs"
  using assms
proof (induction outs arbitrary: acc)
  case Nil
  then show ?case by (auto simp: total_value_def)
next
  case (Cons out outs)
  have fits: "nValue out < 2 ^ 63" using Cons.prems(3) by (simp add: int_fits_def)
  show ?case
  proof (cases "nValue out < 0")
    case True
    then show ?thesis by simp
  next
    case nonneg: False
    show ?thesis
    proof (cases "acc + nValue out < 2 ^ 63")
      case True
      then have "wrap64 (acc + nValue out) = acc + nValue out"
        using nonneg Cons.prems(1) by (intro wrap64_fits) auto
      then show ?thesis
        using nonneg True Cons.prems Cons.IH [of "acc + nValue out"] by (simp add: total_value_def add.assoc)
    next
      case False
      have "wrap64 (acc + nValue out) = wrap64 (acc + nValue out - 2 ^ 64)"
        unfolding wrap64_def by (rule signed_take_bit_eq_iff_take_bit_eq [THEN iffD2])
          (simp add: take_bit_eq_mod mod_diff_eq)
      also have "\<dots> = acc + nValue out - 2 ^ 64"
        using False fits Cons.prems(2) by (intro wrap64_fits) auto
      finally have "wrap64 (acc + nValue out) < acc" using fits by simp
      moreover have "\<not> (list_all (\<lambda>out. 0 \<le> nValue out) outs \<and> acc + total_value (out # outs) < 2 ^ 63)"
      proof
        assume a: "list_all (\<lambda>out. 0 \<le> nValue out) outs \<and> acc + total_value (out # outs) < 2 ^ 63"
        then have "0 \<le> total_value outs"
          unfolding total_value_def by (intro sum_list_nonneg) (auto simp: list_all_iff)
        then show False using a False by (simp add: total_value_def)
      qed
      ultimately show ?thesis using nonneg by auto
    qed
  qed
qed

lemma value_out_loop_zero:
  assumes "list_all (\<lambda>out. int_fits 8 (nValue out)) outs"
  shows "value_out_loop False 0 outs = Inr v \<longleftrightarrow> list_all (\<lambda>out. 0 \<le> nValue out) outs \<and> v = 0"
  using assms
proof (induction outs)
  case (Cons out outs)
  moreover have "0 \<le> nValue out \<Longrightarrow> wrap64 (nValue out) = nValue out"
    using Cons.prems by (intro wrap64_fits) (auto simp: int_fits_def)
  ultimately show ?case by auto
qed auto

text \<open>
  C26: a transaction is read back from its serialisation exactly as it was written, whatever follows it, and
  two transactions with one serialisation, hence with one preimage of their hash, are equal.
\<close>

theorem transaction_round_trip:
  assumes "tx_ok tx" "tx_ok tx'"
  shows "read_CTransaction (write_CTransaction tx @ rest) = Some (tx, rest)
    \<and> (write_CTransaction tx = write_CTransaction tx' \<longleftrightarrow> tx = tx')"
  using assms transaction.enc_inj read_CTransaction_write by blast

theorem transaction_round_trip_witness:
  "read_CTransaction (write_CTransaction
      (NullTransaction\<lparr>vin := [NewTxIn NullOutPoint [1, 2] 7], vout := [NewTxOut 5 [3]]\<rparr>) @ [9]) =
    Some (NullTransaction\<lparr>vin := [NewTxIn NullOutPoint [1, 2] 7], vout := [NewTxOut 5 [3]]\<rparr>, [9])
   \<and> (write_CTransaction (NullTransaction\<lparr>vin := [NewTxIn NullOutPoint [1, 2] 7], vout := [NewTxOut 5 [3]]\<rparr>) =
      write_CTransaction NullTransaction \<longleftrightarrow>
      NullTransaction\<lparr>vin := [NewTxIn NullOutPoint [1, 2] 7], vout := [NewTxOut 5 [3]]\<rparr> = NullTransaction)"
  by (rule transaction_round_trip)
    (simp_all add: tx_ok_def NullTransaction_def txin_ok_def txout_ok_def NewTxIn_def NewTxOut_def NullOutPoint_def
      NullMaskValue_def outpoint_ok_def made_key_def uint256_0_def zero_limbs_def int_fits_def MAX_SIZE_def)

text \<open>
  \<open>GetValueOut\<close> fails exactly on a negative output or, for a coinbase or coinstake transaction, on a sum
  that does not fit 64 bits; it returns the sum for those transactions and zero for all others, whatever
  their outputs hold.
\<close>

lemma GetValueOut_correct:
  assumes "list_all (\<lambda>out. int_fits 8 (nValue out)) (vout tx)"
  shows "GetValueOut tx = Inr v \<longleftrightarrow> list_all (\<lambda>out. 0 \<le> nValue out) (vout tx)
    \<and> (if IsCoinBase tx \<or> IsCoinStake tx then total_value (vout tx) < 2 ^ 63 \<and> v = total_value (vout tx) else v = 0)"
proof -
  have "IsCoinAudit tx = IsCoinBase tx" by (simp add: IsCoinAudit_def IsCoinBase_def)
  then show ?thesis
    using value_out_loop_counts [of 0 "vout tx" v] value_out_loop_zero [of "vout tx" v] assms
    by (cases "IsCoinBase tx \<or> IsCoinStake tx") (auto simp: GetValueOut_def)
qed

end
