(* ===== verification/Merkle.thy ===== *)
theory Merkle
  imports Transaction
begin

text \<open>
  The Merkle trees of \<open>primitives/block.cpp\<close>. A tree is one vector: the leaves, then row after row up to
  the root. \<open>BuildMerkleTree\<close> and \<open>BuildPoAMerkleTree\<close> differ in their leaves only, as do the
  functions for branches. The reference is \<open>root_of\<close>, which folds a row by pairs until one hash is left.
\<close>

section \<open>The loops of the code\<close>

definition node :: "(bytes \<Rightarrow> uint256) \<Rightarrow> uint256 \<Rightarrow> uint256 \<Rightarrow> uint256" where
  "node Hash a b = Hash (write_limbs a @ write_limbs b)"

text \<open>The inner loop, from index \<open>i\<close> of the row of \<open>nSize\<close> hashes that starts at \<open>j\<close>.\<close>

function merkle_row :: "(bytes \<Rightarrow> uint256) \<Rightarrow> nat \<Rightarrow> nat \<Rightarrow> nat \<Rightarrow> uint256 list \<Rightarrow> bool \<Rightarrow> uint256 list \<times> bool" where
  "merkle_row Hash j nSize i tree mutated =
     (if i < nSize then
        (let i2 = min (i + 1) (nSize - 1);
             mutated = (mutated \<or> i2 = i + 1 \<and> i2 + 1 = nSize \<and> tree ! (j + i) = tree ! (j + i2))
         in merkle_row Hash j nSize (i + 2) (tree @ [node Hash (tree ! (j + i)) (tree ! (j + i2))]) mutated)
      else (tree, mutated))"
  by pat_completeness auto
termination
  by (relation "measure (\<lambda>(h, j, n, i, t, m). n - i)") auto

declare merkle_row.simps [simp del]

function merkle_rows :: "(bytes \<Rightarrow> uint256) \<Rightarrow> nat \<Rightarrow> nat \<Rightarrow> uint256 list \<Rightarrow> bool \<Rightarrow> uint256 list \<times> bool" where
  "merkle_rows Hash j nSize tree mutated =
     (if nSize > 1 then
        (case merkle_row Hash j nSize 0 tree mutated of
           (tree, mutated) \<Rightarrow> merkle_rows Hash (j + nSize) ((nSize + 1) div 2) tree mutated)
      else (tree, mutated))"
  by pat_completeness auto
termination
  by (relation "measure (\<lambda>(h, j, n, t, m). n)") auto

declare merkle_rows.simps [simp del]

text \<open>The tree over the leaves and whether a mutation was seen; the root of a tree.\<close>

definition build_tree :: "(bytes \<Rightarrow> uint256) \<Rightarrow> uint256 list \<Rightarrow> uint256 list \<times> bool" where
  "build_tree Hash leaves = merkle_rows Hash 0 (length leaves) leaves False"

definition tree_root :: "uint256 list \<Rightarrow> uint256" where
  "tree_root tree = (if tree = [] then uint256_0 else last tree)"

function branch_loop :: "uint256 list \<Rightarrow> nat \<Rightarrow> nat \<Rightarrow> nat \<Rightarrow> uint256 list" where
  "branch_loop tree j nSize nIndex =
     (if nSize > 1 then
        (let i = min (nIndex XOR 1) (nSize - 1)
         in tree ! (j + i) # branch_loop tree (j + nSize) ((nSize + 1) div 2) (nIndex div 2))
      else [])"
  by pat_completeness auto
termination
  by (relation "measure (\<lambda>(t, j, n, i). n)") auto

declare branch_loop.simps [simp del]

fun check_branch_loop :: "(bytes \<Rightarrow> uint256) \<Rightarrow> uint256 \<Rightarrow> uint256 list \<Rightarrow> int \<Rightarrow> uint256" where
  "check_branch_loop Hash h [] nIndex = h"
| "check_branch_loop Hash h (it # branch) nIndex =
     check_branch_loop Hash (if nIndex AND 1 \<noteq> 0 then node Hash it h else node Hash h it) branch (drop_bit 1 nIndex)"

definition CheckMerkleBranch :: "(bytes \<Rightarrow> uint256) \<Rightarrow> uint256 \<Rightarrow> uint256 list \<Rightarrow> int \<Rightarrow> uint256" where
  "CheckMerkleBranch Hash h branch nIndex =
     (if nIndex = -1 then uint256_0 else check_branch_loop Hash h branch nIndex)"

section \<open>Reference: folding by pairs\<close>

fun pair_up :: "('a \<Rightarrow> 'a \<Rightarrow> 'a) \<Rightarrow> 'a list \<Rightarrow> 'a list" where
  "pair_up f [] = []"
| "pair_up f [x] = [f x x]"
| "pair_up f (x # y # xs) = f x y # pair_up f xs"

lemma length_pair_up [simp]: "length (pair_up f xs) = (length xs + 1) div 2"
  by (induction f xs rule: pair_up.induct) auto

lemma pair_up_nth:
  "i < (length xs + 1) div 2 \<Longrightarrow> pair_up f xs ! i = f (xs ! (2 * i)) (xs ! min (2 * i + 1) (length xs - 1))"
proof (induction f xs arbitrary: i rule: pair_up.induct)
  case (3 f x y xs)
  show ?case
  proof (cases i)
    case (Suc k)
    then have k: "k < (length xs + 1) div 2" using 3(2) by auto
    then have "length xs \<noteq> 0" by (cases xs) auto
    then have "min (2 * i + 1) (length (x # y # xs) - 1) = Suc (Suc (min (2 * k + 1) (length xs - 1)))"
      using Suc by (simp add: min_def) arith
    then show ?thesis using Suc 3(1) [OF k] by simp
  qed simp
qed auto

function root_of :: "('a \<Rightarrow> 'a \<Rightarrow> 'a) \<Rightarrow> 'a \<Rightarrow> 'a list \<Rightarrow> 'a" where
  "root_of f z xs = (if length xs > 1 then root_of f z (pair_up f xs) else if xs = [] then z else hd xs)"
  by pat_completeness auto
termination
  by (relation "measure (\<lambda>(f, z, xs). length xs)") auto

declare root_of.simps [simp del]

text \<open>The rows of the tree, and the places where the code reports a mutation: two equal hashes that end a row.\<close>

function rows_of :: "('a \<Rightarrow> 'a \<Rightarrow> 'a) \<Rightarrow> 'a list \<Rightarrow> 'a list" where
  "rows_of f xs = (if length xs > 1 then xs @ rows_of f (pair_up f xs) else xs)"
  by pat_completeness auto
termination
  by (relation "measure (\<lambda>(f, xs). length xs)") auto

declare rows_of.simps [simp del]

definition row_mutated :: "'a list \<Rightarrow> bool" where
  "row_mutated xs \<longleftrightarrow> length xs > 1 \<and> even (length xs) \<and> xs ! (length xs - 2) = xs ! (length xs - 1)"

function tree_mutated :: "('a \<Rightarrow> 'a \<Rightarrow> 'a) \<Rightarrow> 'a list \<Rightarrow> bool" where
  "tree_mutated f xs = (if length xs > 1 then row_mutated xs \<or> tree_mutated f (pair_up f xs) else False)"
  by pat_completeness auto
termination
  by (relation "measure (\<lambda>(f, xs). length xs)") auto

declare tree_mutated.simps [simp del]

section \<open>The loops compute the reference\<close>

lemma take_pair_up:
  assumes "2 * i < length xs"
  shows "take (i + 1) (pair_up f xs) =
    take i (pair_up f xs) @ [f (xs ! (2 * i)) (xs ! min (2 * i + 1) (length xs - 1))]"
proof -
  have "i < length (pair_up f xs)" using assms by simp
  then show ?thesis using pair_up_nth [of i xs f] by (simp add: take_Suc_conv_app_nth)
qed

lemma merkle_row_pairs:
  assumes "length pre = j" "nSize = length xs" "2 * k \<le> nSize + 1"
  shows "merkle_row Hash j nSize (2 * k) (pre @ xs @ take k (pair_up (node Hash) xs)) mutated =
    (pre @ xs @ pair_up (node Hash) xs, mutated \<or> 2 * k < nSize \<and> row_mutated xs)"
  using assms
proof (induction "nSize - 2 * k" arbitrary: k mutated rule: less_induct)
  case less
  show ?case
  proof (cases "2 * k < nSize")
    case False
    then have "take k (pair_up (node Hash) xs) = pair_up (node Hash) xs" using less.prems by simp
    with False show ?thesis by (subst merkle_row.simps) simp
  next
    case True
    let ?i2 = "min (2 * k + 1) (nSize - 1)"
    have n: "(pre @ xs @ t) ! (j + i) = xs ! i" if "i < nSize" for i t
      using that less.prems by (simp add: nth_append)
    have i2: "?i2 < nSize" using True by simp
    have t: "take (k + 1) (pair_up (node Hash) xs) =
        take k (pair_up (node Hash) xs) @ [node Hash (xs ! (2 * k)) (xs ! ?i2)]"
      using take_pair_up [of k xs "node Hash"] True less.prems(2) by simp
    have e: "2 * (k + 1) = 2 * k + 2" by simp
    let ?m = "mutated \<or> ?i2 = 2 * k + 1 \<and> ?i2 + 1 = nSize \<and> xs ! (2 * k) = xs ! ?i2"
    have "2 * (k + 1) < nSize \<or> nSize = 2 * k + 1 \<or> nSize = 2 * k + 2" using True by arith
    then consider "2 * (k + 1) < nSize" | "nSize = 2 * k + 1" | "nSize = 2 * k + 2" by blast
    then have m: "(?m \<or> 2 * (k + 1) < nSize \<and> row_mutated xs) = (mutated \<or> row_mutated xs)"
    proof cases
      case 1
      then have "?i2 + 1 \<noteq> nSize" by simp
      with 1 show ?thesis by simp
    next
      case 2
      then have "\<not> row_mutated xs" "?i2 \<noteq> 2 * k + 1" using less.prems(2) by (simp_all add: row_mutated_def)
      with 2 show ?thesis by simp
    next
      case 3
      then have "row_mutated xs \<longleftrightarrow> xs ! (2 * k) = xs ! ?i2" using less.prems(2) by (simp add: row_mutated_def)
      with 3 show ?thesis by simp
    qed
    have "merkle_row Hash j nSize (2 * k) (pre @ xs @ take k (pair_up (node Hash) xs)) mutated =
        merkle_row Hash j nSize (2 * (k + 1)) (pre @ xs @ take (k + 1) (pair_up (node Hash) xs)) ?m"
      by (subst merkle_row.simps) (simp only: True if_True Let_def n [OF True] n [OF i2] t append_assoc e)
    also have "\<dots> = (pre @ xs @ pair_up (node Hash) xs, ?m \<or> 2 * (k + 1) < nSize \<and> row_mutated xs)"
      by (rule less.hyps) (use True less.prems in auto)
    finally show ?thesis using m True by simp
  qed
qed

lemma merkle_rows_eq:
  assumes "length pre = j" "nSize = length xs"
  shows "merkle_rows Hash j nSize (pre @ xs) mutated =
    (pre @ rows_of (node Hash) xs, mutated \<or> tree_mutated (node Hash) xs)"
  using assms
proof (induction "length xs" arbitrary: pre xs j nSize mutated rule: less_induct)
  case less
  show ?case
  proof (cases "nSize > 1")
    case False
    then show ?thesis
      using less.prems by (subst merkle_rows.simps, subst rows_of.simps, subst tree_mutated.simps) simp
  next
    case True
    have r: "merkle_row Hash j nSize 0 (pre @ xs) mutated =
        ((pre @ xs) @ pair_up (node Hash) xs, mutated \<or> row_mutated xs)"
      using merkle_row_pairs [OF less.prems, of 0 Hash mutated] True by simp
    have "merkle_rows Hash (j + nSize) ((nSize + 1) div 2) ((pre @ xs) @ pair_up (node Hash) xs) (mutated \<or> row_mutated xs) =
        ((pre @ xs) @ rows_of (node Hash) (pair_up (node Hash) xs),
         (mutated \<or> row_mutated xs) \<or> tree_mutated (node Hash) (pair_up (node Hash) xs))"
      by (rule less.hyps) (use True less.prems in auto)
    then show ?thesis
      using True less.prems r
      by (subst merkle_rows.simps, subst rows_of.simps, subst tree_mutated.simps) auto
  qed
qed

lemma build_tree_eq: "build_tree Hash leaves = (rows_of (node Hash) leaves, tree_mutated (node Hash) leaves)"
  using merkle_rows_eq [of "[]" 0 "length leaves" leaves Hash False] by (simp add: build_tree_def)

lemma rows_of_nonempty: "xs \<noteq> [] \<Longrightarrow> rows_of f xs \<noteq> []"
  by (subst rows_of.simps) simp

lemma last_rows_of: "xs \<noteq> [] \<Longrightarrow> last (rows_of f xs) = root_of f z xs"
proof (induction "length xs" arbitrary: xs rule: less_induct)
  case less
  show ?case
  proof (cases "length xs > 1")
    case True
    then have "pair_up f xs \<noteq> []" "length (pair_up f xs) < length xs" by (auto simp flip: length_0_conv)
    then show ?thesis
      using True less.hyps [of "pair_up f xs"] rows_of_nonempty [of "pair_up f xs" f]
      by (subst rows_of.simps, subst root_of.simps) simp
  next
    case False
    then have "last xs = hd xs" using less.prems by (cases xs) auto
    then show ?thesis using False less.prems by (subst rows_of.simps, subst root_of.simps) simp
  qed
qed

lemma tree_root_build: "tree_root (fst (build_tree Hash leaves)) = root_of (node Hash) uint256_0 leaves"
proof (cases "leaves = []")
  case True
  then show ?thesis by (simp add: build_tree_eq tree_root_def rows_of.simps root_of.simps)
next
  case False
  then show ?thesis by (simp add: build_tree_eq tree_root_def rows_of_nonempty last_rows_of)
qed

section \<open>A branch leads from its leaf to the root\<close>

lemma nat_xor_1: "(i :: nat) XOR Suc 0 = (if even i then i + 1 else i - 1)"
  by (simp add: xor_Suc_0_eq)

lemma pair_up_half:
  assumes "i < length xs"
  shows "pair_up f xs ! (i div 2) =
    (if odd i then f (xs ! min (i XOR 1) (length xs - 1)) (xs ! i) else f (xs ! i) (xs ! min (i XOR 1) (length xs - 1)))"
proof -
  have "i div 2 < (length xs + 1) div 2" using assms by linarith
  note p = pair_up_nth [OF this]
  show ?thesis
  proof (cases "even i")
    case True
    then show ?thesis using p by (simp add: nat_xor_1)
  next
    case False
    then obtain k where k: "i = 2 * k + 1" by (auto elim: oddE)
    then have "i div 2 = k" "min (2 * k + 1) (length xs - 1) = i" "min (i XOR 1) (length xs - 1) = 2 * k"
      using assms by (simp_all add: nat_xor_1)
    then show ?thesis using p False by simp
  qed
qed

lemma check_branch:
  assumes "length pre = j" "nSize = length xs" "i < nSize"
  shows "check_branch_loop Hash (xs ! i) (branch_loop (pre @ rows_of (node Hash) xs) j nSize i) (int i) =
    root_of (node Hash) z xs"
  using assms
proof (induction "length xs" arbitrary: pre xs j nSize i rule: less_induct)
  case less
  show ?case
  proof (cases "nSize > 1")
    case False
    then have "i = 0" "xs \<noteq> []" using less.prems by auto
    then have "xs ! i = hd xs" by (simp add: hd_conv_nth)
    then show ?thesis using False less.prems by (subst branch_loop.simps, subst root_of.simps) auto
  next
    case True
    let ?ps = "pair_up (node Hash) xs" and ?k = "min (i XOR 1) (nSize - 1)"
    have rows: "pre @ rows_of (node Hash) xs = (pre @ xs) @ rows_of (node Hash) ?ps"
      using True less.prems(2) by (subst rows_of.simps) simp
    have "?k < length xs" using True less.prems(2) by simp
    then have at: "((pre @ xs) @ rows_of (node Hash) ?ps) ! (j + ?k) = xs ! ?k"
      using less.prems(1) by (simp add: nth_append del: min_less_iff_disj)
    have ih: "check_branch_loop Hash (?ps ! (i div 2))
        (branch_loop ((pre @ xs) @ rows_of (node Hash) ?ps) (j + nSize) ((nSize + 1) div 2) (i div 2)) (int (i div 2)) =
        root_of (node Hash) z ?ps"
      by (rule less.hyps) (use True less.prems in auto)
    have b: "drop_bit 1 (int i) = int (i div 2)" "int i AND 1 \<noteq> 0 \<longleftrightarrow> odd i"
      by (simp add: drop_bit_Suc zdiv_int, simp only: and_one_eq, presburger)
    have p: "?ps ! (i div 2) = (if odd i then node Hash (xs ! ?k) (xs ! i) else node Hash (xs ! i) (xs ! ?k))"
      using pair_up_half [of i xs] less.prems by simp
    have "branch_loop (pre @ rows_of (node Hash) xs) j nSize i =
        xs ! ?k # branch_loop ((pre @ xs) @ rows_of (node Hash) ?ps) (j + nSize) ((nSize + 1) div 2) (i div 2)"
      unfolding rows by (subst branch_loop.simps) (simp only: True if_True Let_def at)
    then show ?thesis
      using ih p True less.prems(2) by (simp only: check_branch_loop.simps b) (subst root_of.simps, simp)
  qed
qed

section \<open>The root binds the leaves\<close>

function levels :: "nat \<Rightarrow> nat" where
  "levels k = (if k > 1 then Suc (levels ((k + 1) div 2)) else 0)"
  by pat_completeness auto
termination
  by (relation "measure id") auto

declare levels.simps [simp del]

text \<open>The pairs that are hashed for a row, and for the rows of a tree.\<close>

fun row_pairs :: "'a list \<Rightarrow> ('a \<times> 'a) list" where
  "row_pairs [] = []"
| "row_pairs [x] = [(x, x)]"
| "row_pairs (x # y # xs) = (x, y) # row_pairs xs"

lemma row_pairs_Nil [simp]: "row_pairs xs = [] \<longleftrightarrow> xs = []" "[] = row_pairs xs \<longleftrightarrow> xs = []"
  by (cases xs rule: row_pairs.cases; auto)+

lemma pair_up_row_pairs: "pair_up f xs = map (\<lambda>(a, b). f a b) (row_pairs xs)"
  by (induction f xs rule: pair_up.induct) auto

function tree_pairs :: "('a \<Rightarrow> 'a \<Rightarrow> 'a) \<Rightarrow> 'a list \<Rightarrow> ('a \<times> 'a) list" where
  "tree_pairs f xs = (if length xs > 1 then row_pairs xs @ tree_pairs f (pair_up f xs) else [])"
  by pat_completeness auto
termination
  by (relation "measure (\<lambda>(f, xs). length xs)") auto

declare tree_pairs.simps [simp del]

text \<open>No two of the pairs hashed for the trees over \<open>xs\<close> and \<open>ys\<close> collide.\<close>

definition collision_free :: "('a \<Rightarrow> 'a \<Rightarrow> 'a) \<Rightarrow> 'a list \<Rightarrow> 'a list \<Rightarrow> bool" where
  "collision_free f xs ys \<longleftrightarrow> inj_on (\<lambda>(a, b). f a b) (set (tree_pairs f xs) \<union> set (tree_pairs f ys))"

lemma row_mutated_Cons2: "xs \<noteq> [] \<Longrightarrow> row_mutated (x # y # xs) \<longleftrightarrow> (length xs > 1 \<and> row_mutated xs)"
  by (cases xs rule: rev_cases) (auto simp: row_mutated_def nth_Cons' Suc_lessI)

lemma row_mutated_tail:
  assumes "row_mutated xs"
  shows "row_mutated (x # y # xs)"
proof -
  have "length xs > 1" using assms by (simp add: row_mutated_def)
  then have "xs \<noteq> []" by auto
  then show ?thesis using row_mutated_Cons2 [of xs x y] \<open>length xs > 1\<close> assms by blast
qed

lemma row_pairs_inj:
  "row_pairs xs = row_pairs ys \<Longrightarrow> \<not> row_mutated xs \<Longrightarrow> \<not> row_mutated ys \<Longrightarrow> xs = ys"
proof (induction xs arbitrary: ys rule: row_pairs.induct)
  case 1
  then show ?case by (cases ys rule: row_pairs.cases) auto
next
  case (2 x)
  then show ?case
  proof (cases ys rule: row_pairs.cases)
    case (3 a b ys')
    then have "ys' = []" "a = b" using 2(1) by auto
    then show ?thesis using 3 2(3) by (simp add: row_mutated_def)
  qed auto
next
  case (3 x y xs)
  show ?case
  proof (cases ys rule: row_pairs.cases)
    case (2 z)
    then have "xs = []" "x = y" using 3(2) by auto
    then show ?thesis using 3(3) by (simp add: row_mutated_def)
  next
    case ys: (3 a b ys')
    then have "\<not> row_mutated xs" "\<not> row_mutated ys'" "row_pairs xs = row_pairs ys'"
      using 3(2-4) row_mutated_tail [of xs x y] row_mutated_tail [of ys' a b] by auto
    then show ?thesis using 3(1) [of ys'] 3(2) ys by simp
  qed (use 3(2) in auto)
qed

lemma root_binds:
  "xs \<noteq> [] \<Longrightarrow> ys \<noteq> [] \<Longrightarrow> levels (length xs) = levels (length ys) \<Longrightarrow> root_of f z xs = root_of f z ys
    \<Longrightarrow> \<not> tree_mutated f xs \<Longrightarrow> \<not> tree_mutated f ys
    \<Longrightarrow> collision_free f xs ys \<Longrightarrow> xs = ys"
proof (induction "length xs" arbitrary: xs ys rule: less_induct)
  case less
  have lv: "levels k = (if k > 1 then Suc (levels ((k + 1) div 2)) else 0)" for k by (rule levels.simps)
  have same: "length xs > 1 \<longleftrightarrow> length ys > 1"
    using less.prems(3) lv [of "length xs"] lv [of "length ys"] by (auto split: if_splits)
  show ?case
  proof (cases "length xs > 1")
    case False
    then have "length xs = 1" "length ys = 1" using less.prems(1,2) same
      by (simp_all add: Suc_leI le_antisym not_less flip: length_greater_0_conv)
    then obtain a b where "xs = [a]" "ys = [b]" by (auto simp: length_Suc_conv)
    then show ?thesis using less.prems(4) by (simp add: root_of.simps)
  next
    case True
    then have ty: "length ys > 1" using same by simp
    have tp: "set (tree_pairs f xs) = set (row_pairs xs) \<union> set (tree_pairs f (pair_up f xs))"
      "set (tree_pairs f ys) = set (row_pairs ys) \<union> set (tree_pairs f (pair_up f ys))"
      using True ty tree_pairs.simps [of f xs] tree_pairs.simps [of f ys] by simp_all
    have "pair_up f xs = pair_up f ys"
    proof (rule less.hyps)
      show "length (pair_up f xs) < length xs" using True by simp
      show "pair_up f xs \<noteq> []" "pair_up f ys \<noteq> []" using True ty by (auto simp flip: length_0_conv)
      show "levels (length (pair_up f xs)) = levels (length (pair_up f ys))"
        using less.prems(3) True ty lv [of "length xs"] lv [of "length ys"] by simp
      show "root_of f z (pair_up f xs) = root_of f z (pair_up f ys)"
        using less.prems(4) True ty root_of.simps [of f z xs] root_of.simps [of f z ys] by simp
      show "\<not> tree_mutated f (pair_up f xs)" "\<not> tree_mutated f (pair_up f ys)"
        using less.prems(5,6) True ty tree_mutated.simps [of f xs] tree_mutated.simps [of f ys] by simp_all
      show "collision_free f (pair_up f xs) (pair_up f ys)"
        unfolding collision_free_def by (rule inj_on_subset [OF less.prems(7) [unfolded collision_free_def]]) (auto simp: tp)
    qed
    moreover have "inj_on (\<lambda>(a, b). f a b) (set (row_pairs xs) \<union> set (row_pairs ys))"
      by (rule inj_on_subset [OF less.prems(7) [unfolded collision_free_def]]) (auto simp: tp)
    ultimately have "row_pairs xs = row_pairs ys"
      unfolding pair_up_row_pairs by (rule map_inj_on)
    moreover have "\<not> row_mutated xs" "\<not> row_mutated ys"
      using less.prems(5,6) True ty tree_mutated.simps [of f xs] tree_mutated.simps [of f ys] by simp_all
    ultimately show ?thesis by (rule row_pairs_inj)
  qed
qed

end
