(* ===== verification/Block.thy ===== *)
theory Block
  imports Merkle Script_Standard
begin

text \<open>
  \<open>primitives/block.h\<close> and \<open>primitives/block.cpp\<close>: block headers, blocks of the three kinds (proof of
  work, stake and audit), their hashes and serialisation, the Merkle trees over the transactions and
  over the audited proof-of-stake blocks, and the signature of a block. \<open>Hash\<close> (double SHA-256) and
  \<open>HashQuark\<close> are arguments, and so are the key store and the signature operations.
\<close>

section \<open>Headers\<close>

record CBlockHeader =
  nVersion :: int
  hashPrevBlock :: uint256
  hashMerkleRoot :: uint256
  nTime :: u32
  nBits :: u32
  nNonce :: u32
  nAccumulatorCheckpoint :: uint256
  hashPrevPoABlock :: uint256
  hashPoAMerkleRoot :: uint256
  minedHash :: uint256

definition POA_BLOCK_VERSION_LOW_LIMIT :: int where
  "POA_BLOCK_VERSION_LOW_LIMIT = 100"

definition IsPoABlockByVersion :: "'a CBlockHeader_scheme \<Rightarrow> bool" where
  "IsPoABlockByVersion h \<longleftrightarrow> nVersion h \<ge> POA_BLOCK_VERSION_LOW_LIMIT"

definition SetVersionPoABlock :: "'a CBlockHeader_scheme \<Rightarrow> 'a CBlockHeader_scheme" where
  "SetVersionPoABlock h = h\<lparr>nVersion := POA_BLOCK_VERSION_LOW_LIMIT\<rparr>"

definition NullHeader :: CBlockHeader where
  "NullHeader = \<lparr>nVersion = 4, hashPrevBlock = uint256_0, hashMerkleRoot = uint256_0, nTime = 0, nBits = 0,
     nNonce = 0, nAccumulatorCheckpoint = uint256_0, hashPrevPoABlock = uint256_0, hashPoAMerkleRoot = uint256_0,
     minedHash = uint256_0\<rparr>"

definition HeaderIsNull :: "'a CBlockHeader_scheme \<Rightarrow> bool" where
  "HeaderIsNull h \<longleftrightarrow> nBits h = 0"

definition write_CBlockHeader :: "'a CBlockHeader_scheme \<Rightarrow> bytes" where
  "write_CBlockHeader h =
     write_int 4 (nVersion h) @ write_limbs (hashPrevBlock h) @ write_limbs (hashMerkleRoot h)
     @ (if IsPoABlockByVersion h
        then write_limbs (hashPrevPoABlock h) @ write_limbs (hashPoAMerkleRoot h) @ write_limbs (minedHash h) else [])
     @ write_word 4 (nTime h) @ write_word 4 (nBits h) @ write_word 4 (nNonce h)"

definition read_CBlockHeader :: "bytes \<Rightarrow> (CBlockHeader \<times> bytes) option" where
  "read_CBlockHeader bs = do {
     (version, bs) \<leftarrow> read_int 4 bs;
     (prev, bs) \<leftarrow> read_limbs 8 bs;
     (merkle, bs) \<leftarrow> read_limbs 8 bs;
     let h = NullHeader\<lparr>nVersion := version, hashPrevBlock := prev, hashMerkleRoot := merkle\<rparr>;
     (h, bs) \<leftarrow> (if IsPoABlockByVersion h then do {
         (prevPoA, bs) \<leftarrow> read_limbs 8 bs;
         (merklePoA, bs) \<leftarrow> read_limbs 8 bs;
         (mined, bs) \<leftarrow> read_limbs 8 bs;
         Some (h\<lparr>hashPrevPoABlock := prevPoA, hashPoAMerkleRoot := merklePoA, minedHash := mined\<rparr>, bs) }
       else Some (h, bs));
     (time, bs) \<leftarrow> read_word 4 bs;
     (bits, bs) \<leftarrow> read_word 4 bs;
     (nonce, bs) \<leftarrow> read_word 4 bs;
     Some (h\<lparr>nTime := time, nBits := bits, nNonce := nonce\<rparr>, bs) }"

text \<open>
  A header that the reader can return: the accumulator checkpoint is not serialised, and the
  audit fields only for an audit block.
\<close>

definition header_ok :: "'a CBlockHeader_scheme \<Rightarrow> bool" where
  "header_ok h \<longleftrightarrow> int_fits 4 (nVersion h) \<and> length (hashPrevBlock h) = 8 \<and> length (hashMerkleRoot h) = 8
     \<and> nAccumulatorCheckpoint h = uint256_0
     \<and> (if IsPoABlockByVersion h
        then length (hashPrevPoABlock h) = 8 \<and> length (hashPoAMerkleRoot h) = 8 \<and> length (minedHash h) = 8
        else hashPrevPoABlock h = uint256_0 \<and> hashPoAMerkleRoot h = uint256_0 \<and> minedHash h = uint256_0)"

text \<open>The header part of a header or of a block.\<close>

definition GetBlockHeader :: "'a CBlockHeader_scheme \<Rightarrow> CBlockHeader" where
  "GetBlockHeader b = \<lparr>nVersion = nVersion b, hashPrevBlock = hashPrevBlock b, hashMerkleRoot = hashMerkleRoot b,
     nTime = nTime b, nBits = nBits b, nNonce = nNonce b, nAccumulatorCheckpoint = nAccumulatorCheckpoint b,
     hashPrevPoABlock = hashPrevPoABlock b, hashPoAMerkleRoot = hashPoAMerkleRoot b, minedHash = minedHash b\<rparr>"

lemma read_CBlockHeader_write [codec_simps]:
  assumes "header_ok h"
  shows "read_CBlockHeader (write_CBlockHeader h @ rest) = Some (GetBlockHeader h, rest)"
proof (cases "IsPoABlockByVersion h")
  case True
  with assms show ?thesis
    by (simp add: read_CBlockHeader_def write_CBlockHeader_def header_ok_def GetBlockHeader_def NullHeader_def
        IsPoABlockByVersion_def codec_simps)
next
  case False
  with assms show ?thesis
    by (simp add: read_CBlockHeader_def write_CBlockHeader_def header_ok_def GetBlockHeader_def NullHeader_def
        IsPoABlockByVersion_def codec_simps)
qed

lemma write_CBlockHeader_nonempty [simp]: "write_CBlockHeader h \<noteq> []"
  by (simp add: write_CBlockHeader_def write_word_nonempty)

lemma GetBlockHeader_id [simp]: "GetBlockHeader (h :: CBlockHeader) = h"
  by (cases h) (simp add: GetBlockHeader_def)

interpretation header: prefix_codec "write_CBlockHeader :: CBlockHeader \<Rightarrow> bytes" read_CBlockHeader header_ok
  by standard (simp_all add: codec_simps)

text \<open>The hashes of a header; the members of the class are contiguous in memory.\<close>

definition ComputeMinedHash :: "(bytes \<Rightarrow> uint256) \<Rightarrow> 'a CBlockHeader_scheme \<Rightarrow> uint256" where
  "ComputeMinedHash Hash h =
     (if IsPoABlockByVersion h
      then Hash (write_int 4 (nVersion h) @ write_limbs (hashMerkleRoot h) @ write_limbs (hashPrevPoABlock h)
             @ write_limbs (hashPoAMerkleRoot h) @ write_word 4 (nTime h) @ write_word 4 (nBits h) @ write_word 4 (nNonce h))
      else uint256_0)"

definition header_memory :: "'a CBlockHeader_scheme \<Rightarrow> bytes" where
  "header_memory h =
     write_int 4 (nVersion h) @ write_limbs (hashPrevBlock h) @ write_limbs (hashMerkleRoot h)
     @ write_word 4 (nTime h) @ write_word 4 (nBits h) @ write_word 4 (nNonce h)"

definition HeaderGetHash ::
  "(bytes \<Rightarrow> uint256) \<Rightarrow> (bytes \<Rightarrow> uint256) \<Rightarrow> 'a CBlockHeader_scheme \<Rightarrow> uint256" where
  "HeaderGetHash Hash HashQuark h =
     (if IsPoABlockByVersion h then Hash (write_limbs (hashPrevBlock h) @ write_limbs (minedHash h))
      else if nVersion h < 4 then HashQuark (header_memory h)
      else Hash (header_memory h @ write_limbs (nAccumulatorCheckpoint h)))"

definition HeaderGetBlockTime :: "'a CBlockHeader_scheme \<Rightarrow> int" where
  "HeaderGetBlockTime h = uint (nTime h)"

section \<open>Audited blocks\<close>

record PoSBlockSummary =
  pos_hash :: uint256
  pos_nTime :: u32
  pos_height :: u32

definition write_PoSBlockSummary :: "PoSBlockSummary \<Rightarrow> bytes" where
  "write_PoSBlockSummary p = write_limbs (pos_hash p) @ write_word 4 (pos_nTime p) @ write_word 4 (pos_height p)"

definition read_PoSBlockSummary :: "bytes \<Rightarrow> (PoSBlockSummary \<times> bytes) option" where
  "read_PoSBlockSummary bs = do {
     (h, bs) \<leftarrow> read_limbs 8 bs;
     (t, bs) \<leftarrow> read_word 4 bs;
     (k, bs) \<leftarrow> read_word 4 bs;
     Some (\<lparr>pos_hash = h, pos_nTime = t, pos_height = k\<rparr>, bs) }"

definition summary_ok :: "PoSBlockSummary \<Rightarrow> bool" where
  "summary_ok p \<longleftrightarrow> length (pos_hash p) = 8"

definition SummaryGetHash :: "(bytes \<Rightarrow> uint256) \<Rightarrow> PoSBlockSummary \<Rightarrow> uint256" where
  "SummaryGetHash Hash p = Hash (write_limbs (pos_hash p) @ write_word 4 (pos_nTime p) @ write_word 4 (pos_height p))"

lemma read_PoSBlockSummary_write [codec_simps]:
  "summary_ok p \<Longrightarrow> read_PoSBlockSummary (write_PoSBlockSummary p @ rest) = Some (p, rest)"
  by (simp add: read_PoSBlockSummary_def write_PoSBlockSummary_def summary_ok_def codec_simps)

lemma write_PoSBlockSummary_nonempty [simp]: "write_PoSBlockSummary p \<noteq> []"
  by (simp add: write_PoSBlockSummary_def write_word_nonempty)

interpretation summary: prefix_codec write_PoSBlockSummary read_PoSBlockSummary summary_ok
  by standard (simp_all add: codec_simps)

section \<open>Blocks\<close>

text \<open>A block is a header with its transactions; \<open>payee\<close>, which is memory only, is left out.\<close>

record CBlock = CBlockHeader +
  vtx :: "CTransaction list"
  posBlocksAudited :: "PoSBlockSummary list"
  vchBlockSig :: bytes
  vMerkleTree :: "uint256 list"
  poaMerkleTree :: "uint256 list"

definition NullBlock :: CBlock where
  "NullBlock = CBlockHeader.extend NullHeader
     \<lparr>vtx = [], posBlocksAudited = [], vchBlockSig = [], vMerkleTree = [], poaMerkleTree = []\<rparr>"

definition BlockOfHeader :: "CBlockHeader \<Rightarrow> CBlock" where
  "BlockOfHeader h = CBlockHeader.extend h
     \<lparr>vtx = [], posBlocksAudited = [], vchBlockSig = [], vMerkleTree = [], poaMerkleTree = []\<rparr>"

definition IsProofOfAudit :: "CBlock \<Rightarrow> bool" where
  "IsProofOfAudit b \<longleftrightarrow> IsPoABlockByVersion b"

definition HasCoinStake :: "CTransaction list \<Rightarrow> bool" where
  "HasCoinStake txs \<longleftrightarrow> length txs > 1 \<and> IsCoinStake (txs ! 1)"

definition IsProofOfStake :: "CBlock \<Rightarrow> bool" where
  "IsProofOfStake b \<longleftrightarrow> HasCoinStake (vtx b) \<and> \<not> IsProofOfAudit b"

definition IsProofOfWork :: "CBlock \<Rightarrow> bool" where
  "IsProofOfWork b \<longleftrightarrow> \<not> IsProofOfStake b \<and> \<not> IsProofOfAudit b"

definition GetProofOfStake :: "CBlock \<Rightarrow> COutPoint \<times> u32" where
  "GetProofOfStake b =
     (if IsProofOfStake b then (prevout (vin (vtx b ! 1) ! 0), nTime b) else (NullOutPoint, 0))"

definition write_CBlock :: "CBlock \<Rightarrow> bytes" where
  "write_CBlock b =
     write_CBlockHeader b @ write_vector write_CTransaction (vtx b)
     @ (if HasCoinStake (vtx b) then write_bytes (vchBlockSig b) else [])
     @ (if IsProofOfAudit b then write_vector write_PoSBlockSummary (posBlocksAudited b) else [])"

definition read_CBlock :: "bytes \<Rightarrow> (CBlock \<times> bytes) option" where
  "read_CBlock bs = do {
     (h, bs) \<leftarrow> read_CBlockHeader bs;
     (txs, bs) \<leftarrow> read_vector read_CTransaction bs;
     (sig, bs) \<leftarrow> (if HasCoinStake txs then read_bytes bs else Some ([], bs));
     let b = (BlockOfHeader h)\<lparr>vtx := txs, vchBlockSig := sig\<rparr>;
     (audited, bs) \<leftarrow> (if IsProofOfAudit b then read_vector read_PoSBlockSummary bs else Some ([], bs));
     Some (b\<lparr>posBlocksAudited := audited\<rparr>, bs) }"

definition block_ok :: "CBlock \<Rightarrow> bool" where
  "block_ok b \<longleftrightarrow> header_ok b \<and> length (vtx b) \<le> MAX_SIZE \<and> list_all tx_ok (vtx b)
     \<and> (if HasCoinStake (vtx b) then length (vchBlockSig b) \<le> MAX_SIZE else vchBlockSig b = [])
     \<and> (if IsProofOfAudit b then length (posBlocksAudited b) \<le> MAX_SIZE \<and> list_all summary_ok (posBlocksAudited b)
        else posBlocksAudited b = [])
     \<and> vMerkleTree b = [] \<and> poaMerkleTree b = []"

lemma read_CBlock_write [codec_simps]:
  assumes "block_ok b"
  shows "read_CBlock (write_CBlock b @ rest) = Some (b, rest)"
proof -
  have poa: "IsPoABlockByVersion (BlockOfHeader (GetBlockHeader b)\<lparr>vtx := t, vchBlockSig := s\<rparr>) = IsPoABlockByVersion b" for t s
    by (simp add: IsPoABlockByVersion_def BlockOfHeader_def GetBlockHeader_def CBlockHeader.extend_def)
  have id: "BlockOfHeader (GetBlockHeader b)\<lparr>vtx := vtx b, vchBlockSig := vchBlockSig b, posBlocksAudited := posBlocksAudited b\<rparr> = b"
    using assms by (cases b) (simp add: block_ok_def BlockOfHeader_def GetBlockHeader_def CBlockHeader.extend_def)
  consider "HasCoinStake (vtx b)" "IsPoABlockByVersion b"
    | "HasCoinStake (vtx b)" "\<not> IsPoABlockByVersion b"
    | "\<not> HasCoinStake (vtx b)" "IsPoABlockByVersion b"
    | "\<not> HasCoinStake (vtx b)" "\<not> IsPoABlockByVersion b"
    by blast
  then show ?thesis
    by cases (use assms id in \<open>simp_all add: read_CBlock_def write_CBlock_def block_ok_def IsProofOfAudit_def poa
        codec_simps transaction.read_write_vector summary.read_write_vector\<close>)
qed

lemma write_CBlock_nonempty [simp]: "write_CBlock b \<noteq> []"
  by (simp add: write_CBlock_def)

interpretation block: prefix_codec write_CBlock read_CBlock block_ok
  by standard (simp_all add: codec_simps)

section \<open>Merkle trees of a block\<close>

text \<open>The trees are cached in the block; the result is the block with its tree, the root and \<open>fMutated\<close>.\<close>

definition BuildMerkleTree :: "(bytes \<Rightarrow> uint256) \<Rightarrow> CBlock \<Rightarrow> CBlock \<times> uint256 \<times> bool" where
  "BuildMerkleTree Hash b =
     (case build_tree Hash (map (GetHash Hash) (vtx b)) of
        (tree, mutated) \<Rightarrow> (b\<lparr>vMerkleTree := tree\<rparr>, tree_root tree, mutated))"

definition BuildPoAMerkleTree :: "(bytes \<Rightarrow> uint256) \<Rightarrow> CBlock \<Rightarrow> CBlock \<times> uint256 \<times> bool" where
  "BuildPoAMerkleTree Hash b =
     (case build_tree Hash (map (SummaryGetHash Hash) (posBlocksAudited b)) of
        (tree, mutated) \<Rightarrow> (b\<lparr>poaMerkleTree := tree\<rparr>, tree_root tree, mutated))"

definition GetMerkleBranch :: "(bytes \<Rightarrow> uint256) \<Rightarrow> CBlock \<Rightarrow> nat \<Rightarrow> CBlock \<times> uint256 list" where
  "GetMerkleBranch Hash b nIndex =
     (let b = (if vMerkleTree b = [] then fst (BuildMerkleTree Hash b) else b)
      in (b, branch_loop (vMerkleTree b) 0 (length (vtx b)) nIndex))"

definition GetPoAMerkleBranch :: "(bytes \<Rightarrow> uint256) \<Rightarrow> CBlock \<Rightarrow> nat \<Rightarrow> CBlock \<times> uint256 list" where
  "GetPoAMerkleBranch Hash b nIndex =
     (let b = (if poaMerkleTree b = [] then fst (BuildPoAMerkleTree Hash b) else b)
      in (b, branch_loop (poaMerkleTree b) 0 (length (posBlocksAudited b)) nIndex))"

section \<open>Block signatures\<close>

text \<open>\<open>CKeyID(uint160(v))\<close>: the constructor of \<open>uint160\<close> throws on a vector that is not of 20 bytes.\<close>

definition uint160_of_vector :: "bytes \<Rightarrow> uint_error + bytes" where
  "uint160_of_vector v = (if length v \<noteq> 20 then Inl WrongSize else Inr v)"

record 'key keystore =
  GetKey :: "bytes \<Rightarrow> 'key option"
  Sign :: "'key \<Rightarrow> uint256 \<Rightarrow> bytes option"

definition sign_with :: "'key keystore \<Rightarrow> uint256 \<Rightarrow> bytes \<Rightarrow> CBlock \<Rightarrow> bool \<times> CBlock" where
  "sign_with ks h keyID b = (case GetKey ks keyID of
     None \<Rightarrow> (False, b)
   | Some key \<Rightarrow> (case Sign ks key h of None \<Rightarrow> (False, b) | Some sig \<Rightarrow> (True, b\<lparr>vchBlockSig := sig\<rparr>)))"

fun sign_loop :: "'key keystore \<Rightarrow> uint256 \<Rightarrow> CTxOut list \<Rightarrow> CBlock \<Rightarrow> uint_error + bool \<times> CBlock" where
  "sign_loop ks h [] b = Inr (False, b)"
| "sign_loop ks h (txout # outs) b =
     (case Solver (scriptPubKey txout) of (ok, whichType, vSolutions) \<Rightarrow>
        if \<not> ok then sign_loop ks h outs b
        else if whichType = TX_PUBKEY then
          (case uint160_of_vector (vSolutions ! 0) of
             Inl e \<Rightarrow> Inl e | Inr keyID \<Rightarrow> Inr (sign_with ks h keyID b))
        else sign_loop ks h outs b)"

definition SignBlock ::
  "(bytes \<Rightarrow> bytes) \<Rightarrow> 'key keystore \<Rightarrow> uint256 \<Rightarrow> CBlock \<Rightarrow> uint_error + bool \<times> CBlock" where
  "SignBlock Hash160 ks h b =
     (if \<not> IsProofOfStake b then sign_loop ks h (vout (vtx b ! 0)) b
      else case Solver (scriptPubKey (vout (vtx b ! 1) ! 1)) of (ok, whichType, vSolutions) \<Rightarrow>
        if \<not> ok then Inr (False, b)
        else if whichType = TX_PUBKEYHASH then
          (case uint160_of_vector (vSolutions ! 0) of
             Inl e \<Rightarrow> Inl e | Inr keyID \<Rightarrow> Inr (sign_with ks h keyID b))
        else if whichType = TX_PUBKEY then
          Inr (sign_with ks h (Hash160 (KeyBytes (PubKeySet (vSolutions ! 0)))) b)
        else Inr (False, b))"

definition CheckBlockSignature ::
  "(CPubKey \<Rightarrow> uint256 \<Rightarrow> bytes \<Rightarrow> bool) \<Rightarrow> uint256 \<Rightarrow> CBlock \<Rightarrow> bool" where
  "CheckBlockSignature Verify h b =
     (if IsProofOfWork b then vchBlockSig b = []
      else case Solver (scriptPubKey (vout (vtx b ! 1) ! 1)) of (ok, whichType, vSolutions) \<Rightarrow>
        if \<not> ok then False
        else if whichType = TX_PUBKEY then
          (let pubkey = PubKeySet (vSolutions ! 0)
           in if \<not> PubKeyIsValid pubkey then False
              else if vchBlockSig b = [] then False
              else Verify pubkey h (vchBlockSig b))
        else if whichType = TX_PUBKEYHASH then
          (let pubkey = PubKeySet (vSolutions ! 0)
           in if \<not> PubKeyIsValid pubkey then False
              else if vchBlockSig b = [] then False
              else Verify pubkey h (vchBlockSig b))
        else False)"

section \<open>Properties\<close>

text \<open>
  C27: a block of any kind is read back from its serialisation as it was written, whatever follows it, and blocks
  with one serialisation are equal.
\<close>

theorem block_round_trip:
  assumes "block_ok b" "block_ok b'"
  shows "read_CBlock (write_CBlock b @ rest) = Some (b, rest) \<and> (write_CBlock b = write_CBlock b' \<longleftrightarrow> b = b')"
  using assms block.enc_inj read_CBlock_write by blast

theorem block_round_trip_witness:
  "read_CBlock (write_CBlock (NullBlock\<lparr>nBits := 5, vtx := [NullTransaction]\<rparr>) @ [1]) =
     Some (NullBlock\<lparr>nBits := 5, vtx := [NullTransaction]\<rparr>, [1])
   \<and> (write_CBlock (NullBlock\<lparr>nBits := 5, vtx := [NullTransaction]\<rparr>) = write_CBlock NullBlock
      \<longleftrightarrow> NullBlock\<lparr>nBits := 5, vtx := [NullTransaction]\<rparr> = NullBlock)"
  by (rule block_round_trip)
    (simp_all add: block_ok_def header_ok_def NullBlock_def NullHeader_def NullTransaction_def tx_ok_def made_key_def
      CBlockHeader.extend_def uint256_0_def zero_limbs_def int_fits_def MAX_SIZE_def IsPoABlockByVersion_def
      IsProofOfAudit_def POA_BLOCK_VERSION_LOW_LIMIT_def HasCoinStake_def)

text \<open>
  for every transaction of a block the branch of the Merkle tree leads from its hash to the root, and so it
  does for every audited block and the audit tree: \<open>CheckMerkleBranch\<close> accepts what \<open>GetMerkleBranch\<close> made.
\<close>

lemma merkle_branch_correct:
  assumes "vMerkleTree b = []" "poaMerkleTree b = []"
  shows "(\<forall>i < length (vtx b). CheckMerkleBranch Hash (GetHash Hash (vtx b ! i))
      (snd (GetMerkleBranch Hash b i)) (int i) = fst (snd (BuildMerkleTree Hash b)))
   \<and> (\<forall>i < length (posBlocksAudited b). CheckMerkleBranch Hash (SummaryGetHash Hash (posBlocksAudited b ! i))
      (snd (GetPoAMerkleBranch Hash b i)) (int i) = fst (snd (BuildPoAMerkleTree Hash b)))"
proof -
  have c: "CheckMerkleBranch Hash (ls ! i) (branch_loop (rows_of (node Hash) ls) 0 (length ls) i) (int i) =
      root_of (node Hash) uint256_0 ls" if "i < length ls" for ls i
    using check_branch [of "[]" 0 "length ls" ls i Hash uint256_0] that by (simp add: CheckMerkleBranch_def)
  have r: "tree_root (rows_of (node Hash) ls) = root_of (node Hash) uint256_0 ls" for ls
    using tree_root_build [of Hash ls] by (simp add: build_tree_eq)
  show ?thesis
    using assms c [of _ "map (GetHash Hash) (vtx b)"] c [of _ "map (SummaryGetHash Hash) (posBlocksAudited b)"]
    by (simp add: BuildMerkleTree_def BuildPoAMerkleTree_def GetMerkleBranch_def GetPoAMerkleBranch_def build_tree_eq r Let_def)
qed

text \<open>
  Two blocks with trees of one depth, of which neither is reported as mutated, have one Merkle root only if
  their transactions have the same hashes in the same order, as long as no two of the pairs hashed for the two
  trees collide. This is what the mutation check is for: without it a block with duplicated transactions
  has the root of another.
\<close>

lemma merkle_root_binds:
  assumes "vtx b \<noteq> []" "vtx b' \<noteq> []" "levels (length (vtx b)) = levels (length (vtx b'))"
    and "fst (snd (BuildMerkleTree Hash b)) = fst (snd (BuildMerkleTree Hash b'))"
    and "\<not> snd (snd (BuildMerkleTree Hash b))" "\<not> snd (snd (BuildMerkleTree Hash b'))"
    and "collision_free (node Hash) (map (GetHash Hash) (vtx b)) (map (GetHash Hash) (vtx b'))"
  shows "map (GetHash Hash) (vtx b) = map (GetHash Hash) (vtx b')"
proof -
  have r: "tree_root (rows_of (node Hash) ls) = root_of (node Hash) uint256_0 ls" for ls
    using tree_root_build [of Hash ls] by (simp add: build_tree_eq)
  show ?thesis
    by (rule root_binds [of _ _ "node Hash" uint256_0])
      (use assms r in \<open>simp_all add: BuildMerkleTree_def build_tree_eq\<close>)
qed

text \<open>
  C28: the signature of a proof-of-stake block is accepted exactly when its second output pays to a valid public key
  under which the signature verifies. So a block that stakes a pay-to-pubkey-hash output, which \<open>SignBlock\<close>
  signs, is refused whatever its signature: the hash is taken for a public key.
\<close>

theorem block_signature_correct:
  assumes "IsProofOfStake b" "Solver (scriptPubKey (vout (vtx b ! 1) ! 1)) = (ok, t, sols)"
  shows "CheckBlockSignature Verify h b \<longleftrightarrow>
    ok \<and> t = TX_PUBKEY \<and> valid_key (sols ! 0) \<and> vchBlockSig b \<noteq> [] \<and> Verify (sols ! 0) h (vchBlockSig b)"
proof -
  have "\<not> valid_key (sols ! 0)" if "t = TX_PUBKEYHASH" ok
    using Solver_pubkeyhash_length [of _ sols] assms(2) that by (auto simp: valid_key_def GetLen_def split: if_splits)
  then show ?thesis
    using assms valid_key_facts(3) [of "sols ! 0"]
    by (auto simp: CheckBlockSignature_def IsProofOfWork_def PubKeySet_valid Let_def)
qed

text \<open>
  \<open>SignBlock\<close> signs no block that is not proof-of-stake: it throws at the first output that pays to a public
  key, since it makes a 20-byte key id from the bytes of the key, and otherwise it gives up.
\<close>

lemma sign_block_not_stake:
  assumes "\<not> IsProofOfStake b"
  shows "SignBlock Hash160 ks h b =
    (if list_ex (\<lambda>out. fst (Solver (scriptPubKey out)) \<and> fst (snd (Solver (scriptPubKey out))) = TX_PUBKEY)
       (vout (vtx b ! 0)) then Inl WrongSize else Inr (False, b))"
proof -
  have "sign_loop ks h outs b =
      (if list_ex (\<lambda>out. fst (Solver (scriptPubKey out)) \<and> fst (snd (Solver (scriptPubKey out))) = TX_PUBKEY) outs
       then Inl WrongSize else Inr (False, b))" for outs
  proof (induction outs)
    case (Cons out outs)
    obtain ok t sols where s: "Solver (scriptPubKey out) = (ok, t, sols)" by (cases "Solver (scriptPubKey out)")
    show ?case
    proof (cases "ok \<and> t = TX_PUBKEY")
      case True
      then have "length (sols ! 0) \<noteq> 20" using Solver_pubkey_length(1) [of _ sols] s by fastforce
      then show ?thesis using True s by (simp add: uint160_of_vector_def)
    next
      case False
      then show ?thesis using Cons s by auto
    qed
  qed simp
  then show ?thesis using assms by (simp add: SignBlock_def)
qed

lemma stake_tx_is_stake:
  "IsCoinStake (NullTransaction\<lparr>vin := [NewTxIn \<lparr>op_txid = uint256_0, op_n = 0\<rparr> [] 0], vout := NewTxOut 0 [] # out # outs\<rparr>)"
  by (simp add: IsCoinStake_def NewTxIn_def NewTxOut_def OutPointIsNull_def TxOutIsEmpty_def)

theorem block_signature_correct_witness:
  "CheckBlockSignature (\<lambda>pk h sig. sig = pk) uint256_0
     (NullBlock\<lparr>vtx := [NullTransaction,
        NullTransaction\<lparr>vin := [NewTxIn \<lparr>op_txid = uint256_0, op_n = 0\<rparr> [] 0],
          vout := [NewTxOut 0 [], NewTxOut 5 (push_data (2 # replicate 32 7) @ [OP_CHECKSIG])]\<rparr>],
        vchBlockSig := 2 # replicate 32 7\<rparr>)"
  using block_signature_correct
    [of "NullBlock\<lparr>vtx := [NullTransaction,
        NullTransaction\<lparr>vin := [NewTxIn \<lparr>op_txid = uint256_0, op_n = 0\<rparr> [] 0],
          vout := [NewTxOut 0 [], NewTxOut 5 (push_data (2 # replicate 32 7) @ [OP_CHECKSIG])]\<rparr>],
        vchBlockSig := 2 # replicate 32 7\<rparr>" True TX_PUBKEY "[2 # replicate 32 7]" "\<lambda>pk h sig. sig = pk" uint256_0]
    solver_P2PK [of "2 # replicate 32 7"] stake_tx_is_stake
  by (simp add: IsProofOfStake_def HasCoinStake_def IsProofOfAudit_def IsPoABlockByVersion_def NullBlock_def NullHeader_def
      CBlockHeader.extend_def POA_BLOCK_VERSION_LOW_LIMIT_def valid_key_def GetLen_def NewTxOut_def [of 5])

end
