(* ===== verification/Block_Index.thy ===== *)
theory Block_Index
  imports Block Compact_Bits
begin

text \<open>
  The block index of \<open>chain.h\<close> and \<open>chain.cpp\<close>, with the walks over it in \<open>main.cpp\<close>:
  ancestors by the skip list, the active chain, the fork of a block from it, the last common
  ancestor of two blocks, the block locator, the trust of a block and the median of past times.

  A \<open>CBlockIndex*\<close> is an address or \<open>None\<close> for \<open>NULL\<close>, and a store maps the addresses in use
  to their entries. Loops along \<open>pprev\<close> whose end depends on the store are partial functions:
  the value \<open>None\<close> is a walk that does not end or that dereferences \<open>NULL\<close>.
\<close>

section \<open>Index entries\<close>

type_synonym ptr = nat

record CBlockIndex =
  phashBlock :: uint256
  pprev :: "ptr option"
  pnext :: "ptr option"
  pskip :: "ptr option"
  bnChainTrust :: uint256
  nHeight :: int
  nFile :: int
  nDataPos :: u32
  nUndoPos :: u32
  nChainWork :: uint256
  nTx :: u32
  nChainTx :: u32
  nStatus :: u32
  nFlags :: u32
  nStakeModifier :: u64
  nStakeModifierChecksum :: u32
  prevoutStake :: COutPoint
  nStakeTime :: u32
  hashProofOfStake :: uint256
  nMint :: int
  nMoneySupply :: int
  bVersion :: int
  bMerkleRoot :: uint256
  bTime :: u32
  bBits :: u32
  bNonce :: u32
  bAccumulatorCheckpoint :: uint256
  bPoAMerkleRoot :: uint256
  bMinedHash :: uint256
  bPrevPoABlock :: uint256

type_synonym store = "ptr \<Rightarrow> CBlockIndex"

definition uint256_1 :: uint256 where
  "uint256_1 = of_u64 8 1"

abbreviation (input) BLOCK_PROOF_OF_STAKE :: u32 where "BLOCK_PROOF_OF_STAKE \<equiv> 0x01"
abbreviation (input) BLOCK_STAKE_ENTROPY :: u32 where "BLOCK_STAKE_ENTROPY \<equiv> 0x02"
abbreviation (input) BLOCK_STAKE_MODIFIER :: u32 where "BLOCK_STAKE_MODIFIER \<equiv> 0x04"
abbreviation (input) BLOCK_PROOF_OF_AUDIT :: u32 where "BLOCK_PROOF_OF_AUDIT \<equiv> 0x08"

definition IndexIsProofOfAudit :: "CBlockIndex \<Rightarrow> bool" where
  "IndexIsProofOfAudit b \<longleftrightarrow> nFlags b AND BLOCK_PROOF_OF_AUDIT \<noteq> 0"

definition IndexIsProofOfStake :: "CBlockIndex \<Rightarrow> bool" where
  "IndexIsProofOfStake b \<longleftrightarrow> nFlags b AND BLOCK_PROOF_OF_STAKE \<noteq> 0 \<and> \<not> IndexIsProofOfAudit b"

definition IndexIsProofOfWork :: "CBlockIndex \<Rightarrow> bool" where
  "IndexIsProofOfWork b \<longleftrightarrow> \<not> (nFlags b AND BLOCK_PROOF_OF_STAKE \<noteq> 0) \<and> \<not> IndexIsProofOfAudit b"

definition IndexSetProofOfStake :: "CBlockIndex \<Rightarrow> CBlockIndex" where
  "IndexSetProofOfStake b = b\<lparr>nFlags := nFlags b OR BLOCK_PROOF_OF_STAKE\<rparr>"

definition IndexSetProofOfAudit :: "CBlockIndex \<Rightarrow> CBlockIndex" where
  "IndexSetProofOfAudit b = b\<lparr>nFlags := nFlags b OR BLOCK_PROOF_OF_AUDIT\<rparr>"

definition SetStakeEntropyBit :: "u32 \<Rightarrow> CBlockIndex \<Rightarrow> bool \<times> CBlockIndex" where
  "SetStakeEntropyBit nEntropyBit b =
     (if nEntropyBit > 1 then (False, b)
      else (True, b\<lparr>nFlags := nFlags b OR (if nEntropyBit \<noteq> 0 then BLOCK_STAKE_ENTROPY else 0)\<rparr>))"

definition GetStakeEntropyBit :: "CBlockIndex \<Rightarrow> u32" where
  "GetStakeEntropyBit b = ucast (Get64 (phashBlock b) AND 1)"

definition GeneratedStakeModifier :: "CBlockIndex \<Rightarrow> bool" where
  "GeneratedStakeModifier b \<longleftrightarrow> nFlags b AND BLOCK_STAKE_MODIFIER \<noteq> 0"

definition SetStakeModifier :: "u64 \<Rightarrow> bool \<Rightarrow> CBlockIndex \<Rightarrow> CBlockIndex" where
  "SetStakeModifier nModifier fGenerated b =
     (let b = b\<lparr>nStakeModifier := nModifier\<rparr>
      in if fGenerated then b\<lparr>nFlags := nFlags b OR BLOCK_STAKE_MODIFIER\<rparr> else b)"

definition NullIndex :: CBlockIndex where
  "NullIndex = \<lparr>phashBlock = uint256_0, pprev = None, pnext = None, pskip = None, bnChainTrust = uint256_0, nHeight = 0,
     nFile = 0, nDataPos = 0, nUndoPos = 0, nChainWork = uint256_0, nTx = 0, nChainTx = 0, nStatus = 0, nFlags = 0,
     nStakeModifier = 0, nStakeModifierChecksum = 0, prevoutStake = NullOutPoint, nStakeTime = 0,
     hashProofOfStake = uint256_0, nMint = 0, nMoneySupply = 0, bVersion = 0, bMerkleRoot = uint256_0, bTime = 0,
     bBits = 0, bNonce = 0, bAccumulatorCheckpoint = uint256_0, bPoAMerkleRoot = uint256_0, bMinedHash = uint256_0,
     bPrevPoABlock = uint256_0\<rparr>"

text \<open>The constructor from a block.\<close>

definition IndexOfBlock :: "CBlock \<Rightarrow> CBlockIndex" where
  "IndexOfBlock block =
     (let b = NullIndex\<lparr>bVersion := nVersion block, bMerkleRoot := hashMerkleRoot block, bTime := nTime block,
                bBits := nBits block, bNonce := nNonce block\<rparr>;
          b = (if nVersion block > 3 then b\<lparr>bAccumulatorCheckpoint := nAccumulatorCheckpoint block\<rparr> else b)
      in if IsProofOfAudit block then
           (IndexSetProofOfAudit b)\<lparr>bPrevPoABlock := hashPrevPoABlock block, bMinedHash := minedHash block,
              bPoAMerkleRoot := hashPoAMerkleRoot block, prevoutStake := NullOutPoint, nStakeTime := 0\<rparr>
         else if IsProofOfStake block then
           (IndexSetProofOfStake b)\<lparr>prevoutStake := prevout (vin (vtx block ! 1) ! 0), nStakeTime := nTime block\<rparr>
         else b\<lparr>prevoutStake := NullOutPoint, nStakeTime := 0\<rparr>)"

definition IndexGetBlockHeader :: "store \<Rightarrow> CBlockIndex \<Rightarrow> CBlockHeader" where
  "IndexGetBlockHeader H b =
     (let block = NullHeader\<lparr>nVersion := bVersion b\<rparr>;
          block = (if IndexIsProofOfAudit b
                   then block\<lparr>hashPoAMerkleRoot := bPoAMerkleRoot b, minedHash := bMinedHash b,
                              hashPrevPoABlock := bPrevPoABlock b\<rparr>
                   else block);
          block = (case pprev b of None \<Rightarrow> block | Some q \<Rightarrow> block\<lparr>hashPrevBlock := phashBlock (H q)\<rparr>)
      in block\<lparr>hashMerkleRoot := bMerkleRoot b, nTime := bTime b, nBits := bBits b, nNonce := bNonce b,
               nAccumulatorCheckpoint := bAccumulatorCheckpoint b\<rparr>)"

text \<open>A \<open>CDiskBlockPos\<close> is a file and a position; the null position has file \<open>-1\<close>.\<close>

definition GetBlockPos :: "CBlockIndex \<Rightarrow> int \<times> u32" where
  "GetBlockPos b = (if nStatus b AND 8 \<noteq> 0 then (nFile b, nDataPos b) else (-1, 0))"

definition GetUndoPos :: "CBlockIndex \<Rightarrow> int \<times> u32" where
  "GetUndoPos b = (if nStatus b AND 16 \<noteq> 0 then (nFile b, nUndoPos b) else (-1, 0))"

definition GetBlockTime :: "CBlockIndex \<Rightarrow> int" where
  "GetBlockTime b = uint (bTime b)"

section \<open>Validity\<close>

abbreviation (input) BLOCK_VALID_MASK :: u32 where "BLOCK_VALID_MASK \<equiv> 7"
abbreviation (input) BLOCK_FAILED_MASK :: u32 where "BLOCK_FAILED_MASK \<equiv> 96"

definition IsValid :: "CBlockIndex \<Rightarrow> u32 \<Rightarrow> bool" where
  "IsValid b nUpTo = (if nStatus b AND BLOCK_FAILED_MASK \<noteq> 0 then False
     else nStatus b AND BLOCK_VALID_MASK \<ge> nUpTo)"

definition RaiseValidity :: "u32 \<Rightarrow> CBlockIndex \<Rightarrow> bool \<times> CBlockIndex" where
  "RaiseValidity nUpTo b =
     (if nStatus b AND BLOCK_FAILED_MASK \<noteq> 0 then (False, b)
      else if nStatus b AND BLOCK_VALID_MASK < nUpTo
      then (True, b\<lparr>nStatus := (nStatus b AND NOT BLOCK_VALID_MASK) OR nUpTo\<rparr>)
      else (False, b))"

section \<open>The skip list\<close>

definition InvertLowestOne :: "int \<Rightarrow> int" where
  "InvertLowestOne m = m AND (m - 1)"

definition GetSkipHeight :: "int \<Rightarrow> int" where
  "GetSkipHeight height =
     (if height < 2 then 0
      else if odd height then InvertLowestOne (InvertLowestOne (height - 1)) + 1
      else InvertLowestOne height)"

lemma InvertLowestOne_bounds: "0 \<le> m \<Longrightarrow> 0 \<le> InvertLowestOne m \<and> InvertLowestOne m \<le> m"
  by (simp add: InvertLowestOne_def AND_upper1)

lemma InvertLowestOne_less: "0 < m \<Longrightarrow> InvertLowestOne m < m"
  using AND_upper2 [of "m - 1" m] by (simp add: InvertLowestOne_def)

lemma GetSkipHeight_bounds: "0 < height \<Longrightarrow> 0 \<le> GetSkipHeight height \<and> GetSkipHeight height < height"
proof -
  assume h: "0 < height"
  show ?thesis
  proof (cases "height < 2")
    case False
    have "0 \<le> InvertLowestOne (height - 1)" "InvertLowestOne (height - 1) < height - 1"
      using False InvertLowestOne_bounds [of "height - 1"] InvertLowestOne_less [of "height - 1"] by simp_all
    moreover from this have "0 \<le> InvertLowestOne (InvertLowestOne (height - 1))"
      "InvertLowestOne (InvertLowestOne (height - 1)) \<le> InvertLowestOne (height - 1)"
      using InvertLowestOne_bounds by simp_all
    ultimately show ?thesis using False h InvertLowestOne_bounds [of height] InvertLowestOne_less [of height]
      by (simp add: GetSkipHeight_def)
  qed (use h in \<open>simp add: GetSkipHeight_def\<close>)
qed

function ancestor_loop :: "store \<Rightarrow> int \<Rightarrow> ptr option \<Rightarrow> int \<Rightarrow> ptr option" where
  "ancestor_loop H height pindexWalk heightWalk =
     (if heightWalk > height \<and> height \<ge> 0 then
        (case pindexWalk of None \<Rightarrow> None | Some p \<Rightarrow>
          (let heightSkip = GetSkipHeight heightWalk; heightSkipPrev = GetSkipHeight (heightWalk - 1) in
           if heightSkip = height
              \<or> (heightSkip > height \<and> \<not> (heightSkipPrev < heightSkip - 2 \<and> heightSkipPrev \<ge> height))
           then ancestor_loop H height (pskip (H p)) heightSkip
           else ancestor_loop H height (pprev (H p)) (heightWalk - 1)))
      else pindexWalk)"
  by pat_completeness auto
termination
proof (relation "measure (\<lambda>(H, h, p, w). nat w)", goal_cases)
  case (2 H height pw w p x xa)
  then show ?case using GetSkipHeight_bounds [of w] by auto
qed auto

declare ancestor_loop.simps [simp del]

definition GetAncestor :: "store \<Rightarrow> ptr \<Rightarrow> int \<Rightarrow> ptr option" where
  "GetAncestor H this height =
     (if height > nHeight (H this) \<or> height < 0 then None
      else ancestor_loop H height (Some this) (nHeight (H this)))"

definition BuildSkip :: "store \<Rightarrow> ptr \<Rightarrow> store" where
  "BuildSkip H this = (case pprev (H this) of
     None \<Rightarrow> H
   | Some q \<Rightarrow> H(this := (H this)\<lparr>pskip := GetAncestor H q (GetSkipHeight (nHeight (H this)))\<rparr>))"

section \<open>Trust, majority, median time\<close>

definition GetBlockTrust :: "CBlockIndex \<Rightarrow> uint_error + uint256" where
  "GetBlockTrust b =
     (let bnTarget = fst (SetCompact (bBits b)) in
      if op_le bnTarget uint256_0 then Inr uint256_0
      else if IndexIsProofOfStake b then op_div (op_shl uint256_1 256) (op_add bnTarget uint256_1)
      else case op_div (op_shr (op_not uint256_0) 20) (op_add bnTarget uint256_1) of
        Inl e \<Rightarrow> Inl e
      | Inr bnPoWTrust \<Rightarrow> Inr (if op_less uint256_1 bnPoWTrust then bnPoWTrust else uint256_1))"

primrec super_majority_loop :: "store \<Rightarrow> int \<Rightarrow> nat \<Rightarrow> nat \<Rightarrow> ptr option \<Rightarrow> nat \<Rightarrow> nat" where
  "super_majority_loop H minVersion nRequired 0 pstart nFound = nFound"
| "super_majority_loop H minVersion nRequired (Suc k) pstart nFound =
     (if nFound < nRequired then
        (case pstart of
           None \<Rightarrow> nFound
         | Some p \<Rightarrow> super_majority_loop H minVersion nRequired k (pprev (H p))
                      (if bVersion (H p) \<ge> minVersion then nFound + 1 else nFound))
      else nFound)"

definition IsSuperMajority :: "nat \<Rightarrow> store \<Rightarrow> int \<Rightarrow> ptr option \<Rightarrow> nat \<Rightarrow> bool" where
  "IsSuperMajority nToCheck H minVersion pstart nRequired \<longleftrightarrow>
     super_majority_loop H minVersion nRequired nToCheck pstart 0 \<ge> nRequired"

primrec past_times :: "store \<Rightarrow> nat \<Rightarrow> ptr option \<Rightarrow> int list" where
  "past_times H 0 pindex = []"
| "past_times H (Suc i) pindex = (case pindex of
     None \<Rightarrow> [] | Some p \<Rightarrow> GetBlockTime (H p) # past_times H i (pprev (H p)))"

definition GetMedianTimePast :: "store \<Rightarrow> ptr \<Rightarrow> int" where
  "GetMedianTimePast H this =
     (let pmedian = sort (past_times H 11 (Some this)) in pmedian ! (length pmedian div 2))"

section \<open>The tree of blocks\<close>

text \<open>The \<open>k\<close>-th predecessor of a block.\<close>

primrec nth_parent :: "store \<Rightarrow> nat \<Rightarrow> ptr option \<Rightarrow> ptr option" where
  "nth_parent H 0 p = p"
| "nth_parent H (Suc k) p = (case p of None \<Rightarrow> None | Some q \<Rightarrow> nth_parent H k (pprev (H q)))"

lemma nth_parent_None [simp]: "nth_parent H k None = None"
  by (cases k) simp_all

lemma nth_parent_add: "nth_parent H (a + b) p = nth_parent H b (nth_parent H a p)"
  by (induction a arbitrary: p) (simp_all split: option.split)

text \<open>
  The invariant of the index over the entries \<open>A\<close>: a root has height 0, every other entry is one above
  its predecessor and skips to its ancestor at the height \<open>GetSkipHeight\<close> gives.
\<close>

definition entry_ok :: "store \<Rightarrow> ptr set \<Rightarrow> ptr \<Rightarrow> bool" where
  "entry_ok H A p \<longleftrightarrow> (case pprev (H p) of
     None \<Rightarrow> nHeight (H p) = 0
   | Some q \<Rightarrow> q \<in> A \<and> nHeight (H p) = nHeight (H q) + 1 \<and> nHeight (H q) \<ge> 0
       \<and> pskip (H p) = nth_parent H (nat (nHeight (H p) - GetSkipHeight (nHeight (H p)))) (Some p))"

definition block_tree :: "store \<Rightarrow> ptr set \<Rightarrow> bool" where
  "block_tree H A \<longleftrightarrow> (\<forall>p\<in>A. entry_ok H A p)"

lemma entry_ok_mono: "entry_ok H A p \<Longrightarrow> A \<subseteq> B \<Longrightarrow> entry_ok H B p"
  by (auto simp: entry_ok_def split: option.splits)

lemma block_tree_pprev: "block_tree H A \<Longrightarrow> p \<in> A \<Longrightarrow> pprev (H p) = Some q \<Longrightarrow> q \<in> A"
  by (fastforce simp: block_tree_def entry_ok_def)

lemma block_tree_height: "block_tree H A \<Longrightarrow> p \<in> A \<Longrightarrow> 0 \<le> nHeight (H p)"
  by (fastforce simp: block_tree_def entry_ok_def split: option.splits)

lemma block_tree_parent:
  assumes "block_tree H A" "p \<in> A" "0 < nHeight (H p)"
  obtains q where "pprev (H p) = Some q" "q \<in> A" "nHeight (H q) = nHeight (H p) - 1"
  using assms by (fastforce simp: block_tree_def entry_ok_def split: option.splits)

lemma block_tree_skip:
  assumes "block_tree H A" "p \<in> A" "0 < nHeight (H p)"
  shows "pskip (H p) = nth_parent H (nat (nHeight (H p) - GetSkipHeight (nHeight (H p)))) (Some p)"
  using assms by (fastforce simp: block_tree_def entry_ok_def split: option.splits)

lemma nth_parent_in_tree:
  assumes "block_tree H A"
  shows "p \<in> A \<Longrightarrow> int k \<le> nHeight (H p) \<Longrightarrow>
    \<exists>q. nth_parent H k (Some p) = Some q \<and> q \<in> A \<and> nHeight (H q) = nHeight (H p) - int k"
proof (induction k arbitrary: p)
  case (Suc k)
  have "0 < nHeight (H p)" using Suc.prems by simp
  then obtain q where "pprev (H p) = Some q" "q \<in> A" "nHeight (H q) = nHeight (H p) - 1"
    using block_tree_parent [OF assms Suc.prems(1)] by blast
  then show ?case using Suc.IH [of q] Suc.prems by auto
qed simp

text \<open>The walk reaches the ancestor by any mix of skips and single steps.\<close>

lemma ancestor_loop_correct:
  assumes "block_tree H A"
  shows "p \<in> A \<Longrightarrow> heightWalk = nHeight (H p) \<Longrightarrow> 0 \<le> height \<Longrightarrow> height \<le> heightWalk \<Longrightarrow>
    ancestor_loop H height (Some p) heightWalk = nth_parent H (nat (heightWalk - height)) (Some p)"
proof (induction "nat heightWalk" arbitrary: p heightWalk rule: less_induct)
  case less
  show ?case
  proof (cases "heightWalk > height")
    case False
    then show ?thesis using less.prems by (subst ancestor_loop.simps) simp
  next
    case True
    let ?skip = "GetSkipHeight heightWalk"
    have hp: "0 < nHeight (H p)" using True less.prems by simp
    have sk: "0 \<le> ?skip" "?skip < heightWalk" using GetSkipHeight_bounds hp less.prems by simp_all
    let ?c = "?skip = height \<or> ?skip > height
      \<and> \<not> (GetSkipHeight (heightWalk - 1) < ?skip - 2 \<and> GetSkipHeight (heightWalk - 1) \<ge> height)"
    have step: "ancestor_loop H height (Some p) heightWalk =
        (if ?c then ancestor_loop H height (pskip (H p)) ?skip else ancestor_loop H height (pprev (H p)) (heightWalk - 1))"
      using True less.prems(3) by (subst ancestor_loop.simps) (simp add: Let_def)
    show ?thesis
    proof (cases ?c)
      case c: True
      obtain q where q: "nth_parent H (nat (heightWalk - ?skip)) (Some p) = Some q" "q \<in> A"
          "nHeight (H q) = nHeight (H p) - int (nat (heightWalk - ?skip))"
        using nth_parent_in_tree [OF assms less.prems(1), of "nat (heightWalk - ?skip)"] sk less.prems(2) by auto
      have e: "nat (heightWalk - height) = nat (heightWalk - ?skip) + nat (?skip - height)" using c sk by auto
      have "pskip (H p) = Some q" using block_tree_skip [OF assms less.prems(1) hp] q(1) less.prems(2) by simp
      moreover have "ancestor_loop H height (Some q) ?skip = nth_parent H (nat (?skip - height)) (Some q)"
        by (rule less.hyps) (use q sk less.prems c in auto)
      ultimately show ?thesis
        using c q(1) by (simp only: step if_True e nth_parent_add)
    next
      case c: False
      obtain q where q: "pprev (H p) = Some q" "q \<in> A" "nHeight (H q) = nHeight (H p) - 1"
        using block_tree_parent [OF assms less.prems(1) hp] by blast
      have e: "nat (heightWalk - height) = Suc (nat (heightWalk - 1 - height))" using True by simp
      have "ancestor_loop H height (Some q) (heightWalk - 1) = nth_parent H (nat (heightWalk - 1 - height)) (Some q)"
        by (rule less.hyps) (use q sk less.prems True in auto)
      then show ?thesis
        using c q(1) by (simp only: step if_False e nth_parent.simps option.case)
    qed
  qed
qed

lemma GetAncestor_nth_parent:
  assumes "block_tree H A" "p \<in> A" "0 \<le> height" "height \<le> nHeight (H p)"
  shows "GetAncestor H p height = nth_parent H (nat (nHeight (H p) - height)) (Some p)"
  using ancestor_loop_correct [OF assms(1,2) refl assms(3,4)] assms(3,4) by (simp add: GetAncestor_def)

text \<open>Adding a block above an entry keeps the tree.\<close>

lemma nth_parent_frame:
  assumes "block_tree H A" "\<And>q. q \<in> A \<Longrightarrow> pprev (H' q) = pprev (H q)"
  shows "p \<in> A \<Longrightarrow> nth_parent H' k (Some p) = nth_parent H k (Some p)"
proof (induction k arbitrary: p)
  case (Suc k)
  show ?case
  proof (cases "pprev (H p)")
    case (Some q)
    then show ?thesis
      using Suc.IH [of q] block_tree_pprev [OF assms(1) Suc.prems] assms(2) [OF Suc.prems] by simp
  qed (use assms(2) [OF Suc.prems] in simp)
qed simp

lemma block_tree_frame:
  assumes "block_tree H A"
    "\<And>q. q \<in> A \<Longrightarrow> pprev (H' q) = pprev (H q) \<and> nHeight (H' q) = nHeight (H q) \<and> pskip (H' q) = pskip (H q)"
  shows "block_tree H' A"
proof -
  have "nth_parent H' k (Some p) = nth_parent H k (Some p)" if "p \<in> A" for k p
    using nth_parent_frame [OF assms(1)] assms(2) that by blast
  then show ?thesis using assms by (fastforce simp: block_tree_def entry_ok_def split: option.splits)
qed

lemma block_tree_insert:
  assumes "block_tree H A" "p \<notin> A"
    and "case pprev (H p) of None \<Rightarrow> nHeight (H p) = 0 | Some q \<Rightarrow> q \<in> A \<and> nHeight (H p) = nHeight (H q) + 1"
  shows "block_tree (BuildSkip H p) (insert p A)"
proof -
  let ?H = "BuildSkip H p"
  have same: "?H q = H q" if "q \<in> A" for q
    using that assms(2) by (auto simp: BuildSkip_def split: option.split)
  have tree: "block_tree ?H A" by (rule block_tree_frame [OF assms(1)]) (simp add: same)
  show ?thesis
  proof (cases "pprev (H p)")
    case None
    then show ?thesis using tree assms(3) entry_ok_mono [of ?H A _ "insert p A"]
      by (auto simp: block_tree_def BuildSkip_def entry_ok_def [of _ _ p])
  next
    case (Some q)
    let ?h = "nHeight (H p)"
    have q: "q \<in> A" "?h = nHeight (H q) + 1" using assms(3) Some by simp_all
    have hq: "0 \<le> nHeight (H q)" using block_tree_height [OF assms(1) q(1)] .
    have sk: "0 \<le> GetSkipHeight ?h" "GetSkipHeight ?h \<le> nHeight (H q)" using GetSkipHeight_bounds [of ?h] hq q(2) by auto
    have e: "nat (?h - GetSkipHeight ?h) = Suc (nat (nHeight (H q) - GetSkipHeight ?h))" using sk q(2) by simp
    have "pskip (?H p) = nth_parent H (nat (nHeight (H q) - GetSkipHeight ?h)) (Some q)"
      using GetAncestor_nth_parent [OF assms(1) q(1) sk] Some by (simp add: BuildSkip_def)
    also have "\<dots> = nth_parent ?H (nat (nHeight (H q) - GetSkipHeight ?h)) (Some q)"
      using nth_parent_frame [OF assms(1) _ q(1), of ?H] same by simp
    finally have "pskip (?H p) = nth_parent ?H (nat (?h - GetSkipHeight ?h)) (Some p)"
      using Some e by (simp add: BuildSkip_def)
    moreover have "pprev (?H p) = Some q" "nHeight (?H p) = ?h" using Some by (simp_all add: BuildSkip_def)
    ultimately have "entry_ok ?H (insert p A) p" using q hq same [OF q(1)] by (simp add: entry_ok_def)
    then show ?thesis using tree entry_ok_mono [of ?H A _ "insert p A"] by (auto simp: block_tree_def)
  qed
qed

section \<open>Properties\<close>

text \<open>
  C29: in a well-formed index, \<open>GetAncestor\<close> returns for every height from 0 to that of the block the
  predecessor that many steps back, which is an entry of that height, and \<open>NULL\<close> for every other height.
\<close>

theorem GetAncestor_correct:
  assumes "block_tree H A" "p \<in> A"
  shows "if 0 \<le> height \<and> height \<le> nHeight (H p)
    then \<exists>q \<in> A. GetAncestor H p height = Some q \<and> nHeight (H q) = height
      \<and> nth_parent H (nat (nHeight (H p) - height)) (Some p) = Some q
    else GetAncestor H p height = None"
proof (cases "0 \<le> height \<and> height \<le> nHeight (H p)")
  case True
  then show ?thesis
    using GetAncestor_nth_parent [OF assms] nth_parent_in_tree [OF assms, of "nat (nHeight (H p) - height)"] by auto
qed (auto simp: GetAncestor_def)

text \<open>
  linking a new block above an entry of a well-formed index, or as a root, and building its skip pointer
  leaves the index well formed, and nothing but the skip pointer of the new block changes.
\<close>

lemma BuildSkip_keeps_tree:
  assumes "block_tree H A" "p \<notin> A"
    and "case pprev (H p) of None \<Rightarrow> nHeight (H p) = 0 | Some q \<Rightarrow> q \<in> A \<and> nHeight (H p) = nHeight (H q) + 1"
  shows "block_tree (BuildSkip H p) (insert p A)
    \<and> (BuildSkip H p)(p := H p) = H \<and> BuildSkip H p p = (H p)\<lparr>pskip := pskip (BuildSkip H p p)\<rparr>"
  using block_tree_insert [OF assms] by (auto simp: BuildSkip_def fun_eq_iff split: option.split)

text \<open>A chain of five blocks, block \<open>i\<close> at address \<open>i\<close>.\<close>

definition demo_store :: store where
  "demo_store p = NullIndex\<lparr>nHeight := int p, pprev := (if p = 0 then None else Some (p - 1)),
     pskip := (if p = 0 then None else Some (nat (GetSkipHeight (int p))))\<rparr>"

lemma demo_parent: "k \<le> p \<Longrightarrow> nth_parent demo_store k (Some p) = Some (p - k)"
  by (induction k arbitrary: p) (auto simp: demo_store_def)

lemma demo_tree: "block_tree demo_store {0..<m}"
proof -
  have "nth_parent demo_store (nat (int p - GetSkipHeight (int p))) (Some p) = Some (nat (GetSkipHeight (int p)))"
    if "0 < p" for p
    using demo_parent [of "nat (int p - GetSkipHeight (int p))" p] GetSkipHeight_bounds [of "int p"] that by auto
  then show ?thesis by (auto simp: block_tree_def entry_ok_def) (auto simp: demo_store_def NullIndex_def split: if_splits)
qed

theorem GetAncestor_correct_witness:
  "\<exists>q \<in> {0..<5}. GetAncestor demo_store 4 1 = Some q \<and> nHeight (demo_store q) = 1
     \<and> nth_parent demo_store 3 (Some 4) = Some q"
  using GetAncestor_correct [OF demo_tree, of 4 5 1] by (simp add: demo_store_def [of 4])

end
