(* ===== verification/Disk_Index.thy ===== *)
theory Disk_Index
  imports Block_Index
begin

text \<open>
  \<open>CDiskBlockIndex\<close> of \<open>chain.h\<close>: how an entry of the block index is stored, and how
  \<open>LoadBlockIndexGuts\<close> of \<open>txdb.cpp\<close> fills an entry from what it reads. The pointers \<open>pprev\<close> and \<open>pnext\<close>
  are stored as hashes.
\<close>

record CDiskBlockIndex = CBlockIndex +
  hashPrev :: uint256
  hashNext :: uint256

text \<open>The constructor from an entry copies it and sets \<open>hashPrev\<close>; \<open>hashNext\<close> keeps its initial value.\<close>

definition DiskIndexOf :: "store \<Rightarrow> CBlockIndex \<Rightarrow> CDiskBlockIndex" where
  "DiskIndexOf H b = CBlockIndex.extend b
     \<lparr>hashPrev = (case pprev b of None \<Rightarrow> uint256_0 | Some q \<Rightarrow> phashBlock (H q)), hashNext = uint256_0\<rparr>"

abbreviation (input) BLOCK_HAVE_DATA :: u32 where "BLOCK_HAVE_DATA \<equiv> 8"
abbreviation (input) BLOCK_HAVE_UNDO :: u32 where "BLOCK_HAVE_UNDO \<equiv> 16"

text \<open>\<open>streamVersion\<close> is the version of the stream, which shadows that of the block.\<close>

definition write_disk_index :: "int \<Rightarrow> CDiskBlockIndex \<Rightarrow> bytes" where
  "write_disk_index streamVersion d =
     write_varint_int streamVersion @ write_varint_int (nHeight d) @ WriteVarInt (nStatus d) @ WriteVarInt (nTx d)
     @ (if nStatus d AND (BLOCK_HAVE_DATA OR BLOCK_HAVE_UNDO) \<noteq> 0 then write_varint_int (nFile d) else [])
     @ (if nStatus d AND BLOCK_HAVE_DATA \<noteq> 0 then WriteVarInt (nDataPos d) else [])
     @ (if nStatus d AND BLOCK_HAVE_UNDO \<noteq> 0 then WriteVarInt (nUndoPos d) else [])
     @ write_int 8 (nMint d) @ write_int 8 (nMoneySupply d) @ write_word 4 (nFlags d) @ write_word 8 (nStakeModifier d)
     @ (if IndexIsProofOfStake (CBlockIndex.truncate d)
        then write_COutPoint (prevoutStake d) @ write_word 4 (nStakeTime d) else [])
     @ (if IndexIsProofOfAudit (CBlockIndex.truncate d)
        then write_limbs (bPoAMerkleRoot d) @ write_limbs (bMinedHash d) @ write_limbs (bPrevPoABlock d) else [])
     @ write_int 4 (bVersion d) @ write_limbs (hashPrev d) @ write_limbs (hashNext d) @ write_limbs (bMerkleRoot d)
     @ write_word 4 (bTime d) @ write_word 4 (bBits d) @ write_word 4 (bNonce d)"

text \<open>Reading into a new entry. What is not an audit block loses its stake fields at the end of the conditions.\<close>

definition read_disk_index :: "bytes \<Rightarrow> (CDiskBlockIndex \<times> bytes) option" where
  "read_disk_index bs = do {
     (streamVersion, bs) \<leftarrow> read_varint_int bs;
     (height, bs) \<leftarrow> read_varint_int bs;
     (status, bs) \<leftarrow> ReadVarInt bs;
     (ntx, bs) \<leftarrow> ReadVarInt bs;
     (file, bs) \<leftarrow> (if status AND (BLOCK_HAVE_DATA OR BLOCK_HAVE_UNDO) \<noteq> 0 then read_varint_int bs else Some (0, bs));
     (dataPos, bs) \<leftarrow> (if status AND BLOCK_HAVE_DATA \<noteq> 0 then ReadVarInt bs else Some (0, bs));
     (undoPos, bs) \<leftarrow> (if status AND BLOCK_HAVE_UNDO \<noteq> 0 then ReadVarInt bs else Some (0, bs));
     (mint, bs) \<leftarrow> read_int 8 bs;
     (supply, bs) \<leftarrow> read_int 8 bs;
     (flags, bs) \<leftarrow> read_word 4 bs;
     (modifier, bs) \<leftarrow> read_word 8 bs;
     let d = NullIndex\<lparr>nHeight := height, nStatus := status, nTx := ntx, nFile := file, nDataPos := dataPos,
               nUndoPos := undoPos, nMint := mint, nMoneySupply := supply, nFlags := flags, nStakeModifier := modifier\<rparr>;
     (d, bs) \<leftarrow> (if IndexIsProofOfStake d then do {
         (out, bs) \<leftarrow> read_COutPoint bs;
         (time, bs) \<leftarrow> read_word 4 bs;
         Some (d\<lparr>prevoutStake := out, nStakeTime := time\<rparr>, bs) }
       else Some (d, bs));
     (d, bs) \<leftarrow> (if IndexIsProofOfAudit d then do {
         (root, bs) \<leftarrow> read_limbs 8 bs;
         (mined, bs) \<leftarrow> read_limbs 8 bs;
         (prevPoA, bs) \<leftarrow> read_limbs 8 bs;
         Some (d\<lparr>bPoAMerkleRoot := root, bMinedHash := mined, bPrevPoABlock := prevPoA\<rparr>, bs) }
       else Some (d\<lparr>prevoutStake := NullOutPoint, nStakeTime := 0, hashProofOfStake := uint256_0\<rparr>, bs));
     (version, bs) \<leftarrow> read_int 4 bs;
     (prev, bs) \<leftarrow> read_limbs 8 bs;
     (succ, bs) \<leftarrow> read_limbs 8 bs;
     (merkle, bs) \<leftarrow> read_limbs 8 bs;
     (time, bs) \<leftarrow> read_word 4 bs;
     (bits, bs) \<leftarrow> read_word 4 bs;
     (nonce, bs) \<leftarrow> read_word 4 bs;
     Some (CBlockIndex.extend
       (d\<lparr>bVersion := version, bMerkleRoot := merkle, bTime := time, bBits := bits, bNonce := nonce\<rparr>)
       \<lparr>hashPrev = prev, hashNext = succ\<rparr>, bs) }"

text \<open>\<open>CDiskBlockIndex::GetBlockHash\<close>.\<close>

definition DiskGetBlockHash :: "(bytes \<Rightarrow> uint256) \<Rightarrow> (bytes \<Rightarrow> uint256) \<Rightarrow> CDiskBlockIndex \<Rightarrow> uint256" where
  "DiskGetBlockHash Hash HashQuark d = HeaderGetHash Hash HashQuark
     (NullHeader\<lparr>nVersion := bVersion d, hashPrevBlock := hashPrev d, hashMerkleRoot := bMerkleRoot d,
        hashPoAMerkleRoot := bPoAMerkleRoot d, minedHash := bMinedHash d, nTime := bTime d, nBits := bBits d,
        nNonce := bNonce d, nAccumulatorCheckpoint := bAccumulatorCheckpoint d\<rparr>)"

text \<open>
  The fields that \<open>LoadBlockIndexGuts\<close> copies into the entry \<open>b\<close> that it has found or created for the hash;
  \<open>InsertBlockIndex\<close> of the two hashes gives \<open>prev\<close> and \<open>succ\<close>.
\<close>

definition LoadEntry :: "CDiskBlockIndex \<Rightarrow> ptr option \<Rightarrow> ptr option \<Rightarrow> CBlockIndex \<Rightarrow> CBlockIndex" where
  "LoadEntry d prev succ b = b\<lparr>pprev := prev, pnext := succ, nHeight := nHeight d, nFile := nFile d,
     nDataPos := nDataPos d, nUndoPos := nUndoPos d, bVersion := bVersion d, bMerkleRoot := bMerkleRoot d,
     bTime := bTime d, bBits := bBits d, bNonce := bNonce d, nStatus := nStatus d, nTx := nTx d,
     bPoAMerkleRoot := bPoAMerkleRoot d, bPrevPoABlock := bPrevPoABlock d, bMinedHash := bMinedHash d,
     nMint := nMint d, nMoneySupply := nMoneySupply d, nFlags := nFlags d, nStakeModifier := nStakeModifier d,
     prevoutStake := prevoutStake d, nStakeTime := nStakeTime d, hashProofOfStake := hashProofOfStake d\<rparr>"

section \<open>Properties\<close>

definition entry_fits :: "CBlockIndex \<Rightarrow> bool" where
  "entry_fits b \<longleftrightarrow> 0 \<le> nHeight b \<and> nHeight b < 2 ^ 31 \<and> 0 \<le> nFile b \<and> nFile b < 2 ^ 31
     \<and> int_fits 8 (nMint b) \<and> int_fits 8 (nMoneySupply b) \<and> outpoint_ok (prevoutStake b) \<and> int_fits 4 (bVersion b)
     \<and> length (bPoAMerkleRoot b) = 8 \<and> length (bMinedHash b) = 8 \<and> length (bPrevPoABlock b) = 8
     \<and> length (bMerkleRoot b) = 8"

text \<open>What comes back from the disk: the stored fields, and for everything else the values of a new entry.\<close>

definition stored :: "CBlockIndex \<Rightarrow> CBlockIndex" where
  "stored b = NullIndex\<lparr>nHeight := nHeight b, nStatus := nStatus b, nTx := nTx b,
     nFile := (if nStatus b AND (BLOCK_HAVE_DATA OR BLOCK_HAVE_UNDO) \<noteq> 0 then nFile b else 0),
     nDataPos := (if nStatus b AND BLOCK_HAVE_DATA \<noteq> 0 then nDataPos b else 0),
     nUndoPos := (if nStatus b AND BLOCK_HAVE_UNDO \<noteq> 0 then nUndoPos b else 0),
     nMint := nMint b, nMoneySupply := nMoneySupply b, nFlags := nFlags b, nStakeModifier := nStakeModifier b,
     bVersion := bVersion b, bMerkleRoot := bMerkleRoot b, bTime := bTime b, bBits := bBits b, bNonce := bNonce b,
     bPoAMerkleRoot := (if IndexIsProofOfAudit b then bPoAMerkleRoot b else uint256_0),
     bMinedHash := (if IndexIsProofOfAudit b then bMinedHash b else uint256_0),
     bPrevPoABlock := (if IndexIsProofOfAudit b then bPrevPoABlock b else uint256_0)\<rparr>"

text \<open>
  C32: an entry of the index is read back from the disk with its stored fields, its predecessor by hash, and
  nothing else: the staked outpoint and the stake time of a proof-of-stake block, which are written, are
  cleared as soon as they are read, and the successor is never written.
\<close>

theorem disk_index_round_trip:
  assumes "entry_fits b" "0 \<le> streamVersion" "streamVersion < 2 ^ 31"
    and "case pprev b of None \<Rightarrow> True | Some q \<Rightarrow> length (phashBlock (H q)) = 8"
  shows "read_disk_index (write_disk_index streamVersion (DiskIndexOf H b) @ rest) =
    Some (CBlockIndex.extend (stored b)
      \<lparr>hashPrev = (case pprev b of None \<Rightarrow> uint256_0 | Some q \<Rightarrow> phashBlock (H q)), hashNext = uint256_0\<rparr>, rest)"
proof -
  have len: "length (case pprev b of None \<Rightarrow> uint256_0 | Some q \<Rightarrow> phashBlock (H q)) = 8"
    using assms(4) by (simp add: uint256_0_def zero_limbs_def split: option.splits)
  define prev where "prev = (case pprev b of None \<Rightarrow> uint256_0 | Some q \<Rightarrow> phashBlock (H q))"
  have z: "length uint256_0 = 8" by (simp add: uint256_0_def zero_limbs_def)
  note defs = write_disk_index_def read_disk_index_def DiskIndexOf_def stored_def CBlockIndex.extend_def
    CBlockIndex.truncate_def IndexIsProofOfStake_def IndexIsProofOfAudit_def NullIndex_def
  note facts = len [folded prev_def] z assms(1-3) [unfolded entry_fits_def]
  have prev: "DiskIndexOf H b = CBlockIndex.extend b \<lparr>hashPrev = prev, hashNext = uint256_0\<rparr>"
    by (simp add: DiskIndexOf_def prev_def)
  show ?thesis
    unfolding prev prev_def [symmetric]
    using facts
    by (cases "nStatus b AND (BLOCK_HAVE_DATA OR BLOCK_HAVE_UNDO) = 0"; cases "nStatus b AND BLOCK_HAVE_DATA = 0";
        cases "nStatus b AND BLOCK_HAVE_UNDO = 0"; cases "nFlags b AND BLOCK_PROOF_OF_AUDIT = 0";
        cases "nFlags b AND BLOCK_PROOF_OF_STAKE = 0") (simp_all add: defs codec_simps)
qed

theorem disk_index_round_trip_witness:
  "read_disk_index (write_disk_index 1 (DiskIndexOf demo_store
      (NullIndex\<lparr>nFlags := 1, prevoutStake := \<lparr>op_txid = uint256_1, op_n = 3\<rparr>, nStakeTime := 9\<rparr>)) @ []) =
    Some (CBlockIndex.extend (stored (NullIndex\<lparr>nFlags := 1, prevoutStake := \<lparr>op_txid = uint256_1, op_n = 3\<rparr>, nStakeTime := 9\<rparr>))
      \<lparr>hashPrev = uint256_0, hashNext = uint256_0\<rparr>, [])
   \<and> prevoutStake (stored (NullIndex\<lparr>nFlags := 1, prevoutStake := \<lparr>op_txid = uint256_1, op_n = 3\<rparr>, nStakeTime := 9\<rparr>)) = NullOutPoint"
  using disk_index_round_trip
    [of "NullIndex\<lparr>nFlags := 1, prevoutStake := \<lparr>op_txid = uint256_1, op_n = 3\<rparr>, nStakeTime := 9\<rparr>" 1 demo_store "[]"]
  by (simp add: entry_fits_def NullIndex_def int_fits_def outpoint_ok_def uint256_0_def uint256_1_def zero_limbs_def
      stored_def)

end
