(* ===== verification/Active_Chain.thy ===== *)
theory Active_Chain
  imports Block_Index
begin

text \<open>
  The active chain of \<open>chain.h\<close> and \<open>chain.cpp\<close>: the vector of its blocks by height, its tip, the fork
  of a block from it and the locator of a block; and the last common ancestor of two blocks of
  \<open>main.cpp\<close>. The loops along \<open>pprev\<close> are partial functions: \<open>None\<close> is a walk that does not end, an
  index out of range, or a failed assertion.
\<close>

section \<open>The active chain\<close>

type_synonym CChain = "ptr option list"

definition chain_at :: "CChain \<Rightarrow> int \<Rightarrow> ptr option" where
  "chain_at vChain h = (if h < 0 \<or> h \<ge> int (length vChain) then None else vChain ! nat h)"

definition Genesis :: "CChain \<Rightarrow> ptr option" where
  "Genesis vChain = (if length vChain > 0 then vChain ! 0 else None)"

definition Tip :: "CChain \<Rightarrow> ptr option" where
  "Tip vChain = (if length vChain < 1 then None else vChain ! (length vChain - 1))"

text \<open>\<open>Tip(true)\<close>: from the tip back to the last proof-of-stake block, or to the first block.\<close>

partial_function (option) tip_stake_loop :: "store \<Rightarrow> ptr option \<Rightarrow> ptr option option" where
  "tip_stake_loop H pindex = (case pindex of
     None \<Rightarrow> Some None
   | Some p \<Rightarrow> if pprev (H p) \<noteq> None \<and> \<not> IndexIsProofOfStake (H p) then tip_stake_loop H (pprev (H p)) else Some (Some p))"

definition TipProofOfStake :: "store \<Rightarrow> CChain \<Rightarrow> ptr option option" where
  "TipProofOfStake H vChain = (if length vChain < 1 then Some None else tip_stake_loop H (vChain ! (length vChain - 1)))"

text \<open>Comparison of two chains that are not empty.\<close>

definition chain_eq :: "CChain \<Rightarrow> CChain \<Rightarrow> bool" where
  "chain_eq a b \<longleftrightarrow> length a = length b \<and> a ! (length a - 1) = b ! (length b - 1)"

definition Height :: "CChain \<Rightarrow> int" where
  "Height vChain = int (length vChain) - 1"

definition Contains :: "store \<Rightarrow> CChain \<Rightarrow> ptr \<Rightarrow> bool" where
  "Contains H vChain p \<longleftrightarrow> chain_at vChain (nHeight (H p)) = Some p"

definition chain_next :: "store \<Rightarrow> CChain \<Rightarrow> ptr \<Rightarrow> ptr option" where
  "chain_next H vChain p = (if Contains H vChain p then chain_at vChain (nHeight (H p) + 1) else None)"

partial_function (option) set_tip_loop :: "store \<Rightarrow> CChain \<Rightarrow> ptr option \<Rightarrow> CChain option" where
  "set_tip_loop H vChain pindex = (case pindex of
     None \<Rightarrow> Some vChain
   | Some p \<Rightarrow>
       if nHeight (H p) < 0 \<or> nHeight (H p) \<ge> int (length vChain) then None
       else if vChain ! nat (nHeight (H p)) \<noteq> Some p
       then set_tip_loop H (vChain[nat (nHeight (H p)) := Some p]) (pprev (H p))
       else Some vChain)"

definition resize :: "nat \<Rightarrow> CChain \<Rightarrow> CChain" where
  "resize m vChain = take m vChain @ replicate (m - length vChain) None"

definition SetTip :: "store \<Rightarrow> CChain \<Rightarrow> ptr option \<Rightarrow> CChain option" where
  "SetTip H vChain pindex = (case pindex of
     None \<Rightarrow> Some []
   | Some p \<Rightarrow> set_tip_loop H (resize (nat (nHeight (H p) + 1)) vChain) (Some p))"

partial_function (option) find_fork_loop :: "store \<Rightarrow> CChain \<Rightarrow> ptr option \<Rightarrow> ptr option option" where
  "find_fork_loop H vChain pindex = (case pindex of
     None \<Rightarrow> Some None
   | Some p \<Rightarrow> if \<not> Contains H vChain p then find_fork_loop H vChain (pprev (H p)) else Some (Some p))"

definition FindFork :: "store \<Rightarrow> CChain \<Rightarrow> ptr \<Rightarrow> ptr option option" where
  "FindFork H vChain p = find_fork_loop H vChain
     (if nHeight (H p) > Height vChain then GetAncestor H p (Height vChain) else Some p)"

partial_function (option) lca_loop :: "store \<Rightarrow> ptr option \<Rightarrow> ptr option \<Rightarrow> ptr option option" where
  "lca_loop H pa pb = (if pa \<noteq> pb then
      (case (pa, pb) of
         (Some a, Some b) \<Rightarrow> lca_loop H (pprev (H a)) (pprev (H b))
       | _ \<Rightarrow> None)
    else Some pa)"

definition LastCommonAncestor :: "store \<Rightarrow> ptr \<Rightarrow> ptr \<Rightarrow> ptr option option" where
  "LastCommonAncestor H pa pb =
     (if nHeight (H pa) > nHeight (H pb) then lca_loop H (GetAncestor H pa (nHeight (H pb))) (Some pb)
      else if nHeight (H pb) > nHeight (H pa) then lca_loop H (Some pa) (GetAncestor H pb (nHeight (H pa)))
      else lca_loop H (Some pa) (Some pb))"

partial_function (option) locator_loop ::
  "store \<Rightarrow> CChain \<Rightarrow> ptr option \<Rightarrow> int \<Rightarrow> uint256 list \<Rightarrow> uint256 list option" where
  "locator_loop H vChain pindex nStep vHave = (case pindex of
     None \<Rightarrow> Some vHave
   | Some p \<Rightarrow>
       let vHave = vHave @ [phashBlock (H p)] in
       if nHeight (H p) = 0 then Some vHave
       else let h = max (nHeight (H p) - nStep) 0;
                q = (if Contains H vChain p then chain_at vChain h else GetAncestor H p h);
                nStep = (if length vHave > 10 then nStep * 2 else nStep)
            in locator_loop H vChain q nStep vHave)"

definition GetLocator :: "store \<Rightarrow> CChain \<Rightarrow> ptr option \<Rightarrow> uint256 list option" where
  "GetLocator H vChain pindex =
     locator_loop H vChain (case pindex of None \<Rightarrow> Tip vChain | Some p \<Rightarrow> Some p) 1 []"

section \<open>Ancestors by height\<close>

definition height_of :: "store \<Rightarrow> ptr \<Rightarrow> nat" where
  "height_of H p = nat (nHeight (H p))"

definition anc :: "store \<Rightarrow> ptr \<Rightarrow> nat \<Rightarrow> ptr option" where
  "anc H p h = nth_parent H (height_of H p - h) (Some p)"

text \<open>The chain that ends in \<open>p\<close>: what \<open>vChain\<close> stands for.\<close>

definition chain_of :: "store \<Rightarrow> ptr \<Rightarrow> CChain" where
  "chain_of H p = map (anc H p) [0..<Suc (height_of H p)]"

lemma length_chain_of [simp]: "length (chain_of H p) = Suc (height_of H p)"
  by (simp add: chain_of_def)

lemma chain_of_nth: "h \<le> height_of H p \<Longrightarrow> chain_of H p ! h = anc H p h"
  unfolding chain_of_def by (subst nth_map) (simp_all del: upt_Suc)

lemma anc_self [simp]: "anc H p (height_of H p) = Some p"
  by (simp add: anc_def)

lemma int_height: "block_tree H A \<Longrightarrow> p \<in> A \<Longrightarrow> int (height_of H p) = nHeight (H p)"
  using block_tree_height by (simp add: height_of_def)

lemma anc_in_tree:
  assumes "block_tree H A" "p \<in> A" "h \<le> height_of H p"
  obtains q where "anc H p h = Some q" "q \<in> A" "height_of H q = h"
proof -
  have "int (height_of H p - h) \<le> nHeight (H p)" using int_height [OF assms(1,2)] by simp
  then obtain q where "nth_parent H (height_of H p - h) (Some p) = Some q" "q \<in> A"
      "nHeight (H q) = nHeight (H p) - int (height_of H p - h)"
    using nth_parent_in_tree [OF assms(1,2)] by blast
  moreover from this have "height_of H q = h"
    using int_height [OF assms(1,2)] assms(3) by (simp add: height_of_def)
  ultimately show ?thesis using that by (simp add: anc_def)
qed

lemma anc_anc:
  assumes "anc H p h = Some q" "height_of H q = h" "h \<le> height_of H p" "h' \<le> h"
  shows "anc H q h' = anc H p h'"
proof -
  have "height_of H p - h' = (height_of H p - h) + (h - h')" using assms(3,4) by simp
  then show ?thesis using assms(1,2) by (simp add: anc_def nth_parent_add)
qed

lemma pprev_anc:
  assumes "block_tree H A" "p \<in> A" "anc H p (Suc h) = Some q" "Suc h \<le> height_of H p"
  shows "pprev (H q) = anc H p h"
proof -
  have "height_of H p - h = (height_of H p - Suc h) + 1" using assms(4) by simp
  then show ?thesis using assms(3) by (simp only: anc_def nth_parent_add) simp
qed

lemma pprev_root:
  assumes "block_tree H A" "q \<in> A" "height_of H q = 0"
  shows "pprev (H q) = None"
proof (cases "pprev (H q)")
  case (Some r)
  then have "nHeight (H q) = nHeight (H r) + 1" "0 \<le> nHeight (H r)"
    using assms(1,2) by (auto simp: block_tree_def entry_ok_def)
  then show ?thesis using assms(3) by (simp add: height_of_def)
qed

lemma GetAncestor_anc:
  assumes "block_tree H A" "p \<in> A" "h \<le> height_of H p"
  shows "GetAncestor H p (int h) = anc H p h"
proof -
  have "nat (nHeight (H p) - int h) = height_of H p - h" using assms(3) by (simp add: height_of_def)
  then show ?thesis
    using GetAncestor_nth_parent [OF assms(1,2), of "int h"] assms(3) int_height [OF assms(1,2)] by (simp add: anc_def)
qed

section \<open>Setting the tip\<close>

text \<open>A vector below a height agrees with a chain, and cannot disagree below a block it shares.\<close>

lemma set_tip_loop_correct:
  assumes "block_tree H A" "p \<in> A" "old = [] \<or> (\<exists>t\<in>A. old = chain_of H t)"
  shows "k \<le> height_of H p \<Longrightarrow> length v = Suc (height_of H p)
    \<Longrightarrow> (\<forall>h. k < h \<and> h \<le> height_of H p \<longrightarrow> v ! h = anc H p h)
    \<Longrightarrow> (\<forall>h \<le> k. v ! h = (if h < length old then old ! h else None))
    \<Longrightarrow> set_tip_loop H v (anc H p k) = Some (chain_of H p)"
proof (induction k arbitrary: v)
  case (0 v)
  obtain q where q: "anc H p 0 = Some q" "q \<in> A" "height_of H q = 0" using anc_in_tree [OF assms(1,2) 0(1)] by blast
  have hq: "nHeight (H q) = 0" using int_height [OF assms(1) q(2)] q(3) by simp
  have "v[0 := Some q] = chain_of H p"
  proof (rule nth_equalityI)
    fix h assume "h < length (v[0 := Some q])"
    then show "v[0 := Some q] ! h = chain_of H p ! h" using 0 q by (cases h) (simp_all add: chain_of_nth)
  qed (use 0 in simp)
  moreover from this have "v ! 0 = Some q \<Longrightarrow> v = chain_of H p" by (metis list_update_id)
  ultimately show ?case
    using q(1) hq pprev_root [OF assms(1) q(2,3)] 0(2)
    by (simp add: set_tip_loop.simps [of _ _ "Some q"] set_tip_loop.simps [of _ _ None])
next
  case (Suc k v)
  obtain q where q: "anc H p (Suc k) = Some q" "q \<in> A" "height_of H q = Suc k"
    using anc_in_tree [OF assms(1,2) Suc.prems(1)] by blast
  have hq: "nHeight (H q) = int (Suc k)" using int_height [OF assms(1) q(2)] q(3) by simp
  have step: "set_tip_loop H v (Some q) =
      (if v ! Suc k \<noteq> Some q then set_tip_loop H (v[Suc k := Some q]) (anc H p k) else Some v)"
    using hq Suc.prems(1,2) pprev_anc [OF assms(1,2) q(1) Suc.prems(1)]
    by (subst set_tip_loop.simps) (simp add: nat_add_distrib)
  show ?case
  proof (cases "v ! Suc k = Some q")
    case False
    have "set_tip_loop H (v[Suc k := Some q]) (anc H p k) = Some (chain_of H p)"
      by (rule Suc.IH) (use Suc.prems q(1) in \<open>auto simp: nth_list_update\<close>)
    then show ?thesis using step q(1) False by simp
  next
    case True
    then obtain t where t: "t \<in> A" "old = chain_of H t" "Suc k \<le> height_of H t" "anc H t (Suc k) = Some q"
      using assms(3) Suc.prems(4) by (auto simp: chain_of_nth split: if_splits)
    have "v = chain_of H p"
    proof (rule nth_equalityI)
      fix h assume h: "h < length v"
      show "v ! h = chain_of H p ! h"
      proof (cases "h \<le> Suc k")
        case True
        then have "v ! h = anc H t h" using Suc.prems(4) t by (simp add: chain_of_nth)
        also have "\<dots> = anc H p h"
          using anc_anc [OF t(4) q(3) t(3) True] anc_anc [OF q(1) q(3) Suc.prems(1) True] by simp
        finally show ?thesis using True Suc.prems(1) by (simp add: chain_of_nth)
      next
        case False
        then show ?thesis using Suc.prems(2,3) h by (simp add: chain_of_nth)
      qed
    qed (use Suc.prems(2) in simp)
    then show ?thesis using step q(1) True by simp
  qed
qed

section \<open>The highest common block\<close>

primrec highest_common :: "store \<Rightarrow> ptr \<Rightarrow> ptr \<Rightarrow> nat \<Rightarrow> ptr option" where
  "highest_common H p t 0 = (if anc H p 0 = anc H t 0 then anc H p 0 else None)"
| "highest_common H p t (Suc h) = (if anc H p (Suc h) = anc H t (Suc h) then anc H p (Suc h) else highest_common H p t h)"

text \<open>It is a common ancestor, and above it there is none.\<close>

definition is_highest_common :: "store \<Rightarrow> ptr \<Rightarrow> ptr \<Rightarrow> nat \<Rightarrow> ptr option \<Rightarrow> bool" where
  "is_highest_common H p t h r \<longleftrightarrow> (case r of
     None \<Rightarrow> (\<forall>i \<le> h. anc H p i \<noteq> anc H t i)
   | Some q \<Rightarrow> (\<exists>i \<le> h. anc H p i = Some q \<and> anc H t i = Some q \<and> (\<forall>j \<le> h. i < j \<longrightarrow> anc H p j \<noteq> anc H t j)))"

lemma highest_common_correct:
  "(\<And>i. i \<le> h \<Longrightarrow> anc H p i \<noteq> None) \<Longrightarrow> is_highest_common H p t h (highest_common H p t h)"
proof (induction h)
  case 0
  then obtain q where "anc H p 0 = Some q" by fastforce
  then show ?case by (cases "anc H t 0") (auto simp: is_highest_common_def)
next
  case (Suc h)
  show ?case
  proof (cases "anc H p (Suc h) = anc H t (Suc h)")
    case True
    then obtain q where "anc H p (Suc h) = Some q" using Suc.prems [of "Suc h"] by auto
    then show ?thesis using True by (auto simp: is_highest_common_def)
  next
    case False
    have ih: "is_highest_common H p t h (highest_common H p t h)" using Suc by simp
    have all: "(\<forall>j \<le> Suc h. P j \<longrightarrow> anc H p j \<noteq> anc H t j) \<longleftrightarrow> (\<forall>j \<le> h. P j \<longrightarrow> anc H p j \<noteq> anc H t j)" for P
      using False le_Suc_eq by auto
    show ?thesis
    proof (cases "highest_common H p t h")
      case None
      then show ?thesis using ih False all [of "\<lambda>_. True"] by (simp add: is_highest_common_def)
    next
      case (Some q)
      then obtain i where "i \<le> h" "anc H p i = Some q \<and> anc H t i = Some q"
          "\<forall>j \<le> h. i < j \<longrightarrow> anc H p j \<noteq> anc H t j"
        using ih by (auto simp: is_highest_common_def)
      then show ?thesis using Some False all [of "\<lambda>j. i < j"]
        by (auto simp: is_highest_common_def intro!: exI [of _ i])
    qed
  qed
qed

lemma lca_loop_correct:
  assumes "block_tree H A" "p \<in> A" "t \<in> A"
  shows "k \<le> height_of H p \<Longrightarrow> k \<le> height_of H t \<Longrightarrow>
    lca_loop H (anc H p k) (anc H t k) = Some (highest_common H p t k)"
proof (induction k)
  case 0
  obtain a where a: "anc H p 0 = Some a" "a \<in> A" "height_of H a = 0" using anc_in_tree [OF assms(1,2) 0(1)] by blast
  obtain b where b: "anc H t 0 = Some b" "b \<in> A" "height_of H b = 0" using anc_in_tree [OF assms(1,3) 0(2)] by blast
  have "lca_loop H None None = Some None" by (simp add: lca_loop.simps)
  then show ?case
    using a b pprev_root [OF assms(1) a(2,3)] pprev_root [OF assms(1) b(2,3)] by (subst lca_loop.simps) simp
next
  case (Suc k)
  obtain a where a: "anc H p (Suc k) = Some a" using anc_in_tree [OF assms(1,2) Suc.prems(1)] by blast
  obtain b where b: "anc H t (Suc k) = Some b" using anc_in_tree [OF assms(1,3) Suc.prems(2)] by blast
  show ?case
    using a b pprev_anc [OF assms(1,2) a Suc.prems(1)] pprev_anc [OF assms(1,3) b Suc.prems(2)] Suc
    by (subst lca_loop.simps) simp
qed

lemma LastCommonAncestor_eq:
  assumes "block_tree H A" "p \<in> A" "t \<in> A"
  shows "LastCommonAncestor H p t = Some (highest_common H p t (min (height_of H p) (height_of H t)))"
proof -
  note h = int_height [OF assms(1,2)] int_height [OF assms(1,3)]
  consider "height_of H p > height_of H t" | "height_of H t > height_of H p" | "height_of H p = height_of H t"
    by linarith
  then show ?thesis
  proof cases
    case 1
    then have "GetAncestor H p (nHeight (H t)) = anc H p (height_of H t)" "nHeight (H p) > nHeight (H t)"
      using GetAncestor_anc [OF assms(1,2), of "height_of H t"] h by simp_all
    then show ?thesis
      using lca_loop_correct [OF assms, of "height_of H t"] 1 by (simp add: LastCommonAncestor_def min_def)
  next
    case 2
    then have "GetAncestor H t (nHeight (H p)) = anc H t (height_of H p)" "nHeight (H t) > nHeight (H p)"
      using GetAncestor_anc [OF assms(1,3), of "height_of H p"] h by simp_all
    then show ?thesis
      using lca_loop_correct [OF assms, of "height_of H p"] 2 by (simp add: LastCommonAncestor_def min_def)
  next
    case 3
    then show ?thesis
      using lca_loop_correct [OF assms, of "height_of H p"] h anc_self [of H t] anc_self [of H p]
      by (simp add: LastCommonAncestor_def)
  qed
qed

lemma chain_at_chain_of:
  "chain_at (chain_of H t) (int h) = (if h \<le> height_of H t then anc H t h else None)"
  by (simp add: chain_at_def chain_of_nth)

lemma Contains_chain_of:
  assumes "block_tree H A" "q \<in> A"
  shows "Contains H (chain_of H t) q \<longleftrightarrow> height_of H q \<le> height_of H t \<and> anc H t (height_of H q) = Some q"
  using int_height [OF assms] chain_at_chain_of [of H t "height_of H q"] by (auto simp: Contains_def)

lemma find_fork_loop_correct:
  assumes "block_tree H A" "p \<in> A" "t \<in> A"
  shows "k \<le> height_of H p \<Longrightarrow> k \<le> height_of H t \<Longrightarrow>
    find_fork_loop H (chain_of H t) (anc H p k) = Some (highest_common H p t k)"
proof (induction k)
  case 0
  obtain a where a: "anc H p 0 = Some a" "a \<in> A" "height_of H a = 0" using anc_in_tree [OF assms(1,2) 0(1)] by blast
  have "find_fork_loop H (chain_of H t) None = Some None" by (simp add: find_fork_loop.simps)
  then show ?case
    using a Contains_chain_of [OF assms(1) a(2), of t] pprev_root [OF assms(1) a(2,3)]
    by (subst find_fork_loop.simps) auto
next
  case (Suc k)
  obtain a where a: "anc H p (Suc k) = Some a" "a \<in> A" "height_of H a = Suc k"
    using anc_in_tree [OF assms(1,2) Suc.prems(1)] by blast
  show ?case
    using a Contains_chain_of [OF assms(1) a(2), of t] pprev_anc [OF assms(1,2) a(1) Suc.prems(1)] Suc
    by (subst find_fork_loop.simps) auto
qed

lemma FindFork_eq:
  assumes "block_tree H A" "p \<in> A" "t \<in> A"
  shows "FindFork H (chain_of H t) p = Some (highest_common H p t (min (height_of H p) (height_of H t)))"
proof (cases "height_of H p > height_of H t")
  case True
  then have "GetAncestor H p (Height (chain_of H t)) = anc H p (height_of H t)" "nHeight (H p) > Height (chain_of H t)"
    using GetAncestor_anc [OF assms(1,2), of "height_of H t"] int_height [OF assms(1,2)] by (simp_all add: Height_def)
  then show ?thesis
    using find_fork_loop_correct [OF assms, of "height_of H t"] True by (simp add: FindFork_def min_def)
next
  case False
  then have "\<not> nHeight (H p) > Height (chain_of H t)" using int_height [OF assms(1,2)] by (simp add: Height_def)
  then show ?thesis
    using find_fork_loop_correct [OF assms, of "height_of H p"] False by (simp add: FindFork_def min_def)
qed

section \<open>Locators\<close>

text \<open>The blocks a locator names: from the block down by growing steps, to a block of height 0.\<close>

lemma locator_loop_correct:
  assumes "block_tree H A" "p \<in> A" "t \<in> A"
  shows "k \<le> height_of H p \<Longrightarrow> 1 \<le> nStep \<Longrightarrow> \<exists>hs. sorted_wrt (>) (k # hs) \<and> last (k # hs) = 0
    \<and> locator_loop H (chain_of H t) (anc H p k) nStep vHave =
        Some (vHave @ map (\<lambda>h. phashBlock (H (the (anc H p h)))) (k # hs))"
proof (induction k arbitrary: nStep vHave rule: less_induct)
  case (less k)
  obtain q where q: "anc H p k = Some q" "q \<in> A" "height_of H q = k" using anc_in_tree [OF assms(1,2) less.prems(1)] by blast
  have hq: "nHeight (H q) = int k" using int_height [OF assms(1) q(2)] q(3) by simp
  show ?case
  proof (cases "k = 0")
    case True
    then show ?thesis using q hq by (intro exI [of _ "[]"], subst locator_loop.simps) (simp add: Let_def)
  next
    case False
    define h where "h = nat (max (int k - nStep) 0)"
    have h: "h < k" "max (nHeight (H q) - nStep) 0 = int h" using False less.prems(2) hq by (auto simp: h_def)
    have a: "GetAncestor H q (int h) = anc H p h"
      using GetAncestor_anc [OF assms(1) q(2), of h] anc_anc [OF q(1,3) less.prems(1), of h] h(1) q(3) by simp
    have c: "chain_at (chain_of H t) (int h) = anc H p h" if "Contains H (chain_of H t) q"
    proof -
      have t: "k \<le> height_of H t" "anc H t k = Some q"
        using Contains_chain_of [OF assms(1) q(2), of t] that q(3) by auto
      then show ?thesis
        using anc_anc [OF t(2) q(3) t(1), of h] anc_anc [OF q(1,3) less.prems(1), of h] h(1)
        by (simp add: chain_at_chain_of)
    qed
    let ?v = "vHave @ [phashBlock (H q)]" and ?s = "if length (vHave @ [phashBlock (H q)]) > 10 then nStep * 2 else nStep"
    obtain hs where hs: "sorted_wrt (>) (h # hs)" "last (h # hs) = 0"
        "locator_loop H (chain_of H t) (anc H p h) ?s ?v =
          Some (?v @ map (\<lambda>h. phashBlock (H (the (anc H p h)))) (h # hs))"
    proof -
      have "h \<le> height_of H p" "1 \<le> ?s" using less.prems h(1) by auto
      then show ?thesis using less.IH [OF h(1), of ?s ?v] that by blast
    qed
    have step: "locator_loop H (chain_of H t) (Some q) nStep vHave = locator_loop H (chain_of H t) (anc H p h) ?s ?v"
      using False hq a c h(2) by (subst locator_loop.simps) (simp add: Let_def)
    have "sorted_wrt (>) (k # h # hs)" using hs(1) h(1) by auto
    then show ?thesis
      using hs(2,3) step q(1) by (intro exI [of _ "h # hs"]) auto
  qed
qed

lemma SetTip_chain:
  assumes "block_tree H A" "p \<in> A" "vChain = [] \<or> (\<exists>t\<in>A. vChain = chain_of H t)"
  shows "SetTip H vChain (Some p) = Some (chain_of H p) \<and> Tip (chain_of H p) = Some p
    \<and> Height (chain_of H p) = nHeight (H p) \<and> SetTip H vChain None = Some []"
proof -
  let ?n = "Suc (height_of H p)"
  have n: "nat (nHeight (H p) + 1) = ?n" using int_height [OF assms(1,2)] by simp
  have "set_tip_loop H (resize ?n vChain) (anc H p (height_of H p)) = Some (chain_of H p)"
    by (rule set_tip_loop_correct [OF assms]) (auto simp: resize_def nth_append)
  moreover have "chain_of H p ! height_of H p = Some p" by (simp add: chain_of_nth)
  ultimately show ?thesis using int_height [OF assms(1,2)] by (simp add: SetTip_def n Tip_def Height_def)
qed

section \<open>Properties\<close>

text \<open>
  C30: from an empty vector or from the vector of any other tip, \<open>SetTip\<close> ends and leaves the vector of the
  ancestors of the new tip, at its height the block of that height; and \<open>NULL\<close> empties it. The loop may
  stop at the first block that is in place already, because two chains that share a block share all below it.
\<close>

theorem SetTip_correct:
  assumes "block_tree H A" "p \<in> A" "vChain = [] \<or> (\<exists>t\<in>A. vChain = chain_of H t)"
  shows "SetTip H vChain (Some p) = Some (chain_of H p) \<and> Tip (chain_of H p) = Some p
    \<and> Height (chain_of H p) = nHeight (H p) \<and> SetTip H vChain None = Some []"
  by (rule SetTip_chain [OF assms])

text \<open>
  C31: the fork of a block from the active chain, found through the vector, is the last common ancestor of the block
  and the tip, found by walking back from both: the highest block that both descend from, or \<open>NULL\<close> when
  there is none. Both walks end.
\<close>

theorem fork_is_last_common_ancestor:
  assumes "block_tree H A" "p \<in> A" "t \<in> A"
  shows "\<exists>r. FindFork H (chain_of H t) p = Some r \<and> LastCommonAncestor H p t = Some r
    \<and> is_highest_common H p t (min (height_of H p) (height_of H t)) r"
proof -
  have "anc H p i \<noteq> None" if "i \<le> height_of H p" for i using anc_in_tree [OF assms(1,2) that] by fastforce
  then show ?thesis
    using FindFork_eq [OF assms] LastCommonAncestor_eq [OF assms]
      highest_common_correct [of "min (height_of H p) (height_of H t)" H p t] by simp
qed

text \<open>
  the locator of a block ends and names ancestors of the block at strictly falling heights, from the block itself
  down to the block of height 0, whether the ancestors are looked up in the vector or by the skip list.
\<close>

lemma GetLocator_correct:
  assumes "block_tree H A" "p \<in> A" "t \<in> A"
  shows "\<exists>hs. GetLocator H (chain_of H t) (Some p) = Some (map (\<lambda>h. phashBlock (H (the (anc H p h)))) hs)
    \<and> sorted_wrt (>) hs \<and> hd hs = height_of H p \<and> last hs = 0"
proof -
  obtain hs where "sorted_wrt (>) (height_of H p # hs)" "last (height_of H p # hs) = 0"
      "locator_loop H (chain_of H t) (anc H p (height_of H p)) 1 [] =
        Some ([] @ map (\<lambda>h. phashBlock (H (the (anc H p h)))) (height_of H p # hs))"
    using locator_loop_correct [OF assms, of "height_of H p" 1 "[]"] by auto
  then show ?thesis by (intro exI [of _ "height_of H p # hs"]) (simp add: GetLocator_def)
qed

theorem SetTip_correct_witness:
  "SetTip demo_store (chain_of demo_store 2) (Some 4) = Some (chain_of demo_store 4)
    \<and> Tip (chain_of demo_store 4) = Some 4 \<and> Height (chain_of demo_store 4) = nHeight (demo_store 4)
    \<and> SetTip demo_store (chain_of demo_store 2) None = Some []"
  by (rule SetTip_correct [OF demo_tree [of 5]]) auto

theorem fork_is_last_common_ancestor_witness:
  "\<exists>r. FindFork demo_store (chain_of demo_store 2) 4 = Some r \<and> LastCommonAncestor demo_store 4 2 = Some r
    \<and> is_highest_common demo_store 4 2 (min (height_of demo_store 4) (height_of demo_store 2)) r"
  by (rule fork_is_last_common_ancestor [OF demo_tree [of 5]]) auto

end
