(* ===== verification/Chain_Params.thy ===== *)
theory Chain_Params
  imports Active_Chain
begin

text \<open>
  The parameters of a network (\<open>chainparams.h\<close>, \<open>chainparams.cpp\<close>) that the consensus code reads:
  \<open>CMainParams\<close>, and \<open>CTestNetParams\<close> and \<open>CRegTestParams\<close>, which overwrite some of its fields. What a
  function can end with beside its result is collected in \<open>chain_error\<close>.
\<close>

datatype network = MAIN | TESTNET | REGTEST | UNITTEST

record CChainParams =
  networkID :: network
  bnProofOfWorkLimit :: uint256
  hashGenesisBlock :: uint256
  nMaxReorganizationDepth :: int
  nEnforceBlockUpgradeMajority :: nat
  nRejectBlockOutdatedMajority :: nat
  nToCheckBlockUpgradeMajority :: nat
  nTargetSpacing :: int
  nMaturity :: int
  nMaxMoneyOut :: CAmount
  nLastPOWBlock :: int
  nStartPOABlock :: int
  nPoABlockTime :: int
  nMinNumPoSBlocks :: nat
  nModifierUpdateBlock :: int
  TEAM_REWARD_FREQUENCY :: int
  TOTAL_SUPPLY :: CAmount
  fSkipProofOfWorkCheck :: bool
  fRequireStandard :: bool

definition main_params :: CChainParams where
  "main_params = \<lparr>networkID = MAIN, bnProofOfWorkLimit = op_shr (op_not uint256_0) 1,
     hashGenesisBlock = [0x3f31535e, 0x1e065d39, 0xafe9b4c6, 0x59e9616a, 0x86542fa0, 0xe12c29fb, 0x711dba61, 0x0000039a],
     nMaxReorganizationDepth = 100, nEnforceBlockUpgradeMajority = 750, nRejectBlockOutdatedMajority = 950,
     nToCheckBlockUpgradeMajority = 1000, nTargetSpacing = 1 * 60, nMaturity = 100,
     nMaxMoneyOut = 2000000000 * COIN, nLastPOWBlock = 500, nStartPOABlock = 560, nPoABlockTime = 60 * 60,
     nMinNumPoSBlocks = 59, nModifierUpdateBlock = 615800, TEAM_REWARD_FREQUENCY = 3,
     TOTAL_SUPPLY = 70000000000 * COIN, fSkipProofOfWorkCheck = False, fRequireStandard = True\<rparr>"

definition testnet_params :: CChainParams where
  "testnet_params = main_params\<lparr>networkID := TESTNET,
     hashGenesisBlock := [0x8aa9aba4, 0x3b105768, 0x42ca4d4b, 0x5e880e75, 0x05e5bc8f, 0xe4ecb493, 0x03c91526, 0x00000610],
     nEnforceBlockUpgradeMajority := 51, nRejectBlockOutdatedMajority := 75, nToCheckBlockUpgradeMajority := 100,
     nTargetSpacing := 1 * 60, nLastPOWBlock := 500, nStartPOABlock := 560, nPoABlockTime := 30 * 60,
     nMinNumPoSBlocks := 20, nMaturity := 15, nModifierUpdateBlock := 51197, nMaxMoneyOut := 5000000000 * COIN,
     fRequireStandard := False\<rparr>"

definition regtest_params :: CChainParams where
  "regtest_params = testnet_params\<lparr>networkID := REGTEST,
     hashGenesisBlock := [0xed774536, 0x623bf36a, 0xf5c689a8, 0x8cd9d73f, 0x16b4906a, 0xff186e61, 0xce47f012, 0x2ed32054], nEnforceBlockUpgradeMajority := 750,
     nRejectBlockOutdatedMajority := 950, nToCheckBlockUpgradeMajority := 1000,
     nTargetSpacing := 1 * 60, bnProofOfWorkLimit := op_shr (op_not uint256_0) 1, fRequireStandard := False\<rparr>"

section \<open>Checkpoints\<close>

text \<open>The checkpoints of the networks, ordered by height.\<close>

definition mapCheckpoints :: "(int \<times> uint256) list" where
  "mapCheckpoints =
    [(0, [0x3f31535e, 0x1e065d39, 0xafe9b4c6, 0x59e9616a, 0x86542fa0, 0xe12c29fb, 0x711dba61, 0x0000039a]),
     (32653, [0x4de241c2, 0x028a3a99, 0xba14bebb, 0xae3066b1, 0x23bbbdb1, 0x53106930, 0x33e4f124, 0xeaab21ed]),
     (40000, [0xc2f2d21b, 0xcbcb718b, 0xafa78f3e, 0xbc661a04, 0xf36d9a61, 0xba248c63, 0x42cd54d9, 0x9ffbac0d]),
     (45000, [0x020d334c, 0xa8b8bbdc, 0x2fc21536, 0x736f954a, 0x05b6d38e, 0xea03626d, 0xa3b2c07f, 0x64c12e8d]),
     (50000, [0xf76da313, 0xa3a4c2d3, 0xc7ff652b, 0x52fc0633, 0x8806cc05, 0xf70fd35e, 0xc4f4c132, 0xabf91e61]),
     (55000, [0xff76f5fc, 0x14999659, 0xfdf14829, 0xd3700299, 0x932498a7, 0x7355c48f, 0x1d3ecb13, 0xea6b18ed]),
     (60000, [0xd5824d29, 0x5a18a6b6, 0x2f007927, 0x1949ec68, 0x9daa6fcf, 0xa994a430, 0x3ffd8693, 0x6736bf03]),
     (65000, [0x0047b421, 0x96409927, 0x0a24ac6b, 0x9c80d436, 0xfe20f72a, 0xd05b217b, 0x96434886, 0x0a1b37f7]),
     (70000, [0xdf3deecb, 0x98914761, 0xb49ef528, 0x392e4592, 0x2ef5d9b7, 0xdea90326, 0x8314963c, 0xef0c9cb2]),
     (75000, [0xb1de46dc, 0x65887c79, 0x2d53692f, 0x819fb1aa, 0x6c916314, 0xa24eb470, 0x5ce2fa67, 0xdd497755]),
     (80000, [0xa5c71a22, 0x7e3894d5, 0xdf657244, 0x28f84267, 0x0df3cd0f, 0x46d72adb, 0x0d3ef711, 0x5f765e96]),
     (85000, [0x5725c121, 0x4212763a, 0xe7a19685, 0xe5a7120f, 0x53698994, 0xcd211d91, 0xa7c950b3, 0x25d5eef4]),
     (90000, [0x93fd0f0f, 0xd260d4db, 0x1ee07e55, 0xadad248e, 0x7932a05c, 0xb5dec442, 0xc083cb2f, 0x708fa5b0])]"

definition mapCheckpointsTestnet :: "(int \<times> uint256) list" where
  "mapCheckpointsTestnet = [(0, [0xed533af8, 0xa9ad5d20, 0xb9f496f1, 0x08a538e9, 0x48d7eec9, 0xb3056906, 0xb6da32b1, 0x00000561])]"

definition mapCheckpointsRegtest :: "(int \<times> uint256) list" where
  "mapCheckpointsRegtest = [(0, [0x62c2efdb, 0x2411bf42, 0xfd7f3e17, 0x15b57fb1, 0xb7db993f, 0x301e87eb, 0x13da2eb1, 0x519fc91c])]"

text \<open>Only on the main network is the checkpoint at height 0 the genesis block.\<close>

lemma genesis_checkpoints:
  "map_of mapCheckpoints 0 = Some (hashGenesisBlock main_params)"
  "map_of mapCheckpointsTestnet 0 \<noteq> Some (hashGenesisBlock testnet_params)"
  "map_of mapCheckpointsRegtest 0 \<noteq> Some (hashGenesisBlock regtest_params)"
  by (simp_all add: mapCheckpoints_def mapCheckpointsTestnet_def mapCheckpointsRegtest_def main_params_def
      testnet_params_def regtest_params_def)

text \<open>
  How a call can end without a result: \<open>NULL\<close> is dereferenced, a vector is read out of its range, an
  assertion fails, the block file cannot be read (\<open>runtime_error\<close>), the arithmetic throws, or the loop
  does not end.
\<close>

datatype chain_error = NullDereference | OutOfRange | AssertionFailed | CannotReadBlock | RuntimeError | ThrownUint uint_error | Diverges

lemma val_limit: "val (bnProofOfWorkLimit main_params) = 2 ^ 255 - 1" "length (bnProofOfWorkLimit main_params) = 8"
proof -
  have "val (op_not uint256_0) = 2 ^ 256 - 1" using val_op_not [of uint256_0] by (simp add: uint256_0_def)
  then show "val (bnProofOfWorkLimit main_params) = 2 ^ 255 - 1" by (simp add: main_params_def val_op_shr)
  show "length (bnProofOfWorkLimit main_params) = 8" by (simp add: main_params_def uint256_0_def)
qed

end
