(* ===== verification/Work.thy ===== *)
theory Work
  imports Chain_Params
begin

text \<open>
  The difficulty rules of \<open>pow.cpp\<close>: the target of the next block (fixed for audit blocks, moving with
  the spacing of proof-of-stake blocks, and DarkGravity over 24 blocks for proof of work), the check of
  a block hash against its target, and the expected number of hashes a block stands for.
\<close>

section \<open>The next target\<close>

abbreviation (input) N_BITS :: u32 where "N_BITS \<equiv> 0x1e1ffff0"
abbreviation (input) N_BITS_SF :: u32 where "N_BITS_SF \<equiv> 0x1e050000"

text \<open>From \<open>pindexLast->pprev\<close> back to a proof-of-stake block or to the end of the proof-of-work phase.\<close>

partial_function (option) last_pos_loop :: "CChainParams \<Rightarrow> store \<Rightarrow> ptr option \<Rightarrow> (chain_error + ptr) option" where
  "last_pos_loop P H pLastPoS = (case pLastPoS of
     None \<Rightarrow> Some (Inl NullDereference)
   | Some p \<Rightarrow> if \<not> IndexIsProofOfStake (H p) \<and> nHeight (H p) > nLastPOWBlock P then last_pos_loop P H (pprev (H p))
               else Some (Inr p))"

definition stake_target_limit :: uint256 where
  "stake_target_limit = op_shr (op_not uint256_0) 24"

definition stake_retarget :: "u32 \<Rightarrow> int \<Rightarrow> uint_error + u32" where
  "stake_retarget nBits0 nActualSpacing0 =
     (let nTargetSpacing = 60; nTargetTimespan = 60 * 40;
          nActualSpacing = (if nActualSpacing0 < 0 then 1 else nActualSpacing0);
          bnNew = fst (SetCompact nBits0);
          nInterval = nTargetTimespan div nTargetSpacing;
          bnNew = op_mul32 bnNew (of_int ((nInterval - 1) * nTargetSpacing + nActualSpacing + nActualSpacing))
      in case op_div bnNew (set_uint256 (of_int ((nInterval + 1) * nTargetSpacing))) of
           Inl e \<Rightarrow> Inl e
         | Inr bnNew \<Rightarrow>
             Inr (GetCompact (if op_le bnNew uint256_0 \<or> op_less stake_target_limit bnNew then stake_target_limit else bnNew) False))"

text \<open>The state of the DarkGravity loop.\<close>

record gravity =
  BlockReading :: "ptr option"
  CountBlocks :: nat
  PastDifficultyAverage :: uint256
  PastDifficultyAveragePrev :: uint256
  LastBlockTime :: int
  nActualTimespan :: int

definition gravity_average :: "u32 \<Rightarrow> gravity \<Rightarrow> uint_error + uint256" where
  "gravity_average bits g =
     (if CountBlocks g = 1 then Inr (fst (SetCompact bits))
      else op_div (op_add (op_mul32 (PastDifficultyAveragePrev g) (of_nat (CountBlocks g))) (fst (SetCompact bits)))
             (set_uint256 (of_nat (CountBlocks g + 1))))"

fun gravity_loop :: "store \<Rightarrow> nat \<Rightarrow> gravity \<Rightarrow> uint_error + gravity" where
  "gravity_loop H 0 g = Inr g"
| "gravity_loop H (Suc k) g = (case BlockReading g of
     None \<Rightarrow> Inr g
   | Some p \<Rightarrow>
       if nHeight (H p) > 0 then
         let g = g\<lparr>CountBlocks := CountBlocks g + 1\<rparr> in
         case gravity_average (bBits (H p)) g of
           Inl e \<Rightarrow> Inl e
         | Inr avg \<Rightarrow>
             let g = g\<lparr>PastDifficultyAverage := avg, PastDifficultyAveragePrev := avg\<rparr>;
                 g = (if LastBlockTime g > 0
                      then g\<lparr>nActualTimespan := nActualTimespan g + (LastBlockTime g - GetBlockTime (H p))\<rparr> else g);
                 g = g\<lparr>LastBlockTime := GetBlockTime (H p)\<rparr>
             in case pprev (H p) of
                  None \<Rightarrow> Inr g
                | Some q \<Rightarrow> gravity_loop H k (g\<lparr>BlockReading := Some q\<rparr>)
       else Inr g)"

text \<open>C++ division of integers rounds towards zero.\<close>

definition gravity_retarget :: "CChainParams \<Rightarrow> gravity \<Rightarrow> uint_error + u32" where
  "gravity_retarget P g =
     (let target = int (CountBlocks g) * nTargetSpacing P;
          low = sgn target * (\<bar>target\<bar> div 3);
          span = (if nActualTimespan g < low then low else nActualTimespan g);
          span = (if span > target * 3 then target * 3 else span);
          bnNew = op_mul32 (PastDifficultyAverage g) (of_int span)
      in case op_div bnNew (set_uint256 (of_int target)) of
           Inl e \<Rightarrow> Inl e
         | Inr bnNew \<Rightarrow>
             Inr (GetCompact (if op_less (bnProofOfWorkLimit P) bnNew then bnProofOfWorkLimit P else bnNew) False))"

definition DarkGravity :: "CChainParams \<Rightarrow> store \<Rightarrow> ptr \<Rightarrow> uint_error + u32" where
  "DarkGravity P H pindexLast =
     (case gravity_loop H 24 \<lparr>BlockReading = Some pindexLast, CountBlocks = 0, PastDifficultyAverage = uint256_0,
        PastDifficultyAveragePrev = uint256_0, LastBlockTime = 0, nActualTimespan = 0\<rparr> of
        Inl e \<Rightarrow> Inl e
      | Inr g \<Rightarrow> gravity_retarget P g)"

definition lift_uint :: "uint_error + 'a \<Rightarrow> chain_error + 'a" where
  "lift_uint r = (case r of Inl e \<Rightarrow> Inl (ThrownUint e) | Inr x \<Rightarrow> Inr x)"

definition lift_loop :: "(chain_error + 'a) option \<Rightarrow> chain_error + 'a" where
  "lift_loop r = (case r of None \<Rightarrow> Inl Diverges | Some x \<Rightarrow> x)"

definition stake_next_work :: "CChainParams \<Rightarrow> store \<Rightarrow> ptr \<Rightarrow> chain_error + u32" where
  "stake_next_work P H p = (case lift_loop (last_pos_loop P H (pprev (H p))) of
     Inl e \<Rightarrow> Inl e
   | Inr q \<Rightarrow>
       let nActualSpacing = (if nHeight (H p) \<noteq> 0 then GetBlockTime (H p) - GetBlockTime (H q) else 0);
           nBits0 = (if nHeight (H p) < 125000 then bBits (H p)
                     else if IndexIsProofOfStake (H p) then bBits (H p) else bBits (H q))
       in lift_uint (stake_retarget nBits0 nActualSpacing))"

definition GetNextWorkRequired ::
  "CChainParams \<Rightarrow> store \<Rightarrow> ptr option \<Rightarrow> 'a CBlockHeader_scheme \<Rightarrow> chain_error + u32" where
  "GetNextWorkRequired P H pindexLast pblock =
     (if IsPoABlockByVersion pblock then
        (case pindexLast of
           None \<Rightarrow> Inl NullDereference
         | Some p \<Rightarrow> Inr (if nHeight (H p) < 125000 then N_BITS else N_BITS_SF))
      else case pindexLast of
        None \<Rightarrow> Inr (GetCompact (bnProofOfWorkLimit P) False)
      | Some p \<Rightarrow>
          if nHeight (H p) = 0 \<or> nHeight (H p) < 24 then Inr (GetCompact (bnProofOfWorkLimit P) False)
          else if nHeight (H p) > nLastPOWBlock P then stake_next_work P H p
          else lift_uint (DarkGravity P H p))"

section \<open>Proof of work\<close>

definition CheckProofOfWork :: "CChainParams \<Rightarrow> uint256 \<Rightarrow> u32 \<Rightarrow> bool" where
  "CheckProofOfWork P hash bits =
     (if fSkipProofOfWorkCheck P then True
      else let (bnTarget, fNegative, fOverflow) = SetCompact bits in
        if fNegative \<or> EqualTo bnTarget 0 \<or> fOverflow \<or> op_less (bnProofOfWorkLimit P) bnTarget then False
        else \<not> op_less bnTarget hash)"

definition GetBlockProof :: "CBlockIndex \<Rightarrow> uint_error + uint256" where
  "GetBlockProof block =
     (let (bnTarget, fNegative, fOverflow) = SetCompact (bBits block) in
      if fNegative \<or> fOverflow \<or> EqualTo bnTarget 0 then Inr (set_uint256 0)
      else case op_div (op_not bnTarget) (op_add bnTarget (set_uint256 1)) of
        Inl e \<Rightarrow> Inl e
      | Inr q \<Rightarrow> Inr (op_add q (set_uint256 1)))"


section \<open>Values\<close>

text \<open>A compact word that stands for a target: positive, not signed, and of at most 256 bits.\<close>

definition target_ok :: "u32 \<Rightarrow> bool" where
  "target_ok bits \<longleftrightarrow> 0 < compact_value (unat bits) \<and> \<not> bit bits 23 \<and> compact_value (unat bits) < 2 ^ 256"

lemma compact_value_not_max: "compact_value c + 1 \<noteq> 2 ^ 256"
proof (cases "c div 2 ^ 24 \<le> 3")
  case True
  have "compact_value c \<le> c mod 2 ^ 23" using True by (simp add: compact_value_def compact_number_def)
  also have "\<dots> < 2 ^ 23" by simp
  finally show ?thesis by simp
next
  case False
  then obtain e where "c div 2 ^ 24 - 3 = Suc e" by (metis Suc_diff_Suc not_le_imp_less)
  then have "even (compact_value c)" using False by (simp add: compact_value_def compact_number_def)
  then have "odd (compact_value c + 1)" by simp
  moreover have "even ((2 :: nat) ^ 256)" by simp
  ultimately show ?thesis by metis
qed

lemma SetCompact_target:
  "target_ok bits \<Longrightarrow> \<exists>t. SetCompact bits = (t, False, False) \<and> length t = 8 \<and> val t = compact_value (unat bits)"
  using SetCompact_val [of bits] by (auto simp: target_ok_def)

lemma SetCompact_no_target:
  assumes "\<not> target_ok bits"
  obtains t neg ovf where "SetCompact bits = (t, neg, ovf)" "neg \<or> ovf \<or> val t = 0" "length t = 8"
  using SetCompact_val [of bits] assms by (fastforce simp: target_ok_def)

lemma EqualTo_0: "length t = 8 \<Longrightarrow> EqualTo t 0 \<longleftrightarrow> val t = 0"
  by (simp add: EqualTo_val)

lemma val_stake_limit: "val stake_target_limit = 2 ^ 232 - 1" "length stake_target_limit = 8"
proof -
  have "val (op_not uint256_0) = 2 ^ 256 - 1" using val_op_not [of uint256_0] by (simp add: uint256_0_def)
  then show "val stake_target_limit = 2 ^ 232 - 1" by (simp add: stake_target_limit_def val_op_shr)
  show "length stake_target_limit = 8" by (simp add: stake_target_limit_def uint256_0_def)
qed

lemma val_uint256_0 [simp]: "val uint256_0 = 0" "length uint256_0 = 8"
  by (simp_all add: uint256_0_def)

lemma unat_of_int_u32: "0 \<le> k \<Longrightarrow> k < 2 ^ 32 \<Longrightarrow> unat (of_int k :: u32) = nat k"
  by (simp add: unsigned_of_int take_bit_int_eq_self)

text \<open>The value that the retargeting of proof-of-stake blocks computes before it is made compact.\<close>

definition stake_target :: "nat \<Rightarrow> int \<Rightarrow> nat" where
  "stake_target t spacing =
     (let x = t * nat (2340 + 2 * (if spacing < 0 then 1 else spacing)) div 2460
      in if x = 0 \<or> x > 2 ^ 232 - 1 then 2 ^ 232 - 1 else x)"

lemma stake_retarget_val:
  assumes t: "target_ok bits" "compact_value (unat bits) \<le> 2 ^ 232 - 1" and s: "2340 + 2 * spacing < 2 ^ 24"
  shows "\<exists>a. stake_retarget bits spacing = Inr (GetCompact a False) \<and> length a = 8
    \<and> val a = stake_target (compact_value (unat bits)) spacing"
proof -
  define n where "n = compact_value (unat bits)"
  define sp where "sp = (if spacing < 0 then 1 else spacing)"
  obtain c where c: "SetCompact bits = (c, False, False)" "length c = 8" "val c = n"
    using SetCompact_target [OF t(1)] n_def by blast
  have sp: "0 \<le> sp" "2340 + 2 * sp < 2 ^ 24" using s by (auto simp: sp_def)
  define f where "f = nat (2340 + 2 * sp)"
  have f: "unat (of_int (2340 + 2 * sp) :: u32) = f" "f < 2 ^ 24"
    using sp unat_of_int_u32 [of "2340 + 2 * sp"] by (simp_all only: f_def) (simp_all add: nat_less_iff)
  have n: "n < 2 ^ 232" using t(2) by (simp add: n_def)
  have "n * f < 2 ^ 232 * 2 ^ 24" using n f(2) by (intro mult_strict_mono) simp_all
  then have nf: "n * f < 2 ^ 256" by simp
  define m where "m = op_mul32 c (of_int (2340 + 2 * sp))"
  have m: "val m = n * f" "length m = 8" using c f nf by (simp_all add: m_def val_op_mul32)
  have d: "val (set_uint256 (of_int 2460)) = 2460" by simp
  obtain q where q: "op_div m (set_uint256 (of_int 2460)) = Inr q" "length q = 8" "val q = n * f div 2460"
    using op_div_val [of m "set_uint256 (of_int 2460)"] m d by auto
  have "stake_retarget bits spacing =
      Inr (GetCompact (if op_le q uint256_0 \<or> op_less stake_target_limit q then stake_target_limit else q) False)"
    using q(1) by (simp add: stake_retarget_def c(1) Let_def sp_def [symmetric] m_def algebra_simps)
  moreover have "op_le q uint256_0 \<longleftrightarrow> n * f div 2460 = 0" "op_less stake_target_limit q \<longleftrightarrow> n * f div 2460 > 2 ^ 232 - 1"
    using q val_stake_limit by (simp_all only: op_le_val op_less_val val_uint256_0) simp_all
  ultimately show ?thesis
    using q(2,3) val_stake_limit
    by (intro exI [of _ "if op_le q uint256_0 \<or> op_less stake_target_limit q then stake_target_limit else q"])
       (simp add: stake_target_def Let_def n_def [symmetric] sp_def [symmetric] f_def [symmetric])
qed

text \<open>Two blocks at the limit of the main network: their average wraps around to less than half of it.\<close>

lemma gravity_average_overflows:
  assumes "CountBlocks g = 2" "PastDifficultyAveragePrev g = fst (SetCompact 0x207fffff)"
  shows "\<exists>a. gravity_average 0x207fffff g = Inr a \<and> 2 * val a < compact_value 0x207fffff"
proof -
  have v: "compact_value 0x207fffff = 0x7fffff * 2 ^ 232"
    unfolding compact_value_def compact_number_def by simp
  obtain c where c: "SetCompact 0x207fffff = (c, False, False)" "length c = 8" "val c = 0x7fffff * 2 ^ 232"
    using SetCompact_target [of "0x207fffff"] v by (auto simp: target_ok_def)
  have m: "val (op_mul32 c 2) = (0x7fffff * 2 ^ 232 * 2) mod 2 ^ 256" using c by (simp add: val_op_mul32)
  then have a: "val (op_add (op_mul32 c 2) c) = ((0x7fffff * 2 ^ 232 * 2) mod 2 ^ 256 + 0x7fffff * 2 ^ 232) mod 2 ^ 256"
    using c by (simp add: val_op_add)
  obtain q where q: "op_div (op_add (op_mul32 c 2) c) (set_uint256 3) = Inr q"
      "val q = val (op_add (op_mul32 c 2) c) div 3"
    using op_div_val [of "op_add (op_mul32 c 2) c" "set_uint256 3"] c by auto
  show ?thesis using q a v by (simp add: gravity_average_def assms c(1))
qed

lemma GetBlockProof_val:
  "\<exists>w. GetBlockProof b = Inr w \<and> length w = 8
     \<and> val w = (if target_ok (bBits b) then 2 ^ 256 div (compact_value (unat (bBits b)) + 1) else 0)"
proof (cases "target_ok (bBits b)")
  case True
  then obtain t where t: "SetCompact (bBits b) = (t, False, False)" "length t = 8" "val t = compact_value (unat (bBits b))"
    using SetCompact_target by blast
  have "0 < val t" "val t + 1 < 2 ^ 256"
    using True t(3) compact_value_not_max [of "unat (bBits b)"] by (simp_all add: target_ok_def)
  from u256.expected_hashes [OF t(2) this, of "set_uint256 1"]
  obtain q where "op_div (op_not t) (op_add t (set_uint256 1)) = Inr q" "length (op_add q (set_uint256 1)) = 8"
      "val (op_add q (set_uint256 1)) = 2 ^ 256 div (val t + 1)" by auto
  moreover have "\<not> EqualTo t 0" using \<open>0 < val t\<close> t(2) by (simp add: EqualTo_0)
  ultimately show ?thesis using True t by (simp add: GetBlockProof_def)
next
  case False
  then obtain t neg ovf where "SetCompact (bBits b) = (t, neg, ovf)" "neg \<or> ovf \<or> val t = 0" "length t = 8"
    by (rule SetCompact_no_target)
  then show ?thesis using False by (auto simp: GetBlockProof_def EqualTo_0)
qed

section \<open>Properties\<close>

text \<open>
  unless the network skips the check, \<open>CheckProofOfWork\<close> accepts a hash exactly when the compact word
  stands for a positive target that is not above the limit of the network, and the hash is not above it.
\<close>

lemma CheckProofOfWork_correct:
  assumes "\<not> fSkipProofOfWorkCheck P" "length hash = 8" "length (bnProofOfWorkLimit P) = 8"
  shows "CheckProofOfWork P hash bits \<longleftrightarrow>
    target_ok bits \<and> compact_value (unat bits) \<le> val (bnProofOfWorkLimit P) \<and> val hash \<le> compact_value (unat bits)"
proof (cases "target_ok bits")
  case True
  then obtain t where "SetCompact bits = (t, False, False)" "length t = 8" "val t = compact_value (unat bits)"
    using SetCompact_target by blast
  then show ?thesis using assms True
    by (auto simp: CheckProofOfWork_def EqualTo_0 op_less_val target_ok_def not_less)
next
  case False
  then obtain t neg ovf where "SetCompact bits = (t, neg, ovf)" "neg \<or> ovf \<or> val t = 0" "length t = 8"
    by (rule SetCompact_no_target)
  then show ?thesis using assms False by (auto simp: CheckProofOfWork_def EqualTo_0)
qed

text \<open>
  \<open>GetBlockProof\<close> never throws; for a valid target \<open>t\<close> it is the expected number \<open>2^256 / (t + 1)\<close> of hashes
  to reach it, computed without the 257th bit, and 0 for a word that stands for no target.
\<close>

lemma GetBlockProof_correct:
  "\<exists>w. GetBlockProof b = Inr w \<and> length w = 8
     \<and> val w = (if target_ok (bBits b) then 2 ^ 256 div (compact_value (unat (bBits b)) + 1) else 0)"
  by (rule GetBlockProof_val)

text \<open>
  when the old target is within the limit of the stake phase and the blocks are less than 97 days apart, the
  multiplication does not wrap and the new target is \<open>t * (39 * 60 + 2 * spacing) / (41 * 60)\<close>, or the limit when that
  is zero or above it, cut to the precision of the compact form. So a spacing of 60 seconds keeps the target.
\<close>

lemma stake_retarget_correct:
  assumes "target_ok bits" "compact_value (unat bits) \<le> 2 ^ 232 - 1" "2340 + 2 * spacing < 2 ^ 24"
  shows "\<exists>r k. stake_retarget bits spacing = Inr r \<and> target_ok r
    \<and> compact_value (unat r) = stake_target (compact_value (unat bits)) spacing div 256 ^ k * 256 ^ k
    \<and> (k = 0 \<or> 2 ^ 15 \<le> stake_target (compact_value (unat bits)) spacing div 256 ^ k)
    \<and> stake_target (compact_value (unat bits)) 60 = compact_value (unat bits)"
proof -
  define n where "n = compact_value (unat bits)"
  have n: "0 < n" "n \<le> 2 ^ 232 - 1" using assms(1,2) by (simp_all add: n_def target_ok_def)
  then have keep: "stake_target n 60 = n" by (simp add: stake_target_def Let_def)
  have pos: "0 < stake_target n spacing" "stake_target n spacing \<le> 2 ^ 232 - 1" by (auto simp: stake_target_def Let_def)
  obtain a where a: "stake_retarget bits spacing = Inr (GetCompact a False)" "length a = 8" "val a = stake_target n spacing"
    using stake_retarget_val [OF assms] n_def by blast
  obtain t k where t: "SetCompact (GetCompact a False) = (t, False, False)" "length t = 8"
      "val t = val a div 256 ^ k * 256 ^ k" "k = 0 \<or> 2 ^ 15 \<le> val a div 256 ^ k"
    using compact_round_trip [OF a(2), of False] by auto
  obtain t' neg ovf where s: "SetCompact (GetCompact a False) = (t', neg, ovf)"
      "val t' = compact_value (unat (GetCompact a False)) mod 2 ^ 256"
      "ovf \<longleftrightarrow> 2 ^ 256 \<le> compact_value (unat (GetCompact a False))"
      "neg \<longleftrightarrow> compact_value (unat (GetCompact a False)) \<noteq> 0 \<and> bit (GetCompact a False) 23"
    using SetCompact_val [of "GetCompact a False"] by blast
  have r: "compact_value (unat (GetCompact a False)) = val t" using s t(1) by simp
  have "0 < val a div 256 ^ k * 256 ^ k"
  proof (cases "k = 0")
    case False
    then have "0 < val a div 256 ^ k" using t(4) by (metis less_le_trans zero_less_numeral zero_less_power)
    then show ?thesis by simp
  qed (simp add: a(3) pos)
  then have "target_ok (GetCompact a False)" using s t(1,3) r by (auto simp: target_ok_def)
  then show ?thesis using a t(3,4) r keep by (metis n_def)
qed

end
