(* ===== verification/Node_State.thy ===== *)
theory Node_State
  imports Work
begin

text \<open>
  The state that the validation code of \<open>main.cpp\<close> and \<open>pow.cpp\<close> shares: the objects of the block index
  in memory, \<open>mapBlockIndex\<close> and \<open>chainActive\<close>. A function that reads or changes it maps a state to an
  error or to its result with the new state. \<open>mapBlockIndex[h]\<close> of a hash that is not in the map enters
  \<open>NULL\<close> under it, as \<open>operator[]\<close> of the standard containers does.

  What is outside the model is in the environment: the hash functions, the contents of the block files, and
  for later theories the wallet's cryptography and the transaction index.
\<close>

section \<open>States and steps\<close>

record node =
  heap :: store
  mapBlockIndex :: "uint256 \<rightharpoonup> ptr option"
  chainActive :: CChain

type_synonym ('s, 'a) step = "'s \<Rightarrow> chain_error + 'a \<times> 's"

definition ret :: "'a \<Rightarrow> ('s, 'a) step" where
  "ret x = (\<lambda>s. Inr (x, s))"

definition fail :: "chain_error \<Rightarrow> ('s, 'a) step" where
  "fail e = (\<lambda>s. Inl e)"

definition bind :: "('s, 'a) step \<Rightarrow> ('a \<Rightarrow> ('s, 'b) step) \<Rightarrow> ('s, 'b) step" where
  "bind m f = (\<lambda>s. case m s of Inl e \<Rightarrow> Inl e | Inr (x, s') \<Rightarrow> f x s')"

text \<open>A result computed from the state.\<close>

definition gets :: "('s \<Rightarrow> chain_error + 'a) \<Rightarrow> ('s, 'a) step" where
  "gets f = (\<lambda>s. case f s of Inl e \<Rightarrow> Inl e | Inr x \<Rightarrow> Inr (x, s))"

definition deref :: "ptr option \<Rightarrow> ('s, ptr) step" where
  "deref p = (case p of None \<Rightarrow> fail NullDereference | Some q \<Rightarrow> ret q)"

definition block_at :: "uint256 \<Rightarrow> ('a node_scheme, ptr option) step" where
  "block_at h = (\<lambda>s. case mapBlockIndex s h of
     Some p \<Rightarrow> Inr (p, s)
   | None \<Rightarrow> Inr (None, s\<lparr>mapBlockIndex := (mapBlockIndex s)(h \<mapsto> None)\<rparr>))"

definition block_count :: "'a node_scheme \<Rightarrow> uint256 \<Rightarrow> bool" where
  "block_count s h \<longleftrightarrow> mapBlockIndex s h \<noteq> None"

text \<open>\<open>vector::at\<close> and \<open>operator[]\<close>, which is undefined out of range.\<close>

definition item :: "'b list \<Rightarrow> nat \<Rightarrow> ('s, 'b) step" where
  "item xs i = (if i < length xs then ret (xs ! i) else fail OutOfRange)"

named_theorems step_simps

lemma ret_app [simp, step_simps]: "ret x s = Inr (x, s)"
  by (simp add: ret_def)

lemma fail_app [simp, step_simps]: "fail e s = Inl e"
  by (simp add: fail_def)

lemma bind_app [step_simps]: "bind m f s = (case m s of Inl e \<Rightarrow> Inl e | Inr (x, s') \<Rightarrow> f x s')"
  by (simp add: bind_def)

lemma bind_Inr: "bind m f s = Inr r \<longleftrightarrow> (\<exists>x s'. m s = Inr (x, s') \<and> f x s' = Inr r)"
  by (auto simp: bind_def split: sum.splits)

lemma gets_Inr: "gets f s = Inr (x, s') \<longleftrightarrow> f s = Inr x \<and> s' = s"
  by (auto simp: gets_def split: sum.splits)

lemma deref_app [step_simps]: "deref p s = (case p of None \<Rightarrow> Inl NullDereference | Some q \<Rightarrow> Inr (q, s))"
  by (simp add: deref_def split: option.split)

lemma deref_Inr: "deref p s = Inr (q, s') \<longleftrightarrow> p = Some q \<and> s' = s"
  by (auto simp: deref_def split: option.splits)

lemma item_Inr: "item xs i s = Inr (x, s') \<longleftrightarrow> i < length xs \<and> x = xs ! i \<and> s' = s"
  by (auto simp: item_def)

lemma block_at_known: "mapBlockIndex s h = Some p \<Longrightarrow> block_at h s = Inr (p, s)"
  by (simp add: block_at_def)

text \<open>
  A step that changes nothing but the map of blocks, and that only by entering \<open>NULL\<close> for unknown hashes.
\<close>

definition map_grows :: "'a node_scheme \<Rightarrow> 'a node_scheme \<Rightarrow> bool" where
  "map_grows s s' \<longleftrightarrow> (\<exists>m. s' = s\<lparr>mapBlockIndex := m\<rparr>
     \<and> (\<forall>h p. mapBlockIndex s h = Some p \<longrightarrow> m h = Some p)
     \<and> (\<forall>h. mapBlockIndex s h = None \<longrightarrow> m h = None \<or> m h = Some None))"

lemma map_grows_refl [simp, intro]: "map_grows s s"
  unfolding map_grows_def by (rule exI [of _ "mapBlockIndex s"]) simp

lemma map_grows_facts:
  assumes "map_grows s s'"
  shows "heap s' = heap s" "chainActive s' = chainActive s" "\<exists>m. s' = s\<lparr>mapBlockIndex := m\<rparr>"
    and "mapBlockIndex s h = Some p \<Longrightarrow> mapBlockIndex s' h = Some p"
    and "mapBlockIndex s h = None \<Longrightarrow> mapBlockIndex s' h = None \<or> mapBlockIndex s' h = Some None"
    and "mapBlockIndex s' h = Some (Some q) \<Longrightarrow> mapBlockIndex s h = Some (Some q)"
proof -
  obtain m where m: "s' = s\<lparr>mapBlockIndex := m\<rparr>" "\<forall>h p. mapBlockIndex s h = Some p \<longrightarrow> m h = Some p"
      "\<forall>h. mapBlockIndex s h = None \<longrightarrow> m h = None \<or> m h = Some None"
    using assms map_grows_def by metis
  then show "heap s' = heap s" "chainActive s' = chainActive s" "\<exists>m. s' = s\<lparr>mapBlockIndex := m\<rparr>"
    and "mapBlockIndex s h = Some p \<Longrightarrow> mapBlockIndex s' h = Some p"
    and "mapBlockIndex s h = None \<Longrightarrow> mapBlockIndex s' h = None \<or> mapBlockIndex s' h = Some None" by auto
  show "mapBlockIndex s h = Some (Some q)" if "mapBlockIndex s' h = Some (Some q)"
  proof (cases "mapBlockIndex s h")
    case None
    then have "m h = None \<or> m h = Some None" using m(3) by blast
    then show ?thesis using that m(1) by auto
  next
    case (Some p)
    then have "m h = Some p" using m(2) by blast
    then show ?thesis using that m(1) Some by simp
  qed
qed

lemma map_grows_trans:
  assumes "map_grows s s'" "map_grows s' s''"
  shows "map_grows s s''"
proof -
  obtain m where m: "s' = s\<lparr>mapBlockIndex := m\<rparr>" using map_grows_facts(3) [OF assms(1)] by blast
  obtain m' where m': "s'' = s'\<lparr>mapBlockIndex := m'\<rparr>" using map_grows_facts(3) [OF assms(2)] by blast
  have "m' h = None \<or> m' h = Some None" if "mapBlockIndex s h = None" for h
    using map_grows_facts(5) [OF assms(1) that] map_grows_facts(4,5) [OF assms(2), of h] m' by auto
  moreover have "m' h = Some p" if "mapBlockIndex s h = Some p" for h p
    using map_grows_facts(4) [OF assms(2) map_grows_facts(4) [OF assms(1) that]] m' by simp
  ultimately show ?thesis unfolding map_grows_def by (intro exI [of _ m']) (simp add: m m')
qed

lemma block_at_grows: "block_at h s = Inr (p, s') \<Longrightarrow> map_grows s s' \<and> mapBlockIndex s' h = Some p
    \<and> (p \<noteq> None \<longrightarrow> s' = s \<and> mapBlockIndex s h = Some p)"
proof -
  have "map_grows s (s\<lparr>mapBlockIndex := (mapBlockIndex s)(h \<mapsto> None)\<rparr>)" if "mapBlockIndex s h = None"
    unfolding map_grows_def using that by (intro exI [of _ "(mapBlockIndex s)(h \<mapsto> None)"]) simp
  then show "block_at h s = Inr (p, s') \<Longrightarrow> map_grows s s' \<and> mapBlockIndex s' h = Some p
    \<and> (p \<noteq> None \<longrightarrow> s' = s \<and> mapBlockIndex s h = Some p)"
    by (auto simp: block_at_def split: option.splits)
qed

section \<open>Relations that every step keeps\<close>

text \<open>
  A result whose state is related to \<open>s\<close>. For a reflexive and transitive relation the rules below follow the
  shape of the code, so that a proof that a function keeps the relation is one application of \<open>intro\<close>.
\<close>

definition ends_in :: "('s \<Rightarrow> 's \<Rightarrow> bool) \<Rightarrow> 's \<Rightarrow> chain_error + 'a \<times> 's \<Rightarrow> bool" where
  "ends_in R s r \<longleftrightarrow> (\<forall>x s'. r = Inr (x, s') \<longrightarrow> R s s')"

lemma ends_inD: "ends_in R s r \<Longrightarrow> r = Inr (x, s') \<Longrightarrow> R s s'"
  by (simp add: ends_in_def)

locale step_frame =
  fixes R :: "'s \<Rightarrow> 's \<Rightarrow> bool"
  assumes refl: "R s s"
    and trans: "R s s' \<Longrightarrow> R s' s'' \<Longrightarrow> R s s''"
begin

lemma ret: "ends_in R s (ret x s)"
  by (simp add: ends_in_def refl)

lemma fail: "ends_in R s (fail e s)"
  by (simp add: ends_in_def)

lemma error: "ends_in R s (Inl e)"
  by (simp add: ends_in_def)

lemma deref: "ends_in R s (deref p s)"
  by (simp add: ends_in_def deref_Inr refl)

lemma item: "ends_in R s (item xs i s)"
  by (simp add: ends_in_def item_Inr refl)

lemma gets: "ends_in R s (gets f s)"
  by (simp add: ends_in_def gets_Inr refl)

lemma bind:
  assumes "ends_in R s (m s)" "\<And>x s'. R s s' \<Longrightarrow> ends_in R s' (f x s')"
  shows "ends_in R s (bind m f s)"
  unfolding ends_in_def
proof (intro allI impI)
  fix y s''
  assume "Node_State.bind m f s = Inr (y, s'')"
  then obtain x s' where "m s = Inr (x, s')" "f x s' = Inr (y, s'')" by (auto simp: bind_Inr)
  then show "R s s''" using assms trans unfolding ends_in_def by blast
qed

lemma cond:
  "(c \<Longrightarrow> ends_in R s a) \<Longrightarrow> (\<not> c \<Longrightarrow> ends_in R s b) \<Longrightarrow> ends_in R s (if c then a else b)"
  "(c \<Longrightarrow> ends_in R s (m s)) \<Longrightarrow> (\<not> c \<Longrightarrow> ends_in R s (n s)) \<Longrightarrow> ends_in R s ((if c then m else n) s)"
  by simp_all

lemma choice:
  "(z = None \<Longrightarrow> ends_in R s a) \<Longrightarrow> (\<And>x. z = Some x \<Longrightarrow> ends_in R s (b x)) \<Longrightarrow>
     ends_in R s (case z of None \<Rightarrow> a | Some x \<Rightarrow> b x)"
  "(z = None \<Longrightarrow> ends_in R s (m s)) \<Longrightarrow> (\<And>x. z = Some x \<Longrightarrow> ends_in R s (n x s)) \<Longrightarrow>
     ends_in R s ((case z of None \<Rightarrow> m | Some x \<Rightarrow> n x) s)"
  by (simp_all split: option.split)

lemma list:
  "(xs = [] \<Longrightarrow> ends_in R s a) \<Longrightarrow> (\<And>y ys. xs = y # ys \<Longrightarrow> ends_in R s (b y ys)) \<Longrightarrow>
     ends_in R s (case xs of [] \<Rightarrow> a | y # ys \<Rightarrow> b y ys)"
  by (simp split: list.split)

lemma pair:
  "(\<And>x y. z = (x, y) \<Longrightarrow> ends_in R s (a x y)) \<Longrightarrow> ends_in R s (case z of (x, y) \<Rightarrow> a x y)"
  "(\<And>x y. z = (x, y) \<Longrightarrow> ends_in R s (m x y s)) \<Longrightarrow> ends_in R s ((case z of (x, y) \<Rightarrow> m x y) s)"
  by (simp_all split: prod.split)

lemmas frame_rules = ret fail error deref item gets bind cond choice list pair

end

interpretation grows: step_frame map_grows
  by unfold_locales (blast intro: map_grows_trans)+

lemma block_at_ends: "ends_in map_grows s (block_at h s)"
  using block_at_grows by (fastforce simp: ends_in_def)

section \<open>Steps that return\<close>

text \<open>A result that is no error, with the rules that follow the shape of the code.\<close>

definition returns :: "chain_error + 'a \<times> 's \<Rightarrow> bool" where
  "returns r \<longleftrightarrow> (\<exists>x s'. r = Inr (x, s'))"

lemma returns_basic:
  "returns (ret x s)" "returns (Inr (x, s))" "p \<noteq> None \<Longrightarrow> returns (deref p s)" "i < length xs \<Longrightarrow> returns (item xs i s)"
  "f s = Inr x \<Longrightarrow> returns (gets f s)" "returns (block_at h n)"
  by (auto simp: returns_def deref_def item_def gets_def block_at_def split: option.splits)

lemma returns_bind: "returns (m s) \<Longrightarrow> (\<And>x s'. m s = Inr (x, s') \<Longrightarrow> returns (f x s')) \<Longrightarrow> returns (bind m f s)"
  by (auto simp: returns_def bind_Inr)

lemma returns_cond:
  "(c \<Longrightarrow> returns a) \<Longrightarrow> (\<not> c \<Longrightarrow> returns b) \<Longrightarrow> returns (if c then a else b)"
  "(c \<Longrightarrow> returns (m s)) \<Longrightarrow> (\<not> c \<Longrightarrow> returns (n s)) \<Longrightarrow> returns ((if c then m else n) s)"
  by simp_all

lemma returns_choice:
  "(z = None \<Longrightarrow> returns a) \<Longrightarrow> (\<And>x. z = Some x \<Longrightarrow> returns (b x)) \<Longrightarrow> returns (case z of None \<Rightarrow> a | Some x \<Rightarrow> b x)"
  "(z = None \<Longrightarrow> returns (m s)) \<Longrightarrow> (\<And>x. z = Some x \<Longrightarrow> returns (n x s)) \<Longrightarrow>
     returns ((case z of None \<Rightarrow> m | Some x \<Rightarrow> n x) s)"
  "(\<And>x y. w = (x, y) \<Longrightarrow> returns (k x y)) \<Longrightarrow> returns (case w of (x, y) \<Rightarrow> k x y)"
  "(\<And>x y. w = (x, y) \<Longrightarrow> returns (l x y s)) \<Longrightarrow> returns ((case w of (x, y) \<Rightarrow> l x y) s)"
  by (simp_all split: option.split prod.split)

lemmas returns_rules = returns_basic(1,2,6) returns_bind returns_cond returns_choice

section \<open>The environment and the block files\<close>

record chain_env =
  Params :: CChainParams
  HashFn :: "bytes \<Rightarrow> uint256"
  HashQuarkFn :: "bytes \<Rightarrow> uint256"
  block_file :: "int \<times> u32 \<Rightarrow> CBlock option"

definition BlockHash :: "'e chain_env_scheme \<Rightarrow> 'a CBlockHeader_scheme \<Rightarrow> uint256" where
  "BlockHash E b = HeaderGetHash (HashFn E) (HashQuarkFn E) b"

text \<open>Reading at a position, and reading the block of an entry.\<close>

definition ReadBlockAt :: "'e chain_env_scheme \<Rightarrow> int \<times> u32 \<Rightarrow> CBlock option" where
  "ReadBlockAt E pos =
     (if fst pos = -1 then None
      else case block_file E pos of
        None \<Rightarrow> None
      | Some block \<Rightarrow>
          if IsProofOfWork block \<and> \<not> CheckProofOfWork (Params E) (BlockHash E block) (nBits block) then None
          else Some block)"

definition ReadBlockFromDisk :: "'e chain_env_scheme \<Rightarrow> CBlockIndex \<Rightarrow> CBlock option" where
  "ReadBlockFromDisk E pindex =
     (case ReadBlockAt E (GetBlockPos pindex) of
        None \<Rightarrow> None
      | Some block \<Rightarrow> if BlockHash E block \<noteq> phashBlock pindex then None else Some block)"

end
