(* ===== verification/Rewards.thy ===== *)
theory Rewards
  imports Node_State
begin

text \<open>
  The value of a block (\<open>PoSBlockReward\<close>, \<open>TeamRewards\<close>, \<open>GetBlockValue\<close> of \<open>main.cpp\<close> and
  \<open>IsBlockValueValid\<close> of \<open>masternode-payments.cpp\<close>), and \<open>ReVerifyPoSBlock\<close>, which checks a
  proof-of-stake block again when it is audited. Ring signatures, bulletproofs, derived addresses, the
  decoding of hidden amounts and the transaction index are fields of the environment.
\<close>

section \<open>The value of a block\<close>

definition PoSBlockReward :: CAmount where
  "PoSBlockReward = 900 * COIN"

text \<open>
  The walk along the audit blocks. It stops at the latest when the counter, which starts at 1, reaches
  \<open>TEAM_REWARD_FREQUENCY\<close>, so that number bounds the rounds.
\<close>

primrec team_loop :: "CChainParams \<Rightarrow> nat \<Rightarrow> uint256 \<Rightarrow> int \<Rightarrow> ('a node_scheme, uint256 \<times> int) step" where
  "team_loop P 0 lastPoAHash numPoABlocks =
     (if IsNull lastPoAHash \<or> (numPoABlocks \<noteq> 0 \<and> numPoABlocks mod TEAM_REWARD_FREQUENCY P = 0)
      then ret (lastPoAHash, numPoABlocks) else fail Diverges)"
| "team_loop P (Suc k) lastPoAHash numPoABlocks =
     (if IsNull lastPoAHash then ret (lastPoAHash, numPoABlocks)
      else if numPoABlocks \<noteq> 0 \<and> numPoABlocks mod TEAM_REWARD_FREQUENCY P = 0 then ret (lastPoAHash, numPoABlocks)
      else bind (block_at lastPoAHash) (\<lambda>p. bind (deref p) (\<lambda>p s.
             team_loop P k (bPrevPoABlock (heap s p)) (numPoABlocks + 1) s)))"

definition TeamRewards :: "CChainParams \<Rightarrow> ptr option \<Rightarrow> ('a node_scheme, CAmount) step" where
  "TeamRewards P ptip = (\<lambda>s. bind (deref (if ptip = None then Tip (chainActive s) else ptip)) (\<lambda>pForkTip s.
     let b = heap s pForkTip in
     if \<not> IndexIsProofOfAudit b then ret 0 s
     else if IsNull (bPrevPoABlock b) then ret ((nHeight b - nLastPOWBlock P - 1 + 1) * 50 * COIN) s
     else bind (team_loop P (nat (TEAM_REWARD_FREQUENCY P)) (bPrevPoABlock b) 1) (\<lambda>(lastPoAHash, numPoABlocks).
       if \<not> IsNull lastPoAHash \<and> numPoABlocks \<noteq> 0 \<and> numPoABlocks mod 24 = 0
       then bind (block_at lastPoAHash) (\<lambda>q. bind (deref q) (\<lambda>q s.
              ret ((nHeight b - (nHeight (heap s q) + 1) - numPoABlocks + 1) * 50 * COIN) s))
       else ret 0) s) s)"

definition GetBlockValue :: "CChainParams \<Rightarrow> ptr option \<Rightarrow> ('a node_scheme, CAmount) step" where
  "GetBlockValue P ptip = (\<lambda>s. bind (deref (if ptip = None then Tip (chainActive s) else ptip)) (\<lambda>pForkTip s.
     let b = heap s pForkTip in
     if nMoneySupply b \<ge> TOTAL_SUPPLY P then ret 0 s
     else bind (if nHeight b < nLastPOWBlock P then ret (120000000 * COIN)
                else bind (TeamRewards P (Some pForkTip)) (\<lambda>team. ret (PoSBlockReward + team)))
       (\<lambda>nSubsidy. ret (if nMoneySupply b + nSubsidy \<ge> TOTAL_SUPPLY P then TOTAL_SUPPLY P - nMoneySupply b
                        else nSubsidy)) s) s)"

definition GetBudgetPaymentCycleBlocks :: "CChainParams \<Rightarrow> int" where
  "GetBudgetPaymentCycleBlocks P = (if networkID P = MAIN then 43200 else 144)"

text \<open>The height of a block above the tip, or above an entry of the map; 0 when its predecessor is not known.\<close>

definition height_after :: "'a node_scheme \<Rightarrow> uint256 \<Rightarrow> ptr \<Rightarrow> int" where
  "height_after s hashPrev tip =
     (if phashBlock (heap s tip) = hashPrev then nHeight (heap s tip) + 1
      else case mapBlockIndex s hashPrev of Some (Some q) \<Rightarrow> nHeight (heap s q) + 1 | _ \<Rightarrow> 0)"

definition IsBlockValueValid ::
  "CChainParams \<Rightarrow> bool \<Rightarrow> (int \<Rightarrow> bool) \<Rightarrow> 'a node_scheme \<Rightarrow> CBlock \<Rightarrow> CAmount \<Rightarrow> CAmount \<Rightarrow> bool" where
  "IsBlockValueValid P synced IsBudgetPaymentBlock s block nExpectedValue nMinted =
     (case Tip (chainActive s) of
        None \<Rightarrow> True
      | Some tip \<Rightarrow>
          (let nHeight = height_after s (hashPrevBlock block) tip in
           if \<not> synced then (if nHeight mod GetBudgetPaymentCycleBlocks P < 100 then True else \<not> nMinted > nExpectedValue)
           else if IsBudgetPaymentBlock nHeight then True else \<not> nMinted > nExpectedValue))"

section \<open>Checking an audited block again\<close>

record wallet_env = chain_env +
  GetTransaction :: "uint256 \<Rightarrow> (CTransaction \<times> uint256) option"
  ECDHDecode :: "uint256 \<Rightarrow> uint256 \<Rightarrow> CPubKey \<Rightarrow> bytes \<times> CAmount"
  CommitmentTo :: "bytes \<Rightarrow> CAmount \<Rightarrow> bytes"
  RingSignatureValid :: "node \<Rightarrow> CTransaction \<Rightarrow> ptr \<Rightarrow> bool"
  VerifyBulletProofAggregate :: "CTransaction \<Rightarrow> bool"
  VerifyDerivedAddress :: "CTxOut \<Rightarrow> string \<Rightarrow> bool"
  masternode_synced :: bool
  BudgetPaymentBlock :: "int \<Rightarrow> bool"

abbreviation (input) FOUNDATION_WALLET :: string where
  "FOUNDATION_WALLET \<equiv> ''41jsGvYo3GMWCvFVZekSnrRV8ptJfMGhuhRjB9tYEv5NSA47VqyLp6gKSCpS3wHTBhCGu9DJ5k1HMWXeHVnL9nUs15CjyeCQDiT''"

text \<open>The amount of a staked output: the one in clear, or the hidden one when it opens the commitment.\<close>

definition staked_value :: "'e wallet_env_scheme \<Rightarrow> CTxIn \<Rightarrow> ('s, CAmount) step" where
  "staked_value E txin =
     (let txPrev = (case GetTransaction E (op_txid (prevout txin)) of None \<Rightarrow> NullTransaction | Some (tx, _) \<Rightarrow> tx) in
      bind (item (vout txPrev) (unat (op_n (prevout txin)))) (\<lambda>out.
        if nValue out > 0 then ret (nValue out)
        else if length (encryptionKey txin) < 33 then fail OutOfRange
        else let (decodedMask, nValueIn) = ECDHDecode E (mv_mask (maskValue out)) (mv_amount (maskValue out))
                                             (PubKeySet (take 33 (encryptionKey txin)))
          in if CommitmentTo E decodedMask nValueIn \<noteq> commitment out then fail RuntimeError else ret nValueIn))"

primrec value_in_loop :: "'e wallet_env_scheme \<Rightarrow> CAmount \<Rightarrow> CTxIn list \<Rightarrow> ('s, CAmount) step" where
  "value_in_loop E nResult [] = ret nResult"
| "value_in_loop E nResult (txin # txins) =
     bind (staked_value E txin) (\<lambda>v. value_in_loop E (wrap64 (nResult + v)) txins)"

definition GetValueIn :: "'e wallet_env_scheme \<Rightarrow> CTransaction \<Rightarrow> ('s, CAmount) step" where
  "GetValueIn E tx = (if IsCoinBase tx then ret 0
     else if IsCoinStake tx then value_in_loop E 0 (vin tx) else ret 0)"

text \<open>The fees of the transactions of a block; \<open>None\<close> when a signature or a range proof is wrong.\<close>

fun verify_loop :: "'e wallet_env_scheme \<Rightarrow> node \<Rightarrow> ptr \<Rightarrow> CAmount \<Rightarrow> CTransaction list \<Rightarrow> CAmount option" where
  "verify_loop E N pindex nFees [] = Some nFees"
| "verify_loop E N pindex nFees (tx # txs) =
     (if IsCoinStake tx then verify_loop E N pindex nFees txs
      else if \<not> IsCoinAudit tx \<and> \<not> RingSignatureValid E N tx pindex then None
      else if \<not> IsCoinAudit tx \<and> \<not> VerifyBulletProofAggregate E tx then None
      else verify_loop E N pindex (wrap64 (nFees + nTxFee tx)) txs)"

definition lift_value :: "value_error + CAmount \<Rightarrow> ('s, CAmount) step" where
  "lift_value r = (case r of Inl e \<Rightarrow> fail RuntimeError | Inr v \<Rightarrow> ret v)"

definition as_string :: "bytes \<Rightarrow> string" where
  "as_string = map (\<lambda>b. char_of (unat b))"

text \<open>The payments of a coinstake: to the masternode, and to the foundation when the block is worth more.\<close>

definition check_payees :: "'e wallet_env_scheme \<Rightarrow> CTransaction \<Rightarrow> CAmount \<Rightarrow> ('s, bool) step" where
  "check_payees E coinstake blockValue =
     (let outs = vout coinstake; numUTXO = length outs in
      if blockValue > PoSBlockReward then
        (if numUTXO < 2 then fail OutOfRange
         else let mnOut = outs ! (numUTXO - 2); foundationOut = outs ! (numUTXO - 1) in
           if \<not> VerifyDerivedAddress E mnOut (as_string (masternodeStealthAddress mnOut)) then ret False
           else if nValue foundationOut \<noteq> blockValue - PoSBlockReward then ret False
           else ret (VerifyDerivedAddress E foundationOut FOUNDATION_WALLET))
      else if numUTXO < 1 then fail OutOfRange
      else let mnOut = outs ! (numUTXO - 1)
        in ret (VerifyDerivedAddress E mnOut (as_string (masternodeStealthAddress mnOut))))"

definition SetSupply :: "ptr \<Rightarrow> CAmount \<Rightarrow> CAmount \<Rightarrow> ('a node_scheme, unit) step" where
  "SetSupply p supply mint = (\<lambda>s. Inr ((), s\<lparr>heap := (heap s)(p := (heap s p)\<lparr>nMoneySupply := supply, nMint := mint\<rparr>)\<rparr>))"

definition ReVerifyPoSBlock :: "'e wallet_env_scheme \<Rightarrow> ptr option \<Rightarrow> ('a node_scheme, bool) step" where
  "ReVerifyPoSBlock E pindex = (case pindex of None \<Rightarrow> ret False | Some p \<Rightarrow> (\<lambda>s.
     case ReadBlockFromDisk E (heap s p) of None \<Rightarrow> ret False s | Some block \<Rightarrow>
     if \<not> IndexIsProofOfStake (heap s p) then ret False s
     else case verify_loop E (node.truncate s) p 0 (vtx block) of None \<Rightarrow> ret False s | Some nFees \<Rightarrow>
     bind (item (vtx block) 1) (\<lambda>coinstake.
     bind (GetValueIn E coinstake) (\<lambda>nValueIn.
     bind (lift_value (GetValueOut coinstake)) (\<lambda>nValueOut s.
     if \<not> block_count s (hashPrevBlock block) then ret False s
     else
       bind (block_at (hashPrevBlock block)) (\<lambda>pprevEntry.
       bind (deref pprevEntry) (\<lambda>q.
       bind (GetBlockValue (Params E) (Some q)) (\<lambda>blockValue.
       bind (check_payees E coinstake blockValue) (\<lambda>payees s.
         if \<not> payees then ret False s
         else
           let nMoneySupplyPrev = (case pprev (heap s p) of None \<Rightarrow> 0 | Some r \<Rightarrow> nMoneySupply (heap s r));
               supply = wrap64 (nMoneySupplyPrev + nValueOut - nValueIn - nFees);
               mint = wrap64 (supply - nMoneySupplyPrev + nFees)
           in bind (SetSupply p supply mint) (\<lambda>_.
              bind (GetBlockValue (Params E) (pprev (heap s p))) (\<lambda>v s.
                ret (IsBlockValueValid (Params E) (masternode_synced E) (BudgetPaymentBlock E) s block
                       (wrap64 (v + nFees)) mint) s)) s)))) s))) s))"

section \<open>What the team is paid\<close>

lemma team_loop_stops:
  assumes "team_loop P k h n s = Inr ((h', n'), s')" "TEAM_REWARD_FREQUENCY P = 3" "1 \<le> n" "n \<le> 3"
  shows "(IsNull h' \<or> n' = 3) \<and> map_grows s s'"
  using assms
proof (induction k arbitrary: h n s)
  case 0
  then have "IsNull h \<or> n = 3" "h' = h" "n' = n" "s' = s" by (auto split: if_splits)
  then show ?case by auto
next
  case (Suc k)
  consider "IsNull h" | "\<not> IsNull h" "n = 3" | "\<not> IsNull h" "n < 3" using Suc.prems(4) by linarith
  then show ?case
  proof cases
    case 3
    then have "n mod 3 \<noteq> 0" using Suc.prems(3) by presburger
    with 3 Suc.prems(1,2) obtain p s1 where b: "block_at h s = Inr (Some p, s1)"
      "team_loop P k (bPrevPoABlock (heap s1 p)) (n + 1) s1 = Inr ((h', n'), s')"
      by (auto simp: bind_Inr deref_Inr)
    have "(IsNull h' \<or> n' = 3) \<and> map_grows s1 s'"
      using Suc.IH [OF b(2) Suc.prems(2)] Suc.prems(3) 3 by simp
    moreover have "map_grows s s1" using block_at_grows [OF b(1)] by simp
    ultimately show ?thesis using map_grows_trans by blast
  qed (use Suc.prems in auto)
qed

definition fork_tip :: "'a node_scheme \<Rightarrow> ptr option \<Rightarrow> ptr option" where
  "fork_tip s ptip = (if ptip = None then Tip (chainActive s) else ptip)"

text \<open>What the walk of \<open>TeamRewards\<close> can return.\<close>

lemma TeamRewards_result:
  assumes "TeamRewards P ptip s = Inr (r, s')" "TEAM_REWARD_FREQUENCY P = 3"
  shows "\<exists>p. fork_tip s ptip = Some p \<and> map_grows s s'
    \<and> r = (if IndexIsProofOfAudit (heap s p) \<and> IsNull (bPrevPoABlock (heap s p))
           then (nHeight (heap s p) - nLastPOWBlock P) * 50 * COIN else 0)"
proof -
  obtain p where p: "fork_tip s ptip = Some p"
    using assms(1) by (auto simp: TeamRewards_def bind_Inr deref_Inr fork_tip_def)
  let ?b = "heap s p"
  consider "\<not> IndexIsProofOfAudit ?b" | "IndexIsProofOfAudit ?b" "IsNull (bPrevPoABlock ?b)"
    | "IndexIsProofOfAudit ?b" "\<not> IsNull (bPrevPoABlock ?b)" by blast
  then show ?thesis
  proof cases
    case 3
    then obtain h n s1 where l: "team_loop P 3 (bPrevPoABlock ?b) 1 s = Inr ((h, n), s1)"
      and k: "(if \<not> IsNull h \<and> n \<noteq> 0 \<and> n mod 24 = 0
       then bind (block_at h) (\<lambda>q. bind (deref q) (\<lambda>q s.
              ret ((nHeight ?b - (nHeight (heap s q) + 1) - n + 1) * 50 * COIN) s))
       else ret 0) s1 = Inr (r, s')"
      using assms p by (auto simp: TeamRewards_def fork_tip_def Let_def bind_Inr deref_Inr)
    have "IsNull h \<or> n = 3" "map_grows s s1" using team_loop_stops [OF l assms(2)] by auto
    then have "r = 0" "s' = s1" using k by auto
    then show ?thesis using p 3 \<open>map_grows s s1\<close> by simp
  qed (use assms p in \<open>auto simp: TeamRewards_def fork_tip_def Let_def bind_Inr deref_Inr\<close>)
qed

lemma GetBlockValue_result:
  assumes "GetBlockValue P ptip s = Inr (v, s')" "TEAM_REWARD_FREQUENCY P = 3"
  shows "\<exists>p. fork_tip s ptip = Some p \<and> map_grows s s' \<and> v =
    (let b = heap s p; m = nMoneySupply b;
         subsidy = (if nHeight b < nLastPOWBlock P then 120000000 * COIN
                    else 900 * COIN + (if IndexIsProofOfAudit b \<and> IsNull (bPrevPoABlock b)
                                       then (nHeight b - nLastPOWBlock P) * 50 * COIN else 0))
     in if m \<ge> TOTAL_SUPPLY P then 0 else min subsidy (TOTAL_SUPPLY P - m))"
proof -
  obtain p where p: "fork_tip s ptip = Some p"
    using assms(1) by (auto simp: GetBlockValue_def bind_Inr deref_Inr fork_tip_def)
  show ?thesis
  proof (cases "nMoneySupply (heap s p) \<ge> TOTAL_SUPPLY P \<or> nHeight (heap s p) < nLastPOWBlock P")
    case True
    then show ?thesis using assms p
      by (auto simp: GetBlockValue_def fork_tip_def Let_def bind_Inr deref_Inr min_def)
  next
    case False
    then obtain team s1 where t: "TeamRewards P (Some p) s = Inr (team, s1)" "s' = s1"
      "v = (if nMoneySupply (heap s p) + (PoSBlockReward + team) \<ge> TOTAL_SUPPLY P then TOTAL_SUPPLY P - nMoneySupply (heap s p)
            else PoSBlockReward + team)"
      using assms p by (auto simp: GetBlockValue_def fork_tip_def Let_def bind_Inr deref_Inr)
    then show ?thesis using TeamRewards_result [OF t(1) assms(2)] p False
      by (auto simp: fork_tip_def PoSBlockReward_def Let_def min_def)
  qed
qed

section \<open>Properties\<close>

text \<open>
  with the frequency of every network, \<open>TeamRewards\<close> pays for the blocks since the end of the proof-of-work
  phase when the tip is the first audit block, and nothing at any other tip: the walk stops at 3 audit blocks, where
  the final test asks for a multiple of 24.
\<close>

lemma TeamRewards_once:
  assumes "TeamRewards P (Some p) s = Inr (r, s')" "TEAM_REWARD_FREQUENCY P = 3"
  shows "r = (if IndexIsProofOfAudit (heap s p) \<and> IsNull (bPrevPoABlock (heap s p))
              then (nHeight (heap s p) - nLastPOWBlock P) * 50 * COIN else 0)"
  using TeamRewards_result [OF assms] by (auto simp: fork_tip_def)

text \<open>
  no block is worth more than what is left of the total supply: \<open>GetBlockValue\<close> is the subsidy of the phase, cut
  to the rest, it is never negative, and a chain whose supply is within the total stays there after minting it.
\<close>

lemma GetBlockValue_within_supply:
  assumes "GetBlockValue P (Some p) s = Inr (v, s')" "TEAM_REWARD_FREQUENCY P = 3"
  shows "0 \<le> v \<and> (nMoneySupply (heap s p) \<le> TOTAL_SUPPLY P \<longrightarrow> nMoneySupply (heap s p) + v \<le> TOTAL_SUPPLY P)
    \<and> (nMoneySupply (heap s p) \<ge> TOTAL_SUPPLY P \<longrightarrow> v = 0)
    \<and> (nHeight (heap s p) < nLastPOWBlock P \<longrightarrow> v \<le> 120000000 * COIN)
    \<and> (nHeight (heap s p) \<ge> nLastPOWBlock P \<longrightarrow> v \<le> (900 + 50 * (nHeight (heap s p) - nLastPOWBlock P)) * COIN)"
  using GetBlockValue_result [OF assms]
  by (auto simp: fork_tip_def Let_def min_def COIN_def split: if_splits)


text \<open>An index with a first audit block at height 560, without and with a supply near the total.\<close>

definition audit_node :: "CAmount \<Rightarrow> node" where
  "audit_node supply = \<lparr>heap = (\<lambda>_. NullIndex\<lparr>nHeight := 560, nFlags := 8, nMoneySupply := supply\<rparr>),
     mapBlockIndex = Map.empty, chainActive = []\<rparr>"

lemma audit_node_team: "TeamRewards main_params (Some p) (audit_node supply) = Inr (3000 * COIN, audit_node supply)"
proof -
  have "IsNull (bPrevPoABlock (NullIndex\<lparr>nHeight := 560, nFlags := 8, nMoneySupply := supply\<rparr>))"
    by (simp add: NullIndex_def uint256_0_def IsNull_def zero_limbs_def list_all_iff)
  then show ?thesis
    by (simp add: TeamRewards_def audit_node_def bind_app deref_app IndexIsProofOfAudit_def main_params_def)
qed

lemma audit_node_value:
  "GetBlockValue main_params (Some 0) (audit_node (70000000000 * COIN - 5)) = Inr (5, audit_node (70000000000 * COIN - 5))"
  using audit_node_team [of 0 "70000000000 * COIN - 5"]
  by (simp add: GetBlockValue_def bind_app deref_app audit_node_def main_params_def PoSBlockReward_def COIN_def)

end
