(* ===== verification/Poa_Checks.thy ===== *)
theory Poa_Checks
  imports Rewards
begin

text \<open>
  The consensus rules of proof-of-audit blocks in \<open>pow.cpp\<close>: the hash that was mined, the previous audit
  block, the Merkle root of the audited blocks, their number, their order after the blocks audited before,
  the time between audit blocks and the absence of overlap.
\<close>

section \<open>Headers\<close>

text \<open>From an entry back to an audit block, or to an entry below \<open>bound\<close>.\<close>

partial_function (option) poa_back :: "store \<Rightarrow> int \<Rightarrow> ptr option \<Rightarrow> (chain_error + ptr) option" where
  "poa_back H bound pindex = (case pindex of
     None \<Rightarrow> Some (Inl NullDereference)
   | Some p \<Rightarrow> if nHeight (H p) \<ge> bound \<and> \<not> IsPoABlockByVersion (IndexGetBlockHeader H (H p))
               then poa_back H bound (pprev (H p)) else Some (Inr p))"

definition CheckPoAMiningBlockHeight :: "'a CBlockHeader_scheme \<Rightarrow> bool" where
  "CheckPoAMiningBlockHeight pblock \<longleftrightarrow> False"

text \<open>The mined hash is compared with itself, so the last case is never reached.\<close>

definition CheckPoABlockMinedHash :: "CChainParams \<Rightarrow> 'b node_scheme \<Rightarrow> 'a CBlockHeader_scheme \<Rightarrow> bool" where
  "CheckPoABlockMinedHash P s block =
     (let mined = minedHash block in
      if mined = minedHash block then
        if fSkipProofOfWorkCheck P \<or> networkID P = TESTNET then True
        else if block_count s (hashPrevBlock block) \<and> CheckPoAMiningBlockHeight block then True
        else let (bnTarget, fNegative, fOverflow) = SetCompact (nBits block) in
          if op_less bnTarget mined then False else True
      else False)"

definition CheckPrevPoABlockHash :: "'e chain_env_scheme \<Rightarrow> 'a CBlockHeader_scheme \<Rightarrow> ('b node_scheme, bool) step" where
  "CheckPrevPoABlockHash E block =
     bind (block_at (hashPrevBlock block)) (\<lambda>currentTip. case currentTip of
       None \<Rightarrow> ret False
     | Some _ \<Rightarrow>
         bind (gets (\<lambda>s. lift_loop (poa_back (heap s) (nStartPOABlock (Params E) + 1) currentTip))) (\<lambda>pindex s.
           if nHeight (heap s pindex) > nStartPOABlock (Params E)
           then ret (BlockHash E (IndexGetBlockHeader (heap s) (heap s pindex)) = hashPrevPoABlock block) s
           else ret (IsNull (hashPrevPoABlock block)) s))"

section \<open>Audited blocks\<close>

definition CheckNumberOfAuditedPoSBlocks :: "CChainParams \<Rightarrow> CBlock \<Rightarrow> bool" where
  "CheckNumberOfAuditedPoSBlocks P block \<longleftrightarrow> \<not> length (posBlocksAudited block) < nMinNumPoSBlocks P"

definition CheckPoAMerkleRoot :: "(bytes \<Rightarrow> uint256) \<Rightarrow> CBlock \<Rightarrow> bool \<times> bool" where
  "CheckPoAMerkleRoot Hash block =
     (case BuildPoAMerkleTree Hash block of (_, expected, mutated) \<Rightarrow> (expected = hashPoAMerkleRoot block, mutated))"

fun not_poa_loop :: "PoSBlockSummary list \<Rightarrow> ('b node_scheme, bool) step" where
  "not_poa_loop [] = ret True"
| "not_poa_loop (pos # rest) = (\<lambda>s.
     if \<not> block_count s (pos_hash pos) then ret False s
     else bind (block_at (pos_hash pos)) (\<lambda>e. bind (deref e) (\<lambda>p s.
            if IsPoABlockByVersion (IndexGetBlockHeader (heap s) (heap s p)) then ret False s
            else not_poa_loop rest s)) s)"

definition CheckPoABlockNotContainingPoABlockInfo :: "CBlock \<Rightarrow> ('b node_scheme, bool) step" where
  "CheckPoABlockNotContainingPoABlockInfo block = not_poa_loop (posBlocksAudited block)"

definition CheckPoAblockTime :: "CChainParams \<Rightarrow> CBlock \<Rightarrow> ('b node_scheme, bool) step" where
  "CheckPoAblockTime P block = (\<lambda>s.
     if IsNull (hashPrevPoABlock block) then ret True s
     else if block_count s (hashPrevPoABlock block) then
       bind (block_at (hashPrevPoABlock block)) (\<lambda>e. bind (deref e) (\<lambda>p s.
         ret (nTime block > bTime (heap s p) \<and> nTime block - bTime (heap s p) \<ge> of_int (nPoABlockTime P)) s)) s
     else ret False s)"

definition same_summary :: "PoSBlockSummary \<Rightarrow> PoSBlockSummary \<Rightarrow> bool" where
  "same_summary a b \<longleftrightarrow> pos_hash a = pos_hash b \<and> pos_nTime a = pos_nTime b \<and> pos_height a = pos_height b"

text \<open>The inner loop over the blocks audited before, and the outer one over those of the block.\<close>

fun already_audited :: "PoSBlockSummary \<Rightarrow> PoSBlockSummary list \<Rightarrow> bool" where
  "already_audited pos [] = False"
| "already_audited pos (old # olds) = (if same_summary old pos then True else already_audited pos olds)"

fun overlap_loop :: "PoSBlockSummary list \<Rightarrow> PoSBlockSummary list \<Rightarrow> bool" where
  "overlap_loop olds [] = True"
| "overlap_loop olds (pos # rest) = (if already_audited pos olds then False else overlap_loop olds rest)"

definition CheckPoABlockNotAuditingOverlap :: "'e chain_env_scheme \<Rightarrow> CBlock \<Rightarrow> ('b node_scheme, bool) step" where
  "CheckPoABlockNotAuditingOverlap E block = (\<lambda>s.
     if IsNull (hashPrevPoABlock block) then ret True s
     else if block_count s (hashPrevPoABlock block) then
       bind (block_at (hashPrevPoABlock block)) (\<lambda>e. bind (deref e) (\<lambda>p s.
         case ReadBlockFromDisk E (heap s p) of
           None \<Rightarrow> fail CannotReadBlock s
         | Some prevPoablock \<Rightarrow> ret (overlap_loop (posBlocksAudited prevPoablock) (posBlocksAudited block)) s)) s
     else ret False s)"

section \<open>The order of audited blocks\<close>

text \<open>The first audit block: each summary must be that of a known block.\<close>

fun first_audit_loop :: "'e wallet_env_scheme \<Rightarrow> PoSBlockSummary list \<Rightarrow> ('b node_scheme, bool) step" where
  "first_audit_loop E [] = ret True"
| "first_audit_loop E (pos # rest) =
     bind (block_at (pos_hash pos)) (\<lambda>pidxInChain. case pidxInChain of
       None \<Rightarrow> ret False
     | Some q \<Rightarrow> (\<lambda>s.
         if pos_hash pos \<noteq> phashBlock (heap s q) \<or> pos_nTime pos \<noteq> bTime (heap s q)
            \<or> pos_height pos \<noteq> of_int (nHeight (heap s q)) then ret False s
         else bind (block_at (pos_hash pos)) (\<lambda>p. bind (ReVerifyPoSBlock E p) (\<lambda>auditResult.
                if \<not> auditResult \<and> pos_nTime pos \<noteq> 0 then ret False else first_audit_loop E rest)) s))"

text \<open>
  The entry after the one of hash \<open>h\<close>: the one \<open>pnext\<close> points to, or that of the active chain if it is
  built on \<open>h\<close>. \<open>None\<close> is the error return.
\<close>

definition next_in_chain :: "ptr option \<Rightarrow> uint256 \<Rightarrow> ('b node_scheme, ptr option) step" where
  "next_in_chain next h = (case next of
     Some q \<Rightarrow> ret (Some q)
   | None \<Rightarrow> bind (block_at h) (\<lambda>e. bind (deref e) (\<lambda>r s.
       if nHeight (heap s r) + 1 > Height (chainActive s) then ret None s
       else case chain_at (chainActive s) (nHeight (heap s r) + 1) of
         None \<Rightarrow> ret None s
       | Some q \<Rightarrow> (case pprev (heap s q) of
           None \<Rightarrow> ret None s
         | Some z \<Rightarrow> ret (if phashBlock (heap s z) \<noteq> h then None else Some q) s))))"

definition auditable :: "CChainParams \<Rightarrow> store \<Rightarrow> ptr \<Rightarrow> bool" where
  "auditable P H p \<longleftrightarrow> \<not> IsPoABlockByVersion (IndexGetBlockHeader H (H p)) \<and> nHeight (H p) > nLastPOWBlock P"

definition summary_matches :: "store \<Rightarrow> ptr \<Rightarrow> PoSBlockSummary \<Rightarrow> bool" where
  "summary_matches H p pos \<longleftrightarrow> pos_hash pos = phashBlock (H p) \<and> pos_height pos = of_int (nHeight (H p))
     \<and> uint (pos_nTime pos) = GetBlockTime (H p)"

text \<open>One round: the list that is left, or \<open>None\<close> when the summary is refused.\<close>

definition audit_round ::
  "'e wallet_env_scheme \<Rightarrow> PoSBlockSummary list \<Rightarrow> ptr \<Rightarrow> ('b node_scheme, PoSBlockSummary list option) step" where
  "audit_round E audited p = (\<lambda>s.
     if auditable (Params E) (heap s) p then
       (case audited of
          [] \<Rightarrow> fail OutOfRange s
        | pos # rest \<Rightarrow>
            if \<not> summary_matches (heap s) p pos then ret None s
            else bind (block_at (pos_hash pos)) (\<lambda>e. bind (ReVerifyPoSBlock E e) (\<lambda>auditResult.
                   ret (if \<not> auditResult \<and> pos_nTime pos \<noteq> 0 then None else Some rest))) s)
     else ret (Some audited) s)"

partial_function (option) audit_loop ::
  "'e wallet_env_scheme \<Rightarrow> int \<Rightarrow> PoSBlockSummary list \<Rightarrow> ptr \<Rightarrow> 'b node_scheme \<Rightarrow>
     (chain_error + bool \<times> 'b node_scheme) option" where
  "audit_loop E tipHeight audited p s =
     (if (of_int (nHeight (heap s p)) :: u32) \<le> of_int tipHeight \<and> audited \<noteq> [] then
        (case audit_round E audited p s of
           Inl e \<Rightarrow> Some (Inl e)
         | Inr (left, s1) \<Rightarrow> (case left of
             None \<Rightarrow> Some (Inr (False, s1))
           | Some audited' \<Rightarrow>
               (case next_in_chain (pnext (heap s1 p)) (phashBlock (heap s1 p)) s1 of
                  Inl e \<Rightarrow> Some (Inl e)
                | Inr (n, s2) \<Rightarrow> (case n of
                    None \<Rightarrow> Some (Inr (False, s2))
                  | Some q \<Rightarrow> audit_loop E tipHeight audited' q s2))))
      else Some (Inr (audited = [], s)))"

definition later_audit :: "'e wallet_env_scheme \<Rightarrow> CBlock \<Rightarrow> ptr \<Rightarrow> ptr \<Rightarrow> ('b node_scheme, bool) step" where
  "later_audit E block currentTip pindex = (\<lambda>s.
     case ReadBlockFromDisk E (heap s pindex) of
       None \<Rightarrow> fail CannotReadBlock s
     | Some prevPoablock \<Rightarrow>
         if posBlocksAudited prevPoablock = [] then fail OutOfRange s
         else let lastHash = pos_hash (last (posBlocksAudited prevPoablock)) in
           if \<not> block_count s lastHash then ret False s
           else bind (block_at lastHash) (\<lambda>e. bind (deref e) (\<lambda>r s.
                  bind (next_in_chain (pnext (heap s r)) lastHash) (\<lambda>n. case n of
                    None \<Rightarrow> ret False
                  | Some p \<Rightarrow> (\<lambda>s. lift_loop (audit_loop E (nHeight (heap s currentTip)) (posBlocksAudited block) p s))) s)) s)"

definition CheckPoAContainRecentHash :: "'e wallet_env_scheme \<Rightarrow> CBlock \<Rightarrow> ('b node_scheme, bool) step" where
  "CheckPoAContainRecentHash E block =
     bind (block_at (hashPrevBlock block)) (\<lambda>tip. case tip of
       None \<Rightarrow> ret False
     | Some currentTip \<Rightarrow>
         bind (gets (\<lambda>s. lift_loop (poa_back (heap s) (nStartPOABlock (Params E)) tip))) (\<lambda>pindex s.
           if nHeight (heap s pindex) \<le> nStartPOABlock (Params E)
           then first_audit_loop E (posBlocksAudited block) s
           else later_audit E block currentTip pindex s))"


section \<open>What the checks leave as it was\<close>

text \<open>
  Two states that differ in the money fields of entries and in \<open>NULL\<close> entered for unknown hashes only.
\<close>

definition without_money :: "CBlockIndex \<Rightarrow> CBlockIndex" where
  "without_money b = b\<lparr>nMoneySupply := 0, nMint := 0\<rparr>"

definition audit_frame :: "'b node_scheme \<Rightarrow> 'b node_scheme \<Rightarrow> bool" where
  "audit_frame s s' \<longleftrightarrow> (\<forall>p. without_money (heap s' p) = without_money (heap s p))
     \<and> chainActive s' = chainActive s \<and> node.more s' = node.more s
     \<and> (\<forall>h p. mapBlockIndex s h = Some p \<longrightarrow> mapBlockIndex s' h = Some p)
     \<and> (\<forall>h q. mapBlockIndex s' h = Some (Some q) \<longrightarrow> mapBlockIndex s h = Some (Some q))"

lemma map_grows_frame:
  assumes "map_grows s s'"
  shows "audit_frame s s'"
proof -
  obtain m where "s' = s\<lparr>mapBlockIndex := m\<rparr>" using map_grows_facts(3) [OF assms] by blast
  then have "node.more s' = node.more s" by simp
  moreover have "without_money (heap s' p) = without_money (heap s p)" for p using map_grows_facts(1) [OF assms] by simp
  ultimately show ?thesis unfolding audit_frame_def using map_grows_facts(2,4,6) [OF assms] by blast
qed

lemma audit_frame_refl [simp, intro]: "audit_frame s s"
  by (simp add: audit_frame_def)

lemma without_money_fields:
  assumes "without_money b = without_money c"
  shows "phashBlock b = phashBlock c" "nHeight b = nHeight c" "pprev b = pprev c" "pnext b = pnext c"
    "bVersion b = bVersion c" "bTime b = bTime c"
  using assms by (cases b, cases c, simp add: without_money_def)+

lemma audit_frame_facts:
  assumes "audit_frame s s'"
  shows "phashBlock (heap s' p) = phashBlock (heap s p)" "nHeight (heap s' p) = nHeight (heap s p)"
    "pprev (heap s' p) = pprev (heap s p)" "pnext (heap s' p) = pnext (heap s p)"
    "bVersion (heap s' p) = bVersion (heap s p)" "bTime (heap s' p) = bTime (heap s p)"
    "chainActive s' = chainActive s"
    "mapBlockIndex s' h = Some (Some q) \<longleftrightarrow> mapBlockIndex s h = Some (Some q)"
proof -
  have w: "without_money (heap s' p) = without_money (heap s p)" using assms unfolding audit_frame_def by blast
  show "phashBlock (heap s' p) = phashBlock (heap s p)" "nHeight (heap s' p) = nHeight (heap s p)"
    "pprev (heap s' p) = pprev (heap s p)" "pnext (heap s' p) = pnext (heap s p)"
    "bVersion (heap s' p) = bVersion (heap s p)" "bTime (heap s' p) = bTime (heap s p)"
    using without_money_fields [OF w] by simp_all
  show "chainActive s' = chainActive s" "mapBlockIndex s' h = Some (Some q) \<longleftrightarrow> mapBlockIndex s h = Some (Some q)"
    using assms unfolding audit_frame_def by blast+
qed

lemma audit_frame_trans:
  assumes "audit_frame s s'" "audit_frame s' s''"
  shows "audit_frame s s''"
proof -
  have "without_money (heap s'' p) = without_money (heap s p)" for p using assms unfolding audit_frame_def by metis
  moreover have "chainActive s'' = chainActive s" "node.more s'' = node.more s"
    using assms unfolding audit_frame_def by metis+
  ultimately show ?thesis using assms unfolding audit_frame_def by blast
qed

interpretation frame: step_frame audit_frame
  by unfold_locales (blast intro: audit_frame_trans)+

lemma ends_in_grows: "ends_in map_grows s r \<Longrightarrow> ends_in audit_frame s r"
  by (auto simp: ends_in_def intro: map_grows_frame)

lemma team_loop_grows: "ends_in map_grows s (team_loop P k h n s)"
  by (induction k arbitrary: h n s) (simp_all only: team_loop.simps, (intro grows.frame_rules block_at_ends | assumption)+)

lemma TeamRewards_grows: "ends_in map_grows s (TeamRewards P ptip s)"
  unfolding TeamRewards_def Let_def by (intro grows.frame_rules block_at_ends team_loop_grows)

lemma GetBlockValue_grows: "ends_in map_grows s (GetBlockValue P ptip s)"
  unfolding GetBlockValue_def Let_def by (intro grows.frame_rules block_at_ends TeamRewards_grows)

lemma value_in_loop_frame: "ends_in audit_frame s (value_in_loop E r txins s)"
  by (induction txins arbitrary: r s)
    (simp_all only: value_in_loop.simps staked_value_def Let_def split_beta, (intro frame.frame_rules | assumption)+)

lemma GetValueIn_frame: "ends_in audit_frame s (GetValueIn E tx s)"
  unfolding GetValueIn_def by (intro frame.frame_rules value_in_loop_frame)

lemma lift_value_frame: "ends_in audit_frame s (lift_value r s)"
  by (cases r) (simp_all add: lift_value_def ends_in_def)

lemma check_payees_frame: "ends_in audit_frame s (check_payees E tx v s)"
  unfolding check_payees_def Let_def by (intro frame.frame_rules)

lemma SetSupply_frame: "ends_in audit_frame s (SetSupply p supply mint s)"
  by (auto simp: ends_in_def SetSupply_def audit_frame_def without_money_def)

lemmas frame_calls = ends_in_grows [OF block_at_ends] ends_in_grows [OF GetBlockValue_grows] GetValueIn_frame
  lift_value_frame check_payees_frame SetSupply_frame

lemma ReVerifyPoSBlock_frame: "ends_in audit_frame s (ReVerifyPoSBlock E e s)"
  unfolding ReVerifyPoSBlock_def Let_def by (intro frame.frame_rules frame_calls)


section \<open>The run of entries that a block audits\<close>

definition next_of :: "'b node_scheme \<Rightarrow> ptr option \<Rightarrow> uint256 \<Rightarrow> ptr option" where
  "next_of s next h = (case next of
     Some q \<Rightarrow> Some q
   | None \<Rightarrow> (case mapBlockIndex s h of
       Some (Some r) \<Rightarrow>
         (if nHeight (heap s r) + 1 > Height (chainActive s) then None
          else case chain_at (chainActive s) (nHeight (heap s r) + 1) of
            None \<Rightarrow> None
          | Some q \<Rightarrow> (case pprev (heap s q) of
              None \<Rightarrow> None
            | Some z \<Rightarrow> if phashBlock (heap s z) \<noteq> h then None else Some q))
     | _ \<Rightarrow> None))"

definition next_entry :: "'b node_scheme \<Rightarrow> ptr \<Rightarrow> ptr option" where
  "next_entry s p = next_of s (pnext (heap s p)) (phashBlock (heap s p))"

text \<open>Entries from \<open>p\<close> on, each the next one of the entry before it.\<close>

fun chain_run :: "'b node_scheme \<Rightarrow> ptr \<Rightarrow> ptr list \<Rightarrow> bool" where
  "chain_run s p [] = True"
| "chain_run s p (x # xs) = (x = p \<and> (case next_entry s p of None \<Rightarrow> xs = [] | Some q \<Rightarrow> chain_run s q xs))"

lemma next_in_chain_of:
  assumes "next_in_chain next h s = Inr (r, s')"
  shows "r = next_of s next h \<and> audit_frame s s'"
proof (cases "next")
  case None
  obtain q where q: "block_at h s = Inr (Some q, s)" "mapBlockIndex s h = Some (Some q)"
    using assms None block_at_grows [of h s] by (fastforce simp: next_in_chain_def bind_Inr deref_Inr)
  then show ?thesis using assms None
    by (auto simp: next_in_chain_def next_of_def bind_Inr deref_Inr split: option.splits if_splits)
qed (use assms in \<open>auto simp: next_in_chain_def next_of_def\<close>)

lemma next_of_frame:
  assumes "audit_frame s s'"
  shows "next_of s' next h = next_of s next h"
proof -
  note f = audit_frame_facts [OF assms]
  show ?thesis
  proof (cases "\<exists>r. mapBlockIndex s h = Some (Some r)")
    case True
    then obtain r where "mapBlockIndex s h = Some (Some r)" by blast
    moreover from this have "mapBlockIndex s' h = Some (Some r)" by (simp only: f)
    ultimately show ?thesis by (cases "next") (simp_all add: next_of_def f(1,2,3,7) cong: option.case_cong if_cong)
  next
    case False
    then have "\<nexists>r. mapBlockIndex s' h = Some (Some r)" by (simp only: f) simp
    with False show ?thesis by (auto simp: next_of_def split: option.splits)
  qed
qed

lemma next_entry_frame: "audit_frame s s' \<Longrightarrow> next_entry s' p = next_entry s p"
  by (simp add: next_entry_def next_of_frame audit_frame_facts(1,4))

lemma chain_run_frame: "audit_frame s s' \<Longrightarrow> chain_run s' p xs \<longleftrightarrow> chain_run s p xs"
  by (induction xs arbitrary: p) (simp_all add: next_entry_frame split: option.split)

lemma auditable_version:
  "auditable P H p \<longleftrightarrow> \<not> bVersion (H p) \<ge> 100 \<and> nHeight (H p) > nLastPOWBlock P"
  by (simp add: auditable_def IsPoABlockByVersion_def IndexGetBlockHeader_def POA_BLOCK_VERSION_LOW_LIMIT_def Let_def
      split: option.split)

lemma auditable_frame: "audit_frame s s' \<Longrightarrow> auditable P (heap s') = auditable P (heap s)"
  by (rule ext) (simp only: auditable_version audit_frame_facts)

lemma summary_frame: "audit_frame s s' \<Longrightarrow> summary_matches (heap s') = summary_matches (heap s)"
  by (intro ext) (simp only: summary_matches_def GetBlockTime_def audit_frame_facts)

lemma audit_round_left:
  assumes "audit_round E audited p s = Inr (Some left, s')"
  shows "audit_frame s s' \<and>
    (if auditable (Params E) (heap s) p
     then \<exists>pos. audited = pos # left \<and> summary_matches (heap s) p pos else left = audited)"
proof (cases "auditable (Params E) (heap s) p")
  case True
  then obtain pos rest where a: "audited = pos # rest" "summary_matches (heap s) p pos"
    using assms by (auto simp: audit_round_def split: list.splits if_splits)
  then have e: "bind (block_at (pos_hash pos)) (\<lambda>e. bind (ReVerifyPoSBlock E e) (\<lambda>auditResult.
      ret (if \<not> auditResult \<and> pos_nTime pos \<noteq> 0 then None else Some rest))) s = Inr (Some left, s')"
    using assms True by (simp add: audit_round_def)
  have "ends_in audit_frame s (bind (block_at (pos_hash pos)) (\<lambda>e. bind (ReVerifyPoSBlock E e) (\<lambda>auditResult.
      ret (if \<not> auditResult \<and> pos_nTime pos \<noteq> 0 then None else Some rest))) s)"
    by (intro frame.frame_rules frame_calls ReVerifyPoSBlock_frame)
  then have "audit_frame s s'" using e by (rule ends_inD)
  moreover have "left = rest" using e by (auto simp: bind_Inr split: if_splits)
  ultimately show ?thesis using True a by simp
qed (use assms in \<open>simp add: audit_round_def\<close>)

definition within_tip :: "store \<Rightarrow> int \<Rightarrow> ptr \<Rightarrow> bool" where
  "within_tip H tipHeight p \<longleftrightarrow> (of_int (nHeight (H p)) :: u32) \<le> of_int tipHeight"

lemma audit_loop_run:
  "audit_loop E tipHeight audited p s = Some r \<Longrightarrow> r = Inr (True, s') \<Longrightarrow>
     \<exists>ps. chain_run s p ps \<and> list_all2 (summary_matches (heap s)) (filter (auditable (Params E) (heap s)) ps) audited
      \<and> (\<forall>x\<in>set ps. within_tip (heap s) tipHeight x)"
proof (induction rule: audit_loop.raw_induct [rotated 1, consumes 1, case_names step])
  case (step loop E tipHeight audited p s r)
  show ?case
  proof (cases "within_tip (heap s) tipHeight p \<and> audited \<noteq> []")
    case False
    then have "audited = []" using step.prems step.hyps by (auto simp: within_tip_def split: if_splits)
    then show ?thesis by (intro exI [of _ "[]"]) simp
  next
    case True
    then obtain left s1 where l: "audit_round E audited p s = Inr (Some left, s1)"
      using step.prems step.hyps by (auto simp: within_tip_def split: sum.splits option.splits)
    then obtain n s2 where n: "next_in_chain (pnext (heap s1 p)) (phashBlock (heap s1 p)) s1 = Inr (Some n, s2)"
      and g: "loop E tipHeight left n s2 = Some r"
      using step.prems step.hyps True by (auto simp: within_tip_def split: sum.splits option.splits)
    note round = audit_round_left [OF l]
    have f: "audit_frame s s1" "audit_frame s1 s2" "audit_frame s s2"
      using round next_in_chain_of [OF n] audit_frame_trans by blast+
    have ne: "next_entry s p = Some n"
      using next_in_chain_of [OF n] next_entry_frame [OF f(1), of p] by (simp add: next_entry_def)
    obtain ps where ps: "chain_run s2 n ps"
      "list_all2 (summary_matches (heap s2)) (filter (auditable (Params E) (heap s2)) ps) left"
      "\<forall>x\<in>set ps. within_tip (heap s2) tipHeight x"
      using step.IH [OF g step.prems] by blast
    have "list_all2 (summary_matches (heap s)) (filter (auditable (Params E) (heap s)) (p # ps)) audited"
    proof (cases "auditable (Params E) (heap s) p")
      case a: True
      then obtain pos where pos: "audited = pos # left" "summary_matches (heap s) p pos" using round by auto
      show ?thesis using a pos ps(2) by (simp only: summary_frame [OF f(3)] auditable_frame [OF f(3)]) simp
    next
      case a: False
      then have "left = audited" using round by simp
      then show ?thesis using a ps(2) by (simp only: summary_frame [OF f(3)] auditable_frame [OF f(3)]) simp
    qed
    moreover have "chain_run s p (p # ps)" using ne ps(1) chain_run_frame [OF f(3)] by simp
    moreover have "within_tip (heap s) tipHeight x" if "x \<in> set (p # ps)" for x
      using that True ps(3) by (auto simp: within_tip_def audit_frame_facts(2) [OF f(3)])
    ultimately show ?thesis by (intro exI [of _ "p # ps"]) blast
  qed
qed


text \<open>What an audit check leaves as it was.\<close>

lemma audit_round_frame: "ends_in audit_frame s (audit_round E audited p s)"
  unfolding audit_round_def by (intro frame.frame_rules frame_calls ReVerifyPoSBlock_frame)

lemma next_in_chain_ends: "ends_in audit_frame s (next_in_chain next h s)"
  unfolding ends_in_def using next_in_chain_of by blast

lemma audit_loop_frame: "audit_loop E tipHeight audited p s = Some r \<Longrightarrow> ends_in audit_frame s r"
proof (induction rule: audit_loop.raw_induct [rotated 1, consumes 1, case_names step])
  case (step loop E tipHeight audited p s r)
  have round: "audit_frame s s1" if "audit_round E audited p s = Inr (x, s1)" for x s1
    by (rule ends_inD [OF audit_round_frame that])
  have next_frame: "audit_frame a b" if "next_in_chain next h a = Inr (x, b)" for "next" h x a b
    by (rule ends_inD [OF next_in_chain_ends that])
  show ?case
  proof (cases "(of_int (nHeight (heap s p)) :: u32) \<le> of_int tipHeight \<and> audited \<noteq> []")
    case False
    then show ?thesis using step.hyps by (auto simp: ends_in_def)
  next
    case True
    show ?thesis
    proof (cases "audit_round E audited p s")
      case (Inl e)
      then show ?thesis using step.hyps True by (auto simp: ends_in_def)
    next
      case (Inr a)
      then obtain left s1 where l: "audit_round E audited p s = Inr (left, s1)" by (cases a) simp
      have f: "audit_frame s s1" using round [OF l] .
      show ?thesis
      proof (cases "left")
        case None
        then show ?thesis using step.hyps True l f by (auto simp: ends_in_def)
      next
        case left: (Some rest)
        show ?thesis
        proof (cases "next_in_chain (pnext (heap s1 p)) (phashBlock (heap s1 p)) s1")
          case (Inl e)
          then show ?thesis using step.hyps True l left by (auto simp: ends_in_def)
        next
          case (Inr a)
          then obtain n s2 where n: "next_in_chain (pnext (heap s1 p)) (phashBlock (heap s1 p)) s1 = Inr (n, s2)"
            by (cases a) simp
          have g: "audit_frame s s2" using audit_frame_trans [OF f next_frame [OF n]] .
          show ?thesis
          proof (cases n)
            case None
            then show ?thesis using step.hyps True l left n g by (auto simp: ends_in_def)
          next
            case (Some q)
            then have "loop E tipHeight rest q s2 = Some r" using step.hyps True l left n by simp
            then show ?thesis using step.IH audit_frame_trans [OF g] by (auto simp: ends_in_def)
          qed
        qed
      qed
    qed
  qed
qed

lemma first_audit_frame: "ends_in audit_frame s (first_audit_loop E ps s)"
proof (induction ps arbitrary: s)
  case Nil
  show ?case by (simp only: first_audit_loop.simps, rule frame.ret)
next
  case (Cons pos ps)
  show ?case unfolding first_audit_loop.simps
    by (intro frame.frame_rules frame_calls ReVerifyPoSBlock_frame Cons.IH)
qed

lemma lift_audit_loop_frame: "ends_in audit_frame s (lift_loop (audit_loop E t a p s))"
  using audit_loop_frame [of E t a p s] by (auto simp: lift_loop_def ends_in_def split: option.split)

lemma CheckPoAContainRecentHash_frame: "ends_in audit_frame s (CheckPoAContainRecentHash E block s)"
  unfolding CheckPoAContainRecentHash_def later_audit_def Let_def
  by (intro frame.frame_rules frame_calls first_audit_frame next_in_chain_ends lift_audit_loop_frame)

section \<open>Properties\<close>

lemma later_audit_run:
  assumes "later_audit E block tip q s = Inr (True, s')"
  shows "\<exists>old r n ps. ReadBlockFromDisk E (heap s q) = Some old \<and> posBlocksAudited old \<noteq> []
    \<and> mapBlockIndex s (pos_hash (last (posBlocksAudited old))) = Some (Some r)
    \<and> next_of s (pnext (heap s r)) (pos_hash (last (posBlocksAudited old))) = Some n \<and> chain_run s n ps
    \<and> list_all2 (summary_matches (heap s)) (filter (auditable (Params E) (heap s)) ps) (posBlocksAudited block)
    \<and> (\<forall>x\<in>set ps. within_tip (heap s) (nHeight (heap s tip)) x)"
proof -
  obtain old where old: "ReadBlockFromDisk E (heap s q) = Some old" "posBlocksAudited old \<noteq> []"
    using assms by (auto simp: later_audit_def split: option.splits if_splits)
  let ?h = "pos_hash (last (posBlocksAudited old))"
  obtain r s1 where r: "block_at ?h s = Inr (Some r, s1)"
    using assms old by (auto simp: later_audit_def Let_def bind_Inr deref_Inr split: if_splits)
  have s1: "s1 = s" "mapBlockIndex s ?h = Some (Some r)" using block_at_grows [OF r] by simp_all
  obtain n s2 where n: "next_in_chain (pnext (heap s r)) ?h s = Inr (Some n, s2)"
    "lift_loop (audit_loop E (nHeight (heap s2 tip)) (posBlocksAudited block) n s2) = Inr (True, s')"
    using assms old r s1 by (auto simp: later_audit_def Let_def bind_Inr deref_Inr split: if_splits option.splits)
  have f: "audit_frame s s2" "next_of s (pnext (heap s r)) ?h = Some n" using next_in_chain_of [OF n(1)] by simp_all
  have "audit_loop E (nHeight (heap s2 tip)) (posBlocksAudited block) n s2 = Some (Inr (True, s'))"
    using n(2) by (auto simp: lift_loop_def split: option.splits)
  then obtain ps where "chain_run s2 n ps"
    "list_all2 (summary_matches (heap s2)) (filter (auditable (Params E) (heap s2)) ps) (posBlocksAudited block)"
    "\<forall>x\<in>set ps. within_tip (heap s2) (nHeight (heap s2 tip)) x"
    using audit_loop_run by blast
  then show ?thesis using old s1(2) f(2)
    unfolding chain_run_frame [OF f(1)] summary_frame [OF f(1)] auditable_frame [OF f(1)] within_tip_def
      audit_frame_facts(2) [OF f(1)] by blast
qed

text \<open>
  C39: when the chain of an accepted audit block has an earlier audit block above the first possible height, the new
  block audits exactly the proof-of-stake blocks of a run of consecutive entries that starts right after the last
  block audited by the earlier one and stays within the height of the block it is built on: same hashes, times and
  heights, in the same order, none left out.
\<close>

theorem audited_blocks_consecutive:
  assumes "CheckPoAContainRecentHash E block s = Inr (True, s')"
    and "mapBlockIndex s (hashPrevBlock block) = Some (Some tip)"
    and "poa_back (heap s) (nStartPOABlock (Params E)) (Some tip) = Some (Inr q)"
    and "nHeight (heap s q) > nStartPOABlock (Params E)"
  shows "\<exists>old r n ps. ReadBlockFromDisk E (heap s q) = Some old \<and> posBlocksAudited old \<noteq> []
    \<and> mapBlockIndex s (pos_hash (last (posBlocksAudited old))) = Some (Some r)
    \<and> next_of s (pnext (heap s r)) (pos_hash (last (posBlocksAudited old))) = Some n \<and> chain_run s n ps
    \<and> list_all2 (summary_matches (heap s)) (filter (auditable (Params E) (heap s)) ps) (posBlocksAudited block)
    \<and> (\<forall>x\<in>set ps. within_tip (heap s) (nHeight (heap s tip)) x)"
proof (rule later_audit_run)
  show "later_audit E block tip q s = Inr (True, s')"
    using assms by (auto simp: CheckPoAContainRecentHash_def bind_app block_at_known gets_def lift_loop_def)
qed

text \<open>
  outside test networks the check of the mined hash of an audit block compares it with the target and with nothing
  else of the block: it holds exactly when the number in that field is at most the target. In particular a block whose
  field is zero passes, whatever it contains.
\<close>

lemma CheckPoABlockMinedHash_correct:
  assumes "length (minedHash block) = 8"
  shows "CheckPoABlockMinedHash P s block \<longleftrightarrow> fSkipProofOfWorkCheck P \<or> networkID P = TESTNET
    \<or> val (minedHash block) \<le> compact_value (unat (nBits block)) mod 2 ^ 256"
proof -
  obtain t neg ovf where "SetCompact (nBits block) = (t, neg, ovf)" "length t = 8"
      "val t = compact_value (unat (nBits block)) mod 2 ^ 256"
    using SetCompact_val [of "nBits block"] by blast
  then show ?thesis using assms
    by (auto simp: CheckPoABlockMinedHash_def CheckPoAMiningBlockHeight_def op_less_val)
qed

lemma same_summary_eq: "same_summary a b \<longleftrightarrow> a = b"
  by (cases a, cases b) (simp add: same_summary_def)

lemma already_audited_iff: "already_audited pos olds \<longleftrightarrow> pos \<in> set olds"
  by (induction olds) (auto simp: same_summary_eq)

lemma overlap_loop_iff: "overlap_loop olds news \<longleftrightarrow> set olds \<inter> set news = {}"
  by (induction news) (auto simp: already_audited_iff)

text \<open>
  C40: when the previous audit block is known and can be read, the check for overlap changes nothing and holds exactly
  when the two blocks audit disjoint sets of proof-of-stake blocks.
\<close>

theorem CheckPoABlockNotAuditingOverlap_correct:
  assumes "\<not> IsNull (hashPrevPoABlock block)" "mapBlockIndex s (hashPrevPoABlock block) = Some (Some p)"
    and "ReadBlockFromDisk E (heap s p) = Some old"
  shows "CheckPoABlockNotAuditingOverlap E block s =
    Inr (set (posBlocksAudited old) \<inter> set (posBlocksAudited block) = {}, s)"
  using assms by (simp add: CheckPoABlockNotAuditingOverlap_def block_count_def bind_app deref_app block_at_known overlap_loop_iff)


text \<open>
  An index for the examples: entry 0 is a proof-of-stake block at height 600, entry 1 the audit block above it,
  whose file audits entry 0, and entries 2 and 3 are proof-of-stake blocks above the audit block.
\<close>

definition demo_hash :: "nat \<Rightarrow> uint256" where
  "demo_hash i = [of_nat (i + 1), 0, 0, 0, 0, 0, 0, 0]"

definition demo_heap :: store where
  "demo_heap i = NullIndex\<lparr>phashBlock := demo_hash i, nHeight := 600 + int i, bVersion := if i = 1 then 100 else 4,
     pprev := if i = 0 then None else Some (i - 1), pnext := Some (i + 1), nStatus := if i = 1 then 8 else 0\<rparr>"

definition demo_map :: "uint256 \<rightharpoonup> ptr option" where
  "demo_map = [demo_hash 0 \<mapsto> Some 0, demo_hash 1 \<mapsto> Some 1, demo_hash 2 \<mapsto> Some 2]"

definition demo_node :: node where
  "demo_node = \<lparr>heap = demo_heap, mapBlockIndex = demo_map, chainActive = []\<rparr>"

definition demo_summary :: "nat \<Rightarrow> PoSBlockSummary" where
  "demo_summary i = \<lparr>pos_hash = demo_hash i, pos_nTime = 0, pos_height = 600 + of_nat i\<rparr>"

definition demo_old :: CBlock where
  "demo_old = NullBlock\<lparr>nVersion := 100, posBlocksAudited := [demo_summary 0]\<rparr>"

definition demo_env :: wallet_env where
  "demo_env = \<lparr>Params = main_params, HashFn = (\<lambda>_. demo_hash 1), HashQuarkFn = (\<lambda>_. demo_hash 1),
     block_file = (\<lambda>_. Some demo_old), GetTransaction = (\<lambda>_. None), ECDHDecode = (\<lambda>_ _ _. ([], 0)),
     CommitmentTo = (\<lambda>_ _. []), RingSignatureValid = (\<lambda>_ _ _. False),
     VerifyBulletProofAggregate = (\<lambda>_. False), VerifyDerivedAddress = (\<lambda>_ _. False), masternode_synced = False,
     BudgetPaymentBlock = (\<lambda>_. False)\<rparr>"

definition demo_block :: CBlock where
  "demo_block = NullBlock\<lparr>nVersion := 100, hashPrevBlock := demo_hash 2, hashPrevPoABlock := demo_hash 1,
     posBlocksAudited := [demo_summary 2]\<rparr>"

lemma demo_map_at: "demo_map (demo_hash 0) = Some (Some 0)" "demo_map (demo_hash 1) = Some (Some 1)"
  "demo_map (demo_hash 2) = Some (Some 2)"
  by (simp_all add: demo_map_def demo_hash_def)

lemma demo_read: "ReadBlockFromDisk demo_env (demo_heap 1) = Some demo_old"
  "i \<noteq> 1 \<Longrightarrow> ReadBlockFromDisk demo_env (demo_heap i) = None"
  by (simp_all add: ReadBlockFromDisk_def ReadBlockAt_def GetBlockPos_def demo_heap_def demo_env_def demo_old_def
      BlockHash_def HeaderGetHash_def IsProofOfWork_def IsProofOfAudit_def IsPoABlockByVersion_def NullIndex_def
      POA_BLOCK_VERSION_LOW_LIMIT_def)

lemma demo_poa: "IsPoABlockByVersion (IndexGetBlockHeader demo_heap (demo_heap i)) \<longleftrightarrow> i = 1"
  by (simp add: IsPoABlockByVersion_def IndexGetBlockHeader_def POA_BLOCK_VERSION_LOW_LIMIT_def Let_def demo_heap_def)

lemma demo_fields: "nHeight (demo_heap i) = 600 + int i" "pprev (demo_heap i) = (if i = 0 then None else Some (i - 1))"
  "pnext (demo_heap i) = Some (i + 1)" "phashBlock (demo_heap i) = demo_hash i" "GetBlockTime (demo_heap i) = 0"
  by (simp_all add: demo_heap_def GetBlockTime_def NullIndex_def)

lemma demo_back: "poa_back demo_heap 560 (Some 2) = Some (Inr 1)"
  by (subst poa_back.simps, simp add: demo_poa demo_fields, subst poa_back.simps, simp add: demo_poa demo_fields)

lemma demo_state: "heap demo_node = demo_heap" "mapBlockIndex demo_node = demo_map"
  by (simp_all add: demo_node_def)

lemma demo_summary_fields: "pos_hash (demo_summary i) = demo_hash i" "pos_nTime (demo_summary i) = 0"
  by (simp_all add: demo_summary_def)

lemma demo_round:
  "audit_round demo_env [demo_summary 2] 1 demo_node = Inr (Some [demo_summary 2], demo_node)"
  "audit_round demo_env [demo_summary 2] 2 demo_node = Inr (Some [], demo_node)"
proof -
  show "audit_round demo_env [demo_summary 2] 1 demo_node = Inr (Some [demo_summary 2], demo_node)"
    by (simp add: audit_round_def demo_node_def auditable_def demo_poa)
  have a: "auditable (Params demo_env) demo_heap 2"
    by (simp add: auditable_def demo_poa demo_fields demo_env_def main_params_def)
  have m: "summary_matches demo_heap 2 (demo_summary 2)"
    by (simp add: summary_matches_def demo_summary_def demo_fields)
  have r: "ReVerifyPoSBlock demo_env (Some 2) demo_node = Inr (False, demo_node)"
    using demo_read(2) [of 2] by (simp add: ReVerifyPoSBlock_def demo_node_def)
  have b: "block_at (demo_hash 2) demo_node = Inr (Some 2, demo_node)"
    by (rule block_at_known) (simp add: demo_node_def demo_map_at)
  show "audit_round demo_env [demo_summary 2] 2 demo_node = Inr (Some [], demo_node)"
    using a m r b by (simp add: audit_round_def bind_app demo_state demo_summary_fields)
qed

lemma demo_accepts: "CheckPoAContainRecentHash demo_env demo_block demo_node = Inr (True, demo_node)"
proof -
  have p: "Params demo_env = main_params" by (simp add: demo_env_def)
  have n: "heap demo_node = demo_heap" "mapBlockIndex demo_node = demo_map" by (simp_all add: demo_node_def)
  have b: "block_at (demo_hash i) demo_node = Inr (Some i, demo_node)" if "i = 0 \<or> i = 2" for i
    by (rule block_at_known) (use that in \<open>auto simp: demo_node_def demo_map_at\<close>)
  have l2: "audit_loop demo_env 602 [] 3 demo_node = Some (Inr (True, demo_node))"
    by (subst audit_loop.simps) simp
  have l1: "audit_loop demo_env 602 [demo_summary 2] 2 demo_node = Some (Inr (True, demo_node))"
    by (subst audit_loop.simps) (simp add: demo_round n demo_fields next_in_chain_def l2)
  have l0: "audit_loop demo_env 602 [demo_summary 2] 1 demo_node = Some (Inr (True, demo_node))"
    by (subst audit_loop.simps) (simp add: demo_round [unfolded One_nat_def] n demo_fields next_in_chain_def l1 numeral_2_eq_2 [symmetric])
  have "later_audit demo_env demo_block 2 1 demo_node = Inr (True, demo_node)"
    using b [of 0] l0 demo_read(1)
    by (simp add: later_audit_def n bind_app deref_app block_count_def demo_map_at demo_fields next_in_chain_def
        demo_old_def demo_summary_def demo_block_def lift_loop_def)
  then show ?thesis
    using b [of 2] demo_back
    by (simp add: CheckPoAContainRecentHash_def bind_app gets_def n p main_params_def lift_loop_def demo_block_def demo_fields)
qed

theorem audited_blocks_consecutive_witness:
  "\<exists>old r n ps. ReadBlockFromDisk demo_env (demo_heap 1) = Some old \<and> posBlocksAudited old \<noteq> []
    \<and> demo_map (pos_hash (last (posBlocksAudited old))) = Some (Some r)
    \<and> next_of demo_node (pnext (demo_heap r)) (pos_hash (last (posBlocksAudited old))) = Some n \<and> chain_run demo_node n ps
    \<and> list_all2 (summary_matches demo_heap) (filter (auditable main_params demo_heap) ps) [demo_summary 2]
    \<and> (\<forall>x\<in>set ps. within_tip demo_heap 602 x)"
proof -
  have "heap demo_node = demo_heap" "mapBlockIndex demo_node = demo_map" "Params demo_env = main_params"
    "posBlocksAudited demo_block = [demo_summary 2]" "hashPrevBlock demo_block = demo_hash 2" "nHeight (demo_heap 2) = 602"
    "nStartPOABlock main_params = 560"
    by (simp_all add: demo_node_def demo_env_def demo_block_def demo_fields main_params_def)
  then show ?thesis
    using audited_blocks_consecutive [OF demo_accepts, of 2 1] demo_back by (simp add: demo_map_at demo_fields)
qed

theorem CheckPoABlockNotAuditingOverlap_correct_witness:
  "CheckPoABlockNotAuditingOverlap demo_env demo_block demo_node = Inr ({demo_summary 0} \<inter> {demo_summary 2} = {}, demo_node)"
proof -
  have "hashPrevPoABlock demo_block = demo_hash 1" "posBlocksAudited demo_block = [demo_summary 2]"
    "posBlocksAudited demo_old = [demo_summary 0]" by (simp_all add: demo_block_def demo_old_def)
  moreover have "\<not> IsNull (demo_hash 1)" by (simp add: IsNull_def demo_hash_def)
  ultimately show ?thesis
    using CheckPoABlockNotAuditingOverlap_correct [of demo_block demo_node 1 demo_env demo_old] demo_read(1)
    by (simp only: demo_state demo_map_at list.set simp_thms)
qed


text \<open>The first audit block may name the same entry twice, at a height of its own choosing.\<close>

definition first_node :: node where
  "first_node = \<lparr>heap = (\<lambda>_. NullIndex\<lparr>phashBlock := demo_hash 0, nHeight := 559\<rparr>),
     mapBlockIndex = [demo_hash 0 \<mapsto> Some 0], chainActive = []\<rparr>"

lemma first_audit_repeats:
  defines "twice \<equiv> \<lparr>pos_hash = demo_hash 0, pos_nTime = 0, pos_height = 559\<rparr>"
  shows "CheckPoAContainRecentHash demo_env (NullBlock\<lparr>hashPrevBlock := demo_hash 0, posBlocksAudited := [twice, twice]\<rparr>)
    first_node = Inr (True, first_node)"
proof -
  have h: "heap first_node = (\<lambda>_. NullIndex\<lparr>phashBlock := demo_hash 0, nHeight := 559\<rparr>)" by (simp add: first_node_def)
  have b: "block_at (demo_hash 0) first_node = Inr (Some 0, first_node)"
    by (rule block_at_known) (simp add: first_node_def)
  have p: "poa_back (heap first_node) 560 (Some 0) = Some (Inr 0)"
    by (subst poa_back.simps) (simp add: h)
  have r: "ReVerifyPoSBlock demo_env (Some 0) first_node = Inr (False, first_node)"
    by (simp add: ReVerifyPoSBlock_def ReadBlockFromDisk_def ReadBlockAt_def GetBlockPos_def h NullIndex_def)
  have t: "pos_hash twice = demo_hash 0" "pos_nTime twice = 0" "pos_height twice = 559" by (simp_all add: twice_def)
  have "first_audit_loop demo_env [twice, twice] first_node = Inr (True, first_node)"
    by (simp add: bind_app b r h t NullIndex_def)
  then show ?thesis
    using p by (simp add: CheckPoAContainRecentHash_def bind_app b gets_def lift_loop_def demo_env_def main_params_def h)
qed

end
