(* ===== verification/Kernel.thy ===== *)
theory Kernel
  imports Rewards Script_Eval "HOL-Library.Product_Lexorder"
begin

text \<open>
  The proof-of-stake kernel of \<open>kernel.cpp\<close>: the stake modifier, its selection from 64 blocks of the past, the
  hash of a kernel against its target, and the check of the coinstake of a block. \<open>fTestNet\<close> is a constant
  \<open>false\<close> in the source, so the interval is \<open>MODIFIER_INTERVAL\<close>.
\<close>

section \<open>Intervals\<close>

abbreviation (input) MODIFIER_INTERVAL :: int where "MODIFIER_INTERVAL \<equiv> 60"
abbreviation (input) MODIFIER_INTERVAL_RATIO :: int where "MODIFIER_INTERVAL_RATIO \<equiv> 3"
abbreviation (input) nStakeMinAge :: u32 where "nStakeMinAge \<equiv> 60 * 60"

definition GetWeight :: "int \<Rightarrow> int \<Rightarrow> int" where
  "GetWeight nIntervalBeginning nIntervalEnd = nIntervalEnd - nIntervalBeginning - uint nStakeMinAge"

definition SelectionIntervalSection :: "nat \<Rightarrow> int" where
  "SelectionIntervalSection nSection =
     MODIFIER_INTERVAL * 63 div (63 + ((63 - int nSection) * (MODIFIER_INTERVAL_RATIO - 1)))"

definition SelectionInterval :: int where
  "SelectionInterval = sum_list (map SelectionIntervalSection [0..<64])"

section \<open>The last modifier\<close>

partial_function (option) last_modifier_loop :: "store \<Rightarrow> ptr \<Rightarrow> ptr option" where
  "last_modifier_loop H p =
     (case pprev (H p) of
        None \<Rightarrow> Some p
      | Some q \<Rightarrow> if GeneratedStakeModifier (H p) then Some p else last_modifier_loop H q)"

text \<open>The modifier and its time; \<open>None\<close> is the error return.\<close>

definition GetLastStakeModifier :: "store \<Rightarrow> ptr \<Rightarrow> chain_error + (u64 \<times> int) option" where
  "GetLastStakeModifier H p = (case last_modifier_loop H p of
     None \<Rightarrow> Inl Diverges
   | Some q \<Rightarrow> Inr (if \<not> GeneratedStakeModifier (H q) then None
                    else Some (nStakeModifier (H q), GetBlockTime (H q))))"

section \<open>Selecting a block\<close>

record selection =
  fModifierV2 :: bool
  fFirstRun :: bool
  fSelected :: bool
  hashBest :: uint256
  pindexSelected :: "ptr option"

definition selection_hash :: "'e chain_env_scheme \<Rightarrow> u64 \<Rightarrow> bool \<Rightarrow> CBlockIndex \<Rightarrow> uint256" where
  "selection_hash E prevMod v2 b =
     (let hashProof = (if v2 then phashBlock b else if IndexIsProofOfStake b then uint256_0 else phashBlock b);
          hashSelection = HashFn E (write_limbs hashProof @ write_word 8 prevMod)
      in if IndexIsProofOfStake b then op_shr hashSelection 32 else hashSelection)"

definition select_entry :: "'e chain_env_scheme \<Rightarrow> u64 \<Rightarrow> (uint256 \<rightharpoonup> ptr) \<Rightarrow> store \<Rightarrow> ptr \<Rightarrow> selection \<Rightarrow> selection" where
  "select_entry E prevMod mapSelectedBlocks H p sel =
     (if mapSelectedBlocks (phashBlock (H p)) \<noteq> None then sel
      else let hashSelection = selection_hash E prevMod (fModifierV2 sel) (H p) in
        if fSelected sel \<and> op_less hashSelection (hashBest sel)
        then sel\<lparr>hashBest := hashSelection, pindexSelected := Some p\<rparr>
        else if \<not> fSelected sel
        then sel\<lparr>fSelected := True, hashBest := hashSelection, pindexSelected := Some p\<rparr>
        else sel)"

fun select_loop ::
  "'e chain_env_scheme \<Rightarrow> (int \<times> uint256) list \<Rightarrow> (uint256 \<rightharpoonup> ptr) \<Rightarrow> int \<Rightarrow> u64 \<Rightarrow> selection \<Rightarrow>
     ('b node_scheme, bool \<times> ptr option) step" where
  "select_loop E [] mapSelectedBlocks stop prev sel = ret (fSelected sel, pindexSelected sel)"
| "select_loop E (entry # rest) mapSelectedBlocks stop prev sel = (\<lambda>s.
     if \<not> block_count s (snd entry) then ret (False, pindexSelected sel) s
     else bind (block_at (snd entry)) (\<lambda>e. bind (deref e) (\<lambda>p s.
       if fSelected sel \<and> GetBlockTime (heap s p) > stop then ret (fSelected sel, pindexSelected sel) s
       else
         let sel1 = (if fFirstRun sel
                     then sel\<lparr>fModifierV2 := nHeight (heap s p) \<ge> nModifierUpdateBlock (Params E), fFirstRun := False\<rparr>
                     else sel)
         in select_loop E rest mapSelectedBlocks stop prev (select_entry E prev mapSelectedBlocks (heap s) p sel1) s)) s)"

definition SelectBlockFromCandidates ::
  "'e chain_env_scheme \<Rightarrow> (int \<times> uint256) list \<Rightarrow> (uint256 \<rightharpoonup> ptr) \<Rightarrow> int \<Rightarrow> u64 \<Rightarrow>
     ('b node_scheme, bool \<times> ptr option) step" where
  "SelectBlockFromCandidates E vSortedByTimestamp mapSelectedBlocks nSelectionIntervalStop prevMod =
     select_loop E vSortedByTimestamp mapSelectedBlocks nSelectionIntervalStop prevMod
       \<lparr>fModifierV2 = False, fFirstRun = True, fSelected = False, hashBest = uint256_0, pindexSelected = None\<rparr>"

section \<open>The next modifier\<close>

partial_function (option) candidates_loop ::
  "store \<Rightarrow> int \<Rightarrow> ptr option \<Rightarrow> (int \<times> uint256) list \<Rightarrow> (int \<times> uint256) list option" where
  "candidates_loop H nSelectionIntervalStart pindex v = (case pindex of
     None \<Rightarrow> Some v
   | Some p \<Rightarrow>
       if GetBlockTime (H p) \<ge> nSelectionIntervalStart
       then candidates_loop H nSelectionIntervalStart (pprev (H p)) (v @ [(GetBlockTime (H p), phashBlock (H p))])
       else Some v)"

text \<open>Pairs are ordered by time, then by the number that the hash is.\<close>

definition sort_candidates :: "(int \<times> uint256) list \<Rightarrow> (int \<times> uint256) list" where
  "sort_candidates v = sort_key (\<lambda>(t, h). (t, val h)) (rev v)"

text \<open>The rounds; \<open>None\<close> is the error return.\<close>

fun modifier_rounds ::
  "'e chain_env_scheme \<Rightarrow> (int \<times> uint256) list \<Rightarrow> u64 \<Rightarrow> nat list \<Rightarrow> int \<Rightarrow> (uint256 \<rightharpoonup> ptr) \<Rightarrow> u64 \<Rightarrow>
     ('b node_scheme, u64 option) step" where
  "modifier_rounds E vSorted stakeMod [] stop selected new = ret (Some new)"
| "modifier_rounds E vSorted stakeMod (nRound # rounds) stop selected new =
     (let stop = stop + SelectionIntervalSection nRound in
      bind (SelectBlockFromCandidates E vSorted selected stop stakeMod) (\<lambda>(ok, pindex).
        if \<not> ok then ret None
        else bind (deref pindex) (\<lambda>p s.
          modifier_rounds E vSorted stakeMod rounds stop (selected(phashBlock (heap s p) \<mapsto> p))
            (new OR push_bit nRound (ucast (GetStakeEntropyBit (heap s p)))) s)))"

record kernel_env = wallet_env +
  stakemodifier_literal :: u64
  script_env :: "CTransaction \<Rightarrow> eval_env"

text \<open>
  Whether it succeeded, the modifier and whether it was generated. The modifier of the block above the genesis
  block is \<open>uint64_t("stakemodifier")\<close>, which is the address of the literal.
\<close>

definition ComputeNextStakeModifier ::
  "'e kernel_env_scheme \<Rightarrow> ptr option \<Rightarrow> ('b node_scheme, bool \<times> u64 \<times> bool) step" where
  "ComputeNextStakeModifier E pindexPrev = (case pindexPrev of
     None \<Rightarrow> ret (True, 0, True)
   | Some prev \<Rightarrow> (\<lambda>s.
       if nHeight (heap s prev) = 0 then ret (True, stakemodifier_literal E, True) s
       else bind (gets (\<lambda>s. GetLastStakeModifier (heap s) prev)) (\<lambda>lastMod s. case lastMod of
         None \<Rightarrow> ret (False, 0, False) s
       | Some (stakeMod, nModifierTime) \<Rightarrow>
           let prevTime = GetBlockTime (heap s prev) in
           if nModifierTime div MODIFIER_INTERVAL \<ge> prevTime div MODIFIER_INTERVAL
           then ret (True, stakeMod, False) s
           else
             let start = prevTime div MODIFIER_INTERVAL * MODIFIER_INTERVAL - SelectionInterval in
             bind (gets (\<lambda>s. lift_loop (map_option Inr (candidates_loop (heap s) start (Some prev) [])))) (\<lambda>v.
               bind (modifier_rounds E (sort_candidates v) stakeMod [0..<min 64 (length v)] start Map.empty 0) (\<lambda>r.
                 case r of
                   None \<Rightarrow> ret (False, stakeMod, False)
                 | Some new \<Rightarrow> ret (True, new, True))) s) s))"

section \<open>The kernel hash\<close>

partial_function (option) kernel_modifier_loop ::
  "store \<Rightarrow> CChain \<Rightarrow> int \<Rightarrow> ptr \<Rightarrow> ptr option \<Rightarrow> int \<times> int \<Rightarrow> (ptr \<times> int \<times> int) option option" where
  "kernel_modifier_loop H chain stop pindex pindexNext ht =
     (if snd ht < stop then
        (case pindexNext of
           None \<Rightarrow> Some None
         | Some q \<Rightarrow>
             kernel_modifier_loop H chain stop q (chain_at chain (nHeight (H q) + 1))
               (if GeneratedStakeModifier (H q) then (nHeight (H q), GetBlockTime (H q)) else ht))
      else Some (Some (pindex, ht)))"

text \<open>The modifier with its height and time; \<open>None\<close> is the error return.\<close>

definition GetKernelStakeModifier :: "uint256 \<Rightarrow> ('b node_scheme, (u64 \<times> int \<times> int) option) step" where
  "GetKernelStakeModifier hashBlockFrom = (\<lambda>s.
     if \<not> block_count s hashBlockFrom then ret None s
     else bind (block_at hashBlockFrom) (\<lambda>e. bind (deref e) (\<lambda>from s.
       case kernel_modifier_loop (heap s) (chainActive s) (GetBlockTime (heap s from) + SelectionInterval) from
              (chain_at (chainActive s) (nHeight (heap s from) + 1)) (nHeight (heap s from), GetBlockTime (heap s from)) of
         None \<Rightarrow> fail Diverges s
       | Some None \<Rightarrow> ret None s
       | Some (Some (p, height, time)) \<Rightarrow> ret (Some (nStakeModifier (heap s p), height, time)) s)) s)"

definition stakeHash :: "'e chain_env_scheme \<Rightarrow> u32 \<Rightarrow> bytes \<Rightarrow> u32 \<Rightarrow> uint256 \<Rightarrow> u32 \<Rightarrow> uint256" where
  "stakeHash E nTimeTx ss prevoutIndex prevoutHash nTimeBlockFrom =
     HashFn E (ss @ write_word 4 nTimeBlockFrom @ write_word 4 prevoutIndex @ write_limbs prevoutHash @ write_word 4 nTimeTx)"

definition stakeTargetHit :: "uint256 \<Rightarrow> CAmount \<Rightarrow> uint256 \<Rightarrow> uint_error + bool" where
  "stakeTargetHit hashProof nValueIn bnTargetPerCoinDay =
     (case op_div (set_uint256 (of_int nValueIn)) (set_uint256 100) of
        Inl e \<Rightarrow> Inl e
      | Inr bnCoinDayWeight \<Rightarrow> Inr (op_less hashProof (op_mul bnCoinDayWeight bnTargetPerCoinDay)))"

text \<open>
  The search over times: whether a hash met the target, the time and the last hash. In the sequential model no block
  arrives during the search.
\<close>

fun stake_search ::
  "'e chain_env_scheme \<Rightarrow> bytes \<Rightarrow> COutPoint \<Rightarrow> u32 \<Rightarrow> CAmount \<Rightarrow> uint256 \<Rightarrow> u32 \<Rightarrow> uint256 \<Rightarrow> u32 list \<Rightarrow>
     uint_error + bool \<times> u32 \<times> uint256" where
  "stake_search E ss kernelOut nTimeBlockFrom nValueIn target nTimeTx hashProof [] = Inr (False, nTimeTx, hashProof)"
| "stake_search E ss kernelOut nTimeBlockFrom nValueIn target nTimeTx hashProof (nTryTime # rest) =
     (let hashProof = stakeHash E nTryTime ss (op_n kernelOut) (op_txid kernelOut) nTimeBlockFrom in
      case stakeTargetHit hashProof nValueIn target of
        Inl e \<Rightarrow> Inl e
      | Inr hit \<Rightarrow>
          if \<not> hit then stake_search E ss kernelOut nTimeBlockFrom nValueIn target nTimeTx hashProof rest
          else Inr (True, nTryTime, hashProof))"

definition search_times :: "u32 \<Rightarrow> u32 \<Rightarrow> u32 list" where
  "search_times nTimeTx nHashDrift = map (\<lambda>i. nTimeTx + nHashDrift - of_nat i) [0..<unat nHashDrift]"

definition staked_amount :: "'e kernel_env_scheme \<Rightarrow> CTransaction \<Rightarrow> CTxOut \<Rightarrow> bytes \<Rightarrow> CAmount" where
  "staked_amount E txPrev out encryption =
     (if IsCoinBase txPrev \<or> IsCoinStake txPrev then nValue out
      else snd (ECDHDecode E (mv_mask (maskValue out)) (mv_amount (maskValue out)) (PubKeySet (take 33 encryption))))"

text \<open>
  Success, the time of the transaction and the hash of the proof. A search also records the tip as hashed on, in
  \<open>mapHashedBlocks\<close>, which only the staking thread reads.
\<close>

definition CheckStakeKernelHash ::
  "'e kernel_env_scheme \<Rightarrow> u32 \<Rightarrow> CBlock \<Rightarrow> CTransaction \<Rightarrow> COutPoint \<Rightarrow> bytes \<Rightarrow> u32 \<Rightarrow> u32 \<Rightarrow> bool \<Rightarrow> uint256 \<Rightarrow>
     ('b node_scheme, bool \<times> u32 \<times> uint256) step" where
  "CheckStakeKernelHash E bits blockFrom txPrev kernelOut encryption nTimeTx nHashDrift fCheck hashProof =
     bind (item (vout txPrev) (unat (op_n kernelOut))) (\<lambda>out.
     if length encryption < 33 then fail OutOfRange
     else
       let nValueIn = staked_amount E txPrev out encryption; nTimeBlockFrom = nTime blockFrom in
       if nTimeTx < nTimeBlockFrom then ret (False, nTimeTx, hashProof)
       else if nTimeBlockFrom + nStakeMinAge > nTimeTx then ret (False, nTimeTx, hashProof)
       else
         let target = fst (SetCompact bits) in
         bind (GetKernelStakeModifier (BlockHash E blockFrom)) (\<lambda>m. case m of
           None \<Rightarrow> ret (False, nTimeTx, hashProof)
         | Some (stakeMod, _, _) \<Rightarrow>
             let ss = write_word 8 stakeMod in
             if fCheck then
               let hashProof = stakeHash E nTimeTx ss (op_n kernelOut) (op_txid kernelOut) nTimeBlockFrom in
               gets (\<lambda>_. lift_uint (map_sum id (\<lambda>hit. (hit, nTimeTx, hashProof)) (stakeTargetHit hashProof nValueIn target)))
             else
               bind (gets (\<lambda>_. lift_uint (stake_search E ss kernelOut nTimeBlockFrom nValueIn target nTimeTx hashProof
                                  (search_times nTimeTx nHashDrift)))) (\<lambda>r s.
                 bind (deref (Tip (chainActive s))) (\<lambda>_. ret r) s)))"

section \<open>The coinstake of a block\<close>

definition STANDARD_SCRIPT_VERIFY_FLAGS :: u32 where
  "STANDARD_SCRIPT_VERIFY_FLAGS = SCRIPT_VERIFY_P2SH OR SCRIPT_VERIFY_DERSIG OR SCRIPT_VERIFY_STRICTENC
     OR SCRIPT_VERIFY_MINIMALDATA OR SCRIPT_VERIFY_NULLDUMMY OR SCRIPT_VERIFY_DISCOURAGE_UPGRADABLE_NOPS"

definition CheckProofOfStake :: "'e kernel_env_scheme \<Rightarrow> CBlock \<Rightarrow> ('b node_scheme, bool \<times> uint256) step" where
  "CheckProofOfStake E block =
     bind (item (vtx block) 1) (\<lambda>tx.
     if \<not> IsCoinStake tx then ret (False, uint256_0)
     else bind (item (vin tx) 0) (\<lambda>txin.
     case GetTransaction E (op_txid (prevout txin)) of
       None \<Rightarrow> ret (False, uint256_0)
     | Some (txPrev, hashBlock) \<Rightarrow>
         bind (item (vout txPrev) (unat (op_n (prevout txin)))) (\<lambda>out.
         if VerifyScript ((script_env E tx)\<lparr>flags := STANDARD_SCRIPT_VERIFY_FLAGS\<rparr>) (scriptSig txin) (scriptPubKey out)
              \<noteq> SCRIPT_ERR_OK
         then ret (False, uint256_0)
         else (\<lambda>s. case mapBlockIndex s hashBlock of
           None \<Rightarrow> ret (False, uint256_0) s
         | Some e \<Rightarrow> bind (deref e) (\<lambda>p s.
             case ReadBlockAt E (GetBlockPos (heap s p)) of
               None \<Rightarrow> ret (False, uint256_0) s
             | Some blockprev \<Rightarrow>
                 bind (CheckStakeKernelHash E (nBits block) blockprev txPrev (prevout txin) (encryptionKey txin)
                         (nTime block) 0 True uint256_0) (\<lambda>(ok, _, hashProof). ret (ok, hashProof)) s) s))))"

section \<open>Checksums\<close>

definition GetStakeModifierChecksum :: "'e chain_env_scheme \<Rightarrow> store \<Rightarrow> ptr \<Rightarrow> chain_error + u32" where
  "GetStakeModifierChecksum E H p =
     (if pprev (H p) = None \<and> phashBlock (H p) \<noteq> hashGenesisBlock (Params E) then Inl AssertionFailed
      else Inr (ucast (Get64 (op_shr (HashFn E
        ((case pprev (H p) of None \<Rightarrow> [] | Some q \<Rightarrow> write_word 4 (nStakeModifierChecksum (H q)))
         @ write_word 4 (nFlags (H p)) @ write_limbs (hashProofOfStake (H p)) @ write_word 8 (nStakeModifier (H p)))) (256 - 32)))))"

definition CheckStakeModifierCheckpoints :: "int \<Rightarrow> u32 \<Rightarrow> bool" where
  "CheckStakeModifierCheckpoints height checksum \<longleftrightarrow> (if height = 0 then checksum = 0xfd11f4e7 else True)"


section \<open>What is selected\<close>

text \<open>
  The selection after the entries \<open>ps\<close>: nothing when all of them were selected before, otherwise the first of those
  that were not with the least hash.
\<close>

definition unused :: "(uint256 \<rightharpoonup> ptr) \<Rightarrow> store \<Rightarrow> ptr \<Rightarrow> bool" where
  "unused m H p \<longleftrightarrow> m (phashBlock (H p)) = None"

definition selected_among :: "'e chain_env_scheme \<Rightarrow> u64 \<Rightarrow> (uint256 \<rightharpoonup> ptr) \<Rightarrow> store \<Rightarrow> ptr list \<Rightarrow> selection \<Rightarrow> bool" where
  "selected_among E prev m H ps sel \<longleftrightarrow>
     (if fSelected sel then
        (\<exists>p\<in>set ps. pindexSelected sel = Some p \<and> unused m H p
           \<and> hashBest sel = selection_hash E prev (fModifierV2 sel) (H p)
           \<and> (\<forall>q\<in>set ps. unused m H q \<longrightarrow> val (hashBest sel) \<le> val (selection_hash E prev (fModifierV2 sel) (H q))))
      else \<forall>q\<in>set ps. \<not> unused m H q)"

lemma length_selection_hash: "(\<And>b. length (HashFn E b) = 8) \<Longrightarrow> length (selection_hash E prev v2 b) = 8"
  by (simp add: selection_hash_def Let_def)

lemma selected_among_step:
  assumes h: "\<And>b. length (HashFn E b) = 8" and inv: "selected_among E prev m H ps sel"
  shows "selected_among E prev m H (ps @ [p]) (select_entry E prev m H p sel)
    \<and> fModifierV2 (select_entry E prev m H p sel) = fModifierV2 sel \<and> fFirstRun (select_entry E prev m H p sel) = fFirstRun sel"
proof (cases "unused m H p")
  case False
  then have "select_entry E prev m H p sel = sel" by (simp add: select_entry_def unused_def)
  then show ?thesis using inv False by (auto simp: selected_among_def)
next
  case True
  let ?h = "selection_hash E prev (fModifierV2 sel) (H p)"
  show ?thesis
  proof (cases "fSelected sel")
    case False
    then have "select_entry E prev m H p sel = sel\<lparr>fSelected := True, hashBest := ?h, pindexSelected := Some p\<rparr>"
      using True by (simp add: select_entry_def unused_def Let_def)
    then show ?thesis using inv False True by (auto simp: selected_among_def)
  next
    case sel: True
    then obtain q where q: "q \<in> set ps" "pindexSelected sel = Some q" "unused m H q"
      "hashBest sel = selection_hash E prev (fModifierV2 sel) (H q)"
      "\<And>r. r \<in> set ps \<Longrightarrow> unused m H r \<Longrightarrow> val (hashBest sel) \<le> val (selection_hash E prev (fModifierV2 sel) (H r))"
      using inv by (auto simp: selected_among_def)
    have c: "op_less ?h (hashBest sel) \<longleftrightarrow> val ?h < val (hashBest sel)"
      by (rule op_less_val) (simp add: q(4) length_selection_hash h)
    show ?thesis
    proof (cases "op_less ?h (hashBest sel)")
      case less: True
      then have e: "select_entry E prev m H p sel = sel\<lparr>hashBest := ?h, pindexSelected := Some p\<rparr>"
        using sel True by (simp add: select_entry_def unused_def Let_def)
      have "val ?h \<le> val (selection_hash E prev (fModifierV2 sel) (H r))" if "r \<in> set ps" "unused m H r" for r
        using q(5) [OF that] less c by linarith
      then show ?thesis using e sel True by (simp add: selected_among_def)
    next
      case ge: False
      then have e: "select_entry E prev m H p sel = sel" using sel True by (simp add: select_entry_def unused_def Let_def)
      have "val (hashBest sel) \<le> val ?h" using ge c by linarith
      then have "selected_among E prev m H (ps @ [p]) sel" using q sel by (auto simp: selected_among_def)
      then show ?thesis using e by simp
    qed
  qed
qed

text \<open>The entries that a list of candidates starts with.\<close>

definition entries :: "'b node_scheme \<Rightarrow> (int \<times> uint256) list \<Rightarrow> ptr list \<Rightarrow> bool" where
  "entries s cs ps \<longleftrightarrow> length ps \<le> length cs \<and> (\<forall>i<length ps. mapBlockIndex s (snd (cs ! i)) = Some (Some (ps ! i)))"

lemma entries_Cons: "entries s (c # cs) (p # ps) \<longleftrightarrow> mapBlockIndex s (snd c) = Some (Some p) \<and> entries s cs ps"
  by (auto simp: entries_def less_Suc_eq_0_disj)

definition stops_after :: "'b node_scheme \<Rightarrow> int \<Rightarrow> (int \<times> uint256) list \<Rightarrow> ptr list \<Rightarrow> bool" where
  "stops_after s stop cs ps \<longleftrightarrow> length ps = length cs
     \<or> (\<exists>p. mapBlockIndex s (snd (cs ! length ps)) = Some (Some p) \<and> GetBlockTime (heap s p) > stop)"

lemma select_loop_result:
  assumes h: "\<And>b. length (HashFn E b) = 8"
  shows "select_loop E cs m stop prev sel s = Inr ((True, r), s') \<Longrightarrow> \<not> fFirstRun sel \<Longrightarrow>
    selected_among E prev m (heap s) ps0 sel \<Longrightarrow>
    \<exists>ps fin. s' = s \<and> entries s cs ps \<and> stops_after s stop cs ps \<and> fSelected fin \<and> r = pindexSelected fin
      \<and> fModifierV2 fin = fModifierV2 sel \<and> selected_among E prev m (heap s) (ps0 @ ps) fin"
proof (induction cs arbitrary: sel ps0)
  case Nil
  then show ?case by (intro exI [of _ "[]"] exI [of _ sel]) (simp add: entries_def stops_after_def)
next
  case (Cons c cs)
  obtain p where p: "mapBlockIndex s (snd c) = Some (Some p)"
    using Cons.prems(1) by (auto simp: block_count_def bind_app deref_app block_at_def split: if_splits option.splits)
  show ?case
  proof (cases "fSelected sel \<and> GetBlockTime (heap s p) > stop")
    case True
    then have "r = pindexSelected sel" "s' = s"
      using Cons.prems(1) p by (auto simp: block_count_def bind_app deref_app block_at_known)
    then show ?thesis using True p Cons.prems
      by (intro exI [of _ "[]"] exI [of _ sel]) (auto simp: entries_def stops_after_def)
  next
    case False
    let ?sel = "select_entry E prev m (heap s) p sel"
    have r: "select_loop E cs m stop prev ?sel s = Inr ((True, r), s')"
      using False Cons.prems(1,2) p
      by (cases "fSelected sel") (simp_all add: block_count_def bind_app deref_app block_at_known)
    have i: "selected_among E prev m (heap s) (ps0 @ [p]) ?sel" "\<not> fFirstRun ?sel" "fModifierV2 ?sel = fModifierV2 sel"
      using selected_among_step [OF h Cons.prems(3)] Cons.prems(2) by simp_all
    obtain ps fin where "s' = s" "entries s cs ps" "stops_after s stop cs ps" "fSelected fin" "r = pindexSelected fin"
      "fModifierV2 fin = fModifierV2 sel" "selected_among E prev m (heap s) ((ps0 @ [p]) @ ps) fin"
      using Cons.IH [OF r i(2,1)] i(3) by auto
    then show ?thesis using p
      by (intro exI [of _ "p # ps"] exI [of _ fin]) (simp add: entries_Cons stops_after_def)
  qed
qed

lemma SelectBlock_result:
  assumes h: "\<And>b. length (HashFn E b) = 8"
    and run: "SelectBlockFromCandidates E cs m stop prev s = Inr ((True, r), s')"
  shows "\<exists>p ps v2. r = Some p \<and> s' = s \<and> entries s cs ps \<and> stops_after s stop cs ps \<and> p \<in> set ps \<and> unused m (heap s) p
    \<and> (\<forall>q\<in>set ps. unused m (heap s) q \<longrightarrow>
         val (selection_hash E prev v2 (heap s p)) \<le> val (selection_hash E prev v2 (heap s q)))"
proof (cases cs)
  case Nil
  then show ?thesis using run by (simp add: SelectBlockFromCandidates_def)
next
  case (Cons c rest)
  let ?init = "\<lparr>fModifierV2 = False, fFirstRun = True, fSelected = False, hashBest = uint256_0, pindexSelected = None\<rparr>"
  obtain p where p: "mapBlockIndex s (snd c) = Some (Some p)"
    using run Cons by (auto simp: SelectBlockFromCandidates_def block_count_def bind_app deref_app block_at_def
        split: if_splits option.splits)
  define sel where "sel = ?init\<lparr>fModifierV2 := nHeight (heap s p) \<ge> nModifierUpdateBlock (Params E), fFirstRun := False\<rparr>"
  have r: "select_loop E rest m stop prev (select_entry E prev m (heap s) p sel) s = Inr ((True, r), s')"
    using run Cons p by (simp add: SelectBlockFromCandidates_def block_count_def bind_app deref_app block_at_known sel_def)
  have "selected_among E prev m (heap s) [] sel" by (simp add: selected_among_def sel_def)
  from selected_among_step [OF h this, of p]
  have i: "selected_among E prev m (heap s) [p] (select_entry E prev m (heap s) p sel)"
    "\<not> fFirstRun (select_entry E prev m (heap s) p sel)" by (simp_all add: sel_def)
  obtain ps fin where f: "s' = s" "entries s rest ps" "stops_after s stop rest ps" "fSelected fin" "r = pindexSelected fin"
    "selected_among E prev m (heap s) ([p] @ ps) fin"
    using select_loop_result [OF h r i(2,1)] by blast
  from f(6) have "\<exists>q\<in>set (p # ps). pindexSelected fin = Some q \<and> unused m (heap s) q
      \<and> hashBest fin = selection_hash E prev (fModifierV2 fin) (heap s q)
      \<and> (\<forall>x\<in>set (p # ps). unused m (heap s) x \<longrightarrow>
           val (hashBest fin) \<le> val (selection_hash E prev (fModifierV2 fin) (heap s x)))"
    by (simp only: selected_among_def f(4) if_True append.simps)
  then obtain q where "q \<in> set (p # ps)" "r = Some q" "unused m (heap s) q"
    "\<forall>x\<in>set (p # ps). unused m (heap s) x \<longrightarrow> val (selection_hash E prev (fModifierV2 fin) (heap s q))
       \<le> val (selection_hash E prev (fModifierV2 fin) (heap s x))"
    using f(5) by metis
  moreover have "entries s cs (p # ps)" "stops_after s stop cs (p # ps)"
    using f(2,3) p Cons by (simp_all add: entries_Cons stops_after_def)
  ultimately show ?thesis using f(1) by blast
qed


lemma entropy_bit: "bit (ucast (GetStakeEntropyBit b) :: u64) i \<longleftrightarrow> i = 0 \<and> GetStakeEntropyBit b = 1"
proof -
  have "GetStakeEntropyBit b = of_bool (odd (Get64 (phashBlock b)))"
    by (simp add: GetStakeEntropyBit_def and_one_eq mod_2_eq_odd)
  then show ?thesis by (cases "odd (Get64 (phashBlock b))") (auto simp: bit_1_iff)
qed

text \<open>The blocks of the rounds so far and the modifier they give.\<close>

definition chosen :: "'b node_scheme \<Rightarrow> (int \<times> uint256) list \<Rightarrow> u64 \<Rightarrow> ptr list \<Rightarrow> bool" where
  "chosen s cs new ps \<longleftrightarrow> distinct (map (\<lambda>p. phashBlock (heap s p)) ps)
     \<and> (\<forall>p\<in>set ps. \<exists>c\<in>set cs. mapBlockIndex s (snd c) = Some (Some p))
     \<and> (\<forall>i. bit new i \<longleftrightarrow> i < length ps \<and> GetStakeEntropyBit (heap s (ps ! i)) = 1)"

lemma chosen_snoc:
  assumes "chosen s cs new ps" "length ps < 64" "phashBlock (heap s p) \<notin> (\<lambda>p. phashBlock (heap s p)) ` set ps"
    "c \<in> set cs" "mapBlockIndex s (snd c) = Some (Some p)"
  shows "chosen s cs (new OR push_bit (length ps) (ucast (GetStakeEntropyBit (heap s p)))) (ps @ [p])"
proof -
  have "bit (new OR push_bit (length ps) (ucast (GetStakeEntropyBit (heap s p)))) i \<longleftrightarrow>
      i < length (ps @ [p]) \<and> GetStakeEntropyBit (heap s ((ps @ [p]) ! i)) = 1" for i
  proof (cases i "length ps" rule: linorder_cases)
    case less
    then show ?thesis using assms(1) by (simp add: chosen_def bit_or_iff bit_push_bit_iff nth_append)
  next
    case equal
    then show ?thesis using assms(1,2) by (simp add: chosen_def bit_or_iff bit_push_bit_iff entropy_bit)
  next
    case greater
    then show ?thesis using assms(1) by (simp add: chosen_def bit_or_iff bit_push_bit_iff entropy_bit)
  qed
  then show ?thesis using assms by (auto simp: chosen_def)
qed

lemma modifier_rounds_chosen:
  assumes h: "\<And>b. length (HashFn E b) = 8"
  shows "modifier_rounds E cs prev [k..<n] stop m new s = Inr (Some out, s') \<Longrightarrow> k \<le> n \<Longrightarrow> n \<le> 64 \<Longrightarrow>
    chosen s cs new ps \<Longrightarrow> length ps = k \<Longrightarrow> dom m = (\<lambda>p. phashBlock (heap s p)) ` set ps \<Longrightarrow>
    \<exists>qs. s' = s \<and> chosen s cs out qs \<and> length qs = n"
proof (induction "n - k" arbitrary: k stop m new ps)
  case 0
  then show ?case by auto
next
  case (Suc d)
  then have k: "[k..<n] = k # [Suc k..<n]" "k < n" by (simp_all add: upt_conv_Cons)
  obtain r s1 where r: "SelectBlockFromCandidates E cs m (stop + SelectionIntervalSection k) prev s = Inr ((True, r), s1)"
    using Suc.prems(1) k by (auto simp: Let_def bind_Inr split: if_splits)
  obtain p us v2 where p: "r = Some p" "s1 = s" "entries s cs us" "p \<in> set us" "unused m (heap s) p"
    using SelectBlock_result [OF h r] by blast
  obtain i where i: "i < length us" "us ! i = p" using p(4) by (metis in_set_conv_nth)
  then have c: "cs ! i \<in> set cs" "mapBlockIndex s (snd (cs ! i)) = Some (Some p)"
    using p(3) by (auto simp: entries_def)
  have new: "phashBlock (heap s p) \<notin> (\<lambda>p. phashBlock (heap s p)) ` set ps"
    using p(5) unfolding unused_def Suc.prems(6) [symmetric] by (simp add: domIff)
  have run: "modifier_rounds E cs prev [Suc k..<n] (stop + SelectionIntervalSection k) (m(phashBlock (heap s p) \<mapsto> p))
      (new OR push_bit k (ucast (GetStakeEntropyBit (heap s p)))) s = Inr (Some out, s')"
    using Suc.prems(1) r p(1,2) by (simp add: k Let_def bind_app deref_app)
  show ?case
  proof (rule Suc.hyps(1) [OF _ run])
    show "d = n - Suc k" "Suc k \<le> n" "n \<le> 64" using Suc.hyps(2) k Suc.prems(3) by simp_all
    show "chosen s cs (new OR push_bit k (ucast (GetStakeEntropyBit (heap s p)))) (ps @ [p])"
      using chosen_snoc [OF Suc.prems(4) _ new c] Suc.prems(3,5) k by simp
    show "length (ps @ [p]) = Suc k" using Suc.prems(5) by simp
    show "dom (m(phashBlock (heap s p) \<mapsto> p)) = (\<lambda>p. phashBlock (heap s p)) ` set (ps @ [p])"
      using Suc.prems(6) by simp
  qed
qed

lemma stakeTargetHit_val:
  assumes "length hashProof = 8" "length target = 8"
  shows "stakeTargetHit hashProof v target =
      Inr (val hashProof < (unat (of_int v :: u64) div 100 * val target) mod 2 ^ 256)"
proof -
  obtain q where q: "op_div (set_uint256 (of_int v)) (set_uint256 100) = Inr q" "length q = 8"
      "val q = unat (of_int v :: u64) div 100"
    using op_div_val [of "set_uint256 (of_int v)" "set_uint256 100"] by auto
  then show ?thesis using assms by (simp add: stakeTargetHit_def op_less_val val_op_mul)
qed

text \<open>With a target within the limit of the stake phase, a stake of 2^24 units hits and one of 2^25 units does not.\<close>

lemma larger_stake_misses:
  "stakeTargetHit (set_uint256 7) (0x1000000 * 100) (op_shl (set_uint256 1) 231) = Inr True"
  "stakeTargetHit (set_uint256 7) (0x2000000 * 100) (op_shl (set_uint256 1) 231) = Inr False"
proof -
  have v: "val (op_shl (set_uint256 1) 231) = 2 ^ 231" by (simp add: val_op_shl)
  show "stakeTargetHit (set_uint256 7) (0x1000000 * 100) (op_shl (set_uint256 1) 231) = Inr True"
    using stakeTargetHit_val [of "set_uint256 7" "op_shl (set_uint256 1) 231" "0x1000000 * 100"] v by simp
  show "stakeTargetHit (set_uint256 7) (0x2000000 * 100) (op_shl (set_uint256 1) 231) = Inr False"
    using stakeTargetHit_val [of "set_uint256 7" "op_shl (set_uint256 1) 231" "0x2000000 * 100"] v by simp
qed

section \<open>What the checks leave as it was\<close>

text \<open>Every function of this theory changes the map of blocks at most by \<open>NULL\<close> entered for unknown hashes.\<close>

lemma select_loop_grows: "ends_in map_grows s (select_loop E cs m stop prev sel s)"
proof (induction cs arbitrary: sel s)
  case Nil
  show ?case by (simp only: select_loop.simps, rule grows.ret)
next
  case (Cons c cs)
  show ?case unfolding select_loop.simps Let_def by (intro grows.frame_rules block_at_ends Cons.IH)
qed

lemma modifier_rounds_grows: "ends_in map_grows s (modifier_rounds E v prev rs stop m new s)"
proof (induction rs arbitrary: stop m new s)
  case Nil
  show ?case by (simp only: modifier_rounds.simps, rule grows.ret)
next
  case (Cons r rs)
  show ?case unfolding modifier_rounds.simps Let_def SelectBlockFromCandidates_def
    by (intro grows.frame_rules select_loop_grows Cons.IH)
qed

lemma ComputeNextStakeModifier_grows: "ends_in map_grows s (ComputeNextStakeModifier E p s)"
  unfolding ComputeNextStakeModifier_def Let_def
  by (intro grows.frame_rules modifier_rounds_grows)

lemma GetKernelStakeModifier_grows: "ends_in map_grows s (GetKernelStakeModifier h s)"
  unfolding GetKernelStakeModifier_def Let_def
  by (intro grows.frame_rules block_at_ends)

lemma CheckStakeKernelHash_grows:
  "ends_in map_grows s (CheckStakeKernelHash E bits b tx out enc t d c h s)"
  unfolding CheckStakeKernelHash_def Let_def
  by (intro grows.frame_rules GetKernelStakeModifier_grows)

lemma CheckProofOfStake_grows: "ends_in map_grows s (CheckProofOfStake E block s)"
  unfolding CheckProofOfStake_def Let_def
  by (intro grows.frame_rules CheckStakeKernelHash_grows)

section \<open>Properties\<close>

text \<open>
  when the rounds of the stake modifier succeed they have chosen one block per round among the candidates, no
  block twice, and bit \<open>i\<close> of the new modifier is the entropy bit of the block of round \<open>i\<close>; the index is not changed.
\<close>

lemma stake_modifier_bits:
  assumes "\<And>b. length (HashFn E b) = 8" "n \<le> 64"
    and "modifier_rounds E cs prev [0..<n] start Map.empty 0 s = Inr (Some new, s')"
  shows "\<exists>ps. s' = s \<and> length ps = n \<and> distinct (map (\<lambda>p. phashBlock (heap s p)) ps)
    \<and> (\<forall>p\<in>set ps. \<exists>c\<in>set cs. mapBlockIndex s (snd c) = Some (Some p))
    \<and> (\<forall>i. bit new i \<longleftrightarrow> i < n \<and> GetStakeEntropyBit (heap s (ps ! i)) = 1)"
proof -
  have "chosen s cs 0 []" by (simp add: chosen_def)
  then obtain ps where "s' = s" "chosen s cs new ps" "length ps = n"
    using modifier_rounds_chosen [OF assms(1,3), of "[]"] assms(2) by auto
  then show ?thesis by (auto simp: chosen_def)
qed

text \<open>
  a kernel hash meets its target exactly when it is below the product of the hundredth part of the amount and the
  target per coin day, reduced to 256 bits. The reduction matters: with a large target a larger stake can miss.
\<close>

lemma stakeTargetHit_correct:
  assumes "length hashProof = 8" "length target = 8"
  shows "stakeTargetHit hashProof v target =
      Inr (val hashProof < (unat (of_int v :: u64) div 100 * val target) mod 2 ^ 256)"
  using assms by (rule stakeTargetHit_val)

definition kernel_demo :: chain_env where
  "kernel_demo = \<lparr>Params = main_params, HashFn = (\<lambda>_. uint256_0), HashQuarkFn = (\<lambda>_. uint256_0), block_file = (\<lambda>_. None)\<rparr>"

definition kernel_node :: node where
  "kernel_node = \<lparr>heap = (\<lambda>_. NullIndex\<lparr>phashBlock := set_uint256 1\<rparr>), mapBlockIndex = [set_uint256 1 \<mapsto> Some 0],
     chainActive = []\<rparr>"

lemma kernel_demo_rounds:
  "modifier_rounds kernel_demo [(0, set_uint256 1)] 5 [0..<1] 0 Map.empty 0 kernel_node = Inr (Some 1, kernel_node)"
proof -
  have "GetStakeEntropyBit (NullIndex\<lparr>phashBlock := set_uint256 1\<rparr>) = 1"
    by (simp add: GetStakeEntropyBit_def set_uint256_def Get64_def numeral_eq_Suc)
  then show ?thesis
    by (simp add: SelectBlockFromCandidates_def Let_def bind_app deref_app block_at_def block_count_def kernel_node_def
        select_entry_def)
qed

end
