(* ===== verification/Validation.thy ===== *)
theory Validation
  imports Poa_Checks Kernel
begin

text \<open>
  The checks of \<open>main.cpp\<close> on transactions, headers and blocks, with \<open>CValidationState\<close>, the checkpoints of
  \<open>checkpoints.cpp\<close> and \<open>IsBlockPayeeValid\<close> of \<open>masternode-payments.cpp\<close>. A check takes a validation state
  and returns its verdict with the new one.
\<close>

section \<open>Validation states\<close>

datatype mode_state = MODE_VALID | MODE_INVALID | MODE_ERROR

record CValidationState =
  mode :: mode_state
  nDoS :: int
  strRejectReason :: string
  chRejectCode :: byte
  corruptionPossible :: bool

definition NewState :: CValidationState where
  "NewState = \<lparr>mode = MODE_VALID, nDoS = 0, strRejectReason = [], chRejectCode = 0, corruptionPossible = False\<rparr>"

definition StateDoS :: "int \<Rightarrow> byte \<Rightarrow> string \<Rightarrow> bool \<Rightarrow> CValidationState \<Rightarrow> CValidationState" where
  "StateDoS level code reason corruption v =
     (let v = v\<lparr>chRejectCode := code, strRejectReason := reason, corruptionPossible := corruption\<rparr>
      in if mode v = MODE_ERROR then v else v\<lparr>nDoS := nDoS v + level, mode := MODE_INVALID\<rparr>)"

definition StateInvalid :: "byte \<Rightarrow> string \<Rightarrow> CValidationState \<Rightarrow> CValidationState" where
  "StateInvalid code reason = StateDoS 0 code reason False"

definition StateError :: "string \<Rightarrow> CValidationState \<Rightarrow> CValidationState" where
  "StateError reason v = (if mode v = MODE_VALID then v\<lparr>strRejectReason := reason\<rparr> else v)\<lparr>mode := MODE_ERROR\<rparr>"

abbreviation (input) REJECT_INVALID :: byte where "REJECT_INVALID \<equiv> 0x10"
abbreviation (input) REJECT_OBSOLETE :: byte where "REJECT_OBSOLETE \<equiv> 0x11"
abbreviation (input) REJECT_CHECKPOINT :: byte where "REJECT_CHECKPOINT \<equiv> 0x43"

type_synonym 's check = "CValidationState \<Rightarrow> ('s, bool \<times> CValidationState) step"

definition accept :: "'s check" where
  "accept v = ret (True, v)"

definition reject :: "int \<Rightarrow> byte \<Rightarrow> string \<Rightarrow> bool \<Rightarrow> 's check" where
  "reject level code reason corruption v = ret (False, StateDoS level code reason corruption v)"

section \<open>Transactions\<close>

abbreviation (input) MAX_BLOCK_SIZE_CURRENT :: nat where "MAX_BLOCK_SIZE_CURRENT \<equiv> 2000000"
abbreviation (input) MAX_BLOCK_SIGOPS_LEGACY :: nat where "MAX_BLOCK_SIGOPS_LEGACY \<equiv> 1000000 div 50"
abbreviation (input) MAX_STANDARD_TX_SIZE :: nat where "MAX_STANDARD_TX_SIZE \<equiv> 100000"
abbreviation (input) LOCKTIME_THRESHOLD :: int where "LOCKTIME_THRESHOLD \<equiv> 500000000"

fun check_outputs :: "CChainParams \<Rightarrow> CTransaction \<Rightarrow> CTxOut list \<Rightarrow> 's check" where
  "check_outputs P tx [] v = accept v"
| "check_outputs P tx (out # outs) v =
     (if TxOutIsEmpty out \<and> \<not> IsCoinBase tx \<and> \<not> IsCoinStake tx then reject 100 0 [] False v
      else if nValue out < 0 then reject 100 REJECT_INVALID ''bad-txns-vout-negative'' False v
      else if nValue out > nMaxMoneyOut P then reject 100 REJECT_INVALID ''bad-txns-vout-toolarge'' False v
      else check_outputs P tx outs v)"

definition CheckTransaction :: "CChainParams \<Rightarrow> CTransaction \<Rightarrow> 's check" where
  "CheckTransaction P tx v =
     (if vin tx = [] then reject 10 REJECT_INVALID ''bad-txns-vin-empty'' False v
      else if vout tx = [] then reject 10 REJECT_INVALID ''bad-txns-vout-empty'' False v
      else if length (write_CTransaction tx) > MAX_STANDARD_TX_SIZE then reject 100 REJECT_INVALID ''bad-txns-oversize'' False v
      else bind (check_outputs P tx (vout tx) v) (\<lambda>(ok, v).
        if \<not> ok then ret (False, v)
        else if IsCoinBase tx \<and> (length (scriptSig (vin tx ! 0)) < 2 \<or> length (scriptSig (vin tx ! 0)) > 150)
        then reject 100 REJECT_INVALID ''bad-cb-length'' False v
        else accept v))"

definition IsFinalTx :: "int \<Rightarrow> CChain \<Rightarrow> CTransaction \<Rightarrow> int \<Rightarrow> int \<Rightarrow> bool" where
  "IsFinalTx adjustedTime chain tx nBlockHeight nBlockTime =
     (if nLockTime tx = 0 then True
      else let nBlockHeight = (if nBlockHeight = 0 then Height chain else nBlockHeight);
               nBlockTime = (if nBlockTime = 0 then adjustedTime else nBlockTime) in
        if uint (nLockTime tx) < (if uint (nLockTime tx) < LOCKTIME_THRESHOLD then nBlockHeight else nBlockTime) then True
        else list_all TxInIsFinal (vin tx))"

definition GetLegacySigOpCount :: "CTransaction \<Rightarrow> nat" where
  "GetLegacySigOpCount tx = sum_list (map (\<lambda>i. GetSigOpCount (scriptSig i) False) (vin tx))
     + sum_list (map (\<lambda>out. GetSigOpCount (scriptPubKey out) False) (vout tx))"

text \<open>The search for a key image that appears twice; \<open>set\<close> holds the images seen, up to \<open>operator<\<close>.\<close>

fun key_image_loop :: "CPubKey list \<Rightarrow> CTxIn list \<Rightarrow> bool" where
  "key_image_loop keyimages [] = False"
| "key_image_loop keyimages (txin # txins) =
     (if \<not> PubKeyIsValid (keyImage txin) then key_image_loop keyimages txins
      else if list_ex (PubKeyEq (keyImage txin)) keyimages then True
      else key_image_loop (keyImage txin # keyimages) txins)"

section \<open>Checkpoints\<close>

record block_env = kernel_env +
  AdjustedTime :: int
  InitialBlockDownload :: bool
  PayeeValid :: "CTransaction \<Rightarrow> int \<Rightarrow> bool"
  ShnorrKeyImageValid :: "CTransaction \<Rightarrow> bool"
  CreateCommitmentWithZeroBlind :: "CAmount \<Rightarrow> bytes"
  checkpoints_enabled :: bool
  checkpoints :: "(int \<times> uint256) list"
  maxReorg :: int
  WorkFarApart :: "u32 \<Rightarrow> u32 \<Rightarrow> bool"

definition CheckpointsCheckBlock :: "'e block_env_scheme \<Rightarrow> int \<Rightarrow> uint256 \<Rightarrow> bool \<Rightarrow> bool" where
  "CheckpointsCheckBlock E height hash fMatchesCheckpoint =
     (if \<not> checkpoints_enabled E then True
      else case map_of (checkpoints E) height of
        None \<Rightarrow> \<not> fMatchesCheckpoint
      | Some h \<Rightarrow> hash = h)"

definition GetTotalBlocksEstimate :: "'e block_env_scheme \<Rightarrow> int" where
  "GetTotalBlocksEstimate E = (if \<not> checkpoints_enabled E then 0 else fst (last (checkpoints E)))"

fun last_checkpoint_loop :: "(uint256 \<rightharpoonup> ptr option) \<Rightarrow> (int \<times> uint256) list \<Rightarrow> ptr option" where
  "last_checkpoint_loop m [] = None"
| "last_checkpoint_loop m (i # is) = (case m (snd i) of Some p \<Rightarrow> p | None \<Rightarrow> last_checkpoint_loop m is)"

definition GetLastCheckpoint :: "'e block_env_scheme \<Rightarrow> 'b node_scheme \<Rightarrow> ptr option" where
  "GetLastCheckpoint E s =
     (if \<not> checkpoints_enabled E then None else last_checkpoint_loop (mapBlockIndex s) (rev (checkpoints E)))"

section \<open>Headers\<close>

definition CheckBlockHeader :: "'e block_env_scheme \<Rightarrow> 'a CBlockHeader_scheme \<Rightarrow> bool \<Rightarrow> 'b node_scheme check" where
  "CheckBlockHeader E block fCheckPOW v = (\<lambda>s.
     if fCheckPOW \<and> \<not> CheckProofOfWork (Params E) (BlockHash E block) (nBits block)
     then reject 50 REJECT_INVALID ''high-hash'' False v s
     else if IsPoABlockByVersion block \<and> \<not> CheckPoABlockMinedHash (Params E) s block
     then reject 50 REJECT_INVALID ''high-hash'' False v s
     else if IsPoABlockByVersion block then
       bind (CheckPrevPoABlockHash E block) (\<lambda>ok.
         if \<not> ok then reject 50 REJECT_INVALID ''high-hash'' False v else accept v) s
     else accept v s)"

definition ContextualCheckBlockHeader ::
  "'e block_env_scheme \<Rightarrow> 'a CBlockHeader_scheme \<Rightarrow> ptr option \<Rightarrow> 'b node_scheme check" where
  "ContextualCheckBlockHeader E block pindexPrev v = (\<lambda>s.
     let hash = BlockHash E block; P = Params E in
     if hash = hashGenesisBlock P then accept v s
     else case pindexPrev of
       None \<Rightarrow> fail AssertionFailed s
     | Some prev \<Rightarrow>
         (let height = nHeight (heap s prev) + 1;
              majority = (\<lambda>version. IsSuperMajority (nToCheckBlockUpgradeMajority P) (heap s) version pindexPrev
                            (nRejectBlockOutdatedMajority P)) in
          if Height (chainActive s) - height \<ge> maxReorg E then reject 1 0 [] False v s
          else if \<not> IsPoABlockByVersion block \<and> HeaderGetBlockTime block \<le> GetMedianTimePast (heap s) prev
          then ret (False, StateInvalid REJECT_INVALID ''time-too-old'' v) s
          else if \<not> CheckpointsCheckBlock E height hash False
          then reject 100 REJECT_CHECKPOINT ''checkpoint mismatch'' False v s
          else if (case GetLastCheckpoint E s of None \<Rightarrow> False | Some c \<Rightarrow> height < nHeight (heap s c))
          then reject 0 0 [] False v s
          else if nVersion block < 2 \<and> majority 2 then ret (False, StateInvalid REJECT_OBSOLETE ''bad-version'' v) s
          else if nVersion block < 3 \<and> majority 3 then ret (False, StateInvalid REJECT_OBSOLETE ''bad-version'' v) s
          else accept v s))"

section \<open>Blocks\<close>

definition VerifyZeroBlindCommitment :: "'e block_env_scheme \<Rightarrow> CTxOut \<Rightarrow> bool" where
  "VerifyZeroBlindCommitment E out =
     (if nValue out = 0 then True else CreateCommitmentWithZeroBlind E (nValue out) = commitment out)"

text \<open>The payee of a synced node is looked at, but the answer is not used.\<close>

definition IsBlockPayeeValid :: "'e block_env_scheme \<Rightarrow> CBlock \<Rightarrow> int \<Rightarrow> ('s, bool) step" where
  "IsBlockPayeeValid E block nBlockHeight =
     (if \<not> masternode_synced E then ret True
      else bind (item (vtx block) (if nBlockHeight > nLastPOWBlock (Params E) then 1 else 0)) (\<lambda>txNew.
        if PayeeValid E txNew nBlockHeight then ret True else ret True))"

definition check_stake_block :: "'e block_env_scheme \<Rightarrow> CBlock \<Rightarrow> 's check" where
  "check_stake_block E block v =
     bind (item (vtx block) 0) (\<lambda>coinbase.
     if length (vout coinbase) \<noteq> 1 \<or> \<not> TxOutIsEmpty (vout coinbase ! 0) then reject 100 0 [] False v
     else bind (item (vtx block) 1) (\<lambda>coinstake.
     if \<not> IsCoinStake coinstake then reject 100 0 [] False v
     else if list_ex IsCoinStake (drop 2 (vtx block)) then reject 100 0 [] False v
     else if \<not> ShnorrKeyImageValid E coinstake then reject 100 0 [] False v
     else if \<not> list_all (VerifyZeroBlindCommitment E) (drop 1 (vout coinstake)) then reject 100 0 [] False v
     else accept v))"

definition check_first_output :: "'e block_env_scheme \<Rightarrow> CBlock \<Rightarrow> 's check" where
  "check_first_output E block v =
     bind (item (vtx block) 0) (\<lambda>tx. bind (item (vout tx) 0) (\<lambda>out.
       if \<not> VerifyZeroBlindCommitment E out then reject 100 0 [] False v else accept v))"

definition check_payee :: "'e block_env_scheme \<Rightarrow> CBlock \<Rightarrow> 'b node_scheme check" where
  "check_payee E block v = (\<lambda>s. case Tip (chainActive s) of
     None \<Rightarrow> accept v s
   | Some tip \<Rightarrow>
       (let height = height_after s (hashPrevBlock block) tip in
        if height \<noteq> 0 \<and> \<not> InitialBlockDownload E
        then bind (IsBlockPayeeValid E block height) (\<lambda>ok.
               if \<not> ok then reject 0 REJECT_INVALID ''bad-cb-payee'' False v else accept v) s
        else accept v s))"

definition andAlso :: "'s check \<Rightarrow> 's check \<Rightarrow> 's check" where
  "andAlso a b v = bind (a v) (\<lambda>(ok, v). if \<not> ok then ret (False, v) else b v)"

definition must :: "bool \<Rightarrow> 's check \<Rightarrow> 's check" where
  "must c r v = (if c then accept v else r v)"

text \<open>A failed header check adds its own penalty to that of the header.\<close>

definition header_part :: "'e block_env_scheme \<Rightarrow> CBlock \<Rightarrow> 'b node_scheme check" where
  "header_part E block v =
     bind (CheckBlockHeader E block (IsProofOfWork block) v) (\<lambda>(ok, v).
       if \<not> ok then reject 100 REJECT_INVALID ''bad-header'' True v else accept v)"

definition merkle_part :: "'e block_env_scheme \<Rightarrow> CBlock \<Rightarrow> 's check" where
  "merkle_part E block v =
     (case BuildMerkleTree (HashFn E) block of (_, root, mutated) \<Rightarrow>
        if hashMerkleRoot block \<noteq> root then reject 100 REJECT_INVALID ''bad-txnmrklroot'' True v
        else if mutated then reject 100 REJECT_INVALID ''bad-txns-duplicate'' True v
        else accept v)"

definition poa_merkle_part :: "'e block_env_scheme \<Rightarrow> CBlock \<Rightarrow> 's check" where
  "poa_merkle_part E block v =
     (case CheckPoAMerkleRoot (HashFn E) block of (ok, mutated) \<Rightarrow>
        if \<not> ok then reject 100 REJECT_INVALID ''bad-txnmrklroot'' True v
        else if mutated then reject 100 REJECT_INVALID ''bad-txns-duplicate'' True v
        else accept v)"

definition too_new :: "'e block_env_scheme \<Rightarrow> CBlock \<Rightarrow> bool" where
  "too_new E block \<longleftrightarrow> \<not> IsPoABlockByVersion block
     \<and> HeaderGetBlockTime block > AdjustedTime E + (if IsProofOfStake block then 180 else 7200)"

definition too_early :: "'e block_env_scheme \<Rightarrow> CBlock \<Rightarrow> 'b node_scheme check" where
  "too_early E block v = (\<lambda>s.
     if IsProofOfAudit block then
       bind (deref (Tip (chainActive s))) (\<lambda>tip s.
         if nHeight (heap s tip) < nStartPOABlock (Params E) then reject 100 0 [] False v s else accept v s) s
     else accept v s)"

text \<open>Two of the flags are not used: the proof of work is always checked, the signature of the block elsewhere.\<close>

definition CheckBlock ::
  "'e block_env_scheme \<Rightarrow> CBlock \<Rightarrow> bool \<Rightarrow> bool \<Rightarrow> bool \<Rightarrow> 'b node_scheme check" where
  "CheckBlock E block fCheckPOW fCheckMerkleRoot fCheckSig =
     andAlso (header_part E block)
    (andAlso (must (\<not> too_new E block) (\<lambda>v. ret (False, StateInvalid REJECT_INVALID ''time-too-new'' v)))
    (andAlso (must (\<not> key_image_loop [] (concat (map vin (vtx block)))) (reject 100 REJECT_INVALID ''bad-txns-inputs-duplicate'' False))
    (andAlso (if fCheckMerkleRoot then merkle_part E block else accept)
    (andAlso (poa_merkle_part E block)
    (andAlso (must (\<not> (vtx block = [] \<or> length (vtx block) > MAX_BLOCK_SIZE_CURRENT
                   \<or> length (write_CBlock block) > MAX_BLOCK_SIZE_CURRENT)) (reject 100 REJECT_INVALID ''bad-blk-length'' False))
    (andAlso (must (\<not> (\<not> IsPoABlockByVersion block \<and> (vtx block = [] \<or> \<not> IsCoinBase (vtx block ! 0))))
             (reject 100 REJECT_INVALID ''bad-cb-missing'' False))
    (andAlso (must (\<not> list_ex IsCoinBase (drop 1 (vtx block))) (reject 100 REJECT_INVALID ''bad-cb-multiple'' False))
    (andAlso (if IsProofOfStake block then check_stake_block E block else accept)
    (andAlso (if IsProofOfAudit block \<or> IsProofOfWork block then check_first_output E block else accept)
    (andAlso (too_early E block)
    (andAlso (check_payee E block)
          (must (\<not> sum_list (map GetLegacySigOpCount (vtx block)) > MAX_BLOCK_SIGOPS_LEGACY)
             (reject 100 REJECT_INVALID ''bad-blk-sigops'' True)))))))))))))"

definition ContextualCheckBlock :: "'e block_env_scheme \<Rightarrow> CBlock \<Rightarrow> ptr option \<Rightarrow> 'b node_scheme check" where
  "ContextualCheckBlock E block pindexPrev v = (\<lambda>s.
     let height = (case pindexPrev of None \<Rightarrow> 0 | Some p \<Rightarrow> nHeight (heap s p) + 1); P = Params E in
     if list_ex (\<lambda>tx. \<not> IsProofOfAudit block
          \<and> \<not> IsFinalTx (AdjustedTime E) (chainActive s) tx height (HeaderGetBlockTime block)) (vtx block)
     then reject 10 REJECT_INVALID ''bad-txns-nonfinal'' False v s
     else if \<not> IsProofOfAudit block \<and> nVersion block \<ge> 2
          \<and> IsSuperMajority (nToCheckBlockUpgradeMajority P) (heap s) 2 pindexPrev (nEnforceBlockUpgradeMajority P)
     then (let expect = push_int64 height in
           bind (item (vtx block) 0) (\<lambda>tx. bind (item (vin tx) 0) (\<lambda>txin.
             if length (scriptSig txin) < length expect \<or> take (length expect) (scriptSig txin) \<noteq> expect
             then reject 100 REJECT_INVALID ''bad-cb-height'' False v else accept v)) s)
     else accept v s)"


section \<open>What an accepted block satisfies\<close>

lemma accept_True: "accept v s = Inr ((b, v'), s') \<longleftrightarrow> b \<and> v' = v \<and> s' = s"
  by (auto simp: accept_def)

lemma reject_True: "\<not> reject level code reason c v s = Inr ((True, v'), s')"
  by (simp add: reject_def)

lemma must_True: "must c (reject level code reason corruption) v s = Inr ((True, v'), s') \<longleftrightarrow> c \<and> v' = v \<and> s' = s"
  "must c (\<lambda>v. ret (False, f v)) v s = Inr ((True, v'), s') \<longleftrightarrow> c \<and> v' = v \<and> s' = s"
  by (auto simp: must_def accept_def reject_def)

lemma andAlso_True: "andAlso a b v s = Inr ((True, v'), s') \<longleftrightarrow>
    (\<exists>v1 s1. a v s = Inr ((True, v1), s1) \<and> b v1 s1 = Inr ((True, v'), s'))"
  by (auto simp: andAlso_def bind_Inr split: if_splits prod.splits)

lemmas check_True = accept_True reject_True must_True andAlso_True

lemma poa_back_state: "CheckPrevPoABlockHash E block s = Inr (ok, s') \<Longrightarrow> map_grows s s'"
proof -
  have "ends_in map_grows s (CheckPrevPoABlockHash E block s)"
    unfolding CheckPrevPoABlockHash_def by (intro grows.frame_rules block_at_ends)
  then show "CheckPrevPoABlockHash E block s = Inr (ok, s') \<Longrightarrow> map_grows s s'" by (rule ends_inD)
qed

lemma CheckBlockHeader_accepts:
  assumes "CheckBlockHeader E block pow v s = Inr ((True, v'), s')"
  shows "v' = v \<and> map_grows s s' \<and> (pow \<longrightarrow> CheckProofOfWork (Params E) (BlockHash E block) (nBits block))
    \<and> (IsPoABlockByVersion block \<longrightarrow> CheckPoABlockMinedHash (Params E) s block \<and> CheckPrevPoABlockHash E block s = Inr (True, s'))"
proof -
  have ok: "pow \<longrightarrow> CheckProofOfWork (Params E) (BlockHash E block) (nBits block)"
    "IsPoABlockByVersion block \<longrightarrow> CheckPoABlockMinedHash (Params E) s block"
    using assms by (auto simp: CheckBlockHeader_def reject_True split: if_splits)
  show ?thesis
  proof (cases "IsPoABlockByVersion block")
    case True
    then have "CheckPrevPoABlockHash E block s = Inr (True, s')" "v' = v"
      using assms ok by (auto simp: CheckBlockHeader_def bind_Inr reject_True accept_True split: if_splits)
    then show ?thesis using ok poa_back_state by blast
  next
    case False
    then show ?thesis using assms ok by (auto simp: CheckBlockHeader_def accept_True reject_True split: if_splits)
  qed
qed

lemma header_part_accepts:
  "header_part E block v s = Inr ((True, v'), s') \<Longrightarrow>
   CheckBlockHeader E block (IsProofOfWork block) v s = Inr ((True, v), s') \<and> v' = v"
  by (auto simp: header_part_def bind_Inr reject_True accept_True split: if_splits dest: CheckBlockHeader_accepts)

lemma merkle_part_accepts:
  "merkle_part E block v s = Inr ((True, v'), s') \<longleftrightarrow>
   fst (snd (BuildMerkleTree (HashFn E) block)) = hashMerkleRoot block \<and> \<not> snd (snd (BuildMerkleTree (HashFn E) block))
     \<and> v' = v \<and> s' = s"
  by (auto simp: merkle_part_def check_True split: prod.split)

lemma poa_merkle_part_accepts:
  "poa_merkle_part E block v s = Inr ((True, v'), s') \<longleftrightarrow>
   fst (snd (BuildPoAMerkleTree (HashFn E) block)) = hashPoAMerkleRoot block \<and> \<not> snd (snd (BuildPoAMerkleTree (HashFn E) block))
     \<and> v' = v \<and> s' = s"
  by (auto simp: poa_merkle_part_def CheckPoAMerkleRoot_def check_True split: prod.split)

text \<open>Key images that are valid and pairwise different, as sets ordered by \<open>operator<\<close> tell them apart.\<close>

fun distinct_images :: "CTxIn list \<Rightarrow> bool" where
  "distinct_images [] = True"
| "distinct_images (txin # txins) =
     ((PubKeyIsValid (keyImage txin) \<longrightarrow>
        \<not> list_ex (\<lambda>t. PubKeyIsValid (keyImage t) \<and> PubKeyEq (keyImage t) (keyImage txin)) txins) \<and> distinct_images txins)"

lemma key_image_loop_seen:
  "\<not> key_image_loop seen txins \<longleftrightarrow> distinct_images txins
     \<and> list_all (\<lambda>t. PubKeyIsValid (keyImage t) \<longrightarrow> \<not> list_ex (PubKeyEq (keyImage t)) seen) txins"
proof (induction seen txins rule: key_image_loop.induct)
  case (2 seen txin txins)
  then show ?case by (auto simp: list_all_iff list_ex_iff)
qed simp

lemma key_image_loop_distinct: "\<not> key_image_loop [] txins \<longleftrightarrow> distinct_images txins"
  by (simp add: key_image_loop_seen list_all_iff)

lemma check_stake_block_accepts:
  "check_stake_block E block v s = Inr ((True, v'), s') \<Longrightarrow>
   v' = v \<and> s' = s \<and> length (vtx block) > 1 \<and> IsCoinStake (vtx block ! 1) \<and> \<not> list_ex IsCoinStake (drop 2 (vtx block))
     \<and> ShnorrKeyImageValid E (vtx block ! 1)
     \<and> length (vout (vtx block ! 0)) = 1 \<and> TxOutIsEmpty (vout (vtx block ! 0) ! 0)
     \<and> list_all (VerifyZeroBlindCommitment E) (drop 1 (vout (vtx block ! 1)))"
  by (auto simp: check_stake_block_def bind_Inr item_Inr check_True split: if_splits)

lemma check_first_output_accepts:
  "check_first_output E block v s = Inr ((True, v'), s') \<Longrightarrow>
   v' = v \<and> s' = s \<and> vtx block \<noteq> [] \<and> vout (vtx block ! 0) \<noteq> [] \<and> VerifyZeroBlindCommitment E (vout (vtx block ! 0) ! 0)"
  by (auto simp: check_first_output_def bind_Inr item_Inr check_True split: if_splits)

lemma too_early_accepts:
  "too_early E block v s = Inr ((True, v'), s') \<Longrightarrow> v' = v \<and> s' = s \<and> (IsProofOfAudit block \<longrightarrow>
     (\<exists>tip. Tip (chainActive s) = Some tip \<and> nHeight (heap s tip) \<ge> nStartPOABlock (Params E)))"
  by (cases "IsProofOfAudit block") (auto simp: too_early_def bind_Inr deref_Inr check_True split: if_splits)

lemma check_payee_accepts: "check_payee E block v s = Inr ((True, v'), s') \<Longrightarrow> v' = v \<and> s' = s"
  by (auto simp: check_payee_def bind_Inr check_True IsBlockPayeeValid_def item_Inr Let_def split: if_splits option.splits)

lemma optional_part:
  assumes "(if c then part else accept) v s = Inr ((True, v'), s')"
    and "part v s = Inr ((True, v'), s') \<Longrightarrow> v' = v \<and> s' = s"
  shows "v' = v \<and> s' = s"
  using assms by (cases c) (simp_all add: accept_True)

lemma CheckBlock_accepts:
  assumes "CheckBlock E block pow True sig v s = Inr ((True, v'), s')"
  shows "v' = v \<and> CheckBlockHeader E block (IsProofOfWork block) v s = Inr ((True, v), s') \<and> \<not> too_new E block
    \<and> \<not> key_image_loop [] (concat (map vin (vtx block)))
    \<and> fst (snd (BuildMerkleTree (HashFn E) block)) = hashMerkleRoot block \<and> \<not> snd (snd (BuildMerkleTree (HashFn E) block))
    \<and> fst (snd (BuildPoAMerkleTree (HashFn E) block)) = hashPoAMerkleRoot block
    \<and> \<not> snd (snd (BuildPoAMerkleTree (HashFn E) block))
    \<and> vtx block \<noteq> [] \<and> length (write_CBlock block) \<le> MAX_BLOCK_SIZE_CURRENT
    \<and> (\<not> IsPoABlockByVersion block \<longrightarrow> IsCoinBase (vtx block ! 0)) \<and> \<not> list_ex IsCoinBase (drop 1 (vtx block))
    \<and> (IsProofOfStake block \<longrightarrow> check_stake_block E block v s' = Inr ((True, v), s'))
    \<and> sum_list (map GetLegacySigOpCount (vtx block)) \<le> MAX_BLOCK_SIGOPS_LEGACY"
proof -
  obtain s1 v1 where h: "header_part E block v s = Inr ((True, v1), s1)" using assms by (auto simp: CheckBlock_def andAlso_True)
  then have v1: "v1 = v" using header_part_accepts by blast
  note rest = assms [unfolded CheckBlock_def andAlso_True must_True merkle_part_accepts poa_merkle_part_accepts]
  obtain v2 s2 v3 s3 v4 s4 v5 s5 where c:
    "\<not> too_new E block" "\<not> key_image_loop [] (concat (map vin (vtx block)))"
    "fst (snd (BuildMerkleTree (HashFn E) block)) = hashMerkleRoot block" "\<not> snd (snd (BuildMerkleTree (HashFn E) block))"
    "fst (snd (BuildPoAMerkleTree (HashFn E) block)) = hashPoAMerkleRoot block"
    "\<not> snd (snd (BuildPoAMerkleTree (HashFn E) block))"
    "vtx block \<noteq> []" "length (write_CBlock block) \<le> MAX_BLOCK_SIZE_CURRENT"
    "\<not> IsPoABlockByVersion block \<longrightarrow> IsCoinBase (vtx block ! 0)" "\<not> list_ex IsCoinBase (drop 1 (vtx block))"
    and d: "(if IsProofOfStake block then check_stake_block E block else accept) v s1 = Inr ((True, v2), s2)"
    "(if IsProofOfAudit block \<or> IsProofOfWork block then check_first_output E block else accept) v2 s2 = Inr ((True, v3), s3)"
    "too_early E block v3 s3 = Inr ((True, v4), s4)" "check_payee E block v4 s4 = Inr ((True, v5), s5)"
    and e: "sum_list (map GetLegacySigOpCount (vtx block)) \<le> MAX_BLOCK_SIGOPS_LEGACY" "v' = v5" "s' = s5"
    using rest h v1 by (auto simp: merkle_part_accepts)
  have k2: "v2 = v \<and> s2 = s1" by (rule optional_part [OF d(1)]) (auto dest: check_stake_block_accepts)
  have k3: "v3 = v2 \<and> s3 = s2" by (rule optional_part [OF d(2)]) (auto dest: check_first_output_accepts)
  have k: "v2 = v" "s2 = s1" "v3 = v" "s3 = s1" "v4 = v" "s4 = s1" "v5 = v" "s5 = s1"
    using k2 k3 too_early_accepts [OF d(3)] check_payee_accepts [OF d(4)] by simp_all
  have "IsProofOfStake block \<longrightarrow> check_stake_block E block v s' = Inr ((True, v), s')"
  proof (rule impI)
    assume "IsProofOfStake block"
    with d(1) k e(3) show "check_stake_block E block v s' = Inr ((True, v), s')" by simp
  qed
  then show ?thesis using c e k header_part_accepts [OF h] by blast
qed


text \<open>The checks of a block change the map of blocks at most by \<open>NULL\<close> entered for unknown hashes.\<close>

lemma check_grows:
  "ends_in map_grows s (accept v s)"
  "ends_in map_grows s (reject level code reason corruption v s)"
  "(\<And>v s. ends_in map_grows s (a v s)) \<Longrightarrow> (\<And>v s. ends_in map_grows s (b v s)) \<Longrightarrow>
     ends_in map_grows s (andAlso a b v s)"
  "ends_in map_grows s (must c (reject level code reason corruption) v s)"
  "ends_in map_grows s (must c (\<lambda>v. ret (False, f v)) v s)"
  "(\<And>v s. ends_in map_grows s (a v s)) \<Longrightarrow> ends_in map_grows s ((if c then a else accept) v s)"
  unfolding accept_def reject_def andAlso_def must_def
  by (intro grows.frame_rules | simp add: grows.frame_rules grows.error ends_in_def)+

lemma block_part_grows:
  "ends_in map_grows s (header_part E block v s)"
  "ends_in map_grows s (merkle_part E block v s)"
  "ends_in map_grows s (poa_merkle_part E block v s)"
  "ends_in map_grows s (check_stake_block E block v s)"
  "ends_in map_grows s (check_first_output E block v s)"
  "ends_in map_grows s (too_early E block v s)"
  "ends_in map_grows s (check_payee E block v s)"
  unfolding header_part_def CheckBlockHeader_def merkle_part_def poa_merkle_part_def check_stake_block_def
    check_first_output_def too_early_def check_payee_def IsBlockPayeeValid_def CheckPrevPoABlockHash_def Let_def
  by (intro grows.frame_rules check_grows block_at_ends)+

lemma CheckBlock_grows: "ends_in map_grows s (CheckBlock E block pow root sig v s)"
  unfolding CheckBlock_def by (intro check_grows block_part_grows)

section \<open>Properties\<close>

text \<open>
  C37: a block that \<open>CheckBlock\<close> accepts leaves the validation state as it was and satisfies the rules: the work or the
  mined hash of its header and, for an audit block, the previous audit block; different key images; both Merkle roots,
  without duplicates; one coinbase, at the front, unless it is an audit block; at most one coinstake, in second place,
  after an empty coinbase; at most 2 MB and 20000 signature operations.
\<close>

theorem CheckBlock_sound:
  assumes "CheckBlock E block pow True sig v s = Inr ((True, v'), s')"
  shows "v' = v
    \<and> (IsProofOfWork block \<longrightarrow> CheckProofOfWork (Params E) (BlockHash E block) (nBits block))
    \<and> (IsProofOfAudit block \<longrightarrow> CheckPoABlockMinedHash (Params E) s block \<and> CheckPrevPoABlockHash E block s = Inr (True, s'))
    \<and> distinct_images (concat (map vin (vtx block)))
    \<and> fst (snd (BuildMerkleTree (HashFn E) block)) = hashMerkleRoot block \<and> \<not> snd (snd (BuildMerkleTree (HashFn E) block))
    \<and> fst (snd (BuildPoAMerkleTree (HashFn E) block)) = hashPoAMerkleRoot block
    \<and> \<not> snd (snd (BuildPoAMerkleTree (HashFn E) block))
    \<and> (\<not> IsProofOfAudit block \<longrightarrow> IsCoinBase (vtx block ! 0)) \<and> list_all (\<lambda>tx. \<not> IsCoinBase tx) (drop 1 (vtx block))
    \<and> (IsProofOfStake block \<longrightarrow> vout (vtx block ! 0) \<noteq> [] \<and> TxOutIsEmpty (vout (vtx block ! 0) ! 0)
         \<and> IsCoinStake (vtx block ! 1) \<and> list_all (\<lambda>tx. \<not> IsCoinStake tx) (drop 2 (vtx block)))
    \<and> vtx block \<noteq> [] \<and> length (write_CBlock block) \<le> 2000000
    \<and> sum_list (map GetLegacySigOpCount (vtx block)) \<le> 20000"
proof -
  note a = CheckBlock_accepts [OF assms]
  have h: "CheckBlockHeader E block (IsProofOfWork block) v s = Inr ((True, v), s')" using a by blast
  have stake: "vout (vtx block ! 0) \<noteq> [] \<and> TxOutIsEmpty (vout (vtx block ! 0) ! 0)
         \<and> IsCoinStake (vtx block ! 1) \<and> list_all (\<lambda>tx. \<not> IsCoinStake tx) (drop 2 (vtx block))" if "IsProofOfStake block"
  proof -
    have "check_stake_block E block v s' = Inr ((True, v), s')" using a \<open>IsProofOfStake block\<close> by blast
    from check_stake_block_accepts [OF this] show ?thesis by (auto simp: list_all_iff list_ex_iff)
  qed
  have ex: "\<not> list_ex IsCoinBase xs \<longleftrightarrow> list_all (\<lambda>tx. \<not> IsCoinBase tx) xs" for xs by (auto simp: list_all_iff list_ex_iff)
  have audit: "IsProofOfAudit block \<longleftrightarrow> IsPoABlockByVersion block" by (simp add: IsProofOfAudit_def)
  have sizes: "MAX_BLOCK_SIGOPS_LEGACY = 20000" by simp
  note b = a [unfolded ex key_image_loop_distinct sizes audit [symmetric]] CheckBlockHeader_accepts [OF h, unfolded audit [symmetric]]
  show ?thesis using b stake by blast
qed

text \<open>
  C38: the Merkle root of an accepted block determines its transactions: \<open>CheckBlock\<close> refuses every block with this root and another
  list of transaction hashes, as long as the two trees have the same number of levels (as those of two blocks with one number of
  transactions have) and no two of the pairs hashed for the two trees collide.
\<close>

theorem CheckBlock_refuses_altered:
  assumes "CheckBlock E a pow True sig v s = Inr ((True, va), sa)" "hashMerkleRoot b = hashMerkleRoot a"
    and "levels (length (vtx a)) = levels (length (vtx b))" "map (GetHash (HashFn E)) (vtx b) \<noteq> map (GetHash (HashFn E)) (vtx a)"
    and "collision_free (Merkle.node (HashFn E)) (map (GetHash (HashFn E)) (vtx a)) (map (GetHash (HashFn E)) (vtx b))"
  shows "CheckBlock E b pow' True sig' w t \<noteq> Inr ((True, wb), tb)"
proof
  assume "CheckBlock E b pow' True sig' w t = Inr ((True, wb), tb)"
  from CheckBlock_accepts [OF this] CheckBlock_accepts [OF assms(1)] assms(2)
  have "map (GetHash (HashFn E)) (vtx a) = map (GetHash (HashFn E)) (vtx b)" by (intro merkle_root_binds assms(3,5)) simp_all
  then show False using assms(4) by simp
qed

lemma CheckProofOfWork_zero:
  assumes "target_ok bits" "compact_value (unat bits) \<le> val (bnProofOfWorkLimit P)" "length (bnProofOfWorkLimit P) = 8"
  shows "CheckProofOfWork P uint256_0 bits"
proof -
  obtain t where "SetCompact bits = (t, False, False)" "length t = 8" "val t = compact_value (unat bits)"
    using SetCompact_target [OF assms(1)] by blast
  then show ?thesis using assms by (simp add: CheckProofOfWork_def EqualTo_0 op_less_val target_ok_def)
qed

text \<open>A proof-of-work block with an empty coinbase, on a node whose hashes are all zero.\<close>

definition demo_coinbase :: CTransaction where
  "demo_coinbase = NullTransaction\<lparr>vin := [NewTxIn NullOutPoint [] 0], vout := [NewTxOut 0 []]\<rparr>"

definition demo_work_block :: CBlock where
  "demo_work_block = NullBlock\<lparr>nBits := 0x1e0ffff0, vtx := [demo_coinbase]\<rparr>"

definition demo_block_env :: block_env where
  "demo_block_env = wallet_env.extend (demo_env\<lparr>HashFn := (\<lambda>_. uint256_0), HashQuarkFn := (\<lambda>_. uint256_0)\<rparr>)
    \<lparr>stakemodifier_literal = 0, script_env = (\<lambda>_. \<lparr>flags = 0, checkSig = (\<lambda>_ _ _. False), hRIPEMD160 = id, hSHA1 = id,
       hSHA256 = id, hHASH160 = id, hHASH256 = id\<rparr>), AdjustedTime = 0, InitialBlockDownload = False,
     PayeeValid = (\<lambda>_ _. True), ShnorrKeyImageValid = (\<lambda>_. True), CreateCommitmentWithZeroBlind = (\<lambda>_. []),
     checkpoints_enabled = True, checkpoints = mapCheckpoints, maxReorg = 100, WorkFarApart = (\<lambda>_ _. False)\<rparr>"

definition empty_node :: node where
  "empty_node = \<lparr>heap = (\<lambda>_. NullIndex), mapBlockIndex = Map.empty, chainActive = []\<rparr>"


lemma demo_block_env_fields:
  "Params demo_block_env = main_params" "HashFn demo_block_env = (\<lambda>_. uint256_0)" "HashQuarkFn demo_block_env = (\<lambda>_. uint256_0)"
  "AdjustedTime demo_block_env = 0"
  by (simp_all add: demo_block_env_def demo_env_def wallet_env.extend_def)

lemma demo_work_block_fields:
  "vtx demo_work_block = [demo_coinbase]" "hashMerkleRoot demo_work_block = uint256_0" "hashPoAMerkleRoot demo_work_block = uint256_0"
  "posBlocksAudited demo_work_block = []" "nBits demo_work_block = 0x1e0ffff0" "nVersion demo_work_block = 4"
  "IsPoABlockByVersion demo_work_block = False" "IsProofOfAudit demo_work_block = False" "IsProofOfStake demo_work_block = False"
  "IsProofOfWork demo_work_block = True" "HeaderGetBlockTime demo_work_block = 0"
  by (simp_all add: demo_work_block_def NullBlock_def NullHeader_def CBlockHeader.defs IsPoABlockByVersion_def
      IsProofOfAudit_def IsProofOfStake_def IsProofOfWork_def HasCoinStake_def POA_BLOCK_VERSION_LOW_LIMIT_def HeaderGetBlockTime_def)

lemma demo_coinbase_facts:
  "vin demo_coinbase = [NewTxIn NullOutPoint [] 0]" "vout demo_coinbase = [NewTxOut 0 []]" "IsCoinBase demo_coinbase"
  "GetLegacySigOpCount demo_coinbase = 0"
  by (simp_all add: demo_coinbase_def IsCoinBase_def NewTxIn_def NewTxOut_def GetLegacySigOpCount_def GetSigOpCount_def
      sigop_loop.simps GetOp2.simps)

lemma demo_size: "length (write_CBlock demo_work_block) \<le> 2000000"
  by (simp add: write_CBlock_def demo_work_block_fields HasCoinStake_def write_CBlockHeader_def write_vector_def
      write_CTransaction_def demo_coinbase_def NullTransaction_def NewTxIn_def NewTxOut_def write_CTxIn_def write_CTxOut_def
      write_COutPoint_def NullOutPoint_def write_bytes_def write_CPubKey_def WriteCompactSize_def PubKeySize_def GetLen_def
      InvalidPubKey_def NullMaskValue_def demo_work_block_def NullBlock_def NullHeader_def CBlockHeader.defs)


lemma demo_roots:
  assumes "GetHash H demo_coinbase = uint256_0"
  shows "fst (snd (BuildMerkleTree H demo_work_block)) = uint256_0" "\<not> snd (snd (BuildMerkleTree H demo_work_block))"
    "fst (snd (BuildPoAMerkleTree H demo_work_block)) = uint256_0" "\<not> snd (snd (BuildPoAMerkleTree H demo_work_block))"
  using assms by (simp_all add: BuildMerkleTree_def BuildPoAMerkleTree_def build_tree_def demo_work_block_fields merkle_rows.simps
      tree_root_def)

lemma demo_work_ok: "CheckProofOfWork main_params uint256_0 0x1e0ffff0"
  by (rule CheckProofOfWork_zero)
    (simp_all add: target_ok_def compact_value_def compact_number_def val_limit)

lemma demo_work_block_accepted:
  assumes E: "Params E = main_params" "BlockHash E demo_work_block = uint256_0" "AdjustedTime E = 0" "GetHash (HashFn E) demo_coinbase = uint256_0"
  shows "CheckBlock E demo_work_block pow True sig NewState empty_node = Inr ((True, NewState), empty_node)"
proof -
  have "header_part E demo_work_block NewState empty_node = Inr ((True, NewState), empty_node)"
    by (simp add: header_part_def CheckBlockHeader_def bind_app E demo_work_block_fields demo_work_ok
        accept_def)
  moreover have "\<not> too_new E demo_work_block"
    by (simp add: too_new_def E demo_work_block_fields)
  moreover have "\<not> key_image_loop [] (concat (map vin (vtx demo_work_block)))"
    by (simp add: demo_work_block_fields demo_coinbase_facts NewTxIn_def PubKeyIsValid_def PubKeySize_def GetLen_def InvalidPubKey_def)
  moreover have "merkle_part E demo_work_block NewState empty_node = Inr ((True, NewState), empty_node)"
    "poa_merkle_part E demo_work_block NewState empty_node = Inr ((True, NewState), empty_node)"
    using demo_roots [OF E(4)] by (simp_all only: merkle_part_accepts poa_merkle_part_accepts E demo_work_block_fields) simp_all
  moreover have "check_first_output E demo_work_block NewState empty_node = Inr ((True, NewState), empty_node)"
    by (simp add: check_first_output_def bind_app item_def demo_work_block_fields demo_coinbase_facts accept_def
        VerifyZeroBlindCommitment_def NewTxOut_def)
  moreover have "too_early E demo_work_block NewState empty_node = Inr ((True, NewState), empty_node)"
    "check_payee E demo_work_block NewState empty_node = Inr ((True, NewState), empty_node)"
    by (simp_all add: too_early_def check_payee_def accept_def demo_work_block_fields empty_node_def Tip_def)
  ultimately show ?thesis
    using demo_size
    by (simp add: CheckBlock_def andAlso_True must_True demo_work_block_fields demo_coinbase_facts accept_True)
qed

lemma demo_block_accepted:
  "CheckBlock demo_block_env demo_work_block pow True sig NewState empty_node = Inr ((True, NewState), empty_node)"
  by (rule demo_work_block_accepted) (simp_all add: demo_block_env_fields GetHash_def BlockHash_def HeaderGetHash_def)

theorem CheckBlock_sound_witness:
  "distinct_images (concat (map vin (vtx demo_work_block))) \<and> IsCoinBase (vtx demo_work_block ! 0)
    \<and> CheckProofOfWork (Params demo_block_env) (BlockHash demo_block_env demo_work_block) (nBits demo_work_block)"
  using CheckBlock_sound [OF demo_block_accepted [of False False]] by (simp add: demo_work_block_fields)

text \<open>The block with a coinbase that pays one, on a node whose hash function tells the two coinbases apart.\<close>

definition altered_coinbase :: CTransaction where
  "altered_coinbase = demo_coinbase\<lparr>vout := [NewTxOut 1 []]\<rparr>"

definition altered_block :: CBlock where
  "altered_block = demo_work_block\<lparr>vtx := [altered_coinbase]\<rparr>"

definition altered_env :: block_env where
  "altered_env = demo_block_env\<lparr>HashFn := (\<lambda>bs. if bs = write_CTransaction altered_coinbase then set_uint256 1 else uint256_0)\<rparr>"

lemma altered_hashes:
  "GetHash (HashFn altered_env) demo_coinbase = uint256_0" "GetHash (HashFn altered_env) altered_coinbase \<noteq> uint256_0"
  "BlockHash altered_env demo_work_block = uint256_0"
proof -
  note writers = write_CTransaction_def altered_coinbase_def demo_coinbase_def NullTransaction_def NewTxIn_def NewTxOut_def write_CTxOut_def
    write_vector_def write_word_def write_int_def
  have "le_bytes (numeral k) n = of_nat n # le_bytes (pred_numeral k) (n div 256)" for k n
    unfolding numeral_eq_Suc [of k] le_bytes.simps ..
  from this [of "Num.Bit0 (Num.Bit0 (Num.Bit0 Num.One))"] this [of "Num.Bit0 (Num.Bit0 Num.One)"]
  have le: "le_bytes 8 0 \<noteq> le_bytes 8 (Suc 0)" "le_bytes 4 4 \<noteq> le_bytes 4 (Suc 0)" by simp_all
  have "write_CTransaction demo_coinbase \<noteq> write_CTransaction altered_coinbase" using le(1) by (simp add: writers)
  moreover have "header_memory demo_work_block @ x \<noteq> write_CTransaction altered_coinbase" for x
    using le(2) by (simp add: writers header_memory_def demo_work_block_def NullBlock_def NullHeader_def CBlockHeader.defs)
  moreover have "set_uint256 1 \<noteq> uint256_0" by code_simp
  ultimately show "GetHash (HashFn altered_env) demo_coinbase = uint256_0" "GetHash (HashFn altered_env) altered_coinbase \<noteq> uint256_0"
    "BlockHash altered_env demo_work_block = uint256_0"
    by (simp_all add: GetHash_def altered_env_def BlockHash_def HeaderGetHash_def demo_block_env_fields demo_work_block_fields)
qed

theorem CheckBlock_refuses_altered_witness:
  "CheckBlock altered_env demo_work_block False True False NewState empty_node = Inr ((True, NewState), empty_node)
    \<and> (\<forall>wb tb. CheckBlock altered_env altered_block False True False NewState empty_node \<noteq> Inr ((True, wb), tb))"
proof -
  have a: "CheckBlock altered_env demo_work_block False True False NewState empty_node = Inr ((True, NewState), empty_node)"
    by (rule demo_work_block_accepted) (simp_all add: altered_hashes, simp_all add: altered_env_def demo_block_env_fields)
  have "CheckBlock altered_env altered_block False True False NewState empty_node \<noteq> Inr ((True, wb), tb)" for wb tb
    by (rule CheckBlock_refuses_altered [OF a])
      (simp_all add: altered_block_def altered_hashes demo_work_block_fields collision_free_def tree_pairs.simps)
  then show ?thesis using a by blast
qed

text \<open>
  On a synced node \<open>IsBlockPayeeValid\<close> reads the second transaction of every block above the end of the proof-of-work
  phase, also of an audit block, which has one.
\<close>

lemma audit_block_payee_out_of_range:
  assumes "masternode_synced E" "nBlockHeight > nLastPOWBlock (Params E)" "vtx block = [tx]"
  shows "IsBlockPayeeValid E block nBlockHeight s = Inl OutOfRange"
  using assms by (simp add: IsBlockPayeeValid_def bind_app item_def)

lemma payee_always_valid: "IsBlockPayeeValid E block nBlockHeight s = Inr (ok, s') \<Longrightarrow> ok"
  by (auto simp: IsBlockPayeeValid_def bind_Inr item_Inr split: if_splits)

end
