(* ===== verification/Header_Index.thy ===== *)
theory Header_Index
  imports Validation
begin

text \<open>
  How headers enter the block index: \<open>CheckWork\<close>, \<open>AddToBlockIndex\<close> and \<open>AcceptBlockHeader\<close> of \<open>main.cpp\<close>, and the
  invariant that every sequence of such calls keeps. \<open>new CBlockIndex\<close> takes the next free address.
\<close>

section \<open>The state of the index\<close>

record index_state = node +
  next_free :: ptr
  setStakeSeen :: "(COutPoint \<times> u32) set"
  mapProofOfStake :: "uint256 \<rightharpoonup> uint256"
  pindexBestHeader :: "ptr option"
  setDirtyBlockIndex :: "ptr set"

definition empty_index :: index_state where
  "empty_index = \<lparr>heap = (\<lambda>_. NullIndex), mapBlockIndex = Map.empty, chainActive = [], next_free = 0, setStakeSeen = {},
     mapProofOfStake = Map.empty, pindexBestHeader = None, setDirtyBlockIndex = {}\<rparr>"

definition CheckWork :: "'e block_env_scheme \<Rightarrow> CBlock \<Rightarrow> ptr option \<Rightarrow> ('b index_state_scheme, bool) step" where
  "CheckWork E block pindexPrev = (case pindexPrev of
     None \<Rightarrow> ret False
   | Some prev \<Rightarrow>
       bind (gets (\<lambda>s. GetNextWorkRequired (Params E) (heap s) (Some prev) block)) (\<lambda>nBitsRequired s.
         if IsProofOfWork block \<and> nHeight (heap s prev) + 1 \<le> 68589
         then ret (\<not> WorkFarApart E (nBits block) nBitsRequired) s
         else if nBits block \<noteq> nBitsRequired then ret False s
         else if IsProofOfStake block then
           bind (CheckProofOfStake E block) (\<lambda>(ok, hashProof) s.
             if \<not> ok then ret False s
             else let hash = BlockHash E block in
               ret True (if mapProofOfStake s hash = None then s\<lparr>mapProofOfStake := (mapProofOfStake s)(hash \<mapsto> hashProof)\<rparr> else s)) s
         else ret True s))"

section \<open>Adding a header\<close>

definition set_entry :: "ptr \<Rightarrow> (CBlockIndex \<Rightarrow> CBlockIndex) \<Rightarrow> ('b node_scheme, unit) step" where
  "set_entry p f = (\<lambda>s. Inr ((), s\<lparr>heap := (heap s)(p := f (heap s p))\<rparr>))"

text \<open>The new entry, in the map under its hash; a proof-of-stake entry is marked as seen.\<close>

definition new_entry :: "uint256 \<Rightarrow> CBlock \<Rightarrow> ('b index_state_scheme, ptr) step" where
  "new_entry hash block = (\<lambda>s.
     let p = next_free s; b = IndexOfBlock block in
     Inr (p, s\<lparr>heap := (heap s)(p := b\<lparr>phashBlock := hash\<rparr>), next_free := p + 1,
               mapBlockIndex := (mapBlockIndex s)(hash \<mapsto> Some p),
               setStakeSeen := (if IndexIsProofOfStake b then insert (prevoutStake b, nStakeTime b) (setStakeSeen s)
                                else setStakeSeen s)\<rparr>))"

definition proof_of_stake_at :: "uint256 \<Rightarrow> ('b index_state_scheme, uint256) step" where
  "proof_of_stake_at h = (\<lambda>s. case mapProofOfStake s h of
     Some x \<Rightarrow> Inr (x, s)
   | None \<Rightarrow> Inr (uint256_0, s\<lparr>mapProofOfStake := (mapProofOfStake s)(h \<mapsto> uint256_0)\<rparr>))"

text \<open>The place of the entry in the tree: its height and its skip pointer.\<close>

definition place_entry :: "ptr \<Rightarrow> ptr \<Rightarrow> ('b node_scheme, unit) step" where
  "place_entry p q =
     bind (\<lambda>s. set_entry p (\<lambda>b. b\<lparr>nHeight := nHeight (heap s q) + 1\<rparr>) s) (\<lambda>_ s.
     Inr ((), s\<lparr>heap := BuildSkip (heap s) p\<rparr>))"

text \<open>
  The rest of what is computed from the predecessor: the pointer to the next block, the trust and the stake fields. A
  modifier that differs from the checkpoints is only logged.
\<close>

definition stake_entry ::
  "'e block_env_scheme \<Rightarrow> uint256 \<Rightarrow> CBlock \<Rightarrow> ptr \<Rightarrow> ptr \<Rightarrow> ('b index_state_scheme, unit) step" where
  "stake_entry E hash block p q =
     bind (set_entry q (\<lambda>b. b\<lparr>pnext := Some p\<rparr>)) (\<lambda>_.
     bind (gets (\<lambda>s. lift_uint (GetBlockTrust (heap s p)))) (\<lambda>trust.
     bind (\<lambda>s. set_entry p (\<lambda>b. b\<lparr>bnChainTrust := op_add (bnChainTrust (heap s q)) trust\<rparr>) s) (\<lambda>_.
     bind (if IsPoABlockByVersion block then ret ()
           else set_entry p (\<lambda>b. snd (SetStakeEntropyBit (GetStakeEntropyBit b) b))) (\<lambda>_.
     bind (\<lambda>s. if IndexIsProofOfStake (heap s p)
               then bind (proof_of_stake_at hash) (\<lambda>x. set_entry p (\<lambda>b. b\<lparr>hashProofOfStake := x\<rparr>)) s
               else ret () s) (\<lambda>_.
     bind (if IsPoABlockByVersion block then ret (True, 0, False) else ComputeNextStakeModifier E (Some q)) (\<lambda>(_, modifier, generated).
     bind (set_entry p (SetStakeModifier modifier generated)) (\<lambda>_.
     bind (gets (\<lambda>s. GetStakeModifierChecksum E (heap s) p)) (\<lambda>checksum.
     set_entry p (\<lambda>b. b\<lparr>nStakeModifierChecksum := checksum\<rparr>)))))))))"

text \<open>The link to the predecessor, if the map has an entry for it.\<close>

definition link_entry :: "'e block_env_scheme \<Rightarrow> uint256 \<Rightarrow> CBlock \<Rightarrow> ptr \<Rightarrow> ('b index_state_scheme, unit) step" where
  "link_entry E hash block p = (\<lambda>s. case mapBlockIndex s (hashPrevBlock block) of
     None \<Rightarrow> ret () s
   | Some e \<Rightarrow>
       bind (set_entry p (\<lambda>b. b\<lparr>pprev := e\<rparr>)) (\<lambda>_.
       bind (deref e) (\<lambda>q. bind (place_entry p q) (\<lambda>_. stake_entry E hash block p q))) s)"

text \<open>The work, the best header, and the validity and the pointer back from the predecessor.\<close>

definition work_entry :: "ptr \<Rightarrow> ('b node_scheme, unit) step" where
  "work_entry p =
     bind (gets (\<lambda>s. lift_uint (GetBlockProof (heap s p)))) (\<lambda>proof s.
     set_entry p (\<lambda>b. b\<lparr>nChainWork :=
       op_add (case pprev b of None \<Rightarrow> uint256_0 | Some q \<Rightarrow> nChainWork (heap s q)) proof\<rparr>) s)"

definition best_header :: "ptr \<Rightarrow> 'b index_state_scheme \<Rightarrow> 'b index_state_scheme" where
  "best_header p s = (case pindexBestHeader s of
     None \<Rightarrow> s\<lparr>pindexBestHeader := Some p\<rparr>
   | Some best \<Rightarrow> if op_less (nChainWork (heap s best)) (nChainWork (heap s p)) then s\<lparr>pindexBestHeader := Some p\<rparr> else s)"

definition point_back :: "ptr \<Rightarrow> ('b node_scheme, unit) step" where
  "point_back p = (\<lambda>s. if nHeight (heap s p) \<noteq> 0
     then bind (deref (pprev (heap s p))) (\<lambda>q. set_entry q (\<lambda>b. b\<lparr>pnext := Some p\<rparr>)) s
     else ret () s)"

definition finish_entry :: "ptr \<Rightarrow> ('b index_state_scheme, unit) step" where
  "finish_entry p =
     bind (work_entry p) (\<lambda>_.
     bind (set_entry p (\<lambda>b. snd (RaiseValidity 2 b))) (\<lambda>_.
     bind (\<lambda>s. Inr ((), best_header p s)) (\<lambda>_.
     bind (point_back p) (\<lambda>_ s. Inr ((), s\<lparr>setDirtyBlockIndex := insert p (setDirtyBlockIndex s)\<rparr>)))))"

definition AddToBlockIndex :: "'e block_env_scheme \<Rightarrow> CBlock \<Rightarrow> ('b index_state_scheme, ptr option) step" where
  "AddToBlockIndex E block = (\<lambda>s.
     let hash = BlockHash E block in
     case mapBlockIndex s hash of
       Some p \<Rightarrow> ret p s
     | None \<Rightarrow>
         bind (new_entry hash block) (\<lambda>p.
         bind (link_entry E hash block p) (\<lambda>_.
         bind (finish_entry p) (\<lambda>_. ret (Some p)))) s)"

section \<open>Accepting a header\<close>

text \<open>
  The predecessor: \<open>Inl\<close> is the penalty and the code of a refusal. The branch of the source that reconsiders a
  predecessor listed in the checkpoints tests the entry of the block itself, which is \<open>NULL\<close> there, so it is never taken.
\<close>

definition find_prev :: "'e block_env_scheme \<Rightarrow> CBlock \<Rightarrow> ('b node_scheme, (int \<times> byte) + ptr) step" where
  "find_prev E block = (\<lambda>s.
     if BlockHash E block = hashGenesisBlock (Params E) then ret (Inl (0, 0)) s
     else case mapBlockIndex s (hashPrevBlock block) of
       None \<Rightarrow> ret (Inl (0, 0)) s
     | Some e \<Rightarrow> bind (deref e) (\<lambda>prev s.
         ret (if nStatus (heap s prev) AND BLOCK_FAILED_MASK \<noteq> 0 then Inl (100, REJECT_INVALID) else Inr prev) s) s)"

definition AcceptBlockHeader ::
  "'e block_env_scheme \<Rightarrow> CBlock \<Rightarrow> CValidationState \<Rightarrow> ('b index_state_scheme, (bool \<times> CValidationState) \<times> ptr option) step" where
  "AcceptBlockHeader E block v = (\<lambda>s.
     let hash = BlockHash E block in
     case mapBlockIndex s hash of
       Some None \<Rightarrow> Inr (((False, StateInvalid 0 ''not-found'' v), None), s\<lparr>mapBlockIndex := (mapBlockIndex s)(hash := None)\<rparr>)
     | Some (Some p) \<Rightarrow>
         ret (if nStatus (heap s p) AND BLOCK_FAILED_MASK \<noteq> 0 then (False, StateInvalid 0 ''duplicate'' v) else (True, v), Some p) s
     | None \<Rightarrow>
         bind (CheckBlockHeader E block False v) (\<lambda>(ok, v).
         if \<not> ok then ret ((False, v), None)
         else bind (find_prev E block) (\<lambda>found. case found of
             Inl (level, code) \<Rightarrow> ret ((False, StateDoS level code ''bad-prevblk'' False v), None)
           | Inr prev \<Rightarrow>
               bind (ContextualCheckBlockHeader E block (Some prev) v) (\<lambda>(ok, v).
                 if \<not> ok then ret ((False, v), None)
                 else bind (AddToBlockIndex E block) (\<lambda>p. ret ((True, v), p))))) s)"

end
