(* ===== verification/Index_Invariant.thy ===== *)
theory Index_Invariant
  imports Header_Index
begin

text \<open>
  The invariant of the block index: the map names exactly the entries made, the entries form a tree with skip
  pointers, the work of an entry is that of its chain, the best header has the most work, and the active chain is
  the chain of one entry. Every operation on headers keeps it.
\<close>

section \<open>What leaves the tree as it is\<close>

text \<open>
  The fields of an entry that place it in the tree and name its block; and states that agree but for the place of the
  entries in \<open>C\<close> and the work of those in \<open>X\<close>.
\<close>

definition core :: "CBlockIndex \<Rightarrow> uint256 \<times> ptr option \<times> int \<times> ptr option \<times> u32" where
  "core b = (phashBlock b, pprev b, nHeight b, pskip b, bBits b)"

definition index_frame :: "ptr set \<Rightarrow> ptr set \<Rightarrow> 'b index_state_scheme \<Rightarrow> 'b index_state_scheme \<Rightarrow> bool" where
  "index_frame C X s s' \<longleftrightarrow> next_free s' = next_free s \<and> chainActive s' = chainActive s
     \<and> pindexBestHeader s' = pindexBestHeader s
     \<and> (\<forall>p. phashBlock (heap s' p) = phashBlock (heap s p) \<and> bBits (heap s' p) = bBits (heap s p))
     \<and> (\<forall>p. p \<notin> C \<longrightarrow> core (heap s' p) = core (heap s p)) \<and> (\<forall>p. p \<notin> X \<longrightarrow> nChainWork (heap s' p) = nChainWork (heap s p))
     \<and> (\<forall>h q. mapBlockIndex s' h = Some (Some q) \<longleftrightarrow> mapBlockIndex s h = Some (Some q))"

lemma index_frame_refl: "index_frame C X s s"
  by (simp add: index_frame_def)

lemma index_frame_trans: "index_frame C X s s' \<Longrightarrow> index_frame C X s' s'' \<Longrightarrow> index_frame C X s s''"
  by (simp add: index_frame_def)

interpretation tree: step_frame "index_frame C X" for C X :: "ptr set"
  by unfold_locales (simp_all add: index_frame_refl, blast intro: index_frame_trans)

lemma map_grows_index_frame: "map_grows s s' \<Longrightarrow> index_frame C X s s'"
proof -
  assume g: "map_grows s s'"
  then obtain m where m: "s' = s\<lparr>mapBlockIndex := m\<rparr>" using map_grows_facts(3) by blast
  have "mapBlockIndex s' h = Some (Some q) \<longleftrightarrow> mapBlockIndex s h = Some (Some q)" for h q
    using map_grows_facts(4,6) [OF g] by blast
  then show ?thesis unfolding index_frame_def by (simp add: m core_def)
qed

lemma ends_in_index_frame: "ends_in map_grows s r \<Longrightarrow> ends_in (index_frame C X) s r"
  unfolding ends_in_def using map_grows_index_frame by blast

lemma audit_frame_index_frame: 
  assumes "audit_frame s s'"
  shows "index_frame C X s s'"
proof -
  have w: "without_money (heap s' p) = without_money (heap s p)" for p using assms unfolding audit_frame_def by blast
  have "core b = core c \<and> nChainWork b = nChainWork c" if "without_money b = without_money c" for b c
    using that by (cases b, cases c) (simp add: without_money_def core_def)
  then have "core (heap s' p) = core (heap s p) \<and> nChainWork (heap s' p) = nChainWork (heap s p)" for p using w by blast
  moreover have "node.more s' = node.more s" using assms unfolding audit_frame_def by blast
  then have "next_free s' = next_free s \<and> pindexBestHeader s' = pindexBestHeader s"
    by (cases s, cases s') (auto simp: node.defs)
  ultimately show ?thesis using audit_frame_facts(7,8) [OF assms] by (simp add: index_frame_def core_def)
qed

lemma set_entry_frame:
  assumes "phashBlock (f (heap s p)) = phashBlock (heap s p)" "bBits (f (heap s p)) = bBits (heap s p)"
    and "p \<in> C \<or> core (f (heap s p)) = core (heap s p)" "p \<in> X \<or> nChainWork (f (heap s p)) = nChainWork (heap s p)"
  shows "ends_in (index_frame C X) s (set_entry p f s)"
  using assms by (auto simp: ends_in_def set_entry_def index_frame_def)

lemma core_updates [simp]:
  "core (b\<lparr>pnext := n\<rparr>) = core b" "core (b\<lparr>bnChainTrust := t\<rparr>) = core b"
  "core (snd (SetStakeEntropyBit e b)) = core b" "core (b\<lparr>hashProofOfStake := h\<rparr>) = core b"
  "core (SetStakeModifier m g b) = core b" "core (b\<lparr>nStakeModifierChecksum := c\<rparr>) = core b"
  "core (b\<lparr>nChainWork := w\<rparr>) = core b" "core (snd (RaiseValidity u b)) = core b"
  by (simp_all add: core_def SetStakeEntropyBit_def SetStakeModifier_def RaiseValidity_def Let_def)

lemma name_updates [simp]:
  "phashBlock (snd (SetStakeEntropyBit e b)) = phashBlock b" "bBits (snd (SetStakeEntropyBit e b)) = bBits b"
  "phashBlock (SetStakeModifier m g b) = phashBlock b" "bBits (SetStakeModifier m g b) = bBits b"
  "phashBlock (snd (RaiseValidity u b)) = phashBlock b" "bBits (snd (RaiseValidity u b)) = bBits b"
  by (simp_all add: SetStakeEntropyBit_def SetStakeModifier_def RaiseValidity_def Let_def)

lemma work_updates [simp]:
  "nChainWork (snd (SetStakeEntropyBit e b)) = nChainWork b" "nChainWork (SetStakeModifier m g b) = nChainWork b"
  "nChainWork (snd (RaiseValidity u b)) = nChainWork b"
  by (simp_all add: SetStakeEntropyBit_def SetStakeModifier_def RaiseValidity_def Let_def)

lemma proof_of_stake_at_frame: "ends_in (index_frame C X) s (proof_of_stake_at h s)"
  by (auto simp: proof_of_stake_at_def ends_in_def index_frame_def split: option.splits)

lemma stake_entry_frame: "ends_in (index_frame C X) s (stake_entry E hash block p q s)"
  unfolding stake_entry_def
  by (intro tree.frame_rules proof_of_stake_at_frame ends_in_index_frame [OF ComputeNextStakeModifier_grows] set_entry_frame)
    simp_all

lemma point_back_frame: "ends_in (index_frame C X) s (point_back p s)"
  unfolding point_back_def by (intro tree.frame_rules set_entry_frame) simp_all

lemma work_entry_frame: "ends_in (index_frame C {p}) s (work_entry p s)"
  unfolding work_entry_def by (intro tree.frame_rules set_entry_frame) simp_all


lemma BuildSkip_other: "x \<noteq> p \<Longrightarrow> BuildSkip H p x = H x"
  by (simp add: BuildSkip_def split: option.split)

lemma BuildSkip_fields:
  "phashBlock (BuildSkip H p x) = phashBlock (H x)" "bBits (BuildSkip H p x) = bBits (H x)"
  "nChainWork (BuildSkip H p x) = nChainWork (H x)"
  by (cases "x = p", simp_all add: BuildSkip_other) (simp_all add: BuildSkip_def split: option.split)

lemma place_entry_frame: "ends_in (index_frame {p} X) s (place_entry p q s)"
  unfolding place_entry_def
  by (intro tree.frame_rules set_entry_frame)
    (auto simp: ends_in_def index_frame_def BuildSkip_other BuildSkip_fields)

lemma link_entry_frame: "ends_in (index_frame {p} X) s (link_entry E hash block p s)"
  unfolding link_entry_def
  by (intro tree.frame_rules set_entry_frame place_entry_frame stake_entry_frame) simp_all

section \<open>The invariant\<close>

definition block_work :: "u32 \<Rightarrow> nat" where
  "block_work bits = (if target_ok bits then 2 ^ 256 div (compact_value (unat bits) + 1) else 0)"

text \<open>The work of an entry is that of its chain, as a number of 256 bits.\<close>

definition work_ok :: "store \<Rightarrow> ptr \<Rightarrow> bool" where
  "work_ok H p \<longleftrightarrow> length (nChainWork (H p)) = 8
     \<and> val (nChainWork (H p)) =
         ((case pprev (H p) of None \<Rightarrow> 0 | Some q \<Rightarrow> val (nChainWork (H q))) + block_work (bBits (H p))) mod 2 ^ 256"

definition best_ok :: "'b index_state_scheme \<Rightarrow> bool" where
  "best_ok s \<longleftrightarrow> (case pindexBestHeader s of
     None \<Rightarrow> next_free s = 0
   | Some b \<Rightarrow> b < next_free s \<and> (\<forall>p<next_free s. val (nChainWork (heap s p)) \<le> val (nChainWork (heap s b))))"

definition map_ok :: "'b index_state_scheme \<Rightarrow> bool" where
  "map_ok s \<longleftrightarrow> (\<forall>h p. mapBlockIndex s h = Some (Some p) \<longleftrightarrow> p < next_free s \<and> phashBlock (heap s p) = h)"

definition chain_ok :: "'b index_state_scheme \<Rightarrow> bool" where
  "chain_ok s \<longleftrightarrow> chainActive s = [] \<or> (\<exists>t<next_free s. chainActive s = chain_of (heap s) t)"

definition index_ok :: "'b index_state_scheme \<Rightarrow> bool" where
  "index_ok s \<longleftrightarrow> map_ok s \<and> block_tree (heap s) {..<next_free s} \<and> (\<forall>p<next_free s. work_ok (heap s) p)
     \<and> best_ok s \<and> chain_ok s"

lemma empty_index_ok: "index_ok empty_index"
  by (simp add: index_ok_def map_ok_def empty_index_def block_tree_def best_ok_def chain_ok_def)


lemma core_fields:
  assumes "core b = core c"
  shows "phashBlock b = phashBlock c" "pprev b = pprev c" "nHeight b = nHeight c" "pskip b = pskip c" "bBits b = bBits c"
  using assms by (simp_all add: core_def)

lemma block_tree_core:
  assumes "block_tree H A" "\<And>x. x \<in> A \<Longrightarrow> core (H' x) = core (H x)"
  shows "block_tree H' A"
  by (rule block_tree_frame [OF assms(1)]) (use core_fields [OF assms(2)] in simp)

lemma chain_of_core:
  assumes "block_tree H A" "t \<in> A" "\<And>x. x \<in> A \<Longrightarrow> core (H' x) = core (H x)"
  shows "chain_of H' t = chain_of H t"
proof -
  have "nth_parent H' k (Some t) = nth_parent H k (Some t)" for k
    by (rule nth_parent_frame [OF assms(1) _ assms(2)]) (use core_fields(2) [OF assms(3)] in simp)
  moreover have "nHeight (H' t) = nHeight (H t)" using core_fields(3) [OF assms(3) [OF assms(2)]] .
  ultimately show ?thesis by (simp add: chain_of_def anc_def height_of_def)
qed

lemma work_ok_core:
  assumes "work_ok H p" "pprev (H' p) = pprev (H p)" "bBits (H' p) = bBits (H p)" "nChainWork (H' p) = nChainWork (H p)"
    and "\<And>q. pprev (H p) = Some q \<Longrightarrow> nChainWork (H' q) = nChainWork (H q)"
  shows "work_ok H' p"
  using assms by (auto simp: work_ok_def split: option.splits)

lemma index_ok_frame:
  assumes ok: "index_ok s" and f: "index_frame {} {} s s'"
  shows "index_ok s'"
proof -
  have c: "core (heap s' x) = core (heap s x)" and w: "nChainWork (heap s' x) = nChainWork (heap s x)"
    and h: "phashBlock (heap s' x) = phashBlock (heap s x)" for x
    using f by (simp_all add: index_frame_def)
  have n: "next_free s' = next_free s" "chainActive s' = chainActive s" "pindexBestHeader s' = pindexBestHeader s"
    and m: "mapBlockIndex s' a = Some (Some q) \<longleftrightarrow> mapBlockIndex s a = Some (Some q)" for a q
    using f by (simp_all add: index_frame_def)
  have t: "block_tree (heap s) {..<next_free s}" using ok by (simp add: index_ok_def)
  have "map_ok s'" using ok by (simp add: index_ok_def map_ok_def m n h)
  moreover have "block_tree (heap s') {..<next_free s'}" unfolding n by (rule block_tree_core [OF t]) (rule c)
  moreover have "work_ok (heap s') p" if "p < next_free s'" for p
    using work_ok_core [of "heap s" p "heap s'"] core_fields [OF c] w ok that n by (simp add: index_ok_def)
  moreover have "best_ok s'" using ok by (simp add: index_ok_def best_ok_def n w split: option.splits)
  moreover have "chain_ok s'"
    using ok chain_of_core [OF t _ c] by (auto simp: index_ok_def chain_ok_def n)
  ultimately show ?thesis by (simp add: index_ok_def)
qed

text \<open>The state in which the stake fields are computed.\<close>

lemma link_entry_place:
  assumes t: "block_tree (heap s) {..<p}" and z: "mapBlockIndex s (hashPrevBlock block) = Some (Some z)" "z < p"
  defines "s3 \<equiv> s\<lparr>heap := BuildSkip ((heap s)(p := (heap s p)\<lparr>pprev := Some z, nHeight := nHeight (heap s z) + 1\<rparr>)) p\<rparr>"
  shows "link_entry E hash block p s = stake_entry E hash block p z s3" "block_tree (heap s3) {..<Suc p}"
    "pprev (heap s3 p) = Some z" "phashBlock (heap s3 x) = phashBlock (heap s x)"
proof -
  define H where "H = (heap s)(p := (heap s p)\<lparr>pprev := Some z, nHeight := nHeight (heap s z) + 1\<rparr>)"
  have s3: "heap s3 = BuildSkip H p" by (simp add: s3_def H_def)
  show "link_entry E hash block p s = stake_entry E hash block p z s3"
    using z by (simp add: link_entry_def bind_app deref_app set_entry_def place_entry_def s3_def)
  have "block_tree H {..<p}" by (rule block_tree_core [OF t]) (simp add: H_def)
  then show "block_tree (heap s3) {..<Suc p}"
    unfolding s3 using block_tree_insert [of H "{..<p}" p] z by (simp add: H_def lessThan_Suc)
  show "pprev (heap s3 p) = Some z" by (simp add: s3 BuildSkip_def H_def)
  show "phashBlock (heap s3 x) = phashBlock (heap s x)" by (simp add: s3 BuildSkip_fields) (simp add: H_def)
qed

lemma link_entry_tree:
  assumes t: "block_tree (heap s) {..<p}" and p: "pprev (heap s p) = None" "nHeight (heap s p) = 0"
    and q: "\<And>q. mapBlockIndex s (hashPrevBlock block) = Some (Some q) \<Longrightarrow> q < p"
    and l: "link_entry E hash block p s = Inr (u, s')"
  shows "block_tree (heap s') {..<Suc p}"
proof (cases "mapBlockIndex s (hashPrevBlock block)")
  case None
  then have "s' = s" using l by (simp add: link_entry_def)
  then show ?thesis
    using block_tree_insert [OF t, of p] p by (simp add: BuildSkip_def lessThan_Suc)
next
  case (Some e)
  then obtain z where z: "mapBlockIndex s (hashPrevBlock block) = Some (Some z)" "z < p"
    using l q by (auto simp: link_entry_def bind_Inr deref_Inr)
  note place = link_entry_place [OF t z]
  have f: "index_frame {} {} (s\<lparr>heap := BuildSkip ((heap s)(p := (heap s p)\<lparr>pprev := Some z,
      nHeight := nHeight (heap s z) + 1\<rparr>)) p\<rparr>) s'"
    by (rule ends_inD [OF stake_entry_frame l [unfolded place(1)]])
  show ?thesis by (rule block_tree_core [OF place(2)]) (use f in \<open>simp add: index_frame_def\<close>)
qed

lemma GetBlockProof_work: "lift_uint (GetBlockProof b) = Inr w \<Longrightarrow> length w = 8 \<and> val w = block_work (bBits b)"
  using GetBlockProof_val [of b] by (auto simp: lift_uint_def block_work_def)

lemma work_entry_work:
  assumes "work_entry p s = Inr (u, s')" "pprev (heap s p) \<noteq> Some p"
    and "\<And>q. pprev (heap s p) = Some q \<Longrightarrow> length (nChainWork (heap s q)) = 8"
  shows "work_ok (heap s') p"
proof -
  obtain w where w: "length w = 8" "val w = block_work (bBits (heap s p))"
    "s' = s\<lparr>heap := (heap s)(p := (heap s p)\<lparr>nChainWork :=
       op_add (case pprev (heap s p) of None \<Rightarrow> uint256_0 | Some q \<Rightarrow> nChainWork (heap s q)) w\<rparr>)\<rparr>"
    using assms(1) GetBlockProof_work by (auto simp: work_entry_def bind_Inr gets_Inr set_entry_def)
  show ?thesis
  proof (cases "pprev (heap s p)")
    case None
    then show ?thesis using w by (simp add: work_ok_def val_op_add)
  next
    case (Some q)
    then have "q \<noteq> p" using assms(2) by auto
    then show ?thesis using w Some assms(3) by (simp add: work_ok_def val_op_add)
  qed
qed

lemma best_header_ok:
  assumes "\<And>x. x < Suc p \<Longrightarrow> length (nChainWork (heap s x)) = 8" "next_free s = Suc p"
    and "case pindexBestHeader s of None \<Rightarrow> p = 0
      | Some b \<Rightarrow> b < p \<and> (\<forall>x<p. val (nChainWork (heap s x)) \<le> val (nChainWork (heap s b)))"
  shows "best_ok (best_header p s)"
proof (cases "pindexBestHeader s")
  case None
  then show ?thesis using assms(2,3) by (simp add: best_header_def best_ok_def)
next
  case (Some b)
  have b: "b < p" "\<forall>x<p. val (nChainWork (heap s x)) \<le> val (nChainWork (heap s b))" using assms(3) Some by simp_all
  have "op_less (nChainWork (heap s b)) (nChainWork (heap s p)) \<longleftrightarrow> val (nChainWork (heap s b)) < val (nChainWork (heap s p))"
    using assms(1) b(1) by (simp add: op_less_val)
  then show ?thesis using b assms(2) Some
    by (cases "val (nChainWork (heap s b)) < val (nChainWork (heap s p))")
      (auto simp: best_header_def best_ok_def less_Suc_eq intro: less_imp_le order_trans)
qed

lemma best_header_fields [simp]:
  "heap (best_header p s) = heap s" "mapBlockIndex (best_header p s) = mapBlockIndex s"
  "chainActive (best_header p s) = chainActive s" "next_free (best_header p s) = next_free s"
  by (simp_all add: best_header_def split: option.split)


text \<open>The invariant while the last entry, \<open>p\<close>, still has no work.\<close>

definition almost_ok :: "ptr \<Rightarrow> 'b index_state_scheme \<Rightarrow> bool" where
  "almost_ok p s \<longleftrightarrow> next_free s = Suc p \<and> map_ok s \<and> block_tree (heap s) {..<Suc p} \<and> (\<forall>x<p. work_ok (heap s) x)
     \<and> (case pindexBestHeader s of None \<Rightarrow> p = 0
        | Some b \<Rightarrow> b < p \<and> (\<forall>x<p. val (nChainWork (heap s x)) \<le> val (nChainWork (heap s b))))
     \<and> chain_ok s \<and> (\<forall>x\<le>p. pprev (heap s x) \<noteq> Some p)"

lemma almost_ok_work:
  assumes ok: "almost_ok p s" and f: "index_frame {} {p} s s'" and w: "work_ok (heap s') p"
  shows "index_ok (best_header p s')"
proof -
  have c: "core (heap s' x) = core (heap s x)" and h: "phashBlock (heap s' x) = phashBlock (heap s x)" for x
    using f by (simp_all add: index_frame_def)
  have ww: "x \<noteq> p \<Longrightarrow> nChainWork (heap s' x) = nChainWork (heap s x)" for x using f by (simp add: index_frame_def)
  have n: "next_free s' = Suc p" "chainActive s' = chainActive s" "pindexBestHeader s' = pindexBestHeader s"
    and m: "mapBlockIndex s' a = Some (Some q) \<longleftrightarrow> mapBlockIndex s a = Some (Some q)" for a q
    using f ok by (simp_all add: index_frame_def almost_ok_def)
  have t: "block_tree (heap s) {..<Suc p}" using ok by (simp add: almost_ok_def)
  have t': "block_tree (heap s') {..<Suc p}" by (rule block_tree_core [OF t]) (rule c)
  have "map_ok (best_header p s')" using ok by (simp add: almost_ok_def map_ok_def m n h)
  moreover have work: "work_ok (heap s') x" if "x < Suc p" for x
  proof (cases "x = p")
    case False
    then have "x < p" using that by simp
    moreover have "q \<noteq> p" if "pprev (heap s x) = Some q" for q
      using ok that \<open>x < p\<close> by (auto simp: almost_ok_def)
    ultimately show ?thesis
      using work_ok_core [of "heap s" x "heap s'"] core_fields [OF c] ww ok by (simp add: almost_ok_def)
  qed (simp add: w)
  moreover have "best_ok (best_header p s')"
  proof (rule best_header_ok)
    show "length (nChainWork (heap s' x)) = 8" if "x < Suc p" for x using work [OF that] by (simp add: work_ok_def)
    show "case pindexBestHeader s' of None \<Rightarrow> p = 0
      | Some b \<Rightarrow> b < p \<and> (\<forall>x<p. val (nChainWork (heap s' x)) \<le> val (nChainWork (heap s' b)))"
      using ok n ww by (auto simp: almost_ok_def split: option.splits)
  qed (rule n)
  moreover have "chain_ok (best_header p s')"
    using ok chain_of_core [OF t _ c] by (auto simp: almost_ok_def chain_ok_def n)
  ultimately show ?thesis using t' by (simp add: index_ok_def n)
qed

lemma finish_entry_ok:
  assumes ok: "almost_ok p s" and f: "finish_entry p s = Inr (u, s')"
  shows "index_ok s'"
proof -
  obtain s3 s4 s6 where s3: "work_entry p s = Inr ((), s3)" and s4: "set_entry p (\<lambda>b. snd (RaiseValidity 2 b)) s3 = Inr ((), s4)"
    and s6: "point_back p (best_header p s4) = Inr ((), s6)" "s' = s6\<lparr>setDirtyBlockIndex := insert p (setDirtyBlockIndex s6)\<rparr>"
    using f by (auto simp: finish_entry_def bind_Inr)
  have f3: "index_frame {} {p} s s3" by (rule ends_inD [OF work_entry_frame s3])
  have f4: "index_frame {} {} s3 s4" by (rule ends_inD [OF set_entry_frame s4]) simp_all
  have w3: "work_ok (heap s3) p"
  proof (rule work_entry_work [OF s3])
    show "pprev (heap s p) \<noteq> Some p" using ok by (simp add: almost_ok_def)
    show "length (nChainWork (heap s q)) = 8" if "pprev (heap s p) = Some q" for q
    proof -
      have "q < Suc p" using block_tree_pprev [of "heap s" "{..<Suc p}" p q] ok that by (simp add: almost_ok_def)
      moreover have "q \<noteq> p" using ok that by (auto simp: almost_ok_def)
      ultimately show ?thesis using ok by (auto simp: almost_ok_def work_ok_def less_Suc_eq)
    qed
  qed
  have c4: "core (heap s4 x) = core (heap s3 x)" "nChainWork (heap s4 x) = nChainWork (heap s3 x)" for x
    using f4 by (simp_all add: index_frame_def)
  have w4: "work_ok (heap s4) p"
    by (rule work_ok_core [OF w3]) (simp_all add: core_fields [OF c4(1)] c4(2))
  have "index_frame {} {p} s s4" using f3 f4 by (auto simp: index_frame_def)
  then have "index_ok (best_header p s4)" by (rule almost_ok_work [OF ok _ w4])
  moreover have "index_frame {} {} (best_header p s4) s6" by (rule ends_inD [OF point_back_frame s6(1)])
  moreover have "index_frame {} {} s6 s'" by (simp add: s6(2) index_frame_def)
  ultimately show ?thesis using index_ok_frame by blast
qed


lemma block_tree_irrefl: "block_tree H A \<Longrightarrow> p \<in> A \<Longrightarrow> pprev (H p) \<noteq> Some p"
  by (auto simp: block_tree_def entry_ok_def split: option.splits)

lemma IndexOfBlock_fresh:
  "pprev (IndexOfBlock block) = None" "nHeight (IndexOfBlock block) = 0" "bBits (IndexOfBlock block) = nBits block"
  by (simp_all add: IndexOfBlock_def Let_def NullIndex_def IndexSetProofOfAudit_def IndexSetProofOfStake_def)

lemma AddToBlockIndex_ok:
  assumes ok: "index_ok s" and add: "AddToBlockIndex E block s = Inr (r, s')"
    and prev: "BlockHash E block \<noteq> hashPrevBlock block"
  shows "index_ok s'"
proof (cases "mapBlockIndex s (BlockHash E block)")
  case (Some e)
  then show ?thesis using add ok by (simp add: AddToBlockIndex_def)
next
  case None
  define p s1 where "p = next_free s" and "s1 = snd (projr (new_entry (BlockHash E block) block s))"
  have s1: "new_entry (BlockHash E block) block s = Inr (p, s1)" "next_free s1 = Suc p" "chainActive s1 = chainActive s"
    "pindexBestHeader s1 = pindexBestHeader s" "mapBlockIndex s1 = (mapBlockIndex s)(BlockHash E block \<mapsto> Some p)"
    "heap s1 = (heap s)(p := (IndexOfBlock block)\<lparr>phashBlock := BlockHash E block\<rparr>)"
    by (simp_all add: p_def s1_def new_entry_def Let_def)
  obtain s2 where s2: "link_entry E (BlockHash E block) block p s1 = Inr ((), s2)" "finish_entry p s2 = Inr ((), s')"
    using add None s1(1) by (auto simp: AddToBlockIndex_def bind_Inr Let_def)
  have t: "block_tree (heap s) {..<p}" and m: "map_ok s" using ok by (simp_all add: index_ok_def p_def)
  have same: "heap s1 x = heap s x" if "x < p" for x using that by (simp add: s1(6))
  have t1: "block_tree (heap s1) {..<p}" by (rule block_tree_core [OF t]) (simp add: same)
  have f: "index_frame {p} {} s1 s2" by (rule ends_inD [OF link_entry_frame s2(1)])
  have c: "core (heap s2 x) = core (heap s x)" "nChainWork (heap s2 x) = nChainWork (heap s x)" if "x < p" for x
    using f that same by (simp_all add: index_frame_def)
  have n: "next_free s2 = Suc p" "chainActive s2 = chainActive s" "pindexBestHeader s2 = pindexBestHeader s"
    and h: "phashBlock (heap s2 x) = phashBlock (heap s1 x)"
    and k: "mapBlockIndex s2 a = Some (Some q) \<longleftrightarrow> mapBlockIndex s1 a = Some (Some q)" for x a q
    using f s1 by (simp_all add: index_frame_def)
  have t2: "block_tree (heap s2) {..<Suc p}"
  proof (rule link_entry_tree [OF t1 _ _ _ s2(1)])
    show "pprev (heap s1 p) = None" "nHeight (heap s1 p) = 0" by (simp_all add: s1(6) IndexOfBlock_fresh)
    show "q < p" if "mapBlockIndex s1 (hashPrevBlock block) = Some (Some q)" for q
      using that prev m by (simp add: s1(5) map_ok_def p_def)
  qed
  have "map_ok s2"
    unfolding map_ok_def
  proof (intro allI)
    fix a q
    have "phashBlock (heap s x) \<noteq> BlockHash E block" if "x < p" for x
      using m None that unfolding map_ok_def p_def by (metis option.distinct(1))
    then show "mapBlockIndex s2 a = Some (Some q) \<longleftrightarrow> q < next_free s2 \<and> phashBlock (heap s2 q) = a"
      using m by (auto simp: k s1 n h map_ok_def p_def less_Suc_eq)
  qed
  moreover have "work_ok (heap s2) x" if "x < p" for x
  proof (rule work_ok_core [of "heap s"])
    show "work_ok (heap s) x" using ok that by (simp add: index_ok_def p_def)
    show "pprev (heap s2 x) = pprev (heap s x)" "bBits (heap s2 x) = bBits (heap s x)"
      "nChainWork (heap s2 x) = nChainWork (heap s x)" using core_fields [OF c(1) [OF that]] c(2) [OF that] by simp_all
    show "nChainWork (heap s2 q) = nChainWork (heap s q)" if "pprev (heap s x) = Some q" for q
      using c(2) block_tree_pprev [OF t _ that] \<open>x < p\<close> by simp
  qed
  moreover have "case pindexBestHeader s2 of None \<Rightarrow> p = 0
      | Some b \<Rightarrow> b < p \<and> (\<forall>x<p. val (nChainWork (heap s2 x)) \<le> val (nChainWork (heap s2 b)))"
    using ok c(2) by (auto simp: index_ok_def best_ok_def n p_def split: option.splits)
  moreover have "chain_ok s2"
    using ok chain_of_core [OF t _ c(1)] by (auto simp: index_ok_def chain_ok_def n p_def less_Suc_eq)
  moreover have "pprev (heap s2 x) \<noteq> Some p" if "x \<le> p" for x
  proof (cases "x = p")
    case True
    then show ?thesis using block_tree_irrefl [OF t2, of p] by simp
  next
    case False
    then have "x < p" using that by simp
    then show ?thesis using block_tree_pprev [OF t, of x p] core_fields(2) [OF c(1)] by auto
  qed
  ultimately have "almost_ok p s2" using t2 n by (simp add: almost_ok_def)
  then show ?thesis by (rule finish_entry_ok [OF _ s2(2)])
qed


section \<open>Steps\<close>

lemma find_prev_state: "ends_in (index_frame C X) s (find_prev E block s)"
  unfolding find_prev_def by (intro tree.frame_rules)

lemma ContextualCheckBlockHeader_state: "ends_in (index_frame C X) s (ContextualCheckBlockHeader E block e v s)"
  unfolding ContextualCheckBlockHeader_def accept_def reject_def Let_def by (intro tree.frame_rules)

lemma CheckBlockHeader_grows: "ends_in map_grows s (CheckBlockHeader E block pow v s)"
  unfolding CheckBlockHeader_def CheckPrevPoABlockHash_def by (intro grows.frame_rules check_grows block_at_ends)

lemma CheckWork_frame: "ends_in (index_frame C X) s (CheckWork E block e s)"
  unfolding CheckWork_def Let_def
  by (intro tree.frame_rules ends_in_index_frame [OF CheckProofOfStake_grows])
    (auto simp: ends_in_def index_frame_def)

lemma AcceptBlockHeader_ok:
  assumes ok: "index_ok s" and r: "AcceptBlockHeader E block v s = Inr (r, s')"
    and prev: "BlockHash E block \<noteq> hashPrevBlock block"
  shows "index_ok s'"
proof (cases "mapBlockIndex s (BlockHash E block)")
  case (Some e)
  then have "index_frame {} {} s s'"
    using r by (cases e) (auto simp: AcceptBlockHeader_def index_frame_def split: if_splits)
  then show ?thesis using index_ok_frame [OF ok] by blast
next
  case None
  obtain b v1 s1 where h: "CheckBlockHeader E block False v s = Inr ((b, v1), s1)"
    using r None by (auto simp: AcceptBlockHeader_def Let_def bind_Inr)
  have ok1: "index_ok s1" by (rule index_ok_frame [OF ok map_grows_index_frame [OF ends_inD [OF CheckBlockHeader_grows h]]])
  show ?thesis
  proof (cases b)
    case False
    then show ?thesis using r None h ok1 by (simp add: AcceptBlockHeader_def bind_app)
  next
    case True
    obtain f s2 where f: "find_prev E block s1 = Inr (f, s2)"
      using r None h True by (auto simp: AcceptBlockHeader_def Let_def bind_Inr)
    have ok2: "index_ok s2" by (rule index_ok_frame [OF ok1 ends_inD [OF find_prev_state f]])
    show ?thesis
    proof (cases f)
      case (Inl x)
      then show ?thesis using r None h True f ok2 by (cases x) (simp add: AcceptBlockHeader_def bind_app)
    next
      case (Inr q)
      obtain c v3 s3 where c: "ContextualCheckBlockHeader E block (Some q) v1 s2 = Inr ((c, v3), s3)"
        using r None h True f Inr by (auto simp: AcceptBlockHeader_def Let_def bind_Inr)
      have ok3: "index_ok s3" by (rule index_ok_frame [OF ok2 ends_inD [OF ContextualCheckBlockHeader_state c]])
      show ?thesis
      proof (cases c)
        case False
        then show ?thesis using r None h True f Inr c ok3 by (simp add: AcceptBlockHeader_def bind_app)
      next
        case c': True
        obtain p where "AddToBlockIndex E block s3 = Inr (p, s')"
          using r None h True f Inr c c' by (auto simp: AcceptBlockHeader_def bind_app split: sum.splits)
        then show ?thesis by (rule AddToBlockIndex_ok [OF ok3 _ prev])
      qed
    qed
  qed
qed

end
