(* ===== verification/Index_Steps.thy ===== *)
theory Index_Steps
  imports Index_Invariant
begin

text \<open>
  The block index as a state machine: the steps that the validation code makes, the states it reaches, and what holds in
  all of them. The loops of the header checks end in a tree of entries, and a header is answered unless its predecessor
  is entered as \<open>NULL\<close>.
\<close>

section \<open>Loops that end\<close>

lemma height_induct [consumes 2, case_names entry]:
  assumes "block_tree H A" "p \<in> A"
    and "\<And>p. p \<in> A \<Longrightarrow> (\<And>q. pprev (H p) = Some q \<Longrightarrow> q \<in> A \<Longrightarrow> P q) \<Longrightarrow> P p"
  shows "P p"
  using assms(2)
proof (induction "nat (nHeight (H p))" arbitrary: p rule: less_induct)
  case less
  show ?case
  proof (rule assms(3) [OF less.prems])
    fix q assume q: "pprev (H p) = Some q" "q \<in> A"
    have "nHeight (H p) = nHeight (H q) + 1" "0 \<le> nHeight (H q)"
      using assms(1) less.prems q by (auto simp: block_tree_def entry_ok_def)
    then show "P q" using less.hyps [OF _ q(2)] by simp
  qed
qed

lemma poa_back_ends:
  assumes "block_tree H A" "p \<in> A" "0 < bound"
  shows "\<exists>q\<in>A. poa_back H bound (Some p) = Some (Inr q)
    \<and> (nHeight (H q) < bound \<or> IsPoABlockByVersion (IndexGetBlockHeader H (H q)))"
  using assms(1,2)
proof (induction rule: height_induct)
  case (entry p)
  show ?case
  proof (cases "nHeight (H p) \<ge> bound \<and> \<not> IsPoABlockByVersion (IndexGetBlockHeader H (H p))")
    case True
    then obtain q where q: "pprev (H p) = Some q" "q \<in> A" using block_tree_parent [OF assms(1) entry.hyps] assms(3) by auto
    then have "poa_back H bound (Some p) = poa_back H bound (Some q)" using True by (subst poa_back.simps) simp
    then show ?thesis using entry.IH [OF q] by simp
  next
    case False
    then show ?thesis using entry.hyps by (subst poa_back.simps) auto
  qed
qed

lemma last_modifier_ends:
  assumes "block_tree H A" "p \<in> A"
  shows "\<exists>q\<in>A. last_modifier_loop H p = Some q"
  using assms
proof (induction rule: height_induct)
  case (entry p)
  show ?case
  proof (cases "pprev (H p) = None \<or> GeneratedStakeModifier (H p)")
    case True
    then show ?thesis using entry.hyps by (subst last_modifier_loop.simps) (auto split: option.split)
  next
    case False
    then obtain q where q: "pprev (H p) = Some q" by auto
    then have "q \<in> A" using block_tree_pprev [OF assms(1) entry.hyps] by simp
    then show ?thesis using entry.IH [OF q] q False by (subst last_modifier_loop.simps) simp
  qed
qed

lemma candidates_end:
  assumes "block_tree H A" "p \<in> A"
  shows "\<exists>v'. candidates_loop H start (Some p) v = Some v' \<and> set v' \<subseteq> set v \<union> (\<lambda>x. (GetBlockTime (H x), phashBlock (H x))) ` A"
  using assms
proof (induction arbitrary: v rule: height_induct)
  case (entry p)
  show ?case
  proof (cases "GetBlockTime (H p) \<ge> start")
    case False
    then show ?thesis by (subst candidates_loop.simps) auto
  next
    case True
    let ?v = "v @ [(GetBlockTime (H p), phashBlock (H p))]"
    have e: "candidates_loop H start (Some p) v = candidates_loop H start (pprev (H p)) ?v"
      using True by (subst candidates_loop.simps) simp
    show ?thesis
    proof (cases "pprev (H p)")
      case None
      then have "candidates_loop H start (pprev (H p)) ?v = Some ?v" by (subst candidates_loop.simps) simp
      then show ?thesis using e entry.hyps by auto
    next
      case (Some q)
      then have "q \<in> A" using block_tree_pprev [OF assms(1) entry.hyps] by simp
      then obtain v' where "candidates_loop H start (Some q) ?v = Some v'"
        "set v' \<subseteq> set ?v \<union> (\<lambda>x. (GetBlockTime (H x), phashBlock (H x))) ` A" using entry.IH [OF Some] by blast
      then show ?thesis using e Some entry.hyps by auto
    qed
  qed
qed

section \<open>Stake modifiers of known blocks\<close>

definition known :: "'b node_scheme \<Rightarrow> uint256 \<Rightarrow> bool" where
  "known s h \<longleftrightarrow> (\<exists>p. mapBlockIndex s h = Some (Some p))"

lemma known_block_at: "known s h \<Longrightarrow> \<exists>p. block_at h s = Inr (Some p, s)"
  by (auto simp: known_def block_at_def)

lemma select_loop_returns:
  "\<forall>c\<in>set cs. known s (snd c) \<Longrightarrow> returns (select_loop E cs m stop prev sel s)"
proof (induction cs arbitrary: sel)
  case Nil
  show ?case by (simp add: returns_def)
next
  case (Cons c cs)
  then obtain p where p: "mapBlockIndex s (snd c) = Some (Some p)" by (auto simp: known_def)
  then show ?case
    using Cons by (auto simp: block_count_def bind_app deref_app block_at_known Let_def returns_basic)
qed

lemma modifier_rounds_return:
  assumes h: "\<And>b. length (HashFn E b) = 8" and k: "\<forall>c\<in>set cs. known s (snd c)"
  shows "returns (modifier_rounds E cs prev rs stop m new s)"
proof (induction rs arbitrary: stop m new)
  case Nil
  show ?case by (simp add: returns_def)
next
  case (Cons r rs)
  have sel: "returns (SelectBlockFromCandidates E cs m (stop + SelectionIntervalSection r) prev s)"
    unfolding SelectBlockFromCandidates_def by (rule select_loop_returns [OF k])
  show ?case unfolding modifier_rounds.simps Let_def
  proof (rule returns_bind, rule sel, goal_cases)
    case (1 x s')
    then show ?case
    proof (cases "fst x")
      case True
      then obtain q where "snd x = Some q" "s' = s"
        using SelectBlock_result [OF h, of cs m _ prev s "snd x" s'] 1 by (cases x) auto
      then show ?thesis using Cons.IH True by (cases x) (simp add: bind_app deref_app)
    qed (cases x, simp add: returns_basic)
  qed
qed


section \<open>Steps that return and keep a condition\<close>

definition safely :: "('s \<Rightarrow> bool) \<Rightarrow> ('s, 'a) step \<Rightarrow> bool" where
  "safely P m \<longleftrightarrow> (\<forall>s. P s \<longrightarrow> returns (m s) \<and> (\<forall>x s'. m s = Inr (x, s') \<longrightarrow> P s'))"

lemma safely_ret: "safely P (ret x)"
  by (simp add: safely_def returns_basic)

lemma safely_bind: "safely P m \<Longrightarrow> (\<And>x. safely P (f x)) \<Longrightarrow> safely P (bind m f)"
  unfolding safely_def bind_Inr by (blast intro: returns_bind)

lemma safely_gets: "(\<And>s. P s \<Longrightarrow> \<exists>x. f s = Inr x) \<Longrightarrow> safely P (gets f)"
  unfolding safely_def gets_Inr by (blast intro: returns_basic)

lemma safely_if: "safely P m \<Longrightarrow> safely P n \<Longrightarrow> safely P (if c then m else n)"
  by simp

lemma safely_prod: "(\<And>x y. safely P (g x y)) \<Longrightarrow> safely P (case z of (x, y) \<Rightarrow> g x y)"
  by (simp split: prod.split)

text \<open>The tree of the entries below \<open>n\<close>, all known by their hashes, with \<open>q\<close> before \<open>p\<close>.\<close>

definition placed :: "ptr \<Rightarrow> ptr \<Rightarrow> ptr \<Rightarrow> 'b index_state_scheme \<Rightarrow> bool" where
  "placed n p q s \<longleftrightarrow> block_tree (heap s) {..<n} \<and> (\<forall>x<n. known s (phashBlock (heap s x))) \<and> q < n
     \<and> pprev (heap s p) = Some q"

lemma placed_frame: "index_frame {} X s s' \<Longrightarrow> placed n p q s \<Longrightarrow> placed n p q s'"
  using block_tree_core [of "heap s" "{..<n}" "heap s'"] by (simp add: placed_def index_frame_def known_def core_def)

lemma safely_placed:
  assumes "\<And>s. placed n p q s \<Longrightarrow> returns (m s)" "\<And>s. ends_in (index_frame {} X) s (m s)"
  shows "safely (placed n p q) m"
  unfolding safely_def using assms(1) placed_frame ends_inD [OF assms(2)] by blast

lemma ComputeNextStakeModifier_returns:
  assumes h: "\<And>b. length (HashFn E b) = 8" and p: "placed n p q s"
  shows "returns (ComputeNextStakeModifier E (Some q) s)"
proof -
  have t: "block_tree (heap s) {..<n}" "q \<in> {..<n}" using p by (simp_all add: placed_def)
  obtain l where "last_modifier_loop (heap s) q = Some l" using last_modifier_ends [OF t] by blast
  then obtain lm where lm: "GetLastStakeModifier (heap s) q = Inr lm" by (simp add: GetLastStakeModifier_def)
  have rounds: "returns (modifier_rounds E (sort_candidates v) prev rs start m new s)"
    if "candidates_loop (heap s) start' (Some q) [] = Some v" for v prev rs start start' m new
  proof (rule modifier_rounds_return [OF h], rule ballI)
    fix c assume "c \<in> set (sort_candidates v)"
    moreover obtain v' where "candidates_loop (heap s) start' (Some q) [] = Some v'"
      "set v' \<subseteq> set [] \<union> (\<lambda>x. (GetBlockTime (heap s x), phashBlock (heap s x))) ` {..<n}"
      using candidates_end [OF t] by blast
    ultimately show "known s (snd c)" using that p by (auto simp: sort_candidates_def placed_def)
  qed
  have cand: "\<exists>v. lift_loop (map_option Inr (candidates_loop (heap s) start (Some q) [])) = Inr v
      \<and> candidates_loop (heap s) start (Some q) [] = Some v" for start
    using candidates_end [OF t, of start "[]"] by (auto simp: lift_loop_def)
  show ?thesis
  proof (cases "nHeight (heap s q) = 0")
    case True
    then show ?thesis by (simp add: ComputeNextStakeModifier_def returns_basic)
  next
    case False
    show ?thesis
    proof (cases lm)
      case None
      then show ?thesis using False lm by (simp add: ComputeNextStakeModifier_def bind_app gets_def returns_basic)
    next
      case (Some z)
      obtain stakeMod time where z: "z = (stakeMod, time)" by (cases z)
      let ?start = "GetBlockTime (heap s q) div 60 * 60 - SelectionInterval"
      obtain v where v: "lift_loop (map_option Inr (candidates_loop (heap s) ?start (Some q) [])) = Inr v"
        "candidates_loop (heap s) ?start (Some q) [] = Some v" using cand by blast
      obtain r s2 where "modifier_rounds E (sort_candidates v) stakeMod [0..<min 64 (length v)] ?start Map.empty 0 s = Inr (r, s2)"
        using rounds [OF v(2), of stakeMod, unfolded returns_def] by blast
      then show ?thesis using False lm Some z v
        by (cases r) (simp_all add: ComputeNextStakeModifier_def bind_app gets_def returns_basic Let_def)
    qed
  qed
qed

lemma compact_value_odd: "compact_value c mod 2 ^ 256 + 1 \<noteq> 2 ^ 256"
proof (cases "c div 2 ^ 24 \<le> 3")
  case True
  have "compact_value c \<le> c mod 2 ^ 23" using True by (simp add: compact_value_def compact_number_def)
  also have "\<dots> < 2 ^ 23" by simp
  finally show ?thesis by simp
next
  case False
  then obtain e where "c div 2 ^ 24 - 3 = Suc e" by (metis Suc_diff_Suc not_le_imp_less)
  then have "even (compact_value c)" using False by (simp add: compact_value_def compact_number_def)
  then have "even (compact_value c mod 2 ^ 256)" by (simp add: dvd_mod_iff)
  then have "odd (compact_value c mod 2 ^ 256 + 1)" by simp
  moreover have "even ((2 :: nat) ^ 256)" by simp
  ultimately show ?thesis by metis
qed

lemma GetBlockTrust_returns: "\<exists>t. GetBlockTrust b = Inr t"
proof -
  obtain t neg ovf where t: "SetCompact (bBits b) = (t, neg, ovf)" "length t = 8"
      "val t = compact_value (unat (bBits b)) mod 2 ^ 256"
    using SetCompact_val [of "bBits b"] by blast
  have one: "length uint256_1 = 8" "val uint256_1 = 1" by (simp_all add: uint256_1_def)
  have "val t + 1 < 2 ^ 256" using t(3) compact_value_odd [of "unat (bBits b)"]
    by (metis Suc_eq_plus1 Suc_lessI mod_less_divisor zero_less_numeral zero_less_power)
  then have d: "val (op_add t uint256_1) = val t + 1" "length (op_add t uint256_1) = 8"
    using t(2) one by (simp_all add: val_op_add)
  have div: "\<exists>q. op_div a (op_add t uint256_1) = Inr q" if "length a = 8" for a
    using op_div_val [of a "op_add t uint256_1"] d that by auto
  obtain q1 where "op_div (op_shl uint256_1 256) (op_add t uint256_1) = Inr q1"
    using div [of "op_shl uint256_1 256"] one by (auto simp del: One_nat_def)
  moreover obtain q2 where "op_div (op_shr (op_not uint256_0) 20) (op_add t uint256_1) = Inr q2"
    using div [of "op_shr (op_not uint256_0) 20"] by auto
  ultimately show ?thesis by (simp add: GetBlockTrust_def Let_def t(1))
qed

lemma set_entry_returns: "returns (set_entry p f s)"
  by (simp add: set_entry_def returns_def)

lemma safely_set_entry:
  assumes "\<And>s b. core (f s b) = core b"
  shows "safely (placed n p q) (\<lambda>s. set_entry x (f s) s)"
proof (rule safely_placed)
  show "returns (set_entry x (f s) s)" for s by (rule set_entry_returns)
  show "ends_in (index_frame {} UNIV) s (set_entry x (f s) s)" for s
    using set_entry_frame [of "f s" s x "{}" UNIV] assms core_fields [OF assms] by simp
qed

lemma safely_entropy: "safely (placed n p q) (set_entry p (\<lambda>b. snd (SetStakeEntropyBit (GetStakeEntropyBit b) b)))"
  by (rule safely_set_entry) simp

lemma safely_proof_of_stake: "safely (placed n p q) (\<lambda>s. if IndexIsProofOfStake (heap s p)
    then bind (proof_of_stake_at hash) (\<lambda>x. set_entry p (\<lambda>b. b\<lparr>hashProofOfStake := x\<rparr>)) s else ret () s)"
proof (rule safely_placed)
  have "returns (proof_of_stake_at hash s)" for s :: "'a index_state_scheme"
    by (auto simp: proof_of_stake_at_def returns_def split: option.split)
  then show "returns (if IndexIsProofOfStake (heap s p)
      then bind (proof_of_stake_at hash) (\<lambda>x. set_entry p (\<lambda>b. b\<lparr>hashProofOfStake := x\<rparr>)) s else ret () s)"
    for s :: "'a index_state_scheme"
    by (intro returns_rules set_entry_returns)
  show "ends_in (index_frame {} {}) s (if IndexIsProofOfStake (heap s p)
      then bind (proof_of_stake_at hash) (\<lambda>x. set_entry p (\<lambda>b. b\<lparr>hashProofOfStake := x\<rparr>)) s else ret () s)"
    for s :: "'a index_state_scheme"
    by (intro tree.frame_rules proof_of_stake_at_frame set_entry_frame) simp_all
qed

lemma safely_modifier:
  assumes h: "\<And>b. length (HashFn E b) = 8"
  shows "safely (placed n p q) (ComputeNextStakeModifier E (Some q))"
  by (rule safely_placed [OF ComputeNextStakeModifier_returns [OF h] ends_in_index_frame [OF ComputeNextStakeModifier_grows]])

lemma checksum_returns: "placed n p q s \<Longrightarrow> \<exists>x. GetStakeModifierChecksum E (heap s) p = Inr x"
  by (simp add: GetStakeModifierChecksum_def placed_def)

lemma trust_returns: "\<exists>x. lift_uint (GetBlockTrust b) = Inr x"
  using GetBlockTrust_returns [of b] by (auto simp: lift_uint_def)

lemma stake_entry_safe:
  assumes h: "\<And>b. length (HashFn E b) = 8"
  shows "safely (placed n p q) (stake_entry E hash block p q)"
  unfolding stake_entry_def
  by (intro safely_bind safely_if safely_ret safely_gets safely_prod safely_proof_of_stake safely_modifier [OF h]
      trust_returns checksum_returns safely_set_entry; simp)


section \<open>Headers are accepted or refused\<close>

lemma link_entry_returns:
  assumes h: "\<And>b. length (HashFn E b) = 8" and t: "block_tree (heap s) {..<p}"
    and k: "\<And>x. x < Suc p \<Longrightarrow> known s (phashBlock (heap s x))"
    and q: "\<And>e. mapBlockIndex s (hashPrevBlock block) = Some e \<Longrightarrow> \<exists>q<p. e = Some q"
  shows "returns (link_entry E hash block p s)"
proof (cases "mapBlockIndex s (hashPrevBlock block)")
  case None
  then show ?thesis by (simp add: link_entry_def returns_basic)
next
  case (Some e)
  then obtain z where z: "mapBlockIndex s (hashPrevBlock block) = Some (Some z)" "z < p" using q by auto
  note place = link_entry_place [OF t z]
  have "placed (Suc p) p z (s\<lparr>heap := BuildSkip ((heap s)(p := (heap s p)\<lparr>pprev := Some z,
      nHeight := nHeight (heap s z) + 1\<rparr>)) p\<rparr>)"
    using place(2,3) k z(2) unfolding placed_def place(4) by (simp add: known_def)
  then show ?thesis using stake_entry_safe [OF h] unfolding safely_def place(1) by blast
qed

lemma finish_entry_returns:
  assumes "nHeight (heap s p) \<noteq> 0 \<Longrightarrow> pprev (heap s p) \<noteq> None"
  shows "returns (finish_entry p s)"
proof -
  obtain w where w: "GetBlockProof (heap s p) = Inr w" using GetBlockProof_val by blast
  have r: "core (snd (RaiseValidity 2 b)) = core b" for b by simp
  note same = core_fields(2,3) [OF r]
  show ?thesis using assms
    by (cases "nHeight (heap s p) = 0")
      (auto simp: finish_entry_def work_entry_def bind_app gets_def w lift_uint_def set_entry_def point_back_def same
        deref_app returns_basic split: option.split)
qed

lemma AddToBlockIndex_returns:
  assumes h: "\<And>b. length (HashFn E b) = 8" and ok: "index_ok s"
    and prev: "BlockHash E block \<noteq> hashPrevBlock block" "mapBlockIndex s (hashPrevBlock block) \<noteq> Some None"
  shows "returns (AddToBlockIndex E block s)"
proof (cases "mapBlockIndex s (BlockHash E block)")
  case (Some e)
  then show ?thesis by (simp add: AddToBlockIndex_def returns_basic)
next
  case None
  define p s1 where "p = next_free s" and "s1 = snd (projr (new_entry (BlockHash E block) block s))"
  have s1: "new_entry (BlockHash E block) block s = Inr (p, s1)"
    "mapBlockIndex s1 = (mapBlockIndex s)(BlockHash E block \<mapsto> Some p)"
    "heap s1 = (heap s)(p := (IndexOfBlock block)\<lparr>phashBlock := BlockHash E block\<rparr>)"
    by (simp_all add: p_def s1_def new_entry_def Let_def)
  have t: "block_tree (heap s) {..<p}" and m: "map_ok s" using ok by (simp_all add: index_ok_def p_def)
  have t1: "block_tree (heap s1) {..<p}" by (rule block_tree_core [OF t]) (simp add: s1)
  have q: "\<exists>q<p. e = Some q" if "mapBlockIndex s1 (hashPrevBlock block) = Some e" for e
    using that prev m by (cases e) (auto simp: s1 map_ok_def p_def)
  have k: "known s1 (phashBlock (heap s1 x))" if "x < Suc p" for x
  proof (cases "x = p")
    case False
    then have "mapBlockIndex s (phashBlock (heap s x)) = Some (Some x)" using that m by (simp add: map_ok_def p_def)
    then show ?thesis using False by (simp add: known_def s1)
  qed (simp add: known_def s1)
  have "returns (link_entry E (BlockHash E block) block p s1)" by (rule link_entry_returns [OF h t1 k q])
  then obtain s2 where s2: "link_entry E (BlockHash E block) block p s1 = Inr ((), s2)" by (auto simp: returns_def)
  have t2: "block_tree (heap s2) {..<Suc p}"
    by (rule link_entry_tree [OF t1 _ _ _ s2]) (use q in \<open>auto simp: s1 IndexOfBlock_fresh\<close>)
  have "pprev (heap s2 p) \<noteq> None" if "nHeight (heap s2 p) \<noteq> 0"
    using t2 that by (auto simp: block_tree_def entry_ok_def split: option.splits)
  then obtain s3 where "finish_entry p s2 = Inr ((), s3)" using finish_entry_returns by (fastforce simp: returns_def)
  then show ?thesis using None s1(1) s2 by (simp add: AddToBlockIndex_def bind_app returns_basic)
qed

lemma CheckBlockHeader_returns:
  assumes ok: "index_ok s" and a: "0 \<le> nStartPOABlock (Params E)"
  shows "returns (CheckBlockHeader E block pow v s)"
proof -
  have "returns (CheckPrevPoABlockHash E block s)"
  proof (cases "mapBlockIndex s (hashPrevBlock block)")
    case None
    then show ?thesis by (simp add: CheckPrevPoABlockHash_def bind_app block_at_def returns_basic)
  next
    case (Some e)
    show ?thesis
    proof (cases e)
      case None
      then show ?thesis using Some by (simp add: CheckPrevPoABlockHash_def bind_app block_at_known returns_basic)
    next
      case (Some q)
      with \<open>mapBlockIndex s (hashPrevBlock block) = Some e\<close> ok have "q \<in> {..<next_free s}" "block_tree (heap s) {..<next_free s}"
        by (auto simp: index_ok_def map_ok_def)
      then obtain z where "poa_back (heap s) (nStartPOABlock (Params E) + 1) (Some q) = Some (Inr z)"
        using poa_back_ends [of "heap s" _ q "nStartPOABlock (Params E) + 1"] a by auto
      then show ?thesis using Some \<open>mapBlockIndex s (hashPrevBlock block) = Some e\<close>
        by (simp add: CheckPrevPoABlockHash_def bind_app block_at_known gets_def lift_loop_def returns_basic)
    qed
  qed
  then show ?thesis unfolding CheckBlockHeader_def reject_def accept_def
    by (intro returns_rules)
qed

lemma ContextualCheckBlockHeader_returns: "returns (ContextualCheckBlockHeader E block (Some q) v s)"
  by (auto simp: ContextualCheckBlockHeader_def Let_def accept_def reject_def returns_def)


lemma ContextualCheckBlockHeader_same: "ContextualCheckBlockHeader E block (Some q) v s = Inr (x, s') \<Longrightarrow> s' = s"
  by (auto simp: ContextualCheckBlockHeader_def Let_def accept_def reject_def split: if_splits)

lemma AcceptBlockHeader_returns:
  assumes h: "\<And>b. length (HashFn E b) = 8" and ok: "index_ok s" and a: "0 \<le> nStartPOABlock (Params E)"
    and prev: "BlockHash E block \<noteq> hashPrevBlock block" "mapBlockIndex s (hashPrevBlock block) \<noteq> Some None"
  shows "returns (AcceptBlockHeader E block v s)"
proof (cases "mapBlockIndex s (BlockHash E block)")
  case (Some e)
  then show ?thesis by (cases e) (simp_all add: AcceptBlockHeader_def returns_basic)
next
  case None
  obtain b v1 s1 where c: "CheckBlockHeader E block False v s = Inr ((b, v1), s1)"
    using CheckBlockHeader_returns [OF ok a, of block False v] by (auto simp: returns_def)
  show ?thesis
  proof (cases b)
    case False
    then show ?thesis using None c by (simp add: AcceptBlockHeader_def bind_app returns_basic)
  next
    case True
    have g: "map_grows s s1" "index_ok s1"
      using ends_inD [OF CheckBlockHeader_grows c] index_ok_frame [OF ok map_grows_index_frame] by blast+
    have p1: "mapBlockIndex s1 (hashPrevBlock block) \<noteq> Some None"
    proof
      assume n: "mapBlockIndex s1 (hashPrevBlock block) = Some None"
      then have "mapBlockIndex s (hashPrevBlock block) = None"
        using prev(2) map_grows_facts(4) [OF g(1)] by (cases "mapBlockIndex s (hashPrevBlock block)") auto
      then show False
        using True c n by (auto simp: CheckBlockHeader_def CheckPrevPoABlockHash_def bind_app block_at_def accept_def reject_def
            split: if_splits)
    qed
    have "returns (find_prev E block s1)"
      using p1 unfolding find_prev_def by (intro returns_rules) (auto simp: returns_def deref_app)
    then obtain f where f: "find_prev E block s1 = Inr (f, s1)"
      unfolding returns_def find_prev_def by (auto simp: bind_Inr deref_Inr split: if_splits option.splits)
    show ?thesis
    proof (cases f)
      case (Inl x)
      then show ?thesis using None c True f by (cases x) (simp add: AcceptBlockHeader_def bind_app returns_basic)
    next
      case (Inr q)
      obtain d v3 where d: "ContextualCheckBlockHeader E block (Some q) v1 s1 = Inr ((d, v3), s1)"
        using ContextualCheckBlockHeader_returns [of E block q v1 s1] ContextualCheckBlockHeader_same [of E block q v1 s1]
        by (auto simp: returns_def)
      obtain r s4 where "AddToBlockIndex E block s1 = Inr (r, s4)"
        using AddToBlockIndex_returns [OF h g(2) prev(1) p1] by (auto simp: returns_def)
      then show ?thesis using None c True f Inr d by (cases d) (simp_all add: AcceptBlockHeader_def bind_app returns_basic)
    qed
  qed
qed


section \<open>Reachable states\<close>

text \<open>
  The steps that the validation code makes on the index: lookups that may enter \<open>NULL\<close>, the checks of a block, its work and
  the audited blocks, a header that is added (the genesis block) or accepted, and a new tip of the active chain. No block
  names itself as its predecessor, which would take a fixed point of the hash function.
\<close>

inductive index_step :: "'e block_env_scheme \<Rightarrow> index_state \<Rightarrow> index_state \<Rightarrow> bool" for E where
  lookup: "block_at h s = Inr (p, s') \<Longrightarrow> index_step E s s'"
| checked: "CheckBlock E block pow root sig v s = Inr (r, s') \<Longrightarrow> index_step E s s'"
| worked: "CheckWork E block e s = Inr (ok, s') \<Longrightarrow> index_step E s s'"
| audited: "CheckPoAContainRecentHash E block s = Inr (ok, s') \<Longrightarrow> index_step E s s'"
| added: "AddToBlockIndex E block s = Inr (e, s') \<Longrightarrow> BlockHash E block \<noteq> hashPrevBlock block \<Longrightarrow> index_step E s s'"
| accepted: "AcceptBlockHeader E block v s = Inr (r, s') \<Longrightarrow> BlockHash E block \<noteq> hashPrevBlock block \<Longrightarrow> index_step E s s'"
| new_tip: "mapBlockIndex s h = Some (Some t) \<Longrightarrow> SetTip (heap s) (chainActive s) (Some t) = Some c \<Longrightarrow>
     index_step E s (s\<lparr>chainActive := c\<rparr>)"

inductive reachable :: "'e block_env_scheme \<Rightarrow> index_state \<Rightarrow> bool" for E where
  empty: "reachable E empty_index"
| step: "reachable E s \<Longrightarrow> index_step E s s' \<Longrightarrow> reachable E s'"

lemma SetTip_ok:
  assumes ok: "index_ok s" and t: "mapBlockIndex s h = Some (Some t)" "SetTip (heap s) (chainActive s) (Some t) = Some c"
  shows "index_ok (s\<lparr>chainActive := c\<rparr>)"
proof -
  have n: "t < next_free s" using ok t(1) by (simp add: index_ok_def map_ok_def)
  have "block_tree (heap s) {..<next_free s}" "chainActive s = [] \<or> (\<exists>u\<in>{..<next_free s}. chainActive s = chain_of (heap s) u)"
    using ok by (auto simp: index_ok_def chain_ok_def)
  then have "c = chain_of (heap s) t" using SetTip_chain [of "heap s" "{..<next_free s}" t "chainActive s"] n t(2) by simp
  then show ?thesis using ok n by (auto simp: index_ok_def map_ok_def best_ok_def chain_ok_def split: option.splits)
qed

lemma index_step_ok:
  assumes ok: "index_ok s" and "index_step E s s'"
  shows "index_ok s'"
  using assms(2)
proof (cases rule: index_step.cases)
  case (lookup h p)
  then show ?thesis using index_ok_frame [OF ok map_grows_index_frame] ends_inD [OF block_at_ends] by blast
next
  case (checked block pow root sig v r)
  then show ?thesis using index_ok_frame [OF ok map_grows_index_frame] ends_inD [OF CheckBlock_grows] by blast
next
  case (worked block e b)
  then show ?thesis using index_ok_frame [OF ok ends_inD [OF CheckWork_frame]] by blast
next
  case (audited block b)
  then show ?thesis using index_ok_frame [OF ok audit_frame_index_frame] ends_inD [OF CheckPoAContainRecentHash_frame] by blast
next
  case (added block e)
  then show ?thesis using AddToBlockIndex_ok [OF ok] by blast
next
  case (accepted block v r)
  then show ?thesis using AcceptBlockHeader_ok [OF ok] by blast
next
  case (new_tip h t c)
  then show ?thesis using SetTip_ok [OF ok] by blast
qed

lemma reachable_ok: "reachable E s \<Longrightarrow> index_ok s"
  by (induction rule: reachable.induct) (blast intro: empty_index_ok index_step_ok)+


section \<open>Properties\<close>

text \<open>
  C33: in every state that the validation code can reach, the map names exactly the entries made, each under the hash of
  its block; the entries form a tree with right heights and skip pointers; the work of an entry is that of its chain; the
  best header has at least the work of every other; and the active chain is empty or the chain of an entry.
\<close>

theorem reachable_index:
  assumes "reachable E s"
  shows "(\<forall>h p. mapBlockIndex s h = Some (Some p) \<longleftrightarrow> p < next_free s \<and> phashBlock (heap s p) = h)
    \<and> block_tree (heap s) {..<next_free s} \<and> (\<forall>p<next_free s. work_ok (heap s) p)
    \<and> (case pindexBestHeader s of None \<Rightarrow> next_free s = 0
       | Some b \<Rightarrow> b < next_free s \<and> (\<forall>p<next_free s. val (nChainWork (heap s p)) \<le> val (nChainWork (heap s b))))
    \<and> (chainActive s = [] \<or> (\<exists>t<next_free s. chainActive s = chain_of (heap s) t))"
  using reachable_ok [OF assms] by (simp add: index_ok_def map_ok_def best_ok_def chain_ok_def)

text \<open>
  C34: in every reachable state a header whose predecessor is not entered as \<open>NULL\<close> is accepted or refused with a
  result: no loop runs forever, no pointer is \<open>NULL\<close>, no assertion fails and no division by zero is thrown.
\<close>

theorem header_always_answered:
  assumes "reachable E s" "\<And>b. length (HashFn E b) = 8" "0 \<le> nStartPOABlock (Params E)"
    and "BlockHash E block \<noteq> hashPrevBlock block" "mapBlockIndex s (hashPrevBlock block) \<noteq> Some None"
  shows "\<exists>ok v' e s'. AcceptBlockHeader E block v s = Inr (((ok, v'), e), s') \<and> reachable E s'"
proof -
  have "returns (AcceptBlockHeader E block v s)"
    by (rule AcceptBlockHeader_returns [OF assms(2) reachable_ok [OF assms(1)] assms(3-5)])
  then obtain ok v' e s' where r: "AcceptBlockHeader E block v s = Inr (((ok, v'), e), s')"
    by (auto simp: returns_def)
  then show ?thesis using reachable.step [OF assms(1) index_step.accepted [OF r assms(4)]] by blast
qed

text \<open>
  C36: two headers stop the node. The first announces an audit block on an unknown predecessor: it is refused, but looking
  for the predecessor has entered \<open>NULL\<close> under its hash. The second names the same predecessor, and \<open>NULL\<close> is dereferenced.
\<close>

theorem null_predecessor_crashes:
  assumes "mapBlockIndex s (BlockHash E audit) = None" "mapBlockIndex s (BlockHash E block) = None"
    and "mapBlockIndex s prev = None" "hashPrevBlock audit = prev" "hashPrevBlock block = prev"
    and "IsPoABlockByVersion audit" "CheckPoABlockMinedHash (Params E) s audit" "\<not> IsPoABlockByVersion block"
    and "BlockHash E block \<noteq> hashGenesisBlock (Params E)" "BlockHash E block \<noteq> prev"
  shows "\<exists>v1 s1. AcceptBlockHeader E audit v s = Inr (((False, v1), None), s1) \<and> AcceptBlockHeader E block v' s1 = Inl NullDereference"
proof -
  let ?s1 = "s\<lparr>mapBlockIndex := (mapBlockIndex s)(prev \<mapsto> None)\<rparr>"
  have "CheckPrevPoABlockHash E audit s = Inr (False, ?s1)"
    using assms(3,4) by (simp add: CheckPrevPoABlockHash_def bind_app block_at_def)
  then have "AcceptBlockHeader E audit v s = Inr (((False, StateDoS 50 REJECT_INVALID ''high-hash'' False v), None), ?s1)"
    using assms(1,6,7) by (simp add: AcceptBlockHeader_def CheckBlockHeader_def bind_app reject_def)
  moreover have "AcceptBlockHeader E block v' ?s1 = Inl NullDereference"
    using assms(2,5,8-10) by (simp add: AcceptBlockHeader_def CheckBlockHeader_def bind_app accept_def find_prev_def deref_app)
  ultimately show ?thesis by blast
qed


text \<open>The index with one entry, that of the block of the examples, on the test network.\<close>

definition index_env :: block_env where
  "index_env = demo_block_env\<lparr>Params := testnet_params, HashFn := (\<lambda>_. set_uint256 1), HashQuarkFn := (\<lambda>_. set_uint256 1)\<rparr>"

definition first_index :: index_state where
  "first_index = snd (projr (AddToBlockIndex index_env demo_work_block empty_index))"

lemma index_env_fields:
  "Params index_env = testnet_params" "BlockHash index_env b = set_uint256 1" "length (HashFn index_env x) = 8"
  by (simp_all add: index_env_def BlockHash_def HeaderGetHash_def)

lemma small_hashes: "set_uint256 1 \<noteq> uint256_0" "set_uint256 1 \<noteq> set_uint256 5"
proof -
  have "val (set_uint256 1) = 1" "val (set_uint256 5) = 5" by simp_all
  then show "set_uint256 1 \<noteq> uint256_0" "set_uint256 1 \<noteq> set_uint256 5" by fastforce+
qed

lemma not_genesis: "set_uint256 1 \<noteq> hashGenesisBlock testnet_params"
proof
  assume "set_uint256 1 = hashGenesisBlock testnet_params"
  then have "hd (set_uint256 1) = hd (hashGenesisBlock testnet_params)" by simp
  then show False by (simp add: set_uint256_def testnet_params_def)
qed

lemma first_index_added: "AddToBlockIndex index_env demo_work_block empty_index = Inr (Some 0, first_index)"
proof -
  have "returns (AddToBlockIndex index_env demo_work_block empty_index)"
    by (rule AddToBlockIndex_returns [OF index_env_fields(3) empty_index_ok])
      (simp_all add: index_env_fields demo_work_block_def NullBlock_def NullHeader_def CBlockHeader.defs empty_index_def
        small_hashes)
  then obtain e s where r: "AddToBlockIndex index_env demo_work_block empty_index = Inr (e, s)" by (auto simp: returns_def)
  then have "e = Some 0" by (auto simp: AddToBlockIndex_def empty_index_def new_entry_def Let_def bind_Inr)
  then show ?thesis using r by (simp add: first_index_def)
qed

lemma first_index_reachable: "reachable index_env first_index"
  by (rule reachable.step [OF reachable.empty index_step.added [OF first_index_added]])
    (simp add: index_env_fields demo_work_block_def NullBlock_def NullHeader_def CBlockHeader.defs small_hashes)


theorem reachable_index_witness: "reachable index_env first_index \<and> index_ok first_index"
  using reachable_index [OF first_index_reachable] first_index_reachable
  by (simp add: index_ok_def map_ok_def best_ok_def chain_ok_def)

definition next_header :: CBlock where
  "next_header = NullBlock\<lparr>hashPrevBlock := set_uint256 5\<rparr>"

definition audit_header :: CBlock where
  "audit_header = next_header\<lparr>nVersion := 100\<rparr>"

lemma next_header_fields: "hashPrevBlock next_header = set_uint256 5" "hashPrevBlock audit_header = set_uint256 5"
  "IsPoABlockByVersion audit_header" "\<not> IsPoABlockByVersion next_header"
  by (simp_all add: next_header_def audit_header_def IsPoABlockByVersion_def NullBlock_def NullHeader_def CBlockHeader.defs
      POA_BLOCK_VERSION_LOW_LIMIT_def)

lemma finish_entry_map: "finish_entry p s = Inr (u, s') \<Longrightarrow> mapBlockIndex s' = mapBlockIndex s"
  by (auto simp: finish_entry_def work_entry_def point_back_def bind_Inr gets_Inr deref_Inr set_entry_def split: if_splits)

lemma first_index_map: "mapBlockIndex first_index = [set_uint256 1 \<mapsto> Some 0]"
proof -
  obtain s1 s2 where s1: "new_entry (set_uint256 1) demo_work_block empty_index = Inr (0, s1)"
      "mapBlockIndex s1 = [set_uint256 1 \<mapsto> Some 0]"
    and s2: "link_entry index_env (set_uint256 1) demo_work_block 0 s1 = Inr ((), s2)" "finish_entry 0 s2 = Inr ((), first_index)"
    using first_index_added
    by (auto simp: AddToBlockIndex_def empty_index_def new_entry_def Let_def bind_Inr index_env_fields)
  have "hashPrevBlock demo_work_block = uint256_0"
    by (simp add: demo_work_block_def NullBlock_def NullHeader_def CBlockHeader.defs)
  then have "s2 = s1" using s2(1) s1(2) small_hashes(1) by (simp add: link_entry_def)
  then show ?thesis using finish_entry_map [OF s2(2)] s1(2) by simp
qed

theorem header_always_answered_witness:
  "\<exists>ok v' e s'. AcceptBlockHeader index_env next_header NewState first_index = Inr (((ok, v'), e), s') \<and> reachable index_env s'"
  by (rule header_always_answered [OF first_index_reachable index_env_fields(3)])
    (simp_all add: index_env_fields next_header_fields small_hashes small_hashes(2) [symmetric] first_index_map testnet_params_def
      main_params_def)

theorem null_predecessor_crashes_witness:
  "\<exists>v1 s1. AcceptBlockHeader index_env audit_header NewState empty_index = Inr (((False, v1), None), s1)
    \<and> AcceptBlockHeader index_env next_header NewState s1 = Inl NullDereference"
  by (rule null_predecessor_crashes [where prev = "set_uint256 5"])
    (simp_all add: index_env_fields next_header_fields small_hashes not_genesis empty_index_def CheckPoABlockMinedHash_def,
      simp add: testnet_params_def)

end
