(* ===== verification/Compressor.thy ===== *)
theory Compressor
  imports Script_Standard Transaction Script_Limits
begin

text \<open>
  \<open>compressor.h\<close> and \<open>compressor.cpp\<close>: the compact forms in which unspent outputs are stored. A script of one
  of the standard forms shrinks to a one-byte tag and its hash or key, an amount to an integer with its trailing zeros
  counted. Checking and decompressing a public key are operations of the elliptic-curve library: arguments \<open>fully_valid\<close> and
  \<open>key_decompress\<close>.
\<close>

section \<open>Scripts\<close>

definition IsToKeyID :: "script \<Rightarrow> bytes option" where
  "IsToKeyID script =
     (if length script = 25 \<and> script ! 0 = OP_DUP \<and> script ! 1 = OP_HASH160 \<and> script ! 2 = 20
        \<and> script ! 23 = OP_EQUALVERIFY \<and> script ! 24 = OP_CHECKSIG
      then Some (take 20 (drop 3 script)) else None)"

definition IsToScriptID :: "script \<Rightarrow> bytes option" where
  "IsToScriptID script =
     (if length script = 23 \<and> script ! 0 = OP_HASH160 \<and> script ! 1 = 20 \<and> script ! 22 = OP_EQUAL
      then Some (take 20 (drop 2 script)) else None)"

definition IsToPubKey :: "(CPubKey \<Rightarrow> bool) \<Rightarrow> script \<Rightarrow> CPubKey option" where
  "IsToPubKey fully_valid script =
     (if length script = 35 \<and> script ! 0 = 33 \<and> script ! 34 = OP_CHECKSIG \<and> (script ! 1 = 2 \<or> script ! 1 = 3)
      then Some (PubKeySet (take 33 (drop 1 script)))
      else if length script = 67 \<and> script ! 0 = 65 \<and> script ! 66 = OP_CHECKSIG \<and> script ! 1 = 4
      then (let pubkey = PubKeySet (take 65 (drop 1 script)) in if fully_valid pubkey then Some pubkey else None)
      else None)"

definition Compress :: "(CPubKey \<Rightarrow> bool) \<Rightarrow> script \<Rightarrow> bytes option" where
  "Compress fully_valid script =
     (case IsToKeyID script of Some keyID \<Rightarrow> Some (0 # keyID)
      | None \<Rightarrow> (case IsToScriptID script of Some scriptID \<Rightarrow> Some (1 # scriptID)
      | None \<Rightarrow> (case IsToPubKey fully_valid script of None \<Rightarrow> None
      | Some pubkey \<Rightarrow>
          if pubkey ! 0 = 2 \<or> pubkey ! 0 = 3 then Some (pubkey ! 0 # take 32 (drop 1 pubkey))
          else if pubkey ! 0 = 4 then Some ((4 OR (pubkey ! 64 AND 1)) # take 32 (drop 1 pubkey))
          else None)))"

definition GetSpecialSize :: "u32 \<Rightarrow> nat" where
  "GetSpecialSize nSize =
     (if nSize = 0 \<or> nSize = 1 then 20
      else if nSize = 2 \<or> nSize = 3 \<or> nSize = 4 \<or> nSize = 5 then 32 else 0)"

text \<open>A script that cannot be decompressed is left as it was.\<close>

definition Decompress :: "(CPubKey \<Rightarrow> CPubKey option) \<Rightarrow> u32 \<Rightarrow> bytes \<Rightarrow> script \<Rightarrow> script" where
  "Decompress key_decompress nSize vch script =
     (if nSize = 0 then [OP_DUP, OP_HASH160, 20] @ take 20 vch @ [OP_EQUALVERIFY, OP_CHECKSIG]
      else if nSize = 1 then [OP_HASH160, 20] @ take 20 vch @ [OP_EQUAL]
      else if nSize = 2 \<or> nSize = 3 then [33, ucast nSize] @ take 32 vch @ [OP_CHECKSIG]
      else if nSize = 4 \<or> nSize = 5 then
        (case key_decompress (PubKeySet (ucast (nSize - 2) # take 32 vch)) of
           None \<Rightarrow> script
         | Some pubkey \<Rightarrow> [65] @ take 65 pubkey @ [OP_CHECKSIG])
      else script)"

abbreviation (input) MAX_SCRIPT_SIZE :: nat where "MAX_SCRIPT_SIZE \<equiv> 10000"
abbreviation (input) nSpecialScripts :: nat where "nSpecialScripts \<equiv> 6"

definition script_size :: "(CPubKey \<Rightarrow> bool) \<Rightarrow> script \<Rightarrow> nat" where
  "script_size fully_valid script =
     (case Compress fully_valid script of Some compr \<Rightarrow> length compr
      | None \<Rightarrow> length script + GetSizeOfVarInt (of_nat (length script + nSpecialScripts) :: u32))"

definition write_script :: "(CPubKey \<Rightarrow> bool) \<Rightarrow> script \<Rightarrow> bytes" where
  "write_script fully_valid script =
     (case Compress fully_valid script of Some compr \<Rightarrow> compr
      | None \<Rightarrow> WriteVarInt (of_nat (length script + nSpecialScripts) :: u32) @ script)"

text \<open>
  Reading into a script. For an overlong script the code first reads as many bytes as the old script has, in place, and
  appends \<open>OP_RETURN\<close> to them.
\<close>

definition read_script :: "(CPubKey \<Rightarrow> CPubKey option) \<Rightarrow> script \<Rightarrow> bytes \<Rightarrow> (script \<times> bytes) option" where
  "read_script key_decompress script bs = do {
     (nSize :: u32, bs) \<leftarrow> ReadVarInt bs;
     if nSize < of_nat nSpecialScripts then do {
       (vch, bs) \<leftarrow> read_raw (GetSpecialSize nSize) bs;
       Some (Decompress key_decompress nSize vch script, bs) }
     else do {
       let nSize = unat (nSize - of_nat nSpecialScripts);
       if nSize > MAX_SCRIPT_SIZE then do {
         (script, bs) \<leftarrow> read_raw (length script) bs;
         (ignored, bs) \<leftarrow> read_raw nSize bs;
         Some (script @ [OP_RETURN], bs) }
       else read_raw nSize bs } }"

section \<open>Amounts\<close>

text \<open>The loop that strips at most nine zeros; \<open>uint64_t\<close> arithmetic wraps.\<close>

function strip_zeros :: "u64 \<Rightarrow> nat \<Rightarrow> u64 \<times> nat" where
  "strip_zeros n e = (if n mod 10 = 0 \<and> e < 9 then strip_zeros (n div 10) (e + 1) else (n, e))"
  by pat_completeness auto
termination
  by (relation "measure (\<lambda>(n, e). 9 - e)") auto

declare strip_zeros.simps [simp del]

definition CompressAmount :: "u64 \<Rightarrow> u64" where
  "CompressAmount n =
     (if n = 0 then 0
      else (case strip_zeros n 0 of (n, e) \<Rightarrow>
        if e < 9 then (let d = n mod 10; n = n div 10 in 1 + (n * 9 + d - 1) * 10 + of_nat e)
        else 1 + (n - 1) * 10 + 9))"

primrec times_ten :: "nat \<Rightarrow> u64 \<Rightarrow> u64" where
  "times_ten 0 n = n"
| "times_ten (Suc e) n = times_ten e (n * 10)"

definition DecompressAmount :: "u64 \<Rightarrow> u64" where
  "DecompressAmount x =
     (if x = 0 then 0
      else (let x = x - 1; e = unat (x mod 10); x = x div 10;
                n = (if e < 9 then (let d = x mod 9 + 1; x = x div 9 in x * 10 + d) else x + 1)
            in times_ten e n))"

section \<open>Outputs\<close>

definition write_txout_compressed :: "(CPubKey \<Rightarrow> bool) \<Rightarrow> CTxOut \<Rightarrow> bytes" where
  "write_txout_compressed fully_valid txout =
     WriteVarInt (CompressAmount (of_int (nValue txout))) @ write_script fully_valid (scriptPubKey txout)"

definition read_txout_compressed ::
  "(CPubKey \<Rightarrow> CPubKey option) \<Rightarrow> CTxOut \<Rightarrow> bytes \<Rightarrow> (CTxOut \<times> bytes) option" where
  "read_txout_compressed key_decompress txout bs = do {
     (nVal, bs) \<leftarrow> ReadVarInt bs;
     let value = wrap64 (uint (DecompressAmount nVal));
     (script, bs) \<leftarrow> read_script key_decompress (scriptPubKey txout) bs;
     Some (txout\<lparr>nValue := value, scriptPubKey := script\<rparr>, bs) }"

section \<open>Amounts are read back\<close>

lemma strip_zeros_spec:
  assumes "strip_zeros n e0 = (m, e)" "n \<noteq> 0" "e0 \<le> 9"
  shows "e0 \<le> e \<and> e \<le> 9 \<and> m \<noteq> 0 \<and> unat n = unat m * 10 ^ (e - e0) \<and> (e < 9 \<longrightarrow> unat m mod 10 \<noteq> 0)"
  using assms
proof (induction n e0 rule: strip_zeros.induct)
  case (1 n e0)
  show ?case
  proof (cases "n mod 10 = 0 \<and> e0 < 9")
    case True
    then have "unat n mod 10 = 0" using unat_mod [of n 10] by simp
    then have n: "unat n = unat (n div 10) * 10" using unat_div [of n 10] div_mult_mod_eq [of "unat n" 10] by simp
    moreover have "unat n \<noteq> 0" using "1.prems"(2) by (simp add: unat_eq_zero)
    ultimately have "n div 10 \<noteq> 0" by auto
    then have i: "e0 + 1 \<le> e \<and> e \<le> 9 \<and> m \<noteq> 0 \<and> unat (n div 10) = unat m * 10 ^ (e - (e0 + 1)) \<and> (e < 9 \<longrightarrow> unat m mod 10 \<noteq> 0)"
      using 1(1) [OF True] 1(2) True by (simp add: strip_zeros.simps [of n])
    then have "e - e0 = Suc (e - (e0 + 1))" by linarith
    then show ?thesis using i n by simp
  next
    case False
    have "strip_zeros n e0 = (n, e0)" by (subst strip_zeros.simps) (simp only: if_not_P [OF False])
    then have "m = n" "e = e0" using 1(2) by simp_all
    moreover have "e0 < 9 \<longrightarrow> unat n mod 10 \<noteq> 0"
      using False unat_mod [of n 10] unat_eq_zero [of "n mod 10"] by auto
    ultimately show ?thesis using 1(3,4) by simp
  qed
qed

lemma times_ten_eq: "times_ten e n = n * 10 ^ e"
  by (induction e arbitrary: n) (simp_all add: ac_simps)

text \<open>The encoding as a number, without wrap-around.\<close>

definition compressed :: "nat \<Rightarrow> nat \<Rightarrow> nat" where
  "compressed m e = (if e < 9 then 1 + (m div 10 * 9 + m mod 10 - 1) * 10 + e else 1 + (m - 1) * 10 + 9)"

lemma CompressAmount_spec:
  assumes "strip_zeros n 0 = (m, e)" "n \<noteq> 0"
  shows "CompressAmount n = of_nat (compressed (unat m) e)"
proof -
  note s = strip_zeros_spec [OF assms, simplified]
  show ?thesis
  proof (cases "e < 9")
    case True
    then have d: "1 \<le> unat m mod 10" using s by simp
    have "(m div 10 * 9 + m mod 10 - 1 :: u64) = of_nat (unat m div 10 * 9 + unat m mod 10 - 1)"
      using d by (simp add: of_nat_diff unat_div unat_mod word_arith_nat_div word_arith_nat_mod)
    moreover have "CompressAmount n = 1 + (m div 10 * 9 + m mod 10 - 1) * 10 + of_nat e"
      using True assms by (simp add: CompressAmount_def Let_def)
    ultimately have "CompressAmount n = of_nat (1 + (unat m div 10 * 9 + unat m mod 10 - 1) * 10 + e)"
      by (simp only: of_nat_add of_nat_mult) simp
    then show ?thesis using True by (simp only: compressed_def if_True)
  next
    case False
    have "1 \<le> unat m" using s by (simp add: Suc_le_eq unat_gt_0)
    then have "(m - 1 :: u64) = of_nat (unat m - 1)" by (simp add: of_nat_diff)
    then show ?thesis using False assms by (simp add: CompressAmount_def compressed_def)
  qed
qed

lemma DecompressAmount_compressed:
  assumes "compressed m e < 2 ^ 64" "0 < m" "e \<le> 9" "e < 9 \<Longrightarrow> m mod 10 \<noteq> 0"
  shows "DecompressAmount (of_nat (compressed m e)) = of_nat (m * 10 ^ e)"
proof -
  let ?K = "compressed m e"
  have K: "0 < ?K" by (simp add: compressed_def)
  have u: "unat (of_nat ?K :: u64) = ?K" using assms(1) by (simp add: unsigned_of_nat take_bit_nat_eq_self)
  have nz: "(of_nat ?K :: u64) \<noteq> 0" using u K by (metis less_irrefl unat_0)
  have p: "unat (of_nat ?K - 1 :: u64) = ?K - 1" using nz u by (simp add: unat_minus_one)
  show ?thesis
  proof (cases "e < 9")
    case True
    let ?Q = "m div 10" and ?D = "m mod 10"
    have D: "1 \<le> ?D" "?D \<le> 9" using assms(4) True by simp_all
    have k: "?K - 1 = (?Q * 9 + (?D - 1)) * 10 + e" using D True by (simp add: compressed_def)
    have "(a * 10 + e) mod 10 = e" "(a * 10 + e) div 10 = a" for a :: nat using True by simp_all
    then have r: "(?K - 1) mod 10 = e" "(?K - 1) div 10 = ?Q * 9 + (?D - 1)" unfolding k by blast+
    have "b < 9 \<Longrightarrow> (a * 9 + b) mod 9 = b" "b < 9 \<Longrightarrow> (a * 9 + b) div 9 = a" for a b :: nat by simp_all
    moreover have "?D - 1 < 9" by simp
    ultimately have r2: "(?Q * 9 + (?D - 1)) mod 9 = ?D - 1" "(?Q * 9 + (?D - 1)) div 9 = ?Q" by blast+
    have e: "unat ((of_nat ?K - 1 :: u64) mod 10) = e" using p r by (simp add: unat_mod)
    have q: "((of_nat ?K - 1 :: u64) div 10 div 9) = of_nat ?Q"
    proof -
      have "unat ((of_nat ?K - 1 :: u64) div 10 div 9) = ?Q" using p r r2 by (simp add: unat_div)
      from arg_cong [OF this, of "of_nat :: nat \<Rightarrow> u64"] show ?thesis by simp
    qed
    have d: "((of_nat ?K - 1 :: u64) div 10 mod 9) + 1 = of_nat ?D"
    proof -
      have "unat ((of_nat ?K - 1 :: u64) div 10 mod 9) = ?D - 1" using p r r2 by (simp add: unat_div unat_mod)
      from arg_cong [OF this, of "of_nat :: nat \<Rightarrow> u64"]
      have "(of_nat ?K - 1 :: u64) div 10 mod 9 = of_nat (?D - 1)" by simp
      then show ?thesis using D by (simp add: of_nat_diff)
    qed
    have "(of_nat ?Q * 10 + of_nat ?D :: u64) = of_nat (?Q * 10 + ?D)" by (simp only: of_nat_add of_nat_mult) simp
    then have "(of_nat ?Q * 10 + of_nat ?D :: u64) = of_nat m" by (simp only: div_mult_mod_eq)
    then show ?thesis using nz e q d True by (simp add: DecompressAmount_def Let_def times_ten_eq)
  next
    case False
    then have e9: "e = 9" using assms(3) by simp
    have k: "?K - 1 = (m - 1) * 10 + 9" using False by (simp add: compressed_def)
    have r: "(?K - 1) mod 10 = 9" "(?K - 1) div 10 = m - 1" unfolding k by simp_all
    have e: "unat ((of_nat ?K - 1 :: u64) mod 10) = 9" using p r by (simp add: unat_mod)
    have q: "(of_nat ?K - 1 :: u64) div 10 + 1 = of_nat m"
      using p r assms(2) by (simp add: word_arith_nat_div of_nat_diff)
    show ?thesis using nz e q e9 by (simp add: DecompressAmount_def Let_def times_ten_eq)
  qed
qed

lemma compressed_bound:
  assumes "0 < m" "e < 9 \<Longrightarrow> m mod 10 \<noteq> 0"
  shows "compressed m e \<le> 9 * (m * 10 ^ e) + 8"
proof (cases "e < 9")
  case True
  have "m * 1 \<le> m * 10 ^ e" by (rule mult_le_mono2) simp
  moreover have "1 + (q * 9 + d - 1) * 10 + e \<le> 9 * (q * 10 + d) + 8" if "1 \<le> d" "d \<le> 9" for q d :: nat
    using that True by (simp add: algebra_simps)
  from this [of "m mod 10" "m div 10"]
  have "compressed m e \<le> 9 * m + 8" using assms(2) True by (simp add: compressed_def)
  ultimately show ?thesis by linarith
next
  case False
  have "m * 2 \<le> m * 10 ^ e"
  proof (rule mult_le_mono2)
    have "(10 :: nat) ^ 9 \<le> 10 ^ e" using False by (intro power_increasing) simp_all
    then show "(2 :: nat) \<le> 10 ^ e" by simp
  qed
  then have "1 + (m - 1) * 10 + 9 \<le> 9 * (m * 10 ^ e) + 8" using assms(1) by linarith
  then show ?thesis using False by (simp only: compressed_def if_False)
qed

lemma DecompressAmount_Compress:
  assumes "9 * unat n + 8 < 2 ^ 64"
  shows "DecompressAmount (CompressAmount n) = n"
proof (cases "n = 0")
  case True
  then show ?thesis by (simp add: CompressAmount_def DecompressAmount_def)
next
  case False
  obtain m e where z: "strip_zeros n 0 = (m, e)" by fastforce
  note s = strip_zeros_spec [OF z False, simplified]
  have m: "0 < unat m" using s by (simp add: unat_gt_0)
  have "compressed (unat m) e \<le> 9 * unat n + 8" using compressed_bound [of "unat m" e] m s by simp
  then have "compressed (unat m) e < 2 ^ 64" using assms by simp
  then have "DecompressAmount (CompressAmount n) = of_nat (unat m * 10 ^ e)"
    using DecompressAmount_compressed [of "unat m" e] m s by (simp add: CompressAmount_spec [OF z False])
  then have "DecompressAmount (CompressAmount n) = of_nat (unat n)" using s by (simp only:)
  then show ?thesis by simp
qed

text \<open>Above that bound the encoding wraps around, although such amounts are below the total supply.\<close>

lemma large_amount_corrupted:
  "CompressAmount 6000000000000000001 = 17106511852580896769
    \<and> DecompressAmount (CompressAmount 6000000000000000001) \<noteq> 6000000000000000001"
  by code_simp

section \<open>Scripts are read back\<close>

text \<open>
  What the curve library documents: decompressing a key drops no information, so the compressed form of a fully valid
  uncompressed key, its first coordinate and the parity of the second, decompresses to that key.
\<close>

definition compressed_key :: "CPubKey \<Rightarrow> CPubKey" where
  "compressed_key pubkey = (2 + (pubkey ! 64 AND 1)) # take 32 (drop 1 pubkey)"

definition decompresses :: "(CPubKey \<Rightarrow> bool) \<Rightarrow> (CPubKey \<Rightarrow> CPubKey option) \<Rightarrow> bool" where
  "decompresses fully_valid key_decompress \<longleftrightarrow>
     (\<forall>pubkey. fully_valid pubkey \<and> length pubkey = 65 \<and> hd pubkey = 4 \<longrightarrow> key_decompress (compressed_key pubkey) = Some pubkey)"

lemma list_from_ends:
  assumes "length s = i + k + length z" "take i s = x" "drop (i + k) s = z"
  shows "s = x @ take k (drop i s) @ z"
  using assms by (metis append_take_drop_id drop_drop add.commute)

lemma IsToKeyID_Some:
  assumes "IsToKeyID s = Some h"
  shows "s = [OP_DUP, OP_HASH160, 20] @ h @ [OP_EQUALVERIFY, OP_CHECKSIG] \<and> length h = 20"
proof -
  from assms have l: "length s = 25" and h: "h = take 20 (drop 3 s)"
    and b: "s ! 0 = OP_DUP" "s ! 1 = OP_HASH160" "s ! 2 = 20" "s ! 23 = OP_EQUALVERIFY" "s ! 24 = OP_CHECKSIG"
    by (simp_all add: IsToKeyID_def split: if_splits)
  have "take 3 s = [OP_DUP, OP_HASH160, 20]"
    using l b by (intro nth_equalityI) (auto simp: nth_Cons less_Suc_eq numeral_eq_Suc split: nat.splits)
  moreover have "drop 23 s = [OP_EQUALVERIFY, OP_CHECKSIG]"
    using l b by (intro nth_equalityI) (auto simp: nth_Cons less_Suc_eq numeral_eq_Suc split: nat.splits)
  ultimately show ?thesis using list_from_ends [of s 3 20 "[OP_EQUALVERIFY, OP_CHECKSIG]"] l h by simp
qed

lemma IsToScriptID_Some:
  assumes "IsToScriptID s = Some h"
  shows "s = [OP_HASH160, 20] @ h @ [OP_EQUAL] \<and> length h = 20"
proof -
  from assms have l: "length s = 23" and h: "h = take 20 (drop 2 s)"
    and b: "s ! 0 = OP_HASH160" "s ! 1 = 20" "s ! 22 = OP_EQUAL"
    by (simp_all add: IsToScriptID_def split: if_splits)
  have "take 2 s = [OP_HASH160, 20]"
    using l b by (intro nth_equalityI) (auto simp: nth_Cons less_Suc_eq numeral_eq_Suc split: nat.splits)
  moreover have "drop 22 s = [OP_EQUAL]"
    using l b by (intro nth_equalityI) (auto simp: nth_Cons less_Suc_eq numeral_eq_Suc split: nat.splits)
  ultimately show ?thesis using list_from_ends [of s 2 20 "[OP_EQUAL]"] l h by simp
qed

lemma IsToPubKey_Some:
  assumes "IsToPubKey fv s = Some pk"
  shows "(\<exists>x c. s = [33, c] @ x @ [OP_CHECKSIG] \<and> length x = 32 \<and> (c = 2 \<or> c = 3) \<and> pk = c # x)
    \<or> (s = [65] @ pk @ [OP_CHECKSIG] \<and> length pk = 65 \<and> hd pk = 4 \<and> fv pk)"
proof (cases "length s = 35")
  case True
  with assms have b: "s ! 0 = 33" "s ! 34 = OP_CHECKSIG" "s ! 1 = 2 \<or> s ! 1 = 3" and pk: "pk = PubKeySet (take 33 (drop 1 s))"
    by (auto simp: IsToPubKey_def split: if_splits)
  let ?x = "take 32 (drop 2 s)"
  have "take 2 s = [33, s ! 1]"
    using True b by (intro nth_equalityI) (auto simp: nth_Cons less_Suc_eq numeral_eq_Suc split: nat.splits)
  moreover have "drop 34 s = [OP_CHECKSIG]"
    using True b by (intro nth_equalityI) (auto simp: nth_Cons less_Suc_eq numeral_eq_Suc split: nat.splits)
  ultimately have s: "s = [33, s ! 1] @ ?x @ [OP_CHECKSIG]" using list_from_ends [of s 2 32 "[OP_CHECKSIG]"] True by simp
  have "length ?x = 32" by (simp add: True)
  with s obtain x c where x: "s = [33, c] @ x @ [OP_CHECKSIG]" "length x = 32" by blast
  then have "c = 2 \<or> c = 3" using b(3) by simp
  moreover from this have "pk = c # x" using pk x by (auto simp: PubKeySet_def GetLen_def)
  ultimately show ?thesis using x by blast
next
  case False
  with assms have l: "length s = 67" and b: "s ! 0 = 65" "s ! 66 = OP_CHECKSIG" "s ! 1 = 4"
    and pk: "pk = PubKeySet (take 65 (drop 1 s))" "fv pk"
    by (auto simp: IsToPubKey_def Let_def split: if_splits)
  let ?x = "take 65 (drop 1 s)"
  have "take 1 s = [65]"
    using l b by (intro nth_equalityI) (auto simp: nth_Cons less_Suc_eq numeral_eq_Suc split: nat.splits)
  moreover have "drop 66 s = [OP_CHECKSIG]"
    using l b by (intro nth_equalityI) (auto simp: nth_Cons less_Suc_eq numeral_eq_Suc split: nat.splits)
  ultimately have s: "s = [65] @ ?x @ [OP_CHECKSIG]" using list_from_ends [of s 1 65 "[OP_CHECKSIG]"] l by simp
  have hx: "hd ?x = 4" using b(3) l by (simp add: hd_conv_nth)
  have "pk = ?x" using pk(1) hx l by (auto simp: PubKeySet_def GetLen_def)
  then show ?thesis using s hx pk(2) l by simp
qed

lemma Compress_cases:
  assumes "Compress fv s = Some out"
  obtains (keyid) h where "s = [OP_DUP, OP_HASH160, 20] @ h @ [OP_EQUALVERIFY, OP_CHECKSIG]" "length h = 20" "out = 0 # h"
  | (scriptid) h where "s = [OP_HASH160, 20] @ h @ [OP_EQUAL]" "length h = 20" "out = 1 # h"
  | (compressed) c x where "s = [33, c] @ x @ [OP_CHECKSIG]" "length x = 32" "c = 2 \<or> c = 3" "out = c # x"
  | (full) pk where "s = [65] @ pk @ [OP_CHECKSIG]" "length pk = 65" "hd pk = 4" "fv pk"
      "out = (4 OR (pk ! 64 AND 1)) # take 32 (drop 1 pk)"
proof (cases "IsToKeyID s")
  case (Some h)
  then show ?thesis using assms IsToKeyID_Some [OF Some] keyid by (simp add: Compress_def)
next
  case k: None
  show ?thesis
  proof (cases "IsToScriptID s")
    case (Some h)
    then show ?thesis using assms k IsToScriptID_Some [OF Some] scriptid by (simp add: Compress_def)
  next
    case None
    then obtain pk where pk: "IsToPubKey fv s = Some pk"
      using assms k by (cases "IsToPubKey fv s") (simp_all add: Compress_def)
    from IsToPubKey_Some [OF pk]
    consider (a) x c where "s = [33, c] @ x @ [OP_CHECKSIG]" "length x = 32" "c = 2 \<or> c = 3" "pk = c # x"
      | (b) "s = [65] @ pk @ [OP_CHECKSIG]" "length pk = 65" "hd pk = 4" "fv pk"
      by blast
    then show ?thesis
    proof cases
      case a
      then show ?thesis using assms k None pk compressed by (auto simp add: Compress_def)
    next
      case b
      moreover from this have "pk ! 0 = 4" by (cases pk) simp_all
      ultimately show ?thesis using assms k None pk full by (simp add: Compress_def)
    qed
  qed
qed

text \<open>The tag of a compressed script is a number of one byte below \<open>nSpecialScripts\<close>.\<close>

lemma ReadVarInt_small:
  assumes "unat t < 128"
  shows "ReadVarInt (t # bs) = Some (ucast t :: u32, bs)"
proof -
  have "t AND 0x7F = t" using assms by (intro low_bits_7F) (simp_all add: word_le_nat_alt)
  moreover have "t AND 0x80 = 0" using digit_bits(3) [of t] calculation by simp
  ultimately show ?thesis by (simp add: ReadVarInt_def)
qed

lemma parity_cases: "(x :: byte) AND 1 = 0 \<or> x AND 1 = 1"
  by (simp add: and_one_eq mod2_eq_if)

lemma read_script_write:
  assumes "decompresses fv kd" "length s < 2 ^ 32 - 6"
  shows "read_script kd [] (write_script fv s @ rest) = Some (if Compress fv s = None \<and> length s > MAX_SCRIPT_SIZE then [OP_RETURN] else s, rest)"
proof (cases "Compress fv s")
  case None
  have "unat (of_nat (length s + 6) :: u32) = take_bit 32 (length s + 6)" by (simp only: unsigned_of_nat) simp
  then have "unat (of_nat (length s + 6) :: u32) = length s + 6" using assms(2) by (simp only: take_bit_nat_eq_self)
  moreover have "\<not> (of_nat (length s + 6) :: u32) < 6" using calculation by (simp add: word_less_nat_alt)
  moreover have "(of_nat (length s + 6) :: u32) - 6 = of_nat (length s)" by simp
  moreover have "unat (of_nat (length s) :: u32) = length s"
    using assms(2) by (simp add: unsigned_of_nat take_bit_nat_eq_self)
  ultimately show ?thesis
    using None by (simp add: read_script_def write_script_def ReadVarInt_write read_raw_def Let_def del: of_nat_add)
next
  case (Some out)
  then show ?thesis
  proof (cases rule: Compress_cases)
    case (keyid h)
    then show ?thesis using Some
      by (simp add: read_script_def write_script_def ReadVarInt_small GetSpecialSize_def read_raw_def Decompress_def)
  next
    case (scriptid h)
    then show ?thesis using Some
      by (simp add: read_script_def write_script_def ReadVarInt_small GetSpecialSize_def read_raw_def Decompress_def)
  next
    case (compressed c x)
    then show ?thesis using Some
      by (auto simp add: read_script_def write_script_def ReadVarInt_small GetSpecialSize_def read_raw_def Decompress_def)
  next
    case (full pk)
    have kd: "kd (compressed_key pk) = Some pk" using assms(1) full(2-4) by (simp add: decompresses_def)
    have set: "PubKeySet (compressed_key pk) = compressed_key pk" and l: "length (compressed_key pk) = 33"
      using full(2) parity_cases [of "pk ! 64"] by (auto simp: PubKeySet_def compressed_key_def GetLen_def)
    show ?thesis using Some full kd set parity_cases [of "pk ! 64"]
      by (auto simp: read_script_def write_script_def ReadVarInt_small GetSpecialSize_def read_raw_def Decompress_def compressed_key_def)
  qed
qed

lemma length_write_script: "length (write_script fv s) = script_size fv s"
  by (simp add: write_script_def script_size_def WriteVarInt_def length_varint_loop split: option.splits)

section \<open>Outputs are read back\<close>

text \<open>What the storage keeps of an output, and the outputs it keeps that of.\<close>

definition stored_txout :: "CTxOut \<Rightarrow> CTxOut" where
  "stored_txout out = NewTxOut (nValue out) (scriptPubKey out)"

definition storable :: "CTxOut \<Rightarrow> bool" where
  "storable out \<longleftrightarrow> 0 \<le> nValue out \<and> 9 * nValue out + 8 < 2 ^ 64 \<and> length (scriptPubKey out) \<le> MAX_SCRIPT_SIZE"

lemma amount_read_back:
  assumes "0 \<le> v" "9 * v + 8 < 2 ^ 64"
  shows "wrap64 (uint (DecompressAmount (CompressAmount (of_int v)))) = v"
proof -
  have u: "uint (of_int v :: u64) = v" using assms by (simp add: unsigned_of_int take_bit_int_eq_self)
  then have "9 * int (unat (of_int v :: u64)) + 8 < 2 ^ 64" using assms(2) by simp
  then have "int (9 * unat (of_int v :: u64) + 8) < int (2 ^ 64)" by simp
  then have "9 * unat (of_int v :: u64) + 8 < 2 ^ 64" by (simp only: of_nat_less_iff)
  then have "DecompressAmount (CompressAmount (of_int v)) = of_int v" by (rule DecompressAmount_Compress)
  then show ?thesis using u wrap64_fits [of v] assms by simp
qed

lemma read_txout_compressed_write:
  assumes "decompresses fv kd" "storable out"
  shows "read_txout_compressed kd NullTxOut (write_txout_compressed fv out @ rest) = Some (stored_txout out, rest)"
proof -
  have "read_script kd [] (write_script fv (scriptPubKey out) @ rest) = Some (scriptPubKey out, rest)"
    using read_script_write [OF assms(1), of "scriptPubKey out" rest] assms(2) by (simp add: storable_def)
  moreover have "wrap64 (uint (DecompressAmount (CompressAmount (of_int (nValue out))))) = nValue out"
    using assms(2) by (intro amount_read_back) (simp_all add: storable_def)
  ultimately show ?thesis
    by (simp add: read_txout_compressed_def write_txout_compressed_def ReadVarInt_write NullTxOut_def NewTxOut_def
        stored_txout_def)
qed

lemma write_txout_compressed_nonempty [simp]: "write_txout_compressed fv out \<noteq> []"
  by (simp add: write_txout_compressed_def WriteVarInt_def) (subst varint_loop.simps, simp add: Let_def)

text \<open>The library is trusted for one key: \<open>4\<close> followed by 64 ones, which compresses to \<open>3\<close> followed by 32 ones.\<close>

lemma decompresses_example:
  "decompresses (\<lambda>pk. pk = 4 # replicate 64 1) (\<lambda>pk. if pk = 3 # replicate 32 1 then Some (4 # replicate 64 1) else None)"
  by (auto simp: decompresses_def compressed_key_def nth_Cons')

text \<open>
  an output is stored with its amount and its script and read back with both, in the announced number of bytes for the script,
  whichever of the compact forms the script takes, as long as nine times the amount fits
  64 bits and the script is not overlong. Every other field comes back empty.
\<close>

lemma compressed_txout_round_trip:
  assumes "decompresses fv kd" "0 \<le> nValue out" "9 * nValue out + 8 < 2 ^ 64" "length (scriptPubKey out) \<le> 10000"
  shows "read_txout_compressed kd NullTxOut (write_txout_compressed fv out @ rest) =
      Some (NewTxOut (nValue out) (scriptPubKey out), rest)
    \<and> length (write_script fv (scriptPubKey out)) = script_size fv (scriptPubKey out)"
  using read_txout_compressed_write [of fv kd out rest] assms length_write_script
  by (simp add: storable_def stored_txout_def)

text \<open>An output of 1.5 coins to that key: 33 bytes and 3 for the amount.\<close>

definition example_key :: CPubKey where
  "example_key = 4 # replicate 64 1"

definition example_out :: CTxOut where
  "example_out = NewTxOut 150000000 (push_data example_key @ [OP_CHECKSIG])"

end
