(* ===== verification/Coins.thy ===== *)
theory Coins
  imports Compressor
begin

text \<open>
  \<open>CCoins\<close> of \<open>coins.h\<close> and \<open>coins.cpp\<close>, the unspent outputs of one transaction: how they are taken from a
  transaction, spent, compared and stored, and the undo records of \<open>undo.h\<close> that give a spent output back.
\<close>

lemma unat_of_nat_u32: "n < 2 ^ 32 \<Longrightarrow> unat (of_nat n :: u32) = n"
  by (simp add: unsigned_of_nat take_bit_nat_eq_self)

section \<open>The outputs of a transaction\<close>

record CCoins =
  cn_CoinBase :: bool
  cn_CoinStake :: bool
  cn_vout :: "CTxOut list"
  cn_Height :: int
  cn_Version :: int

definition NullCoins :: CCoins where
  "NullCoins = \<lparr>cn_CoinBase = False, cn_CoinStake = False, cn_vout = [], cn_Height = 0, cn_Version = 0\<rparr>"

definition CoinsClear :: "CCoins \<Rightarrow> CCoins" where
  "CoinsClear c = c\<lparr>cn_CoinBase := False, cn_CoinStake := False, cn_vout := [], cn_Height := 0, cn_Version := 0\<rparr>"

function drop_null_tail :: "CTxOut list \<Rightarrow> CTxOut list" where
  "drop_null_tail outs = (if outs \<noteq> [] \<and> TxOutIsNull (last outs) then drop_null_tail (butlast outs) else outs)"
  by pat_completeness auto
termination
  by (relation "measure length") auto

declare drop_null_tail.simps [simp del]

definition Cleanup :: "CCoins \<Rightarrow> CCoins" where
  "Cleanup c = c\<lparr>cn_vout := drop_null_tail (cn_vout c)\<rparr>"

definition ClearUnspendable :: "CCoins \<Rightarrow> CCoins" where
  "ClearUnspendable c =
     Cleanup (c\<lparr>cn_vout := map (\<lambda>out. if IsUnspendable (scriptPubKey out) then TxOutSetNull out else out) (cn_vout c)\<rparr>)"

definition FromTx :: "CTransaction \<Rightarrow> int \<Rightarrow> CCoins \<Rightarrow> CCoins" where
  "FromTx tx nHeightIn c =
     ClearUnspendable (c\<lparr>cn_CoinBase := IsCoinBase tx, cn_CoinStake := IsCoinStake tx, cn_vout := vout tx,
       cn_Height := nHeightIn, cn_Version := txVersion tx\<rparr>)"

definition IsPruned :: "CCoins \<Rightarrow> bool" where
  "IsPruned c \<longleftrightarrow> list_all TxOutIsNull (cn_vout c)"

definition IsAvailable :: "CCoins \<Rightarrow> nat \<Rightarrow> bool" where
  "IsAvailable c nPos \<longleftrightarrow> nPos < length (cn_vout c) \<and> \<not> TxOutIsNull (cn_vout c ! nPos)"

definition CoinsEq :: "CCoins \<Rightarrow> CCoins \<Rightarrow> bool" where
  "CoinsEq a b \<longleftrightarrow> IsPruned a \<and> IsPruned b
     \<or> cn_CoinBase a = cn_CoinBase b \<and> cn_CoinStake a = cn_CoinStake b \<and> cn_Height a = cn_Height b
       \<and> cn_Version a = cn_Version b \<and> list_all2 TxOutEq (cn_vout a) (cn_vout b)"

section \<open>Spending\<close>

record CTxInUndo =
  un_txout :: CTxOut
  un_CoinBase :: bool
  un_CoinStake :: bool
  un_Height :: u32
  un_Version :: int

definition UndoOf :: "CTxOut \<Rightarrow> CTxInUndo" where
  "UndoOf txoutIn = \<lparr>un_txout = txoutIn, un_CoinBase = False, un_CoinStake = False, un_Height = 0, un_Version = 0\<rparr>"

text \<open>\<open>None\<close> where \<open>Spend\<close> returns \<open>false\<close>, with the coins and the undo record unchanged.\<close>

definition Spend :: "COutPoint \<Rightarrow> CCoins \<Rightarrow> (CTxInUndo \<times> CCoins) option" where
  "Spend out c =
     (if unat (op_n out) \<ge> length (cn_vout c) then None
      else if TxOutIsNull (cn_vout c ! unat (op_n out)) then None
      else (let undo = UndoOf (cn_vout c ! unat (op_n out));
                c' = Cleanup (c\<lparr>cn_vout := (cn_vout c)[unat (op_n out) := TxOutSetNull (cn_vout c ! unat (op_n out))]\<rparr>)
            in if length (cn_vout c') = 0
               then Some (undo\<lparr>un_Height := of_int (cn_Height c'), un_CoinBase := cn_CoinBase c', un_CoinStake := cn_CoinStake c',
                 un_Version := cn_Version c'\<rparr>, c')
               else Some (undo, c')))"

definition SpendPos :: "int \<Rightarrow> CCoins \<Rightarrow> CCoins option" where
  "SpendPos nPos c = map_option snd (Spend \<lparr>op_txid = uint256_0, op_n = of_int nPos\<rparr> c)"

section \<open>Storing coins\<close>

text \<open>Whether byte \<open>b\<close> of the bit mask has a bit set.\<close>

definition mask_used :: "CTxOut list \<Rightarrow> nat \<Rightarrow> bool" where
  "mask_used outs b \<longleftrightarrow> list_ex (\<lambda>i. 2 + b * 8 + i < length outs \<and> \<not> TxOutIsNull (outs ! (2 + b * 8 + i))) [0..<8]"

function mask_loop :: "CTxOut list \<Rightarrow> nat \<Rightarrow> nat \<Rightarrow> nat \<Rightarrow> nat \<times> nat" where
  "mask_loop outs b nLastUsedByte nNonzeroBytes =
     (if 2 + b * 8 < length outs
      then if mask_used outs b then mask_loop outs (b + 1) (b + 1) (nNonzeroBytes + 1)
           else mask_loop outs (b + 1) nLastUsedByte nNonzeroBytes
      else (nLastUsedByte, nNonzeroBytes))"
  by pat_completeness auto
termination
  by (relation "measure (\<lambda>(outs, b, _, _). length outs - b)") auto

declare mask_loop.simps [simp del]

definition CalcMaskSize :: "CCoins \<Rightarrow> nat \<times> nat" where
  "CalcMaskSize c = mask_loop (cn_vout c) 0 0 0"

definition mask_byte :: "CTxOut list \<Rightarrow> nat \<Rightarrow> byte" where
  "mask_byte outs b =
     fold (\<lambda>i chAvail. if 2 + b * 8 + i < length outs \<and> \<not> TxOutIsNull (outs ! (2 + b * 8 + i))
                       then chAvail OR push_bit i 1 else chAvail) [0..<8] 0"

definition header_code :: "CCoins \<Rightarrow> nat \<Rightarrow> u32" where
  "header_code c nMaskCode =
     (let fFirst = IsAvailable c 0; fSecond = IsAvailable c 1
      in 16 * (of_nat nMaskCode - (if fFirst \<or> fSecond then 0 else 1)) + (if cn_CoinBase c then 1 else 0)
         + (if cn_CoinStake c then 2 else 0) + (if fFirst then 4 else 0) + (if fSecond then 8 else 0))"

text \<open>\<open>None\<close> is the failed assertion: there is nothing to store.\<close>

definition write_CCoins :: "(CPubKey \<Rightarrow> bool) \<Rightarrow> CCoins \<Rightarrow> bytes option" where
  "write_CCoins fully_valid c =
     (case CalcMaskSize c of (nMaskSize, nMaskCode) \<Rightarrow>
        if IsAvailable c 0 \<or> IsAvailable c 1 \<or> nMaskCode \<noteq> 0
        then Some (write_varint_int (cn_Version c) @ WriteVarInt (header_code c nMaskCode)
               @ map (mask_byte (cn_vout c)) [0..<nMaskSize]
               @ concat (map (\<lambda>out. if TxOutIsNull out then [] else write_txout_compressed fully_valid out) (cn_vout c))
               @ write_varint_int (cn_Height c))
        else None)"

text \<open>The announced size: its header code is another one than that of the serialisation.\<close>

definition varint_int_size :: "int \<Rightarrow> nat" where
  "varint_int_size i = length (write_varint_int i)"

definition coins_size :: "(CPubKey \<Rightarrow> bool) \<Rightarrow> CCoins \<Rightarrow> nat option" where
  "coins_size fully_valid c =
     (case CalcMaskSize c of (nMaskSize, nMaskCode) \<Rightarrow>
        let fFirst = IsAvailable c 0; fSecond = IsAvailable c 1
        in if fFirst \<or> fSecond \<or> nMaskCode \<noteq> 0
           then (let nCode = 8 * (of_nat nMaskCode - (if fFirst \<or> fSecond then 0 else 1)) + (if cn_CoinBase c then 1 else 0)
                     + (if cn_CoinStake c then 2 else 0) + (if fFirst then 4 else 0) + (if fSecond then 8 else 0) :: u32
                 in Some (varint_int_size (cn_Version c) + GetSizeOfVarInt nCode + nMaskSize
                      + sum_list (map (\<lambda>out. if TxOutIsNull out then 0 else length (write_txout_compressed fully_valid out)) (cn_vout c))
                      + varint_int_size (cn_Height c)))
           else None)"

text \<open>The bytes of the mask, until as many of them as announced were not zero.\<close>

definition mask_bits :: "byte \<Rightarrow> bool list" where
  "mask_bits chAvail = map (\<lambda>p. chAvail AND push_bit p 1 \<noteq> 0) [0..<8]"

fun read_mask :: "nat \<Rightarrow> bool list \<Rightarrow> bytes \<Rightarrow> (bool list \<times> bytes) option" where
  "read_mask 0 vAvail bs = Some (vAvail, bs)"
| "read_mask (Suc nMaskCode) vAvail [] = None"
| "read_mask (Suc nMaskCode) vAvail (chAvail # bs) =
     read_mask (if chAvail \<noteq> 0 then nMaskCode else Suc nMaskCode) (vAvail @ mask_bits chAvail) bs"

fun read_available :: "(CPubKey \<Rightarrow> CPubKey option) \<Rightarrow> bool list \<Rightarrow> bytes \<Rightarrow> (CTxOut list \<times> bytes) option" where
  "read_available key_decompress [] bs = Some ([], bs)"
| "read_available key_decompress (avail # vAvail) bs = do {
     (out, bs) \<leftarrow> (if avail then read_txout_compressed key_decompress NullTxOut bs else Some (NullTxOut, bs));
     (outs, bs) \<leftarrow> read_available key_decompress vAvail bs;
     Some (out # outs, bs) }"

definition read_CCoins :: "(CPubKey \<Rightarrow> CPubKey option) \<Rightarrow> bytes \<Rightarrow> (CCoins \<times> bytes) option" where
  "read_CCoins key_decompress bs = do {
     (version, bs) \<leftarrow> read_varint_int bs;
     (nCode :: u32, bs) \<leftarrow> ReadVarInt bs;
     let vAvail = [nCode AND 4 \<noteq> 0, nCode AND 8 \<noteq> 0];
     let nMaskCode = nCode div 16 + (if nCode AND 12 \<noteq> 0 then 0 else 1);
     (vAvail, bs) \<leftarrow> read_mask (unat nMaskCode) vAvail bs;
     (outs, bs) \<leftarrow> read_available key_decompress vAvail bs;
     (height, bs) \<leftarrow> read_varint_int bs;
     Some (Cleanup \<lparr>cn_CoinBase = (nCode AND 1 \<noteq> 0), cn_CoinStake = (nCode AND 2 \<noteq> 0), cn_vout = outs, cn_Height = height,
       cn_Version = version\<rparr>, bs) }"

section \<open>Undo records\<close>

definition undo_code :: "CTxInUndo \<Rightarrow> u32" where
  "undo_code undo = un_Height undo * 4 + (if un_CoinBase undo then 2 else 0) + (if un_CoinStake undo then 1 else 0)"

definition undo_size :: "(CPubKey \<Rightarrow> bool) \<Rightarrow> CTxInUndo \<Rightarrow> nat" where
  "undo_size fully_valid undo = GetSizeOfVarInt (undo_code undo)
     + (if un_Height undo > 0 then varint_int_size (un_Version undo) else 0)
     + length (write_txout_compressed fully_valid (un_txout undo))"

definition write_CTxInUndo :: "(CPubKey \<Rightarrow> bool) \<Rightarrow> CTxInUndo \<Rightarrow> bytes" where
  "write_CTxInUndo fully_valid undo = WriteVarInt (undo_code undo)
     @ (if un_Height undo > 0 then write_varint_int (un_Version undo) else [])
     @ write_txout_compressed fully_valid (un_txout undo)"

text \<open>Reading into a new record.\<close>

definition read_CTxInUndo :: "(CPubKey \<Rightarrow> CPubKey option) \<Rightarrow> bytes \<Rightarrow> (CTxInUndo \<times> bytes) option" where
  "read_CTxInUndo key_decompress bs = do {
     (nCode :: u32, bs) \<leftarrow> ReadVarInt bs;
     let height = drop_bit 2 nCode;
     (version, bs) \<leftarrow> (if height > 0 then read_varint_int bs else Some (0, bs));
     (out, bs) \<leftarrow> read_txout_compressed key_decompress NullTxOut bs;
     Some (\<lparr>un_txout = out, un_CoinBase = (nCode AND 2 \<noteq> 0), un_CoinStake = (nCode AND 1 \<noteq> 0), un_Height = height,
            un_Version = version\<rparr>, bs) }"

type_synonym CTxUndo = "CTxInUndo list"

definition write_CTxUndo :: "(CPubKey \<Rightarrow> bool) \<Rightarrow> CTxUndo \<Rightarrow> bytes" where
  "write_CTxUndo fully_valid vprevout = write_vector (write_CTxInUndo fully_valid) vprevout"

definition read_CTxUndo :: "(CPubKey \<Rightarrow> CPubKey option) \<Rightarrow> bytes \<Rightarrow> (CTxUndo \<times> bytes) option" where
  "read_CTxUndo key_decompress bs = read_vector (read_CTxInUndo key_decompress) bs"

section \<open>Null outputs at the end\<close>

lemma drop_null_tail_rev: "drop_null_tail outs = rev (dropWhile TxOutIsNull (rev outs))"
proof (induction outs rule: rev_induct)
  case (snoc out outs)
  then show ?case by (subst drop_null_tail.simps) simp
qed (simp add: drop_null_tail.simps)

lemma drop_null_tail_null: "list_all TxOutIsNull zs \<Longrightarrow> drop_null_tail (outs @ zs) = drop_null_tail outs"
  by (simp add: drop_null_tail_rev list_all_iff dropWhile_append)

lemma drop_null_tail_split: "\<exists>zs. outs = drop_null_tail outs @ zs \<and> list_all TxOutIsNull zs"
  by (rule exI [of _ "rev (takeWhile TxOutIsNull (rev outs))"])
    (auto simp: drop_null_tail_rev list_all_iff dest: set_takeWhileD simp flip: rev_append)

lemma drop_null_tail_empty_iff: "drop_null_tail outs = [] \<longleftrightarrow> list_all TxOutIsNull outs"
  by (auto simp: drop_null_tail_rev list_all_iff)

lemma drop_null_tail_idem [simp]: "drop_null_tail (drop_null_tail outs) = drop_null_tail outs"
  by (simp add: drop_null_tail_rev)

definition avail :: "CTxOut list \<Rightarrow> nat \<Rightarrow> bool" where
  "avail outs j \<longleftrightarrow> j < length outs \<and> \<not> TxOutIsNull (outs ! j)"

lemma IsAvailable_avail: "IsAvailable c j \<longleftrightarrow> avail (cn_vout c) j"
  by (simp add: IsAvailable_def avail_def)

lemma avail_drop_null_tail [simp]: "avail (drop_null_tail outs) j \<longleftrightarrow> avail outs j"
proof -
  obtain zs where z: "outs = drop_null_tail outs @ zs" "list_all TxOutIsNull zs" using drop_null_tail_split by blast
  have "avail (ys @ zs) j \<longleftrightarrow> avail ys j" for ys
    using z(2) by (auto simp: avail_def nth_append list_all_length)
  then show ?thesis using z(1) by metis
qed

lemma nth_drop_null_tail: "avail outs j \<Longrightarrow> drop_null_tail outs ! j = outs ! j"
proof -
  assume "avail outs j"
  then have "j < length (drop_null_tail outs)" by (metis avail_drop_null_tail avail_def)
  then show ?thesis using drop_null_tail_split [of outs] by (metis nth_append)
qed

lemma IsAvailable_Cleanup [simp]: "IsAvailable (Cleanup c) j \<longleftrightarrow> IsAvailable c j"
  by (simp add: IsAvailable_avail Cleanup_def)

lemma IsPruned_not_available: "IsPruned c \<longleftrightarrow> (\<forall>j. \<not> IsAvailable c j)"
  by (auto simp: IsPruned_def IsAvailable_def list_all_length)

lemma IsPruned_Cleanup [simp]: "IsPruned (Cleanup c) \<longleftrightarrow> IsPruned c"
  by (simp add: IsPruned_not_available)

lemma Cleanup_pruned: "IsPruned c \<longleftrightarrow> cn_vout (Cleanup c) = []"
  by (simp add: IsPruned_def Cleanup_def drop_null_tail_empty_iff)

lemma TxOutIsNull_SetNull [simp]: "TxOutIsNull (TxOutSetNull out)"
  by (simp add: TxOutIsNull_def TxOutSetNull_def)

lemma TxOutIsNull_Null [simp]: "TxOutIsNull NullTxOut"
  by (simp add: TxOutIsNull_def NullTxOut_def NewTxOut_def)

section \<open>The bit mask\<close>

lemma bit_mask_fold:
  assumes "n < 8"
  shows "bit (fold (\<lambda>i w. if P i then w OR push_bit i 1 else w) is (w :: byte)) n \<longleftrightarrow> bit w n \<or> n \<in> set is \<and> P n"
proof -
  have step: "bit (v OR push_bit i 1) n \<longleftrightarrow> bit v n \<or> i = n" for v :: byte and i
    using assms by (simp add: bit_or_iff bit_exp_iff) auto
  show ?thesis by (induction "is" arbitrary: w) (auto simp: step simp del: push_bit_of_1)
qed

lemma bit_mask_byte: "n < 8 \<Longrightarrow> bit (mask_byte outs b) n \<longleftrightarrow> avail outs (2 + b * 8 + n)"
proof -
  assume n: "n < 8"
  have "mask_byte outs b = fold (\<lambda>i w. if avail outs (2 + b * 8 + i) then w OR push_bit i 1 else w) [0..<8] 0"
    by (simp only: mask_byte_def avail_def)
  then have "bit (mask_byte outs b) n \<longleftrightarrow> bit (0 :: byte) n \<or> n \<in> set [0..<8] \<and> avail outs (2 + b * 8 + n)"
    using bit_mask_fold [OF n, of "\<lambda>i. avail outs (2 + b * 8 + i)" "[0..<8]" 0] by (simp only:)
  then show ?thesis using n by (simp only: set_upt atLeastLessThan_iff bit_0_eq) simp
qed

lemma mask_bits_byte: "mask_bits (mask_byte outs b) = map (\<lambda>i. avail outs (2 + b * 8 + i)) [0..<8]"
proof -
  have "(mask_byte outs b AND push_bit p 1 \<noteq> 0) \<longleftrightarrow> avail outs (2 + b * 8 + p)" if "p < 8" for p
    using bit_mask_byte [OF that, of outs b] and_exp_eq_0_iff_not_bit [of "mask_byte outs b" p] by (simp add: push_bit_eq_mult)
  then show ?thesis by (simp add: mask_bits_def del: upt_rec_numeral)
qed

lemma mask_used_iff: "mask_used outs b \<longleftrightarrow> (\<exists>i<8. avail outs (2 + b * 8 + i))"
  by (auto simp: mask_used_def avail_def list_ex_iff simp del: upt_rec_numeral)

lemma mask_byte_nonzero: "mask_byte outs b \<noteq> 0 \<longleftrightarrow> mask_used outs b"
proof -
  have "mask_byte outs b \<noteq> 0 \<longleftrightarrow> (\<exists>n<8. bit (mask_byte outs b) n)"
    by (auto intro!: bit_word_eqI)
  then show ?thesis unfolding mask_used_iff using bit_mask_byte by blast
qed

lemma mask_loop_spec:
  assumes "mask_loop outs b last_b nz = (n, k)" "last_b \<le> b"
  shows "last_b \<le> n \<and> (n = last_b \<or> b < n \<and> mask_used outs (n - 1)) \<and> (\<forall>j\<ge>b. mask_used outs j \<longrightarrow> j < n)
    \<and> k = nz + length (filter (mask_used outs) [b..<n])"
  using assms
proof (induction outs b last_b nz rule: mask_loop.induct)
  case (1 outs b last_b nz)
  show ?case
  proof (cases "2 + b * 8 < length outs")
    case True
    show ?thesis
    proof (cases "mask_used outs b")
      case u: True
      have i: "b + 1 \<le> n \<and> (n = b + 1 \<or> b + 1 < n \<and> mask_used outs (n - 1)) \<and> (\<forall>j\<ge>b+1. mask_used outs j \<longrightarrow> j < n)
        \<and> k = nz + 1 + length (filter (mask_used outs) [b + 1..<n])"
        using 1(1) [OF True u] 1(3,4) True u by (simp add: mask_loop.simps [of outs b])
      then have "[b..<n] = b # [b + 1..<n]" by (simp add: upt_conv_Cons)
      moreover have "j < n" if "b \<le> j" "mask_used outs j" for j
        using i that by (cases "j = b") auto
      moreover have "mask_used outs (n - 1)" using i u by auto
      ultimately show ?thesis using i u 1(4) by auto
    next
      case u: False
      have i: "last_b \<le> n \<and> (n = last_b \<or> b + 1 < n \<and> mask_used outs (n - 1)) \<and> (\<forall>j\<ge>b+1. mask_used outs j \<longrightarrow> j < n)
        \<and> k = nz + length (filter (mask_used outs) [b + 1..<n])"
        using 1(2) [OF True u] 1(3,4) True u by (simp add: mask_loop.simps [of outs b])
      have "filter (mask_used outs) [b..<n] = filter (mask_used outs) [b + 1..<n]"
        using u by (cases "b < n") (simp_all add: upt_conv_Cons)
      moreover have "j < n" if "b \<le> j" "mask_used outs j" for j
        using i u that by (cases "j = b") auto
      ultimately show ?thesis using i by auto
    qed
  next
    case False
    then have "\<not> mask_used outs j" if "b \<le> j" for j using that by (auto simp: mask_used_iff avail_def)
    moreover have "n = last_b" "k = nz" using 1(3) False by (simp_all add: mask_loop.simps [of outs b])
    ultimately show ?thesis using 1(4) by auto
  qed
qed

lemma CalcMaskSize_spec:
  assumes "CalcMaskSize c = (n, k)"
  shows "n = 0 \<or> mask_used (cn_vout c) (n - 1)" and "mask_used (cn_vout c) j \<Longrightarrow> j < n"
    and "k = length (filter (mask_used (cn_vout c)) [0..<n])"
  using mask_loop_spec [of "cn_vout c" 0 0 0 n k] assms by (auto simp: CalcMaskSize_def)

lemma read_mask_bytes:
  assumes "bs = [] \<or> last bs \<noteq> 0"
  shows "read_mask (length (filter (\<lambda>b. b \<noteq> 0) bs)) fl (bs @ rest) = Some (fl @ concat (map mask_bits bs), rest)"
  using assms
proof (induction bs arbitrary: fl)
  case (Cons b bs)
  have p: "bs = [] \<or> last bs \<noteq> 0" using Cons.prems by (cases bs) auto
  show ?case
  proof (cases "b = 0")
    case True
    then have "bs \<noteq> []" using Cons.prems by auto
    then have "last bs \<in> set (filter (\<lambda>b. b \<noteq> 0) bs)" using p by simp
    then obtain m where m: "length (filter (\<lambda>b. b \<noteq> 0) bs) = Suc m" by (metis length_pos_if_in_set gr0_implies_Suc)
    then show ?thesis using True Cons.IH [OF p, of "fl @ mask_bits b"] by simp
  next
    case False
    then show ?thesis using Cons.IH [OF p, of "fl @ mask_bits b"] by simp
  qed
qed simp

section \<open>Stored coins are read back\<close>

text \<open>What the storage keeps of coins.\<close>

definition stored_out :: "CTxOut \<Rightarrow> CTxOut" where
  "stored_out out = (if TxOutIsNull out then NullTxOut else stored_txout out)"

definition stored_coins :: "CCoins \<Rightarrow> CCoins" where
  "stored_coins c = Cleanup (c\<lparr>cn_vout := map stored_out (cn_vout c)\<rparr>)"

definition storable_coins :: "CCoins \<Rightarrow> bool" where
  "storable_coins c \<longleftrightarrow> list_all (\<lambda>out. TxOutIsNull out \<or> storable out) (cn_vout c) \<and> length (cn_vout c) \<le> MAX_SIZE
     \<and> 0 \<le> cn_Height c \<and> cn_Height c < 2 ^ 31 \<and> 0 \<le> cn_Version c \<and> cn_Version c < 2 ^ 31"

lemma stored_txout_null [simp]: "TxOutIsNull (stored_txout out) \<longleftrightarrow> TxOutIsNull out"
  by (simp add: TxOutIsNull_def stored_txout_def NewTxOut_def)

lemma stored_out_null [simp]: "TxOutIsNull (stored_out out) \<longleftrightarrow> TxOutIsNull out"
  by (simp add: stored_out_def)

lemma flags_of_bytes:
  "[avail outs 0, avail outs 1] @ concat (map (\<lambda>b. mask_bits (mask_byte outs b)) [0..<n]) = map (avail outs) [0..<2 + 8 * n]"
proof (induction n)
  case 0
  then show ?case by (simp add: numeral_2_eq_2)
next
  case (Suc n)
  have "[0..<2 + 8 * Suc n] = [0..<2 + 8 * n] @ map (\<lambda>i. 2 + n * 8 + i) [0..<8]"
    using upt_add_eq_append [of 0 "2 + 8 * n" 8] map_add_upt [of "2 + n * 8" 8]
    by (simp add: ac_simps del: upt_rec_numeral)
  moreover have "[avail outs 0, avail outs 1] @ concat (map (\<lambda>b. mask_bits (mask_byte outs b)) [0..<Suc n]) =
      map (avail outs) [0..<2 + 8 * n] @ mask_bits (mask_byte outs n)"
    using Suc by simp
  ultimately show ?case by (simp add: mask_bits_byte del: upt_rec_numeral upt_Suc)
qed

abbreviation (input) written_out :: "(CPubKey \<Rightarrow> bool) \<Rightarrow> CTxOut \<Rightarrow> bytes" where
  "written_out fv out \<equiv> (if TxOutIsNull out then [] else write_txout_compressed fv out)"

definition read_out_at :: "CTxOut list \<Rightarrow> nat \<Rightarrow> CTxOut" where
  "read_out_at outs j = (if avail outs j then stored_txout (outs ! j) else NullTxOut)"

lemma written_out_rest:
  assumes "\<And>j. avail outs j \<Longrightarrow> j < m" "m \<le> i"
  shows "concat (map (written_out fv) (drop i outs)) = []"
proof -
  have "TxOutIsNull out" if o: "out \<in> set (drop i outs)" for out
  proof -
    obtain k where "k < length (drop i outs)" "drop i outs ! k = out" using o unfolding in_set_conv_nth by blast
    then have "i + k < length outs" "outs ! (i + k) = out" by auto
    then show ?thesis using assms(1) [of "i + k"] assms(2) by (auto simp: avail_def)
  qed
  then show ?thesis by simp
qed

lemma read_available_written:
  assumes "decompresses fv kd" "list_all (\<lambda>out. TxOutIsNull out \<or> storable out) outs" "\<And>j. avail outs j \<Longrightarrow> j < m"
  shows "read_available kd (map (avail outs) [i..<m]) (concat (map (written_out fv) (drop i outs)) @ rest) =
    Some (map (read_out_at outs) [i..<m], rest)"
proof (induction "m - i" arbitrary: i)
  case 0
  then show ?case using written_out_rest [of outs m i fv] assms(3) by simp
next
  case (Suc d)
  then have u: "[i..<m] = i # [i + 1..<m]" by (simp add: upt_conv_Cons)
  have IH: "read_available kd (map (avail outs) [i + 1..<m]) (concat (map (written_out fv) (drop (i + 1) outs)) @ rest) =
    Some (map (read_out_at outs) [i + 1..<m], rest)"
    using Suc by simp
  show ?case
  proof (cases "avail outs i")
    case True
    then have "drop i outs = outs ! i # drop (i + 1) outs" "\<not> TxOutIsNull (outs ! i)"
      by (simp_all add: avail_def Cons_nth_drop_Suc)
    moreover from this have "storable (outs ! i)" using True assms(2) by (auto simp: list_all_length avail_def)
    ultimately show ?thesis
      using u IH True read_txout_compressed_write [OF assms(1)] by (simp add: read_out_at_def)
  next
    case False
    then have "concat (map (written_out fv) (drop i outs)) = concat (map (written_out fv) (drop (i + 1) outs))"
      by (cases "i < length outs") (simp_all add: avail_def flip: Cons_nth_drop_Suc)
    then show ?thesis using u IH False by (simp add: read_out_at_def)
  qed
qed

lemma read_out_at_tail:
  assumes "\<And>j. avail outs j \<Longrightarrow> j < m"
  shows "drop_null_tail (map (read_out_at outs) [0..<m]) = drop_null_tail (map stored_out outs)"
proof -
  let ?L = "max m (length outs)"
  have split: "[0..<?L] = [0..<k] @ [k..<?L]" if "k \<le> ?L" for k
    using that by (metis le0 le_add_diff_inverse upt_add_eq_append)
  have "map (read_out_at outs) [0..<length outs] = map stored_out outs"
    by (rule nth_equalityI) (auto simp: read_out_at_def stored_out_def avail_def)
  then have a: "map (read_out_at outs) [0..<?L] = map stored_out outs @ map (read_out_at outs) [length outs..<?L]"
    using split [of "length outs"] by (metis map_append max.cobounded2)
  have b: "map (read_out_at outs) [0..<?L] = map (read_out_at outs) [0..<m] @ map (read_out_at outs) [m..<?L]"
    using split [of m] by (metis map_append max.cobounded1)
  have "list_all TxOutIsNull (map (read_out_at outs) [m..<?L])" "list_all TxOutIsNull (map (read_out_at outs) [length outs..<?L])"
    using assms by (force simp: list_all_iff read_out_at_def avail_def)+
  then show ?thesis using a b drop_null_tail_null by metis
qed

lemma code_bits:
  assumes "unat (x :: u32) = 16 * K + l" "l < 16"
  shows "(x AND 1 \<noteq> 0) = odd l" "(x AND 2 \<noteq> 0) = odd (l div 2)" "(x AND 4 \<noteq> 0) = odd (l div 4)"
    "(x AND 8 \<noteq> 0) = odd (l div 8)" "(x AND 12 \<noteq> 0) = (odd (l div 4) \<or> odd (l div 8))" "unat (x div 16) = K"
proof -
  have b: "(x AND 2 ^ n \<noteq> 0) \<longleftrightarrow> odd ((16 * K + l) div 2 ^ n)" for n
    using assms(1) by (simp add: and_exp_eq_0_iff_not_bit bit_word_odd)
  have d: "(16 * K + l) div 2 = 8 * K + l div 2" "(16 * K + l) div 4 = 4 * K + l div 4" "(16 * K + l) div 8 = 2 * K + l div 8"
    by (simp_all add: div_mult_self3 flip: div_mult2_eq)
  show "(x AND 1 \<noteq> 0) = odd l" using b [of 0] by simp
  show "(x AND 2 \<noteq> 0) = odd (l div 2)" using b [of 1] d by simp
  show four: "(x AND 4 \<noteq> 0) = odd (l div 4)" using b [of 2] d by simp
  show eight: "(x AND 8 \<noteq> 0) = odd (l div 8)" using b [of 3] d by simp
  have "(12 :: u32) = 4 OR 8" by simp
  then have "x AND 12 = (x AND 4) OR (x AND 8)" by (simp only: bit.conj_disj_distrib)
  then show "(x AND 12 \<noteq> 0) = (odd (l div 4) \<or> odd (l div 8))" using four eight by (simp add: or_eq_0_iff)
  show "unat (x div 16) = K" using assms by (simp add: unat_div)
qed

lemma unat_header_code:
  assumes "k \<le> MAX_SIZE" "IsAvailable c 0 \<or> IsAvailable c 1 \<or> k \<noteq> 0"
  shows "unat (header_code c k) = 16 * (k - (if IsAvailable c 0 \<or> IsAvailable c 1 then 0 else 1))
    + ((if cn_CoinBase c then 1 else 0) + (if cn_CoinStake c then 2 else 0) + (if IsAvailable c 0 then 4 else 0)
       + (if IsAvailable c 1 then 8 else 0))"
proof -
  let ?K = "k - (if IsAvailable c 0 \<or> IsAvailable c 1 then 0 else 1)"
  let ?l = "(if cn_CoinBase c then 1 else 0) + (if cn_CoinStake c then 2 else 0) + (if IsAvailable c 0 then 4 else 0)
       + (if IsAvailable c 1 then 8 else 0) :: nat"
  have "(of_nat k - (if IsAvailable c 0 \<or> IsAvailable c 1 then 0 else 1) :: u32) = of_nat ?K"
    using assms(2) by (auto simp: of_nat_diff)
  then have "header_code c k = 16 * of_nat ?K + of_nat ?l"
    by (simp only: header_code_def Let_def) simp
  then have "header_code c k = of_nat (16 * ?K + ?l)" by (simp only: of_nat_add of_nat_mult of_nat_numeral)
  moreover have "16 * ?K + ?l < 2 ^ 32"
  proof -
    have "?K \<le> 0x2000000" using assms(1) by (simp add: MAX_SIZE_def)
    moreover have "?l \<le> 15" by simp
    ultimately have "16 * ?K + ?l \<le> 16 * 0x2000000 + 15" by linarith
    then show ?thesis by simp
  qed
  ultimately show ?thesis by (simp only: unat_of_nat_u32)
qed

lemma read_CCoins_write:
  assumes "decompresses fv kd" "storable_coins c" "\<not> IsPruned c"
  shows "\<exists>bs. write_CCoins fv c = Some bs \<and> read_CCoins kd (bs @ rest) = Some (stored_coins c, rest)"
proof -
  let ?outs = "cn_vout c"
  obtain n k where nk: "CalcMaskSize c = (n, k)" by fastforce
  note spec = CalcMaskSize_spec [OF nk]
  have n: "n \<le> length ?outs"
    using spec(1) by (auto simp: mask_used_iff avail_def)
  have "k \<le> n" unfolding spec(3) by (metis length_filter_le length_upt minus_nat.diff_0)
  with n assms(2) have k: "k \<le> MAX_SIZE" by (simp add: storable_coins_def)
  have in_mask: "j < 2 + 8 * n" if "avail ?outs j" for j
  proof (cases "j < 2")
    case False
    then have "j = 2 + (j - 2) div 8 * 8 + (j - 2) mod 8" by simp
    then have "mask_used ?outs ((j - 2) div 8)"
      using that unfolding mask_used_iff by (metis mod_less_divisor zero_less_numeral)
    then have "(j - 2) div 8 < n" by (rule spec(2))
    then show ?thesis by (simp add: div_less_iff_less_mult)
  qed simp
  have some: "IsAvailable c 0 \<or> IsAvailable c 1 \<or> k \<noteq> 0"
  proof (rule ccontr)
    assume a: "\<not> ?thesis"
    then have "filter (mask_used ?outs) [0..<n] = []" using spec(3) by simp
    then have "n = 0" using spec(1) by (auto simp: filter_empty_conv)
    obtain j where j: "avail ?outs j" using assms(3) by (auto simp: IsPruned_not_available IsAvailable_avail)
    then have "j < 2" using in_mask \<open>n = 0\<close> by force
    then show False using j a by (auto simp: IsAvailable_avail less_2_cases_iff)
  qed
  let ?first = "IsAvailable c 0" and ?second = "IsAvailable c 1"
  let ?l = "(if cn_CoinBase c then 1 else 0) + (if cn_CoinStake c then 2 else 0) + (if ?first then 4 else 0)
       + (if ?second then 8 else 0) :: nat"
  note u = unat_header_code [OF k some]
  have l: "?l < 16" by simp
  have lb: "odd ?l = cn_CoinBase c" "odd (?l div 2) = cn_CoinStake c" "odd (?l div 4) = ?first" "odd (?l div 8) = ?second"
    by simp_all
  note cb = code_bits [OF u l, unfolded lb]
  let ?mask = "map (mask_byte ?outs) [0..<n]"
  have last: "?mask = [] \<or> last ?mask \<noteq> 0"
    using spec(1) by (cases n) (auto simp: mask_byte_nonzero)
  have count: "length (filter (\<lambda>b. b \<noteq> 0) ?mask) = k"
    using spec(3) by (simp add: filter_map mask_byte_nonzero comp_def)
  have code: "unat (header_code c k div 16 + (if header_code c k AND 12 \<noteq> 0 then 0 else 1)) = k"
  proof (cases "?first \<or> ?second")
    case True
    then show ?thesis using cb by simp
  next
    case False
    have "(of_nat (k - 1) :: u32) + 1 = of_nat k" using some False by (simp add: of_nat_diff)
    moreover have "header_code c k div 16 = of_nat (unat (header_code c k div 16))" by simp
    then have "header_code c k div 16 = of_nat (k - 1)" using cb(6) False by simp
    moreover have "\<not> header_code c k AND 12 \<noteq> 0" unfolding cb(5) using False by simp
    moreover have "k < 2 ^ 32" using k by (simp add: MAX_SIZE_def)
    ultimately show ?thesis by (simp add: unat_of_nat_u32)
  qed
  let ?bs = "write_varint_int (cn_Version c) @ WriteVarInt (header_code c k) @ ?mask
    @ concat (map (\<lambda>out. if TxOutIsNull out then [] else write_txout_compressed fv out) ?outs) @ write_varint_int (cn_Height c)"
  have w: "write_CCoins fv c = Some ?bs" using nk some by (simp add: write_CCoins_def)
  have mask: "read_mask k [?first, ?second] (?mask @ r) = Some (map (avail ?outs) [0..<2 + 8 * n], r)" for r
    using read_mask_bytes [OF last, of "[?first, ?second]" r] flags_of_bytes [of ?outs n]
    unfolding count by (simp add: comp_def IsAvailable_avail del: upt_rec_numeral)
  have outs: "read_available kd (map (avail ?outs) [0..<2 + 8 * n])
      (concat (map (\<lambda>out. if TxOutIsNull out then [] else write_txout_compressed fv out) ?outs) @ r) =
    Some (map (read_out_at ?outs) [0..<2 + 8 * n], r)" for r
    using read_available_written [of fv kd ?outs "2 + 8 * n" 0 r] assms(1,2) in_mask unfolding storable_coins_def drop_0 by blast
  have "read_CCoins kd (?bs @ rest) = Some (Cleanup \<lparr>cn_CoinBase = cn_CoinBase c, cn_CoinStake = cn_CoinStake c,
      cn_vout = map (read_out_at ?outs) [0..<2 + 8 * n], cn_Height = cn_Height c, cn_Version = cn_Version c\<rparr>, rest)"
    using assms(2) cb(1-4) code mask outs
    by (simp add: read_CCoins_def read_varint_int_write ReadVarInt_u32 storable_coins_def del: upt_rec_numeral)
  moreover have "drop_null_tail (map (read_out_at ?outs) [0..<2 + 8 * n]) = drop_null_tail (map stored_out ?outs)"
    using in_mask by (rule read_out_at_tail)
  then have "Cleanup \<lparr>cn_CoinBase = cn_CoinBase c, cn_CoinStake = cn_CoinStake c,
      cn_vout = map (read_out_at ?outs) [0..<2 + 8 * n], cn_Height = cn_Height c, cn_Version = cn_Version c\<rparr> = stored_coins c"
    by (simp add: Cleanup_def stored_coins_def)
  ultimately show ?thesis using w by simp
qed

section \<open>Undo records are read back\<close>

definition storable_undo :: "CTxInUndo \<Rightarrow> bool" where
  "storable_undo undo \<longleftrightarrow> storable (un_txout undo) \<and> unat (un_Height undo) < 2 ^ 30
     \<and> (if un_Height undo = 0 then un_Version undo = 0 else 0 \<le> un_Version undo \<and> un_Version undo < 2 ^ 31)"

definition stored_undo :: "CTxInUndo \<Rightarrow> CTxInUndo" where
  "stored_undo undo = undo\<lparr>un_txout := stored_txout (un_txout undo)\<rparr>"

lemma undo_code_parts:
  assumes "unat (un_Height undo) < 2 ^ 30"
  shows "drop_bit 2 (undo_code undo) = un_Height undo" "(undo_code undo AND 2 \<noteq> 0) = un_CoinBase undo"
    "(undo_code undo AND 1 \<noteq> 0) = un_CoinStake undo"
proof -
  let ?h = "unat (un_Height undo)"
  let ?l = "(if un_CoinBase undo then 2 else 0) + (if un_CoinStake undo then 1 else 0) :: nat"
  have l: "?l < 4" by simp
  have "undo_code undo = of_nat (?h * 4 + ?l)" by (simp add: undo_code_def)
  moreover have "?h * 4 + ?l < 2 ^ 32"
  proof -
    have "?h * 4 + ?l < (?h + 1) * 4" using l by simp
    also have "\<dots> \<le> 2 ^ 30 * 4" using assms by (intro mult_le_mono1) simp
    finally show ?thesis by simp
  qed
  ultimately have u: "unat (undo_code undo) = ?h * 4 + ?l" by (simp only: unat_of_nat_u32)
  have d: "(?h * 4 + ?l) div 4 = ?h" using l by simp
  have "unat (drop_bit 2 (undo_code undo)) = ?h" by (simp only: unat_drop_bit_div u) (use d in simp)
  then show "drop_bit 2 (undo_code undo) = un_Height undo" by (simp add: word_unat_eq_iff)
  have b: "(undo_code undo AND 2 ^ n \<noteq> 0) \<longleftrightarrow> odd ((?h * 4 + ?l) div 2 ^ n)" for n
    using u by (simp add: and_exp_eq_0_iff_not_bit bit_word_odd)
  have "(?h * 4 + ?l) div 2 = 2 * ?h + ?l div 2" by linarith
  then show "(undo_code undo AND 2 \<noteq> 0) = un_CoinBase undo" using b [of 1] by simp
  show "(undo_code undo AND 1 \<noteq> 0) = un_CoinStake undo" using b [of 0] by simp
qed

lemma read_CTxInUndo_write:
  assumes "decompresses fv kd" "storable_undo undo"
  shows "read_CTxInUndo kd (write_CTxInUndo fv undo @ rest) = Some (stored_undo undo, rest)"
proof -
  have h: "unat (un_Height undo) < 2 ^ 30" and s: "storable (un_txout undo)" using assms(2) by (simp_all add: storable_undo_def)
  show ?thesis
  proof (cases "un_Height undo = 0")
    case True
    then have "un_Version undo = 0" using assms(2) by (simp add: storable_undo_def)
    then show ?thesis
      using True undo_code_parts [OF h] read_txout_compressed_write [OF assms(1) s]
      by (simp add: read_CTxInUndo_def write_CTxInUndo_def ReadVarInt_u32 stored_undo_def Let_def)
  next
    case False
    then have "0 \<le> un_Version undo" "un_Version undo < 2 ^ 31" using assms(2) by (simp_all add: storable_undo_def)
    moreover have "0 < un_Height undo" using False by (simp add: word_gt_0)
    ultimately show ?thesis
      using undo_code_parts [OF h] read_txout_compressed_write [OF assms(1) s]
      by (simp add: read_CTxInUndo_def write_CTxInUndo_def ReadVarInt_u32 read_varint_int_write stored_undo_def Let_def)
  qed
qed

lemma length_write_CTxInUndo: "length (write_CTxInUndo fv undo) = undo_size fv undo"
  by (simp add: write_CTxInUndo_def undo_size_def WriteVarInt_def length_varint_loop varint_int_size_def)

lemma read_n_undo:
  assumes "decompresses fv kd" "list_all storable_undo us"
  shows "read_n (read_CTxInUndo kd) (length us) (concat (map (write_CTxInUndo fv) us) @ rest) = Some (map stored_undo us, rest)"
  using assms(2) by (induction us) (simp_all add: read_CTxInUndo_write [OF assms(1)])

lemma read_CTxUndo_write:
  assumes "decompresses fv kd" "list_all storable_undo us" "length us \<le> MAX_SIZE"
  shows "read_CTxUndo kd (write_CTxUndo fv us @ rest) = Some (map stored_undo us, rest)"
  using assms by (simp add: read_CTxUndo_def write_CTxUndo_def read_vector_def write_vector_def codec_simps read_n_undo)

section \<open>Spending one output\<close>

lemma Spend_iff:
  "Spend out c = None \<longleftrightarrow> \<not> IsAvailable c (unat (op_n out))"
  by (auto simp: Spend_def IsAvailable_def Let_def)

lemma Spend_SomeD:
  assumes "Spend out c = Some (undo, c')"
  defines "i \<equiv> unat (op_n out)"
  shows "IsAvailable c i" and "un_txout undo = cn_vout c ! i"
    and "c' = Cleanup (c\<lparr>cn_vout := (cn_vout c)[i := TxOutSetNull (cn_vout c ! i)]\<rparr>)"
    and "IsAvailable c' j \<longleftrightarrow> IsAvailable c j \<and> j \<noteq> i"
    and "IsAvailable c' j \<Longrightarrow> cn_vout c' ! j = cn_vout c ! j"
    and "if IsPruned c' then un_Height undo = of_int (cn_Height c) \<and> un_CoinBase undo = cn_CoinBase c
           \<and> un_CoinStake undo = cn_CoinStake c \<and> un_Version undo = cn_Version c
         else un_Height undo = 0 \<and> \<not> un_CoinBase undo \<and> \<not> un_CoinStake undo \<and> un_Version undo = 0"
proof -
  let ?c = "c\<lparr>cn_vout := (cn_vout c)[i := TxOutSetNull (cn_vout c ! i)]\<rparr>"
  show a: "IsAvailable c i" and u: "un_txout undo = cn_vout c ! i" and c': "c' = Cleanup ?c"
    using assms(1) by (auto simp: Spend_def IsAvailable_def i_def Let_def UndoOf_def split: if_splits)
  show av: "IsAvailable c' j \<longleftrightarrow> IsAvailable c j \<and> j \<noteq> i" for j
  proof -
    have "IsAvailable c' j \<longleftrightarrow> IsAvailable ?c j" unfolding c' by (rule IsAvailable_Cleanup)
    also have "\<dots> \<longleftrightarrow> IsAvailable c j \<and> j \<noteq> i" by (cases "j = i") (auto simp: IsAvailable_def)
    finally show ?thesis .
  qed
  show "IsAvailable c' j \<Longrightarrow> cn_vout c' ! j = cn_vout c ! j"
  proof -
    assume j: "IsAvailable c' j"
    then have "avail (cn_vout ?c) j" "j \<noteq> i" using av unfolding c' by (simp_all add: IsAvailable_avail Cleanup_def)
    then show ?thesis using nth_drop_null_tail [of "cn_vout ?c" j] unfolding c' by (simp add: Cleanup_def)
  qed
  have "length (cn_vout c') = 0 \<longleftrightarrow> IsPruned c'"
    using Cleanup_pruned [of c'] unfolding c' by (simp add: Cleanup_def)
  moreover have "cn_Height c' = cn_Height c" "cn_CoinBase c' = cn_CoinBase c" "cn_CoinStake c' = cn_CoinStake c"
    "cn_Version c' = cn_Version c" unfolding c' by (simp_all add: Cleanup_def)
  ultimately show "if IsPruned c' then un_Height undo = of_int (cn_Height c) \<and> un_CoinBase undo = cn_CoinBase c
           \<and> un_CoinStake undo = cn_CoinStake c \<and> un_Version undo = cn_Version c
         else un_Height undo = 0 \<and> \<not> un_CoinBase undo \<and> \<not> un_CoinStake undo \<and> un_Version undo = 0"
    using assms(1) c' by (auto simp: Spend_def i_def Let_def UndoOf_def split: if_splits)
qed

lemma FromTx_available:
  "IsAvailable (FromTx tx h c) j \<longleftrightarrow> j < length (vout tx) \<and> nValue (vout tx ! j) \<noteq> -1 \<and> \<not> IsUnspendable (scriptPubKey (vout tx ! j))"
  by (auto simp: FromTx_def ClearUnspendable_def) (auto simp: IsAvailable_def TxOutIsNull_def TxOutSetNull_def split: if_splits)

section \<open>Sizes\<close>

text \<open>The announced size of coins with 66 unspent outputs is one byte less than their serialisation.\<close>

lemma coins_size_too_small:
  "coins_size (\<lambda>_. False) (NullCoins\<lparr>cn_vout := replicate 66 (NewTxOut 0 [])\<rparr>) = Some 143
    \<and> map_option length (write_CCoins (\<lambda>_. False) (NullCoins\<lparr>cn_vout := replicate 66 (NewTxOut 0 [])\<rparr>)) = Some 144"
  by code_simp

text \<open>
  C13: unspent outputs are stored so that reading them gives them back by amount and script: the same outputs are available, each with the
  amount and script that was written and with nothing else (\<open>stored_out\<close>: the commitment, the masked amount, the transaction keys and
  the stealth address are not stored and come back empty), and height, version and the two flags are those that were written,
  whatever the unused parts of the vector hold and whatever follows. This holds of coins that can be stored: every unspent output has an
  amount of zero or more with \<open>9 * amount + 8 < 2 ^ 64\<close> and a script of at most 10000 bytes, there are at most \<open>MAX_SIZE\<close> outputs,
  and height and version are not negative (a larger amount is corrupted). Coins without an unspent output are not written at all.
\<close>

theorem coins_round_trip:
  assumes "decompresses fv kd" "storable_coins c"
  shows "if IsPruned c then write_CCoins fv c = None
    else case write_CCoins fv c of None \<Rightarrow> False
      | Some bs \<Rightarrow> read_CCoins kd (bs @ rest) = Some (Cleanup (c\<lparr>cn_vout := map stored_out (cn_vout c)\<rparr>), rest)"
proof (cases "IsPruned c")
  case True
  obtain n k where nk: "CalcMaskSize c = (n, k)" by fastforce
  have "\<not> mask_used (cn_vout c) b" for b
    using True by (auto simp: mask_used_iff IsPruned_not_available IsAvailable_avail)
  then have "k = 0" using CalcMaskSize_spec(3) [OF nk] by simp
  then show ?thesis using True nk by (simp add: write_CCoins_def IsPruned_not_available)
next
  case False
  then show ?thesis using read_CCoins_write [OF assms False, of rest] by (auto simp: stored_coins_def)
qed

text \<open>The coins of a transaction with two outputs, of which the first is spent.\<close>

definition example_coins :: CCoins where
  "example_coins = NullCoins\<lparr>cn_vout := [NullTxOut, example_out], cn_Height := 70, cn_Version := 1\<rparr>"

lemma example_coins_storable: "storable_coins example_coins"
proof -
  have "length (push_data example_key @ [OP_CHECKSIG]) = 67" by (simp add: example_key_def push_data_def)
  then have "storable example_out" by (simp add: storable_def example_out_def NewTxOut_def)
  then show ?thesis
    by (simp add: storable_coins_def example_coins_def NullCoins_def MAX_SIZE_def)
qed

theorem coins_round_trip_witness:
  "\<exists>bs. write_CCoins (\<lambda>pk. pk = 4 # replicate 64 1) example_coins = Some bs
    \<and> read_CCoins (\<lambda>pk. if pk = 3 # replicate 32 1 then Some (4 # replicate 64 1) else None) (bs @ [7])
      = Some (Cleanup (example_coins\<lparr>cn_vout := map stored_out (cn_vout example_coins)\<rparr>), [7])"
proof -
  have "\<not> IsPruned example_coins"
    by (simp add: example_coins_def IsPruned_def example_out_def NewTxOut_def TxOutIsNull_def)
  then show ?thesis
    using coins_round_trip [OF decompresses_example example_coins_storable, of "[7]"] by (simp split: option.splits)
qed

end
