(* ===== verification/Coins_View.thy ===== *)
theory Coins_View
  imports Coins "HOL-Library.AList"
begin

text \<open>
  \<open>CCoinsView\<close>, \<open>CCoinsViewCache\<close> and \<open>CCoinsModifier\<close> of \<open>coins.h\<close> and \<open>coins.cpp\<close>: views of the set of unspent
  outputs, stacked on one another. The virtual functions of the view below a cache are arguments of its
  operations; \<open>coins_view\<close> is what they promise, and a cache over a view that keeps the promise keeps it too. A cache is
  filled by reading it, so reading returns the state as well. A failed assertion is an error value.
\<close>

section \<open>Entries of a cache\<close>

abbreviation (input) DIRTY :: byte where "DIRTY \<equiv> 1"
abbreviation (input) FRESH :: byte where "FRESH \<equiv> 2"

record CCoinsCacheEntry =
  ce_coins :: CCoins
  ce_flags :: byte

definition NewEntry :: CCoinsCacheEntry where
  "NewEntry = \<lparr>ce_coins = NullCoins, ce_flags = 0\<rparr>"

text \<open>The hash map as the list of its pairs in the order of iteration.\<close>

type_synonym CCoinsMap = "(uint256 \<times> CCoinsCacheEntry) list"

definition is_dirty :: "CCoinsCacheEntry \<Rightarrow> bool" where
  "is_dirty e \<longleftrightarrow> ce_flags e AND DIRTY \<noteq> 0"

definition is_fresh :: "CCoinsCacheEntry \<Rightarrow> bool" where
  "is_fresh e \<longleftrightarrow> ce_flags e AND FRESH \<noteq> 0"

record 'b CCoinsViewCache =
  cv_base :: 'b
  cv_hashBlock :: uint256
  cv_cacheCoins :: CCoinsMap
  cv_hasModifier :: bool

datatype view_error = AssertionFailed

type_synonym 'b get_coins = "uint256 \<Rightarrow> 'b \<Rightarrow> CCoins option \<times> 'b"
type_synonym 'b get_best = "'b \<Rightarrow> uint256 \<times> 'b"
type_synonym 'b batch_write = "CCoinsMap \<Rightarrow> uint256 \<Rightarrow> 'b \<Rightarrow> view_error + bool \<times> 'b"

definition NewCache :: "'b \<Rightarrow> 'b CCoinsViewCache" where
  "NewCache viewIn = \<lparr>cv_base = viewIn, cv_hashBlock = uint256_0, cv_cacheCoins = [], cv_hasModifier = False\<rparr>"

section \<open>Reading\<close>

definition FetchCoins :: "'b get_coins \<Rightarrow> uint256 \<Rightarrow> 'b CCoinsViewCache \<Rightarrow> CCoinsCacheEntry option \<times> 'b CCoinsViewCache" where
  "FetchCoins base_get txid s =
     (case map_of (cv_cacheCoins s) txid of
        Some e \<Rightarrow> (Some e, s)
      | None \<Rightarrow> (case base_get txid (cv_base s) of
          (None, b) \<Rightarrow> (None, s\<lparr>cv_base := b\<rparr>)
        | (Some tmp, b) \<Rightarrow>
            let e = \<lparr>ce_coins = tmp, ce_flags = (if IsPruned tmp then FRESH else 0)\<rparr>
            in (Some e, s\<lparr>cv_base := b, cv_cacheCoins := AList.update txid e (cv_cacheCoins s)\<rparr>)))"

definition GetCoins :: "'b get_coins \<Rightarrow> 'b CCoinsViewCache get_coins" where
  "GetCoins base_get txid s = (case FetchCoins base_get txid s of (it, s) \<Rightarrow> (map_option ce_coins it, s))"

definition AccessCoins :: "'b get_coins \<Rightarrow> 'b CCoinsViewCache get_coins" where
  "AccessCoins base_get txid s = (case FetchCoins base_get txid s of (it, s) \<Rightarrow> (map_option ce_coins it, s))"

definition HaveCoins :: "'b get_coins \<Rightarrow> uint256 \<Rightarrow> 'b CCoinsViewCache \<Rightarrow> bool \<times> 'b CCoinsViewCache" where
  "HaveCoins base_get txid s = (case FetchCoins base_get txid s of
     (it, s) \<Rightarrow> (case it of None \<Rightarrow> False | Some e \<Rightarrow> cn_vout (ce_coins e) \<noteq> [], s))"

definition GetBestBlock :: "'b get_best \<Rightarrow> 'b CCoinsViewCache get_best" where
  "GetBestBlock base_best s =
     (if cv_hashBlock s = uint256_0
      then (case base_best (cv_base s) of (h, b) \<Rightarrow> (h, s\<lparr>cv_base := b, cv_hashBlock := h\<rparr>))
      else (cv_hashBlock s, s))"

definition SetBestBlock :: "uint256 \<Rightarrow> 'b CCoinsViewCache \<Rightarrow> 'b CCoinsViewCache" where
  "SetBestBlock hashBlockIn s = s\<lparr>cv_hashBlock := hashBlockIn\<rparr>"

definition GetCacheSize :: "'b CCoinsViewCache \<Rightarrow> nat" where
  "GetCacheSize s = length (cv_cacheCoins s)"

section \<open>Modifying\<close>

text \<open>\<open>ModifyCoins\<close> makes the modifier; its destructor ends the modification.\<close>

definition ModifyCoins :: "'b get_coins \<Rightarrow> uint256 \<Rightarrow> 'b CCoinsViewCache \<Rightarrow> view_error + 'b CCoinsViewCache" where
  "ModifyCoins base_get txid s =
     (if cv_hasModifier s then Inl AssertionFailed
      else let (e, b) = (case map_of (cv_cacheCoins s) txid of
               Some e \<Rightarrow> (e, cv_base s)
             | None \<Rightarrow> (case base_get txid (cv_base s) of
                 (None, b) \<Rightarrow> (NewEntry\<lparr>ce_coins := CoinsClear (ce_coins NewEntry), ce_flags := FRESH\<rparr>, b)
               | (Some c, b) \<Rightarrow> (NewEntry\<lparr>ce_coins := c, ce_flags := (if IsPruned c then FRESH else ce_flags NewEntry)\<rparr>, b)))
           in Inr (s\<lparr>cv_base := b, cv_hasModifier := True,
                cv_cacheCoins := AList.update txid (e\<lparr>ce_flags := ce_flags e OR DIRTY\<rparr>) (cv_cacheCoins s)\<rparr>))"

text \<open>Writing through the modifier's reference.\<close>

definition set_modified :: "uint256 \<Rightarrow> CCoins \<Rightarrow> 'b CCoinsViewCache \<Rightarrow> 'b CCoinsViewCache" where
  "set_modified txid c s = s\<lparr>cv_cacheCoins := AList.map_entry txid (\<lambda>e. e\<lparr>ce_coins := c\<rparr>) (cv_cacheCoins s)\<rparr>"

definition EndModify :: "uint256 \<Rightarrow> 'b CCoinsViewCache \<Rightarrow> view_error + 'b CCoinsViewCache" where
  "EndModify txid s =
     (if \<not> cv_hasModifier s then Inl AssertionFailed
      else let s = s\<lparr>cv_hasModifier := False\<rparr>
           in Inr (case map_of (cv_cacheCoins s) txid of
                None \<Rightarrow> s
              | Some e \<Rightarrow> let s = set_modified txid (Cleanup (ce_coins e)) s
                  in if is_fresh e \<and> IsPruned (Cleanup (ce_coins e))
                     then s\<lparr>cv_cacheCoins := AList.delete txid (cv_cacheCoins s)\<rparr> else s))"

text \<open>
  One modification, from the making of the modifier to its end: \<open>f\<close> is what the caller does with the reference, its result and
  the coins it leaves.
\<close>

definition modify :: "'b get_coins \<Rightarrow> uint256 \<Rightarrow> (CCoins \<Rightarrow> 'r \<times> CCoins) \<Rightarrow> 'b CCoinsViewCache \<Rightarrow> view_error + 'r \<times> 'b CCoinsViewCache" where
  "modify base_get txid f s =
     (case ModifyCoins base_get txid s of
        Inl err \<Rightarrow> Inl err
      | Inr s \<Rightarrow>
          (case map_of (cv_cacheCoins s) txid of
             None \<Rightarrow> Inl AssertionFailed
           | Some e \<Rightarrow> (case f (ce_coins e) of (r, c) \<Rightarrow> map_sum id (Pair r) (EndModify txid (set_modified txid c s)))))"

section \<open>Writing a cache into the one below\<close>

definition write_entry :: "uint256 \<times> CCoinsCacheEntry \<Rightarrow> CCoinsMap \<Rightarrow> view_error + CCoinsMap" where
  "write_entry it cacheCoins =
     (case it of (txid, e) \<Rightarrow>
        if \<not> is_dirty e then Inr cacheCoins
        else case map_of cacheCoins txid of
          None \<Rightarrow>
            if IsPruned (ce_coins e) then Inr cacheCoins
            else if \<not> is_fresh e then Inl AssertionFailed
            else Inr (AList.update txid \<lparr>ce_coins = ce_coins e, ce_flags = DIRTY OR FRESH\<rparr> cacheCoins)
        | Some itUs \<Rightarrow>
            if is_fresh itUs \<and> IsPruned (ce_coins e) then Inr (AList.delete txid cacheCoins)
            else Inr (AList.update txid \<lparr>ce_coins = ce_coins e, ce_flags = ce_flags itUs OR DIRTY\<rparr> cacheCoins))"

fun write_entries :: "CCoinsMap \<Rightarrow> CCoinsMap \<Rightarrow> view_error + CCoinsMap" where
  "write_entries [] cacheCoins = Inr cacheCoins"
| "write_entries (it # mapCoins) cacheCoins =
     (case write_entry it cacheCoins of Inl err \<Rightarrow> Inl err | Inr cacheCoins \<Rightarrow> write_entries mapCoins cacheCoins)"

definition BatchWrite :: "'b CCoinsViewCache batch_write" where
  "BatchWrite mapCoins hashBlockIn s =
     (if cv_hasModifier s then Inl AssertionFailed
      else case write_entries mapCoins (cv_cacheCoins s) of
        Inl err \<Rightarrow> Inl err
      | Inr cacheCoins \<Rightarrow> Inr (True, s\<lparr>cv_cacheCoins := cacheCoins, cv_hashBlock := hashBlockIn\<rparr>))"

definition Flush :: "'b batch_write \<Rightarrow> 'b CCoinsViewCache \<Rightarrow> view_error + bool \<times> 'b CCoinsViewCache" where
  "Flush base_write s =
     (case base_write (cv_cacheCoins s) (cv_hashBlock s) (cv_base s) of
        Inl err \<Rightarrow> Inl err
      | Inr (fOk, b) \<Rightarrow> Inr (fOk, s\<lparr>cv_base := b, cv_cacheCoins := []\<rparr>))"

section \<open>Inputs of transactions\<close>

definition GetOutputFor :: "'b get_coins \<Rightarrow> CTxIn \<Rightarrow> 'b CCoinsViewCache \<Rightarrow> view_error + CTxOut \<times> 'b CCoinsViewCache" where
  "GetOutputFor base_get input s =
     (case AccessCoins base_get (op_txid (prevout input)) s of
        (None, s) \<Rightarrow> Inl AssertionFailed
      | (Some coins, s) \<Rightarrow>
          if IsAvailable coins (unat (op_n (prevout input))) then Inr (cn_vout coins ! unat (op_n (prevout input)), s)
          else Inl AssertionFailed)"

fun have_inputs_loop :: "'b get_coins \<Rightarrow> CTxIn list \<Rightarrow> 'b CCoinsViewCache \<Rightarrow> bool \<times> 'b CCoinsViewCache" where
  "have_inputs_loop base_get [] s = (True, s)"
| "have_inputs_loop base_get (input # ins) s =
     (case AccessCoins base_get (op_txid (prevout input)) s of
        (None, s) \<Rightarrow> (False, s)
      | (Some coins, s) \<Rightarrow>
          if IsAvailable coins (unat (op_n (prevout input))) then have_inputs_loop base_get ins s else (False, s))"

definition HaveInputs :: "'b get_coins \<Rightarrow> CTransaction \<Rightarrow> 'b CCoinsViewCache \<Rightarrow> bool \<times> 'b CCoinsViewCache" where
  "HaveInputs base_get tx s = (if \<not> IsCoinBase tx then have_inputs_loop base_get (vin tx) s else (True, s))"

section \<open>What a view promises\<close>

text \<open>What the unspent outputs of a transaction are worth keeping: nothing when all are spent, else what the storage keeps.\<close>

definition kept :: "CCoins \<Rightarrow> CCoins option" where
  "kept c = (if IsPruned c then None else Some (stored_coins c))"

text \<open>Outputs as the node makes them: the unused field \<open>nRounds\<close> as it is initialised, no script in a spent output.\<close>

definition tidy_out :: "CTxOut \<Rightarrow> bool" where
  "tidy_out out \<longleftrightarrow> nRounds out = -10 \<and> (TxOutIsNull out \<longrightarrow> scriptPubKey out = [])"

definition coins_fit :: "CCoins \<Rightarrow> bool" where
  "coins_fit c \<longleftrightarrow> storable_coins c \<and> list_all tidy_out (cn_vout c)"

definition coins_ok :: "CCoins \<Rightarrow> bool" where
  "coins_ok c \<longleftrightarrow> coins_fit c \<and> Cleanup c = c"

text \<open>The set of unspent outputs a modified map leads to, and the maps that may be written.\<close>

definition overlay :: "CCoinsMap \<Rightarrow> (uint256 \<Rightarrow> CCoins option) \<Rightarrow> uint256 \<Rightarrow> CCoins option" where
  "overlay mapCoins live txid =
     (case map_of mapCoins txid of None \<Rightarrow> live txid
      | Some e \<Rightarrow> if is_dirty e then kept (ce_coins e) else live txid)"

definition coins_entry_fits :: "(uint256 \<Rightarrow> CCoins option) \<Rightarrow> (uint256 \<Rightarrow> bool) \<Rightarrow> uint256 \<Rightarrow> CCoinsCacheEntry \<Rightarrow> bool" where
  "coins_entry_fits live has txid e \<longleftrightarrow> coins_ok (ce_coins e) \<and> (if is_fresh e then live txid = None else has txid)"

definition map_fits :: "(uint256 \<Rightarrow> CCoins option) \<Rightarrow> (uint256 \<Rightarrow> bool) \<Rightarrow> CCoinsMap \<Rightarrow> bool" where
  "map_fits live has mapCoins \<longleftrightarrow> distinct (map fst mapCoins)
     \<and> (\<forall>txid e. map_of mapCoins txid = Some e \<longrightarrow> coins_entry_fits live has txid e)"

text \<open>Whether an output is unspent.\<close>

definition unspent :: "(uint256 \<Rightarrow> CCoins option) \<Rightarrow> COutPoint \<Rightarrow> bool" where
  "unspent live p \<longleftrightarrow> (case live (op_txid p) of None \<Rightarrow> False | Some c \<Rightarrow> IsAvailable c (unat (op_n p)))"

lemma drop_null_tail_map:
  assumes "\<And>out. TxOutIsNull (f out) = TxOutIsNull out"
  shows "drop_null_tail (map f outs) = map f (drop_null_tail outs)"
proof -
  have "TxOutIsNull \<circ> f = TxOutIsNull" using assms by auto
  then show ?thesis by (simp add: drop_null_tail_rev rev_map dropWhile_map)
qed

lemma stored_coins_vout: "cn_vout (stored_coins c) = map stored_out (drop_null_tail (cn_vout c))"
  by (simp add: stored_coins_def Cleanup_def drop_null_tail_map)

lemma stored_coins_available [simp]: "IsAvailable (stored_coins c) j \<longleftrightarrow> IsAvailable c j"
proof -
  have "IsAvailable (stored_coins c) j \<longleftrightarrow> avail (map stored_out (drop_null_tail (cn_vout c))) j"
    by (simp add: IsAvailable_avail stored_coins_vout)
  also have "\<dots> \<longleftrightarrow> avail (drop_null_tail (cn_vout c)) j" by (auto simp: avail_def)
  finally show ?thesis by (simp add: IsAvailable_avail)
qed

lemma nth_stored_coins:
  assumes "IsAvailable c j"
  shows "stored_out (cn_vout c ! j) = cn_vout (stored_coins c) ! j"
proof -
  have "avail (drop_null_tail (cn_vout c)) j" using assms by (simp add: IsAvailable_avail)
  then show ?thesis
    using nth_drop_null_tail [of "cn_vout c" j] assms by (simp add: stored_coins_vout avail_def IsAvailable_avail)
qed

text \<open>
  The interface of a view: \<open>live\<close> is the set of unspent outputs it stands for, \<open>tip\<close> its best block, \<open>has\<close> the transactions
  whose coins it holds itself. Reading changes neither of the first two, and writing a map applies it.
\<close>

locale coins_view =
  fixes get :: "'b get_coins"
    and best :: "'b get_best"
    and put :: "'b batch_write"
    and ok :: "'b \<Rightarrow> bool"
    and live :: "'b \<Rightarrow> uint256 \<Rightarrow> CCoins option"
    and tip :: "'b \<Rightarrow> uint256"
    and has :: "'b \<Rightarrow> uint256 \<Rightarrow> bool"
  assumes get_keeps: "ok b \<Longrightarrow> get t b = (r, b') \<Longrightarrow> ok b' \<and> live b' = live b \<and> tip b' = tip b \<and> (has b k \<longrightarrow> has b' k)"
    and get_none: "ok b \<Longrightarrow> get t b = (None, b') \<Longrightarrow> live b t = None"
    and get_some: "ok b \<Longrightarrow> get t b = (Some c, b') \<Longrightarrow> live b t = kept c \<and> coins_ok c \<and> has b' t"
    and best_keeps: "ok b \<Longrightarrow> best b = (h, b') \<Longrightarrow> ok b' \<and> live b' = live b \<and> tip b' = h \<and> tip b = h \<and> (has b k \<longrightarrow> has b' k)"
    and put_applies: "ok b \<Longrightarrow> map_fits (live b) (has b) m \<Longrightarrow> h \<noteq> uint256_0 \<Longrightarrow> length h = 8
      \<Longrightarrow> \<exists>b'. put m h b = Inr (True, b') \<and> ok b' \<and> tip b' = h \<and> live b' = overlay m (live b)"

section \<open>What a cache stands for\<close>

definition cache_live :: "('b \<Rightarrow> uint256 \<Rightarrow> CCoins option) \<Rightarrow> 'b CCoinsViewCache \<Rightarrow> uint256 \<Rightarrow> CCoins option" where
  "cache_live live s txid = (case map_of (cv_cacheCoins s) txid of None \<Rightarrow> live (cv_base s) txid | Some e \<Rightarrow> kept (ce_coins e))"

definition cache_tip :: "('b \<Rightarrow> uint256) \<Rightarrow> 'b CCoinsViewCache \<Rightarrow> uint256" where
  "cache_tip tip s = (if cv_hashBlock s = uint256_0 then tip (cv_base s) else cv_hashBlock s)"

definition cache_has :: "'b CCoinsViewCache \<Rightarrow> uint256 \<Rightarrow> bool" where
  "cache_has s txid \<longleftrightarrow> map_of (cv_cacheCoins s) txid \<noteq> None"

text \<open>An entry that is not dirty is that of the view below.\<close>

definition cache_entry_ok :: "(uint256 \<Rightarrow> CCoins option) \<Rightarrow> (uint256 \<Rightarrow> bool) \<Rightarrow> uint256 \<Rightarrow> CCoinsCacheEntry \<Rightarrow> bool" where
  "cache_entry_ok live has txid e \<longleftrightarrow> coins_entry_fits live has txid e \<and> (\<not> is_dirty e \<longrightarrow> kept (ce_coins e) = live txid)"

definition cache_ok ::
  "('b \<Rightarrow> bool) \<Rightarrow> ('b \<Rightarrow> uint256 \<Rightarrow> CCoins option) \<Rightarrow> ('b \<Rightarrow> uint256 \<Rightarrow> bool) \<Rightarrow> 'b CCoinsViewCache \<Rightarrow> bool" where
  "cache_ok ok live has s \<longleftrightarrow> ok (cv_base s) \<and> \<not> cv_hasModifier s \<and> distinct (map fst (cv_cacheCoins s))
     \<and> (\<forall>txid e. map_of (cv_cacheCoins s) txid = Some e \<longrightarrow> cache_entry_ok (live (cv_base s)) (has (cv_base s)) txid e)"

lemma cache_ok_entry:
  "cache_ok ok live has s \<Longrightarrow> map_of (cv_cacheCoins s) t = Some e \<Longrightarrow> cache_entry_ok (live (cv_base s)) (has (cv_base s)) t e"
  by (simp add: cache_ok_def)

lemma SetBestBlock_simps [simp]:
  "cache_ok ok live has (SetBestBlock h s) \<longleftrightarrow> cache_ok ok live has s" "cache_live live (SetBestBlock h s) = cache_live live s"
  "cv_hashBlock (SetBestBlock h s) = h"
  by (simp_all add: SetBestBlock_def cache_ok_def cache_live_def fun_eq_iff cong: option.case_cong)

lemma flag_simps [simp]:
  "is_dirty (e\<lparr>ce_flags := f OR DIRTY\<rparr>)" "is_fresh (e\<lparr>ce_flags := f OR DIRTY\<rparr>) \<longleftrightarrow> is_fresh (e\<lparr>ce_flags := f\<rparr>)"
  "is_fresh (e\<lparr>ce_coins := c\<rparr>) \<longleftrightarrow> is_fresh e" "is_dirty (e\<lparr>ce_coins := c\<rparr>) \<longleftrightarrow> is_dirty e"
  "is_fresh \<lparr>ce_coins = c, ce_flags = f OR DIRTY\<rparr> \<longleftrightarrow> f AND FRESH \<noteq> 0" "is_dirty \<lparr>ce_coins = c, ce_flags = f OR DIRTY\<rparr>"
proof -
  have a: "(f OR DIRTY) AND FRESH = f AND FRESH" for f :: byte
    by (simp add: bit.conj_disj_distrib2)
  have "bit ((f OR DIRTY) AND DIRTY) 0" for f :: byte by (simp add: bit_and_iff bit_or_iff)
  then have b: "(f OR DIRTY) AND DIRTY \<noteq> 0" for f :: byte by (metis bit_0_eq bot_apply bot_bool_def)
  show "is_dirty (e\<lparr>ce_flags := f OR DIRTY\<rparr>)" "is_fresh (e\<lparr>ce_flags := f OR DIRTY\<rparr>) \<longleftrightarrow> is_fresh (e\<lparr>ce_flags := f\<rparr>)"
    "is_fresh (e\<lparr>ce_coins := c\<rparr>) \<longleftrightarrow> is_fresh e" "is_dirty (e\<lparr>ce_coins := c\<rparr>) \<longleftrightarrow> is_dirty e"
    "is_fresh \<lparr>ce_coins = c, ce_flags = f OR DIRTY\<rparr> \<longleftrightarrow> f AND FRESH \<noteq> 0" "is_dirty \<lparr>ce_coins = c, ce_flags = f OR DIRTY\<rparr>"
    using a b by (simp_all add: is_dirty_def is_fresh_def)
qed

lemma coins_ok_clear: "coins_ok (CoinsClear c)"
  by (simp add: coins_ok_def coins_fit_def storable_coins_def CoinsClear_def Cleanup_def drop_null_tail.simps)

lemma coins_ok_Cleanup: "coins_fit c \<Longrightarrow> coins_ok (Cleanup c)"
proof -
  assume c: "coins_fit c"
  obtain zs where z: "cn_vout c = drop_null_tail (cn_vout c) @ zs" using drop_null_tail_split by blast
  have "list_all P (drop_null_tail (cn_vout c))" if "list_all P (cn_vout c)" for P
    using that z by (metis list_all_append)
  moreover have "length (drop_null_tail (cn_vout c)) \<le> length (cn_vout c)" by (metis z length_append le_add1)
  ultimately show ?thesis
    using c by (simp add: coins_ok_def coins_fit_def storable_coins_def Cleanup_def)
qed

lemma IsPruned_clear: "IsPruned (CoinsClear c)"
  by (simp add: IsPruned_def CoinsClear_def)

lemma coins_ok_empty: "coins_ok c \<Longrightarrow> cn_vout c = [] \<longleftrightarrow> kept c = None"
  using Cleanup_pruned [of c] by (simp add: coins_ok_def kept_def)

text \<open>Entries that agree with the view below stay so while it is only read.\<close>

lemma cache_entry_ok_mono:
  "cache_entry_ok live has t e \<Longrightarrow> live' = live \<Longrightarrow> (has t \<longrightarrow> has' t) \<Longrightarrow> cache_entry_ok live' has' t e"
  by (auto simp: cache_entry_ok_def coins_entry_fits_def)

context coins_view
begin

abbreviation (input) c_ok :: "'b CCoinsViewCache \<Rightarrow> bool" where "c_ok \<equiv> cache_ok ok live has"
abbreviation (input) c_live :: "'b CCoinsViewCache \<Rightarrow> uint256 \<Rightarrow> CCoins option" where "c_live \<equiv> cache_live live"
abbreviation (input) c_tip :: "'b CCoinsViewCache \<Rightarrow> uint256" where "c_tip \<equiv> cache_tip tip"

lemma NewCache_ok: "ok b \<Longrightarrow> c_ok (NewCache b) \<and> c_live (NewCache b) = live b \<and> c_tip (NewCache b) = tip b"
  by (auto simp: cache_ok_def NewCache_def cache_live_def cache_tip_def)

lemma cache_ok_base:
  assumes "c_ok s" "ok b" "live b = live (cv_base s)" "\<And>k. has (cv_base s) k \<Longrightarrow> has b k"
  shows "c_ok (s\<lparr>cv_base := b\<rparr>)"
  using assms cache_entry_ok_mono [of "live (cv_base s)" "has (cv_base s)" _ _ "live b" "has b"]
  by (simp add: cache_ok_def del: map_of_eq_Some_iff)

text \<open>Looking a transaction up: the entry found is in the cache, and the cache stands for what it did.\<close>

lemma FetchCoins_keeps:
  assumes "c_ok s" "FetchCoins get t s = (it, s')"
  shows "c_ok s' \<and> c_live s' = c_live s \<and> c_tip s' = c_tip s \<and> (\<forall>k. cache_has s k \<longrightarrow> cache_has s' k)"
    and "it = map_of (cv_cacheCoins s') t"
    and "c_live s t = (case it of None \<Rightarrow> None | Some e \<Rightarrow> kept (ce_coins e))"
proof -
  have "(c_ok s' \<and> c_live s' = c_live s \<and> c_tip s' = c_tip s \<and> (\<forall>k. cache_has s k \<longrightarrow> cache_has s' k))
    \<and> it = map_of (cv_cacheCoins s') t
    \<and> c_live s t = (case it of None \<Rightarrow> None | Some e \<Rightarrow> kept (ce_coins e))"
  proof (cases "map_of (cv_cacheCoins s) t")
    case (Some e)
    then have "it = Some e" "s' = s" using assms(2) by (simp_all add: FetchCoins_def)
    then show ?thesis using assms(1) Some by (simp add: cache_live_def)
  next
    case None
    obtain r b where g: "get t (cv_base s) = (r, b)" by fastforce
    have o: "ok (cv_base s)" using assms(1) by (simp add: cache_ok_def)
    note k = get_keeps [OF o g]
    show ?thesis
    proof (cases r)
      case r: None
      then have s': "s' = s\<lparr>cv_base := b\<rparr>" "it = None" using assms(2) None g by (simp_all add: FetchCoins_def)
      have "c_ok s'" unfolding s' using assms(1) k get_keeps [OF o g] by (intro cache_ok_base) auto
      moreover have "c_live s' = c_live s" using k unfolding s' by (auto simp: cache_live_def fun_eq_iff split: option.split)
      moreover have "live (cv_base s) t = None" using get_none [OF o] g r by simp
      ultimately show ?thesis using None k unfolding s' by (simp add: cache_live_def cache_tip_def cache_has_def)
    next
      case (Some tmp)
      let ?e = "\<lparr>ce_coins = tmp, ce_flags = (if IsPruned tmp then FRESH else 0)\<rparr>"
      have s': "s' = s\<lparr>cv_base := b, cv_cacheCoins := AList.update t ?e (cv_cacheCoins s)\<rparr>" "it = Some ?e"
        using assms(2) None g Some by (simp_all add: FetchCoins_def Let_def)
      have l: "live (cv_base s) t = kept tmp" "coins_ok tmp" "has b t" using get_some [OF o] g Some by simp_all
      have e: "cache_entry_ok (live b) (has b) t ?e"
        using l k by (auto simp: cache_entry_ok_def coins_entry_fits_def is_fresh_def is_dirty_def kept_def)
      have old: "map_of (cv_cacheCoins s) u = Some v \<Longrightarrow> cache_entry_ok (live b) (has b) u v" for u v
        using cache_ok_entry [OF assms(1), of u v] get_keeps [OF o g, of u] by (auto intro: cache_entry_ok_mono)
      have "c_ok s'"
        using assms(1) k e old unfolding s' cache_ok_def
        by (cases "IsPruned tmp") (simp_all add: update_conv' distinct_update)
      moreover have "c_live s' = c_live s"
        using k l None unfolding s' by (auto simp: cache_live_def fun_eq_iff update_conv' split: option.split)
      ultimately show ?thesis
        using None k l unfolding s' by (simp add: cache_live_def cache_tip_def cache_has_def update_conv')
    qed
  qed
  then show "c_ok s' \<and> c_live s' = c_live s \<and> c_tip s' = c_tip s \<and> (\<forall>k. cache_has s k \<longrightarrow> cache_has s' k)"
    and "it = map_of (cv_cacheCoins s') t"
    and "c_live s t = (case it of None \<Rightarrow> None | Some e \<Rightarrow> kept (ce_coins e))" by blast+
qed

text \<open>Reading and asking for the best block.\<close>

lemma GetCoins_view:
  assumes "c_ok s" "GetCoins get t s = (r, s')"
  shows "c_ok s' \<and> c_live s' = c_live s \<and> c_tip s' = c_tip s \<and> (\<forall>k. cache_has s k \<longrightarrow> cache_has s' k)"
    and "r = None \<Longrightarrow> c_live s t = None"
    and "r = Some c \<Longrightarrow> c_live s t = kept c \<and> coins_ok c \<and> cache_has s' t"
proof -
  obtain it where f: "FetchCoins get t s = (it, s')" and r: "r = map_option ce_coins it"
    using assms(2) by (auto simp: GetCoins_def split: prod.splits)
  note k = FetchCoins_keeps [OF assms(1) f]
  show "c_ok s' \<and> c_live s' = c_live s \<and> c_tip s' = c_tip s \<and> (\<forall>k. cache_has s k \<longrightarrow> cache_has s' k)" using k(1) .
  show "r = None \<Longrightarrow> c_live s t = None" using k(3) r by simp
  show "r = Some c \<Longrightarrow> c_live s t = kept c \<and> coins_ok c \<and> cache_has s' t"
  proof -
    assume "r = Some c"
    then obtain e where e: "it = Some e" "ce_coins e = c" using r by auto
    then have "map_of (cv_cacheCoins s') t = Some e" using k(2) by simp
    moreover from this have "coins_ok c" using cache_ok_entry [of ok live has s'] k(1) e(2)
      by (auto simp: cache_entry_ok_def coins_entry_fits_def)
    ultimately show ?thesis using k(3) e by (simp add: cache_has_def)
  qed
qed

lemma GetBestBlock_view:
  assumes "c_ok s" "GetBestBlock best s = (h, s')"
  shows "c_ok s' \<and> c_live s' = c_live s \<and> c_tip s' = h \<and> c_tip s = h \<and> (\<forall>k. cache_has s k \<longrightarrow> cache_has s' k)"
proof (cases "cv_hashBlock s = uint256_0")
  case True
  obtain h' b where g: "best (cv_base s) = (h', b)" by fastforce
  have o: "ok (cv_base s)" using assms(1) by (simp add: cache_ok_def)
  have s': "s' = s\<lparr>cv_base := b, cv_hashBlock := h'\<rparr>" "h' = h" using assms(2) True g by (auto simp: GetBestBlock_def)
  note k = best_keeps [OF o g]
  have "c_ok (s\<lparr>cv_base := b\<rparr>)" using assms(1) k best_keeps [OF o g] by (intro cache_ok_base) auto
  then have "c_ok s'" unfolding s' by (simp add: cache_ok_def)
  moreover have "c_live s' = c_live s" using k unfolding s' by (auto simp: cache_live_def fun_eq_iff split: option.split)
  ultimately show ?thesis using k True unfolding s' by (simp add: cache_tip_def cache_has_def)
next
  case False
  then show ?thesis using assms by (auto simp: GetBestBlock_def cache_tip_def)
qed

text \<open>Asking whether a transaction has unspent outputs.\<close>

lemma HaveCoins_view:
  assumes "c_ok s" "HaveCoins get t s = (r, s')"
  shows "c_ok s' \<and> c_live s' = c_live s \<and> c_tip s' = c_tip s \<and> (r \<longleftrightarrow> c_live s t \<noteq> None)"
proof -
  obtain it where f: "FetchCoins get t s = (it, s')" and r: "r = (case it of None \<Rightarrow> False | Some e \<Rightarrow> cn_vout (ce_coins e) \<noteq> [])"
    using assms(2) by (auto simp: HaveCoins_def split: prod.splits)
  note k = FetchCoins_keeps [OF assms(1) f]
  have "coins_ok (ce_coins e)" if "it = Some e" for e
    using cache_ok_entry [of ok live has s' t e] k(1,2) that by (auto simp: cache_entry_ok_def coins_entry_fits_def)
  then show ?thesis using k(1,3) r coins_ok_empty by (cases it) auto
qed

text \<open>A modification runs without a failed assertion, and changes the coins of its transaction only.\<close>

lemma modify_view:
  assumes "c_ok s"
    and f: "\<And>c. coins_ok c \<Longrightarrow> kept c = c_live s t \<Longrightarrow> coins_fit (snd (f c))"
  shows "\<exists>s' c. modify get t f s = Inr (fst (f c), s') \<and> c_ok s' \<and> coins_ok c \<and> kept c = c_live s t
    \<and> c_live s' = (c_live s)(t := kept (Cleanup (snd (f c)))) \<and> c_tip s' = c_tip s"
proof -
  have o: "ok (cv_base s)" and m: "\<not> cv_hasModifier s" using assms(1) by (simp_all add: cache_ok_def)
  define eb where "eb = (case map_of (cv_cacheCoins s) t of
               Some e \<Rightarrow> (e, cv_base s)
             | None \<Rightarrow> (case get t (cv_base s) of
                 (None, b) \<Rightarrow> (NewEntry\<lparr>ce_coins := CoinsClear (ce_coins NewEntry), ce_flags := FRESH\<rparr>, b)
               | (Some c, b) \<Rightarrow> (NewEntry\<lparr>ce_coins := c, ce_flags := (if IsPruned c then FRESH else ce_flags NewEntry)\<rparr>, b)))"
  obtain e b where eb: "eb = (e, b)" by fastforce
  have e: "coins_entry_fits (live b) (has b) t e \<and> kept (ce_coins e) = c_live s t
      \<and> ok b \<and> live b = live (cv_base s) \<and> tip b = tip (cv_base s) \<and> (\<forall>k. has (cv_base s) k \<longrightarrow> has b k)"
  proof (cases "map_of (cv_cacheCoins s) t")
    case (Some e')
    then show ?thesis using eb o cache_ok_entry [OF assms(1) Some] by (simp add: eb_def cache_entry_ok_def cache_live_def)
  next
    case None
    obtain r b' where g: "get t (cv_base s) = (r, b')" by fastforce
    note k = get_keeps [OF o g]
    show ?thesis
    proof (cases r)
      case r: None
      then have "live (cv_base s) t = None" using get_none [OF o] g by simp
      then show ?thesis
        using eb g None k r
        by (auto simp: eb_def coins_entry_fits_def cache_live_def kept_def coins_ok_clear IsPruned_clear is_fresh_def)
    next
      case (Some c)
      then have "live (cv_base s) t = kept c \<and> coins_ok c \<and> has b' t" using get_some [OF o] g by simp
      then show ?thesis
        using eb g None k Some
        by (auto simp: eb_def coins_entry_fits_def cache_live_def is_fresh_def NewEntry_def kept_def)
    qed
  qed
  let ?d = "e\<lparr>ce_flags := ce_flags e OR DIRTY\<rparr>"
  let ?s1 = "s\<lparr>cv_base := b, cv_hasModifier := True, cv_cacheCoins := AList.update t ?d (cv_cacheCoins s)\<rparr>"
  have m1: "ModifyCoins get t s = Inr ?s1"
    using m eb by (simp add: ModifyCoins_def eb_def [symmetric])
  let ?c = "ce_coins e"
  obtain r c where rc: "f ?c = (r, c)" by fastforce
  let ?d' = "?d\<lparr>ce_coins := Cleanup c\<rparr>"
  define M where "M = AList.map_entry t (\<lambda>e. e\<lparr>ce_coins := Cleanup c\<rparr>)
    (AList.map_entry t (\<lambda>e. e\<lparr>ce_coins := c\<rparr>) (AList.update t ?d (cv_cacheCoins s)))"
  have M: "map_of M = (map_of (cv_cacheCoins s))(t \<mapsto> ?d')" "distinct (map fst M)"
    using assms(1) unfolding M_def
    by (auto simp: map_of_map_entry update_conv' cache_ok_def distinct_update distinct_map_entry)
  define s' where "s' = s\<lparr>cv_base := b, cv_cacheCoins := (if is_fresh ?d' \<and> IsPruned c then AList.delete t M else M)\<rparr>"
  have run: "modify get t f s = Inr (r, s')"
    using m rc by (simp add: modify_def m1 EndModify_def set_modified_def M_def [symmetric] s'_def Let_def map_of_map_entry update_conv')
  have kc: "kept ?c = c_live s t" "coins_ok ?c" using e by (simp_all add: coins_entry_fits_def)
  have st: "coins_fit c" using f [of ?c] kc rc by simp
  then have okd: "coins_ok (Cleanup c)"
    by (rule coins_ok_Cleanup)
  have fresh: "is_fresh ?d' = is_fresh e" by simp
  have old: "map_of (cv_cacheCoins s) u = Some v \<Longrightarrow> cache_entry_ok (live b) (has b) u v" for u v
    using cache_ok_entry [OF assms(1), of u v] e by (auto intro: cache_entry_ok_mono)
  have d': "cache_entry_ok (live b) (has b) t ?d'"
    using e okd fresh by (auto simp: cache_entry_ok_def coins_entry_fits_def)
  have inM: "cache_entry_ok (live b) (has b) u v" if "map_of M u = Some v" for u v
    using that old [of u v] d' unfolding M(1) by (cases "u = t") (simp_all del: map_of_eq_Some_iff)
  then have "cache_entry_ok (live b) (has b) u v" if "map_of (AList.delete t M) u = Some v" for u v
    using that unfolding delete_conv' by (cases "u = t") (simp_all del: map_of_eq_Some_iff)
  with inM have "c_ok s'"
    using e m M(2) unfolding s'_def cache_ok_def by (simp add: distinct_delete del: map_of_eq_Some_iff)
  moreover have "c_live s' = (c_live s)(t := kept (Cleanup c))"
  proof (cases "is_fresh ?d' \<and> IsPruned c")
    case True
    have lb: "live b = live (cv_base s)" and fits: "coins_entry_fits (live b) (has b) t e" using e by blast+
    have "live (cv_base s) t = None" "kept (Cleanup c) = None"
      using fits True fresh unfolding lb by (simp_all add: coins_entry_fits_def kept_def)
    then show ?thesis using True e M unfolding s'_def
      by (auto simp: cache_live_def fun_eq_iff delete_conv' split: option.split)
  next
    case False
    then show ?thesis using e M unfolding s'_def
      by (auto simp: cache_live_def fun_eq_iff split: option.split)
  qed
  moreover have "c_tip s' = c_tip s" using e unfolding s'_def by (simp add: cache_tip_def)
  ultimately show ?thesis using run kc rc by (intro exI [of _ s'] exI [of _ ?c]) simp
qed

text \<open>Writing the entries of the cache above, one after the other.\<close>

lemma write_entry_view:
  assumes "c_ok s" "coins_entry_fits (c_live s) (cache_has s) t e"
  shows "\<exists>cc. write_entry (t, e) (cv_cacheCoins s) = Inr cc \<and> c_ok (s\<lparr>cv_cacheCoins := cc\<rparr>)
    \<and> c_live (s\<lparr>cv_cacheCoins := cc\<rparr>) = (if is_dirty e then (c_live s)(t := kept (ce_coins e)) else c_live s)
    \<and> (\<forall>k. k \<noteq> t \<longrightarrow> map_of cc k = map_of (cv_cacheCoins s) k)"
proof -
  have upd: "c_ok (s\<lparr>cv_cacheCoins := AList.update t v (cv_cacheCoins s)\<rparr>)
      \<and> c_live (s\<lparr>cv_cacheCoins := AList.update t v (cv_cacheCoins s)\<rparr>) = (c_live s)(t := kept (ce_coins v))"
    if v: "cache_entry_ok (live (cv_base s)) (has (cv_base s)) t v" for v
  proof -
    have "cache_entry_ok (live (cv_base s)) (has (cv_base s)) k w" if "map_of (AList.update t v (cv_cacheCoins s)) k = Some w" for k w
      using that v cache_ok_entry [OF assms(1), of k w] unfolding update_conv'
      by (cases "k = t") (simp_all del: map_of_eq_Some_iff)
    then show ?thesis
      using assms(1) by (auto simp: cache_ok_def distinct_update cache_live_def update_conv' fun_eq_iff split: option.split simp del: map_of_eq_Some_iff)
  qed
  have del: "c_ok (s\<lparr>cv_cacheCoins := AList.delete t (cv_cacheCoins s)\<rparr>)
      \<and> c_live (s\<lparr>cv_cacheCoins := AList.delete t (cv_cacheCoins s)\<rparr>) = (c_live s)(t := live (cv_base s) t)"
  proof -
    have "cache_entry_ok (live (cv_base s)) (has (cv_base s)) k w" if "map_of (AList.delete t (cv_cacheCoins s)) k = Some w" for k w
      using that cache_ok_entry [OF assms(1), of k w] unfolding delete_conv'
      by (cases "k = t") (simp_all del: map_of_eq_Some_iff)
    then show ?thesis
      using assms(1) by (auto simp: cache_ok_def distinct_delete cache_live_def delete_conv' fun_eq_iff split: option.split simp del: map_of_eq_Some_iff)
  qed
  consider (clean) "\<not> is_dirty e" | (absent) "is_dirty e" "map_of (cv_cacheCoins s) t = None"
    | (present) u where "is_dirty e" "map_of (cv_cacheCoins s) t = Some u" by blast
  then show ?thesis
  proof cases
    case clean
    then show ?thesis using assms(1) by (simp add: write_entry_def)
  next
    case absent
    then have f: "is_fresh e" and l: "c_live s t = None" "live (cv_base s) t = None"
      using assms(2) by (auto simp: coins_entry_fits_def cache_has_def cache_live_def split: if_splits)
    show ?thesis
    proof (cases "IsPruned (ce_coins e)")
      case True
      then have "(c_live s)(t := kept (ce_coins e)) = c_live s" using l by (auto simp: kept_def)
      then show ?thesis using True absent assms(1) by (simp add: write_entry_def)
    next
      case False
      have "cache_entry_ok (live (cv_base s)) (has (cv_base s)) t \<lparr>ce_coins = ce_coins e, ce_flags = DIRTY OR FRESH\<rparr>"
        using l assms(2) by (simp add: cache_entry_ok_def coins_entry_fits_def is_fresh_def is_dirty_def)
      from upd [OF this] False f absent show ?thesis by (simp add: write_entry_def update_conv')
    qed
  next
    case present
    note u = cache_ok_entry [OF assms(1) present(2)]
    show ?thesis
    proof (cases "is_fresh u \<and> IsPruned (ce_coins e)")
      case True
      then have "live (cv_base s) t = kept (ce_coins e)" using u by (simp add: cache_entry_ok_def coins_entry_fits_def kept_def)
      then show ?thesis using del True present by (simp add: write_entry_def delete_conv')
    next
      case False
      have "cache_entry_ok (live (cv_base s)) (has (cv_base s)) t \<lparr>ce_coins = ce_coins e, ce_flags = ce_flags u OR DIRTY\<rparr>"
        using u assms(2) by (simp add: cache_entry_ok_def coins_entry_fits_def is_fresh_def [of u, symmetric])
      from upd [OF this] show ?thesis
        using False present by (auto simp: write_entry_def update_conv')
    qed
  qed
qed

lemma write_entries_view:
  assumes "c_ok s" "distinct (map fst m)" "\<And>t e. (t, e) \<in> set m \<Longrightarrow> coins_entry_fits (c_live s) (cache_has s) t e"
  shows "\<exists>cc. write_entries m (cv_cacheCoins s) = Inr cc \<and> c_ok (s\<lparr>cv_cacheCoins := cc\<rparr>)
    \<and> c_live (s\<lparr>cv_cacheCoins := cc\<rparr>) = overlay m (c_live s)"
  using assms
proof (induction m arbitrary: s)
  case Nil
  then show ?case by (auto simp: overlay_def)
next
  case (Cons it m)
  obtain t e where it: "it = (t, e)" by fastforce
  have fits: "coins_entry_fits (c_live s) (cache_has s) t e" using Cons.prems(3) it by simp
  obtain cc where cc: "write_entry (t, e) (cv_cacheCoins s) = Inr cc" "c_ok (s\<lparr>cv_cacheCoins := cc\<rparr>)"
      "c_live (s\<lparr>cv_cacheCoins := cc\<rparr>) = (if is_dirty e then (c_live s)(t := kept (ce_coins e)) else c_live s)"
      "\<forall>k. k \<noteq> t \<longrightarrow> map_of cc k = map_of (cv_cacheCoins s) k"
    using write_entry_view [OF Cons.prems(1) fits] by blast
  let ?s = "s\<lparr>cv_cacheCoins := cc\<rparr>"
  have t: "t \<notin> fst ` set m" using Cons.prems(2) it by simp
  have "coins_entry_fits (c_live ?s) (cache_has ?s) k v" if "(k, v) \<in> set m" for k v
  proof -
    have "k \<noteq> t" using t that by force
    moreover have "coins_entry_fits (c_live s) (cache_has s) k v" using Cons.prems(3) that by simp
    ultimately show ?thesis using cc(3,4) by (auto simp: coins_entry_fits_def cache_has_def split: if_splits)
  qed
  from Cons.IH [OF cc(2) _ this] Cons.prems(2) obtain cc' where
    "write_entries m cc = Inr cc'" "c_ok (?s\<lparr>cv_cacheCoins := cc'\<rparr>)" "c_live (?s\<lparr>cv_cacheCoins := cc'\<rparr>) = overlay m (c_live ?s)"
    by auto
  moreover have "overlay m (c_live ?s) = overlay (it # m) (c_live s)"
  proof
    fix k
    have "map_of m t = None" using t by (simp add: map_of_eq_None_iff)
    then show "overlay m (c_live ?s) k = overlay (it # m) (c_live s) k"
      using cc(3) it by (auto simp: overlay_def split: option.split)
  qed
  ultimately show ?case using cc(1) it by simp
qed

lemma BatchWrite_view:
  assumes "c_ok s" "map_fits (c_live s) (cache_has s) m" "h \<noteq> uint256_0"
  shows "\<exists>s'. BatchWrite m h s = Inr (True, s') \<and> c_ok s' \<and> c_tip s' = h \<and> c_live s' = overlay m (c_live s)"
proof -
  have d: "distinct (map fst m)" using assms(2) by (simp add: map_fits_def)
  have "coins_entry_fits (c_live s) (cache_has s) t e" if "(t, e) \<in> set m" for t e
    using assms(2) that by (simp add: map_fits_def)
  then obtain cc where cc: "write_entries m (cv_cacheCoins s) = Inr cc" "c_ok (s\<lparr>cv_cacheCoins := cc\<rparr>)"
      "c_live (s\<lparr>cv_cacheCoins := cc\<rparr>) = overlay m (c_live s)"
    using write_entries_view [OF assms(1) d] by blast
  let ?s = "s\<lparr>cv_cacheCoins := cc, cv_hashBlock := h\<rparr>"
  have "BatchWrite m h s = Inr (True, ?s)" using cc(1) assms(1) by (simp add: BatchWrite_def cache_ok_def)
  moreover have "c_ok ?s" using cc(2) by (simp add: cache_ok_def)
  moreover have "c_live ?s = overlay m (c_live s)"
    unfolding cc(3) [symmetric] by (auto simp: cache_live_def fun_eq_iff split: option.split)
  moreover have "c_tip ?s = h" using assms(3) by (simp add: cache_tip_def)
  ultimately show ?thesis by blast
qed

text \<open>A cache over a view is a view.\<close>

lemma cache_view: "coins_view (GetCoins get) (GetBestBlock best) BatchWrite c_ok c_live c_tip cache_has"
proof
  show "c_ok s \<Longrightarrow> GetCoins get t s = (r, s') \<Longrightarrow> c_ok s' \<and> c_live s' = c_live s \<and> c_tip s' = c_tip s \<and> (cache_has s k \<longrightarrow> cache_has s' k)"
    for s s' t r k using GetCoins_view(1) by blast
  show "c_ok s \<Longrightarrow> GetCoins get t s = (None, s') \<Longrightarrow> c_live s t = None" for s s' t
    using GetCoins_view(2) by blast
  show "c_ok s \<Longrightarrow> GetCoins get t s = (Some c, s') \<Longrightarrow> c_live s t = kept c \<and> coins_ok c \<and> cache_has s' t" for s s' t c
    using GetCoins_view(3) by blast
  show "c_ok s \<Longrightarrow> GetBestBlock best s = (h, s')
      \<Longrightarrow> c_ok s' \<and> c_live s' = c_live s \<and> c_tip s' = h \<and> c_tip s = h \<and> (cache_has s k \<longrightarrow> cache_has s' k)" for s s' h k
    using GetBestBlock_view by blast
  show "c_ok s \<Longrightarrow> map_fits (c_live s) (cache_has s) m \<Longrightarrow> h \<noteq> uint256_0 \<Longrightarrow> length h = 8
      \<Longrightarrow> \<exists>s'. BatchWrite m h s = Inr (True, s') \<and> c_ok s' \<and> c_tip s' = h \<and> c_live s' = overlay m (c_live s)" for s m h
    by (rule BatchWrite_view)
qed

text \<open>Flushing moves what the cache stands for to the view below.\<close>

lemma Flush_view:
  assumes "c_ok s" "cv_hashBlock s \<noteq> uint256_0" "length (cv_hashBlock s) = 8"
  shows "\<exists>s'. Flush put s = Inr (True, s') \<and> c_ok s' \<and> cv_cacheCoins s' = [] \<and> c_live s' = c_live s \<and> c_tip s' = c_tip s
    \<and> ok (cv_base s') \<and> live (cv_base s') = c_live s \<and> tip (cv_base s') = c_tip s"
proof -
  have "map_fits (live (cv_base s)) (has (cv_base s)) (cv_cacheCoins s)"
    using assms(1) unfolding map_fits_def cache_ok_def cache_entry_ok_def by blast
  moreover have "ok (cv_base s)" using assms(1) by (simp add: cache_ok_def)
  ultimately obtain b' where b': "put (cv_cacheCoins s) (cv_hashBlock s) (cv_base s) = Inr (True, b')" "ok b'"
      "tip b' = cv_hashBlock s" "live b' = overlay (cv_cacheCoins s) (live (cv_base s))"
    using put_applies assms(2,3) by blast
  have o: "overlay (cv_cacheCoins s) (live (cv_base s)) = c_live s"
  proof
    fix t
    show "overlay (cv_cacheCoins s) (live (cv_base s)) t = c_live s t"
      using cache_ok_entry [OF assms(1), of t]
      by (cases "map_of (cv_cacheCoins s) t") (auto simp: overlay_def cache_live_def cache_entry_ok_def simp del: map_of_eq_Some_iff)
  qed
  let ?s = "s\<lparr>cv_base := b', cv_cacheCoins := []\<rparr>"
  have "Flush put s = Inr (True, ?s)" using b'(1) by (simp add: Flush_def)
  moreover have "c_ok ?s" using assms(1) b'(2) by (simp add: cache_ok_def)
  moreover have "c_live ?s = c_live s" using b'(4) o by (simp add: cache_live_def fun_eq_iff)
  moreover have "c_tip ?s = c_tip s" using assms(2) by (simp add: cache_tip_def)
  moreover have "tip b' = c_tip s" using b'(3) assms(2) by (simp add: cache_tip_def)
  ultimately show ?thesis using b' o by (intro exI [of _ ?s]) simp
qed

text \<open>The inputs of a transaction are there exactly when the set of unspent outputs has them.\<close>

lemma AccessCoins_view:
  assumes "c_ok s" "AccessCoins get t s = (r, s')"
  shows "c_ok s' \<and> c_live s' = c_live s \<and> c_tip s' = c_tip s"
    and "(case r of None \<Rightarrow> False | Some c \<Rightarrow> IsAvailable c j) = (case c_live s t of None \<Rightarrow> False | Some c \<Rightarrow> IsAvailable c j)"
    and "r = Some c \<Longrightarrow> IsAvailable c j \<Longrightarrow> kept c = c_live s t"
proof -
  have g: "GetCoins get t s = (r, s')" using assms(2) by (simp add: GetCoins_def AccessCoins_def)
  note v = GetCoins_view [OF assms(1) g]
  show "c_ok s' \<and> c_live s' = c_live s \<and> c_tip s' = c_tip s" using v(1) by simp
  show "(case r of None \<Rightarrow> False | Some c \<Rightarrow> IsAvailable c j) = (case c_live s t of None \<Rightarrow> False | Some c \<Rightarrow> IsAvailable c j)"
  proof (cases r)
    case None
    then show ?thesis using v(2) by simp
  next
    case (Some c)
    then show ?thesis using v(3) [OF Some] by (auto simp: kept_def IsPruned_not_available split: if_splits)
  qed
  show "r = Some c \<Longrightarrow> IsAvailable c j \<Longrightarrow> kept c = c_live s t" using v(3) by simp
qed

lemma have_inputs_loop_view:
  assumes "c_ok s" "have_inputs_loop get ins s = (r, s')"
  shows "c_ok s' \<and> c_live s' = c_live s \<and> c_tip s' = c_tip s \<and> (r \<longleftrightarrow> list_all (\<lambda>input. unspent (c_live s) (prevout input)) ins)"
  using assms
proof (induction ins arbitrary: s)
  case (Cons input ins)
  obtain c s1 where a: "AccessCoins get (op_txid (prevout input)) s = (c, s1)" by fastforce
  note v = AccessCoins_view [OF Cons.prems(1) a]
  have u: "unspent (c_live s) (prevout input) = (case c of None \<Rightarrow> False | Some c \<Rightarrow> IsAvailable c (unat (op_n (prevout input))))"
    by (simp only: unspent_def v(2))
  show ?case
  proof (cases "unspent (c_live s) (prevout input)")
    case True
    then have "have_inputs_loop get ins s1 = (r, s')" using Cons.prems(2) a u by (auto split: option.splits)
    then show ?thesis using Cons.IH [of s1] v(1) True by simp
  next
    case False
    then have "r = False" "s' = s1" using Cons.prems(2) a u by (auto split: option.splits)
    then show ?thesis using v(1) False by simp
  qed
qed simp

lemma HaveInputs_view:
  assumes "c_ok s" "HaveInputs get tx s = (r, s')"
  shows "c_ok s' \<and> c_live s' = c_live s \<and> c_tip s' = c_tip s
    \<and> (r \<longleftrightarrow> IsCoinBase tx \<or> list_all (\<lambda>input. unspent (c_live s) (prevout input)) (vin tx))"
  using assms have_inputs_loop_view [OF assms(1), of "vin tx" r s'] by (auto simp: HaveInputs_def split: if_splits)

lemma GetOutputFor_view:
  assumes "c_ok s" "unspent (c_live s) (prevout input)"
  shows "\<exists>out s' c. GetOutputFor get input s = Inr (out, s') \<and> c_ok s' \<and> c_live s' = c_live s
    \<and> c_live s (op_txid (prevout input)) = Some c \<and> stored_out out = cn_vout c ! unat (op_n (prevout input))"
proof -
  obtain c s1 where a: "AccessCoins get (op_txid (prevout input)) s = (c, s1)" by fastforce
  note v = AccessCoins_view [OF assms(1) a]
  let ?j = "unat (op_n (prevout input))"
  have "case c of None \<Rightarrow> False | Some c \<Rightarrow> IsAvailable c ?j" using assms(2) by (simp only: unspent_def v(2))
  then obtain d where d: "c = Some d" "IsAvailable d ?j" by (cases c) simp_all
  then have k: "kept d = c_live s (op_txid (prevout input))" using v(3) by blast
  then have l: "c_live s (op_txid (prevout input)) = Some (stored_coins d)"
    using d(2) by (auto simp: kept_def IsPruned_not_available split: if_splits)
  have "GetOutputFor get input s = Inr (cn_vout d ! ?j, s1)" using a d by (simp add: GetOutputFor_def)
  then show ?thesis using v(1) l nth_stored_coins [OF d(2)] by auto
qed

end

end
