(* ===== verification/Coins_DB.thy ===== *)
theory Coins_DB
  imports Coins_View
begin

text \<open>
  \<open>leveldbwrapper.h\<close> and \<open>CCoinsViewDB\<close> of \<open>txdb.cpp\<close>: the database of unspent outputs. A LevelDB database is the map from byte
  strings to byte strings that it documents, a batch the sequence of changes that are applied to it at once; failures of the storage,
  which throw \<open>leveldb_error\<close>, are not modelled.
\<close>

section \<open>The wrapper\<close>

type_synonym leveldb = "bytes \<Rightarrow> bytes option"

datatype batch_op = Put bytes bytes | Delete bytes

type_synonym CLevelDBBatch = "batch_op list"

fun apply_op :: "batch_op \<Rightarrow> leveldb \<Rightarrow> leveldb" where
  "apply_op (Put key slValue) db = db(key \<mapsto> slValue)"
| "apply_op (Delete key) db = db(key := None)"

definition WriteBatch :: "CLevelDBBatch \<Rightarrow> leveldb \<Rightarrow> leveldb" where
  "WriteBatch batch db = fold apply_op batch db"

definition DbRead :: "(bytes \<Rightarrow> ('a \<times> bytes) option) \<Rightarrow> bytes \<Rightarrow> leveldb \<Rightarrow> 'a option" where
  "DbRead dec key db = (case db key of None \<Rightarrow> None | Some slValue \<Rightarrow> map_option fst (dec slValue))"

definition DbExists :: "bytes \<Rightarrow> leveldb \<Rightarrow> bool" where
  "DbExists key db \<longleftrightarrow> db key \<noteq> None"

definition DbWrite :: "bytes \<Rightarrow> bytes \<Rightarrow> leveldb \<Rightarrow> leveldb" where
  "DbWrite key slValue db = WriteBatch [Put key slValue] db"

definition DbErase :: "bytes \<Rightarrow> leveldb \<Rightarrow> leveldb" where
  "DbErase key db = WriteBatch [Delete key] db"

section \<open>Coins\<close>

text \<open>Keys: the character \<open>c\<close> and the transaction, the character \<open>B\<close> for the best block.\<close>

definition coins_key :: "uint256 \<Rightarrow> bytes" where
  "coins_key txid = 99 # write_limbs txid"

definition best_key :: bytes where
  "best_key = [66]"

definition BatchWriteCoins :: "(CPubKey \<Rightarrow> bool) \<Rightarrow> uint256 \<Rightarrow> CCoins \<Rightarrow> CLevelDBBatch \<Rightarrow> view_error + CLevelDBBatch" where
  "BatchWriteCoins fully_valid hash coins batch =
     (if IsPruned coins then Inr (batch @ [Delete (coins_key hash)])
      else case write_CCoins fully_valid coins of
        None \<Rightarrow> Inl AssertionFailed
      | Some slValue \<Rightarrow> Inr (batch @ [Put (coins_key hash) slValue]))"

definition BatchWriteHashBestChain :: "uint256 \<Rightarrow> CLevelDBBatch \<Rightarrow> CLevelDBBatch" where
  "BatchWriteHashBestChain hash batch = batch @ [Put best_key (write_limbs hash)]"

definition DbGetCoins :: "(CPubKey \<Rightarrow> CPubKey option) \<Rightarrow> leveldb get_coins" where
  "DbGetCoins key_decompress txid db = (DbRead (read_CCoins key_decompress) (coins_key txid) db, db)"

definition DbHaveCoins :: "uint256 \<Rightarrow> leveldb \<Rightarrow> bool" where
  "DbHaveCoins txid db = DbExists (coins_key txid) db"

definition DbGetBestBlock :: "leveldb get_best" where
  "DbGetBestBlock db = (case DbRead (read_limbs 8) best_key db of None \<Rightarrow> uint256_0 | Some hashBestChain \<Rightarrow> hashBestChain, db)"

fun batch_coins :: "(CPubKey \<Rightarrow> bool) \<Rightarrow> CCoinsMap \<Rightarrow> CLevelDBBatch \<Rightarrow> view_error + CLevelDBBatch" where
  "batch_coins fully_valid [] batch = Inr batch"
| "batch_coins fully_valid ((txid, e) # mapCoins) batch =
     (if is_dirty e
      then (case BatchWriteCoins fully_valid txid (ce_coins e) batch of
          Inl err \<Rightarrow> Inl err
        | Inr batch \<Rightarrow> batch_coins fully_valid mapCoins batch)
      else batch_coins fully_valid mapCoins batch)"

definition DbBatchWrite :: "(CPubKey \<Rightarrow> bool) \<Rightarrow> leveldb batch_write" where
  "DbBatchWrite fully_valid mapCoins hashBlock db =
     (case batch_coins fully_valid mapCoins [] of
        Inl err \<Rightarrow> Inl err
      | Inr batch \<Rightarrow>
          let batch = (if hashBlock \<noteq> uint256_0 then BatchWriteHashBestChain hashBlock batch else batch)
          in Inr (True, WriteBatch batch db))"

section \<open>The database is a view\<close>

text \<open>The records of a database that the node has written.\<close>

definition coins_record :: "(CPubKey \<Rightarrow> bool) \<Rightarrow> bytes \<Rightarrow> bool" where
  "coins_record fv bs \<longleftrightarrow> (\<exists>c. \<not> IsPruned c \<and> coins_ok c \<and> write_CCoins fv c = Some bs)"

definition db_ok :: "(CPubKey \<Rightarrow> bool) \<Rightarrow> leveldb \<Rightarrow> bool" where
  "db_ok fv db \<longleftrightarrow> (\<forall>txid bs. db (coins_key txid) = Some bs \<longrightarrow> coins_record fv bs)
     \<and> (\<forall>bs. db best_key = Some bs \<longrightarrow> (\<exists>h. length h = 8 \<and> bs = write_limbs h))"

definition db_live :: "(CPubKey \<Rightarrow> CPubKey option) \<Rightarrow> leveldb \<Rightarrow> uint256 \<Rightarrow> CCoins option" where
  "db_live kd db txid = (case DbRead (read_CCoins kd) (coins_key txid) db of None \<Rightarrow> None | Some c \<Rightarrow> kept c)"

definition db_tip :: "leveldb \<Rightarrow> uint256" where
  "db_tip db = fst (DbGetBestBlock db)"

lemma write_limbs_inj: "write_limbs a = write_limbs b \<longleftrightarrow> a = b"
proof
  assume eq: "write_limbs a = write_limbs b"
  then have "length a = length b" by (metis length_write_limbs mult_cancel1 zero_neq_numeral)
  moreover have "read_limbs (length a) (write_limbs a @ []) = Some (a, [])" "read_limbs (length b) (write_limbs b @ []) = Some (b, [])"
    by (simp_all only: read_limbs_write)
  ultimately show "a = b" using eq by simp
qed simp

lemma coins_key_inj [simp]: "coins_key a = coins_key b \<longleftrightarrow> a = b"
  by (simp add: coins_key_def write_limbs_inj)

lemma coins_key_best [simp]: "coins_key a \<noteq> best_key" "best_key \<noteq> coins_key a"
  by (simp_all add: coins_key_def best_key_def)

lemma stored_out_idem [simp]: "stored_out (stored_out out) = stored_out out"
  by (cases "TxOutIsNull out") (simp_all add: stored_out_def, simp add: stored_txout_def NewTxOut_def)

lemma Cleanup_idem [simp]: "Cleanup (Cleanup c) = Cleanup c"
  by (simp add: Cleanup_def)

lemma stored_coins_idem [simp]: "stored_coins (stored_coins c) = stored_coins c"
proof -
  have "stored_out \<circ> stored_out = stored_out" by (auto simp: fun_eq_iff)
  then have "cn_vout (stored_coins (stored_coins c)) = cn_vout (stored_coins c)"
    by (simp add: stored_coins_vout drop_null_tail_map)
  then show ?thesis by (simp add: stored_coins_def Cleanup_def)
qed

lemma stored_coins_pruned [simp]: "IsPruned (stored_coins c) \<longleftrightarrow> IsPruned c"
  by (simp add: IsPruned_not_available)

lemma stored_coins_ok: "coins_ok c \<Longrightarrow> coins_ok (stored_coins c)"
proof -
  assume c: "coins_ok c"
  have "storable (stored_out out) \<or> TxOutIsNull out" if "TxOutIsNull out \<or> storable out" for out
    using that by (auto simp: stored_out_def stored_txout_def NewTxOut_def storable_def)
  moreover have "tidy_out (stored_out out)" for out
    by (simp add: tidy_out_def stored_out_def stored_txout_def NullTxOut_def NewTxOut_def TxOutIsNull_def)
  ultimately have "coins_fit (c\<lparr>cn_vout := map stored_out (cn_vout c)\<rparr>)"
    using c by (auto simp: coins_ok_def coins_fit_def storable_coins_def list_all_iff)
  then show ?thesis unfolding stored_coins_def by (rule coins_ok_Cleanup)
qed

lemma kept_stored: "kept (stored_coins c) = kept c"
  by (simp add: kept_def)

lemma read_record:
  assumes "decompresses fv kd" "coins_ok c" "\<not> IsPruned c" "write_CCoins fv c = Some bs"
  shows "read_CCoins kd bs = Some (stored_coins c, [])"
  using read_CCoins_write [of fv kd c "[]"] assms by (auto simp: coins_ok_def coins_fit_def)

lemma db_live_record:
  assumes "decompresses fv kd" "db_ok fv db"
  shows "db_live kd db t = (case db (coins_key t) of None \<Rightarrow> None | Some bs \<Rightarrow> map_option fst (read_CCoins kd bs))"
proof (cases "db (coins_key t)")
  case (Some bs)
  then have "coins_record fv bs" using assms(2) by (simp add: db_ok_def)
  then obtain c where "\<not> IsPruned c" "coins_ok c" "write_CCoins fv c = Some bs"
    unfolding coins_record_def by blast
  then show ?thesis using Some read_record [OF assms(1)] by (simp add: db_live_def DbRead_def kept_def)
qed (simp add: db_live_def DbRead_def)

text \<open>A batch of coins: one change for each dirty entry, of its own key.\<close>

definition entry_op :: "(CPubKey \<Rightarrow> bool) \<Rightarrow> uint256 \<times> CCoinsCacheEntry \<Rightarrow> batch_op" where
  "entry_op fv it = (case it of (txid, e) \<Rightarrow>
     if IsPruned (ce_coins e) then Delete (coins_key txid) else Put (coins_key txid) (the (write_CCoins fv (ce_coins e))))"

lemma write_CCoins_some:
  assumes "decompresses fv kd" "coins_ok c" "\<not> IsPruned c"
  shows "\<exists>bs. write_CCoins fv c = Some bs"
  using read_CCoins_write [OF assms(1) _ assms(3), of "[]"] assms(2) by (auto simp: coins_ok_def coins_fit_def)

lemma batch_coins_eq:
  assumes "decompresses fv kd" "\<And>t e. (t, e) \<in> set m \<Longrightarrow> coins_ok (ce_coins e)"
  shows "batch_coins fv m batch = Inr (batch @ map (entry_op fv) (filter (\<lambda>(t, e). is_dirty e) m))"
  using assms(2)
proof (induction m arbitrary: batch)
  case (Cons it m)
  obtain t e where it: "it = (t, e)" by fastforce
  have c: "coins_ok (ce_coins e)" using Cons.prems [of t e] it by simp
  have IH: "batch_coins fv m b = Inr (b @ map (entry_op fv) (filter (\<lambda>(t, e). is_dirty e) m))" for b
  proof (rule Cons.IH)
    show "coins_ok (ce_coins e)" if "(t, e) \<in> set m" for t e using Cons.prems [of t e] that by simp
  qed
  show ?case
    using it IH write_CCoins_some [OF assms(1) c] by (auto simp: BatchWriteCoins_def entry_op_def)
qed simp

lemma apply_entries:
  assumes "distinct (map fst m)"
  shows "fold apply_op (map (entry_op fv) (filter (\<lambda>(t, e). is_dirty e) m)) db key =
    (case find (\<lambda>(t, e). is_dirty e \<and> key = coins_key t) m of
       None \<Rightarrow> db key
     | Some (t, e) \<Rightarrow> if IsPruned (ce_coins e) then None else Some (the (write_CCoins fv (ce_coins e))))"
  using assms
proof (induction m arbitrary: db)
  case (Cons it m)
  obtain t e where it: "it = (t, e)" by fastforce
  have d: "distinct (map fst m)" "t \<notin> fst ` set m" using Cons.prems it by simp_all
  then have n: "find (\<lambda>(t, e). is_dirty e \<and> coins_key t' = coins_key t) m = None" if "t' = t" for t'
    using that by (force simp: find_None_iff)
  show ?case
  proof (cases "is_dirty e")
    case False
    then show ?thesis using it Cons.IH [OF d(1)] by simp
  next
    case True
    have "fold apply_op (map (entry_op fv) (filter (\<lambda>(t, e). is_dirty e) (it # m))) db key =
        fold apply_op (map (entry_op fv) (filter (\<lambda>(t, e). is_dirty e) m)) (apply_op (entry_op fv it) db) key"
      using True it by simp
    also have "\<dots> = (case find (\<lambda>(t, e). is_dirty e \<and> key = coins_key t) m of
         None \<Rightarrow> apply_op (entry_op fv it) db key
       | Some (t, e) \<Rightarrow> if IsPruned (ce_coins e) then None else Some (the (write_CCoins fv (ce_coins e))))"
      by (rule Cons.IH [OF d(1)])
    finally have eq: "fold apply_op (map (entry_op fv) (filter (\<lambda>(t, e). is_dirty e) (it # m))) db key = \<dots>" .
    show ?thesis
    proof (cases "key = coins_key t")
      case key: True
      show ?thesis unfolding eq using True it n [OF refl] key by (simp add: entry_op_def)
    next
      case False
      then have "apply_op (entry_op fv it) db key = db key" using it by (simp add: entry_op_def)
      then show ?thesis unfolding eq using it False by (simp split: option.split)
    qed
  qed
qed simp

lemma find_key:
  assumes "distinct (map fst m)"
  shows "find (\<lambda>(u, e). is_dirty e \<and> coins_key t = coins_key u) m =
    (case map_of m t of None \<Rightarrow> None | Some e \<Rightarrow> if is_dirty e then Some (t, e) else None)"
  using assms
proof (induction m)
  case (Cons it m)
  obtain u e where it: "it = (u, e)" by fastforce
  have "map_of m u = None" using Cons.prems it by (simp add: map_of_eq_None_iff)
  then show ?case using Cons it by auto
qed simp

lemma fold_last_best:
  "WriteBatch (BatchWriteHashBestChain h batch) db = (fold apply_op batch db)(best_key \<mapsto> write_limbs h)"
  by (simp add: WriteBatch_def BatchWriteHashBestChain_def)

lemma DbBatchWrite_view:
  assumes dc: "decompresses fv kd" and ok: "db_ok fv db" and fits: "map_fits (db_live kd db) has m"
    and h: "h \<noteq> uint256_0" "length h = 8"
  shows "\<exists>db'. DbBatchWrite fv m h db = Inr (True, db') \<and> db_ok fv db' \<and> db_tip db' = h \<and> db_live kd db' = overlay m (db_live kd db)"
proof -
  have d: "distinct (map fst m)" using fits by (simp add: map_fits_def)
  have c: "coins_ok (ce_coins e)" if "(t, e) \<in> set m" for t e
    using fits that by (simp add: map_fits_def coins_entry_fits_def)
  let ?ops = "map (entry_op fv) (filter (\<lambda>(t, e). is_dirty e) m)"
  let ?db = "(fold apply_op ?ops db)(best_key \<mapsto> write_limbs h)"
  have b: "batch_coins fv m [] = Inr ([] @ ?ops)" using batch_coins_eq [OF dc c] by simp
  have run: "DbBatchWrite fv m h db = Inr (True, ?db)"
    unfolding DbBatchWrite_def b using h(1) fold_last_best [of h "?ops"] by (simp add: Let_def)
  have at: "?db (coins_key t) = (case map_of m t of None \<Rightarrow> db (coins_key t)
      | Some e \<Rightarrow> if is_dirty e then (if IsPruned (ce_coins e) then None else Some (the (write_CCoins fv (ce_coins e))))
                  else db (coins_key t))" for t
    using apply_entries [OF d, of fv db "coins_key t"] find_key [OF d, of t] by (auto split: option.splits)
  have rec: "coins_record fv (the (write_CCoins fv (ce_coins e)))" if "map_of m t = Some e" "\<not> IsPruned (ce_coins e)" for t e
  proof -
    have "coins_ok (ce_coins e)" using c that(1) by (metis map_of_SomeD)
    then show ?thesis using write_CCoins_some [OF dc _ that(2)] that(2) by (auto simp: coins_record_def)
  qed
  have ok': "db_ok fv ?db"
    unfolding db_ok_def
  proof (intro conjI allI impI)
    fix t bs assume a: "?db (coins_key t) = Some bs"
    show "coins_record fv bs"
    proof (cases "\<exists>e. map_of m t = Some e \<and> is_dirty e")
      case True
      then obtain e where e: "map_of m t = Some e" "is_dirty e" by blast
      then have "\<not> IsPruned (ce_coins e) \<and> bs = the (write_CCoins fv (ce_coins e))"
        using a at [of t] by (simp split: if_splits)
      then show ?thesis using rec e(1) by blast
    next
      case False
      then have "db (coins_key t) = Some bs" using a at [of t] by (auto split: option.splits if_splits)
      then show ?thesis using ok by (simp add: db_ok_def)
    qed
  next
    fix bs assume "?db best_key = Some bs"
    then show "\<exists>h. length h = 8 \<and> bs = write_limbs h" using h(2) by auto
  qed
  have "db_live kd ?db t = overlay m (db_live kd db) t" for t
  proof (cases "\<exists>e. map_of m t = Some e \<and> is_dirty e")
    case True
    then obtain e where e: "map_of m t = Some e" "is_dirty e" by blast
    have ce: "coins_ok (ce_coins e)" using c e(1) by (metis map_of_SomeD)
    show ?thesis
    proof (cases "IsPruned (ce_coins e)")
      case True
      then show ?thesis using e at [of t] by (simp add: db_live_def DbRead_def overlay_def kept_def)
    next
      case False
      then show ?thesis
        using e at [of t] write_CCoins_some [OF dc ce False] read_record [OF dc ce False] db_live_record [OF dc ok', of t]
        by (auto simp: overlay_def kept_def)
    qed
  next
    case False
    then have "?db (coins_key t) = db (coins_key t)" using at [of t] by (auto split: option.splits)
    then have "db_live kd ?db t = db_live kd db t" by (simp only: db_live_def DbRead_def)
    then show ?thesis using False by (auto simp: overlay_def split: option.split)
  qed
  then have "db_live kd ?db = overlay m (db_live kd db)" by (rule ext)
  moreover have "db_tip ?db = h"
    using read_limbs_write [OF h(2), of "[]"] by (simp add: db_tip_def DbGetBestBlock_def DbRead_def)
  ultimately show ?thesis using run ok' by blast
qed

lemma coins_db_view:
  assumes dc: "decompresses fv kd"
  shows "coins_view (DbGetCoins kd) DbGetBestBlock (DbBatchWrite fv) (db_ok fv) (db_live kd) db_tip (\<lambda>db txid. True)"
proof
  show "db_ok fv b \<Longrightarrow> DbGetCoins kd t b = (r, b') \<Longrightarrow> db_ok fv b' \<and> db_live kd b' = db_live kd b \<and> db_tip b' = db_tip b \<and> (True \<longrightarrow> True)"
    for b t r b' by (simp add: DbGetCoins_def)
  show "db_ok fv b \<Longrightarrow> DbGetCoins kd t b = (None, b') \<Longrightarrow> db_live kd b t = None" for b t b'
    by (auto simp: DbGetCoins_def db_live_def)
  show "db_live kd b t = kept c \<and> coins_ok c \<and> True" if "db_ok fv b" "DbGetCoins kd t b = (Some c, b')" for b t c b'
  proof -
    have r: "DbRead (read_CCoins kd) (coins_key t) b = Some c" using that(2) by (auto simp: DbGetCoins_def)
    then obtain bs where bs: "b (coins_key t) = Some bs" "map_option fst (read_CCoins kd bs) = Some c"
      by (auto simp: DbRead_def split: option.splits)
    then have "coins_record fv bs" using that(1) by (simp add: db_ok_def)
    then obtain d where d: "\<not> IsPruned d" "coins_ok d" "write_CCoins fv d = Some bs" unfolding coins_record_def by blast
    then have "c = stored_coins d" using bs(2) read_record [OF dc d(2,1,3)] by simp
    then show ?thesis using r stored_coins_ok [OF d(2)] by (simp add: db_live_def)
  qed
  show "db_ok fv b \<Longrightarrow> DbGetBestBlock b = (h, b')
      \<Longrightarrow> db_ok fv b' \<and> db_live kd b' = db_live kd b \<and> db_tip b' = h \<and> db_tip b = h \<and> (True \<longrightarrow> True)" for b h b'
    by (auto simp: db_tip_def DbGetBestBlock_def)
  show "db_ok fv b \<Longrightarrow> map_fits (db_live kd b) (\<lambda>txid. True) m \<Longrightarrow> h \<noteq> uint256_0 \<Longrightarrow> length h = 8
      \<Longrightarrow> \<exists>b'. DbBatchWrite fv m h b = Inr (True, b') \<and> db_ok fv b' \<and> db_tip b' = h \<and> db_live kd b' = overlay m (db_live kd b)" for b m h
    by (rule DbBatchWrite_view [OF dc])
qed

text \<open>
  The views of a node: the database, the cache of the tip over it, and the cache a block is connected in over that. Of the curve
  library this instance assumes no more than the one key of the example.
\<close>

interpretation db: coins_view
  "DbGetCoins (\<lambda>pk. if pk = 3 # replicate 32 1 then Some (4 # replicate 64 1) else None)" DbGetBestBlock
  "DbBatchWrite (\<lambda>pk. pk = 4 # replicate 64 1)" "db_ok (\<lambda>pk. pk = 4 # replicate 64 1)"
  "db_live (\<lambda>pk. if pk = 3 # replicate 32 1 then Some (4 # replicate 64 1) else None)" db_tip "\<lambda>db txid. True"
  by (rule coins_db_view [OF decompresses_example])

text \<open>A node looks at the database through the cache of the tip, and connects a block in a second cache.\<close>

definition tip_ok :: "(CPubKey \<Rightarrow> bool) \<Rightarrow> (CPubKey \<Rightarrow> CPubKey option) \<Rightarrow> leveldb CCoinsViewCache \<Rightarrow> bool" where
  "tip_ok fv kd = cache_ok (db_ok fv) (db_live kd) (\<lambda>db txid. True)"

definition tip_live :: "(CPubKey \<Rightarrow> CPubKey option) \<Rightarrow> leveldb CCoinsViewCache \<Rightarrow> uint256 \<Rightarrow> CCoins option" where
  "tip_live kd = cache_live (db_live kd)"

definition view_ok :: "(CPubKey \<Rightarrow> bool) \<Rightarrow> (CPubKey \<Rightarrow> CPubKey option) \<Rightarrow> leveldb CCoinsViewCache CCoinsViewCache \<Rightarrow> bool" where
  "view_ok fv kd = cache_ok (tip_ok fv kd) (tip_live kd) cache_has"

definition view_live :: "(CPubKey \<Rightarrow> CPubKey option) \<Rightarrow> leveldb CCoinsViewCache CCoinsViewCache \<Rightarrow> uint256 \<Rightarrow> CCoins option" where
  "view_live kd = cache_live (tip_live kd)"

lemma tip_view:
  assumes "decompresses fv kd"
  shows "coins_view (GetCoins (DbGetCoins kd)) (GetBestBlock DbGetBestBlock) BatchWrite (tip_ok fv kd) (tip_live kd)
    (cache_tip db_tip) cache_has"
  using coins_view.cache_view [OF coins_db_view [OF assms]] by (simp add: tip_ok_def tip_live_def)

interpretation tip: coins_view
  "GetCoins (DbGetCoins (\<lambda>pk. if pk = 3 # replicate 32 1 then Some (4 # replicate 64 1) else None))" "GetBestBlock DbGetBestBlock"
  BatchWrite "tip_ok (\<lambda>pk. pk = 4 # replicate 64 1) (\<lambda>pk. if pk = 3 # replicate 32 1 then Some (4 # replicate 64 1) else None)"
  "tip_live (\<lambda>pk. if pk = 3 # replicate 32 1 then Some (4 # replicate 64 1) else None)" "cache_tip db_tip" cache_has
  by (rule tip_view [OF decompresses_example])

lemma new_view_ok:
  "tip_ok fv kd (NewCache (\<lambda>key. None))" "view_ok fv kd (NewCache (NewCache (\<lambda>key. None)))"
  by (simp_all add: view_ok_def tip_ok_def cache_ok_def NewCache_def db_ok_def)

text \<open>
  C7: flushing never fails and loses nothing: after a cache over the tip is flushed into the tip, and the tip into the database, the tip and
  the database stand for the same unspent outputs as the cache did before, and for its best block; and no assertion fails.
\<close>

theorem flush_correct:
  assumes "decompresses fv kd" "view_ok fv kd view" "cv_hashBlock view \<noteq> uint256_0" "length (cv_hashBlock view) = 8"
  shows "case Flush BatchWrite view of
      Inl err \<Rightarrow> False
    | Inr (fOk, view') \<Rightarrow> fOk \<and> view_live kd view' = view_live kd view \<and> tip_live kd (cv_base view') = view_live kd view
        \<and> cache_tip db_tip (cv_base view') = cv_hashBlock view
        \<and> (case Flush (DbBatchWrite fv) (cv_base view') of
             Inl err \<Rightarrow> False
           | Inr (fOk, tip') \<Rightarrow> fOk \<and> cv_cacheCoins tip' = [] \<and> db_live kd (cv_base tip') = view_live kd view
               \<and> db_tip (cv_base tip') = cv_hashBlock view)"
proof -
  obtain view' where v: "Flush BatchWrite view = Inr (True, view')" "tip_ok fv kd (cv_base view')"
      "tip_live kd (cv_base view') = view_live kd view" "cache_tip db_tip (cv_base view') = cv_hashBlock view"
      "view_live kd view' = view_live kd view"
    using coins_view.Flush_view [OF tip_view [OF assms(1)], of view] assms(2-4) unfolding view_ok_def view_live_def cache_tip_def
    by auto
  have base: "cv_hashBlock (cv_base view') = cv_hashBlock view"
  proof -
    obtain b' where b: "BatchWrite (cv_cacheCoins view) (cv_hashBlock view) (cv_base view) = Inr (True, b')"
        and view': "view' = view\<lparr>cv_base := b', cv_cacheCoins := []\<rparr>"
      using v(1) by (simp add: Flush_def split: sum.splits prod.splits)
    have "cv_hashBlock b' = cv_hashBlock view" using b by (auto simp: BatchWrite_def split: if_splits sum.splits)
    then show ?thesis by (cases view) (simp add: view')
  qed
  obtain tip' where "Flush (DbBatchWrite fv) (cv_base view') = Inr (True, tip')" "cv_cacheCoins tip' = []"
      "db_live kd (cv_base tip') = tip_live kd (cv_base view')" "db_tip (cv_base tip') = cv_hashBlock view"
    using coins_view.Flush_view [OF coins_db_view [OF assms(1)], of "cv_base view'"] v(2) assms(3,4) base
    unfolding tip_ok_def tip_live_def cache_tip_def by auto
  then show ?thesis using v by simp
qed

theorem flush_correct_witness:
  "case Flush BatchWrite ((NewCache (NewCache (\<lambda>key. None)))\<lparr>cv_hashBlock := 7 # replicate 7 0,
      cv_cacheCoins := [(replicate 8 5, \<lparr>ce_coins = NullCoins\<lparr>cn_vout := [NewTxOut 9 []]\<rparr>, ce_flags = 3\<rparr>)]\<rparr>) of
      Inl err \<Rightarrow> False
    | Inr (fOk, view') \<Rightarrow> fOk \<and> view_live (\<lambda>pk. if pk = 3 # replicate 32 1 then Some (4 # replicate 64 1) else None) view' (replicate 8 5)
        = Some (NullCoins\<lparr>cn_vout := [NewTxOut 9 []]\<rparr>)"
proof -
  let ?fv = "\<lambda>pk. pk = 4 # replicate 64 1" and ?kd = "\<lambda>pk. if pk = 3 # replicate 32 1 then Some (4 # replicate 64 1) else None"
  let ?c = "NullCoins\<lparr>cn_vout := [NewTxOut 9 []]\<rparr>"
  let ?view = "(NewCache (NewCache (\<lambda>key. None)))\<lparr>cv_hashBlock := 7 # replicate 7 0,
      cv_cacheCoins := [(replicate 8 5, \<lparr>ce_coins = ?c, ce_flags = 3\<rparr>)]\<rparr>"
  have c: "coins_ok ?c" "stored_coins ?c = ?c" "\<not> IsPruned ?c"
    by (simp_all add: coins_ok_def coins_fit_def storable_coins_def NullCoins_def storable_def NewTxOut_def tidy_out_def
        TxOutIsNull_def Cleanup_def drop_null_tail.simps MAX_SIZE_def IsPruned_def stored_coins_def stored_out_def stored_txout_def)
  have "view_ok ?fv ?kd ?view"
    using new_view_ok c(1)
    by (simp add: view_ok_def cache_ok_def NewCache_def coins_entry_fits_def cache_entry_ok_def is_fresh_def is_dirty_def tip_live_def
        cache_live_def db_live_def DbRead_def)
  moreover have "cv_hashBlock ?view \<noteq> uint256_0" 
  proof -
    have "(7 # replicate 7 0 :: uint256) \<noteq> uint256_0" by code_simp
    then show ?thesis by simp
  qed
  moreover have "view_live ?kd ?view (replicate 8 5) = Some ?c"
    using c by (simp add: view_live_def cache_live_def kept_def)
  moreover have "case Flush BatchWrite view of Inl err \<Rightarrow> False | Inr (fOk, view') \<Rightarrow> fOk \<and> view_live kd view' t = Some c"
    if "decompresses fv kd" "view_ok fv kd view" "cv_hashBlock view \<noteq> uint256_0" "length (cv_hashBlock view) = 8"
      "view_live kd view t = Some c" for fv kd view t c
    using flush_correct [OF that(1-4)] that(5) by (cases "Flush BatchWrite view") auto
  ultimately show ?thesis using decompresses_example by simp
qed

end
