(* ===== verification/Coins_Update.thy ===== *)
theory Coins_Update
  imports Coins_DB Block
begin

text \<open>
  What connecting and disconnecting a block does to the unspent outputs: \<open>UpdateCoins\<close> and \<open>DisconnectBlock\<close> of
  \<open>main.cpp\<close>. The view is a cache over any view; the hash of transactions is an argument. Where the code would write past the
  end of a vector, the model stops with \<open>OutOfRange\<close>.
\<close>

datatype coins_error = ViewError view_error | OutOfRange

definition lift_view :: "view_error + 'a \<Rightarrow> coins_error + 'a" where
  "lift_view r = map_sum ViewError id r"

section \<open>Connecting\<close>

text \<open>Spending one input through the modifier: the undo record stays new when the output is not there.\<close>

definition spend_coin :: "COutPoint \<Rightarrow> CCoins \<Rightarrow> CTxInUndo \<times> CCoins" where
  "spend_coin p c = (case Spend p c of None \<Rightarrow> (UndoOf NullTxOut, c) | Some r \<Rightarrow> r)"

fun spend_inputs :: "'b get_coins \<Rightarrow> CTxIn list \<Rightarrow> CTxUndo \<Rightarrow> 'b CCoinsViewCache \<Rightarrow> coins_error + CTxUndo \<times> 'b CCoinsViewCache" where
  "spend_inputs g [] txundo s = Inr (txundo, s)"
| "spend_inputs g (txin # ins) txundo s =
     (case lift_view (modify g (op_txid (prevout txin)) (spend_coin (prevout txin)) s) of
        Inl err \<Rightarrow> Inl err
      | Inr (undo, s) \<Rightarrow> spend_inputs g ins (txundo @ [undo]) s)"

definition UpdateCoins :: "'b get_coins \<Rightarrow> (bytes \<Rightarrow> uint256) \<Rightarrow> CTransaction \<Rightarrow> CTxUndo \<Rightarrow> int
    \<Rightarrow> 'b CCoinsViewCache \<Rightarrow> coins_error + CTxUndo \<times> 'b CCoinsViewCache" where
  "UpdateCoins g Hash tx txundo nHeight s =
     (case (if \<not> IsCoinAudit tx \<and> \<not> IsCoinBase tx \<and> IsCoinStake tx then spend_inputs g (vin tx) txundo s
            else Inr (txundo, s)) of
        Inl err \<Rightarrow> Inl err
      | Inr (txundo, s) \<Rightarrow>
          map_sum id (\<lambda>(_, s). (txundo, s)) (lift_view (modify g (GetHash Hash tx) (\<lambda>c. ((), FromTx tx nHeight c)) s)))"

text \<open>The transactions of a block in order, as \<open>ConnectBlock\<close> does; the undo records of the first one are dropped.\<close>

fun connect_txs :: "'b get_coins \<Rightarrow> (bytes \<Rightarrow> uint256) \<Rightarrow> int \<Rightarrow> bool \<Rightarrow> CTransaction list \<Rightarrow> CTxUndo list
    \<Rightarrow> 'b CCoinsViewCache \<Rightarrow> coins_error + CTxUndo list \<times> 'b CCoinsViewCache" where
  "connect_txs g Hash nHeight first [] vtxundo s = Inr (vtxundo, s)"
| "connect_txs g Hash nHeight first (tx # txs) vtxundo s =
     (case UpdateCoins g Hash tx [] nHeight s of
        Inl err \<Rightarrow> Inl err
      | Inr (txundo, s) \<Rightarrow> connect_txs g Hash nHeight False txs (if first then vtxundo else vtxundo @ [txundo]) s)"

section \<open>Disconnecting\<close>

text \<open>The first block of the loop body: comparing and removing the outputs of a transaction.\<close>

definition remove_outputs :: "CTransaction \<Rightarrow> int \<Rightarrow> CCoins \<Rightarrow> bool \<times> CCoins" where
  "remove_outputs tx nHeight outs =
     (let outs = ClearUnspendable outs;
          outsBlock = FromTx tx nHeight NullCoins;
          outs = (if cn_Version outsBlock < 0 then outs\<lparr>cn_Version := cn_Version outsBlock\<rparr> else outs)
      in (CoinsEq outs outsBlock, CoinsClear outs))"

text \<open>Giving one spent output back: whether nothing was unexpected, \<open>None\<close> where the index is past the end.\<close>

definition resize_outs :: "nat \<Rightarrow> CTxOut list \<Rightarrow> CTxOut list" where
  "resize_outs n outs = (if length outs < n then outs @ replicate (n - length outs) NullTxOut else outs)"

definition restore_coin :: "COutPoint \<Rightarrow> CTxInUndo \<Rightarrow> CCoins \<Rightarrow> bool option \<times> CCoins" where
  "restore_coin out undo coins =
     (let (fClean, coins) =
            (if un_Height undo \<noteq> 0
             then (IsPruned coins,
                   (CoinsClear coins)\<lparr>cn_CoinBase := un_CoinBase undo, cn_Height := sint (un_Height undo),
                     cn_Version := un_Version undo\<rparr>)
             else (\<not> IsPruned coins, coins));
          fClean = (fClean \<and> \<not> IsAvailable coins (unat (op_n out)));
          coins = coins\<lparr>cn_vout := resize_outs (unat (op_n out + 1)) (cn_vout coins)\<rparr>
      in if unat (op_n out) < length (cn_vout coins)
         then (Some fClean, coins\<lparr>cn_vout := (cn_vout coins)[unat (op_n out) := un_txout undo]\<rparr>)
         else (None, coins))"

fun restore_inputs :: "'b get_coins \<Rightarrow> (CTxIn \<times> CTxInUndo) list \<Rightarrow> bool \<Rightarrow> 'b CCoinsViewCache
    \<Rightarrow> coins_error + bool \<times> 'b CCoinsViewCache" where
  "restore_inputs g [] fClean s = Inr (fClean, s)"
| "restore_inputs g ((txin, undo) # rest) fClean s =
     (case lift_view (modify g (op_txid (prevout txin)) (restore_coin (prevout txin) undo) s) of
        Inl err \<Rightarrow> Inl err
      | Inr (None, s) \<Rightarrow> Inl OutOfRange
      | Inr (Some clean, s) \<Rightarrow> restore_inputs g rest (fClean \<and> clean) s)"

text \<open>
  One transaction; \<open>txundo\<close> is what the block has for it, \<open>None\<close> where it has none. The inner \<open>None\<close> of the result is the
  error return for inconsistent data.
\<close>

definition disconnect_tx :: "'b get_coins \<Rightarrow> (bytes \<Rightarrow> uint256) \<Rightarrow> int \<Rightarrow> CTransaction \<Rightarrow> CTxUndo option \<Rightarrow> bool
    \<Rightarrow> 'b CCoinsViewCache \<Rightarrow> coins_error + bool option \<times> 'b CCoinsViewCache" where
  "disconnect_tx g Hash nHeight tx txundo fClean s =
     (case lift_view (modify g (GetHash Hash tx) (remove_outputs tx nHeight) s) of
        Inl err \<Rightarrow> Inl err
      | Inr (clean, s) \<Rightarrow>
          if \<not> IsCoinBase tx \<and> IsCoinStake tx
          then (case txundo of
              None \<Rightarrow> Inl OutOfRange
            | Some vprevout \<Rightarrow>
                if length vprevout \<noteq> length (vin tx) then Inr (None, s)
                else map_sum id (\<lambda>(c, s). (Some c, s)) (restore_inputs g (rev (zip (vin tx) vprevout)) (fClean \<and> clean) s))
          else Inr (Some (fClean \<and> clean), s))"

text \<open>The transactions with their undo records, the last transaction of the block first.\<close>

fun disconnect_txs :: "'b get_coins \<Rightarrow> (bytes \<Rightarrow> uint256) \<Rightarrow> int \<Rightarrow> (CTransaction \<times> CTxUndo option) list \<Rightarrow> bool
    \<Rightarrow> 'b CCoinsViewCache \<Rightarrow> coins_error + bool option \<times> 'b CCoinsViewCache" where
  "disconnect_txs g Hash nHeight [] fClean s = Inr (Some fClean, s)"
| "disconnect_txs g Hash nHeight ((tx, txundo) # txs) fClean s =
     (case disconnect_tx g Hash nHeight tx txundo fClean s of
        Inl err \<Rightarrow> Inl err
      | Inr (None, s) \<Rightarrow> Inr (None, s)
      | Inr (Some fClean, s) \<Rightarrow> disconnect_txs g Hash nHeight txs fClean s)"

text \<open>
  \<open>DisconnectBlock\<close>: the hash, height and predecessor's hash of the index entry and the undo data read from disk (\<open>None\<close> when there
  is none or reading fails) are arguments, as is whether the caller asks for \<open>pfClean\<close>. The result is the
  returned value and \<open>*pfClean\<close>.
\<close>

definition DisconnectBlock :: "'b get_coins \<Rightarrow> 'b get_best \<Rightarrow> (bytes \<Rightarrow> uint256) \<Rightarrow> CBlock \<Rightarrow> uint256 \<Rightarrow> uint256 \<Rightarrow> int
    \<Rightarrow> CTxUndo list option \<Rightarrow> bool \<Rightarrow> 'b CCoinsViewCache \<Rightarrow> coins_error + (bool \<times> bool) \<times> 'b CCoinsViewCache" where
  "DisconnectBlock g best Hash block blockHash prevHash nHeight blockUndo pfClean s =
     (case GetBestBlock best s of (h, s) \<Rightarrow>
        if blockHash \<noteq> h then Inl (ViewError AssertionFailed)
        else case blockUndo of
          None \<Rightarrow> Inr ((False, False), s)
        | Some vtxundo \<Rightarrow>
            if length vtxundo + 1 \<noteq> length (vtx block) then Inr ((False, False), s)
            else case disconnect_txs g Hash nHeight (rev (zip (vtx block) (None # map Some vtxundo))) True s of
              Inl err \<Rightarrow> Inl err
            | Inr (None, s) \<Rightarrow> Inr ((False, False), s)
            | Inr (Some fClean, s) \<Rightarrow> Inr ((if pfClean then True else fClean, fClean), SetBestBlock prevHash s))"

section \<open>Coins up to what is stored\<close>

text \<open>Coins with the same data and the same stored outputs are kept as the same.\<close>

definition same_coins :: "CCoins \<Rightarrow> CCoins \<Rightarrow> bool" where
  "same_coins c d \<longleftrightarrow> cn_CoinBase c = cn_CoinBase d \<and> cn_CoinStake c = cn_CoinStake d \<and> cn_Height c = cn_Height d
     \<and> cn_Version c = cn_Version d \<and> read_out_at (cn_vout c) = read_out_at (cn_vout d)"

lemma read_out_at_avail: "avail outs j \<longleftrightarrow> \<not> TxOutIsNull (read_out_at outs j)"
  by (auto simp: read_out_at_def avail_def)

lemma read_out_at_tail_eq [simp]: "read_out_at (drop_null_tail outs) = read_out_at outs"
  by (rule ext) (simp add: read_out_at_def nth_drop_null_tail)

lemma same_coins_stored: "same_coins c d \<Longrightarrow> stored_coins c = stored_coins d"
proof -
  assume s: "same_coins c d"
  let ?m = "max (length (cn_vout c)) (length (cn_vout d))"
  have "drop_null_tail (map (read_out_at (cn_vout c)) [0..<?m]) = drop_null_tail (map stored_out (cn_vout c))"
    by (rule read_out_at_tail) (auto simp: avail_def)
  moreover have "drop_null_tail (map (read_out_at (cn_vout d)) [0..<?m]) = drop_null_tail (map stored_out (cn_vout d))"
    by (rule read_out_at_tail) (auto simp: avail_def)
  ultimately show ?thesis using s by (simp add: same_coins_def stored_coins_def Cleanup_def)
qed

lemma same_coins_available: "same_coins c d \<Longrightarrow> IsAvailable c j = IsAvailable d j"
  by (simp add: IsAvailable_avail read_out_at_avail same_coins_def)

lemma same_coins_kept: "same_coins c d \<Longrightarrow> kept c = kept d"
  using same_coins_stored [of c d] same_coins_available [of c d] by (simp add: kept_def IsPruned_not_available)

lemma stored_txout_idem [simp]: "stored_txout (stored_txout out) = stored_txout out"
  by (simp add: stored_txout_def NewTxOut_def)

lemma read_out_at_stored: "read_out_at (cn_vout (stored_coins c)) = read_out_at (cn_vout c)"
proof
  fix j
  show "read_out_at (cn_vout (stored_coins c)) j = read_out_at (cn_vout c) j"
  proof (cases "IsAvailable c j")
    case True
    then have "cn_vout (stored_coins c) ! j = stored_txout (cn_vout c ! j)"
      using nth_stored_coins [OF True] by (simp add: stored_out_def IsAvailable_def)
    moreover have "avail (cn_vout (stored_coins c)) j" using True by (simp flip: IsAvailable_avail)
    ultimately have "cn_vout (stored_coins c) ! j = stored_txout (cn_vout c ! j)" "avail (cn_vout (stored_coins c)) j" by simp_all
    then show ?thesis using True by (simp add: read_out_at_def IsAvailable_avail)
  next
    case False
    then show ?thesis using stored_coins_available [of c j] by (simp add: read_out_at_def IsAvailable_avail del: stored_coins_available)
  qed
qed

lemma same_coins_of_stored: "same_coins (stored_coins c) c"
  by (simp add: same_coins_def read_out_at_stored) (simp add: stored_coins_def Cleanup_def)

lemma kept_same:
  assumes "kept c = kept d" "\<not> IsPruned c"
  shows "same_coins c d"
proof -
  have "stored_coins c = stored_coins d" using assms by (auto simp: kept_def split: if_splits)
  then show ?thesis
    using same_coins_of_stored [of c] same_coins_of_stored [of d] by (simp add: same_coins_def)
qed

lemma same_coins_Cleanup: "same_coins (Cleanup c) c"
  by (simp add: same_coins_def Cleanup_def)

lemma kept_Cleanup [simp]: "kept (Cleanup c) = kept c"
  by (rule same_coins_kept [OF same_coins_Cleanup])

section \<open>Spending and giving back\<close>

lemma read_out_at_update:
  assumes "i < length outs"
  shows "read_out_at (outs[i := out]) = (read_out_at outs)(i := if TxOutIsNull out then NullTxOut else stored_txout out)"
  using assms by (auto simp: fun_eq_iff read_out_at_def avail_def)

lemma spend_coin_cases:
  assumes "coins_ok c"
  shows "coins_fit (snd (spend_coin p c))"
    and "\<not> IsAvailable c (unat (op_n p)) \<Longrightarrow> snd (spend_coin p c) = c"
    and "IsAvailable c (unat (op_n p)) \<Longrightarrow>
      read_out_at (cn_vout (snd (spend_coin p c))) = (read_out_at (cn_vout c))(unat (op_n p) := NullTxOut)
      \<and> cn_CoinBase (snd (spend_coin p c)) = cn_CoinBase c \<and> cn_CoinStake (snd (spend_coin p c)) = cn_CoinStake c
      \<and> cn_Height (snd (spend_coin p c)) = cn_Height c \<and> cn_Version (snd (spend_coin p c)) = cn_Version c"
proof -
  let ?i = "unat (op_n p)"
  have fit: "coins_fit c" using assms by (simp add: coins_ok_def)
  show "\<not> IsAvailable c ?i \<Longrightarrow> snd (spend_coin p c) = c"
    using Spend_iff [of p c] by (simp add: spend_coin_def)
  show sp: "IsAvailable c ?i \<Longrightarrow>
      read_out_at (cn_vout (snd (spend_coin p c))) = (read_out_at (cn_vout c))(?i := NullTxOut)
      \<and> cn_CoinBase (snd (spend_coin p c)) = cn_CoinBase c \<and> cn_CoinStake (snd (spend_coin p c)) = cn_CoinStake c
      \<and> cn_Height (snd (spend_coin p c)) = cn_Height c \<and> cn_Version (snd (spend_coin p c)) = cn_Version c"
  proof -
    assume a: "IsAvailable c ?i"
    then obtain u d where s: "Spend p c = Some (u, d)" using Spend_iff [of p c] by (cases "Spend p c") auto
    note d = Spend_SomeD(3) [OF s]
    have "?i < length (cn_vout c)" using a by (simp add: IsAvailable_def)
    then show ?thesis unfolding spend_coin_def s d by (simp add: Cleanup_def read_out_at_update)
  qed
  show "coins_fit (snd (spend_coin p c))"
  proof (cases "Spend p c")
    case None
    then show ?thesis using fit by (simp add: spend_coin_def)
  next
    case (Some r)
    obtain u d where r: "r = (u, d)" by fastforce
    note d = Spend_SomeD(3) [OF Some [unfolded r]]
    let ?outs = "(cn_vout c)[?i := TxOutSetNull (cn_vout c ! ?i)]"
    have "set ?outs \<subseteq> insert (TxOutSetNull (cn_vout c ! ?i)) (set (cn_vout c))" by (rule set_update_subset_insert)
    moreover have "tidy_out (TxOutSetNull out)" for out by (simp add: tidy_out_def TxOutSetNull_def)
    ultimately have "coins_fit (c\<lparr>cn_vout := ?outs\<rparr>)"
      using fit by (auto simp: coins_fit_def storable_coins_def list_all_iff)
    then have "coins_ok d" unfolding d by (rule coins_ok_Cleanup)
    then show ?thesis unfolding spend_coin_def Some r by (simp add: coins_ok_def)
  qed
qed

text \<open>Spending in the set of unspent outputs.\<close>

definition live_spend :: "COutPoint \<Rightarrow> (uint256 \<Rightarrow> CCoins option) \<Rightarrow> uint256 \<Rightarrow> CCoins option" where
  "live_spend p live = live(op_txid p := (case live (op_txid p) of None \<Rightarrow> None | Some c \<Rightarrow> kept (snd (spend_coin p c))))"

lemma kept_spend:
  assumes "coins_ok c" "kept c = k"
  shows "kept (snd (spend_coin p c)) = (case k of None \<Rightarrow> None | Some d \<Rightarrow> kept (snd (spend_coin p d)))"
proof (cases "IsPruned c")
  case True
  then have "\<not> IsAvailable c (unat (op_n p))" by (simp add: IsPruned_not_available)
  then show ?thesis using spend_coin_cases(2) [OF assms(1)] assms(2) True by (auto simp: kept_def)
next
  case False
  then have k: "k = Some (stored_coins c)" using assms(2) by (simp add: kept_def)
  have so: "coins_ok (stored_coins c)" by (rule stored_coins_ok [OF assms(1)])
  show ?thesis
  proof (cases "IsAvailable c (unat (op_n p))")
    case True
    then have "same_coins (snd (spend_coin p c)) (snd (spend_coin p (stored_coins c)))"
      using spend_coin_cases(3) [OF assms(1) True] spend_coin_cases(3) [OF so, of p] same_coins_of_stored [of c]
      by (simp add: same_coins_def)
    then show ?thesis using k same_coins_kept by simp
  next
    case False
    then show ?thesis using k spend_coin_cases(2) [OF assms(1) False] spend_coin_cases(2) [OF so, of p] kept_stored by simp
  qed
qed

text \<open>
  The inputs whose spending can be taken back: each is there when it is spent, and when it was the last unspent output of its transaction,
  that transaction is not the one of height zero.
\<close>

fun spendable :: "(uint256 \<Rightarrow> CCoins option) \<Rightarrow> COutPoint list \<Rightarrow> bool" where
  "spendable live [] \<longleftrightarrow> True"
| "spendable live (p # ps) \<longleftrightarrow>
     (case live (op_txid p) of
        None \<Rightarrow> False
      | Some c \<Rightarrow> IsAvailable c (unat (op_n p))
          \<and> (live_spend p live (op_txid p) = None \<longrightarrow> 0 < cn_Height c))
     \<and> spendable (live_spend p live) ps"

text \<open>
  What is not taken back: coins of a coinstake that are spent entirely lose their mark. The set of the transactions that lose it, and the
  unspent outputs without the marks of a set of transactions.
\<close>

definition unmark :: "CCoins \<Rightarrow> CCoins" where
  "unmark c = c\<lparr>cn_CoinStake := False\<rparr>"

definition faded :: "uint256 set \<Rightarrow> (uint256 \<Rightarrow> CCoins option) \<Rightarrow> uint256 \<Rightarrow> CCoins option" where
  "faded lost live txid = (if txid \<in> lost then map_option unmark (live txid) else live txid)"

fun lost_inputs :: "(uint256 \<Rightarrow> CCoins option) \<Rightarrow> COutPoint list \<Rightarrow> uint256 set" where
  "lost_inputs live [] = {}"
| "lost_inputs live (p # ps) =
     (case live (op_txid p) of
        None \<Rightarrow> {}
      | Some c \<Rightarrow> if cn_CoinStake c \<and> live_spend p live (op_txid p) = None then {op_txid p} else {})
     \<union> lost_inputs (live_spend p live) ps"

lemma faded_none [simp]: "faded {} live = live" "live txid = None \<Longrightarrow> faded lost live txid = None"
  by (simp_all add: faded_def fun_eq_iff)

lemma kept_unmark: "kept (unmark c) = map_option unmark (kept c)"
  by (simp add: kept_def IsPruned_def stored_coins_def Cleanup_def unmark_def)

lemma coins_ok_unmark: "coins_ok c \<Longrightarrow> coins_ok (unmark c)"
  by (cases c) (simp add: coins_ok_def coins_fit_def storable_coins_def Cleanup_def unmark_def)

lemma spend_coin_unmark:
  "snd (spend_coin p (unmark c)) = unmark (snd (spend_coin p c))"
  "restore_coin p (stored_undo (fst (spend_coin p (unmark c)))) = restore_coin p (stored_undo (fst (spend_coin p c)))"
  by (auto simp: spend_coin_def Spend_def unmark_def Cleanup_def IsPruned_def Let_def restore_coin_def stored_undo_def fun_eq_iff UndoOf_def
      IsAvailable_def split: option.splits if_splits)

lemma restore_coin_undoes:
  assumes c: "coins_ok c" and a: "IsAvailable c (unat (op_n p))"
    and last: "IsPruned (snd (spend_coin p c)) \<Longrightarrow> 0 < cn_Height c \<and> \<not> cn_CoinStake c"
    and d: "coins_ok d" "kept d = kept (snd (spend_coin p c))"
  shows "fst (restore_coin p (stored_undo (fst (spend_coin p c))) d) = Some True
    \<and> coins_fit (snd (restore_coin p (stored_undo (fst (spend_coin p c))) d))
    \<and> kept (snd (restore_coin p (stored_undo (fst (spend_coin p c))) d)) = kept c"
proof -
  let ?i = "unat (op_n p)"
  obtain u c' where s: "Spend p c = Some (u, c')" using a Spend_iff [of p c] by (cases "Spend p c") auto
  have sp: "spend_coin p c = (u, c')" by (simp add: spend_coin_def s)
  note S = Spend_SomeD [OF s]
  note read = spend_coin_cases(3) [OF c a, unfolded sp snd_conv]
  let ?u = "stored_undo u"
  have out: "un_txout ?u = stored_txout (cn_vout c ! ?i)" "\<not> TxOutIsNull (cn_vout c ! ?i)" "storable (cn_vout c ! ?i)"
    using S(2) a c by (auto simp: stored_undo_def IsAvailable_def coins_ok_def coins_fit_def storable_coins_def list_all_length)
  have fit_out: "storable (un_txout ?u)" "tidy_out (un_txout ?u)"
    using out by (simp_all add: storable_def stored_txout_def NewTxOut_def tidy_out_def TxOutIsNull_def)
  have i: "?i < length (cn_vout c)" "length (cn_vout c) \<le> MAX_SIZE"
    using a c by (simp_all add: IsAvailable_def coins_ok_def coins_fit_def storable_coins_def)
  have n: "unat (op_n p + 1) = ?i + 1"
  proof -
    have "op_n p \<noteq> - 1"
    proof
      assume "op_n p = - 1"
      then have "?i = 2 ^ 32 - 1" by (simp add: unsigned_minus_1_eq_mask mask_eq_exp_minus_1)
      then show False using i by (simp add: MAX_SIZE_def)
    qed
    then have "1 + op_n p \<noteq> 0" by (metis add.inverse_inverse add_eq_0_iff)
    then show ?thesis using unatSuc [of "op_n p"] by (simp add: add.commute)
  qed
  have null: "storable NullTxOut \<or> TxOutIsNull NullTxOut" "tidy_out NullTxOut"
    by (simp_all add: tidy_out_def) (simp_all add: NullTxOut_def NewTxOut_def)
  let ?resize = "resize_outs (unat (op_n p + 1))"
  have fit: "coins_fit (e\<lparr>cn_vout := (?resize (cn_vout e))[?i := un_txout ?u]\<rparr>)" if e: "coins_fit e" for e
  proof -
    let ?outs = "?resize (cn_vout e)"
    have "set ?outs \<subseteq> insert NullTxOut (set (cn_vout e))" by (auto simp: resize_outs_def)
    then have "set (?outs[?i := un_txout ?u]) \<subseteq> insert (un_txout ?u) (insert NullTxOut (set (cn_vout e)))"
      using set_update_subset_insert [of ?outs ?i "un_txout ?u"] by blast
    moreover have "length (?outs[?i := un_txout ?u]) \<le> MAX_SIZE"
      using i n e by (simp add: resize_outs_def coins_fit_def storable_coins_def)
    ultimately show ?thesis
      using e fit_out null unfolding coins_fit_def storable_coins_def list_all_iff by auto
  qed
  have len: "?i < length (?resize outs)" for outs using n by (simp add: resize_outs_def)
  have read_resize: "read_out_at (?resize outs) = read_out_at outs" for outs
    by (auto simp: fun_eq_iff read_out_at_def avail_def resize_outs_def nth_append)
  have read': "read_out_at ((?resize outs)[?i := un_txout ?u]) = (read_out_at outs)(?i := stored_txout (cn_vout c ! ?i))" for outs
    using out by (simp add: read_out_at_update [OF len] read_resize)
  have at_i: "read_out_at (cn_vout c) ?i = stored_txout (cn_vout c ! ?i)"
    using a by (simp add: read_out_at_def IsAvailable_avail)
  show ?thesis
  proof (cases "IsPruned c'")
    case True
    then have h: "0 < cn_Height c" "\<not> cn_CoinStake c" using last sp by simp_all
    have hb: "cn_Height c < 2 ^ 31" using c by (simp add: coins_ok_def coins_fit_def storable_coins_def)
    have u: "un_Height u = of_int (cn_Height c)" "un_CoinBase u = cn_CoinBase c" "un_Version u = cn_Version c"
      using S(6) True by simp_all
    have "sint (of_int (cn_Height c) :: u32) = cn_Height c"
      using h(1) hb by (simp add: signed_of_int signed_take_bit_int_eq_self)
    moreover from this have "(of_int (cn_Height c) :: u32) \<noteq> 0" using h(1) by (metis less_irrefl sint_0)
    moreover have "IsPruned d" using d(2) True sp by (simp add: kept_def split: if_splits)
    moreover have "\<not> IsAvailable (e\<lparr>cn_CoinBase := x, cn_Height := y, cn_Version := z\<rparr>) j" if "cn_vout e = []" for e x y z j
      using that by (simp add: IsAvailable_def)
    ultimately obtain e where r: "restore_coin p ?u d = (Some True, e\<lparr>cn_vout := (?resize (cn_vout e))[?i := un_txout ?u]\<rparr>)"
      and e: "cn_vout e = []" "cn_CoinBase e = cn_CoinBase c" "cn_CoinStake e = cn_CoinStake c" "cn_Height e = cn_Height c"
        "cn_Version e = cn_Version c"
      using u h len [of "[]"]
      by (intro that [of "(CoinsClear d)\<lparr>cn_CoinBase := cn_CoinBase c, cn_Height := cn_Height c, cn_Version := cn_Version c\<rparr>"])
        (simp_all add: restore_coin_def stored_undo_def CoinsClear_def IsAvailable_def)
    have "coins_fit e" using c e by (simp add: coins_ok_def coins_fit_def storable_coins_def)
    moreover have "read_out_at (cn_vout c) = (read_out_at [])(?i := stored_txout (cn_vout c ! ?i))"
    proof
      fix j
      show "read_out_at (cn_vout c) j = ((read_out_at [])(?i := stored_txout (cn_vout c ! ?i))) j"
      proof (cases "j = ?i")
        case False
        have "\<not> IsAvailable c' j" using True by (simp add: IsPruned_not_available)
        then have "\<not> avail (cn_vout c) j" using S(4) [of j] False by (simp add: IsAvailable_avail)
        then show ?thesis using False by (auto simp: read_out_at_def avail_def)
      qed (simp add: at_i)
    qed
    ultimately have "same_coins (e\<lparr>cn_vout := (?resize (cn_vout e))[?i := un_txout ?u]\<rparr>) c"
      unfolding same_coins_def using e read' [of "[]"] by simp
    then show ?thesis using r fit \<open>coins_fit e\<close> sp same_coins_kept by simp
  next
    case False
    have nd: "\<not> IsPruned d" using d(2) False sp by (auto simp: kept_def split: if_splits)
    have "kept d = kept c'" using d(2) sp by simp
    then have dc: "same_coins d c'" using nd by (rule kept_same)
    have u: "un_Height u = 0" using S(6) False by simp
    have "\<not> IsAvailable d ?i" using same_coins_available [OF dc] S(4) [of ?i] by simp
    then have r: "restore_coin p ?u d = (Some True, d\<lparr>cn_vout := (?resize (cn_vout d))[?i := un_txout ?u]\<rparr>)"
      using u nd len by (simp add: restore_coin_def stored_undo_def)
    have "read_out_at (cn_vout c) = (read_out_at (cn_vout d))(?i := stored_txout (cn_vout c ! ?i))"
      using dc read at_i by (auto simp: same_coins_def fun_eq_iff)
    then have "same_coins (d\<lparr>cn_vout := (?resize (cn_vout d))[?i := un_txout ?u]\<rparr>) c"
      using dc read unfolding same_coins_def by (simp add: read')
    then show ?thesis using r fit [of d] d(1) sp same_coins_kept by (simp add: coins_ok_def)
  qed
qed

text \<open>Giving back an output of coins that have lost their mark, or that lose it.\<close>

lemma restore_coin_faded:
  assumes c: "coins_ok c" and a: "IsAvailable c (unat (op_n p))"
    and last: "IsPruned (snd (spend_coin p c)) \<Longrightarrow> 0 < cn_Height c"
    and d: "coins_ok d" "kept d = (if f then map_option unmark (kept (snd (spend_coin p c))) else kept (snd (spend_coin p c)))"
  shows "fst (restore_coin p (stored_undo (fst (spend_coin p c))) d) = Some True
    \<and> coins_fit (snd (restore_coin p (stored_undo (fst (spend_coin p c))) d))
    \<and> kept (snd (restore_coin p (stored_undo (fst (spend_coin p c))) d))
        = (if f \<or> cn_CoinStake c \<and> IsPruned (snd (spend_coin p c)) then map_option unmark (kept c) else kept c)"
proof (cases "f \<or> cn_CoinStake c \<and> IsPruned (snd (spend_coin p c))")
  case True
  have k: "kept d = kept (snd (spend_coin p (unmark c)))"
    using d(2) True by (auto simp: spend_coin_unmark kept_unmark) (simp add: kept_def)
  have "IsAvailable (unmark c) (unat (op_n p))" using a by (simp add: unmark_def IsAvailable_def)
  moreover have "0 < cn_Height (unmark c) \<and> \<not> cn_CoinStake (unmark c)" if "IsPruned (snd (spend_coin p (unmark c)))"
    using last that by (simp add: spend_coin_unmark) (simp add: unmark_def IsPruned_def)
  ultimately show ?thesis
    using restore_coin_undoes [OF coins_ok_unmark [OF c] _ _ d(1) k] True by (simp add: spend_coin_unmark kept_unmark)
next
  case False
  then have "0 < cn_Height c \<and> \<not> cn_CoinStake c" if "IsPruned (snd (spend_coin p c))" using last that by blast
  moreover have "kept d = kept (snd (spend_coin p c))" using d(2) False by simp
  ultimately show ?thesis using restore_coin_undoes [OF c a _ d(1)] if_not_P [OF False] by metis
qed

section \<open>Adding and removing the outputs of a transaction\<close>

lemma set_drop_null_tail: "set (drop_null_tail outs) \<subseteq> set outs"
  by (auto simp: drop_null_tail_rev dest: set_dropWhileD)

lemma FromTx_any: "FromTx tx h c = FromTx tx h NullCoins"
  by (cases c) (simp add: FromTx_def ClearUnspendable_def Cleanup_def NullCoins_def)

text \<open>Transactions whose outputs can be stored.\<close>

definition tx_fits :: "CTransaction \<Rightarrow> int \<Rightarrow> bool" where
  "tx_fits tx h \<longleftrightarrow> list_all (\<lambda>out. storable out \<and> nRounds out = -10) (vout tx) \<and> length (vout tx) \<le> MAX_SIZE
     \<and> 0 \<le> txVersion tx \<and> txVersion tx < 2 ^ 31 \<and> 0 \<le> h \<and> h < 2 ^ 31"

definition add_outputs :: "(bytes \<Rightarrow> uint256) \<Rightarrow> CTransaction \<Rightarrow> int \<Rightarrow> (uint256 \<Rightarrow> CCoins option) \<Rightarrow> uint256 \<Rightarrow> CCoins option" where
  "add_outputs Hash tx h live = live(GetHash Hash tx := kept (FromTx tx h NullCoins))"

lemma FromTx_ok:
  assumes "tx_fits tx h"
  shows "coins_ok (FromTx tx h c)" and "cn_Version (FromTx tx h c) = txVersion tx"
    and "\<And>out. out \<in> set (cn_vout (FromTx tx h c)) \<Longrightarrow> \<not> IsUnspendable (scriptPubKey out)"
proof -
  let ?outs = "map (\<lambda>out. if IsUnspendable (scriptPubKey out) then TxOutSetNull out else out) (vout tx)"
  let ?c = "c\<lparr>cn_CoinBase := IsCoinBase tx, cn_CoinStake := IsCoinStake tx, cn_vout := ?outs, cn_Height := h, cn_Version := txVersion tx\<rparr>"
  have eq: "FromTx tx h c = Cleanup ?c" by (cases c) (simp add: FromTx_def ClearUnspendable_def Cleanup_def)
  have out: "(TxOutIsNull out \<or> storable out) \<and> tidy_out out \<and> \<not> IsUnspendable (scriptPubKey out)" if o: "out \<in> set ?outs" for out
  proof -
    obtain o' where o': "o' \<in> set (vout tx)" "out = (if IsUnspendable (scriptPubKey o') then TxOutSetNull o' else o')"
      using o by auto
    have s: "storable o'" "nRounds o' = -10" using o'(1) assms by (auto simp: tx_fits_def list_all_iff)
    then show ?thesis
      using o'(2) by (auto simp: tidy_out_def TxOutSetNull_def TxOutIsNull_def storable_def IsUnspendable_def)
  qed
  then have "coins_fit ?c" using assms by (simp add: coins_fit_def storable_coins_def tx_fits_def list_all_iff)
  then show "coins_ok (FromTx tx h c)" unfolding eq by (rule coins_ok_Cleanup)
  show "cn_Version (FromTx tx h c) = txVersion tx" unfolding eq by (simp add: Cleanup_def)
  fix out assume "out \<in> set (cn_vout (FromTx tx h c))"
  then have "out \<in> set (drop_null_tail ?outs)" unfolding eq by (simp add: Cleanup_def)
  then have "out \<in> set ?outs" by (rule set_drop_null_tail [THEN subsetD])
  then show "\<not> IsUnspendable (scriptPubKey out)" using out by blast
qed

lemma TxOutEq_stored:
  assumes "stored_out a = stored_out b" "tidy_out a" "tidy_out b"
  shows "TxOutEq a b"
proof -
  have n: "TxOutIsNull a = TxOutIsNull b" using assms(1) by (metis stored_out_null)
  have v: "TxOutIsNull x \<Longrightarrow> nValue x = -1" for x by (simp add: TxOutIsNull_def)
  show ?thesis using assms n v [of a] v [of b]
    by (cases "TxOutIsNull a") (simp_all add: TxOutEq_def tidy_out_def stored_out_def stored_txout_def NewTxOut_def)
qed

lemma remove_outputs_undoes:
  assumes "tx_fits tx h" "coins_ok c" "kept c = kept (FromTx tx h NullCoins)"
  shows "fst (remove_outputs tx h c)" "kept (snd (remove_outputs tx h c)) = None" "coins_fit (snd (remove_outputs tx h c))"
proof -
  let ?F = "FromTx tx h NullCoins"
  note F = FromTx_ok [OF assms(1), where c = NullCoins]
  have v: "\<not> cn_Version ?F < 0" using F(2) assms(1) by (simp add: tx_fits_def)
  have tidy: "list_all tidy_out (cn_vout c)" "list_all tidy_out (cn_vout ?F)" using assms(2) F(1) by (simp_all add: coins_ok_def coins_fit_def)
  show "kept (snd (remove_outputs tx h c)) = None" "coins_fit (snd (remove_outputs tx h c))"
    using IsPruned_clear coins_ok_clear by (simp_all add: remove_outputs_def Let_def kept_def coins_ok_def)
  have "CoinsEq (ClearUnspendable c) ?F"
  proof (cases "IsPruned ?F")
    case True
    then have "IsPruned c" using assms(3) by (simp add: kept_def split: if_splits)
    then have "IsPruned (ClearUnspendable c)" by (auto simp: ClearUnspendable_def) (auto simp: IsPruned_def list_all_iff)
    then show ?thesis using True by (simp add: CoinsEq_def)
  next
    case False
    then have st: "stored_coins c = stored_coins ?F" and np: "\<not> IsPruned c" using assms(3) by (auto simp: kept_def split: if_splits)
    have "cn_vout (Cleanup c) = cn_vout c" "cn_vout (Cleanup ?F) = cn_vout ?F"
      using assms(2) F(1) unfolding coins_ok_def by simp_all
    then have cl: "drop_null_tail (cn_vout c) = cn_vout c" "drop_null_tail (cn_vout ?F) = cn_vout ?F"
      by (simp_all add: Cleanup_def)
    have m: "map stored_out (cn_vout c) = map stored_out (cn_vout ?F)"
      using stored_coins_vout [of c] stored_coins_vout [of ?F] st cl by simp
    have len: "length (cn_vout c) = length (cn_vout ?F)" using m by (metis length_map)
    have eq: "TxOutEq (cn_vout c ! i) (cn_vout ?F ! i)" if "i < length (cn_vout c)" for i
    proof (rule TxOutEq_stored)
      show "stored_out (cn_vout c ! i) = stored_out (cn_vout ?F ! i)" using m that len by (metis nth_map)
      show "tidy_out (cn_vout c ! i)" "tidy_out (cn_vout ?F ! i)" using tidy that len by (simp_all add: list_all_length)
    qed
    then have all: "list_all2 TxOutEq (cn_vout c) (cn_vout ?F)" using len by (simp add: list_all2_conv_all_nth)
    have "\<not> IsUnspendable (scriptPubKey out)" if o: "out \<in> set (cn_vout c)" for out
    proof -
      obtain i where "i < length (cn_vout c)" "out = cn_vout c ! i" using o by (metis in_set_conv_nth)
      then have "scriptPubKey out = scriptPubKey (cn_vout ?F ! i)" "cn_vout ?F ! i \<in> set (cn_vout ?F)"
        using eq len by (simp_all add: TxOutEq_def)
      then show ?thesis using F(3) by metis
    qed
    then have "map (\<lambda>out. if IsUnspendable (scriptPubKey out) then TxOutSetNull out else out) (cn_vout c) = cn_vout c"
      by (simp add: map_idI)
    then have "ClearUnspendable c = Cleanup c" by (simp add: ClearUnspendable_def)
    then have "ClearUnspendable c = c" using assms(2) by (simp add: coins_ok_def)
    moreover have "same_coins c ?F" using assms(3) np by (rule kept_same)
    ultimately show ?thesis using all by (simp add: CoinsEq_def same_coins_def)
  qed
  then show "fst (remove_outputs tx h c)" using v by (simp add: remove_outputs_def Let_def)
qed

section \<open>Whole transactions and blocks\<close>

definition spends_inputs :: "CTransaction \<Rightarrow> bool" where
  "spends_inputs tx \<longleftrightarrow> \<not> IsCoinBase tx \<and> IsCoinStake tx"

text \<open>The unspent outputs after a transaction, and after the transactions of a block.\<close>

definition after_inputs :: "CTransaction \<Rightarrow> (uint256 \<Rightarrow> CCoins option) \<Rightarrow> uint256 \<Rightarrow> CCoins option" where
  "after_inputs tx live = (if spends_inputs tx then fold live_spend (map prevout (vin tx)) live else live)"

definition after_tx :: "(bytes \<Rightarrow> uint256) \<Rightarrow> int \<Rightarrow> CTransaction \<Rightarrow> (uint256 \<Rightarrow> CCoins option) \<Rightarrow> uint256 \<Rightarrow> CCoins option" where
  "after_tx Hash h tx live = add_outputs Hash tx h (after_inputs tx live)"

text \<open>The transactions that lose their mark when the transactions of a block are connected and taken back.\<close>

fun lost_marks :: "(bytes \<Rightarrow> uint256) \<Rightarrow> int \<Rightarrow> (uint256 \<Rightarrow> CCoins option) \<Rightarrow> CTransaction list \<Rightarrow> uint256 set" where
  "lost_marks Hash h live [] = {}"
| "lost_marks Hash h live (tx # txs) = lost_marks Hash h (after_tx Hash h tx live) txs
     \<union> (if spends_inputs tx then lost_inputs live (map prevout (vin tx)) else {})"

text \<open>
  The transactions that can be connected and taken back: no transaction is there already, and none is a coinstake whose outputs are
  all spent later in the same block.
\<close>

fun connectable :: "(bytes \<Rightarrow> uint256) \<Rightarrow> int \<Rightarrow> (uint256 \<Rightarrow> CCoins option) \<Rightarrow> CTransaction list \<Rightarrow> bool" where
  "connectable Hash h live [] \<longleftrightarrow> True"
| "connectable Hash h live (tx # txs) \<longleftrightarrow> tx_fits tx h \<and> (spends_inputs tx \<longrightarrow> spendable live (map prevout (vin tx)))
     \<and> after_inputs tx live (GetHash Hash tx) = None \<and> GetHash Hash tx \<notin> lost_marks Hash h (after_tx Hash h tx live) txs
     \<and> connectable Hash h (after_tx Hash h tx live) txs"

fun undoes :: "(uint256 \<Rightarrow> CCoins option) \<Rightarrow> CTxIn list \<Rightarrow> CTxUndo \<Rightarrow> bool" where
  "undoes live [] us \<longleftrightarrow> us = []"
| "undoes live (txin # ins) us \<longleftrightarrow>
     (case us of [] \<Rightarrow> False
      | u # us \<Rightarrow> (\<exists>c. coins_ok c \<and> kept c = live (op_txid (prevout txin)) \<and> u = fst (spend_coin (prevout txin) c))
          \<and> undoes (live_spend (prevout txin) live) ins us)"

lemma undoes_length: "undoes live ins us \<Longrightarrow> length us = length ins"
  by (induction ins arbitrary: live us) (auto split: list.splits)

lemma IsCoinAudit_base: "IsCoinAudit tx = IsCoinBase tx"
  by (simp add: IsCoinAudit_def IsCoinBase_def)

lemma restore_inputs_append:
  "restore_inputs g (xs @ ys) fClean s =
     (case restore_inputs g xs fClean s of Inl err \<Rightarrow> Inl err | Inr (fClean, s) \<Rightarrow> restore_inputs g ys fClean s)"
  by (induction g xs fClean s rule: restore_inputs.induct) (auto split: sum.split option.split prod.split)

lemma disconnect_txs_append:
  "disconnect_txs g Hash h (xs @ ys) fClean s =
     (case disconnect_txs g Hash h xs fClean s of Inl err \<Rightarrow> Inl err | Inr (None, s) \<Rightarrow> Inr (None, s)
      | Inr (Some fClean, s) \<Rightarrow> disconnect_txs g Hash h ys fClean s)"
  by (induction g Hash h xs fClean s rule: disconnect_txs.induct) (auto split: sum.split option.split prod.split)

context coins_view
begin

lemma spend_inputs_view:
  assumes "c_ok s"
  shows "\<exists>us s'. spend_inputs get ins acc s = Inr (acc @ us, s') \<and> c_ok s' \<and> c_tip s' = c_tip s
    \<and> c_live s' = fold live_spend (map prevout ins) (c_live s) \<and> undoes (c_live s) ins us"
  using assms
proof (induction ins arbitrary: acc s)
  case (Cons txin ins)
  let ?p = "prevout txin"
  have fit: "coins_fit (snd (spend_coin ?p c))" if "coins_ok c" for c using that by (rule spend_coin_cases(1))
  obtain s1 c where m: "modify get (op_txid ?p) (spend_coin ?p) s = Inr (fst (spend_coin ?p c), s1)" "c_ok s1" "coins_ok c"
      "kept c = c_live s (op_txid ?p)" "c_live s1 = (c_live s)(op_txid ?p := kept (Cleanup (snd (spend_coin ?p c))))" "c_tip s1 = c_tip s"
    using modify_view [OF Cons.prems, of "op_txid ?p" "spend_coin ?p"] fit by blast
  have l: "c_live s1 = live_spend ?p (c_live s)"
    using m(5) kept_spend [OF m(3,4)] by (simp add: live_spend_def)
  obtain us s' where r: "spend_inputs get ins (acc @ [fst (spend_coin ?p c)]) s1 = Inr ((acc @ [fst (spend_coin ?p c)]) @ us, s')"
      "c_ok s'" "c_tip s' = c_tip s1" "c_live s' = fold live_spend (map prevout ins) (c_live s1)" "undoes (c_live s1) ins us"
    using Cons.IH [OF m(2)] by blast
  have "undoes (c_live s) (txin # ins) (fst (spend_coin ?p c) # us)" using m(3,4) r(5) l by auto
  moreover have "spend_inputs get (txin # ins) acc s = Inr (acc @ (fst (spend_coin ?p c) # us), s')"
    using m(1) r(1) by (simp add: lift_view_def)
  ultimately show ?case using r l m(6) by (intro exI [of _ "fst (spend_coin ?p c) # us"] exI [of _ s']) simp
qed simp

lemma restore_inputs_view:
  assumes "undoes live0 ins us" "spendable live0 (map prevout ins)" "c_ok s"
    "c_live s = faded lost (fold live_spend (map prevout ins) live0)"
  shows "\<exists>s'. restore_inputs get (rev (zip ins (map stored_undo us))) True s = Inr (True, s') \<and> c_ok s' \<and> c_tip s' = c_tip s
    \<and> c_live s' = faded (lost \<union> lost_inputs live0 (map prevout ins)) live0"
  using assms
proof (induction ins arbitrary: live0 us s)
  case (Cons txin ins)
  let ?p = "prevout txin"
  let ?lost = "lost \<union> lost_inputs (live_spend ?p live0) (map prevout ins)"
  obtain u us' where us: "us = u # us'" using Cons.prems(1) by (cases us) auto
  obtain c where c: "coins_ok c" "kept c = live0 (op_txid ?p)" "u = fst (spend_coin ?p c)" and un: "undoes (live_spend ?p live0) ins us'"
    using Cons.prems(1) us by auto
  obtain s1 where r: "restore_inputs get (rev (zip ins (map stored_undo us'))) True s = Inr (True, s1)" "c_ok s1" "c_tip s1 = c_tip s"
      "c_live s1 = faded ?lost (live_spend ?p live0)"
    using Cons.IH [OF un _ Cons.prems(3)] Cons.prems(2,4) by auto
  obtain d where d: "live0 (op_txid ?p) = Some d" "IsAvailable d (unat (op_n ?p))"
      "live_spend ?p live0 (op_txid ?p) = None \<longrightarrow> 0 < cn_Height d"
    using Cons.prems(2) by (auto split: option.splits)
  have np: "\<not> IsPruned c" using c(2) d(1) by (auto simp: kept_def)
  have ds: "d = stored_coins c" using c(2) d(1) np by (simp add: kept_def)
  then have a: "IsAvailable c (unat (op_n ?p))" using d(2) by simp
  have same: "cn_Height d = cn_Height c" "cn_CoinStake d = cn_CoinStake c"
    using same_coins_of_stored [of c] ds by (simp_all add: same_coins_def)
  have ls: "live_spend ?p live0 (op_txid ?p) = kept (snd (spend_coin ?p c))"
    using kept_spend [OF c(1,2)] by (simp add: live_spend_def)
  have last: "0 < cn_Height c" if "IsPruned (snd (spend_coin ?p c))"
    using d(3) ls that same by (simp add: kept_def)
  let ?f = "restore_coin ?p (stored_undo u)" and ?more = "cn_CoinStake c \<and> IsPruned (snd (spend_coin ?p c))"
  let ?given = "if op_txid ?p \<in> ?lost \<or> ?more then map_option unmark (kept c) else kept c"
  have undo: "fst (?f e) = Some True \<and> coins_fit (snd (?f e)) \<and> kept (snd (?f e)) = ?given"
    if "coins_ok e" "kept e = c_live s1 (op_txid ?p)" for e
    using restore_coin_faded [OF c(1) a last that(1), of "op_txid ?p \<in> ?lost"] that(2) r(4) ls c(3) by (simp add: faded_def)
  obtain s2 e where m: "modify get (op_txid ?p) ?f s1 = Inr (fst (?f e), s2)" "c_ok s2" "coins_ok e"
      "kept e = c_live s1 (op_txid ?p)" "c_live s2 = (c_live s1)(op_txid ?p := kept (Cleanup (snd (?f e))))" "c_tip s2 = c_tip s1"
    using modify_view [OF r(2), of "op_txid ?p" ?f] undo by blast
  have more: "lost_inputs live0 (map prevout (txin # ins)) = (if ?more then {op_txid ?p} else {}) \<union> lost_inputs (live_spend ?p live0) (map prevout ins)"
    using d(1) same ls by (simp add: kept_def)
  have "c_live s2 = (faded ?lost (live_spend ?p live0))(op_txid ?p := ?given)" using m(5) undo [OF m(3,4)] r(4) by simp
  also have "\<dots> = faded (lost \<union> lost_inputs live0 (map prevout (txin # ins))) live0"
    unfolding more using c(2) by (auto simp: faded_def live_spend_def fun_eq_iff)
  finally have l: "c_live s2 = faded (lost \<union> lost_inputs live0 (map prevout (txin # ins))) live0" .
  have "restore_inputs get (rev (zip (txin # ins) (map stored_undo us))) True s = Inr (True, s2)"
    using r(1) m(1) undo [OF m(3,4)] by (simp add: us restore_inputs_append lift_view_def)
  then show ?case using m(2,6) r(3) l by (intro exI [of _ s2]) simp
qed auto

lemma UpdateCoins_view:
  assumes "c_ok s" "tx_fits tx h"
  shows "\<exists>us s'. UpdateCoins get Hash tx acc h s = Inr (acc @ us, s') \<and> c_ok s' \<and> c_tip s' = c_tip s
    \<and> c_live s' = after_tx Hash h tx (c_live s)
    \<and> (if spends_inputs tx then undoes (c_live s) (vin tx) us else us = [])"
proof -
  have sp: "(\<not> IsCoinAudit tx \<and> \<not> IsCoinBase tx \<and> IsCoinStake tx) = spends_inputs tx"
    by (simp add: spends_inputs_def IsCoinAudit_base)
  obtain us s1 where i: "(if spends_inputs tx then spend_inputs get (vin tx) acc s else Inr (acc, s)) = Inr (acc @ us, s1)"
      "c_ok s1" "c_tip s1 = c_tip s" "c_live s1 = after_inputs tx (c_live s)"
      "if spends_inputs tx then undoes (c_live s) (vin tx) us else us = []"
  proof (cases "spends_inputs tx")
    case True
    then show ?thesis using that spend_inputs_view [OF assms(1), of "vin tx" acc] by (auto simp: after_inputs_def)
  next
    case False
    then show ?thesis using that [of "[]" s] assms(1) by (simp add: after_inputs_def)
  qed
  let ?f = "\<lambda>c. ((), FromTx tx h c)"
  have fit: "coins_fit (snd (?f c))" for c using FromTx_ok(1) [OF assms(2)] by (simp add: coins_ok_def)
  obtain s2 c where m: "modify get (GetHash Hash tx) ?f s1 = Inr (fst (?f c), s2)" "c_ok s2"
      "c_live s2 = (c_live s1)(GetHash Hash tx := kept (Cleanup (snd (?f c))))" "c_tip s2 = c_tip s1"
    using modify_view [OF i(2), of "GetHash Hash tx" ?f] fit by blast
  have "c_live s2 = after_tx Hash h tx (c_live s)"
    using m(3) i(4) FromTx_any [of tx h c] by (simp add: after_tx_def add_outputs_def)
  moreover have "UpdateCoins get Hash tx acc h s = Inr (acc @ us, s2)"
    unfolding UpdateCoins_def sp i(1) using m(1) by (simp add: lift_view_def)
  ultimately show ?thesis using m i by auto
qed

lemma disconnect_tx_view:
  assumes "c_ok s" "tx_fits tx h" "c_live s = faded lost (after_tx Hash h tx live0)" "GetHash Hash tx \<notin> lost"
    and "after_inputs tx live0 (GetHash Hash tx) = None"
    and "spends_inputs tx \<Longrightarrow> spendable live0 (map prevout (vin tx)) \<and> (\<exists>us. undoes live0 (vin tx) us \<and> txundo = Some (map stored_undo us))"
  shows "\<exists>s'. disconnect_tx get Hash h tx txundo True s = Inr (Some True, s') \<and> c_ok s' \<and> c_tip s' = c_tip s
    \<and> c_live s' = faded (lost \<union> (if spends_inputs tx then lost_inputs live0 (map prevout (vin tx)) else {})) live0"
proof -
  let ?f = "remove_outputs tx h" and ?hash = "GetHash Hash tx"
  have k: "c_live s ?hash = kept (FromTx tx h NullCoins)" using assms(3,4) by (simp add: after_tx_def add_outputs_def faded_def)
  obtain s1 c where m: "modify get ?hash ?f s = Inr (fst (?f c), s1)" "c_ok s1" "coins_ok c" "kept c = c_live s ?hash"
      "c_live s1 = (c_live s)(?hash := kept (Cleanup (snd (?f c))))" "c_tip s1 = c_tip s"
    using modify_view [OF assms(1), of ?hash ?f] remove_outputs_undoes(3) [OF assms(2)] k by force
  note u = remove_outputs_undoes [OF assms(2) m(3)]
  have "c_live s1 = faded lost (after_inputs tx live0)"
    using m(5) u(2) m(4) k assms(3-5) by (auto simp: after_tx_def add_outputs_def faded_def fun_eq_iff)
  moreover have clean: "fst (?f c)" using u(1) m(4) k by simp
  ultimately show ?thesis
  proof (cases "spends_inputs tx")
    case True
    obtain us where us: "undoes live0 (vin tx) us" "txundo = Some (map stored_undo us)" using assms(6) [OF True] by blast
    have len: "length us = length (vin tx)" by (rule undoes_length [OF us(1)])
    obtain s' where "restore_inputs get (rev (zip (vin tx) (map stored_undo us))) True s1 = Inr (True, s')" "c_ok s'"
        "c_tip s' = c_tip s1" "c_live s' = faded (lost \<union> lost_inputs live0 (map prevout (vin tx))) live0"
      using restore_inputs_view [OF us(1) _ m(2)] assms(6) [OF True] True \<open>c_live s1 = faded lost (after_inputs tx live0)\<close>
      by (auto simp: after_inputs_def)
    then show ?thesis
      using m(1,6) clean True us(2) len by (simp add: disconnect_tx_def lift_view_def spends_inputs_def)
  next
    case False
    then show ?thesis
      using m(1,2,6) clean \<open>c_live s1 = faded lost (after_inputs tx live0)\<close>
      by (auto simp: disconnect_tx_def lift_view_def spends_inputs_def after_inputs_def)
  qed
qed

lemma connect_disconnect_view:
  assumes "c_ok s" "connectable Hash h (c_live s) txs" "first \<Longrightarrow> txs \<noteq> [] \<Longrightarrow> \<not> spends_inputs (hd txs)"
  shows "\<exists>us s1. connect_txs get Hash h first txs acc s = Inr (acc @ us, s1) \<and> c_ok s1 \<and> c_tip s1 = c_tip s
    \<and> c_live s1 = fold (after_tx Hash h) txs (c_live s)
    \<and> length us = length txs - (if first then 1 else 0)
    \<and> (\<forall>s2. c_ok s2 \<and> c_live s2 = c_live s1 \<longrightarrow>
        (\<exists>s3. disconnect_txs get Hash h
            (rev (zip txs ((if first then [None] else []) @ map (\<lambda>u. Some (map stored_undo u)) us))) True s2 = Inr (Some True, s3)
          \<and> c_ok s3 \<and> c_tip s3 = c_tip s2 \<and> c_live s3 = faded (lost_marks Hash h (c_live s) txs) (c_live s)))"
  using assms
proof (induction txs arbitrary: first acc s)
  case Nil
  then show ?case by auto
next
  case (Cons tx txs)
  have con: "tx_fits tx h" "spends_inputs tx \<longrightarrow> spendable (c_live s) (map prevout (vin tx))"
    "after_inputs tx (c_live s) (GetHash Hash tx) = None" "connectable Hash h (after_tx Hash h tx (c_live s)) txs"
    "GetHash Hash tx \<notin> lost_marks Hash h (after_tx Hash h tx (c_live s)) txs"
    using Cons.prems(2) by simp_all
  obtain u s1 where U: "UpdateCoins get Hash tx [] h s = Inr (u, s1)" "c_ok s1" "c_tip s1 = c_tip s"
      "c_live s1 = after_tx Hash h tx (c_live s)" "if spends_inputs tx then undoes (c_live s) (vin tx) u else u = []"
    using UpdateCoins_view [OF Cons.prems(1) con(1), of Hash "[]"] by auto
  let ?acc = "if first then acc else acc @ [u]"
  have c1: "connectable Hash h (c_live s1) txs" using con(4) U(4) by simp
  obtain us s2 where R: "connect_txs get Hash h False txs ?acc s1 = Inr (?acc @ us, s2)" "c_ok s2" "c_tip s2 = c_tip s1"
      "c_live s2 = fold (after_tx Hash h) txs (c_live s1)" "length us = length txs"
      "\<And>t. c_ok t \<Longrightarrow> c_live t = c_live s2 \<Longrightarrow> \<exists>s3. disconnect_txs get Hash h (rev (zip txs (map (\<lambda>u. Some (map stored_undo u)) us))) True t =
          Inr (Some True, s3) \<and> c_ok s3 \<and> c_tip s3 = c_tip t \<and> c_live s3 = faded (lost_marks Hash h (c_live s1) txs) (c_live s1)"
    using Cons.IH [OF U(2) c1, of False ?acc] by auto
  let ?us = "(if first then [] else [u]) @ us"
  have run: "connect_txs get Hash h first (tx # txs) acc s = Inr (acc @ ?us, s2)" using U(1) R(1) by simp
  have rev_run: "\<exists>s3. disconnect_txs get Hash h
        (rev (zip (tx # txs) ((if first then [None] else []) @ map (\<lambda>u. Some (map stored_undo u)) ?us))) True t = Inr (Some True, s3)
      \<and> c_ok s3 \<and> c_tip s3 = c_tip t \<and> c_live s3 = faded (lost_marks Hash h (c_live s) (tx # txs)) (c_live s)" if t: "c_ok t" "c_live t = c_live s2" for t
  proof -
    obtain t1 where t1: "disconnect_txs get Hash h (rev (zip txs (map (\<lambda>u. Some (map stored_undo u)) us))) True t = Inr (Some True, t1)"
        "c_ok t1" "c_tip t1 = c_tip t" "c_live t1 = faded (lost_marks Hash h (c_live s1) txs) (c_live s1)"
      using R(6) [OF t] by blast
    let ?u = "if first then None else Some (map stored_undo u)"
    have z: "zip (tx # txs) ((if first then [None] else []) @ map (\<lambda>u. Some (map stored_undo u)) ?us) =
        (tx, ?u) # zip txs (map (\<lambda>u. Some (map stored_undo u)) us)" by simp
    have prem: "spendable (c_live s) (map prevout (vin tx)) \<and> (\<exists>us. undoes (c_live s) (vin tx) us \<and> ?u = Some (map stored_undo us))"
      if sp: "spends_inputs tx"
    proof -
      have "\<not> first" using Cons.prems(3) sp by auto
      moreover have "undoes (c_live s) (vin tx) u" using U(5) sp by simp
      ultimately show ?thesis using con(2) sp by auto
    qed
    have l: "c_live t1 = faded (lost_marks Hash h (after_tx Hash h tx (c_live s)) txs) (after_tx Hash h tx (c_live s))"
      using t1(4) U(4) by simp
    from disconnect_tx_view [OF t1(2) con(1) l con(5,3) prem] obtain t2 where
      "disconnect_tx get Hash h tx ?u True t1 = Inr (Some True, t2)" "c_ok t2" "c_tip t2 = c_tip t1"
      "c_live t2 = faded (lost_marks Hash h (c_live s) (tx # txs)) (c_live s)"
      by auto
    then show ?thesis unfolding z using t1(1,3) by (simp add: disconnect_txs_append)
  qed
  have "length ?us = length (tx # txs) - (if first then 1 else 0)" using R(5) by simp
  then show ?case using run R(2-4) U(3,4) rev_run by (intro exI [of _ ?us] exI [of _ s2]) simp
qed

end

section \<open>An example\<close>

text \<open>A coinbase with one output and a coinstake that spends it, and a hash that tells them apart.\<close>

definition example_coinbase :: CTransaction where
  "example_coinbase = NullTransaction\<lparr>vin := [NewTxIn NullOutPoint [] 0], vout := [NewTxOut 9 [1]]\<rparr>"

definition example_stake :: CTransaction where
  "example_stake = NullTransaction\<lparr>vin := [NewTxIn \<lparr>op_txid = replicate 8 1, op_n = 0\<rparr> [] 0], vout := [NewTxOut 0 [], NewTxOut 10 [1]]\<rparr>"

definition example_hash :: "bytes \<Rightarrow> uint256" where
  "example_hash bs = (if bs = write_CTransaction example_coinbase then replicate 8 1 else replicate 8 2)"

lemma example_ok: "tx_ok example_coinbase" "tx_ok example_stake"
  by (simp_all add: example_coinbase_def example_stake_def tx_ok_def NullTransaction_def txin_ok_def txout_ok_def NewTxIn_def
      NewTxOut_def NullOutPoint_def NullMaskValue_def outpoint_ok_def made_key_def uint256_0_def zero_limbs_def int_fits_def MAX_SIZE_def)

lemma example_hashes: "GetHash example_hash example_coinbase = replicate 8 1" "GetHash example_hash example_stake = replicate 8 2"
proof -
  have "length (vout example_stake) \<noteq> length (vout example_coinbase)" by (simp add: example_coinbase_def example_stake_def)
  then have "example_stake \<noteq> example_coinbase" by auto
  then have "write_CTransaction example_stake \<noteq> write_CTransaction example_coinbase"
    using transaction.enc_inj example_ok by blast
  then show "GetHash example_hash example_coinbase = replicate 8 1" "GetHash example_hash example_stake = replicate 8 2"
    by (simp_all add: GetHash_def example_hash_def)
qed

lemma distinct_hashes: "(replicate 8 1 :: uint256) \<noteq> replicate 8 2" "(replicate 8 2 :: uint256) \<noteq> replicate 8 1"
  by code_simp+

lemma example_kinds: "IsCoinBase example_coinbase" "\<not> IsCoinBase example_stake" "IsCoinStake example_stake"
  by (simp add: example_coinbase_def IsCoinBase_def NewTxIn_def)
    (simp_all add: example_stake_def IsCoinBase_def IsCoinStake_def NewTxIn_def OutPointIsNull_def TxOutIsEmpty_def NewTxOut_def)

lemma example_coins:
  "FromTx example_coinbase 5 NullCoins = \<lparr>cn_CoinBase = True, cn_CoinStake = False, cn_vout = [NewTxOut 9 [1]], cn_Height = 5, cn_Version = 1\<rparr>"
  using example_kinds
  by (simp add: FromTx_def ClearUnspendable_def Cleanup_def NullCoins_def drop_null_tail.simps example_coinbase_def IsUnspendable_def
      NewTxOut_def TxOutIsNull_def NullTransaction_def IsCoinStake_def)

lemma example_connectable: "connectable example_hash 5 (\<lambda>txid. None) [example_coinbase, example_stake]"
proof -
  let ?c = "\<lparr>cn_CoinBase = True, cn_CoinStake = False, cn_vout = [NewTxOut 9 [1]], cn_Height = 5, cn_Version = 1\<rparr>"
  have fits: "tx_fits example_coinbase 5" "tx_fits example_stake 5"
    by (simp_all add: tx_fits_def example_coinbase_def example_stake_def storable_def NewTxOut_def MAX_SIZE_def NullTransaction_def)
  have k: "kept ?c = Some ?c"
    by (simp add: kept_def IsPruned_def TxOutIsNull_def NewTxOut_def stored_coins_def stored_out_def stored_txout_def Cleanup_def drop_null_tail.simps)
  have a: "after_tx example_hash 5 example_coinbase (\<lambda>txid. None) = (\<lambda>txid. None)(replicate 8 1 := Some ?c)"
    using example_kinds example_coins k by (simp add: after_tx_def after_inputs_def spends_inputs_def add_outputs_def example_hashes)
  have p: "map prevout (vin example_stake) = [\<lparr>op_txid = replicate 8 1, op_n = 0\<rparr>]"
    by (simp add: example_stake_def NewTxIn_def)
  have av: "IsAvailable ?c 0" by (simp add: IsAvailable_def TxOutIsNull_def NewTxOut_def)
  have h: "GetHash example_hash example_coinbase = replicate 8 1" by (rule example_hashes)
  show ?thesis
    using fits a p av example_kinds example_hashes distinct_hashes
    by (simp add: after_inputs_def spends_inputs_def live_spend_def)
qed
section \<open>Properties\<close>

text \<open>The block, its undo data as it comes back from disk.\<close>

definition stored_block_undo :: "CTxUndo list \<Rightarrow> CTxUndo list" where
  "stored_block_undo vtxundo = map (map stored_undo) vtxundo"

lemma connect_disconnect_block:
  assumes V: "coins_view get best put ok live tip has" and s: "cache_ok ok live has s"
    and con: "connectable Hash h (cache_live live s) (vtx block)" and ne: "vtx block \<noteq> []" and first: "\<not> spends_inputs (hd (vtx block))"
    and bh: "blockHash \<noteq> uint256_0"
  shows "\<exists>us s1 s3. connect_txs get Hash h True (vtx block) [] s = Inr (us, s1)
    \<and> cache_live live s1 = fold (after_tx Hash h) (vtx block) (cache_live live s)
    \<and> DisconnectBlock get best Hash block blockHash prevHash h (Some (stored_block_undo us)) pfClean (SetBestBlock blockHash s1) =
        Inr ((True, True), s3)
    \<and> cache_ok ok live has s3 \<and> cv_hashBlock s3 = prevHash
    \<and> cache_live live s3 = faded (lost_marks Hash h (cache_live live s) (vtx block)) (cache_live live s)"
proof -
  obtain us s1 where c: "connect_txs get Hash h True (vtx block) [] s = Inr (us, s1)" "cache_ok ok live has s1"
      "cache_live live s1 = fold (after_tx Hash h) (vtx block) (cache_live live s)" "length us = length (vtx block) - 1"
      and d: "\<And>s2. cache_ok ok live has s2 \<Longrightarrow> cache_live live s2 = cache_live live s1 \<Longrightarrow>
        \<exists>s3. disconnect_txs get Hash h (rev (zip (vtx block) ([None] @ map (\<lambda>u. Some (map stored_undo u)) us))) True s2 = Inr (Some True, s3)
          \<and> cache_ok ok live has s3 \<and> cache_tip tip s3 = cache_tip tip s2
          \<and> cache_live live s3 = faded (lost_marks Hash h (cache_live live s) (vtx block)) (cache_live live s)"
    using coins_view.connect_disconnect_view [OF V s con, of True "[]"] first by auto
  let ?s2 = "SetBestBlock blockHash s1"
  have s2: "cache_ok ok live has ?s2" "cache_live live ?s2 = cache_live live s1" using c(2) by simp_all
  obtain s3 where s3: "disconnect_txs get Hash h (rev (zip (vtx block) (None # map Some (stored_block_undo us)))) True ?s2 = Inr (Some True, s3)"
      "cache_ok ok live has s3" "cache_live live s3 = faded (lost_marks Hash h (cache_live live s) (vtx block)) (cache_live live s)"
    using d [OF s2] by (auto simp: stored_block_undo_def comp_def)
  have "GetBestBlock best ?s2 = (blockHash, ?s2)" using bh by (simp add: GetBestBlock_def SetBestBlock_def)
  moreover have "length (stored_block_undo us) + 1 = length (vtx block)"
    using c(4) ne by (cases "vtx block") (simp_all add: stored_block_undo_def)
  ultimately have "DisconnectBlock get best Hash block blockHash prevHash h (Some (stored_block_undo us)) pfClean ?s2 =
      Inr ((True, True), SetBestBlock prevHash s3)"
    using s3(1) by (simp add: DisconnectBlock_def)
  moreover have "cache_ok ok live has (SetBestBlock prevHash s3)" 
      "cache_live live (SetBestBlock prevHash s3) = faded (lost_marks Hash h (cache_live live s) (vtx block)) (cache_live live s)"
      "cv_hashBlock (SetBestBlock prevHash s3) = prevHash"
    using s3(2,3) by simp_all
  ultimately show ?thesis using c by blast
qed

text \<open>
  C12: disconnecting a block takes back what connecting it did, up to the marks of coinstakes. In a block that can be connected every input
  that is spent (only those of coinstakes are) is available when it is spent and, if it is the last unspent output of its transaction, that
  transaction is not of height zero; every transaction is new and its outputs can be stored; the outputs of a coinstake of the block
  are not all spent in the block itself; and the first transaction spends nothing. Connecting its transactions spends the inputs and adds the outputs, and no assertion fails;
  disconnecting it from the undo data read back from disk finds nothing unexpected and leaves the best block and the unspent outputs, by
  amount and script, as they were, but for one thing: the coins of a coinstake whose last unspent output the block spent are no longer
  marked as those of a coinstake. These are exactly the transactions of \<open>lost_marks\<close>; where there are none, everything is restored.
\<close>

theorem connect_disconnect_round_trip:
  assumes "decompresses fv kd" "view_ok fv kd view" "connectable Hash h (view_live kd view) (vtx block)"
    "vtx block \<noteq> []" "\<not> spends_inputs (hd (vtx block))" "blockHash \<noteq> uint256_0"
  shows "case connect_txs (GetCoins (DbGetCoins kd)) Hash h True (vtx block) [] view of
      Inl err \<Rightarrow> False
    | Inr (vtxundo, view') \<Rightarrow> view_live kd view' = fold (after_tx Hash h) (vtx block) (view_live kd view)
        \<and> (case DisconnectBlock (GetCoins (DbGetCoins kd)) (GetBestBlock DbGetBestBlock) Hash block blockHash prevHash h
               (Some (stored_block_undo vtxundo)) pfClean (SetBestBlock blockHash view') of
             Inl err \<Rightarrow> False
           | Inr ((r, fClean), view'') \<Rightarrow> r \<and> fClean \<and> view_ok fv kd view'' \<and> cv_hashBlock view'' = prevHash
               \<and> view_live kd view'' = faded (lost_marks Hash h (view_live kd view) (vtx block)) (view_live kd view))"
  using connect_disconnect_block [OF tip_view [OF assms(1)], of view Hash h block blockHash prevHash pfClean] assms(2-6)
  unfolding view_ok_def view_live_def by auto

theorem connect_disconnect_round_trip_witness:
  "case connect_txs (GetCoins (DbGetCoins (\<lambda>pk. if pk = 3 # replicate 32 1 then Some (4 # replicate 64 1) else None))) example_hash 5 True
      [example_coinbase, example_stake] [] (NewCache (NewCache (\<lambda>key. None))) of
      Inl err \<Rightarrow> False
    | Inr (vtxundo, view') \<Rightarrow>
        (case DisconnectBlock (GetCoins (DbGetCoins (\<lambda>pk. if pk = 3 # replicate 32 1 then Some (4 # replicate 64 1) else None)))
               (GetBestBlock DbGetBestBlock) example_hash (NullBlock\<lparr>vtx := [example_coinbase, example_stake]\<rparr>) (replicate 8 7)
               (replicate 8 6) 5 (Some (stored_block_undo vtxundo)) False (SetBestBlock (replicate 8 7) view') of
             Inl err \<Rightarrow> False
           | Inr ((r, fClean), view'') \<Rightarrow> r \<and> fClean
               \<and> view_live (\<lambda>pk. if pk = 3 # replicate 32 1 then Some (4 # replicate 64 1) else None) view'' = (\<lambda>txid. None)
               \<and> cv_hashBlock view'' = replicate 8 6)"
proof -
  let ?kd = "\<lambda>pk :: CPubKey. if pk = 3 # replicate 32 1 then Some (4 # replicate 64 1 :: CPubKey) else None"
  let ?view = "NewCache (NewCache (\<lambda>key. None)) :: leveldb CCoinsViewCache CCoinsViewCache"
  let ?block = "NullBlock\<lparr>vtx := [example_coinbase, example_stake]\<rparr>"
  have l: "view_live ?kd ?view = (\<lambda>txid. None)"
    by (simp add: view_live_def tip_live_def cache_live_def NewCache_def db_live_def DbRead_def fun_eq_iff)
  have con: "connectable example_hash 5 (view_live ?kd ?view) (vtx ?block)" using example_connectable l by simp
  have bh: "(replicate 8 7 :: uint256) \<noteq> uint256_0" by code_simp
  have "\<not> spends_inputs (hd (vtx ?block))" using example_kinds by (simp add: spends_inputs_def)
  from connect_disconnect_round_trip [OF decompresses_example new_view_ok(2) con _ this bh, of "replicate 8 6" False]
  show ?thesis unfolding l by (auto split: sum.splits prod.splits)
qed

text \<open>
  The lost mark on an example: when the last unspent output of a coinstake is spent and given back, its coins are no longer marked as
  those of a coinstake, and a comparison with the block that created them finds them changed.
\<close>

lemma coinstake_mark_lost:
  "let p = \<lparr>op_txid = uint256_0, op_n = 0\<rparr>;
       c = NullCoins\<lparr>cn_CoinStake := True, cn_vout := [NewTxOut 9 []], cn_Height := 5\<rparr>;
       (undo, c') = spend_coin p c;
       (clean, d) = restore_coin p undo c'
   in clean = Some True \<and> \<not> cn_CoinStake d \<and> \<not> CoinsEq d c"
  by (simp add: spend_coin_def Spend_def restore_coin_def NullCoins_def NewTxOut_def TxOutIsNull_def Cleanup_def drop_null_tail.simps
      UndoOf_def TxOutSetNull_def IsPruned_def CoinsEq_def CoinsClear_def IsAvailable_def resize_outs_def)

text \<open>Spending an output that is not there is not an error: the undo record of the block then holds a null output.\<close>

lemma missing_input_ignored:
  "\<not> IsAvailable c (unat (op_n p)) \<Longrightarrow> spend_coin p c = (UndoOf NullTxOut, c)"
  using Spend_iff [of p c] by (simp add: spend_coin_def)

end
