(* ===== verification/Block_DB.thy ===== *)
theory Block_DB
  imports Coins_DB Disk_Index
begin

text \<open>
  \<open>CBlockTreeDB\<close> of \<open>txdb.cpp\<close>, with \<open>CBlockFileInfo\<close> and \<open>CDiskTxPos\<close> of \<open>main.h\<close>: the database of the block index, of the
  positions of transactions, of flags and numbers, and of the blocks in which a key image was used. Keys start with a character for the
  kind of record.
\<close>

section \<open>Positions and files\<close>

record CDiskBlockPos =
  dp_File :: int
  dp_Pos :: u32

record CDiskTxPos = CDiskBlockPos +
  dp_TxOffset :: u32

definition NullDiskPos :: CDiskBlockPos where
  "NullDiskPos = \<lparr>dp_File = -1, dp_Pos = 0\<rparr>"

definition DiskPosIsNull :: "'a CDiskBlockPos_scheme \<Rightarrow> bool" where
  "DiskPosIsNull pos \<longleftrightarrow> dp_File pos = -1"

definition write_CDiskTxPos :: "CDiskTxPos \<Rightarrow> bytes" where
  "write_CDiskTxPos pos = write_varint_int (dp_File pos) @ WriteVarInt (dp_Pos pos) @ WriteVarInt (dp_TxOffset pos)"

definition read_CDiskTxPos :: "bytes \<Rightarrow> (CDiskTxPos \<times> bytes) option" where
  "read_CDiskTxPos bs = do {
     (file, bs) \<leftarrow> read_varint_int bs;
     (pos, bs) \<leftarrow> ReadVarInt bs;
     (offset, bs) \<leftarrow> ReadVarInt bs;
     Some (\<lparr>dp_File = file, dp_Pos = pos, dp_TxOffset = offset\<rparr>, bs) }"

record CBlockFileInfo =
  fi_Blocks :: u32
  fi_Size :: u32
  fi_UndoSize :: u32
  fi_HeightFirst :: u32
  fi_HeightLast :: u32
  fi_TimeFirst :: u64
  fi_TimeLast :: u64

definition NullFileInfo :: CBlockFileInfo where
  "NullFileInfo = \<lparr>fi_Blocks = 0, fi_Size = 0, fi_UndoSize = 0, fi_HeightFirst = 0, fi_HeightLast = 0, fi_TimeFirst = 0, fi_TimeLast = 0\<rparr>"

definition AddBlock :: "u32 \<Rightarrow> u64 \<Rightarrow> CBlockFileInfo \<Rightarrow> CBlockFileInfo" where
  "AddBlock nHeightIn nTimeIn f =
     (let f = (if fi_Blocks f = 0 \<or> fi_HeightFirst f > nHeightIn then f\<lparr>fi_HeightFirst := nHeightIn\<rparr> else f);
          f = (if fi_Blocks f = 0 \<or> fi_TimeFirst f > nTimeIn then f\<lparr>fi_TimeFirst := nTimeIn\<rparr> else f);
          f = f\<lparr>fi_Blocks := fi_Blocks f + 1\<rparr>;
          f = (if nHeightIn > fi_HeightLast f then f\<lparr>fi_HeightLast := nHeightIn\<rparr> else f)
      in if nTimeIn > fi_TimeLast f then f\<lparr>fi_TimeLast := nTimeIn\<rparr> else f)"

definition write_CBlockFileInfo :: "CBlockFileInfo \<Rightarrow> bytes" where
  "write_CBlockFileInfo f = WriteVarInt (fi_Blocks f) @ WriteVarInt (fi_Size f) @ WriteVarInt (fi_UndoSize f)
     @ WriteVarInt (fi_HeightFirst f) @ WriteVarInt (fi_HeightLast f) @ WriteVarInt (fi_TimeFirst f) @ WriteVarInt (fi_TimeLast f)"

definition read_CBlockFileInfo :: "bytes \<Rightarrow> (CBlockFileInfo \<times> bytes) option" where
  "read_CBlockFileInfo bs = do {
     (nblocks, bs) \<leftarrow> ReadVarInt bs;
     (sz, bs) \<leftarrow> ReadVarInt bs;
     (undo, bs) \<leftarrow> ReadVarInt bs;
     (hfirst, bs) \<leftarrow> ReadVarInt bs;
     (hlast, bs) \<leftarrow> ReadVarInt bs;
     (tfirst, bs) \<leftarrow> ReadVarInt bs;
     (tlast, bs) \<leftarrow> ReadVarInt bs;
     Some (\<lparr>fi_Blocks = nblocks, fi_Size = sz, fi_UndoSize = undo, fi_HeightFirst = hfirst, fi_HeightLast = hlast,
            fi_TimeFirst = tfirst, fi_TimeLast = tlast\<rparr>, bs) }"

section \<open>Records of the database\<close>

definition hash_key :: "byte \<Rightarrow> uint256 \<Rightarrow> bytes" where
  "hash_key ch h = ch # write_limbs h"

definition int_key :: "byte \<Rightarrow> int \<Rightarrow> bytes" where
  "int_key ch i = ch # write_int 4 i"

definition string_key :: "byte \<Rightarrow> bytes \<Rightarrow> bytes" where
  "string_key ch str = ch # write_bytes str"

definition WriteBlockIndex :: "(bytes \<Rightarrow> uint256) \<Rightarrow> (bytes \<Rightarrow> uint256) \<Rightarrow> int \<Rightarrow> CDiskBlockIndex \<Rightarrow> leveldb \<Rightarrow> leveldb" where
  "WriteBlockIndex Hash HashQuark version d db =
     DbWrite (hash_key 98 (DiskGetBlockHash Hash HashQuark d)) (write_disk_index version d) db"

definition ReadBlockFileInfo :: "int \<Rightarrow> leveldb \<Rightarrow> CBlockFileInfo option" where
  "ReadBlockFileInfo file db = DbRead read_CBlockFileInfo (int_key 102 file) db"

definition WriteReindexing :: "bool \<Rightarrow> leveldb \<Rightarrow> leveldb" where
  "WriteReindexing fReindexing db = (if fReindexing then DbWrite [82] [49] db else DbErase [82] db)"

definition ReadReindexing :: "leveldb \<Rightarrow> bool" where
  "ReadReindexing db = DbExists [82] db"

definition ReadLastBlockFile :: "leveldb \<Rightarrow> int option" where
  "ReadLastBlockFile db = DbRead (read_int 4) [108] db"

text \<open>One batch: the files, the last of them, the entries of the index.\<close>

definition WriteBatchSync :: "(bytes \<Rightarrow> uint256) \<Rightarrow> (bytes \<Rightarrow> uint256) \<Rightarrow> int \<Rightarrow> (int \<times> CBlockFileInfo) list \<Rightarrow> int
    \<Rightarrow> CDiskBlockIndex list \<Rightarrow> leveldb \<Rightarrow> leveldb" where
  "WriteBatchSync Hash HashQuark version fileInfo nLastFile blockinfo db =
     WriteBatch (map (\<lambda>(file, info). Put (int_key 102 file) (write_CBlockFileInfo info)) fileInfo
       @ [Put [108] (write_int 4 nLastFile)]
       @ map (\<lambda>d. Put (hash_key 98 (DiskGetBlockHash Hash HashQuark d)) (write_disk_index version d)) blockinfo) db"

definition ReadTxIndex :: "uint256 \<Rightarrow> leveldb \<Rightarrow> CDiskTxPos option" where
  "ReadTxIndex txid db = DbRead read_CDiskTxPos (hash_key 116 txid) db"

definition WriteTxIndex :: "(uint256 \<times> CDiskTxPos) list \<Rightarrow> leveldb \<Rightarrow> leveldb" where
  "WriteTxIndex vect db = WriteBatch (map (\<lambda>(txid, pos). Put (hash_key 116 txid) (write_CDiskTxPos pos)) vect) db"

definition WriteFlag :: "bytes \<Rightarrow> bool \<Rightarrow> leveldb \<Rightarrow> leveldb" where
  "WriteFlag name fValue db = DbWrite (string_key 70 name) [if fValue then 49 else 48] db"

definition ReadFlag :: "bytes \<Rightarrow> leveldb \<Rightarrow> bool option" where
  "ReadFlag name db = map_option (\<lambda>ch :: byte. ch = 49) (DbRead (read_word 1) (string_key 70 name) db)"

definition WriteInt :: "bytes \<Rightarrow> int \<Rightarrow> leveldb \<Rightarrow> leveldb" where
  "WriteInt name i db = DbWrite (string_key 73 name) (write_int 4 i) db"

definition ReadInt :: "bytes \<Rightarrow> leveldb \<Rightarrow> int option" where
  "ReadInt name db = DbRead (read_int 4) (string_key 73 name) db"

section \<open>Key images\<close>

text \<open>
  The blocks that used a key image: the first under the image itself, the others under the image followed by a decimal number. A
  loop over the numbers ends because a database is finite.
\<close>

function to_string :: "nat \<Rightarrow> bytes" where
  "to_string n = (if n < 10 then [48 + of_nat n] else to_string (n div 10) @ [48 + of_nat (n mod 10)])"
  by pat_completeness auto
termination
  by (relation "measure id") auto

declare to_string.simps [simp del]

definition ReadKeyImage :: "bytes \<Rightarrow> leveldb \<Rightarrow> uint256 option" where
  "ReadKeyImage ki db = DbRead (read_limbs 8) (string_key 107 ki) db"

partial_function (option) read_images_loop :: "bytes \<Rightarrow> leveldb \<Rightarrow> nat \<Rightarrow> uint256 list \<Rightarrow> uint256 list option" where
  "read_images_loop ki db i bhs =
     (case ReadKeyImage (ki @ to_string i) db of
        None \<Rightarrow> Some bhs
      | Some bh \<Rightarrow> read_images_loop ki db (i + 1) (bhs @ [bh]))"

text \<open>The outer option is the end of the loop, the inner one the returned value.\<close>

definition ReadKeyImages :: "bytes \<Rightarrow> leveldb \<Rightarrow> uint256 list option option" where
  "ReadKeyImages ki db =
     (case ReadKeyImage ki db of
        None \<Rightarrow> Some None
      | Some bh \<Rightarrow> map_option Some (read_images_loop ki db 1 [bh]))"

partial_function (option) free_index_loop :: "bytes \<Rightarrow> leveldb \<Rightarrow> nat \<Rightarrow> nat option" where
  "free_index_loop ki db i =
     (case ReadKeyImage (ki @ to_string i) db of
        None \<Rightarrow> Some i
      | Some bh \<Rightarrow> free_index_loop ki db (i + 1))"

definition WriteKeyImage :: "bytes \<Rightarrow> uint256 \<Rightarrow> leveldb \<Rightarrow> leveldb option" where
  "WriteKeyImage ki bh db =
     (case ReadKeyImage ki db of
        None \<Rightarrow> Some (DbWrite (string_key 107 ki) (write_limbs bh) db)
      | Some blockHash \<Rightarrow>
          (case free_index_loop ki db 1 of
             None \<Rightarrow> None
           | Some i \<Rightarrow> Some (DbWrite (string_key 107 (ki @ to_string i)) (write_limbs bh) db)))"

section \<open>Keys are unambiguous\<close>

lemma hd_WriteCompactSize:
  "length (WriteCompactSize n) = (if hd (WriteCompactSize n) < 253 then 1 else if hd (WriteCompactSize n) = 253 then 3
     else if hd (WriteCompactSize n) = 254 then 5 else 9)"
proof -
  have w1: "write_word (Suc 0) (w :: byte) = [w]" for w by (simp add: write_word_def)
  show ?thesis
    using small_word_cases(3) [of n] by (auto simp: WriteCompactSize_def w1)
qed

lemma write_bytes_inj [simp]: "write_bytes v = write_bytes w \<longleftrightarrow> v = w"
proof
  assume eq: "write_bytes v = write_bytes w"
  let ?a = "WriteCompactSize (of_nat (length v))" and ?b = "WriteCompactSize (of_nat (length w))"
  have "?a @ v = ?b @ w" using eq by (simp add: write_bytes_def)
  moreover from this have "hd (?a @ v) = hd (?b @ w)" by simp
  then have "hd ?a = hd ?b" by simp
  then have "length ?a = length ?b" by (simp only: hd_WriteCompactSize)
  ultimately show "v = w" by simp
qed simp

lemma string_key_inj [simp]: "string_key ch v = string_key ch w \<longleftrightarrow> v = w"
  by (simp add: string_key_def)

definition decimal :: "bytes \<Rightarrow> nat" where
  "decimal bs = foldl (\<lambda>n ch. n * 10 + (unat ch - 48)) 0 bs"

lemma unat_digit: "d < 10 \<Longrightarrow> unat (48 + of_nat d :: byte) = 48 + d"
proof -
  assume "d < 10"
  then have "48 + d < 2 ^ 8" by simp
  then have "unat (of_nat (48 + d) :: byte) = 48 + d" by (simp only: unsigned_of_nat) (simp add: take_bit_nat_eq_self)
  then show ?thesis by simp
qed

lemma decimal_to_string: "decimal (to_string n) = n"
proof (induction n rule: to_string.induct)
  case (1 n)
  show ?case
  proof (cases "n < 10")
    case True
    then show ?thesis by (subst to_string.simps) (simp add: decimal_def unat_digit)
  next
    case False
    then have "decimal (to_string (n div 10)) = n div 10" by (rule 1)
    then show ?thesis using False by (subst to_string.simps) (simp add: decimal_def unat_digit)
  qed
qed

lemma to_string_inj [simp]: "to_string m = to_string n \<longleftrightarrow> m = n"
  using decimal_to_string by metis

lemma to_string_nonempty [simp]: "to_string n \<noteq> []"
  by (subst to_string.simps) simp

section \<open>The record of a key image\<close>

definition image_slot :: "bytes \<Rightarrow> nat \<Rightarrow> bytes" where
  "image_slot k i = (if i = 0 then k else k @ to_string i)"

lemma image_slot_inj:
  assumes "length k = length k'"
  shows "image_slot k i = image_slot k' j \<longleftrightarrow> k = k' \<and> i = j"
  using assms by (auto simp: image_slot_def)

definition image_at :: "leveldb \<Rightarrow> bytes \<Rightarrow> nat \<Rightarrow> uint256 option" where
  "image_at db k i = ReadKeyImage (image_slot k i) db"

definition image_end :: "leveldb \<Rightarrow> bytes \<Rightarrow> nat" where
  "image_end db k = (LEAST i. image_at db k i = None)"

definition image_log :: "leveldb \<Rightarrow> bytes \<Rightarrow> uint256 list" where
  "image_log db k = map (\<lambda>i. the (image_at db k i)) [0..<image_end db k]"

text \<open>No record of an image of length \<open>L\<close> comes after the end of its list.\<close>

definition image_log_ok :: "nat \<Rightarrow> leveldb \<Rightarrow> bool" where
  "image_log_ok L db \<longleftrightarrow> (\<forall>k i. length k = L \<and> image_at db k i \<noteq> None \<longrightarrow> i < image_end db k)"

lemma some_free:
  assumes "finite (dom db)"
  shows "\<exists>i. image_at db k i = None"
proof (rule ccontr)
  assume a: "\<not> ?thesis"
  have "string_key 107 (image_slot k i) \<in> dom db" for i
    using a by (auto simp: image_at_def ReadKeyImage_def DbRead_def dom_def split: option.splits)
  then have "range (\<lambda>i. string_key 107 (image_slot k i)) \<subseteq> dom db" by auto
  moreover have "inj (\<lambda>i. string_key 107 (image_slot k i))" by (rule injI) (simp add: image_slot_inj)
  ultimately have "finite (UNIV :: nat set)" using assms by (metis finite_imageD finite_subset)
  then show False by simp
qed

lemma image_end_facts:
  assumes "finite (dom db)"
  shows "image_at db k (image_end db k) = None" "i < image_end db k \<Longrightarrow> image_at db k i \<noteq> None"
  using LeastI_ex [OF some_free [OF assms, of k]] not_less_Least [of i "\<lambda>i. image_at db k i = None"]
  by (auto simp: image_end_def)

lemma read_images_loop_eq:
  assumes "finite (dom db)" "0 < i" "i \<le> image_end db k"
  shows "read_images_loop k db i bhs = Some (bhs @ map (\<lambda>i. the (image_at db k i)) [i..<image_end db k])"
  using assms(2,3)
proof (induction "image_end db k - i" arbitrary: i bhs)
  case 0
  then have "i = image_end db k" by simp
  then show ?case using image_end_facts(1) [OF assms(1), of k] 0
    by (subst read_images_loop.simps) (simp add: image_at_def image_slot_def)
next
  case (Suc d)
  then have lt: "i < image_end db k" by simp
  obtain bh where bh: "image_at db k i = Some bh" using image_end_facts(2) [OF assms(1) lt] by auto
  have "read_images_loop k db (i + 1) (bhs @ [bh]) = Some ((bhs @ [bh]) @ map (\<lambda>i. the (image_at db k i)) [i + 1..<image_end db k])"
    using Suc lt by (intro Suc.hyps(1)) simp_all
  moreover have "[i..<image_end db k] = i # [i + 1..<image_end db k]" using lt by (simp add: upt_conv_Cons)
  ultimately show ?case using bh Suc.prems
    by (subst read_images_loop.simps) (simp add: image_at_def image_slot_def)
qed

lemma free_index_loop_eq:
  assumes "finite (dom db)" "0 < i" "i \<le> image_end db k"
  shows "free_index_loop k db i = Some (image_end db k)"
  using assms(2,3)
proof (induction "image_end db k - i" arbitrary: i)
  case 0
  then have "i = image_end db k" by simp
  then show ?case using image_end_facts(1) [OF assms(1), of k] 0
    by (subst free_index_loop.simps) (simp add: image_at_def image_slot_def)
next
  case (Suc d)
  then have lt: "i < image_end db k" by simp
  obtain bh where bh: "image_at db k i = Some bh" using image_end_facts(2) [OF assms(1) lt] by auto
  have "free_index_loop k db (i + 1) = Some (image_end db k)"
    using Suc lt by (intro Suc.hyps(1)) simp_all
  then show ?case using bh Suc.prems
    by (subst free_index_loop.simps) (simp add: image_at_def image_slot_def)
qed

lemma ReadKeyImages_eq:
  assumes "finite (dom db)"
  shows "ReadKeyImages k db = Some (if image_end db k = 0 then None else Some (image_log db k))"
proof (cases "image_end db k = 0")
  case True
  then have "ReadKeyImage k db = None" using image_end_facts(1) [OF assms, of k] by (simp add: image_at_def image_slot_def)
  then show ?thesis using True by (simp add: ReadKeyImages_def)
next
  case False
  then obtain bh where bh: "image_at db k 0 = Some bh" using image_end_facts(2) [OF assms, of 0 k] by auto
  have "[0..<image_end db k] = 0 # [1..<image_end db k]" using False by (simp add: upt_conv_Cons)
  moreover have "read_images_loop k db 1 [bh] = Some ([bh] @ map (\<lambda>i. the (image_at db k i)) [1..<image_end db k])"
    using False by (intro read_images_loop_eq [OF assms]) simp_all
  ultimately show ?thesis
    using bh False by (simp add: ReadKeyImages_def image_log_def image_at_def image_slot_def)
qed

lemma WriteKeyImage_eq:
  assumes "finite (dom db)"
  shows "WriteKeyImage k bh db = Some (db(string_key 107 (image_slot k (image_end db k)) \<mapsto> write_limbs bh))"
proof (cases "image_end db k = 0")
  case True
  then have "ReadKeyImage k db = None" using image_end_facts(1) [OF assms, of k] by (simp add: image_at_def image_slot_def)
  then show ?thesis using True by (simp add: WriteKeyImage_def DbWrite_def WriteBatch_def image_slot_def)
next
  case False
  then obtain b0 where b0: "image_at db k 0 = Some b0" using image_end_facts(2) [OF assms, of 0 k] by auto
  have "free_index_loop k db 1 = Some (image_end db k)" using False by (intro free_index_loop_eq [OF assms]) simp_all
  then show ?thesis
    using b0 False by (simp add: WriteKeyImage_def DbWrite_def WriteBatch_def image_at_def image_slot_def)
qed

text \<open>
  Images that are not all of one length keep apart as long as the numbers behind them are small: the slots of the images in
  \<open>K\<close> with numbers in \<open>I\<close> are different keys. Then no record of such a slot comes after the end of its list.
\<close>

definition slots_apart :: "bytes set \<Rightarrow> nat set \<Rightarrow> bool" where
  "slots_apart K I \<longleftrightarrow> (\<forall>k\<in>K. \<forall>k'\<in>K. \<forall>i\<in>I. \<forall>j\<in>I. image_slot k i = image_slot k' j \<longrightarrow> k = k' \<and> i = j)"

definition logs_ok :: "bytes set \<Rightarrow> nat set \<Rightarrow> leveldb \<Rightarrow> bool" where
  "logs_ok K I db \<longleftrightarrow> (\<forall>k\<in>K. \<forall>i\<in>I. image_at db k i \<noteq> None \<longrightarrow> i < image_end db k)"

lemma slots_apart_length: "slots_apart {k. length k = L} UNIV"
  using image_slot_inj by (simp add: slots_apart_def)

lemma image_log_ok_logs: "image_log_ok L db \<longleftrightarrow> logs_ok {k. length k = L} UNIV db"
  by (auto simp: image_log_ok_def logs_ok_def)

lemma image_at_write:
  assumes "length bh = 8" "slots_apart K I" "k \<in> K" "k' \<in> K" "n \<in> I" "i \<in> I"
  shows "image_at (db(string_key 107 (image_slot k n) \<mapsto> write_limbs bh)) k' i = (if k' = k \<and> i = n then Some bh else image_at db k' i)"
proof -
  have "image_slot k' i = image_slot k n \<longleftrightarrow> k' = k \<and> i = n" using assms(2-6) unfolding slots_apart_def by blast
  then show ?thesis using read_limbs_write [OF assms(1), of "[]"] by (simp add: image_at_def ReadKeyImage_def DbRead_def)
qed

lemma image_end_unique: "(\<And>i. i < n \<Longrightarrow> image_at db k i \<noteq> None) \<Longrightarrow> image_at db k n = None \<Longrightarrow> image_end db k = n"
  unfolding image_end_def by (rule Least_equality) (simp, metis not_less)

lemma image_log_written:
  assumes fin: "finite (dom db)" and ok: "logs_ok K I db" and K: "slots_apart K I" "k \<in> K" and bh: "length bh = 8"
    and ends: "\<And>k'. k' \<in> K \<Longrightarrow> {..image_end db k' + 1} \<subseteq> I"
  defines "db' \<equiv> db(string_key 107 (image_slot k (image_end db k)) \<mapsto> write_limbs bh)"
  shows "image_end db' k = image_end db k + 1" "image_log db' k = image_log db k @ [bh]"
    and "k' \<in> K \<Longrightarrow> k' \<noteq> k \<Longrightarrow> image_end db' k' = image_end db k' \<and> image_log db' k' = image_log db k'"
    and "logs_ok K I db'"
proof -
  let ?n = "image_end db k"
  have I: "i \<in> I" if "k' \<in> K" "i \<le> image_end db k' + 1" for k' i using ends [OF that(1)] that(2) by auto
  have at: "image_at db' k' i = (if k' = k \<and> i = ?n then Some bh else image_at db k' i)" if "k' \<in> K" "i \<in> I" for k' i
    unfolding db'_def using that K(2) I by (intro image_at_write [OF bh K(1)]) simp_all
  have past: "image_at db k i = None" if "?n < i" "i \<in> I" for i
    using ok K(2) that unfolding logs_ok_def by (metis less_asym)
  show e: "image_end db' k = ?n + 1"
    using image_end_facts(2) [OF fin, where k = k] past I [OF K(2)] by (intro image_end_unique) (auto simp: at [OF K(2)] less_Suc_eq)
  show "image_log db' k = image_log db k @ [bh]"
    unfolding image_log_def e using I [OF K(2)] by (simp add: at [OF K(2)])
  show o: "image_end db' k' = image_end db k' \<and> image_log db' k' = image_log db k'" if k': "k' \<in> K" "k' \<noteq> k" for k'
  proof -
    have same: "image_at db' k' i = image_at db k' i" if "i \<le> image_end db k'" for i using at [OF k'(1)] k' I [OF k'(1)] that by simp
    then have "image_end db' k' = image_end db k'"
      using image_end_facts [OF fin, where k = k'] by (intro image_end_unique) simp_all
    then show ?thesis using same by (simp add: image_log_def)
  qed
  show "logs_ok K I db'"
    unfolding logs_ok_def
  proof (intro ballI impI)
    fix k' i assume a: "k' \<in> K" "i \<in> I" "image_at db' k' i \<noteq> None"
    show "i < image_end db' k'"
    proof (cases "k' = k")
      case True
      then show ?thesis using a at [OF K(2) a(2)] past e by (cases i ?n rule: linorder_cases) auto
    next
      case False
      then show ?thesis using a at o ok unfolding logs_ok_def by simp
    qed
  qed
qed

lemma image_log_write:
  assumes fin: "finite (dom db)" and ok: "image_log_ok L db" and k: "length k = L" "length bh = 8"
  defines "db' \<equiv> db(string_key 107 (image_slot k (image_end db k)) \<mapsto> write_limbs bh)"
  shows "image_end db' k = image_end db k + 1" "image_log db' k = image_log db k @ [bh]"
    and "length k' = L \<Longrightarrow> k' \<noteq> k \<Longrightarrow> image_end db' k' = image_end db k' \<and> image_log db' k' = image_log db k'"
    and "image_log_ok L db'"
  using image_log_written [OF fin ok [unfolded image_log_ok_logs] slots_apart_length _ k(2), where k = k] k(1)
  by (simp_all add: db'_def image_log_ok_logs)

text \<open>A list has no more entries than the database has records.\<close>

lemma image_end_le_card:
  assumes "finite (dom db)"
  shows "image_end db k \<le> card (dom db)"
proof -
  have "inj_on (\<lambda>i. string_key 107 (image_slot k i)) {..<image_end db k}" by (rule inj_onI) (simp add: image_slot_inj)
  moreover have "string_key 107 (image_slot k i) \<in> dom db" if "i < image_end db k" for i
    using image_end_facts(2) [OF assms that]
    by (cases "db (string_key 107 (image_slot k i))") (auto simp: image_at_def ReadKeyImage_def DbRead_def)
  then have "(\<lambda>i. string_key 107 (image_slot k i)) ` {..<image_end db k} \<subseteq> dom db" by auto
  ultimately have "card {..<image_end db k} \<le> card (dom db)" by (rule card_inj_on_le [OF _ _ assms])
  then show ?thesis by simp
qed

text \<open>The numbers of an \<open>int\<close> have at most ten digits, which no two lengths of a key image differ by.\<close>

lemma length_to_string: "n < 10 ^ Suc d \<Longrightarrow> length (to_string n) \<le> Suc d"
proof (induction d arbitrary: n)
  case 0
  then show ?case by (subst to_string.simps) simp
next
  case (Suc d)
  then have "n div 10 < 10 ^ Suc d" by (simp add: less_mult_imp_div_less)
  then show ?case using Suc.IH [of "n div 10"] by (subst to_string.simps) simp
qed

definition KeyImages :: "bytes set" where
  "KeyImages = {k. length k \<in> {0, 66, 130}}"

lemma slots_apart_images: "slots_apart KeyImages {..<2 ^ 31}"
proof -
  have len: "length k \<le> length (image_slot k i) \<and> length (image_slot k i) \<le> length k + 10" if "i < 2 ^ 31" for k i
    using length_to_string [of i 9] that by (simp add: image_slot_def)
  have "length k = length k'"
    if "k \<in> KeyImages" "k' \<in> KeyImages" "i < 2 ^ 31" "j < 2 ^ 31" "image_slot k i = image_slot k' j" for k k' i j
    using len [OF that(3), of k] len [OF that(4), of k'] that(1,2,5) by (auto simp: KeyImages_def)
  then show ?thesis using image_slot_inj unfolding slots_apart_def by blast
qed

section \<open>Properties\<close>

text \<open>
  C17: recording the use of a key image ends and appends the block to the blocks of that key image, whatever is
  recorded already; the lists of all other key images of that length stay as they are.
\<close>

theorem key_image_log:
  assumes "finite (dom db)" "image_log_ok L db" "length k = L" "length bh = 8"
  shows "case WriteKeyImage k bh db of None \<Rightarrow> False
    | Some db' \<Rightarrow> finite (dom db') \<and> image_log_ok L db'
        \<and> ReadKeyImages k db' = Some (Some ((case ReadKeyImages k db of Some (Some bhs) \<Rightarrow> bhs | _ \<Rightarrow> []) @ [bh]))
        \<and> (\<forall>k'. length k' = L \<and> k' \<noteq> k \<longrightarrow> ReadKeyImages k' db' = ReadKeyImages k' db)"
proof -
  let ?db' = "db(string_key 107 (image_slot k (image_end db k)) \<mapsto> write_limbs bh)"
  have fin: "finite (dom ?db')" using assms(1) by simp
  note w = image_log_write [OF assms]
  have "image_log db k = (case ReadKeyImages k db of Some (Some bhs) \<Rightarrow> bhs | _ \<Rightarrow> [])"
    using ReadKeyImages_eq [OF assms(1), of k] by (simp add: image_log_def)
  moreover have "ReadKeyImages k' ?db' = ReadKeyImages k' db" if "length k' = L" "k' \<noteq> k" for k'
    using ReadKeyImages_eq [OF fin, of k'] ReadKeyImages_eq [OF assms(1), of k'] w(3) [OF that] by simp
  ultimately show ?thesis
    using WriteKeyImage_eq [OF assms(1)] ReadKeyImages_eq [OF fin, of k] w(1,2,4) fin by simp
qed

text \<open>A key image that is used in a first block, and then in a second one.\<close>

theorem key_image_log_witness:
  "\<exists>db1 db2. WriteKeyImage [97] (replicate 8 1) Map.empty = Some db1 \<and> WriteKeyImage [97] (replicate 8 2) db1 = Some db2
    \<and> ReadKeyImages [97] db2 = Some (Some [replicate 8 1, replicate 8 2])"
proof -
  have none: "image_at Map.empty k i = None" for k i by (simp add: image_at_def ReadKeyImage_def DbRead_def)
  have "image_log_ok 1 Map.empty" "finite (dom (Map.empty :: leveldb))" by (simp_all add: image_log_ok_def none)
  note first = key_image_log [OF this(2,1), of "[97]" "replicate 8 1", simplified]
  have "ReadKeyImages [97] Map.empty = Some None" by (simp add: ReadKeyImages_def ReadKeyImage_def DbRead_def)
  then obtain db1 where db1: "WriteKeyImage [97] (replicate 8 1) Map.empty = Some db1" "finite (dom db1)" "image_log_ok 1 db1"
      "ReadKeyImages [97] db1 = Some (Some [replicate 8 1])"
    using first by (auto split: option.splits)
  have "length [97 :: byte] = 1" "length (replicate 8 2 :: uint256) = 8" by simp_all
  note second = key_image_log [OF db1(2,3) this]
  then obtain db2 where "WriteKeyImage [97] (replicate 8 2) db1 = Some db2"
      "ReadKeyImages [97] db2 = Some (Some ([replicate 8 1] @ [replicate 8 2]))"
    using db1(4) by (auto split: option.splits)
  then show ?thesis using db1(1) by auto
qed

end
