(* ===== verification/Key_Images.thy ===== *)
theory Key_Images
  imports Block_DB Index_Steps
begin

text \<open>
  The double-spend check of \<open>main.cpp\<close>: every input shows a key image, the block database keeps for each key image the
  blocks that used it, and a block is refused when one of its key images was used by a block before it. The blocks of
  other forks do not count, so a key image may be on record in several blocks.
\<close>

section \<open>Checks against the record\<close>

definition GetHex :: "CPubKey \<Rightarrow> bytes" where
  "GetHex key = map of_char (HexStr (rev (KeyBytes key)))"

definition read_images :: "leveldb \<Rightarrow> bytes \<Rightarrow> ('s, uint256 list option) step" where
  "read_images db kiHex = (case ReadKeyImages kiHex db of None \<Rightarrow> fail Diverges | Some r \<Rightarrow> ret r)"

text \<open>\<open>pindex && chainActive.Contains(pindex)\<close> for the entry of a hash.\<close>

definition in_main_chain :: "'b node_scheme \<Rightarrow> uint256 \<Rightarrow> bool" where
  "in_main_chain s bh = (case mapBlockIndex s bh of Some (Some p) \<Rightarrow> Contains (heap s) (chainActive s) p | _ \<Rightarrow> False)"

fun image_spent_loop :: "uint256 list \<Rightarrow> uint256 \<Rightarrow> ('b node_scheme, bool) step" where
  "image_spent_loop [] againsHash = ret False"
| "image_spent_loop (bh # bhs) againsHash = (\<lambda>s.
     if againsHash = uint256_0
     then if in_main_chain s bh then ret True s else image_spent_loop bhs againsHash s
     else if bh = againsHash then ret False s
     else if \<not> block_count s bh then image_spent_loop bhs againsHash s
     else bind (block_at againsHash) (\<lambda>e.
          bind (block_at bh) (\<lambda>b.
          bind (deref b) (\<lambda>bhIndex.
          bind (deref e) (\<lambda>pindex s.
            if GetAncestor (heap s) pindex (nHeight (heap s bhIndex)) = Some bhIndex then ret True s
            else image_spent_loop bhs againsHash s)))) s)"

definition IsKeyImageSpend1 :: "leveldb \<Rightarrow> bytes \<Rightarrow> uint256 \<Rightarrow> ('b node_scheme, bool) step" where
  "IsKeyImageSpend1 db kiHex againsHash =
     (if kiHex = [] then ret False
      else bind (read_images db kiHex) (\<lambda>r. case r of
          None \<Rightarrow> ret False
        | Some bhs \<Rightarrow> if bhs = [] then ret False else image_spent_loop bhs againsHash))"

text \<open>The result is \<open>None\<close> or the number of confirmations; \<open>confirmations\<close> is 0 otherwise.\<close>

definition confirmations_of :: "'b node_scheme \<Rightarrow> uint256 \<Rightarrow> int" where
  "confirmations_of s bh = (case mapBlockIndex s bh of
     Some (Some p) \<Rightarrow> 1 + Height (chainActive s) - nHeight (heap s p) | _ \<Rightarrow> 0)"

definition CheckKeyImageSpendInMainChain :: "leveldb \<Rightarrow> bytes \<Rightarrow> ('b node_scheme, bool \<times> int) step" where
  "CheckKeyImageSpendInMainChain db kiHex =
     (if kiHex = [] then ret (False, 0)
      else bind (read_images db kiHex) (\<lambda>r s. case r of
          None \<Rightarrow> ret (False, 0) s
        | Some bhs \<Rightarrow>
            (case find (in_main_chain s) bhs of
               None \<Rightarrow> ret (False, 0) s
             | Some bh \<Rightarrow> ret (True, confirmations_of s bh) s)))"

section \<open>The key images of a block\<close>

definition block_images :: "CBlock \<Rightarrow> bytes list" where
  "block_images block =
     (if IsPoABlockByVersion block then []
      else concat (map (\<lambda>tx. if IsCoinBase tx then [] else map (\<lambda>txin. GetHex (keyImage txin)) (vin tx)) (vtx block)))"

text \<open>
  The part of \<open>ConnectBlock\<close> on key images: each one is checked and recorded, in the order of the inputs. The result
  says whether all of them passed; what was recorded before a failure stays in the database.
\<close>

fun connect_images :: "uint256 \<Rightarrow> bytes list \<Rightarrow> leveldb \<Rightarrow> ('b node_scheme, bool \<times> leveldb) step" where
  "connect_images bh [] db = ret (True, db)"
| "connect_images bh (kh # khs) db =
     bind (IsKeyImageSpend1 db kh bh) (\<lambda>spent.
       if spent then ret (False, db)
       else case WriteKeyImage kh bh db of
         None \<Rightarrow> fail Diverges
       | Some db' \<Rightarrow> connect_images bh khs db')"

section \<open>Blocks above others\<close>

text \<open>The block named \<open>a\<close> is a proper ancestor of the block named \<open>b\<close>.\<close>

definition above :: "'b node_scheme \<Rightarrow> uint256 \<Rightarrow> uint256 \<Rightarrow> bool" where
  "above s a b \<longleftrightarrow> (\<exists>p q. mapBlockIndex s a = Some (Some q) \<and> mapBlockIndex s b = Some (Some p) \<and> q \<noteq> p
     \<and> height_of (heap s) q \<le> height_of (heap s) p \<and> anc (heap s) p (height_of (heap s) q) = Some q)"

lemma GetAncestor_above:
  assumes ok: "index_ok s" and b: "mapBlockIndex s b = Some (Some p)" and a: "mapBlockIndex s a = Some (Some q)" and "a \<noteq> b"
  shows "GetAncestor (heap s) p (nHeight (heap s q)) = Some q \<longleftrightarrow> above s a b"
proof -
  have t: "block_tree (heap s) {..<next_free s}" "p \<in> {..<next_free s}" "q \<in> {..<next_free s}"
    using ok a b by (auto simp: index_ok_def map_ok_def)
  have ne: "p \<noteq> q" using ok a b assms(4) by (auto simp: index_ok_def map_ok_def)
  note h = int_height [OF t(1,2)] int_height [OF t(1,3)]
  show ?thesis
  proof (cases "height_of (heap s) q \<le> height_of (heap s) p")
    case True
    then show ?thesis using GetAncestor_anc [OF t(1,2) True] h(2) a b ne by (auto simp: above_def)
  next
    case False
    then show ?thesis using a b h by (auto simp: above_def GetAncestor_def)
  qed
qed

text \<open>Against a block: the record up to the block itself is searched for a proper ancestor.\<close>

lemma image_spent_loop_eq:
  assumes "index_ok s" "known s bh" "\<forall>x\<in>set bhs. known s x" "bh \<noteq> uint256_0"
  shows "image_spent_loop bhs bh s = Inr (\<exists>a\<in>set (takeWhile (\<lambda>x. x \<noteq> bh) bhs). above s a bh, s)"
  using assms(3)
proof (induction bhs)
  case (Cons x bhs)
  obtain p q where e: "mapBlockIndex s bh = Some (Some p)" "mapBlockIndex s x = Some (Some q)"
    using assms(2) Cons.prems by (auto simp: known_def)
  show ?case
  proof (cases "x = bh")
    case False
    then show ?thesis
      using GetAncestor_above [OF assms(1) e False] assms(4) Cons e
      by (simp add: block_count_def bind_app deref_app block_at_known)
  qed (simp add: assms(4))
qed simp

lemma image_spent_null: "image_spent_loop bhs uint256_0 s = Inr (\<exists>x\<in>set bhs. in_main_chain s x, s)"
  by (induction bhs) simp_all

lemma IsKeyImageSpend1_eq:
  assumes "index_ok s" "finite (dom db)" "known s bh" "\<forall>x\<in>set (image_log db k). known s x" "bh \<noteq> uint256_0" "k \<noteq> []"
  shows "IsKeyImageSpend1 db k bh s = Inr (\<exists>a\<in>set (takeWhile (\<lambda>x. x \<noteq> bh) (image_log db k)). above s a bh, s)"
  using image_spent_loop_eq [OF assms(1,3,4,5)] ReadKeyImages_eq [OF assms(2), of k] assms(6)
  by (simp add: IsKeyImageSpend1_def read_images_def bind_app image_log_def)

section \<open>Entries stay where they are\<close>

definition entries_kept :: "nat \<Rightarrow> 'b index_state_scheme \<Rightarrow> 'b index_state_scheme \<Rightarrow> bool" where
  "entries_kept n s s' \<longleftrightarrow> (n \<le> next_free s \<longrightarrow> n \<le> next_free s' \<and> (\<forall>x<n. core (heap s' x) = core (heap s x)))"

interpretation kept: step_frame "entries_kept n" for n :: nat
  by unfold_locales (auto simp: entries_kept_def)

lemma frame_kept: "index_frame {} X s s' \<Longrightarrow> entries_kept n s s'"
  by (simp add: index_frame_def entries_kept_def)

lemma frame_ends: "ends_in (index_frame {} X) s r \<Longrightarrow> ends_in (entries_kept n) s r"
  unfolding ends_in_def using frame_kept by blast

lemma set_entry_kept: "(\<And>b. core (f b) = core b) \<Longrightarrow> ends_in (entries_kept n) s (set_entry p f s)"
  by (auto simp: ends_in_def set_entry_def entries_kept_def)

lemma finish_entry_kept: "ends_in (entries_kept n) s (finish_entry p s)"
  unfolding finish_entry_def
  by (intro kept.frame_rules frame_ends [OF work_entry_frame] frame_ends [OF point_back_frame] set_entry_kept)
    (auto simp: ends_in_def entries_kept_def)

lemma AddToBlockIndex_kept: "ends_in (entries_kept n) s (AddToBlockIndex E block s)"
  unfolding ends_in_def
proof (intro allI impI)
  fix r s' assume add: "AddToBlockIndex E block s = Inr (r, s')"
  show "entries_kept n s s'"
  proof (cases "mapBlockIndex s (BlockHash E block)")
    case (Some e)
    then show ?thesis using add by (simp add: AddToBlockIndex_def entries_kept_def)
  next
    case None
    define p s1 where "p = next_free s" and "s1 = snd (projr (new_entry (BlockHash E block) block s))"
    have s1: "new_entry (BlockHash E block) block s = Inr (p, s1)" "next_free s1 = Suc p" "\<And>x. x \<noteq> p \<Longrightarrow> heap s1 x = heap s x"
      by (simp_all add: p_def s1_def new_entry_def Let_def)
    obtain s2 where s2: "link_entry E (BlockHash E block) block p s1 = Inr ((), s2)" "finish_entry p s2 = Inr ((), s')"
      using add None s1(1) by (auto simp: AddToBlockIndex_def bind_Inr Let_def)
    have "index_frame {p} {} s1 s2" by (rule ends_inD [OF link_entry_frame s2(1)])
    then show ?thesis
      using ends_inD [OF finish_entry_kept s2(2), of n] s1(2,3) by (auto simp: entries_kept_def index_frame_def p_def)
  qed
qed

text \<open>A new header is placed over its predecessor.\<close>

lemma AddToBlockIndex_placed:
  assumes ok: "index_ok s" and add: "AddToBlockIndex E block s = Inr (r, s')" and h: "BlockHash E block \<noteq> hashPrevBlock block"
    and new: "mapBlockIndex s (BlockHash E block) = None" and z: "mapBlockIndex s (hashPrevBlock block) = Some (Some z)"
  shows "pprev (heap s' (next_free s)) = Some z" "mapBlockIndex s' (BlockHash E block) = Some (Some (next_free s))"
proof -
  define p s1 where "p = next_free s" and "s1 = snd (projr (new_entry (BlockHash E block) block s))"
  have s1: "new_entry (BlockHash E block) block s = Inr (p, s1)" "next_free s1 = Suc p"
    "mapBlockIndex s1 = (mapBlockIndex s)(BlockHash E block \<mapsto> Some p)"
    "heap s1 = (heap s)(p := (IndexOfBlock block)\<lparr>phashBlock := BlockHash E block\<rparr>)"
    by (simp_all add: p_def s1_def new_entry_def Let_def)
  obtain s2 where s2: "link_entry E (BlockHash E block) block p s1 = Inr ((), s2)" "finish_entry p s2 = Inr ((), s')"
    using add new s1(1) by (auto simp: AddToBlockIndex_def bind_Inr Let_def)
  have "block_tree (heap s) {..<p}" "z < p" using ok z by (auto simp: index_ok_def map_ok_def p_def)
  then have t: "block_tree (heap s1) {..<p}" "z < p"
    using block_tree_core [of "heap s" "{..<p}" "heap s1"] by (simp_all add: s1(4))
  have z1: "mapBlockIndex s1 (hashPrevBlock block) = Some (Some z)" using z h by (simp add: s1(3))
  note place = link_entry_place [OF t(1) z1 t(2)]
  let ?s3 = "s1\<lparr>heap := BuildSkip ((heap s1)(p := (heap s1 p)\<lparr>pprev := Some z, nHeight := nHeight (heap s1 z) + 1\<rparr>)) p\<rparr>"
  have f: "index_frame {} {} ?s3 s2"
    by (rule ends_inD [OF stake_entry_frame s2(1) [unfolded place(1)]])
  then have "core (heap s2 p) = core (heap ?s3 p)" "next_free s2 = Suc p" using s1(2) by (simp_all add: index_frame_def)
  moreover from this have "core (heap s' p) = core (heap s2 p)"
    using ends_inD [OF finish_entry_kept s2(2), of "Suc p"] by (simp add: entries_kept_def)
  ultimately have c: "core (heap s' p) = core (heap ?s3 p)" by simp
  show "pprev (heap s' (next_free s)) = Some z" using core_fields(2) [OF c] place(3) by (simp add: p_def)
  have "phashBlock (heap s' p) = BlockHash E block" using core_fields(1) [OF c] place(4) [of p] by (simp add: s1(4))
  moreover have "p < next_free s'"
    using ends_inD [OF finish_entry_kept s2(2), of "Suc p"] f s1(2) by (simp add: entries_kept_def index_frame_def)
  moreover have "map_ok s'" using AddToBlockIndex_ok [OF ok add h] by (simp add: index_ok_def)
  ultimately show "mapBlockIndex s' (BlockHash E block) = Some (Some (next_free s))" by (simp add: map_ok_def p_def)
qed

lemma ends_in_sum:
  "(\<And>x. z = Inl x \<Longrightarrow> ends_in R s (m x s)) \<Longrightarrow> (\<And>x. z = Inr x \<Longrightarrow> ends_in R s (k x s)) \<Longrightarrow>
     ends_in R s ((case z of Inl x \<Rightarrow> m x | Inr x \<Rightarrow> k x) s)"
  by (simp split: sum.split)

lemma same_entries_kept: "ends_in (entries_kept n) s (Inr (x, s\<lparr>mapBlockIndex := m\<rparr>))"
  by (simp add: ends_in_def entries_kept_def)

lemma AcceptBlockHeader_kept: "ends_in (entries_kept n) s (AcceptBlockHeader E block v s)"
  unfolding AcceptBlockHeader_def Let_def
  by (intro kept.frame_rules ends_in_sum same_entries_kept AddToBlockIndex_kept frame_ends [OF ContextualCheckBlockHeader_state]
      frame_ends [OF find_prev_state] frame_ends [OF ends_in_index_frame [OF CheckBlockHeader_grows]])

lemma index_step_kept: "index_step E s s' \<Longrightarrow> entries_kept n s s'"
proof (induction rule: index_step.cases)
  case (lookup h s p s')
  then show ?case using ends_inD [OF frame_ends [OF ends_in_index_frame [OF block_at_ends]]] by blast
next
  case (checked block pow root sig v s r s')
  then show ?case using ends_inD [OF frame_ends [OF ends_in_index_frame [OF CheckBlock_grows]]] by blast
next
  case (worked block e s ok s')
  then show ?case using ends_inD [OF frame_ends [OF CheckWork_frame]] by blast
next
  case (audited block s ok s')
  then show ?case using frame_kept [OF audit_frame_index_frame] ends_inD [OF CheckPoAContainRecentHash_frame] by blast
next
  case (added block s e s')
  then show ?case using ends_inD [OF AddToBlockIndex_kept] by blast
next
  case (accepted block v s r s')
  then show ?case using ends_inD [OF AcceptBlockHeader_kept] by blast
next
  case (new_tip s h t c)
  then show ?case by (simp add: entries_kept_def)
qed

lemma kept_known:
  assumes "index_ok s" "index_ok s'" "entries_kept (next_free s) s s'" "mapBlockIndex s h = Some (Some p)"
  shows "mapBlockIndex s' h = Some (Some p)"
  using assms by (auto simp: index_ok_def map_ok_def entries_kept_def core_def)

lemma kept_above:
  assumes ok: "index_ok s" "index_ok s'" and k: "entries_kept (next_free s) s s'" and b: "known s b"
  shows "above s' a b \<longleftrightarrow> above s a b"
proof -
  obtain p where p: "mapBlockIndex s b = Some (Some p)" using b by (auto simp: known_def)
  have p': "mapBlockIndex s' b = Some (Some p)" by (rule kept_known [OF ok k p])
  have t: "block_tree (heap s) {..<next_free s}" "p \<in> {..<next_free s}"
    using ok p by (auto simp: index_ok_def map_ok_def)
  have c: "core (heap s' x) = core (heap s x)" if "x \<in> {..<next_free s}" for x using k that by (simp add: entries_kept_def)
  have n: "nth_parent (heap s') i (Some p) = nth_parent (heap s) i (Some p)" for i
    by (rule nth_parent_frame [OF t(1) _ t(2)]) (use core_fields(2) [OF c] in simp)
  have h: "height_of (heap s') x = height_of (heap s) x" if "x \<in> {..<next_free s}" for x
    using core_fields(3) [OF c [OF that]] by (simp add: height_of_def)
  have same: "above s' a b \<longleftrightarrow> above s a b" if q: "mapBlockIndex s a = Some (Some q)" for q
  proof -
    have "q \<in> {..<next_free s}" using ok(1) q by (auto simp: index_ok_def map_ok_def)
    then show ?thesis using n h [OF t(2)] h [of q] p p' q kept_known [OF ok k q] by (simp add: above_def anc_def)
  qed
  have "\<exists>q. mapBlockIndex s a = Some (Some q)" if ab: "above s' a b"
  proof -
    obtain q where q: "mapBlockIndex s' a = Some (Some q)" "height_of (heap s') q \<le> height_of (heap s') p"
        "anc (heap s') p (height_of (heap s') q) = Some q"
      using ab p' by (auto simp: above_def)
    have "height_of (heap s') q \<le> height_of (heap s) p" using q(2) h [OF t(2)] by simp
    then obtain r where "anc (heap s) p (height_of (heap s') q) = Some r" "r \<in> {..<next_free s}"
      using anc_in_tree [OF t] by blast
    then have "q \<in> {..<next_free s}" using q(3) n h [OF t(2)] by (simp add: anc_def)
    moreover from this have "phashBlock (heap s q) = a"
      using core_fields(1) [OF c] q(1) ok(2) by (simp add: index_ok_def map_ok_def)
    ultimately have "mapBlockIndex s a = Some (Some q)" using ok(1) by (simp add: index_ok_def map_ok_def)
    then show ?thesis ..
  qed
  then show ?thesis using same by (auto simp: above_def)
qed

section \<open>Connecting blocks in any order\<close>

text \<open>
  A state is the index, the block database and the blocks of which all key images passed. The steps: the index changes;
  another record of the database is written; a block whose proper ancestors have passed is tried, and the check of its key
  images is left at any point (for another error of the block, for one). \<open>B\<close> maps a hash to the block it names.
\<close>

type_synonym image_state = "index_state \<times> leveldb \<times> uint256 set"

text \<open>What is asked of a block before its key images are checked.\<close>

definition may_connect :: "index_state \<Rightarrow> uint256 set \<Rightarrow> uint256 \<Rightarrow> bool" where
  "may_connect s passed bh \<longleftrightarrow> known s bh \<and> length bh = 8 \<and> bh \<noteq> uint256_0 \<and> (\<forall>a. above s a bh \<longrightarrow> a \<in> passed)"

text \<open>
  The numbers behind a key image are of type \<open>int\<close>: \<open>has_room\<close> says that they do not overflow when \<open>n\<close> records are added. A key that
  was read short of the length its first byte announces has bytes that were never written; \<open>whole_images\<close> says that no key image of
  a block is such a key. Its hexadecimal form then has 66 or 130 characters, or none when the key is invalid.
\<close>

definition has_room :: "leveldb \<Rightarrow> nat \<Rightarrow> bool" where
  "has_room db n \<longleftrightarrow> card (dom db) + n < 2 ^ 31"

definition whole_images :: "(uint256 \<Rightarrow> CBlock) \<Rightarrow> bool" where
  "whole_images B \<longleftrightarrow> (\<forall>b. \<forall>tx\<in>set (vtx (B b)). \<forall>txin\<in>set (vin tx). PubKeySize (keyImage txin) \<le> length (keyImage txin))"

inductive image_step :: "'e block_env_scheme \<Rightarrow> (uint256 \<Rightarrow> CBlock) \<Rightarrow> image_state \<Rightarrow> image_state \<Rightarrow> bool" for E B where
  index: "index_step E s s' \<Longrightarrow> image_step E B (s, db, passed) (s', db, passed)"
| other_record: "\<forall>k. db' (107 # k) = db (107 # k) \<Longrightarrow> finite (dom db') \<Longrightarrow> image_step E B (s, db, passed) (s, db', passed)"
| connect: "may_connect s passed bh \<Longrightarrow> has_room db (length (block_images (B bh))) \<Longrightarrow>
     connect_images bh (take n (block_images (B bh))) db s = Inr ((ok, db'), s') \<Longrightarrow>
     image_step E B (s, db, passed)
       (s', db', if ok \<and> length (block_images (B bh)) \<le> n then insert bh passed else passed)"

inductive image_states :: "'e block_env_scheme \<Rightarrow> (uint256 \<Rightarrow> CBlock) \<Rightarrow> image_state \<Rightarrow> bool" for E B where
  start: "image_states E B (empty_index, Map.empty, {})"
| step: "image_states E B m \<Longrightarrow> image_step E B m m' \<Longrightarrow> image_states E B m'"

lemma length_HexStr: "length (HexStr bs) = 2 * length bs"
  by (induction bs) (simp_all add: HexStr_def)

lemma GetHex_image: "PubKeySize key \<le> length key \<Longrightarrow> GetHex key \<in> KeyImages"
  by (auto simp: KeyImages_def GetHex_def KeyBytes_def PubKeySize_def GetLen_def length_HexStr length_0_conv [symmetric] simp del: length_0_conv)

lemma whole_images_in: "whole_images B \<Longrightarrow> k \<in> set (block_images (B b)) \<Longrightarrow> k \<in> KeyImages"
  using GetHex_image by (fastforce simp: whole_images_def block_images_def split: if_splits)

text \<open>
  The invariant: every block that has passed is on record for each of its key images, every block on record shows the key image,
  and no proper ancestor of a block on record is on record with it, unless the image is the empty one of an invalid key.
\<close>

definition record_ok :: "(uint256 \<Rightarrow> CBlock) \<Rightarrow> index_state \<Rightarrow> leveldb \<Rightarrow> uint256 set \<Rightarrow> bool" where
  "record_ok B s db passed \<longleftrightarrow> index_ok s \<and> finite (dom db) \<and> logs_ok KeyImages {..<2 ^ 31} db
     \<and> (\<forall>b\<in>passed. known s b \<and> (\<forall>k\<in>set (block_images (B b)). b \<in> set (image_log db k)))
     \<and> (\<forall>k\<in>KeyImages. \<forall>b\<in>set (image_log db k). known s b \<and> k \<in> set (block_images (B b))
          \<and> (\<forall>a. k \<noteq> [] \<longrightarrow> above s a b \<longrightarrow> a \<in> passed \<and> a \<notin> set (image_log db k)))"

lemma record_okD:
  assumes "record_ok B s db passed"
  shows "index_ok s" "finite (dom db)" "logs_ok KeyImages {..<2 ^ 31} db" "b \<in> passed \<Longrightarrow> known s b"
    and "b \<in> passed \<Longrightarrow> k \<in> set (block_images (B b)) \<Longrightarrow> b \<in> set (image_log db k)"
    and "k \<in> KeyImages \<Longrightarrow> b \<in> set (image_log db k) \<Longrightarrow> known s b"
    and "k \<in> KeyImages \<Longrightarrow> b \<in> set (image_log db k) \<Longrightarrow> k \<in> set (block_images (B b))"
    and "k \<in> KeyImages \<Longrightarrow> b \<in> set (image_log db k) \<Longrightarrow> k \<noteq> [] \<Longrightarrow> above s a b \<Longrightarrow> a \<in> passed \<and> a \<notin> set (image_log db k)"
  using assms unfolding record_ok_def by blast+

lemma record_okI:
  assumes "index_ok s" "finite (dom db)" "logs_ok KeyImages {..<2 ^ 31} db" "\<And>b. b \<in> passed \<Longrightarrow> known s b"
    and "\<And>b k. b \<in> passed \<Longrightarrow> k \<in> set (block_images (B b)) \<Longrightarrow> b \<in> set (image_log db k)"
    and "\<And>k b. k \<in> KeyImages \<Longrightarrow> b \<in> set (image_log db k) \<Longrightarrow> known s b \<and> k \<in> set (block_images (B b))"
    and "\<And>k b a. k \<in> KeyImages \<Longrightarrow> b \<in> set (image_log db k) \<Longrightarrow> k \<noteq> [] \<Longrightarrow> above s a b \<Longrightarrow> a \<in> passed \<and> a \<notin> set (image_log db k)"
  shows "record_ok B s db passed"
  using assms unfolding record_ok_def by blast

lemma above_irrefl: "\<not> above s a a"
  by (auto simp: above_def)

text \<open>Writing one image: its list grows by the block, the others stay.\<close>

lemma image_written:
  assumes r: "record_ok B s db passed" and k: "k \<in> KeyImages" and bh: "length bh = 8" and room: "has_room db 1"
    and w: "WriteKeyImage k bh db = Some db'"
  shows "finite (dom db')" "card (dom db') \<le> card (dom db) + 1" "logs_ok KeyImages {..<2 ^ 31} db'"
    and "k' \<in> KeyImages \<Longrightarrow> set (image_log db' k') = set (image_log db k') \<union> (if k' = k then {bh} else {})"
proof -
  note fin = record_okD(2) [OF r] and logs = record_okD(3) [OF r]
  have db': "db' = db(string_key 107 (image_slot k (image_end db k)) \<mapsto> write_limbs bh)"
    using WriteKeyImage_eq [OF fin, of k bh] w by simp
  have ends: "{..image_end db k' + 1} \<subseteq> {..<2 ^ 31}" for k'
    using image_end_le_card [OF fin, of k'] room by (auto simp: has_room_def)
  note lw = image_log_written [OF fin logs slots_apart_images k bh ends, folded db']
  show "finite (dom db')" "card (dom db') \<le> card (dom db) + 1" using fin by (simp_all add: db' card_insert_if)
  show "logs_ok KeyImages {..<2 ^ 31} db'" by (rule lw(4))
  show "set (image_log db' k') = set (image_log db k') \<union> (if k' = k then {bh} else {})" if "k' \<in> KeyImages"
    using lw(2) lw(3) [OF that] by simp
qed

lemma record_write:
  assumes r: "record_ok B s db passed" and L: "whole_images B" and m: "may_connect s passed bh" and room: "has_room db 1"
    and k: "k \<in> set (block_images (B bh))"
    and new: "k \<noteq> [] \<Longrightarrow> \<not> (\<exists>a\<in>set (takeWhile (\<lambda>x. x \<noteq> bh) (image_log db k)). above s a bh)"
    and w: "WriteKeyImage k bh db = Some db'"
  shows "record_ok B s db' passed" "\<And>k'. k' \<in> KeyImages \<Longrightarrow> set (image_log db' k') = set (image_log db k') \<union> (if k' = k then {bh} else {})"
proof -
  note old = record_okD [OF r]
  have kL: "k \<in> KeyImages" using whole_images_in [OF L k] .
  have b8: "length bh = 8" using m by (simp add: may_connect_def)
  note written = image_written [OF r kL b8 room w]
  note log = written(4)
  show "set (image_log db' k') = set (image_log db k') \<union> (if k' = k then {bh} else {})" if "k' \<in> KeyImages" for k'
    by (rule log [OF that])
  show "record_ok B s db' passed"
  proof (rule record_okI)
    show "b \<in> set (image_log db' k')" if "b \<in> passed" "k' \<in> set (block_images (B b))" for b k'
      using old(5) [OF that] log [OF whole_images_in [OF L that(2)]] by simp
    show "known s b \<and> k' \<in> set (block_images (B b))" if k': "k' \<in> KeyImages" "b \<in> set (image_log db' k')" for k' b
      using old(6,7) [OF k'(1)] k'(2) log [OF k'(1)] m k by (auto simp: may_connect_def split: if_splits)
    show "a \<in> passed \<and> a \<notin> set (image_log db' k')"
      if k': "k' \<in> KeyImages" "b \<in> set (image_log db' k')" "k' \<noteq> []" "above s a b" for k' b a
    proof (cases "b \<in> set (image_log db k')")
      case True
      note up = old(8) [OF k'(1) True k'(3)]
      have "a \<noteq> bh" if "k' = k"
      proof
        assume "a = bh"
        then have "bh \<in> passed \<and> bh \<notin> set (image_log db k)" using up [OF k'(4)] that by simp
        then show False using old(5) [OF _ k] by blast
      qed
      then show ?thesis using up [OF k'(4)] log [OF k'(1)] by auto
    next
      case False
      then have e: "k' = k" "b = bh" "bh \<notin> set (image_log db k)" using k'(2) log [OF k'(1)] by (auto split: if_splits)
      then have tw: "takeWhile (\<lambda>x. x \<noteq> bh) (image_log db k) = image_log db k" by (auto simp: takeWhile_eq_all_conv)
      have ab: "above s a bh" "k \<noteq> []" using k'(3,4) e by simp_all
      then have "a \<notin> set (image_log db k)" using new tw by auto
      moreover have "a \<noteq> bh" using ab above_irrefl by auto
      ultimately show ?thesis using log [OF k'(1)] m ab(1) e(1) by (simp add: may_connect_def)
    qed
  qed (use old(1,4) written(1,3) in blast)+
qed

text \<open>The check finds exactly the key images that a proper ancestor shows; the empty image is never found.\<close>

lemma spent_iff:
  assumes r: "record_ok B s db passed" and L: "whole_images B" and m: "may_connect s passed bh"
    and k: "k \<in> set (block_images (B bh))"
  shows "IsKeyImageSpend1 db k bh s = Inr (k \<noteq> [] \<and> (\<exists>a. above s a bh \<and> k \<in> set (block_images (B a))), s)"
    and "k \<noteq> [] \<Longrightarrow> (\<exists>a\<in>set (takeWhile (\<lambda>x. x \<noteq> bh) (image_log db k)). above s a bh)
      \<longleftrightarrow> (\<exists>a. above s a bh \<and> k \<in> set (block_images (B a)))"
proof -
  note old = record_okD [OF r]
  have kL: "k \<in> KeyImages" using whole_images_in [OF L k] .
  let ?seen = "takeWhile (\<lambda>x. x \<noteq> bh) (image_log db k)"
  show seen: "(\<exists>a\<in>set ?seen. above s a bh) \<longleftrightarrow> (\<exists>a. above s a bh \<and> k \<in> set (block_images (B a)))" if ne: "k \<noteq> []"
  proof
    assume "\<exists>a\<in>set ?seen. above s a bh"
    then show "\<exists>a. above s a bh \<and> k \<in> set (block_images (B a))" using old(7) [OF kL] set_takeWhileD by metis
  next
    assume "\<exists>a. above s a bh \<and> k \<in> set (block_images (B a))"
    then obtain a where a: "above s a bh" "k \<in> set (block_images (B a))" by blast
    then have log: "a \<in> set (image_log db k)" using old(5) m by (simp add: may_connect_def)
    then have "bh \<notin> set (image_log db k)" using old(8) [OF kL _ ne a(1)] by blast
    then have seen: "?seen = image_log db k" by (auto simp: takeWhile_eq_all_conv)
    show "\<exists>a\<in>set ?seen. above s a bh" unfolding seen using log a(1) by blast
  qed
  have "\<forall>x\<in>set (image_log db k). known s x" using old(6) [OF kL] by blast
  then show "IsKeyImageSpend1 db k bh s = Inr (k \<noteq> [] \<and> (\<exists>a. above s a bh \<and> k \<in> set (block_images (B a))), s)"
    using m seen IsKeyImageSpend1_eq [OF old(1,2)] by (cases "k = []") (simp_all add: may_connect_def IsKeyImageSpend1_def)
qed

text \<open>One image of a block: refused when an ancestor shows it, recorded otherwise.\<close>

lemma connect_image:
  assumes r: "record_ok B s db passed" and L: "whole_images B" and m: "may_connect s passed bh" and room: "has_room db 1"
    and k: "k \<in> set (block_images (B bh))"
  obtains (spent) "k \<noteq> []" "\<exists>a. above s a bh \<and> k \<in> set (block_images (B a))"
      "\<And>khs. connect_images bh (k # khs) db s = Inr ((False, db), s)"
    | (recorded) db1 where "k = [] \<or> \<not> (\<exists>a. above s a bh \<and> k \<in> set (block_images (B a)))"
      "\<And>khs. connect_images bh (k # khs) db s = connect_images bh khs db1 s"
      "record_ok B s db1 passed" "card (dom db1) \<le> card (dom db) + 1"
      "\<And>k'. k' \<in> KeyImages \<Longrightarrow> set (image_log db1 k') = set (image_log db k') \<union> (if k' = k then {bh} else {})"
proof (cases "k \<noteq> [] \<and> (\<exists>a. above s a bh \<and> k \<in> set (block_images (B a)))")
  case True
  then show ?thesis using spent spent_iff(1) [OF r L m k] by (simp add: bind_app)
next
  case False
  obtain db1 where w: "WriteKeyImage k bh db = Some db1" using WriteKeyImage_eq record_okD(2) [OF r] by blast
  have "\<not> (\<exists>a\<in>set (takeWhile (\<lambda>x. x \<noteq> bh) (image_log db k)). above s a bh)" if "k \<noteq> []"
    using False that spent_iff(2) [OF r L m k that] by blast
  note rw = record_write [OF r L m room k this w]
  have b8: "length bh = 8" using m by (simp add: may_connect_def)
  have "connect_images bh (k # khs) db s = connect_images bh khs db1 s" for khs
    using spent_iff(1) [OF r L m k] False w by (auto simp: bind_app)
  moreover have "k = [] \<or> \<not> (\<exists>a. above s a bh \<and> k \<in> set (block_images (B a)))" using False by blast
  ultimately show ?thesis
    using recorded [of db1] rw image_written(2) [OF r whole_images_in [OF L k] b8 room w] by blast
qed

lemma connect_images_record:
  assumes "record_ok B s db passed" and L: "whole_images B" and m: "may_connect s passed bh"
    and "has_room db (length khs)" "set khs \<subseteq> set (block_images (B bh))" and "connect_images bh khs db s = Inr ((ok, db'), s')"
  shows "s' = s \<and> record_ok B s db' passed \<and> (\<forall>k\<in>KeyImages. set (image_log db k) \<subseteq> set (image_log db' k))
    \<and> (ok \<longrightarrow> (\<forall>k\<in>set khs. bh \<in> set (image_log db' k)))"
  using assms(1,4-6)
proof (induction khs arbitrary: db)
  case (Cons k khs)
  have k: "k \<in> set (block_images (B bh))" using Cons.prems(3) by simp
  have room: "has_room db 1" using Cons.prems(2) by (simp add: has_room_def)
  show ?case
  proof (cases rule: connect_image [OF Cons.prems(1) L m room k])
    case 1
    then show ?thesis using Cons.prems(1,4) by auto
  next
    case (2 db1)
    have "has_room db1 (length khs)" using Cons.prems(2) 2(4) by (simp add: has_room_def)
    then have r: "s' = s \<and> record_ok B s db' passed \<and> (\<forall>k\<in>KeyImages. set (image_log db1 k) \<subseteq> set (image_log db' k))
        \<and> (ok \<longrightarrow> (\<forall>k\<in>set khs. bh \<in> set (image_log db' k)))"
      using Cons.IH [OF 2(3)] Cons.prems(3,4) 2(2) by auto
    have "bh \<in> set (image_log db1 k)" using 2(5) [OF whole_images_in [OF L k]] by simp
    then have "bh \<in> set (image_log db' k)" using r whole_images_in [OF L k] by blast
    moreover have "set (image_log db k') \<subseteq> set (image_log db' k')" if "k' \<in> KeyImages" for k'
      using r that 2(5) [OF that] by blast
    ultimately show ?thesis using r by simp
  qed
qed simp

lemma connect_images_exact:
  assumes "record_ok B s db passed" and L: "whole_images B" and m: "may_connect s passed bh"
    and "has_room db (length khs)" "set khs \<subseteq> set (block_images (B bh))"
  shows "\<exists>db'. card (dom db') \<le> card (dom db) + length khs
    \<and> connect_images bh khs db s = Inr ((\<forall>a. above s a bh \<longrightarrow> set (block_images (B a)) \<inter> set khs \<subseteq> {[]}, db'), s)"
  using assms(1,4,5)
proof (induction khs arbitrary: db)
  case Nil
  then show ?case by (intro exI [of _ db]) simp
next
  case (Cons k khs)
  have k: "k \<in> set (block_images (B bh))" using Cons.prems(3) by simp
  have room: "has_room db 1" using Cons.prems(2) by (simp add: has_room_def)
  show ?case
  proof (cases rule: connect_image [OF Cons.prems(1) L m room k])
    case 1
    then have "\<not> (\<forall>a. above s a bh \<longrightarrow> set (block_images (B a)) \<inter> set (k # khs) \<subseteq> {[]})" by auto
    then show ?thesis using 1(3) by (intro exI [of _ db]) simp
  next
    case (2 db1)
    have "has_room db1 (length khs)" using Cons.prems(2) 2(4) by (simp add: has_room_def)
    then obtain db' where db': "card (dom db') \<le> card (dom db1) + length khs"
      "connect_images bh khs db1 s = Inr ((\<forall>a. above s a bh \<longrightarrow> set (block_images (B a)) \<inter> set khs \<subseteq> {[]}, db'), s)"
      using Cons.IH [OF 2(3)] Cons.prems(3) by auto
    moreover have "(\<forall>a. above s a bh \<longrightarrow> set (block_images (B a)) \<inter> set (k # khs) \<subseteq> {[]})
        = (\<forall>a. above s a bh \<longrightarrow> set (block_images (B a)) \<inter> set khs \<subseteq> {[]})"
      using 2(1) by auto
    ultimately show ?thesis using 2(2,4) by (intro exI [of _ db']) simp
  qed
qed

lemma image_log_other:
  assumes "\<forall>x. db' (107 # x) = db (107 # x)"
  shows "image_log db' k = image_log db k" "logs_ok K I db' = logs_ok K I db"
proof -
  have at: "image_at db' k i = image_at db k i" for k i
    using assms by (simp add: image_at_def ReadKeyImage_def DbRead_def string_key_def)
  then show "image_log db' k = image_log db k" "logs_ok K I db' = logs_ok K I db"
    by (simp_all add: image_log_def logs_ok_def image_end_def)
qed

lemma index_step_record:
  assumes r: "record_ok B s db passed" and step: "index_step E s s'"
  shows "record_ok B s' db passed"
proof -
  note old = record_okD [OF r]
  have ok: "index_ok s'" by (rule index_step_ok [OF old(1) step])
  have k: "entries_kept (next_free s) s s'" by (rule index_step_kept [OF step])
  have kn: "known s' b" if "known s b" for b
    using kept_known [OF old(1) ok k] that by (auto simp: known_def)
  show ?thesis
  proof (rule record_okI)
    show "a \<in> passed \<and> a \<notin> set (image_log db k)" if "k \<in> KeyImages" "b \<in> set (image_log db k)" "k \<noteq> []" "above s' a b" for k b a
      using old(8) [OF that(1-3)] that(4) kept_above [OF old(1) ok k old(6) [OF that(1,2)]] by blast
  qed (use ok old kn in blast)+
qed

lemma image_step_record:
  assumes "image_step E B (s, db, passed) (s', db', passed')" and r: "record_ok B s db passed" and L: "whole_images B"
  shows "record_ok B s' db' passed'"
  using assms(1)
proof (cases rule: image_step.cases)
  case index
  then show ?thesis using index_step_record [OF r] by simp
next
  case other_record
  have e: "image_log db' = image_log db" and l: "logs_ok K I db' = logs_ok K I db" for K I
    using image_log_other [OF other_record(3)] by (blast, blast)
  note old = record_okD [OF r]
  have "record_ok B s db' passed"
    by (rule record_okI, unfold e l) (use old other_record(4) in blast)+
  then show ?thesis using other_record(1,2) by blast
next
  case (connect bh n ok)
  have room: "has_room db (length (take n (block_images (B bh))))" using connect(3) by (simp add: has_room_def)
  have "set (take n (block_images (B bh))) \<subseteq> set (block_images (B bh))" by (rule set_take_subset)
  note c = connect_images_record [OF r L connect(2) room this connect(4)]
  have "bh \<in> set (image_log db' k)" if "ok \<and> length (block_images (B bh)) \<le> n" "k \<in> set (block_images (B bh))" for k
    using c that by simp
  then have new: "bh \<in> set (image_log db' k)" if "bh \<in> passed' - passed" "k \<in> set (block_images (B bh))" for k
    using that connect(1) by (auto split: if_splits)
  have "record_ok B s db' passed" "s' = s" using c by blast+
  note now = record_okD [OF this(1)] and this
  have p: "passed \<subseteq> passed'" "passed' \<subseteq> insert bh passed" using connect(1) by (auto split: if_splits)
  have kn: "known s bh" using connect(2) by (simp add: may_connect_def)
  show ?thesis unfolding \<open>s' = s\<close>
  proof (rule record_okI)
    show "b \<in> set (image_log db' k)" if "b \<in> passed'" "k \<in> set (block_images (B b))" for b k
      using new now(5) that p by blast
    show "known s b" if "b \<in> passed'" for b using that p kn now(4) by blast
    show "a \<in> passed' \<and> a \<notin> set (image_log db' k)" if "k \<in> KeyImages" "b \<in> set (image_log db' k)" "k \<noteq> []" "above s a b" for k b a
      using now(8) [OF that] p by blast
  qed (use now in blast)+
qed

lemma image_states_record:
  assumes "image_states E B m" "whole_images B"
  shows "case m of (s, db, passed) \<Rightarrow> record_ok B s db passed"
  using assms(1)
proof (induction rule: image_states.induct)
  case start
  have "image_at Map.empty k i = None" for k i by (simp add: image_at_def ReadKeyImage_def DbRead_def)
  then show ?case using empty_index_ok by (simp add: record_ok_def logs_ok_def image_log_def image_end_def)
next
  case (step m m')
  then show ?case using image_step_record [OF _ _ assms(2)] by (cases m, cases m') auto
qed

lemma record_disjoint:
  assumes r: "record_ok B s db passed" and L: "whole_images B" and ab: "b \<in> passed" "above s a b"
  shows "set (block_images (B a)) \<inter> set (block_images (B b)) \<subseteq> {[]}"
proof (rule ccontr)
  assume "\<not> ?thesis"
  then obtain k where k: "k \<in> set (block_images (B a))" "k \<in> set (block_images (B b))" "k \<noteq> []" by blast
  note old = record_okD [OF r]
  have "k \<in> KeyImages" using whole_images_in [OF L k(1)] .
  then have "a \<in> passed \<and> a \<notin> set (image_log db k)" using old(8) old(5) [OF ab(1) k(2)] k(3) ab(2) by blast
  then show False using old(5) k(1) by blast
qed

section \<open>Properties\<close>

text \<open>
  C2: the check is exact: a block all of whose proper ancestors have passed is answered, and all its key images pass if and
  only if no proper ancestor shows one of them, whatever other forks, earlier attempts and interrupted checks have left
  on record. The empty image of an invalid key is the exception: it passes always, and on every chain. Key images of both lengths,
  compressed and not, may occur together. The conditions: every key image has as many bytes as its first one announces (otherwise
  the code reads memory that was never written), and fewer than \<open>2\<^sup>3\<^sup>1\<close> records, so that the counters do not overflow.
\<close>

theorem key_images_exact:
  assumes "image_states E B (s, db, passed)" "whole_images B" "may_connect s passed b" "has_room db (length (block_images (B b)))"
  shows "\<exists>ok db'. connect_images b (block_images (B b)) db s = Inr ((ok, db'), s)
    \<and> (ok \<longleftrightarrow> (\<forall>a. above s a b \<longrightarrow> set (block_images (B a)) \<inter> set (block_images (B b)) \<subseteq> {[]}))"
  using connect_images_exact [OF image_states_record [OF assms(1,2), simplified] assms(2-4) subset_refl] by blast

text \<open>
  C1: no double spending: however headers arrive and blocks are connected, left half-way, disconnected and connected again,
  two blocks of one chain whose key images have passed have no key image in common, except the empty image of an invalid key, which
  \<open>IsKeyImageSpend1\<close> lets pass unseen. The conditions are those of the check: whole keys, and counters that do not overflow (which the
  steps ask of each block that is tried).
\<close>

theorem no_double_spend:
  assumes "image_states E B (s, db, passed)" "whole_images B" "b \<in> passed" "above s a b"
  shows "set (block_images (B a)) \<inter> set (block_images (B b)) \<subseteq> {[]}"
  by (rule record_disjoint [OF image_states_record [OF assms(1,2), simplified] assms(2-4)])

text \<open>
  The empty image: two blocks of one chain both spend with an invalid key as their image, and both pass.
\<close>

lemma empty_image_unseen:
  assumes "finite (dom db)"
  shows "\<exists>db'. connect_images b [[]] db s = Inr ((True, db'), s)"
  using WriteKeyImage_eq [OF assms, of "[]" b] by (simp add: IsKeyImageSpend1_def bind_app)

text \<open>
  Two blocks in a chain, named by the hashes 1 and 2, each with one key image; the first has passed.
\<close>

definition image_block :: "byte \<Rightarrow> CBlock" where
  "image_block x = NullBlock\<lparr>vtx := [NullTransaction\<lparr>vin :=
     [(NewTxIn \<lparr>op_txid = uint256_0, op_n = 0\<rparr> [] 0)\<lparr>keyImage := 2 # replicate 32 x\<rparr>]\<rparr>]\<rparr>"

definition image_blocks :: "uint256 \<Rightarrow> CBlock" where
  "image_blocks h = (if h = set_uint256 1 then image_block 1 else image_block 2)"

definition pair_env :: block_env where
  "pair_env = index_env\<lparr>HashQuarkFn := (\<lambda>_. set_uint256 2)\<rparr>"

definition second_header :: CBlock where
  "second_header = NullBlock\<lparr>nVersion := 3, hashPrevBlock := set_uint256 1\<rparr>"

lemma pair_hashes:
  "BlockHash pair_env demo_work_block = set_uint256 1" "BlockHash pair_env second_header = set_uint256 2"
  "hashPrevBlock demo_work_block = uint256_0" "hashPrevBlock second_header = set_uint256 1" "length (HashFn pair_env x) = 8"
  by (simp_all add: pair_env_def index_env_def BlockHash_def HeaderGetHash_def second_header_def demo_work_block_def
      IsPoABlockByVersion_def POA_BLOCK_VERSION_LOW_LIMIT_def NullBlock_def NullHeader_def CBlockHeader.defs)

lemma pair_distinct: "set_uint256 2 \<noteq> set_uint256 1" "set_uint256 1 \<noteq> set_uint256 2" "set_uint256 1 \<noteq> uint256_0" "set_uint256 2 \<noteq> uint256_0"
proof -
  have "val (set_uint256 1) = 1" "val (set_uint256 2) = 2" by simp_all
  then show "set_uint256 2 \<noteq> set_uint256 1" "set_uint256 1 \<noteq> set_uint256 2" "set_uint256 1 \<noteq> uint256_0" "set_uint256 2 \<noteq> uint256_0"
    by fastforce+
qed

definition the_image :: "byte \<Rightarrow> bytes" where
  "the_image x = hd (block_images (image_block x))"

lemma the_images: "block_images (image_block 1) = [the_image 1]" "block_images (image_block 2) = [the_image 2]"
  "length (the_image 1) = 66" "length (the_image 2) = 66" "the_image 1 \<noteq> the_image 2"
  unfolding the_image_def by code_simp+

lemma image_blocks_images: "block_images (image_blocks h) = [the_image (if h = set_uint256 1 then 1 else 2)]"
  by (simp add: image_blocks_def the_images)

lemma image_blocks_whole: "whole_images image_blocks"
  by (simp add: whole_images_def image_blocks_def image_block_def NullBlock_def NullTransaction_def NewTxIn_def PubKeySize_def GetLen_def)

lemma room_empty: "n < 2 ^ 31 \<Longrightarrow> has_room Map.empty n"
  by (simp add: has_room_def)

lemma above_parent:
  assumes ok: "index_ok s" and b: "mapBlockIndex s b = Some (Some p)" and a: "mapBlockIndex s a = Some (Some q)"
    and q: "pprev (heap s p) = Some q"
  shows "above s a b"
proof -
  have t: "block_tree (heap s) {..<next_free s}" "p \<in> {..<next_free s}" "q \<in> {..<next_free s}"
    using ok a b by (auto simp: index_ok_def map_ok_def)
  have "nHeight (heap s p) = nHeight (heap s q) + 1" 
    using bspec [OF t(1) [unfolded block_tree_def] t(2)] q by (simp add: entry_ok_def)
  then have h: "height_of (heap s) p = Suc (height_of (heap s) q)" using int_height [OF t(1,2)] int_height [OF t(1,3)] by simp
  have "nth_parent (heap s) 1 (Some p) = Some q" using q by simp
  then show ?thesis using h a b unfolding above_def anc_def by (intro exI [of _ p] exI [of _ q]) auto
qed

lemma above_child:
  assumes ok: "index_ok s" and b: "mapBlockIndex s b = Some (Some p)" and ab: "above s a b"
  shows "\<exists>q. pprev (heap s p) = Some q \<and> (a = phashBlock (heap s q) \<or> above s a (phashBlock (heap s q)))"
proof -
  obtain r where r: "mapBlockIndex s a = Some (Some r)" "r \<noteq> p" "height_of (heap s) r \<le> height_of (heap s) p"
      "anc (heap s) p (height_of (heap s) r) = Some r"
    using ab b by (auto simp: above_def)
  have t: "block_tree (heap s) {..<next_free s}" "p \<in> {..<next_free s}" and m: "map_ok s"
    using ok b by (auto simp: index_ok_def map_ok_def)
  have "height_of (heap s) r \<noteq> height_of (heap s) p" using r(2,4) by auto
  then have h: "height_of (heap s) r < height_of (heap s) p" using r(3) by simp
  then obtain k where k: "height_of (heap s) p = Suc k" "height_of (heap s) r \<le> k" by (cases "height_of (heap s) p") auto
  obtain q where q: "anc (heap s) p k = Some q" "q \<in> {..<next_free s}" "height_of (heap s) q = k"
    using anc_in_tree [OF t, of k] k(1) by auto
  have pq: "pprev (heap s p) = Some q" using pprev_anc [OF t, of k p] k(1) q(1) anc_self [of "heap s" p] by simp
  have mq: "mapBlockIndex s (phashBlock (heap s q)) = Some (Some q)" using m q(2) by (simp add: map_ok_def)
  have "anc (heap s) q (height_of (heap s) r) = Some r" using anc_anc [OF q(1,3) _ k(2)] k(1) r(4) by simp
  then have "r = q \<or> above s a (phashBlock (heap s q))" using r(1) mq k(2) q(3) by (auto simp: above_def)
  moreover have "phashBlock (heap s r) = a" using m r(1) by (simp add: map_ok_def)
  ultimately show ?thesis using pq by blast
qed

lemma pair_state: "\<exists>s. reachable pair_env s \<and> above s (set_uint256 1) (set_uint256 2)
  \<and> (\<forall>a. \<not> above s a (set_uint256 1)) \<and> (\<forall>a. above s a (set_uint256 2) \<longrightarrow> a = set_uint256 1)"
proof -
  have "returns (AddToBlockIndex pair_env demo_work_block empty_index)"
    by (rule AddToBlockIndex_returns [OF pair_hashes(5) empty_index_ok])
      (simp_all add: pair_hashes pair_distinct empty_index_def)
  then obtain r s1 where add1: "AddToBlockIndex pair_env demo_work_block empty_index = Inr (r, s1)" by (auto simp: returns_def)
  have ne: "BlockHash pair_env demo_work_block \<noteq> hashPrevBlock demo_work_block"
    "BlockHash pair_env second_header \<noteq> hashPrevBlock second_header"
    by (simp_all add: pair_hashes pair_distinct)
  have s1: "reachable pair_env s1" by (rule reachable.step [OF reachable.empty index_step.added [OF add1 ne(1)]])
  then have ok1: "index_ok s1" by (rule reachable_ok)
  obtain n s' where n: "new_entry (set_uint256 1) demo_work_block empty_index = Inr (0, n)" "mapBlockIndex n = [set_uint256 1 \<mapsto> Some 0]"
    and s': "link_entry pair_env (set_uint256 1) demo_work_block 0 n = Inr ((), s')" "finish_entry 0 s' = Inr ((), s1)"
    using add1 by (auto simp: AddToBlockIndex_def empty_index_def new_entry_def Let_def bind_Inr pair_hashes)
  have "s' = n" using s'(1) n(2) by (simp add: link_entry_def pair_hashes pair_distinct pair_distinct(3) [symmetric])
  then have m1: "mapBlockIndex s1 = [set_uint256 1 \<mapsto> Some 0]" using finish_entry_map [OF s'(2)] n(2) by simp
  have "returns (AddToBlockIndex pair_env second_header s1)"
    by (rule AddToBlockIndex_returns [OF pair_hashes(5) ok1 ne(2)]) (simp add: pair_hashes m1)
  then obtain r' s2 where add2: "AddToBlockIndex pair_env second_header s1 = Inr (r', s2)" by (auto simp: returns_def)
  have s2: "reachable pair_env s2" by (rule reachable.step [OF s1 index_step.added [OF add2 ne(2)]])
  note pl = AddToBlockIndex_placed [OF ok1 add2 ne(2), of 0]
  have k: "entries_kept (next_free s1) s1 s2" by (rule index_step_kept [OF index_step.added [OF add2 ne(2)]])
  have e1: "mapBlockIndex s2 (set_uint256 1) = Some (Some 0)"
    by (rule kept_known [OF ok1 reachable_ok [OF s2] k]) (simp add: m1)
  have e2: "mapBlockIndex s2 (set_uint256 2) = Some (Some (next_free s1))" "pprev (heap s2 (next_free s1)) = Some 0"
    using pl by (simp_all add: pair_hashes m1 pair_distinct)
  have m: "map_ok s1" and t: "block_tree (heap s1) {..<next_free s1}" using ok1 by (simp_all add: index_ok_def)
  have zero: "q = 0" if "q < next_free s1" for q
  proof -
    have "mapBlockIndex s1 (phashBlock (heap s1 q)) = Some (Some q)" using m that by (simp add: map_ok_def)
    then show ?thesis by (simp add: m1 split: if_splits)
  qed
  have "mapBlockIndex s1 (set_uint256 1) = Some (Some 0)" by (simp add: m1)
  then have n: "0 < next_free s1" "phashBlock (heap s1 0) = set_uint256 1" using m unfolding map_ok_def by blast+
  have "pprev (heap s1 0) \<noteq> Some q" for q
    using zero block_tree_pprev [OF t, of 0 q] block_tree_irrefl [OF t, of 0] n by auto
  then have root: "pprev (heap s2 0) = None" "phashBlock (heap s2 0) = set_uint256 1"
    using k n core_fields [of "heap s2 0" "heap s1 0"] by (auto simp: entries_kept_def)
  note ok2 = reachable_ok [OF s2]
  have "above s2 (set_uint256 1) (set_uint256 2)" by (rule above_parent [OF ok2 e2(1) e1 e2(2)])
  moreover have none: "\<not> above s2 a (set_uint256 1)" for a using above_child [OF ok2 e1] root by auto
  moreover have "above s2 a (set_uint256 2) \<Longrightarrow> a = set_uint256 1" for a
    using above_child [OF ok2 e2(1)] e2(2) root none by auto
  ultimately show ?thesis using s2 by blast
qed

text \<open>Any index reached, with an empty record.\<close>

lemma image_states_index: "reachable E s \<Longrightarrow> image_states E B (s, Map.empty, {})"
proof (induction rule: reachable.induct)
  case empty
  show ?case by (rule image_states.start)
next
  case (step s s')
  show ?case by (rule image_states.step [OF step(3) image_step.index [OF step(2)]])
qed

lemma image_states_connect:
  assumes m: "image_states E B (s, db, passed)" and L: "whole_images B" and b: "may_connect s passed b"
    and room: "has_room db (length (block_images (B b)))"
    and free: "\<And>a. above s a b \<Longrightarrow> set (block_images (B a)) \<inter> set (block_images (B b)) \<subseteq> {[]}"
  shows "\<exists>db'. image_states E B (s, db', insert b passed) \<and> card (dom db') \<le> card (dom db) + length (block_images (B b))"
proof -
  obtain db' where c: "card (dom db') \<le> card (dom db) + length (block_images (B b))"
      "connect_images b (block_images (B b)) db s = Inr ((True, db'), s)"
    using connect_images_exact [OF image_states_record [OF m L, simplified] L b room subset_refl] free by auto
  then have "connect_images b (take (length (block_images (B b))) (block_images (B b))) db s = Inr ((True, db'), s)" by simp
  then have "image_step E B (s, db, passed) (s, db', if True \<and> length (block_images (B b)) \<le> length (block_images (B b))
      then insert b passed else passed)"
    by (intro image_step.connect b room)
  then have "image_step E B (s, db, passed) (s, db', insert b passed)" by simp
  then show ?thesis using image_states.step [OF m] c(1) by blast
qed

lemma above_known: "above s a b \<Longrightarrow> known s a \<and> known s b"
  by (auto simp: above_def known_def)

lemma pair_passed: "\<exists>s db. image_states pair_env image_blocks (s, db, {set_uint256 1, set_uint256 2})
  \<and> above s (set_uint256 1) (set_uint256 2) \<and> may_connect s {set_uint256 1, set_uint256 2} (set_uint256 2) \<and> has_room db 1"
proof -
  obtain s where s: "reachable pair_env s" "above s (set_uint256 1) (set_uint256 2)" "\<And>a. \<not> above s a (set_uint256 1)"
      "\<And>a. above s a (set_uint256 2) \<Longrightarrow> a = set_uint256 1"
    using pair_state by blast
  have len: "length (set_uint256 1) = 8" "length (set_uint256 2) = 8" by simp_all
  have c: "may_connect s {} (set_uint256 1)" "may_connect s P (set_uint256 2)" if "set_uint256 1 \<in> P" for P
    using that s(2-4) above_known len pair_distinct unfolding may_connect_def by blast+
  note st = image_states_index [OF s(1), of image_blocks]
  have images: "block_images (image_blocks (set_uint256 1)) = [the_image 1]" "block_images (image_blocks (set_uint256 2)) = [the_image 2]"
    by (simp_all add: image_blocks_images pair_distinct)
  have room: "has_room Map.empty (length (block_images (image_blocks (set_uint256 1))))" by (rule room_empty) (simp add: images)
  obtain db1 where db1: "image_states pair_env image_blocks (s, db1, {set_uint256 1})" "card (dom db1) \<le> 1"
    using image_states_connect [OF st image_blocks_whole c(1) [of UNIV] room] s(3) images by auto
  have "set (block_images (image_blocks a)) \<inter> set (block_images (image_blocks (set_uint256 2))) \<subseteq> {[]}"
    if "above s a (set_uint256 2)" for a
    using s(4) [OF that] the_images(5) images by simp
  moreover have "has_room db1 (length (block_images (image_blocks (set_uint256 2))))" using db1(2) images by (simp add: has_room_def)
  ultimately obtain db2 where "image_states pair_env image_blocks (s, db2, {set_uint256 2, set_uint256 1})" "card (dom db2) \<le> 2"
    using image_states_connect [OF db1(1) image_blocks_whole c(2)] images db1(2) by force
  then show ?thesis using s(2) c(2) by (intro exI [of _ s] exI [of _ db2]) (auto simp: insert_commute has_room_def)
qed

theorem key_images_exact_witness:
  "\<exists>(s :: index_state) db db'. connect_images (set_uint256 2) (block_images (image_blocks (set_uint256 2))) db s = Inr ((True, db'), s)
    \<and> above s (set_uint256 1) (set_uint256 2) \<and> block_images (image_blocks (set_uint256 2)) \<noteq> []"
proof -
  obtain s db where m: "image_states pair_env image_blocks (s, db, {set_uint256 1, set_uint256 2})"
      "above s (set_uint256 1) (set_uint256 2)" "may_connect s {set_uint256 1, set_uint256 2} (set_uint256 2)" "has_room db 1"
    using pair_passed by blast
  have images: "block_images (image_blocks (set_uint256 2)) = [the_image 2]" by (simp add: image_blocks_images pair_distinct)
  then have room: "has_room db (length (block_images (image_blocks (set_uint256 2))))" using m(4) by simp
  have "set (block_images (image_blocks a)) \<inter> set (block_images (image_blocks (set_uint256 2))) \<subseteq> {[]}"
    if "above s a (set_uint256 2)" for a
    using record_disjoint [OF image_states_record [OF m(1) image_blocks_whole, simplified] image_blocks_whole _ that] by simp
  then have "\<exists>db'. connect_images (set_uint256 2) (block_images (image_blocks (set_uint256 2))) db s = Inr ((True, db'), s)"
    using key_images_exact [OF m(1) image_blocks_whole m(3) room] by auto
  then show ?thesis using m(2) images by auto
qed

theorem no_double_spend_witness:
  "\<exists>s :: index_state. above s (set_uint256 1) (set_uint256 2)
    \<and> set (block_images (image_blocks (set_uint256 1))) \<inter> set (block_images (image_blocks (set_uint256 2))) \<subseteq> {[]}
    \<and> block_images (image_blocks (set_uint256 1)) = [the_image 1] \<and> block_images (image_blocks (set_uint256 2)) = [the_image 2]"
proof -
  obtain s db where m: "image_states pair_env image_blocks (s, db, {set_uint256 1, set_uint256 2})"
      "above s (set_uint256 1) (set_uint256 2)"
    using pair_passed by blast
  have "set_uint256 2 \<in> {set_uint256 1, set_uint256 2}" by simp
  from no_double_spend [OF m(1) image_blocks_whole this m(2)] show ?thesis
    using m(2) by (intro exI [of _ s]) (simp add: image_blocks_images pair_distinct)
qed

end
