(* ===== verification/Curve_Keys.thy ===== *)
theory Curve_Keys
  imports Rewards Script_Sig_Enc
begin

text \<open>
  Keys on the curve: the checks of \<open>eccryptoverify.cpp\<close>, hashing a public key to a point
  (\<open>PointHashingSuccessively\<close> of \<open>util.cpp\<close>), key images (\<open>wallet.cpp\<close>) and the signature that a stake
  carries for its key image (\<open>main.cpp\<close>).

  The operations of the two secp256k1 libraries are the fields of a record. A point is the bytes of a
  compressed public key, a secret or tweak its 32 bytes, and a commitment in memory the bytes of its structure;
  \<open>None\<close> stands for the return value 0.
\<close>

section \<open>The range of a secret\<close>

definition KeyCheck :: "bytes \<Rightarrow> bool" where
  "KeyCheck vch \<longleftrightarrow> CompareBigEndian vch [] > 0 \<and> CompareBigEndian vch vchMaxModOrder \<le> 0"

text \<open>A private key: its 32 bytes, or \<open>None\<close> for one that is not valid.\<close>

definition KeySet :: "bytes \<Rightarrow> bytes option" where
  "KeySet b = (if length b = 32 \<and> KeyCheck b then Some b else None)"

section \<open>Operations of the curve\<close>

record curve =
  pubkey_tweak_mul :: "bytes \<Rightarrow> bytes \<Rightarrow> bytes option"
  pubkey_tweak_add :: "bytes \<Rightarrow> bytes \<Rightarrow> bytes option"
  privkey_tweak_mul :: "bytes \<Rightarrow> bytes \<Rightarrow> bytes option"
  privkey_tweak_add :: "bytes \<Rightarrow> bytes \<Rightarrow> bytes option"
  GetPubKey :: "bytes \<Rightarrow> CPubKey"
  pedersen_commit :: "bytes \<Rightarrow> u64 \<Rightarrow> bytes option"
  commitment_parse :: "bytes \<Rightarrow> bytes option"
  commitment_serialize :: "bytes \<Rightarrow> bytes option"
  pubkey_to_commitment :: "bytes \<Rightarrow> bytes"
  commitment_to_pubkey :: "bytes \<Rightarrow> bytes option"
  commitment_sum :: "bytes list \<Rightarrow> bytes list \<Rightarrow> bytes option"
  commitment_sum_pos :: "bytes list \<Rightarrow> bytes option"
  blind_sum :: "bytes list \<Rightarrow> nat \<Rightarrow> bytes option"

text \<open>The bytes of a hash, and one round of hashing to a point: the header byte of the key before its hash.\<close>

definition hash_bytes :: "(bytes \<Rightarrow> uint256) \<Rightarrow> bytes \<Rightarrow> bytes" where
  "hash_bytes Hash b = write_limbs (Hash b)"

definition rehash_key :: "(bytes \<Rightarrow> uint256) \<Rightarrow> CPubKey \<Rightarrow> CPubKey" where
  "rehash_key Hash pk = PubKeySet (hd pk # hash_bytes Hash (KeyBytes pk))"

text \<open>The loop goes on until the point can be multiplied, so it need not end.\<close>

partial_function (option) point_hash_loop :: "curve \<Rightarrow> (bytes \<Rightarrow> uint256) \<Rightarrow> CPubKey \<Rightarrow> bytes \<Rightarrow> bytes option" where
  "point_hash_loop C Hash newPubKey tweak =
     (case pubkey_tweak_mul C (KeyBytes newPubKey) tweak of
        Some out \<Rightarrow> Some out
      | None \<Rightarrow> point_hash_loop C Hash (rehash_key Hash newPubKey) tweak)"

definition PointHashingSuccessively :: "curve \<Rightarrow> (bytes \<Rightarrow> uint256) \<Rightarrow> CPubKey \<Rightarrow> bytes \<Rightarrow> bytes option" where
  "PointHashingSuccessively C Hash pk tweak = point_hash_loop C Hash (rehash_key Hash pk) tweak"

section \<open>Keys of the wallet\<close>

text \<open>The first key, in the order of \<open>GetKeys\<close>, whose script is the given one; the scan also has the last key tried.\<close>

fun key_for_script :: "curve \<Rightarrow> bytes list \<Rightarrow> bytes \<Rightarrow> bytes option" where
  "key_for_script C [] script = None"
| "key_for_script C (key # keys) script =
     (if GetScriptForPubKey (GetPubKey C key) = script then Some key else key_for_script C keys script)"

definition findCorrespondingPrivateKey :: "curve \<Rightarrow> bytes list \<Rightarrow> CTxOut \<Rightarrow> bytes option" where
  "findCorrespondingPrivateKey C keys txout = key_for_script C keys (scriptPubKey txout)"

text \<open>
  \<open>generateKeyImage\<close>: the outer option is whether it returns, the inner one its result. The loop is that of
  \<open>PointHashingSuccessively\<close>, written out again in the source.
\<close>

definition generateKeyImage :: "curve \<Rightarrow> (bytes \<Rightarrow> uint256) \<Rightarrow> bytes list \<Rightarrow> bytes \<Rightarrow> CPubKey option option" where
  "generateKeyImage C Hash keys script = (case key_for_script C keys script of
     None \<Rightarrow> Some None
   | Some key \<Rightarrow> map_option (\<lambda>ki. Some (PubKeySet ki)) (point_hash_loop C Hash (rehash_key Hash (GetPubKey C key)) key))"

section \<open>The signature for the key image of a stake\<close>

text \<open>
  The environment: the curve, the contents of an array that the code reads before it is written, and whether the node
  is still in its initial download.
\<close>

record ring_env = wallet_env +
  Curve :: curve
  Junk :: bytes
  InitialDownload :: bool

text \<open>The outcome of code without state: an exception, \<open>return false\<close> or a result.\<close>

type_synonym 'a outcome = "chain_error + 'a option"

definition GetTxInSignatureHash :: "'e ring_env_scheme \<Rightarrow> CTxIn \<Rightarrow> bytes" where
  "GetTxInSignatureHash E txin = hash_bytes (HashFn E) (write_CTxInShortDigest txin)"

definition point_hash :: "'e ring_env_scheme \<Rightarrow> CPubKey \<Rightarrow> bytes \<Rightarrow> chain_error + bytes" where
  "point_hash E pk tweak = (case PointHashingSuccessively (Curve E) (HashFn E) pk tweak of None \<Rightarrow> Inl Diverges | Some out \<Rightarrow> Inr out)"

text \<open>The sum of two points, by way of commitments; the code throws when it fails.\<close>

definition sum_points :: "curve \<Rightarrow> bytes \<Rightarrow> bytes \<Rightarrow> bytes option" where
  "sum_points C a b = Option.bind (commitment_sum_pos C [pubkey_to_commitment C a, pubkey_to_commitment C b]) (commitment_to_pubkey C)"

text \<open>The signature \<open>(s, R)\<close> that \<open>MakeShnorrSignatureTxIn\<close> appends, for the random secret \<open>r\<close>.\<close>

definition MakeShnorrSignatureTxIn ::
  "'e ring_env_scheme \<Rightarrow> bytes list \<Rightarrow> (uint256 \<rightharpoonup> CTransaction) \<Rightarrow> bytes \<Rightarrow> CTxIn \<Rightarrow> bytes \<Rightarrow> chain_error + CTxIn option" where
  "MakeShnorrSignatureTxIn E keys mapWallet r txin cts =
     (let prev = (case mapWallet (op_txid (prevout txin)) of None \<Rightarrow> NullTransaction | Some tx \<Rightarrow> tx); n = unat (op_n (prevout txin)) in
      if n \<ge> length (vout prev) then Inl OutOfRange
      else case findCorrespondingPrivateKey (Curve E) keys (vout prev ! n) of
        None \<Rightarrow> Inr None
      | Some pk \<Rightarrow> (case point_hash E (GetPubKey (Curve E) pk) r of
          Inl e \<Rightarrow> Inl e
        | Inr R \<Rightarrow>
            (case Option.bind (privkey_tweak_mul (Curve E) (hash_bytes (HashFn E) (R @ cts)) pk) (\<lambda>ex. privkey_tweak_add (Curve E) ex r) of
               None \<Rightarrow> Inr None
             | Some s \<Rightarrow> Inr (Some (txin\<lparr>sig_s := sig_s txin @ s, sig_R := sig_R txin @ R\<rparr>)))))"

definition MakeShnorrSignature ::
  "'e ring_env_scheme \<Rightarrow> bytes list \<Rightarrow> (uint256 \<rightharpoonup> CTransaction) \<Rightarrow> bytes \<Rightarrow> CTransaction \<Rightarrow> chain_error + CTransaction option" where
  "MakeShnorrSignature E keys mapWallet r tx =
     (if IsCoinAudit tx \<or> IsCoinBase tx then Inr (Some tx)
      else if \<not> IsCoinStake tx then Inr (Some tx)
      else case MakeShnorrSignatureTxIn E keys mapWallet r (vin tx ! 0) (GetTxInSignatureHash E (vin tx ! 0)) of
        Inl e \<Rightarrow> Inl e
      | Inr None \<Rightarrow> Inr None
      | Inr (Some txin) \<Rightarrow> Inr (Some (tx\<lparr>vin := (vin tx)[0 := txin]\<rparr>)))"

text \<open>
  The check. \<open>uint256 s(txin.s)\<close> throws unless there are 32 bytes; the result of
  \<open>ExtractPubKey\<close> is not looked at, and an invalid key is hashed like any other.
\<close>

definition VerifyShnorrKeyImageTxIn :: "'e ring_env_scheme \<Rightarrow> CTxIn \<Rightarrow> bytes \<Rightarrow> chain_error + bool" where
  "VerifyShnorrKeyImageTxIn E txin ctsHash = (case GetTransaction E (op_txid (prevout txin)) of
     None \<Rightarrow> Inr False
   | Some (prev, bh) \<Rightarrow>
       if length (sig_s txin) \<noteq> 32 then Inl (ThrownUint WrongSize)
       else if unat (op_n (prevout txin)) \<ge> length (vout prev) then Inl OutOfRange
       else let P = (case ExtractPubKey (scriptPubKey (vout prev ! unat (op_n (prevout txin)))) of None \<Rightarrow> InvalidPubKey | Some P \<Rightarrow> P);
                R = take 33 (PubKeySet (sig_R txin)) in
       case point_hash E P (sig_s txin) of
         Inl e \<Rightarrow> Inl e
       | Inr S \<Rightarrow>
           (case pubkey_tweak_mul (Curve E) (take 33 (keyImage txin)) (hash_bytes (HashFn E) (R @ ctsHash)) of
              None \<Rightarrow> Inr False
            | Some eI \<Rightarrow> (case sum_points (Curve E) R eI of None \<Rightarrow> Inl RuntimeError | Some recomputed \<Rightarrow> Inr (S = recomputed))))"

definition VerifyShnorrKeyImageTx :: "'e ring_env_scheme \<Rightarrow> CTransaction \<Rightarrow> chain_error + bool" where
  "VerifyShnorrKeyImageTx E tx =
     (if \<not> IsCoinStake tx then Inr True
      else VerifyShnorrKeyImageTxIn E (vin tx ! 0) (GetTxInSignatureHash E (vin tx ! 0)))"

section \<open>What the library documents\<close>

text \<open>
  The points that the operations return form a cyclic group of prime order. \<open>point x\<close> is the compressed key of the
  multiple \<open>x\<close> of the generator and \<open>packed x\<close> the structure of a commitment at that point; the generator for
  values is the multiple \<open>value_log\<close>, which nobody needs to know. The point at infinity has neither form, so what is in
  memory as a commitment can always be written as a key.
\<close>

record group =
  order :: int
  value_log :: int
  point :: "int \<Rightarrow> bytes"
  packed :: "int \<Rightarrow> bytes"

definition scalar :: "bytes \<Rightarrow> int" where
  "scalar b = int (le_val (rev b))"

definition secret_of :: "group \<Rightarrow> int \<Rightarrow> bytes" where
  "secret_of g x = rev (le_bytes 32 (nat (x mod order g)))"

definition finite_point :: "group \<Rightarrow> int \<Rightarrow> bool" where
  "finite_point g x \<longleftrightarrow> x mod order g \<noteq> 0"

text \<open>A tweak that the library accepts for a multiplication, and one it accepts for an addition.\<close>

definition in_range :: "group \<Rightarrow> bytes \<Rightarrow> bool" where
  "in_range g t \<longleftrightarrow> length t = 32 \<and> scalar t < order g"

definition secret_ok :: "group \<Rightarrow> bytes \<Rightarrow> bool" where
  "secret_ok g t \<longleftrightarrow> in_range g t \<and> 0 < scalar t"

definition group_laws :: "group \<Rightarrow> bool" where
  "group_laws g \<longleftrightarrow> 1 < order g \<and> order g \<le> scalar vchMaxModOrder + 1
     \<and> (\<forall>x y. finite_point g x \<longrightarrow> finite_point g y \<longrightarrow> finite_point g (x * y))
     \<and> (\<forall>x y. point g x = point g y \<longleftrightarrow> x mod order g = y mod order g)
     \<and> (\<forall>x y. x mod order g = y mod order g \<longrightarrow> packed g x = packed g y)
     \<and> (\<forall>x. valid_key (point g x) \<and> length (point g x) = 33)"

definition key_laws :: "curve \<Rightarrow> group \<Rightarrow> bool" where
  "key_laws C g \<longleftrightarrow>
     (\<forall>x t. finite_point g x \<longrightarrow> secret_ok g t \<longrightarrow> pubkey_tweak_mul C (point g x) t = Some (point g (x * scalar t)))
     \<and> (\<forall>b t r. length b \<le> 33 \<longrightarrow> pubkey_tweak_mul C b t = Some r \<longrightarrow> secret_ok g t \<and> (\<exists>x. finite_point g x \<and> b = point g x))
     \<and> (\<forall>x t. finite_point g x \<longrightarrow> in_range g t \<longrightarrow> pubkey_tweak_add C (point g x) t =
          (if finite_point g (x + scalar t) then Some (point g (x + scalar t)) else None))
     \<and> (\<forall>b t r. length b \<le> 33 \<longrightarrow> pubkey_tweak_add C b t = Some r \<longrightarrow> in_range g t \<and> (\<exists>x. finite_point g x \<and> b = point g x))
     \<and> (\<forall>a t. length a = 32 \<longrightarrow> secret_ok g t \<longrightarrow> privkey_tweak_mul C a t = Some (secret_of g (scalar a * scalar t)))
     \<and> (\<forall>a t. length a = 32 \<longrightarrow> in_range g t \<longrightarrow> privkey_tweak_add C a t =
          (if finite_point g (scalar a + scalar t) then Some (secret_of g (scalar a + scalar t)) else None))
     \<and> (\<forall>a. secret_ok g a \<longrightarrow> GetPubKey C a = point g (scalar a))"

definition commitment_laws :: "curve \<Rightarrow> group \<Rightarrow> bool" where
  "commitment_laws C g \<longleftrightarrow>
     (\<forall>b v. in_range g b \<longrightarrow> pedersen_commit C b v =
        (if finite_point g (scalar b + uint v * value_log g) then Some (packed g (scalar b + uint v * value_log g)) else None))
     \<and> (\<forall>x. finite_point g x \<longrightarrow> (\<exists>s. commitment_serialize C (packed g x) = Some s \<and> length s = 33
          \<and> commitment_parse C s = Some (packed g x)))
     \<and> (\<forall>x. finite_point g x \<longrightarrow> pubkey_to_commitment C (point g x) = packed g x)
     \<and> (\<forall>x. finite_point g x \<longrightarrow> commitment_to_pubkey C (packed g x) = Some (point g x))
     \<and> (\<forall>c. commitment_to_pubkey C c \<noteq> None)
     \<and> (\<forall>ps ns. list_all (finite_point g) (ps @ ns) \<longrightarrow> finite_point g (sum_list ps - sum_list ns) \<longrightarrow>
          commitment_sum C (map (packed g) ps) (map (packed g) ns) = Some (packed g (sum_list ps - sum_list ns)))
     \<and> (\<forall>ps. list_all (finite_point g) ps \<longrightarrow> finite_point g (sum_list ps) \<longrightarrow>
          commitment_sum_pos C (map (packed g) ps) = Some (packed g (sum_list ps)))
     \<and> (\<forall>bs n. list_all (in_range g) bs \<longrightarrow> n \<le> length bs \<longrightarrow>
          blind_sum C bs n = Some (secret_of g (sum_list (map scalar (take n bs)) - sum_list (map scalar (drop n bs)))))"

definition curve_laws :: "curve \<Rightarrow> group \<Rightarrow> bool" where
  "curve_laws C g \<longleftrightarrow> group_laws g \<and> key_laws C g \<and> commitment_laws C g"

section \<open>Scalars and points\<close>

lemma scalar_bounds: "0 \<le> scalar b" "length b = 32 \<Longrightarrow> scalar b < 2 ^ 256"
proof -
  show "0 \<le> scalar b" by (simp add: scalar_def)
  assume "length b = 32"
  then have "le_val (rev b) < 256 ^ 32" using le_val_less [of "rev b"] by simp
  then have "int (le_val (rev b)) < int (256 ^ 32)" by (simp only: of_nat_less_iff)
  then show "scalar b < 2 ^ 256" by (simp add: scalar_def)
qed

lemma group_facts:
  assumes "group_laws g"
  shows "1 < order g" "order g \<le> 2 ^ 256" "order g \<le> scalar vchMaxModOrder + 1"
    and "finite_point g x \<Longrightarrow> finite_point g y \<Longrightarrow> finite_point g (x * y)"
    and "point g x = point g y \<longleftrightarrow> x mod order g = y mod order g"
    and "x mod order g = y mod order g \<Longrightarrow> packed g x = packed g y"
    and "valid_key (point g x)" "length (point g x) = 33"
proof -
  show "1 < order g" and o: "order g \<le> scalar vchMaxModOrder + 1" using assms unfolding group_laws_def by blast+
  have "scalar vchMaxModOrder < 2 ^ 256" by (rule scalar_bounds(2)) (simp add: vchMaxModOrder_def)
  then show "order g \<le> 2 ^ 256" using o by linarith
  show "finite_point g x \<Longrightarrow> finite_point g y \<Longrightarrow> finite_point g (x * y)"
    and "point g x = point g y \<longleftrightarrow> x mod order g = y mod order g"
    and "x mod order g = y mod order g \<Longrightarrow> packed g x = packed g y"
    and "valid_key (point g x)" "length (point g x) = 33"
    using assms unfolding group_laws_def by blast+
qed

lemma length_secret_of [simp]: "length (secret_of g x) = 32"
  by (simp add: secret_of_def)

lemma scalar_secret_of:
  assumes "group_laws g"
  shows "scalar (secret_of g x) = x mod order g"
proof -
  have n: "0 \<le> x mod order g" "x mod order g < order g" "order g \<le> 2 ^ 256" using group_facts(1,2) [OF assms] by simp_all
  then have "x mod order g < 2 ^ 256" by linarith
  then have "nat (x mod order g) < nat (2 ^ 256)" using n by (simp only: nat_less_eq_zless)
  then have "nat (x mod order g) < 256 ^ 32" by (simp add: nat_power_eq)
  then show ?thesis using n by (simp add: secret_of_def scalar_def le_val_le_bytes)
qed

lemma secret_of_range:
  assumes "group_laws g"
  shows "in_range g (secret_of g x)" "secret_ok g (secret_of g x) \<longleftrightarrow> finite_point g x"
proof -
  have "0 \<le> x mod order g" "x mod order g < order g" using group_facts(1) [OF assms] by simp_all
  then show "in_range g (secret_of g x)" "secret_ok g (secret_of g x) \<longleftrightarrow> finite_point g x"
    using scalar_secret_of [OF assms] by (auto simp: in_range_def secret_ok_def finite_point_def)
qed

lemma secret_okD: "secret_ok g t \<Longrightarrow> length t = 32 \<and> 0 < scalar t \<and> scalar t < order g \<and> in_range g t"
  by (simp add: secret_ok_def in_range_def)

lemma secret_ok_finite: "secret_ok g t \<Longrightarrow> finite_point g (scalar t)"
  by (simp add: finite_point_def secret_ok_def in_range_def)

lemma secret_of_scalar:
  assumes "in_range g t"
  shows "secret_of g (scalar t) = t"
proof -
  have l: "length (rev t) = 32" "scalar t mod order g = scalar t"
    using assms scalar_bounds(1) [of t] by (simp_all add: in_range_def)
  then show ?thesis using le_bytes_le_val [of "rev t"] by (simp add: secret_of_def scalar_def)
qed

lemma finite_mod: "finite_point g (x mod order g) \<longleftrightarrow> finite_point g x"
  by (simp add: finite_point_def)

lemma point_mod: "group_laws g \<Longrightarrow> point g (x mod order g) = point g x"
  using group_facts(5) by simp

lemma finite_cong: "x mod order g = y mod order g \<Longrightarrow> finite_point g x \<longleftrightarrow> finite_point g y"
  by (simp add: finite_point_def)

text \<open>The laws as rules.\<close>

lemma key_facts:
  assumes "curve_laws C g"
  shows "group_laws g"
    and "finite_point g x \<Longrightarrow> secret_ok g t \<Longrightarrow> pubkey_tweak_mul C (point g x) t = Some (point g (x * scalar t))"
    and "length b \<le> 33 \<Longrightarrow> pubkey_tweak_mul C b t = Some r \<Longrightarrow> secret_ok g t \<and> (\<exists>x. finite_point g x \<and> b = point g x)"
    and "finite_point g x \<Longrightarrow> in_range g t \<Longrightarrow> pubkey_tweak_add C (point g x) t =
          (if finite_point g (x + scalar t) then Some (point g (x + scalar t)) else None)"
    and "length b \<le> 33 \<Longrightarrow> pubkey_tweak_add C b t = Some r \<Longrightarrow> in_range g t \<and> (\<exists>x. finite_point g x \<and> b = point g x)"
    and "length a = 32 \<Longrightarrow> secret_ok g t \<Longrightarrow> privkey_tweak_mul C a t = Some (secret_of g (scalar a * scalar t))"
    and "length a = 32 \<Longrightarrow> in_range g t \<Longrightarrow> privkey_tweak_add C a t =
          (if finite_point g (scalar a + scalar t) then Some (secret_of g (scalar a + scalar t)) else None)"
    and "secret_ok g a \<Longrightarrow> GetPubKey C a = point g (scalar a)"
  using assms unfolding curve_laws_def key_laws_def by metis+

lemma commitment_facts:
  assumes "curve_laws C g"
  shows "in_range g b \<Longrightarrow> pedersen_commit C b v =
        (if finite_point g (scalar b + uint v * value_log g) then Some (packed g (scalar b + uint v * value_log g)) else None)"
    and "finite_point g x \<Longrightarrow> \<exists>s. commitment_serialize C (packed g x) = Some s \<and> length s = 33
          \<and> commitment_parse C s = Some (packed g x)"
    and "finite_point g x \<Longrightarrow> pubkey_to_commitment C (point g x) = packed g x"
    and "finite_point g x \<Longrightarrow> commitment_to_pubkey C (packed g x) = Some (point g x)"
    and "commitment_to_pubkey C c \<noteq> None"
    and "list_all (finite_point g) (ps @ ns) \<Longrightarrow> finite_point g (sum_list ps - sum_list ns) \<Longrightarrow>
          commitment_sum C (map (packed g) ps) (map (packed g) ns) = Some (packed g (sum_list ps - sum_list ns))"
    and "list_all (finite_point g) ps \<Longrightarrow> finite_point g (sum_list ps) \<Longrightarrow>
          commitment_sum_pos C (map (packed g) ps) = Some (packed g (sum_list ps))"
    and "list_all (in_range g) bs \<Longrightarrow> n \<le> length bs \<Longrightarrow>
          blind_sum C bs n = Some (secret_of g (sum_list (map scalar (take n bs)) - sum_list (map scalar (drop n bs))))"
  using assms unfolding curve_laws_def commitment_laws_def by metis+

lemma sum_points_points:
  assumes "curve_laws C g" "finite_point g x" "finite_point g y" "finite_point g (x + y)"
  shows "sum_points C (point g x) (point g y) = Some (point g (x + y))"
  using commitment_facts(3,4) [OF assms(1)] assms(2-4) commitment_facts(7) [OF assms(1), of "[x, y]"]
  by (simp add: sum_points_def)

text \<open>
  Hashing to a point: when it ends, it has found one point, the same for every tweak, and returns the multiple of
  it by the tweak.
\<close>

lemma rehash_key_length: "\<forall>b. length (Hash b) = 8 \<Longrightarrow> length (KeyBytes (rehash_key Hash pk)) \<le> 33"
  by (auto simp: rehash_key_def PubKeySet_def KeyBytes_def PubKeySize_def GetLen_def InvalidPubKey_def hash_bytes_def Let_def)

definition hashes_to_point :: "curve \<Rightarrow> group \<Rightarrow> (bytes \<Rightarrow> uint256) \<Rightarrow> CPubKey \<Rightarrow> int \<Rightarrow> bool" where
  "hashes_to_point C g Hash k y \<longleftrightarrow> finite_point g y
     \<and> (\<forall>u. secret_ok g u \<longrightarrow> point_hash_loop C Hash k u = Some (point g (y * scalar u)))"

lemma point_hash_loop_point:
  assumes laws: "curve_laws C g" and "length (KeyBytes k) \<le> 33" "\<forall>b. length (Hash b) = 8" "point_hash_loop C Hash k t = Some r"
  shows "\<exists>y. hashes_to_point C g Hash k y \<and> secret_ok g t \<and> r = point g (y * scalar t)"
proof -
  have "curve_laws C g \<longrightarrow> length (KeyBytes k) \<le> 33 \<longrightarrow> (\<forall>b. length (Hash b) = 8) \<longrightarrow>
     (\<exists>y. hashes_to_point C g Hash k y \<and> secret_ok g t \<and> r = point g (y * scalar t))"
  proof (rule point_hash_loop.raw_induct [OF _ assms(4)], intro impI)
    fix loop C Hash k t r
    assume IH: "\<And>C Hash k t r. loop C Hash k t = Some r \<Longrightarrow> curve_laws C g \<longrightarrow> length (KeyBytes k) \<le> 33 \<longrightarrow> (\<forall>b. length (Hash b) = 8) \<longrightarrow>
       (\<exists>y. hashes_to_point C g Hash k y \<and> secret_ok g t \<and> r = point g (y * scalar t))"
      and step: "(case pubkey_tweak_mul C (KeyBytes k) t of None \<Rightarrow> loop C Hash (rehash_key Hash k) t | Some out \<Rightarrow> Some out) = Some r"
      and laws: "curve_laws C g" and k: "length (KeyBytes k) \<le> 33" "\<forall>b. length (Hash b) = 8"
    show "\<exists>y. hashes_to_point C g Hash k y \<and> secret_ok g t \<and> r = point g (y * scalar t)"
    proof (cases "pubkey_tweak_mul C (KeyBytes k) t")
      case (Some out)
      then obtain x where x: "finite_point g x" "KeyBytes k = point g x" and t: "secret_ok g t"
        using key_facts(3) [OF laws k(1)] by blast
      have "point_hash_loop C Hash k u = Some (point g (x * scalar u))" if "secret_ok g u" for u
        using key_facts(2) [OF laws x(1) that] x(2) by (subst point_hash_loop.simps) simp
      then have "hashes_to_point C g Hash k x" using x(1) by (simp add: hashes_to_point_def)
      moreover have "r = point g (x * scalar t)" using step Some key_facts(2) [OF laws x(1) t] x(2) by simp
      ultimately show ?thesis using t by blast
    next
      case None
      then obtain y where y: "hashes_to_point C g Hash (rehash_key Hash k) y" "secret_ok g t" "r = point g (y * scalar t)"
        using IH [of C Hash "rehash_key Hash k" t r] step laws k(2) rehash_key_length [OF k(2)] by auto
      have no: "pubkey_tweak_mul C (KeyBytes k) u = None" for u
      proof (rule ccontr)
        assume "\<not> ?thesis"
        then obtain x where "finite_point g x" "KeyBytes k = point g x" using key_facts(3) [OF laws k(1)] by blast
        then show False using key_facts(2) [OF laws _ y(2)] None by simp
      qed
      have "point_hash_loop C Hash k u = point_hash_loop C Hash (rehash_key Hash k) u" for u
        by (subst point_hash_loop.simps) (simp add: no)
      then have "hashes_to_point C g Hash k y" using y(1) by (simp add: hashes_to_point_def)
      then show ?thesis using y(2,3) by blast
    qed
  qed
  then show ?thesis using assms(1-3) by blast
qed

section \<open>An example of a curve\<close>

text \<open>A group of seven elements in which a point is written as its logarithm, which satisfies the laws.\<close>

definition small_group :: group where
  "small_group = \<lparr>order = 7, value_log = 3, point = (\<lambda>x. 2 # rev (le_bytes 32 (nat (x mod 7)))),
     packed = (\<lambda>x. 8 # rev (le_bytes 32 (nat (x mod 7))))\<rparr>"

definition small_log :: "bytes \<Rightarrow> int option" where
  "small_log b = (let x = scalar (tl b) in if 0 < x \<and> x < 7 \<and> b = point small_group x then Some x else None)"

definition small_secret :: "bytes \<Rightarrow> bool" where
  "small_secret t \<longleftrightarrow> length t = 32 \<and> scalar t < 7"

definition small_sum :: "bytes list \<Rightarrow> int" where
  "small_sum bs = sum_list (map (\<lambda>b. scalar (tl b)) bs)"

definition small_curve :: curve where
  "small_curve = \<lparr>
     pubkey_tweak_mul = (\<lambda>b t. if small_secret t \<and> 0 < scalar t
        then map_option (\<lambda>x. point small_group (x * scalar t)) (small_log b) else None),
     pubkey_tweak_add = (\<lambda>b t. if small_secret t then
        (case small_log b of None \<Rightarrow> None
         | Some x \<Rightarrow> if (x + scalar t) mod 7 \<noteq> 0 then Some (point small_group (x + scalar t)) else None) else None),
     privkey_tweak_mul = (\<lambda>a t. if small_secret t \<and> 0 < scalar t then Some (secret_of small_group (scalar a * scalar t)) else None),
     privkey_tweak_add = (\<lambda>a t. if small_secret t \<and> (scalar a + scalar t) mod 7 \<noteq> 0
        then Some (secret_of small_group (scalar a + scalar t)) else None),
     GetPubKey = (\<lambda>a. point small_group (scalar a)),
     pedersen_commit = (\<lambda>b v. if (scalar b + uint v * 3) mod 7 \<noteq> 0 then Some (packed small_group (scalar b + uint v * 3)) else None),
     commitment_parse = Some, commitment_serialize = Some,
     pubkey_to_commitment = (\<lambda>b. packed small_group (scalar (tl b))),
     commitment_to_pubkey = (\<lambda>b. Some (point small_group (scalar (tl b)))),
     commitment_sum = (\<lambda>ps ns. Some (packed small_group (small_sum ps - small_sum ns))),
     commitment_sum_pos = (\<lambda>ps. Some (packed small_group (small_sum ps))),
     blind_sum = (\<lambda>bs n. Some (secret_of small_group (sum_list (map scalar (take n bs)) - sum_list (map scalar (drop n bs)))))\<rparr>"

lemma small_scalar: "scalar (rev (le_bytes 32 (nat (x mod 7)))) = x mod 7"
proof -
  have "nat (x mod 7) < 256 ^ 32" by (rule less_le_trans [of _ 7]) simp_all
  then show ?thesis by (simp add: scalar_def le_val_le_bytes)
qed

lemma small_group_simps [simp]:
  "order small_group = 7" "value_log small_group = 3"
  "scalar (tl (point small_group x)) = x mod 7" "scalar (tl (packed small_group x)) = x mod 7"
  "length (point small_group x) = 33" "length (packed small_group x) = 33" "hd (point small_group x) = 2"
  using small_scalar by (simp_all add: small_group_def)

lemma small_point_eq: "point small_group x = point small_group y \<longleftrightarrow> x mod 7 = y mod 7"
proof
  assume "point small_group x = point small_group y"
  then have "scalar (tl (point small_group x)) = scalar (tl (point small_group y))" by simp
  then show "x mod 7 = y mod 7" by (simp only: small_group_simps)
next
  assume "x mod 7 = y mod 7"
  then show "point small_group x = point small_group y" by (simp only: small_group_def group.simps)
qed

lemma small_packed_eq: "x mod 7 = y mod 7 \<Longrightarrow> packed small_group x = packed small_group y"
  by (simp only: small_group_def group.simps)

lemma small_group_laws: "group_laws small_group"
proof -
  have p: "x * y mod 7 \<noteq> 0" if "x mod 7 \<noteq> 0" "y mod 7 \<noteq> 0" for x y :: int
  proof -
    have *: "a * b mod 7 \<noteq> 0" if "a \<in> {1, 2, 3, 4, 5, 6}" "b \<in> {1, 2, 3, 4, 5, 6}" for a b :: int using that by auto
    have "0 \<le> x mod 7" "x mod 7 < 7" "0 \<le> y mod 7" "y mod 7 < 7" by simp_all
    then have "x mod 7 \<in> {1, 2, 3, 4, 5, 6}" "y mod 7 \<in> {1, 2, 3, 4, 5, 6}" using that by auto
    then have "(x mod 7) * (y mod 7) mod 7 \<noteq> 0" by (rule *)
    then show ?thesis unfolding mod_mult_eq .
  qed
  have m: "7 \<le> scalar vchMaxModOrder + 1" by (simp add: scalar_def vchMaxModOrder_def)
  have v: "valid_key (point small_group x)" for x by (simp add: valid_key_def GetLen_def small_group_def)
  show ?thesis unfolding group_laws_def finite_point_def small_group_simps
    by (intro conjI allI impI) (simp, rule m, erule (1) p, rule small_point_eq, erule small_packed_eq, rule v, rule refl)
qed

lemma small_log_point: "small_log b = Some x \<Longrightarrow> 0 < x \<and> x < 7 \<and> b = point small_group x"
  by (auto simp: small_log_def Let_def split: if_splits)

lemma small_log_finite:
  assumes "x mod 7 \<noteq> 0"
  shows "small_log (point small_group x) = Some (x mod 7)"
proof -
  have x: "0 \<le> x mod 7" "x mod 7 < 7" "point small_group x = point small_group (x mod 7)" by (simp_all add: small_point_eq)
  then have "0 < x mod 7" using assms by linarith
  then show ?thesis using x by (simp add: small_log_def Let_def)
qed

lemma small_key_laws: "key_laws small_curve small_group"
proof -
  have s: "secret_ok small_group t \<longleftrightarrow> small_secret t \<and> 0 < scalar t" "in_range small_group t \<longleftrightarrow> small_secret t" for t
    by (simp_all add: secret_ok_def in_range_def small_secret_def)
  have f: "finite_point small_group x \<longleftrightarrow> x mod 7 \<noteq> 0" for x by (simp add: finite_point_def)
  have c: "(x mod 7 + y) mod 7 = (x + y) mod 7" "x mod 7 * y mod 7 = x * y mod 7" for x y :: int
    by (simp_all add: mod_simps)
  show ?thesis unfolding key_laws_def s f
  proof (intro conjI allI impI)
    fix b t r
    assume "length b \<le> 33" "pubkey_tweak_mul small_curve b t = Some r"
    then obtain x where x: "small_secret t" "0 < scalar t" "small_log b = Some x" by (auto simp: small_curve_def split: if_splits)
    then show "small_secret t" "0 < scalar t" "\<exists>x. x mod 7 \<noteq> 0 \<and> b = point small_group x"
      using small_log_point [OF x(3)] by (auto intro!: exI [of _ x])
  next
    fix b t r
    assume "length b \<le> 33" "pubkey_tweak_add small_curve b t = Some r"
    then obtain x where x: "small_secret t" "small_log b = Some x" by (auto simp: small_curve_def split: if_splits option.splits)
    then show "small_secret t" "\<exists>x. x mod 7 \<noteq> 0 \<and> b = point small_group x"
      using small_log_point [OF x(2)] by (auto intro!: exI [of _ x])
  qed (simp_all add: small_curve_def small_log_finite small_point_eq c)
qed

lemma small_sum_packed: "small_sum (map (packed small_group) ps) mod 7 = sum_list ps mod 7"
proof (induction ps)
  case (Cons p ps)
  then show ?case using mod_add_cong [of "p mod 7" 7 p] by (simp add: small_sum_def)
qed (simp add: small_sum_def)

lemma small_commitment_laws: "commitment_laws small_curve small_group"
proof -
  have f: "finite_point small_group x \<longleftrightarrow> x mod 7 \<noteq> 0" for x by (simp add: finite_point_def)
  have d: "(small_sum (map (packed small_group) ps) - small_sum (map (packed small_group) ns)) mod 7 = (sum_list ps - sum_list ns) mod 7"
    for ps ns by (rule mod_diff_cong) (rule small_sum_packed)+
  show ?thesis unfolding commitment_laws_def f
    by (intro conjI allI impI)
      (simp_all add: small_curve_def small_point_eq small_packed_eq [OF d] small_packed_eq [OF small_sum_packed]
        small_packed_eq [of "_ mod 7"])
qed

lemma small_curve_laws: "curve_laws small_curve small_group"
  using small_group_laws small_key_laws small_commitment_laws by (simp add: curve_laws_def)

section \<open>Properties\<close>

text \<open>The comparison of byte strings is that of the numbers they stand for.\<close>

lemma scalar_be_val: "scalar b = int (be_val b)"
  by (simp add: scalar_def be_val_def)

lemma CompareBigEndian_sgn: "CompareBigEndian a b = sgn (scalar a - scalar b)"
  by (simp add: CompareBigEndian_val scalar_be_val)

lemma KeyCheck_iff: "KeyCheck b \<longleftrightarrow> 0 < scalar b \<and> scalar b \<le> scalar vchMaxModOrder"
  by (simp add: KeyCheck_def CompareBigEndian_sgn sgn_if scalar_def [of "[]"])

lemma KeySet_secret:
  assumes "group_laws g" "secret_ok g b"
  shows "KeySet b = Some b"
  using assms(2) group_facts(3) [OF assms(1)] by (auto simp: KeySet_def KeyCheck_iff secret_ok_def in_range_def)

text \<open>The signature equation: \<open>s * H(P)\<close> is \<open>R + e * I\<close> when \<open>R\<close> and \<open>I\<close> are the multiples by \<open>r\<close> and \<open>z\<close> and \<open>s = r + e * z\<close>.\<close>

lemma point_hash_iff: "point_hash E k t = Inr r \<longleftrightarrow> PointHashingSuccessively (Curve E) (HashFn E) k t = Some r"
  by (simp add: point_hash_def split: option.split)

lemma point_hash_point:
  assumes "curve_laws (Curve E) g" "\<forall>b. length (HashFn E b) = 8" "point_hash E pk t = Inr r"
  shows "\<exists>y. finite_point g y \<and> secret_ok g t \<and> r = point g (y * scalar t)
    \<and> (\<forall>u. secret_ok g u \<longrightarrow> point_hash E pk u = Inr (point g (y * scalar u)))"
proof -
  have "point_hash_loop (Curve E) (HashFn E) (rehash_key (HashFn E) pk) t = Some r"
    using assms(3) by (simp add: point_hash_iff PointHashingSuccessively_def)
  then obtain y where "hashes_to_point (Curve E) g (HashFn E) (rehash_key (HashFn E) pk) y" "secret_ok g t" "r = point g (y * scalar t)"
    using point_hash_loop_point [OF assms(1) rehash_key_length [OF assms(2)] assms(2)] by blast
  then show ?thesis by (auto simp: hashes_to_point_def point_hash_iff PointHashingSuccessively_def)
qed

lemma schnorr_equation:
  assumes laws: "curve_laws C g" and y: "finite_point g y" and s: "secret_ok g r" "secret_ok g z" "secret_ok g e"
    and ex: "privkey_tweak_mul C e z = Some ex" and add: "privkey_tweak_add C ex r = Some s"
  shows "secret_ok g s" "pubkey_tweak_mul C (point g (y * scalar z)) e = Some (point g (y * scalar z * scalar e))"
    and "sum_points C (point g (y * scalar r)) (point g (y * scalar z * scalar e)) = Some (point g (y * scalar s))"
proof -
  note G = key_facts(1) [OF laws]
  have e': "ex = secret_of g (scalar e * scalar z)" using ex key_facts(6) [OF laws, of e z] s by (simp add: secret_okD)
  let ?v = "scalar ex + scalar r"
  have v: "finite_point g ?v" "s = secret_of g ?v"
    using add key_facts(7) [OF laws, of ex r] s(1) e' by (auto simp: secret_okD split: if_splits)
  then show ok: "secret_ok g s" using secret_of_range(2) [OF G] by simp
  have f: "finite_point g (scalar r)" "finite_point g (scalar z)" "finite_point g (scalar e)" using s by (simp_all add: secret_ok_finite)
  have yz: "finite_point g (y * scalar z)" "finite_point g (y * scalar r)" "finite_point g (y * scalar z * scalar e)"
    using group_facts(4) [OF G] y f by blast+
  show "pubkey_tweak_mul C (point g (y * scalar z)) e = Some (point g (y * scalar z * scalar e))"
    by (rule key_facts(2) [OF laws yz(1) s(3)])
  have "scalar s mod order g = ?v mod order g" using v(2) scalar_secret_of [OF G] by simp
  also have "\<dots> = (scalar e * scalar z + scalar r) mod order g" unfolding e' scalar_secret_of [OF G] by (simp add: mod_simps)
  finally have c: "(y * scalar r + y * scalar z * scalar e) mod order g = y * scalar s mod order g"
    using mod_mult_cong [of y "order g" y "scalar s" "scalar e * scalar z + scalar r"] by (simp add: algebra_simps)
  have "finite_point g (y * scalar s)" using group_facts(4) [OF G y] secret_ok_finite [OF ok] by simp
  then have "finite_point g (y * scalar r + y * scalar z * scalar e)" using finite_cong [OF c] by simp
  then show "sum_points C (point g (y * scalar r)) (point g (y * scalar z * scalar e)) = Some (point g (y * scalar s))"
    using sum_points_points [OF laws yz(2,3)] group_facts(5) [OF G, of "y * scalar r + y * scalar z * scalar e" "y * scalar s"] c by simp
qed

text \<open>The check on a signature whose parts are points and scalars.\<close>

lemma take_point: "group_laws g \<Longrightarrow> take 33 (PubKeySet (point g x)) = point g x" "group_laws g \<Longrightarrow> take 33 (point g x) = point g x"
  "group_laws g \<Longrightarrow> KeyBytes (point g x) = point g x" "group_laws g \<Longrightarrow> PubKeySet (point g x) = point g x"
  using group_facts(7,8) [of g x] valid_key_facts [of "point g x"] by simp_all

lemma verify_schnorr:
  assumes laws: "curve_laws (Curve E) g" and H: "\<forall>b. length (HashFn E b) = 8"
    and prev: "GetTransaction E (op_txid (prevout txin)) = Some (prev, bh)" "unat (op_n (prevout txin)) < length (vout prev)"
      "ExtractPubKey (scriptPubKey (vout prev ! unat (op_n (prevout txin)))) = Some P"
    and ki: "point_hash E P z = Inr ki" and R: "point_hash E P r = Inr R"
    and e: "secret_ok g (hash_bytes (HashFn E) (R @ cts))"
    and s: "Option.bind (privkey_tweak_mul (Curve E) (hash_bytes (HashFn E) (R @ cts)) z) (\<lambda>ex. privkey_tweak_add (Curve E) ex r) = Some s"
    and txin: "keyImage txin = ki" "sig_s txin = s" "sig_R txin = R"
  shows "VerifyShnorrKeyImageTxIn E txin cts = Inr True"
proof -
  note G = key_facts(1) [OF laws]
  obtain y where y: "finite_point g y" "secret_ok g z" "ki = point g (y * scalar z)"
      "\<And>u. secret_ok g u \<Longrightarrow> point_hash E P u = Inr (point g (y * scalar u))"
    using point_hash_point [OF laws H ki] by blast
  have rz: "secret_ok g r" using point_hash_point [OF laws H R] by blast
  then have R': "R = point g (y * scalar r)" using R y(4) by simp
  obtain ex where ex: "privkey_tweak_mul (Curve E) (hash_bytes (HashFn E) (R @ cts)) z = Some ex" "privkey_tweak_add (Curve E) ex r = Some s"
    using s by (cases "privkey_tweak_mul (Curve E) (hash_bytes (HashFn E) (R @ cts)) z") simp_all
  note eq = schnorr_equation [OF laws y(1) rz y(2) e ex]
  have "length s = 32" using eq(1) by (simp add: secret_okD)
  then show ?thesis
    using prev txin y(3,4) R' eq G by (simp add: VerifyShnorrKeyImageTxIn_def take_point)
qed

text \<open>What the wallet knows of its keys: a key whose script is the one of a point.\<close>

lemma key_for_script_Some:
  "key_for_script C keys script = Some key \<Longrightarrow> key \<in> set keys \<and> GetScriptForPubKey (GetPubKey C key) = script"
  by (induction keys) (auto split: if_splits)

lemma ExtractPubKey_point:
  assumes "valid_key pk"
  shows "ExtractPubKey (GetScriptForPubKey pk) = Some pk"
  using valid_key_facts [OF assms] solver_P2PK [of pk] by (simp add: ExtractPubKey_def GetScriptForPubKey_def)

lemma wallet_key_extract:
  assumes "curve_laws C g" "\<forall>k\<in>set keys. secret_ok g k" "key_for_script C keys script = Some key"
  shows "secret_ok g key" "GetPubKey C key = point g (scalar key)" "ExtractPubKey script = Some (GetPubKey C key)"
proof -
  have k: "key \<in> set keys" "GetScriptForPubKey (GetPubKey C key) = script" using key_for_script_Some [OF assms(3)] by simp_all
  then show "secret_ok g key" using assms(2) by simp
  then show p: "GetPubKey C key = point g (scalar key)" using key_facts(8) [OF assms(1)] by simp
  then have "valid_key (GetPubKey C key)" using group_facts(7) [OF key_facts(1) [OF assms(1)]] by simp
  then show "ExtractPubKey script = Some (GetPubKey C key)" using ExtractPubKey_point k(2) by auto
qed

text \<open>
  C9: the signature that the wallet puts on a stake passes the check of the node: the stake pays from an output of the wallet,
  its key image is the one the wallet computes for that output, and the challenge is a scalar in range.
\<close>

theorem stake_signature_round_trip:
  assumes "curve_laws (Curve E) g" "\<forall>b. length (HashFn E b) = 8" "\<forall>k\<in>set keys. secret_ok g k"
    and "MakeShnorrSignature E keys mapWallet r tx = Inr (Some tx')" "IsCoinStake tx"
    and "sig_s (vin tx ! 0) = []" "sig_R (vin tx ! 0) = []"
    and "mapWallet (op_txid (prevout (vin tx ! 0))) = Some prev" "GetTransaction E (op_txid (prevout (vin tx ! 0))) = Some (prev, bh)"
    and "generateKeyImage (Curve E) (HashFn E) keys (scriptPubKey (vout prev ! unat (op_n (prevout (vin tx ! 0)))))
           = Some (Some (keyImage (vin tx ! 0)))"
    and "secret_ok g (hash_bytes (HashFn E) (sig_R (vin tx' ! 0) @ GetTxInSignatureHash E (vin tx ! 0)))"
  shows "VerifyShnorrKeyImageTx E tx' = Inr True"
proof -
  let ?in = "vin tx ! 0" and ?H = "GetTxInSignatureHash E (vin tx ! 0)" and ?n = "unat (op_n (prevout (vin tx ! 0)))"
  note laws = assms(1) and H = assms(2)
  have null: "\<not> OutPointIsNull (prevout ?in)" "vin tx \<noteq> []" using assms(5) by (auto simp: IsCoinStake_def)
  then have nc: "\<not> (IsCoinAudit tx \<or> IsCoinBase tx)" by (simp add: IsCoinAudit_def IsCoinBase_def)
  obtain txin where t: "MakeShnorrSignatureTxIn E keys mapWallet r ?in ?H = Inr (Some txin)" "tx' = tx\<lparr>vin := (vin tx)[0 := txin]\<rparr>"
    using assms(4,5) nc by (auto simp: MakeShnorrSignature_def split: sum.splits option.splits)
  then have n: "?n < length (vout prev)" using assms(8) by (auto simp: MakeShnorrSignatureTxIn_def Let_def not_le [symmetric] split: if_splits)
  obtain pk where pk: "key_for_script (Curve E) keys (scriptPubKey (vout prev ! ?n)) = Some pk"
    using t(1) assms(8) n by (auto simp: MakeShnorrSignatureTxIn_def findCorrespondingPrivateKey_def Let_def split: option.splits)
  note key = wallet_key_extract [OF laws assms(3) pk]
  let ?P = "GetPubKey (Curve E) pk"
  obtain R where R: "point_hash E ?P r = Inr R"
    using t(1) assms(8) n pk by (auto simp: MakeShnorrSignatureTxIn_def findCorrespondingPrivateKey_def Let_def split: sum.splits)
  obtain s where s: "Option.bind (privkey_tweak_mul (Curve E) (hash_bytes (HashFn E) (R @ ?H)) pk) (\<lambda>ex. privkey_tweak_add (Curve E) ex r) = Some s"
      "txin = ?in\<lparr>sig_s := s, sig_R := R\<rparr>"
    using t(1) assms(6-8) n pk R
    by (auto simp: MakeShnorrSignatureTxIn_def findCorrespondingPrivateKey_def Let_def simp del: bind_eq_Some_conv split: sum.splits option.splits)
  obtain ki where ki: "point_hash_loop (Curve E) (HashFn E) (rehash_key (HashFn E) ?P) pk = Some ki" "keyImage ?in = PubKeySet ki"
    using assms(10) pk by (auto simp: generateKeyImage_def)
  then have K: "point_hash E ?P pk = Inr ki" by (simp add: point_hash_iff PointHashingSuccessively_def)
  then have ki': "PubKeySet ki = ki" using point_hash_point [OF laws H K] take_point(4) [OF key_facts(1) [OF laws]] by auto
  have in0: "vin tx' ! 0 = txin" using t(2) null by simp
  have "VerifyShnorrKeyImageTxIn E txin ?H = Inr True"
    by (rule verify_schnorr [OF laws H, where P = ?P and z = pk and ki = ki and r = r and R = R and s = s and prev = prev and bh = bh])
      (use assms(9,11) n key(3) K R s ki' ki(2) in0 in simp_all)
  moreover have "GetTxInSignatureHash E txin = ?H"
    using s(2) by (simp add: GetTxInSignatureHash_def write_CTxInShortDigest_def)
  moreover have "IsCoinStake tx'" using assms(5) t(2) s(2) null(2) by (cases "vin tx") (simp_all add: IsCoinStake_def)
  ultimately show ?thesis using in0 by (simp add: VerifyShnorrKeyImageTx_def)
qed

text \<open>
  C10: the check of a stake does not tie the key image to the key of the output: for an output with the key \<open>P\<close>, whoever takes
  any scalars \<open>z\<close> and \<open>r\<close> obtains a key image and a signature for it that pass, from public data alone, and two scalars
  give two key images.
\<close>

theorem stake_key_image_not_bound:
  assumes "curve_laws (Curve E) g" "\<forall>b. length (HashFn E b) = 8"
    and "GetTransaction E (op_txid (prevout txin)) = Some (prev, bh)" "unat (op_n (prevout txin)) < length (vout prev)"
      "ExtractPubKey (scriptPubKey (vout prev ! unat (op_n (prevout txin)))) = Some P"
    and "point_hash E P z = Inr ki" "point_hash E P r = Inr R" "point_hash E P z' = Inr ki'"
    and "secret_ok g (hash_bytes (HashFn E) (R @ cts))"
    and "Option.bind (privkey_tweak_mul (Curve E) (hash_bytes (HashFn E) (R @ cts)) z) (\<lambda>ex. privkey_tweak_add (Curve E) ex r) = Some s"
  shows "VerifyShnorrKeyImageTxIn E (txin\<lparr>keyImage := ki, sig_s := s, sig_R := R\<rparr>) cts = Inr True
    \<and> (ki = ki' \<longleftrightarrow> z = z')"
proof
  note laws = assms(1) and G = key_facts(1) [OF assms(1)]
  show "VerifyShnorrKeyImageTxIn E (txin\<lparr>keyImage := ki, sig_s := s, sig_R := R\<rparr>) cts = Inr True"
    by (rule verify_schnorr [OF laws assms(2) _ _ _ assms(6,7,9,10)]) (use assms(3-5) in simp_all)
  obtain y where y: "finite_point g y" "secret_ok g z" "ki = point g (y * scalar z)"
      "\<And>u. secret_ok g u \<Longrightarrow> point_hash E P u = Inr (point g (y * scalar u))"
    using point_hash_point [OF laws assms(2,6)] by blast
  have z': "secret_ok g z'" using point_hash_point [OF laws assms(2,8)] by blast
  have "z = z'" if "ki = ki'"
  proof -
    have "point g (y * scalar z) = point g (y * scalar z')" using that y(3) y(4) [OF z'] assms(8) by simp
    then have "y * scalar z mod order g = y * scalar z' mod order g" by (simp only: group_facts(5) [OF G])
    then have "order g dvd y * (scalar z - scalar z')" unfolding right_diff_distrib mod_eq_dvd_iff .
    then have "(y * (scalar z - scalar z')) mod order g = 0" by (rule dvd_imp_mod_0)
    then have "\<not> finite_point g (y * (scalar z - scalar z'))" by (simp only: finite_point_def not_not)
    then have "\<not> finite_point g (scalar z - scalar z')" using group_facts(4) [OF G y(1)] by blast
    then have "order g dvd scalar z - scalar z'" by (simp add: finite_point_def dvd_eq_mod_eq_0)
    moreover have "\<bar>scalar z - scalar z'\<bar> < order g" using y(2) z' by (auto simp: secret_ok_def in_range_def)
    ultimately have "scalar z = scalar z'" using dvd_imp_le_int [of "scalar z - scalar z'" "order g"] by fastforce
    then have "secret_of g (scalar z) = secret_of g (scalar z')" by simp
    then show ?thesis using secret_of_scalar y(2) z' by (simp add: secret_okD)
  qed
  then show "ki = ki' \<longleftrightarrow> z = z'" using assms(6,8) by auto
qed

section \<open>Examples\<close>

text \<open>The environment of the small group, with a hash that is always 5 and one earlier transaction, which pays to the secret 3.\<close>

definition small_hash :: uint256 where
  "small_hash = [0, 0, 0, 0, 0, 0, 0, 0x05000000]"

definition small_key :: bytes where
  "small_key = secret_of small_group 3"

definition small_prev :: CTransaction where
  "small_prev = NullTransaction\<lparr>vout := [NewTxOut 0 (GetScriptForPubKey (point small_group 3))]\<rparr>"

definition small_env :: ring_env where
  "small_env = \<lparr>Params = main_params, HashFn = (\<lambda>_. small_hash), HashQuarkFn = (\<lambda>_. uint256_0), block_file = (\<lambda>_. None),
     GetTransaction = (\<lambda>_. Some (small_prev, uint256_0)), ECDHDecode = (\<lambda>_ _ _. ([], 0)), CommitmentTo = (\<lambda>_ _. []),
     RingSignatureValid = (\<lambda>_ _ _. True), VerifyBulletProofAggregate = (\<lambda>_. True),
     VerifyDerivedAddress = (\<lambda>_ _. True), masternode_synced = True, BudgetPaymentBlock = (\<lambda>_. False), Curve = small_curve,
     Junk = replicate 32 0, InitialDownload = False\<rparr>"

definition small_stake :: CTransaction where
  "small_stake = NullTransaction\<lparr>
     vin := [(NewTxIn \<lparr>op_txid = uint256_0, op_n = 0\<rparr> [] 0)\<lparr>keyImage := point small_group 15\<rparr>],
     vout := [NewTxOut 0 [], NewTxOut 1 [1]]\<rparr>"

lemma small_env_simps [simp]:
  "HashFn small_env = (\<lambda>_. small_hash)" "Curve small_env = small_curve" "GetTransaction small_env = (\<lambda>_. Some (small_prev, uint256_0))"
  "length small_hash = 8"
  by (simp_all add: small_env_def small_hash_def)

lemma small_hash_bytes: "hash_bytes (HashFn small_env) b = secret_of small_group 5"
proof -
  have numeral: "le_bytes (numeral k) n = of_nat n # le_bytes (pred_numeral k) (n div 256)" for k n
    unfolding numeral_eq_Suc [of k] le_bytes.simps ..
  have "write_limbs small_hash = rev (le_bytes 32 5)"
    by (simp add: small_hash_def write_limbs_def write_word_def numeral)
  moreover have "nat (5 mod 7) = 5" by simp
  ultimately show ?thesis by (simp add: hash_bytes_def secret_of_def)
qed

lemma small_rehash: "hd pk = 2 \<Longrightarrow> rehash_key (HashFn small_env) pk = point small_group 5"
proof -
  assume "hd pk = 2"
  then have "rehash_key (HashFn small_env) pk = PubKeySet (2 # secret_of small_group 5)"
    using small_hash_bytes by (simp add: rehash_key_def)
  also have "2 # secret_of small_group 5 = point small_group 5" by (simp add: small_group_def secret_of_def)
  also have "PubKeySet (point small_group 5) = point small_group 5" by (rule take_point(4) [OF small_group_laws])
  finally show ?thesis .
qed

lemma small_point_hash:
  assumes "hd pk = 2" "secret_ok small_group t"
  shows "point_hash small_env pk t = Inr (point small_group (5 * scalar t))"
proof -
  have "pubkey_tweak_mul small_curve (point small_group 5) t = Some (point small_group (5 * scalar t))"
    using key_facts(2) [OF small_curve_laws _ assms(2), of 5] by (simp add: finite_point_def)
  then have "point_hash_loop small_curve (HashFn small_env) (point small_group 5) t = Some (point small_group (5 * scalar t))"
    by (subst point_hash_loop.simps) (simp add: take_point [OF small_group_laws])
  then show ?thesis
    using small_rehash [OF assms(1)] by (simp add: point_hash_iff PointHashingSuccessively_def)
qed

lemma small_secret_ok [simp]: "secret_ok small_group (secret_of small_group x) \<longleftrightarrow> x mod 7 \<noteq> 0"
  using secret_of_range(2) [OF small_group_laws] by (simp add: finite_point_def)

lemma small_scalar_of [simp]: "scalar (secret_of small_group x) = x mod 7"
  using scalar_secret_of [OF small_group_laws] by simp

lemma small_extract: "ExtractPubKey (GetScriptForPubKey (point small_group x)) = Some (point small_group x)"
  by (rule ExtractPubKey_point) (rule group_facts(7) [OF small_group_laws])

lemma small_secret_of_small [simp]: "small_secret (secret_of small_group x)"
  using secret_of_range(1) [OF small_group_laws] by (simp add: small_secret_def in_range_def)

lemma small_signed:
  "MakeShnorrSignature small_env [small_key] (\<lambda>_. Some small_prev) (secret_of small_group 2) small_stake
     = Inr (Some (small_stake\<lparr>vin := [(vin small_stake ! 0)\<lparr>sig_s := secret_of small_group 17, sig_R := point small_group 10\<rparr>]\<rparr>))"
proof -
  have 1: "IsCoinStake small_stake" "\<not> IsCoinAudit small_stake" "\<not> IsCoinBase small_stake"
    by (simp_all add: small_stake_def IsCoinStake_def IsCoinAudit_def IsCoinBase_def NewTxIn_def NewTxOut_def OutPointIsNull_def TxOutIsEmpty_def)
  have 2: "findCorrespondingPrivateKey small_curve [small_key] (vout small_prev ! 0) = Some small_key"
    by (simp add: findCorrespondingPrivateKey_def small_key_def small_prev_def small_curve_def NewTxOut_def small_point_eq)
  have 3: "GetPubKey small_curve small_key = point small_group 3" by (simp add: small_curve_def small_key_def small_point_eq)
  have 4: "privkey_tweak_mul small_curve (secret_of small_group 5) small_key = Some (secret_of small_group 15)"
    by (simp add: small_curve_def small_key_def)
  have 5: "privkey_tweak_add small_curve (secret_of small_group 15) (secret_of small_group 2) = Some (secret_of small_group 17)"
    by (simp add: small_curve_def) (simp add: secret_of_def)
  have 6: "point_hash small_env (point small_group 3) (secret_of small_group 2) = Inr (point small_group 10)"
    using small_point_hash [of "point small_group 3" "secret_of small_group 2"] by simp
  have 7: "prevout (vin small_stake ! 0) = \<lparr>op_txid = uint256_0, op_n = 0\<rparr>" "vin small_stake \<noteq> []" "vout small_prev \<noteq> []"
      "sig_s (vin small_stake ! 0) = []" "sig_R (vin small_stake ! 0) = []" "length (vin small_stake) = 1"
    by (simp_all add: small_stake_def small_prev_def NewTxIn_def)
  then obtain txin where v: "vin small_stake = [txin]" by (cases "vin small_stake") simp_all
  show ?thesis
    using 1 2 3 4 5 6 7 small_hash_bytes v
    by (simp add: MakeShnorrSignature_def MakeShnorrSignatureTxIn_def)
qed

theorem stake_signature_round_trip_witness:
  "\<exists>tx'. MakeShnorrSignature small_env [small_key] (\<lambda>_. Some small_prev) (secret_of small_group 2) small_stake = Inr (Some tx')
     \<and> VerifyShnorrKeyImageTx small_env tx' = Inr True"
proof -
  have k: "generateKeyImage small_curve (HashFn small_env) [small_key] (GetScriptForPubKey (point small_group 3)) = Some (Some (point small_group 15))"
  proof -
    have p: "GetPubKey small_curve small_key = point small_group 3" by (simp add: small_curve_def small_key_def small_point_eq)
    have "point_hash small_env (point small_group 3) small_key = Inr (point small_group 15)"
      using small_point_hash [of "point small_group 3" small_key] by (simp add: small_key_def)
    then have "point_hash_loop small_curve (HashFn small_env) (rehash_key (HashFn small_env) (point small_group 3)) small_key = Some (point small_group 15)"
      by (simp add: point_hash_iff PointHashingSuccessively_def)
    then show ?thesis by (simp add: generateKeyImage_def p take_point [OF small_group_laws])
  qed
  have s: "prevout (vin small_stake ! 0) = \<lparr>op_txid = uint256_0, op_n = 0\<rparr>" "keyImage (vin small_stake ! 0) = point small_group 15"
      "sig_s (vin small_stake ! 0) = []" "sig_R (vin small_stake ! 0) = []" "scriptPubKey (vout small_prev ! 0) = GetScriptForPubKey (point small_group 3)"
    by (simp_all add: small_stake_def small_prev_def NewTxIn_def NewTxOut_def)
  have st: "IsCoinStake small_stake"
    by (simp add: small_stake_def IsCoinStake_def NewTxIn_def NewTxOut_def OutPointIsNull_def TxOutIsEmpty_def)
  show ?thesis
    by (intro exI conjI, rule small_signed,
        rule stake_signature_round_trip [OF _ _ _ small_signed st, where g = small_group and prev = small_prev and bh = uint256_0])
      (use k s small_curve_laws small_hash_bytes in \<open>simp_all add: small_key_def\<close>)
qed

theorem stake_key_image_not_bound_witness:
  "\<exists>ki ki' s R. ki \<noteq> ki' \<and> VerifyShnorrKeyImageTxIn small_env ((vin small_stake ! 0)\<lparr>keyImage := ki, sig_s := s, sig_R := R\<rparr>) [] = Inr True"
proof -
  have e: "scriptPubKey (vout small_prev ! 0) = GetScriptForPubKey (point small_group 3)" "length (vout small_prev) = 1" "op_n (prevout (vin small_stake ! 0)) = 0"
    by (simp_all add: small_prev_def NewTxOut_def small_stake_def NewTxIn_def)
  have 4: "privkey_tweak_mul small_curve (secret_of small_group 5) (secret_of small_group 2) = Some (secret_of small_group 10)"
    by (simp add: small_curve_def)
  have 5: "privkey_tweak_add small_curve (secret_of small_group 10) (secret_of small_group 2) = Some (secret_of small_group 12)"
    by (simp add: small_curve_def) (simp add: secret_of_def)
  have n: "secret_of small_group 2 \<noteq> secret_of small_group 3"
  proof
    assume "secret_of small_group 2 = secret_of small_group 3"
    then have "scalar (secret_of small_group 2) = scalar (secret_of small_group 3)" by simp
    then show False by simp
  qed
  have p: "point_hash small_env (point small_group 3) (secret_of small_group x) = Inr (point small_group (5 * (x mod 7)))" if "x mod 7 \<noteq> 0" for x
    using small_point_hash [of "point small_group 3" "secret_of small_group x"] that by simp
  have "VerifyShnorrKeyImageTxIn small_env ((vin small_stake ! 0)\<lparr>keyImage := point small_group 10, sig_s := secret_of small_group 12,
      sig_R := point small_group 10\<rparr>) [] = Inr True
      \<and> (point small_group 10 = point small_group 15 \<longleftrightarrow> secret_of small_group 2 = secret_of small_group 3)"
    by (rule stake_key_image_not_bound [where E = small_env and g = small_group and prev = small_prev and bh = uint256_0
          and P = "point small_group 3" and r = "secret_of small_group 2"])
      (use e 4 5 p [of 2] p [of 3] small_extract [of 3] small_hash_bytes small_curve_laws in simp_all)
  then show ?thesis using n by blast
qed

end
