(* ===== verification/Stealth_Wallet.thy ===== *)
theory Stealth_Wallet
  imports Curve_Keys
begin

text \<open>
  Stealth payments in \<open>wallet.cpp\<close>: deriving the destination of a payment, finding the payments of a transaction that are for
  the wallet, and the exchange of the hidden amount and of the blinding factor. The key store is the list of its secrets, a
  secret the wallet has no valid value of is \<open>None\<close>, and the maps of the wallet that point from an address or a script to what
  belongs to it are keyed by the public key or the script.
\<close>

section \<open>Hidden amounts\<close>

definition xor_bytes :: "bytes \<Rightarrow> bytes \<Rightarrow> bytes" where
  "xor_bytes a b = map2 (XOR) a b"

text \<open>The mask is combined with the hash of the shared secret, the first eight bytes of the amount, repeated, with its hash.\<close>

definition ecdhEncode :: "(bytes \<Rightarrow> uint256) \<Rightarrow> bytes \<Rightarrow> bytes \<Rightarrow> bytes \<Rightarrow> bytes \<times> bytes" where
  "ecdhEncode Hash unmasked amount sharedSec =
     (let sharedSec1 = hash_bytes Hash sharedSec; sharedSec2 = hash_bytes Hash sharedSec1 in
      (xor_bytes unmasked sharedSec1, map (\<lambda>i. amount ! (i mod 8) XOR sharedSec2 ! i) [0..<32]))"

definition ecdhDecode :: "(bytes \<Rightarrow> uint256) \<Rightarrow> bytes \<Rightarrow> bytes \<Rightarrow> bytes \<Rightarrow> bytes \<times> bytes" where
  "ecdhDecode Hash masked amount sharedSec =
     (let sharedSec1 = hash_bytes Hash sharedSec; sharedSec2 = hash_bytes Hash sharedSec1 in
      (xor_bytes masked sharedSec1, map (\<lambda>i. amount ! (i mod 8) XOR sharedSec2 ! i) [0..<32]))"

definition ComputeSharedSec :: "curve \<Rightarrow> bytes \<Rightarrow> CPubKey \<Rightarrow> chain_error + CPubKey" where
  "ComputeSharedSec C priv pubKey = (case pubkey_tweak_mul C (KeyBytes (PubKeySet (KeyBytes pubKey))) priv of
     None \<Rightarrow> Inl RuntimeError | Some temp \<Rightarrow> Inr (PubKeySet (take 33 temp)))"

text \<open>The bytes of a number of 256 bits, and the number that bytes stand for in memory.\<close>

definition uint256_bytes :: "uint256 \<Rightarrow> bytes" where
  "uint256_bytes = write_limbs"

definition bytes_uint256 :: "bytes \<Rightarrow> uint256" where
  "bytes_uint256 b = (case read_limbs 8 b of None \<Rightarrow> uint256_0 | Some (l, _) \<Rightarrow> l)"

text \<open>
  \<open>ECDHInfo::Encode\<close> copies 32 bytes from an amount of eight: what follows it in memory is an argument. \<open>ECDHInfo::Decode\<close>
  takes the encoded mask through a private key, whose bytes stay unwritten when the encoded mask is not in the range of one.
\<close>

definition ECDHEncode :: "(bytes \<Rightarrow> uint256) \<Rightarrow> bytes \<Rightarrow> bytes \<Rightarrow> CAmount \<Rightarrow> CPubKey \<Rightarrow> uint256 \<times> uint256" where
  "ECDHEncode Hash beyond priv amount sharedSec =
     (let (m, a) = ecdhEncode Hash priv (write_int 8 amount @ beyond) (KeyBytes sharedSec) in (bytes_uint256 m, bytes_uint256 a))"

definition signed_amount :: "bytes \<Rightarrow> CAmount" where
  "signed_amount b = (case read_int 8 b of None \<Rightarrow> 0 | Some (v, _) \<Rightarrow> v)"

definition ECDHInfoDecode :: "'e ring_env_scheme \<Rightarrow> bytes \<Rightarrow> bytes \<Rightarrow> CPubKey \<Rightarrow> bytes option \<times> CAmount" where
  "ECDHInfoDecode E encodedMask encodedAmount sharedSec =
     (let tempDecoded = (case KeySet encodedMask of None \<Rightarrow> Junk E | Some vch \<Rightarrow> vch);
          (m, a) = ecdhDecode (HashFn E) tempDecoded encodedAmount (KeyBytes sharedSec)
      in (KeySet m, signed_amount a))"

text \<open>The output with its hidden amount; \<open>blind\<close> is the new random blinding factor that the output keeps in memory.\<close>

definition EncodeTxOutAmount ::
  "(bytes \<Rightarrow> uint256) \<Rightarrow> bytes \<Rightarrow> CTxOut \<Rightarrow> CAmount \<Rightarrow> bytes \<Rightarrow> bool \<Rightarrow> bytes \<Rightarrow> CTxOut option" where
  "EncodeTxOutAmount Hash beyond out amount sharedSec isCoinstake blind =
     (if amount < 0 then None
      else let sharedPub = PubKeySet (take 33 sharedSec); mv = maskValue out; hashOfKey = Hash (take 33 sharedSec) in
        if \<not> isCoinstake
        then (case ECDHEncode Hash beyond blind amount sharedPub of (em, am) \<Rightarrow>
          Some (out\<lparr>maskValue := mv\<lparr>mv_mask := em, mv_amount := am, mv_hashOfKey := hashOfKey\<rparr>\<rparr>))
        else (case ecdhEncode Hash (uint256_bytes (mv_mask mv)) (uint256_bytes (set_uint256 (word_of_int amount))) (KeyBytes sharedPub) of (em, am) \<Rightarrow>
          Some (out\<lparr>maskValue := mv\<lparr>mv_mask := bytes_uint256 em, mv_amount := bytes_uint256 am, mv_hashOfKey := hashOfKey\<rparr>\<rparr>)))"

section \<open>The wallet\<close>

record wallet =
  IsLocked :: bool
  keys :: "bytes list"
  spendKey :: bytes
  viewKey :: bytes
  accountKeys :: "(bytes \<times> bytes) list"
  amountMap :: "bytes \<rightharpoonup> CAmount"
  blindMap :: "bytes \<rightharpoonup> bytes option"
  addrToTxHash :: "CPubKey \<rightharpoonup> uint256"
  mapWallet :: "uint256 \<rightharpoonup> CTransaction"

definition AddKey :: "bytes \<Rightarrow> (wallet, unit) step" where
  "AddKey key = (\<lambda>w. ret () (if key \<in> set (keys w) then w else w\<lparr>keys := keys w @ [key]\<rparr>))"

definition computeSharedSec :: "'e ring_env_scheme \<Rightarrow> wallet \<Rightarrow> CTransaction \<Rightarrow> CTxOut \<Rightarrow> chain_error + CPubKey" where
  "computeSharedSec E w tx out =
     (if txType tx = TX_TYPE_REVEAL_AMOUNT \<or> txType tx = TX_TYPE_REVEAL_BOTH then Inr (PubKeySet (txPub out))
      else ComputeSharedSec (Curve E) (viewKey w) (PubKeySet (txPub out)))"

text \<open>The amount and the blinding factor of an output; the amount is the one of the caller where the code leaves it.\<close>

definition RevealTxOutAmount ::
  "'e ring_env_scheme \<Rightarrow> CTransaction \<Rightarrow> CTxOut \<Rightarrow> CAmount \<Rightarrow> (wallet, bool \<times> CAmount \<times> bytes option) step" where
  "RevealTxOutAmount E tx out amount = (\<lambda>w.
     let script = scriptPubKey out in
     if IsLocked w then ret (True, amount, None) w
     else if IsCoinBase tx then ret (True, nValue out, None) w
     else if IsCoinStake tx \<and> nValue out > 0 then ret (True, nValue out, None) w
     else case amountMap w script of
       Some a \<Rightarrow> (case blindMap w script of
           None \<Rightarrow> ret (True, a, None) (w\<lparr>blindMap := (blindMap w)(script \<mapsto> None)\<rparr>)
         | Some b \<Rightarrow> ret (True, a, b) w)
     | None \<Rightarrow>
         if key_for_script (Curve E) (keys w) script = None then ret (False, 0, None) w
         else if length (txPub out) < 33 then fail OutOfRange w
         else case computeSharedSec E w tx out of
           Inl e \<Rightarrow> fail e w
         | Inr sharedSec \<Rightarrow>
             (case ECDHInfoDecode E (uint256_bytes (mv_mask (maskValue out))) (uint256_bytes (mv_amount (maskValue out))) sharedSec of
                (decodedMask, a) \<Rightarrow> ret (True, a, decodedMask)
                  (w\<lparr>amountMap := (amountMap w)(script \<mapsto> a), blindMap := (blindMap w)(script \<mapsto> decodedMask)\<rparr>)))"

section \<open>Stealth destinations\<close>

definition computeStealthDestination :: "'e ring_env_scheme \<Rightarrow> bytes \<Rightarrow> CPubKey \<Rightarrow> CPubKey \<Rightarrow> chain_error + CPubKey option" where
  "computeStealthDestination E secret pubViewKey pubSpendKey =
     (case pubkey_tweak_mul (Curve E) (KeyBytes pubViewKey) secret of
        None \<Rightarrow> Inr None
      | Some rA \<Rightarrow> (case pubkey_tweak_add (Curve E) (KeyBytes pubSpendKey) (hash_bytes (HashFn E) rA) of
          None \<Rightarrow> Inl RuntimeError
        | Some B \<Rightarrow> Inr (Some (PubKeySet B))))"

text \<open>One output against one pair of keys. The result is \<open>False\<close> when the code leaves the whole scan with \<open>false\<close>.\<close>

definition scan_pair :: "'e ring_env_scheme \<Rightarrow> CTransaction \<Rightarrow> CTxOut \<Rightarrow> bytes \<times> bytes \<Rightarrow> (wallet, bool) step" where
  "scan_pair E tx out pair = (case pair of (spend, view) \<Rightarrow>
     (case pubkey_tweak_mul (Curve E) (KeyBytes (PubKeySet (txPub out))) view of
        None \<Rightarrow> ret False
      | Some aR \<Rightarrow>
          (let HS = hash_bytes (HashFn E) aR in
           case pubkey_tweak_add (Curve E) (KeyBytes (GetPubKey (Curve E) spend)) HS of
             None \<Rightarrow> ret True
           | Some expectedDestination \<Rightarrow>
               if GetScriptForPubKey (PubKeySet (take 33 expectedDestination)) \<noteq> scriptPubKey out then ret True
               else (case privkey_tweak_add (Curve E) HS spend of
                       None \<Rightarrow> fail RuntimeError
                     | Some x \<Rightarrow> (case KeySet x of
                         None \<Rightarrow> fail AssertionFailed
                       | Some privKey \<Rightarrow> (\<lambda>w. bind (AddKey privKey) (\<lambda>_. bind (RevealTxOutAmount E tx out 0) (\<lambda>_. ret True))
                           (w\<lparr>addrToTxHash := (addrToTxHash w)(GetPubKey (Curve E) privKey \<mapsto> GetHash (HashFn E) tx)\<rparr>)))))))"

primrec scan_pairs :: "'e ring_env_scheme \<Rightarrow> CTransaction \<Rightarrow> CTxOut \<Rightarrow> (bytes \<times> bytes) list \<Rightarrow> (wallet, bool) step" where
  "scan_pairs E tx out [] = ret True"
| "scan_pairs E tx out (p # ps) = bind (scan_pair E tx out p) (\<lambda>ok. if ok then scan_pairs E tx out ps else ret False)"

primrec scan_outputs :: "'e ring_env_scheme \<Rightarrow> CTransaction \<Rightarrow> (bytes \<times> bytes) list \<Rightarrow> CTxOut list \<Rightarrow> (wallet, bool) step" where
  "scan_outputs E tx ps [] = ret True"
| "scan_outputs E tx ps (out # outs) =
     (if TxOutIsEmpty out then scan_outputs E tx ps outs
      else bind (scan_pairs E tx out ps) (\<lambda>ok. if ok then scan_outputs E tx ps outs else ret False))"

definition IsTransactionForMe :: "'e ring_env_scheme \<Rightarrow> CTransaction \<Rightarrow> (wallet, bool) step" where
  "IsTransactionForMe E tx = (\<lambda>w. if IsLocked w then ret False w
     else scan_outputs E tx ((spendKey w, viewKey w) # accountKeys w) (vout tx) w)"

definition AddComputedPrivateKey :: "'e ring_env_scheme \<Rightarrow> CTxOut \<Rightarrow> (wallet, unit) step" where
  "AddComputedPrivateKey E out = (\<lambda>w. if IsLocked w then ret () w
     else if PubKeySize (PubKeySet (txPub out)) > 33 then fail OutOfRange w
     else case pubkey_tweak_mul (Curve E) (KeyBytes (PubKeySet (txPub out))) (viewKey w) of
       None \<Rightarrow> fail RuntimeError w
     | Some aR \<Rightarrow> (case privkey_tweak_add (Curve E) (hash_bytes (HashFn E) aR) (spendKey w) of
         None \<Rightarrow> fail RuntimeError w
       | Some x \<Rightarrow> (case KeySet x of
           None \<Rightarrow> fail AssertionFailed w
         | Some privKey \<Rightarrow> if GetScriptForPubKey (GetPubKey (Curve E) privKey) = scriptPubKey out then AddKey privKey w else ret () w)))"

text \<open>A new address of the wallet: the random \<open>priv\<close> is an argument.\<close>

definition GenerateAddress :: "'e ring_env_scheme \<Rightarrow> wallet \<Rightarrow> bytes \<Rightarrow> chain_error + (CPubKey \<times> CPubKey) option" where
  "GenerateAddress E w priv = (if IsLocked w then Inr None
     else case computeStealthDestination E priv (GetPubKey (Curve E) (viewKey w)) (GetPubKey (Curve E) (spendKey w)) of
       Inl e \<Rightarrow> Inl e
     | Inr r \<Rightarrow> Inr (map_option (\<lambda>pub. (pub, GetPubKey (Curve E) priv)) r))"

section \<open>What a scan keeps\<close>

definition wallet_grows :: "wallet \<Rightarrow> wallet \<Rightarrow> bool" where
  "wallet_grows w w' \<longleftrightarrow> set (keys w) \<subseteq> set (keys w') \<and> amountMap w \<subseteq>\<^sub>m amountMap w'
     \<and> (\<forall>s. amountMap w s \<noteq> None \<longrightarrow> blindMap w s \<noteq> None \<longrightarrow> blindMap w' s = blindMap w s)
     \<and> IsLocked w' = IsLocked w \<and> spendKey w' = spendKey w \<and> viewKey w' = viewKey w \<and> accountKeys w' = accountKeys w"

text \<open>Only the script of the output gets an entry of the amounts.\<close>

definition amounts_of :: "bytes set \<Rightarrow> wallet \<Rightarrow> wallet \<Rightarrow> bool" where
  "amounts_of S w w' \<longleftrightarrow> wallet_grows w w' \<and> (\<forall>s. s \<notin> S \<longrightarrow> amountMap w' s = amountMap w s)"

lemma wallet_grows_trans:
  assumes g: "wallet_grows w w'" "wallet_grows w' w''"
  shows "wallet_grows w w''"
proof -
  have a: "amountMap w' s = amountMap w s" if "amountMap w s \<noteq> None" for s
    using g(1) that by (auto simp: wallet_grows_def map_le_def dom_def)
  have "blindMap w'' s = blindMap w s" if "amountMap w s \<noteq> None" "blindMap w s \<noteq> None" for s
  proof -
    have "blindMap w' s = blindMap w s" using g(1) that unfolding wallet_grows_def by blast
    moreover have "blindMap w'' s = blindMap w' s" using g(2) a [OF that(1)] that calculation unfolding wallet_grows_def by metis
    ultimately show ?thesis by simp
  qed
  moreover have "set (keys w) \<subseteq> set (keys w'')" "amountMap w \<subseteq>\<^sub>m amountMap w''"
    using g map_le_trans unfolding wallet_grows_def by blast+
  ultimately show ?thesis using g by (simp add: wallet_grows_def)
qed

interpretation scan: step_frame "amounts_of S"
proof
  show "amounts_of S w w" for w by (simp add: amounts_of_def wallet_grows_def)
  show "amounts_of S w w' \<Longrightarrow> amounts_of S w' w'' \<Longrightarrow> amounts_of S w w''" for w w' w''
    unfolding amounts_of_def using wallet_grows_trans by auto
qed

lemma AddKey_scan: "ends_in (amounts_of S) w (AddKey key w)"
  by (auto simp: ends_in_def AddKey_def amounts_of_def wallet_grows_def)

lemma Reveal_scan: "scriptPubKey out \<in> S \<Longrightarrow> ends_in (amounts_of S) w (RevealTxOutAmount E tx out a w)"
  unfolding ends_in_def RevealTxOutAmount_def Let_def
  by (auto simp: amounts_of_def wallet_grows_def map_le_def split: if_splits option.splits sum.splits prod.splits)

lemma tx_hash_scan: "amounts_of S w (w\<lparr>addrToTxHash := m\<rparr>)"
  by (simp add: amounts_of_def wallet_grows_def)

lemma scan_pair_scan: "scriptPubKey out \<in> S \<Longrightarrow> ends_in (amounts_of S) w (scan_pair E tx out p w)"
proof -
  assume o: "scriptPubKey out \<in> S"
  have k: "ends_in (amounts_of S) w (bind (AddKey k) (\<lambda>_. bind (RevealTxOutAmount E tx out 0) (\<lambda>_. ret True)) (w\<lparr>addrToTxHash := m\<rparr>))" for k m
  proof -
    have "ends_in (amounts_of S) v (bind (AddKey k) (\<lambda>_. bind (RevealTxOutAmount E tx out 0) (\<lambda>_. ret True)) v)" for v
      by (intro scan.frame_rules AddKey_scan Reveal_scan o)
    then show ?thesis using scan.trans [OF tx_hash_scan] unfolding ends_in_def by blast
  qed
  have r: "ends_in (amounts_of S) w (Inr (x, w))" for x :: bool using scan.ret [of S w x] by simp
  show ?thesis unfolding scan_pair_def Let_def
    by (cases p) (auto intro!: k r simp: scan.error split: option.split)
qed

lemma scan_pairs_scan: "scriptPubKey out \<in> S \<Longrightarrow> ends_in (amounts_of S) w (scan_pairs E tx out ps w)"
  by (induction ps arbitrary: w) (simp_all only: scan_pairs.simps, (intro scan.frame_rules scan_pair_scan; blast)+)

lemma scan_outputs_scan: "scriptPubKey ` set outs \<subseteq> S \<Longrightarrow> ends_in (amounts_of S) w (scan_outputs E tx ps outs w)"
  by (induction outs arbitrary: w) (simp_all only: scan_outputs.simps, (intro scan.frame_rules scan_pairs_scan; simp)+)

section \<open>Reading what was encoded\<close>

lemma limbs_of_bytes: "length b = 4 * n \<Longrightarrow> \<exists>l. length l = n \<and> write_limbs l = b"
proof (induction n arbitrary: b)
  case 0
  then show ?case by (simp add: write_limbs_def)
next
  case (Suc n)
  have "length (drop 4 b) = 4 * n" using Suc.prems by simp
  then obtain l where l: "length l = n" "write_limbs l = drop 4 b" using Suc.IH by blast
  have t: "length (take 4 b) = 4" using Suc.prems by simp
  have "le_val (take 4 b) < 2 ^ 32" using le_val_less [of "take 4 b"] t by simp
  then have "write_word 4 (of_nat (le_val (take 4 b)) :: u32) = take 4 b"
    using le_bytes_le_val [of "take 4 b"] t by (simp add: write_word_def unat_of_nat)
  then show ?case using l by (intro exI [of _ "of_nat (le_val (take 4 b)) # l"]) (simp add: write_limbs_def)
qed

lemma uint256_bytes_of: "length b = 32 \<Longrightarrow> uint256_bytes (bytes_uint256 b) = b"
proof -
  assume "length b = 32"
  then obtain l where "length l = 8" "write_limbs l = b" using limbs_of_bytes [of b 8] by auto
  then show ?thesis using read_limbs_write [of l 8 "[]"] by (auto simp: uint256_bytes_def bytes_uint256_def)
qed

lemma xor_bytes_twice: "length a = length b \<Longrightarrow> xor_bytes (xor_bytes a b) b = a"
  by (induction a b rule: list_induct2) (simp_all add: xor_bytes_def xor.assoc)

lemma length_hash_bytes: "length (Hash b) = 8 \<Longrightarrow> length (hash_bytes Hash b) = 32"
  by (simp add: hash_bytes_def)

text \<open>Decoding gives back the mask, and the amount in the first eight bytes.\<close>

lemma ecdh_round_trip:
  assumes "length m = 32" "8 \<le> length a" "\<forall>b. length (Hash b) = 8" "ecdhEncode Hash m a sec = (em, ea)"
  shows "length em = 32" "length ea = 32" "\<exists>rest. ecdhDecode Hash em ea sec = (m, take 8 a @ rest)"
proof -
  let ?s1 = "hash_bytes Hash sec" and ?s2 = "hash_bytes Hash (hash_bytes Hash sec)"
  have l: "length ?s1 = 32" using assms(3) length_hash_bytes by simp
  have e: "em = xor_bytes m ?s1" "ea = map (\<lambda>i. a ! (i mod 8) XOR ?s2 ! i) [0..<32]" using assms(4) by (simp_all add: ecdhEncode_def Let_def)
  then show "length em = 32" "length ea = 32" using l assms(1) by (simp_all add: xor_bytes_def)
  let ?d = "map (\<lambda>i. ea ! (i mod 8) XOR ?s2 ! i) [0..<32]"
  have "take 8 ?d = take 8 a"
  proof (rule nth_equalityI)
    show "length (take 8 ?d) = length (take 8 a)" using assms(2) by simp
    fix i
    assume "i < length (take 8 ?d)"
    then have i: "i < 8" by simp
    then have "take 8 ?d ! i = (a ! i XOR ?s2 ! i) XOR ?s2 ! i" unfolding e(2) by simp
    then show "take 8 ?d ! i = take 8 a ! i" using i by (simp add: xor.assoc)
  qed
  then have "?d = take 8 a @ drop 8 ?d" using append_take_drop_id [of 8 ?d] by simp
  moreover have "xor_bytes em ?s1 = m" using xor_bytes_twice [of m ?s1] e(1) l assms(1) by simp
  ultimately show "\<exists>rest. ecdhDecode Hash em ea sec = (m, take 8 a @ rest)" by (auto simp: ecdhDecode_def Let_def)
qed

lemma decode_encoded:
  assumes "length blind = 32" "KeyCheck blind" "int_fits 8 amount" "\<forall>b. length (HashFn E b) = 8"
    and "EncodeTxOutAmount (HashFn E) beyond out0 amount sec False blind = Some out" "PubKeySet (take 33 sec) = sec"
    and "KeyCheck (uint256_bytes (mv_mask (maskValue out)))"
  shows "ECDHInfoDecode E (uint256_bytes (mv_mask (maskValue out))) (uint256_bytes (mv_amount (maskValue out))) sec = (Some blind, amount)"
proof -
  obtain em ea where e: "ecdhEncode (HashFn E) blind (write_int 8 amount @ beyond) (KeyBytes sec) = (em, ea)" by fastforce
  have l8: "length (write_int 8 amount) = 8" by (simp add: write_int_def)
  note t = ecdh_round_trip [OF assms(1) _ assms(4) e]
  have l: "length em = 32" "length ea = 32" using t(1,2) l8 by simp_all
  obtain rest where r: "ecdhDecode (HashFn E) em ea (KeyBytes sec) = (blind, write_int 8 amount @ rest)" using t(3) l8 by auto
  have o: "uint256_bytes (mv_mask (maskValue out)) = em" "uint256_bytes (mv_amount (maskValue out)) = ea"
    using assms(5,6) e l by (auto simp: EncodeTxOutAmount_def ECDHEncode_def Let_def uint256_bytes_of split: if_splits)
  have "signed_amount (write_int 8 amount @ rest) = amount"
    using assms(3) by (simp add: signed_amount_def codec_simps)
  then show ?thesis using o r l assms(1,2,7) by (simp add: ECDHInfoDecode_def KeySet_def)
qed

section \<open>Properties\<close>

lemma point_simps:
  assumes "group_laws g"
  shows "KeyBytes (point g x) = point g x" "PubKeySet (point g x) = point g x" "take 33 (point g x) = point g x"
    "length (point g x) = 33"
  using take_point [OF assms] group_facts(8) [OF assms] by simp_all

text \<open>The secret that a payment of the sender \<open>r\<close> to the keys \<open>v\<close> and \<open>b\<close> gives to the receiver.\<close>

lemma stealth_destination:
  assumes laws: "curve_laws (Curve E) g" and H: "\<forall>b. length (HashFn E b) = 8"
    and s: "secret_ok g r" "secret_ok g v" "secret_ok g b"
    and des: "computeStealthDestination E r (GetPubKey (Curve E) v) (GetPubKey (Curve E) b) = Inr (Some des)"
  obtains HS x where "HS = hash_bytes (HashFn E) (point g (scalar v * scalar r))" "secret_ok g x"
    "des = point g (scalar x)" "pubkey_tweak_add (Curve E) (GetPubKey (Curve E) b) HS = Some des"
    "privkey_tweak_add (Curve E) HS b = Some x"
proof -
  note G = key_facts(1) [OF laws] and P = key_facts(8) [OF laws]
  let ?HS = "hash_bytes (HashFn E) (point g (scalar v * scalar r))"
  have m: "pubkey_tweak_mul (Curve E) (point g (scalar v)) r = Some (point g (scalar v * scalar r))"
    by (rule key_facts(2) [OF laws secret_ok_finite [OF s(2)] s(1)])
  obtain B where B: "pubkey_tweak_add (Curve E) (point g (scalar b)) ?HS = Some B" "des = PubKeySet B"
    using des m P [OF s(2)] P [OF s(3)] by (auto simp: computeStealthDestination_def point_simps [OF G] split: option.splits)
  have hs: "in_range g ?HS" using key_facts(5) [OF laws _ B(1)] group_facts(8) [OF G] by simp
  have f: "finite_point g (scalar b + scalar ?HS)" "B = point g (scalar b + scalar ?HS)"
    using B(1) key_facts(4) [OF laws secret_ok_finite [OF s(3)] hs] by (auto split: if_splits)
  let ?x = "secret_of g (scalar ?HS + scalar b)"
  have x: "privkey_tweak_add (Curve E) ?HS b = Some ?x" "secret_ok g ?x"
    using key_facts(7) [OF laws, of ?HS b] f(1) hs s(3) secret_of_range(2) [OF G] by (simp_all add: secret_okD in_range_def add.commute)
  have "des = point g (scalar ?x)"
    using B(2) f(2) point_mod [OF G] by (simp add: point_simps [OF G] scalar_secret_of [OF G] add.commute)
  then show ?thesis using that [of ?HS ?x] x B f(2) P [OF s(3)] by (simp add: point_simps [OF G])
qed

lemma key_for_script_found: "k \<in> set ks \<Longrightarrow> GetScriptForPubKey (GetPubKey C k) = script \<Longrightarrow> key_for_script C ks script \<noteq> None"
  by (induction ks) auto

lemma shared_secret:
  assumes laws: "curve_laws (Curve E) g" and s: "secret_ok g r" "secret_ok g v"
  shows "ComputeSharedSec (Curve E) r (GetPubKey (Curve E) v) = Inr (point g (scalar v * scalar r))"
proof -
  note G = key_facts(1) [OF laws]
  show ?thesis
    using key_facts(2) [OF laws secret_ok_finite [OF s(2)] s(1)] key_facts(8) [OF laws s(2)] by (simp add: ComputeSharedSec_def point_simps [OF G])
qed

text \<open>One output that pays to a pair of keys, seen with that pair.\<close>

lemma scan_pair_finds:
  assumes laws: "curve_laws (Curve E) g" and H: "\<forall>b. length (HashFn E b) = 8"
    and s: "secret_ok g r" "secret_ok g (viewKey w)" "secret_ok g b"
    and des: "computeStealthDestination E r (GetPubKey (Curve E) (viewKey w)) (GetPubKey (Curve E) b) = Inr (Some des)"
    and out: "scriptPubKey out = GetScriptForPubKey des" "txPub out = GetPubKey (Curve E) r"
    and enc: "EncodeTxOutAmount (HashFn E) beyond out0 amount sec False blind = Some out"
      "ComputeSharedSec (Curve E) r (GetPubKey (Curve E) (viewKey w)) = Inr sec" "length blind = 32" "KeyCheck blind" "int_fits 8 amount"
      "KeyCheck (uint256_bytes (mv_mask (maskValue out)))"
    and tx: "\<not> IsCoinBase tx" "\<not> IsCoinStake tx" "txType tx \<noteq> TX_TYPE_REVEAL_AMOUNT" "txType tx \<noteq> TX_TYPE_REVEAL_BOTH"
    and w: "\<not> IsLocked w" "amountMap w (scriptPubKey out) = None"
  obtains w' x where "scan_pair E tx out (b, viewKey w) w = Inr (True, w')" "x \<in> set (keys w')" "GetPubKey (Curve E) x = des"
    "amountMap w' (scriptPubKey out) = Some amount" "blindMap w' (scriptPubKey out) = Some (Some blind)"
proof -
  note G = key_facts(1) [OF laws]
  obtain HS x where x: "HS = hash_bytes (HashFn E) (point g (scalar (viewKey w) * scalar r))" "secret_ok g x"
    "des = point g (scalar x)" "pubkey_tweak_add (Curve E) (GetPubKey (Curve E) b) HS = Some des" "privkey_tweak_add (Curve E) HS b = Some x"
    using stealth_destination [OF laws H s des] by blast
  have R: "txPub out = point g (scalar r)" using out(2) key_facts(8) [OF laws s(1)] by simp
  have aR: "pubkey_tweak_mul (Curve E) (KeyBytes (PubKeySet (txPub out))) (viewKey w) = Some (point g (scalar (viewKey w) * scalar r))"
    using key_facts(2) [OF laws secret_ok_finite [OF s(1)] s(2)] by (simp add: R point_simps [OF G] mult.commute)
  have bk: "KeyBytes (GetPubKey (Curve E) b) = GetPubKey (Curve E) b" using key_facts(8) [OF laws s(3)] by (simp add: point_simps [OF G])
  have d: "PubKeySet (take 33 des) = des" using x(3) by (simp add: point_simps [OF G])
  have px: "GetPubKey (Curve E) x = des" using key_facts(8) [OF laws x(2)] x(3) by simp
  have sec: "sec = point g (scalar (viewKey w) * scalar r)" using enc(2) shared_secret [OF laws s(1,2)] by simp
  have dec: "ECDHInfoDecode E (uint256_bytes (mv_mask (maskValue out))) (uint256_bytes (mv_amount (maskValue out))) sec = (Some blind, amount)"
    by (rule decode_encoded [OF enc(3-5) H enc(1) _ enc(6)]) (simp add: sec point_simps [OF G])
  let ?w1 = "w\<lparr>addrToTxHash := (addrToTxHash w)(des \<mapsto> GetHash (HashFn E) tx)\<rparr>"
  let ?w2 = "if x \<in> set (keys ?w1) then ?w1 else ?w1\<lparr>keys := keys ?w1 @ [x]\<rparr>"
  have k: "x \<in> set (keys ?w2)" "amountMap ?w2 (scriptPubKey out) = None" "\<not> IsLocked ?w2" "viewKey ?w2 = viewKey w" using w by auto
  then have key: "key_for_script (Curve E) (keys ?w2) (scriptPubKey out) \<noteq> None"
    using key_for_script_found px out(1) by metis
  have cs: "computeSharedSec E ?w2 tx out = Inr sec"
    using aR tx k(4) sec by (simp add: computeSharedSec_def ComputeSharedSec_def R point_simps [OF G])
  let ?w3 = "?w2\<lparr>amountMap := (amountMap ?w2)(scriptPubKey out \<mapsto> amount), blindMap := (blindMap ?w2)(scriptPubKey out \<mapsto> Some blind)\<rparr>"
  have rev: "RevealTxOutAmount E tx out 0 ?w2 = Inr ((True, amount, Some blind), ?w3)"
    using k key cs dec tx R by (simp add: RevealTxOutAmount_def Let_def point_simps [OF G] del: if_split)
  have "scan_pair E tx out (b, viewKey w) w = Inr (True, ?w3)"
    using aR x(1,4,5) bk d out(1) px rev KeySet_secret [OF G x(2)]
    by (simp add: scan_pair_def Let_def bind_app AddKey_def del: if_split)
  then show ?thesis using k(1) px by (intro that [of ?w3 x]) simp_all
qed

text \<open>One output that pays to any pair of keys: its secret is among the keys after the scan with that pair.\<close>

lemma scan_pair_key:
  assumes laws: "curve_laws (Curve E) g" and H: "\<forall>b. length (HashFn E b) = 8" and s: "secret_ok g r" "secret_ok g v" "secret_ok g b"
    and des: "computeStealthDestination E r (GetPubKey (Curve E) v) (GetPubKey (Curve E) b) = Inr (Some des)"
    and out: "scriptPubKey out = GetScriptForPubKey des" "txPub out = GetPubKey (Curve E) r"
    and scan: "scan_pair E tx out (b, v) w = Inr (ok, w')"
  shows "\<exists>x\<in>set (keys w'). GetPubKey (Curve E) x = des"
proof -
  note G = key_facts(1) [OF laws]
  obtain HS x where x: "HS = hash_bytes (HashFn E) (point g (scalar v * scalar r))" "secret_ok g x"
    "des = point g (scalar x)" "pubkey_tweak_add (Curve E) (GetPubKey (Curve E) b) HS = Some des" "privkey_tweak_add (Curve E) HS b = Some x"
    using stealth_destination [OF laws H s des] by blast
  have R: "txPub out = point g (scalar r)" using out(2) key_facts(8) [OF laws s(1)] by simp
  have aR: "pubkey_tweak_mul (Curve E) (KeyBytes (PubKeySet (txPub out))) v = Some (point g (scalar v * scalar r))"
    using key_facts(2) [OF laws secret_ok_finite [OF s(1)] s(2)] by (simp add: R point_simps [OF G] mult.commute)
  have bk: "KeyBytes (GetPubKey (Curve E) b) = GetPubKey (Curve E) b" using key_facts(8) [OF laws s(3)] by (simp add: point_simps [OF G])
  have d: "PubKeySet (take 33 des) = des" using x(3) by (simp add: point_simps [OF G])
  have px: "GetPubKey (Curve E) x = des" using key_facts(8) [OF laws x(2)] x(3) by simp
  let ?w1 = "w\<lparr>addrToTxHash := (addrToTxHash w)(des \<mapsto> GetHash (HashFn E) tx)\<rparr>"
  have "bind (AddKey x) (\<lambda>_. bind (RevealTxOutAmount E tx out 0) (\<lambda>_. ret True)) ?w1 = Inr (ok, w')"
    using scan aR x(1,4,5) bk d out(1) px KeySet_secret [OF G x(2)] by (simp add: scan_pair_def Let_def del: if_split)
  then obtain w2 y where w2: "AddKey x ?w1 = Inr ((), w2)" "RevealTxOutAmount E tx out 0 w2 = Inr (y, w')" by (auto simp: bind_Inr)
  have "x \<in> set (keys w2)" using w2(1) by (auto simp: AddKey_def split: if_splits)
  moreover have "wallet_grows w2 w'" using ends_inD [OF Reveal_scan [OF insertI1] w2(2)] by (simp add: amounts_of_def)
  ultimately show ?thesis using px by (auto simp: wallet_grows_def)
qed

lemma scan_pairs_append:
  "scan_pairs E tx out (ps @ qs) w = Inr (True, w') \<Longrightarrow>
     \<exists>w1. scan_pairs E tx out ps w = Inr (True, w1) \<and> scan_pairs E tx out qs w1 = Inr (True, w')"
proof (induction ps arbitrary: w)
  case (Cons p ps)
  then obtain w1 where "scan_pair E tx out p w = Inr (True, w1)" "scan_pairs E tx out (ps @ qs) w1 = Inr (True, w')"
    by (auto simp: bind_Inr split: if_splits)
  then show ?case using Cons.IH [of w1] by (simp add: bind_app)
qed simp

lemma scan_pairs_key:
  assumes "curve_laws (Curve E) g" "\<forall>b. length (HashFn E b) = 8" "secret_ok g r" "secret_ok g v" "secret_ok g b"
    and "computeStealthDestination E r (GetPubKey (Curve E) v) (GetPubKey (Curve E) b) = Inr (Some des)"
    and "scriptPubKey out = GetScriptForPubKey des" "txPub out = GetPubKey (Curve E) r"
    and "(b, v) \<in> set ps" "scan_pairs E tx out ps w = Inr (True, w')"
  shows "\<exists>x\<in>set (keys w'). GetPubKey (Curve E) x = des"
proof -
  obtain ps1 ps2 where ps: "ps = ps1 @ (b, v) # ps2" using assms(9) by (metis split_list)
  obtain w1 where "scan_pairs E tx out ((b, v) # ps2) w1 = Inr (True, w')" using scan_pairs_append assms(10) unfolding ps by blast
  then obtain w2 where w2: "scan_pair E tx out (b, v) w1 = Inr (True, w2)" "scan_pairs E tx out ps2 w2 = Inr (True, w')"
    by (auto simp: bind_Inr split: if_splits)
  have "wallet_grows w2 w'" using ends_inD [OF scan_pairs_scan [OF insertI1] w2(2)] by (simp add: amounts_of_def)
  then show ?thesis using scan_pair_key [OF assms(1-8) w2(1)] by (auto simp: wallet_grows_def)
qed

lemma scan_outputs_append:
  "scan_outputs E tx ps (xs @ ys) w = Inr (True, w') \<Longrightarrow>
     \<exists>w1. scan_outputs E tx ps xs w = Inr (True, w1) \<and> scan_outputs E tx ps ys w1 = Inr (True, w')"
proof (induction xs arbitrary: w)
  case (Cons out xs)
  show ?case
  proof (cases "TxOutIsEmpty out")
    case True
    then show ?thesis using Cons by simp
  next
    case False
    then obtain w1 where w1: "scan_pairs E tx out ps w = Inr (True, w1)" "scan_outputs E tx ps (xs @ ys) w1 = Inr (True, w')"
      using Cons.prems by (auto simp: bind_Inr split: if_splits)
    then show ?thesis using Cons.IH [OF w1(2)] False by (auto simp: bind_Inr)
  qed
qed simp

text \<open>
  Amounts are kept by script: once the wallet has an amount for a script, it gives that amount and blinding factor for every
  output with the script, whatever the output hides, so of two payments to one destination the second cannot be read.
\<close>

lemma amount_by_script:
  assumes "\<not> IsLocked w" "amountMap w (scriptPubKey out) = Some a" "blindMap w (scriptPubKey out) = Some b"
    and "\<not> IsCoinBase tx" "\<not> IsCoinStake tx"
  shows "RevealTxOutAmount E tx out c w = Inr ((True, a, b), w)"
  using assms by (simp add: RevealTxOutAmount_def)

text \<open>
  What the sender has hidden in an output for a view key: an amount and a blinding factor, both valid, where the encoded blinding factor
  is in the range of a secret (the wallet reads it as one). And an output whose amount the wallet has yet to read: amounts are
  kept by script, so the script must be new to the wallet and to the transaction.
\<close>

definition amount_hidden :: "'e ring_env_scheme \<Rightarrow> bytes \<Rightarrow> CPubKey \<Rightarrow> CAmount \<Rightarrow> bytes \<Rightarrow> CTxOut \<Rightarrow> bool" where
  "amount_hidden E r viewPub amount blind out \<longleftrightarrow> (\<exists>out0 beyond sec. ComputeSharedSec (Curve E) r viewPub = Inr sec
     \<and> EncodeTxOutAmount (HashFn E) beyond out0 amount sec False blind = Some out
     \<and> length blind = 32 \<and> KeyCheck blind \<and> amount < 2 ^ 63 \<and> KeyCheck (uint256_bytes (mv_mask (maskValue out))))"

definition amount_unread :: "wallet \<Rightarrow> CTxOut list \<Rightarrow> CTxOut \<Rightarrow> bool" where
  "amount_unread w pre out \<longleftrightarrow> scriptPubKey out \<notin> scriptPubKey ` set pre \<and> amountMap w (scriptPubKey out) = None"

text \<open>
  C11: a payment is received: when a sender derives the destination of an output for a pair of spend and view key of a wallet, the master
  pair or the one of an account, then after a scan of the transaction that returns \<open>True\<close> the wallet has the secret of the destination and
  finds a key for the output. When the pair is the master pair, it also reads the amount and the blinding factor that the sender has hidden,
  provided that the script is new and the encoded blinding factor in range. For the keys of an account the code decodes with the
  master view key, and nothing is claimed of the amount. The transaction hides its amounts: it is no coinbase, coinstake or revealing one.
\<close>

theorem payment_received:
  assumes "curve_laws (Curve E) g" "\<forall>b. length (HashFn E b) = 8" "(b, v) \<in> set ((spendKey w, viewKey w) # accountKeys w)"
    and "secret_ok g r" "secret_ok g v" "secret_ok g b"
    and "computeStealthDestination E r (GetPubKey (Curve E) v) (GetPubKey (Curve E) b) = Inr (Some des)"
    and "scriptPubKey out = GetScriptForPubKey des" "txPub out = GetPubKey (Curve E) r" "vout tx = pre @ out # post"
    and "\<not> IsCoinBase tx" "\<not> IsCoinStake tx" "txType tx \<noteq> TX_TYPE_REVEAL_AMOUNT" "txType tx \<noteq> TX_TYPE_REVEAL_BOTH"
    and "IsTransactionForMe E tx w = Inr (True, w')"
  shows "(\<exists>x\<in>set (keys w'). GetPubKey (Curve E) x = des) \<and> findCorrespondingPrivateKey (Curve E) (keys w') out \<noteq> None
    \<and> ((b, v) = (spendKey w, viewKey w) \<and> amount_hidden E r (GetPubKey (Curve E) v) amount blind out \<and> amount_unread w pre out \<longrightarrow>
        RevealTxOutAmount E tx out 0 w' = Inr ((True, amount, Some blind), w'))"
proof -
  let ?script = "scriptPubKey out"
  let ?ps = "(spendKey w, viewKey w) # accountKeys w"
  have unlocked: "\<not> IsLocked w" using assms(15) by (auto simp: IsTransactionForMe_def split: if_splits)
  then have "scan_outputs E tx ?ps (pre @ out # post) w = Inr (True, w')" using assms(10,15) by (simp add: IsTransactionForMe_def)
  then obtain w1 where w1: "scan_outputs E tx ?ps pre w = Inr (True, w1)" "scan_outputs E tx ?ps (out # post) w1 = Inr (True, w')"
    using scan_outputs_append by blast
  have a1: "amounts_of (scriptPubKey ` set pre) w w1" using scan_outputs_scan [OF subset_refl] w1(1) ends_inD by metis
  then have v1: "viewKey w1 = viewKey w" "\<not> IsLocked w1" using unlocked by (auto simp: amounts_of_def wallet_grows_def)
  have "\<not> TxOutIsEmpty out" using assms(8) by (simp add: TxOutIsEmpty_def GetScriptForPubKey_def)
  then obtain w3 where w3: "scan_pairs E tx out ?ps w1 = Inr (True, w3)" "scan_outputs E tx ?ps post w3 = Inr (True, w')"
    using w1(2) by (auto simp: bind_Inr simp del: scan_pairs.simps split: if_splits)
  have g3: "wallet_grows w3 w'" using ends_inD [OF scan_outputs_scan [OF subset_refl] w3(2)] by (simp add: amounts_of_def)
  obtain x where x: "x \<in> set (keys w')" "GetPubKey (Curve E) x = des"
    using scan_pairs_key [OF assms(1,2,4-9,3) w3(1)] g3 by (auto simp: wallet_grows_def)
  have "GetScriptForPubKey (GetPubKey (Curve E) x) = ?script" using x(2) assms(8) by simp
  then have found: "findCorrespondingPrivateKey (Curve E) (keys w') out \<noteq> None"
    unfolding findCorrespondingPrivateKey_def by (rule key_for_script_found [OF x(1)])
  have "RevealTxOutAmount E tx out 0 w' = Inr ((True, amount, Some blind), w')"
    if bv: "(b, v) = (spendKey w, viewKey w)" and hid: "amount_hidden E r (GetPubKey (Curve E) v) amount blind out" and new: "amount_unread w pre out"
  proof -
    obtain out0 beyond sec where h: "ComputeSharedSec (Curve E) r (GetPubKey (Curve E) v) = Inr sec"
        "EncodeTxOutAmount (HashFn E) beyond out0 amount sec False blind = Some out" "length blind = 32" "KeyCheck blind" "amount < 2 ^ 63"
        "KeyCheck (uint256_bytes (mv_mask (maskValue out)))"
      using hid by (auto simp: amount_hidden_def)
    have "0 \<le> amount" using h(2) by (auto simp: EncodeTxOutAmount_def split: if_splits)
    then have fits: "int_fits 8 amount" using h(5) by (simp add: int_fits_def)
    have b: "b = spendKey w" "v = viewKey w1" using bv v1(1) by simp_all
    have m1: "amountMap w1 ?script = None" using a1 new by (simp add: amounts_of_def amount_unread_def)
    obtain w2 x2 where w2: "scan_pair E tx out (b, viewKey w1) w1 = Inr (True, w2)"
        "amountMap w2 ?script = Some amount" "blindMap w2 ?script = Some (Some blind)"
      by (rule scan_pair_finds [OF assms(1,2,4) assms(5,6,7) [unfolded b(2)] assms(8,9) h(2) h(1) [unfolded b(2)] h(3,4) fits h(6) assms(11-14) v1(2) m1])
    have rest: "scan_pairs E tx out (accountKeys w) w2 = Inr (True, w3)" using w3(1) w2(1) b v1(1) by (auto simp: bind_Inr)
    have "wallet_grows w2 w3" using ends_inD [OF scan_pairs_scan [OF insertI1] rest] by (simp add: amounts_of_def)
    then have g: "wallet_grows w2 w'" using g3 by (rule wallet_grows_trans)
    have "?script \<in> dom (amountMap w2)" using w2(2) by blast
    then have am: "amountMap w' ?script = Some amount" "blindMap w' ?script = Some (Some blind)"
      using g w2(2,3) unfolding wallet_grows_def map_le_def by auto
    have "\<not> IsLocked w'" using g v1(2) ends_inD [OF scan_pair_scan [OF insertI1] w2(1)] by (simp add: wallet_grows_def amounts_of_def)
    then show ?thesis using am assms(11,12) amount_by_script by blast
  qed
  then show ?thesis using x found by blast
qed

text \<open>
  The amount of a payment to the keys of an account is decoded with the master view key: the shared secret of the receiver is not the
  one of the sender, unless the two view keys are the same.
\<close>

lemma account_amount_secret:
  assumes laws: "curve_laws (Curve E) g" and s: "secret_ok g r" "secret_ok g v" "secret_ok g (viewKey w)"
    and out: "txPub out = GetPubKey (Curve E) r" and tx: "txType tx \<noteq> TX_TYPE_REVEAL_AMOUNT" "txType tx \<noteq> TX_TYPE_REVEAL_BOTH"
  shows "ComputeSharedSec (Curve E) r (GetPubKey (Curve E) v) = Inr (point g (scalar v * scalar r))"
    "computeSharedSec E w tx out = Inr (point g (scalar (viewKey w) * scalar r))"
proof -
  note G = key_facts(1) [OF laws]
  have R: "txPub out = point g (scalar r)" using out key_facts(8) [OF laws s(1)] by simp
  have "pubkey_tweak_mul (Curve E) (point g (scalar r)) (viewKey w) = Some (point g (scalar (viewKey w) * scalar r))"
    using key_facts(2) [OF laws secret_ok_finite [OF s(1)] s(3)] by (simp add: mult.commute)
  then show "computeSharedSec E w tx out = Inr (point g (scalar (viewKey w) * scalar r))"
    using tx by (simp add: computeSharedSec_def ComputeSharedSec_def R point_simps [OF G])
  show "ComputeSharedSec (Curve E) r (GetPubKey (Curve E) v) = Inr (point g (scalar v * scalar r))" by (rule shared_secret [OF laws s(1,2)])
qed

text \<open>A payment of 7 in the small group, from the secret 2 to the view key 3 and the spend key 1.\<close>

definition small_wallet :: wallet where
  "small_wallet = \<lparr>IsLocked = False, keys = [], spendKey = secret_of small_group 1, viewKey = secret_of small_group 3,
     accountKeys = [], amountMap = Map.empty, blindMap = Map.empty, addrToTxHash = Map.empty, mapWallet = Map.empty\<rparr>"

definition small_payment :: CTxOut where
  "small_payment = (NewTxOut 0 (GetScriptForPubKey (point small_group 6)))\<lparr>txPub := point small_group 2,
     maskValue := NullMaskValue\<lparr>
       mv_mask := bytes_uint256 (fst (ecdhEncode (\<lambda>_. small_hash) (secret_of small_group 1) (write_int 8 7 @ []) (point small_group 6))),
       mv_amount := bytes_uint256 (snd (ecdhEncode (\<lambda>_. small_hash) (secret_of small_group 1) (write_int 8 7 @ []) (point small_group 6))),
       mv_hashOfKey := small_hash\<rparr>\<rparr>"

theorem payment_received_witness:
  "\<exists>w' x. IsTransactionForMe small_env (NullTransaction\<lparr>vout := [small_payment]\<rparr>) small_wallet = Inr (True, w')
    \<and> x \<in> set (keys w') \<and> GetPubKey small_curve x = point small_group 6
    \<and> RevealTxOutAmount small_env (NullTransaction\<lparr>vout := [small_payment]\<rparr>) small_payment 0 w' = Inr ((True, 7, Some (secret_of small_group 1)), w')"
proof -
  let ?b = "secret_of small_group 1" and ?v = "secret_of small_group 3" and ?r = "secret_of small_group 2" and ?tx = "NullTransaction\<lparr>vout := [small_payment]\<rparr>"
  note laws = small_curve_laws and P = point_simps [OF small_group_laws]
  have pk: "GetPubKey small_curve (secret_of small_group x) = point small_group x" for x by (simp add: small_curve_def small_point_eq)
  have m: "pubkey_tweak_mul small_curve (point small_group 3) ?r = Some (point small_group 6)"
    by (simp add: small_curve_def small_log_finite small_point_eq)
  have a: "pubkey_tweak_add small_curve (point small_group 1) (secret_of small_group 5) = Some (point small_group 6)"
    by (simp add: small_curve_def small_log_finite small_point_eq)
  have hb: "hash_bytes (\<lambda>_. small_hash) b = secret_of small_group 5" for b using small_hash_bytes by simp
  have des: "computeStealthDestination small_env ?r (GetPubKey small_curve ?v) (GetPubKey small_curve ?b) = Inr (Some (point small_group 6))"
    using m a by (simp add: computeStealthDestination_def pk P hb)
  have sec: "ComputeSharedSec small_curve ?r (GetPubKey small_curve ?v) = Inr (point small_group 6)"
    using m by (simp add: ComputeSharedSec_def pk P)
  have enc: "EncodeTxOutAmount (\<lambda>_. small_hash) [] ((NewTxOut 0 (GetScriptForPubKey (point small_group 6)))\<lparr>txPub := point small_group 2\<rparr>) 7
      (point small_group 6) False ?b = Some small_payment"
    by (simp add: EncodeTxOutAmount_def ECDHEncode_def small_payment_def P Let_def split_beta NewTxOut_def)
  have sp: "scriptPubKey small_payment = GetScriptForPubKey (point small_group 6)" "txPub small_payment = point small_group 2"
    by (simp_all add: small_payment_def NewTxOut_def)
  have x: "xor_bytes ?b (secret_of small_group 5) = secret_of small_group 4"
  proof -
    have numeral: "le_bytes (numeral k) n = of_nat n # le_bytes (pred_numeral k) (n div 256)" for k n
      unfolding numeral_eq_Suc [of k] le_bytes.simps ..
    show ?thesis by (simp add: secret_of_def xor_bytes_def numeral)
  qed
  have small: "KeyCheck (secret_of small_group x)" if "x mod 7 \<noteq> 0" for x
    using KeySet_secret [OF small_group_laws, of "secret_of small_group x"] that by (simp add: KeySet_def split: if_splits)
  have mask: "KeyCheck (uint256_bytes (mv_mask (maskValue small_payment)))"
    using small [of 4] by (simp add: small_payment_def ecdhEncode_def Let_def hb x uint256_bytes_of)
  have tx: "\<not> IsCoinBase ?tx" "\<not> IsCoinStake ?tx" "txType ?tx \<noteq> TX_TYPE_REVEAL_AMOUNT" "txType ?tx \<noteq> TX_TYPE_REVEAL_BOTH"
    by (simp_all add: NullTransaction_def IsCoinBase_def IsCoinStake_def)
  have w: "\<not> IsLocked small_wallet" "amountMap small_wallet s = None" "viewKey small_wallet = ?v" "spendKey small_wallet = ?b" "accountKeys small_wallet = []" for s
    by (simp_all add: small_wallet_def)
  have fits: "int_fits 8 7" by (simp add: int_fits_def)
  obtain w1 x1 where w1: "scan_pair small_env ?tx small_payment (?b, ?v) small_wallet = Inr (True, w1)"
    by (rule scan_pair_finds [where w = small_wallet and E = small_env and g = small_group and tx = ?tx and r = ?r and b = ?b and blind = ?b
          and amount = 7 and beyond = "[]" and out = small_payment, unfolded w(3) small_env_simps(1,2), OF laws _ _ _ _ des sp(1) _ enc sec _ _ fits mask tx w(1,2)])
      (use small [of 1] pk [of 2] sp(2) in simp_all)
  have "\<not> TxOutIsEmpty small_payment" using sp(1) by (simp add: TxOutIsEmpty_def GetScriptForPubKey_def)
  then have s: "IsTransactionForMe small_env ?tx small_wallet = Inr (True, w1)"
    using w w1 by (simp add: IsTransactionForMe_def bind_app)
  have hid: "amount_hidden small_env ?r (GetPubKey small_curve ?v) 7 ?b small_payment"
    unfolding amount_hidden_def
    by (intro exI [of _ "(NewTxOut 0 (GetScriptForPubKey (point small_group 6)))\<lparr>txPub := point small_group 2\<rparr>"] exI [of _ "[]"]
        exI [of _ "point small_group 6"]) (use sec enc mask small [of 1] in simp_all)
  have "(\<exists>x\<in>set (keys w1). GetPubKey (Curve small_env) x = point small_group 6) \<and> findCorrespondingPrivateKey (Curve small_env) (keys w1) small_payment \<noteq> None
    \<and> ((?b, ?v) = (spendKey small_wallet, viewKey small_wallet) \<and> amount_hidden small_env ?r (GetPubKey (Curve small_env) ?v) 7 ?b small_payment
        \<and> amount_unread small_wallet [] small_payment \<longrightarrow>
      RevealTxOutAmount small_env ?tx small_payment 0 w1 = Inr ((True, 7, Some ?b), w1))"
    by (rule payment_received [where E = small_env and g = small_group and r = ?r and w = small_wallet and w' = w1 and pre = "[]"
          and post = "[]" and tx = ?tx and out = small_payment and des = "point small_group 6" and amount = 7 and blind = ?b])
      (use laws des sp tx w s pk [of 2] in simp_all)
  moreover have "amount_unread small_wallet [] small_payment" using w by (simp add: amount_unread_def)
  ultimately show ?thesis using s w hid by auto
qed

end
