(* ===== verification/Ring_Signature.thy ===== *)
theory Ring_Signature
  imports Stealth_Wallet
begin

text \<open>
  The ring signature of a transaction that hides its inputs and amounts: \<open>makeRingCT\<close> of \<open>wallet.cpp\<close>, from the point where
  the decoys have been chosen, and \<open>VerifyRingSignatureWithTxFee\<close> of \<open>main.cpp\<close>. The arrays of the code, indexed by
  the input and the position in the ring, are lists of rows. A ring has one more row than the transaction has inputs:
  its keys are the sums of the keys and commitments of a column less the commitments to the outputs and the fee, of which the
  signer knows the logarithm exactly when the amounts add up.
\<close>

section \<open>Code that can throw or return false\<close>

definition accept :: "'a \<Rightarrow> 'a outcome" where
  "accept x = Inr (Some x)"

definition and_then :: "'a outcome \<Rightarrow> ('a \<Rightarrow> 'b outcome) \<Rightarrow> 'b outcome" where
  "and_then m f = (case m of Inl e \<Rightarrow> Inl e | Inr None \<Rightarrow> Inr None | Inr (Some x) \<Rightarrow> f x)"

text \<open>A call that makes the caller return \<open>false\<close>, or throw, when it fails; an element, which must be there; and a loop.\<close>

definition need :: "'a option \<Rightarrow> 'a outcome" where
  "need x = Inr x"

definition must :: "chain_error \<Rightarrow> 'a option \<Rightarrow> 'a outcome" where
  "must e x = (case x of None \<Rightarrow> Inl e | Some x \<Rightarrow> accept x)"

definition get :: "'a list \<Rightarrow> nat \<Rightarrow> 'a outcome" where
  "get xs i = (if i < length xs then accept (xs ! i) else Inl OutOfRange)"

primrec collect :: "('b \<Rightarrow> 'c outcome) \<Rightarrow> 'b list \<Rightarrow> 'c list outcome" where
  "collect f [] = accept []"
| "collect f (x # xs) = and_then (f x) (\<lambda>y. and_then (collect f xs) (\<lambda>ys. accept (y # ys)))"

definition raw :: "chain_error + 'a \<Rightarrow> 'a outcome" where
  "raw r = (case r of Inl e \<Rightarrow> Inl e | Inr x \<Rightarrow> accept x)"

text \<open>The same with a state.\<close>

definition from_outcome :: "'a outcome \<Rightarrow> ('s, 'a option) step" where
  "from_outcome r = (\<lambda>s. case r of Inl e \<Rightarrow> Inl e | Inr x \<Rightarrow> Inr (x, s))"

definition then_step :: "('s, 'a option) step \<Rightarrow> ('a \<Rightarrow> ('s, 'b option) step) \<Rightarrow> ('s, 'b option) step" where
  "then_step m f = bind m (\<lambda>x. case x of None \<Rightarrow> ret None | Some x \<Rightarrow> f x)"

primrec collect_steps :: "('b \<Rightarrow> ('s, 'c option) step) \<Rightarrow> 'b list \<Rightarrow> ('s, 'c list option) step" where
  "collect_steps f [] = ret (Some [])"
| "collect_steps f (x # xs) = then_step (f x) (\<lambda>y. then_step (collect_steps f xs) (\<lambda>ys. ret (Some (y # ys))))"

section \<open>The ring\<close>

abbreviation (input) MIN_RING_SIZE :: nat where "MIN_RING_SIZE \<equiv> 11"
abbreviation (input) MAX_RING_SIZE :: nat where "MAX_RING_SIZE \<equiv> 15"
abbreviation (input) MAX_TX_INPUTS :: nat where "MAX_TX_INPUTS \<equiv> 50"
abbreviation (input) MAX_VOUT :: nat where "MAX_VOUT \<equiv> 5"

definition GetTxSignatureHash :: "'e ring_env_scheme \<Rightarrow> CTransaction \<Rightarrow> bytes" where
  "GetTxSignatureHash E tx = hash_bytes (HashFn E) (write_CTransactionSignature tx)"

text \<open>The members of the ring of an input, in the order of the columns.\<close>

definition ring_outpoints :: "CTxIn \<Rightarrow> COutPoint list" where
  "ring_outpoints txin = prevout txin # decoys txin"

text \<open>The key and the commitment of an output, as they are copied into the arrays.\<close>

definition output_member :: "CTransaction \<Rightarrow> nat \<Rightarrow> (bytes \<times> bytes) outcome" where
  "output_member txPrev n = and_then (get (vout txPrev) n) (\<lambda>out.
     and_then (need (ExtractPubKey (scriptPubKey out))) (\<lambda>extractedPub.
     if length (commitment out) < 33 then Inl OutOfRange
     else accept (take 33 extractedPub, take 33 (commitment out))))"

text \<open>
  The check of a member is against the tip of the active chain; \<open>if (!pindex) tip = pindex\<close> has the test the wrong way round, so
  a missing block is dereferenced.
\<close>

definition ring_member :: "'e ring_env_scheme \<Rightarrow> ptr option \<Rightarrow> COutPoint \<Rightarrow> ('a node_scheme, (bytes \<times> bytes) option) step" where
  "ring_member E pindex outpoint = (case GetTransaction E (op_txid outpoint) of
     None \<Rightarrow> ret None
   | Some (txPrev, hashBlock) \<Rightarrow> (\<lambda>s.
       bind (deref (if pindex = None then pindex else Tip (chainActive s))) (\<lambda>tip.
       bind (block_at hashBlock) (\<lambda>atTheblock. case atTheblock of
           None \<Rightarrow> ret None
         | Some q \<Rightarrow> (\<lambda>s. if GetAncestor (heap s) tip (nHeight (heap s q)) \<noteq> Some q then ret None s
             else from_outcome (output_member txPrev (unat (op_n outpoint))) s))) s))"

definition ring_rows :: "'e ring_env_scheme \<Rightarrow> ptr option \<Rightarrow> CTransaction \<Rightarrow> ('a node_scheme, (bytes \<times> bytes) list list option) step" where
  "ring_rows E pindex tx = collect_steps (\<lambda>txin. collect_steps (ring_member E pindex) (ring_outpoints txin)) (vin tx)"

text \<open>The commitments to the outputs; the arrays have room for five.\<close>

definition out_commitment :: "curve \<Rightarrow> nat \<times> CTxOut \<Rightarrow> bytes outcome" where
  "out_commitment C iout = (case iout of (i, out) \<Rightarrow>
     if i \<ge> MAX_VOUT \<or> length (commitment out) < 33 then Inl OutOfRange
     else need (commitment_parse C (take 33 (commitment out))))"

definition out_commitments :: "curve \<Rightarrow> CTransaction \<Rightarrow> bytes list outcome" where
  "out_commitments C tx = collect (out_commitment C) (enumerate 0 (vout tx))"

definition fee_commitment :: "curve \<Rightarrow> CTransaction \<Rightarrow> bytes option" where
  "fee_commitment C tx = pedersen_commit C (replicate 32 0) (of_int (nTxFee tx))"

text \<open>One column: the members of the inputs at one position, and the key that is added to them.\<close>

definition ring_column :: "(bytes \<times> bytes) list list \<Rightarrow> nat \<Rightarrow> (bytes \<times> bytes) list" where
  "ring_column rows j = map (\<lambda>row. row ! j) rows"

definition additional_sum :: "curve \<Rightarrow> (bytes \<times> bytes) list \<Rightarrow> bytes list \<Rightarrow> bytes option outcome" where
  "additional_sum C column outs = and_then (collect (\<lambda>m. need (commitment_parse C (snd m))) column) (\<lambda>ins.
     accept (Option.bind (commitment_sum C (ins @ map (\<lambda>m. pubkey_to_commitment C (fst m)) column) outs) (commitment_to_pubkey C)))"

definition column_keys :: "(bytes \<times> bytes) list \<Rightarrow> bytes \<Rightarrow> bytes list" where
  "column_keys column additional = map fst column @ [additional]"

section \<open>Verification\<close>

text \<open>\<open>L\<close> and \<open>R\<close> of one member, and the challenge that follows from a column.\<close>

definition ring_link :: "'e ring_env_scheme \<Rightarrow> bytes \<Rightarrow> bytes \<times> bytes \<times> bytes \<Rightarrow> bytes outcome" where
  "ring_link E c m = (case m of (pk, ki, s) \<Rightarrow>
     and_then (need (pubkey_tweak_mul (Curve E) pk c)) (\<lambda>P.
     and_then (need (pubkey_tweak_add (Curve E) P s)) (\<lambda>L.
     and_then (raw (point_hash E (PubKeySet pk) s)) (\<lambda>sh.
     and_then (need (pubkey_tweak_mul (Curve E) ki c)) (\<lambda>ci.
     and_then (must RuntimeError (sum_points (Curve E) sh ci)) (\<lambda>R. accept (L @ R)))))))"

definition ring_challenge :: "'e ring_env_scheme \<Rightarrow> bytes \<Rightarrow> bytes list \<Rightarrow> bytes" where
  "ring_challenge E ctsHash links = hash_bytes (HashFn E) (concat links @ ctsHash)"

text \<open>The columns one after the other, each a list of keys, with the responses of the column.\<close>

primrec verify_walk :: "'e ring_env_scheme \<Rightarrow> bytes \<Rightarrow> bytes list \<Rightarrow> bytes \<Rightarrow> (bytes list \<times> bytes list) list \<Rightarrow> bytes outcome" where
  "verify_walk E ctsHash images c [] = accept c"
| "verify_walk E ctsHash images c (column # columns) =
     and_then (collect (ring_link E c) (zip (fst column) (zip images (snd column)))) (\<lambda>links.
       verify_walk E ctsHash images (ring_challenge E ctsHash links) columns)"

definition ring_responses :: "CTransaction \<Rightarrow> nat \<Rightarrow> bytes list list outcome" where
  "ring_responses tx d = collect (\<lambda>i. and_then (get (tx_S tx) i) (\<lambda>S_column.
     collect (\<lambda>j. and_then (get S_column j) (\<lambda>s. accept (write_limbs s))) [0..<length (vin tx) + 1])) [0..<d + 1]"

definition ring_images :: "CTransaction \<Rightarrow> bytes list" where
  "ring_images tx = map (\<lambda>txin. take 33 (keyImage txin)) (vin tx) @ [take 33 (ntxFeeKeyImage tx)]"

definition check_ring :: "'e ring_env_scheme \<Rightarrow> CTransaction \<Rightarrow> (bytes \<times> bytes) list list \<Rightarrow> bool outcome" where
  "check_ring E tx rows = (let d = length (decoys (vin tx ! 0)); C = Curve E in
     and_then (ring_responses tx d) (\<lambda>SIJ.
     and_then (out_commitments C tx) (\<lambda>outs.
     and_then (must RuntimeError (fee_commitment C tx)) (\<lambda>fee.
     and_then (collect (\<lambda>j. and_then (additional_sum C (ring_column rows j) (outs @ [fee])) need) [0..<d + 1]) (\<lambda>additional.
     and_then (verify_walk E (GetTxSignatureHash E tx) (ring_images tx) (write_limbs (tx_c tx))
         (zip (map (\<lambda>j. column_keys (ring_column rows j) (additional ! j)) [0..<d + 1]) SIJ)) (\<lambda>c.
     accept (HexStr (write_limbs (tx_c tx)) = HexStr c)))))))"

definition VerifyRingSignatureWithTxFee :: "'e ring_env_scheme \<Rightarrow> CTransaction \<Rightarrow> ptr option \<Rightarrow> ('a node_scheme, bool) step" where
  "VerifyRingSignatureWithTxFee E tx pindex =
     (if nTxFee tx < 0 then ret False
      else if InitialDownload E then ret True
      else if length (vin tx) > MAX_TX_INPUTS then ret False
      else if list_ex (\<lambda>txin. length (decoys txin) \<noteq> length (decoys (vin tx ! 0))) (vin tx) then ret False
      else if vin tx = [] then ret False
      else if length (decoys (vin tx ! 0)) > MAX_RING_SIZE \<or> length (decoys (vin tx ! 0)) < MIN_RING_SIZE then ret False
      else bind (then_step (ring_rows E pindex tx) (\<lambda>rows. from_outcome (check_ring E tx rows))) (\<lambda>r. ret (r = Some True)))"

section \<open>Signing\<close>

text \<open>The random secrets: \<open>alpha\<close> of each row, one that stays unused unless an output is empty, and the responses of the decoys.\<close>

record ring_random =
  rnd_alpha :: "nat \<Rightarrow> bytes"
  rnd_blind :: bytes
  rnd_response :: "nat \<Rightarrow> nat \<Rightarrow> bytes"

definition CreateCommitment :: "curve \<Rightarrow> bytes \<Rightarrow> CAmount \<Rightarrow> bytes option" where
  "CreateCommitment C blind amount = Option.bind (pedersen_commit C blind (of_int amount)) (commitment_serialize C)"

text \<open>
  The outputs with their commitments. \<open>blind\<close> is \<open>maskValue.inMemoryRawBind\<close>; when it is not valid the code commits with an
  array that was never written.
\<close>

definition commit_output :: "curve \<Rightarrow> CTxOut \<times> bytes option \<Rightarrow> CTxOut outcome" where
  "commit_output C ob = (case ob of (out, blind) \<Rightarrow>
     if TxOutIsEmpty out then accept out
     else case blind of None \<Rightarrow> Inl OutOfRange
     | Some b \<Rightarrow> and_then (must RuntimeError (CreateCommitment C b (nValue out))) (\<lambda>c. accept (out\<lparr>commitment := take 33 c\<rparr>)))"

text \<open>The output that an input really spends: \<open>prevout\<close> or the decoy at \<open>myIndex\<close>.\<close>

definition real_outpoint :: "int \<Rightarrow> CTxIn \<Rightarrow> COutPoint outcome" where
  "real_outpoint myIndex txin = (if myIndex = -1 then accept (prevout txin)
     else if myIndex < 0 then Inl OutOfRange else get (decoys txin) (nat myIndex))"

definition real_output :: "wallet \<Rightarrow> int \<Rightarrow> CTxIn \<Rightarrow> (CTransaction \<times> CTxOut) outcome" where
  "real_output w myIndex txin = and_then (real_outpoint myIndex txin) (\<lambda>myOutpoint.
     let inTx = (case mapWallet w (op_txid myOutpoint) of None \<Rightarrow> NullTransaction | Some t \<Rightarrow> t) in
     and_then (get (vout inTx) (unat (op_n myOutpoint))) (\<lambda>out. accept (inTx, out)))"

definition input_key :: "'e ring_env_scheme \<Rightarrow> wallet \<Rightarrow> int \<Rightarrow> CTxIn \<Rightarrow> bytes outcome" where
  "input_key E w myIndex txin = and_then (real_output w myIndex txin) (\<lambda>(inTx, out).
     must RuntimeError (findCorrespondingPrivateKey (Curve E) (keys w) out))"

text \<open>The blinding factor of an input, checked against its commitment.\<close>

definition input_blind :: "'e ring_env_scheme \<Rightarrow> int \<Rightarrow> CTxIn \<Rightarrow> (wallet, bytes option) step" where
  "input_blind E myIndex txin = (\<lambda>w. then_step (from_outcome (real_output w myIndex txin)) (\<lambda>(inTx, out).
     if length (commitment out) < 33 then fail OutOfRange
     else then_step (from_outcome (need (commitment_parse (Curve E) (take 33 (commitment out))))) (\<lambda>_.
     bind (RevealTxOutAmount E inTx out (signed_amount (Junk E))) (\<lambda>(_, tempAmount, tmp).
     let blind = (case tmp of None \<Rightarrow> replicate 32 0 | Some b \<Rightarrow> b) in
     then_step (from_outcome (must RuntimeError (CreateCommitment (Curve E) blind tempAmount))) (\<lambda>recomputedCommitment.
     if recomputedCommitment \<noteq> commitment out then ret None else ret (Some blind))))) w)"

text \<open>The blinding factors of the outputs that are not empty; one that is not valid stays zero.\<close>

definition output_blinds :: "(CTxOut \<times> bytes option) list \<Rightarrow> bytes list" where
  "output_blinds obs = map (\<lambda>(out, blind). case blind of None \<Rightarrow> replicate 32 0 | Some b \<Rightarrow> b) (filter (\<lambda>(out, blind). \<not> TxOutIsEmpty out) obs)"

text \<open>The sum of the first \<open>3 * inputs + outputs\<close> pointers, the first \<open>2 * inputs\<close> of them positive.\<close>

definition additional_secret :: "curve \<Rightarrow> nat \<Rightarrow> nat \<Rightarrow> bytes list \<Rightarrow> bytes outcome" where
  "additional_secret C nin nout blinds =
     (let n = nin + (nin + nout) in
      if length blinds > 2 * MAX_TX_INPUTS + MAX_VOUT + 1 \<or> length blinds < n then Inl OutOfRange
      else must RuntimeError (blind_sum C (take n blinds) (2 * nin)))"

text \<open>A row for an input: the entry of the real member comes from the wallet, the others from the transaction index.\<close>

definition sign_member :: "'e ring_env_scheme \<Rightarrow> COutPoint \<Rightarrow> (bytes \<times> bytes) outcome" where
  "sign_member E outpoint = (case GetTransaction E (op_txid outpoint) of
     None \<Rightarrow> Inr None | Some (txPrev, hashBlock) \<Rightarrow> output_member txPrev (unat (op_n outpoint)))"

definition sign_row :: "'e ring_env_scheme \<Rightarrow> nat \<Rightarrow> (CTxIn \<times> bytes \<times> bytes) \<Rightarrow> (bytes \<times> bytes) list outcome" where
  "sign_row E PI r = (case r of (txin, pub, com) \<Rightarrow>
     collect (\<lambda>(j, outpoint). if j = PI then accept (pub, com) else sign_member E outpoint) (enumerate 0 (ring_outpoints txin)))"

definition real_commitment :: "wallet \<Rightarrow> int \<Rightarrow> CTxIn \<Rightarrow> bytes outcome" where
  "real_commitment w myIndex txin = and_then (real_output w myIndex txin) (\<lambda>(inTx, out).
     if length (commitment out) < 33 then Inl OutOfRange else accept (take 33 (commitment out)))"

text \<open>
  One member of a decoy column. Unlike in the verification a point that cannot be written as a key leaves the multiple of the key image
  in its place and goes on.
\<close>

definition sign_link :: "'e ring_env_scheme \<Rightarrow> bytes \<Rightarrow> bytes \<times> bytes \<times> bytes \<Rightarrow> bytes outcome" where
  "sign_link E c m = (case m of (pk, ki, s) \<Rightarrow>
     and_then (need (pubkey_tweak_mul (Curve E) pk c)) (\<lambda>CP.
     and_then (need (pubkey_tweak_add (Curve E) CP s)) (\<lambda>L.
     and_then (need (pubkey_tweak_mul (Curve E) ki c)) (\<lambda>ci.
     and_then (raw (point_hash E (PubKeySet pk) s)) (\<lambda>SHP.
     and_then (must RuntimeError (commitment_sum_pos (Curve E) [pubkey_to_commitment (Curve E) SHP, pubkey_to_commitment (Curve E) ci])) (\<lambda>sum.
     accept (L @ (case commitment_to_pubkey (Curve E) sum of None \<Rightarrow> ci | Some R \<Rightarrow> R))))))))"

text \<open>The challenges of the columns that are walked, and the one that the last of them leads to.\<close>

primrec sign_walk :: "'e ring_env_scheme \<Rightarrow> bytes \<Rightarrow> bytes list \<Rightarrow> bytes \<Rightarrow> (bytes list \<times> bytes list) list \<Rightarrow> bytes list outcome" where
  "sign_walk E ctsHash images c [] = accept [c]"
| "sign_walk E ctsHash images c (column # columns) =
     and_then (collect (sign_link E c) (zip (fst column) (zip images (snd column)))) (\<lambda>links.
     and_then (sign_walk E ctsHash images (ring_challenge E ctsHash links) columns) (\<lambda>cs. accept (c # cs)))"

definition real_link :: "'e ring_env_scheme \<Rightarrow> bytes \<times> bytes \<Rightarrow> bytes outcome" where
  "real_link E m = (case m of (pub, alpha) \<Rightarrow> and_then (raw (point_hash E pub alpha)) (\<lambda>R. accept (GetPubKey (Curve E) alpha @ R)))"

definition real_response :: "curve \<Rightarrow> bytes \<Rightarrow> bytes \<times> bytes \<Rightarrow> bytes outcome" where
  "real_response C c m = (case m of (alpha, priv) \<Rightarrow>
     and_then (must RuntimeError (privkey_tweak_mul C c priv)) (\<lambda>cx. must RuntimeError (blind_sum C [alpha, cx] 1)))"

text \<open>
  Closing the ring: from the links at the real position \<open>PI\<close>, through the columns after it and those before it, back to it.
  The challenge of column \<open>j\<close> is at place \<open>j - PI - 1\<close>, counted round the ring. The result is the challenge of the first column and the
  responses, column by column.
\<close>

definition close_ring ::
  "'e ring_env_scheme \<Rightarrow> bytes \<Rightarrow> bytes list \<Rightarrow> nat \<Rightarrow> nat \<Rightarrow> (nat \<Rightarrow> bytes list) \<Rightarrow> (nat \<Rightarrow> bytes list) \<Rightarrow> bytes list \<Rightarrow> bytes list
     \<Rightarrow> bytes list \<Rightarrow> (bytes \<times> bytes list list) outcome" where
  "close_ring E ctsHash images d PI columns responses links alphas privs =
     and_then (sign_walk E ctsHash images (ring_challenge E ctsHash links)
         (map (\<lambda>j. (columns j, responses j)) ([PI + 1..<d + 1] @ [0..<PI]))) (\<lambda>CI.
     and_then (collect (real_response (Curve E) (CI ! d)) (zip alphas privs)) (\<lambda>S_PI.
     accept (CI ! (d - PI), map (\<lambda>j. if j = PI then S_PI else responses j) [0..<d + 1])))"

text \<open>
  \<open>makeRingCT\<close> from the point where the secrets are known. The code finds each private key once more, with the same result.
\<close>

definition sign_ring ::
  "'e ring_env_scheme \<Rightarrow> wallet \<Rightarrow> CTransaction \<Rightarrow> int \<Rightarrow> ring_random \<Rightarrow> bytes list \<Rightarrow> bytes list \<Rightarrow> CTransaction outcome" where
  "sign_ring E w tx myIndex rnd privs blinds =
     (let C = Curve E; nin = length (vin tx); d = length (decoys (vin tx ! 0)); PI = nat (myIndex + 1);
          alphas = map (rnd_alpha rnd) [0..<nin + 1]; responses = (\<lambda>j. map (\<lambda>i. rnd_response rnd i j) [0..<nin + 1]) in
     and_then (collect (real_commitment w myIndex) (vin tx)) (\<lambda>coms.
     and_then (collect (real_link E) (zip (map (GetPubKey C) privs) alphas)) (\<lambda>links.
     and_then (additional_secret C nin (length (vout tx)) blinds) (\<lambda>outSum.
     and_then (must AssertionFailed (KeySet outSum)) (\<lambda>additionalKey.
     let additionalPub = GetPubKey C additionalKey in
     and_then (raw (point_hash E additionalPub outSum)) (\<lambda>additionalImage.
     and_then (real_link E (additionalPub, rnd_alpha rnd nin)) (\<lambda>additionalLink.
     and_then (collect (sign_row E PI) (zip (vin tx) (zip (map (\<lambda>k. take 33 (GetPubKey C k)) privs) coms))) (\<lambda>rows.
     and_then (out_commitments C tx) (\<lambda>outs.
     and_then (need (fee_commitment C tx)) (\<lambda>fee.
     and_then (collect (\<lambda>j. if j = PI then accept (take 33 additionalPub)
         else and_then (additional_sum C (ring_column rows j) (outs @ [fee])) (must RuntimeError)) [0..<d + 1]) (\<lambda>additional.
     and_then (close_ring E (GetTxSignatureHash E tx) (map (\<lambda>txin. take 33 (keyImage txin)) (vin tx) @ [additionalImage]) d PI
         (\<lambda>j. column_keys (ring_column rows j) (additional ! j)) responses (links @ [additionalLink]) alphas (privs @ [outSum])) (\<lambda>(c0, SIJ).
     accept (tx\<lparr>tx_c := bytes_uint256 c0, tx_S := tx_S tx @ map (map bytes_uint256) SIJ,
       ntxFeeKeyImage := PubKeySet additionalImage\<rparr>)))))))))))))"

text \<open>After \<open>selectDecoysAndRealIndex\<close>, which has put the decoys and the key images into \<open>tx\<close> and chosen \<open>myIndex\<close>.\<close>

definition makeRingCT ::
  "'e ring_env_scheme \<Rightarrow> CTransaction \<Rightarrow> bytes option list \<Rightarrow> int \<Rightarrow> ring_random \<Rightarrow> (wallet, CTransaction option) step" where
  "makeRingCT E wtxNew rawBinds myIndex rnd =
     then_step (from_outcome (collect (commit_output (Curve E)) (zip (vout wtxNew) rawBinds))) (\<lambda>outs.
     let tx = wtxNew\<lparr>vout := outs\<rparr>; nin = length (vin tx) in
     if nin > MAX_TX_INPUTS \<or> nin = 0 then ret None
     else if list_ex (\<lambda>txin. length (decoys txin) \<noteq> length (decoys (vin tx ! 0))) (vin tx) then ret None
     else if length (decoys (vin tx ! 0)) > MAX_RING_SIZE \<or> length (decoys (vin tx ! 0)) < MIN_RING_SIZE then ret None
     else then_step (\<lambda>w. from_outcome (collect (input_key E w myIndex) (vin tx)) w) (\<lambda>privs.
       then_step (collect_steps (input_blind E myIndex) (vin tx)) (\<lambda>inBlinds w.
         from_outcome (sign_ring E w tx myIndex rnd privs (privs @ inBlinds @ output_blinds (zip outs rawBinds) @ [rnd_blind rnd])) w)))"

end
