(* ===== verification/Ring_Complete.thy ===== *)
theory Ring_Complete
  imports Ring_Signature
begin

text \<open>
  What the wallet signs the node accepts: the ring closes at the real column whatever the decoys are, and the key that the
  node adds to that column is the one of the sum of secrets the wallet signs with, when the amounts add up.
\<close>

section \<open>Code that succeeds\<close>

lemma outcome_Some [simp]:
  "and_then m f = Inr (Some y) \<longleftrightarrow> (\<exists>x. m = Inr (Some x) \<and> f x = Inr (Some y))"
  "accept x = Inr (Some y) \<longleftrightarrow> x = y" "need p = Inr (Some y) \<longleftrightarrow> p = Some y" "must e p = Inr (Some y) \<longleftrightarrow> p = Some y"
  "raw r = Inr (Some y) \<longleftrightarrow> r = Inr y"
  by (auto simp: and_then_def accept_def need_def must_def raw_def split: sum.split option.split)

lemma get_Some [simp]: "get xs i = Inr (Some y) \<longleftrightarrow> i < length xs \<and> y = xs ! i"
  by (auto simp: get_def accept_def)

lemma collect_Some: "collect f xs = Inr (Some ys) \<longleftrightarrow> list_all2 (\<lambda>x y. f x = Inr (Some y)) xs ys"
proof (induction xs arbitrary: ys)
  case (Cons x xs)
  then show ?case by (cases ys) auto
qed auto

lemma collect_map: "collect f (map h xs) = collect (\<lambda>x. f (h x)) xs"
  by (induction xs) simp_all

lemma step_Some [simp]:
  "then_step m f s = Inr (Some y, s'') \<longleftrightarrow> (\<exists>x s'. m s = Inr (Some x, s') \<and> f x s' = Inr (Some y, s''))"
  "from_outcome r s = Inr (Some y, s') \<longleftrightarrow> r = Inr (Some y) \<and> s' = s"
  by (auto simp: then_step_def bind_Inr from_outcome_def split: option.splits sum.splits)

lemma collect_steps_pure:
  assumes "\<And>x. x \<in> set xs \<Longrightarrow> f x s = Inr (Some (h x), s)"
  shows "collect_steps f xs s = Inr (Some (map h xs), s)"
  using assms by (induction xs) auto

section \<open>Closing the ring\<close>

lemma sign_link_verifies:
  assumes "curve_laws (Curve E) g" "sign_link E c m = Inr (Some l)"
  shows "ring_link E c m = Inr (Some l)"
proof -
  obtain pk ki t where m: "m = (pk, ki, t)" by (cases m)
  obtain CP L ci SHP sum where s: "pubkey_tweak_mul (Curve E) pk c = Some CP" "pubkey_tweak_add (Curve E) CP t = Some L"
      "pubkey_tweak_mul (Curve E) ki c = Some ci" "point_hash E (PubKeySet pk) t = Inr SHP"
      "commitment_sum_pos (Curve E) [pubkey_to_commitment (Curve E) SHP, pubkey_to_commitment (Curve E) ci] = Some sum"
      "l = L @ (case commitment_to_pubkey (Curve E) sum of None \<Rightarrow> ci | Some R \<Rightarrow> R)"
    using assms(2) by (auto simp: sign_link_def m)
  obtain R where "commitment_to_pubkey (Curve E) sum = Some R" using commitment_facts(5) [OF assms(1)] by blast
  then show ?thesis using s by (simp add: ring_link_def m sum_points_def)
qed

lemma verify_walk_append:
  "verify_walk E h images c xs = Inr (Some c') \<Longrightarrow> verify_walk E h images c (xs @ ys) = verify_walk E h images c' ys"
  by (induction xs arbitrary: c) (auto simp: and_then_def accept_def split: sum.splits option.splits)

lemma sign_walk_verifies:
  assumes "curve_laws (Curve E) g" "sign_walk E h images c (xs @ ys) = Inr (Some cs)"
  shows "length cs = length (xs @ ys) + 1 \<and> cs ! 0 = c \<and> verify_walk E h images c xs = Inr (Some (cs ! length xs))
    \<and> verify_walk E h images (cs ! length xs) ys = Inr (Some (cs ! length (xs @ ys)))"
proof -
  have one: "length cs = length zs + 1 \<and> cs ! 0 = c \<and> verify_walk E h images c zs = Inr (Some (cs ! length zs))"
    if "sign_walk E h images c zs = Inr (Some cs)" for zs c cs
    using that
  proof (induction zs arbitrary: c cs)
    case (Cons z zs)
    then obtain links cs' where l: "collect (sign_link E c) (zip (fst z) (zip images (snd z))) = Inr (Some links)"
      "sign_walk E h images (ring_challenge E h links) zs = Inr (Some cs')" "cs = c # cs'" by auto
    have "list_all2 (\<lambda>x y. ring_link E c x = Inr (Some y)) (zip (fst z) (zip images (snd z))) links"
      using l(1) sign_link_verifies [OF assms(1)] unfolding collect_Some by (auto elim: list_all2_mono)
    then have "collect (ring_link E c) (zip (fst z) (zip images (snd z))) = Inr (Some links)" by (simp only: collect_Some)
    then show ?case using Cons.IH [OF l(2)] l(3) by simp
  qed auto
  show ?thesis
    using assms(2)
  proof (induction xs arbitrary: c cs)
    case Nil
    then show ?case using one [of c ys cs] by simp
  next
    case (Cons x xs)
    then obtain links cs' where l: "collect (sign_link E c) (zip (fst x) (zip images (snd x))) = Inr (Some links)"
      "sign_walk E h images (ring_challenge E h links) (xs @ ys) = Inr (Some cs')" "cs = c # cs'" by auto
    have "list_all2 (\<lambda>x y. ring_link E c x = Inr (Some y)) (zip (fst x) (zip images (snd x))) links"
      using l(1) sign_link_verifies [OF assms(1)] unfolding collect_Some by (auto elim: list_all2_mono)
    then have "collect (ring_link E c) (zip (fst x) (zip images (snd x))) = Inr (Some links)" by (simp only: collect_Some)
    then show ?case using Cons.IH [OF l(2)] l(3) by simp
  qed
qed

text \<open>The challenges that the node reaches: the one of the transaction, and the one after each column that is checked.\<close>

primrec walk_challenges :: "'e ring_env_scheme \<Rightarrow> bytes \<Rightarrow> bytes list \<Rightarrow> bytes \<Rightarrow> (bytes list \<times> bytes list) list \<Rightarrow> bytes list" where
  "walk_challenges E ctsHash images c [] = [c]"
| "walk_challenges E ctsHash images c (column # columns) =
     c # (case collect (ring_link E c) (zip (fst column) (zip images (snd column))) of
            Inr (Some links) \<Rightarrow> walk_challenges E ctsHash images (ring_challenge E ctsHash links) columns
          | _ \<Rightarrow> [])"

definition ring_challenges :: "'e ring_env_scheme \<Rightarrow> CTransaction \<Rightarrow> (bytes \<times> bytes) list list \<Rightarrow> bytes list" where
  "ring_challenges E tx rows = (let d = length (decoys (vin tx ! 0)); C = Curve E in
     case and_then (ring_responses tx d) (\<lambda>SIJ.
       and_then (out_commitments C tx) (\<lambda>outs.
       and_then (need (fee_commitment C tx)) (\<lambda>fee.
       and_then (collect (\<lambda>j. and_then (additional_sum C (ring_column rows j) (outs @ [fee])) need) [0..<d + 1]) (\<lambda>additional.
       accept (walk_challenges E (GetTxSignatureHash E tx) (ring_images tx) (write_limbs (tx_c tx))
         (zip (map (\<lambda>j. column_keys (ring_column rows j) (additional ! j)) [0..<d + 1]) SIJ)))))) of
       Inr (Some cs) \<Rightarrow> cs
     | _ \<Rightarrow> [])"

lemma walk_challenges_reached:
  "verify_walk E h images c xs = Inr (Some c') \<Longrightarrow> c' \<in> set (walk_challenges E h images c (xs @ ys))"
proof (induction xs arbitrary: c)
  case Nil
  then show ?case by (cases ys) simp_all
qed auto

text \<open>The walk of the node round a closed ring ends with the challenge it began with.\<close>

lemma close_ring_verifies:
  assumes laws: "curve_laws (Curve E) g" and PI: "PI \<le> d"
    and closed: "close_ring E h images d PI columns responses links alphas privs = Inr (Some (c0, SIJ))"
    and real: "\<And>c S. collect (real_response (Curve E) c) (zip alphas privs) = Inr (Some S) \<Longrightarrow> SIJ ! PI = S
       \<Longrightarrow> c \<in> set (walk_challenges E h images c0 (zip (map columns [0..<d + 1]) SIJ)) \<Longrightarrow> collect (ring_link E c) (zip (columns PI) (zip images S)) = Inr (Some links)"
  shows "verify_walk E h images c0 (zip (map columns [0..<d + 1]) SIJ) = Inr (Some c0)" "length SIJ = d + 1"
proof -
  let ?after = "map (\<lambda>j. (columns j, responses j)) [PI + 1..<d + 1]" and ?before = "map (\<lambda>j. (columns j, responses j)) [0..<PI]"
  let ?c1 = "ring_challenge E h links"
  obtain CI S where CI: "sign_walk E h images ?c1 (?after @ ?before) = Inr (Some CI)"
    and S: "collect (real_response (Curve E) (CI ! d)) (zip alphas privs) = Inr (Some S)"
    and r: "c0 = CI ! (d - PI)" "SIJ = map (\<lambda>j. if j = PI then S else responses j) [0..<d + 1]"
    using closed by (auto simp: close_ring_def simp flip: map_append)
  show "length SIJ = d + 1" using r(2) by simp
  have l: "length ?after = d - PI" "length (?after @ ?before) = d" using PI by (simp_all del: upt_Suc)
  note w = sign_walk_verifies [OF laws CI, unfolded l r(1) [symmetric]]
  have split: "zip (map columns [0..<d + 1]) SIJ = ?before @ (columns PI, S) # ?after"
  proof -
    have u: "[0..<d + 1] = [0..<PI] @ PI # [PI + 1..<d + 1]"
      using PI upt_add_eq_append [of 0 PI "d + 1 - PI"] upt_conv_Cons [of PI "d + 1"] by simp
    have "zip (map columns [0..<d + 1]) SIJ = map (\<lambda>j. (columns j, if j = PI then S else responses j)) [0..<d + 1]"
      by (simp add: r(2) zip_map_map zip_same_conv_map del: upt_Suc)
    also have "\<dots> = map (\<lambda>j. (columns j, if j = PI then S else responses j)) ([0..<PI] @ PI # [PI + 1..<d + 1])"
      by (rule arg_cong [OF u])
    also have "\<dots> = ?before @ (columns PI, S) # ?after" by (simp del: upt_Suc)
    finally show ?thesis .
  qed
  have before: "verify_walk E h images c0 ?before = Inr (Some (CI ! d))" using w by blast
  have ring: "collect (ring_link E (CI ! d)) (zip (columns PI) (zip images S)) = Inr (Some links)"
    by (rule real [OF S]) (use r(2) PI walk_challenges_reached [OF before] split in \<open>simp_all add: nth_append\<close>)
  from verify_walk_append [OF before] have "verify_walk E h images c0 (zip (map columns [0..<d + 1]) SIJ)
      = verify_walk E h images (CI ! d) ((columns PI, S) # ?after)" unfolding split .
  also have "\<dots> = Inr (Some c0)" using ring w by simp
  finally show "verify_walk E h images c0 (zip (map columns [0..<d + 1]) SIJ) = Inr (Some c0)" .
qed

text \<open>One real member: the response makes \<open>L\<close> and \<open>R\<close> those of the random secret.\<close>

lemma real_member_verifies:
  assumes laws: "curve_laws (Curve E) g" and H: "\<forall>b. length (HashFn E b) = 8"
    and ok: "secret_ok g x" "secret_ok g alpha" "secret_ok g c" "secret_ok g s"
    and ki: "point_hash E (GetPubKey (Curve E) x) x = Inr ki" and l: "real_link E (GetPubKey (Curve E) x, alpha) = Inr (Some l)"
    and s: "real_response (Curve E) c (alpha, x) = Inr (Some s)"
  shows "ring_link E c (GetPubKey (Curve E) x, ki, s) = Inr (Some l)"
proof -
  note G = key_facts(1) [OF laws]
  have P: "GetPubKey (Curve E) x = point g (scalar x)" "GetPubKey (Curve E) alpha = point g (scalar alpha)"
    using key_facts(8) [OF laws] ok by simp_all
  obtain y where y: "finite_point g y" "ki = point g (y * scalar x)"
      "\<And>u. secret_ok g u \<Longrightarrow> point_hash E (GetPubKey (Curve E) x) u = Inr (point g (y * scalar u))"
    using point_hash_point [OF laws H ki] by blast
  have l': "l = point g (scalar alpha) @ point g (y * scalar alpha)" using l y(3) [OF ok(2)] P(2) by (auto simp: real_link_def)
  have f: "finite_point g (scalar x)" "finite_point g (scalar alpha)" "finite_point g (scalar c)" "finite_point g (scalar s)"
    using ok by (simp_all add: secret_ok_finite)
  have f2: "finite_point g (scalar x * scalar c)" "finite_point g (y * scalar x)" "finite_point g (y * scalar x * scalar c)"
      "finite_point g (y * scalar s)" "finite_point g (y * scalar alpha)"
    using group_facts(4) [OF G] y(1) f by blast+
  have s': "s = secret_of g (scalar alpha - scalar (secret_of g (scalar c * scalar x)))"
    using s key_facts(6) [OF laws, of c x] ok commitment_facts(8) [OF laws, of "[alpha, secret_of g (scalar c * scalar x)]" 1] secret_of_range(1) [OF G]
    by (auto simp: real_response_def secret_okD)
  then have "scalar s mod order g = (scalar alpha - scalar c * scalar x) mod order g"
    by (simp add: scalar_secret_of [OF G] mod_simps)
  then have cong: "(k * scalar x * scalar c + k * scalar s) mod order g = k * scalar alpha mod order g" for k
    using mod_add_cong [OF refl [of "k * scalar x * scalar c mod order g"], of "k * scalar s" "k * (scalar alpha - scalar c * scalar x)"]
      mod_mult_cong [OF refl [of "k mod order g"], of "scalar s" "scalar alpha - scalar c * scalar x"] by (simp add: algebra_simps)
  have L: "pubkey_tweak_add (Curve E) (point g (scalar x * scalar c)) s = Some (point g (scalar alpha))"
  proof -
    have e: "(scalar x * scalar c + scalar s) mod order g = scalar alpha mod order g" using cong [of 1] by simp
    then have "finite_point g (scalar x * scalar c + scalar s)" using f(2) finite_cong by blast
    then show ?thesis using key_facts(4) [OF laws f2(1)] ok(4) e group_facts(5) [OF G] by (simp add: secret_okD)
  qed
  have R: "sum_points (Curve E) (point g (y * scalar s)) (point g (y * scalar x * scalar c)) = Some (point g (y * scalar alpha))"
  proof -
    have e: "(y * scalar s + y * scalar x * scalar c) mod order g = y * scalar alpha mod order g" using cong [of y] by (simp add: add.commute)
    then have "finite_point g (y * scalar s + y * scalar x * scalar c)" using f2(5) finite_cong by blast
    then show ?thesis using sum_points_points [OF laws f2(4,3)] e group_facts(5) [OF G] by simp
  qed
  show ?thesis
    using P(1) key_facts(2) [OF laws f(1) ok(3)] key_facts(2) [OF laws f2(2) ok(3)] L R y(2) y(3) [OF ok(4)] l'
    by (simp add: ring_link_def point_simps [OF G])
qed

section \<open>The inputs of the wallet\<close>

text \<open>
  The amount of an output that the wallet knows, with its blinding factor: a coinbase, and a coinstake for an output with a value, hide
  nothing, and of any other transaction the wallet has read the amount.
\<close>

definition known_amount :: "wallet \<Rightarrow> CTransaction \<Rightarrow> CTxOut \<Rightarrow> CAmount \<Rightarrow> bytes \<Rightarrow> bool" where
  "known_amount w t out v b \<longleftrightarrow>
     (if IsCoinBase t \<or> IsCoinStake t \<and> 0 < nValue out then v = nValue out \<and> b = replicate 32 0
      else amountMap w (scriptPubKey out) = Some v \<and> blindMap w (scriptPubKey out) = Some (Some b))"

lemma known_amount_revealed:
  assumes "\<not> IsLocked w" "known_amount w t out v b"
  obtains tmp where "\<And>a. RevealTxOutAmount E t out a w = Inr ((True, v, tmp), w)" "(case tmp of None \<Rightarrow> replicate 32 0 | Some b \<Rightarrow> b) = b"
proof (cases "IsCoinBase t \<or> IsCoinStake t \<and> 0 < nValue out")
  case True
  then have "RevealTxOutAmount E t out a w = Inr ((True, nValue out, None), w)" for a
    using assms(1) by (cases "IsCoinBase t") (simp_all add: RevealTxOutAmount_def)
  then show ?thesis using that [of None] True assms(2) by (simp add: known_amount_def)
next
  case False
  then have "\<not> IsCoinBase t" "\<not> (IsCoinStake t \<and> 0 < nValue out)" by blast+
  then have "RevealTxOutAmount E t out a w = Inr ((True, v, Some b), w)" for a
    using assms by (simp only: RevealTxOutAmount_def known_amount_def Let_def if_False simp_thms option.case ret_def)
  then show ?thesis using that [of "Some b"] by simp
qed

text \<open>
  An input that the wallet can spend: it and the node have the transaction, the wallet knows the amount \<open>v\<close> and the blinding factor,
  and the key image of the input is the one of its key.
\<close>

definition owned_input :: "'e ring_env_scheme \<Rightarrow> group \<Rightarrow> wallet \<Rightarrow> int \<Rightarrow> CTxIn \<Rightarrow> CAmount \<Rightarrow> bool" where
  "owned_input E g w myIndex txin v \<longleftrightarrow> (\<exists>op t h b. real_outpoint myIndex txin = accept op
     \<and> mapWallet w (op_txid op) = Some t \<and> GetTransaction E (op_txid op) = Some (t, h) \<and> unat (op_n op) < length (vout t)
     \<and> known_amount w t (vout t ! unat (op_n op)) v b \<and> in_range g b \<and> 0 \<le> v \<and> v < 2 ^ 63
     \<and> generateKeyImage (Curve E) (HashFn E) (keys w) (scriptPubKey (vout t ! unat (op_n op))) = Some (Some (keyImage txin)))"

lemma uint_amount: "0 \<le> v \<Longrightarrow> v < 2 ^ 63 \<Longrightarrow> uint (of_int v :: u64) = v"
  by (simp add: uint_word_of_int_eq take_bit_eq_mod)

lemma CreateCommitment_packed:
  assumes laws: "curve_laws C g" and b: "in_range g b" and v: "0 \<le> v" "v < 2 ^ 63" and c: "CreateCommitment C b v = Some com"
  shows "finite_point g (scalar b + v * value_log g)" "length com = 33" "commitment_parse C com = Some (packed g (scalar b + v * value_log g))"
proof -
  obtain p where p: "pedersen_commit C b (of_int v) = Some p" "commitment_serialize C p = Some com"
    using c by (auto simp: CreateCommitment_def bind_eq_Some_conv)
  then show f: "finite_point g (scalar b + v * value_log g)"
    using commitment_facts(1) [OF laws b, of "of_int v"] by (auto simp: uint_amount [OF v] split: if_splits)
  then have "p = packed g (scalar b + v * value_log g)"
    using p(1) commitment_facts(1) [OF laws b, of "of_int v"] by (simp add: uint_amount [OF v])
  then show "length com = 33" "commitment_parse C com = Some (packed g (scalar b + v * value_log g))"
    using p(2) commitment_facts(2) [OF laws f] by auto
qed

lemma keyImage_point_hash:
  assumes laws: "curve_laws (Curve E) g" and H: "\<forall>b. length (HashFn E b) = 8"
    and k: "key_for_script (Curve E) ks script = Some x" and i: "generateKeyImage (Curve E) (HashFn E) ks script = Some (Some ki)"
  shows "point_hash E (GetPubKey (Curve E) x) x = Inr ki" "\<exists>z. ki = point g z"
proof -
  obtain r where r: "point_hash_loop (Curve E) (HashFn E) (rehash_key (HashFn E) (GetPubKey (Curve E) x)) x = Some r" "ki = PubKeySet r"
    using i k by (auto simp: generateKeyImage_def)
  then have p: "point_hash E (GetPubKey (Curve E) x) x = Inr r" by (simp add: point_hash_iff PointHashingSuccessively_def)
  then obtain z where "r = point g z" using point_hash_point [OF laws H] by blast
  then show "point_hash E (GetPubKey (Curve E) x) x = Inr ki" "\<exists>z. ki = point g z"
    using p r(2) point_simps(2) [OF key_facts(1) [OF laws]] by auto
qed

lemma owned_input_signs:
  assumes laws: "curve_laws (Curve E) g" and H: "\<forall>b. length (HashFn E b) = 8" and ks: "\<forall>k\<in>set (keys w). secret_ok g k"
    and unlocked: "\<not> IsLocked w" and own: "owned_input E g w myIndex txin v"
    and k: "input_key E w myIndex txin = Inr (Some x)" and b: "input_blind E myIndex txin w = Inr (Some b, w')"
    and c: "real_commitment w myIndex txin = Inr (Some com)"
  shows "w' = w" "secret_ok g x" "in_range g b" "point_hash E (GetPubKey (Curve E) x) x = Inr (take 33 (keyImage txin))"
    and "finite_point g (scalar b + v * value_log g)" "commitment_parse (Curve E) com = Some (packed g (scalar b + v * value_log g))"
    and "\<exists>op t h. real_outpoint myIndex txin = accept op \<and> GetTransaction E (op_txid op) = Some (t, h)
      \<and> output_member t (unat (op_n op)) = accept (GetPubKey (Curve E) x, com)"
proof -
  note G = key_facts(1) [OF laws]
  obtain op t h b0 where o: "real_outpoint myIndex txin = accept op" "mapWallet w (op_txid op) = Some t" "GetTransaction E (op_txid op) = Some (t, h)"
      "unat (op_n op) < length (vout t)" "known_amount w t (vout t ! unat (op_n op)) v b0" "in_range g b0" "0 \<le> v" "v < 2 ^ 63"
      "generateKeyImage (Curve E) (HashFn E) (keys w) (scriptPubKey (vout t ! unat (op_n op))) = Some (Some (keyImage txin))"
    using own by (auto simp: owned_input_def)
  let ?out = "vout t ! unat (op_n op)"
  have out: "real_output w myIndex txin = Inr (Some (t, ?out))" using o(1,2,4) by (simp add: real_output_def)
  have key: "key_for_script (Curve E) (keys w) (scriptPubKey ?out) = Some x"
    using k out by (auto simp: input_key_def findCorrespondingPrivateKey_def)
  note e = wallet_key_extract [OF laws ks key]
  show "secret_ok g x" by (rule e(1))
  obtain z where z: "keyImage txin = point g z" "point_hash E (GetPubKey (Curve E) x) x = Inr (keyImage txin)"
    using keyImage_point_hash [OF laws H key o(9)] by blast
  then show "point_hash E (GetPubKey (Curve E) x) x = Inr (take 33 (keyImage txin))" by (simp add: point_simps [OF G])
  obtain tmp where rev: "\<And>a. RevealTxOutAmount E t ?out a w = Inr ((True, v, tmp), w)" "(case tmp of None \<Rightarrow> replicate 32 0 | Some b \<Rightarrow> b) = b0"
    using known_amount_revealed [OF unlocked o(5)] by blast
  have bl: "length (commitment ?out) \<ge> 33" "CreateCommitment (Curve E) b0 v = Some (commitment ?out)" "b = b0" "w' = w"
    using b out rev by (auto simp: input_blind_def bind_app Let_def split: if_splits)
  show "w' = w" "in_range g b" using bl o(6) by simp_all
  have com: "com = take 33 (commitment ?out)" using c out bl(1) by (auto simp: real_commitment_def)
  note p = CreateCommitment_packed [OF laws o(6-8) bl(2)]
  show "finite_point g (scalar b + v * value_log g)" "commitment_parse (Curve E) com = Some (packed g (scalar b + v * value_log g))"
    using p bl(3) com by simp_all
  have "take 33 (GetPubKey (Curve E) x) = GetPubKey (Curve E) x" using e(2) by (simp add: point_simps [OF G])
  then have "output_member t (unat (op_n op)) = accept (GetPubKey (Curve E) x, com)"
    using o(4) e(3) bl(1) com by (simp add: output_member_def and_then_def accept_def get_def need_def)
  then show "\<exists>op t h. real_outpoint myIndex txin = accept op \<and> GetTransaction E (op_txid op) = Some (t, h)
      \<and> output_member t (unat (op_n op)) = accept (GetPubKey (Curve E) x, com)" using o(1,3) by blast
qed

section \<open>The key that is added to the real column\<close>

lemma additional_sum_point:
  assumes laws: "curve_laws C g" and pubs: "map fst column = map (point g) xs"
    and coms: "list_all2 (\<lambda>m p. commitment_parse C (snd m) = Some (packed g p)) column cs"
    and f: "list_all (finite_point g) (cs @ xs @ os)" "finite_point g (sum_list cs + sum_list xs - sum_list os)"
  shows "additional_sum C column (map (packed g) os) = accept (Some (point g (sum_list cs + sum_list xs - sum_list os)))"
proof -
  have "collect (\<lambda>m. need (commitment_parse C (snd m))) column = Inr (Some (map (packed g) cs))"
    using coms by (simp add: collect_Some list_all2_map2 list_all2_mono [OF coms])
  moreover have "map (\<lambda>m. pubkey_to_commitment C (fst m)) column = map (packed g) xs"
  proof -
    have "map (\<lambda>m. pubkey_to_commitment C (fst m)) column = map (pubkey_to_commitment C) (map fst column)" by simp
    also have "\<dots> = map (pubkey_to_commitment C) (map (point g) xs)" unfolding pubs ..
    also have "\<dots> = map (packed g) xs" using f(1) commitment_facts(3) [OF laws] by (auto simp: list_all_iff)
    finally show ?thesis .
  qed
  moreover have "commitment_sum C (map (packed g) (cs @ xs)) (map (packed g) os) = Some (packed g (sum_list (cs @ xs) - sum_list os))"
    by (rule commitment_facts(6) [OF laws]) (use f in simp_all)
  ultimately show ?thesis using commitment_facts(4) [OF laws f(2)] by (simp add: additional_sum_def and_then_def)
qed

lemma sum_list_commitments:
  "length bs = length vs \<Longrightarrow> sum_list (map2 (\<lambda>b v. scalar b + v * h) bs vs) = sum_list (map scalar bs) + h * sum_list vs"
  by (induction bs vs rule: list_induct2) (simp_all add: algebra_simps)

text \<open>The secret of the additional key, when every blinding factor is in range.\<close>

lemma additional_secret_value:
  assumes laws: "curve_laws C g" and l: "length privs = nin" "length ins = nin" "length outs = nout"
    and r: "list_all (in_range g) (privs @ ins @ outs)" and s: "additional_secret C nin nout (privs @ ins @ outs @ rest) = Inr (Some x)"
    and k: "KeySet x = Some k"
  shows "k = x" "secret_ok g x" "scalar x = (sum_list (map scalar privs) + sum_list (map scalar ins) - sum_list (map scalar outs)) mod order g"
proof -
  note G = key_facts(1) [OF laws]
  have "take (nin + (nin + nout)) (privs @ ins @ outs @ rest) = (privs @ ins) @ outs" using l by simp
  then have "blind_sum C ((privs @ ins) @ outs) (2 * nin) = Some x"
    using s by (auto simp: additional_secret_def Let_def split: if_splits)
  then have x: "x = secret_of g (sum_list (map scalar (privs @ ins)) - sum_list (map scalar outs))"
    using commitment_facts(8) [OF laws, of "(privs @ ins) @ outs" "2 * nin"] r l by simp
  then show "scalar x = (sum_list (map scalar privs) + sum_list (map scalar ins) - sum_list (map scalar outs)) mod order g"
    by (simp add: scalar_secret_of [OF G])
  show "k = x" using k by (simp add: KeySet_def split: if_splits)
  have "0 < scalar x" using k by (simp add: KeySet_def KeyCheck_iff split: if_splits)
  then show "secret_ok g x" using secret_of_range(1) [OF G] x by (simp add: secret_ok_def)
qed

text \<open>The outputs of the signer.\<close>

definition output_log :: "group \<Rightarrow> CTxOut \<times> bytes \<Rightarrow> int" where
  "output_log g ob = scalar (snd ob) + nValue (fst ob) * value_log g"

lemma commit_outputs:
  assumes laws: "curve_laws C g" and l: "length obs = length bs"
    and obs: "\<forall>out\<in>set obs. \<not> TxOutIsEmpty out \<and> 0 \<le> nValue out \<and> nValue out < 2 ^ 63" and bs: "\<forall>b\<in>set bs. secret_ok g b"
    and c: "collect (commit_output C) (zip obs (map Some bs)) = Inr (Some outs)"
  shows "length outs = length bs" "map nValue outs = map nValue obs" "output_blinds (zip outs (map Some bs)) = bs"
    "list_all2 (\<lambda>out p. finite_point g p \<and> commitment_parse C (take 33 (commitment out)) = Some (packed g p)) outs (map (output_log g) (zip outs bs))"
proof -
  have one: "nValue o' = nValue out \<and> \<not> TxOutIsEmpty o' \<and> finite_point g (output_log g (o', b))
      \<and> commitment_parse C (take 33 (commitment o')) = Some (packed g (output_log g (o', b)))"
    if "commit_output C (out, Some b) = Inr (Some o')" "out \<in> set obs" "b \<in> set bs" for out b o'
  proof -
    note co = that(1)
    have v: "\<not> TxOutIsEmpty out" "0 \<le> nValue out" "nValue out < 2 ^ 63" "in_range g b" using obs bs that(2,3) by (auto simp: secret_okD)
    then obtain com where com: "CreateCommitment C b (nValue out) = Some com" "o' = out\<lparr>commitment := take 33 com\<rparr>"
      using co by (auto simp: commit_output_def)
    then show ?thesis using CreateCommitment_packed [OF laws v(4) v(2,3) com(1)] v(1) by (simp add: output_log_def TxOutIsEmpty_def)
  qed
  have a: "list_all2 (\<lambda>x y. commit_output C x = Inr (Some y)) (zip obs (map Some bs)) outs" using c by (simp only: collect_Some)
  then show len: "length outs = length bs" using l list_all2_lengthD by fastforce
  have n: "commit_output C (obs ! i, Some (bs ! i)) = Inr (Some (outs ! i))" if "i < length bs" for i
    using list_all2_nthD [OF a, of i] l that by simp
  have i: "nValue (outs ! i) = nValue (obs ! i) \<and> \<not> TxOutIsEmpty (outs ! i) \<and> finite_point g (output_log g (outs ! i, bs ! i))
      \<and> commitment_parse C (take 33 (commitment (outs ! i))) = Some (packed g (output_log g (outs ! i, bs ! i)))" if "i < length bs" for i
    by (rule one [OF n [OF that]]) (use that l in simp_all)
  show "map nValue outs = map nValue obs" by (rule nth_equalityI) (use i len l in simp_all)
  have "filter (\<lambda>(out, blind). \<not> TxOutIsEmpty out) (zip outs (map Some bs)) = zip outs (map Some bs)"
    using i len by (intro filter_True) (auto simp: set_zip)
  then show "output_blinds (zip outs (map Some bs)) = bs"
    using len by (simp add: output_blinds_def) (rule nth_equalityI, simp_all)
  show "list_all2 (\<lambda>out p. finite_point g p \<and> commitment_parse C (take 33 (commitment out)) = Some (packed g p)) outs (map (output_log g) (zip outs bs))"
    using i len by (simp add: list_all2_conv_all_nth)
qed

lemma out_commitments_packed:
  assumes "list_all2 (\<lambda>out p. finite_point g p \<and> commitment_parse C (take 33 (commitment out)) = Some (packed g p)) (vout tx) ps"
    and "out_commitments C tx = Inr (Some cs)"
  shows "cs = map (packed g) ps"
proof -
  have l: "list_all2 (\<lambda>x y. out_commitment C x = Inr (Some y)) (enumerate 0 (vout tx)) cs"
    using assms(2) by (simp only: out_commitments_def collect_Some)
  then have len: "length cs = length (vout tx)" "length ps = length (vout tx)" using list_all2_lengthD assms(1) by fastforce+
  have "cs ! i = packed g (ps ! i)" if "i < length (vout tx)" for i
  proof -
    have "out_commitment C (i, vout tx ! i) = Inr (Some (cs ! i))" using list_all2_nthD [OF l, of i] that by (simp add: nth_enumerate_eq)
    moreover have "commitment_parse C (take 33 (commitment (vout tx ! i))) = Some (packed g (ps ! i))"
      using list_all2_nthD [OF assms(1) that] by simp
    ultimately show ?thesis by (simp add: out_commitment_def split: if_splits)
  qed
  then show ?thesis using len by (intro nth_equalityI) simp_all
qed

section \<open>The members of the ring\<close>

text \<open>A block of the active chain, and the members that the node finds where the wallet found them.\<close>

definition block_in_chain :: "'a node_scheme \<Rightarrow> uint256 \<Rightarrow> bool" where
  "block_in_chain s h \<longleftrightarrow> (\<exists>q tip. mapBlockIndex s h = Some (Some q) \<and> Tip (chainActive s) = Some tip
     \<and> GetAncestor (heap s) tip (nHeight (heap s q)) = Some q)"

lemma ring_member_found:
  assumes "sign_member E op = Inr (Some m)" "\<And>t h. GetTransaction E (op_txid op) = Some (t, h) \<Longrightarrow> block_in_chain s h"
  shows "ring_member E (Some p) op s = Inr (Some m, s)"
proof -
  obtain t h where t: "GetTransaction E (op_txid op) = Some (t, h)" "output_member t (unat (op_n op)) = Inr (Some m)"
    using assms(1) by (auto simp: sign_member_def split: option.splits)
  then obtain q tip where q: "mapBlockIndex s h = Some (Some q)" "Tip (chainActive s) = Some tip"
      "GetAncestor (heap s) tip (nHeight (heap s q)) = Some q" using assms(2) by (auto simp: block_in_chain_def)
  then show ?thesis using t by (simp add: ring_member_def bind_app deref_app block_at_known from_outcome_def)
qed

lemma real_outpoint_nth:
  assumes "real_outpoint myIndex txin = accept op" "-1 \<le> myIndex"
  shows "nat (myIndex + 1) < length (ring_outpoints txin)" "ring_outpoints txin ! nat (myIndex + 1) = op"
proof -
  have "nat (myIndex + 1) = Suc (nat myIndex)" if "myIndex \<noteq> -1" using that assms(2) by simp
  then show "nat (myIndex + 1) < length (ring_outpoints txin)" "ring_outpoints txin ! nat (myIndex + 1) = op"
    using assms by (auto simp: real_outpoint_def ring_outpoints_def accept_def get_def split: if_splits)
qed

lemma sign_row_members:
  assumes "sign_row E PI (txin, pub, com) = Inr (Some row)" "PI < length (ring_outpoints txin)"
    and "sign_member E (ring_outpoints txin ! PI) = Inr (Some (pub, com))"
  shows "list_all2 (\<lambda>op m. sign_member E op = Inr (Some m)) (ring_outpoints txin) row" "row ! PI = (pub, com)"
proof -
  have l: "list_all2 (\<lambda>x y. (case x of (j, op) \<Rightarrow> if j = PI then accept (pub, com) else sign_member E op) = Inr (Some y)) (enumerate 0 (ring_outpoints txin)) row"
    using assms(1) by (simp only: sign_row_def prod.case collect_Some)
  then have len: "length row = length (ring_outpoints txin)" using list_all2_lengthD by fastforce
  have n: "(if i = PI then accept (pub, com) else sign_member E (ring_outpoints txin ! i)) = Inr (Some (row ! i))" if "i < length (ring_outpoints txin)" for i
    using list_all2_nthD [OF l, of i] that by (simp add: nth_enumerate_eq)
  show "row ! PI = (pub, com)" using n [OF assms(2)] by simp
  have "sign_member E (ring_outpoints txin ! i) = Inr (Some (row ! i))" if "i < length (ring_outpoints txin)" for i
    using n [OF that] assms(3) by (cases "i = PI") simp_all
  then show "list_all2 (\<lambda>op m. sign_member E op = Inr (Some m)) (ring_outpoints txin) row" using len by (simp add: list_all2_conv_all_nth)
qed

lemma collect_steps_all2:
  assumes "list_all2 (\<lambda>x y. f x s = Inr (Some y, s)) xs ys"
  shows "collect_steps f xs s = Inr (Some ys, s)"
  using assms by (induction xs ys rule: list_all2_induct) simp_all

lemma ring_rows_found:
  assumes "list_all2 (\<lambda>txin row. list_all2 (\<lambda>op m. sign_member E op = Inr (Some m)) (ring_outpoints txin) row) (vin tx) rows"
    and "\<And>txin op t h. txin \<in> set (vin tx) \<Longrightarrow> op \<in> set (ring_outpoints txin) \<Longrightarrow> GetTransaction E (op_txid op) = Some (t, h) \<Longrightarrow> block_in_chain s h"
  shows "ring_rows E (Some p) tx s = Inr (Some rows, s)"
  unfolding ring_rows_def
proof (rule collect_steps_all2)
  have "collect_steps (ring_member E (Some p)) (ring_outpoints txin) s = Inr (Some row, s)"
    if "txin \<in> set (vin tx)" "list_all2 (\<lambda>op m. sign_member E op = Inr (Some m)) (ring_outpoints txin) row" for txin row
  proof (rule collect_steps_all2)
    show "list_all2 (\<lambda>op m. ring_member E (Some p) op s = Inr (Some m, s)) (ring_outpoints txin) row"
      using that(2) by (rule list.rel_mono_strong) (use ring_member_found assms(2) [OF that(1)] in blast)
  qed
  then show "list_all2 (\<lambda>txin row. collect_steps (ring_member E (Some p)) (ring_outpoints txin) s = Inr (Some row, s)) (vin tx) rows"
    by (intro list.rel_mono_strong [OF assms(1)]) blast
qed

section \<open>What the signed transaction carries\<close>

lemma ring_responses_read:
  assumes "tx_S tx = map (map bytes_uint256) SIJ" "length SIJ = d + 1"
    and "\<forall>col\<in>set SIJ. length col = length (vin tx) + 1 \<and> (\<forall>s\<in>set col. length s = 32)"
  shows "ring_responses tx d = Inr (Some SIJ)"
  unfolding ring_responses_def collect_Some
proof (rule list_all2_all_nthI)
  show "length [0..<d + 1] = length SIJ" using assms(2) by simp
  fix i
  assume "i < length [0..<d + 1]"
  then have i: "i < length SIJ" "[0..<d + 1] ! i = i" using assms(2) by (simp_all del: upt_Suc)
  let ?col = "SIJ ! i"
  have c: "length ?col = length (vin tx) + 1" "\<forall>s\<in>set ?col. length s = 32" using assms(3) i(1) nth_mem by blast+
  have "list_all2 (\<lambda>j y. and_then (get (map bytes_uint256 ?col) j) (\<lambda>s. accept (write_limbs s)) = Inr (Some y)) [0..<length (vin tx) + 1] ?col"
  proof (rule list_all2_all_nthI)
    show "length [0..<length (vin tx) + 1] = length ?col" using c by simp
    fix j
    assume "j < length [0..<length (vin tx) + 1]"
    then have j: "j < length ?col" "[0..<length (vin tx) + 1] ! j = j" using c(1) by (simp_all del: upt_Suc)
    then show "and_then (get (map bytes_uint256 ?col) ([0..<length (vin tx) + 1] ! j)) (\<lambda>s. accept (write_limbs s)) = Inr (Some (?col ! j))"
      using c(2) uint256_bytes_of [of "?col ! j"] nth_mem [OF j(1)] by (simp add: uint256_bytes_def)
  qed
  then have "collect (\<lambda>j. and_then (get (map bytes_uint256 ?col) j) (\<lambda>s. accept (write_limbs s))) [0..<length (vin tx) + 1] = Inr (Some ?col)"
    by (simp only: collect_Some)
  then show "and_then (get (tx_S tx) ([0..<d + 1] ! i)) (\<lambda>S_column. collect (\<lambda>j. and_then (get S_column j) (\<lambda>s. accept (write_limbs s))) [0..<length (vin tx) + 1])
      = Inr (Some (SIJ ! i))"
    using i assms(1) by (simp del: upt_Suc)
qed

lemma GetTxSignatureHash_signed [simp]:
  "GetTxSignatureHash E (tx\<lparr>tx_c := c, tx_S := S, ntxFeeKeyImage := ki\<rparr>) = GetTxSignatureHash E tx"
  by (simp add: GetTxSignatureHash_def write_CTransactionSignature_def)

section \<open>A signed transaction is verified\<close>

text \<open>What the signer has computed when it returns a transaction.\<close>

lemma sign_ring_parts:
  assumes "sign_ring E w tx myIndex rnd privs blinds = Inr (Some tx')"
    and "d = length (decoys (vin tx ! 0))" "n = length (vin tx)" "PI = nat (myIndex + 1)"
  obtains coms links outSum key image link rows outs fee additional c0 SIJ where
    "collect (real_commitment w myIndex) (vin tx) = Inr (Some coms)"
    "collect (real_link E) (zip (map (GetPubKey (Curve E)) privs) (map (rnd_alpha rnd) [0..<n + 1])) = Inr (Some links)"
    "additional_secret (Curve E) n (length (vout tx)) blinds = Inr (Some outSum)" "KeySet outSum = Some key"
    "point_hash E (GetPubKey (Curve E) key) outSum = Inr image"
    "real_link E (GetPubKey (Curve E) key, rnd_alpha rnd n) = Inr (Some link)"
    "collect (sign_row E PI) (zip (vin tx) (zip (map (\<lambda>k. take 33 (GetPubKey (Curve E) k)) privs) coms)) = Inr (Some rows)"
    "out_commitments (Curve E) tx = Inr (Some outs)" "fee_commitment (Curve E) tx = Some fee"
    "collect (\<lambda>j. if j = PI then accept (take 33 (GetPubKey (Curve E) key))
         else and_then (additional_sum (Curve E) (ring_column rows j) (outs @ [fee])) (must RuntimeError)) [0..<d + 1] = Inr (Some additional)"
    "close_ring E (GetTxSignatureHash E tx) (map (\<lambda>txin. take 33 (keyImage txin)) (vin tx) @ [image]) d PI
         (\<lambda>j. column_keys (ring_column rows j) (additional ! j)) (\<lambda>j. map (\<lambda>i. rnd_response rnd i j) [0..<n + 1]) (links @ [link])
         (map (rnd_alpha rnd) [0..<n + 1]) (privs @ [outSum]) = Inr (Some (c0, SIJ))"
    "tx' = tx\<lparr>tx_c := bytes_uint256 c0, tx_S := tx_S tx @ map (map bytes_uint256) SIJ, ntxFeeKeyImage := PubKeySet image\<rparr>"
proof -
  note result = that [unfolded assms(2-4)]
  from assms(1) show ?thesis
    by (simp only: sign_ring_def Let_def outcome_Some split_paired_Ex prod.case) (elim exE conjE, rule result, assumption+, erule sym)
qed

text \<open>The key that is added to the real column is the one of the additional secret.\<close>

lemma additional_key_balances:
  assumes laws: "curve_laws C g" and col: "map fst column = map (GetPubKey C) privs" "\<forall>k\<in>set privs. secret_ok g k"
    and coms: "list_all2 (\<lambda>m p. finite_point g p \<and> commitment_parse C (snd m) = Some (packed g p)) column
        (map2 (\<lambda>b v. scalar b + v * value_log g) ins vs)" "length ins = length vs" "\<forall>k\<in>set ins. in_range g k"
    and outs: "list_all (finite_point g) (map (output_log g) (zip obs bs))" "length obs = length bs" "\<forall>k\<in>set bs. secret_ok g k"
    and fee: "fee_commitment C tx = Some fee" "0 \<le> nTxFee tx" "nTxFee tx < 2 ^ 63"
    and balance: "sum_list vs = sum_list (map nValue obs) + nTxFee tx"
    and s: "additional_secret C (length privs) (length bs) (privs @ ins @ bs @ rest) = Inr (Some x)" "KeySet x = Some k" "length ins = length privs"
  shows "additional_sum C column (map (packed g) (map (output_log g) (zip obs bs)) @ [fee]) = accept (Some (GetPubKey C x))"
proof -
  note G = key_facts(1) [OF laws]
  let ?h = "value_log g" and ?cs = "map2 (\<lambda>b v. scalar b + v * value_log g) ins vs" and ?os = "map (output_log g) (zip obs bs) @ [nTxFee tx * value_log g]"
  have z: "scalar (replicate 32 0) = 0" "in_range g (replicate 32 0)"
  proof -
    have "le_val (replicate m 0) = 0" for m by (induction m) simp_all
    then show "scalar (replicate 32 0) = 0" by (simp add: scalar_def)
    then show "in_range g (replicate 32 0)" using group_facts(1) [OF G] by (simp add: in_range_def)
  qed
  have f: "fee = packed g (nTxFee tx * ?h)" "finite_point g (nTxFee tx * ?h)"
    using fee commitment_facts(1) [OF laws z(2), of "of_int (nTxFee tx)"] by (auto simp: fee_commitment_def z(1) uint_amount split: if_splits)
  have r: "list_all (in_range g) (privs @ ins @ bs)" using col(2) coms(3) outs(3) by (auto simp: list_all_iff secret_okD)
  note x = additional_secret_value [OF laws refl s(3) refl r s(1,2)]
  have os: "sum_list ?os = sum_list (map scalar bs) + ?h * (sum_list (map nValue obs) + nTxFee tx)"
  proof -
    have "map (output_log g) (zip obs bs) = map2 (\<lambda>b v. scalar b + v * ?h) bs (map nValue obs)"
      using outs(2) by (intro nth_equalityI) (simp_all add: output_log_def)
    then show ?thesis using sum_list_commitments [of bs "map nValue obs" ?h] outs(2) by (simp add: algebra_simps)
  qed
  let ?total = "sum_list ?cs + sum_list (map scalar privs) - sum_list ?os"
  have t: "?total = sum_list (map scalar privs) + sum_list (map scalar ins) - sum_list (map scalar bs)"
    using sum_list_commitments [OF coms(2), of ?h] os balance by simp
  have e: "scalar x = ?total mod order g" unfolding t by (rule x(3))
  then have ft: "finite_point g ?total" using secret_ok_finite [OF x(2)] by (simp add: finite_mod)
  have p: "map fst column = map (point g) (map scalar privs)" using col key_facts(8) [OF laws] by simp
  have fin: "list_all (finite_point g) (?cs @ map scalar privs @ ?os)"
  proof -
    have "list_all (finite_point g) ?cs" using coms(1) by (auto simp: list_all_length list_all2_conv_all_nth)
    moreover have "list_all (finite_point g) (map scalar privs)" using col(2) secret_ok_finite by (simp add: list_all_iff)
    ultimately show ?thesis using outs(1) f(2) by simp
  qed
  have cs: "list_all2 (\<lambda>m p. commitment_parse C (snd m) = Some (packed g p)) column ?cs" by (rule list_all2_mono [OF coms(1)]) simp
  have "additional_sum C column (map (packed g) ?os) = accept (Some (point g ?total))"
    by (rule additional_sum_point [OF laws p cs fin ft])
  moreover have "point g ?total = GetPubKey C x" using key_facts(8) [OF laws x(2)] e point_mod [OF G, of ?total] by simp
  ultimately show ?thesis using f(1) by simp
qed

text \<open>The real column: every row answers with its secret.\<close>

lemma real_column_verifies:
  assumes laws: "curve_laws (Curve E) g" and H: "\<forall>b. length (HashFn E b) = 8" and c: "secret_ok g c"
    and l: "length xs = m" "length alphas = m" "length images = m"
    and xs: "\<forall>x\<in>set xs. secret_ok g x" "\<forall>a\<in>set alphas. secret_ok g a" "\<forall>s\<in>set S. secret_ok g s"
    and im: "\<And>i. i < m \<Longrightarrow> point_hash E (GetPubKey (Curve E) (xs ! i)) (xs ! i) = Inr (images ! i)"
    and links: "collect (real_link E) (zip (map (GetPubKey (Curve E)) xs) alphas) = Inr (Some links)"
    and S: "collect (real_response (Curve E) c) (zip alphas xs) = Inr (Some S)"
  shows "collect (ring_link E c) (zip (map (GetPubKey (Curve E)) xs) (zip images S)) = Inr (Some links)"
  unfolding collect_Some
proof (rule list_all2_all_nthI)
  have ll: "list_all2 (\<lambda>x y. real_link E x = Inr (Some y)) (zip (map (GetPubKey (Curve E)) xs) alphas) links"
    and ls: "list_all2 (\<lambda>x y. real_response (Curve E) c x = Inr (Some y)) (zip alphas xs) S" using links S by (simp_all only: collect_Some)
  then have len: "length links = m" "length S = m" using list_all2_lengthD l by fastforce+
  then show "length (zip (map (GetPubKey (Curve E)) xs) (zip images S)) = length links" using l by simp
  fix i
  assume "i < length (zip (map (GetPubKey (Curve E)) xs) (zip images S))"
  then have i: "i < m" using len l by simp
  have 1: "real_link E (GetPubKey (Curve E) (xs ! i), alphas ! i) = Inr (Some (links ! i))" using list_all2_nthD2 [OF ll, of i] i l len by simp
  have 2: "real_response (Curve E) c (alphas ! i, xs ! i) = Inr (Some (S ! i))" using list_all2_nthD2 [OF ls, of i] i l len by simp
  have ok: "secret_ok g (xs ! i)" "secret_ok g (alphas ! i)" "secret_ok g (S ! i)" using xs i l len by (auto intro: nth_mem)
  show "ring_link E c (zip (map (GetPubKey (Curve E)) xs) (zip images S) ! i) = Inr (Some (links ! i))"
    using real_member_verifies [OF laws H ok(1,2) c ok(3) im [OF i] 1 2] i l len by simp
qed

text \<open>What \<open>owned_input_signs\<close> shows of an input, for its key, its blinding factor and its amount.\<close>

definition input_signs :: "'e ring_env_scheme \<Rightarrow> group \<Rightarrow> int \<Rightarrow> CTxIn \<Rightarrow> bytes \<Rightarrow> bytes \<Rightarrow> CAmount \<Rightarrow> bytes \<Rightarrow> bool" where
  "input_signs E g myIndex txin x b v com \<longleftrightarrow> secret_ok g x \<and> in_range g b
     \<and> point_hash E (GetPubKey (Curve E) x) x = Inr (take 33 (keyImage txin))
     \<and> finite_point g (scalar b + v * value_log g) \<and> commitment_parse (Curve E) com = Some (packed g (scalar b + v * value_log g))
     \<and> (\<exists>op. real_outpoint myIndex txin = accept op \<and> sign_member E op = Inr (Some (GetPubKey (Curve E) x, com)))"

lemma sign_rows_members:
  assumes laws: "curve_laws (Curve E) g" and rows: "collect (sign_row E PI) (zip ins (zip (map (\<lambda>k. take 33 (GetPubKey (Curve E) k)) privs) coms)) = Inr (Some rows)"
    and l: "length privs = length ins" "length coms = length ins" "PI = nat (myIndex + 1)" "-1 \<le> myIndex"
    and signs: "\<forall>i<length ins. input_signs E g myIndex (ins ! i) (privs ! i) (bs ! i) (vs ! i) (coms ! i)"
  shows "list_all2 (\<lambda>txin row. list_all2 (\<lambda>op m. sign_member E op = Inr (Some m)) (ring_outpoints txin) row) ins rows"
    "ring_column rows PI = zip (map (GetPubKey (Curve E)) privs) coms"
proof -
  have r: "list_all2 (\<lambda>x y. sign_row E PI x = Inr (Some y)) (zip ins (zip (map (\<lambda>k. take 33 (GetPubKey (Curve E) k)) privs) coms)) rows"
    using rows by (simp only: collect_Some)
  then have len: "length rows = length ins" using list_all2_lengthD l by fastforce
  have one: "list_all2 (\<lambda>op m. sign_member E op = Inr (Some m)) (ring_outpoints (ins ! i)) (rows ! i) \<and> rows ! i ! PI = (GetPubKey (Curve E) (privs ! i), coms ! i)"
    if i: "i < length ins" for i
  proof -
    obtain op where op: "real_outpoint myIndex (ins ! i) = accept op" "sign_member E op = Inr (Some (GetPubKey (Curve E) (privs ! i), coms ! i))"
      and x: "secret_ok g (privs ! i)" using signs i by (auto simp: input_signs_def)
    have t: "take 33 (GetPubKey (Curve E) (privs ! i)) = GetPubKey (Curve E) (privs ! i)"
      using key_facts(8) [OF laws x] by (simp add: point_simps [OF key_facts(1) [OF laws]])
    note n = real_outpoint_nth [OF op(1) l(4), folded l(3)]
    have row: "sign_row E PI (ins ! i, GetPubKey (Curve E) (privs ! i), coms ! i) = Inr (Some (rows ! i))"
      using list_all2_nthD [OF r, of i] i l t by simp
    have "sign_member E (ring_outpoints (ins ! i) ! PI) = Inr (Some (GetPubKey (Curve E) (privs ! i), coms ! i))" using op(2) n(2) by simp
    then show ?thesis using sign_row_members [OF row n(1)] by blast
  qed
  then show "list_all2 (\<lambda>txin row. list_all2 (\<lambda>op m. sign_member E op = Inr (Some m)) (ring_outpoints txin) row) ins rows"
    using len by (simp add: list_all2_conv_all_nth)
  show "ring_column rows PI = zip (map (GetPubKey (Curve E)) privs) coms"
    unfolding ring_column_def by (rule nth_equalityI) (use one len l in simp_all)
qed

lemma signed_additional:
  assumes "collect (\<lambda>j. if j = PI then accept a else and_then (additional_sum C (ring_column rows j) os) (must RuntimeError)) js = Inr (Some additional)"
    and "additional_sum C (ring_column rows PI) os = accept (Some a)"
  shows "collect (\<lambda>j. and_then (additional_sum C (ring_column rows j) os) need) js = Inr (Some additional)"
proof -
  have one: "and_then (additional_sum C (ring_column rows j) os) need = Inr (Some y)"
    if "(if j = PI then accept a else and_then (additional_sum C (ring_column rows j) os) (must RuntimeError)) = Inr (Some y)" for j y
    using that assms(2) by (cases "j = PI") simp_all
  show ?thesis unfolding collect_Some
    by (rule list_all2_mono [OF assms(1) [unfolded collect_Some]]) (rule one)
qed

lemma collect_length: "collect f xs = Inr (Some ys) \<Longrightarrow> length ys = length xs"
  unfolding collect_Some by (simp add: list_all2_lengthD)

lemma collect_nth: "collect f xs = Inr (Some ys) \<Longrightarrow> i < length xs \<Longrightarrow> f (xs ! i) = Inr (Some (ys ! i))"
  unfolding collect_Some by (rule list_all2_nthD)

lemma sign_walk_range:
  "sign_walk E h images c zs = Inr (Some cs) \<Longrightarrow> c \<in> range (ring_challenge E h) \<Longrightarrow> length cs = length zs + 1 \<and> set cs \<subseteq> range (ring_challenge E h)"
  by (induction zs arbitrary: c cs) fastforce+

lemma close_ring_columns:
  assumes "close_ring E h images d PI columns responses links alphas privs = Inr (Some (c0, SIJ))" "PI \<le> d"
  obtains c S where "collect (real_response (Curve E) c) (zip alphas privs) = Inr (Some S)" "c \<in> range (ring_challenge E h)"
    "SIJ = map (\<lambda>j. if j = PI then S else responses j) [0..<d + 1]" "c0 \<in> range (ring_challenge E h)"
proof -
  obtain CI S where CI: "sign_walk E h images (ring_challenge E h links) (map (\<lambda>j. (columns j, responses j)) ([PI + 1..<d + 1] @ [0..<PI])) = Inr (Some CI)"
    and S: "collect (real_response (Curve E) (CI ! d)) (zip alphas privs) = Inr (Some S)" "SIJ = map (\<lambda>j. if j = PI then S else responses j) [0..<d + 1]"
      "c0 = CI ! (d - PI)"
    using assms(1) by (auto simp: close_ring_def simp del: upt_Suc)
  have r: "length CI = d + 1" "set CI \<subseteq> range (ring_challenge E h)" using sign_walk_range [OF CI rangeI] assms(2) by (simp_all del: upt_Suc)
  then have "CI ! d \<in> range (ring_challenge E h)" "CI ! (d - PI) \<in> range (ring_challenge E h)" by (auto intro!: subsetD [OF r(2)] nth_mem)
  then show ?thesis using that [OF S(1) _ S(2)] S(3) by blast
qed

lemma real_response_range:
  assumes "curve_laws C g" "secret_ok g alpha" "secret_ok g x" "length c = 32" "real_response C c (alpha, x) = Inr (Some s)"
  shows "in_range g s"
proof -
  note G = key_facts(1) [OF assms(1)]
  have "s = secret_of g (scalar alpha - scalar (secret_of g (scalar c * scalar x)))"
    using assms(2-5) key_facts(6) [OF assms(1), of c x] commitment_facts(8) [OF assms(1), of "[alpha, secret_of g (scalar c * scalar x)]" 1]
      secret_of_range(1) [OF G] by (auto simp: real_response_def secret_okD)
  then show ?thesis using secret_of_range(1) [OF G] by simp
qed

lemma upt_last: "[0..<n + 1] = [0..<n] @ [n]"
  by simp

lemma sign_ring_checks:
  assumes laws: "curve_laws (Curve E) g" and H: "\<forall>b. length (HashFn E b) = 8"
    and sign: "sign_ring E w tx myIndex rnd privs (privs @ ins @ bs @ [r]) = Inr (Some tx')"
    and d: "d = length (decoys (vin tx ! 0))" "-1 \<le> myIndex" "nat (myIndex + 1) \<le> d" "tx_S tx = []"
    and l: "length privs = length (vin tx)" "length ins = length (vin tx)" "length vs = length (vin tx)" "length bs = length (vout tx)"
    and signs: "\<And>i com. i < length (vin tx) \<Longrightarrow> real_commitment w myIndex (vin tx ! i) = Inr (Some com) \<Longrightarrow>
        input_signs E g myIndex (vin tx ! i) (privs ! i) (ins ! i) (vs ! i) com"
    and outs: "list_all2 (\<lambda>out p. finite_point g p \<and> commitment_parse (Curve E) (take 33 (commitment out)) = Some (packed g p)) (vout tx)
        (map (output_log g) (zip (vout tx) bs))" "\<forall>k\<in>set bs. secret_ok g k"
    and fee: "0 \<le> nTxFee tx" "nTxFee tx < 2 ^ 63" "sum_list vs = sum_list (map nValue (vout tx)) + nTxFee tx"
    and rnd: "\<forall>i. secret_ok g (rnd_alpha rnd i)" "\<forall>i j. secret_ok g (rnd_response rnd i j)"
    and S: "\<forall>col\<in>set (tx_S tx'). \<forall>s\<in>set col. 0 < scalar (write_limbs s)"
    and c: "\<And>rows. list_all2 (\<lambda>txin row. list_all2 (\<lambda>op m. sign_member E op = Inr (Some m)) (ring_outpoints txin) row) (vin tx) rows \<Longrightarrow>
        \<forall>c\<in>set (ring_challenges E tx' rows). secret_ok g c"
  shows "\<exists>rows. list_all2 (\<lambda>txin row. list_all2 (\<lambda>op m. sign_member E op = Inr (Some m)) (ring_outpoints txin) row) (vin tx) rows
    \<and> check_ring E tx' rows = Inr (Some True)"
proof -
  let ?C = "Curve E" and ?n = "length (vin tx)" and ?PI = "nat (myIndex + 1)"
  note G = key_facts(1) [OF laws]
  obtain coms links x k image link rows cs f additional c0 SIJ where p:
    "collect (real_commitment w myIndex) (vin tx) = Inr (Some coms)"
    "collect (real_link E) (zip (map (GetPubKey ?C) privs) (map (rnd_alpha rnd) [0..<?n + 1])) = Inr (Some links)"
    "additional_secret ?C ?n (length (vout tx)) (privs @ ins @ bs @ [r]) = Inr (Some x)" "KeySet x = Some k"
    "point_hash E (GetPubKey ?C k) x = Inr image" "real_link E (GetPubKey ?C k, rnd_alpha rnd ?n) = Inr (Some link)"
    "collect (sign_row E ?PI) (zip (vin tx) (zip (map (\<lambda>k. take 33 (GetPubKey ?C k)) privs) coms)) = Inr (Some rows)"
    "out_commitments ?C tx = Inr (Some cs)" "fee_commitment ?C tx = Some f"
    "collect (\<lambda>j. if j = ?PI then accept (take 33 (GetPubKey ?C k))
         else and_then (additional_sum ?C (ring_column rows j) (cs @ [f])) (must RuntimeError)) [0..<d + 1] = Inr (Some additional)"
    "close_ring E (GetTxSignatureHash E tx) (map (\<lambda>txin. take 33 (keyImage txin)) (vin tx) @ [image]) d ?PI
         (\<lambda>j. column_keys (ring_column rows j) (additional ! j)) (\<lambda>j. map (\<lambda>i. rnd_response rnd i j) [0..<?n + 1]) (links @ [link])
         (map (rnd_alpha rnd) [0..<?n + 1]) (privs @ [x]) = Inr (Some (c0, SIJ))"
    "tx' = tx\<lparr>tx_c := bytes_uint256 c0, tx_S := tx_S tx @ map (map bytes_uint256) SIJ, ntxFeeKeyImage := PubKeySet image\<rparr>"
    by (rule sign_ring_parts [OF sign d(1) refl refl])
  let ?images = "map (\<lambda>txin. take 33 (keyImage txin)) (vin tx) @ [image]" and ?columns = "\<lambda>j. column_keys (ring_column rows j) (additional ! j)"
  have lc: "length coms = ?n" using collect_length [OF p(1)] .
  have i: "input_signs E g myIndex (vin tx ! i) (privs ! i) (ins ! i) (vs ! i) (coms ! i)" if "i < ?n" for i
    by (rule signs [OF that]) (use collect_nth [OF p(1)] that in simp)
  then have "\<forall>i<?n. input_signs E g myIndex (vin tx ! i) (privs ! i) (ins ! i) (vs ! i) (coms ! i)" by blast
  note rows = sign_rows_members [OF laws p(7) l(1) lc refl d(2) this]
  have ks: "\<forall>k\<in>set privs. secret_ok g k" "\<forall>k\<in>set ins. in_range g k" using i l by (auto simp: input_signs_def in_set_conv_nth)
  have r: "list_all (in_range g) (privs @ ins @ bs)" using ks outs(2) by (auto simp: list_all_iff secret_okD)
  note x = additional_secret_value [OF laws l(1,2,4) r p(3,4)]
  have ap: "GetPubKey ?C x = point g (scalar x)" "take 33 (GetPubKey ?C x) = GetPubKey ?C x"
    using key_facts(8) [OF laws x(2)] by (simp_all add: point_simps [OF G])
  have cs: "cs = map (packed g) (map (output_log g) (zip (vout tx) bs))" by (rule out_commitments_packed [OF outs(1) p(8)])
  have fin: "list_all (finite_point g) (map (output_log g) (zip (vout tx) bs))"
    using outs(1) by (auto simp: list_all_length list_all2_conv_all_nth)
  have coms: "list_all2 (\<lambda>m p. finite_point g p \<and> commitment_parse ?C (snd m) = Some (packed g p)) (ring_column rows ?PI)
        (map2 (\<lambda>b v. scalar b + v * value_log g) ins vs)"
    unfolding rows(2) using i l lc by (simp add: list_all2_conv_all_nth input_signs_def)
  have "additional_sum ?C (ring_column rows ?PI) (cs @ [f]) = accept (Some (GetPubKey ?C x))"
    unfolding cs by (rule additional_key_balances [OF laws _ ks(1) coms _ ks(2) fin _ outs(2) p(9) fee, where rest = "[r]" and k = k])
      (use rows(2) lc l p(3,4) in simp_all)
  then have add: "collect (\<lambda>j. and_then (additional_sum ?C (ring_column rows j) (cs @ [f])) need) [0..<d + 1] = Inr (Some additional)"
    using signed_additional [OF p(10)] x(1) ap(2) by simp
  have aPI: "additional ! ?PI = GetPubKey ?C x"
    using collect_nth [OF p(10), of ?PI] d(3) ap(2) x(1) by (simp del: upt_Suc)
  have real: "?columns ?PI = map (GetPubKey ?C) (privs @ [x])"
    using rows(2) aPI lc l by (simp add: column_keys_def)
  have hash: "GetTxSignatureHash E tx' = GetTxSignatureHash E tx" using p(12) by simp
  have im: "point_hash E (GetPubKey ?C ((privs @ [x]) ! j)) ((privs @ [x]) ! j) = Inr (?images ! j)" if "j < ?n + 1" for j
    using i [of j] that p(5) x(1) l by (cases "j < ?n") (auto simp: input_signs_def nth_append not_less less_Suc_eq)
  let ?alphas = "map (rnd_alpha rnd) [0..<?n + 1]"
  have links: "collect (real_link E) (zip (map (GetPubKey ?C) (privs @ [x])) ?alphas) = Inr (Some (links @ [link]))"
  proof -
    have z: "zip (map (GetPubKey ?C) (privs @ [x])) ?alphas = zip (map (GetPubKey ?C) privs) (map (rnd_alpha rnd) [0..<?n]) @ [(GetPubKey ?C x, rnd_alpha rnd ?n)]"
      "zip (map (GetPubKey ?C) privs) ?alphas = zip (map (GetPubKey ?C) privs) (map (rnd_alpha rnd) [0..<?n])"
      unfolding upt_last using l(1) by (simp_all add: zip_append2 zip_append1)
    show ?thesis using p(2,6) x(1) unfolding z collect_Some by (simp add: list_all2_appendI)
  qed
  obtain c S where cS: "collect (real_response ?C c) (zip ?alphas (privs @ [x])) = Inr (Some S)" "c \<in> range (ring_challenge E (GetTxSignatureHash E tx))"
    "SIJ = map (\<lambda>j. if j = ?PI then S else map (\<lambda>i. rnd_response rnd i j) [0..<?n + 1]) [0..<d + 1]"
    "c0 \<in> range (ring_challenge E (GetTxSignatureHash E tx))"
    by (rule close_ring_columns [OF p(11) d(3)])
  have xs: "\<forall>k\<in>set (privs @ [x]). secret_ok g k" "\<forall>a\<in>set ?alphas. secret_ok g a" using ks(1) x(2) rnd(1) by auto
  have range: "\<forall>s\<in>set S. in_range g s" if "collect (real_response ?C c) (zip ?alphas (privs @ [x])) = Inr (Some S)" "length c = 32" for c S
  proof
    fix s
    assume "s \<in> set S"
    then obtain j where j: "j < length S" "s = S ! j" by (auto simp: in_set_conv_nth)
    have len: "length S = ?n + 1" using collect_length [OF that(1)] l(1) by (simp del: upt_Suc)
    have la: "length ?alphas = ?n + 1" "length (privs @ [x]) = ?n + 1" using l(1) by simp_all
    have "secret_ok g (?alphas ! j)" "secret_ok g ((privs @ [x]) ! j)" using xs j(1) len la nth_mem by metis+
    moreover have "real_response ?C c (?alphas ! j, (privs @ [x]) ! j) = Inr (Some (S ! j))"
      using collect_nth [OF that(1), of j] j(1) len la by (simp del: upt_Suc append.simps map_append)
    ultimately show "in_range g s" using real_response_range [OF laws _ _ that(2)] j(2) by blast
  qed
  have signed: "tx_S tx' = map (map bytes_uint256) SIJ" "tx_c tx' = bytes_uint256 c0" using p(12) d(4) by simp_all
  have c32: "length c = 32" if "c \<in> range (ring_challenge E h)" for c h
    using that H by (auto simp: ring_challenge_def hash_bytes_def)
  have len: "length SIJ = d + 1" using cS(3) by (simp del: upt_Suc)
  have c0: "write_limbs (tx_c tx') = c0"
  proof -
    show ?thesis using c32 [OF cS(4)] signed(2) uint256_bytes_of by (simp add: uint256_bytes_def)
  qed
  have responses: "ring_responses tx' d = Inr (Some SIJ)"
  proof (rule ring_responses_read [OF signed(1) len], intro ballI)
    fix col
    assume "col \<in> set SIJ"
    then consider "col = S" | j where "col = map (\<lambda>i. rnd_response rnd i j) [0..<?n + 1]" unfolding cS(3) by (auto simp del: upt_Suc split: if_splits)
    then show "length col = length (vin tx') + 1 \<and> (\<forall>s\<in>set col. length s = 32)"
    proof cases
      case 1
      have "\<forall>s\<in>set S. length s = 32" using range [OF cS(1) c32 [OF cS(2)]] by (simp add: in_range_def)
      moreover have "length S = ?n + 1" using collect_length [OF cS(1)] l(1) by (simp del: upt_Suc)
      ultimately show ?thesis using 1 p(12) by simp
    next
      case 2
      moreover have "length (rnd_response rnd i j) = 32" for i j using rnd(2) secret_okD by blast
      ultimately show ?thesis using p(12) by (simp del: upt_Suc)
    qed
  qed
  have images: "ring_images tx' = ?images"
  proof -
    obtain z where "image = point g z" using point_hash_point [OF laws H p(5)] by blast
    then show ?thesis using p(12) by (simp add: ring_images_def point_simps [OF G])
  qed
  have same: "vin tx' = vin tx" "out_commitments ?C tx' = out_commitments ?C tx" "fee_commitment ?C tx' = fee_commitment ?C tx"
    using p(12) by (simp_all add: out_commitments_def fee_commitment_def)
  have challenges: "secret_ok g c" if "c \<in> set (walk_challenges E (GetTxSignatureHash E tx) ?images c0 (zip (map ?columns [0..<d + 1]) SIJ))" for c
    using c [OF rows(1)] that responses p(8,9) add
    by (simp add: ring_challenges_def Let_def same images hash c0 d(1) [symmetric] and_then_def need_def accept_def del: upt_Suc)
  have walk: "verify_walk E (GetTxSignatureHash E tx) ?images c0 (zip (map ?columns [0..<d + 1]) SIJ) = Inr (Some c0)"
  proof (rule close_ring_verifies(1) [OF laws d(3) p(11)])
    fix c T
    assume T: "collect (real_response ?C c) (zip ?alphas (privs @ [x])) = Inr (Some T)" "SIJ ! ?PI = T"
      "c \<in> set (walk_challenges E (GetTxSignatureHash E tx) ?images c0 (zip (map ?columns [0..<d + 1]) SIJ))"
    note ok = challenges [OF T(3)]
    have "T \<in> set SIJ" using T(2) len d(3) nth_mem [of ?PI SIJ] by simp
    then have "\<forall>s\<in>set T. 0 < scalar (write_limbs (bytes_uint256 s))" using S signed(1) by auto
    moreover have "length c = 32" using ok by (simp add: secret_okD)
    ultimately have "\<forall>s\<in>set T. secret_ok g s"
      using range [OF T(1)] uint256_bytes_of by (auto simp: secret_ok_def in_range_def uint256_bytes_def)
    then show "collect (ring_link E c) (zip (?columns ?PI) (zip ?images T)) = Inr (Some (links @ [link]))"
      unfolding real by (intro real_column_verifies [OF laws H ok, where m = "?n + 1"]) (use l(1) xs im links T(1) in \<open>simp_all del: upt_Suc append.simps\<close>)
  qed
  have "check_ring E tx' rows = Inr (Some True)"
    using responses p(8,9) add walk
    by (simp add: check_ring_def Let_def same images hash c0 d(1) [symmetric] del: upt_Suc)
  then show ?thesis using rows(1) by blast
qed

text \<open>The steps of \<open>makeRingCT\<close> before the ring is signed, for a wallet that owns the inputs.\<close>

lemma input_blinds_keep:
  assumes "collect_steps (input_blind E myIndex) txins w = Inr (Some bs, w')"
    and "\<And>txin b w'. txin \<in> set txins \<Longrightarrow> input_blind E myIndex txin w = Inr (Some b, w') \<Longrightarrow> w' = w"
  shows "w' = w \<and> list_all2 (\<lambda>txin b. input_blind E myIndex txin w = Inr (Some b, w)) txins bs"
  using assms
proof (induction txins arbitrary: bs)
  case (Cons txin txins)
  then obtain b w1 bs' where b: "input_blind E myIndex txin w = Inr (Some b, w1)" "collect_steps (input_blind E myIndex) txins w1 = Inr (Some bs', w')"
      "bs = b # bs'" by auto
  have w1: "w1 = w" by (rule Cons.prems(2) [OF _ b(1)]) simp
  have "w' = w \<and> list_all2 (\<lambda>txin b. input_blind E myIndex txin w = Inr (Some b, w)) txins bs'"
  proof (rule Cons.IH)
    show "collect_steps (input_blind E myIndex) txins w = Inr (Some bs', w')" using b(2) w1 by simp
    show "w' = w" if "t \<in> set txins" "input_blind E myIndex t w = Inr (Some c, w')" for t c w'
      by (rule Cons.prems(2) [OF _ that(2)]) (simp add: that(1))
  qed
  then show ?case using b w1 by simp
qed simp

lemma owned_inputs_sign:
  assumes laws: "curve_laws (Curve E) g" and H: "\<forall>b. length (HashFn E b) = 8" and ks: "\<forall>k\<in>set (keys w). secret_ok g k"
    and unlocked: "\<not> IsLocked w" and own: "list_all2 (owned_input E g w myIndex) txins vs"
    and k: "collect (input_key E w myIndex) txins = Inr (Some privs)"
    and b: "collect_steps (input_blind E myIndex) txins w = Inr (Some ins, w')"
  shows "w' = w" "length privs = length txins" "length ins = length txins"
    "\<And>i com. i < length txins \<Longrightarrow> real_commitment w myIndex (txins ! i) = Inr (Some com) \<Longrightarrow>
        input_signs E g myIndex (txins ! i) (privs ! i) (ins ! i) (vs ! i) com"
proof -
  have kn: "input_key E w myIndex (txins ! i) = Inr (Some (privs ! i))" if "i < length txins" for i by (rule collect_nth [OF k that])
  have on: "owned_input E g w myIndex (txins ! i) (vs ! i)" if "i < length txins" for i by (rule list_all2_nthD [OF own that])
  have blind: "w' = w" if "txin \<in> set txins" "input_blind E myIndex txin w = Inr (Some b, w')" for txin b w'
  proof -
    note in_set = that(1) and signed = that(2)
    obtain i where i: "i < length txins" "txin = txins ! i" using in_set by (auto simp: in_set_conv_nth)
    obtain op t h b0 where o: "real_outpoint myIndex txin = accept op" "mapWallet w (op_txid op) = Some t" "unat (op_n op) < length (vout t)"
      "known_amount w t (vout t ! unat (op_n op)) (vs ! i) b0" using on [OF i(1)] i(2) by (auto simp: owned_input_def)
    have "real_output w myIndex txin = Inr (Some (t, vout t ! unat (op_n op)))" using o(1-3) by (simp add: real_output_def)
    moreover obtain tmp where "\<And>a. RevealTxOutAmount E t (vout t ! unat (op_n op)) a w = Inr ((True, vs ! i, tmp), w)"
      using known_amount_revealed [OF unlocked o(4)] by blast
    ultimately show ?thesis using signed by (auto simp: input_blind_def bind_app Let_def split: if_splits)
  qed
  have w: "w' = w \<and> list_all2 (\<lambda>txin b. input_blind E myIndex txin w = Inr (Some b, w)) txins ins"
    by (rule input_blinds_keep [OF b]) (rule blind)
  then show "w' = w" by blast
  show "length privs = length txins" by (rule collect_length [OF k])
  show li: "length ins = length txins" using w list_all2_lengthD by fastforce
  fix i com
  assume i: "i < length txins" and c: "real_commitment w myIndex (txins ! i) = Inr (Some com)"
  have "input_blind E myIndex (txins ! i) w = Inr (Some (ins ! i), w)" using w list_all2_nthD i by blast
  note s = owned_input_signs [OF laws H ks unlocked on [OF i] kn [OF i] this c]
  obtain op t h where "real_outpoint myIndex (txins ! i) = accept op" "GetTransaction E (op_txid op) = Some (t, h)"
      "output_member t (unat (op_n op)) = accept (GetPubKey (Curve E) (privs ! i), com)" using s(7) by blast
  then have "real_outpoint myIndex (txins ! i) = accept op \<and> sign_member E op = Inr (Some (GetPubKey (Curve E) (privs ! i), com))"
    by (simp add: sign_member_def accept_def)
  then show "input_signs E g myIndex (txins ! i) (privs ! i) (ins ! i) (vs ! i) com" using s(2-6) by (auto simp: input_signs_def)
qed

text \<open>
  C8: a transaction that the wallet signs is accepted by the node. The transactions that the node has for the members of the ring are in
  the active chain, the wallet owns the real inputs and knows their amounts (hidden or, for a coinbase or coinstake, in the open), no
  output is empty, all amounts are below \<open>2 ^ 63\<close> and those of the inputs are those of the outputs with the fee. The random secrets,
  the blinding factors of the outputs and the keys of the wallet are in the range of a secret, no response is zero, and of the
  challenges that the node reaches in this ring each is in that range (any of this fails with negligible probability). The signature
  has succeeded.
\<close>

theorem ring_signature_complete:
  assumes "curve_laws (Curve E) g" "\<forall>b. length (HashFn E b) = 8" "\<forall>k\<in>set (keys w). secret_ok g k" "\<not> IsLocked w"
    and "list_all2 (owned_input E g w myIndex) (vin wtxNew) vs" "-1 \<le> myIndex" "myIndex < int (length (decoys (vin wtxNew ! 0)))"
    and "\<forall>out\<in>set (vout wtxNew). \<not> TxOutIsEmpty out \<and> 0 \<le> nValue out \<and> nValue out < 2 ^ 63"
    and "length bs = length (vout wtxNew)" "\<forall>b\<in>set bs. secret_ok g b"
    and "0 \<le> nTxFee wtxNew" "nTxFee wtxNew < 2 ^ 63" "sum_list vs = sum_list (map nValue (vout wtxNew)) + nTxFee wtxNew"
    and "\<forall>i. secret_ok g (rnd_alpha rnd i)" "\<forall>i j. secret_ok g (rnd_response rnd i j)" "tx_S wtxNew = []"
    and "makeRingCT E wtxNew (map Some bs) myIndex rnd w = Inr (Some tx, w')"
    and "\<forall>col\<in>set (tx_S tx). \<forall>r\<in>set col. 0 < scalar (write_limbs r)"
    and "\<And>rows. ring_rows E (Some p) tx s = Inr (Some rows, s) \<Longrightarrow> \<forall>c\<in>set (ring_challenges E tx rows). secret_ok g c"
    and "\<forall>txin\<in>set (vin wtxNew). \<forall>op\<in>set (ring_outpoints txin). \<forall>t h. GetTransaction E (op_txid op) = Some (t, h) \<longrightarrow> block_in_chain s h"
  shows "VerifyRingSignatureWithTxFee E tx (Some p) s = Inr (True, s)"
proof -
  let ?d = "length (decoys (vin wtxNew ! 0))"
  obtain outs privs ins w1 where m: "collect (commit_output (Curve E)) (zip (vout wtxNew) (map Some bs)) = Inr (Some outs)"
    "\<not> length (vin wtxNew) > MAX_TX_INPUTS" "vin wtxNew \<noteq> []"
    "\<not> list_ex (\<lambda>txin. length (decoys txin) \<noteq> ?d) (vin wtxNew)" "\<not> ?d > MAX_RING_SIZE" "\<not> ?d < MIN_RING_SIZE"
    "collect (input_key E w myIndex) (vin wtxNew) = Inr (Some privs)"
    "collect_steps (input_blind E myIndex) (vin wtxNew) w = Inr (Some ins, w1)"
    "sign_ring E w1 (wtxNew\<lparr>vout := outs\<rparr>) myIndex rnd privs (privs @ ins @ output_blinds (zip outs (map Some bs)) @ [rnd_blind rnd]) = Inr (Some tx)"
    using assms(17) by (auto simp: makeRingCT_def Let_def split: if_splits)
  let ?tx = "wtxNew\<lparr>vout := outs\<rparr>"
  note o = commit_outputs [OF assms(1) assms(9) [symmetric] assms(8) assms(10) m(1)]
  note i = owned_inputs_sign [OF assms(1-5) m(7,8)]
  have same: "vin tx = vin wtxNew" "nTxFee tx = nTxFee wtxNew"
    by (rule sign_ring_parts [OF m(9) refl refl refl]; simp)+
  have found: "ring_rows E (Some p) tx s = Inr (Some rows, s)"
    if "list_all2 (\<lambda>txin row. list_all2 (\<lambda>op m. sign_member E op = Inr (Some m)) (ring_outpoints txin) row) (vin wtxNew) rows" for rows
    by (rule ring_rows_found) (use that same assms(20) in auto)
  have challenges: "\<forall>c\<in>set (ring_challenges E tx rows). secret_ok g c"
    if "list_all2 (\<lambda>txin row. list_all2 (\<lambda>op m. sign_member E op = Inr (Some m)) (ring_outpoints txin) row) (vin ?tx) rows" for rows
    by (rule assms(19) [OF found]) (use that in simp)
  have "\<exists>rows. list_all2 (\<lambda>txin row. list_all2 (\<lambda>op m. sign_member E op = Inr (Some m)) (ring_outpoints txin) row) (vin ?tx) rows
    \<and> check_ring E tx rows = Inr (Some True)"
    by (rule sign_ring_checks [OF assms(1,2) m(9) [unfolded i(1) o(3)] refl assms(6), where vs = vs, OF _ _ _ _ _ _ _ _ _ _ _ _ _ _ _ challenges])
      (use assms(5,7,9-16,18) o i(2-4) list_all2_lengthD [OF assms(5)] in \<open>simp_all\<close>)
  then obtain rows where rows: "list_all2 (\<lambda>txin row. list_all2 (\<lambda>op m. sign_member E op = Inr (Some m)) (ring_outpoints txin) row) (vin wtxNew) rows"
    "check_ring E tx rows = Inr (Some True)" by auto
  show ?thesis
    using found [OF rows(1)] same m(2-6) assms(11) rows(2)
    by (simp add: VerifyRingSignatureWithTxFee_def bind_app then_step_def from_outcome_def)
qed

end
