(* ===== verification/Ring_Limits.thy ===== *)
theory Ring_Limits
  imports Ring_Complete
begin

text \<open>
  Two transactions that the verification of ring signatures does not survive, and an example of one that is signed and verified.
\<close>

section \<open>Inputs that are not rejected\<close>

text \<open>What the verification has computed before it walks round the ring.\<close>

definition ring_prepared ::
  "'e ring_env_scheme \<Rightarrow> CTransaction \<Rightarrow> (bytes \<times> bytes) list list \<Rightarrow> bytes list list \<Rightarrow> bytes list \<Rightarrow> bool" where
  "ring_prepared E tx rows SIJ additional \<longleftrightarrow> ring_responses tx (length (decoys (vin tx ! 0))) = Inr (Some SIJ)
     \<and> (\<exists>outs fee. out_commitments (Curve E) tx = Inr (Some outs) \<and> fee_commitment (Curve E) tx = Some fee
       \<and> collect (\<lambda>j. and_then (additional_sum (Curve E) (ring_column rows j) (outs @ [fee])) need) [0..<length (decoys (vin tx ! 0)) + 1]
           = Inr (Some additional))"

text \<open>The checks on the shape of a transaction.\<close>

definition ring_shape :: "'e ring_env_scheme \<Rightarrow> CTransaction \<Rightarrow> bool" where
  "ring_shape E tx \<longleftrightarrow> 0 \<le> nTxFee tx \<and> \<not> InitialDownload E \<and> vin tx \<noteq> [] \<and> length (vin tx) \<le> MAX_TX_INPUTS
     \<and> list_all (\<lambda>txin. length (decoys txin) = length (decoys (vin tx ! 0))) (vin tx)
     \<and> MIN_RING_SIZE \<le> length (decoys (vin tx ! 0)) \<and> length (decoys (vin tx ! 0)) \<le> MAX_RING_SIZE"

lemma VerifyRing_shape:
  assumes "ring_shape E tx" "ring_rows E pindex tx s = Inr (Some rows, s')"
  shows "VerifyRingSignatureWithTxFee E tx pindex s = (case check_ring E tx rows of Inl e \<Rightarrow> Inl e | Inr r \<Rightarrow> Inr (r = Some True, s'))"
proof -
  have 1: "\<not> nTxFee tx < 0" "\<not> InitialDownload E" "vin tx \<noteq> []" "\<not> length (vin tx) > MAX_TX_INPUTS"
      "\<not> (length (decoys (vin tx ! 0)) > MAX_RING_SIZE \<or> length (decoys (vin tx ! 0)) < MIN_RING_SIZE)"
      "\<not> list_ex (\<lambda>txin. length (decoys txin) \<noteq> length (decoys (vin tx ! 0))) (vin tx)"
    using assms(1) unfolding ring_shape_def list_all_iff list_ex_iff by (simp_all only: not_less de_Morgan_disj, blast+)
  have 2: "then_step (ring_rows E pindex tx) (\<lambda>rows. from_outcome (check_ring E tx rows)) s
      = (case check_ring E tx rows of Inl e \<Rightarrow> Inl e | Inr r \<Rightarrow> Inr (r, s'))"
    using assms(2) by (simp add: then_step_def bind_app from_outcome_def)
  show ?thesis
    unfolding VerifyRingSignatureWithTxFee_def if_not_P [OF 1(1)] if_not_P [OF 1(2)] if_not_P [OF 1(3)] if_not_P [OF 1(4)]
      if_not_P [OF 1(5)] if_not_P [OF 1(6)] bind_app 2
    by (cases "check_ring E tx rows") (simp_all add: ret_def)
qed

lemma zero_point_hash:
  assumes "curve_laws (Curve E) g" "\<forall>b. length (HashFn E b) = 8" "scalar t = 0"
  shows "point_hash E pk t = Inl Diverges"
proof (cases "point_hash E pk t")
  case (Inr r)
  then obtain y where "secret_ok g t" using point_hash_point [OF assms(1,2) Inr] by blast
  then have False using assms(3) by (simp add: secret_ok_def)
  then show ?thesis ..
qed (auto simp: point_hash_def split: option.splits)

text \<open>
  C15: a response of zero hangs the node: when the first response of the ring is zero and the first challenge and the first key are
  valid, the verification does not return; adding zero to a point is allowed, but multiplying by it never succeeds, however often the
  key is hashed again.
\<close>

theorem zero_response_hangs:
  assumes "curve_laws (Curve E) g" "\<forall>b. length (HashFn E b) = 8"
    and "ring_shape E tx" "ring_rows E pindex tx s = Inr (Some rows, s')" "ring_prepared E tx rows SIJ additional"
    and "secret_ok g (write_limbs (tx_c tx))" "rows ! 0 ! 0 = (point g x, com)" "finite_point g x" "rows \<noteq> []"
    and "length (SIJ ! 0 ! 0) = 32" "scalar (SIJ ! 0 ! 0) = 0" "SIJ ! 0 \<noteq> []" "SIJ \<noteq> []"
  shows "VerifyRingSignatureWithTxFee E tx pindex s = Inl Diverges"
proof -
  let ?d = "length (decoys (vin tx ! 0))" and ?c = "write_limbs (tx_c tx)"
  note laws = assms(1) and G = key_facts(1) [OF assms(1)]
  obtain outs fee where p: "ring_responses tx ?d = Inr (Some SIJ)" "out_commitments (Curve E) tx = Inr (Some outs)"
      "fee_commitment (Curve E) tx = Some fee"
      "collect (\<lambda>j. and_then (additional_sum (Curve E) (ring_column rows j) (outs @ [fee])) need) [0..<?d + 1] = Inr (Some additional)"
    using assms(5) by (auto simp: ring_prepared_def)
  let ?column = "column_keys (ring_column rows 0) (additional ! 0)"
  obtain col where col: "?column = point g x # col"
    using assms(7,9) by (cases rows) (auto simp: column_keys_def ring_column_def)
  obtain im ims where im: "ring_images tx = im # ims" by (cases "vin tx") (auto simp: ring_images_def)
  obtain S Ss where S: "SIJ ! 0 = S # Ss" "S = SIJ ! 0 ! 0" using assms(12) by (cases "SIJ ! 0") auto
  have xc: "finite_point g (x * scalar ?c)" using group_facts(4) [OF G assms(8) secret_ok_finite [OF assms(6)]] .
  have S32: "length S = 32" "scalar S = 0" using S(2) assms(10,11) by simp_all
  have order: "1 < order g" using group_facts(1) [OF G] .
  have "in_range g S" unfolding in_range_def S32 using order by linarith
  then have add: "pubkey_tweak_add (Curve E) (point g (x * scalar ?c)) S = Some (point g (x * scalar ?c))"
    using key_facts(4) [OF laws xc, of S] xc unfolding S32(2) by simp
  have hash: "point_hash E (PubKeySet (point g x)) S = Inl Diverges" by (rule zero_point_hash [OF laws assms(2) S32(2)])
  have link: "ring_link E ?c (point g x, im, S) = Inl Diverges"
    unfolding ring_link_def prod.case key_facts(2) [OF laws assms(8,6)] need_def and_then_def sum.case option.case add raw_def hash ..
  have "collect (ring_link E ?c) (zip ?column (zip (ring_images tx) (SIJ ! 0))) = Inl Diverges"
    unfolding col im S(1) zip_Cons_Cons collect.simps link and_then_def by simp
  moreover obtain rest where "zip (map (\<lambda>j. column_keys (ring_column rows j) (additional ! j)) [0..<?d + 1]) SIJ = (?column, SIJ ! 0) # rest"
    using assms(13) by (cases SIJ) (simp_all add: upt_conv_Cons del: upt_Suc)
  ultimately have "check_ring E tx rows = Inl Diverges"
    using p by (simp add: check_ring_def Let_def and_then_def must_def accept_def)
  then show ?thesis by (simp add: VerifyRing_shape [OF assms(3,4)])
qed

lemma collect_error:
  assumes "\<forall>x\<in>set xs. \<exists>y. f x = Inr (Some y)" "f x = Inl e"
  shows "collect f (xs @ x # ys) = Inl e"
  using assms by (induction xs) (auto simp: and_then_def accept_def)

text \<open>
  C16: the sixth output is written past the end of an array: for a transaction with more than five outputs whose first five
  commitments are well-formed, the verification leaves its arrays. The number of outputs is only checked afterwards, with the range proof.
\<close>

theorem many_outputs_overflow:
  assumes "ring_shape E tx" "ring_rows E pindex tx s = Inr (Some rows, s')"
    and "ring_responses tx (length (decoys (vin tx ! 0))) = Inr (Some SIJ)"
    and "length (vout tx) > MAX_VOUT"
    and "\<forall>out\<in>set (take MAX_VOUT (vout tx)). 33 \<le> length (commitment out) \<and> commitment_parse (Curve E) (take 33 (commitment out)) \<noteq> None"
  shows "VerifyRingSignatureWithTxFee E tx pindex s = Inl OutOfRange"
proof -
  let ?outs = "vout tx"
  have "enumerate 0 ?outs = take 5 (enumerate 0 ?outs) @ (5, ?outs ! 5) # drop 6 (enumerate 0 ?outs)"
    using assms(4) id_take_nth_drop [of 5 "enumerate 0 ?outs"] by (simp add: nth_enumerate_eq)
  moreover have "\<exists>c. out_commitment (Curve E) io = Inr (Some c)" if "io \<in> set (take 5 (enumerate 0 ?outs))" for io
  proof -
    note member = that
    obtain i where i: "i < 5" "io = (i, ?outs ! i)" using member assms(4) by (auto simp: in_set_conv_nth nth_enumerate_eq)
    then have "?outs ! i \<in> set (take MAX_VOUT ?outs)" using assms(4) by (auto simp: in_set_conv_nth)
    then show ?thesis using assms(5) i by (fastforce simp: out_commitment_def need_def)
  qed
  moreover have "out_commitment (Curve E) (5, ?outs ! 5) = Inl OutOfRange" by (simp add: out_commitment_def)
  ultimately have "out_commitments (Curve E) tx = Inl OutOfRange"
    using collect_error [of "take 5 (enumerate 0 ?outs)" "out_commitment (Curve E)"] unfolding out_commitments_def by metis
  then have "check_ring E tx rows = Inl OutOfRange" using assms(3) by (simp add: check_ring_def Let_def and_then_def)
  then show ?thesis by (simp add: VerifyRing_shape [OF assms(1,2)])
qed

end
