(* ===== verification/Ring_Example.thy ===== *)
theory Ring_Example
  imports Ring_Limits
begin

text \<open>
  A transaction that is signed and verified in the group of seven elements: one input worth 3 with the blinding factor 1 and eleven
  decoys, which are the same output again, and one output worth 1 with the blinding factor 2, for a fee of 2.
\<close>

definition ring_prev :: CTransaction where
  "ring_prev = NullTransaction\<lparr>vout := [(NewTxOut 0 (GetScriptForPubKey (point small_group 3)))\<lparr>commitment := packed small_group 10\<rparr>]\<rparr>"

definition ring_outpoint :: COutPoint where
  "ring_outpoint = \<lparr>op_txid = uint256_0, op_n = 0\<rparr>"

definition ring_tx :: CTransaction where
  "ring_tx = NullTransaction\<lparr>vin := [(NewTxIn ring_outpoint [] 0)\<lparr>decoys := replicate 11 ring_outpoint, keyImage := point small_group 15\<rparr>],
     vout := [NewTxOut 1 [1]], nTxFee := 2\<rparr>"

definition ring_example :: ring_env where
  "ring_example = small_env\<lparr>GetTransaction := (\<lambda>_. Some (ring_prev, uint256_0))\<rparr>"

definition ring_wallet :: wallet where
  "ring_wallet = small_wallet\<lparr>keys := [small_key], amountMap := (\<lambda>_. Some 3), blindMap := (\<lambda>_. Some (Some (secret_of small_group 1))),
     mapWallet := (\<lambda>_. Some ring_prev)\<rparr>"

definition ring_secrets :: ring_random where
  "ring_secrets = \<lparr>rnd_alpha = (\<lambda>_. secret_of small_group 2), rnd_blind = secret_of small_group 1, rnd_response = (\<lambda>_ _. secret_of small_group 1)\<rparr>"

definition ring_node :: node where
  "ring_node = \<lparr>heap = (\<lambda>_. NullIndex), mapBlockIndex = (\<lambda>_. Some (Some 0)), chainActive = [Some 0]\<rparr>"

section \<open>The operations in the small group\<close>

lemma and_then_Some: "and_then (Inr (Some x)) f = f x" "and_then (accept x) f = f x"
  by (simp_all add: and_then_def accept_def)

lemma ring_example_simps [simp]:
  "HashFn ring_example = (\<lambda>_. small_hash)" "Curve ring_example = small_curve"
  "GetTransaction ring_example = (\<lambda>_. Some (ring_prev, uint256_0))" "InitialDownload ring_example = False"
  by (simp_all add: ring_example_def small_env_def)

lemma ring_wallet_simps [simp]:
  "\<not> IsLocked ring_wallet" "keys ring_wallet = [small_key]" "amountMap ring_wallet s = Some 3"
  "blindMap ring_wallet s = Some (Some (secret_of small_group 1))" "mapWallet ring_wallet h = Some ring_prev"
  by (simp_all add: ring_wallet_def small_wallet_def)

lemma ring_tx_simps [simp]:
  "vin ring_tx = [(NewTxIn ring_outpoint [] 0)\<lparr>decoys := replicate 11 ring_outpoint, keyImage := point small_group 15\<rparr>]"
  "vout ring_tx = [NewTxOut 1 [1]]" "nTxFee ring_tx = 2" "tx_S ring_tx = []" "op_n ring_outpoint = 0"
  "prevout (NewTxIn ring_outpoint [] 0) = ring_outpoint" "scriptPubKey (NewTxOut v sc) = sc" "take 33 (point small_group x) = point small_group x"
  "take 33 (packed small_group x) = packed small_group x"
  "vout ring_prev = [(NewTxOut 0 (GetScriptForPubKey (point small_group 3)))\<lparr>commitment := packed small_group 10\<rparr>]"
  by (simp_all add: ring_tx_def NullTransaction_def ring_prev_def ring_outpoint_def NewTxIn_def NewTxOut_def)

lemma ring_challenge_small [simp]: "ring_challenge ring_example h ls = secret_of small_group 5"
  using small_hash_bytes by (simp add: ring_challenge_def)

lemma ring_point_hash:
  assumes "t mod 7 \<noteq> 0"
  shows "point_hash ring_example (point small_group x) (secret_of small_group t) = Inr (point small_group (5 * t))"
proof -
  have "point_hash ring_example (point small_group x) (secret_of small_group t) = point_hash small_env (point small_group x) (secret_of small_group t)"
    by (simp add: point_hash_def)
  also have "\<dots> = Inr (point small_group (5 * (t mod 7)))"
    using small_point_hash [of "point small_group x" "secret_of small_group t"] assms by simp
  also have "point small_group (5 * (t mod 7)) = point small_group (5 * t)" unfolding small_point_eq by (simp only: mod_mult_right_eq)
  finally show ?thesis .
qed

lemma small_tweaks:
  "x mod 7 \<noteq> 0 \<Longrightarrow> t mod 7 \<noteq> 0 \<Longrightarrow> pubkey_tweak_mul small_curve (point small_group x) (secret_of small_group t) = Some (point small_group (x * t))"
  "x mod 7 \<noteq> 0 \<Longrightarrow> (x + t) mod 7 \<noteq> 0 \<Longrightarrow> pubkey_tweak_add small_curve (point small_group x) (secret_of small_group t) = Some (point small_group (x + t))"
  "t mod 7 \<noteq> 0 \<Longrightarrow> privkey_tweak_mul small_curve (secret_of small_group x) (secret_of small_group t) = Some (secret_of small_group (x * t))"
  "GetPubKey small_curve (secret_of small_group x) = point small_group x"
  by (simp_all add: small_curve_def small_log_finite small_point_eq mod_simps secret_of_def [of _ "_ * _"])

lemma small_packed_iff: "packed small_group x = packed small_group y \<longleftrightarrow> x mod 7 = y mod 7"
  using small_point_eq [of x y] by (simp add: small_group_def)

lemma small_sums:
  "commitment_sum_pos small_curve [packed small_group x, packed small_group y] = Some (packed small_group (x + y))"
  "commitment_sum small_curve [packed small_group x, packed small_group y] [packed small_group u, packed small_group v]
     = Some (packed small_group (x + y - u - v))"
  "pubkey_to_commitment small_curve (point small_group x) = packed small_group x"
  "commitment_to_pubkey small_curve (packed small_group x) = Some (point small_group x)"
  "commitment_parse small_curve b = Some b" "commitment_serialize small_curve b = Some b"
proof -
  have "(x mod 7 + y mod 7 - (u mod 7 + v mod 7)) mod 7 = (x + y - (u + v)) mod 7"
    by (rule mod_diff_cong) (simp_all add: mod_simps)
  then show "commitment_sum small_curve [packed small_group x, packed small_group y] [packed small_group u, packed small_group v]
     = Some (packed small_group (x + y - u - v))"
    by (simp add: small_curve_def small_sum_def small_packed_iff diff_diff_eq)
qed (simp_all add: small_curve_def small_sum_def small_point_eq small_packed_iff mod_simps)

lemma small_blind_sum:
  "blind_sum small_curve (map (secret_of small_group) xs) n = Some (secret_of small_group (sum_list (take n xs) - sum_list (drop n xs)))"
proof -
  have s: "sum_list (map scalar (map (secret_of small_group) ys)) mod 7 = sum_list ys mod 7" for ys
  proof (induction ys)
    case (Cons y ys)
    then show ?case using mod_add_cong [of "y mod 7" 7 y] by simp
  qed simp
  have "(sum_list (map scalar (map (secret_of small_group) (take n xs))) - sum_list (map scalar (map (secret_of small_group) (drop n xs)))) mod 7
      = (sum_list (take n xs) - sum_list (drop n xs)) mod 7" by (rule mod_diff_cong) (rule s)+
  then show ?thesis by (simp add: small_curve_def take_map drop_map secret_of_def)
qed

lemma small_pedersen:
  "(x + uint v * 3) mod 7 \<noteq> 0 \<Longrightarrow> pedersen_commit small_curve (secret_of small_group x) v = Some (packed small_group (x + uint v * 3))"
  by (simp add: small_curve_def small_packed_iff mod_simps)

lemma small_CreateCommitment:
  assumes "(x + v * 3) mod 7 \<noteq> 0" "0 \<le> v" "v < 2 ^ 63"
  shows "CreateCommitment small_curve (secret_of small_group x) v = Some (packed small_group (x + v * 3))"
  using small_pedersen [of x "of_int v"] assms by (simp add: CreateCommitment_def small_sums uint_amount)

section \<open>Signing the example\<close>

lemma ring_columns_walk:
  assumes "\<forall>c\<in>set cols. c = ([point small_group 3, point small_group 2], [secret_of small_group 1, secret_of small_group 1])"
  shows "sign_walk ring_example h [point small_group 15, point small_group 10] (secret_of small_group 5) cols
    = Inr (Some (replicate (length cols + 1) (secret_of small_group 5)))"
proof -
  have l: "sign_link ring_example (secret_of small_group 5) (point small_group x, point small_group y, secret_of small_group 1)
      = Inr (Some (point small_group (x * 5 + 1) @ point small_group (5 + y * 5)))"
    if "x mod 7 \<noteq> 0" "y mod 7 \<noteq> 0" "(x * 5 + 1) mod 7 \<noteq> 0" "x * 5 mod 7 \<noteq> 0" for x y
    using that ring_point_hash [of 1 x] take_point(4) [OF small_group_laws, of x]
    by (simp add: sign_link_def small_tweaks small_sums and_then_def need_def raw_def accept_def must_def)
  show ?thesis using assms
    by (induction cols) (simp_all add: l and_then_def accept_def)
qed

lemma ring_example_output:
  "output_member ring_prev 0 = Inr (Some (point small_group 3, packed small_group 10))"
  by (simp add: output_member_def get_def and_then_Some need_def accept_def small_extract)

lemma ring_example_rows:
  assumes "length ops = n" "\<forall>op\<in>set ops. op = ring_outpoint"
  shows "collect (\<lambda>(j, op). if j = PI then accept (point small_group 3, packed small_group 10) else sign_member ring_example op) (enumerate k ops)
    = Inr (Some (replicate n (point small_group 3, packed small_group 10)))"
  using assms by (induction ops arbitrary: n k)
    (auto simp: sign_member_def ring_example_output and_then_def accept_def)

lemma ring_example_blind:
  "input_blind ring_example (-1) (vin ring_tx ! 0) ring_wallet = Inr (Some (secret_of small_group 1), ring_wallet)"
proof -
  let ?out = "(NewTxOut 0 (GetScriptForPubKey (point small_group 3)))\<lparr>commitment := packed small_group 10\<rparr>"
  have r: "real_output ring_wallet (-1) (vin ring_tx ! 0) = Inr (Some (ring_prev, ?out))"
    by (simp add: real_output_def real_outpoint_def and_then_Some get_def)
  have "\<not> IsCoinBase ring_prev" "\<not> IsCoinStake ring_prev" by (simp_all add: ring_prev_def NullTransaction_def IsCoinBase_def IsCoinStake_def)
  then have a: "RevealTxOutAmount ring_example ring_prev ?out c ring_wallet = Inr ((True, 3, Some (secret_of small_group 1)), ring_wallet)" for c
    by (simp add: amount_by_script)
  have c: "CreateCommitment small_curve (secret_of small_group 1) 3 = Some (packed small_group 10)"
    using small_CreateCommitment [of 1 3] by simp
  show ?thesis
    unfolding input_blind_def then_step_def bind_app from_outcome_def r
    by (simp add: a c bind_app need_def must_def accept_def small_sums ret_def)
qed

lemma ring_example_key: "input_key ring_example ring_wallet (-1) (vin ring_tx ! 0) = Inr (Some small_key)"
proof -
  have "findCorrespondingPrivateKey small_curve [small_key] ((NewTxOut 0 (GetScriptForPubKey (point small_group 3)))\<lparr>commitment := packed small_group 10\<rparr>)
      = Some small_key"
    by (simp add: findCorrespondingPrivateKey_def small_key_def small_tweaks NewTxOut_def)
  then show ?thesis
    by (simp add: input_key_def real_output_def real_outpoint_def and_then_def get_def accept_def must_def)
qed

definition ring_outs :: "CTxOut list" where
  "ring_outs = [(NewTxOut 1 [1])\<lparr>commitment := packed small_group 5\<rparr>]"

lemma ring_example_outs: "collect (commit_output small_curve) (zip (vout ring_tx) [Some (secret_of small_group 2)]) = Inr (Some ring_outs)"
  using small_CreateCommitment [of 2 1]
  by (simp add: commit_output_def ring_outs_def TxOutIsEmpty_def NewTxOut_def and_then_def must_def accept_def)

lemma ring_example_fee: "nTxFee tx = 2 \<Longrightarrow> fee_commitment small_curve tx = Some (packed small_group 6)"
proof -
  assume "nTxFee tx = 2"
  have "le_bytes n 0 = replicate n 0" for n by (induction n) simp_all
  then have "replicate 32 0 = secret_of small_group 0" by (simp only: secret_of_def mod_0 nat_0 rev_replicate)
  then show ?thesis using small_pedersen [of 0 2] \<open>nTxFee tx = 2\<close> by (simp add: fee_commitment_def)
qed

text \<open>The ring that the node reads, and the key that it adds to each column.\<close>

definition ring_read :: "(bytes \<times> bytes) list list" where
  "ring_read = [replicate 12 (point small_group 3, packed small_group 10)]"

lemma ring_example_additional:
  assumes "j < 12"
  shows "additional_sum small_curve (ring_column ring_read j) ([packed small_group 5] @ [packed small_group 6]) = Inr (Some (Some (point small_group 2)))"
  using assms by (simp add: ring_read_def additional_sum_def ring_column_def small_sums and_then_def need_def accept_def)

lemma ring_example_signed:
  "\<exists>tx. sign_ring ring_example ring_wallet (ring_tx\<lparr>vout := ring_outs\<rparr>) (-1) ring_secrets [small_key]
      [small_key, secret_of small_group 1, secret_of small_group 2, secret_of small_group 1] = Inr (Some tx)
    \<and> (\<forall>col\<in>set (tx_S tx). \<forall>r\<in>set col. 0 < scalar (write_limbs r)) \<and> write_limbs (tx_c tx) = secret_of small_group 5"
proof -
  let ?E = ring_example and ?tx = "ring_tx\<lparr>vout := ring_outs\<rparr>" and ?txin = "vin ring_tx ! 0" and ?S = "secret_of small_group" and ?P = "point small_group"
  let ?K = "packed small_group" and ?r = "ring_secrets"
  have d: "length [?txin] = 1" "length (decoys ([?txin] ! 0)) = 11" "nat (- 1 + 1) = 0" "length (vout ?tx) = 1" "vin ?tx = [?txin]"
    by (simp_all add: ring_outs_def)
  have rnd: "map (rnd_alpha ?r) [0..<1 + 1] = [?S 2, ?S 2]" "rnd_alpha ?r 1 = ?S 2" "map (\<lambda>i. rnd_response ?r i j) [0..<1 + 1] = [?S 1, ?S 1]" for j
    by (simp_all add: ring_secrets_def)
  have pub: "GetPubKey small_curve small_key = ?P 3" by (simp add: small_key_def small_tweaks)
  have com: "collect (real_commitment ring_wallet (-1)) [?txin] = Inr (Some [?K 10])"
    by (simp add: real_commitment_def real_output_def real_outpoint_def and_then_def get_def accept_def)
  have link: "real_link ?E (?P x, ?S 2) = Inr (Some (?P 2 @ ?P 10))" for x
    using ring_point_hash [of 2 x] by (simp add: real_link_def raw_def and_then_def accept_def small_tweaks)
  have links: "collect (real_link ?E) (zip (map (GetPubKey small_curve) [small_key]) [?S 2, ?S 2]) = Inr (Some [?P 2 @ ?P 10])"
    by (simp add: pub link and_then_def accept_def)
  have sum: "additional_secret small_curve 1 1 [small_key, ?S 1, ?S 2, ?S 1] = Inr (Some (?S 2))"
    using small_blind_sum [of "[3, 1, 2]" 2] by (simp add: additional_secret_def must_def accept_def small_key_def)
  have key: "KeySet (?S 2) = Some (?S 2)" by (rule KeySet_secret [OF small_group_laws]) simp
  have rows: "collect (sign_row ?E 0) (zip [?txin] (zip (map (\<lambda>k. take 33 (GetPubKey small_curve k)) [small_key]) [?K 10]))
      = Inr (Some ring_read)"
  proof -
    have "length (ring_outpoints ?txin) = 12" "\<forall>op\<in>set (ring_outpoints ?txin). op = ring_outpoint"
      by (simp_all add: ring_outpoints_def)
    from ring_example_rows [OF this, of 0 0]
    show ?thesis by (simp add: ring_read_def sign_row_def pub and_then_def accept_def)
  qed
  have outs: "out_commitments small_curve ?tx = Inr (Some [?K 5])"
    by (simp add: out_commitments_def out_commitment_def ring_outs_def small_sums and_then_def need_def accept_def)
  have fee: "fee_commitment small_curve ?tx = Some (?K 6)" by (rule ring_example_fee) simp
  have add: "collect (\<lambda>j. if j = 0 then accept (take 33 (?P 2))
      else and_then (additional_sum small_curve (ring_column ring_read j) ([?K 5] @ [?K 6])) (must RuntimeError)) [0..<11 + 1]
      = Inr (Some (replicate 12 (?P 2)))"
  proof -
    have "collect (\<lambda>j. if j = 0 then accept (take 33 (?P 2))
      else and_then (additional_sum small_curve (ring_column ring_read j) ([?K 5] @ [?K 6])) (must RuntimeError)) js
      = Inr (Some (replicate (length js) (?P 2)))" if "\<forall>j\<in>set js. j < 12" for js
      using that by (induction js) (simp_all add: ring_example_additional [unfolded append.simps] and_then_def accept_def must_def)
    from this [of "[0..<11 + 1]"] show ?thesis by simp
  qed
  have cols: "column_keys (ring_column ring_read j) (replicate 12 (?P 2) ! j) = [?P 3, ?P 2]" if "j < 12" for j
    using that by (simp add: ring_read_def column_keys_def ring_column_def)
  have walk: "sign_walk ?E h [?P 15, ?P 10] (ring_challenge ?E h ([?P 2 @ ?P 10] @ [?P 2 @ ?P 10]))
      (map (\<lambda>j. (column_keys (ring_column ring_read j) (replicate 12 (?P 2) ! j), [?S 1, ?S 1])) ([0 + 1..<11 + 1] @ [0..<0]))
      = Inr (Some (replicate 12 (?S 5)))" for h
    unfolding ring_challenge_small by (subst ring_columns_walk) (auto simp: ring_read_def column_keys_def ring_column_def)
  have resp: "real_response small_curve (?S 5) (?S 2, ?S x) = Inr (Some (?S (2 - x * 5)))" if "x mod 7 \<noteq> 0" for x
    using small_blind_sum [of "[2, 5 * x]" 1] that
    by (simp add: real_response_def small_tweaks and_then_def must_def accept_def mult.commute)
  have close: "close_ring ?E h [?P 15, ?P 10] 11 0 (\<lambda>j. column_keys (ring_column ring_read j) (replicate 12 (?P 2) ! j))
      (\<lambda>j. [?S 1, ?S 1]) ([?P 2 @ ?P 10] @ [?P 2 @ ?P 10]) [?S 2, ?S 2] ([small_key] @ [?S 2])
      = Inr (Some (?S 5, map (\<lambda>j. if j = 0 then [?S (- 13), ?S (- 8)] else [?S 1, ?S 1]) [0..<11 + 1]))" for h
    unfolding close_ring_def walk and_then_Some
    using resp [of 3] resp [of 2] by (simp add: small_key_def and_then_def accept_def)
  have ki: "map (\<lambda>txin. take 33 (keyImage txin)) [?txin] @ [?P 10] = [?P 15, ?P 10]" by simp
  have hash: "point_hash ?E (?P 2) (?S 2) = Inr (?P 10)" using ring_point_hash [of 2 2] by simp
  have pub2: "GetPubKey small_curve (?S 2) = ?P 2" by (rule small_tweaks)
  have "sign_ring ?E ring_wallet ?tx (-1) ?r [small_key] [small_key, ?S 1, ?S 2, ?S 1] = Inr (Some (?tx\<lparr>tx_c := bytes_uint256 (?S 5),
      tx_S := tx_S ?tx @ map (map bytes_uint256) (map (\<lambda>j. if j = 0 then [?S (- 13), ?S (- 8)] else [?S 1, ?S 1]) [0..<11 + 1]),
      ntxFeeKeyImage := PubKeySet (?P 10)\<rparr>))"
    unfolding sign_ring_def Let_def d rnd com and_then_Some links ring_example_simps sum key must_def option.case pub2 hash raw_def sum.case
      link rows outs need_def fee add ki GetTxSignatureHash_def close prod.case
    by (simp only: accept_def)
  moreover have "0 < scalar (write_limbs (bytes_uint256 (?S x)))" if "x mod 7 \<noteq> 0" for x
    using uint256_bytes_of [of "?S x"] that small_secret_ok [of x] by (simp add: uint256_bytes_def secret_ok_def del: small_secret_ok)
  moreover have "write_limbs (bytes_uint256 (?S 5)) = ?S 5" using uint256_bytes_of [of "?S 5"] by (simp add: uint256_bytes_def)
  ultimately show ?thesis by (intro exI conjI) (assumption, auto)
qed

text \<open>The node reads the ring that was signed.\<close>

lemma ring_node_block: "block_in_chain ring_node h"
  by (simp add: block_in_chain_def ring_node_def Tip_def GetAncestor_def NullIndex_def) (subst ancestor_loop.simps, simp)

lemma ring_node_rows:
  assumes "vin tx = vin ring_tx"
  shows "ring_rows ring_example (Some p) tx ring_node = Inr (Some ring_read, ring_node)"
proof (rule ring_rows_found)
  have "sign_member ring_example op = Inr (Some (point small_group 3, packed small_group 10))" if "unat (op_n op) = 0" for op
    using that by (simp add: sign_member_def ring_example_output)
  then show "list_all2 (\<lambda>txin row. list_all2 (\<lambda>op m. sign_member ring_example op = Inr (Some m)) (ring_outpoints txin) row) (vin tx) ring_read"
    unfolding assms by (simp add: ring_read_def ring_outpoints_def numeral_eq_Suc)
qed (rule ring_node_block)

lemma then_step_run: "m s = Inr (Some x, s') \<Longrightarrow> f x s' = r \<Longrightarrow> then_step m f s = r"
  by (simp add: then_step_def bind_app)

lemma ring_example_made:
  "\<exists>tx. makeRingCT ring_example ring_tx [Some (secret_of small_group 2)] (-1) ring_secrets ring_wallet = Inr (Some tx, ring_wallet)
     \<and> (\<forall>col\<in>set (tx_S tx). \<forall>r\<in>set col. 0 < scalar (write_limbs r)) \<and> write_limbs (tx_c tx) = secret_of small_group 5"
proof -
  let ?b = "secret_of small_group 2" and ?tx = "ring_tx\<lparr>vout := ring_outs\<rparr>" and ?txin = "vin ring_tx ! 0"
  obtain tx where signed: "sign_ring ring_example ring_wallet ?tx (-1) ring_secrets [small_key]
      [small_key, secret_of small_group 1, ?b, secret_of small_group 1] = Inr (Some tx)"
    and range: "\<forall>col\<in>set (tx_S tx). \<forall>r\<in>set col. 0 < scalar (write_limbs r)" "write_limbs (tx_c tx) = secret_of small_group 5"
    using ring_example_signed by blast
  have v: "vin ?tx = [?txin]" by simp
  have outs: "from_outcome (collect (commit_output (Curve ring_example)) (zip (vout ring_tx) [Some ?b])) ring_wallet = Inr (Some ring_outs, ring_wallet)"
    unfolding ring_example_simps from_outcome_def ring_example_outs by simp
  have key: "from_outcome (collect (input_key ring_example ring_wallet (-1)) [?txin]) ring_wallet = Inr (Some [small_key], ring_wallet)"
    unfolding from_outcome_def by (simp add: ring_example_key and_then_def accept_def del: ring_tx_simps)
  have blind: "collect_steps (input_blind ring_example (-1)) [?txin] ring_wallet = Inr (Some [secret_of small_group 1], ring_wallet)"
    unfolding collect_steps.simps step_Some ring_example_blind ret_def by blast
  have "output_blinds (zip ring_outs [Some ?b]) = [?b]" by (simp add: output_blinds_def ring_outs_def TxOutIsEmpty_def NewTxOut_def)
  then have "[small_key] @ [secret_of small_group 1] @ output_blinds (zip ring_outs [Some ?b]) @ [rnd_blind ring_secrets]
      = [small_key, secret_of small_group 1, ?b, secret_of small_group 1]" by (simp add: ring_secrets_def)
  then have sign: "from_outcome (sign_ring ring_example ring_wallet ?tx (-1) ring_secrets [small_key]
      ([small_key] @ [secret_of small_group 1] @ output_blinds (zip ring_outs [Some ?b]) @ [rnd_blind ring_secrets])) ring_wallet = Inr (Some tx, ring_wallet)"
    using signed by (simp add: from_outcome_def)
  have shape: "\<not> (length [?txin] > MAX_TX_INPUTS \<or> length [?txin] = 0)"
      "\<not> list_ex (\<lambda>txin. length (decoys txin) \<noteq> length (decoys ([?txin] ! 0))) [?txin]"
      "\<not> (length (decoys ([?txin] ! 0)) > MAX_RING_SIZE \<or> length (decoys ([?txin] ! 0)) < MIN_RING_SIZE)" by simp_all
  have "makeRingCT ring_example ring_tx [Some ?b] (-1) ring_secrets ring_wallet = Inr (Some tx, ring_wallet)"
    unfolding makeRingCT_def Let_def
    by (rule then_step_run, rule outs, unfold v if_not_P [OF shape(1)] if_not_P [OF shape(2)] if_not_P [OF shape(3)],
        rule then_step_run, rule key, rule then_step_run, rule blind, rule sign)
  then show ?thesis using range by blast
qed

lemma ring_example_challenges:
  assumes "write_limbs (tx_c tx) = secret_of small_group 5"
  shows "\<forall>c\<in>set (ring_challenges ring_example tx rows). secret_ok small_group c"
proof -
  have walk: "set (walk_challenges ring_example h images c columns) \<subseteq> {c, secret_of small_group 5}" for h images c columns
    by (induction columns arbitrary: c) (auto split: sum.splits option.splits)
  have "set (case m of Inr (Some cs) \<Rightarrow> cs | _ \<Rightarrow> []) \<subseteq> S" if "\<And>cs. m = Inr (Some cs) \<Longrightarrow> set cs \<subseteq> S" for m :: "bytes list outcome" and S
    using that by (auto split: sum.splits option.splits)
  then have "set (ring_challenges ring_example tx rows) \<subseteq> {write_limbs (tx_c tx), secret_of small_group 5}"
    unfolding ring_challenges_def Let_def by this (auto simp del: upt_Suc dest!: subsetD [OF walk])
  then show ?thesis using assms by auto
qed

theorem ring_signature_complete_witness:
  "\<exists>tx. makeRingCT ring_example ring_tx [Some (secret_of small_group 2)] (-1) ring_secrets ring_wallet = Inr (Some tx, ring_wallet)
     \<and> VerifyRingSignatureWithTxFee ring_example tx (Some 0) ring_node = Inr (True, ring_node)"
proof -
  obtain tx where made: "makeRingCT ring_example ring_tx [Some (secret_of small_group 2)] (-1) ring_secrets ring_wallet = Inr (Some tx, ring_wallet)"
    and range: "\<forall>col\<in>set (tx_S tx). \<forall>r\<in>set col. 0 < scalar (write_limbs r)" "write_limbs (tx_c tx) = secret_of small_group 5"
    using ring_example_made by blast
  have "\<not> IsCoinBase ring_prev" "\<not> IsCoinStake ring_prev" by (simp_all add: ring_prev_def NullTransaction_def IsCoinBase_def IsCoinStake_def)
  moreover have "generateKeyImage small_curve (\<lambda>_. small_hash) [small_key] (GetScriptForPubKey (point small_group 3)) = Some (Some (point small_group 15))"
  proof -
    have p: "GetPubKey small_curve small_key = point small_group 3" by (simp add: small_key_def small_tweaks)
    have "point_hash ring_example (point small_group 3) small_key = Inr (point small_group 15)"
      using ring_point_hash [of 3 3] by (simp add: small_key_def)
    then have "point_hash_loop small_curve (\<lambda>_. small_hash) (rehash_key (\<lambda>_. small_hash) (point small_group 3)) small_key = Some (point small_group 15)"
      by (simp add: point_hash_iff PointHashingSuccessively_def)
    then show ?thesis by (simp add: generateKeyImage_def p take_point [OF small_group_laws])
  qed
  ultimately have own: "list_all2 (owned_input ring_example small_group ring_wallet (-1)) (vin ring_tx) [3]"
    by (simp add: owned_input_def known_amount_def real_outpoint_def accept_def secret_of_range(1) [OF small_group_laws])
  have out: "\<not> TxOutIsEmpty (NewTxOut 1 [1])" "nValue (NewTxOut 1 [1]) = 1" by (simp_all add: TxOutIsEmpty_def NewTxOut_def)
  have "VerifyRingSignatureWithTxFee ring_example tx (Some 0) ring_node = Inr (True, ring_node)"
    by (rule ring_signature_complete [where E = ring_example and g = small_group and w = ring_wallet and w' = ring_wallet and myIndex = "-1"
          and wtxNew = ring_tx and vs = "[3]" and bs = "[secret_of small_group 2]" and rnd = ring_secrets, OF _ _ _ _ own _ _ _ _ _ _ _ _ _ _ _ _ range(1) ring_example_challenges [OF range(2)]])
      (use made out small_curve_laws ring_node_block in \<open>simp_all add: ring_secrets_def small_key_def\<close>)
  then show ?thesis using made by blast
qed

text \<open>A response of zero, and six outputs.\<close>

definition zero_tx :: CTransaction where
  "zero_tx = ring_tx\<lparr>vout := ring_outs, tx_c := bytes_uint256 (secret_of small_group 5),
     tx_S := replicate 12 [bytes_uint256 (secret_of small_group 0), bytes_uint256 (secret_of small_group 1)]\<rparr>"

lemma ring_example_shape: "vin tx = vin ring_tx \<Longrightarrow> nTxFee tx = 2 \<Longrightarrow> ring_shape ring_example tx"
  by (simp add: ring_shape_def)

lemma zero_responses:
  assumes "vin tx = vin ring_tx" "tx_S tx = tx_S zero_tx"
  shows "ring_responses tx (length (decoys (vin tx ! 0))) = Inr (Some (replicate 12 [secret_of small_group 0, secret_of small_group 1]))"
proof -
  have w: "write_limbs (bytes_uint256 (secret_of small_group x)) = secret_of small_group x" for x
    using uint256_bytes_of [of "secret_of small_group x"] by (simp add: uint256_bytes_def)
  have "collect (\<lambda>i. and_then (get (tx_S zero_tx) i) (\<lambda>S_column. collect (\<lambda>j. and_then (get S_column j) (\<lambda>s. accept (write_limbs s))) [0..<1 + 1])) is
      = Inr (Some (replicate (length is) [secret_of small_group 0, secret_of small_group 1]))" if "\<forall>i\<in>set is. i < 12" for "is"
    using that by (induction "is") (simp_all add: zero_tx_def get_def and_then_def accept_def w)
  from this [of "[0..<11 + 1]"] show ?thesis using assms by (simp add: ring_responses_def)
qed

theorem zero_response_hangs_witness: "VerifyRingSignatureWithTxFee ring_example zero_tx (Some 0) ring_node = Inl Diverges"
proof -
  let ?P = "point small_group" and ?S = "secret_of small_group"
  have t: "vin zero_tx = vin ring_tx" "nTxFee zero_tx = 2" "vout zero_tx = ring_outs" by (simp_all add: zero_tx_def)
  have c: "write_limbs (tx_c zero_tx) = ?S 5" using uint256_bytes_of [of "?S 5"] by (simp add: zero_tx_def uint256_bytes_def)
  have outs: "out_commitments small_curve zero_tx = Inr (Some [packed small_group 5])"
    unfolding out_commitments_def t by (simp add: out_commitment_def ring_outs_def small_sums and_then_def need_def accept_def)
  have "collect (\<lambda>j. and_then (additional_sum small_curve (ring_column ring_read j) ([packed small_group 5] @ [packed small_group 6])) need) js
      = Inr (Some (replicate (length js) (?P 2)))" if "\<forall>j\<in>set js. j < 12" for js
    using that by (induction js) (simp_all add: ring_example_additional [unfolded append.simps] and_then_def accept_def need_def)
  from this [of "[0..<11 + 1]"]
  have prepared: "ring_prepared ring_example zero_tx ring_read (replicate 12 [?S 0, ?S 1]) (replicate 12 (?P 2))"
    unfolding ring_prepared_def ring_example_simps outs ring_example_fee [OF t(2)] zero_responses [OF t(1) refl] by (simp add: t(1))
  show ?thesis
    by (rule zero_response_hangs [OF _ _ ring_example_shape ring_node_rows prepared, where g = small_group and x = 3])
      (use t c small_curve_laws in \<open>simp_all add: ring_read_def finite_point_def\<close>)
qed

definition six_tx :: CTransaction where
  "six_tx = zero_tx\<lparr>vout := replicate 6 (ring_outs ! 0)\<rparr>"

theorem many_outputs_overflow_witness: "VerifyRingSignatureWithTxFee ring_example six_tx (Some 0) ring_node = Inl OutOfRange"
proof -
  have t: "vin six_tx = vin ring_tx" "nTxFee six_tx = 2" "tx_S six_tx = tx_S zero_tx" "vout six_tx = replicate 6 (ring_outs ! 0)"
    by (simp_all add: six_tx_def zero_tx_def)
  show ?thesis
    by (rule many_outputs_overflow [OF ring_example_shape ring_node_rows zero_responses])
      (use t in \<open>simp_all add: ring_outs_def small_sums\<close>)
qed

end
