(* ===== verification/Wallet_Types.thy ===== *)
theory Wallet_Types
  imports Stealth_Wallet
begin

text \<open>
  The invariant of the state of the wallet: whatever transactions it scans, in any order, its keys and blinding factors are
  private keys in range, what it knows of amounts and blinding factors is about the same scripts, and what it knows never changes.
\<close>

section \<open>A typed wallet\<close>

definition secret_typed :: "bytes \<Rightarrow> bool" where
  "secret_typed b \<longleftrightarrow> length b = 32 \<and> KeyCheck b"

definition wallet_typed :: "wallet \<Rightarrow> bool" where
  "wallet_typed w \<longleftrightarrow> (\<forall>k\<in>set (keys w). secret_typed k) \<and> distinct (keys w)
     \<and> (\<forall>s b. blindMap w s = Some (Some b) \<longrightarrow> secret_typed b) \<and> dom (amountMap w) = dom (blindMap w)
     \<and> (\<forall>s a. amountMap w s = Some a \<longrightarrow> int_fits 8 a)"

text \<open>The operations of the wallet, in any order.\<close>

inductive wallet_reach :: "'e ring_env_scheme \<Rightarrow> wallet \<Rightarrow> wallet \<Rightarrow> bool" for E w0 where
  start: "wallet_reach E w0 w0"
| scan: "wallet_reach E w0 w \<Longrightarrow> IsTransactionForMe E tx w = Inr (ok, w') \<Longrightarrow> wallet_reach E w0 w'"
| add_key: "wallet_reach E w0 w \<Longrightarrow> AddComputedPrivateKey E out w = Inr (u, w') \<Longrightarrow> wallet_reach E w0 w'"
| reveal: "wallet_reach E w0 w \<Longrightarrow> RevealTxOutAmount E tx out a w = Inr (r, w') \<Longrightarrow> wallet_reach E w0 w'"

section \<open>Every operation keeps it\<close>

definition keeps_typed :: "wallet \<Rightarrow> wallet \<Rightarrow> bool" where
  "keeps_typed w w' \<longleftrightarrow> wallet_grows w w' \<and> (wallet_typed w \<longrightarrow> wallet_typed w')"

interpretation typed: step_frame keeps_typed
proof
  show "keeps_typed w w" for w by (simp add: keeps_typed_def wallet_grows_def)
  show "keeps_typed w w' \<Longrightarrow> keeps_typed w' w'' \<Longrightarrow> keeps_typed w w''" for w w' w''
    unfolding keeps_typed_def using wallet_grows_trans by blast
qed

lemma grows_ends: "ends_in (amounts_of S) w m \<Longrightarrow> ends_in wallet_grows w m"
  by (auto simp: ends_in_def amounts_of_def)

lemma KeySet_typed: "KeySet b = Some k \<Longrightarrow> secret_typed k"
  by (auto simp: KeySet_def secret_typed_def split: if_splits)

lemma signed_amount_fits: "int_fits 8 (signed_amount b)"
proof (cases "read_int 8 b")
  case (Some r)
  then obtain m where "fst r = signed_take_bit (8 * 8 - 1) (int m)" by (auto simp: read_int_def bind_eq_Some_conv)
  moreover have "int_fits 8 (signed_take_bit (8 * 8 - 1) i)" for i
    using signed_take_bit_int_less_exp [of "8 * 8 - 1" i] signed_take_bit_int_greater_eq_minus_exp [of "8 * 8 - 1" i]
    by (simp add: int_fits_def)
  ultimately show ?thesis using Some by (cases r) (simp add: signed_amount_def)
qed (simp add: signed_amount_def int_fits_def)

lemma AddKey_typed: "secret_typed k \<Longrightarrow> ends_in keeps_typed w (AddKey k w)"
  by (auto simp: ends_in_def AddKey_def ret_def keeps_typed_def wallet_grows_def wallet_typed_def)

lemma Reveal_grows: "ends_in wallet_grows w (RevealTxOutAmount E tx out a w)"
  by (rule grows_ends [OF Reveal_scan [OF singletonI]])

lemma Reveal_typed: "ends_in keeps_typed w (RevealTxOutAmount E tx out a w)"
proof -
  have "wallet_typed w'" if t: "wallet_typed w" and R: "RevealTxOutAmount E tx out a w = Inr (r, w')" for r w'
  proof (cases "w' = w")
    case False
    have d: "\<forall>x. amountMap w (scriptPubKey out) = Some x \<longrightarrow> blindMap w (scriptPubKey out) \<noteq> None" using t unfolding wallet_typed_def dom_def by blast
    obtain sec m v where "ECDHInfoDecode E (uint256_bytes (mv_mask (maskValue out))) (uint256_bytes (mv_amount (maskValue out))) sec = (m, v)"
      and w': "w' = w\<lparr>amountMap := (amountMap w)(scriptPubKey out \<mapsto> v), blindMap := (blindMap w)(scriptPubKey out \<mapsto> m)\<rparr>"
      using R False d
      by (auto simp: RevealTxOutAmount_def Let_def ret_def fail_def split: if_splits option.splits sum.splits prod.splits)
    then have "\<forall>b. m = Some b \<longrightarrow> secret_typed b" "int_fits 8 v"
      using KeySet_typed signed_amount_fits by (auto simp: ECDHInfoDecode_def Let_def split_beta)
    then show ?thesis using t unfolding w' wallet_typed_def by auto
  qed (use t in simp)
  then show ?thesis using Reveal_grows [of w E tx out a] by (auto simp: ends_in_def keeps_typed_def split: sum.splits prod.splits)
qed

lemma scan_pair_typed: "ends_in keeps_typed w (scan_pair E tx out p w)"
proof -
  have k: "ends_in keeps_typed w (bind (AddKey k) (\<lambda>_. bind (RevealTxOutAmount E tx out 0) (\<lambda>_. ret True)) (w\<lparr>addrToTxHash := m\<rparr>))"
    if "secret_typed k" for k m
  proof -
    have "ends_in keeps_typed v (bind (AddKey k) (\<lambda>_. bind (RevealTxOutAmount E tx out 0) (\<lambda>_. ret True)) v)" for v
      by (intro typed.frame_rules AddKey_typed Reveal_typed that)
    moreover have "keeps_typed w (w\<lparr>addrToTxHash := m\<rparr>)" by (simp add: keeps_typed_def wallet_grows_def wallet_typed_def)
    ultimately show ?thesis using typed.trans unfolding ends_in_def by blast
  qed
  have r: "ends_in keeps_typed w (Inr (x, w))" for x :: bool using typed.ret [of w x] by simp
  show ?thesis unfolding scan_pair_def Let_def
    by (cases p) (auto intro!: k r KeySet_typed simp: typed.error split: option.split)
qed

lemma scan_outputs_typed: "ends_in keeps_typed w (scan_outputs E tx ps outs w)"
proof -
  have p: "ends_in keeps_typed w (scan_pairs E tx out ps w)" for out w
    by (induction ps arbitrary: w) (simp_all only: scan_pairs.simps, (intro typed.frame_rules scan_pair_typed; blast)+)
  show ?thesis
    by (induction outs arbitrary: w) (simp_all only: scan_outputs.simps, (intro typed.frame_rules p; simp)+)
qed

lemma AddComputed_typed: "ends_in keeps_typed w (AddComputedPrivateKey E out w)"
proof -
  have r: "ends_in keeps_typed w (Inr (x, w))" for x :: unit using typed.ret [of w x] by simp
  show ?thesis unfolding AddComputedPrivateKey_def
    by (auto intro!: AddKey_typed r KeySet_typed simp: typed.error split: option.split)
qed

lemma wallet_reach_keeps: "wallet_reach E w0 w \<Longrightarrow> keeps_typed w0 w"
proof (induction rule: wallet_reach.induct)
  case start
  then show ?case by (simp add: keeps_typed_def wallet_grows_def)
next
  case (scan w tx ok w')
  have "ends_in keeps_typed w (IsTransactionForMe E tx w)" unfolding IsTransactionForMe_def
    by (intro typed.frame_rules scan_outputs_typed)
  then show ?case using scan typed.trans by (auto simp: ends_in_def)
next
  case (add_key w out u w')
  then show ?case using AddComputed_typed [of w E out] typed.trans by (auto simp: ends_in_def)
next
  case (reveal w tx out a r w')
  then show ?case using Reveal_typed [of w E tx out a] typed.trans by (cases r) (auto simp: ends_in_def)
qed

text \<open>
  C14: the state of the wallet stays well typed: after any sequence of scans, computed keys and revealed amounts the wallet
  holds distinct private keys in range, valid or absent blinding factors, amounts of 64 bits for exactly the scripts that have
  an entry of the blinding factors, and every key and amount that it had before.
\<close>

theorem wallet_stays_typed:
  assumes "wallet_reach E w0 w" "wallet_typed w0"
  shows "wallet_typed w \<and> wallet_grows w0 w"
  using wallet_reach_keeps [OF assms(1)] assms(2) by (simp add: keeps_typed_def)

text \<open>An empty wallet is well typed, and stays so when it computes the key of the payment in the small group.\<close>

theorem wallet_stays_typed_witness:
  "\<exists>w. wallet_reach small_env small_wallet w \<and> wallet_typed w \<and> wallet_grows small_wallet w \<and> keys w \<noteq> []"
proof -
  let ?b = "secret_of small_group 1" and ?v = "secret_of small_group 3" and ?x = "secret_of small_group 6"
  have m: "pubkey_tweak_mul small_curve (point small_group 2) ?v = Some (point small_group 6)"
    by (simp add: small_curve_def small_log_finite small_point_eq)
  have x: "privkey_tweak_add small_curve (secret_of small_group 5) ?b = Some ?x" by (simp add: small_curve_def)
  have k: "KeySet ?x = Some ?x" by (rule KeySet_secret [OF small_group_laws]) simp
  have pk: "GetPubKey small_curve ?x = point small_group 6" by (simp add: small_curve_def small_point_eq)
  have sp: "scriptPubKey small_payment = GetScriptForPubKey (point small_group 6)" "txPub small_payment = point small_group 2"
    by (simp_all add: small_payment_def NewTxOut_def)
  have size: "PubKeySize (point small_group 2) = 33" by (simp add: PubKeySize_def GetLen_def small_group_def)
  let ?w = "small_wallet\<lparr>keys := [?x]\<rparr>"
  have "AddComputedPrivateKey small_env small_payment small_wallet = Inr ((), ?w)"
    using m x k pk sp size small_hash_bytes point_simps [OF small_group_laws]
    by (simp add: AddComputedPrivateKey_def small_wallet_def AddKey_def ret_def)
  then have reach: "wallet_reach small_env small_wallet ?w" by (rule wallet_reach.add_key [OF wallet_reach.start])
  have typed: "wallet_typed small_wallet" by (simp add: wallet_typed_def small_wallet_def)
  show ?thesis using wallet_stays_typed [OF reach typed] reach by (intro exI [of _ ?w]) simp
qed

end
