(* ===== verification/Chain_State.thy ===== *)
theory Chain_State
  imports Index_Invariant
begin

text \<open>
  The choice of the active chain in \<open>main.cpp\<close>: the candidates for a tip, \<open>FindMostWorkChain\<close>, connecting and disconnecting
  tips, \<open>ActivateBestChain\<close>, and the invalidation and reconsideration of blocks. What \<open>ConnectBlock\<close> and
  \<open>DisconnectBlock\<close> do to the coins, and whether they succeed, are functions of the environment; what they
  write into the entry of the block is part of the model.
\<close>

section \<open>The state\<close>

text \<open>
  The candidates are a list in the order of their comparator, the multimap of blocks that wait for data a list of pairs;
  \<open>nSequenceId\<close> is a field of the entries. The rest of the state of the chain (coins, pool, index of transactions) is \<open>chainstate\<close>.
\<close>

record 'c chain_state = index_state +
  setBlockIndexCandidates :: "ptr list"
  nSequenceId :: "ptr \<Rightarrow> u32"
  nBlockSequenceId :: u32
  pindexBestInvalid :: "ptr option"
  mapBlocksUnlinked :: "(ptr option \<times> ptr) list"
  pindexBestForkTip :: "ptr option"
  pindexBestForkBase :: "ptr option"
  fLargeWorkForkFound :: bool
  fLargeWorkInvalidChainFound :: bool
  lockIBDState :: bool
  chainstate :: 'c

text \<open>
  What connecting a block comes to: the result with the validation state, the money supply and mint that have been written
  into the entry, if it came so far, the position of the undo data, and the rest of the state.
\<close>

record 'c connect_result =
  cr_ok :: bool
  cr_state :: CValidationState
  cr_money :: "(int \<times> int) option"
  cr_undo :: "u32 option"
  cr_chainstate :: 'c

text \<open>\<open>Busy\<close> stands for \<open>fImporting\<close>, \<open>fReindex\<close> and \<open>fVerifyingBlocks\<close>, \<open>DiskFull\<close> for a flush that fails.\<close>

record 'c activation_env = block_env +
  Now :: int
  Busy :: bool
  ConnectChecks :: "CBlock \<Rightarrow> ptr \<Rightarrow> bool \<Rightarrow> 'c chain_state \<Rightarrow> 'c connect_result"
  DisconnectCoins :: "CBlock \<Rightarrow> ptr \<Rightarrow> 'c chain_state \<Rightarrow> 'c option"
  DiskFull :: "'c \<Rightarrow> bool"

text \<open>The state of a validation and a result, as a function of the code returns them.\<close>

type_synonym ('s, 'a) vstep = "('s, 'a \<times> CValidationState) step"

definition alter :: "('s \<Rightarrow> 's) \<Rightarrow> ('s, unit) step" where
  "alter f = (\<lambda>s. Inr ((), f s))"

section \<open>The order of the candidates\<close>

text \<open>
  \<open>CBlockIndexWorkComparator\<close>. The last tie is broken by the addresses of the entries; here an address is the number of the allocation, one of
  the orders that the allocator can give.
\<close>

definition work_less :: "'c chain_state \<Rightarrow> ptr \<Rightarrow> ptr \<Rightarrow> bool" where
  "work_less s pa pb =
     (if op_less (nChainWork (heap s pb)) (nChainWork (heap s pa)) then False
      else if op_less (nChainWork (heap s pa)) (nChainWork (heap s pb)) then True
      else if nSequenceId s pa < nSequenceId s pb then False
      else if nSequenceId s pa > nSequenceId s pb then True
      else if pa < pb then False
      else if pa > pb then True
      else False)"

definition insert_candidate :: "ptr \<Rightarrow> 'c chain_state \<Rightarrow> 'c chain_state" where
  "insert_candidate p s = (let C = setBlockIndexCandidates s in
     if p \<in> set C then s
     else s\<lparr>setBlockIndexCandidates := takeWhile (\<lambda>q. work_less s q p) C @ p # dropWhile (\<lambda>q. work_less s q p) C\<rparr>)"

definition erase_candidate :: "ptr \<Rightarrow> 'c chain_state \<Rightarrow> 'c chain_state" where
  "erase_candidate p s = s\<lparr>setBlockIndexCandidates := filter (\<lambda>q. q \<noteq> p) (setBlockIndexCandidates s)\<rparr>"

definition mark_status :: "u32 \<Rightarrow> ptr \<Rightarrow> 'c chain_state \<Rightarrow> 'c chain_state" where
  "mark_status bits p s = s\<lparr>heap := (heap s)(p := (heap s p)\<lparr>nStatus := nStatus (heap s p) OR bits\<rparr>)\<rparr>"

definition mark_dirty :: "ptr \<Rightarrow> 'c chain_state \<Rightarrow> 'c chain_state" where
  "mark_dirty p s = s\<lparr>setDirtyBlockIndex := insert p (setDirtyBlockIndex s)\<rparr>"

abbreviation (input) BLOCK_FAILED_VALID :: u32 where "BLOCK_FAILED_VALID \<equiv> 32"
abbreviation (input) BLOCK_FAILED_CHILD :: u32 where "BLOCK_FAILED_CHILD \<equiv> 64"
abbreviation (input) BLOCK_VALID_TREE :: u32 where "BLOCK_VALID_TREE \<equiv> 2"
abbreviation (input) BLOCK_VALID_TRANSACTIONS :: u32 where "BLOCK_VALID_TRANSACTIONS \<equiv> 3"
abbreviation (input) BLOCK_VALID_SCRIPTS :: u32 where "BLOCK_VALID_SCRIPTS \<equiv> 5"

definition has_failed :: "CBlockIndex \<Rightarrow> bool" where
  "has_failed b \<longleftrightarrow> nStatus b AND BLOCK_FAILED_MASK \<noteq> 0"

definition has_data :: "CBlockIndex \<Rightarrow> bool" where
  "has_data b \<longleftrightarrow> nStatus b AND 8 \<noteq> 0"

section \<open>The best candidate\<close>

text \<open>
  The walk from a candidate down to the active chain: the entries that have been passed, and the first that cannot be
  used, if there is one.
\<close>

partial_function (option) usable_walk ::
  "store \<Rightarrow> CChain \<Rightarrow> ptr option \<Rightarrow> ptr list \<Rightarrow> (chain_error + ptr list \<times> ptr option) option" where
  "usable_walk H vChain pindexTest passed = (case pindexTest of
     None \<Rightarrow> Some (Inr (passed, None))
   | Some p \<Rightarrow>
       if Contains H vChain p then Some (Inr (passed, None))
       else if \<not> (nChainTx (H p) \<noteq> 0 \<or> nHeight (H p) = 0) then Some (Inl AssertionFailed)
       else if has_failed (H p) \<or> \<not> has_data (H p) then Some (Inr (passed, Some p))
       else usable_walk H vChain (pprev (H p)) (passed @ [p]))"

text \<open>The entries above the unusable one: marked as failed, or as waiting for data, and no longer candidates.\<close>

definition drop_candidate :: "bool \<Rightarrow> ptr \<Rightarrow> 'c chain_state \<Rightarrow> 'c chain_state" where
  "drop_candidate fFailedChain p s = erase_candidate p
     (if fFailedChain then mark_status BLOCK_FAILED_CHILD p s
      else s\<lparr>mapBlocksUnlinked := mapBlocksUnlinked s @ [(pprev (heap s p), p)]\<rparr>)"

definition better_invalid :: "ptr \<Rightarrow> 'c chain_state \<Rightarrow> 'c chain_state" where
  "better_invalid p s = (case pindexBestInvalid s of
     None \<Rightarrow> s\<lparr>pindexBestInvalid := Some p\<rparr>
   | Some q \<Rightarrow> if op_less (nChainWork (heap s q)) (nChainWork (heap s p)) then s\<lparr>pindexBestInvalid := Some p\<rparr> else s)"

text \<open>One round of the outer loop: the result, or the next round.\<close>

definition most_work_round :: "('c chain_state, ptr option option) step" where
  "most_work_round s = (case setBlockIndexCandidates s of
     [] \<Rightarrow> ret (Some None) s
   | _ \<Rightarrow> let pindexNew = last (setBlockIndexCandidates s) in
       bind (gets (\<lambda>s. lift_loop (usable_walk (heap s) (chainActive s) (Some pindexNew) []))) (\<lambda>(passed, bad).
         case bad of
           None \<Rightarrow> ret (Some (Some pindexNew))
         | Some pindexTest \<Rightarrow> bind (alter (\<lambda>s.
             let fFailedChain = has_failed (heap s pindexTest);
                 s = (if fFailedChain then better_invalid pindexNew s else s)
             in erase_candidate pindexTest (fold (drop_candidate fFailedChain) passed s))) (\<lambda>_. ret None)) s)"

partial_function (option) most_work_loop :: "'c chain_state \<Rightarrow> (chain_error + ptr option \<times> 'c chain_state) option" where
  "most_work_loop s = (case most_work_round s of
     Inl e \<Rightarrow> Some (Inl e)
   | Inr (Some r, s') \<Rightarrow> Some (Inr (r, s'))
   | Inr (None, s') \<Rightarrow> most_work_loop s')"

definition FindMostWorkChain :: "('c chain_state, ptr option) step" where
  "FindMostWorkChain s = lift_loop (most_work_loop s)"

text \<open>The candidates below the tip are dropped; the tip or a block with more work has to stay.\<close>

definition PruneBlockIndexCandidates :: "('c chain_state, unit) step" where
  "PruneBlockIndexCandidates s =
     (if setBlockIndexCandidates s = [] then fail AssertionFailed s
      else bind (deref (Tip (chainActive s))) (\<lambda>tip.
        bind (alter (\<lambda>s. s\<lparr>setBlockIndexCandidates := dropWhile (\<lambda>p. work_less s p tip) (setBlockIndexCandidates s)\<rparr>)) (\<lambda>_ s.
        if setBlockIndexCandidates s = [] then fail AssertionFailed s else ret () s)) s)"

section \<open>Warnings\<close>

definition IsInitialBlockDownload :: "'c activation_env \<Rightarrow> ('c chain_state, bool) step" where
  "IsInitialBlockDownload E = (\<lambda>s.
     if Busy E \<or> Height (chainActive s) < GetTotalBlocksEstimate E then ret True s
     else if lockIBDState s then ret False s
     else bind (deref (pindexBestHeader s)) (\<lambda>best s.
       let st = (Height (chainActive s) < nHeight (heap s best) - 24 * 6 \<or> uint (bTime (heap s best)) < Now E - 6 * 60 * 60)
       in ret st (if st then s else s\<lparr>lockIBDState := True\<rparr>)) s)"

definition work_times :: "ptr \<Rightarrow> u32 \<Rightarrow> ('s node_scheme, uint256) step" where
  "work_times p k = gets (\<lambda>s. case lift_uint (GetBlockProof (heap s p)) of Inl e \<Rightarrow> Inl e | Inr w \<Rightarrow> Inr (op_mul32 w k))"

definition CheckForkWarningConditions :: "'c activation_env \<Rightarrow> ('c chain_state, unit) step" where
  "CheckForkWarningConditions E = bind (IsInitialBlockDownload E) (\<lambda>ibd s.
     if ibd then ret () s
     else
       let s = (case pindexBestForkTip s of
                  Some p \<Rightarrow> if Height (chainActive s) - nHeight (heap s p) \<ge> 72 then s\<lparr>pindexBestForkTip := None\<rparr> else s
                | None \<Rightarrow> s)
       in bind (case (pindexBestForkTip s, pindexBestInvalid s) of
            (Some p, _) \<Rightarrow> ret True
          | (None, None) \<Rightarrow> ret False
          | (None, Some q) \<Rightarrow> bind (deref (Tip (chainActive s))) (\<lambda>tip. bind (work_times tip 6) (\<lambda>w s.
              ret (op_less (op_add (nChainWork (heap s tip)) w) (nChainWork (heap s q))) s)))
          (\<lambda>warn. alter (\<lambda>s.
            if \<not> warn then s\<lparr>fLargeWorkForkFound := False, fLargeWorkInvalidChainFound := False\<rparr>
            else if pindexBestForkTip s \<noteq> None \<and> pindexBestForkBase s \<noteq> None then s\<lparr>fLargeWorkForkFound := True\<rparr>
            else s\<lparr>fLargeWorkInvalidChainFound := True\<rparr>)) s)"

text \<open>The two nested loops that look for the fork: the inner one lowers the longer chain.\<close>

partial_function (option) lower_walk :: "store \<Rightarrow> int \<Rightarrow> ptr option \<Rightarrow> ptr option option" where
  "lower_walk H h plonger = (case plonger of
     None \<Rightarrow> Some None
   | Some q \<Rightarrow> if nHeight (H q) > h then lower_walk H h (pprev (H q)) else Some (Some q))"

partial_function (option) fork_walk :: "store \<Rightarrow> ptr option \<Rightarrow> ptr option \<Rightarrow> ptr option option" where
  "fork_walk H pfork plonger = (case pfork of
     None \<Rightarrow> Some None
   | Some p \<Rightarrow> if pfork = plonger then Some pfork
       else Option.bind (lower_walk H (nHeight (H p)) plonger) (\<lambda>plonger.
         if pfork = plonger then Some pfork else fork_walk H (pprev (H p)) plonger))"

definition CheckForkWarningConditionsOnNewFork :: "'c activation_env \<Rightarrow> ptr \<Rightarrow> ('c chain_state, unit) step" where
  "CheckForkWarningConditionsOnNewFork E pnew =
     bind (\<lambda>s. gets (\<lambda>s. case fork_walk (heap s) (Some pnew) (Tip (chainActive s)) of None \<Rightarrow> Inl Diverges | Some r \<Rightarrow> Inr r) s) (\<lambda>pfork.
     bind (case pfork of
         None \<Rightarrow> ret ()
       | Some f \<Rightarrow> (\<lambda>s.
           if (case pindexBestForkTip s of None \<Rightarrow> True | Some p \<Rightarrow> nHeight (heap s pnew) > nHeight (heap s p))
           then bind (work_times f 7) (\<lambda>w s.
             ret () (if op_less w (op_sub (nChainWork (heap s pnew)) (nChainWork (heap s f)))
                \<and> Height (chainActive s) - nHeight (heap s pnew) < 72
               then s\<lparr>pindexBestForkTip := Some pnew, pindexBestForkBase := Some f\<rparr> else s)) s
           else ret () s))
       (\<lambda>_. CheckForkWarningConditions E))"

text \<open>The log of an invalid chain names the tip, which has to be there.\<close>

definition InvalidChainFound :: "'c activation_env \<Rightarrow> ptr \<Rightarrow> ('c chain_state, unit) step" where
  "InvalidChainFound E p = bind (alter (better_invalid p)) (\<lambda>_.
     bind (\<lambda>s. deref (Tip (chainActive s)) s) (\<lambda>_. CheckForkWarningConditions E))"

definition InvalidBlockFound :: "'c activation_env \<Rightarrow> ptr \<Rightarrow> CValidationState \<Rightarrow> ('c chain_state, unit) step" where
  "InvalidBlockFound E p v =
     (if corruptionPossible v then ret ()
      else bind (alter (\<lambda>s. erase_candidate p (mark_dirty p (mark_status BLOCK_FAILED_VALID p s)))) (\<lambda>_. InvalidChainFound E p))"

section \<open>Connecting and disconnecting a tip\<close>

text \<open>What \<open>ConnectBlock\<close> writes into the entry of the block; \<open>cr_undo\<close> is the place of the undo data, once it came to writing them.\<close>

definition money_entry :: "(int \<times> int) option \<Rightarrow> CBlockIndex \<Rightarrow> CBlockIndex" where
  "money_entry m b = (case m of None \<Rightarrow> b | Some (supply, mint) \<Rightarrow> b\<lparr>nMoneySupply := supply, nMint := mint\<rparr>)"

definition undo_written :: "CBlockIndex \<Rightarrow> bool" where
  "undo_written b \<longleftrightarrow> fst (GetUndoPos b) \<noteq> -1"

definition undo_entry :: "u32 \<Rightarrow> CBlockIndex \<Rightarrow> CBlockIndex" where
  "undo_entry pos b = snd (RaiseValidity BLOCK_VALID_SCRIPTS
     (if undo_written b then b else b\<lparr>nUndoPos := pos, nStatus := nStatus b OR 16\<rparr>))"

definition ConnectBlock :: "'c activation_env \<Rightarrow> CBlock \<Rightarrow> ptr \<Rightarrow> bool \<Rightarrow> ('c chain_state, bool) vstep" where
  "ConnectBlock E block p fAlreadyChecked = (\<lambda>s.
     let r = ConnectChecks E block p fAlreadyChecked s; b = money_entry (cr_money r) (heap s p); s = s\<lparr>chainstate := cr_chainstate r\<rparr> in
     ret (cr_ok r, cr_state r) (case cr_undo r of
       Some pos \<Rightarrow> if \<not> undo_written b \<or> \<not> IsValid b BLOCK_VALID_SCRIPTS
         then mark_dirty p (s\<lparr>heap := (heap s)(p := undo_entry pos b)\<rparr>) else s\<lparr>heap := (heap s)(p := b)\<rparr>
     | None \<Rightarrow> s\<lparr>heap := (heap s)(p := b)\<rparr>))"

text \<open>The new tip is logged, so it has to be there; the question about the initial download may set its latch.\<close>

definition UpdateTip :: "'c activation_env \<Rightarrow> ptr option \<Rightarrow> ('c chain_state, unit) step" where
  "UpdateTip E pindexNew =
     bind (\<lambda>s. gets (\<lambda>s. case SetTip (heap s) (chainActive s) pindexNew of None \<Rightarrow> Inl Diverges | Some v \<Rightarrow> Inr v) s) (\<lambda>v.
     bind (alter (\<lambda>s. s\<lparr>chainActive := v\<rparr>)) (\<lambda>_.
     bind (deref pindexNew) (\<lambda>_. bind (IsInitialBlockDownload E) (\<lambda>_. ret ()))))"

definition DisconnectTip :: "'c activation_env \<Rightarrow> CValidationState \<Rightarrow> ('c chain_state, bool) vstep" where
  "DisconnectTip E v = (\<lambda>s. case Tip (chainActive s) of
     None \<Rightarrow> fail AssertionFailed s
   | Some p \<Rightarrow> (case ReadBlockFromDisk E (heap s p) of
       None \<Rightarrow> ret (False, StateError ''Failed to read block'' v) s
     | Some block \<Rightarrow> (case DisconnectCoins E block p s of
         None \<Rightarrow> ret (False, v) s
       | Some c \<Rightarrow> if DiskFull E c then ret (False, StateError ''out of disk space'' v) (s\<lparr>chainstate := c\<rparr>)
           else bind (UpdateTip E (pprev (heap s p))) (\<lambda>_. ret (True, v)) (s\<lparr>chainstate := c\<rparr>))))"

definition ConnectTip :: "'c activation_env \<Rightarrow> ptr \<Rightarrow> CBlock option \<Rightarrow> bool \<Rightarrow> CValidationState \<Rightarrow> ('c chain_state, bool) vstep" where
  "ConnectTip E p pblock fAlreadyChecked v = (\<lambda>s.
     if pprev (heap s p) \<noteq> Tip (chainActive s) then fail AssertionFailed s
     else case (case pblock of Some b \<Rightarrow> Some b | None \<Rightarrow> ReadBlockFromDisk E (heap s p)) of
       None \<Rightarrow> ret (False, StateError ''Failed to read block'' v) s
     | Some block \<Rightarrow> bind (ConnectBlock E block p (pblock \<noteq> None \<and> fAlreadyChecked)) (\<lambda>(ok, v).
         if \<not> ok then bind (if mode v = MODE_INVALID then InvalidBlockFound E p v else ret ()) (\<lambda>_. ret (False, v))
         else (\<lambda>s. if DiskFull E (chainstate s) then ret (False, StateError ''out of disk space'' v) s
           else bind (UpdateTip E (Some p)) (\<lambda>_. ret (True, v)) s)) s)"

section \<open>Activating the best chain\<close>

text \<open>Disconnecting down to the fork.\<close>

partial_function (option) disconnect_loop ::
  "'c activation_env \<Rightarrow> ptr option \<Rightarrow> CValidationState \<Rightarrow> 'c chain_state \<Rightarrow> (chain_error + (bool \<times> CValidationState) \<times> 'c chain_state) option" where
  "disconnect_loop E fork v s =
     (if Tip (chainActive s) = None \<or> Tip (chainActive s) = fork then Some (Inr ((True, v), s))
      else case DisconnectTip E v s of
        Inl e \<Rightarrow> Some (Inl e)
      | Inr ((ok, v'), s') \<Rightarrow> if ok then disconnect_loop E fork v' s' else Some (Inr ((False, v'), s')))"

text \<open>The blocks to connect, from the highest to the lowest.\<close>

partial_function (option) blocks_above :: "store \<Rightarrow> int \<Rightarrow> ptr option \<Rightarrow> ptr list option" where
  "blocks_above H h pindexIter = (case pindexIter of
     None \<Rightarrow> Some []
   | Some p \<Rightarrow> if nHeight (H p) = h then Some []
       else Option.bind (blocks_above H h (pprev (H p))) (\<lambda>ps. Some (p # ps)))"

datatype progress = Connecting | Progressed | InvalidFound | Stopped

text \<open>Connecting them in order; \<open>lowest\<close> is the lowest of the batch, named when one of them is found invalid.\<close>

primrec connect_blocks ::
  "'c activation_env \<Rightarrow> ptr \<Rightarrow> CBlock option \<Rightarrow> bool \<Rightarrow> ptr option \<Rightarrow> ptr \<Rightarrow> ptr list \<Rightarrow> CValidationState \<Rightarrow> ('c chain_state, progress) vstep" where
  "connect_blocks E most pblock checked old lowest [] v = ret (Connecting, v)"
| "connect_blocks E most pblock checked old lowest (p # ps) v =
     bind (ConnectTip E p (if p = most then pblock else None) checked v) (\<lambda>(ok, v).
       if \<not> ok then
         (if mode v = MODE_INVALID
          then bind (if corruptionPossible v then ret () else InvalidChainFound E lowest) (\<lambda>_. ret (InvalidFound, NewState))
          else ret (Stopped, v))
       else bind PruneBlockIndexCandidates (\<lambda>_ s.
         bind (case old of
             None \<Rightarrow> ret True
           | Some o' \<Rightarrow> bind (deref (Tip (chainActive s))) (\<lambda>tip s. ret (op_less (nChainWork (heap s o')) (nChainWork (heap s tip))) s))
           (\<lambda>better. if better then ret (Progressed, v) else connect_blocks E most pblock checked old lowest ps v) s))"

text \<open>Batches of at most 32 blocks; the result names the lowest block of the batch in which one was invalid.\<close>

partial_function (option) connect_loop ::
  "'c activation_env \<Rightarrow> ptr \<Rightarrow> CBlock option \<Rightarrow> bool \<Rightarrow> ptr option \<Rightarrow> int \<Rightarrow> CValidationState \<Rightarrow> 'c chain_state
     \<Rightarrow> (chain_error + ((progress \<times> ptr option) \<times> CValidationState) \<times> 'c chain_state) option" where
  "connect_loop E most pblock checked old h v s =
     (if h = nHeight (heap s most) then Some (Inr (((Connecting, None), v), s))
      else let target = min (h + 32) (nHeight (heap s most)) in
        Option.bind (blocks_above (heap s) h (GetAncestor (heap s) most target)) (\<lambda>vpindexToConnect.
          if vpindexToConnect = [] then connect_loop E most pblock checked old target v s
          else let lowest = last vpindexToConnect in
          case connect_blocks E most pblock checked old lowest (rev vpindexToConnect) v s of
            Inl e \<Rightarrow> Some (Inl e)
          | Inr ((r, v'), s') \<Rightarrow> if r = Connecting then connect_loop E most pblock checked old target v' s'
              else Some (Inr (((r, Some lowest), v'), s'))))"

definition ActivateBestChainStep ::
  "'c activation_env \<Rightarrow> ptr \<Rightarrow> CBlock option \<Rightarrow> bool \<Rightarrow> CValidationState \<Rightarrow> ('c chain_state, bool) vstep" where
  "ActivateBestChainStep E most pblock fAlreadyChecked v = (\<lambda>s.
     let old = Tip (chainActive s); checked = (pblock \<noteq> None \<and> fAlreadyChecked) in
     bind (gets (\<lambda>s. case FindFork (heap s) (chainActive s) most of None \<Rightarrow> Inl Diverges | Some f \<Rightarrow> Inr f)) (\<lambda>fork.
     bind (\<lambda>s. lift_loop (disconnect_loop E fork v s)) (\<lambda>(ok, v).
     if \<not> ok then ret (False, v)
     else bind (\<lambda>s. lift_loop (connect_loop E most pblock checked old (case fork of None \<Rightarrow> -1 | Some f \<Rightarrow> nHeight (heap s f)) v s))
       (\<lambda>((r, lowest), v).
       if r = Stopped then ret (False, v)
       else bind (case lowest of
           Some l \<Rightarrow> if r = InvalidFound then CheckForkWarningConditionsOnNewFork E l else CheckForkWarningConditions E
         | None \<Rightarrow> CheckForkWarningConditions E) (\<lambda>_. ret (True, v))))) s)"

text \<open>One round of \<open>ActivateBestChain\<close>: the result when it returns, or the validation state for the next round.\<close>

definition activate_round ::
  "'c activation_env \<Rightarrow> CBlock option \<Rightarrow> bool \<Rightarrow> CValidationState \<Rightarrow> ('c chain_state, bool option) vstep" where
  "activate_round E pblock fAlreadyChecked v =
     bind FindMostWorkChain (\<lambda>most s. case most of
       None \<Rightarrow> ret (Some True, v) s
     | Some m \<Rightarrow> if Tip (chainActive s) = Some m then ret (Some True, v) s
       else bind (ActivateBestChainStep E m
           (case pblock of Some b \<Rightarrow> if BlockHash E b = phashBlock (heap s m) then Some b else None | None \<Rightarrow> None) fAlreadyChecked v) (\<lambda>(ok, v).
         if \<not> ok then ret (Some False, v)
         else bind (IsInitialBlockDownload E) (\<lambda>ibd.
           bind (\<lambda>s. if ibd then ret () s else bind (deref (Tip (chainActive s))) (\<lambda>_. ret ()) s) (\<lambda>_ s.
           if Tip (chainActive s) \<noteq> Some m then ret (None, v) s
           else if DiskFull E (chainstate s) then ret (Some False, StateError ''out of disk space'' v) s
           else ret (Some True, v) s))) s)"

partial_function (option) activate_loop ::
  "'c activation_env \<Rightarrow> CBlock option \<Rightarrow> bool \<Rightarrow> CValidationState \<Rightarrow> 'c chain_state
     \<Rightarrow> (chain_error + (bool \<times> CValidationState) \<times> 'c chain_state) option" where
  "activate_loop E pblock fAlreadyChecked v s = (case activate_round E pblock fAlreadyChecked v s of
     Inl e \<Rightarrow> Some (Inl e)
   | Inr ((Some r, v'), s') \<Rightarrow> Some (Inr ((r, v'), s'))
   | Inr ((None, v'), s') \<Rightarrow> activate_loop E pblock fAlreadyChecked v' s')"

definition ActivateBestChain :: "'c activation_env \<Rightarrow> CBlock option \<Rightarrow> bool \<Rightarrow> CValidationState \<Rightarrow> ('c chain_state, bool) vstep" where
  "ActivateBestChain E pblock fAlreadyChecked v = (\<lambda>s. lift_loop (activate_loop E pblock fAlreadyChecked v s))"

section \<open>Invalidating and reconsidering a block\<close>

partial_function (option) invalidate_loop ::
  "'c activation_env \<Rightarrow> ptr \<Rightarrow> CValidationState \<Rightarrow> 'c chain_state \<Rightarrow> (chain_error + (bool \<times> CValidationState) \<times> 'c chain_state) option" where
  "invalidate_loop E p v s =
     (if \<not> Contains (heap s) (chainActive s) p then Some (Inr ((True, v), s))
      else case Tip (chainActive s) of
        None \<Rightarrow> Some (Inl NullDereference)
      | Some tip \<Rightarrow> (case DisconnectTip E v (erase_candidate tip (mark_dirty tip (mark_status BLOCK_FAILED_CHILD tip s))) of
          Inl e \<Rightarrow> Some (Inl e)
        | Inr ((ok, v'), s') \<Rightarrow> if ok then invalidate_loop E p v' s' else Some (Inr ((False, v'), s'))))"

text \<open>The map is walked in an order that the container chooses: \<open>order\<close> lists its hashes. A \<open>NULL\<close> in it is dereferenced.\<close>

definition not_worse :: "'c chain_state \<Rightarrow> ptr \<Rightarrow> chain_error + bool" where
  "not_worse s p = (case Tip (chainActive s) of None \<Rightarrow> Inl NullDereference | Some tip \<Rightarrow> Inr (\<not> work_less s p tip))"

primrec readd_candidates :: "uint256 list \<Rightarrow> ('c chain_state, unit) step" where
  "readd_candidates [] = ret ()"
| "readd_candidates (h # hs) = (\<lambda>s. bind (deref (case mapBlockIndex s h of None \<Rightarrow> None | Some e \<Rightarrow> e)) (\<lambda>p.
     bind (if IsValid (heap s p) BLOCK_VALID_TRANSACTIONS \<and> nChainTx (heap s p) \<noteq> 0
       then bind (gets (\<lambda>s. not_worse s p)) (\<lambda>good. alter (if good then insert_candidate p else id)) else ret ()) (\<lambda>_.
     readd_candidates hs)) s)"

definition InvalidateBlock :: "'c activation_env \<Rightarrow> uint256 list \<Rightarrow> CValidationState \<Rightarrow> ptr \<Rightarrow> ('c chain_state, bool) vstep" where
  "InvalidateBlock E order v p =
     bind (alter (\<lambda>s. erase_candidate p (mark_dirty p (mark_status BLOCK_FAILED_VALID p s)))) (\<lambda>_.
     bind (\<lambda>s. lift_loop (invalidate_loop E p v s)) (\<lambda>(ok, v).
     if \<not> ok then ret (False, v)
     else bind (readd_candidates order) (\<lambda>_. bind (InvalidChainFound E p) (\<lambda>_. ret (True, v)))))"

definition clear_failed :: "ptr \<Rightarrow> 'c chain_state \<Rightarrow> 'c chain_state" where
  "clear_failed p s = mark_dirty p (s\<lparr>heap := (heap s)(p := (heap s p)\<lparr>nStatus := nStatus (heap s p) AND NOT BLOCK_FAILED_MASK\<rparr>)\<rparr>)"

definition reconsider_entry :: "ptr \<Rightarrow> int \<Rightarrow> ptr \<Rightarrow> ('c chain_state, unit) step" where
  "reconsider_entry pindex h p = (\<lambda>s.
     if \<not> IsValid (heap s p) BLOCK_VALID_TRANSACTIONS \<and> GetAncestor (heap s) p h = Some pindex
     then bind (alter (clear_failed p)) (\<lambda>_.
       bind (\<lambda>s. if IsValid (heap s p) BLOCK_VALID_TRANSACTIONS \<and> nChainTx (heap s p) \<noteq> 0
         then bind (deref (Tip (chainActive s))) (\<lambda>tip. alter (\<lambda>s. if work_less s tip p then insert_candidate p s else s)) s else ret () s) (\<lambda>_.
       alter (\<lambda>s. if pindexBestInvalid s = Some p then s\<lparr>pindexBestInvalid := None\<rparr> else s))) s
     else ret () s)"

primrec reconsider_entries :: "ptr \<Rightarrow> int \<Rightarrow> uint256 list \<Rightarrow> ('c chain_state, unit) step" where
  "reconsider_entries pindex h [] = ret ()"
| "reconsider_entries pindex h (x # xs) = (\<lambda>s. bind (deref (case mapBlockIndex s x of None \<Rightarrow> None | Some e \<Rightarrow> e)) (\<lambda>p.
     bind (reconsider_entry pindex h p) (\<lambda>_. reconsider_entries pindex h xs)) s)"

partial_function (option) clear_ancestors :: "ptr option \<Rightarrow> 'c chain_state \<Rightarrow> 'c chain_state option" where
  "clear_ancestors pindex s = (case pindex of
     None \<Rightarrow> Some s
   | Some p \<Rightarrow> clear_ancestors (pprev (heap s p)) (if has_failed (heap s p) then clear_failed p s else s))"

definition ReconsiderBlock :: "uint256 list \<Rightarrow> CValidationState \<Rightarrow> ptr \<Rightarrow> ('c chain_state, bool) vstep" where
  "ReconsiderBlock order v p = (\<lambda>s.
     bind (reconsider_entries p (nHeight (heap s p)) order) (\<lambda>_.
     bind (\<lambda>s. case clear_ancestors (Some p) s of None \<Rightarrow> Inl Diverges | Some s' \<Rightarrow> Inr ((), s')) (\<lambda>_. ret (True, v))) s)"

section \<open>Receiving the transactions of a block\<close>

text \<open>
  The queue of blocks that can now be connected: each gets its number of transactions and its sequence number, becomes a
  candidate, and releases the blocks that waited for it.
\<close>

definition link_block :: "ptr \<Rightarrow> 'c chain_state \<Rightarrow> ptr list \<times> 'c chain_state" where
  "link_block p s =
     (let total = (case pprev (heap s p) of None \<Rightarrow> 0 | Some q \<Rightarrow> nChainTx (heap s q)) + nTx (heap s p);
          s = s\<lparr>heap := (heap s)(p := (heap s p)\<lparr>nChainTx := total\<rparr>), nSequenceId := (nSequenceId s)(p := nBlockSequenceId s),
                nBlockSequenceId := nBlockSequenceId s + 1\<rparr>;
          s = (if (case Tip (chainActive s) of None \<Rightarrow> True | Some tip \<Rightarrow> \<not> work_less s p tip) then insert_candidate p s else s);
          waiting = map snd (filter (\<lambda>e. fst e = Some p) (mapBlocksUnlinked s))
      in (waiting, s\<lparr>mapBlocksUnlinked := filter (\<lambda>e. fst e \<noteq> Some p) (mapBlocksUnlinked s)\<rparr>))"

partial_function (option) link_queue :: "ptr list \<Rightarrow> 'c chain_state \<Rightarrow> 'c chain_state option" where
  "link_queue queue s = (case queue of
     [] \<Rightarrow> Some s
   | p # ps \<Rightarrow> (case link_block p s of (waiting, s') \<Rightarrow> link_queue (ps @ waiting) s'))"

definition received_entry :: "CBlock \<Rightarrow> int \<times> u32 \<Rightarrow> CBlockIndex \<Rightarrow> CBlockIndex" where
  "received_entry block pos b =
     (let b = (if IsProofOfStake block then IndexSetProofOfStake b else b)
      in snd (RaiseValidity BLOCK_VALID_TRANSACTIONS (b\<lparr>nTx := of_nat (length (vtx block)), nChainTx := 0, nFile := fst pos,
        nDataPos := snd pos, nUndoPos := 0, nStatus := nStatus b OR 8\<rparr>)))"

definition ReceivedBlockTransactions :: "CBlock \<Rightarrow> CValidationState \<Rightarrow> ptr \<Rightarrow> int \<times> u32 \<Rightarrow> ('c chain_state, bool) vstep" where
  "ReceivedBlockTransactions block v p pos =
     bind (alter (\<lambda>s. mark_dirty p (s\<lparr>heap := (heap s)(p := received_entry block pos (heap s p))\<rparr>))) (\<lambda>_.
     bind (\<lambda>s. case pprev (heap s p) of
         None \<Rightarrow> (case link_queue [p] s of None \<Rightarrow> Inl Diverges | Some s' \<Rightarrow> Inr ((), s'))
       | Some q \<Rightarrow> if nChainTx (heap s q) \<noteq> 0 then (case link_queue [p] s of None \<Rightarrow> Inl Diverges | Some s' \<Rightarrow> Inr ((), s'))
           else alter (\<lambda>s. if IsValid (heap s q) BLOCK_VALID_TREE then s\<lparr>mapBlocksUnlinked := mapBlocksUnlinked s @ [(Some q, p)]\<rparr> else s) s) (\<lambda>_.
     ret (True, v)))"

end
