(* ===== verification/Chain_Frame.thy ===== *)
theory Chain_Frame
  imports Chain_State "HOL-Library.Sublist"
begin

text \<open>
  What the activation of a chain leaves as it is: the tree of blocks and its work never change, candidates are only dropped,
  and a block that has failed stays so; and what a state must satisfy for the activation to return.
\<close>

section \<open>The order of the candidates\<close>

definition work_key :: "'c chain_state \<Rightarrow> ptr \<Rightarrow> nat \<times> int \<times> int" where
  "work_key s p = (val (nChainWork (heap s p)), - uint (nSequenceId s p), - int p)"

definition key_less :: "nat \<times> int \<times> int \<Rightarrow> nat \<times> int \<times> int \<Rightarrow> bool" where
  "key_less a b \<longleftrightarrow> fst a < fst b \<or> fst a = fst b \<and> (fst (snd a) < fst (snd b) \<or> fst (snd a) = fst (snd b) \<and> snd (snd a) < snd (snd b))"

definition works_sized :: "'c chain_state \<Rightarrow> bool" where
  "works_sized s \<longleftrightarrow> (\<forall>p<next_free s. length (nChainWork (heap s p)) = 8)"

lemma work_less_key:
  assumes "works_sized s" "a < next_free s" "b < next_free s"
  shows "work_less s a b \<longleftrightarrow> key_less (work_key s a) (work_key s b)"
proof -
  have "op_less (nChainWork (heap s x)) (nChainWork (heap s y)) \<longleftrightarrow> val (nChainWork (heap s x)) < val (nChainWork (heap s y))"
    if "x < next_free s" "y < next_free s" for x y using assms(1) that op_less_val by (simp add: works_sized_def)
  then show ?thesis using assms(2,3) by (auto simp: work_less_def key_less_def work_key_def word_less_def uint_word_ariths)
qed

lemma key_less_order: "\<not> key_less a a" "key_less a b \<Longrightarrow> key_less b c \<Longrightarrow> key_less a c" "key_less a b \<Longrightarrow> \<not> key_less b a"
  by (auto simp: key_less_def)

lemma key_less_total: "work_key s a = work_key s b \<Longrightarrow> a = b" "a \<noteq> b \<Longrightarrow> key_less (work_key s a) (work_key s b) \<or> key_less (work_key s b) (work_key s a)"
  by (auto simp: key_less_def work_key_def)

section \<open>Frames\<close>

definition same_entry :: "CBlockIndex \<Rightarrow> CBlockIndex \<Rightarrow> bool" where
  "same_entry b b' \<longleftrightarrow> core b' = core b \<and> nChainWork b' = nChainWork b \<and> nChainTx b' = nChainTx b \<and> bTime b' = bTime b
     \<and> has_data b' = has_data b \<and> nFile b' = nFile b \<and> nDataPos b' = nDataPos b \<and> (has_failed b \<longrightarrow> has_failed b')"

definition same_index :: "'c chain_state \<Rightarrow> 'c chain_state \<Rightarrow> bool" where
  "same_index s s' \<longleftrightarrow> next_free s' = next_free s \<and> mapBlockIndex s' = mapBlockIndex s \<and> nSequenceId s' = nSequenceId s
     \<and> pindexBestHeader s' = pindexBestHeader s \<and> (\<forall>p. same_entry (heap s p) (heap s' p))
     \<and> subseq (setBlockIndexCandidates s') (setBlockIndexCandidates s)"

lemma same_entry_refl [simp]: "same_entry b b"
  by (simp add: same_entry_def)

lemma same_index_refl [simp]: "same_index s s"
  by (simp add: same_index_def)

lemma same_index_trans: "same_index s s' \<Longrightarrow> same_index s' s'' \<Longrightarrow> same_index s s''"
  unfolding same_index_def same_entry_def using subseq_order.order_trans by (auto intro: subseq_order.order_trans)

interpretation same: step_frame same_index
  by unfold_locales (simp, rule same_index_trans)

lemma same_work_less: "same_index s s' \<Longrightarrow> work_less s' a b = work_less s a b"
  by (simp add: work_less_def same_index_def same_entry_def)

lemma word_status:
  fixes x :: u32
  shows "(x OR 64) AND 96 = (x AND 96) OR 64" "(x OR 32) AND 96 = (x AND 96) OR 32" "(x OR 64) AND 8 = x AND 8" "(x OR 32) AND 8 = x AND 8"
    "(x OR 16) AND 8 = x AND 8" "(x OR 16) AND 96 = x AND 96"
    "((x AND - 8) OR 5) AND 96 = x AND 96" "((x AND - 8) OR 5) AND 8 = x AND 8"
  by (simp_all add: word_ao_dist word_bw_assocs)

lemma core_status [simp]: "core (b\<lparr>nStatus := u\<rparr>) = core b" "core (b\<lparr>nUndoPos := q\<rparr>) = core b" "core (b\<lparr>nMoneySupply := m, nMint := k\<rparr>) = core b"
  by (simp_all add: core_def)

lemma same_status:
  "same_entry b (b\<lparr>nStatus := nStatus b OR 64\<rparr>)" "same_entry b (b\<lparr>nStatus := nStatus b OR 32\<rparr>)"
  "has_failed (b\<lparr>nStatus := nStatus b OR 64\<rparr>)" "has_failed (b\<lparr>nStatus := nStatus b OR 32\<rparr>)"
  by (auto simp: same_entry_def has_failed_def has_data_def word_status or_eq_0_iff)

lemma same_connected: "same_entry b (money_entry m b)" "same_entry b (undo_entry q b)"
  "has_failed (money_entry m b) = has_failed b" "has_failed (undo_entry q b) = has_failed b"
  by (auto simp: same_entry_def has_failed_def has_data_def money_entry_def undo_entry_def RaiseValidity_def word_status split: option.split)

lemma same_entry_trans: "same_entry a b \<Longrightarrow> same_entry b c \<Longrightarrow> same_entry a c"
  by (simp add: same_entry_def)

text \<open>Updates of the state that keep the index.\<close>

lemma same_heap: "same_entry (heap s p) b \<Longrightarrow> same_index s (s\<lparr>heap := (heap s)(p := b)\<rparr>)"
  by (simp add: same_index_def)

lemma same_updates:
  "same_index s (erase_candidate p s)" "same_index s (mark_status BLOCK_FAILED_CHILD p s)" "same_index s (mark_status BLOCK_FAILED_VALID p s)"
  "same_index s (mark_dirty p s)" "same_index s (better_invalid p s)" "same_index s (s\<lparr>chainActive := v\<rparr>)" "same_index s (s\<lparr>chainstate := c\<rparr>)"
  "same_index s (s\<lparr>mapBlocksUnlinked := u\<rparr>)" "same_index s (s\<lparr>lockIBDState := l\<rparr>)" "same_index s (s\<lparr>pindexBestForkTip := ft\<rparr>)"
  "same_index s (s\<lparr>pindexBestForkTip := ft, pindexBestForkBase := fb\<rparr>)" "same_index s (s\<lparr>fLargeWorkInvalidChainFound := x\<rparr>)"
  "same_index s (s\<lparr>fLargeWorkForkFound := y, fLargeWorkInvalidChainFound := x\<rparr>)" "same_index s (s\<lparr>fLargeWorkForkFound := y\<rparr>)"
  "same_index s (s\<lparr>setBlockIndexCandidates := dropWhile P (setBlockIndexCandidates s)\<rparr>)"
  by (simp_all add: same_index_def erase_candidate_def mark_status_def mark_dirty_def better_invalid_def same_status
      suffix_imp_subseq suffix_dropWhile split: option.split)

lemma same_alter: "same_index s (f s) \<Longrightarrow> ends_in same_index s (alter f s)"
  by (simp add: ends_in_def alter_def)

lemma same_then: "same_index s t \<Longrightarrow> ends_in same_index t r \<Longrightarrow> ends_in same_index s r"
  using same_index_trans by (auto simp: ends_in_def)

lemma same_drop: "same_index s (drop_candidate b p s)" "same_index s (fold (drop_candidate b) ps s)"
proof -
  have one: "same_index s (drop_candidate b p s)" for p and s :: "'a chain_state"
  proof -
    have "same_index s (if b then mark_status BLOCK_FAILED_CHILD p s
      else s\<lparr>mapBlocksUnlinked := mapBlocksUnlinked s @ [(pprev (heap s p), p)]\<rparr>)" by (simp add: same_updates)
    from same_index_trans [OF this same_updates(1)] show ?thesis by (simp only: drop_candidate_def)
  qed
  then show "same_index s (drop_candidate b p s)" .
  show "same_index s (fold (drop_candidate b) ps s)"
    by (induction ps arbitrary: s) (simp, use one same_index_trans in fastforce)
qed

section \<open>Every step keeps the index\<close>

lemma most_work_round_same: "ends_in same_index s (most_work_round s)"
proof -
  have m: "same_index s (erase_candidate t (fold (drop_candidate b) ps (if b then better_invalid n s else s)))" for t b ps n and s :: "'c chain_state"
    by (rule same_index_trans [OF same_index_trans [OF _ same_drop(2)] same_updates(1)]) (simp add: same_updates)
  show ?thesis unfolding most_work_round_def Let_def
    by (intro same.frame_rules same_alter m)
qed

lemma IsInitial_same: "ends_in same_index s (IsInitialBlockDownload E s)"
  unfolding IsInitialBlockDownload_def Let_def
  by (intro same.frame_rules) (auto simp: ends_in_def same_updates)

lemma work_times_same: "ends_in same_index s (work_times p k s)"
  unfolding work_times_def by (intro same.frame_rules)

lemma CheckFork_same: "ends_in same_index s (CheckForkWarningConditions E s)"
proof -
  have t: "same_index s (case pindexBestForkTip s of Some p \<Rightarrow> if Height (chainActive s) - nHeight (heap s p) \<ge> 72 then s\<lparr>pindexBestForkTip := None\<rparr> else s
      | None \<Rightarrow> s)" for s :: "'c chain_state" by (simp add: same_updates split: option.split)
  have m: "same_index s (if \<not> b then s\<lparr>fLargeWorkForkFound := False, fLargeWorkInvalidChainFound := False\<rparr>
      else if pindexBestForkTip s \<noteq> None \<and> pindexBestForkBase s \<noteq> None then s\<lparr>fLargeWorkForkFound := True\<rparr>
      else s\<lparr>fLargeWorkInvalidChainFound := True\<rparr>)" for s :: "'c chain_state" and b by (simp add: same_updates)
  have c: "ends_in same_index s ((case (ft, iv) of (Some p, _) \<Rightarrow> ret True | (None, None) \<Rightarrow> ret False
      | (None, Some q) \<Rightarrow> bind (deref tp) (\<lambda>tip. bind (work_times tip 6) (\<lambda>w s.
              ret (op_less (op_add (nChainWork (heap s tip)) w) (nChainWork (heap s q))) s))) s)"
    for s :: "'c chain_state" and ft iv tp
    by (cases ft; cases iv; simp only: prod.case option.case) (intro same.frame_rules work_times_same)+
  show ?thesis unfolding CheckForkWarningConditions_def
  proof (rule same.bind [OF IsInitial_same], rule same.cond(1), rule same.ret)
    fix ibd and s' :: "'c chain_state"
    let ?t = "case pindexBestForkTip s' of Some p \<Rightarrow> if Height (chainActive s') - nHeight (heap s' p) \<ge> 72 then s'\<lparr>pindexBestForkTip := None\<rparr> else s'
      | None \<Rightarrow> s'"
    show "ends_in same_index s' (let s = ?t in bind (case (pindexBestForkTip s, pindexBestInvalid s) of (Some p, _) \<Rightarrow> ret True | (None, None) \<Rightarrow> ret False
      | (None, Some q) \<Rightarrow> bind (deref (Tip (chainActive s))) (\<lambda>tip. bind (work_times tip 6) (\<lambda>w s.
              ret (op_less (op_add (nChainWork (heap s tip)) w) (nChainWork (heap s q))) s)))
          (\<lambda>warn. alter (\<lambda>s.
            if \<not> warn then s\<lparr>fLargeWorkForkFound := False, fLargeWorkInvalidChainFound := False\<rparr>
            else if pindexBestForkTip s \<noteq> None \<and> pindexBestForkBase s \<noteq> None then s\<lparr>fLargeWorkForkFound := True\<rparr>
            else s\<lparr>fLargeWorkInvalidChainFound := True\<rparr>)) s)"
      unfolding Let_def
      by (rule same_then [OF t], rule same.bind [OF c], rule same_alter [OF m])
  qed
qed

lemma CheckNewFork_same: "ends_in same_index s (CheckForkWarningConditionsOnNewFork E p s)"
  unfolding CheckForkWarningConditionsOnNewFork_def
  by (intro same.frame_rules CheckFork_same work_times_same) (auto simp: ends_in_def same_updates)

lemma InvalidChain_same: "ends_in same_index s (InvalidChainFound E p s)"
  unfolding InvalidChainFound_def by (intro same.frame_rules same_alter same_updates CheckFork_same)

lemma mark_invalid_same: "same_index s (erase_candidate p (mark_dirty p (mark_status BLOCK_FAILED_VALID p s)))"
  by (rule same_index_trans [OF same_index_trans [OF same_updates(3) same_updates(4)] same_updates(1)])

lemma InvalidBlock_same: "ends_in same_index s (InvalidBlockFound E p v s)"
  unfolding InvalidBlockFound_def by (intro same.frame_rules same_alter mark_invalid_same InvalidChain_same)

lemma UpdateTip_same: "ends_in same_index s (UpdateTip E p s)"
  unfolding UpdateTip_def by (intro same.frame_rules same_alter same_updates IsInitial_same)

lemma DisconnectTip_same: "ends_in same_index s (DisconnectTip E v s)"
proof -
  have c: "ends_in same_index s (m (s\<lparr>chainstate := c\<rparr>))" if "ends_in same_index (s\<lparr>chainstate := c\<rparr>) (m (s\<lparr>chainstate := c\<rparr>))"
    for c and m :: "'a chain_state \<Rightarrow> chain_error + (bool \<times> CValidationState) \<times> 'a chain_state"
    by (rule same_then [OF same_updates(7) that])
  show ?thesis unfolding DisconnectTip_def
    by (intro same.cond(1) same.choice(1) same.fail same.ret c) (intro same.frame_rules UpdateTip_same)
qed

lemma ConnectBlock_same: "ends_in same_index s (ConnectBlock E block p a s)"
proof -
  have "same_index s (s\<lparr>chainstate := c, heap := (heap s)(p := b)\<rparr>)" "same_index s (mark_dirty p (s\<lparr>chainstate := c, heap := (heap s)(p := b)\<rparr>))"
    if "same_entry (heap s p) b" for b c
    using same_index_trans [OF same_updates(7) same_heap] same_index_trans [OF same_index_trans [OF same_updates(7) same_heap] same_updates(4)]
      that by simp_all
  then show ?thesis unfolding ConnectBlock_def Let_def
    by (auto simp: ends_in_def same_connected same_entry_trans [OF same_connected(1) same_connected(2)] split: option.splits if_splits)
qed

lemma ConnectTip_same: "ends_in same_index s (ConnectTip E p pb a v s)"
  unfolding ConnectTip_def by (intro same.frame_rules ConnectBlock_same InvalidBlock_same UpdateTip_same)

lemma Prune_same: "ends_in same_index s (PruneBlockIndexCandidates s)"
  unfolding PruneBlockIndexCandidates_def by (intro same.frame_rules same_alter same_updates)

lemma connect_blocks_same: "ends_in same_index s (connect_blocks E most pb a old lo ps v s)"
  by (induction ps arbitrary: s v)
    (simp_all only: connect_blocks.simps, (intro same.frame_rules ConnectTip_same Prune_same InvalidChain_same; assumption?)+)

end
