(* ===== verification/Chain_Steps.thy ===== *)
theory Chain_Steps
  imports Chain_Frame
begin

text \<open>
  \<open>ActivateBestChain\<close> returns: in a state whose candidates are linked to the active chain it ends without an error, whatever
  blocks turn out to be invalid, and when it succeeds no candidate is better than the new tip.
\<close>

section \<open>States from which a chain can be activated\<close>

definition linked :: "'c chain_state \<Rightarrow> ptr \<Rightarrow> bool" where
  "linked s p \<longleftrightarrow> (\<forall>h \<le> height_of (heap s) p. \<forall>q. anc (heap s) p h = Some q \<longrightarrow> nChainTx (heap s q) \<noteq> 0 \<or> h = 0)"

definition works_grow :: "'c chain_state \<Rightarrow> bool" where
  "works_grow s \<longleftrightarrow> (\<forall>p<next_free s. \<forall>q. pprev (heap s p) = Some q \<longrightarrow> val (nChainWork (heap s q)) < val (nChainWork (heap s p)))"

definition one_root :: "'c chain_state \<Rightarrow> bool" where
  "one_root s \<longleftrightarrow> (\<exists>g. \<forall>p<next_free s. pprev (heap s p) = None \<longrightarrow> p = g)"

definition act_ok :: "'c chain_state \<Rightarrow> bool" where
  "act_ok s \<longleftrightarrow> index_ok s \<and> chainActive s \<noteq> [] \<and> works_grow s \<and> one_root s \<and> sorted_wrt (work_less s) (setBlockIndexCandidates s)
     \<and> (\<forall>p\<in>set (setBlockIndexCandidates s). p < next_free s \<and> linked s p)"

lemma subseq_set: "subseq xs ys \<Longrightarrow> set xs \<subseteq> set ys"
  by (induction rule: list_emb.induct) auto

lemma sorted_wrt_subseq: "subseq xs ys \<Longrightarrow> sorted_wrt R ys \<Longrightarrow> sorted_wrt R xs"
proof (induction rule: list_emb.induct)
  case (list_emb_Cons2 x y xs ys)
  then show ?case using list_emb_set [OF list_emb_Cons2(2)] by auto
qed auto

lemma same_core: "same_index s s' \<Longrightarrow> core (heap s' p) = core (heap s p)"
  by (simp add: same_index_def same_entry_def)

lemma same_anc:
  assumes "same_index s s'"
  shows "anc (heap s') p h = anc (heap s) p h" "height_of (heap s') p = height_of (heap s) p" "chain_of (heap s') p = chain_of (heap s) p"
proof -
  have f: "pprev (heap s' x) = pprev (heap s x)" "nHeight (heap s' x) = nHeight (heap s x)" for x
    using core_fields [OF same_core [OF assms]] by simp_all
  have n: "nth_parent (heap s') k q = nth_parent (heap s) k q" for k q
    by (induction k arbitrary: q) (simp_all add: f split: option.split)
  then show a: "anc (heap s') p h = anc (heap s) p h" for h by (simp add: anc_def height_of_def f)
  show "height_of (heap s') p = height_of (heap s) p" by (simp add: height_of_def f)
  then show "chain_of (heap s') p = chain_of (heap s) p" by (simp add: chain_of_def anc_def n)
qed

lemma act_ok_parts:
  assumes "act_ok s"
  shows "block_tree (heap s) {..<next_free s}" "works_sized s" "pindexBestHeader s \<noteq> None"
    "\<exists>t<next_free s. chainActive s = chain_of (heap s) t \<and> Tip (chainActive s) = Some t"
proof -
  have i: "index_ok s" "chainActive s \<noteq> []" using assms by (simp_all add: act_ok_def)
  then show tree: "block_tree (heap s) {..<next_free s}" and "works_sized s" by (simp_all add: index_ok_def works_sized_def work_ok_def)
  obtain t where t: "t < next_free s" "chainActive s = chain_of (heap s) t" using i by (auto simp: index_ok_def chain_ok_def)
  then show "pindexBestHeader s \<noteq> None" using i by (auto simp: index_ok_def best_ok_def split: option.splits)
  have "Tip (chainActive s) = Some t" using SetTip_chain [OF tree, of t "[]"] t by simp
  then show "\<exists>t<next_free s. chainActive s = chain_of (heap s) t \<and> Tip (chainActive s) = Some t" using t by blast
qed

lemma act_ok_step:
  assumes "act_ok s" "same_index s s'" "t < next_free s" "chainActive s' = chain_of (heap s) t"
  shows "act_ok s'"
proof -
  have c: "core (heap s' x) = core (heap s x)" "nChainWork (heap s' x) = nChainWork (heap s x)" "nChainTx (heap s' x) = nChainTx (heap s x)" for x
    using assms(2) by (simp_all add: same_index_def same_entry_def)
  note f = core_fields [OF c(1)]
  have n: "next_free s' = next_free s" "mapBlockIndex s' = mapBlockIndex s" "pindexBestHeader s' = pindexBestHeader s"
      "subseq (setBlockIndexCandidates s') (setBlockIndexCandidates s)" using assms(2) by (simp_all add: same_index_def)
  have i: "index_ok s" using assms(1) by (simp add: act_ok_def)
  have "block_tree (heap s') {..<next_free s'}" unfolding n by (rule block_tree_core [OF act_ok_parts(1) [OF assms(1)]]) (rule c)
  moreover have "map_ok s'" using i by (simp add: index_ok_def map_ok_def n f)
  moreover have "work_ok (heap s') p" if "p < next_free s'" for p
    using work_ok_core [of "heap s" p "heap s'"] f c i that n by (simp add: index_ok_def)
  moreover have "best_ok s'" using i by (simp add: index_ok_def best_ok_def n c split: option.splits)
  moreover have "chain_ok s'" using assms(3,4) same_anc(3) [OF assms(2)] n(1) by (auto simp: chain_ok_def)
  ultimately have "index_ok s'" by (simp add: index_ok_def)
  moreover have "works_grow s'" "one_root s'" using assms(1) by (simp_all add: act_ok_def works_grow_def one_root_def n f c)
  moreover have "sorted_wrt (work_less s') (setBlockIndexCandidates s')"
  proof -
    have "work_less s' = work_less s" by (intro ext) (rule same_work_less [OF assms(2)])
    then show ?thesis using sorted_wrt_subseq [OF n(4)] assms(1) by (simp add: act_ok_def)
  qed
  moreover have "set (setBlockIndexCandidates s') \<subseteq> set (setBlockIndexCandidates s)" by (rule subseq_set [OF n(4)])
  moreover have "linked s' p = linked s p" for p by (simp add: linked_def c same_anc [OF assms(2)])
  ultimately have "\<forall>p\<in>set (setBlockIndexCandidates s'). p < next_free s' \<and> linked s' p"
    "index_ok s'" "works_grow s'" "one_root s'" "sorted_wrt (work_less s') (setBlockIndexCandidates s')"
    using assms(1) by (auto simp: act_ok_def n)
  then show ?thesis using assms(4) by (simp add: act_ok_def chain_of_def)
qed

section \<open>Steps that return\<close>

definition runs :: "('a \<Rightarrow> 's \<Rightarrow> bool) \<Rightarrow> chain_error + 'a \<times> 's \<Rightarrow> bool" where
  "runs P r \<longleftrightarrow> (\<exists>x s'. r = Inr (x, s') \<and> P x s')"

lemma runs_simps [simp]: "runs P (Inr (x, s)) \<longleftrightarrow> P x s" "\<not> runs P (Inl e)"
  by (simp_all add: runs_def)

lemma runs_alter [simp]: "runs P (alter f s) \<longleftrightarrow> P () (f s)"
  by (simp add: alter_def)

lemma runsE: "runs P r \<Longrightarrow> (\<And>x s'. r = Inr (x, s') \<Longrightarrow> P x s' \<Longrightarrow> thesis) \<Longrightarrow> thesis"
  by (auto simp: runs_def)

lemma runs_mono: "runs Q r \<Longrightarrow> (\<And>x s'. Q x s' \<Longrightarrow> P x s') \<Longrightarrow> runs P r"
  by (auto simp: runs_def)

lemma runs_bind: "runs Q (m s) \<Longrightarrow> (\<And>x s'. Q x s' \<Longrightarrow> runs P (f x s')) \<Longrightarrow> runs P (Node_State.bind m f s)"
  by (auto simp: runs_def bind_def)

lemma runs_deref: "p = Some q \<Longrightarrow> runs (\<lambda>x s'. x = q \<and> s' = s) (deref p s)"
  by (simp add: deref_def)

lemma runs_gets: "f s = Inr x \<Longrightarrow> runs (\<lambda>y s'. y = x \<and> s' = s) (gets f s)"
  by (simp add: gets_def)

text \<open>The steps that warn leave what the choice of a chain depends on as it is.\<close>

definition quiet :: "'c chain_state \<Rightarrow> 'c chain_state \<Rightarrow> bool" where
  "quiet s s' \<longleftrightarrow> heap s' = heap s \<and> next_free s' = next_free s \<and> mapBlockIndex s' = mapBlockIndex s \<and> nSequenceId s' = nSequenceId s
     \<and> pindexBestHeader s' = pindexBestHeader s \<and> chainActive s' = chainActive s \<and> setBlockIndexCandidates s' = setBlockIndexCandidates s"

lemma quiet_refl [simp]: "quiet s s"
  by (simp add: quiet_def)

lemma quiet_trans: "quiet s s' \<Longrightarrow> quiet s' s'' \<Longrightarrow> quiet s s''"
  by (simp add: quiet_def)

lemma quiet_same: "quiet s s' \<Longrightarrow> same_index s s'"
  by (simp add: quiet_def same_index_def)

lemma quiet_act_ok: "act_ok s \<Longrightarrow> quiet s s' \<Longrightarrow> act_ok s'"
  using act_ok_parts(4) [of s] act_ok_step [OF _ quiet_same] by (metis quiet_def)

lemma IsInitial_runs: "pindexBestHeader s \<noteq> None \<Longrightarrow> runs (\<lambda>_. quiet s) (IsInitialBlockDownload E s)"
  by (auto simp: IsInitialBlockDownload_def bind_app deref_app Let_def quiet_def)

lemma work_times_runs: "runs (\<lambda>_ s'. s' = s) (work_times p k s)"
  using GetBlockProof_val [of "heap s p"] by (auto simp: work_times_def gets_def lift_uint_def)

lemma CheckFork_runs:
  assumes "pindexBestHeader s \<noteq> None" "Tip (chainActive s) \<noteq> None"
  shows "runs (\<lambda>_. quiet s) (CheckForkWarningConditions E s)"
proof -
  have t: "quiet s (case pindexBestForkTip s of Some p \<Rightarrow> if Height (chainActive s) - nHeight (heap s p) \<ge> 72 then s\<lparr>pindexBestForkTip := None\<rparr> else s
      | None \<Rightarrow> s)" for s :: "'a chain_state" by (simp add: quiet_def split: option.split)
  have c: "runs (\<lambda>_ s'. s' = t) ((case (ft, iv) of (Some p, _) \<Rightarrow> ret True | (None, None) \<Rightarrow> ret False
      | (None, Some q) \<Rightarrow> Node_State.bind (deref (Tip (chainActive t))) (\<lambda>tip. Node_State.bind (work_times tip 6) (\<lambda>w s.
              ret (op_less (op_add (nChainWork (heap s tip)) w) (nChainWork (heap s q))) s))) t)"
    if "Tip (chainActive t) \<noteq> None" for t :: "'a chain_state" and ft iv
    using that work_times_runs [of t "the (Tip (chainActive t))" 6] by (cases ft; cases iv) (auto simp: bind_app deref_app elim!: runsE split: option.splits)
  show ?thesis unfolding CheckForkWarningConditions_def
  proof (rule runs_bind, rule IsInitial_runs [OF assms(1)])
    fix ibd and s' :: "'a chain_state" assume s': "quiet s s'"
    let ?t = "case pindexBestForkTip s' of Some p \<Rightarrow> if Height (chainActive s') - nHeight (heap s' p) \<ge> 72 then s'\<lparr>pindexBestForkTip := None\<rparr> else s'
      | None \<Rightarrow> s'"
    have q: "quiet s ?t" by (rule quiet_trans [OF s' t])
    then have tip: "Tip (chainActive ?t) \<noteq> None" using assms(2) by (simp add: quiet_def)
    show "runs (\<lambda>_. quiet s) (if ibd then ret () s' else let s = ?t in Node_State.bind (case (pindexBestForkTip s, pindexBestInvalid s) of
          (Some p, _) \<Rightarrow> ret True | (None, None) \<Rightarrow> ret False
        | (None, Some q) \<Rightarrow> Node_State.bind (deref (Tip (chainActive s))) (\<lambda>tip. Node_State.bind (work_times tip 6) (\<lambda>w s.
              ret (op_less (op_add (nChainWork (heap s tip)) w) (nChainWork (heap s q))) s)))
          (\<lambda>warn. alter (\<lambda>s.
            if \<not> warn then s\<lparr>fLargeWorkForkFound := False, fLargeWorkInvalidChainFound := False\<rparr>
            else if pindexBestForkTip s \<noteq> None \<and> pindexBestForkBase s \<noteq> None then s\<lparr>fLargeWorkForkFound := True\<rparr>
            else s\<lparr>fLargeWorkInvalidChainFound := True\<rparr>)) s)"
      unfolding Let_def
      using s' by (cases ibd) (simp, simp only: if_False, rule runs_bind, rule c [OF tip], use q in \<open>simp add: quiet_def\<close>)
  qed
qed

lemma parent_cases:
  assumes "block_tree H A" "p \<in> A"
  shows "pprev (H p) = None \<or> (\<exists>q\<in>A. pprev (H p) = Some q \<and> height_of H p = Suc (height_of H q))"
proof (cases "pprev (H p)")
  case (Some q)
  then have "q \<in> A" "nHeight (H p) = nHeight (H q) + 1" "0 \<le> nHeight (H q)"
    using assms by (auto simp: block_tree_def entry_ok_def)
  then show ?thesis using Some by (simp add: height_of_def nat_add_distrib)
qed simp

lemma lower_walk_ends:
  assumes "block_tree H A"
  shows "set_option q \<subseteq> A \<Longrightarrow> \<exists>r. lower_walk H h q = Some r \<and> set_option r \<subseteq> A"
proof (induction "case q of None \<Rightarrow> 0 | Some x \<Rightarrow> Suc (height_of H x)" arbitrary: q rule: less_induct)
  case less
  show ?case
  proof (cases q)
    case (Some x)
    have x: "x \<in> A" using less.prems Some by simp
    have "\<exists>r. lower_walk H h (pprev (H x)) = Some r \<and> set_option r \<subseteq> A"
      by (rule less.hyps) (use parent_cases [OF assms x] Some in auto)
    then show ?thesis using Some x by (subst lower_walk.simps) auto
  qed (simp add: lower_walk.simps)
qed

lemma fork_walk_ends:
  assumes "block_tree H A"
  shows "set_option p \<subseteq> A \<Longrightarrow> set_option l \<subseteq> A \<Longrightarrow> \<exists>r. fork_walk H p l = Some r"
proof (induction "case p of None \<Rightarrow> 0 | Some x \<Rightarrow> Suc (height_of H x)" arbitrary: p l rule: less_induct)
  case less
  show ?case
  proof (cases p)
    case (Some x)
    have x: "x \<in> A" using less.prems Some by simp
    obtain l' where l': "lower_walk H (nHeight (H x)) l = Some l'" "set_option l' \<subseteq> A"
      using lower_walk_ends [OF assms less.prems(2)] by blast
    have "\<exists>r. fork_walk H (pprev (H x)) l' = Some r"
      by (rule less.hyps) (use parent_cases [OF assms x] Some l'(2) in auto)
    then show ?thesis using Some l'(1) by (subst fork_walk.simps) simp
  qed (simp add: fork_walk.simps)
qed

lemma act_ok_tip:
  assumes "act_ok s"
  obtains t where "t < next_free s" "chainActive s = chain_of (heap s) t" "Tip (chainActive s) = Some t"
  using act_ok_parts(4) [OF assms] by blast

lemma CheckNewFork_runs:
  assumes "act_ok s" "p < next_free s"
  shows "runs (\<lambda>_. quiet s) (CheckForkWarningConditionsOnNewFork E p s)"
proof -
  note tree = act_ok_parts(1) [OF assms(1)]
  obtain t where t: "t < next_free s" "Tip (chainActive s) = Some t" using act_ok_tip [OF assms(1)] by blast
  have hb: "pindexBestHeader s \<noteq> None" using act_ok_parts(3) [OF assms(1)] .
  obtain r where r: "fork_walk (heap s) (Some p) (Some t) = Some r"
    using fork_walk_ends [OF tree, of "Some p" "Some t"] assms(2) t(1) by auto
  have w: "runs (\<lambda>_. quiet s') (case r of None \<Rightarrow> ret () s' | Some f \<Rightarrow>
       (if (case pindexBestForkTip s' of None \<Rightarrow> True | Some q \<Rightarrow> nHeight (heap s' p) > nHeight (heap s' q))
        then Node_State.bind (work_times f 7) (\<lambda>w s. ret () (if op_less w (op_sub (nChainWork (heap s p)) (nChainWork (heap s f)))
                \<and> Height (chainActive s) - nHeight (heap s p) < 72
               then s\<lparr>pindexBestForkTip := Some p, pindexBestForkBase := Some f\<rparr> else s)) s'
        else ret () s'))" for s' :: "'a chain_state"
    using work_times_runs [of s' "the r" 7] by (auto simp: bind_app quiet_def elim!: runsE split: option.split)
  show ?thesis unfolding CheckForkWarningConditionsOnNewFork_def
  proof (rule runs_bind)
    show "runs (\<lambda>x s'. x = r \<and> s' = s) (gets (\<lambda>s. case fork_walk (heap s) (Some p) (Tip (chainActive s)) of
        None \<Rightarrow> Inl Diverges | Some r \<Rightarrow> Inr r) s)" by (simp add: gets_def t(2) r)
  next
    fix x s' assume "x = r \<and> s' = s"
    then have e: "x = r" "s' = s" by simp_all
    show "runs (\<lambda>_. quiet s) (Node_State.bind (case x of None \<Rightarrow> ret () | Some f \<Rightarrow> (\<lambda>s.
           if (case pindexBestForkTip s of None \<Rightarrow> True | Some q \<Rightarrow> nHeight (heap s p) > nHeight (heap s q))
           then Node_State.bind (work_times f 7) (\<lambda>w s. ret () (if op_less w (op_sub (nChainWork (heap s p)) (nChainWork (heap s f)))
                \<and> Height (chainActive s) - nHeight (heap s p) < 72
               then s\<lparr>pindexBestForkTip := Some p, pindexBestForkBase := Some f\<rparr> else s)) s
           else ret () s)) (\<lambda>_. CheckForkWarningConditions E) s')"
      unfolding e
    proof (rule runs_bind)
      show "runs (\<lambda>_. quiet s) ((case r of None \<Rightarrow> ret () | Some f \<Rightarrow> (\<lambda>s.
           if (case pindexBestForkTip s of None \<Rightarrow> True | Some q \<Rightarrow> nHeight (heap s p) > nHeight (heap s q))
           then Node_State.bind (work_times f 7) (\<lambda>w s. ret () (if op_less w (op_sub (nChainWork (heap s p)) (nChainWork (heap s f)))
                \<and> Height (chainActive s) - nHeight (heap s p) < 72
               then s\<lparr>pindexBestForkTip := Some p, pindexBestForkBase := Some f\<rparr> else s)) s
           else ret () s)) s)" using w [of s] by (cases r) simp_all
    next
      fix u s'' assume q: "quiet s s''"
      then have "runs (\<lambda>_. quiet s'') (CheckForkWarningConditions E s'')" using hb t(2) by (intro CheckFork_runs) (simp_all add: quiet_def)
      then show "runs (\<lambda>_. quiet s) (CheckForkWarningConditions E s'')" using quiet_trans [OF q] by (blast intro: runs_mono)
    qed
  qed
qed

lemma InvalidChain_runs:
  assumes "act_ok s"
  shows "runs (\<lambda>_. quiet s) (InvalidChainFound E p s)"
proof -
  obtain t where t: "Tip (chainActive s) = Some t" using act_ok_tip [OF assms] by blast
  have q: "quiet s (better_invalid p s)" by (simp add: better_invalid_def quiet_def split: option.split)
  then have "Tip (chainActive (better_invalid p s)) = Some t" "pindexBestHeader (better_invalid p s) \<noteq> None"
    using t act_ok_parts(3) [OF assms] by (simp_all add: quiet_def)
  moreover from this have "runs (\<lambda>_. quiet (better_invalid p s)) (CheckForkWarningConditions E (better_invalid p s))" by (simp add: CheckFork_runs)
  ultimately show ?thesis using quiet_trans [OF q] by (simp add: InvalidChainFound_def bind_app alter_def deref_app) (blast intro: runs_mono)
qed

end
