(* ===== verification/Chain_Activation.thy ===== *)
theory Chain_Activation
  imports Chain_Steps
begin

text \<open>
  Connecting the blocks on the path to the best candidate: moving the tip, the outcome of connecting one block, of a batch,
  and of all batches. None of them fails, and a block that turns out to be invalid is recorded as failed.
\<close>

section \<open>Moving the tip\<close>

definition moved :: "'c chain_state \<Rightarrow> ptr \<Rightarrow> 'c chain_state \<Rightarrow> bool" where
  "moved s t s' \<longleftrightarrow> quiet (s\<lparr>chainActive := chain_of (heap s) t\<rparr>) s'"

text \<open>
  The blocks that \<open>ConnectBlock\<close> can be given for an entry: the one on disk, and the one of the caller when its hash is that of the
  entry. An answer of invalid and possibly corrupt is not recorded as a failure; \<open>corrupt_block\<close> says that a block without a
  failure gets this answer when it follows on the tip of some chain over the same entries.
\<close>

definition block_of :: "'c activation_env \<Rightarrow> CBlock option \<Rightarrow> CBlockIndex \<Rightarrow> CBlock \<Rightarrow> bool" where
  "block_of E pblock b block \<longleftrightarrow> ReadBlockFromDisk E b = Some block \<or> pblock = Some block \<and> BlockHash E block = phashBlock b"

definition corrupt_answer :: "'c connect_result \<Rightarrow> bool" where
  "corrupt_answer r \<longleftrightarrow> \<not> cr_ok r \<and> mode (cr_state r) = MODE_INVALID \<and> corruptionPossible (cr_state r)"

definition corrupt_block :: "'c activation_env \<Rightarrow> CBlock option \<Rightarrow> 'c chain_state \<Rightarrow> ptr \<Rightarrow> bool" where
  "corrupt_block E pblock s p \<longleftrightarrow> \<not> has_failed (heap s p) \<and> (\<exists>block a s'. block_of E pblock (heap s p) block
     \<and> same_index s s' \<and> act_ok s' \<and> pprev (heap s p) = Tip (chainActive s') \<and> corrupt_answer (ConnectChecks E block p a s'))"

definition no_corruption :: "'c activation_env \<Rightarrow> CBlock option \<Rightarrow> 'c chain_state \<Rightarrow> bool" where
  "no_corruption E pblock s \<longleftrightarrow> (\<forall>p<next_free s. \<not> corrupt_block E pblock s p)"

lemma same_read: "same_entry b b' \<Longrightarrow> ReadBlockFromDisk E b' = ReadBlockFromDisk E b"
  using core_fields(1) [of b' b] by (simp add: ReadBlockFromDisk_def GetBlockPos_def same_entry_def has_data_def split: option.split)

lemma no_corruption_same:
  assumes "no_corruption E pblock s" "same_index s s'"
  shows "no_corruption E pblock s'"
proof -
  have e: "same_entry (heap s p) (heap s' p)" for p using assms(2) by (simp add: same_index_def)
  have f: "core (heap s' p) = core (heap s p)" "has_failed (heap s p) \<Longrightarrow> has_failed (heap s' p)" for p
    using e [of p] by (simp_all add: same_entry_def)
  have "corrupt_block E pblock s p" if c: "corrupt_block E pblock s' p" for p
  proof -
    have b: "block_of E pblock (heap s' p) block = block_of E pblock (heap s p) block" for block
      using same_read [OF e [of p], of E] core_fields(1) [OF f(1) [of p]] by (simp add: block_of_def)
    obtain block a t where t: "block_of E pblock (heap s' p) block" "same_index s' t" "act_ok t" "pprev (heap s' p) = Tip (chainActive t)"
        "corrupt_answer (ConnectChecks E block p a t)"
      using c unfolding corrupt_block_def by blast
    moreover have "\<not> has_failed (heap s p)" using c f(2) by (auto simp: corrupt_block_def)
    ultimately show ?thesis
      using b same_index_trans [OF assms(2) t(2)] core_fields(2) [OF f(1) [of p]] unfolding corrupt_block_def by metis
  qed
  then show ?thesis using assms by (auto simp: no_corruption_def same_index_def)
qed

lemma moved_facts:
  assumes "moved s t s'"
  shows "heap s' = heap s" "next_free s' = next_free s" "setBlockIndexCandidates s' = setBlockIndexCandidates s"
    "chainActive s' = chain_of (heap s) t" "same_index s s'"
proof -
  have "same_index (s\<lparr>chainActive := chain_of (heap s) t\<rparr>) s'" using assms quiet_same by (auto simp: moved_def)
  then show "same_index s s'" using same_index_trans [OF same_updates(6)] by blast
qed (use assms in \<open>simp_all add: moved_def quiet_def\<close>)

lemma moved_act_ok: "act_ok s \<Longrightarrow> t < next_free s \<Longrightarrow> moved s t s' \<Longrightarrow> act_ok s'"
  using act_ok_step [OF _ moved_facts(5)] moved_facts(4) by blast

lemma moved_trans: "moved s t s' \<Longrightarrow> moved s' u s'' \<Longrightarrow> moved s u s''"
  by (simp add: moved_def quiet_def)

lemma tip_chain_of:
  assumes "act_ok s" "t < next_free s"
  shows "Tip (chain_of (heap s) t) = Some t"
  using SetTip_chain [OF act_ok_parts(1) [OF assms(1)], of t "[]"] assms(2) by simp

lemma UpdateTip_runs:
  assumes "act_ok s" "p < next_free s"
  shows "runs (\<lambda>_. moved s p) (UpdateTip E (Some p) s)"
proof -
  obtain t where t: "t < next_free s" "chainActive s = chain_of (heap s) t" using act_ok_tip [OF assms(1)] by blast
  have "SetTip (heap s) (chainActive s) (Some p) = Some (chain_of (heap s) p)"
    using SetTip_chain [OF act_ok_parts(1) [OF assms(1)], of p "chainActive s"] assms(2) t by auto
  moreover have "runs (\<lambda>_. quiet (s\<lparr>chainActive := chain_of (heap s) p\<rparr>)) (IsInitialBlockDownload E (s\<lparr>chainActive := chain_of (heap s) p\<rparr>))"
    by (rule IsInitial_runs) (use act_ok_parts(3) [OF assms(1)] in simp)
  ultimately show ?thesis
    by (auto simp: UpdateTip_def bind_app gets_def alter_def deref_app moved_def elim!: runsE)
qed

lemma DisconnectTip_runs:
  assumes "act_ok s" "Tip (chainActive s) = Some t" "pprev (heap s t) = Some q" "q < next_free s"
  shows "runs (\<lambda>(ok, v') s'. if ok then moved s q s' else quiet s s') (DisconnectTip E v s)"
proof -
  have u: "runs (\<lambda>_. moved s q) (UpdateTip E (Some q) (s\<lparr>chainstate := c\<rparr>))" for c
  proof -
    have "quiet s (s\<lparr>chainstate := c\<rparr>)" by (simp add: quiet_def)
    then have "runs (\<lambda>_. moved (s\<lparr>chainstate := c\<rparr>) q) (UpdateTip E (Some q) (s\<lparr>chainstate := c\<rparr>))"
      using assms(4) by (intro UpdateTip_runs quiet_act_ok [OF assms(1)]) simp_all
    then show ?thesis by (rule runs_mono) (simp add: moved_def quiet_def)
  qed
  define P where "P = (\<lambda>(ok, v' :: CValidationState) s'. if ok then moved s q s' else quiet s s')"
  have b: "runs P (Node_State.bind (UpdateTip E (Some q)) (\<lambda>_. ret (True, v)) (s\<lparr>chainstate := c\<rparr>))" for c
    by (rule runs_bind, rule u) (simp add: P_def)
  have "P (False, v') s" "P (False, v') (s\<lparr>chainstate := c\<rparr>)" for c v' by (simp_all add: P_def quiet_def)
  then have "runs P (DisconnectTip E v s)" using assms(2,3) b by (simp add: DisconnectTip_def split: option.split)
  then show ?thesis by (simp only: P_def)
qed

lemma disconnect_loop_runs:
  assumes "act_ok s" "chainActive s = chain_of (heap s) t" "t < next_free s" "k \<le> height_of (heap s) t"
  shows "runs (\<lambda>(ok, v') s'. \<exists>q. q < next_free s \<and> moved s q s' \<and> (ok \<longrightarrow> anc (heap s) t k = Some q))
    (lift_loop (disconnect_loop E (anc (heap s) t k) v s))"
  using assms
proof (induction "height_of (heap s) t - k" arbitrary: s t v)
  case (0 s t v)
  then have "anc (heap s) t k = Some t" "Tip (chainActive s) = Some t" using tip_chain_of [of s t] by simp_all
  then show ?case using 0 by (subst disconnect_loop.simps) (auto simp: lift_loop_def moved_def quiet_def)
next
  case (Suc n s t v)
  note tree = act_ok_parts(1) [OF Suc.prems(1)]
  have tip: "Tip (chainActive s) = Some t" using tip_chain_of [of s t] Suc.prems by simp
  obtain q where q: "pprev (heap s t) = Some q" "q < next_free s" "height_of (heap s) t = Suc (height_of (heap s) q)"
  proof -
    have "anc (heap s) t (Suc (height_of (heap s) t - 1)) = Some t" using Suc.hyps(2) by simp
    from pprev_anc [OF tree _ this] have "pprev (heap s t) \<noteq> None" 
      using Suc.prems(3) Suc.hyps(2) anc_in_tree [OF tree, of t "height_of (heap s) t - 1"] by fastforce
    then show ?thesis using that parent_cases [OF tree, of t] Suc.prems(3) by auto
  qed
  obtain a where a: "anc (heap s) t k = Some a" "height_of (heap s) a = k" using anc_in_tree [OF tree, of t k] Suc.prems by auto
  have neq: "anc (heap s) t k \<noteq> Some t" using a Suc.hyps(2) by auto
  have tq: "anc (heap s) t (height_of (heap s) q) = Some q"
  proof -
    have "anc (heap s) t (Suc (height_of (heap s) q)) = Some t" using q(3) anc_self [of "heap s" t] by simp
    from pprev_anc [OF tree _ this] show ?thesis using q Suc.prems(3) by simp
  qed
  have aq: "anc (heap s) q k = anc (heap s) t k" using anc_anc [OF tq refl] q(3) Suc.hyps(2) by simp
  obtain ok v' s' where d: "DisconnectTip E v s = Inr ((ok, v'), s')" "if ok then moved s q s' else quiet s s'"
    using DisconnectTip_runs [OF Suc.prems(1) tip q(1,2), of E v] by (auto simp: runs_def)
  show ?case
  proof (cases ok)
    case True
    then have m: "moved s q s'" using d(2) by simp
    note f = moved_facts [OF m]
    have "runs (\<lambda>(ok, v') s''. \<exists>r. r < next_free s' \<and> moved s' r s'' \<and> (ok \<longrightarrow> anc (heap s') q k = Some r))
      (lift_loop (disconnect_loop E (anc (heap s') q k) v' s'))"
      by (rule Suc.hyps(1)) (use Suc.hyps(2) Suc.prems q f moved_act_ok [OF Suc.prems(1) q(2) m] in simp_all)
    then have "runs (\<lambda>(ok, v') s''. \<exists>r. r < next_free s \<and> moved s r s'' \<and> (ok \<longrightarrow> anc (heap s) t k = Some r))
      (lift_loop (disconnect_loop E (anc (heap s) t k) v' s'))"
      using f aq by (auto elim!: runs_mono intro: moved_trans [OF m])
    moreover have "disconnect_loop E (anc (heap s) t k) v s = disconnect_loop E (anc (heap s) t k) v' s'"
      using True d(1) tip neq by (subst disconnect_loop.simps) simp
    ultimately show ?thesis by simp
  next
    case False
    then have "moved s t s'" using d(2) Suc.prems(2) by (simp add: moved_def quiet_def)
    moreover have "disconnect_loop E (anc (heap s) t k) v s = Some (Inr ((False, v'), s'))"
      using False d(1) tip neq by (subst disconnect_loop.simps) simp
    ultimately show ?thesis using Suc.prems(3) by (auto simp: lift_loop_def)
  qed
qed

definition kept :: "'c chain_state \<Rightarrow> 'c chain_state \<Rightarrow> bool" where
  "kept s s' \<longleftrightarrow> same_index s s' \<and> setBlockIndexCandidates s' = setBlockIndexCandidates s
     \<and> (\<forall>x. has_failed (heap s' x) = has_failed (heap s x))"

lemma kept_trans: "kept s s' \<Longrightarrow> kept s' s'' \<Longrightarrow> kept s s''"
  using same_index_trans by (auto simp: kept_def)

lemma moved_kept: "moved s t s' \<Longrightarrow> kept s s'"
  using moved_facts [of s t s'] by (simp add: kept_def)

lemma quiet_kept: "quiet s s' \<Longrightarrow> kept s s'"
  using quiet_same [of s s'] by (simp add: kept_def quiet_def)

lemma ConnectBlock_runs:
  "runs (\<lambda>x s'. x = (cr_ok (ConnectChecks E block p a s), cr_state (ConnectChecks E block p a s)) \<and> kept s s' \<and> chainActive s' = chainActive s)
     (ConnectBlock E block p a s)"
proof -
  have "kept s (s\<lparr>chainstate := c, heap := (heap s)(p := b)\<rparr>)" "kept s (mark_dirty p (s\<lparr>chainstate := c, heap := (heap s)(p := b)\<rparr>))"
    if "same_entry (heap s p) b" "has_failed b = has_failed (heap s p)" for b c
    using that by (simp_all add: kept_def same_index_def mark_dirty_def)
  then show ?thesis
    by (auto simp: ConnectBlock_def Let_def same_connected same_entry_trans [OF same_connected(1) same_connected(2)] mark_dirty_def
      split: option.split)
qed

text \<open>The outcome of connecting a tip; the failure of a block is recorded in its entry.\<close>

definition tip_outcome :: "'c chain_state \<Rightarrow> ptr \<Rightarrow> bool \<times> CValidationState \<Rightarrow> 'c chain_state \<Rightarrow> bool" where
  "tip_outcome s p r s' \<longleftrightarrow> (if fst r then kept s s' \<and> chainActive s' = chain_of (heap s) p
     else same_index s s' \<and> chainActive s' = chainActive s
       \<and> (mode (snd r) = MODE_INVALID \<longrightarrow> has_failed (heap s' p) \<and> \<not> corruptionPossible (snd r)))"

lemma InvalidBlock_runs:
  assumes "act_ok s" "\<not> corruptionPossible v"
  shows "runs (\<lambda>_ s'. same_index s s' \<and> chainActive s' = chainActive s \<and> has_failed (heap s' p)) (InvalidBlockFound E p v s)"
proof -
  let ?s = "erase_candidate p (mark_dirty p (mark_status BLOCK_FAILED_VALID p s))"
  have f: "same_index s ?s" "chainActive ?s = chainActive s" "has_failed (heap ?s p)"
    using mark_invalid_same by (simp_all add: erase_candidate_def mark_dirty_def mark_status_def same_status)
  obtain t where "t < next_free s" "chainActive s = chain_of (heap s) t" using act_ok_tip [OF assms(1)] by blast
  then have "act_ok ?s" using act_ok_step [OF assms(1) f(1)] f(2) by simp
  then have "runs (\<lambda>_. quiet ?s) (InvalidChainFound E p ?s)" by (rule InvalidChain_runs)
  then have "runs (\<lambda>_ s'. same_index s s' \<and> chainActive s' = chainActive s \<and> has_failed (heap s' p)) (InvalidChainFound E p ?s)"
  proof (rule runs_mono)
    fix x s' assume q: "quiet ?s s'"
    show "same_index s s' \<and> chainActive s' = chainActive s \<and> has_failed (heap s' p)"
      using same_index_trans [OF f(1) quiet_same [OF q]] q f(2,3) by (simp add: quiet_def)
  qed
  then show ?thesis using assms(2) by (simp add: InvalidBlockFound_def bind_app alter_def)
qed

lemma ConnectTip_runs:
  assumes ok: "act_ok s" and p: "p < next_free s" "pprev (heap s p) = Tip (chainActive s)" "\<not> has_failed (heap s p)"
    and E: "no_corruption E given s" and given: "\<And>b. pblock = Some b \<Longrightarrow> given = Some b \<and> BlockHash E b = phashBlock (heap s p)"
  shows "runs (tip_outcome s p) (ConnectTip E p pblock a v s)"
proof -
  have body: "runs (tip_outcome s p) (Node_State.bind (ConnectBlock E block p b) (\<lambda>(ok, v).
         if \<not> ok then Node_State.bind (if mode v = MODE_INVALID then InvalidBlockFound E p v else ret ()) (\<lambda>_. ret (False, v))
         else (\<lambda>s. if DiskFull E (chainstate s) then ret (False, StateError ''out of disk space'' v) s
           else Node_State.bind (UpdateTip E (Some p)) (\<lambda>_. ret (True, v)) s)) s)" (is "runs _ (Node_State.bind _ ?f s)") if block: "block_of E given (heap s p) block" for block b
  proof (rule runs_bind)
    show "runs (\<lambda>x s'. x = (cr_ok (ConnectChecks E block p b s), cr_state (ConnectChecks E block p b s)) \<and> kept s s'
      \<and> chainActive s' = chainActive s) (ConnectBlock E block p b s)" by (rule ConnectBlock_runs)
  next
    fix x s' assume x: "x = (cr_ok (ConnectChecks E block p b s), cr_state (ConnectChecks E block p b s)) \<and> kept s s'
      \<and> chainActive s' = chainActive s"
    obtain ok v where ov: "x = (ok, v)" by (cases x)
    have si: "same_index s s'" and ca: "chainActive s' = chainActive s" using x by (simp_all add: kept_def)
    obtain t where "t < next_free s" "chainActive s = chain_of (heap s) t" using act_ok_tip [OF ok] by blast
    then have ok': "act_ok s'" using act_ok_step [OF ok si] ca by simp
    have nc: "\<not> ok \<Longrightarrow> mode v = MODE_INVALID \<Longrightarrow> \<not> corruptionPossible v"
    proof
      assume "\<not> ok" "mode v = MODE_INVALID" "corruptionPossible v"
      then have "corrupt_answer (ConnectChecks E block p b s)" using x ov by (auto simp: corrupt_answer_def)
      then have "corrupt_block E given s p" using block ok p(2,3) unfolding corrupt_block_def by (metis same_index_refl)
      then show False using E p(1) by (simp add: no_corruption_def)
    qed
    have inv: "runs (tip_outcome s p) (Node_State.bind (if mode v = MODE_INVALID then InvalidBlockFound E p v else ret ()) (\<lambda>_. ret (False, v)) s')"
      if "\<not> ok"
    proof (cases "mode v = MODE_INVALID")
      case True
      have "runs (\<lambda>_ s''. same_index s' s'' \<and> chainActive s'' = chainActive s' \<and> has_failed (heap s'' p)) (InvalidBlockFound E p v s')"
        by (rule InvalidBlock_runs [OF ok' nc [OF that True]])
      then show ?thesis using True nc [OF that True] same_index_trans [OF si] ca by (auto simp: bind_app tip_outcome_def elim!: runsE)
    qed (use si ca in \<open>simp add: bind_app tip_outcome_def\<close>)
    have up: "runs (tip_outcome s p) (Node_State.bind (UpdateTip E (Some p)) (\<lambda>_. ret (True, v)) s')"
    proof (rule runs_bind)
      show "runs (\<lambda>_. moved s' p) (UpdateTip E (Some p) s')" using UpdateTip_runs [OF ok'] p(1) si by (simp add: same_index_def)
      fix u s'' assume m: "moved s' p s''"
      then show "runs (tip_outcome s p) (ret (True, v) s'')"
        using kept_trans [OF _ moved_kept [OF m]] x moved_facts(4) [OF m] same_anc(3) [OF si] by (simp add: tip_outcome_def)
    qed
    have full: "tip_outcome s p (False, StateError ''out of disk space'' v) s'" using si ca by (simp add: tip_outcome_def StateError_def)
    show "runs (tip_outcome s p) (?f x s')" using inv up full by (simp add: ov)
  qed
  have "tip_outcome s p (False, StateError ''Failed to read block'' v) s" by (simp add: tip_outcome_def StateError_def)
  moreover have "block_of E given (heap s p) block" if "(case pblock of Some b \<Rightarrow> Some b | None \<Rightarrow> ReadBlockFromDisk E (heap s p)) = Some block" for block
    using that given by (auto simp: block_of_def split: option.splits)
  ultimately show ?thesis using body by (auto simp: ConnectTip_def p(2) split: option.split)
qed

section \<open>On the path to the best candidate\<close>

definition on_path :: "'c chain_state \<Rightarrow> ptr \<Rightarrow> nat \<Rightarrow> bool" where
  "on_path s m k \<longleftrightarrow> act_ok s \<and> setBlockIndexCandidates s \<noteq> [] \<and> last (setBlockIndexCandidates s) = m \<and> k \<le> height_of (heap s) m
     \<and> chainActive s = chain_of (heap s) (the (anc (heap s) m k))
     \<and> (\<forall>h. k < h \<longrightarrow> h \<le> height_of (heap s) m \<longrightarrow> \<not> has_failed (heap s (the (anc (heap s) m h))))"

lemma best_in_use: "on_path s m k \<Longrightarrow> m < next_free s"
  using last_in_set [of "setBlockIndexCandidates s"] by (auto simp: on_path_def act_ok_def)

lemma anc_work:
  assumes "act_ok s" "p < next_free s"
  shows "h \<le> height_of (heap s) p \<Longrightarrow> anc (heap s) p h = Some a \<Longrightarrow> a = p \<or> val (nChainWork (heap s a)) < val (nChainWork (heap s p))"
proof (induction "height_of (heap s) p - h" arbitrary: h a)
  case 0
  then have "h = height_of (heap s) p" by simp
  then show ?case using 0 anc_self [of "heap s" p] by simp
next
  case (Suc n)
  note tree = act_ok_parts(1) [OF assms(1)]
  have h: "Suc h \<le> height_of (heap s) p" using Suc.hyps(2) by simp
  then obtain b where b: "anc (heap s) p (Suc h) = Some b" "b < next_free s" using anc_in_tree [OF tree, of p "Suc h"] assms(2) by auto
  have "pprev (heap s b) = Some a" using pprev_anc [OF tree _ b(1) h] assms(2) Suc.prems(2) by simp
  then have "val (nChainWork (heap s a)) < val (nChainWork (heap s b))" using assms(1) b(2) by (simp add: act_ok_def works_grow_def)
  moreover have "b = p \<or> val (nChainWork (heap s b)) < val (nChainWork (heap s p))" using Suc.hyps(1) [OF _ h b(1)] Suc.hyps(2) by simp
  ultimately show ?case by auto
qed

lemma not_below_ancestor:
  assumes "act_ok s" "p < next_free s" "h \<le> height_of (heap s) p" "anc (heap s) p h = Some a"
  shows "\<not> work_less s p a"
proof -
  have "a < next_free s" using anc_in_tree [OF act_ok_parts(1) [OF assms(1)], of p h] assms(2-4) by fastforce
  then have "work_less s p a \<longleftrightarrow> key_less (work_key s p) (work_key s a)"
    using work_less_key [OF act_ok_parts(2) [OF assms(1)] assms(2)] by simp
  then show ?thesis using anc_work [OF assms] by (auto simp: key_less_def work_key_def)
qed

lemma last_dropWhile: "xs \<noteq> [] \<Longrightarrow> \<not> P (last xs) \<Longrightarrow> dropWhile P xs \<noteq> [] \<and> last (dropWhile P xs) = last xs"
  by (induction xs) auto

lemma Prune_runs:
  assumes "act_ok s" "Tip (chainActive s) = Some t" "setBlockIndexCandidates s \<noteq> []" "\<not> work_less s (last (setBlockIndexCandidates s)) t"
  shows "runs (\<lambda>_ s'. same_index s s' \<and> chainActive s' = chainActive s \<and> heap s' = heap s \<and> setBlockIndexCandidates s' \<noteq> []
      \<and> last (setBlockIndexCandidates s') = last (setBlockIndexCandidates s)) (PruneBlockIndexCandidates s)"
  using assms(2,3) last_dropWhile [OF assms(3), of "\<lambda>p. work_less s p t"] assms(4) same_updates(15) [of s]
  by (simp add: PruneBlockIndexCandidates_def bind_app deref_app alter_def)

definition blocks_outcome :: "'c chain_state \<Rightarrow> ptr \<Rightarrow> nat \<Rightarrow> nat \<Rightarrow> progress \<times> CValidationState \<Rightarrow> 'c chain_state \<Rightarrow> bool" where
  "blocks_outcome s m k j r s' \<longleftrightarrow> same_index s s' \<and> act_ok s' \<and> (case fst r of
      Connecting \<Rightarrow> on_path s' m j
    | Progressed \<Rightarrow> (\<exists>i. k < i \<and> i \<le> j \<and> on_path s' m i)
    | InvalidFound \<Rightarrow> Tip (chainActive s') \<noteq> Some m \<and> (\<exists>x<next_free s. \<not> has_failed (heap s x) \<and> has_failed (heap s' x))
    | Stopped \<Rightarrow> True)"

lemma on_path_tip:
  assumes "on_path s m k"
  obtains t where "t < next_free s" "anc (heap s) m k = Some t" "Tip (chainActive s) = Some t" "height_of (heap s) t = k" "chainActive s = chain_of (heap s) t"
proof -
  have ok: "act_ok s" and m: "m \<in> {..<next_free s}" and k: "k \<le> height_of (heap s) m" using assms best_in_use [OF assms] by (auto simp: on_path_def)
  obtain t where t: "anc (heap s) m k = Some t" "t < next_free s" "height_of (heap s) t = k" using anc_in_tree [OF act_ok_parts(1) [OF ok] m k] by auto
  moreover have "chainActive s = chain_of (heap s) t" using assms t by (simp add: on_path_def)
  ultimately show ?thesis using that tip_chain_of [OF ok t(2)] by simp
qed

lemma on_path_next:
  assumes "on_path s m k" "k < height_of (heap s) m"
  obtains p where "anc (heap s) m (Suc k) = Some p" "p < next_free s" "pprev (heap s p) = Tip (chainActive s)" "\<not> has_failed (heap s p)"
proof -
  note tree = act_ok_parts(1) [of s]
  have ok: "act_ok s" and m: "m \<in> {..<next_free s}" using assms(1) best_in_use [OF assms(1)] by (auto simp: on_path_def)
  obtain p where p: "anc (heap s) m (Suc k) = Some p" "p < next_free s" using anc_in_tree [OF tree [OF ok] m, of "Suc k"] assms(2) by auto
  obtain t where t: "anc (heap s) m k = Some t" "Tip (chainActive s) = Some t" using on_path_tip [OF assms(1)] by blast
  have "pprev (heap s p) = Tip (chainActive s)" using pprev_anc [OF tree [OF ok] m p(1)] assms(2) t by simp
  moreover have "\<not> has_failed (heap s p)" using assms p(1) unfolding on_path_def by (metis Suc_leI lessI option.sel)
  ultimately show ?thesis using that p by simp
qed

text \<open>A connected block is one step on the path.\<close>

lemma on_path_connected:
  assumes "on_path s m k" "k < height_of (heap s) m" "anc (heap s) m (Suc k) = Some p"
    "kept s s'" "chainActive s' = chain_of (heap s) p"
  shows "on_path s' m (Suc k)"
proof -
  have si: "same_index s s'" and c: "setBlockIndexCandidates s' = setBlockIndexCandidates s" and f: "has_failed (heap s' x) = has_failed (heap s x)" for x
    using assms(4) by (simp_all add: kept_def)
  have "p < next_free s" using on_path_next [OF assms(1,2)] assms(3) by auto
  then have "act_ok s'" using act_ok_step [OF _ si _ assms(5)] assms(1) by (simp add: on_path_def)
  then show ?thesis using assms by (auto simp: on_path_def c f same_anc [OF si])
qed

lemma on_path_pruned:
  assumes "on_path s m k" "same_index s s'" "chainActive s' = chainActive s" "heap s' = heap s" "setBlockIndexCandidates s' \<noteq> []"
    "last (setBlockIndexCandidates s') = m"
  shows "on_path s' m k"
proof -
  obtain t where "anc (heap s) m k = Some t" "t < next_free s" using on_path_tip [OF assms(1)] by blast
  then have "act_ok s'" using act_ok_step [OF _ assms(2), of t] assms(1,3) by (simp add: on_path_def)
  then show ?thesis using assms by (simp add: on_path_def)
qed

text \<open>A block is handed on only to the entry that has its hash.\<close>

definition handed :: "'c activation_env \<Rightarrow> CBlock option \<Rightarrow> CBlock option \<Rightarrow> CBlockIndex \<Rightarrow> bool" where
  "handed E given pblock b \<longleftrightarrow> (\<forall>block. pblock = Some block \<longrightarrow> given = Some block \<and> BlockHash E block = phashBlock b)"

lemma handed_same: "handed E given pblock (heap s m) \<Longrightarrow> same_index s s' \<Longrightarrow> handed E given pblock (heap s' m)"
  using core_fields(1) [of "heap s' m" "heap s m"] by (simp add: handed_def same_index_def same_entry_def)

lemma connect_blocks_runs:
  shows "on_path s m k \<Longrightarrow> no_corruption E given s \<Longrightarrow> handed E given pblock (heap s m) \<Longrightarrow> k \<le> j \<Longrightarrow> j \<le> height_of (heap s) m \<Longrightarrow>
    runs (blocks_outcome s m k j) (connect_blocks E m pblock checked old lowest (map (\<lambda>h. the (anc (heap s) m h)) [Suc k..<Suc j]) v s)"
proof (induction "j - k" arbitrary: k s v)
  case 0
  then show ?case by (simp add: blocks_outcome_def on_path_def)
next
  case (Suc n k s v)
  have kj: "k < j" using Suc.hyps(2) by simp
  have k: "k < height_of (heap s) m" using kj Suc.prems(5) by simp
  have ok: "act_ok s" using Suc.prems(1) by (simp add: on_path_def)
  obtain p where p: "anc (heap s) m (Suc k) = Some p" "p < next_free s" "pprev (heap s p) = Tip (chainActive s)" "\<not> has_failed (heap s p)"
    using on_path_next [OF Suc.prems(1) k] by blast
  let ?ps = "map (\<lambda>h. the (anc (heap s) m h)) [Suc (Suc k)..<Suc j]"
  have list: "map (\<lambda>h. the (anc (heap s) m h)) [Suc k..<Suc j] = p # ?ps" using kj p(1) by (simp add: upt_conv_Cons del: upt_Suc)
  show ?case unfolding list connect_blocks.simps
  proof (rule runs_bind)
    show "runs (tip_outcome s p) (ConnectTip E p (if p = m then pblock else None) checked v s)" 
      by (rule ConnectTip_runs [OF ok p(2-4) Suc.prems(2)]) (use Suc.prems(3) in \<open>auto simp: handed_def split: if_splits\<close>)
  next
    fix x s' assume o: "tip_outcome s p x s'"
    obtain b v where x: "x = (b, v)" by (cases x)
    have si: "same_index s s'" using o by (simp add: tip_outcome_def kept_def split: if_splits)
    show "runs (blocks_outcome s m k j) ((case x of (ok, v) \<Rightarrow>
       if \<not> ok then
         (if mode v = MODE_INVALID
          then Node_State.bind (if corruptionPossible v then ret () else InvalidChainFound E lowest) (\<lambda>_. ret (InvalidFound, NewState))
          else ret (Stopped, v))
       else Node_State.bind PruneBlockIndexCandidates (\<lambda>_ s.
         Node_State.bind (case old of
             None \<Rightarrow> ret True
           | Some o' \<Rightarrow> Node_State.bind (deref (Tip (chainActive s))) (\<lambda>tip s. ret (op_less (nChainWork (heap s o')) (nChainWork (heap s tip))) s))
           (\<lambda>better. if better then ret (Progressed, v) else connect_blocks E m pblock checked old lowest ?ps v) s)) s')"
    proof (cases b)
      case False
      then have ca: "chainActive s' = chainActive s" and f: "mode v = MODE_INVALID \<Longrightarrow> has_failed (heap s' p) \<and> \<not> corruptionPossible v"
        using o x by (simp_all add: tip_outcome_def)
      obtain t where "t < next_free s" "chainActive s = chain_of (heap s) t" using act_ok_tip [OF ok] by blast
      then have ok': "act_ok s'" using act_ok_step [OF ok si] ca by simp
      have "runs (blocks_outcome s m k j) (Node_State.bind (InvalidChainFound E lowest) (\<lambda>_. ret (InvalidFound, NewState)) s')"
        if "mode v = MODE_INVALID"
      proof (rule runs_bind)
        show "runs (\<lambda>_. quiet s') (InvalidChainFound E lowest s')" by (rule InvalidChain_runs [OF ok'])
        fix u s'' assume q: "quiet s' s''"
        have "act_ok s''" by (rule quiet_act_ok [OF ok' q])
        moreover have "Tip (chainActive s'') \<noteq> Some m" using on_path_tip [OF Suc.prems(1)] k q ca by (metis less_irrefl option.inject quiet_def)
        ultimately show "runs (blocks_outcome s m k j) (ret (InvalidFound, NewState) s'')"
          using same_index_trans [OF si quiet_same [OF q]] f [OF that] p(2,4) q by (auto simp: blocks_outcome_def quiet_def)
      qed
      moreover have "blocks_outcome s m k j (Stopped, v) s'" using ok' si by (simp add: blocks_outcome_def)
      ultimately show ?thesis using False x f by simp
    next
      case True
      then have kp: "kept s s'" and ca: "chainActive s' = chain_of (heap s) p" using o x by (simp_all add: tip_outcome_def)
      have path: "on_path s' m (Suc k)" by (rule on_path_connected [OF Suc.prems(1) k p(1) kp ca])
      then have ok': "act_ok s'" and m: "setBlockIndexCandidates s' \<noteq> []" "last (setBlockIndexCandidates s') = m" by (simp_all add: on_path_def)
      have nf: "next_free s' = next_free s" using si by (simp add: same_index_def)
      have tip: "Tip (chainActive s') = Some p" using tip_chain_of [OF ok p(2)] ca by simp
      have "\<not> work_less s' m p"
        by (rule not_below_ancestor [OF ok' best_in_use [OF path], of "Suc k"]) (use k p(1) in \<open>simp_all add: same_anc [OF si]\<close>)
      note prune = Prune_runs [OF ok' tip m(1) this [folded m(2)]]
      have "runs (blocks_outcome s m k j) (Node_State.bind PruneBlockIndexCandidates (\<lambda>_ s.
         Node_State.bind (case old of
             None \<Rightarrow> ret True
           | Some o' \<Rightarrow> Node_State.bind (deref (Tip (chainActive s))) (\<lambda>tip s. ret (op_less (nChainWork (heap s o')) (nChainWork (heap s tip))) s))
           (\<lambda>better. if better then ret (Progressed, v) else connect_blocks E m pblock checked old lowest ?ps v) s) s')"
      proof (rule runs_bind, rule prune)
        fix u s'' assume "same_index s' s'' \<and> chainActive s'' = chainActive s' \<and> heap s'' = heap s' \<and> setBlockIndexCandidates s'' \<noteq> []
          \<and> last (setBlockIndexCandidates s'') = last (setBlockIndexCandidates s')"
        then have r: "same_index s' s''" "chainActive s'' = chainActive s'" "heap s'' = heap s'" "setBlockIndexCandidates s'' \<noteq> []"
          "last (setBlockIndexCandidates s'') = m" using m(2) by simp_all
        have path'': "on_path s'' m (Suc k)" by (rule on_path_pruned [OF path r])
        have si'': "same_index s s''" by (rule same_index_trans [OF si r(1)])
        have prog: "blocks_outcome s m k j (Progressed, v) s''" using path'' si'' kj by (auto simp: blocks_outcome_def on_path_def)
        have "runs (blocks_outcome s'' m (Suc k) j) (connect_blocks E m pblock checked old lowest
           (map (\<lambda>h. the (anc (heap s'') m h)) [Suc (Suc k)..<Suc j]) v s'')"
          by (rule Suc.hyps(1)) (use Suc.hyps(2) path'' kj Suc.prems(5) same_anc(2) [OF si''] no_corruption_same [OF Suc.prems(2) si''] handed_same [OF Suc.prems(3) si''] in simp_all)
        then have "runs (blocks_outcome s'' m (Suc k) j) (connect_blocks E m pblock checked old lowest ?ps v s'')"
          by (simp add: same_anc(1) [OF si''] del: upt_Suc)
        then have cont: "runs (blocks_outcome s m k j) (connect_blocks E m pblock checked old lowest ?ps v s'')"
        proof (rule runs_mono)
          fix y s3 assume y: "blocks_outcome s'' m (Suc k) j y s3"
          have "next_free s'' = next_free s" "has_failed (heap s'' x) = has_failed (heap s x)" for x
            using si'' r(3) kp by (simp_all add: same_index_def kept_def)
          then show "blocks_outcome s m k j y s3"
            using y same_index_trans [OF si''] by (auto simp: blocks_outcome_def dest: Suc_lessD split: progress.splits)
        qed
        show "runs (blocks_outcome s m k j) (Node_State.bind (case old of
             None \<Rightarrow> ret True
           | Some o' \<Rightarrow> Node_State.bind (deref (Tip (chainActive s''))) (\<lambda>tip s. ret (op_less (nChainWork (heap s o')) (nChainWork (heap s tip))) s))
           (\<lambda>better. if better then ret (Progressed, v) else connect_blocks E m pblock checked old lowest ?ps v) s'')"
          using prog cont tip r(2) by (cases old) (simp_all add: bind_app deref_app)
      qed
      then show ?thesis using True x by simp
    qed
  qed
qed

lemma on_path_quiet:
  assumes "on_path s m k" "quiet s s'"
  shows "on_path s' m k"
  by (rule on_path_pruned [OF assms(1) quiet_same [OF assms(2)]]) (use assms in \<open>simp_all add: quiet_def on_path_def\<close>)

lemma blocks_outcome_trans:
  assumes "same_index s s'" "blocks_outcome s' m k' j r s''" "k \<le> k'"
  shows "blocks_outcome s m k j r s''"
proof -
  have f: "next_free s' = next_free s" "has_failed (heap s x) \<Longrightarrow> has_failed (heap s' x)" for x
    using assms(1) by (simp_all add: same_index_def same_entry_def)
  have "same_index s s''" using assms(2) same_index_trans [OF assms(1)] by (simp add: blocks_outcome_def)
  moreover have "\<exists>i>k. i \<le> j \<and> on_path s'' m i" if "\<exists>i>k'. i \<le> j \<and> on_path s'' m i"
    using that assms(3) by (meson le_less_trans)
  moreover have "\<exists>x<next_free s. \<not> has_failed (heap s x) \<and> has_failed (heap s'' x)"
    if "\<exists>x<next_free s'. \<not> has_failed (heap s' x) \<and> has_failed (heap s'' x)" using that f by auto
  ultimately show ?thesis using assms(2) by (cases "fst r") (simp_all add: blocks_outcome_def)
qed

lemma blocks_outcome_upto: "blocks_outcome s m k j r s' \<Longrightarrow> fst r \<noteq> Connecting \<Longrightarrow> j \<le> j' \<Longrightarrow> blocks_outcome s m k j' r s'"
  by (cases "fst r") (auto simp: blocks_outcome_def)

section \<open>Batches of blocks\<close>

lemma blocks_above_path:
  assumes "block_tree H A" "p \<in> A"
  shows "h \<le> j \<Longrightarrow> j \<le> height_of H p \<Longrightarrow> blocks_above H (int h) (anc H p j) = Some (rev (map (\<lambda>i. the (anc H p i)) [Suc h..<Suc j]))"
proof (induction "j - h" arbitrary: j)
  case 0
  obtain q where "anc H p j = Some q" "q \<in> A" "height_of H q = j" using anc_in_tree [OF assms 0(3)] by blast
  then show ?case using 0 int_height [OF assms(1), of q] by (subst blocks_above.simps) simp
next
  case (Suc n)
  obtain i where j: "j = Suc i" using Suc.hyps(2) by (cases j) simp_all
  obtain q where q: "anc H p j = Some q" "q \<in> A" "height_of H q = j" using anc_in_tree [OF assms Suc.prems(2)] by blast
  have "pprev (H q) = anc H p i" using pprev_anc [OF assms] q(1) j Suc.prems(2) by simp
  moreover have "blocks_above H (int h) (anc H p i) = Some (rev (map (\<lambda>i. the (anc H p i)) [Suc h..<Suc i]))"
    by (rule Suc.hyps(1)) (use Suc.hyps(2) Suc.prems j in simp_all)
  moreover have "nHeight (H q) \<noteq> int h" using int_height [OF assms(1) q(2)] q(3) Suc.hyps(2) by auto
  ultimately show ?case using q(1) j Suc.hyps(2) Suc.prems(1) by (subst blocks_above.simps) simp
qed

definition loop_outcome :: "'c chain_state \<Rightarrow> ptr \<Rightarrow> nat \<Rightarrow> (progress \<times> ptr option) \<times> CValidationState \<Rightarrow> 'c chain_state \<Rightarrow> bool" where
  "loop_outcome s m k r s' \<longleftrightarrow> blocks_outcome s m k (height_of (heap s) m) (fst (fst r), snd r) s' \<and> set_option (snd (fst r)) \<subseteq> {..<next_free s}"

lemma connect_loop_runs:
  "on_path s m k \<Longrightarrow> no_corruption E given s \<Longrightarrow> handed E given pblock (heap s m) \<Longrightarrow>
    runs (loop_outcome s m k) (lift_loop (connect_loop E m pblock checked old (int k) v s))"
proof (induction "height_of (heap s) m - k" arbitrary: s k v rule: less_induct)
  case (less s k v)
  have ok: "act_ok s" and k: "k \<le> height_of (heap s) m" using less.prems(1) by (simp_all add: on_path_def)
  have m: "m \<in> {..<next_free s}" using best_in_use [OF less.prems(1)] by simp
  note tree = act_ok_parts(1) [OF ok]
  note h = int_height [OF tree m]
  show ?case
  proof (cases "k = height_of (heap s) m")
    case True
    then have "connect_loop E m pblock checked old (int k) v s = Some (Inr (((Connecting, None), v), s))"
      using h by (subst connect_loop.simps) simp
    moreover have "loop_outcome s m k ((Connecting, None), v) s" using less.prems(1) True ok by (simp add: loop_outcome_def blocks_outcome_def)
    ultimately show ?thesis by (simp add: lift_loop_def)
  next
    case False
    define j where "j = min (k + 32) (height_of (heap s) m)"
    have j: "k < j" "j \<le> height_of (heap s) m" using False k by (simp_all add: j_def)
    have target: "min (int k + 32) (nHeight (heap s m)) = int j" using h by (simp add: j_def)
    let ?ps = "map (\<lambda>i. the (anc (heap s) m i)) [Suc k..<Suc j]"
    have ps: "?ps \<noteq> []" "?ps = the (anc (heap s) m (Suc k)) # map (\<lambda>i. the (anc (heap s) m i)) [Suc (Suc k)..<Suc j]"
      using j(1) by (simp_all add: upt_conv_Cons del: upt_Suc)
    obtain l where l: "anc (heap s) m (Suc k) = Some l" "l < next_free s" using on_path_next [OF less.prems(1)] j by (metis less_le_trans)
    have lowest: "last (rev ?ps) = l" unfolding last_rev using ps(2) l(1) by simp
    have above: "blocks_above (heap s) (int k) (GetAncestor (heap s) m (int j)) = Some (rev ?ps)"
      using blocks_above_path [OF tree m _ j(2), of k] j GetAncestor_anc [OF tree m j(2)] by simp
    obtain r v' s' where c: "connect_blocks E m pblock checked old l ?ps v s = Inr ((r, v'), s')" "blocks_outcome s m k j (r, v') s'"
      using connect_blocks_runs [OF less.prems less_imp_le [OF j(1)] j(2), of checked old l v] by (auto simp: runs_def)
    have step: "connect_loop E m pblock checked old (int k) v s = (if r = Connecting then connect_loop E m pblock checked old (int j) v' s'
        else Some (Inr (((r, Some l), v'), s')))"
      using False h ps(1) lowest c(1) by (subst connect_loop.simps) (simp add: Let_def target above del: upt_Suc)
    show ?thesis
    proof (cases "r = Connecting")
      case True
      then have si: "same_index s s'" and path: "on_path s' m j" using c(2) by (simp_all add: blocks_outcome_def)
      have "runs (loop_outcome s' m j) (lift_loop (connect_loop E m pblock checked old (int j) v' s'))"
        by (rule less.hyps [OF _ path no_corruption_same [OF less.prems(2) si] handed_same [OF less.prems(3) si]]) (use j same_anc(2) [OF si] in simp)
      moreover have "loop_outcome s m k x s''" if "loop_outcome s' m j x s''" for x s''
        using that blocks_outcome_trans [OF si _ less_imp_le [OF j(1)]] si same_anc(2) [OF si] by (simp add: loop_outcome_def same_index_def)
      ultimately show ?thesis using True step by (auto intro: runs_mono)
    next
      case False
      then show ?thesis using step l(2) blocks_outcome_upto [OF c(2) _ j(2)] by (simp add: lift_loop_def loop_outcome_def)
    qed
  qed
qed

end
