(* ===== verification/Best_Chain.thy ===== *)
theory Best_Chain
  imports Chain_Activation
begin

text \<open>
  \<open>ActivateBestChain\<close> returns: in a state whose candidates are linked to the active chain it ends without an error, whatever
  blocks turn out to be invalid, and when it succeeds no candidate is better than the new tip.
\<close>

section \<open>The best candidate\<close>

definition usable :: "'c chain_state \<Rightarrow> ptr \<Rightarrow> bool" where
  "usable s m \<longleftrightarrow> (\<forall>h \<le> height_of (heap s) m. \<forall>q. anc (heap s) m h = Some q \<longrightarrow> \<not> Contains (heap s) (chainActive s) q
     \<longrightarrow> \<not> has_failed (heap s q) \<and> has_data (heap s q))"

lemma candidate_facts: "act_ok s \<Longrightarrow> p \<in> set (setBlockIndexCandidates s) \<Longrightarrow> p < next_free s \<and> linked s p"
  by (auto simp: act_ok_def)

lemma contained_below:
  assumes "act_ok s" "p < next_free s" "anc (heap s) p k = Some q" "Contains (heap s) (chainActive s) q" "h \<le> k" "k \<le> height_of (heap s) p"
    "anc (heap s) p h = Some r"
  shows "Contains (heap s) (chainActive s) r"
proof -
  note tree = act_ok_parts(1) [OF assms(1)]
  obtain t where t: "t < next_free s" "chainActive s = chain_of (heap s) t" using act_ok_tip [OF assms(1)] by blast
  have q: "q < next_free s" "height_of (heap s) q = k" using anc_in_tree [OF tree _ assms(6)] assms(2,3) by force+
  have r: "r < next_free s" "height_of (heap s) r = h" using anc_in_tree [OF tree, of p h] assms by force+
  have c: "k \<le> height_of (heap s) t" "anc (heap s) t k = Some q" using Contains_chain_of [OF tree, of q t] q assms(4) t(2) by simp_all
  have "anc (heap s) t h = anc (heap s) q h" using anc_anc [OF c(2) q(2) c(1) assms(5)] by simp
  also have "\<dots> = Some r" using anc_anc [OF assms(3) q(2) assms(6,5)] assms(7) by simp
  finally show ?thesis using Contains_chain_of [OF tree, of r t] r c(1) assms(5) t(2) by simp
qed

text \<open>The block \<open>b\<close> that cannot be used, and the blocks above it.\<close>

definition unusable :: "'c chain_state \<Rightarrow> ptr \<Rightarrow> bool" where
  "unusable s b \<longleftrightarrow> \<not> Contains (heap s) (chainActive s) b \<and> (has_failed (heap s b) \<or> \<not> has_data (heap s b))"

definition above_unusable :: "'c chain_state \<Rightarrow> ptr \<Rightarrow> bool" where
  "above_unusable s x \<longleftrightarrow> x < next_free s \<and> \<not> Contains (heap s) (chainActive s) x
     \<and> (\<exists>i \<le> height_of (heap s) x. \<exists>b. anc (heap s) x i = Some b \<and> unusable s b)"

lemma above_not_usable:
  assumes "act_ok s" "c < next_free s" "usable s c" "h \<le> height_of (heap s) c" "anc (heap s) c h = Some x"
  shows "\<not> above_unusable s x"
proof
  assume "above_unusable s x"
  then obtain i b where b: "i \<le> height_of (heap s) x" "anc (heap s) x i = Some b" "unusable s b" by (auto simp: above_unusable_def)
  have x: "height_of (heap s) x = h" using anc_in_tree [OF act_ok_parts(1) [OF assms(1)] _ assms(4)] assms(2,5) by force
  have "anc (heap s) c i = Some b" using anc_anc [OF assms(5) x assms(4), of i] b(1,2) x by simp
  then show False using assms(3,4) b(1,3) x unfolding usable_def unusable_def by (meson order_trans)
qed

definition walk_result :: "'c chain_state \<Rightarrow> ptr \<Rightarrow> nat \<Rightarrow> ptr list \<Rightarrow> ptr list \<times> ptr option \<Rightarrow> bool" where
  "walk_result s p k passed r \<longleftrightarrow> (case snd r of
        None \<Rightarrow> \<forall>h\<le>k. \<forall>q. anc (heap s) p h = Some q \<longrightarrow> \<not> unusable s q
      | Some b \<Rightarrow> the (anc (heap s) p k) \<in> insert b (set (fst r)) \<and> unusable s b \<and> (\<exists>i\<le>k. anc (heap s) p i = Some b)
          \<and> set passed \<subseteq> set (fst r) \<and> (\<forall>x\<in>set (fst r). x \<in> set passed \<or> above_unusable s x))"

lemma usable_walk_correct:
  assumes ok: "act_ok s" and p: "p < next_free s" "linked s p"
  shows "k \<le> height_of (heap s) p \<Longrightarrow>
    \<exists>r. usable_walk (heap s) (chainActive s) (anc (heap s) p k) passed = Some (Inr r) \<and> walk_result s p k passed r"
proof (induction k arbitrary: passed)
  case (0 passed)
  note tree = act_ok_parts(1) [OF ok]
  obtain q where q: "anc (heap s) p 0 = Some q" "q < next_free s" "height_of (heap s) q = 0" using anc_in_tree [OF tree, of p 0] p(1) by auto
  have "pprev (heap s q) = None" "nHeight (heap s q) = 0" using pprev_root [OF tree, of q] int_height [OF tree, of q] q by simp_all
  then show ?case using q(1) by (subst usable_walk.simps) (auto simp: usable_walk.simps [of _ _ None] walk_result_def unusable_def)
next
  case (Suc k passed)
  note tree = act_ok_parts(1) [OF ok]
  obtain q where q: "anc (heap s) p (Suc k) = Some q" "q < next_free s" "height_of (heap s) q = Suc k"
    using anc_in_tree [OF tree, of p "Suc k"] p(1) Suc.prems by auto
  have pq: "pprev (heap s q) = anc (heap s) p k" using pprev_anc [OF tree _ q(1) Suc.prems] p(1) by simp
  have tx: "nChainTx (heap s q) \<noteq> 0" using p(2) q(1) Suc.prems by (auto simp: linked_def)
  show ?case
  proof (cases "Contains (heap s) (chainActive s) q")
    case True
    have "\<forall>h\<le>Suc k. \<forall>r. anc (heap s) p h = Some r \<longrightarrow> Contains (heap s) (chainActive s) r"
      using contained_below [OF ok p(1) q(1) True _ Suc.prems] by blast
    then show ?thesis using q(1) True by (subst usable_walk.simps) (simp add: walk_result_def unusable_def)
  next
    case False
    show ?thesis
    proof (cases "has_failed (heap s q) \<or> \<not> has_data (heap s q)")
      case True
      then show ?thesis using q(1) False tx by (subst usable_walk.simps) (auto simp: walk_result_def unusable_def)
    next
      case good: False
      obtain r where w: "usable_walk (heap s) (chainActive s) (anc (heap s) p k) (passed @ [q]) = Some (Inr r)"
        "walk_result s p k (passed @ [q]) r" using Suc.IH [of "passed @ [q]"] Suc.prems by auto
      have step: "usable_walk (heap s) (chainActive s) (Some q) passed = usable_walk (heap s) (chainActive s) (anc (heap s) p k) (passed @ [q])"
        using False good tx pq by (subst usable_walk.simps) simp
      have above: "above_unusable s q" if "i \<le> k" "anc (heap s) p i = Some b" "unusable s b" for i b
        using that anc_anc [OF q(1,3) Suc.prems, of i] q(2,3) False unfolding above_unusable_def by (metis le_SucI)
      have "walk_result s p (Suc k) passed r"
      proof (cases "snd r")
        case None
        then show ?thesis using w(2) q(1) good by (auto simp: walk_result_def unusable_def [of _ q] le_Suc_eq)
      next
        case (Some b)
        have "above_unusable s q" using w(2) Some above unfolding walk_result_def by auto
        then show ?thesis using w(2) q(1) Some by (auto simp: walk_result_def intro: le_SucI)
      qed
      then show ?thesis using w(1) q(1) step by simp
    qed
  qed
qed

lemma usable_no_unusable: "usable s m \<longleftrightarrow> (\<forall>h \<le> height_of (heap s) m. \<forall>q. anc (heap s) m h = Some q \<longrightarrow> \<not> unusable s q)"
  by (auto simp: usable_def unusable_def)

lemma candidates_dropped:
  "setBlockIndexCandidates (fold (drop_candidate b) ps s) = filter (\<lambda>q. q \<notin> set ps) (setBlockIndexCandidates s)"
proof (induction ps arbitrary: s)
  case (Cons p ps)
  have "setBlockIndexCandidates (drop_candidate b p s) = filter (\<lambda>q. q \<noteq> p) (setBlockIndexCandidates s)"
    by (simp add: drop_candidate_def erase_candidate_def mark_status_def)
  then show ?case using Cons by (auto intro: filter_cong)
qed simp

lemma round_chain: "chainActive (fold (drop_candidate b) ps s) = chainActive s"
  by (induction ps arbitrary: s) (simp_all add: drop_candidate_def erase_candidate_def mark_status_def)

lemma failed_dropped: "x \<notin> set ps \<Longrightarrow> heap (fold (drop_candidate b) ps s) x = heap s x"
  by (induction ps arbitrary: s) (auto simp: drop_candidate_def erase_candidate_def mark_status_def)

text \<open>A step of the search keeps the usable candidates, and they stay usable.\<close>

definition keeps_usable :: "'c chain_state \<Rightarrow> 'c chain_state \<Rightarrow> bool" where
  "keeps_usable s s' \<longleftrightarrow> (\<forall>c\<in>set (setBlockIndexCandidates s). usable s c \<longrightarrow> c \<in> set (setBlockIndexCandidates s') \<and> usable s' c)"

definition round_outcome :: "'c chain_state \<Rightarrow> ptr option option \<Rightarrow> 'c chain_state \<Rightarrow> bool" where
  "round_outcome s r s' \<longleftrightarrow> same_index s s' \<and> chainActive s' = chainActive s \<and> (case r of
      None \<Rightarrow> length (setBlockIndexCandidates s') < length (setBlockIndexCandidates s) \<and> keeps_usable s s'
    | Some None \<Rightarrow> s' = s \<and> setBlockIndexCandidates s = []
    | Some (Some m) \<Rightarrow> s' = s \<and> setBlockIndexCandidates s \<noteq> [] \<and> m = last (setBlockIndexCandidates s) \<and> usable s m)"

lemma most_work_round_runs:
  assumes ok: "act_ok s"
  shows "runs (round_outcome s) (most_work_round s)"
proof (cases "setBlockIndexCandidates s")
  case (Cons c cs)
  define m where "m = last (setBlockIndexCandidates s)"
  have ne: "setBlockIndexCandidates s \<noteq> []" using Cons by simp
  have m: "m \<in> set (setBlockIndexCandidates s)" using ne by (simp add: m_def)
  obtain ps bad where w: "usable_walk (heap s) (chainActive s) (Some m) [] = Some (Inr (ps, bad))"
    "walk_result s m (height_of (heap s) m) [] (ps, bad)"
    using usable_walk_correct [OF ok, of m "height_of (heap s) m" "[]"] candidate_facts [OF ok m] anc_self [of "heap s" m] by auto
  have mc: "m = last (c # cs)" by (simp add: m_def Cons)
  have round: "most_work_round s = (case bad of None \<Rightarrow> Inr (Some (Some m), s)
     | Some b \<Rightarrow> Inr (None, (let f = has_failed (heap s b); s = (if f then better_invalid m s else s)
             in erase_candidate b (fold (drop_candidate f) ps s))))"
    using w(1) by (simp add: most_work_round_def Cons mc Let_def bind_app gets_def lift_loop_def alter_def del: last.simps split: option.split)
  show ?thesis
  proof (cases bad)
    case None
    then show ?thesis using round w(2) ne by (simp add: round_outcome_def m_def walk_result_def usable_no_unusable)
  next
    case (Some b)
    define f where "f = has_failed (heap s b)"
    define s1 where "s1 = (if f then better_invalid m s else s)"
    define s2 where "s2 = erase_candidate b (fold (drop_candidate f) ps s1)"
    have r: "most_work_round s = Inr (None, s2)" using round Some by (simp add: f_def s1_def s2_def Let_def)
    have q: "quiet s s1" by (simp add: s1_def better_invalid_def quiet_def split: option.split)
    have c1: "setBlockIndexCandidates s1 = setBlockIndexCandidates s" "chainActive s1 = chainActive s" using q by (simp_all add: quiet_def)
    have "setBlockIndexCandidates s2 = filter (\<lambda>q. q \<noteq> b) (filter (\<lambda>q. q \<notin> set ps) (setBlockIndexCandidates s))"
      by (simp add: s2_def erase_candidate_def candidates_dropped c1)
    also have "\<dots> = filter (\<lambda>q. q \<notin> insert b (set ps)) (setBlockIndexCandidates s)" by (auto intro: filter_cong)
    finally have cands: "setBlockIndexCandidates s2 = filter (\<lambda>q. q \<notin> insert b (set ps)) (setBlockIndexCandidates s)" .
    then have "length (setBlockIndexCandidates s2) < length (setBlockIndexCandidates s)"
      using m w(2) Some anc_self [of "heap s" m] by (simp only: walk_result_def) (rule length_filter_less [of m], simp_all)
    moreover have si: "same_index s s2" unfolding s2_def
      by (rule same_index_trans [OF same_index_trans [OF quiet_same [OF q] same_drop(2)] same_updates(1)])
    moreover have ca: "chainActive s2 = chainActive s" by (simp add: s2_def erase_candidate_def round_chain c1)
    moreover have "keeps_usable s s2" unfolding keeps_usable_def
    proof (intro ballI impI)
      fix c assume c: "c \<in> set (setBlockIndexCandidates s)" "usable s c"
      have cn: "c < next_free s" using candidate_facts [OF ok c(1)] by simp
      have b: "unusable s b" "\<forall>x\<in>set ps. above_unusable s x" using w(2) Some by (simp_all add: walk_result_def)
      have out: "x \<notin> set ps" if "h \<le> height_of (heap s) c" "anc (heap s) c h = Some x" for h x
        using above_not_usable [OF ok cn c(2) that] b(2) by blast
      have "c \<noteq> b" using c(2) b(1) anc_self [of "heap s" c] unfolding usable_no_unusable by blast
      then have "c \<in> set (setBlockIndexCandidates s2)" using cands c(1) out [OF order_refl anc_self] by simp
      moreover have "heap s2 x = heap s1 x" "heap s1 = heap s" if "x \<notin> set ps" for x
        using that q by (simp_all add: s2_def erase_candidate_def failed_dropped quiet_def)
      then have "unusable s2 x = unusable s x" if "x \<notin> set ps" for x
        using that ca by (simp add: unusable_def Contains_def)
      then have "usable s2 c" using c(2) out unfolding usable_no_unusable same_anc [OF si] by blast
      ultimately show "c \<in> set (setBlockIndexCandidates s2) \<and> usable s2 c" by simp
    qed
    ultimately show ?thesis by (simp add: r round_outcome_def)
  qed
qed (simp add: most_work_round_def round_outcome_def)

definition found_outcome :: "'c chain_state \<Rightarrow> ptr option \<Rightarrow> 'c chain_state \<Rightarrow> bool" where
  "found_outcome s r s' \<longleftrightarrow> act_ok s' \<and> same_index s s' \<and> chainActive s' = chainActive s
     \<and> (s' = s \<or> length (setBlockIndexCandidates s') < length (setBlockIndexCandidates s)) \<and> keeps_usable s s' \<and> (case r of
      None \<Rightarrow> setBlockIndexCandidates s' = []
    | Some m \<Rightarrow> setBlockIndexCandidates s' \<noteq> [] \<and> m = last (setBlockIndexCandidates s') \<and> usable s' m)"

lemma FindMostWorkChain_runs: "act_ok s \<Longrightarrow> runs (found_outcome s) (FindMostWorkChain s)"
proof (induction "length (setBlockIndexCandidates s)" arbitrary: s rule: less_induct)
  case (less s)
  obtain r s' where r: "most_work_round s = Inr (r, s')" "round_outcome s r s'" using most_work_round_runs [OF less.prems] by (auto simp: runs_def)
  have si: "same_index s s'" "chainActive s' = chainActive s" using r(2) by (simp_all add: round_outcome_def)
  obtain t where "t < next_free s" "chainActive s = chain_of (heap s) t" using act_ok_tip [OF less.prems] by blast
  then have ok': "act_ok s'" using act_ok_step [OF less.prems si(1)] si(2) by simp
  show ?case
  proof (cases r)
    case None
    then have l: "length (setBlockIndexCandidates s') < length (setBlockIndexCandidates s)" using r(2) by (simp add: round_outcome_def)
    have "FindMostWorkChain s = FindMostWorkChain s'"
      unfolding FindMostWorkChain_def by (subst most_work_loop.simps) (simp add: r(1) None)
    moreover have "found_outcome s x s''" if "found_outcome s' x s''" for x s''
      using that same_index_trans [OF si(1)] si(2) l r(2) None by (auto simp: found_outcome_def round_outcome_def keeps_usable_def)
    ultimately show ?thesis using less.hyps [OF l ok'] by (auto intro: runs_mono)
  next
    case (Some x)
    then have "FindMostWorkChain s = Inr (x, s')" unfolding FindMostWorkChain_def by (subst most_work_loop.simps) (simp add: r(1) lift_loop_def)
    then show ?thesis using r(2) Some ok' by (cases x) (auto simp: found_outcome_def round_outcome_def keeps_usable_def)
  qed
qed

section \<open>A step towards the best candidate\<close>

text \<open>The fork of the best candidate from the active chain is a block of both, because there is one root.\<close>

lemma fork_of_candidate:
  assumes ok: "act_ok s" and m: "m < next_free s" and u: "usable s m"
  obtains t f q where "t < next_free s" "chainActive s = chain_of (heap s) t" "FindFork (heap s) (chainActive s) m = Some (Some q)"
    "f \<le> height_of (heap s) t" "f \<le> height_of (heap s) m" "anc (heap s) t f = Some q" "anc (heap s) m f = Some q" "q < next_free s"
    "height_of (heap s) q = f" "\<forall>h. f < h \<longrightarrow> h \<le> height_of (heap s) m \<longrightarrow> \<not> Contains (heap s) (chainActive s) (the (anc (heap s) m h))"
proof -
  note tree = act_ok_parts(1) [OF ok]
  obtain t where t: "t < next_free s" "chainActive s = chain_of (heap s) t" using act_ok_tip [OF ok] by blast
  let ?l = "min (height_of (heap s) m) (height_of (heap s) t)"
  obtain a where a: "anc (heap s) m 0 = Some a" "a < next_free s" "height_of (heap s) a = 0" using anc_in_tree [OF tree, of m 0] m by auto
  obtain b where b: "anc (heap s) t 0 = Some b" "b < next_free s" "height_of (heap s) b = 0" using anc_in_tree [OF tree, of t 0] t(1) by auto
  have root: "a = b" using ok pprev_root [OF tree, of a] pprev_root [OF tree, of b] a b by (auto simp: act_ok_def one_root_def)
  have hc: "is_highest_common (heap s) m t ?l (highest_common (heap s) m t ?l)"
    by (rule highest_common_correct) (use anc_in_tree [OF tree, of m] m in fastforce)
  then obtain q f where f: "highest_common (heap s) m t ?l = Some q" "f \<le> ?l" "anc (heap s) m f = Some q" "anc (heap s) t f = Some q"
      "\<forall>j \<le> ?l. f < j \<longrightarrow> anc (heap s) m j \<noteq> anc (heap s) t j"
    using a(1) b(1) root by (auto simp: is_highest_common_def split: option.splits)
  have q: "q < next_free s" "height_of (heap s) q = f" using anc_in_tree [OF tree, of m f] m f(2,3) by auto
  have "\<not> Contains (heap s) (chainActive s) (the (anc (heap s) m h))" if h: "f < h" "h \<le> height_of (heap s) m" for h
  proof -
    obtain x where x: "anc (heap s) m h = Some x" "x < next_free s" "height_of (heap s) x = h" using anc_in_tree [OF tree, of m h] m h(2) by auto
    then show ?thesis using Contains_chain_of [OF tree, of x t] f(5) h t(2) by auto
  qed
  moreover have "FindFork (heap s) (chainActive s) m = Some (Some q)" using FindFork_eq [OF tree, of m t] m t f(1) by simp
  ultimately show ?thesis using that [OF t _ _ _ f(4) f(3) q] f(2) by simp
qed

definition missing :: "'c chain_state \<Rightarrow> nat" where
  "missing s = card {h. h \<le> height_of (heap s) (last (setBlockIndexCandidates s))
     \<and> \<not> Contains (heap s) (chainActive s) (the (anc (heap s) (last (setBlockIndexCandidates s)) h))}"

definition step_outcome :: "'c chain_state \<Rightarrow> ptr \<Rightarrow> bool \<Rightarrow> 'c chain_state \<Rightarrow> bool" where
  "step_outcome s m ok s' \<longleftrightarrow> same_index s s' \<and> act_ok s' \<and> (ok \<longrightarrow>
      on_path s' m (height_of (heap s) m)
    \<or> (\<exists>i. on_path s' m i \<and> height_of (heap s) m - i < missing s)
    \<or> Tip (chainActive s') \<noteq> Some m \<and> (\<exists>x<next_free s. \<not> has_failed (heap s x) \<and> has_failed (heap s' x)))"

lemma step_outcome_quiet:
  assumes "step_outcome s m ok s'" "quiet s' s''"
  shows "step_outcome s m ok s''"
proof -
  have "heap s'' = heap s'" "chainActive s'' = chainActive s'" using assms(2) by (simp_all add: quiet_def)
  then show ?thesis
    using assms(1) same_index_trans [OF _ quiet_same [OF assms(2)]] quiet_act_ok [OF _ assms(2)] on_path_quiet [OF _ assms(2)]
    unfolding step_outcome_def by metis
qed

lemma ActivateBestChainStep_runs:
  assumes ok: "act_ok s" and m: "setBlockIndexCandidates s \<noteq> []" "m = last (setBlockIndexCandidates s)" "usable s m"
    and E: "no_corruption E given s" and given: "handed E given pblock (heap s m)"
  shows "runs (\<lambda>(b, v'). step_outcome s m b) (ActivateBestChainStep E m pblock checked v s)"
proof -
  note tree = act_ok_parts(1) [OF ok]
  have mn: "m < next_free s" using candidate_facts [OF ok, of m] m(1,2) by simp
  obtain t f q where t: "t < next_free s" "chainActive s = chain_of (heap s) t" and ff: "FindFork (heap s) (chainActive s) m = Some (Some q)"
    and f: "f \<le> height_of (heap s) t" "f \<le> height_of (heap s) m" "anc (heap s) t f = Some q" "anc (heap s) m f = Some q" "q < next_free s"
      "height_of (heap s) q = f"
    and above: "\<forall>h. f < h \<longrightarrow> h \<le> height_of (heap s) m \<longrightarrow> \<not> Contains (heap s) (chainActive s) (the (anc (heap s) m h))"
    using fork_of_candidate [OF ok mn m(3)] by metis
  have nh: "nHeight (heap s q) = int f" using int_height [OF tree, of q] f(5,6) by simp
  have miss: "height_of (heap s) m - f \<le> missing s"
  proof -
    have "{f<..height_of (heap s) m} \<subseteq> {h. h \<le> height_of (heap s) m \<and> \<not> Contains (heap s) (chainActive s) (the (anc (heap s) m h))}"
      using above by auto
    from card_mono [OF _ this] show ?thesis by (simp add: missing_def m(2))
  qed
  let ?lo = "\<lambda>v. lift_loop (disconnect_loop E (Some q) v s)"
  obtain b v1 s1 where d: "?lo v = Inr ((b, v1), s1)" "\<exists>r. r < next_free s \<and> moved s r s1 \<and> (b \<longrightarrow> r = q)"
    using disconnect_loop_runs [OF ok t(2,1) f(1), of E v] f(3) by (auto simp: runs_def)
  then obtain r where r: "r < next_free s" "moved s r s1" "b \<longrightarrow> r = q" by blast
  have h1: "heap s1 = heap s" "same_index s s1" "next_free s1 = next_free s" using moved_facts [OF r(2)] by simp_all
  have ok1: "act_ok s1" by (rule moved_act_ok [OF ok r(1,2)])
  show ?thesis
  proof (cases b)
    case False
    then have "ActivateBestChainStep E m pblock checked v s = Inr ((False, v1), s1)"
      using d(1) ff by (simp add: ActivateBestChainStep_def Let_def bind_app gets_def)
    then show ?thesis using h1(2) ok1 by (simp add: step_outcome_def)
  next
    case True
    then have mv: "moved s q s1" using r by simp
    have good: "\<not> has_failed (heap s (the (anc (heap s) m h)))" if "f < h" "h \<le> height_of (heap s) m" for h
      using m(3) above that anc_in_tree [OF tree, of m h] mn unfolding usable_def by fastforce
    have path: "on_path s1 m f"
      using ok1 m(1,2) f(2,4) moved_facts [OF mv] good by (simp add: on_path_def)
    let ?old = "Tip (chainActive s)" and ?chk = "pblock \<noteq> None \<and> checked"
    obtain p l v2 s2 where c: "lift_loop (connect_loop E m pblock ?chk ?old (int f) v1 s1) = Inr (((p, l), v2), s2)"
        "loop_outcome s1 m f ((p, l), v2) s2"
      using connect_loop_runs [OF path no_corruption_same [OF E h1(2)] handed_same [OF given h1(2)], of ?chk ?old v1] by (auto simp: runs_def)
    have o: "blocks_outcome s m f (height_of (heap s) m) (p, v2) s2"
      using blocks_outcome_trans [OF h1(2) _ order_refl] c(2) h1(1) by (simp add: loop_outcome_def)
    then have si2: "same_index s s2" and ok2: "act_ok s2" by (simp_all add: blocks_outcome_def)
    have l: "x < next_free s2" if "l = Some x" for x using c(2) that h1(3) si2 by (simp add: loop_outcome_def same_index_def)
    have out: "step_outcome s m (p \<noteq> Stopped) s2"
    proof (cases p)
      case Progressed
      then obtain i where i: "f < i" "i \<le> height_of (heap s) m" "on_path s2 m i" using o by (auto simp: blocks_outcome_def)
      then show ?thesis using si2 ok2 miss by (auto simp: step_outcome_def intro!: exI [of _ i])
    qed (use o in \<open>auto simp: step_outcome_def blocks_outcome_def\<close>)
    have step: "ActivateBestChainStep E m pblock checked v s =
       (if p = Stopped then ret (False, v2) else Node_State.bind (case l of
           Some x \<Rightarrow> if p = InvalidFound then CheckForkWarningConditionsOnNewFork E x else CheckForkWarningConditions E
         | None \<Rightarrow> CheckForkWarningConditions E) (\<lambda>_. ret (True, v2))) s2"
      using d(1) True ff c(1) h1(1) nh by (simp add: ActivateBestChainStep_def Let_def bind_app gets_def)
    show ?thesis
    proof (cases "p = Stopped")
      case False
      have "Tip (chainActive s2) \<noteq> None" using act_ok_tip [OF ok2] by (metis option.distinct(1))
      then have "runs (\<lambda>_. quiet s2) (CheckForkWarningConditions E s2)" by (rule CheckFork_runs [OF act_ok_parts(3) [OF ok2]])
      moreover have "runs (\<lambda>_. quiet s2) (CheckForkWarningConditionsOnNewFork E x s2)" if "l = Some x" for x
        by (rule CheckNewFork_runs [OF ok2 l [OF that]])
      ultimately have w: "runs (\<lambda>_. quiet s2) ((case l of
           Some x \<Rightarrow> if p = InvalidFound then CheckForkWarningConditionsOnNewFork E x else CheckForkWarningConditions E
         | None \<Rightarrow> CheckForkWarningConditions E) s2)" by (cases l) simp_all
      have "runs (\<lambda>(b, v'). step_outcome s m b) (Node_State.bind (case l of
           Some x \<Rightarrow> if p = InvalidFound then CheckForkWarningConditionsOnNewFork E x else CheckForkWarningConditions E
         | None \<Rightarrow> CheckForkWarningConditions E) (\<lambda>_. ret (True, v2)) s2)"
        by (rule runs_bind, rule w) (use step_outcome_quiet [OF out] False in simp)
      then show ?thesis using step False by simp
    qed (use step out in simp)
  qed
qed

section \<open>Every round makes progress\<close>

definition unfailed :: "'c chain_state \<Rightarrow> nat" where
  "unfailed s = card {x. x < next_free s \<and> \<not> has_failed (heap s x)}"

text \<open>A round that is not the last finds an invalid block, or drops a candidate, or comes closer to the best one.\<close>

definition progress_order :: "('c chain_state \<times> 'c chain_state) set" where
  "progress_order = measures [unfailed, \<lambda>s. length (setBlockIndexCandidates s), missing]"

lemma unfailed_same:
  assumes "same_index s s'"
  shows "unfailed s' \<le> unfailed s" "x < next_free s \<Longrightarrow> \<not> has_failed (heap s x) \<Longrightarrow> has_failed (heap s' x) \<Longrightarrow> unfailed s' < unfailed s"
proof -
  have sub: "{x. x < next_free s' \<and> \<not> has_failed (heap s' x)} \<subseteq> {x. x < next_free s \<and> \<not> has_failed (heap s x)}"
    using assms by (auto simp: same_index_def same_entry_def)
  then show "unfailed s' \<le> unfailed s" by (simp add: unfailed_def card_mono)
  assume "x < next_free s" "\<not> has_failed (heap s x)" "has_failed (heap s' x)"
  then have "{x. x < next_free s' \<and> \<not> has_failed (heap s' x)} \<subset> {x. x < next_free s \<and> \<not> has_failed (heap s x)}" using sub by blast
  then show "unfailed s' < unfailed s" unfolding unfailed_def by (rule psubset_card_mono [rotated]) simp
qed

lemma subseq_length: "subseq xs ys \<Longrightarrow> length xs \<le> length ys"
  by (induction rule: list_emb.induct) auto

lemma same_length:
  assumes "same_index s s'"
  shows "length (setBlockIndexCandidates s') \<le> length (setBlockIndexCandidates s)"
    "length (setBlockIndexCandidates s') = length (setBlockIndexCandidates s) \<Longrightarrow> setBlockIndexCandidates s' = setBlockIndexCandidates s"
  using assms subseq_length subseq_same_length unfolding same_index_def by blast+

lemma missing_on_path:
  assumes "on_path s m k"
  shows "missing s \<le> height_of (heap s) m - k"
proof -
  have ok: "act_ok s" and l: "last (setBlockIndexCandidates s) = m" and k: "k \<le> height_of (heap s) m" using assms by (simp_all add: on_path_def)
  have m: "m < next_free s" using best_in_use [OF assms] .
  note tree = act_ok_parts(1) [OF ok]
  obtain t where t: "t < next_free s" "anc (heap s) m k = Some t" "height_of (heap s) t = k" "chainActive s = chain_of (heap s) t"
    using on_path_tip [OF assms] by blast
  have "Contains (heap s) (chainActive s) (the (anc (heap s) m h))" if "h \<le> k" for h
  proof -
    have h: "h \<le> height_of (heap s) m" using that k by simp
    obtain x where x: "anc (heap s) m h = Some x" "x < next_free s" "height_of (heap s) x = h" using anc_in_tree [OF tree _ h] m by auto
    have "anc (heap s) t h = Some x" using anc_anc [OF t(2,3) k that] x(1) by simp
    then show ?thesis using Contains_chain_of [OF tree, of x t] x t(3,4) that by simp
  qed
  then have "{h. h \<le> height_of (heap s) m \<and> \<not> Contains (heap s) (chainActive s) (the (anc (heap s) m h))} \<subseteq> {k<..height_of (heap s) m}"
    by (auto simp: not_le [symmetric])
  from card_mono [OF _ this] show ?thesis by (simp add: missing_def l)
qed

definition no_better :: "'c chain_state \<Rightarrow> bool" where
  "no_better s \<longleftrightarrow> (\<forall>p\<in>set (setBlockIndexCandidates s). \<forall>t. Tip (chainActive s) = Some t \<longrightarrow> \<not> work_less s t p)"

lemma best_is_last:
  assumes "act_ok s" "p \<in> set (setBlockIndexCandidates s)"
  shows "\<not> work_less s (last (setBlockIndexCandidates s)) p"
proof -
  have ne: "setBlockIndexCandidates s \<noteq> []" using assms(2) by auto
  define bs m where "bs = butlast (setBlockIndexCandidates s)" and "m = last (setBlockIndexCandidates s)"
  have c: "setBlockIndexCandidates s = bs @ [m]" using ne by (simp add: bs_def m_def)
  have k: "work_less s a b \<longleftrightarrow> key_less (work_key s a) (work_key s b)" if "a \<in> set (setBlockIndexCandidates s)" "b \<in> set (setBlockIndexCandidates s)" for a b
    using work_less_key [OF act_ok_parts(2) [OF assms(1)]] candidate_facts [OF assms(1)] that by blast
  have "p = m \<or> work_less s p m" using assms c by (auto simp: act_ok_def sorted_wrt_append)
  moreover have "\<not> work_less s m m" "work_less s p m \<Longrightarrow> \<not> work_less s m p"
    using k [of m m] k [of p m] k [of m p] assms(2) c key_less_order(1,3) by simp_all
  ultimately show ?thesis unfolding m_def [symmetric] by blast
qed

lemma no_better_best: "act_ok s \<Longrightarrow> Tip (chainActive s) = Some (last (setBlockIndexCandidates s)) \<Longrightarrow> no_better s"
  using best_is_last by (auto simp: no_better_def)

definition activate_outcome :: "'c chain_state \<Rightarrow> bool option \<Rightarrow> 'c chain_state \<Rightarrow> bool" where
  "activate_outcome s r s' \<longleftrightarrow> same_index s s' \<and> act_ok s' \<and> (case r of
      None \<Rightarrow> (s', s) \<in> progress_order
    | Some b \<Rightarrow> b \<longrightarrow> no_better s')"

lemma step_decreases:
  assumes "found_outcome s (Some m) s1" "step_outcome s1 m True s2" "Tip (chainActive s2) \<noteq> Some m"
  shows "(s2, s) \<in> progress_order"
proof -
  have si: "same_index s s1" "same_index s1 s2" and c: "s1 = s \<or> length (setBlockIndexCandidates s1) < length (setBlockIndexCandidates s)"
    using assms(1,2) by (simp_all add: found_outcome_def step_outcome_def)
  have u: "unfailed s1 \<le> unfailed s" "unfailed s2 \<le> unfailed s1" using unfailed_same(1) si by blast+
  have l: "length (setBlockIndexCandidates s2) \<le> length (setBlockIndexCandidates s1)" using same_length(1) si(2) by blast
  consider (path) i where "on_path s2 m i" "height_of (heap s1) m - i < missing s1" | (failed) "unfailed s2 < unfailed s1"
    | (arrived) "on_path s2 m (height_of (heap s1) m)"
    using assms(2) unfailed_same(2) [OF si(2)] unfolding step_outcome_def by blast
  then show ?thesis
  proof cases
    case path
    show ?thesis
    proof (cases "length (setBlockIndexCandidates s2) < length (setBlockIndexCandidates s)")
      case False
      then have "s1 = s" using c l by auto
      moreover have "missing s2 < missing s1" using missing_on_path [OF path(1)] path(2) same_anc(2) [OF si(2)] by simp
      ultimately show ?thesis using u l by (auto simp: progress_order_def)
    qed (use u in \<open>auto simp: progress_order_def\<close>)
  next
    case failed
    then show ?thesis using u by (auto simp: progress_order_def)
  next
    case arrived
    then have "Tip (chainActive s2) = Some m" using on_path_tip [OF arrived] anc_self same_anc(1,2) [OF si(2)] by (metis option.inject)
    then show ?thesis using assms(3) by simp
  qed
qed

lemma step_reaches:
  assumes "step_outcome s m True s'" "Tip (chainActive s') = Some m" "setBlockIndexCandidates s \<noteq> []" "m = last (setBlockIndexCandidates s)"
  shows "no_better s'"
proof -
  have ok: "act_ok s'" using assms(1) by (simp add: step_outcome_def)
  obtain i where "on_path s' m i" using assms(1,2) unfolding step_outcome_def by blast
  then have "last (setBlockIndexCandidates s') = m" by (simp add: on_path_def)
  then show ?thesis using no_better_best [OF ok] assms(2) by simp
qed

lemma activate_round_runs:
  assumes ok: "act_ok s" and E: "no_corruption E pblock s"
  shows "runs (\<lambda>(r, v'). activate_outcome s r) (activate_round E pblock checked v s)"
proof -
  obtain most s1 where f: "FindMostWorkChain s = Inr (most, s1)" "found_outcome s most s1"
    using FindMostWorkChain_runs [OF ok] by (auto simp: runs_def)
  have si: "same_index s s1" and ok1: "act_ok s1" using f(2) by (simp_all add: found_outcome_def)
  show ?thesis
  proof (cases most)
    case None
    then have "no_better s1" using f(2) by (simp add: found_outcome_def no_better_def)
    then show ?thesis using f(1) None si ok1 by (simp add: activate_round_def bind_app activate_outcome_def)
  next
    case (Some m)
    then have m: "setBlockIndexCandidates s1 \<noteq> []" "m = last (setBlockIndexCandidates s1)" "usable s1 m"
      using f(2) unfolding Some found_outcome_def option.case by blast+
    show ?thesis
    proof (cases "Tip (chainActive s1) = Some m")
      case True
      then have "no_better s1" using no_better_best [OF ok1] m(2) by simp
      then show ?thesis using f(1) Some True si ok1 by (simp add: activate_round_def bind_app activate_outcome_def)
    next
      case False
      let ?pb = "case pblock of Some b \<Rightarrow> if BlockHash E b = phashBlock (heap s1 m) then Some b else None | None \<Rightarrow> None"
      have given: "handed E pblock ?pb (heap s1 m)" by (auto simp: handed_def split: option.splits if_splits)
      obtain b v2 s2 where st: "ActivateBestChainStep E m ?pb checked v s1 = Inr ((b, v2), s2)" "step_outcome s1 m b s2"
        using ActivateBestChainStep_runs [OF ok1 m no_corruption_same [OF E si] given, of checked v] by (auto simp: runs_def)
      have si2: "same_index s s2" and ok2: "act_ok s2" using st(2) same_index_trans [OF si] by (simp_all add: step_outcome_def)
      show ?thesis
      proof (cases b)
        case nb: False
        then show ?thesis using f(1) Some False st(1) si2 ok2 by (simp add: activate_round_def bind_app activate_outcome_def)
      next
        case True
        obtain ibd s3 where i: "IsInitialBlockDownload E s2 = Inr (ibd, s3)" "quiet s2 s3"
          using IsInitial_runs [OF act_ok_parts(3) [OF ok2], of E] by (auto simp: runs_def)
        have so: "step_outcome s1 m True s3" using step_outcome_quiet [OF st(2) i(2)] True by simp
        have si3: "same_index s s3" and ok3: "act_ok s3" using so same_index_trans [OF si] by (simp_all add: step_outcome_def)
        obtain t where t: "Tip (chainActive s3) = Some t" using act_ok_tip [OF ok3] by blast
        have r: "activate_round E pblock checked v s = (if t \<noteq> m then Inr ((None, v2), s3)
            else if DiskFull E (chainstate s3) then Inr ((Some False, StateError ''out of disk space'' v2), s3) else Inr ((Some True, v2), s3))"
          using f(1) Some False st(1) True i(1) t by (simp add: activate_round_def bind_app deref_app)
        have "activate_outcome s None s3" if "t \<noteq> m"
          using step_decreases [OF f(2) [unfolded Some] so] si3 ok3 t that by (simp add: activate_outcome_def)
        moreover have "activate_outcome s (Some c) s3" if "t = m" for c
          using step_reaches [OF so _ m(1,2)] si3 ok3 t that by (simp add: activate_outcome_def)
        ultimately show ?thesis by (simp add: r)
      qed
    qed
  qed
qed

lemma wf_progress: "wf progress_order"
  by (simp add: progress_order_def)

lemma activate_loop_runs:
  "act_ok s \<Longrightarrow> no_corruption E pblock s \<Longrightarrow> runs (\<lambda>(b, v'). activate_outcome s (Some b)) (lift_loop (activate_loop E pblock checked v s))"
proof (induction s arbitrary: v rule: wf_induct_rule [OF wf_progress])
  case (1 s v)
  obtain r v1 s1 where r: "activate_round E pblock checked v s = Inr ((r, v1), s1)" "activate_outcome s r s1"
    using activate_round_runs [OF 1(2,3), of checked v] by (auto simp: runs_def)
  show ?case
  proof (cases r)
    case None
    then have p: "(s1, s) \<in> progress_order" and ok: "act_ok s1" and si: "same_index s s1" using r(2) by (simp_all add: activate_outcome_def)
    have "activate_loop E pblock checked v s = activate_loop E pblock checked v1 s1" using r(1) None by (subst activate_loop.simps) simp
    moreover have "activate_outcome s (Some b) s2" if "activate_outcome s1 (Some b) s2" for b s2
      using that same_index_trans [OF si] by (simp add: activate_outcome_def)
    ultimately show ?thesis using 1(1) [OF p ok no_corruption_same [OF 1(3) si], of v1] by (auto elim!: runs_mono)
  next
    case (Some b)
    then have "activate_loop E pblock checked v s = Some (Inr ((b, v1), s1))" using r(1) by (subst activate_loop.simps) simp
    then show ?thesis using r(2) Some by (simp add: lift_loop_def)
  qed
qed

end
