(* ===== verification/Chain_Results.thy ===== *)
theory Chain_Results
  imports Best_Chain Index_Steps
begin

text \<open>
  The properties of the choice of a chain: \<open>FindMostWorkChain\<close> finds the best usable candidate, \<open>ActivateBestChain\<close> returns
  and leaves no better candidate, and it does not return when the data of a block on the way are corrupt.
\<close>

section \<open>A corrupt block\<close>

text \<open>What \<open>ConnectBlock\<close> answers for a block whose data do not match its header: invalid, and possibly corrupt.\<close>

definition corrupt_result :: "'c connect_result \<Rightarrow> bool" where
  "corrupt_result r \<longleftrightarrow> \<not> cr_ok r \<and> mode (cr_state r) = MODE_INVALID \<and> corruptionPossible (cr_state r) \<and> cr_money r = None \<and> cr_undo r = None"

text \<open>The best candidate follows on the tip, and its data are corrupt.\<close>

definition corrupt_next :: "'c activation_env \<Rightarrow> 'c chain_state \<Rightarrow> bool" where
  "corrupt_next E s \<longleftrightarrow> act_ok s \<and> setBlockIndexCandidates s \<noteq> [] \<and> (let m = last (setBlockIndexCandidates s) in
     pprev (heap s m) = Tip (chainActive s) \<and> \<not> has_failed (heap s m) \<and> has_data (heap s m)
     \<and> (\<exists>block. ReadBlockFromDisk E (heap s m) = Some block \<and> (\<forall>s'. corrupt_result (ConnectChecks E block m False s'))))"

lemma corrupt_next_quiet: "corrupt_next E s \<Longrightarrow> quiet s s' \<Longrightarrow> corrupt_next E s'"
  using quiet_act_ok [of s s'] by (simp add: corrupt_next_def quiet_def)

lemma common_top: "anc H p k = anc H t k \<Longrightarrow> highest_common H p t k = anc H p k"
  by (cases k) simp_all

lemma corrupt_round:
  assumes "corrupt_next E s"
  shows "runs (\<lambda>(r, v') s'. r = None \<and> quiet s s') (activate_round E None checked v s)"
proof -
  obtain m block where ok: "act_ok s" and best: "setBlockIndexCandidates s \<noteq> []" "last (setBlockIndexCandidates s) = m"
    and tip: "pprev (heap s m) = Tip (chainActive s)" and data: "\<not> has_failed (heap s m)" "has_data (heap s m)"
    and read: "ReadBlockFromDisk E (heap s m) = Some block" and corrupt: "\<And>s'. corrupt_result (ConnectChecks E block m False s')"
    using assms by (auto simp: corrupt_next_def Let_def)
  note tree = act_ok_parts(1) [OF ok]
  have m: "m < next_free s" "linked s m" using candidate_facts [OF ok, of m] best by auto
  obtain t where t: "t < next_free s" "chainActive s = chain_of (heap s) t" "Tip (chainActive s) = Some t" using act_ok_tip [OF ok] by blast
  have pt: "pprev (heap s m) = Some t" using tip t(3) by simp
  have hm: "height_of (heap s) m = Suc (height_of (heap s) t)" using parent_cases [OF tree, of m] m(1) pt by auto
  have nh: "nHeight (heap s m) = nHeight (heap s t) + 1" "nHeight (heap s t) = int (height_of (heap s) t)"
    using int_height [OF tree, of m] int_height [OF tree, of t] m(1) t(1) hm by simp_all
  have ct: "Contains (heap s) (chainActive s) t" "\<not> Contains (heap s) (chainActive s) m"
    using Contains_chain_of [OF tree, of t t] Contains_chain_of [OF tree, of m t] t(1,2) m(1) hm by simp_all
  have tx: "nChainTx (heap s m) \<noteq> 0" using m(2) [unfolded linked_def, rule_format, OF order_refl anc_self] hm by simp
  have "usable_walk (heap s) (chainActive s) (Some t) [m] = Some (Inr ([m], None))" using ct(1) by (subst usable_walk.simps) simp
  then have "usable_walk (heap s) (chainActive s) (Some m) [] = Some (Inr ([m], None))"
    using ct(2) tx data pt by (subst usable_walk.simps) simp
  then have "most_work_round s = Inr (Some (Some m), s)"
    using best by (cases "setBlockIndexCandidates s") (simp_all add: most_work_round_def Let_def bind_app gets_def lift_loop_def del: last.simps)
  then have found: "FindMostWorkChain s = Inr (Some m, s)"
    unfolding FindMostWorkChain_def by (subst most_work_loop.simps) (simp add: lift_loop_def)
  have at: "anc (heap s) m (height_of (heap s) t) = Some t"
    using pprev_anc [OF tree _ _ eq_refl [OF hm [symmetric]], of m] m(1) pt hm anc_self [of "heap s" m] by simp
  have "FindFork (heap s) (chainActive s) m = Some (Some t)"
    using FindFork_eq [OF tree, of m t] m(1) t(1,2) hm at common_top [of "heap s" m "height_of (heap s) t" t] by simp
  moreover have "disconnect_loop E (Some t) v s = Some (Inr ((True, v), s))" using t(3) by (subst disconnect_loop.simps) simp
  moreover have "\<exists>s1. quiet s s1 \<and> connect_loop E m None False (Tip (chainActive s)) (nHeight (heap s t)) v s = Some (Inr (((InvalidFound, Some m), NewState), s1))"
  proof -
    have "blocks_above (heap s) (nHeight (heap s t)) (Some t) = Some []" by (subst blocks_above.simps) simp
    then have above: "blocks_above (heap s) (nHeight (heap s t)) (Some m) = Some [m]" using pt nh(1) by (subst blocks_above.simps) simp
    have "GetAncestor (heap s) m (nHeight (heap s m)) = Some m"
      using GetAncestor_anc [OF tree, of m "height_of (heap s) m"] int_height [OF tree, of m] m(1) by simp
    then have target: "GetAncestor (heap s) m (nHeight (heap s t) + 1) = Some m" using nh(1) by simp
    let ?s = "s\<lparr>chainstate := cr_chainstate (ConnectChecks E block m False s), heap := (heap s)(m := heap s m)\<rparr>"
    have "ConnectTip E m None False v s = Inr ((False, cr_state (ConnectChecks E block m False s)), ?s)"
      using corrupt [of s] read tip
      by (simp add: ConnectTip_def ConnectBlock_def bind_app corrupt_result_def money_entry_def InvalidBlockFound_def Let_def)
    then have "connect_blocks E m None False (Tip (chainActive s)) m [m] v s = Inr ((InvalidFound, NewState), ?s)"
      using corrupt [of s] by (simp add: bind_app corrupt_result_def)
    then have "connect_loop E m None False (Tip (chainActive s)) (nHeight (heap s t)) v s = Some (Inr (((InvalidFound, Some m), NewState), ?s))"
      using nh(1) by (subst connect_loop.simps) (simp add: Let_def target above del: connect_blocks.simps)
    then show ?thesis by (intro exI [of _ ?s]) (simp add: quiet_def)
  qed
  ultimately obtain s1 where s1: "quiet s s1" "ActivateBestChainStep E m None checked v s =
      Node_State.bind (CheckForkWarningConditionsOnNewFork E m) (\<lambda>_. ret (True, NewState)) s1"
    by (auto simp: ActivateBestChainStep_def Let_def bind_app gets_def lift_loop_def)
  have ok1: "act_ok s1" by (rule quiet_act_ok [OF ok s1(1)])
  obtain s2 where s2: "CheckForkWarningConditionsOnNewFork E m s1 = Inr ((), s2)" "quiet s1 s2"
    using CheckNewFork_runs [OF ok1, of m E] m(1) s1(1) by (auto simp: runs_def quiet_def)
  obtain ibd s3 where s3: "IsInitialBlockDownload E s2 = Inr (ibd, s3)" "quiet s2 s3"
    using IsInitial_runs [OF act_ok_parts(3) [OF quiet_act_ok [OF ok1 s2(2)]], of E] by (auto simp: runs_def)
  have q: "quiet s s3" by (rule quiet_trans [OF quiet_trans [OF s1(1) s2(2)] s3(2)])
  then have "chainActive s3 = chainActive s" by (simp add: quiet_def)
  moreover have "t \<noteq> m" using hm by auto
  ultimately have "activate_round E None checked v s = Inr ((None, NewState), s3)"
    using found s1(2) s2(1) s3(1) t(3) by (simp add: activate_round_def bind_app deref_app)
  then show ?thesis using q by simp
qed

lemma corrupt_loop:
  "activate_loop E pblock checked v s = Some r \<Longrightarrow> pblock = None \<Longrightarrow> \<not> corrupt_next E s"
proof (induction rule: activate_loop.raw_induct [rotated 1, consumes 1, case_names step])
  case (step loop E pblock checked v s r)
  show ?case
  proof
    assume c: "corrupt_next E s"
    obtain v' s' where "activate_round E pblock checked v s = Inr ((None, v'), s')" "quiet s s'"
      using corrupt_round [OF c, of checked v] step.prems by (auto simp: runs_def)
    then show False using step.hyps step.IH [of E pblock checked v' s' r] step.prems corrupt_next_quiet [OF c] by simp
  qed
qed

section \<open>Properties\<close>

text \<open>
  C4: \<open>FindMostWorkChain\<close> ends without an error and returns the best usable candidate: one whose blocks down to the active chain have
  their data and have not failed, such that no other usable candidate comes after it in the order of work, arrival and address; and
  \<open>NULL\<close> only when no candidate is usable. What it removes or marks as failed on the way is not usable.
\<close>

theorem FindMostWorkChain_best:
  assumes "act_ok s"
  shows "\<exists>r s'. FindMostWorkChain s = Inr (r, s') \<and> act_ok s' \<and> chainActive s' = chainActive s
    \<and> (\<forall>p\<in>set (setBlockIndexCandidates s). usable s p \<longrightarrow> p \<in> set (setBlockIndexCandidates s') \<and> usable s' p)
    \<and> (case r of
         None \<Rightarrow> \<forall>p\<in>set (setBlockIndexCandidates s). \<not> usable s p
       | Some m \<Rightarrow> m \<in> set (setBlockIndexCandidates s) \<and> usable s m
           \<and> (\<forall>p\<in>set (setBlockIndexCandidates s). usable s p \<longrightarrow> \<not> work_less s m p))"
proof -
  obtain r s' where r: "FindMostWorkChain s = Inr (r, s')" "found_outcome s r s'" using FindMostWorkChain_runs [OF assms] by (auto simp: runs_def)
  have si: "same_index s s'" and ca: "chainActive s' = chainActive s" and ok: "act_ok s'" and k: "keeps_usable s s'"
    using r(2) by (simp_all add: found_outcome_def)
  show ?thesis
  proof (cases r)
    case None
    then have "\<forall>p\<in>set (setBlockIndexCandidates s). \<not> usable s p" using r(2) k by (auto simp: found_outcome_def keeps_usable_def)
    then show ?thesis using r(1) None ca ok by auto
  next
    case (Some m)
    have m: "setBlockIndexCandidates s' \<noteq> []" "m = last (setBlockIndexCandidates s')" "usable s' m"
      using r(2) unfolding Some found_outcome_def option.case by blast+
    have sub: "set (setBlockIndexCandidates s') \<subseteq> set (setBlockIndexCandidates s)" 
      by (rule subseq_set) (use si in \<open>simp add: same_index_def\<close>)
    have "unusable s' q" if "unusable s q" for q
      using that si ca core_fields(3) [OF same_core [OF si]] by (auto simp: unusable_def Contains_def same_index_def same_entry_def)
    then have "usable s m" using m(3) unfolding usable_no_unusable same_anc [OF si] by blast
    moreover have "\<not> work_less s m p" if "p \<in> set (setBlockIndexCandidates s)" "usable s p" for p
      using best_is_last [OF ok, of p] k that m(2) same_work_less [OF si] by (auto simp: keeps_usable_def)
    moreover have "m \<in> set (setBlockIndexCandidates s)" using sub m(1,2) by auto
    ultimately show ?thesis using r(1) Some ca ok k by (auto simp: keeps_usable_def)
  qed
qed

text \<open>
  C3: \<open>ActivateBestChain\<close> returns, whichever blocks \<open>ConnectBlock\<close> refuses, whatever \<open>DisconnectBlock\<close> answers and whenever a flush
  fails, unless \<open>ConnectBlock\<close> calls a block that it is given for an entry without a failure (the block on disk, or the one of the
  caller) invalid and possibly corrupt. No assertion fails, no \<open>NULL\<close> is dereferenced and the loop ends. The index stays well
  formed, and when it succeeds no candidate is better than the tip. For the blocks excepted, see the next property: the loop may then not end.
\<close>

theorem ActivateBestChain_returns:
  assumes "act_ok s" "\<And>p. p < next_free s \<Longrightarrow> \<not> corrupt_block E pblock s p"
  shows "\<exists>ok v' s'. ActivateBestChain E pblock fAlreadyChecked v s = Inr ((ok, v'), s') \<and> act_ok s' \<and> next_free s' = next_free s
    \<and> (\<forall>p. same_entry (heap s p) (heap s' p)) \<and> (ok \<longrightarrow> no_better s')"
proof -
  have "no_corruption E pblock s" using assms(2) by (simp add: no_corruption_def)
  then show ?thesis
    using activate_loop_runs [OF assms(1), of E pblock fAlreadyChecked v]
    by (auto simp: runs_def ActivateBestChain_def activate_outcome_def same_index_def)
qed

text \<open>
  C5: when the best candidate follows on the tip and its block on disk is invalid in a way that might be a corruption of the data,
  \<open>ActivateBestChain\<close> does not return: the block is not marked as failed, the validation state is reset, and the same block is tried
  again for ever.
\<close>

theorem corrupt_block_never_returns:
  assumes "corrupt_next E s"
  shows "ActivateBestChain E None fAlreadyChecked v s = Inl Diverges"
  using corrupt_loop [of E None fAlreadyChecked v s] assms
  by (cases "activate_loop E None fAlreadyChecked v s") (auto simp: ActivateBestChain_def lift_loop_def)

section \<open>A chain of two blocks\<close>

text \<open>The genesis block is active, and a block above it with data is the candidate.\<close>

definition demo_entry :: "ptr \<Rightarrow> CBlockIndex" where
  "demo_entry p = NullIndex\<lparr>phashBlock := set_uint256 (if p = 0 then 5 else 1), pprev := (if p = 0 then None else Some 0), nHeight := int p,
     pskip := (if p = 0 then None else Some 0), bBits := 0x207fffff, nChainWork := set_uint256 (if p = 0 then 2 else 4),
     nTx := 1, nChainTx := 1, nStatus := 11\<rparr>"

definition two_blocks :: "unit chain_state" where
  "two_blocks = \<lparr>heap = demo_entry, mapBlockIndex = [set_uint256 5 \<mapsto> Some 0, set_uint256 1 \<mapsto> Some 1], chainActive = [Some 0],
     next_free = 2, setStakeSeen = {}, mapProofOfStake = Map.empty, pindexBestHeader = Some 1, setDirtyBlockIndex = {},
     setBlockIndexCandidates = [1], nSequenceId = (\<lambda>_. 0), nBlockSequenceId = 1, pindexBestInvalid = None, mapBlocksUnlinked = [],
     pindexBestForkTip = None, pindexBestForkBase = None, fLargeWorkForkFound = False, fLargeWorkInvalidChainFound = False,
     lockIBDState = False, chainstate = ()\<rparr>"

lemma demo_work: "block_work 0x207fffff = 2"
  by (simp add: block_work_def target_ok_def compact_value_def compact_number_def)

lemma demo_entry_fields [simp]:
  "pprev (demo_entry p) = (if p = 0 then None else Some 0)" "nHeight (demo_entry p) = int p" "pskip (demo_entry p) = (if p = 0 then None else Some 0)"
  "phashBlock (demo_entry p) = set_uint256 (if p = 0 then 5 else 1)" "nChainWork (demo_entry p) = set_uint256 (if p = 0 then 2 else 4)"
  "nChainTx (demo_entry p) = 1" "nStatus (demo_entry p) = 11" "bBits (demo_entry p) = 0x207fffff"
  by (simp_all add: demo_entry_def)

lemma demo_less_2: "(\<forall>p<2. P p) \<longleftrightarrow> P (0::nat) \<and> P 1"
  by (auto simp: less_2_cases_iff)

lemma two_blocks_ok: "act_ok two_blocks"
proof -
  have "block_tree demo_entry {..<2}" by (auto simp: block_tree_def entry_ok_def less_2_cases_iff GetSkipHeight_def)
  moreover have "set_uint256 5 \<noteq> set_uint256 1" "set_uint256 1 \<noteq> set_uint256 5" using small_hashes(2) by simp_all
  then have "map_ok two_blocks" by (auto simp: map_ok_def two_blocks_def less_2_cases_iff)
  moreover have "work_ok demo_entry 0" "work_ok demo_entry 1" by (simp_all add: work_ok_def demo_work)
  moreover have "chain_of demo_entry 0 = [Some 0]" by (simp add: chain_of_def height_of_def anc_def)
  moreover have "linked two_blocks 1" by (simp add: linked_def two_blocks_def)
  moreover have "one_root two_blocks" by (auto simp: one_root_def two_blocks_def less_2_cases_iff)
  ultimately show ?thesis
    by (auto simp: act_ok_def index_ok_def best_ok_def chain_ok_def works_grow_def two_blocks_def less_2_cases_iff)
qed

definition two_env :: "unit activation_env" where
  "two_env = block_env.extend (index_env\<lparr>block_file := (\<lambda>_. Some (demo_work_block\<lparr>nBits := 0x207fffff\<rparr>)),
       Params := testnet_params\<lparr>fSkipProofOfWorkCheck := True\<rparr>\<rparr>)
     \<lparr>Now = 0, Busy = False, ConnectChecks = (\<lambda>block p a s. \<lparr>cr_ok = True, cr_state = NewState, cr_money = None, cr_undo = None, cr_chainstate = ()\<rparr>),
      DisconnectCoins = (\<lambda>block p s. Some ()), DiskFull = (\<lambda>_. False)\<rparr>"

text \<open>The same, where the block fails as if its data were corrupt.\<close>

definition corrupt_env :: "unit activation_env" where
  "corrupt_env = two_env\<lparr>ConnectChecks := (\<lambda>block p a s. \<lparr>cr_ok = False,
     cr_state = StateDoS 100 REJECT_INVALID ''bad-txnmrklroot'' True NewState, cr_money = None, cr_undo = None, cr_chainstate = ()\<rparr>)\<rparr>"

lemma two_read:
  "ReadBlockFromDisk two_env (demo_entry p) = (if p = 0 then None else Some (demo_work_block\<lparr>nBits := 0x207fffff\<rparr>))"
  "ReadBlockFromDisk corrupt_env (demo_entry p) = ReadBlockFromDisk two_env (demo_entry p)"
  using small_hashes(2)
  by (auto simp: ReadBlockFromDisk_def ReadBlockAt_def corrupt_env_def two_env_def block_env.extend_def GetBlockPos_def demo_entry_def NullIndex_def
      BlockHash_def HeaderGetHash_def index_env_def CheckProofOfWork_def)

theorem FindMostWorkChain_best_witness:
  "\<exists>r s'. FindMostWorkChain two_blocks = Inr (r, s') \<and> act_ok s' \<and> chainActive s' = chainActive two_blocks
    \<and> (\<forall>p\<in>set (setBlockIndexCandidates two_blocks). usable two_blocks p \<longrightarrow> p \<in> set (setBlockIndexCandidates s') \<and> usable s' p)
    \<and> (case r of
         None \<Rightarrow> \<forall>p\<in>set (setBlockIndexCandidates two_blocks). \<not> usable two_blocks p
       | Some m \<Rightarrow> m \<in> set (setBlockIndexCandidates two_blocks) \<and> usable two_blocks m
           \<and> (\<forall>p\<in>set (setBlockIndexCandidates two_blocks). usable two_blocks p \<longrightarrow> \<not> work_less two_blocks m p))"
  by (rule FindMostWorkChain_best [OF two_blocks_ok])

text \<open>The same, where the block is refused, but not as corrupt.\<close>

definition refusing_env :: "unit activation_env" where
  "refusing_env = two_env\<lparr>ConnectChecks := (\<lambda>block p a s. \<lparr>cr_ok = False,
     cr_state = StateDoS 100 REJECT_INVALID ''bad-cb-amount'' False NewState, cr_money = None, cr_undo = None, cr_chainstate = ()\<rparr>)\<rparr>"

theorem ActivateBestChain_returns_witness:
  "\<exists>ok v' s'. ActivateBestChain refusing_env None False NewState two_blocks = Inr ((ok, v'), s') \<and> act_ok s' \<and> next_free s' = next_free two_blocks
    \<and> (\<forall>p. same_entry (heap two_blocks p) (heap s' p)) \<and> (ok \<longrightarrow> no_better s')"
  by (rule ActivateBestChain_returns [OF two_blocks_ok])
    (simp add: corrupt_block_def corrupt_answer_def refusing_env_def StateDoS_def NewState_def Let_def)

theorem corrupt_block_never_returns_witness:
  "ActivateBestChain corrupt_env None False NewState two_blocks = Inl Diverges"
proof (rule corrupt_block_never_returns)
  have "corrupt_result (ConnectChecks corrupt_env b m a s)" for b m a s
    by (simp add: corrupt_result_def corrupt_env_def StateDoS_def NewState_def Let_def)
  moreover have "Tip (chainActive two_blocks) = Some 0" by (simp add: two_blocks_def Tip_def)
  ultimately show "corrupt_next corrupt_env two_blocks"
    using two_blocks_ok two_read [of 1] by (simp add: corrupt_next_def Let_def) (simp add: two_blocks_def has_failed_def has_data_def)
qed

end
