(* ===== verification/Chain_Invalid.thy ===== *)
theory Chain_Invalid
  imports Chain_Results
begin

text \<open>
  Invalidating a block by hand: the chain is cut below it, the block is marked as failed, and the blocks that can now be the best
  become candidates again; and the queue of blocks that receive their transactions.
\<close>

section \<open>Inserting a candidate\<close>

lemma insert_sorted_wrt:
  assumes "sorted_wrt R xs" "\<And>a b c. R a b \<Longrightarrow> R b c \<Longrightarrow> R a c" "\<And>x. x \<in> set xs \<Longrightarrow> R x p \<or> R p x"
  shows "sorted_wrt R (takeWhile (\<lambda>q. R q p) xs @ p # dropWhile (\<lambda>q. R q p) xs)"
  using assms(1,3)
proof (induction xs)
  case (Cons x xs)
  have xy: "R x y" if "y \<in> set xs" for y using Cons.prems(1) that by simp
  show ?case
  proof (cases "R x p")
    case True
    have "sorted_wrt R (takeWhile (\<lambda>q. R q p) xs @ p # dropWhile (\<lambda>q. R q p) xs)" using Cons.IH Cons.prems by simp
    moreover have "R x y" if "y \<in> set (takeWhile (\<lambda>q. R q p) xs @ p # dropWhile (\<lambda>q. R q p) xs)" for y
      using that True xy set_takeWhileD [of y _ xs] set_dropWhileD [of y _ xs] by auto
    ultimately show ?thesis using True by simp
  next
    case False
    then have px: "R p x" using Cons.prems(2) by auto
    have "R p y" if "y \<in> set xs" for y using assms(2) [OF px xy [OF that]] .
    then show ?thesis using False px Cons.prems(1) by simp
  qed
qed simp

lemma insert_candidate_facts:
  "heap (insert_candidate p s) = heap s" "next_free (insert_candidate p s) = next_free s" "chainActive (insert_candidate p s) = chainActive s"
  "mapBlockIndex (insert_candidate p s) = mapBlockIndex s" "pindexBestHeader (insert_candidate p s) = pindexBestHeader s"
  "nSequenceId (insert_candidate p s) = nSequenceId s"
  "set (setBlockIndexCandidates (insert_candidate p s)) = insert p (set (setBlockIndexCandidates s))"
proof -
  have "set (takeWhile P xs) \<union> set (dropWhile P xs) = set xs" for P and xs :: "ptr list"
    by (metis set_append takeWhile_dropWhile_id)
  then show "set (setBlockIndexCandidates (insert_candidate p s)) = insert p (set (setBlockIndexCandidates s))"
    by (auto simp: insert_candidate_def Let_def)
qed (simp_all add: insert_candidate_def Let_def)

lemma insert_candidate_ok:
  assumes "act_ok s" "p < next_free s" "linked s p"
  shows "act_ok (insert_candidate p s)"
proof -
  let ?s = "insert_candidate p s"
  note f = insert_candidate_facts [of p s]
  have w: "work_less ?s a b = work_less s a b" for a b by (simp add: work_less_def f)
  have k: "work_less s a b \<longleftrightarrow> key_less (work_key s a) (work_key s b)" if "a \<in> insert p (set (setBlockIndexCandidates s))"
    "b \<in> insert p (set (setBlockIndexCandidates s))" for a b
    using work_less_key [OF act_ok_parts(2) [OF assms(1)]] candidate_facts [OF assms(1)] assms(2) that by blast
  have "sorted_wrt (work_less s) (setBlockIndexCandidates ?s)"
  proof (cases "p \<in> set (setBlockIndexCandidates s)")
    case False
    let ?R = "\<lambda>a b. key_less (work_key s a) (work_key s b)"
    have s: "sorted_wrt ?R (setBlockIndexCandidates s)"
      by (rule sorted_wrt_mono_rel [where P = "work_less s"]) (use assms(1) k in \<open>auto simp: act_ok_def\<close>)
    have "sorted_wrt ?R (takeWhile (\<lambda>q. ?R q p) (setBlockIndexCandidates s) @ p # dropWhile (\<lambda>q. ?R q p) (setBlockIndexCandidates s))"
      by (rule insert_sorted_wrt [OF s]) (use key_less_order(2) key_less_total(2) False in metis)+
    moreover have "takeWhile (\<lambda>q. ?R q p) (setBlockIndexCandidates s) = takeWhile (\<lambda>q. work_less s q p) (setBlockIndexCandidates s)"
      "dropWhile (\<lambda>q. ?R q p) (setBlockIndexCandidates s) = dropWhile (\<lambda>q. work_less s q p) (setBlockIndexCandidates s)"
      using k by (auto intro: takeWhile_cong dropWhile_cong)
    ultimately have "sorted_wrt ?R (setBlockIndexCandidates ?s)" using False by (simp add: insert_candidate_def Let_def)
    then show ?thesis by (rule sorted_wrt_mono_rel [rotated]) (use k f(7) in blast)
  qed (use assms(1) in \<open>simp add: insert_candidate_def Let_def act_ok_def\<close>)
  then have "sorted_wrt (work_less ?s) (setBlockIndexCandidates ?s)" using w by (simp add: sorted_wrt_mono_rel)
  moreover have "index_ok ?s" using assms(1) by (auto simp: act_ok_def index_ok_def map_ok_def best_ok_def chain_ok_def f split: option.split)
  ultimately show ?thesis using assms
    unfolding act_ok_def by (simp add: f works_grow_def one_root_def linked_def)
qed

section \<open>Invalidating a block\<close>

text \<open>A block with its transactions has all its ancestors linked.\<close>

definition tx_linked :: "'c chain_state \<Rightarrow> bool" where
  "tx_linked s \<longleftrightarrow> (\<forall>p<next_free s. nChainTx (heap s p) \<noteq> 0 \<longrightarrow> linked s p)"

lemma tx_linked_same:
  assumes "tx_linked s" "same_index s s'"
  shows "tx_linked s'"
proof -
  have "linked s' p = linked s p" for p using assms(2) by (simp add: linked_def same_anc [OF assms(2)]) (simp add: same_index_def same_entry_def)
  then show ?thesis using assms by (simp add: tx_linked_def same_index_def same_entry_def)
qed

lemma act_ok_same: "act_ok s \<Longrightarrow> same_index s s' \<Longrightarrow> chainActive s' = chainActive s \<Longrightarrow> act_ok s'"
  using act_ok_step act_ok_tip by metis

text \<open>Disconnecting until the block has left the chain: its parent is the new tip.\<close>

lemma invalidate_loop_runs:
  assumes "act_ok s" "p < next_free s" "pprev (heap s p) = Some q" "t < next_free s" "chainActive s = chain_of (heap s) t"
    "Contains (heap s) (chainActive s) p"
  shows "runs (\<lambda>(ok, v') s'. same_index s s' \<and> act_ok s' \<and> (ok \<longrightarrow> chainActive s' = chain_of (heap s) q))
    (lift_loop (invalidate_loop E p v s))"
  using assms
proof (induction "height_of (heap s) t - height_of (heap s) p" arbitrary: s t v rule: less_induct)
  case (less s t v)
  note tree = act_ok_parts(1) [OF less.prems(1)]
  have tip: "Tip (chainActive s) = Some t" using tip_chain_of [OF less.prems(1,4)] less.prems(5) by simp
  have c: "height_of (heap s) p \<le> height_of (heap s) t" "anc (heap s) t (height_of (heap s) p) = Some p"
    using Contains_chain_of [OF tree, of p t] less.prems(2,5,6) by simp_all
  have hp: "height_of (heap s) p = Suc (height_of (heap s) q)" "q < next_free s" using parent_cases [OF tree, of p] less.prems(2,3) by auto
  have "0 < height_of (heap s) t" using c(1) hp by simp
  then obtain q' where q': "pprev (heap s t) = Some q'" "q' < next_free s" "height_of (heap s) t = Suc (height_of (heap s) q')"
    using parent_cases [OF tree, of t] pprev_anc [OF tree, of t "height_of (heap s) t - 1" t] less.prems(4)
      anc_in_tree [OF tree, of t "height_of (heap s) t - 1"] by fastforce
  have tq: "anc (heap s) t (height_of (heap s) q') = Some q'"
    using pprev_anc [OF tree _ _ eq_refl [OF q'(3) [symmetric]], of t] less.prems(4) q'(1,3) anc_self [of "heap s" t] by simp
  let ?s = "erase_candidate t (mark_dirty t (mark_status BLOCK_FAILED_CHILD t s))"
  have si: "same_index s ?s" by (rule same_index_trans [OF same_index_trans [OF same_updates(2) same_updates(4)] same_updates(1)])
  have ch: "chainActive ?s = chainActive s" "next_free ?s = next_free s" by (simp_all add: erase_candidate_def mark_dirty_def mark_status_def)
  have ok: "act_ok ?s" by (rule act_ok_same [OF less.prems(1) si ch(1)])
  have pt: "pprev (heap ?s t) = Some q'" using core_fields(2) [OF same_core [OF si]] q'(1) by simp
  obtain b v' s1 where d: "DisconnectTip E v ?s = Inr ((b, v'), s1)" "if b then moved ?s q' s1 else quiet ?s s1"
    using DisconnectTip_runs [OF ok _ pt, of E v] tip ch q'(2) by (auto simp: runs_def)
  have "same_index ?s s1" using d(2) moved_facts(5) [of ?s q' s1] quiet_same [of ?s s1] by (cases b) simp_all
  then have si1: "same_index s s1" by (rule same_index_trans [OF si])
  have step: "invalidate_loop E p v s = (if b then invalidate_loop E p v' s1 else Some (Inr ((False, v'), s1)))"
    using less.prems(6) tip d(1) by (subst invalidate_loop.simps) simp
  show ?case
  proof (cases b)
    case False
    then have "act_ok s1" using d(2) quiet_act_ok [OF ok] by simp
    then show ?thesis using step False si1 by (simp add: lift_loop_def)
  next
    case True
    then have m: "moved ?s q' s1" using d(2) by simp
    have ok1: "act_ok s1" using moved_act_ok [OF ok _ m] q'(2) ch(2) by simp
    have ch1: "chainActive s1 = chain_of (heap s) q'" "next_free s1 = next_free s"
      using moved_facts(2,4) [OF m] ch(2) same_anc(3) [OF si] by simp_all
    have tree1: "block_tree (heap s1) {..<next_free s1}" by (rule act_ok_parts(1) [OF ok1])
    show ?thesis
    proof (cases "t = p")
      case eq: True
      then have "q' = q" using q'(1) less.prems(3) by simp
      moreover have "\<not> Contains (heap s1) (chainActive s1) p"
        using Contains_chain_of [OF tree1, of p q'] ch1 less.prems(2) same_anc [OF si1] hp \<open>q' = q\<close> by simp
      then have "invalidate_loop E p v' s1 = Some (Inr ((True, v'), s1))" by (subst invalidate_loop.simps) simp
      ultimately show ?thesis using step True si1 ok1 ch1(1) by (simp add: lift_loop_def)
    next
      case neq: False
      have lt: "height_of (heap s) p < height_of (heap s) t" using c anc_self [of "heap s" t] neq by (metis le_neq_implies_less option.inject)
      have "anc (heap s) q' (height_of (heap s) p) = Some p" using anc_anc [OF tq refl, of "height_of (heap s) p"] c(2) q'(3) lt by simp
      then have cont: "Contains (heap s1) (chainActive s1) p"
        using Contains_chain_of [OF tree1, of p q'] ch1 less.prems(2) same_anc [OF si1] lt q'(3) by simp
      have "runs (\<lambda>(ok, v') s'. same_index s1 s' \<and> act_ok s' \<and> (ok \<longrightarrow> chainActive s' = chain_of (heap s1) q)) (lift_loop (invalidate_loop E p v' s1))"
        by (rule less.hyps [OF _ ok1 _ _ _ _ cont, of q'])
          (use lt q' less.prems(2,3) ch1 same_anc [OF si1] core_fields(2) [OF same_core [OF si1]] in simp_all)
      then show ?thesis using step True same_index_trans [OF si1] same_anc(3) [OF si1] by (auto elim!: runs_mono)
    qed
  qed
qed

text \<open>The blocks that become candidates again.\<close>

definition readded :: "'c chain_state \<Rightarrow> uint256 list \<Rightarrow> 'c chain_state \<Rightarrow> bool" where
  "readded s order s' \<longleftrightarrow> act_ok s' \<and> heap s' = heap s \<and> next_free s' = next_free s \<and> chainActive s' = chainActive s
     \<and> mapBlockIndex s' = mapBlockIndex s \<and> nSequenceId s' = nSequenceId s \<and> set (setBlockIndexCandidates s) \<subseteq> set (setBlockIndexCandidates s')
     \<and> (\<forall>h\<in>set order. \<forall>q t. mapBlockIndex s h = Some (Some q) \<longrightarrow> IsValid (heap s q) BLOCK_VALID_TRANSACTIONS \<longrightarrow> nChainTx (heap s q) \<noteq> 0
         \<longrightarrow> Tip (chainActive s) = Some t \<longrightarrow> \<not> work_less s q t \<longrightarrow> q \<in> set (setBlockIndexCandidates s'))"

lemma readd_runs:
  "act_ok s \<Longrightarrow> tx_linked s \<Longrightarrow> (\<And>h. h \<in> set order \<Longrightarrow> \<exists>q. mapBlockIndex s h = Some (Some q)) \<Longrightarrow> runs (\<lambda>_. readded s order) (readd_candidates order s)"
proof (induction order arbitrary: s)
  case Nil
  then show ?case by (simp add: readded_def)
next
  case (Cons h order)
  obtain q where q: "mapBlockIndex s h = Some (Some q)" using Cons.prems(3) by fastforce
  then have qn: "q < next_free s" using Cons.prems(1) by (simp add: act_ok_def index_ok_def map_ok_def)
  obtain t where t: "Tip (chainActive s) = Some t" using act_ok_tip [OF Cons.prems(1)] by blast
  let ?c = "IsValid (heap s q) BLOCK_VALID_TRANSACTIONS \<and> nChainTx (heap s q) \<noteq> 0 \<and> \<not> work_less s q t"
  define s1 where "s1 = (if ?c then insert_candidate q s else s)"
  have step: "readd_candidates (h # order) s = readd_candidates order s1"
    by (simp add: q bind_app deref_app gets_def alter_def not_worse_def t s1_def)
  have f: "heap s1 = heap s" "next_free s1 = next_free s" "chainActive s1 = chainActive s" "mapBlockIndex s1 = mapBlockIndex s"
    "nSequenceId s1 = nSequenceId s" "set (setBlockIndexCandidates s) \<subseteq> set (setBlockIndexCandidates s1)"
    "?c \<Longrightarrow> q \<in> set (setBlockIndexCandidates s1)"
    using insert_candidate_facts [of q s] by (auto simp: s1_def)
  have ok: "act_ok s1" using insert_candidate_ok [OF Cons.prems(1) qn] Cons.prems(1,2) qn by (simp add: s1_def tx_linked_def)
  have "tx_linked s1" using Cons.prems(2) by (simp add: tx_linked_def linked_def f)
  then have "runs (\<lambda>_. readded s1 order) (readd_candidates order s1)" using Cons.IH [OF ok] Cons.prems(3) f(4) by simp
  moreover have "work_less s1 a b = work_less s a b" for a b by (simp add: work_less_def f)
  ultimately show ?case unfolding step
  proof (elim runs_mono)
    fix s' assume r: "readded s1 order s'" and w: "\<And>a b. work_less s1 a b = work_less s a b"
    have "set (setBlockIndexCandidates s) \<subseteq> set (setBlockIndexCandidates s')" using f(6) r by (auto simp: readded_def)
    moreover have "q \<in> set (setBlockIndexCandidates s')" if ?c using f(7) [OF that] r by (auto simp: readded_def)
    ultimately show "readded s (h # order) s'" using r w f(1-5) q t by (auto simp: readded_def)
  qed
qed

section \<open>Blocks that receive their transactions\<close>

text \<open>
  The blocks that the queue releases: those in it, and the blocks that wait, directly or through others, for one of them. The blocks
  that wait are listed under their predecessor.
\<close>

inductive_set released :: "(ptr option \<times> ptr) list \<Rightarrow> ptr set \<Rightarrow> ptr set" for W Q where
  queued: "p \<in> Q \<Longrightarrow> p \<in> released W Q"
| waiting: "q \<in> released W Q \<Longrightarrow> (Some q, p) \<in> set W \<Longrightarrow> p \<in> released W Q"

definition waits_ok :: "'c chain_state \<Rightarrow> bool" where
  "waits_ok s \<longleftrightarrow> (\<forall>(q, p)\<in>set (mapBlocksUnlinked s). p < next_free s \<and> pprev (heap s p) = q)"

definition chain_txs :: "store \<Rightarrow> ptr \<Rightarrow> u32" where
  "chain_txs H p = (case pprev (H p) of None \<Rightarrow> 0 | Some q \<Rightarrow> nChainTx (H q)) + nTx (H p)"

text \<open>Taking one block from the queue moves the blocks that wait for it to its end.\<close>

lemma released_step:
  assumes "\<And>q x. q \<in> L \<Longrightarrow> (Some q, x) \<notin> set W"
  shows "insert p L \<union> released (filter (\<lambda>e. fst e \<noteq> Some p) W) (set (ps @ map snd (filter (\<lambda>e. fst e = Some p) W)))
    = L \<union> released W (set (p # ps))" (is "insert p L \<union> ?R1 = L \<union> ?R")
proof -
  have "x \<in> ?R" if "x \<in> ?R1" for x
    using that
  proof (induction rule: released.induct)
    case (queued x)
    have "p \<in> ?R" by (simp add: released.queued)
    then show ?case using queued released.waiting [of p W "set (p # ps)" x] by (auto intro: released.queued)
  next
    case (waiting q x)
    then show ?case by (auto intro: released.waiting)
  qed
  moreover have "x \<in> insert p L \<union> ?R1" if "x \<in> ?R" for x
    using that
  proof (induction rule: released.induct)
    case (queued x)
    then show ?case by (auto intro: released.queued)
  next
    case (waiting q x)
    show ?case
    proof (cases "q = p")
      case True
      then have "x \<in> set (ps @ map snd (filter (\<lambda>e. fst e = Some p) W))" using waiting(2) by force
      then show ?thesis by (auto intro: released.queued)
    next
      case False
      then have "q \<in> ?R1" using waiting assms by blast
      moreover have "(Some q, x) \<in> set (filter (\<lambda>e. fst e \<noteq> Some p) W)" using waiting(2) False by simp
      ultimately show ?thesis by (blast intro: released.waiting)
    qed
  qed
  moreover have "p \<in> ?R" by (simp add: released.queued)
  ultimately show ?thesis by blast
qed

text \<open>Linking one block: its number of transactions is set, it may become a candidate, nothing else changes.\<close>

lemma link_block_facts:
  assumes "link_block p s = (w, s')"
  shows "w = map snd (filter (\<lambda>e. fst e = Some p) (mapBlocksUnlinked s))"
    "mapBlocksUnlinked s' = filter (\<lambda>e. fst e \<noteq> Some p) (mapBlocksUnlinked s)"
    "heap s' = (heap s)(p := (heap s p)\<lparr>nChainTx := chain_txs (heap s) p\<rparr>)"
    "next_free s' = next_free s" "chainActive s' = chainActive s" "x \<noteq> p \<Longrightarrow> nSequenceId s' x = nSequenceId s x"
    "set (setBlockIndexCandidates s) \<subseteq> set (setBlockIndexCandidates s')"
    "set (setBlockIndexCandidates s') \<subseteq> insert p (set (setBlockIndexCandidates s))"
    "(\<And>t. Tip (chainActive s) = Some t \<Longrightarrow> t \<noteq> p \<and> \<not> work_less s' p t) \<Longrightarrow> p \<in> set (setBlockIndexCandidates s')"
proof -
  let ?t = "s\<lparr>heap := (heap s)(p := (heap s p)\<lparr>nChainTx := chain_txs (heap s) p\<rparr>), nSequenceId := (nSequenceId s)(p := nBlockSequenceId s),
                nBlockSequenceId := nBlockSequenceId s + 1\<rparr>"
  let ?c = "case Tip (chainActive s) of None \<Rightarrow> True | Some tip \<Rightarrow> \<not> work_less ?t p tip"
  define u where "u = (if ?c then insert_candidate p ?t else ?t)"
  note i = insert_candidate_facts [of p ?t]
  have u: "heap u = heap ?t" "next_free u = next_free s" "chainActive u = chainActive s" "nSequenceId u = nSequenceId ?t"
    "mapBlocksUnlinked u = mapBlocksUnlinked s"
    "set (setBlockIndexCandidates u) = (if ?c then insert p (set (setBlockIndexCandidates s)) else set (setBlockIndexCandidates s))"
    using i by (simp_all add: u_def) (simp add: insert_candidate_def Let_def)
  have l: "w = map snd (filter (\<lambda>e. fst e = Some p) (mapBlocksUnlinked u))"
    "s' = u\<lparr>mapBlocksUnlinked := filter (\<lambda>e. fst e \<noteq> Some p) (mapBlocksUnlinked u)\<rparr>"
    using assms unfolding link_block_def Let_def chain_txs_def [symmetric] by (simp_all add: u_def)
  show "w = map snd (filter (\<lambda>e. fst e = Some p) (mapBlocksUnlinked s))"
    "mapBlocksUnlinked s' = filter (\<lambda>e. fst e \<noteq> Some p) (mapBlocksUnlinked s)"
    "heap s' = (heap s)(p := (heap s p)\<lparr>nChainTx := chain_txs (heap s) p\<rparr>)"
    "next_free s' = next_free s" "chainActive s' = chainActive s" "x \<noteq> p \<Longrightarrow> nSequenceId s' x = nSequenceId s x"
    using l u by simp_all
  show "set (setBlockIndexCandidates s) \<subseteq> set (setBlockIndexCandidates s')"
    "set (setBlockIndexCandidates s') \<subseteq> insert p (set (setBlockIndexCandidates s))"
    using l(2) u(6) by auto
  show "p \<in> set (setBlockIndexCandidates s')" if t: "\<And>t. Tip (chainActive s) = Some t \<Longrightarrow> t \<noteq> p \<and> \<not> work_less s' p t"
  proof -
    have "work_less s' a b = work_less ?t a b" for a b using l(2) u(1,4) by (simp add: work_less_def)
    then have ?c using t by (simp split: option.split)
    then show ?thesis using l(2) u(6) by simp
  qed
qed

text \<open>
  The invariant of the queue: the blocks of \<open>L\<close> are linked, and those of the queue have a linked predecessor, apart from the block \<open>p\<close> that
  the queue began with.
\<close>

definition linking :: "ptr \<Rightarrow> ptr set \<Rightarrow> ptr list \<Rightarrow> 'c chain_state \<Rightarrow> bool" where
  "linking p L queue s \<longleftrightarrow> waits_ok s \<and> (\<forall>q\<in>L. \<forall>x. (Some q, x) \<notin> set (mapBlocksUnlinked s))
     \<and> (\<forall>x\<in>L \<union> set queue. (x = p \<or> (\<exists>q\<in>L. pprev (heap s x) = Some q)) \<and> pprev (heap s p) \<noteq> Some x \<and> nHeight (heap s p) \<le> nHeight (heap s x))
     \<and> (\<forall>x\<in>L. nChainTx (heap s x) = chain_txs (heap s) x)
     \<and> (\<forall>x\<in>L. (\<forall>t. Tip (chainActive s) = Some t \<longrightarrow> t \<notin> L \<and> \<not> work_less s x t) \<longrightarrow> x \<in> set (setBlockIndexCandidates s))"

text \<open>The outcome: the released blocks are linked, have left the map, and are candidates when they are not worse than the tip.\<close>

definition links :: "'c chain_state \<Rightarrow> ptr set \<Rightarrow> 'c chain_state \<Rightarrow> bool" where
  "links s R s' \<longleftrightarrow> (\<forall>x\<in>R. nChainTx (heap s' x) = chain_txs (heap s') x)
     \<and> (\<forall>x. heap s' x = (heap s x)\<lparr>nChainTx := nChainTx (heap s' x)\<rparr> \<and> (x \<notin> R \<longrightarrow> heap s' x = heap s x \<and> nSequenceId s' x = nSequenceId s x))
     \<and> mapBlocksUnlinked s' = filter (\<lambda>e. fst e \<notin> Some ` R) (mapBlocksUnlinked s)
     \<and> next_free s' = next_free s \<and> chainActive s' = chainActive s
     \<and> set (setBlockIndexCandidates s) \<subseteq> set (setBlockIndexCandidates s') \<and> set (setBlockIndexCandidates s') \<subseteq> set (setBlockIndexCandidates s) \<union> R
     \<and> (\<forall>x\<in>R. (\<forall>t. Tip (chainActive s) = Some t \<longrightarrow> t \<notin> R \<and> \<not> work_less s' x t) \<longrightarrow> x \<in> set (setBlockIndexCandidates s'))"

lemma links_fields:
  assumes "links s R s'"
  shows "pprev (heap s' x) = pprev (heap s x)" "nTx (heap s' x) = nTx (heap s x)"
proof -
  have e: "heap s' x = (heap s x)\<lparr>nChainTx := nChainTx (heap s' x)\<rparr>" using assms by (simp add: links_def)
  show "pprev (heap s' x) = pprev (heap s x)" "nTx (heap s' x) = nTx (heap s x)" by (subst e, simp)+
qed

lemma linking_step:
  assumes inv: "linking p L (y # ps) s" and tree: "block_tree (heap s) {..<next_free s}" "p < next_free s" "y < next_free s"
    and l: "link_block y s = (w, s1)"
  shows "linking p (insert y L) (ps @ w) s1" "block_tree (heap s1) {..<next_free s1}" "set w \<subseteq> {..<next_free s1}"
proof -
  note f = link_block_facts [OF l]
  have h: "pprev (heap s1 x) = pprev (heap s x)" "nHeight (heap s1 x) = nHeight (heap s x)" "core (heap s1 x) = core (heap s x)"
    "nTx (heap s1 x) = nTx (heap s x)" "nChainWork (heap s1 x) = nChainWork (heap s x)" for x
    by (simp_all add: f(3) core_def)
  show "block_tree (heap s1) {..<next_free s1}" using block_tree_core [OF tree(1), of "heap s1"] h(3) f(4) by simp
  have inv': "waits_ok s" "\<And>q x. q \<in> L \<Longrightarrow> (Some q, x) \<notin> set (mapBlocksUnlinked s)"
    "\<And>x. x \<in> L \<Longrightarrow> nChainTx (heap s x) = chain_txs (heap s) x"
    "\<And>x. x \<in> L \<union> set (y # ps) \<Longrightarrow> (x = p \<or> (\<exists>q\<in>L. pprev (heap s x) = Some q)) \<and> pprev (heap s p) \<noteq> Some x \<and> nHeight (heap s p) \<le> nHeight (heap s x)"
    "\<And>x. x \<in> L \<Longrightarrow> (\<And>t. Tip (chainActive s) = Some t \<Longrightarrow> t \<notin> L \<and> \<not> work_less s x t) \<Longrightarrow> x \<in> set (setBlockIndexCandidates s)"
    using inv unfolding linking_def by blast+
  have w: "pprev (heap s x) = Some y" "x < next_free s" if "x \<in> set w" for x
    using that inv'(1) f(1) by (auto simp: waits_ok_def)
  show "set w \<subseteq> {..<next_free s1}" using w(2) f(4) by auto
  have higher: "nHeight (heap s x) = nHeight (heap s y) + 1" if "x \<in> set w" for x
    using bspec [OF tree(1) [unfolded block_tree_def], of x] w [OF that] by (simp add: entry_ok_def)
  have root: "nHeight (heap s q) < nHeight (heap s p)" if "pprev (heap s p) = Some q" for q
    using bspec [OF tree(1) [unfolded block_tree_def], of p] tree(2) that by (simp add: entry_ok_def)
  have txs: "chain_txs (heap s1) x = chain_txs (heap s) x" if "x \<in> L \<union> {y}" for x
  proof (cases "pprev (heap s x) = Some y")
    case True
    have yx: "y \<noteq> x" using bspec [OF tree(1) [unfolded block_tree_def], of y] tree(3) True by (auto simp: entry_ok_def)
    have "y \<in> L" using True inv'(4) [of x] inv'(4) [of y] that yx by auto
    then have "heap s1 y = heap s y" using inv'(3) [of y] f(3) by simp
    then show ?thesis using True h by (simp add: chain_txs_def)
  next
    case False
    then show ?thesis by (auto simp: chain_txs_def h f(3) split: option.split)
  qed
  have "waits_ok s1" using inv'(1) f(2,4) h(1) by (auto simp: waits_ok_def)
  moreover have "(Some q, x) \<notin> set (mapBlocksUnlinked s1)" if "q \<in> insert y L" for q x using that inv'(2) f(2) by auto
  moreover have "(x = p \<or> (\<exists>q\<in>insert y L. pprev (heap s1 x) = Some q)) \<and> pprev (heap s1 p) \<noteq> Some x \<and> nHeight (heap s1 p) \<le> nHeight (heap s1 x)"
    if "x \<in> insert y L \<union> set (ps @ w)" for x
  proof (cases "x \<in> set w")
    case True
    then have "nHeight (heap s p) < nHeight (heap s x)" using higher inv'(4) [of y] by fastforce
    then show ?thesis using w(1) [OF True] root [of x] h by auto
  qed (use inv'(4) [of x] that h in auto)
  moreover have "nChainTx (heap s1 x) = chain_txs (heap s1) x" if "x \<in> insert y L" for x
    using that inv'(3) [of x] txs [of x] f(3) by (cases "x = y") auto
  moreover have "x \<in> set (setBlockIndexCandidates s1)"
    if x: "x \<in> insert y L" and t: "\<And>t. Tip (chainActive s1) = Some t \<Longrightarrow> t \<notin> insert y L \<and> \<not> work_less s1 x t" for x
  proof (cases "x = y")
    case True
    then show ?thesis using f(9) t f(5) by auto
  next
    case False
    then have "work_less s1 x t = work_less s x t" if "t \<noteq> y" for t using f(6) that h(5) by (simp add: work_less_def)
    then have "x \<in> set (setBlockIndexCandidates s)" using inv'(5) [of x] x t f(5) False by auto
    then show ?thesis using f(7) by blast
  qed
  ultimately show "linking p (insert y L) (ps @ w) s1" unfolding linking_def by blast
qed

lemma link_queue_links:
  assumes "linking p L queue s" "block_tree (heap s) {..<next_free s}" "p < next_free s" "set queue \<subseteq> {..<next_free s}"
  shows "\<exists>s'. link_queue queue s = Some s' \<and> links s (L \<union> released (mapBlocksUnlinked s) (set queue)) s'"
  using assms
proof (induction "length queue + length (mapBlocksUnlinked s)" arbitrary: queue s L rule: less_induct)
  case (less queue s L)
  show ?case
  proof (cases "queue = []")
    case Nil: True
    have "released W {} = {}" for W using released.induct [of _ W "{}" "\<lambda>_. False"] by blast
    moreover have "filter (\<lambda>e. fst e \<notin> Some ` L) (mapBlocksUnlinked s) = mapBlocksUnlinked s"
      using less.prems(1) by (auto simp: linking_def filter_id_conv)
    ultimately show ?thesis using less.prems(1) Nil by (simp add: link_queue.simps links_def linking_def)
  next
    case False
    then obtain y ps where Cons: "queue = y # ps" by (cases queue) simp_all
    obtain w s1 where l: "link_block y s = (w, s1)" by (cases "link_block y s")
    note f = link_block_facts [OF l]
    have y: "y < next_free s" using less.prems(4) Cons by simp
    note st = linking_step [OF less.prems(1) [unfolded Cons] less.prems(2,3) y l]
    let ?R = "insert y L \<union> released (mapBlocksUnlinked s1) (set (ps @ w))"
    have R: "?R = L \<union> released (mapBlocksUnlinked s) (set queue)"
      using released_step [of L "mapBlocksUnlinked s" y ps] less.prems(1) Cons f(1,2) by (simp add: linking_def)
    have "length (ps @ w) + length (mapBlocksUnlinked s1) < length queue + length (mapBlocksUnlinked s)"
      using f(1,2) Cons sum_length_filter_compl [of "\<lambda>e. fst e = Some y" "mapBlocksUnlinked s"] by simp
    moreover have "set (ps @ w) \<subseteq> {..<next_free s1}" using st(3) less.prems(4) Cons f(4) by auto
    ultimately obtain s' where s': "link_queue (ps @ w) s1 = Some s'" "links s1 ?R s'"
      using less.hyps [of "ps @ w" s1 "insert y L"] st(1,2) less.prems(3) f(4) by auto
    have yR: "y \<in> ?R" by simp
    have "link_queue queue s = Some s'" using Cons l s'(1) by (subst link_queue.simps) simp
    moreover have "links s ?R s'"
    proof -
      have "mapBlocksUnlinked s' = filter (\<lambda>e. fst e \<notin> Some ` ?R) (mapBlocksUnlinked s)"
        using s'(2) yR f(2) by (auto simp: links_def intro!: filter_cong)
      moreover have "heap s' x = (heap s x)\<lparr>nChainTx := nChainTx (heap s' x)\<rparr>" for x
      proof -
        have "heap s' x = (heap s1 x)\<lparr>nChainTx := nChainTx (heap s' x)\<rparr>" using s'(2) by (simp add: links_def)
        then show ?thesis using f(3) by (cases "x = y") simp_all
      qed
      moreover have "heap s' x = heap s x \<and> nSequenceId s' x = nSequenceId s x" if "x \<notin> ?R" for x
        using s'(2) that yR f(3,6) by (auto simp: links_def)
      ultimately show ?thesis using s'(2) f(4,5,7,8) yR unfolding links_def by auto
    qed
    ultimately show ?thesis using R by simp
  qed
qed

text \<open>The state once the entry of the block tells where the block is stored.\<close>

definition stored_state :: "CBlock \<Rightarrow> ptr \<Rightarrow> int \<times> u32 \<Rightarrow> 'c chain_state \<Rightarrow> 'c chain_state" where
  "stored_state block p pos s = mark_dirty p (s\<lparr>heap := (heap s)(p := received_entry block pos (heap s p))\<rparr>)"

section \<open>Properties\<close>

text \<open>
  C6: invalidating a block of the active chain other than the genesis block ends without an error, provided that the map of blocks holds
  no \<open>NULL\<close>. The block is marked as failed; when it succeeds the parent of the block is the tip, and every valid block with its
  transactions that is not worse than this tip is a candidate again, in order.
\<close>

theorem InvalidateBlock_correct:
  assumes "act_ok s" "tx_linked s" "p < next_free s" "pprev (heap s p) = Some q" "Contains (heap s) (chainActive s) p"
    "\<And>h. h \<in> set order \<Longrightarrow> \<exists>x. mapBlockIndex s h = Some (Some x)"
  shows "\<exists>ok v' s'. InvalidateBlock E order v p s = Inr ((ok, v'), s') \<and> act_ok s' \<and> has_failed (heap s' p)
    \<and> (ok \<longrightarrow> Tip (chainActive s') = Some q \<and> \<not> Contains (heap s') (chainActive s') p
        \<and> (\<forall>h\<in>set order. \<forall>x. mapBlockIndex s h = Some (Some x) \<longrightarrow> IsValid (heap s' x) BLOCK_VALID_TRANSACTIONS \<longrightarrow>
             nChainTx (heap s' x) \<noteq> 0 \<longrightarrow> \<not> work_less s' x q \<longrightarrow> x \<in> set (setBlockIndexCandidates s')))"
proof -
  let ?s = "erase_candidate p (mark_dirty p (mark_status BLOCK_FAILED_VALID p s))"
  note si = mark_invalid_same [of s p]
  have ch: "chainActive ?s = chainActive s" and fp: "has_failed (heap ?s p)"
    by (simp_all add: erase_candidate_def mark_dirty_def mark_status_def same_status)
  have ok: "act_ok ?s" by (rule act_ok_same [OF assms(1) si ch])
  obtain t where t: "t < next_free s" "chainActive s = chain_of (heap s) t" using act_ok_tip [OF assms(1)] by blast
  have nf: "next_free ?s = next_free s" "mapBlockIndex ?s = mapBlockIndex s" using si by (simp_all add: same_index_def)
  have qn: "q < next_free s" "height_of (heap s) p = Suc (height_of (heap s) q)"
    using parent_cases [OF act_ok_parts(1) [OF assms(1)], of p] assms(3,4) by auto
  have ct: "Contains (heap ?s) (chainActive ?s) p" using assms(5) ch core_fields(3) [OF same_core [OF si]] by (simp add: Contains_def)
  obtain b v1 s1 where l: "lift_loop (invalidate_loop E p v ?s) = Inr ((b, v1), s1)" "same_index ?s s1" "act_ok s1"
      "b \<longrightarrow> chainActive s1 = chain_of (heap ?s) q"
    using invalidate_loop_runs [OF ok _ _ _ _ ct, of q t E v] t nf(1) assms(3,4) ch core_fields(2) [OF same_core [OF si]] same_anc(3) [OF si]
    by (auto simp: runs_def)
  have f1: "has_failed (heap s1 p)" using l(2) fp by (simp add: same_index_def same_entry_def)
  show ?thesis
  proof (cases b)
    case False
    then have "InvalidateBlock E order v p s = Inr ((False, v1), s1)" using l(1) by (simp add: InvalidateBlock_def bind_app alter_def)
    then show ?thesis using l(3) f1 by blast
  next
    case True
    have si1: "same_index s s1" by (rule same_index_trans [OF si l(2)])
    have "chainActive s1 = chain_of (heap s1) q" using True l(4) same_anc(3) [OF l(2)] by simp
    then have tip: "Tip (chainActive s1) = Some q" "\<not> Contains (heap s1) (chainActive s1) p"
      using tip_chain_of [OF l(3), of q] qn si1 Contains_chain_of [OF act_ok_parts(1) [OF l(3)], of p q] assms(3) same_anc(2) [OF si1]
      by (simp_all add: same_index_def)
    have maps: "mapBlockIndex s1 = mapBlockIndex s" using si1 by (simp add: same_index_def)
    obtain s2 where r: "readd_candidates order s1 = Inr ((), s2)" "readded s1 order s2"
      using readd_runs [OF l(3) tx_linked_same [OF assms(2) si1], of order] assms(6) maps by (auto simp: runs_def)
    have ok2: "act_ok s2" using r(2) by (simp add: readded_def)
    obtain s3 where i: "InvalidChainFound E p s2 = Inr ((), s3)" "quiet s2 s3" using InvalidChain_runs [OF ok2] by (auto simp: runs_def)
    have run: "InvalidateBlock E order v p s = Inr ((True, v1), s3)" using l(1) True r(1) i(1) by (simp add: InvalidateBlock_def bind_app alter_def)
    have h: "heap s3 = heap s1" "chainActive s3 = chainActive s1" "setBlockIndexCandidates s3 = setBlockIndexCandidates s2"
      "\<And>a b. work_less s3 a b = work_less s1 a b" using r(2) i(2) by (simp_all add: readded_def quiet_def work_less_def)
    show ?thesis
      by (intro exI conjI, rule run, rule quiet_act_ok [OF ok2 i(2)]) (use f1 tip maps r(2) h in \<open>auto simp: readded_def\<close>)
  qed
qed

text \<open>
  C35: receiving the transactions of a block always returns and succeeds. When the predecessor of the block has its transactions, or
  there is none, the block and all blocks that waited for it, directly or through others, are linked: each has the number of transactions of
  its predecessor and its own added up, leaves the map of waiting blocks, and becomes a candidate unless it is worse than the tip; other
  entries and waiting blocks stay. Otherwise the block itself waits for its predecessor, when the header of that is valid. The
  index is a tree, and a block that waits is listed under its predecessor.
\<close>

theorem ReceivedBlockTransactions_links:
  assumes "block_tree (heap s) {..<next_free s}" "p < next_free s" "waits_ok s"
  shows "\<exists>s'. ReceivedBlockTransactions block v p pos s = Inr ((True, v), s') \<and> waits_ok s'
    \<and> (if \<forall>q. pprev (heap s p) = Some q \<longrightarrow> nChainTx (heap s q) \<noteq> 0
       then links (stored_state block p pos s) (released (mapBlocksUnlinked s) {p}) s'
       else s' = (stored_state block p pos s)\<lparr>mapBlocksUnlinked := mapBlocksUnlinked s
         @ (if \<forall>q. pprev (heap s p) = Some q \<longrightarrow> IsValid (heap s q) BLOCK_VALID_TREE then [(pprev (heap s p), p)] else [])\<rparr>)"
proof -
  define s1 where "s1 = stored_state block p pos s"
  have c: "core (heap s1 x) = core (heap s x)" and w: "mapBlocksUnlinked s1 = mapBlocksUnlinked s" "next_free s1 = next_free s" for x
    by (simp_all add: s1_def stored_state_def mark_dirty_def received_entry_def RaiseValidity_def IndexSetProofOfStake_def core_def Let_def)
  note pp = core_fields(2,3) [OF c]
  have tree: "block_tree (heap s1) {..<next_free s1}" using block_tree_core [OF assms(1), of "heap s1"] c w(2) by simp
  have other: "q \<noteq> p \<and> heap s1 q = heap s q" if "pprev (heap s p) = Some q" for q
    using bspec [OF assms(1) [unfolded block_tree_def], of p] assms(2) that by (auto simp: entry_ok_def s1_def stored_state_def mark_dirty_def)
  have ok: "waits_ok s1" using assms(3) pp w by (simp add: waits_ok_def)
  have "linking p {} [p] s1" using ok other [of p] pp(1) by (auto simp: linking_def)
  then obtain s2 where s2: "link_queue [p] s1 = Some s2" "links s1 (released (mapBlocksUnlinked s) {p}) s2"
    using link_queue_links [of p "{}" "[p]" s1] tree assms(2) w by auto
  note links_fields(1) [OF s2(2)]
  then have ok2: "waits_ok s2" using ok s2(2) by (auto simp: waits_ok_def links_def)
  have m: "alter (\<lambda>s. mark_dirty p (s\<lparr>heap := (heap s)(p := received_entry block pos (heap s p))\<rparr>)) s = Inr ((), s1)"
    by (simp add: alter_def s1_def stored_state_def)
  note stored = s1_def [symmetric]
  show ?thesis
  proof (cases "pprev (heap s p)")
    case None
    then show ?thesis using s2 ok2 pp(1) by (simp add: ReceivedBlockTransactions_def bind_app m stored)
  next
    case (Some q)
    have "waits_ok (s1\<lparr>mapBlocksUnlinked := mapBlocksUnlinked s @ [(Some q, p)]\<rparr>)"
      using ok w pp Some assms(2) by (auto simp: waits_ok_def)
    moreover have "waits_ok (s1\<lparr>mapBlocksUnlinked := mapBlocksUnlinked s\<rparr>)" using ok w(1) by (simp add: waits_ok_def)
    ultimately show ?thesis
      using Some s2 ok2 ok pp(1) other w by (auto simp: ReceivedBlockTransactions_def bind_app m stored, auto simp: alter_def)
  qed
qed

text \<open>Disconnecting the genesis block dereferences the tip that is no longer there.\<close>

lemma genesis_disconnect_crashes:
  assumes "Tip (chainActive s) = Some g" "pprev (heap s g) = None" "ReadBlockFromDisk E (heap s g) = Some block"
    "DisconnectCoins E block g s = Some c" "\<not> DiskFull E c"
  shows "DisconnectTip E v s = Inl NullDereference"
  using assms by (simp add: DisconnectTip_def UpdateTip_def bind_app gets_def deref_app alter_def SetTip_def)

text \<open>A \<open>NULL\<close> in the map of blocks is dereferenced, by \<open>InvalidateBlock\<close> and by \<open>ReconsiderBlock\<close>.\<close>

lemma null_entry_crashes: 
  "mapBlockIndex s h = Some None \<Longrightarrow> readd_candidates (h # order) s = Inl NullDereference \<and> ReconsiderBlock (h # order) v p s = Inl NullDereference"
  by (simp add: ReconsiderBlock_def bind_app deref_app)

text \<open>The chain of two blocks, both active; the upper one is invalidated.\<close>

lemma both_active: "act_ok (two_blocks\<lparr>chainActive := [Some 0, Some 1]\<rparr>)"
proof -
  have "chain_of demo_entry 1 = [Some 0, Some 1]" by (simp add: chain_of_def height_of_def anc_def)
  then show ?thesis by (intro act_ok_step [OF two_blocks_ok same_updates(6), of 1]) (simp_all add: two_blocks_def)
qed

theorem InvalidateBlock_correct_witness:
  "\<exists>ok v' s'. InvalidateBlock two_env [set_uint256 5, set_uint256 1] NewState 1 (two_blocks\<lparr>chainActive := [Some 0, Some 1]\<rparr>) = Inr ((ok, v'), s')
    \<and> act_ok s' \<and> has_failed (heap s' 1)
    \<and> (ok \<longrightarrow> Tip (chainActive s') = Some 0 \<and> \<not> Contains (heap s') (chainActive s') 1
        \<and> (\<forall>h\<in>set [set_uint256 5, set_uint256 1]. \<forall>x. mapBlockIndex (two_blocks\<lparr>chainActive := [Some 0, Some 1]\<rparr>) h = Some (Some x) \<longrightarrow>
             IsValid (heap s' x) 3 \<longrightarrow> nChainTx (heap s' x) \<noteq> 0 \<longrightarrow> \<not> work_less s' x 0 \<longrightarrow> x \<in> set (setBlockIndexCandidates s')))"
proof (rule InvalidateBlock_correct [OF both_active])
  show "tx_linked (two_blocks\<lparr>chainActive := [Some 0, Some 1]\<rparr>)" by (simp add: tx_linked_def linked_def two_blocks_def)
  show "\<exists>x. mapBlockIndex (two_blocks\<lparr>chainActive := [Some 0, Some 1]\<rparr>) h = Some (Some x)" if "h \<in> set [set_uint256 5, set_uint256 1]" for h
    using that by (auto simp: two_blocks_def)
qed (simp_all add: two_blocks_def Contains_def chain_at_def)

text \<open>A third block waits for the second one, which receives its transactions.\<close>

definition three_entry :: "ptr \<Rightarrow> CBlockIndex" where
  "three_entry p = (demo_entry p)\<lparr>pprev := (if p = 0 then None else Some (p - 1)), nChainTx := (if p = 0 then 1 else 0), nTx := (if p = 2 then 5 else 1)\<rparr>"

definition three_blocks :: "unit chain_state" where
  "three_blocks = two_blocks\<lparr>heap := three_entry, next_free := 3, mapBlocksUnlinked := [(Some 1, 2)]\<rparr>"

lemma three_blocks_facts:
  "block_tree (heap three_blocks) {..<next_free three_blocks}" "waits_ok three_blocks" "1 < next_free three_blocks"
proof -
  have "entry_ok three_entry {..<3} p" if "p < 3" for p :: ptr
    using that by (cases "p = 0"; cases "p = 1"; cases "p = 2") (auto simp: entry_ok_def three_entry_def GetSkipHeight_def InvertLowestOne_def numeral_2_eq_2)
  then show "block_tree (heap three_blocks) {..<next_free three_blocks}" by (simp add: block_tree_def three_blocks_def)
qed (simp_all add: waits_ok_def three_blocks_def three_entry_def)

theorem ReceivedBlockTransactions_links_witness:
  "\<exists>s'. ReceivedBlockTransactions demo_work_block NewState 1 (0, 8) three_blocks = Inr ((True, NewState), s')
    \<and> mapBlocksUnlinked s' = [] \<and> nChainTx (heap s' 1) = 2 \<and> nChainTx (heap s' 2) = 7"
proof -
  have "p \<in> {1, 2}" if "p \<in> released [(Some 1, 2)] {1}" for p :: ptr using that by (induction rule: released.induct) auto
  moreover have "1 \<in> released [(Some 1, 2)] {1 :: ptr}" "2 \<in> released [(Some 1, 2)] {1 :: ptr}"
    using released.waiting [OF released.queued, of 1 "{1}" 2 "[(Some 1, 2)]"] by (simp_all add: released.queued)
  ultimately have R: "released [(Some 1, 2)] {1} = {1, 2 :: ptr}" by blast
  let ?t = "stored_state demo_work_block 1 (0, 8) three_blocks"
  have t: "pprev (heap ?t 1) = Some 0" "pprev (heap ?t 2) = Some 1" "nTx (heap ?t 1) = 1" "nTx (heap ?t 2) = 5" "nChainTx (heap ?t 0) = 1"
    "mapBlocksUnlinked ?t = [(Some 1, 2)]"
    by (simp_all add: stored_state_def mark_dirty_def received_entry_def RaiseValidity_def IndexSetProofOfStake_def Let_def
        three_blocks_def three_entry_def demo_work_block_def NullBlock_def)
  obtain s' where s': "ReceivedBlockTransactions demo_work_block NewState 1 (0, 8) three_blocks = Inr ((True, NewState), s')" "links ?t {1, 2} s'"
    using ReceivedBlockTransactions_links [OF three_blocks_facts(1,3,2), of demo_work_block NewState "(0, 8)"] R
    by (auto simp: three_blocks_def three_entry_def)
  have "nChainTx (heap s' 1) = chain_txs (heap s') 1" "nChainTx (heap s' 2) = chain_txs (heap s') 2" "heap s' 0 = heap ?t 0"
    using s'(2) by (simp_all add: links_def)
  then have "nChainTx (heap s' 1) = 2" "nChainTx (heap s' 2) = 7" using t links_fields [OF s'(2)] by (simp_all add: chain_txs_def)
  moreover have "mapBlocksUnlinked s' = []" using s'(2) t(6) by (simp add: links_def)
  ultimately show ?thesis using s'(1) by blast
qed

end
