(* ===== verification/Spec2Isabelle.thy ===== *)
theory Spec2Isabelle
  imports Compact_Bits Script_Limits Script_Standard Disk_Index Index_Steps Coins_Update Key_Images
    Ring_Example Wallet_Types Chain_Invalid
begin

text \<open>
  DAPS is a proof-of-stake crypto-currency node derived from Bitcoin and PIVX: proof-of-work, proof-of-stake and
  proof-of-audit blocks, ring signatures with key images, masternodes. This development models the consensus code of the
  node, the sources under \<open>src/\<close> named below, by definitions that follow the code branch by branch, and proves what makes
  them correct. A statement of the form \<open>C1\<close> to \<open>C40\<close> in a text block announces a property of the program.

  Conventions. Machine integers are words of their width (\<open>u8\<close> is \<open>byte\<close>, \<open>u32\<close>, \<open>u64\<close>); a signed integer is an \<open>int\<close>, with
  \<open>wrap64\<close> written out where the code can overflow. A \<open>uint256\<close> is the list of its eight 32-bit limbs, as the array of the
  class. Byte vectors, scripts and streams are lists of bytes. A \<open>CBlockIndex*\<close> is an address into a store, \<open>None\<close> for
  \<open>NULL\<close>. What the code throws, asserts or dereferences wrongly is a value of an error type; a loop that may not end is a
  partial function into \<open>option\<close>, whose \<open>None\<close> is the run that does not end, and theorems say where that cannot happen. Hash
  functions, signature checks, the curve library, the block files and the clock are arguments or fields of an environment.

  Numbers (\<open>Base_Uint\<close>, \<open>Uint_Interface\<close>, \<open>Compact_Bits\<close>): the template \<open>base_uint\<close> of \<open>uint256.h\<close> and \<open>uint256.cpp\<close> limb by
  limb, with \<open>val\<close> as its abstraction to the natural numbers; every operator refines the one on numbers modulo \<open>2 ^ BITS\<close>,
  division is exact, and the compact form of a target is read and written without losing more than low bytes.

  Encodings (\<open>Codec\<close>, \<open>Serialize\<close>, \<open>Pub_Key\<close>, \<open>Transaction\<close>, \<open>Block\<close>, \<open>Merkle\<close>, \<open>Disk_Index\<close>, \<open>Compressor\<close>, \<open>Coins\<close>): \<open>serialize.h\<close> and the
  \<open>Serialize\<close>/\<open>Unserialize\<close> methods of the classes. The locale \<open>prefix_codec\<close> is the contract of a pair of writer and reader,
  interpreted for each of them; it gives round trips and unambiguous concatenation. \<open>Merkle\<close> has the tree builder of
  \<open>primitives/block.cpp\<close>, its branches and the detection of duplicated rows.

  Scripts (\<open>Opcodes\<close>, \<open>Script_Num\<close>, \<open>Script_Code\<close>, \<open>Script_Sig_Enc\<close>, \<open>Script_Eval\<close>, \<open>Script_Limits\<close>, \<open>Script_Standard\<close>): \<open>script/script.*\<close>,
  \<open>script/interpreter.*\<close> and \<open>script/standard.*\<close>. \<open>EvalScript\<close> is one function over a state of program counter, stacks and
  counters, with a branch per opcode; the lemmas show its limits, the encodings it accepts, what \<open>OP_CHECKMULTISIG\<close>
  decides, and that the empty vector counting as true makes pay-to-pubkey and pay-to-script-hash spends unchecked.

  The block index (\<open>Block_Index\<close>, \<open>Active_Chain\<close>, \<open>Node_State\<close>, \<open>Header_Index\<close>, \<open>Index_Invariant\<close>, \<open>Index_Steps\<close>): \<open>chain.h\<close>, \<open>chain.cpp\<close> and
  the part of \<open>main.cpp\<close> that adds headers. \<open>GetAncestor\<close>, \<open>SetTip\<close>, \<open>FindFork\<close> and \<open>GetLocator\<close> are shown equal to their
  specifications on trees; \<open>node\<close> is the state that the validation code shares and \<open>step\<close> its monad; \<open>index_ok\<close> is the
  invariant of the index, kept by every step of \<open>index_step\<close> and so true in every \<open>reachable\<close> state.

  The active chain (\<open>Chain_State\<close>, \<open>Chain_Frame\<close>, \<open>Chain_Steps\<close>, \<open>Chain_Activation\<close>, \<open>Best_Chain\<close>, \<open>Chain_Results\<close>, \<open>Chain_Invalid\<close>): from
  \<open>main.cpp\<close> the candidates for a tip and all that moves it, from \<open>FindMostWorkChain\<close> to \<open>InvalidateBlock\<close>. The results of the checks of
  \<open>ConnectBlock\<close> and \<open>DisconnectBlock\<close> are functions of the environment. \<open>act_ok\<close> says when a chain can be activated; \<open>same_index\<close> is what every
  step keeps, \<open>runs\<close> that a step ends without an error. \<open>progress_order\<close> is the order in which the rounds of \<open>ActivateBestChain\<close> descend:
  blocks not known to be invalid, candidates, blocks missing on the way to the best one. \<open>corrupt_block\<close> is a block that \<open>ConnectBlock\<close>
  would call invalid and possibly corrupt; with one, that loop may not end. The order of two entries by their address, which breaks the
  last tie between candidates, is the one in which they were allocated.

  Rules (\<open>Chain_Params\<close>, \<open>Work\<close>, \<open>Rewards\<close>, \<open>Poa_Checks\<close>, \<open>Kernel\<close>, \<open>Validation\<close>): \<open>chainparams.cpp\<close>, \<open>pow.cpp\<close>, \<open>kernel.cpp\<close>,
  \<open>checkpoints.cpp\<close>, and from \<open>main.cpp\<close> the rewards, \<open>CheckTransaction\<close>, \<open>CheckBlock\<close> and their contextual counterparts. The
  lemmas bound targets and rewards, say what an accepted block guarantees, and which blocks an audit block audits.

  Unspent outputs (\<open>Coins\<close>, \<open>Coins_View\<close>, \<open>Coins_DB\<close>, \<open>Coins_Update\<close>): \<open>coins.*\<close>, \<open>undo.h\<close>, the coin part of \<open>txdb.cpp\<close>, and from \<open>main.cpp\<close>
  \<open>UpdateCoins\<close> and \<open>DisconnectBlock\<close>. The locale \<open>coins_view\<close> is the contract of a view: \<open>live\<close> is the map from transactions to
  unspent outputs that it stands for. A cache over a view is a view again, so the locale is interpreted for the database
  and for the cache over it, and the lemmas say what reading, modifying, flushing, connecting and disconnecting do to \<open>live\<close>, which
  holds amounts and scripts only, as the database does: the other fields of an output are not stored. Disconnecting restores all of it but
  the marks of coinstakes that were spent entirely (\<open>lost_marks\<close>).

  The block database and double spending (\<open>Block_DB\<close>, \<open>Key_Images\<close>): the block tree database of \<open>txdb.cpp\<close>, and the check of key
  images in \<open>ConnectBlock\<close>. \<open>image_states\<close> are the states reached by headers, connections and interrupted connections in any
  order; in all of them the check is exact, except that the empty image of an invalid key passes always. The counters of the database
  are kept below \<open>2 ^ 31\<close> records by \<open>has_room\<close>.

  Privacy (\<open>Curve_Keys\<close>, \<open>Stealth_Wallet\<close>, \<open>Wallet_Types\<close>, \<open>Ring_Signature\<close>, \<open>Ring_Complete\<close>, \<open>Ring_Limits\<close>, \<open>Ring_Example\<close>): from
  \<open>wallet.cpp\<close> the key images, stealth destinations, hidden amounts, the scan of a transaction and \<open>makeRingCT\<close>, from \<open>main.cpp\<close>
  \<open>VerifyRingSignatureWithTxFee\<close> and the signature of a stake. The record \<open>curve\<close> holds the operations of the two secp256k1 libraries;
  \<open>curve_laws\<close> is what they document, a cyclic group of prime order in which a point has one compressed form, and
  \<open>small_curve\<close> a group of seven elements that satisfies it. The lemmas show that what the wallet signs the node accepts, when the
  challenges of the ring (\<open>ring_challenges\<close>) are in range, that the receiver finds what is paid to any of its addresses and reads the amounts
  hidden for its master address, that the state of the wallet stays well typed, and which inputs the checks do not survive.

  Bounds and fuel. No definition takes fuel: loops of the code recurse structurally, by a measure, or as partial functions
  over \<open>option\<close>. The lengths that occur (520 bytes of an element, 10000 of a script, \<open>MAX_SIZE\<close> of a vector, 64 rounds of a
  stake modifier) are those of the code.

  Not modelled. The arithmetic of the curve, range proofs and OpenSSL; input and output (files,
  sockets, the graphical interface, remote procedure calls, configuration, logging, threads, locks and clocks); the rest of the
  wallet, the memory pool, masternode messages and mixing; vendored libraries. Where modelled code calls such code, the call is a
  parameter. Within \<open>main.cpp\<close> the rest of \<open>ConnectBlock\<close>, the files of blocks and the handling of messages are not modelled.
\<close>

end
